(* ===== verification/Prelude.thy ===== *)
theory Prelude
  imports Complex_Main "HOL-Library.Sublist" "HOL-Library.Word"
begin

section \<open>Prelude: C strings, decimal text and the shared automation\<close>

text \<open>
  The vocabulary that every component of the agent shares.  A C string (a char pointer read up
  to its terminating NUL) is a \<^typ>\<open>string\<close>, one \<^typ>\<open>char\<close> per byte, without the NUL; a
  counted byte buffer is a \<^typ>\<open>string\<close> that may hold NUL bytes, and \<open>cstr\<close> is what the
  string functions of libc see of it.  The functions of \<^verbatim>\<open>string.h\<close> and \<^verbatim>\<open>stdio.h\<close> the program
  calls are defined here with the pointers they return as suffixes of the string they search.
\<close>

named_theorems frame \<open>what an operation leaves unchanged\<close>
named_theorems inv_intro \<open>an operation keeps an invariant\<close>

abbreviation NUL :: char where "NUL \<equiv> CHR 0x00"
abbreviation TAB :: char where "TAB \<equiv> CHR 0x09"
abbreviation LF :: char where "LF \<equiv> CHR 0x0A"
abbreviation CR :: char where "CR \<equiv> CHR 0x0D"
abbreviation ESC :: char where "ESC \<equiv> CHR 0x1B"
abbreviation QUOTE :: char where "QUOTE \<equiv> CHR 0x22"
abbreviation APOS :: char where "APOS \<equiv> CHR 0x27"
abbreviation BSLASH :: char where "BSLASH \<equiv> CHR 0x5C"

text \<open>A byte as an unsigned number (the cast \<^verbatim>\<open>(unsigned char)c\<close>) and back.\<close>

definition byte :: "char \<Rightarrow> nat" where
  "byte c = of_char c"

definition chr :: "nat \<Rightarrow> char" where
  "chr n = char_of n"

text \<open>Evaluating characters and digits in closed terms.\<close>

lemmas char_eval = byte_def chr_def char_of_def

lemma byte_lt [simp]: "byte c < 256"
  by (simp add: byte_def)

lemma chr_byte [simp]: "chr (byte c) = c"
  by (simp add: byte_def chr_def)

lemma byte_chr: "n < 256 \<Longrightarrow> byte (chr n) = n"
  by (simp add: byte_def chr_def)

lemma byte_inject [simp]: "byte c = byte d \<longleftrightarrow> c = d"
  by (simp add: byte_def)

lemma byte_NUL [simp]: "byte NUL = 0"
  by (simp add: byte_def)

subsection \<open>C strings\<close>

definition cstr :: "string \<Rightarrow> string" where
  "cstr s = takeWhile (\<lambda>c. c \<noteq> NUL) s"

definition no_nul :: "string \<Rightarrow> bool" where
  "no_nul s \<longleftrightarrow> NUL \<notin> set s"

lemma no_nul_simps [simp]:
  "no_nul []"
  "no_nul (c # s) \<longleftrightarrow> c \<noteq> NUL \<and> no_nul s"
  "no_nul (s @ t) \<longleftrightarrow> no_nul s \<and> no_nul t"
  by (auto simp: no_nul_def)

lemma cstr_Nil [simp]: "cstr [] = []"
  by (simp add: cstr_def)

lemma cstr_id [simp]: "no_nul s \<Longrightarrow> cstr s = s"
  by (auto simp: cstr_def no_nul_def takeWhile_eq_all_conv)

lemma no_nul_cstr [simp]: "no_nul (cstr s)"
  by (auto simp: cstr_def no_nul_def dest: set_takeWhileD)

lemma no_nul_take: "no_nul s \<Longrightarrow> no_nul (take n s)"
  by (auto simp: no_nul_def dest: in_set_takeD)

lemma no_nul_drop: "no_nul s \<Longrightarrow> no_nul (drop n s)"
  by (auto simp: no_nul_def dest: in_set_dropD)

lemma cstr_append: "no_nul s \<Longrightarrow> cstr (s @ t) = s @ cstr t"
  by (induction s) (simp_all add: cstr_def)

lemma cstr_append_stop: "\<not> no_nul s \<Longrightarrow> cstr (s @ t) = cstr s"
  by (auto simp: cstr_def no_nul_def takeWhile_append)

lemma length_cstr: "length (cstr s) \<le> length s"
  by (simp add: cstr_def length_takeWhile_le)

text \<open>
  \<^verbatim>\<open>strncpy(d, s, sizeof d - 1); d[sizeof d - 1] = 0\<close> and \<^verbatim>\<open>snprintf(d, sizeof d, "%s", s)\<close> both
  leave the first \<open>size - 1\<close> bytes of the source string.
\<close>

definition fit :: "nat \<Rightarrow> string \<Rightarrow> string" where
  "fit n s = take (n - 1) s"

lemma length_fit: "0 < n \<Longrightarrow> length (fit n s) < n"
  by (auto simp: fit_def min_def)

lemma fit_id: "length s < n \<Longrightarrow> fit n s = s"
  by (simp add: fit_def)

lemma no_nul_fit: "no_nul s \<Longrightarrow> no_nul (fit n s)"
  by (simp add: fit_def no_nul_take)

text \<open>\<^verbatim>\<open>strchr\<close> and \<^verbatim>\<open>strstr\<close> return the suffix the result points to, or \<^term>\<open>None\<close> for NULL.\<close>

fun strchr :: "string \<Rightarrow> char \<Rightarrow> string option" where
  "strchr [] c = None"
| "strchr (x # xs) c = (if x = c then Some (x # xs) else strchr xs c)"

fun strstr :: "string \<Rightarrow> string \<Rightarrow> string option" where
  "strstr h n = (if prefix n h then Some h else case h of [] \<Rightarrow> None | _ # t \<Rightarrow> strstr t n)"

declare strstr.simps [simp del]

text \<open>\<^verbatim>\<open>strncmp(s, t, strlen t) == 0\<close> for a literal \<open>t\<close>, and its case-insensitive variant.\<close>

definition starts :: "string \<Rightarrow> string \<Rightarrow> bool" where
  "starts t s \<longleftrightarrow> take (length t) s = t"

definition lower :: "char \<Rightarrow> char" where
  "lower c = (if 65 \<le> byte c \<and> byte c \<le> 90 then chr (byte c + 32) else c)"

definition starts_ci :: "string \<Rightarrow> string \<Rightarrow> bool" where
  "starts_ci t s \<longleftrightarrow> map lower (take (length t) s) = map lower t"

lemma starts_append [simp]: "starts t (t @ s)"
  by (simp add: starts_def)

lemma starts_prefix: "starts t s \<longleftrightarrow> prefix t s"
  unfolding starts_def by (metis append_eq_conv_conj append_take_drop_id prefix_def)

lemma strchr_Some:
  "strchr s c = Some r \<longleftrightarrow> (\<exists>a b. s = a @ c # b \<and> r = c # b \<and> c \<notin> set a)"
proof (induction s)
  case Nil
  then show ?case by simp
next
  case (Cons x xs)
  show ?case
  proof (cases "x = c")
    case True
    then show ?thesis
      by (force simp: Cons_eq_append_conv)
  next
    case False
    have "(\<exists>a b. x # xs = a @ c # b \<and> r = c # b \<and> c \<notin> set a)
        \<longleftrightarrow> (\<exists>a b. xs = a @ c # b \<and> r = c # b \<and> c \<notin> set a)"
      using False by (auto simp: Cons_eq_append_conv intro: exI [of _ "x # _"])
    with False Cons.IH show ?thesis by (simp only: strchr.simps if_False)
  qed
qed

lemma strchr_None: "strchr s c = None \<longleftrightarrow> c \<notin> set s"
  by (induction s) auto

lemma strstr_Some_decomp:
  "strstr h n = Some r \<Longrightarrow> \<exists>a b. h = a @ r \<and> r = n @ b"
proof (induction h)
  case Nil
  then show ?case by (auto simp: strstr.simps split: if_splits elim: prefixE)
next
  case (Cons x h)
  show ?case
  proof (cases "prefix n (x # h)")
    case True
    with Cons.prems show ?thesis by (subst (asm) strstr.simps) (auto elim!: prefixE)
  next
    case False
    with Cons.prems have "strstr h n = Some r" by (subst (asm) strstr.simps) simp
    then obtain a b where "h = a @ r" "r = n @ b" using Cons.IH by blast
    then have "x # h = (x # a) @ r \<and> r = n @ b" by simp
    then show ?thesis by blast
  qed
qed

lemma strstr_None: "strstr h n = None \<Longrightarrow> h \<noteq> a @ n @ b"
proof (induction h arbitrary: a)
  case Nil
  then show ?case by (auto simp: strstr.simps split: if_splits)
next
  case (Cons x h)
  from Cons.prems have np: "\<not> prefix n (x # h)" and rest: "strstr h n = None"
    by (subst (asm) strstr.simps, simp split: if_splits)+
  show ?case
  proof (cases a)
    case Nil
    with np show ?thesis by (auto simp: prefix_def)
  next
    case (Cons y a')
    with rest Cons.IH [of a'] show ?thesis by auto
  qed
qed

subsection \<open>Decimal text\<close>

definition digit :: "nat \<Rightarrow> char" where
  "digit d = chr (48 + d)"

definition is_digit :: "char \<Rightarrow> bool" where
  "is_digit c \<longleftrightarrow> 48 \<le> byte c \<and> byte c \<le> 57"

definition digit_val :: "char \<Rightarrow> nat" where
  "digit_val c = byte c - 48"

fun show_nat :: "nat \<Rightarrow> string" where
  "show_nat n = (if n < 10 then [digit n] else show_nat (n div 10) @ [digit (n mod 10)])"

declare show_nat.simps [simp del]

definition show_int :: "int \<Rightarrow> string" where
  "show_int i = (if i < 0 then CHR ''-'' # show_nat (nat (- i)) else show_nat (nat i))"

text \<open>Reading digits: \<open>dec_val\<close> of a digit string is its value.\<close>

definition dec_val :: "string \<Rightarrow> nat" where
  "dec_val ds = foldl (\<lambda>n c. 10 * n + digit_val c) 0 ds"

lemma byte_digit [simp]: "d < 10 \<Longrightarrow> byte (digit d) = 48 + d"
  by (simp add: digit_def byte_chr)

lemma is_digit_digit [simp]: "d < 10 \<Longrightarrow> is_digit (digit d)"
  by (simp add: is_digit_def)

lemma digit_val_digit [simp]: "d < 10 \<Longrightarrow> digit_val (digit d) = d"
  by (simp add: digit_val_def)

lemma is_digit_not_NUL [simp]: "is_digit c \<Longrightarrow> c \<noteq> NUL"
  by (auto simp: is_digit_def)

lemma show_nat_digits: "c \<in> set (show_nat n) \<Longrightarrow> is_digit c"
proof (induction n rule: show_nat.induct)
  case (1 n)
  then show ?case by (subst (asm) (2) show_nat.simps) (auto split: if_splits)
qed

lemma show_nat_nonempty [simp]: "show_nat n \<noteq> []"
  by (subst show_nat.simps) simp

lemma dec_val_snoc: "dec_val (ds @ [c]) = 10 * dec_val ds + digit_val c"
  by (simp add: dec_val_def)

lemma dec_val_show_nat [simp]: "dec_val (show_nat n) = n"
proof (induction n rule: show_nat.induct)
  case (1 n)
  show ?case
  proof (cases "n < 10")
    case True
    then show ?thesis by (subst show_nat.simps) (simp add: dec_val_def)
  next
    case False
    with "1.IH" show ?thesis by (subst show_nat.simps) (simp add: dec_val_snoc)
  qed
qed

lemma no_nul_show_nat [simp]: "no_nul (show_nat n)"
  using show_nat_digits is_digit_not_NUL by (fastforce simp: no_nul_def)

lemma no_nul_show_int [simp]: "no_nul (show_int i)"
  by (simp add: show_int_def)

lemma length_show_nat_bound: "n < 10 ^ k \<Longrightarrow> 0 < k \<Longrightarrow> length (show_nat n) \<le> k"
proof (induction n arbitrary: k rule: show_nat.induct)
  case (1 n)
  show ?case
  proof (cases "n < 10")
    case True
    with "1.prems" show ?thesis by (subst show_nat.simps) simp
  next
    case False
    with "1.prems" obtain k' where k: "k = Suc k'" "0 < k'"
      by (cases k; cases "k - 1") auto
    with "1.prems" have "n div 10 < 10 ^ k'" by (simp add: less_mult_imp_div_less mult.commute)
    with False k "1.IH" have "length (show_nat (n div 10)) \<le> k'" by blast
    with False k show ?thesis by (subst show_nat.simps) simp
  qed
qed

end
