(* ===== verification/Config.thy ===== *)
theory Config
  imports Prelude
begin

section \<open>Compile-time configuration (config.def.h)\<close>

text \<open>The Makefile copies \<^verbatim>\<open>config.def.h\<close> to \<^verbatim>\<open>config.h\<close>; these are the values it ships.\<close>

definition BASE_SYSTEM :: string where
  "BASE_SYSTEM = ''You are a concise assistant. Use the shell tool for system questions. Keep replies short.''"

definition SESSION_PATH :: string where "SESSION_PATH = ''.sa_session.jsonl''"
definition MAX_SKILLS :: nat where "MAX_SKILLS = 128"
definition MAX_RULES :: nat where "MAX_RULES = 64"
definition MAX_RULE_PATHS :: nat where "MAX_RULE_PATHS = 8"
definition MAX_BLOCKS :: nat where "MAX_BLOCKS = 64"
definition MAX_TOOL_ITER :: nat where "MAX_TOOL_ITER = 60"
definition MAX_SSE_LINE :: nat where "MAX_SSE_LINE = 2 ^ 20"
definition MAX_BLOCK_SIZE :: nat where "MAX_BLOCK_SIZE = 2 ^ 20"

end
