(* ===== verification/World.thy ===== *)
theory World
  imports Prelude
begin

section \<open>The process and its surroundings\<close>

text \<open>
  What the functions of main.c read and write outside their arguments: the globals
  (\<^verbatim>\<open>g_interrupt\<close>, \<^verbatim>\<open>g_debug\<close>, \<^verbatim>\<open>g_json\<close> and two static flags), the standard streams, the file
  system, and the answers the operating system, the TLS connection and the shell will give, each
  a script that the calls consume.  Every answer is arbitrary: a theorem about all worlds is a
  theorem about all answers.
\<close>

text \<open>A regular file: its bytes and its permission bits.\<close>

record fs_file =
  content :: string
  mode :: nat

text \<open>The wait status of a child as \<^verbatim>\<open>WIFEXITED\<close> and \<^verbatim>\<open>WIFSIGNALED\<close> classify it.\<close>

datatype wait_status = Exited int | Signaled int | Other_status int

text \<open>What one \<^verbatim>\<open>popen\<close> will do: the bytes it writes, how it ends, what it does to the files.\<close>

record shell_run =
  cmd_output :: string
  cmd_status :: wait_status
  cmd_files :: "(string \<Rightarrow> fs_file option) \<Rightarrow> (string \<Rightarrow> fs_file option)"

text \<open>
  The outcome of one write through a temporary file: the letters \<^verbatim>\<open>mkstemp\<close> puts for
  \<^verbatim>\<open>XXXXXX\<close> (NULL if it fails), whether \<^verbatim>\<open>fdopen\<close> works, how many bytes \<^verbatim>\<open>fwrite\<close> takes, whether
  \<^verbatim>\<open>fclose\<close> and \<^verbatim>\<open>rename\<close> succeed.
\<close>

record write_outcome =
  wo_tmp :: "string option"
  wo_fdopen :: bool
  wo_wrote :: nat
  wo_fclose :: bool
  wo_rename :: bool

text \<open>
  One candidate address of \<^verbatim>\<open>getaddrinfo\<close>: whether a socket can be made, and how \<^verbatim>\<open>connect\<close> goes:
  at once, failing at once, or in progress with the results of \<^verbatim>\<open>select\<close> and of \<^verbatim>\<open>SO_ERROR\<close>.
\<close>

datatype connect_outcome = Connected | Refused | In_progress int int

record address =
  ad_socket :: bool
  ad_connect :: connect_outcome

text \<open>
  One connection attempt: the address list (NULL when the lookup fails), whether the two writes
  and the flush of the request succeed, the pieces in which the response becomes readable, and
  whether \<^verbatim>\<open>br_sslio_close\<close> returns: on a connection that is dead it may not (see \<open>SslIoProps\<close>).
\<close>

record connection =
  cn_addrs :: "address list option"
  cn_write_head :: bool
  cn_write_body :: bool
  cn_flush :: bool
  cn_pieces :: "string list"
  cn_close :: bool

record world =
  w_interrupt :: bool
  w_signals :: "bool list"
  w_debug :: bool
  w_json :: bool
  w_block_warned :: bool
  w_skill_warned :: bool
  w_out :: string
  w_err :: string
  w_files :: "string \<Rightarrow> fs_file option"
  w_dirs :: "string \<Rightarrow> string list option"
  w_realpath :: "string \<Rightarrow> string option"
  w_env :: "string \<Rightarrow> string option"
  w_stdin :: "string option list"
  w_strerror :: string
  w_writes :: "write_outcome list"
  w_append_ok :: "bool list"
  w_commands :: "shell_run option list"
  w_ran :: "string list"
  w_connections :: "connection list"
  w_pieces :: "string list"
  w_sent :: string
  w_fds :: "nat set"
  w_next_fd :: nat

subsection \<open>Output\<close>

definition put_out :: "string \<Rightarrow> world \<Rightarrow> world" where
  "put_out s w = w\<lparr>w_out := w_out w @ s\<rparr>"

definition put_err :: "string \<Rightarrow> world \<Rightarrow> world" where
  "put_err s w = w\<lparr>w_err := w_err w @ s\<rparr>"

lemma put_out_frame [simp, frame]:
  "w_interrupt (put_out s w) = w_interrupt w" "w_signals (put_out s w) = w_signals w"
  "w_debug (put_out s w) = w_debug w" "w_json (put_out s w) = w_json w"
  "w_err (put_out s w) = w_err w" "w_files (put_out s w) = w_files w"
  "w_pieces (put_out s w) = w_pieces w" "w_connections (put_out s w) = w_connections w"
  "w_commands (put_out s w) = w_commands w" "w_writes (put_out s w) = w_writes w"
  "w_append_ok (put_out s w) = w_append_ok w" "w_fds (put_out s w) = w_fds w"
  "w_next_fd (put_out s w) = w_next_fd w" "w_strerror (put_out s w) = w_strerror w"
  "w_sent (put_out s w) = w_sent w" "w_ran (put_out s w) = w_ran w"
  "w_dirs (put_out s w) = w_dirs w" "w_realpath (put_out s w) = w_realpath w"
  "w_env (put_out s w) = w_env w" "w_stdin (put_out s w) = w_stdin w"
  "w_out (put_out s w) = w_out w @ s"
  by (simp_all add: put_out_def)

lemma put_err_frame [simp, frame]:
  "w_interrupt (put_err s w) = w_interrupt w" "w_signals (put_err s w) = w_signals w"
  "w_debug (put_err s w) = w_debug w" "w_json (put_err s w) = w_json w"
  "w_out (put_err s w) = w_out w" "w_files (put_err s w) = w_files w"
  "w_pieces (put_err s w) = w_pieces w" "w_connections (put_err s w) = w_connections w"
  "w_commands (put_err s w) = w_commands w" "w_writes (put_err s w) = w_writes w"
  "w_append_ok (put_err s w) = w_append_ok w" "w_fds (put_err s w) = w_fds w"
  "w_next_fd (put_err s w) = w_next_fd w" "w_strerror (put_err s w) = w_strerror w"
  "w_sent (put_err s w) = w_sent w" "w_ran (put_err s w) = w_ran w"
  "w_dirs (put_err s w) = w_dirs w" "w_realpath (put_err s w) = w_realpath w"
  "w_env (put_err s w) = w_env w" "w_stdin (put_err s w) = w_stdin w"
  "w_err (put_err s w) = w_err w @ s"
  by (simp_all add: put_err_def)

subsection \<open>Signals\<close>

text \<open>
  \<open>on_sigint\<close> sets \<^verbatim>\<open>g_interrupt\<close> at any time.  All that matters is whether it has run by the time
  the flag is read: each read takes the next entry of \<open>w_signals\<close>, true if a SIGINT arrived since
  the last one.
\<close>

definition on_sigint :: "world \<Rightarrow> world" where
  "on_sigint w = w\<lparr>w_interrupt := True\<rparr>"

definition poll_interrupt :: "world \<Rightarrow> bool \<times> world" where
  "poll_interrupt w =
     (case w_signals w of
        [] \<Rightarrow> (w_interrupt w, w)
      | sig # rest \<Rightarrow>
          let w' = (if sig then on_sigint w else w)\<lparr>w_signals := rest\<rparr>
          in (w_interrupt w', w'))"

definition quiet :: "world \<Rightarrow> bool" where
  "quiet w \<longleftrightarrow> \<not> w_interrupt w \<and> w_signals w = []"

lemma poll_quiet [simp]: "quiet w \<Longrightarrow> poll_interrupt w = (False, w)"
  by (simp add: quiet_def poll_interrupt_def)

lemma quiet_put [simp, frame]: "quiet (put_out s w) = quiet w" "quiet (put_err s w) = quiet w"
  by (simp_all add: quiet_def)

lemma poll_frame [frame]:
  "w_out (snd (poll_interrupt w)) = w_out w" "w_err (snd (poll_interrupt w)) = w_err w"
  "w_files (snd (poll_interrupt w)) = w_files w" "w_pieces (snd (poll_interrupt w)) = w_pieces w"
  "w_commands (snd (poll_interrupt w)) = w_commands w" "w_json (snd (poll_interrupt w)) = w_json w"
  by (simp_all add: poll_interrupt_def on_sigint_def Let_def split: list.split)

lemma poll_sets: "fst (poll_interrupt w) = w_interrupt (snd (poll_interrupt w))"
  by (simp add: poll_interrupt_def Let_def split: list.split)

subsection \<open>Scripts\<close>

text \<open>Once a script of outcomes is used up, every further call succeeds.\<close>

definition next_write :: "nat \<Rightarrow> world \<Rightarrow> write_outcome \<times> world" where
  "next_write len w =
     (case w_writes w of
        [] \<Rightarrow> (\<lparr>wo_tmp = Some ''aaaaaa'', wo_fdopen = True, wo_wrote = len, wo_fclose = True, wo_rename = True\<rparr>, w)
      | x # xs \<Rightarrow> (x, w\<lparr>w_writes := xs\<rparr>))"

definition next_append_ok :: "world \<Rightarrow> bool \<times> world" where
  "next_append_ok w =
     (case w_append_ok w of [] \<Rightarrow> (True, w) | b # bs \<Rightarrow> (b, w\<lparr>w_append_ok := bs\<rparr>))"

text \<open>\<^verbatim>\<open>popen(cmd, "r")\<close> up to \<^verbatim>\<open>pclose\<close>: NULL, or a run of the command, with its effect on the files.\<close>

definition run_command :: "string \<Rightarrow> world \<Rightarrow> shell_run option \<times> world" where
  "run_command cmd w =
     (let w = w\<lparr>w_ran := w_ran w @ [cmd]\<rparr> in
      case w_commands w of
        [] \<Rightarrow> (None, w)
      | None # cs \<Rightarrow> (None, w\<lparr>w_commands := cs\<rparr>)
      | Some r # cs \<Rightarrow> (Some r, w\<lparr>w_commands := cs, w_files := cmd_files r (w_files w)\<rparr>))"

text \<open>\<^verbatim>\<open>fopen(path, "r")\<close> and reading all of it.\<close>

definition read_file :: "world \<Rightarrow> string \<Rightarrow> string option" where
  "read_file w path = map_option content (w_files w path)"

text \<open>A world in which nothing has happened yet and nothing goes wrong, for the witnesses.\<close>

definition calm_world :: world where
  "calm_world = \<lparr>w_interrupt = False, w_signals = [], w_debug = False, w_json = False,
     w_block_warned = False, w_skill_warned = False, w_out = [], w_err = [],
     w_files = (\<lambda>_. None), w_dirs = (\<lambda>_. None), w_realpath = (\<lambda>_. None), w_env = (\<lambda>_. None),
     w_stdin = [], w_strerror = ''No such file or directory'', w_writes = [],
     w_append_ok = [], w_commands = [], w_ran = [], w_connections = [], w_pieces = [], w_sent = [], w_fds = {}, w_next_fd = 3\<rparr>"

end
