(* ===== verification/Buffers.thy ===== *)
theory Buffers
  imports Prelude
begin

section \<open>Growable byte buffers: \<open>buf_t\<close> of main.c and \<open>cj_buf\<close> of tinyjson.h\<close>

text \<open>
  Both buffers are a pointer, a length and a capacity, and keep a NUL after the last byte.  The
  model keeps the \<open>len\<close> bytes and the capacity; the pointer is NULL exactly when the capacity
  is 0.  A write of \<open>n\<close> bytes and the NUL is in bounds when \<open>len + n < cap\<close> after reserving.
\<close>

subsection \<open>The interface the clients of a buffer rely on\<close>

locale byte_buffer =
  fixes inv :: "'b \<Rightarrow> bool"
    and bytes :: "'b \<Rightarrow> string"
    and room :: "'b \<Rightarrow> nat"
    and put :: "'b \<Rightarrow> string \<Rightarrow> 'b"
  assumes bytes_put: "bytes (put b s) = bytes b @ s"
    and inv_put: "inv (put b s)"
    and room_put: "length (bytes (put b s)) < room (put b s)"
    and room_mono: "room b \<le> room (put b s)"
begin

lemma bytes_puts: "bytes (foldl put b ss) = bytes b @ concat ss"
  by (induction ss arbitrary: b) (simp_all add: bytes_put)

lemma inv_puts: "inv b \<Longrightarrow> inv (foldl put b ss)"
  by (induction ss arbitrary: b) (simp_all add: inv_put)

lemma room_puts: "room b \<le> room (foldl put b ss)"
proof (induction ss arbitrary: b)
  case Nil
  then show ?case by simp
next
  case (Cons s ss)
  show ?case using le_trans [OF room_mono [of b s] Cons.IH [of "put b s"]] by simp
qed

lemma bytes_put_chars: "bytes (foldl (\<lambda>b c. put b (f c)) b cs) = bytes b @ concat (map f cs)"
  by (induction cs arbitrary: b) (simp_all add: bytes_put)

lemma inv_put_chars: "inv b \<Longrightarrow> inv (foldl (\<lambda>b c. put b (f c)) b cs)"
  by (induction cs arbitrary: b) (simp_all add: inv_put)

end

subsection \<open>The doubling loop\<close>

text \<open>
  \<^verbatim>\<open>while (c < n + 1) c *= 2\<close>, on mathematical numbers.  The guard \<open>0 < c\<close> is there for the
  definition only: both callers start the loop at 64, 128 or a capacity it returned before.
\<close>

function grow :: "nat \<Rightarrow> nat \<Rightarrow> nat" where
  "grow c need = (if c < need \<and> 0 < c then grow (2 * c) need else c)"
  by pat_completeness auto
termination
  by (relation "measure (\<lambda>(c, need). need - c)") auto

declare grow.simps [simp del]

lemma grow_step: "c < need \<Longrightarrow> 0 < c \<Longrightarrow> grow c need = grow (2 * c) need"
  and grow_stop: "need \<le> c \<Longrightarrow> grow c need = c"
  by (simp_all add: grow.simps [of c])

lemma grow_ge: "0 < c \<Longrightarrow> need \<le> grow c need \<and> c \<le> grow c need"
proof (induction c need rule: grow.induct)
  case (1 c need)
  show ?case
  proof (cases "c < need")
    case True
    with 1 have "need \<le> grow (2 * c) need \<and> 2 * c \<le> grow (2 * c) need" by simp
    with True "1.prems" show ?thesis by (subst (1 2) grow.simps) auto
  next
    case False
    then show ?thesis by (subst (1 2) grow.simps) auto
  qed
qed

lemma grow_bound: "0 < c \<Longrightarrow> grow c need \<le> max c (2 * need)"
proof (induction c need rule: grow.induct)
  case (1 c need)
  show ?case
  proof (cases "c < need")
    case True
    with 1 have "grow (2 * c) need \<le> max (2 * c) (2 * need)" by simp
    with True "1.prems" show ?thesis by (subst grow.simps) auto
  next
    case False
    then show ?thesis by (subst grow.simps) auto
  qed
qed

text \<open>
  The loop as the machine runs it, on a 64-bit \<^verbatim>\<open>size_t\<close>: doubling wraps, and a loop that does
  not stop is \<^term>\<open>None\<close>.
\<close>

partial_function (option) grow64 :: "64 word \<Rightarrow> 64 word \<Rightarrow> 64 word option" where
  "grow64 c need = (if c < need then grow64 (2 * c) need else Some c)"

lemma unat_double:
  assumes "unat (c :: 64 word) < 2 ^ 63"
  shows "unat (2 * c) = 2 * unat c"
proof -
  have "unat (2 * c) = (2 * unat c) mod 2 ^ 64"
    by (simp add: unat_word_ariths)
  with assms show ?thesis by simp
qed

lemma grow64_refines_aux:
  "k = unat c \<Longrightarrow> m = unat need \<Longrightarrow> 0 < k \<Longrightarrow> m \<le> 2 ^ 63 \<Longrightarrow>
   \<exists>r. grow64 c need = Some r \<and> unat r = grow k m"
proof (induction k m arbitrary: c rule: grow.induct)
  case (1 k m)
  show ?case
  proof (cases "k < m")
    case True
    with "1.prems" have lt: "c < need" by (simp add: word_less_nat_alt)
    from True "1.prems" have d: "2 * k = unat (2 * c)" using unat_double [of c] by simp
    obtain r where "grow64 (2 * c) need = Some r \<and> unat r = grow (2 * k) m"
      using "1.IH" [OF _ d "1.prems"(2)] True "1.prems" by auto
    moreover have "grow k m = grow (2 * k) m" using True "1.prems" by (intro grow_step)
    ultimately show ?thesis using lt by (simp add: grow64.simps [of c need])
  next
    case False
    with "1.prems" show ?thesis
      by (simp add: grow64.simps [of c need] grow_stop word_less_nat_alt)
  qed
qed

lemma grow64_diverges_aux:
  assumes "grow64 c need = Some r"
  shows "2 ^ 63 < unat need \<longrightarrow> (\<exists>j < 64. unat c = 2 ^ j) \<or> c = 0 \<longrightarrow> False"
proof (rule grow64.raw_induct
    [where P = "\<lambda>c need r. 2 ^ 63 < unat need \<longrightarrow> (\<exists>j < 64. unat c = 2 ^ j) \<or> c = 0 \<longrightarrow> False",
      OF _ assms])
  fix f :: "64 word \<Rightarrow> 64 word \<Rightarrow> 64 word option" and c need r
  assume IH: "\<And>c need r. f c need = Some r \<Longrightarrow>
      2 ^ 63 < unat need \<longrightarrow> (\<exists>j < 64. unat c = 2 ^ j) \<or> c = 0 \<longrightarrow> False"
    and eq: "(if c < need then f (2 * c) need else Some c) = Some r"
  show "2 ^ 63 < unat need \<longrightarrow> (\<exists>j < 64. unat c = 2 ^ j) \<or> c = 0 \<longrightarrow> False"
  proof (intro impI)
    assume big: "2 ^ 63 < unat need" and c: "(\<exists>j < 64. unat c = 2 ^ j) \<or> c = 0"
    from c have "unat c \<le> 2 ^ 63"
    proof
      assume "\<exists>j < 64. unat c = 2 ^ j"
      then obtain j :: nat where "j < 64" "unat c = 2 ^ j" by blast
      moreover from this have "(2::nat) ^ j \<le> 2 ^ 63" by (intro power_increasing) auto
      ultimately show ?thesis by simp
    qed simp
    with big have "c < need" by (simp add: word_less_nat_alt)
    with eq have step: "f (2 * c) need = Some r" by simp
    have "(\<exists>j < 64. unat (2 * c) = 2 ^ j) \<or> 2 * c = 0"
      using c
    proof
      assume "\<exists>j < 64. unat c = 2 ^ j"
      then obtain j :: nat where j: "j < 64" "unat c = 2 ^ j" by blast
      show ?thesis
      proof (cases "j = 63")
        case True
        with j have "unat (2 * c) = 0" by (simp add: unat_word_ariths)
        then show ?thesis by (simp add: unat_eq_0)
      next
        case False
        with j have "(2::nat) ^ j < 2 ^ 63" by (intro power_strict_increasing) auto
        with j have "unat c < 2 ^ 63" by simp
        with j False show ?thesis
          using unat_double [of c] by (intro disjI1 exI [of _ "Suc j"]) auto
      qed
    qed simp
    with IH [OF step] big show False by blast
  qed
qed

subsection \<open>\<open>buf_t\<close> (main.c)\<close>

record buf_t =
  bdata :: string
  bcap :: nat

definition buf_empty :: buf_t where
  "buf_empty = \<lparr>bdata = [], bcap = 0\<rparr>"

definition buf_reserve :: "buf_t \<Rightarrow> nat \<Rightarrow> buf_t" where
  "buf_reserve b n =
     (if n + 1 \<le> bcap b then b
      else b\<lparr>bcap := grow (if bcap b = 0 then 64 else bcap b) (n + 1)\<rparr>)"

definition buf_append :: "buf_t \<Rightarrow> string \<Rightarrow> buf_t" where
  "buf_append b s =
     (let b' = buf_reserve b (length (bdata b) + length s) in b'\<lparr>bdata := bdata b' @ s\<rparr>)"

definition buf_reset :: "buf_t \<Rightarrow> buf_t" where
  "buf_reset b = b\<lparr>bdata := []\<rparr>"

definition buf_free :: "buf_t \<Rightarrow> buf_t" where
  "buf_free b = b\<lparr>bdata := [], bcap := 0\<rparr>"

text \<open>The bytes and their NUL fit, or nothing is allocated.\<close>

definition buf_ok :: "buf_t \<Rightarrow> bool" where
  "buf_ok b \<longleftrightarrow> (bcap b = 0 \<and> bdata b = []) \<or> length (bdata b) < bcap b"

lemma cap_reserve: "n < bcap (buf_reserve b n)" "bcap b \<le> bcap (buf_reserve b n)"
  using grow_ge [of "if bcap b = 0 then 64 else bcap b" "n + 1"]
  by (auto simp: buf_reserve_def split: if_splits)

lemma data_reserve [simp]: "bdata (buf_reserve b n) = bdata b"
  by (simp add: buf_reserve_def)

lemma data_append [simp]: "bdata (buf_append b s) = bdata b @ s"
  by (simp add: buf_append_def Let_def)

lemma cap_append: "length (bdata b @ s) < bcap (buf_append b s)" "bcap b \<le> bcap (buf_append b s)"
  using cap_reserve [where b = b and n = "length (bdata b) + length s"]
  by (simp_all add: buf_append_def Let_def)

lemma data_empty [simp]: "bdata buf_empty = []" "bdata (buf_reset b) = []" "bdata (buf_free b) = []"
  by (simp_all add: buf_empty_def buf_reset_def buf_free_def)

lemma buf_ok_intros [simp, inv_intro]:
  "buf_ok buf_empty" "buf_ok b \<Longrightarrow> buf_ok (buf_reset b)" "buf_ok (buf_free b)" "buf_ok (buf_append b s)"
  using cap_append(1) [of b s]
  by (auto simp: buf_ok_def buf_empty_def buf_reset_def buf_free_def)

interpretation main_buf: byte_buffer buf_ok bdata bcap buf_append
  using cap_append by unfold_locales auto

subsection \<open>\<open>cj_buf\<close> (tinyjson.h)\<close>

record cj_buf =
  cjdata :: string
  cjcap :: nat

definition cj_buf_empty :: cj_buf where
  "cj_buf_empty = \<lparr>cjdata = [], cjcap = 0\<rparr>"

definition cj_bput :: "cj_buf \<Rightarrow> string \<Rightarrow> cj_buf" where
  "cj_bput b s =
     (let need = length (cjdata b) + length s + 1;
          b' = (if cjcap b < need
                then b\<lparr>cjcap := grow (if cjcap b = 0 then 128 else cjcap b) need\<rparr> else b)
      in b'\<lparr>cjdata := cjdata b' @ s\<rparr>)"

definition cj_bputc :: "cj_buf \<Rightarrow> char \<Rightarrow> cj_buf" where
  "cj_bputc b c = cj_bput b [c]"

definition cj_buf_ok :: "cj_buf \<Rightarrow> bool" where
  "cj_buf_ok b \<longleftrightarrow> (cjcap b = 0 \<and> cjdata b = []) \<or> length (cjdata b) < cjcap b"

lemma cjdata_put [simp]: "cjdata (cj_bput b s) = cjdata b @ s"
  by (simp add: cj_bput_def Let_def)

lemma cjdata_putc [simp]: "cjdata (cj_bputc b c) = cjdata b @ [c]"
  by (simp add: cj_bputc_def)

lemma cjdata_empty [simp]: "cjdata cj_buf_empty = []"
  by (simp add: cj_buf_empty_def)

lemma cjcap_put: "length (cjdata b @ s) < cjcap (cj_bput b s)" "cjcap b \<le> cjcap (cj_bput b s)"
  using grow_ge [of "if cjcap b = 0 then 128 else cjcap b" "length (cjdata b) + length s + 1"]
  by (auto simp: cj_bput_def Let_def split: if_splits)

lemma cj_buf_ok_intros [simp, inv_intro]:
  "cj_buf_ok cj_buf_empty" "cj_buf_ok (cj_bput b s)" "cj_buf_ok (cj_bputc b c)"
  using cjcap_put(1) [of b s] cjcap_put(1) [of b "[c]"]
  by (auto simp: cj_buf_ok_def cj_buf_empty_def cj_bputc_def)

interpretation cj_writer: byte_buffer cj_buf_ok cjdata cjcap cj_bput
  using cjcap_put by unfold_locales auto

text \<open>
  Growing a buffer on 64-bit \<open>size_t\<close>: as long as the requested size is at most \<open>2\<^sup>6\<^sup>3\<close>,
  the doubling loop of \<open>buf_reserve\<close> and \<open>cj_bput\<close> stops, and the capacity it returns is the
  one of the loop on unbounded numbers: at least the request and, from a smaller start, less
  than or equal to twice it.
\<close>

lemma grow64_refines:
  assumes "0 < unat c" and "unat need \<le> 2 ^ 63"
  shows "\<exists>r. grow64 c need = Some r \<and> unat r = grow (unat c) (unat need)
    \<and> unat need \<le> unat r \<and> unat r \<le> max (unat c) (2 * unat need)"
  using grow64_refines_aux [OF refl refl assms] grow_ge [OF assms(1)] grow_bound [OF assms(1)]
  by metis

lemma grow64_refines_witness:
  "\<exists>r. grow64 64 1000 = Some r \<and> unat r = grow 64 1000 \<and> 1000 \<le> unat r \<and> unat r \<le> 2000"
  using grow64_refines [of 64 1000] by simp

text \<open>
  Beyond \<open>2\<^sup>6\<^sup>3\<close> the capacity wraps to 0 and the loop never stops: for the starting
  capacities of the code (64 and 128, powers of two) it returns no result.
\<close>

lemma grow64_diverges:
  assumes "2 ^ 63 < unat need" and "unat c = 2 ^ j" and "j < 64"
  shows "grow64 c need = None"
  using grow64_diverges_aux [of c need] assms by (cases "grow64 c need") blast+

lemma grow64_diverges_witness: "grow64 64 (2 ^ 63 + 1) = None"
  using grow64_diverges [of "2 ^ 63 + 1" 64 6] by simp

end
