(* ===== verification/CDouble.thy ===== *)
theory CDouble
  imports Prelude
begin

section \<open>The C type \<open>double\<close> as tinyjson.h uses it\<close>

text \<open>
  \<^verbatim>\<open>tinyjson.h\<close> stores JSON numbers as IEEE-754 binary64 values: \<^verbatim>\<open>strtod\<close> makes them, casts to
  \<^verbatim>\<open>int\<close>, \<^verbatim>\<open>long\<close> and \<^verbatim>\<open>long long\<close> read them, \<^verbatim>\<open>snprintf\<close> with \<^verbatim>\<open>%lld\<close> and \<^verbatim>\<open>%g\<close> prints them.
  A finite double is the rational number it denotes (the two zeros are one value: no operation
  the program uses tells them apart, since \<^verbatim>\<open>-0.0\<close> prints through \<^verbatim>\<open>%lld\<close>); \<open>to_double\<close> rounds a
  rational to the nearest double, ties to even, with subnormals and overflow.  A not-a-number
  value never arises here.  A cast of a value that the target type cannot hold is undefined in C;
  the model takes what x86-64 does, the type's minimum.
\<close>

datatype double = Fin rat | PInf | NInf

definition pow2 :: "int \<Rightarrow> rat" where
  "pow2 e = (if 0 \<le> e then 2 ^ nat e else 1 / 2 ^ nat (- e))"

definition pow10 :: "int \<Rightarrow> rat" where
  "pow10 e = (if 0 \<le> e then 10 ^ nat e else 1 / 10 ^ nat (- e))"

text \<open>The number of digits of a natural number in a base, and \<open>\<lfloor>log\<rfloor>\<close> of a positive rational.\<close>

fun ndigits :: "nat \<Rightarrow> nat \<Rightarrow> nat" where
  "ndigits b n = (if b < 2 \<or> n = 0 then 0 else Suc (ndigits b (n div b)))"

declare ndigits.simps [simp del]

definition floor_log2 :: "rat \<Rightarrow> int" where
  "floor_log2 x = (let (a, b) = quotient_of x;
                       k = int (ndigits 2 (nat a)) - int (ndigits 2 (nat b))
                   in if pow2 k \<le> x then k else k - 1)"

definition floor_log10 :: "rat \<Rightarrow> int" where
  "floor_log10 x = (let (a, b) = quotient_of x;
                        k = int (ndigits 10 (nat a)) - int (ndigits 10 (nat b))
                    in if pow10 k \<le> x then k else k - 1)"

text \<open>Round to the nearest integer, ties to even: the default rounding mode.\<close>

definition round_even :: "rat \<Rightarrow> int" where
  "round_even x = (let f = \<lfloor>x\<rfloor>; d = x - of_int f
                   in if d < 1 / 2 then f else if 1 / 2 < d then f + 1
                      else if even f then f else f + 1)"

definition to_double :: "rat \<Rightarrow> double" where
  "to_double x =
     (if x = 0 then Fin 0
      else let a = \<bar>x\<bar>; q = pow2 (max (floor_log2 a) (-1022) - 52);
               r = of_int (round_even (a / q)) * q
           in if pow2 1024 \<le> r then (if x < 0 then NInf else PInf)
              else Fin (if x < 0 then - r else r))"

subsection \<open>\<open>strtod\<close>, on the characters \<open>cj_parse_number\<close> lets through\<close>

definition read_digits :: "string \<Rightarrow> string \<times> string" where
  "read_digits s = (takeWhile is_digit s, dropWhile is_digit s)"

text \<open>An exponent part that has no digit is not part of the number.\<close>

definition strtod_exp :: "string \<Rightarrow> int" where
  "strtod_exp s =
     (case s of
        e # t \<Rightarrow>
          if e = CHR ''e'' \<or> e = CHR ''E'' then
            let (neg, u) = (case t of c # u \<Rightarrow> if c = CHR ''-'' then (True, u)
                                              else if c = CHR ''+'' then (False, u) else (False, t)
                                    | [] \<Rightarrow> (False, t));
                ds = fst (read_digits u)
            in if ds = [] then 0 else if neg then - int (dec_val ds) else int (dec_val ds)
          else 0
      | [] \<Rightarrow> 0)"

definition strtod :: "string \<Rightarrow> double" where
  "strtod s =
     (let (neg, s1) = (case s of c # t \<Rightarrow> if c = CHR ''-'' then (True, t)
                                         else if c = CHR ''+'' then (False, t) else (False, s)
                               | [] \<Rightarrow> (False, s));
          (ip, s2) = read_digits s1;
          (fp, s3) = (case s2 of c # t \<Rightarrow> if c = CHR ''.'' then read_digits t else ([], s2)
                               | [] \<Rightarrow> ([], s2))
      in if ip = [] \<and> fp = [] then Fin 0
         else let m = of_nat (dec_val (ip @ fp)) * pow10 (strtod_exp s3 - int (length fp))
              in to_double (if neg then - m else m))"

subsection \<open>Casts to integer types\<close>

definition trunc :: "rat \<Rightarrow> int" where
  "trunc x = (if 0 \<le> x then \<lfloor>x\<rfloor> else \<lceil>x\<rceil>)"

definition cvt :: "nat \<Rightarrow> double \<Rightarrow> int" where
  "cvt w d = (case d of
                Fin x \<Rightarrow> let i = trunc x in if - (2 ^ (w - 1)) \<le> i \<and> i < 2 ^ (w - 1) then i
                                           else - (2 ^ (w - 1))
              | _ \<Rightarrow> - (2 ^ (w - 1)))"

abbreviation cvt_i32 :: "double \<Rightarrow> int" where "cvt_i32 \<equiv> cvt 32"
abbreviation cvt_i64 :: "double \<Rightarrow> int" where "cvt_i64 \<equiv> cvt 64"

subsection \<open>\<open>printf\<close>'s \<open>%g\<close>\<close>

definition strip_zeros :: "string \<Rightarrow> string" where
  "strip_zeros s = rev (dropWhile (\<lambda>c. c = CHR ''0'') (rev s))"

definition with_frac :: "string \<Rightarrow> string \<Rightarrow> string" where
  "with_frac ip fp = (if fp = [] then ip else ip @ CHR ''.'' # fp)"

text \<open>
  The value is rounded to six significant digits (\<open>m\<close>, a six-digit number, and the decimal
  exponent \<open>e\<close>), then printed in fixed or exponent style with trailing zeros removed.
\<close>

definition fmt_g_digits :: "rat \<Rightarrow> string \<times> int" where
  "fmt_g_digits a =
     (let e = floor_log10 a; m = nat (round_even (a / pow10 (e - 5)))
      in if 10 ^ 6 \<le> m then (show_nat (m div 10), e + 1) else (show_nat m, e))"

definition fmt_g :: "double \<Rightarrow> string" where
  "fmt_g d =
     (case d of
        PInf \<Rightarrow> ''inf''
      | NInf \<Rightarrow> ''-inf''
      | Fin x \<Rightarrow>
          if x = 0 then ''0''
          else let (ds, e) = fmt_g_digits \<bar>x\<bar>;
                   sign = (if x < 0 then ''-'' else []);
                   body = (if -4 \<le> e \<and> e < 6 then
                             (if 0 \<le> e then with_frac (take (nat e + 1) ds) (strip_zeros (drop (nat e + 1) ds))
                              else with_frac ''0'' (strip_zeros (replicate (nat (- e) - 1) CHR ''0'' @ ds)))
                           else with_frac (take 1 ds) (strip_zeros (drop 1 ds)) @
                                (if e < 0 then ''e-'' else ''e+'') @
                                (if nat \<bar>e\<bar> < 10 then ''0'' else []) @ show_nat (nat \<bar>e\<bar>))
               in sign @ body)"

subsection \<open>Integers up to \<open>2\<^sup>5\<^sup>3\<close> are exact\<close>

lemma ndigits_bounds: "0 < n \<Longrightarrow> 2 ^ (ndigits 2 n - 1) \<le> n \<and> n < 2 ^ ndigits 2 n"
proof (induction "2 :: nat" n rule: ndigits.induct)
  case (1 n)
  show ?case
  proof (cases "n = 1")
    case True
    then show ?thesis by (simp add: ndigits.simps)
  next
    case False
    with "1.prems" have pos: "0 < n div 2" by simp
    with "1" have IH: "2 ^ (ndigits 2 (n div 2) - 1) \<le> n div 2 \<and> n div 2 < 2 ^ ndigits 2 (n div 2)"
      by simp
    from pos have "0 < ndigits 2 (n div 2)" by (subst ndigits.simps) simp
    then obtain k where k: "ndigits 2 (n div 2) = Suc k" by (cases "ndigits 2 (n div 2)") auto
    with "1.prems" have "ndigits 2 n = Suc (Suc k)" by (subst ndigits.simps) simp
    with IH k show ?thesis by auto
  qed
qed

lemma ndigits_1 [simp]: "ndigits b (Suc 0) = (if b < 2 then 0 else 1)"
  by (simp add: ndigits.simps)

lemma pow2_nat: "pow2 (int k) = 2 ^ k"
  by (simp add: pow2_def)

lemma floor_log2_nat:
  assumes "0 < n"
  shows "floor_log2 (of_nat n) = int (ndigits 2 n) - 1"
proof -
  have q: "quotient_of (of_nat n) = (int n, 1)"
    using quotient_of_Fract [of "int n" 1] by (simp add: Fract_of_int_eq normalize_def)
  from assms have pos: "0 < ndigits 2 n" by (subst ndigits.simps) simp
  then have k: "int (ndigits 2 n) - 1 = int (ndigits 2 n - 1)" by simp
  have "(2 :: rat) ^ (ndigits 2 n - 1) = of_nat (2 ^ (ndigits 2 n - 1))" by simp
  also have "\<dots> \<le> of_nat n" using ndigits_bounds [OF assms] by (simp only: of_nat_le_iff)
  finally have "pow2 (int (ndigits 2 n) - 1) \<le> of_nat n"
    unfolding k by (simp only: pow2_nat)
  then show ?thesis by (simp add: floor_log2_def q)
qed

lemma round_even_int [simp]: "round_even (of_int i) = i"
  by (simp add: round_even_def)

lemma pow2_split:
  assumes "k \<le> 0"
  shows "of_nat n / pow2 k = of_int (int n * 2 ^ nat (- k))"
  using assms by (auto simp: pow2_def)

lemma pow2_nonzero [simp]: "pow2 k \<noteq> 0"
  by (simp add: pow2_def)

lemma ulp_divides:
  assumes "0 < n" "n \<le> 2 ^ 53"
  shows "\<exists>i. of_nat n / pow2 (max (floor_log2 (of_nat n)) (-1022) - 52) = of_int i"
proof -
  from assms have fl: "max (floor_log2 (of_nat n)) (-1022) - 52 = int (ndigits 2 n) - 53"
    using floor_log2_nat [of n] by auto
  show ?thesis
  proof (cases "ndigits 2 n \<le> 53")
    case True
    then have "of_nat n / pow2 (int (ndigits 2 n) - 53)
        = of_int (int n * 2 ^ nat (- (int (ndigits 2 n) - 53)))"
      by (intro pow2_split) simp
    then show ?thesis unfolding fl by blast
  next
    case False
    then have "(2::nat) ^ 53 \<le> 2 ^ (ndigits 2 n - 1)" by (intro power_increasing) auto
    with ndigits_bounds [OF assms(1)] assms have n: "n = 2 ^ 53" by linarith
    then have "n < 2 ^ 54" by simp
    with ndigits_bounds [OF assms(1)] have "(2::nat) ^ (ndigits 2 n - 1) < 2 ^ 54" by linarith
    then have "ndigits 2 n - 1 < 54" by (rule power_less_imp_less_exp [rotated]) simp
    then have "ndigits 2 n \<le> 54" by simp
    with False have "ndigits 2 n = 54" by simp
    then have "of_nat n / pow2 (int (ndigits 2 n) - 53) = of_int (2 ^ 52)"
      by (simp add: n pow2_def)
    then show ?thesis unfolding fl by blast
  qed
qed

lemma pow2_1024: "(of_nat n :: rat) < pow2 1024" if "n \<le> 2 ^ 53"
proof -
  have "(of_nat n :: rat) \<le> of_nat (2 ^ 53)" using that by (simp only: of_nat_le_iff)
  also have "\<dots> < pow2 1024" by (simp add: pow2_def)
  finally show ?thesis .
qed

lemma to_double_nat:
  assumes "0 < n" "n \<le> 2 ^ 53"
  shows "to_double (of_nat n) = Fin (of_nat n)" "to_double (- of_nat n) = Fin (- of_nat n)"
proof -
  let ?q = "pow2 (max (floor_log2 (of_nat n)) (-1022) - 52)"
  obtain i where i: "of_nat n / ?q = of_int i" using ulp_divides [OF assms] by blast
  have r: "of_int (round_even (of_nat n / ?q)) * ?q = of_nat n"
    unfolding i round_even_int unfolding i [symmetric] by simp
  have lt: "\<not> pow2 1024 \<le> of_nat n" using pow2_1024 [OF assms(2)] by simp
  show "to_double (of_nat n) = Fin (of_nat n)"
    using assms lt by (simp add: to_double_def Let_def r)
  show "to_double (- of_nat n) = Fin (- of_nat n)"
    using assms lt by (simp add: to_double_def Let_def r)
qed

lemma to_double_int:
  assumes "\<bar>i\<bar> \<le> 2 ^ 53"
  shows "to_double (of_int i) = Fin (of_int i)"
proof -
  consider "i = 0" | "0 < i" | "i < 0" by linarith
  then show ?thesis
  proof cases
    case 1
    then show ?thesis by (simp add: to_double_def)
  next
    case 2
    with assms have "to_double (of_nat (nat i)) = Fin (of_nat (nat i))"
      by (intro to_double_nat) auto
    with 2 show ?thesis by simp
  next
    case 3
    with assms have "to_double (- of_nat (nat (- i))) = Fin (- of_nat (nat (- i)))"
      by (intro to_double_nat) auto
    with 3 show ?thesis by simp
  qed
qed

subsection \<open>Reading back a printed integer\<close>

lemma read_digits_show:
  "s = [] \<or> \<not> is_digit (hd s) \<Longrightarrow> read_digits (show_nat n @ s) = (show_nat n, s)"
  using show_nat_digits [of _ n]
  by (cases s) (auto simp: read_digits_def takeWhile_append dropWhile_append
      takeWhile_eq_all_conv dropWhile_eq_Nil_conv)

lemma show_nat_hd: "\<exists>c s. show_nat n = c # s \<and> is_digit c"
  using show_nat_digits [of "hd (show_nat n)" n] by (cases "show_nat n") auto

lemma is_digit_sign [simp]: "\<not> is_digit CHR ''-''" "\<not> is_digit CHR ''+''" "\<not> is_digit CHR ''.''"
  by (simp_all add: is_digit_def byte_def)

lemma strtod_show_int:
  assumes "\<bar>i\<bar> \<le> 2 ^ 53"
  shows "strtod (show_int i) = Fin (of_int i)"
proof -
  let ?n = "nat \<bar>i\<bar>"
  obtain c s where cs: "show_nat ?n = c # s" "is_digit c" using show_nat_hd by blast
  then have c: "c \<noteq> CHR ''-''" "c \<noteq> CHR ''+''" by (metis is_digit_sign)+
  have rd: "read_digits (show_nat ?n) = (show_nat ?n, [])"
    using read_digits_show [of "[]" ?n] by simp
  have val: "dec_val (c # s) = ?n" by (metis cs(1) dec_val_show_nat)
  have "strtod (show_int i) = to_double (of_int i)"
  proof (cases "i < 0")
    case True
    then have "show_int i = CHR ''-'' # c # s" using cs by (simp add: show_int_def)
    with True show ?thesis
      using rd cs val by (simp add: strtod_def pow10_def strtod_exp_def)
  next
    case False
    then have "show_int i = c # s" using cs by (simp add: show_int_def)
    with False show ?thesis
      using rd cs c val by (simp add: strtod_def pow10_def strtod_exp_def)
  qed
  with to_double_int [OF assms] show ?thesis by simp
qed

lemma cvt_int: "- (2 ^ (w - 1)) \<le> i \<Longrightarrow> i < 2 ^ (w - 1) \<Longrightarrow> cvt w (Fin (of_int i)) = i"
  by (simp add: cvt_def trunc_def)

lemma cvt_range: "0 < w \<Longrightarrow> - (2 ^ (w - 1)) \<le> cvt w d \<and> cvt w d < 2 ^ (w - 1)"
  by (auto simp: cvt_def Let_def split: double.split)

end
