(* ===== verification/CJson.thy ===== *)
theory CJson
  imports CDouble
begin

section \<open>The cJSON tree and its operations (tinyjson.h)\<close>

text \<open>
  A \<^verbatim>\<open>cJSON\<close> node with its fields; the children hang off \<open>child\<close> in the order of the C list
  (\<open>child\<close>, then \<open>next\<close> pointers).  \<open>valuestring\<close> and \<open>string\<close> are C strings, NULL is
  \<^term>\<open>None\<close>.  The links themselves (\<open>next\<close>, \<open>prev\<close>, \<open>parent\<close>) and the sharing they make
  possible are the subject of theory \<^verbatim>\<open>CJsonHeap\<close>.  A function that may be passed a NULL node
  takes an option.
\<close>

datatype cjson =
  CJ (cj_type: nat) (cj_valuestring: "string option") (cj_valueint: int)
     (cj_valuedouble: double) (cj_string: "string option") (cj_is_ref: bool)
     (cj_child: "cjson list")

abbreviation (input) cJSON_False :: nat where "cJSON_False \<equiv> 0"
abbreviation (input) cJSON_True :: nat where "cJSON_True \<equiv> 1"
abbreviation (input) cJSON_NULL :: nat where "cJSON_NULL \<equiv> 2"
abbreviation (input) cJSON_Number :: nat where "cJSON_Number \<equiv> 3"
abbreviation (input) cJSON_String :: nat where "cJSON_String \<equiv> 4"
abbreviation (input) cJSON_Array :: nat where "cJSON_Array \<equiv> 5"
abbreviation (input) cJSON_Object :: nat where "cJSON_Object \<equiv> 6"
abbreviation (input) cJSON_Raw :: nat where "cJSON_Raw \<equiv> 7"

text \<open>Assignments to single fields.\<close>

fun set_string :: "string option \<Rightarrow> cjson \<Rightarrow> cjson" where
  "set_string k (CJ t vs vi vd _ r ch) = CJ t vs vi vd k r ch"

fun set_child :: "cjson list \<Rightarrow> cjson \<Rightarrow> cjson" where
  "set_child ch (CJ t vs vi vd k r _) = CJ t vs vi vd k r ch"

fun set_valuestring :: "string option \<Rightarrow> cjson \<Rightarrow> cjson" where
  "set_valuestring vs (CJ t _ vi vd k r ch) = CJ t vs vi vd k r ch"

lemma sel_set [simp]:
  "cj_type (set_string k j) = cj_type j" "cj_valuestring (set_string k j) = cj_valuestring j"
  "cj_string (set_string k j) = k" "cj_child (set_string k j) = cj_child j"
  "cj_valuedouble (set_string k j) = cj_valuedouble j" "cj_valueint (set_string k j) = cj_valueint j"
  "cj_type (set_child ch j) = cj_type j" "cj_valuestring (set_child ch j) = cj_valuestring j"
  "cj_string (set_child ch j) = cj_string j" "cj_child (set_child ch j) = ch"
  "cj_type (set_valuestring v j) = cj_type j" "cj_valuestring (set_valuestring v j) = v"
  "cj_string (set_valuestring v j) = cj_string j" "cj_child (set_valuestring v j) = cj_child j"
  by (cases j; simp)+

lemma set_same [simp]:
  "set_string (cj_string j) j = j" "set_child (cj_child j) j = j"
  "set_string a (set_string b j) = set_string a j" "set_child xs (set_child ys j) = set_child xs j"
  by (cases j; simp)+

lemma set_string_same: "cj_string j = k \<Longrightarrow> set_string k j = j"
  by (cases j) simp

subsection \<open>Create\<close>

definition cj_new :: "nat \<Rightarrow> cjson" where
  "cj_new t = CJ t None 0 (Fin 0) None False []"

definition cJSON_CreateNull :: cjson where "cJSON_CreateNull = cj_new cJSON_NULL"

definition cJSON_CreateObject :: cjson where "cJSON_CreateObject = cj_new cJSON_Object"

definition cJSON_CreateArray :: cjson where "cJSON_CreateArray = cj_new cJSON_Array"

definition cJSON_CreateString :: "string option \<Rightarrow> cjson" where
  "cJSON_CreateString s =
     set_valuestring (Some (case s of Some v \<Rightarrow> v | None \<Rightarrow> [])) (cj_new cJSON_String)"

definition cJSON_CreateNumber :: "double \<Rightarrow> cjson" where
  "cJSON_CreateNumber n = CJ cJSON_Number None (cvt_i32 n) n None False []"

definition cJSON_CreateBool :: "bool \<Rightarrow> cjson" where
  "cJSON_CreateBool b = cj_new (if b then cJSON_True else cJSON_False)"

subsection \<open>Add\<close>

definition cj_append_child :: "cjson \<Rightarrow> cjson \<Rightarrow> cjson" where
  "cj_append_child par item = set_child (cj_child par @ [item]) par"

definition cJSON_AddItemToArray :: "cjson option \<Rightarrow> cjson option \<Rightarrow> cjson option" where
  "cJSON_AddItemToArray array item =
     (case (array, item) of (Some a, Some i) \<Rightarrow> Some (cj_append_child a i) | _ \<Rightarrow> array)"

definition cJSON_AddItemToObject :: "cjson option \<Rightarrow> string option \<Rightarrow> cjson option \<Rightarrow> cjson option" where
  "cJSON_AddItemToObject object key item =
     (case (object, item, key) of
        (Some ob, Some i, Some k) \<Rightarrow> Some (cj_append_child ob (set_string (Some k) i))
      | _ \<Rightarrow> object)"

text \<open>A reference shows the children and the value of the original under a new key.\<close>

definition cJSON_AddItemReferenceToObject ::
    "cjson option \<Rightarrow> string option \<Rightarrow> cjson option \<Rightarrow> cjson option" where
  "cJSON_AddItemReferenceToObject object key item =
     (case (object, item, key) of
        (Some ob, Some i, Some k) \<Rightarrow>
          Some (cj_append_child ob
            (CJ (cj_type i) (cj_valuestring i) (cj_valueint i) (cj_valuedouble i) (Some k) True
              (cj_child i)))
      | _ \<Rightarrow> object)"

definition cJSON_AddStringToObject :: "cjson option \<Rightarrow> string option \<Rightarrow> string option \<Rightarrow> cjson option" where
  "cJSON_AddStringToObject object key val =
     cJSON_AddItemToObject object key (Some (cJSON_CreateString val))"

definition cJSON_AddNumberToObject :: "cjson option \<Rightarrow> string option \<Rightarrow> double \<Rightarrow> cjson option" where
  "cJSON_AddNumberToObject object key val =
     cJSON_AddItemToObject object key (Some (cJSON_CreateNumber val))"

definition cJSON_AddBoolToObject :: "cjson option \<Rightarrow> string option \<Rightarrow> bool \<Rightarrow> cjson option" where
  "cJSON_AddBoolToObject object key val =
     cJSON_AddItemToObject object key (Some (cJSON_CreateBool val))"

subsection \<open>Access\<close>

text \<open>The scan stops at the first child with the key.\<close>

fun find_key :: "string \<Rightarrow> cjson list \<Rightarrow> cjson option" where
  "find_key key [] = None"
| "find_key key (c # cs) = (if cj_string c = Some key then Some c else find_key key cs)"

definition cJSON_GetObjectItem :: "cjson option \<Rightarrow> string \<Rightarrow> cjson option" where
  "cJSON_GetObjectItem object key =
     (case object of None \<Rightarrow> None | Some ob \<Rightarrow> find_key key (cj_child ob))"

text \<open>\<^verbatim>\<open>while (c && index > 0)\<close>: an index below 0 yields the first child, as 0 does.\<close>

definition cJSON_GetArrayItem :: "cjson option \<Rightarrow> int \<Rightarrow> cjson option" where
  "cJSON_GetArrayItem array index =
     (case array of None \<Rightarrow> None
      | Some a \<Rightarrow> (if nat index < length (cj_child a) then Some (cj_child a ! nat index) else None))"

definition cJSON_GetArraySize :: "cjson option \<Rightarrow> nat" where
  "cJSON_GetArraySize array = (case array of None \<Rightarrow> 0 | Some a \<Rightarrow> length (cj_child a))"

definition cJSON_GetStringValue :: "cjson option \<Rightarrow> string option" where
  "cJSON_GetStringValue item =
     (case item of None \<Rightarrow> None
      | Some i \<Rightarrow> (if cj_type i = cJSON_String then cj_valuestring i else None))"

definition cJSON_IsNumber :: "cjson option \<Rightarrow> bool" where
  "cJSON_IsNumber item = (case item of None \<Rightarrow> False | Some i \<Rightarrow> cj_type i = cJSON_Number)"

definition cJSON_IsArray :: "cjson option \<Rightarrow> bool" where
  "cJSON_IsArray item = (case item of None \<Rightarrow> False | Some i \<Rightarrow> cj_type i = cJSON_Array)"

definition cJSON_IsString :: "cjson option \<Rightarrow> bool" where
  "cJSON_IsString item = (case item of None \<Rightarrow> False | Some i \<Rightarrow> cj_type i = cJSON_String)"

subsection \<open>Change in place\<close>

definition remove_nth :: "nat \<Rightarrow> 'a list \<Rightarrow> 'a list" where
  "remove_nth n xs = take n xs @ drop (Suc n) xs"

definition cJSON_DeleteItemFromArray :: "cjson \<Rightarrow> int \<Rightarrow> cjson" where
  "cJSON_DeleteItemFromArray array index =
     (case cJSON_GetArrayItem (Some array) index of
        None \<Rightarrow> array
      | Some _ \<Rightarrow> set_child (remove_nth (nat index) (cj_child array)) array)"

definition cJSON_SetValuestring :: "cjson \<Rightarrow> string option \<Rightarrow> cjson" where
  "cJSON_SetValuestring item v =
     (if cj_type item \<noteq> cJSON_String then item
      else set_valuestring (Some (case v of Some s \<Rightarrow> s | None \<Rightarrow> [])) item)"

text \<open>
  C code mutates a node through the pointer a lookup returned.  On the tree this is an update of
  the first child with the key; it leaves a tree without the key alone.
\<close>

fun update_key :: "string \<Rightarrow> (cjson \<Rightarrow> cjson) \<Rightarrow> cjson list \<Rightarrow> cjson list" where
  "update_key key f [] = []"
| "update_key key f (c # cs) =
     (if cj_string c = Some key then f c # cs else c # update_key key f cs)"

definition update_item :: "string \<Rightarrow> (cjson \<Rightarrow> cjson) \<Rightarrow> cjson \<Rightarrow> cjson" where
  "update_item key f j = set_child (update_key key f (cj_child j)) j"

subsection \<open>Laws\<close>

lemmas create_defs = cj_new_def cJSON_CreateNull_def cJSON_CreateObject_def cJSON_CreateArray_def
  cJSON_CreateString_def cJSON_CreateNumber_def cJSON_CreateBool_def

lemmas add_defs = cJSON_AddItemToArray_def cJSON_AddItemToObject_def cJSON_AddStringToObject_def
  cJSON_AddNumberToObject_def cJSON_AddBoolToObject_def cJSON_AddItemReferenceToObject_def
  cj_append_child_def

lemmas get_defs = cJSON_GetObjectItem_def cJSON_GetArraySize_def cJSON_GetStringValue_def
  cJSON_IsNumber_def cJSON_IsArray_def cJSON_IsString_def

lemma find_key_append:
  "find_key k (xs @ ys) = (case find_key k xs of Some c \<Rightarrow> Some c | None \<Rightarrow> find_key k ys)"
  by (induction xs) auto

lemma find_key_in: "find_key k xs = Some c \<Longrightarrow> c \<in> set xs \<and> cj_string c = Some k"
  by (induction xs) (auto split: if_splits)

lemma find_key_None: "find_key k xs = None \<longleftrightarrow> (\<forall>c \<in> set xs. cj_string c \<noteq> Some k)"
  by (induction xs) auto

lemma length_update_key [simp]: "length (update_key k f xs) = length xs"
  by (induction xs) auto

lemma update_key_absent: "find_key k xs = None \<Longrightarrow> update_key k f xs = xs"
  by (induction xs) (auto split: if_splits)

lemma find_update_key:
  "(\<And>c. cj_string (f c) = cj_string c) \<Longrightarrow>
   find_key k' (update_key k f xs) =
     (if k' = k then map_option f (find_key k xs) else find_key k' xs)"
  by (induction xs) auto

lemma update_item_sel [simp]:
  "cj_type (update_item k f j) = cj_type j" "cj_string (update_item k f j) = cj_string j"
  "cj_valuestring (update_item k f j) = cj_valuestring j"
  "length (cj_child (update_item k f j)) = length (cj_child j)"
  by (simp_all add: update_item_def)

lemma get_update_item:
  "(\<And>c. cj_string (f c) = cj_string c) \<Longrightarrow>
   cJSON_GetObjectItem (Some (update_item k f j)) k' =
     (if k' = k then map_option f (cJSON_GetObjectItem (Some j) k)
      else cJSON_GetObjectItem (Some j) k')"
  by (simp add: update_item_def cJSON_GetObjectItem_def find_update_key)

lemma get_add_item:
  "cJSON_GetObjectItem (cJSON_AddItemToObject (Some ob) (Some k) (Some i)) k' =
     (case cJSON_GetObjectItem (Some ob) k' of
        Some c \<Rightarrow> Some c
      | None \<Rightarrow> (if k' = k then Some (set_string (Some k) i) else None))"
  by (simp add: cJSON_GetObjectItem_def add_defs find_key_append split: option.split)

lemma length_remove_nth: "n < length xs \<Longrightarrow> length (remove_nth n xs) = length xs - 1"
  by (simp add: remove_nth_def)

lemma remove_nth_beyond: "length xs \<le> n \<Longrightarrow> remove_nth n xs = xs"
  by (simp add: remove_nth_def)

lemma remove_nth_middle [simp]: "remove_nth (length xs) (xs @ y # ys) = xs @ ys"
  by (simp add: remove_nth_def)

end
