(* ===== verification/FileTools.thy ===== *)
theory FileTools
  imports Config World Buffers CJson
begin

section \<open>The tools: shell, reading, editing files (main.c)\<close>

text \<open>
  The three tools and their dispatcher.  A run of a command is an entry of the script of the world; its
  output and exit status are arbitrary.  A tool returns the text that is sent back to the model.
\<close>

subsection \<open>run\_shell\<close>

text \<open>
  The read loop: \<^verbatim>\<open>fread\<close> fills its 4096 bytes except at the end; the flag is \<^verbatim>\<open>truncated\<close>.
\<close>

function shell_loop :: "buf_t \<Rightarrow> string \<Rightarrow> buf_t \<times> bool" where
  "shell_loop out rest =
     (if rest = [] then (out, False)
      else
        let out = buf_append out (take 4096 rest) in
        if 2 ^ 20 < length (bdata out) then (out, True) else shell_loop out (drop 4096 rest))"
  by pat_completeness auto
termination by (relation "measure (\<lambda>(out, rest). length rest)") auto

declare shell_loop.simps [simp del]

definition status_trailer :: "wait_status \<Rightarrow> string" where
  "status_trailer st =
     (case st of
        Exited n \<Rightarrow> [LF] @ ''[exit '' @ show_int n @ '']''
      | Signaled n \<Rightarrow> [LF] @ ''[signal '' @ show_int n @ '']''
      | Other_status n \<Rightarrow> [LF] @ ''[status '' @ show_int n @ '']'')"

definition shell_text :: "shell_run \<Rightarrow> string" where
  "shell_text r =
     (let (out, truncated) = shell_loop buf_empty (cmd_output r);
          out = (if bdata out = [] then buf_append out ''(no output)'' else out);
          out = (if truncated then buf_append out ([LF] @ ''[output truncated at 1MB]'') else out);
          out = buf_append out (fit 64 (status_trailer (cmd_status r)))
      in cstr (bdata out))"

definition run_shell :: "string \<Rightarrow> world \<Rightarrow> string \<times> world" where
  "run_shell cmd w =
     (let (r, w) = run_command (cmd @ '' 2>&1'') w in
      case r of None \<Rightarrow> (''error: popen failed'', w) | Some r \<Rightarrow> (shell_text r, w))"

subsection \<open>read\_file\_tool\<close>

text \<open>The lines \<^verbatim>\<open>getline\<close> returns: with their line feed, the last one perhaps without.\<close>

fun getlines :: "string \<Rightarrow> string list" where
  "getlines [] = []"
| "getlines (c # s) =
     (if c = LF then [LF] # getlines s
      else case getlines s of [] \<Rightarrow> [[c]] | l # ls \<Rightarrow> (c # l) # ls)"

definition MAX_BYTES :: nat where "MAX_BYTES = 256 * 1024"

text \<open>\<^verbatim>\<open>%6ld\t\<close>\<close>

definition line_prefix :: "int \<Rightarrow> string" where
  "line_prefix n = (let s = show_int n in replicate (6 - length s) (CHR '' '') @ s) @ [TAB]"

text \<open>
  The loop over the lines.  The result is \<open>None\<close> for a line with a NUL byte, else the buffer, the
  number of the last line looked at and the number of lines taken.
\<close>

fun read_lines :: "int \<Rightarrow> int \<Rightarrow> string list \<Rightarrow> buf_t \<Rightarrow> int \<Rightarrow> int \<Rightarrow> nat \<Rightarrow> (buf_t \<times> int \<times> int) option" where
  "read_lines offset limit [] out lineno lines_read tot = Some (out, lineno, lines_read)"
| "read_lines offset limit (line # ls) out lineno lines_read tot =
     (if NUL \<in> set line then None
      else
        let lineno = lineno + 1 in
        if lineno < offset then read_lines offset limit ls out lineno lines_read tot
        else if limit \<le> lines_read then Some (out, lineno, lines_read)
        else
          let pre = line_prefix lineno;
              out = buf_append (buf_append out pre) line;
              tot = tot + length pre + length line;
              lines_read = lines_read + 1
          in if MAX_BYTES < tot
             then Some (buf_append out ([LF] @ ''[truncated: 256KB cap reached]'' @ [LF] @ [NUL]), lineno, lines_read)
             else read_lines offset limit ls out lineno lines_read tot)"

text \<open>The message at the end of a full page.\<close>

definition continue_msg :: "int \<Rightarrow> int \<Rightarrow> string" where
  "continue_msg limit next =
     [LF] @ ''[limit '' @ show_int limit @ '' reached; use offset='' @ show_int next @ '' to continue]'' @ [LF]"

definition read_file_tool :: "string \<Rightarrow> int \<Rightarrow> int \<Rightarrow> world \<Rightarrow> string" where
  "read_file_tool path offset limit w =
     (let limit = (if limit \<le> 0 then 2000 else limit);
          offset = (if offset < 1 then 1 else offset)
      in case read_file w path of
           None \<Rightarrow> fit 512 (''error: cannot open '' @ path @ '': '' @ w_strerror w)
         | Some text \<Rightarrow>
             (case read_lines offset limit (getlines text) buf_empty 0 0 0 of
                None \<Rightarrow> ''error: binary file (NUL byte detected); use shell for binary reads''
              | Some (out, lineno, lines_read) \<Rightarrow>
                  if lines_read = 0 then
                    if lineno = 0 then ''(empty file)''
                    else fit 128 (''error: offset '' @ show_int offset @ '' beyond end (file has ''
                           @ show_int lineno @ '' lines)'')
                  else
                    let out = (if lines_read = limit
                               then buf_append out (fit 128 (continue_msg limit lineno))
                               else out)
                    in cstr (bdata out)))"

subsection \<open>atomic\_write\<close>

text \<open>\<^verbatim>\<open>mkstemp\<close> makes an empty file of mode 0600.\<close>

definition tmp_template :: "string \<Rightarrow> string" where
  "tmp_template path = path @ ''.tmp.XXXXXX''"

definition tmp_name :: "string \<Rightarrow> string \<Rightarrow> string" where
  "tmp_name path x = path @ ''.tmp.'' @ x"

definition put_file :: "string \<Rightarrow> fs_file \<Rightarrow> world \<Rightarrow> world" where
  "put_file path f w = w\<lparr>w_files := (w_files w)(path \<mapsto> f)\<rparr>"

definition unlink :: "string \<Rightarrow> world \<Rightarrow> world" where
  "unlink path w = w\<lparr>w_files := (w_files w)(path := None)\<rparr>"

definition rename :: "string \<Rightarrow> string \<Rightarrow> world \<Rightarrow> world" where
  "rename a b w = w\<lparr>w_files := (w_files w)(b := w_files w a, a := None)\<rparr>"

definition atomic_write :: "string \<Rightarrow> string \<Rightarrow> nat \<Rightarrow> world \<Rightarrow> string \<times> world" where
  "atomic_write path text len w =
     (if 1024 \<le> length (tmp_template path) then (''error: path too long'', w)
      else
        let (oc, w) = next_write len w in
        case wo_tmp oc of
          None \<Rightarrow> (fit 512 (''error: mkstemp '' @ tmp_template path @ '': '' @ w_strerror w), w)
        | Some x \<Rightarrow>
            let tmp = tmp_name path x; w = put_file tmp \<lparr>content = [], mode = 384\<rparr> w in
            if \<not> wo_fdopen oc then (''error: fdopen failed'', unlink tmp w)
            else
              let wrote = min (wo_wrote oc) len; w = put_file tmp \<lparr>content = take wrote text, mode = 384\<rparr> w in
              if wrote \<noteq> len \<or> \<not> wo_fclose oc then (''error: write failed'', unlink tmp w)
              else if \<not> wo_rename oc then (fit 512 (''error: rename: '' @ w_strerror w), unlink tmp w)
              else (fit 128 (''wrote '' @ show_nat len @ '' bytes to '' @ path), rename tmp path w))"

subsection \<open>edit\_file\_tool\<close>

text \<open>
  The loop \<^verbatim>\<open>while ((p = strstr(p, old_str)))\<close>: how many matches, each search starting after the
  previous match, and the suffix the first one starts.
\<close>

function count_matches :: "string \<Rightarrow> string \<Rightarrow> int" where
  "count_matches old p =
     (if old = [] then 0
      else case strstr p old of None \<Rightarrow> 0 | Some q \<Rightarrow> 1 + count_matches old (drop (length old) q))"
  by pat_completeness auto
termination by (relation "measure (\<lambda>(old, p). length p)") (auto dest!: strstr_Some_decomp)

declare count_matches.simps [simp del]

definition edit_file_tool :: "string \<Rightarrow> string \<Rightarrow> string \<Rightarrow> world \<Rightarrow> string \<times> world" where
  "edit_file_tool path old_str new_str w =
     (if old_str = [] then atomic_write path new_str (length new_str) w
      else case read_file w path of
        None \<Rightarrow> (fit 512 (''error: open '' @ path @ '': '' @ w_strerror w), w)
      | Some body \<Rightarrow>
          if 4 * 1024 * 1024 < length body then (''error: file too large for edit (>4MB)'', w)
          else
            let count = count_matches old_str (cstr body) in
            if count = 0 then (''error: old_string not found'', w)
            else if 1 < count
            then (fit 128 (''error: old_string matched '' @ show_int count @ '' times; make it unique''), w)
            else
              let pre = length (cstr body) - length (the (strstr (cstr body) old_str));
                  buf = take pre body @ new_str @ drop (pre + length old_str) body
              in atomic_write path buf (length body - length old_str + length new_str) w)"

subsection \<open>dispatch\_tool\<close>

definition input_string :: "cjson option \<Rightarrow> string \<Rightarrow> string option" where
  "input_string input key = cJSON_GetStringValue (cJSON_GetObjectItem input key)"

definition input_long :: "cjson option \<Rightarrow> string \<Rightarrow> int \<Rightarrow> int" where
  "input_long input key dflt =
     (case cJSON_GetObjectItem input key of
        Some j \<Rightarrow> if cJSON_IsNumber (Some j) then cvt_i64 (cj_valuedouble j) else dflt
      | None \<Rightarrow> dflt)"

definition dimmed :: "string \<Rightarrow> string" where
  "dimmed s = [LF, ESC] @ ''[2m'' @ s @ [ESC] @ ''[0m'' @ [LF]"

definition dispatch_tool :: "string \<Rightarrow> cjson option \<Rightarrow> world \<Rightarrow> string \<times> world" where
  "dispatch_tool name input w =
     (if name = ''shell'' then
        (case input_string input ''cmd'' of
           None \<Rightarrow> (''error: shell requires cmd'', w)
         | Some cmd \<Rightarrow> run_shell cmd (put_err (dimmed (''[shell] '' @ cmd)) w))
      else if name = ''edit_file'' then
        (case (input_string input ''path'', input_string input ''old_string'', input_string input ''new_string'') of
           (Some path, Some os, Some ns) \<Rightarrow>
             edit_file_tool path os ns
               (put_err (dimmed (''[edit_file] '' @ path @ '' ('' @ (if os \<noteq> [] then ''replace'' else ''write'') @ '')'')) w)
         | _ \<Rightarrow> (''error: edit_file requires path, old_string, new_string'', w))
      else if name = ''read_file'' then
        let offset = input_long input ''offset'' 1; limit = input_long input ''limit'' 2000 in
        (case input_string input ''path'' of
           None \<Rightarrow> (''error: read_file requires path'', w)
         | Some path \<Rightarrow>
             let w = put_err (dimmed (''[read_file] '' @ path @ '' (offset='' @ show_int offset
                       @ '' limit='' @ show_int limit @ '')'')) w
             in (read_file_tool path offset limit w, w))
      else (''error: unknown tool'', w))"

end
