(* ===== verification/FileToolProps.thy ===== *)
theory FileToolProps
  imports FileTools
begin

section \<open>What the tools return and do to the files\<close>

text \<open>
  The text that \<^verbatim>\<open>read_file\<close> returns page by page, the exact effect of \<^verbatim>\<open>edit_file\<close>, what a command's
  result holds, and that a file is replaced atomically or not at all.
\<close>

subsection \<open>Reading by pages\<close>

lemma concat_getlines [simp]: "concat (getlines s) = s"
proof (induction s)
  case (Cons c s)
  then show ?case by (cases "getlines s") auto
qed simp

lemma getlines_no_nul: "no_nul s \<Longrightarrow> list_all no_nul (getlines s)"
proof -
  assume s: "no_nul s"
  have "NUL \<notin> set l" if "l \<in> set (getlines s)" for l
    using s that concat_getlines [of s] unfolding no_nul_def by (metis UN_I set_concat)
  then show ?thesis by (auto simp: list_all_iff no_nul_def)
qed

fun numbered :: "int \<Rightarrow> string list \<Rightarrow> string" where
  "numbered n [] = []"
| "numbered n (l # ls) = line_prefix n @ l @ numbered (n + 1) ls"

lemma read_lines_skip:
  "list_all no_nul xs \<Longrightarrow> lineno + int (length xs) < offset \<Longrightarrow>
   read_lines offset limit (xs @ ys) out lineno lr tot
     = read_lines offset limit ys out (lineno + int (length xs)) lr tot"
proof (induction xs arbitrary: lineno)
  case (Cons x xs)
  then show ?case using Cons.IH [of "lineno + 1"] by (simp add: no_nul_def add_ac)
qed simp

lemma read_lines_take:
  "list_all no_nul ys \<Longrightarrow> offset \<le> lineno + 1 \<Longrightarrow> lr + int (length ys) \<le> limit \<Longrightarrow>
   tot + length (numbered (lineno + 1) ys) \<le> MAX_BYTES \<Longrightarrow>
   \<exists>out'. read_lines offset limit (ys @ zs) out lineno lr tot
       = read_lines offset limit zs out' (lineno + int (length ys)) (lr + int (length ys))
           (tot + length (numbered (lineno + 1) ys))
     \<and> bdata out' = bdata out @ numbered (lineno + 1) ys"
proof (induction ys arbitrary: out lineno lr tot)
  case (Cons y ys)
  let ?pre = "line_prefix (lineno + 1)"
  let ?out = "buf_append (buf_append out ?pre) y"
  obtain out' where "read_lines offset limit (ys @ zs) ?out (lineno + 1) (lr + 1) (tot + length ?pre + length y)
       = read_lines offset limit zs out' (lineno + 1 + int (length ys)) (lr + 1 + int (length ys))
           (tot + length ?pre + length y + length (numbered (lineno + 1 + 1) ys))"
    "bdata out' = bdata ?out @ numbered (lineno + 1 + 1) ys"
    using Cons.IH [of "lineno + 1" "lr + 1" "tot + length ?pre + length y" ?out] Cons.prems by auto
  then show ?case using Cons.prems
    by (intro exI [of _ out']) (simp add: no_nul_def add_ac Let_def)
qed (auto intro: exI)

lemma length_show_int: "0 \<le> i \<Longrightarrow> i < 10 ^ k \<Longrightarrow> 0 < k \<Longrightarrow> length (show_int i) \<le> k"
proof -
  assume a: "0 \<le> i" "i < 10 ^ k" "0 < k"
  then have "nat i < 10 ^ k" by (metis nat_less_iff of_nat_numeral of_nat_power)
  then show ?thesis using a length_show_nat_bound [of "nat i" k] by (simp add: show_int_def)
qed

lemma continue_msg_fits:
  "0 \<le> limit \<Longrightarrow> limit < 2 ^ 63 \<Longrightarrow> 0 \<le> next \<Longrightarrow> next < 2 ^ 63 \<Longrightarrow> fit 128 (continue_msg limit next) = continue_msg limit next"
proof -
  assume a: "0 \<le> limit" "limit < 2 ^ 63" "0 \<le> next" "next < 2 ^ 63"
  then have "length (show_int limit) \<le> 19" "length (show_int next) \<le> 19"
    by (intro length_show_int; simp)+
  then show ?thesis by (intro fit_id) (simp add: continue_msg_def)
qed

lemma no_nul_numbered: "list_all no_nul ls \<Longrightarrow> no_nul (numbered n ls)"
  by (induction ls arbitrary: n) (auto simp: line_prefix_def Let_def no_nul_def [of "replicate _ _"])

lemma no_nul_continue: "no_nul (continue_msg limit next)"
  by (simp add: continue_msg_def)

lemma read_file_lines:
  assumes "read_file w path = Some text" and "no_nul text" and "getlines text = xs @ ys @ zs" and "ys \<noteq> []"
    and "int (length ys) \<le> limit" and "limit < 2 ^ 63" and "zs \<noteq> [] \<Longrightarrow> int (length ys) = limit"
    and "length (numbered (int (length xs) + 1) ys) \<le> MAX_BYTES" and "int (length (getlines text)) < 2 ^ 63"
  shows "read_file_tool path (int (length xs) + 1) limit w = numbered (int (length xs) + 1) ys
    @ (if int (length ys) < limit then []
       else continue_msg limit (int (length xs) + int (length ys) + (if zs = [] then 0 else 1)))"
proof -
  let ?n = "int (length xs)" let ?m = "int (length ys)"
  have nn: "list_all no_nul xs" "list_all no_nul ys" "list_all no_nul zs"
    using getlines_no_nul [OF assms(2)] assms(3) by simp_all
  obtain out' where t: "read_lines (?n + 1) limit (ys @ zs) buf_empty ?n 0 0
      = read_lines (?n + 1) limit zs out' (?n + ?m) ?m (length (numbered (?n + 1) ys))"
    "bdata out' = numbered (?n + 1) ys"
    using read_lines_take [OF nn(2), of "?n + 1" ?n 0 limit 0 zs buf_empty] assms(5,8) by auto
  have "read_lines (?n + 1) limit zs out' (?n + ?m) ?m (length (numbered (?n + 1) ys))
      = Some (out', ?n + ?m + (if zs = [] then 0 else 1), ?m)"
    using nn(3) assms(7) by (cases zs) (auto simp: no_nul_def)
  then have r: "read_lines (?n + 1) limit (getlines text) buf_empty 0 0 0
      = Some (out', ?n + ?m + (if zs = [] then 0 else 1), ?m)"
    using read_lines_skip [OF nn(1), of 0 "?n + 1" limit "ys @ zs"] t(1) assms(3) by simp
  have m: "0 < ?m" using assms(4) by simp
  with assms(5) have l: "\<not> limit \<le> 0" "\<not> ?n + 1 < 1" by linarith+
  have nx: "?n + ?m + (if zs = [] then 0 else 1) < 2 ^ 63"
    using assms(3,9) by (cases zs) simp_all
  have c: "fit 128 (continue_msg limit (?n + ?m + (if zs = [] then 0 else 1)))
      = continue_msg limit (?n + ?m + (if zs = [] then 0 else 1))"
    using l assms(6) nx by (intro continue_msg_fits) auto
  show ?thesis
    using assms(1,5) m l r c t(2) no_nul_numbered [OF nn(2), of "?n + 1"] no_nul_continue
    by (cases "?m = limit"; cases "zs = []"; simp add: read_file_tool_def cstr_append)
qed

text \<open>
  \<^bold>\<open>C20\<close> Reading by pages: the page that starts after \<open>xs\<close> is exactly the next lines \<open>ys\<close>, each
  with its line number, up to the limit or the end of the file; a page that reaches the limit ends
  in the line that says where to go on.  When lines remain, following that line reads the file on
  without gap or overlap; when the page ends exactly at the end of the file, the message still
  claims that there is more and names the last line again.
\<close>

theorem read_file_page:
  assumes "read_file w path = Some text" and "no_nul text" and "getlines text = xs @ ys @ zs" and "ys \<noteq> []"
    and "int (length ys) \<le> limit" and "limit < 2 ^ 63" and "zs \<noteq> [] \<Longrightarrow> int (length ys) = limit"
    and "length (numbered (int (length xs) + 1) ys) \<le> MAX_BYTES" and "int (length (getlines text)) < 2 ^ 63"
  shows "read_file_tool path (int (length xs) + 1) limit w = numbered (int (length xs) + 1) ys
    @ (if int (length ys) < limit then []
       else continue_msg limit (int (length xs) + int (length ys) + (if zs = [] then 0 else 1)))"
  using assms by (rule read_file_lines)

definition one_file :: "string \<Rightarrow> string \<Rightarrow> world" where
  "one_file path text = calm_world\<lparr>w_files := (\<lambda>_. None)(path \<mapsto> \<lparr>content = text, mode = 420\<rparr>)\<rparr>"

lemma read_one_file [simp]: "read_file (one_file path text) path = Some text"
  by (simp add: read_file_def one_file_def)

theorem read_file_page_witness:
  "read_file_tool ''f'' 2 2 (one_file ''f'' [CHR ''a'', LF, CHR ''b'', LF, CHR ''c''])
     = numbered 2 [[CHR ''b'', LF], ''c''] @ continue_msg 2 3"
proof -
  let ?t = "[CHR ''a'', LF, CHR ''b'', LF, CHR ''c'']"
  have s: "show_int 2 = ''2''" "show_int 3 = ''3''"
    by code_simp+
  have n: "length (numbered (int (length [[CHR ''a'', LF]]) + 1) [[CHR ''b'', LF], ''c'']) \<le> MAX_BYTES"
    by (simp add: line_prefix_def s MAX_BYTES_def)
  show ?thesis
    using read_file_page [OF read_one_file [of "''f''" ?t], of "[[CHR ''a'', LF]]" "[[CHR ''b'', LF], ''c'']" "[]" 2] n
    by (simp del: numbered.simps)
qed

subsection \<open>Running a command\<close>

lemma shell_loop_all: "length (bdata out) + length s \<le> 2 ^ 20 \<Longrightarrow>
    bdata (fst (shell_loop out s)) = bdata out @ s \<and> \<not> snd (shell_loop out s)"
proof (induction out s rule: shell_loop.induct)
  case (1 out s)
  show ?case
  proof (cases "s = []")
    case True
    then show ?thesis by (subst (1 2) shell_loop.simps) simp
  next
    case False
    then have "\<not> 2 ^ 20 < length (bdata (buf_append out (take 4096 s)))" using "1.prems" by auto
    then show ?thesis using "1.IH" [OF False refl] "1.prems" False by (subst (1 2) shell_loop.simps) (simp add: Let_def)
  qed
qed

lemma shell_loop_bound: "length (bdata out) \<le> 2 ^ 20 \<Longrightarrow> length (bdata (fst (shell_loop out s))) \<le> 2 ^ 20 + 4096"
proof (induction out s rule: shell_loop.induct)
  case (1 out s)
  show ?case
  proof (cases "s = []")
    case True
    then show ?thesis using "1.prems" by (subst shell_loop.simps) simp
  next
    case False
    then show ?thesis using "1.IH" [OF False refl] "1.prems" by (subst shell_loop.simps) (auto simp: Let_def min_def)
  qed
qed

text \<open>
  What the shell tool hands to the model is bounded, whatever the command writes: at
  most 1 MB plus one read of 4096 bytes plus the two trailers.
\<close>

lemma shell_text_bounded: "length (shell_text r) \<le> 2 ^ 20 + 4096 + 26 + 63"
proof -
  obtain out b where l: "shell_loop buf_empty (cmd_output r) = (out, b)" by (metis surj_pair)
  have o: "length (bdata out) \<le> 2 ^ 20 + 4096" using shell_loop_bound [of buf_empty "cmd_output r"] l by simp
  have t: "length (fit 64 (status_trailer (cmd_status r))) \<le> 63" by (simp add: fit_def)
  have c: "length (cstr s) \<le> n" if "length s \<le> n" for s n using length_cstr [of s] that by simp
  show ?thesis
    using o t by (simp add: shell_text_def l Let_def) (auto intro!: c)
qed

lemma show_int_fits: "\<bar>n\<bar> < 10 ^ k \<Longrightarrow> 0 < k \<Longrightarrow> length (show_int n) \<le> Suc k"
proof -
  assume a: "\<bar>n\<bar> < 10 ^ k" "0 < k"
  then have "nat \<bar>n\<bar> < 10 ^ k" by (metis abs_ge_zero nat_less_iff of_nat_numeral of_nat_power)
  then have "length (show_nat (nat \<bar>n\<bar>)) \<le> k" using a(2) by (rule length_show_nat_bound)
  then show ?thesis by (cases "n < 0") (simp_all add: show_int_def)
qed

definition status_code :: "wait_status \<Rightarrow> int" where
  "status_code st = (case st of Exited n \<Rightarrow> n | Signaled n \<Rightarrow> n | Other_status n \<Rightarrow> n)"

lemma trailer_fits: "\<bar>status_code st\<bar> < 2 ^ 31 \<Longrightarrow> fit 64 (status_trailer st) = status_trailer st"
proof -
  assume "\<bar>status_code st\<bar> < 2 ^ 31"
  then have "length (show_int (status_code st)) \<le> Suc 10" by (intro show_int_fits) simp_all
  then have "length (status_trailer st) < 64"
    by (cases st) (simp_all add: status_trailer_def status_code_def)
  then show ?thesis by (rule fit_id)
qed

lemma no_nul_trailer: "no_nul (status_trailer st)"
  by (cases st) (simp_all add: status_trailer_def)

text \<open>
  The shell tool runs the command with \<^verbatim>\<open>2>&1\<close> appended and returns all of its output,
  byte for byte, followed by how it ended, for every non-empty text output of up to 1 MB.
\<close>

lemma run_shell_text:
  assumes "w_commands w = Some r # cs" and "no_nul (cmd_output r)" and "cmd_output r \<noteq> []"
    and "length (cmd_output r) \<le> 2 ^ 20" and "\<bar>status_code (cmd_status r)\<bar> < 2 ^ 31"
  shows "fst (run_shell cmd w) = cmd_output r @ status_trailer (cmd_status r)
    \<and> w_ran (snd (run_shell cmd w)) = w_ran w @ [cmd @ '' 2>&1'']"
proof -
  obtain out b where l: "shell_loop buf_empty (cmd_output r) = (out, b)" by (metis surj_pair)
  have "bdata out = cmd_output r" "\<not> b" using shell_loop_all [of buf_empty "cmd_output r"] assms(4) l by simp_all
  then have "shell_text r = cmd_output r @ status_trailer (cmd_status r)"
    using assms trailer_fits no_nul_trailer by (simp add: shell_text_def l)
  then show ?thesis by (simp add: run_shell_def run_command_def assms(1) Let_def)
qed

definition hi_run :: shell_run where
  "hi_run = \<lparr>cmd_output = ''hi'', cmd_status = Exited 3, cmd_files = (\<lambda>f. f)\<rparr>"

lemma run_shell_text_witness:
  "fst (run_shell ''echo hi'' (calm_world\<lparr>w_commands := [Some hi_run]\<rparr>)) = ''hi'' @ [LF] @ ''[exit '' @ show_int 3 @ '']''"
  using run_shell_text [of "calm_world\<lparr>w_commands := [Some hi_run]\<rparr>" hi_run "[]" "''echo hi''"]
  by (simp add: hi_run_def status_code_def status_trailer_def)

subsection \<open>Writing a file\<close>

text \<open>What the \<^verbatim>\<open>XXXXXX\<close> of the next \<^verbatim>\<open>mkstemp\<close> become: a name no file has, as its contract says.\<close>

definition fresh_tmp :: "string \<Rightarrow> world \<Rightarrow> bool" where
  "fresh_tmp path w \<longleftrightarrow> (case wo_tmp (fst (next_write 0 w)) of
      None \<Rightarrow> True | Some x \<Rightarrow> w_files w (tmp_name path x) = None)"

lemma next_write_tmp: "wo_tmp (fst (next_write n w)) = wo_tmp (fst (next_write 0 w))"
  by (simp add: next_write_def split: list.split)

lemma next_write_files [simp]: "w_files (snd (next_write n w)) = w_files w" "w_strerror (snd (next_write n w)) = w_strerror w"
  by (simp_all add: next_write_def split: list.split)

lemma tmp_name_other: "tmp_name path x \<noteq> path"
  by (simp add: tmp_name_def)

definition failed :: "string \<Rightarrow> bool" where
  "failed msg \<longleftrightarrow> starts ''error'' msg"

lemma failed_fit [simp]:
  "5 < n \<Longrightarrow> failed (fit n (CHR ''e'' # CHR ''r'' # CHR ''r'' # CHR ''o'' # CHR ''r'' # s))"
  "failed (CHR ''e'' # CHR ''r'' # CHR ''r'' # CHR ''o'' # CHR ''r'' # s)"
  "1 < n \<Longrightarrow> \<not> failed (fit n (CHR ''w'' # s))"
  by (auto simp: failed_def starts_def fit_def take_Cons' numeral_eq_Suc split: if_splits)

text \<open>Every call of a write of \<open>n\<close> bytes succeeds.\<close>

definition write_ok :: "string \<Rightarrow> nat \<Rightarrow> world \<Rightarrow> bool" where
  "write_ok path n w \<longleftrightarrow> length (tmp_template path) < 1024 \<and>
     (let oc = fst (next_write n w) in
      wo_tmp oc \<noteq> None \<and> wo_fdopen oc \<and> n \<le> wo_wrote oc \<and> wo_fclose oc \<and> wo_rename oc)"

text \<open>What a write does, when it succeeds and when it does not.\<close>

definition writes :: "string \<Rightarrow> string \<Rightarrow> world \<Rightarrow> string \<times> world \<Rightarrow> bool" where
  "writes path text w r \<longleftrightarrow>
     (if write_ok path (length text) w
      then fst r = fit 128 (''wrote '' @ show_nat (length text) @ '' bytes to '' @ path)
        \<and> w_files (snd r) = (w_files w)(path \<mapsto> \<lparr>content = text, mode = 384\<rparr>)
      else failed (fst r) \<and> w_files (snd r) = w_files w)"

lemma atomic_write_writes:
  assumes "fresh_tmp path w"
  shows "writes path text w (atomic_write path text (length text) w)"
proof -
  obtain oc w1 where n: "next_write (length text) w = (oc, w1)" by (metis surj_pair)
  have w1: "w_files w1 = w_files w" using next_write_files(1) [of "length text" w] n by simp
  show ?thesis
  proof (cases "1024 \<le> length (tmp_template path)")
    case True
    then show ?thesis by (simp add: atomic_write_def writes_def write_ok_def)
  next
    case short: False
    show ?thesis
    proof (cases "wo_tmp oc")
      case None
      then show ?thesis using short n w1 by (simp add: atomic_write_def writes_def write_ok_def)
    next
      case (Some x)
      then have "wo_tmp (fst (next_write 0 w)) = Some x"
        using next_write_tmp [of "length text" w] n by simp
      then have "w_files w (tmp_name path x) = None" using assms by (simp add: fresh_tmp_def)
      then have restored: "(w_files w)(tmp_name path x := None) = w_files w" by auto
      show ?thesis
        using short n w1 Some restored tmp_name_other [of path x]
        by (auto simp: atomic_write_def writes_def write_ok_def Let_def put_file_def unlink_def rename_def fun_upd_twist)
    qed
  qed
qed

lemma atomic_write_cases:
  assumes "fresh_tmp path w"
  shows "failed (fst (atomic_write path text (length text) w)) \<and> w_files (snd (atomic_write path text (length text) w)) = w_files w
    \<or> \<not> failed (fst (atomic_write path text (length text) w))
      \<and> w_files (snd (atomic_write path text (length text) w)) = (w_files w)(path \<mapsto> \<lparr>content = text, mode = 384\<rparr>)"
  using atomic_write_writes [OF assms, of "text"] by (auto simp: writes_def split: if_splits)

text \<open>
  \<^bold>\<open>C18\<close> A write is all or nothing: whatever \<^verbatim>\<open>mkstemp\<close>, \<^verbatim>\<open>fdopen\<close>, \<^verbatim>\<open>fwrite\<close>, \<^verbatim>\<open>fclose\<close> and \<^verbatim>\<open>rename\<close> do,
  either the result is an error and no file has changed (the temporary one is gone), or the path
  holds exactly the new text and nothing else has changed.
\<close>

theorem atomic_write_atomic:
  assumes "fresh_tmp path w" and "atomic_write path text (length text) w = (msg, w')"
  shows "failed msg \<and> w_files w' = w_files w
    \<or> \<not> failed msg \<and> w_files w' = (w_files w)(path \<mapsto> \<lparr>content = text, mode = 384\<rparr>)"
  using atomic_write_cases [OF assms(1), of "text"] assms(2) by simp

lemma fresh_one_file: "fresh_tmp ''f'' (one_file ''f'' text)"
  by (simp add: fresh_tmp_def next_write_def one_file_def calm_world_def tmp_name_def)

theorem atomic_write_atomic_witness:
  "w_files (snd (atomic_write ''f'' ''new'' (length ''new'') (one_file ''f'' ''old''))) ''f'' \<in> {Some \<lparr>content = ''old'', mode = 420\<rparr>,
     Some \<lparr>content = ''new'', mode = 384\<rparr>}"
proof -
  obtain msg w' where a: "atomic_write ''f'' ''new'' (length ''new'') (one_file ''f'' ''old'') = (msg, w')" by (metis surj_pair)
  have f: "w_files (one_file ''f'' ''old'') ''f'' = Some \<lparr>content = ''old'', mode = 420\<rparr>" by (simp add: one_file_def)
  from atomic_write_atomic [OF fresh_one_file a] show ?thesis using a f by auto
qed

subsection \<open>Editing a file\<close>

lemma count_matches_nonneg: "0 \<le> count_matches old p"
  by (induction old p rule: count_matches.induct) (subst count_matches.simps, auto split: option.split)

text \<open>
  That \<open>old\<close> occurs in a text, that it occurs at two places that do not overlap, and its first place.
\<close>

definition occurs :: "string \<Rightarrow> string \<Rightarrow> bool" where
  "occurs old s \<longleftrightarrow> (\<exists>a b. s = a @ old @ b)"

definition occurs_twice :: "string \<Rightarrow> string \<Rightarrow> bool" where
  "occurs_twice old s \<longleftrightarrow> (\<exists>a b c. s = a @ old @ b @ old @ c)"

definition first_at :: "string \<Rightarrow> string \<Rightarrow> string \<Rightarrow> bool" where
  "first_at a old s \<longleftrightarrow> (\<exists>b. s = a @ old @ b) \<and> (\<forall>a' b'. s = a' @ old @ b' \<longrightarrow> length a \<le> length a')"

lemma strstr_first:
  "strstr s old = Some q \<Longrightarrow> s = a @ old @ b \<Longrightarrow> length b + length old \<le> length q"
proof (induction s arbitrary: a)
  case Nil
  then show ?case by (simp add: strstr.simps split: if_splits)
next
  case (Cons x s)
  show ?case
  proof (cases "prefix old (x # s)")
    case True
    then have "q = x # s" using Cons.prems(1) by (simp add: strstr.simps [of "x # s"])
    then show ?thesis using Cons.prems(2) arg_cong [of "x # s" _ length] by fastforce
  next
    case False
    then have "strstr s old = Some q" using Cons.prems(1) by (simp add: strstr.simps [of "x # s"])
    moreover obtain a' where "s = a' @ old @ b" using Cons.prems(2) False by (cases a) (auto simp: prefix_def)
    ultimately show ?thesis by (rule Cons.IH)
  qed
qed

lemma occurs_strstr: "occurs old s \<longleftrightarrow> strstr s old \<noteq> None"
proof (cases "strstr s old")
  case None
  then show ?thesis using strstr_None by (auto simp: occurs_def)
next
  case (Some q)
  then obtain a b where "s = a @ old @ b" using strstr_Some_decomp by blast
  then show ?thesis using Some by (auto simp: occurs_def)
qed

lemma count_occurs:
  assumes "old \<noteq> []"
  shows "count_matches old s = 0 \<longleftrightarrow> \<not> occurs old s"
    and "1 < count_matches old s \<longleftrightarrow> occurs_twice old s"
proof -
  have zero: "count_matches old t = 0 \<longleftrightarrow> \<not> occurs old t" for t
    using assms count_matches_nonneg [of old "drop (length old) (the (strstr t old))"]
    by (subst count_matches.simps) (auto simp: occurs_strstr split: option.split)
  then show "count_matches old s = 0 \<longleftrightarrow> \<not> occurs old s" .
  show "1 < count_matches old s \<longleftrightarrow> occurs_twice old s"
  proof (cases "strstr s old")
    case None
    then have "\<not> occurs_twice old s" using strstr_None unfolding occurs_twice_def by blast
    moreover have "count_matches old s = 0" using None by (subst count_matches.simps) simp
    ultimately show ?thesis by simp
  next
    case (Some q)
    let ?rest = "drop (length old) q"
    obtain a b where ab: "s = a @ old @ b" "q = old @ b" using strstr_Some_decomp [OF Some] by blast
    have "count_matches old s = 1 + count_matches old ?rest"
      using assms Some by (subst count_matches.simps) simp
    then have "1 < count_matches old s \<longleftrightarrow> occurs old b"
      using zero [of b] count_matches_nonneg [of old b] ab(2) by auto
    moreover have "occurs old b \<longleftrightarrow> occurs_twice old s"
    proof
      show "occurs old b \<Longrightarrow> occurs_twice old s" using ab(1) unfolding occurs_def occurs_twice_def by blast
    next
      assume "occurs_twice old s"
      then obtain c d e where s: "s = c @ old @ d @ old @ e" by (auto simp: occurs_twice_def)
      from strstr_first [OF Some, of c "d @ old @ e"] s ab(2) have l: "length (d @ old @ e) \<le> length b" by simp
      have "b = drop (length s - length b) s" using ab(1) by simp
      also have "\<dots> = drop (length s - length b) ((c @ old) @ d @ old @ e)" using s by simp
      also have "length s - length b \<le> length (c @ old)" using s l by simp
      then have "drop (length s - length b) ((c @ old) @ d @ old @ e) = drop (length s - length b) (c @ old) @ d @ old @ e"
        by simp
      finally show "occurs old b" unfolding occurs_def by (metis append.assoc)
    qed
    ultimately show ?thesis by simp
  qed
qed

text \<open>The outcome an edit promises: one branch per condition, in the order they are checked.\<close>

definition edit_outcome :: "string \<Rightarrow> string \<Rightarrow> string \<Rightarrow> world \<Rightarrow> string \<times> world \<Rightarrow> bool" where
  "edit_outcome path old new w r \<longleftrightarrow> (case read_file w path of
      None \<Rightarrow> r = (fit 512 (''error: open '' @ path @ '': '' @ w_strerror w), w)
    | Some body \<Rightarrow>
        if 4 * 1024 * 1024 < length body then r = (''error: file too large for edit (>4MB)'', w)
        else if \<not> occurs old (cstr body) then r = (''error: old_string not found'', w)
        else if occurs_twice old (cstr body)
        then r = (fit 128 (''error: old_string matched '' @ show_int (count_matches old (cstr body)) @ '' times; make it unique''), w)
        else \<exists>a b. body = a @ old @ b \<and> first_at a old (cstr body) \<and> writes path (a @ new @ b) w r)"

lemma edit_once:
  assumes w: "fresh_tmp path w" and old: "old \<noteq> []" and body: "read_file w path = Some body" "length body \<le> 4 * 1024 * 1024"
    and one: "count_matches old (cstr body) = 1"
  shows "\<exists>a b. body = a @ old @ b \<and> first_at a old (cstr body) \<and> writes path (a @ new @ b) w (edit_file_tool path old new w)"
proof -
  obtain q where q: "strstr (cstr body) old = Some q"
    using old one by (subst (asm) count_matches.simps) (auto split: option.splits)
  obtain a b where ab: "cstr body = a @ q" "q = old @ b" using strstr_Some_decomp [OF q] by blast
  obtain c where c: "body = cstr body @ c" by (metis cstr_def takeWhile_dropWhile_id)
  have pre: "length (cstr body) - length q = length a" using ab by simp
  have split: "body = a @ old @ (b @ c)" using ab c by simp
  define buf where "buf = a @ new @ (b @ c)"
  have l: "length body - length old + length new = length buf" using split by (simp add: buf_def)
  have t: "take (length a) body @ new @ drop (length a + length old) body = buf"
    using split by (simp add: buf_def)
  have "edit_file_tool path old new w = atomic_write path buf (length buf) w"
    using old body q one by (simp add: edit_file_tool_def Let_def pre t l)
  moreover have "length a \<le> length a'" if "cstr body = a' @ old @ b'" for a' b'
    using strstr_first [OF q that] arg_cong [OF that, of length] ab by simp
  ultimately have "first_at a old (cstr body)" "writes path (a @ new @ (b @ c)) w (edit_file_tool path old new w)"
    using ab atomic_write_writes [OF w, of buf] by (auto simp: first_at_def buf_def)
  then show ?thesis using split by blast
qed

lemma edit_cases:
  assumes "fresh_tmp path w" and "old \<noteq> []"
  shows "edit_outcome path old new w (edit_file_tool path old new w)"
proof (cases "read_file w path")
  case None
  then show ?thesis using assms(2) by (simp add: edit_file_tool_def edit_outcome_def)
next
  case (Some body)
  let ?count = "count_matches old (cstr body)"
  note occ = count_occurs [OF assms(2), of "cstr body"]
  consider (large) "4 * 1024 * 1024 < length body" | (none) "length body \<le> 4 * 1024 * 1024" "?count = 0"
    | (many) "length body \<le> 4 * 1024 * 1024" "1 < ?count" | (one) "length body \<le> 4 * 1024 * 1024" "?count = 1"
    using count_matches_nonneg [of old "cstr body"] by linarith
  then show ?thesis
  proof cases
    case one
    then show ?thesis using edit_once [OF assms Some one, of new] occ by (simp add: edit_outcome_def Some)
  qed (use assms(2) occ Some in \<open>simp_all add: edit_file_tool_def edit_outcome_def\<close>)
qed


lemma one_file_writes: "write_ok ''f'' n (one_file ''f'' text)"
  by (simp add: write_ok_def next_write_def one_file_def calm_world_def tmp_template_def)


text \<open>
  The search does not see overlapping matches: \<^verbatim>\<open>aa\<close> occurs twice in \<^verbatim>\<open>aaa\<close>, yet the
  edit goes through and replaces the first occurrence; and the mode 0644 of the file becomes 0600.
\<close>

lemma edit_overlapping_match:
  "w_files (snd (edit_file_tool ''f'' ''aa'' ''b'' (one_file ''f'' ''aaa''))) ''f'' = Some \<lparr>content = ''ba'', mode = 384\<rparr>
    \<and> w_files (one_file ''f'' ''aaa'') ''f'' = Some \<lparr>content = ''aaa'', mode = 420\<rparr>"
proof -
  have "strstr ''aaa'' ''aa'' = Some ''aaa''" "strstr ''a'' ''aa'' = None" "count_matches ''aa'' ''aaa'' = 1"
    by code_simp+
  then show ?thesis
    by (simp add: edit_file_tool_def one_file_def read_file_def calm_world_def atomic_write_def next_write_def
        tmp_template_def tmp_name_def put_file_def rename_def)
qed

end
