(* ===== verification/JParse.thy ===== *)
theory JParse
  imports CJson
begin

section \<open>The JSON parser (tinyjson.h)\<close>

text \<open>
  A cursor \<open>{p, end}\<close> is the text between the two pointers.  A parse function returns the value
  with the cursor it leaves, or \<^term>\<open>None\<close> for NULL.  The parser consumes at least one
  character for each value, which is proved first, about the calls that return, and then gives
  its termination.
\<close>

unbundle bit_operations_syntax

type_synonym cursor = string

subsection \<open>White space, strings, numbers\<close>

definition is_ws :: "char \<Rightarrow> bool" where
  "is_ws c \<longleftrightarrow> c = CHR '' '' \<or> c = TAB \<or> c = LF \<or> c = CR"

definition cj_skip_ws :: "cursor \<Rightarrow> cursor" where
  "cj_skip_ws c = dropWhile is_ws c"

text \<open>The one-character escapes of the switch.\<close>

definition simple_escape :: "char \<Rightarrow> char option" where
  "simple_escape e =
     (if e = QUOTE then Some QUOTE else if e = BSLASH then Some BSLASH
      else if e = CHR ''/'' then Some CHR ''/''
      else if e = CHR ''b'' then Some CHR 0x08 else if e = CHR ''f'' then Some CHR 0x0C
      else if e = CHR ''n'' then Some LF else if e = CHR ''r'' then Some CR
      else if e = CHR ''t'' then Some TAB else None)"

definition hex_digit :: "char \<Rightarrow> nat option" where
  "hex_digit h =
     (if byte CHR ''0'' \<le> byte h \<and> byte h \<le> byte CHR ''9'' then Some (byte h - byte CHR ''0'')
      else if byte CHR ''a'' \<le> byte h \<and> byte h \<le> byte CHR ''f'' then Some (byte h - byte CHR ''a'' + 10)
      else if byte CHR ''A'' \<le> byte h \<and> byte h \<le> byte CHR ''F'' then Some (byte h - byte CHR ''A'' + 10)
      else None)"

fun hex_acc :: "nat \<Rightarrow> string \<Rightarrow> nat option" where
  "hex_acc cp [] = Some cp"
| "hex_acc cp (h # hs) =
     (case hex_digit h of None \<Rightarrow> None | Some v \<Rightarrow> hex_acc (push_bit 4 cp OR v) hs)"

definition utf8 :: "nat \<Rightarrow> string" where
  "utf8 cp =
     (if cp < 0x80 then [chr cp]
      else if cp < 0x800 then [chr (0xC0 OR drop_bit 6 cp), chr (0x80 OR (cp AND 0x3F))]
      else [chr (0xE0 OR drop_bit 12 cp), chr (0x80 OR (drop_bit 6 cp AND 0x3F)),
            chr (0x80 OR (cp AND 0x3F))])"

text \<open>
  The loop of \<open>cj_parse_string_raw\<close>: the bytes decoded so far and the capacity of the heap block
  that holds them.  \<open>widen k\<close> doubles the block before \<open>k\<close> more bytes would fill it.
\<close>

definition widen :: "nat \<Rightarrow> string \<Rightarrow> nat \<Rightarrow> nat" where
  "widen k out cap = (if cap \<le> length out + k then cap * 2 else cap)"

function cj_string_loop :: "cursor \<Rightarrow> string \<Rightarrow> nat \<Rightarrow> (string \<times> nat \<times> cursor) option" where
  "cj_string_loop c out cap =
     (case c of
        [] \<Rightarrow> Some (out, cap, [])
      | ch # t \<Rightarrow>
          if ch = QUOTE then Some (out, cap, ch # t)
          else if ch = BSLASH \<and> t \<noteq> [] then
            (case simple_escape (hd t) of
               Some ch' \<Rightarrow> cj_string_loop (tl t) (out @ [ch']) (widen 1 out cap)
             | None \<Rightarrow>
                 if hd t = CHR ''u'' then
                   if length (tl t) < 4 then None
                   else (case hex_acc 0 (take 4 (tl t)) of
                           None \<Rightarrow> None
                         | Some cp \<Rightarrow> cj_string_loop (drop 4 (tl t)) (out @ utf8 cp) (widen 4 out cap))
                 else None)
          else cj_string_loop t (out @ [ch]) (widen 1 out cap))"
  by pat_completeness auto
termination
  by (relation "measure (\<lambda>(c, out, cap). length c)") auto

declare cj_string_loop.simps [simp del]

definition cj_parse_string_raw :: "cursor \<Rightarrow> (string \<times> cursor) option" where
  "cj_parse_string_raw c =
     (case c of
        [] \<Rightarrow> None
      | q # t \<Rightarrow>
          if q \<noteq> QUOTE then None
          else (case cj_string_loop t [] 32 of
                  None \<Rightarrow> None
                | Some (out, cap, r) \<Rightarrow> (case r of [] \<Rightarrow> None | _ # r' \<Rightarrow> Some (out, r'))))"

text \<open>\<open>valuestring\<close> is read as a C string: a NUL byte decoded from \<^verbatim>\<open>\u0000\<close> ends it.\<close>

definition cj_parse_string :: "cursor \<Rightarrow> (cjson \<times> cursor) option" where
  "cj_parse_string c =
     (case cj_parse_string_raw c of
        None \<Rightarrow> None
      | Some (s, r) \<Rightarrow> Some (set_valuestring (Some (cstr s)) (cj_new cJSON_String), r))"

definition is_num_char :: "char \<Rightarrow> bool" where
  "is_num_char c \<longleftrightarrow> is_digit c \<or> c = CHR ''.'' \<or> c = CHR ''e'' \<or> c = CHR ''E''
     \<or> c = CHR ''+'' \<or> c = CHR ''-''"

definition cj_parse_number :: "cursor \<Rightarrow> (cjson \<times> cursor) option" where
  "cj_parse_number c =
     (let (sign, c1) = (case c of ch # t \<Rightarrow> if ch = CHR ''-'' \<or> ch = CHR ''+'' then ([ch], t) else ([], c)
                              | [] \<Rightarrow> ([], c));
          txt = sign @ takeWhile is_num_char c1
      in if txt = [] then None
         else if 64 \<le> length txt then None
         else Some (cJSON_CreateNumber (strtod txt), dropWhile is_num_char c1))"

text \<open>The last three branches of \<open>cj_parse_value\<close>.\<close>

definition cj_parse_word :: "cursor \<Rightarrow> (cjson \<times> cursor) option" where
  "cj_parse_word c =
     (if 4 \<le> length c \<and> starts ''true'' c then Some (cJSON_CreateBool True, drop 4 c)
      else if 5 \<le> length c \<and> starts ''false'' c then Some (cJSON_CreateBool False, drop 5 c)
      else if 4 \<le> length c \<and> starts ''null'' c then Some (cJSON_CreateNull, drop 4 c)
      else None)"

subsection \<open>Values, arrays, objects\<close>

function
    cj_parse_value :: "cursor \<Rightarrow> (cjson \<times> cursor) option"
  and cj_parse_array :: "cursor \<Rightarrow> (cjson \<times> cursor) option"
  and cj_array_loop :: "cjson \<Rightarrow> cursor \<Rightarrow> (cjson \<times> cursor) option"
  and cj_parse_object :: "cursor \<Rightarrow> (cjson \<times> cursor) option"
  and cj_object_loop :: "cjson \<Rightarrow> cursor \<Rightarrow> (cjson \<times> cursor) option"
where
  "cj_parse_value c =
     (let c = cj_skip_ws c in
      if c = [] then None
      else if hd c = QUOTE then cj_parse_string c
      else if hd c = CHR ''{'' then cj_parse_object c
      else if hd c = CHR ''['' then cj_parse_array c
      else if hd c = CHR ''-'' \<or> is_digit (hd c) then cj_parse_number c
      else cj_parse_word c)"
| "cj_parse_array c =
     (if c = [] \<or> hd c \<noteq> CHR ''['' then None
      else let c = cj_skip_ws (tl c)
           in if c \<noteq> [] \<and> hd c = CHR '']'' then Some (cJSON_CreateArray, tl c)
              else cj_array_loop cJSON_CreateArray c)"
| "cj_array_loop arr c =
     (case cj_parse_value (cj_skip_ws c) of
        None \<Rightarrow> None
      | Some (item, c1) \<Rightarrow>
          let arr = cj_append_child arr item; c = cj_skip_ws c1
          in if c = [] then None
             else if hd c = CHR '','' then cj_array_loop arr (tl c)
             else if hd c = CHR '']'' then Some (arr, tl c)
             else None)"
| "cj_parse_object c =
     (if c = [] \<or> hd c \<noteq> CHR ''{'' then None
      else let c = cj_skip_ws (tl c)
           in if c \<noteq> [] \<and> hd c = CHR ''}'' then Some (cJSON_CreateObject, tl c)
              else cj_object_loop cJSON_CreateObject c)"
| "cj_object_loop ob c =
     (case cj_parse_string_raw (cj_skip_ws c) of
        None \<Rightarrow> None
      | Some (key, c1) \<Rightarrow>
          let c2 = cj_skip_ws c1
          in if c2 = [] \<or> hd c2 \<noteq> CHR '':'' then None
             else (case cj_parse_value (cj_skip_ws (tl c2)) of
                     None \<Rightarrow> None
                   | Some (v, c3) \<Rightarrow>
                       let ob = cj_append_child ob (set_string (Some (cstr key)) v); c = cj_skip_ws c3
                       in if c = [] then None
                          else if hd c = CHR '','' then cj_object_loop ob (tl c)
                          else if hd c = CHR ''}'' then Some (ob, tl c)
                          else None))"
  by pat_completeness auto

subsection \<open>Every value consumes input\<close>

lemma length_skip_ws: "length (cj_skip_ws c) \<le> length c"
  by (simp add: cj_skip_ws_def length_dropWhile_le)

lemma string_loop_step:
  "cj_string_loop [] out cap = Some (out, cap, [])"
  "cj_string_loop (QUOTE # t) out cap = Some (out, cap, QUOTE # t)"
  "cj_string_loop [BSLASH] out cap = cj_string_loop [] (out @ [BSLASH]) (widen 1 out cap)"
  "simple_escape e = Some d \<Longrightarrow>
     cj_string_loop (BSLASH # e # t) out cap = cj_string_loop t (out @ [d]) (widen 1 out cap)"
  "simple_escape e = None \<Longrightarrow> e \<noteq> CHR ''u'' \<Longrightarrow> cj_string_loop (BSLASH # e # t) out cap = None"
  "cj_string_loop (BSLASH # CHR ''u'' # t) out cap =
     (if length t < 4 then None
      else case hex_acc 0 (take 4 t) of None \<Rightarrow> None
           | Some cp \<Rightarrow> cj_string_loop (drop 4 t) (out @ utf8 cp) (widen 4 out cap))"
  "ch \<noteq> QUOTE \<Longrightarrow> ch \<noteq> BSLASH \<Longrightarrow>
     cj_string_loop (ch # t) out cap = cj_string_loop t (out @ [ch]) (widen 1 out cap)"
  by (subst cj_string_loop.simps; simp add: simple_escape_def split: option.split)+

text \<open>Case analysis of the text the loop stands at, one case per branch.\<close>

lemma string_loop_cases:
  obtains (empty) "c = []" | (quote) t where "c = QUOTE # t" | (last) "c = [BSLASH]"
  | (escape) e d t where "c = BSLASH # e # t" "simple_escape e = Some d"
  | (bad) e t where "c = BSLASH # e # t" "simple_escape e = None" "e \<noteq> CHR ''u''"
  | (unicode) t where "c = BSLASH # CHR ''u'' # t"
  | (plain) ch t where "c = ch # t" "ch \<noteq> QUOTE" "ch \<noteq> BSLASH"
proof (cases c)
  case Nil
  then show thesis by (rule empty)
next
  case (Cons ch t)
  show thesis
  proof (cases "ch = BSLASH")
    case True
    show thesis
    proof (cases t)
      case Nil
      with Cons True show thesis by (simp add: last)
    next
      case (Cons e u)
      with \<open>c = ch # t\<close> True show thesis
        by (cases "simple_escape e"; cases "e = CHR ''u''") (auto intro: escape bad unicode)
    qed
  next
    case False
    with Cons show thesis by (cases "ch = QUOTE") (auto intro: quote plain)
  qed
qed

lemma string_loop_consumes: "cj_string_loop c out cap = Some (out', cap', r) \<Longrightarrow> length r \<le> length c"
proof (induction c arbitrary: out cap rule: length_induct)
  case (1 c)
  then show ?case
    by (cases c rule: string_loop_cases)
      (force simp: string_loop_step split: if_splits option.splits)+
qed

lemma string_raw_consumes: "cj_parse_string_raw c = Some (s, r) \<Longrightarrow> length r < length c"
  by (auto simp: cj_parse_string_raw_def split: list.splits if_splits option.splits
      dest!: string_loop_consumes)

lemma string_consumes: "cj_parse_string c = Some (j, r) \<Longrightarrow> length r < length c"
  by (auto simp: cj_parse_string_def split: option.splits dest: string_raw_consumes)

lemma number_consumes:
  assumes "cj_parse_number c = Some (j, r)"
  shows "length r < length c"
proof -
  have shrink: "length (dropWhile is_num_char s) < length s" if "takeWhile is_num_char s \<noteq> []" for s
    using that by (cases s) (auto simp: length_dropWhile_le less_Suc_eq_le split: if_splits)
  have le: "length (dropWhile is_num_char s) \<le> length s" for s
    by (rule length_dropWhile_le)
  show ?thesis
  proof (cases c)
    case Nil
    with assms show ?thesis by (simp add: cj_parse_number_def)
  next
    case (Cons ch t)
    with assms shrink [of c] le [of t] show ?thesis
      by (auto simp: cj_parse_number_def Let_def less_Suc_eq_le split: if_splits)
  qed
qed

text \<open>
  The mutual functions: what a call that returns leaves is shorter than what it was given.  This
  is proved for the calls in the domain, by induction over them, and makes the recursion on the
  rest of the text terminate.
\<close>

lemma word_consumes: "cj_parse_word c = Some (j, r) \<Longrightarrow> length r < length c"
  by (auto simp: cj_parse_word_def split: if_splits)

lemma skip_tl_less: "c \<noteq> [] \<Longrightarrow> length (cj_skip_ws (tl c)) < length c"
  using length_skip_ws [of "tl c"] by (cases c) (auto simp: less_Suc_eq_le)

lemma tl_skip_le: "length (tl (cj_skip_ws c)) \<le> length c"
  using length_skip_ws [of c] by simp

lemma skip_less: "length r < length (cj_skip_ws c) \<Longrightarrow> length r < length c"
  using length_skip_ws [of c] by simp

abbreviation parse_dom where
  "parse_dom \<equiv> cj_parse_value_cj_parse_array_cj_array_loop_cj_parse_object_cj_object_loop_dom"

lemmas parse_pinduct =
  cj_parse_value_cj_parse_array_cj_array_loop_cj_parse_object_cj_object_loop.pinduct

lemma parse_consumes_dom:
  "parse_dom (Inl (Inl c)) \<Longrightarrow> \<forall>j r. cj_parse_value c = Some (j, r) \<longrightarrow> length r < length c"
  "parse_dom (Inl (Inr c)) \<Longrightarrow> \<forall>j r. cj_parse_array c = Some (j, r) \<longrightarrow> length r < length c"
  "parse_dom (Inr (Inl (a, c))) \<Longrightarrow> \<forall>j r. cj_array_loop a c = Some (j, r) \<longrightarrow> length r < length c"
  "parse_dom (Inr (Inr (Inl c))) \<Longrightarrow> \<forall>j r. cj_parse_object c = Some (j, r) \<longrightarrow> length r < length c"
  "parse_dom (Inr (Inr (Inr (a, c)))) \<Longrightarrow> \<forall>j r. cj_object_loop a c = Some (j, r) \<longrightarrow> length r < length c"
proof (induction c and c and a c and c and a c rule: parse_pinduct)
  case (1 c)
  show ?case using "1.IH" length_skip_ws [of c]
    by (fastforce simp: cj_parse_value.psimps [OF "1.hyps"] Let_def split: if_splits
      dest: string_consumes number_consumes word_consumes)
next
  case (2 c)
  show ?case
  proof (cases "c = []")
    case False
    then have skip: "length (cj_skip_ws (tl c)) < length c" by (rule skip_tl_less)
    then have "length (tl (cj_skip_ws (tl c))) < length c" by simp
    with False skip "2.IH" show ?thesis
      by (auto simp: cj_parse_array.psimps [OF "2.hyps"] Let_def simp del: length_tl
          split: if_splits intro: less_trans)
  qed (use cj_parse_array.psimps [OF "2.hyps"] in simp)
next
  case (3 arr c)
  show ?case
  proof (cases "cj_parse_value (cj_skip_ws c)")
    case None
    then show ?thesis by (simp add: cj_array_loop.psimps [OF "3.hyps"])
  next
    case (Some p)
    then obtain item c1 where p: "cj_parse_value (cj_skip_ws c) = Some (item, c1)" by (cases p) auto
    have c1: "length c1 < length c" using "3.IH"(1) p skip_less by blast
    have rest: "length (tl (cj_skip_ws c1)) < length c" using c1 tl_skip_le [of c1] by linarith
    have IH: "length r < length (tl (cj_skip_ws c1))"
      if "cj_skip_ws c1 \<noteq> []" "hd (cj_skip_ws c1) = CHR '',''"
        "cj_array_loop (cj_append_child arr item) (tl (cj_skip_ws c1)) = Some (j, r)" for j r
      using "3.IH"(2) [OF p refl refl refl] that by blast
    show ?thesis using rest
      by (auto simp: cj_array_loop.psimps [OF "3.hyps"] p Let_def simp del: length_tl
          split: if_splits dest: IH)
  qed
next
  case (4 c)
  show ?case
  proof (cases "c = []")
    case False
    then have skip: "length (cj_skip_ws (tl c)) < length c" by (rule skip_tl_less)
    then have "length (tl (cj_skip_ws (tl c))) < length c" by simp
    with False skip "4.IH" show ?thesis
      by (auto simp: cj_parse_object.psimps [OF "4.hyps"] Let_def simp del: length_tl
          split: if_splits intro: less_trans)
  qed (use cj_parse_object.psimps [OF "4.hyps"] in simp)
next
  case (5 ob c)
  show ?case
  proof (cases "\<exists>key c1 v c3. cj_parse_string_raw (cj_skip_ws c) = Some (key, c1) \<and> cj_skip_ws c1 \<noteq> []
      \<and> hd (cj_skip_ws c1) = CHR '':'' \<and> cj_parse_value (cj_skip_ws (tl (cj_skip_ws c1))) = Some (v, c3)")
    case False
    then show ?thesis
      by (auto simp: cj_object_loop.psimps [OF "5.hyps"] Let_def split: option.split)
  next
    case True
    then obtain key c1 v c3 where key: "cj_parse_string_raw (cj_skip_ws c) = Some (key, c1)"
      and colon: "cj_skip_ws c1 \<noteq> []" "hd (cj_skip_ws c1) = CHR '':''"
      and v: "cj_parse_value (cj_skip_ws (tl (cj_skip_ws c1))) = Some (v, c3)" by blast
    have c1: "length c1 < length c" using key string_raw_consumes skip_less by blast
    have nc: "\<not> (cj_skip_ws c1 = [] \<or> hd (cj_skip_ws c1) \<noteq> CHR '':'')" using colon by simp
    have c3: "length c3 < length c"
      using "5.IH"(1) [OF key refl refl nc] v c1 tl_skip_le [of c1] skip_less by fastforce
    have rest: "length (tl (cj_skip_ws c3)) < length c" using c3 tl_skip_le [of c3] by linarith
    have IH: "length r < length (tl (cj_skip_ws c3))"
      if "cj_skip_ws c3 \<noteq> []" "hd (cj_skip_ws c3) = CHR '',''"
        "cj_object_loop (cj_append_child ob (set_string (Some (cstr key)) v)) (tl (cj_skip_ws c3)) = Some (j, r)"
      for j r
      using "5.IH"(2) [OF key refl refl nc v refl refl refl] that by blast
    show ?thesis using rest colon
      by (auto simp: cj_object_loop.psimps [OF "5.hyps"] key v Let_def simp del: length_tl
          split: if_splits dest: IH)
  qed
qed

termination cj_parse_value
proof (relation "measures
    [\<lambda>x. case x of Inl (Inl c) \<Rightarrow> length c | Inl (Inr c) \<Rightarrow> length c | Inr (Inl (a, c)) \<Rightarrow> length c
                | Inr (Inr (Inl c)) \<Rightarrow> length c | Inr (Inr (Inr (a, c))) \<Rightarrow> length c,
     \<lambda>x. case x of Inl (Inl c) \<Rightarrow> 1 | Inl (Inr c) \<Rightarrow> 0 | Inr (Inl (a, c)) \<Rightarrow> 2
                | Inr (Inr (Inl c)) \<Rightarrow> 0 | Inr (Inr (Inr (a, c))) \<Rightarrow> 2]", goal_cases)
  case (6 arr c x2 item c1 arr' c')
  then have "length c1 < length c" using parse_consumes_dom(1) skip_less by metis
  with 6 tl_skip_le [of c1] show ?case by (simp del: length_tl)
next
  case (8 ob c x2 key c1 c2)
  then have "length c1 < length c" using string_raw_consumes skip_less by metis
  with 8 tl_skip_le [of c1] length_skip_ws [of "tl c2"] show ?case by (simp del: length_tl)
next
  case (9 ob c x2 key c1 c2 y2 v c3 ob' c')
  then have "length c1 < length c" using string_raw_consumes skip_less by metis
  moreover have "length c3 < length (tl c2)" using 9 parse_consumes_dom(1) skip_less by metis
  ultimately show ?case using 9 tl_skip_le [of c1] tl_skip_le [of c3] by (simp del: length_tl)
qed (use length_skip_ws skip_tl_less in \<open>auto simp: le_less intro: le_neq_implies_less\<close>)

declare cj_parse_value.simps [simp del] cj_parse_array.simps [simp del] cj_array_loop.simps [simp del]
  cj_parse_object.simps [simp del] cj_object_loop.simps [simp del]

text \<open>\<open>end\<close> is \<open>text + strlen(text)\<close>: the cursor starts on the C string the buffer holds.\<close>

definition cJSON_Parse :: "string option \<Rightarrow> cjson option" where
  "cJSON_Parse text =
     (case text of None \<Rightarrow> None | Some t \<Rightarrow> map_option fst (cj_parse_value (cstr t)))"

subsection \<open>The decoded bytes stay inside their block\<close>

lemma length_utf8: "1 \<le> length (utf8 cp) \<and> length (utf8 cp) \<le> 3"
  by (simp add: utf8_def)

lemma widen_room:
  "length out < cap \<Longrightarrow> 4 < cap \<Longrightarrow> n \<le> 3 \<Longrightarrow> n \<le> k \<Longrightarrow> length out + n < widen k out cap \<and> 4 < widen k out cap"
  by (auto simp: widen_def)

lemma string_loop_room:
  "cj_string_loop c out cap = Some (out', cap', r) \<Longrightarrow> length out < cap \<Longrightarrow> 4 < cap \<Longrightarrow>
   length out' < cap'"
proof (induction c arbitrary: out cap rule: length_induct)
  case (1 c)
  have put: "length (out @ [d]) < widen 1 out cap \<and> 4 < widen 1 out cap" for d
    using widen_room [of out cap 1 1] "1.prems" by simp
  have uni: "length (out @ utf8 cp) < widen 4 out cap \<and> 4 < widen 4 out cap" for cp
    using widen_room [of out cap "length (utf8 cp)" 4] length_utf8 [of cp] "1.prems" by simp
  have IH: "length s < length c \<Longrightarrow> cj_string_loop s o2 k = Some (out', cap', r) \<Longrightarrow>
      length o2 < k \<Longrightarrow> 4 < k \<Longrightarrow> length out' < cap'" for s o2 k
    using "1.IH" by blast
  show ?case using "1.prems" put uni
    by (cases c rule: string_loop_cases)
      (auto simp del: length_append simp: string_loop_step split: if_splits option.splits intro: IH [rotated])
qed

lemma string_loop_short:
  "cj_string_loop c out cap = Some (out', cap', r) \<Longrightarrow> length out' + length r \<le> length out + length c"
proof (induction c arbitrary: out cap rule: length_induct)
  case (1 c)
  have IH: "cj_string_loop s o2 k = Some (out', cap', r) \<Longrightarrow> length s < length c \<Longrightarrow>
      length out' + length r \<le> length o2 + length s" for s o2 k
    using "1.IH" by blast
  show ?case using "1.prems"
  proof (cases c rule: string_loop_cases)
    case (unicode t)
    with "1.prems" obtain cp where "4 \<le> length t"
      "cj_string_loop (drop 4 t) (out @ utf8 cp) (widen 4 out cap) = Some (out', cap', r)"
      by (auto simp: string_loop_step split: if_splits option.splits)
    with IH [of "drop 4 t"] unicode length_utf8 [of cp] show ?thesis by fastforce
  qed (auto simp: string_loop_step dest!: IH)
qed

text \<open>
  \<^bold>\<open>C14\<close> The decoding loop of \<open>cj_parse_string_raw\<close> never writes outside its heap block: from a
  state with room for the terminator (the initial one has 32 bytes and none used), every step
  leaves fewer bytes than the capacity, so the writes of one to three bytes and the final
  \<open>out[len] = 0\<close> are in bounds; and it never decodes more bytes than it reads.
\<close>

theorem string_loop_in_bounds:
  assumes "cj_string_loop c out cap = Some (out', cap', r)" and "length out < cap" and "4 < cap"
  shows "length out' < cap' \<and> length out' + length r \<le> length out + length c"
  using string_loop_room [OF assms] string_loop_short [OF assms(1)] by simp

theorem string_loop_in_bounds_witness:
  "\<exists>cap' r. cj_string_loop ''ab'' [] 32 = Some (''ab'', cap', r) \<and> length ''ab'' < cap'"
proof -
  have e: "cj_string_loop ''ab'' [] 32 = Some (''ab'', 32, [])"
    by (simp add: string_loop_step widen_def)
  show ?thesis using string_loop_in_bounds [OF e] e by auto
qed

end
