(* ===== verification/JRound.thy ===== *)
theory JRound
  imports JPrint
begin

section \<open>Reading back what was printed\<close>

text \<open>
  Parsing inverts printing: character by character for strings, then numbers, arrays and objects, for
  every tree the program builds.
\<close>

subsection \<open>Strings\<close>

lemma escape_cases:
  obtains (plain) "escape_char c = [c]" "c \<noteq> QUOTE" "c \<noteq> BSLASH"
  | (simple) e where "escape_char c = [BSLASH, e]" "simple_escape e = Some c"
  | (hex) "escape_char c = BSLASH # CHR ''u'' # CHR ''0'' # CHR ''0'' #
        [hex_char (byte c div 16), hex_char (byte c mod 16)]" "byte c < 0x20"
proof -
  consider "c = QUOTE" | "c = BSLASH" | "c = CHR 0x08" | "c = CHR 0x0C" | "c = LF" | "c = CR" | "c = TAB"
    | "c \<notin> {QUOTE, BSLASH, CHR 0x08, CHR 0x0C, LF, CR, TAB}" by blast
  then show thesis
  proof cases
    case 8
    then show thesis
      by (cases "byte c < 0x20") (auto simp: escape_char_def intro: plain hex)
  qed (auto simp: escape_char_def simple_escape_def intro!: simple)
qed

lemma hex_digit_char: "n < 16 \<Longrightarrow> hex_digit (hex_char n) = Some n"
proof -
  assume n: "n < 16"
  show ?thesis
  proof (cases "n < 10")
    case True
    then show ?thesis by (simp add: hex_char_def hex_digit_def) (simp add: byte_def)
  next
    case False
    then have "byte (hex_char n) = 97 + (n - 10)"
      using n byte_chr [of "97 + (n - 10)"] by (simp add: hex_char_def) (simp add: byte_def)
    with n False show ?thesis by (simp add: hex_digit_def) (simp add: byte_def)
  qed
qed

lemma nibbles: "m < 16 \<Longrightarrow> push_bit 4 n OR m = 16 * n + (m :: nat)"
proof -
  assume "m < 16"
  then have m: "m = take_bit 4 m" by (simp add: take_bit_nat_eq_self)
  have "push_bit 4 n AND take_bit 4 m = 0" by (rule bit_eqI) (auto simp: bit_simps)
  then show ?thesis
    using disjunctive_add_eq_or [of "push_bit 4 n" "take_bit 4 m"] m by (simp add: push_bit_eq_mult)
qed

lemma hex_acc_byte: "n < 32 \<Longrightarrow>
    hex_acc 0 [CHR ''0'', CHR ''0'', hex_char (n div 16), hex_char (n mod 16)] = Some n"
proof -
  assume n: "n < 32"
  have z: "hex_digit CHR ''0'' = Some 0" by (simp add: hex_digit_def byte_def)
  have "n div 16 < 16" "n mod 16 < 16" using n by auto
  then show ?thesis by (simp add: z hex_digit_char nibbles)
qed

text \<open>The loop on a printed string decodes it and stops at the closing quote.\<close>

lemma string_loop_escaped:
  "\<exists>cap'. cj_string_loop (concat (map escape_char s) @ QUOTE # rest) out cap
     = Some (out @ s, cap', QUOTE # rest)"
proof (induction s arbitrary: out cap)
  case Nil
  then show ?case by (simp add: string_loop_step)
next
  case (Cons c s)
  show ?case
  proof (cases c rule: escape_cases)
    case plain
    then show ?thesis using Cons.IH [of "out @ [c]"] by (simp add: string_loop_step)
  next
    case (simple e)
    then show ?thesis using Cons.IH [of "out @ [c]"] by (simp add: string_loop_step)
  next
    case hex
    have u: "utf8 (byte c) = [c]" using hex(2) by (simp add: utf8_def)
    have "cj_string_loop (concat (map escape_char (c # s)) @ QUOTE # rest) out cap
      = cj_string_loop (concat (map escape_char s) @ QUOTE # rest) (out @ [c]) (widen 4 out cap)"
      using hex(2) by (simp add: hex(1) string_loop_step(6) hex_acc_byte u del: hex_acc.simps)
    with Cons.IH [of "out @ [c]"] show ?thesis by simp
  qed
qed

lemma parse_string_raw_text:
  "cj_parse_string_raw (json_string s @ rest) = Some (cstr s, rest)"
proof -
  obtain cap' where "cj_string_loop (concat (map escape_char (cstr s)) @ QUOTE # rest) [] 32
      = Some ([] @ cstr s, cap', QUOTE # rest)"
    using string_loop_escaped by blast
  then show ?thesis by (simp add: cj_parse_string_raw_def json_string_def)
qed

lemma parse_string_text:
  "cj_parse_string (json_string s @ rest)
     = Some (set_valuestring (Some (cstr s)) (cj_new cJSON_String), rest)"
  by (simp add: cj_parse_string_def parse_string_raw_text)

subsection \<open>Numbers\<close>

text \<open>The numbers that survive: integers of at most \<open>2\<^sup>5\<^sup>3\<close> in size.\<close>

definition exact_num :: "double \<Rightarrow> bool" where
  "exact_num d = (case d of Fin x \<Rightarrow> x = of_int (trunc x) \<and> \<bar>trunc x\<bar> \<le> 2 ^ 53 | _ \<Rightarrow> False)"

definition delimited :: "string \<Rightarrow> bool" where
  "delimited rest \<longleftrightarrow> rest = [] \<or> \<not> is_num_char (hd rest)"

lemma exact_numE:
  assumes "exact_num d"
  obtains i where "d = Fin (of_int i)" "\<bar>i\<bar> \<le> 2 ^ 53"
  using assms by (cases d) (auto simp: exact_num_def)

lemma num_text_int:
  assumes "\<bar>i\<bar> \<le> 2 ^ 53"
  shows "num_text (Fin (of_int i)) = show_int i"
proof -
  have "cvt_i64 (Fin (of_int i)) = i" using assms by (intro cvt_int) auto
  then show ?thesis using to_double_int [OF assms] by (simp add: num_text_def)
qed

lemma show_int_num_chars: "c \<in> set (show_int i) \<Longrightarrow> is_num_char c"
  by (auto simp: show_int_def is_num_char_def dest: show_nat_digits split: if_splits)

lemma show_int_length: "\<bar>i\<bar> \<le> 2 ^ 53 \<Longrightarrow> length (show_int i) < 64"
proof -
  assume "\<bar>i\<bar> \<le> 2 ^ 53"
  then have "nat \<bar>i\<bar> < 10 ^ 17" by auto
  then have "length (show_nat (nat \<bar>i\<bar>)) \<le> 17" by (intro length_show_nat_bound) auto
  then show ?thesis by (cases "i < 0") (simp_all add: show_int_def)
qed

lemma show_int_hd: "\<exists>c s. show_int i = c # s \<and> (c = CHR ''-'' \<or> is_digit c)"
  using show_nat_hd [of "nat i"] by (auto simp: show_int_def)

lemma span_num: "(\<And>c. c \<in> set s \<Longrightarrow> is_num_char c) \<Longrightarrow> delimited rest \<Longrightarrow>
    takeWhile is_num_char (s @ rest) = s \<and> dropWhile is_num_char (s @ rest) = rest"
  by (induction s) (auto simp: delimited_def takeWhile_eq_Nil_iff dropWhile_eq_self_iff)

lemma parse_number_text:
  assumes "\<bar>i\<bar> \<le> 2 ^ 53" and "delimited rest"
  shows "cj_parse_number (show_int i @ rest)
    = Some (cJSON_CreateNumber (Fin (of_int i)), rest)"
proof -
  obtain c s where cs: "show_int i = c # s" using show_int_hd by blast
  have nc: "\<And>c. c \<in> set (show_int i) \<Longrightarrow> is_num_char c" using show_int_num_chars .
  have span: "takeWhile is_num_char (show_int i @ rest) = show_int i"
    "dropWhile is_num_char (show_int i @ rest) = rest"
    using span_num [OF nc assms(2)] by auto
  have spant: "takeWhile is_num_char (s @ rest) = s" "dropWhile is_num_char (s @ rest) = rest"
    using span_num [of s rest] nc assms(2) cs by auto
  have len: "length (c # s) < 64" using show_int_length [OF assms(1)] cs by simp
  have val: "strtod (c # s) = Fin (of_int i)" using strtod_show_int [OF assms(1)] cs by simp
  show ?thesis
    using span spant len val by (auto simp: cj_parse_number_def cs)
qed

subsection \<open>Trees\<close>

text \<open>
  The trees the program builds: no references, members of an object keyed and elements of an
  array not, strings without NUL, exact integers, and the unused fields as \<open>cj_new\<close> leaves them.
  \<open>wf_body\<close> leaves out the key of the node itself.
\<close>

fun wf_body :: "cjson \<Rightarrow> bool" where
  "wf_body (CJ t vs vi vd k r ch) =
     (\<not> r \<and>
      (if t \<le> cJSON_NULL then vs = None \<and> vi = 0 \<and> vd = Fin 0 \<and> ch = []
       else if t = cJSON_Number then vs = None \<and> vi = cvt_i32 vd \<and> exact_num vd \<and> ch = []
       else if t = cJSON_String then
         (case vs of Some s \<Rightarrow> no_nul s | None \<Rightarrow> False) \<and> vi = 0 \<and> vd = Fin 0 \<and> ch = []
       else vs = None \<and> vi = 0 \<and> vd = Fin 0 \<and> list_all wf_body ch \<and>
         (if t = cJSON_Array then list_all (\<lambda>c. cj_string c = None) ch
          else t = cJSON_Object \<and>
            list_all (\<lambda>c. case cj_string c of Some s \<Rightarrow> no_nul s | None \<Rightarrow> False) ch)))"

definition wf_json :: "cjson \<Rightarrow> bool" where
  "wf_json j \<longleftrightarrow> wf_body j \<and> cj_string j = None"

lemma skip_ws_id: "s = [] \<or> \<not> is_ws (hd s) \<Longrightarrow> cj_skip_ws s = s"
  by (cases s) (simp_all add: cj_skip_ws_def)

lemma json_string_hd: "json_string s @ r = QUOTE # concat (map escape_char (cstr s)) @ QUOTE # r"
  by (simp add: json_string_def)

lemma is_digit_not_ws: "is_digit c \<Longrightarrow> \<not> is_ws c"
  by (auto simp: is_digit_def is_ws_def byte_def)

lemma json_text_hd:
  assumes "wf_body j"
  shows "\<exists>c s. json_text j = c # s \<and> \<not> is_ws c"
proof (cases j)
  case (CJ t vs vi vd k r ch)
  show ?thesis
  proof (cases "t = cJSON_Number")
    case True
    with assms CJ obtain i where i: "vd = Fin (of_int i)" "\<bar>i\<bar> \<le> 2 ^ 53"
      by (auto elim: exact_numE)
    with True CJ show ?thesis
      using show_int_hd [of i] is_digit_not_ws by (auto simp: num_text_int is_ws_def)
  next
    case False
    with assms CJ show ?thesis by (auto simp: is_ws_def json_string_def)
  qed
qed

lemma json_text_not_close: "wf_body j \<Longrightarrow> hd (json_text j) \<noteq> CHR '']''"
proof (cases j)
  case (CJ t vs vi vd k r ch)
  assume wf: "wf_body j"
  show ?thesis
  proof (cases "t = cJSON_Number")
    case True
    with wf CJ obtain i where i: "vd = Fin (of_int i)" "\<bar>i\<bar> \<le> 2 ^ 53"
      by (auto elim: exact_numE)
    with True CJ show ?thesis
      using show_int_hd [of i] by (auto simp: num_text_int is_digit_def byte_def)
  next
    case False
    with wf CJ show ?thesis by (auto simp: json_string_def)
  qed
qed

lemma skip_ws_json: "wf_body j \<Longrightarrow> cj_skip_ws (json_text j @ r) = json_text j @ r"
  using json_text_hd by (fastforce intro: skip_ws_id)

lemma skip_ws_char [simp]: "\<not> is_ws c \<Longrightarrow> cj_skip_ws (c # s) = c # s"
  by (simp add: cj_skip_ws_def)

lemma skip_ws_idem [simp]: "cj_skip_ws (cj_skip_ws s) = cj_skip_ws s"
  by (simp add: cj_skip_ws_def)

lemma not_ws [simp]: "\<not> is_ws QUOTE" "\<not> is_ws CHR '',''" "\<not> is_ws CHR '':''" "\<not> is_ws CHR ''[''"
  "\<not> is_ws CHR '']''" "\<not> is_ws CHR ''{''" "\<not> is_ws CHR ''}''"
  by (simp_all add: is_ws_def)

lemma delimited_punct [simp]:
  "delimited []" "delimited (CHR '','' # s)" "delimited (CHR '']'' # s)" "delimited (CHR ''}'' # s)"
  by (simp_all add: delimited_def is_num_char_def is_digit_def byte_def)

text \<open>A node reads back, whatever follows it, if what follows cannot extend a number.\<close>

definition reads_back :: "cjson \<Rightarrow> bool" where
  "reads_back c \<longleftrightarrow> wf_body c \<and>
     (\<forall>rest. delimited rest \<longrightarrow> cj_parse_value (json_text c @ rest) = Some (set_string None c, rest))"

lemma array_loop_text:
  assumes "\<forall>c \<in> set cs. reads_back c \<and> cj_string c = None" and "cs \<noteq> []"
  shows "cj_array_loop arr (commas (map json_text cs) @ CHR '']'' # rest)
    = Some (set_child (cj_child arr @ cs) arr, rest)"
  using assms
proof (induction cs arbitrary: arr)
  case Nil
  then show ?case by simp
next
  case (Cons c cs)
  then have c: "wf_body c" "set_string None c = c"
    and p: "\<And>rest. delimited rest \<Longrightarrow> cj_parse_value (json_text c @ rest) = Some (c, rest)"
    by (auto simp: reads_back_def set_string_same)
  show ?case
  proof (cases cs)
    case Nil
    then show ?thesis
      by (subst cj_array_loop.simps) (simp add: skip_ws_json c p cj_append_child_def)
  next
    case (Cons d ds)
    with Cons.prems have "cj_array_loop (cj_append_child arr c) (commas (map json_text cs) @ CHR '']'' # rest)
        = Some (set_child (cj_child (cj_append_child arr c) @ cs) (cj_append_child arr c), rest)"
      by (intro Cons.IH) auto
    then show ?thesis using Cons
      by (subst cj_array_loop.simps) (simp add: skip_ws_json c p cj_append_child_def)
  qed
qed

lemma object_loop_text:
  assumes "\<forall>c \<in> set cs. reads_back c \<and> (\<exists>k. cj_string c = Some k \<and> no_nul k)" and "cs \<noteq> []"
  shows "cj_object_loop ob (commas (map member_text cs) @ CHR ''}'' # rest)
    = Some (set_child (cj_child ob @ cs) ob, rest)"
  using assms
proof (induction cs arbitrary: ob)
  case Nil
  then show ?case by simp
next
  case (Cons c cs)
  then obtain k where c: "wf_body c" "cj_string c = Some k" "set_string (Some k) c = c" "cstr k = k"
    and p: "\<And>rest. delimited rest \<Longrightarrow> cj_parse_value (json_text c @ rest) = Some (set_string None c, rest)"
    by (auto simp: reads_back_def set_string_same)
  have key: "cj_parse_string_raw (cj_skip_ws (member_text c @ r)) = Some (k, CHR '':'' # json_text c @ r)" for r
    using parse_string_raw_text [of k "CHR '':'' # json_text c @ r"]
    by (simp add: member_text_def c str_or_empty_def json_string_hd)
  show ?case
  proof (cases cs)
    case Nil
    then show ?thesis
      by (subst cj_object_loop.simps) (simp add: key skip_ws_json c p cj_append_child_def)
  next
    case (Cons d ds)
    with Cons.prems have "cj_object_loop (cj_append_child ob c) (commas (map member_text cs) @ CHR ''}'' # rest)
        = Some (set_child (cj_child (cj_append_child ob c) @ cs) (cj_append_child ob c), rest)"
      by (intro Cons.IH) auto
    then show ?thesis using Cons
      by (subst cj_object_loop.simps) (simp add: key skip_ws_json c p cj_append_child_def)
  qed
qed

lemma commas_hd: "ss \<noteq> [] \<Longrightarrow> \<exists>r. commas ss = hd ss @ r"
  by (cases ss) (auto simp: commas_Cons)

lemma parse_array_text:
  assumes "\<forall>c \<in> set cs. reads_back c \<and> cj_string c = None"
  shows "cj_parse_array (CHR ''['' # commas (map json_text cs) @ CHR '']'' # rest)
    = Some (set_child cs cJSON_CreateArray, rest)"
proof (cases cs)
  case Nil
  then show ?thesis by (simp add: cj_parse_array.simps create_defs)
next
  case (Cons c ds)
  then obtain x s where x: "json_text c = x # s" "\<not> is_ws x" "x \<noteq> CHR '']''"
    using assms json_text_hd [of c] json_text_not_close by (fastforce simp: reads_back_def)
  with Cons have hd: "commas (map json_text cs) = x # s @ tail_text False (map json_text ds)"
    by (simp add: commas_Cons)
  have "cs \<noteq> []" using Cons by simp
  from array_loop_text [OF assms this, of cJSON_CreateArray rest] x show ?thesis
    by (simp add: cj_parse_array.simps hd create_defs)
qed

lemma parse_object_text:
  assumes "\<forall>c \<in> set cs. reads_back c \<and> (\<exists>k. cj_string c = Some k \<and> no_nul k)"
  shows "cj_parse_object (CHR ''{'' # commas (map member_text cs) @ CHR ''}'' # rest)
    = Some (set_child cs cJSON_CreateObject, rest)"
proof (cases cs)
  case Nil
  then show ?thesis by (simp add: cj_parse_object.simps create_defs)
next
  case (Cons c ds)
  then obtain s where hd: "commas (map member_text cs) = QUOTE # s"
    by (auto simp: commas_Cons member_text_def json_string_hd)
  have "cs \<noteq> []" using Cons by simp
  from object_loop_text [OF assms this, of cJSON_CreateObject rest] show ?thesis
    by (simp add: cj_parse_object.simps hd create_defs)
qed

lemma parse_value_hd:
  assumes "\<not> is_ws x"
  shows "cj_parse_value (x # s) =
     (if x = QUOTE then cj_parse_string (x # s) else if x = CHR ''{'' then cj_parse_object (x # s)
      else if x = CHR ''['' then cj_parse_array (x # s)
      else if x = CHR ''-'' \<or> is_digit x then cj_parse_number (x # s) else cj_parse_word (x # s))"
  using assms by (simp add: cj_parse_value.simps)

lemma word_text:
  "cj_parse_value (''true'' @ rest) = Some (cJSON_CreateBool True, rest)"
  "cj_parse_value (''false'' @ rest) = Some (cJSON_CreateBool False, rest)"
  "cj_parse_value (''null'' @ rest) = Some (cJSON_CreateNull, rest)"
  by (simp_all add: parse_value_hd is_ws_def is_digit_def byte_def cj_parse_word_def starts_def)

lemma number_text:
  assumes "\<bar>i\<bar> \<le> 2 ^ 53" and "delimited rest"
  shows "cj_parse_value (show_int i @ rest) = Some (cJSON_CreateNumber (Fin (of_int i)), rest)"
proof -
  obtain c s where cs: "show_int i = c # s" "c = CHR ''-'' \<or> is_digit c" using show_int_hd by blast
  from cs(2) have nw: "\<not> is_ws c" using is_digit_not_ws by (auto simp: is_ws_def)
  have "\<not> is_digit QUOTE" "\<not> is_digit CHR ''{''" "\<not> is_digit CHR ''[''"
    by (simp_all add: is_digit_def byte_def)
  with cs(2) have ne: "c \<noteq> QUOTE" "c \<noteq> CHR ''{''" "c \<noteq> CHR ''[''" by auto
  then have "cj_parse_value (show_int i @ rest) = cj_parse_number (show_int i @ rest)"
    by (simp only: cs(1) append_Cons parse_value_hd [OF nw] ne cs(2) if_True if_False)
  then show ?thesis using parse_number_text [OF assms] by simp
qed

lemma wf_body_type: "wf_body (CJ t vs vi vd k r ch) \<Longrightarrow> t \<le> 6"
  by (rule ccontr) simp

lemma wf_reads_back: "wf_body j \<Longrightarrow> reads_back j"
proof (induction j)
  case (CJ t vs vi vd k r ch)
  have parse: "cj_parse_value (json_text (CJ t vs vi vd k r ch) @ rest)
      = Some (set_string None (CJ t vs vi vd k r ch), rest)" if "delimited rest" for rest
  proof -
    consider (word) "t \<le> 2" | (num) "t = 3" | (str) "t = 4" | (arr) "t = 5" | (obj) "t = 6"
      using wf_body_type [OF CJ.prems] by linarith
    then show ?thesis
    proof cases
      case word
      then have "t = 0 \<or> t = 1 \<or> t = 2" by auto
      then show ?thesis
        using CJ.prems word_text [of rest] by (auto simp: create_defs simp del: append_Cons)
    next
      case num
      then obtain i where "vd = Fin (of_int i)" "\<bar>i\<bar> \<le> 2 ^ 53" using CJ.prems by (auto elim: exact_numE)
      with num CJ.prems number_text [of i rest] that show ?thesis
        by (simp add: num_text_int create_defs)
    next
      case str
      with CJ.prems obtain s where "vs = Some s" "no_nul s" by (auto split: option.splits)
      with str CJ.prems parse_string_text [of s rest] show ?thesis
        by (simp add: json_string_hd parse_value_hd str_or_empty_def create_defs)
    next
      case arr
      with CJ have "\<forall>c \<in> set ch. reads_back c \<and> cj_string c = None" by (auto simp: list_all_iff)
      from parse_array_text [OF this, of rest] arr CJ.prems show ?thesis
        by (simp add: parse_value_hd create_defs)
    next
      case obj
      with CJ have "\<forall>c \<in> set ch. reads_back c \<and> (\<exists>k. cj_string c = Some k \<and> no_nul k)"
        by (fastforce simp: list_all_iff split: option.splits)
      from parse_object_text [OF this, of rest] obj CJ.prems show ?thesis
        by (simp add: parse_value_hd create_defs)
    qed
  qed
  with CJ.prems show ?case by (simp add: reads_back_def)
qed

subsection \<open>The serialised form of a tree\<close>

text \<open>Control characters are always escaped: no NUL and no line feed, so one line per value.\<close>

definition one_line :: "string \<Rightarrow> bool" where
  "one_line s \<longleftrightarrow> s \<noteq> [] \<and> NUL \<notin> set s \<and> LF \<notin> set s \<and> CR \<notin> set s"

lemma escape_char_line: "c \<noteq> NUL \<Longrightarrow> NUL \<notin> set (escape_char c) \<and> LF \<notin> set (escape_char c)
    \<and> CR \<notin> set (escape_char c)"
proof -
  assume "c \<noteq> NUL"
  have hc: "hex_char n \<noteq> NUL \<and> hex_char n \<noteq> LF \<and> hex_char n \<noteq> CR" if "n < 16" for n
    using hex_digit_char [OF that] by (auto simp: hex_digit_def byte_def)
  show ?thesis
  proof (cases c rule: escape_cases)
    case plain
    with \<open>c \<noteq> NUL\<close> show ?thesis by (auto simp: escape_char_def)
  next
    case (simple e)
    then show ?thesis by (auto simp: simple_escape_def split: if_splits)
  next
    case hex
    then have "byte c div 16 < 16" "byte c mod 16 < 16" by auto
    from hc [OF this(1)] hc [OF this(2)] hex(1) show ?thesis by auto
  qed
qed

lemma json_string_line: "one_line (json_string s)"
proof -
  have "\<forall>c \<in> set (cstr s). NUL \<notin> set (escape_char c) \<and> LF \<notin> set (escape_char c)
    \<and> CR \<notin> set (escape_char c)"
    using escape_char_line no_nul_cstr [of s] unfolding no_nul_def by metis
  then show ?thesis by (simp add: one_line_def json_string_def)
qed

lemma commas_line: "\<forall>s \<in> set ss. one_line s \<Longrightarrow> NUL \<notin> set (commas ss) \<and> LF \<notin> set (commas ss)
    \<and> CR \<notin> set (commas ss)"
  by (induction ss rule: commas.induct) (simp_all add: one_line_def)

lemma show_int_line: "one_line (show_int i)"
proof -
  have "\<not> is_num_char NUL" "\<not> is_num_char LF" "\<not> is_num_char CR"
    by (simp_all add: is_num_char_def is_digit_def byte_def)
  then show ?thesis using show_int_num_chars show_int_hd [of i] by (auto simp: one_line_def)
qed

lemma json_text_line: "wf_body j \<Longrightarrow> one_line (json_text j)"
proof (induction j)
  case (CJ t vs vi vd k r ch)
  have ch: "one_line (json_text c) \<and> one_line (member_text c)" if "c \<in> set ch" "\<not> t \<le> 4" for c
  proof -
    have "one_line (json_text c)"
      using CJ that by (auto simp: list_all_iff split: if_splits)
    with json_string_line show ?thesis by (auto simp: member_text_def one_line_def)
  qed
  consider (word) "t \<le> 2" | (num) "t = 3" | (str) "t = 4" | (arr) "t = 5" | (obj) "t = 6"
    using wf_body_type [OF CJ.prems] by linarith
  then show ?case
  proof cases
    case word
    then have "t = 0 \<or> t = 1 \<or> t = 2" by auto
    then show ?thesis by (auto simp: one_line_def)
  next
    case num
    with CJ.prems show ?thesis using show_int_line by (auto elim!: exact_numE simp: num_text_int)
  next
    case str
    then show ?thesis using json_string_line by simp
  next
    case arr
    then have "\<forall>s \<in> set (map json_text ch). one_line s" using ch by simp
    from commas_line [OF this] arr show ?thesis by (simp add: one_line_def)
  next
    case obj
    then have "\<forall>s \<in> set (map member_text ch). one_line s" using ch by simp
    from commas_line [OF this] obj show ?thesis by (simp add: one_line_def)
  qed
qed

lemma print_text: "cJSON_PrintUnformatted (Some j) = json_text j"
  by (simp add: cJSON_PrintUnformatted_def print_value_text)

text \<open>Reading back, in the form the other components use.\<close>

lemma parse_json_text:
  assumes "wf_json j"
  shows "cJSON_Parse (Some (json_text j)) = Some j"
proof -
  have j: "wf_body j" "cj_string j = None" using assms by (auto simp: wf_json_def)
  have "cj_parse_value (json_text j @ []) = Some (set_string None j, [])"
    using wf_reads_back [OF j(1)] by (simp only: reads_back_def delimited_punct)
  then show ?thesis
    using json_text_line [OF j(1)] j(2)
    by (simp add: cJSON_Parse_def one_line_def no_nul_def set_string_same)
qed

text \<open>Building blocks for trees, and that they are well-formed.\<close>

definition jstr :: "string \<Rightarrow> string \<Rightarrow> cjson" where
  "jstr k s = CJ cJSON_String (Some s) 0 (Fin 0) (Some k) False []"

definition jnum :: "string \<Rightarrow> int \<Rightarrow> cjson" where
  "jnum k i = CJ cJSON_Number None (cvt_i32 (Fin (of_int i))) (Fin (of_int i)) (Some k) False []"

definition jobj :: "string option \<Rightarrow> cjson list \<Rightarrow> cjson" where
  "jobj k ms = CJ cJSON_Object None 0 (Fin 0) k False ms"

definition jarr :: "string option \<Rightarrow> cjson list \<Rightarrow> cjson" where
  "jarr k xs = CJ cJSON_Array None 0 (Fin 0) k False xs"

lemma j_sel [simp]:
  "cj_type (jstr k s) = cJSON_String" "cj_string (jstr k s) = Some k" "cj_valuestring (jstr k s) = Some s"
  "cj_type (jnum k i) = cJSON_Number" "cj_string (jnum k i) = Some k" "cj_child (jstr k s) = []"
  "cj_type (jobj ko ms) = cJSON_Object" "cj_string (jobj ko ms) = ko" "cj_child (jobj ko ms) = ms"
  "cj_type (jarr ko ms) = cJSON_Array" "cj_string (jarr ko ms) = ko" "cj_child (jarr ko ms) = ms"
  by (simp_all add: jstr_def jnum_def jobj_def jarr_def)

text \<open>The building operations of the program, in this form.\<close>

lemma jobj_build [simp]:
  "cJSON_CreateObject = jobj None []" "cJSON_CreateArray = jarr None []"
  "cJSON_AddStringToObject (Some (jobj ko ms)) (Some k) (Some s) = Some (jobj ko (ms @ [jstr k s]))"
  "cJSON_AddItemToObject (Some (jobj ko ms)) (Some k) (Some j) = Some (jobj ko (ms @ [set_string (Some k) j]))"
  "cJSON_AddItemToArray (Some (jarr ko xs)) (Some j) = Some (jarr ko (xs @ [j]))"
  "set_string so (jobj ko ms) = jobj so ms" "set_string so (jarr ko xs) = jarr so xs"
  by (simp_all add: create_defs add_defs jobj_def jarr_def jstr_def)

lemma get_jobj [simp]: "cJSON_GetObjectItem (Some (jobj ko ms)) key = find_key key ms"
  by (simp add: cJSON_GetObjectItem_def)

lemma get_string_jstr [simp]: "cJSON_GetStringValue (Some (jstr k s)) = Some s"
  "cJSON_GetStringValue None = None"
  by (simp_all add: cJSON_GetStringValue_def)

lemma json_text_parts [simp]:
  "json_text (jstr k s) = json_string s" "json_text (jobj ko ms) = CHR ''{'' # commas (map member_text ms) @ ''}''"
  "json_text (jarr ko xs) = CHR ''['' # commas (map json_text xs) @ '']''"
  "\<bar>i\<bar> \<le> 2 ^ 53 \<Longrightarrow> json_text (jnum k i) = show_int i"
  by (simp_all add: jstr_def jobj_def jarr_def jnum_def num_text_int str_or_empty_def)

definition keyed :: "cjson \<Rightarrow> bool" where
  "keyed c \<longleftrightarrow> (case cj_string c of Some s \<Rightarrow> no_nul s | None \<Rightarrow> False)"

lemma keyed_simps [simp]:
  "keyed (jstr k s) = no_nul k" "keyed (jnum k i) = no_nul k" "keyed (jobj (Some k) ms) = no_nul k"
  "keyed (jarr (Some k) ms) = no_nul k"
  by (simp_all add: keyed_def)

lemma wf_body_simps [simp]:
  "wf_body (jstr k s) = no_nul s"
  "wf_body (jobj ko ms) \<longleftrightarrow> list_all wf_body ms \<and> list_all keyed ms"
  "wf_body (jarr ko ms) \<longleftrightarrow> list_all wf_body ms \<and> list_all (\<lambda>c. cj_string c = None) ms"
  by (auto simp: jstr_def jobj_def jarr_def keyed_def [abs_def])

lemma wf_body_jnum [simp]: "\<bar>i\<bar> \<le> 2 ^ 53 \<Longrightarrow> wf_body (jnum k i)"
  by (auto simp: jnum_def exact_num_def trunc_def)

lemma valueint_jnum [simp]: "\<bar>i\<bar> < 2 ^ 31 \<Longrightarrow> cj_valueint (jnum k i) = i"
  by (auto simp: jnum_def intro!: cvt_int)

subsection \<open>The properties\<close>

text \<open>
  \<^bold>\<open>C7\<close> Parsing what was printed gives the tree back: for every well-formed tree, of any depth
  and width, with arbitrary (NUL-free) strings, \<open>cJSON_Parse\<close> of \<open>cJSON_PrintUnformatted\<close> is
  that tree.
\<close>

theorem json_roundtrip:
  assumes "wf_json j"
  shows "cJSON_Parse (Some (cJSON_PrintUnformatted (Some j))) = Some j"
  using parse_json_text [OF assms] by (simp add: print_text)

definition example_json :: cjson where
  "example_json = jobj None [jstr ''k'' [CHR ''a'', LF, QUOTE],
     jarr (Some ''n'') [set_string None (jnum ''x'' (- 7))]]"

lemma wf_example_json: "wf_json example_json"
proof -
  have "wf_body (set_string None (jnum ''x'' (- 7)))"
    by (simp add: jnum_def exact_num_def trunc_def)
  then show ?thesis by (simp add: wf_json_def example_json_def)
qed

theorem json_roundtrip_witness:
  "cJSON_Parse (Some (cJSON_PrintUnformatted (Some example_json))) = Some example_json"
  by (rule json_roundtrip [OF wf_example_json])

text \<open>
  A printed well-formed value is one non-empty line without NUL or line feed, whatever
  its strings contain: the precondition of storing one message per line.
\<close>

lemma json_one_line:
  assumes "wf_json j"
  shows "cJSON_PrintUnformatted (Some j) \<noteq> [] \<and> NUL \<notin> set (cJSON_PrintUnformatted (Some j))
    \<and> LF \<notin> set (cJSON_PrintUnformatted (Some j))"
  using assms json_text_line by (auto simp: wf_json_def print_text one_line_def)

lemma json_one_line_witness: "LF \<notin> set (cJSON_PrintUnformatted (Some example_json))"
  using json_one_line [OF wf_example_json] by simp

end
