(* ===== verification/Sse.thy ===== *)
theory Sse
  imports JRound Buffers World Config
begin

section \<open>The event stream: from response bytes to content blocks (main.c)\<close>

text \<open>
  \<open>on_chunk\<close> is the callback that \<^verbatim>\<open>http_stream_body\<close> feeds with pieces of the body.  It splits
  them into lines, hands the payload of each \<^verbatim>\<open>data:\<close> line to \<open>handle_event\<close>, which updates the
  block table, and \<open>blocks_to_content\<close> finally turns the table into the assistant's message.
\<close>

subsection \<open>State\<close>

record block_t =
  b_type :: string
  b_id :: string
  b_name :: string
  b_text :: buf_t
  b_partial :: buf_t

record stream_state_t =
  st_blocks :: "block_t list"
  st_n :: int
  st_line :: buf_t
  st_line_dropped :: bool
  st_raw_head :: string
  st_raw_head_len :: nat
  st_stop_reason :: string
  st_oob :: bool

text \<open>
  \<open>st_oob\<close> is a ghost field: it records that \<^verbatim>\<open>blocks\<close> was indexed outside its bounds, which is
  undefined in C and would otherwise go unnoticed in a list.

  \<^verbatim>\<open>stream_state_t st = {0}\<close>.  \<open>st_raw_head\<close> holds the bytes written to the array so far; the
  rest of its 4096 bytes are still zero.
\<close>

definition block_zero :: block_t where
  "block_zero = \<lparr>b_type = [], b_id = [], b_name = [], b_text = buf_empty, b_partial = buf_empty\<rparr>"

definition stream_zero :: stream_state_t where
  "stream_zero = \<lparr>st_blocks = replicate MAX_BLOCKS block_zero, st_n = 0, st_line = buf_empty,
     st_line_dropped = False, st_raw_head = [], st_raw_head_len = 0, st_stop_reason = [],
     st_oob = False\<rparr>"

abbreviation (input) raw_head_size :: nat where "raw_head_size \<equiv> 4096"

subsection \<open>Events\<close>

definition block_overflow_warn :: "int \<Rightarrow> world \<Rightarrow> world" where
  "block_overflow_warn idx w =
     (if w_block_warned w then w
      else put_err ([LF] @ ''[block index '' @ show_int idx @ '' >= MAX_BLOCKS='' @ show_nat MAX_BLOCKS
             @ ''; further blocks ignored]'' @ [LF]) (w\<lparr>w_block_warned := True\<rparr>))"

definition event_index :: "cjson \<Rightarrow> int" where
  "event_index evt =
     (case cJSON_GetObjectItem (Some evt) ''index'' of
        Some j \<Rightarrow> if cJSON_IsNumber (Some j) then cj_valueint j else - 1
      | None \<Rightarrow> - 1)"

text \<open>\<^verbatim>\<open>if ((s = ...)) { strncpy(field, s, sizeof field - 1); ... }\<close>: absent leaves the field.\<close>

definition copy_field :: "nat \<Rightarrow> string option \<Rightarrow> string \<Rightarrow> string" where
  "copy_field n s old = (case s of None \<Rightarrow> old | Some v \<Rightarrow> fit n v)"

definition item_string :: "cjson option \<Rightarrow> string \<Rightarrow> string option" where
  "item_string j key = cJSON_GetStringValue (cJSON_GetObjectItem j key)"

definition start_block :: "cjson option \<Rightarrow> block_t \<Rightarrow> block_t" where
  "start_block cb b =
     \<lparr>b_type = copy_field 32 (item_string cb ''type'') [],
      b_id = copy_field 64 (item_string cb ''id'') [],
      b_name = copy_field 64 (item_string cb ''name'') [],
      b_text = buf_reset (b_text b), b_partial = buf_reset (b_partial b)\<rparr>"

definition cap_message :: "string \<Rightarrow> string" where
  "cap_message what = [LF] @ ''['' @ what @ '' capped at '' @ show_nat MAX_BLOCK_SIZE @ '' bytes]'' @ [LF]"

definition add_text :: "string option \<Rightarrow> block_t \<Rightarrow> world \<Rightarrow> block_t \<times> world" where
  "add_text txt b w =
     (case txt of
        None \<Rightarrow> (b, w)
      | Some t \<Rightarrow>
          if length (bdata (b_text b)) < MAX_BLOCK_SIZE then
            let tl = length t; room = MAX_BLOCK_SIZE - length (bdata (b_text b)); tk = min tl room;
                b' = b\<lparr>b_text := buf_append (b_text b) (take tk t)\<rparr>;
                w1 = (if w_json w then w else put_out (take tk t) w);
                w2 = (if tk < tl then put_err (cap_message ''text block'') w1 else w1)
            in (b', w2)
          else (b, w))"

definition add_partial :: "string option \<Rightarrow> block_t \<Rightarrow> world \<Rightarrow> block_t \<times> world" where
  "add_partial pj b w =
     (case pj of
        None \<Rightarrow> (b, w)
      | Some t \<Rightarrow>
          if length (bdata (b_partial b)) < MAX_BLOCK_SIZE then
            let tl = length t; room = MAX_BLOCK_SIZE - length (bdata (b_partial b)); tk = min tl room;
                b' = b\<lparr>b_partial := buf_append (b_partial b) (take tk t)\<rparr>;
                w1 = (if tk < tl then put_err (cap_message ''tool input'') w else w)
            in (b', w1)
          else (b, w))"

text \<open>Taking \<^verbatim>\<open>&st->blocks[idx]\<close>.\<close>

definition access_block :: "int \<Rightarrow> stream_state_t \<Rightarrow> stream_state_t" where
  "access_block idx st =
     (if 0 \<le> idx \<and> idx < int (length (st_blocks st)) then st else st\<lparr>st_oob := True\<rparr>)"

definition update_block :: "nat \<Rightarrow> block_t \<Rightarrow> stream_state_t \<Rightarrow> stream_state_t" where
  "update_block i b st = st\<lparr>st_blocks := (st_blocks st)[i := b]\<rparr>"

definition handle_block_start :: "cjson \<Rightarrow> stream_state_t \<Rightarrow> world \<Rightarrow> stream_state_t \<times> world" where
  "handle_block_start evt st w =
     (let idx = event_index evt;
          w1 = (if int MAX_BLOCKS \<le> idx then block_overflow_warn idx w else w)
      in if 0 \<le> idx \<and> idx < int MAX_BLOCKS then
           let st = access_block idx st;
               b = start_block (cJSON_GetObjectItem (Some evt) ''content_block'') (st_blocks st ! nat idx);
               st1 = update_block (nat idx) b st
           in (if st_n st < idx + 1 then st1\<lparr>st_n := idx + 1\<rparr> else st1, w1)
         else (st, w1))"

definition handle_block_delta :: "cjson \<Rightarrow> stream_state_t \<Rightarrow> world \<Rightarrow> stream_state_t \<times> world" where
  "handle_block_delta evt st w =
     (let idx = event_index evt;
          w1 = (if int MAX_BLOCKS \<le> idx then block_overflow_warn idx w else w)
      in if 0 \<le> idx \<and> idx < int MAX_BLOCKS then
           let d = cJSON_GetObjectItem (Some evt) ''delta'';
               st = access_block idx st; b = st_blocks st ! nat idx
           in (case item_string d ''type'' of
                 None \<Rightarrow> (st, w1)
               | Some dt \<Rightarrow>
                   if dt = ''text_delta'' then
                     let (b', w2) = add_text (item_string d ''text'') b w1 in (update_block (nat idx) b' st, w2)
                   else if dt = ''input_json_delta'' then
                     let (b', w2) = add_partial (item_string d ''partial_json'') b w1
                     in (update_block (nat idx) b' st, w2)
                   else (st, w1))
         else (st, w1))"

definition handle_event :: "stream_state_t \<Rightarrow> string \<Rightarrow> world \<Rightarrow> stream_state_t \<times> world" where
  "handle_event st json_str w =
     (case cJSON_Parse (Some json_str) of
        None \<Rightarrow> (st, w)
      | Some evt \<Rightarrow>
          (case item_string (Some evt) ''type'' of
             None \<Rightarrow> (st, w)
           | Some t \<Rightarrow>
               if t = ''content_block_start'' then handle_block_start evt st w
               else if t = ''content_block_delta'' then handle_block_delta evt st w
               else if t = ''message_delta'' then
                 (st\<lparr>st_stop_reason := copy_field 32
                       (item_string (cJSON_GetObjectItem (Some evt) ''delta'') ''stop_reason'')
                       (st_stop_reason st)\<rparr>, w)
               else if t = ''error'' then
                 let msg = item_string (cJSON_GetObjectItem (Some evt) ''error'') ''message''
                 in (st, put_err ([LF] @ ''[api error: ''
                           @ (case msg of Some m \<Rightarrow> m | None \<Rightarrow> ''(no message)'') @ '']'' @ [LF]) w)
               else (st, w)))"

subsection \<open>Chunks\<close>

text \<open>A complete line: \<^verbatim>\<open>data:\<close>, an optional space, the payload.\<close>

definition is_data_line :: "string \<Rightarrow> bool" where
  "is_data_line l \<longleftrightarrow> 5 < length l \<and> take 5 l = ''data:''"

definition data_payload :: "string \<Rightarrow> string" where
  "data_payload l = (let p = drop 5 l in if hd p = CHR '' '' then tl p else p)"

definition on_line :: "stream_state_t \<Rightarrow> world \<Rightarrow> stream_state_t \<times> world" where
  "on_line st w =
     (if st_line_dropped st then
        (st\<lparr>st_line_dropped := False\<rparr>, put_err ([LF] @ ''[dropped oversized SSE line]'' @ [LF]) w)
      else if is_data_line (bdata (st_line st)) then handle_event st (data_payload (bdata (st_line st))) w
      else (st, w))"

text \<open>The body of the loop of \<open>on_chunk\<close>, for one character.\<close>

definition on_char :: "char \<Rightarrow> stream_state_t \<times> world \<Rightarrow> stream_state_t \<times> world" where
  "on_char c sw =
     (let (st, w) = sw in
      if c = LF then
        let (st1, w1) = on_line st w in (st1\<lparr>st_line := buf_reset (st_line st1)\<rparr>, w1)
      else if c \<noteq> CR then
        if MAX_SSE_LINE \<le> length (bdata (st_line st)) then (st\<lparr>st_line_dropped := True\<rparr>, w)
        else (st\<lparr>st_line := buf_append (st_line st) [c]\<rparr>, w)
      else (st, w))"

definition head_copy :: "string \<Rightarrow> stream_state_t \<Rightarrow> stream_state_t" where
  "head_copy ptr st =
     (if st_raw_head_len st < raw_head_size then
        let room = raw_head_size - st_raw_head_len st; tk = min (length ptr) room
        in st\<lparr>st_raw_head := take (st_raw_head_len st) (st_raw_head st) @ take tk ptr
                              @ drop (st_raw_head_len st + tk) (st_raw_head st),
              st_raw_head_len := st_raw_head_len st + tk\<rparr>
      else st)"

definition on_chunk :: "string \<Rightarrow> stream_state_t \<times> world \<Rightarrow> nat \<times> (stream_state_t \<times> world)" where
  "on_chunk ptr sw =
     (let (st, w) = sw; (intr, w) = poll_interrupt w in
      if intr then (0, (st, w))
      else
        let w = (if w_debug w then put_err ([ESC] @ ''[2m'' @ cstr ptr @ [ESC] @ ''[0m'') w else w)
        in (length ptr, foldl (\<lambda>sw c. on_char c sw) (head_copy ptr st, w) ptr))"

subsection \<open>Blocks to content\<close>

definition block_object :: "block_t \<Rightarrow> cjson option" where
  "block_object b =
     (let obj = cJSON_AddStringToObject (Some cJSON_CreateObject) (Some ''type'') (Some (b_type b)) in
      if b_type b = ''text'' then
        cJSON_AddStringToObject obj (Some ''text'') (Some (cstr (bdata (b_text b))))
      else if b_type b = ''tool_use'' then
        let obj = cJSON_AddStringToObject obj (Some ''id'') (Some (b_id b));
            obj = cJSON_AddStringToObject obj (Some ''name'') (Some (b_name b));
            input = (if 0 < length (bdata (b_partial b)) then cJSON_Parse (Some (bdata (b_partial b))) else None)
        in if input = None \<or> cJSON_GetArraySize input = 0 then None
           else cJSON_AddItemToObject obj (Some ''input'') input
      else obj)"

text \<open>A block that cannot be turned into an object makes the whole result NULL.\<close>

fun blocks_loop :: "block_t list \<Rightarrow> cjson \<Rightarrow> cjson option" where
  "blocks_loop [] arr = Some arr"
| "blocks_loop (b # bs) arr =
     (if b_type b = [] then blocks_loop bs arr
      else (case block_object b of
              None \<Rightarrow> None
            | Some obj \<Rightarrow>
                (case cJSON_AddItemToArray (Some arr) (Some obj) of
                   None \<Rightarrow> None
                 | Some arr' \<Rightarrow> blocks_loop bs arr')))"

definition active_blocks :: "stream_state_t \<Rightarrow> block_t list" where
  "active_blocks st = take (nat (st_n st)) (st_blocks st)"

definition blocks_to_content :: "stream_state_t \<Rightarrow> cjson option" where
  "blocks_to_content st = blocks_loop (active_blocks st) cJSON_CreateArray"

definition stream_state_free :: "stream_state_t \<Rightarrow> stream_state_t" where
  "stream_state_free st =
     st\<lparr>st_blocks := map (\<lambda>b. b\<lparr>b_text := buf_free (b_text b), b_partial := buf_free (b_partial b)\<rparr>)
                       (st_blocks st),
        st_line := buf_free (st_line st)\<rparr>"

end
