(* ===== verification/SseProps.thy ===== *)
theory SseProps
  imports Sse
begin

section \<open>Invariants and functional behaviour of the event stream\<close>

text \<open>
  The bounds of every array and buffer of the stream state as an invariant of \<open>on_chunk\<close>, and that the
  result does not depend on how the body is cut into chunks.
\<close>

subsection \<open>Bounds: every array and buffer of the stream state stays within its size\<close>

definition block_ok :: "block_t \<Rightarrow> bool" where
  "block_ok b \<longleftrightarrow> length (b_type b) < 32 \<and> length (b_id b) < 64 \<and> length (b_name b) < 64
     \<and> buf_ok (b_text b) \<and> length (bdata (b_text b)) \<le> MAX_BLOCK_SIZE
     \<and> buf_ok (b_partial b) \<and> length (bdata (b_partial b)) \<le> MAX_BLOCK_SIZE"

definition stream_ok :: "stream_state_t \<Rightarrow> bool" where
  "stream_ok st \<longleftrightarrow> length (st_blocks st) = MAX_BLOCKS \<and> list_all block_ok (st_blocks st)
     \<and> 0 \<le> st_n st \<and> st_n st \<le> int MAX_BLOCKS
     \<and> buf_ok (st_line st) \<and> length (bdata (st_line st)) \<le> MAX_SSE_LINE
     \<and> st_raw_head_len st = length (st_raw_head st) \<and> length (st_raw_head st) \<le> raw_head_size
     \<and> length (st_stop_reason st) < 32 \<and> \<not> st_oob st"

lemma block_ok_zero [inv_intro]: "block_ok block_zero"
  by (simp add: block_ok_def block_zero_def)

lemma stream_ok_zero [inv_intro]: "stream_ok stream_zero"
  using block_ok_zero by (simp add: stream_ok_def stream_zero_def MAX_BLOCKS_def list_all_length)

lemma copy_field_short: "0 < n \<Longrightarrow> length old < n \<Longrightarrow> length (copy_field n s old) < n"
  by (simp add: copy_field_def length_fit split: option.split)

lemma block_ok_start [inv_intro]: "block_ok b \<Longrightarrow> block_ok (start_block cb b)"
  by (simp add: block_ok_def start_block_def copy_field_short)

lemma block_ok_add_text [inv_intro]: "block_ok b \<Longrightarrow> block_ok (fst (add_text txt b w))"
  by (auto simp: add_text_def block_ok_def Let_def min_def split: option.split)

lemma block_ok_add_partial [inv_intro]: "block_ok b \<Longrightarrow> block_ok (fst (add_partial pj b w))"
  by (auto simp: add_partial_def block_ok_def Let_def min_def split: option.split)

lemma stream_ok_block: "stream_ok st \<Longrightarrow> i < MAX_BLOCKS \<Longrightarrow> block_ok (st_blocks st ! i)"
  by (simp add: stream_ok_def list_all_length)

lemma stream_ok_update [inv_intro]: "stream_ok st \<Longrightarrow> block_ok b \<Longrightarrow> stream_ok (update_block i b st)"
  by (auto simp: stream_ok_def update_block_def list_all_iff dest: set_update_subset_insert [THEN subsetD])

lemma access_block_in:
  "length (st_blocks st) = MAX_BLOCKS \<Longrightarrow> 0 \<le> i \<Longrightarrow> i < int MAX_BLOCKS \<Longrightarrow> access_block i st = st"
  by (simp add: access_block_def)

lemma access_block_ok [simp]:
  "stream_ok st \<Longrightarrow> 0 \<le> i \<Longrightarrow> i < int MAX_BLOCKS \<Longrightarrow> access_block i st = st"
  by (simp add: access_block_in stream_ok_def)

lemma stream_ok_block_start [inv_intro]:
  "stream_ok st \<Longrightarrow> stream_ok (fst (handle_block_start evt st w))"
proof -
  assume ok: "stream_ok st"
  show ?thesis
  proof (cases "0 \<le> event_index evt \<and> event_index evt < int MAX_BLOCKS")
    case True
    then have i: "nat (event_index evt) < MAX_BLOCKS" by linarith
    have "stream_ok (update_block (nat (event_index evt))
        (start_block (cJSON_GetObjectItem (Some evt) ''content_block'')
          (st_blocks st ! nat (event_index evt))) st)"
      by (intro inv_intro ok stream_ok_block i)
    with True ok show ?thesis by (simp add: handle_block_start_def Let_def) (simp add: stream_ok_def)
  next
    case False
    then show ?thesis using ok by (simp only: handle_block_start_def Let_def if_False fst_conv)
  qed
qed

lemma stream_ok_block_delta [inv_intro]:
  "stream_ok st \<Longrightarrow> stream_ok (fst (handle_block_delta evt st w))"
proof -
  assume ok: "stream_ok st"
  have "stream_ok (update_block i (fst (add_text x (st_blocks st ! i) w')) st)"
    "stream_ok (update_block i (fst (add_partial x (st_blocks st ! i) w')) st)" if "i < MAX_BLOCKS" for i x w'
    by (intro inv_intro ok stream_ok_block that)+
  then show ?thesis using ok
    by (auto simp: handle_block_delta_def Let_def split_beta nat_less_iff split: option.split)
qed

lemma stream_ok_event [inv_intro]: "stream_ok st \<Longrightarrow> stream_ok (fst (handle_event st s w))"
proof -
  assume ok: "stream_ok st"
  then have "stream_ok (st\<lparr>st_stop_reason := copy_field 32 r (st_stop_reason st)\<rparr>)" for r
    by (simp add: stream_ok_def copy_field_short)
  with ok show ?thesis
    by (simp add: handle_event_def Let_def stream_ok_block_start stream_ok_block_delta split: option.split)
qed

lemma stream_ok_line_update:
  "stream_ok st \<Longrightarrow> buf_ok l \<Longrightarrow> length (bdata l) \<le> MAX_SSE_LINE \<Longrightarrow> stream_ok (st\<lparr>st_line := l\<rparr>)"
  "stream_ok st \<Longrightarrow> stream_ok (st\<lparr>st_line_dropped := d\<rparr>)"
  by (simp_all add: stream_ok_def)

lemma stream_ok_line [inv_intro]: "stream_ok st \<Longrightarrow> stream_ok (fst (on_line st w))"
  by (simp add: on_line_def stream_ok_event stream_ok_line_update)

lemma stream_ok_char [inv_intro]: "stream_ok (fst sw) \<Longrightarrow> stream_ok (fst (on_char c sw))"
proof -
  assume ok: "stream_ok (fst sw)"
  have line: "buf_ok (st_line (fst sw))" "buf_ok (st_line (fst (on_line (fst sw) w)))" for w
    using ok stream_ok_line [OF ok] by (simp_all add: stream_ok_def)
  show ?thesis
    using ok line stream_ok_line [OF ok, of "snd sw"]
    by (simp add: on_char_def split_beta Let_def stream_ok_line_update)
qed

lemma stream_ok_chars: "stream_ok (fst sw) \<Longrightarrow> stream_ok (fst (foldl (\<lambda>sw c. on_char c sw) sw cs))"
  by (induction cs arbitrary: sw) (simp_all add: stream_ok_char)

lemma stream_ok_head [inv_intro]: "stream_ok st \<Longrightarrow> stream_ok (head_copy ptr st)"
  by (auto simp: stream_ok_def head_copy_def Let_def)

lemma stream_ok_chunk [inv_intro]: "stream_ok (fst sw) \<Longrightarrow> stream_ok (fst (snd (on_chunk ptr sw)))"
  using stream_ok_chars stream_ok_head by (auto simp: on_chunk_def split_beta Let_def)

text \<open>
  \<^bold>\<open>C10\<close> No sequence of body bytes, however hostile and however cut into chunks, and no signal
  can push the stream state out of bounds: the block table is never indexed outside its 64 slots
  (\<open>st_oob\<close> stays false) and \<open>n\<close> counts within it, type, id, name and stop reason fit their arrays with the terminator, text and tool
  input stay within \<open>MAX_BLOCK_SIZE\<close>, the line within \<open>MAX_SSE_LINE\<close>, the captured head within
  its 4096 bytes, and every buffer has room for its terminator.
\<close>

theorem on_chunks_stream_ok:
  "stream_ok (fst (foldl (\<lambda>sw ptr. snd (on_chunk ptr sw)) (stream_zero, w) ptrs))"
proof -
  have "stream_ok (fst sw) \<Longrightarrow> stream_ok (fst (foldl (\<lambda>sw ptr. snd (on_chunk ptr sw)) sw ptrs))" for sw
    by (induction ptrs arbitrary: sw) (simp_all add: stream_ok_chunk)
  then show ?thesis using stream_ok_zero by simp
qed

subsection \<open>Chunk boundaries do not matter\<close>

text \<open>What the event functions leave alone in the world.\<close>

definition same_control :: "world \<Rightarrow> world \<Rightarrow> bool" where
  "same_control w w' \<longleftrightarrow> w_interrupt w' = w_interrupt w \<and> w_signals w' = w_signals w
     \<and> w_debug w' = w_debug w \<and> w_json w' = w_json w \<and> w_files w' = w_files w
     \<and> w_pieces w' = w_pieces w \<and> w_connections w' = w_connections w
     \<and> w_commands w' = w_commands w \<and> w_writes w' = w_writes w \<and> w_append_ok w' = w_append_ok w
     \<and> w_fds w' = w_fds w \<and> w_next_fd w' = w_next_fd w
     \<and> w_sent w' = w_sent w \<and> w_ran w' = w_ran w"

lemma same_control_refl [simp]: "same_control w w"
  by (simp add: same_control_def)

lemma same_control_put [simp]:
  "same_control w (put_out s w') = same_control w w'" "same_control w (put_err s w') = same_control w w'"
  by (simp_all add: same_control_def)

lemma same_control_trans: "same_control a b \<Longrightarrow> same_control b c \<Longrightarrow> same_control a c"
  by (simp add: same_control_def)

lemma same_control_quiet: "same_control w w' \<Longrightarrow> quiet w' = quiet w"
  by (simp add: same_control_def quiet_def)

lemma same_control_warn [simp]: "same_control w (block_overflow_warn i w)"
  by (simp add: block_overflow_warn_def same_control_def)

lemma same_control_add [frame]:
  "same_control w (snd (add_text t b w))" "same_control w (snd (add_partial t b w))"
  by (simp_all add: add_text_def add_partial_def Let_def split: option.split)

lemma same_control_start [frame]: "same_control w (snd (handle_block_start evt st w))"
  by (simp add: handle_block_start_def Let_def)

lemma same_control_delta [frame]: "same_control w (snd (handle_block_delta evt st w))"
proof -
  have "same_control w (snd (add_text t b (block_overflow_warn i w)))"
    "same_control w (snd (add_partial t b (block_overflow_warn i w)))" for t b i
    using same_control_add same_control_trans [OF same_control_warn] by blast+
  then show ?thesis
    by (simp add: handle_block_delta_def Let_def split_beta same_control_add split: option.split)
qed

lemma same_control_event [frame]: "same_control w (snd (handle_event st s w))"
  by (simp add: handle_event_def Let_def same_control_start same_control_delta split: option.split)

lemma same_control_char [frame]: "same_control (snd sw) (snd (on_char c sw))"
proof -
  have "same_control w (snd (on_line st w))" for st w
    by (simp add: on_line_def same_control_event)
  then show ?thesis by (simp add: on_char_def split_beta Let_def)
qed

lemma same_control_chars [frame]:
  "same_control (snd sw) (snd (foldl (\<lambda>sw c. on_char c sw) sw cs))"
proof (induction cs arbitrary: sw)
  case (Cons c cs)
  show ?case using same_control_trans [OF same_control_char Cons.IH [of "on_char c sw"]] by simp
qed simp

text \<open>The captured head is independent of everything else.\<close>

definition with_head :: "string \<times> nat \<Rightarrow> stream_state_t \<Rightarrow> stream_state_t" where
  "with_head h st = st\<lparr>st_raw_head := fst h, st_raw_head_len := snd h\<rparr>"

definition head_of :: "stream_state_t \<Rightarrow> string \<times> nat" where
  "head_of st = (st_raw_head st, st_raw_head_len st)"

definition head_step :: "string \<Rightarrow> string \<times> nat \<Rightarrow> string \<times> nat" where
  "head_step ptr h =
     (if snd h < raw_head_size
      then let tk = min (length ptr) (raw_head_size - snd h)
           in (take (snd h) (fst h) @ take tk ptr @ drop (snd h + tk) (fst h), snd h + tk)
      else h)"

lemma head_copy_step: "head_copy ptr st = with_head (head_step ptr (head_of st)) st"
  by (simp add: head_copy_def with_head_def head_step_def head_of_def Let_def)

lemma with_head_simps [simp]:
  "st_line (with_head h st) = st_line st" "st_line_dropped (with_head h st) = st_line_dropped st"
  "st_blocks (with_head h st) = st_blocks st" "st_n (with_head h st) = st_n st"
  "st_stop_reason (with_head h st) = st_stop_reason st"
  "(with_head h st)\<lparr>st_line := l\<rparr> = with_head h (st\<lparr>st_line := l\<rparr>)"
  "(with_head h st)\<lparr>st_line_dropped := d\<rparr> = with_head h (st\<lparr>st_line_dropped := d\<rparr>)"
  "(with_head h st)\<lparr>st_stop_reason := r\<rparr> = with_head h (st\<lparr>st_stop_reason := r\<rparr>)"
  by (simp_all add: with_head_def)

lemma with_head_block_start:
  "handle_block_start evt (with_head h st) w
    = (with_head h (fst (handle_block_start evt st w)), snd (handle_block_start evt st w))"
  by (simp add: handle_block_start_def with_head_def update_block_def access_block_def Let_def)

lemma with_head_block_delta:
  "handle_block_delta evt (with_head h st) w
    = (with_head h (fst (handle_block_delta evt st w)), snd (handle_block_delta evt st w))"
  by (auto simp: handle_block_delta_def with_head_def update_block_def access_block_def Let_def split_beta split: option.split)

lemma with_head_event:
  "handle_event (with_head h st) s w
    = (with_head h (fst (handle_event st s w)), snd (handle_event st s w))"
  by (simp add: handle_event_def with_head_block_start with_head_block_delta Let_def split: option.split)

lemma with_head_line: "on_line (with_head h st) w = (with_head h (fst (on_line st w)), snd (on_line st w))"
  by (simp add: on_line_def with_head_event)

lemma with_head_char:
  "on_char c (with_head h st, w)
    = (with_head h (fst (on_char c (st, w))), snd (on_char c (st, w)))"
  by (simp add: on_char_def split_beta Let_def with_head_line)

lemma with_head_chars:
  "foldl (\<lambda>sw c. on_char c sw) (with_head h st, w) cs
    = (let r = foldl (\<lambda>sw c. on_char c sw) (st, w) cs in (with_head h (fst r), snd r))"
proof (induction cs arbitrary: st w)
  case (Cons c cs)
  show ?case using Cons.IH [of "fst (on_char c (st, w))" "snd (on_char c (st, w))"]
    by (simp add: with_head_char Let_def)
qed (simp add: Let_def)

lemma with_head_of [simp]: "with_head (head_of st) st = st" "with_head g (with_head h st) = with_head g st"
  "head_of (with_head h st) = h"
  by (simp_all add: with_head_def head_of_def)

lemma head_of_chars: "head_of (fst (foldl (\<lambda>sw c. on_char c sw) (st, w) cs)) = head_of st"
  using with_head_chars [of "head_of st" st w cs] with_head_of(3) [of "head_of st"]
  by (metis (no_types, lifting) fst_conv with_head_of(1))

lemma head_step_append: "snd h = length (fst h) \<Longrightarrow> head_step (a @ b) h = head_step b (head_step a h)"
  by (cases h) (auto simp: head_step_def Let_def min_def)

definition head_len_ok :: "stream_state_t \<Rightarrow> bool" where
  "head_len_ok st \<longleftrightarrow> st_raw_head_len st = length (st_raw_head st)"

text \<open>With no signal and no debug output, a chunk is its characters one by one.\<close>

definition plain_world :: "world \<Rightarrow> bool" where
  "plain_world w \<longleftrightarrow> quiet w \<and> \<not> w_debug w"

lemma plain_world_same: "same_control w w' \<Longrightarrow> plain_world w' = plain_world w"
  by (simp add: plain_world_def same_control_quiet) (simp add: same_control_def)

lemma on_chunk_plain:
  "plain_world w \<Longrightarrow> on_chunk ptr (st, w)
    = (length ptr, foldl (\<lambda>sw c. on_char c sw) (head_copy ptr st, w) ptr)"
  by (simp add: on_chunk_def plain_world_def)

lemma on_chunk_plain_split:
  assumes "plain_world w"
  shows "on_chunk ptr (st, w) = (length ptr,
    let r = foldl (\<lambda>sw c. on_char c sw) (st, w) ptr in (with_head (head_step ptr (head_of st)) (fst r), snd r))"
  using assms by (simp add: on_chunk_plain head_copy_step with_head_chars)

lemma chunk_append:
  assumes "plain_world w" and "head_len_ok st"
  shows "snd (on_chunk b (snd (on_chunk a (st, w)))) = snd (on_chunk (a @ b) (st, w))"
proof -
  let ?r = "foldl (\<lambda>sw c. on_char c sw) (st, w) a"
  obtain s1 w1 where r: "?r = (s1, w1)" by (cases ?r)
  have w1: "plain_world w1"
    using same_control_chars [of "(st, w)" a] plain_world_same assms(1) by (simp add: r)
  have h1: "head_of s1 = head_of st" using head_of_chars [of st w a] by (simp add: r)
  have hs: "head_step (a @ b) (head_of st) = head_step b (head_step a (head_of st))"
    using assms(2) by (intro head_step_append) (simp add: head_of_def head_len_ok_def)
  show ?thesis
    by (simp add: on_chunk_plain_split assms(1) w1 r Let_def with_head_chars hs)
qed

lemma head_step_len: "snd h = length (fst h) \<Longrightarrow> snd (head_step p h) = length (fst (head_step p h))"
  by (cases h) (auto simp: head_step_def Let_def min_def)

lemma chunk_keeps:
  assumes "plain_world w" and "head_len_ok st"
  shows "plain_world (snd (snd (on_chunk a (st, w))))" "head_len_ok (fst (snd (on_chunk a (st, w))))"
proof -
  show "plain_world (snd (snd (on_chunk a (st, w))))"
    using same_control_chars [of "(head_copy a st, w)" a] plain_world_same assms(1)
    by (simp add: on_chunk_plain)
  show "head_len_ok (fst (snd (on_chunk a (st, w))))"
    using head_step_len [of "head_of st" a] assms
    by (simp add: on_chunk_plain_split Let_def with_head_def head_len_ok_def head_of_def)
qed

lemma head_len_ok_zero: "head_len_ok stream_zero"
  by (simp add: head_len_ok_def stream_zero_def)

lemma chunks_concat:
  assumes "plain_world w" and "head_len_ok st"
  shows "foldl (\<lambda>sw p. snd (on_chunk p sw)) (st, w) ptrs = snd (on_chunk (concat ptrs) (st, w))"
  using assms
proof (induction ptrs arbitrary: st w)
  case Nil
  have "head_step [] (head_of st) = head_of st"
    using Nil by (cases "head_of st") (simp add: head_step_def Let_def)
  with Nil show ?case by (simp add: on_chunk_plain_split Let_def)
next
  case (Cons p ptrs)
  obtain st1 w1 where r: "snd (on_chunk p (st, w)) = (st1, w1)" by (metis surj_pair)
  have "foldl (\<lambda>sw p. snd (on_chunk p sw)) (st1, w1) ptrs = snd (on_chunk (concat ptrs) (st1, w1))"
    using chunk_keeps [OF Cons.prems, of p] r by (intro Cons.IH) simp_all
  with chunk_append [OF Cons.prems, of "concat ptrs" p] r show ?case by simp
qed

text \<open>
  \<^bold>\<open>C11\<close> The result does not depend on where the transport cuts the body: processing any
  list of pieces one after the other is processing their concatenation, for every list of byte
  strings, when no signal arrives and the debug echo is off.
\<close>

theorem on_chunks_concat:
  assumes "plain_world w"
  shows "foldl (\<lambda>sw p. snd (on_chunk p sw)) (stream_zero, w) ptrs = snd (on_chunk (concat ptrs) (stream_zero, w))"
  using assms head_len_ok_zero by (rule chunks_concat)

lemma plain_calm [simp]: "plain_world calm_world"
  by (simp add: plain_world_def quiet_def calm_world_def)

theorem on_chunks_concat_witness:
  "snd (on_chunk ''ta:1'' (snd (on_chunk ''da'' (stream_zero, calm_world))))
    = snd (on_chunk ''data:1'' (stream_zero, calm_world))"
  using on_chunks_concat [OF plain_calm, of "[''da'', ''ta:1'']"] by simp

end
