(* ===== verification/SseWire.thy ===== *)
theory SseWire
  imports SseProps
begin

section \<open>End to end: from the events on the wire to the message\<close>

text \<open>
  From the text of an event stream to the calls of \<open>handle_event\<close>, line by line.
\<close>

subsection \<open>One line\<close>

text \<open>States that differ only in the capacity of the line buffer behave alike.\<close>

definition with_line :: "buf_t \<Rightarrow> stream_state_t \<Rightarrow> stream_state_t" where
  "with_line l st = st\<lparr>st_line := l\<rparr>"

lemma with_line_simps [simp]:
  "st_line (with_line l st) = l" "st_line_dropped (with_line l st) = st_line_dropped st"
  "st_blocks (with_line l st) = st_blocks st" "st_n (with_line l st) = st_n st"
  "st_stop_reason (with_line l st) = st_stop_reason st"
  "with_line l (with_line l' st) = with_line l st" "with_line (st_line st) st = st"
  "(with_line l st)\<lparr>st_line := l'\<rparr> = with_line l' st"
  "(with_line l st)\<lparr>st_stop_reason := r\<rparr> = with_line l (st\<lparr>st_stop_reason := r\<rparr>)"
  "head_of (with_line l st) = head_of st"
  by (simp_all add: with_line_def head_of_def)

lemma with_line_block_start:
  "handle_block_start evt (with_line l st) w
    = (with_line l (fst (handle_block_start evt st w)), snd (handle_block_start evt st w))"
  by (simp add: handle_block_start_def with_line_def update_block_def access_block_def Let_def)

lemma with_line_block_delta:
  "handle_block_delta evt (with_line l st) w
    = (with_line l (fst (handle_block_delta evt st w)), snd (handle_block_delta evt st w))"
  by (auto simp: handle_block_delta_def with_line_def update_block_def access_block_def Let_def split_beta split: option.split)

lemma with_line_event:
  "handle_event (with_line l st) s w = (with_line l (fst (handle_event st s w)), snd (handle_event st s w))"
  by (simp add: handle_event_def with_line_block_start with_line_block_delta Let_def split: option.split)

lemma line_of_event [simp]:
  "st_line (fst (handle_event st s w)) = st_line st"
  "st_line_dropped (fst (handle_event st s w)) = st_line_dropped st"
proof -
  show "st_line (fst (handle_event st s w)) = st_line st"
    using with_line_event [of "st_line st" st s w] by (metis fst_conv with_line_simps(1,7))
  have "st_line_dropped (fst (handle_block_start evt st w)) = st_line_dropped st"
    "st_line_dropped (fst (handle_block_delta evt st w)) = st_line_dropped st" for evt
    by (simp_all add: handle_block_start_def handle_block_delta_def update_block_def access_block_def Let_def split_beta
        split: option.split)
  then show "st_line_dropped (fst (handle_event st s w)) = st_line_dropped st"
    by (simp add: handle_event_def Let_def split: option.split)
qed

lemma chars_collect:
  assumes "LF \<notin> set l" "CR \<notin> set l" "length (bdata (st_line st)) + length l \<le> MAX_SSE_LINE"
  shows "foldl (\<lambda>sw c. on_char c sw) (st, w) l
    = (with_line (foldl (\<lambda>b c. buf_append b [c]) (st_line st) l) st, w)"
  using assms
proof (induction l arbitrary: st)
  case Nil
  then show ?case by simp
next
  case (Cons c l)
  then have "c \<noteq> LF" "c \<noteq> CR" "length (bdata (st_line st)) < MAX_SSE_LINE" by auto
  then have "on_char c (st, w) = (with_line (buf_append (st_line st) [c]) st, w)"
    by (simp add: on_char_def with_line_def)
  then show ?case using Cons.IH [of "with_line (buf_append (st_line st) [c]) st"] Cons.prems by simp
qed

lemma collected: "bdata (foldl (\<lambda>b c. buf_append b [c]) b l) = bdata b @ l"
  using main_buf.bytes_put_chars [of "\<lambda>c. [c]" b l] by simp

text \<open>At the start of a line: nothing collected, nothing dropped.\<close>

definition line_start :: "stream_state_t \<Rightarrow> bool" where
  "line_start st \<longleftrightarrow> bdata (st_line st) = [] \<and> \<not> st_line_dropped st"

text \<open>Equality up to the line buffer.\<close>

definition same_stream :: "stream_state_t \<Rightarrow> stream_state_t \<Rightarrow> bool" where
  "same_stream a b \<longleftrightarrow> with_line buf_empty a = with_line buf_empty b"

lemma same_stream_refl [simp]: "same_stream a a"
  by (simp add: same_stream_def)

lemma same_stream_event:
  "same_stream a b \<Longrightarrow> same_stream (fst (handle_event a s w)) (fst (handle_event b s w))
     \<and> snd (handle_event a s w) = snd (handle_event b s w)"
  unfolding same_stream_def using with_line_event [of buf_empty a s w] with_line_event [of buf_empty b s w]
  by simp

lemma same_stream_trans: "same_stream a b \<Longrightarrow> same_stream b c \<Longrightarrow> same_stream a c"
  by (simp add: same_stream_def)

lemma same_stream_with_line [simp]: "same_stream (with_line l a) b = same_stream a b"
  by (simp add: same_stream_def)

text \<open>A \<^verbatim>\<open>data:\<close> line followed by the empty line that ends the event.\<close>

definition wire :: "string \<Rightarrow> string" where
  "wire p = ''data: '' @ p @ [LF, LF]"

lemma feed_wire:
  assumes start: "line_start st" and p: "one_line p" and len: "length p + 6 \<le> MAX_SSE_LINE"
  shows "\<exists>s'. foldl (\<lambda>sw c. on_char c sw) (st, w) (wire p) = (s', snd (handle_event st p w))
    \<and> same_stream s' (fst (handle_event st p w)) \<and> line_start s'"
proof -
  let ?l = "''data: '' @ p"
  let ?b = "foldl (\<lambda>b c. buf_append b [c]) (st_line st) ?l"
  have st: "bdata (st_line st) = []" "\<not> st_line_dropped st" using start by (auto simp: line_start_def)
  have pl: "LF \<notin> set p" "CR \<notin> set p" "p \<noteq> []" using p by (auto simp: one_line_def)
  have c: "foldl (\<lambda>sw c. on_char c sw) (st, w) ?l = (with_line ?b st, w)"
    using pl len by (intro chars_collect) (simp_all add: st)
  have b: "bdata ?b = ?l" using collected [of "st_line st" ?l] st by simp
  let ?e = "handle_event st p w"
  have line: "on_line (with_line ?b st) w = (with_line ?b (fst ?e), snd ?e)"
    using st pl by (simp only: on_line_def with_line_simps b)
      (simp add: is_data_line_def data_payload_def with_line_event del: foldl_append)
  let ?s1 = "with_line (buf_reset ?b) (fst ?e)"
  have lf: "on_char LF (with_line ?b st, w) = (?s1, snd ?e)"
    by (simp only: on_char_def prod.case Let_def if_True line refl with_line_simps simp_thms)
  have lf2: "on_char LF (?s1, snd ?e) = (with_line (buf_reset (buf_reset ?b)) (fst ?e), snd ?e)"
    by (simp add: on_char_def on_line_def is_data_line_def st(2))
  have "foldl (\<lambda>sw c. on_char c sw) (st, w) (wire p)
      = (with_line (buf_reset (buf_reset ?b)) (fst ?e), snd ?e)"
    using c lf lf2 by (simp add: wire_def)
  then show ?thesis using st(2) by (auto simp: line_start_def)
qed

lemma one_line_json: "wf_json e \<Longrightarrow> one_line (json_text e)"
  using json_text_line by (simp add: wf_json_def)

definition event_fits :: "cjson \<Rightarrow> bool" where
  "event_fits e \<longleftrightarrow> wf_json e \<and> length (json_text e) + 6 \<le> MAX_SSE_LINE"

abbreviation run_events :: "cjson list \<Rightarrow> stream_state_t \<times> world \<Rightarrow> stream_state_t \<times> world" where
  "run_events es sw \<equiv> foldl (\<lambda>sw e. handle_event (fst sw) (json_text e) (snd sw)) sw es"

abbreviation wire_text :: "cjson list \<Rightarrow> string" where
  "wire_text es \<equiv> concat (map (\<lambda>e. wire (json_text e)) es)"

lemma same_stream_events:
  "same_stream a b \<Longrightarrow> same_stream (fst (run_events es (a, w))) (fst (run_events es (b, w)))
     \<and> snd (run_events es (a, w)) = snd (run_events es (b, w))"
proof (induction es arbitrary: a b w)
  case Nil
  then show ?case by simp
next
  case (Cons e es)
  obtain a1 w1 b1 w2 where h: "handle_event a (json_text e) w = (a1, w1)"
    "handle_event b (json_text e) w = (b1, w2)" by (metis surj_pair)
  have s: "same_stream a1 b1" "w1 = w2" using same_stream_event [OF Cons.prems, of "json_text e" w] by (simp_all add: h)
  show ?case using Cons.IH [OF s(1), of w2] by (simp add: h s(2))
qed

lemma feed_wires:
  assumes "line_start st" and "list_all event_fits es"
  shows "\<exists>s'. foldl (\<lambda>sw c. on_char c sw) (st, w) (wire_text es) = (s', snd (run_events es (st, w)))
    \<and> same_stream s' (fst (run_events es (st, w)))"
  using assms
proof (induction es arbitrary: st w)
  case Nil
  then show ?case by simp
next
  case (Cons e es)
  let ?h = "handle_event st (json_text e) w"
  have "one_line (json_text e)" "length (json_text e) + 6 \<le> MAX_SSE_LINE"
    using Cons.prems one_line_json by (auto simp: event_fits_def)
  then obtain s1 where s1: "foldl (\<lambda>sw c. on_char c sw) (st, w) (wire (json_text e)) = (s1, snd ?h)"
    "same_stream s1 (fst ?h)" "line_start s1"
    using feed_wire [OF Cons.prems(1)] by blast
  obtain s' where s': "foldl (\<lambda>sw c. on_char c sw) (s1, snd ?h) (wire_text es)
      = (s', snd (run_events es (s1, snd ?h)))" "same_stream s' (fst (run_events es (s1, snd ?h)))"
    using Cons.IH [OF s1(3)] Cons.prems by auto
  have "same_stream (fst (run_events es (s1, snd ?h))) (fst (run_events es (fst ?h, snd ?h)))"
    "snd (run_events es (s1, snd ?h)) = snd (run_events es (fst ?h, snd ?h))"
    using same_stream_events [OF s1(2)] by blast+
  then show ?case using s1(1) s' same_stream_trans by auto
qed

subsection \<open>What a server sends\<close>

datatype sitem = SText "string list" | STool string string "string list"

text \<open>The event that opens a block, the event for one piece of it.\<close>

fun ev_start :: "int \<Rightarrow> sitem \<Rightarrow> cjson" where
  "ev_start i (SText ds) = jobj None [jstr ''type'' ''content_block_start'', jnum ''index'' i,
     jobj (Some ''content_block'') [jstr ''type'' ''text'', jstr ''text'' []]]"
| "ev_start i (STool tid name ds) = jobj None [jstr ''type'' ''content_block_start'', jnum ''index'' i,
     jobj (Some ''content_block'') [jstr ''type'' ''tool_use'', jstr ''id'' tid, jstr ''name'' name,
       jobj (Some ''input'') []]]"

fun ev_piece :: "int \<Rightarrow> sitem \<Rightarrow> string \<Rightarrow> cjson" where
  "ev_piece i (SText ds) d = jobj None [jstr ''type'' ''content_block_delta'', jnum ''index'' i,
     jobj (Some ''delta'') [jstr ''type'' ''text_delta'', jstr ''text'' d]]"
| "ev_piece i (STool tid name ds) d = jobj None [jstr ''type'' ''content_block_delta'', jnum ''index'' i,
     jobj (Some ''delta'') [jstr ''type'' ''input_json_delta'', jstr ''partial_json'' d]]"

definition ev_stop :: "int \<Rightarrow> cjson" where
  "ev_stop i = jobj None [jstr ''type'' ''content_block_stop'', jnum ''index'' i]"

fun pieces :: "sitem \<Rightarrow> string list" where
  "pieces (SText ds) = ds"
| "pieces (STool tid name ds) = ds"

definition item_events :: "int \<Rightarrow> sitem \<Rightarrow> cjson list" where
  "item_events i it = ev_start i it # map (ev_piece i it) (pieces it) @ [ev_stop i]"

fun message_events :: "int \<Rightarrow> sitem list \<Rightarrow> cjson list" where
  "message_events i [] = []"
| "message_events i (it # its) = item_events i it @ message_events (i + 1) its"

fun item_ok :: "sitem \<Rightarrow> bool" where
  "item_ok (SText ds) \<longleftrightarrow> list_all no_nul ds \<and> length (concat ds) \<le> MAX_BLOCK_SIZE"
| "item_ok (STool tid name ds) \<longleftrightarrow> list_all no_nul ds \<and> length (concat ds) \<le> MAX_BLOCK_SIZE
     \<and> no_nul tid \<and> no_nul name \<and> length tid < 64 \<and> length name < 64"

subsection \<open>What the block table holds then\<close>

text \<open>A block without the capacities of its buffers.\<close>

definition view :: "block_t \<Rightarrow> string \<times> string \<times> string \<times> string \<times> string" where
  "view b = (b_type b, b_id b, b_name b, bdata (b_text b), bdata (b_partial b))"

fun item_view :: "sitem \<Rightarrow> string \<Rightarrow> string \<times> string \<times> string \<times> string \<times> string" where
  "item_view (SText ds) s = (''text'', [], [], s, [])"
| "item_view (STool tid name ds) s = (''tool_use'', tid, name, [], s)"

definition table :: "stream_state_t \<Rightarrow> (string \<times> string \<times> string \<times> string \<times> string) list \<Rightarrow> bool" where
  "table st vs \<longleftrightarrow> length (st_blocks st) = MAX_BLOCKS \<and> st_n st = int (length vs)
     \<and> length vs \<le> MAX_BLOCKS \<and> map view (active_blocks st) = vs"

lemma event_index_jnum:
  "cJSON_GetObjectItem (Some e) ''index'' = Some (jnum ''index'' i) \<Longrightarrow> \<bar>i\<bar> < 2 ^ 31 \<Longrightarrow> event_index e = i"
  by (simp add: event_index_def cJSON_IsNumber_def)

lemma run_event:
  assumes "wf_json e" and "item_string (Some e) ''type'' = Some t"
  shows "t = ''content_block_start'' \<Longrightarrow> handle_event st (json_text e) w = handle_block_start e st w"
    and "t = ''content_block_delta'' \<Longrightarrow> handle_event st (json_text e) w = handle_block_delta e st w"
    and "t = ''content_block_stop'' \<Longrightarrow> handle_event st (json_text e) w = (st, w)"
  using assms by (simp_all add: handle_event_def parse_json_text)

end
