(* ===== verification/SseMessage.thy ===== *)
theory SseMessage
  imports SseWire
begin

section \<open>The message the agent stores is the one the server sent\<close>

text \<open>
  The block table as a function of the events, and the message it becomes: text blocks as received and
  tool calls with their arguments parsed, none without a name.
\<close>

lemma take_update: "i < n \<Longrightarrow> take n (xs[i := x]) = (take n xs)[i := x]"
  by (simp add: take_update_swap)

lemma start_table:
  assumes t: "table st vs" and room: "length vs < MAX_BLOCKS" and ok: "item_ok it"
  shows "\<exists>st'. handle_event st (json_text (ev_start (int (length vs)) it)) w = (st', w)
    \<and> table st' (vs @ [item_view it []])"
proof -
  let ?i = "int (length vs)"
  have small: "\<bar>?i\<bar> < 2 ^ 31" "\<bar>?i\<bar> \<le> 2 ^ 53" using room by (simp_all add: MAX_BLOCKS_def)
  have wf: "wf_json (ev_start ?i it)" using ok small by (cases it) (simp_all add: wf_json_def)
  have ty: "item_string (Some (ev_start ?i it)) ''type'' = Some ''content_block_start''"
    by (cases it) (simp_all add: item_string_def)
  have idx: "event_index (ev_start ?i it) = ?i"
    using small by (cases it) (simp_all add: event_index_jnum)
  let ?cb = "cJSON_GetObjectItem (Some (ev_start ?i it)) ''content_block''"
  let ?b = "start_block ?cb (st_blocks st ! length vs)"
  have len: "length vs < length (st_blocks st)" using t room by (simp add: table_def)
  have v: "view ?b = item_view it []"
    using ok by (cases it) (simp_all add: view_def start_block_def item_string_def copy_field_def fit_id)
  have "handle_event st (json_text (ev_start ?i it)) w
      = ((update_block (length vs) ?b st)\<lparr>st_n := ?i + 1\<rparr>, w)"
    using t room idx by (simp add: run_event(1) [OF wf ty] handle_block_start_def Let_def table_def access_block_in)
  moreover have "table ((update_block (length vs) ?b st)\<lparr>st_n := ?i + 1\<rparr>) (vs @ [item_view it []])"
    using t room len v
    by (auto simp: table_def active_blocks_def update_block_def nat_add_distrib take_Suc_conv_app_nth take_update
        list_update_append)
  ultimately show ?thesis by blast
qed

text \<open>Text is echoed to the terminal as it arrives, unless the output is JSON.\<close>

fun emit :: "sitem \<Rightarrow> string \<Rightarrow> world \<Rightarrow> world" where
  "emit (SText ds) d w = (if w_json w then w else put_out d w)"
| "emit (STool tid name ds) d w = w"

lemma put_out_Nil [simp]: "put_out [] w = w"
  by (simp add: put_out_def)

lemma put_out_put_out [simp]: "put_out b (put_out a w) = put_out (a @ b) w"
  by (simp add: put_out_def)

lemma json_put_out [simp]: "w_json (put_out s w) = w_json w"
  by (simp add: put_out_def)

lemma add_text_fits:
  assumes "length (bdata (b_text b) @ d) \<le> MAX_BLOCK_SIZE"
  shows "view (fst (add_text (Some d) b w)) = (b_type b, b_id b, b_name b, bdata (b_text b) @ d, bdata (b_partial b))
    \<and> snd (add_text (Some d) b w) = (if w_json w then w else put_out d w)"
  using assms by (cases d) (auto simp: add_text_def view_def Let_def min_def)

lemma add_partial_fits:
  assumes "length (bdata (b_partial b) @ d) \<le> MAX_BLOCK_SIZE"
  shows "view (fst (add_partial (Some d) b w)) = (b_type b, b_id b, b_name b, bdata (b_text b), bdata (b_partial b) @ d)
    \<and> snd (add_partial (Some d) b w) = w"
  using assms by (cases d) (auto simp: add_partial_def view_def Let_def min_def)

lemma table_last:
  assumes "table st (vs @ [v])"
  shows "view (st_blocks st ! length vs) = v" "length vs < length (st_blocks st)" "length vs < MAX_BLOCKS"
proof -
  have m: "map view (take (length vs + 1) (st_blocks st)) = vs @ [v]" and l: "length (st_blocks st) = MAX_BLOCKS"
    and le: "length vs + 1 \<le> MAX_BLOCKS"
    using assms by (auto simp: table_def active_blocks_def nat_add_distrib)
  show "length vs < length (st_blocks st)" "length vs < MAX_BLOCKS" using l le by auto
  have "map view (take (length vs + 1) (st_blocks st)) ! length vs = v" unfolding m by simp
  then show "view (st_blocks st ! length vs) = v" using l le by simp
qed

lemma table_update_last:
  assumes "table st (vs @ [v])" and "view b = v'"
  shows "table (update_block (length vs) b st) (vs @ [v'])"
  using assms table_last [OF assms(1)]
  by (auto simp: table_def active_blocks_def update_block_def take_update map_update list_update_append nat_add_distrib)

lemma piece_table:
  assumes t: "table st (vs @ [item_view it s])" and d: "no_nul d" and len: "length (s @ d) \<le> MAX_BLOCK_SIZE"
  shows "\<exists>st'. handle_event st (json_text (ev_piece (int (length vs)) it d)) w = (st', emit it d w)
    \<and> table st' (vs @ [item_view it (s @ d)])"
proof -
  let ?i = "int (length vs)" and ?e = "ev_piece (int (length vs)) it d"
  have room: "length vs < MAX_BLOCKS" and v: "view (st_blocks st ! length vs) = item_view it s"
    using table_last [OF t] by auto
  have acc: "access_block ?i st = st" using t room by (simp add: access_block_in table_def)
  have small: "\<bar>?i\<bar> < 2 ^ 31" "\<bar>?i\<bar> \<le> 2 ^ 53" using room by (simp_all add: MAX_BLOCKS_def)
  have wf: "wf_json ?e" using d small by (cases it) (simp_all add: wf_json_def)
  have ty: "item_string (Some ?e) ''type'' = Some ''content_block_delta''"
    by (cases it) (simp_all add: item_string_def)
  have idx: "event_index ?e = ?i"
    using small by (cases it) (simp_all add: event_index_jnum)
  show ?thesis
  proof (cases it)
    case (SText ds)
    let ?r = "add_text (Some d) (st_blocks st ! length vs) w"
    have r: "view (fst ?r) = item_view it (s @ d)" "snd ?r = emit it d w"
      using add_text_fits [of "st_blocks st ! length vs" d w] len v SText by (auto simp: view_def)
    have "handle_event st (json_text ?e) w = (update_block (length vs) (fst ?r) st, snd ?r)"
      unfolding run_event(2) [OF wf ty refl]
      using idx room acc SText by (simp add: handle_block_delta_def Let_def item_string_def split_beta)
    with table_update_last [OF t r(1)] r(2) show ?thesis by simp
  next
    case (STool tid name ds)
    let ?r = "add_partial (Some d) (st_blocks st ! length vs) w"
    have r: "view (fst ?r) = item_view it (s @ d)" "snd ?r = emit it d w"
      using add_partial_fits [of "st_blocks st ! length vs" d w] len v STool by (auto simp: view_def)
    have "handle_event st (json_text ?e) w = (update_block (length vs) (fst ?r) st, snd ?r)"
      unfolding run_event(2) [OF wf ty refl]
      using idx room acc STool by (simp add: handle_block_delta_def Let_def item_string_def split_beta)
    with table_update_last [OF t r(1)] r(2) show ?thesis by simp
  qed
qed

lemma pieces_table:
  assumes "table st (vs @ [item_view it s])" and "list_all no_nul ds" and "length (s @ concat ds) \<le> MAX_BLOCK_SIZE"
  shows "\<exists>st'. run_events (map (ev_piece (int (length vs)) it) ds) (st, w) = (st', emit it (concat ds) w)
    \<and> table st' (vs @ [item_view it (s @ concat ds)])"
  using assms
proof (induction ds arbitrary: st s w)
  case Nil
  then show ?case by (cases it) auto
next
  case (Cons d ds)
  obtain st1 where st1: "handle_event st (json_text (ev_piece (int (length vs)) it d)) w = (st1, emit it d w)"
    "table st1 (vs @ [item_view it (s @ d)])"
    using piece_table [OF Cons.prems(1), of d w] Cons.prems by auto
  obtain st' where "run_events (map (ev_piece (int (length vs)) it) ds) (st1, emit it d w)
      = (st', emit it (concat ds) (emit it d w))" "table st' (vs @ [item_view it ((s @ d) @ concat ds)])"
    using Cons.IH [OF st1(2)] Cons.prems by auto
  moreover have "emit it (concat ds) (emit it d w) = emit it (concat (d # ds)) w" by (cases it) auto
  ultimately show ?case using st1(1) by simp
qed

fun emit_items :: "sitem list \<Rightarrow> world \<Rightarrow> world" where
  "emit_items [] w = w"
| "emit_items (it # its) w = emit_items its (emit it (concat (pieces it)) w)"

lemma item_table:
  assumes t: "table st vs" and room: "length vs < MAX_BLOCKS" and ok: "item_ok it"
  shows "\<exists>st'. run_events (item_events (int (length vs)) it) (st, w) = (st', emit it (concat (pieces it)) w)
    \<and> table st' (vs @ [item_view it (concat (pieces it))])"
proof -
  obtain st1 where st1: "handle_event st (json_text (ev_start (int (length vs)) it)) w = (st1, w)"
    "table st1 (vs @ [item_view it []])"
    using start_table [OF assms] by blast
  have "list_all no_nul (pieces it)" "length ([] @ concat (pieces it)) \<le> MAX_BLOCK_SIZE"
    using ok by (cases it; simp)+
  then obtain st2 where st2: "run_events (map (ev_piece (int (length vs)) it) (pieces it)) (st1, w)
      = (st2, emit it (concat (pieces it)) w)" "table st2 (vs @ [item_view it (concat (pieces it))])"
    using pieces_table [OF st1(2)] by fastforce
  have small: "\<bar>int (length vs)\<bar> \<le> 2 ^ 53" using room by (simp add: MAX_BLOCKS_def)
  have wf: "wf_json (ev_stop (int (length vs)))"
    and ty: "item_string (Some (ev_stop (int (length vs)))) ''type'' = Some ''content_block_stop''"
    using small by (simp_all add: ev_stop_def wf_json_def item_string_def)
  have "handle_event st2 (json_text (ev_stop (int (length vs)))) w' = (st2, w')" for w'
    using run_event(3) [OF wf ty refl] .
  then show ?thesis using st1(1) st2 by (simp add: item_events_def)
qed

lemma message_table:
  assumes "table st vs" and "length vs + length its \<le> MAX_BLOCKS" and "list_all item_ok its"
  shows "\<exists>st'. run_events (message_events (int (length vs)) its) (st, w) = (st', emit_items its w)
    \<and> table st' (vs @ map (\<lambda>it. item_view it (concat (pieces it))) its)"
  using assms
proof (induction its arbitrary: st vs w)
  case Nil
  then show ?case by auto
next
  case (Cons it its)
  obtain st1 where st1: "run_events (item_events (int (length vs)) it) (st, w) = (st1, emit it (concat (pieces it)) w)"
    "table st1 (vs @ [item_view it (concat (pieces it))])"
    using item_table [OF Cons.prems(1)] Cons.prems by auto
  have "int (length (vs @ [item_view it (concat (pieces it))])) = int (length vs) + 1" by simp
  then obtain st' where "run_events (message_events (int (length vs) + 1) its) (st1, emit it (concat (pieces it)) w)
      = (st', emit_items its (emit it (concat (pieces it)) w))"
    "table st' (vs @ map (\<lambda>it. item_view it (concat (pieces it))) (it # its))"
    using Cons.IH [OF st1(2)] Cons.prems by (auto simp: add.commute)
  then show ?case using st1(1) by simp
qed

subsection \<open>The message\<close>

text \<open>The content object of one item; a tool call without a non-empty JSON input has none.\<close>

fun item_object :: "sitem \<Rightarrow> cjson option" where
  "item_object (SText ds) = Some (jobj None [jstr ''type'' ''text'', jstr ''text'' (concat ds)])"
| "item_object (STool tid name ds) =
     (case cJSON_Parse (Some (concat ds)) of
        None \<Rightarrow> None
      | Some input \<Rightarrow>
          if concat ds = [] \<or> cj_child input = [] then None
          else Some (jobj None [jstr ''type'' ''tool_use'', jstr ''id'' tid, jstr ''name'' name,
                      set_string (Some ''input'') input]))"

definition message_content :: "sitem list \<Rightarrow> cjson option" where
  "message_content its = map_option (jarr None) (those (map item_object its))"

lemma block_object_view:
  assumes "view b = item_view it (concat (pieces it))" and "item_ok it"
  shows "block_object b = item_object it" "b_type b \<noteq> []"
proof -
  show "block_object b = item_object it"
  proof (cases it)
    case (SText ds)
    with assms have "no_nul (concat ds)" by (auto simp: no_nul_def list_all_iff)
    with assms SText show ?thesis by (simp add: view_def block_object_def)
  next
    case (STool tid name ds)
    with assms show ?thesis
      by (auto simp: view_def block_object_def cJSON_GetArraySize_def Let_def split: option.split)
  qed
  show "b_type b \<noteq> []" using assms(1) by (cases it) (auto simp: view_def)
qed

lemma blocks_loop_those:
  "list_all (\<lambda>b. b_type b \<noteq> []) bs \<Longrightarrow>
   blocks_loop bs (jarr None xs) = map_option (\<lambda>ys. jarr None (xs @ ys)) (those (map block_object bs))"
  by (induction bs arbitrary: xs)
    (auto simp: option.map_comp comp_def split: option.split)

lemma content_of_table:
  assumes "table st (map (\<lambda>it. item_view it (concat (pieces it))) its)" and "list_all item_ok its"
  shows "blocks_to_content st = message_content its"
proof -
  have m: "map view (active_blocks st) = map (\<lambda>it. item_view it (concat (pieces it))) its"
    using assms(1) by (simp add: table_def)
  then have len: "length (active_blocks st) = length its" by (metis length_map)
  have nth: "view (active_blocks st ! k) = item_view (its ! k) (concat (pieces (its ! k)))"
    if "k < length its" for k
    using arg_cong [OF m, of "\<lambda>l. l ! k"] that len by simp
  have ok: "item_ok (its ! k)" if "k < length its" for k
    using assms(2) that by (simp add: list_all_length)
  have "map block_object (active_blocks st) = map item_object its"
    using block_object_view(1) [OF nth ok] len by (auto intro: nth_equalityI)
  moreover have "list_all (\<lambda>b. b_type b \<noteq> []) (active_blocks st)"
    using block_object_view(2) [OF nth ok] len by (simp add: list_all_length)
  ultimately show ?thesis
    using blocks_loop_those [of "active_blocks st" "[]"]
    by (simp add: blocks_to_content_def message_content_def)
qed

lemma events_wf:
  assumes "item_ok it" and "\<bar>i\<bar> \<le> 2 ^ 53"
  shows "list_all wf_json (item_events i it)"
  using assms by (cases it) (auto simp: item_events_def ev_stop_def wf_json_def list_all_iff)

lemma message_events_wf:
  "list_all item_ok its \<Longrightarrow> 0 \<le> i \<Longrightarrow> i + int (length its) \<le> 2 ^ 53 \<Longrightarrow> list_all wf_json (message_events i its)"
  by (induction its arbitrary: i) (auto simp: events_wf)

definition lines_fit :: "cjson list \<Rightarrow> bool" where
  "lines_fit es \<longleftrightarrow> list_all (\<lambda>e. length (json_text e) + 6 \<le> MAX_SSE_LINE) es"

lemma same_stream_content: "same_stream a b \<Longrightarrow> blocks_to_content a = blocks_to_content b"
  unfolding same_stream_def blocks_to_content_def active_blocks_def
  by (metis with_line_simps(3,4))

lemma with_head_content [simp]: "blocks_to_content (with_head h st) = blocks_to_content st"
  by (simp add: blocks_to_content_def active_blocks_def)

lemma stream_message:
  assumes w: "plain_world w" and its: "list_all item_ok its" "length its \<le> MAX_BLOCKS"
    and fit: "lines_fit (message_events 0 its)"
  shows "\<exists>st'. snd (on_chunk (wire_text (message_events 0 its)) (stream_zero, w)) = (st', emit_items its w)
    \<and> blocks_to_content st' = message_content its"
proof -
  let ?es = "message_events 0 its"
  have fits: "list_all event_fits ?es"
    using message_events_wf [of its 0] its fit
    by (simp add: MAX_BLOCKS_def lines_fit_def event_fits_def list_all_iff)
  have start: "line_start stream_zero" by (simp add: line_start_def stream_zero_def)
  have "table stream_zero []"
    by (simp add: table_def stream_zero_def active_blocks_def)
  then obtain s2 where s2: "run_events ?es (stream_zero, w) = (s2, emit_items its w)"
    "table s2 (map (\<lambda>it. item_view it (concat (pieces it))) its)"
    using message_table [of stream_zero "[]" its] its by auto
  obtain s1 where s1: "foldl (\<lambda>sw c. on_char c sw) (stream_zero, w) (wire_text ?es) = (s1, emit_items its w)"
    "same_stream s1 s2"
    using feed_wires [OF start fits, of w] s2(1) by auto
  have "blocks_to_content s1 = message_content its"
    using same_stream_content [OF s1(2)] content_of_table [OF s2(2) its(1)] by simp
  then show ?thesis by (simp add: on_chunk_plain_split w s1(1) Let_def)
qed

text \<open>
  \<^bold>\<open>C2\<close> End to end: a server streams any list of text and tool-call blocks, each as a start
  event, any number of deltas and a stop event, in \<^verbatim>\<open>data:\<close> lines, over a transport that cuts the
  bytes anywhere.  The content the agent stores is exactly the list sent: the concatenated text of
  each text block, id, name and parsed input of each tool call, in order, or nothing when a tool
  call has no non-empty JSON input; and the terminal shows the text as it arrived.  The hypotheses
  are the caps of the code: 64 blocks, 1 MB per block and per line, 63-character ids and names.
\<close>

theorem stream_end_to_end:
  assumes "plain_world w" and "list_all item_ok its" and "length its \<le> MAX_BLOCKS"
    and "lines_fit (message_events 0 its)" and "concat ptrs = wire_text (message_events 0 its)"
  shows "\<exists>st'. foldl (\<lambda>sw p. snd (on_chunk p sw)) (stream_zero, w) ptrs = (st', emit_items its w)
    \<and> blocks_to_content st' = message_content its"
  using chunks_concat [OF assms(1) head_len_ok_zero, of ptrs] stream_message [OF assms(1-4)] assms(5) by simp

lemma lines_fit_hi: "lines_fit (message_events 0 [SText [''h'', ''i'']])"
proof -
  have "length (show_nat 0) \<le> 1" by (rule length_show_nat_bound) simp_all
  then show ?thesis
    by (simp add: lines_fit_def item_events_def ev_stop_def member_text_def json_string_def show_int_def
        str_or_empty_def cstr_def MAX_SSE_LINE_def escape_char_def byte_def)
qed

theorem stream_end_to_end_witness:
  "\<exists>st'. snd (on_chunk (wire_text (message_events 0 [SText [''h'', ''i'']])) (stream_zero, calm_world))
       = (st', put_out ''hi'' calm_world)
    \<and> blocks_to_content st' = Some (jarr None [jobj None [jstr ''type'' ''text'', jstr ''text'' ''hi'']])"
  using stream_end_to_end [OF plain_calm _ _ lines_fit_hi, of "[wire_text (message_events 0 [SText [''h'', ''i'']])]"]
  by (simp add: MAX_BLOCKS_def MAX_BLOCK_SIZE_def message_content_def calm_world_def no_nul_def
      del: message_events.simps)

subsection \<open>What is never stored\<close>

text \<open>An object that is not a tool call with an empty (or no) input.\<close>

definition sound_item :: "cjson \<Rightarrow> bool" where
  "sound_item c \<longleftrightarrow> (item_string (Some c) ''type'' = Some ''tool_use'' \<longrightarrow>
     0 < cJSON_GetArraySize (cJSON_GetObjectItem (Some c) ''input''))"

lemma block_object_sound: "block_object b = Some c \<Longrightarrow> sound_item c"
  by (auto simp: block_object_def sound_item_def item_string_def Let_def cJSON_GetArraySize_def
      split: if_splits option.splits)

lemma blocks_loop_sound:
  "blocks_loop bs (jarr None xs) = Some c \<Longrightarrow> list_all sound_item xs \<Longrightarrow>
   \<exists>ys. c = jarr None ys \<and> list_all sound_item ys"
  by (induction bs arbitrary: xs) (auto split: if_splits option.splits dest: block_object_sound)

text \<open>
  \<^bold>\<open>C12\<close> Whatever the stream state, \<open>blocks_to_content\<close> never yields a content array with a
  tool call whose input is missing, malformed or empty: what would poison the session is not stored.
\<close>

theorem content_no_empty_tool:
  assumes "blocks_to_content st = Some c" and "item \<in> set (cj_child c)"
    and "item_string (Some item) ''type'' = Some ''tool_use''"
  shows "0 < cJSON_GetArraySize (cJSON_GetObjectItem (Some item) ''input'')"
  using assms blocks_loop_sound [of "active_blocks st" "[]" c]
  by (auto simp: blocks_to_content_def sound_item_def list_all_iff)

definition tool_stream :: stream_state_t where
  "tool_stream = stream_zero\<lparr>st_n := 1, st_blocks := [block_zero\<lparr>b_type := ''tool_use'', b_id := ''t1'', b_name := ''shell'',
     b_partial := buf_append buf_empty (json_text (jobj None [jstr ''cmd'' ''ls'']))\<rparr>]\<rparr>"

lemma tool_stream_content: "blocks_to_content tool_stream = Some (jarr None [jobj None [jstr ''type'' ''tool_use'',
    jstr ''id'' ''t1'', jstr ''name'' ''shell'', jobj (Some ''input'') [jstr ''cmd'' ''ls'']]])"
proof -
  have "wf_json (jobj None [jstr ''cmd'' ''ls''])" by (simp add: wf_json_def no_nul_def)
  from parse_json_text [OF this] show ?thesis
    by (simp add: blocks_to_content_def active_blocks_def tool_stream_def block_object_def block_zero_def
        buf_empty_def cJSON_GetArraySize_def)
qed

theorem content_no_empty_tool_witness:
  "0 < cJSON_GetArraySize (cJSON_GetObjectItem (Some (jobj None [jstr ''type'' ''tool_use'',
    jstr ''id'' ''t1'', jstr ''name'' ''shell'', jobj (Some ''input'') [jstr ''cmd'' ''ls'']])) ''input'')"
  by (rule content_no_empty_tool [OF tool_stream_content]) (simp_all add: item_string_def)

end
