(* ===== verification/Session.thy ===== *)
theory Session
  imports FileToolProps SseMessage
begin

section \<open>The session file (main.c)\<close>

text \<open>
  One JSON message per line in \<^verbatim>\<open>.sa_session.jsonl\<close>: appended to after every message, rewritten
  after compaction and healing, read back with \<^verbatim>\<open>--continue\<close>.
\<close>

subsection \<open>session\_append and session\_rewrite\<close>

text \<open>Appending to a file, made with mode 0644 if it is missing.\<close>

definition append_file :: "string \<Rightarrow> string \<Rightarrow> world \<Rightarrow> world" where
  "append_file path s w =
     (case w_files w path of
        None \<Rightarrow> put_file path \<lparr>content = s, mode = 420\<rparr> w
      | Some f \<Rightarrow> put_file path (f\<lparr>content := content f @ s\<rparr>) w)"

definition session_append :: "cjson option \<Rightarrow> world \<Rightarrow> world" where
  "session_append msg w =
     (let s = cJSON_PrintUnformatted msg;
          w = (if w_json w then put_out (s @ [LF]) w else w);
          (ok, w) = next_append_ok w
      in if ok then append_file SESSION_PATH (s @ [LF]) w else w)"

text \<open>What the loop writes: \<^verbatim>\<open>fputs\<close> and \<^verbatim>\<open>fputc\<close> for each message.\<close>

fun rewrite_lines :: "nat \<Rightarrow> nat \<Rightarrow> cjson option \<Rightarrow> string" where
  "rewrite_lines i 0 messages = []"
| "rewrite_lines i (Suc n) messages =
     cJSON_PrintUnformatted (cJSON_GetArrayItem messages (int i)) @ [LF] @ rewrite_lines (Suc i) n messages"

text \<open>A short write and a failing \<^verbatim>\<open>fclose\<close> are not noticed here.\<close>

definition session_rewrite :: "cjson option \<Rightarrow> world \<Rightarrow> world" where
  "session_rewrite messages w =
     (let body = rewrite_lines 0 (cJSON_GetArraySize messages) messages;
          (oc, w) = next_write (length body) w
      in case wo_tmp oc of
           None \<Rightarrow> w
         | Some x \<Rightarrow>
             let tmp = tmp_name SESSION_PATH x; w = put_file tmp \<lparr>content = [], mode = 384\<rparr> w in
             if \<not> wo_fdopen oc then unlink tmp w
             else
               let w = put_file tmp \<lparr>content = take (wo_wrote oc) body, mode = 384\<rparr> w
               in if \<not> wo_rename oc then unlink tmp w else rename tmp SESSION_PATH w)"

subsection \<open>compact\_clear\_tool\_results\<close>

definition cleared_text :: string where "cleared_text = ''[cleared]''"

text \<open>One item of the content of a message, and whether it was cleared.\<close>

definition clear_item :: "cjson \<Rightarrow> cjson \<times> nat" where
  "clear_item item =
     (if item_string (Some item) ''type'' \<noteq> Some ''tool_result'' then (item, 0)
      else case cJSON_GetObjectItem (Some item) ''content'' of
        None \<Rightarrow> (item, 0)
      | Some c \<Rightarrow>
          if \<not> cJSON_IsString (Some c) then (item, 0)
          else case cj_valuestring c of
            None \<Rightarrow> (item, 0)
          | Some cur \<Rightarrow>
              if 10 < length cur \<and> cur \<noteq> cleared_text
              then (update_item ''content'' (\<lambda>c. cJSON_SetValuestring c (Some cleared_text)) item, 1)
              else (item, 0))"

fun clear_items :: "cjson list \<Rightarrow> cjson list \<times> nat" where
  "clear_items [] = ([], 0)"
| "clear_items (x # xs) =
     (let (y, a) = clear_item x; (ys, b) = clear_items xs in (y # ys, a + b))"

definition clear_message :: "cjson \<Rightarrow> cjson \<times> nat" where
  "clear_message msg =
     (case cJSON_GetObjectItem (Some msg) ''content'' of
        None \<Rightarrow> (msg, 0)
      | Some c \<Rightarrow>
          if \<not> cJSON_IsArray (Some c) then (msg, 0)
          else
            let (items, n) = clear_items (cj_child c)
            in (update_item ''content'' (set_child items) msg, n))"

fun clear_messages :: "cjson list \<Rightarrow> cjson list \<times> nat" where
  "clear_messages [] = ([], 0)"
| "clear_messages (m # ms) =
     (let (m', a) = clear_message m; (ms', b) = clear_messages ms in (m' # ms', a + b))"

definition compact_clear_tool_results :: "cjson \<Rightarrow> int \<Rightarrow> cjson \<times> nat" where
  "compact_clear_tool_results messages keep_last_n =
     (let n = int (cJSON_GetArraySize (Some messages));
          keep_from = nat (if keep_last_n < n then n - keep_last_n else 0);
          (front, cleared) = clear_messages (take keep_from (cj_child messages))
      in (set_child (front @ drop keep_from (cj_child messages)) messages, cleared))"

subsection \<open>session\_load\<close>

definition chomp :: "string \<Rightarrow> string" where
  "chomp line = (if line \<noteq> [] \<and> last line = LF then butlast line else line)"

fun load_lines :: "string list \<Rightarrow> cjson \<Rightarrow> int \<Rightarrow> world \<Rightarrow> int \<times> (cjson \<times> world)" where
  "load_lines [] messages count w = (count, (messages, w))"
| "load_lines (line # ls) messages count w =
     (let line = chomp line in
      if line = [] then load_lines ls messages count w
      else case cJSON_Parse (Some (cstr line)) of
        None \<Rightarrow> load_lines ls messages count (put_err (''[session: malformed line skipped]'' @ [LF]) w)
      | Some msg \<Rightarrow> load_lines ls (cj_append_child messages msg) (count + 1) w)"

definition session_load :: "cjson \<Rightarrow> world \<Rightarrow> int \<times> (cjson \<times> world)" where
  "session_load messages w =
     (case read_file w SESSION_PATH of
        None \<Rightarrow> (- 1, (messages, w))
      | Some body \<Rightarrow> load_lines (getlines body) messages 0 w)"

subsection \<open>session\_prune\_empty\_tool\_use\<close>

text \<open>An assistant message whose only block is a tool call with no input.\<close>

definition poisoned :: "cjson option \<Rightarrow> bool" where
  "poisoned msg \<longleftrightarrow>
     item_string msg ''role'' = Some ''assistant''
     \<and> cJSON_IsArray (cJSON_GetObjectItem msg ''content'')
     \<and> cJSON_GetArraySize (cJSON_GetObjectItem msg ''content'') = 1
     \<and> (let b = cJSON_GetArrayItem (cJSON_GetObjectItem msg ''content'') 0
        in item_string b ''type'' = Some ''tool_use''
           \<and> cJSON_GetArraySize (cJSON_GetObjectItem b ''input'') = 0)"

text \<open>The message after it: its only block is a tool result.\<close>

definition paired_result :: "cjson option \<Rightarrow> bool" where
  "paired_result nxt \<longleftrightarrow>
     (let nc = cJSON_GetObjectItem nxt ''content''
      in cJSON_IsArray nc \<and> cJSON_GetArraySize nc = 1
         \<and> item_string (cJSON_GetArrayItem nc 0) ''type'' = Some ''tool_result'')"

text \<open>The loop from the last index down; the argument is the index plus 1.\<close>

fun prune_loop :: "nat \<Rightarrow> cjson \<Rightarrow> nat \<Rightarrow> cjson \<times> nat" where
  "prune_loop 0 messages removed = (messages, removed)"
| "prune_loop (Suc i) messages removed =
     (if poisoned (cJSON_GetArrayItem (Some messages) (int i)) then
        let messages = cJSON_DeleteItemFromArray messages (int i); removed = removed + 1 in
        if paired_result (cJSON_GetArrayItem (Some messages) (int i))
        then prune_loop i (cJSON_DeleteItemFromArray messages (int i)) (removed + 1)
        else prune_loop i messages removed
      else prune_loop i messages removed)"

definition session_prune_empty_tool_use :: "cjson \<Rightarrow> cjson \<times> nat" where
  "session_prune_empty_tool_use messages =
     prune_loop (cJSON_GetArraySize (Some messages)) messages 0"

subsection \<open>What was saved is what is loaded\<close>

definition session_text :: "cjson list \<Rightarrow> string" where
  "session_text ms = concat (map (\<lambda>m. json_text m @ [LF]) ms)"

text \<open>The session file holds the messages \<open>ms\<close>, one per line.\<close>

definition session_holds :: "world \<Rightarrow> cjson list \<Rightarrow> bool" where
  "session_holds w ms \<longleftrightarrow> (case read_file w SESSION_PATH of None \<Rightarrow> ms = [] | Some body \<Rightarrow> body = session_text ms)"

lemma session_text_simps [simp]:
  "session_text [] = []" "session_text (ms @ ns) = session_text ms @ session_text ns"
  "session_text (m # ms) = json_text m @ LF # session_text ms"
  by (simp_all add: session_text_def)

lemma holds_append:
  assumes "session_holds w ms" and "w_append_ok w = []"
  shows "session_holds (session_append (Some m) w) (ms @ [m])
    \<and> read_file (session_append (Some m) w) SESSION_PATH \<noteq> None \<and> w_append_ok (session_append (Some m) w) = []"
  using assms
  by (simp add: session_append_def next_append_ok_def append_file_def put_file_def print_text Let_def
      session_holds_def read_file_def put_out_def split: option.splits)

lemma holds_appends:
  assumes "session_holds w ms" and "w_append_ok w = []" and "read_file w SESSION_PATH \<noteq> None"
  shows "session_holds (foldl (\<lambda>w m. session_append (Some m) w) w ns) (ms @ ns)
    \<and> read_file (foldl (\<lambda>w m. session_append (Some m) w) w ns) SESSION_PATH \<noteq> None"
  using assms
proof (induction ns arbitrary: w ms)
  case (Cons m ns)
  from holds_append [OF Cons.prems(1,2), of m] Cons.IH [of "session_append (Some m) w" "ms @ [m]"] show ?case by simp
qed simp

lemma rewrite_lines_text:
  "i + n = length (cj_child a) \<Longrightarrow> rewrite_lines i n (Some a) = session_text (drop i (cj_child a))"
proof (induction n arbitrary: i)
  case (Suc n)
  then have "i < length (cj_child a)" by simp
  then show ?case
    using Suc by (simp add: cJSON_GetArrayItem_def print_text Cons_nth_drop_Suc [symmetric])
qed simp

text \<open>The outcome of a write that succeeds in every step.\<close>

definition write_succeeds :: "nat \<Rightarrow> world \<Rightarrow> bool" where
  "write_succeeds n w \<longleftrightarrow>
     (let oc = fst (next_write n w) in wo_tmp oc \<noteq> None \<and> wo_fdopen oc \<and> n \<le> wo_wrote oc \<and> wo_rename oc)"

lemma holds_rewrite:
  assumes "write_succeeds (length (session_text (cj_child a))) w"
  shows "session_holds (session_rewrite (Some a) w) (cj_child a)
    \<and> read_file (session_rewrite (Some a) w) SESSION_PATH \<noteq> None"
proof -
  let ?t = "session_text (cj_child a)"
  have body: "rewrite_lines 0 (cJSON_GetArraySize (Some a)) (Some a) = ?t"
    using rewrite_lines_text [of 0 "cJSON_GetArraySize (Some a)" a] by (simp add: cJSON_GetArraySize_def)
  obtain oc w1 where o: "next_write (length ?t) w = (oc, w1)" by (metis surj_pair)
  then obtain x where x: "wo_tmp oc = Some x" "wo_fdopen oc" "length ?t \<le> wo_wrote oc" "wo_rename oc"
    using assms by (auto simp: write_succeeds_def)
  have "SESSION_PATH \<noteq> tmp_name SESSION_PATH x" using tmp_name_other by metis
  with x o show ?thesis
    by (simp add: session_rewrite_def body Let_def rename_def put_file_def session_holds_def read_file_def)
qed

lemma getlines_line: "LF \<notin> set l \<Longrightarrow> getlines (l @ LF # s) = (l @ [LF]) # getlines s"
  by (induction l) auto

lemma load_lines_text:
  "list_all wf_json ms \<Longrightarrow>
   load_lines (getlines (session_text ms)) a n w = (n + int (length ms), (set_child (cj_child a @ ms) a, w))"
proof (induction ms arbitrary: a n)
  case Nil
  show ?case by (cases a) simp
next
  case (Cons m ms)
  have wf: "wf_json m" and one: "one_line (json_text m)"
    using Cons.prems json_text_line [of m] by (auto simp: wf_json_def)
  then have l: "LF \<notin> set (json_text m)" "json_text m \<noteq> []" "no_nul (json_text m)"
    by (simp_all add: one_line_def no_nul_def)
  have "load_lines (getlines (session_text (m # ms))) a n w
      = load_lines (getlines (session_text ms)) (cj_append_child a m) (n + 1) w"
    using l parse_json_text [OF wf] by (simp add: getlines_line chomp_def Let_def)
  also have "\<dots> = (n + 1 + int (length ms), (set_child (cj_child a @ m # ms) a, w))"
    using Cons by (cases a) (simp add: cj_append_child_def)
  finally show ?case by simp
qed

lemma load_holds:
  assumes "session_holds w ms" and "list_all wf_json ms" and "read_file w SESSION_PATH \<noteq> None"
  shows "session_load cJSON_CreateArray w = (int (length ms), (jarr None ms, w))"
  using assms load_lines_text [of ms "jarr None []" 0 w]
  by (auto simp: session_load_def session_holds_def jarr_def)

lemma rewrite_frame: "w_append_ok (session_rewrite a w) = w_append_ok w"
  by (simp add: session_rewrite_def put_file_def unlink_def rename_def next_write_def Let_def
      split: option.split list.split)

text \<open>
  \<^bold>\<open>C6\<close> The session survives: after \<open>session_rewrite\<close> of \<open>ms\<close> and \<open>session_append\<close> of each of
  \<open>ns\<close>, whatever strings the messages contain, \<open>session_load\<close> yields \<open>ms @ ns\<close> and their number, and
  reports no malformed line, provided the writes succeed.
\<close>

theorem session_roundtrip:
  assumes "list_all wf_json (ms @ ns)"
    and "write_succeeds (length (session_text ms)) w" and "w_append_ok w = []"
    and "w' = foldl (\<lambda>w m. session_append (Some m) w) (session_rewrite (Some (jarr None ms)) w) ns"
  shows "session_load cJSON_CreateArray w' = (int (length (ms @ ns)), (jarr None (ms @ ns), w'))"
proof -
  have "session_holds w' (ms @ ns) \<and> read_file w' SESSION_PATH \<noteq> None"
    unfolding assms(4) using assms(3) holds_rewrite [of "jarr None ms"] assms(2)
    by (intro holds_appends) (simp_all add: rewrite_frame)
  then show ?thesis using load_holds assms(1) by blast
qed

definition hello_msg :: cjson where
  "hello_msg = jobj None [jstr ''role'' ''user'', jstr ''text'' [QUOTE, LF]]"

lemma wf_hello [simp]: "wf_json hello_msg"
  by (simp add: hello_msg_def wf_json_def)

lemma write_succeeds_calm [simp]: "write_succeeds n calm_world"
  by (simp add: write_succeeds_def next_write_def calm_world_def)

theorem session_roundtrip_witness:
  "fst (snd (session_load cJSON_CreateArray
      (session_append (Some hello_msg) (session_rewrite (Some (jarr None [hello_msg])) calm_world))))
    = jarr None [hello_msg, hello_msg]"
  using session_roundtrip [of "[hello_msg]" "[hello_msg]" calm_world]
  by (simp add: calm_world_def [THEN arg_cong [of _ _ w_append_ok]])

text \<open>
  The write errors that \<open>session_rewrite\<close> does not look at: with a full disk, the temporary file
  that replaces the session is empty.
\<close>

lemma rewrite_loses_session:
  assumes "w_writes w = \<lparr>wo_tmp = Some x, wo_fdopen = True, wo_wrote = 0, wo_fclose = False, wo_rename = True\<rparr> # ws"
  shows "session_holds (session_rewrite (Some a) w) []"
proof -
  have "SESSION_PATH \<noteq> tmp_name SESSION_PATH x" using tmp_name_other by metis
  then show ?thesis using assms
    by (simp add: session_rewrite_def next_write_def Let_def rename_def put_file_def session_holds_def read_file_def)
qed

subsection \<open>Compaction\<close>

lemma set_valuestring_key [simp]: "cj_string (cJSON_SetValuestring c v) = cj_string c"
  by (cases c) (simp add: cJSON_SetValuestring_def)

lemma set_child_key [simp]: "cj_string (set_child xs c) = cj_string c"
  by (cases c) simp

lemma item_string_update:
  "(\<And>c. cj_string (f c) = cj_string c) \<Longrightarrow> k \<noteq> k' \<Longrightarrow>
   item_string (Some (update_item k f j)) k' = item_string (Some j) k'"
  by (simp add: item_string_def get_update_item)

lemma clear_item_other: "k \<noteq> ''content'' \<Longrightarrow> item_string (Some (fst (clear_item x))) k = item_string (Some x) k"
  by (simp add: clear_item_def item_string_update split: option.split)

text \<open>A cleared item is not cleared again; an item that is not cleared is unchanged.\<close>

lemma clear_item_again: "clear_item (fst (clear_item x)) = (fst (clear_item x), 0)"
proof (cases "snd (clear_item x) = 0")
  case True
  then have "fst (clear_item x) = x" by (auto simp: clear_item_def split: option.splits if_splits)
  with True show ?thesis by (metis surjective_pairing)
next
  case False
  then obtain c where x: "item_string (Some x) ''type'' = Some ''tool_result''"
    "cJSON_GetObjectItem (Some x) ''content'' = Some c" "cJSON_IsString (Some c)"
    "fst (clear_item x) = update_item ''content'' (\<lambda>c. cJSON_SetValuestring c (Some cleared_text)) x"
    by (auto simp: clear_item_def split: option.splits if_splits)
  then have "cJSON_GetObjectItem (Some (fst (clear_item x))) ''content'' = Some (cJSON_SetValuestring c (Some cleared_text))"
    by (simp add: get_update_item)
  moreover have "cj_valuestring (cJSON_SetValuestring c (Some cleared_text)) = Some cleared_text"
    using x(3) by (cases c) (simp add: cJSON_SetValuestring_def cJSON_IsString_def)
  ultimately show ?thesis by (simp add: clear_item_def [of "fst (clear_item x)"])
qed

lemma clear_items_map: "fst (clear_items xs) = map (fst \<circ> clear_item) xs" "snd (clear_items xs) = sum_list (map (snd \<circ> clear_item) xs)"
  by (induction xs) (simp_all add: split_beta Let_def)

lemma clear_messages_map: "fst (clear_messages ms) = map (fst \<circ> clear_message) ms"
  "snd (clear_messages ms) = sum_list (map (snd \<circ> clear_message) ms)"
  by (induction ms) (simp_all add: split_beta Let_def)

lemma update_key_twice:
  "(\<And>c. cj_string (g c) = cj_string c) \<Longrightarrow> update_key k f (update_key k g xs) = update_key k (f \<circ> g) xs"
  by (induction xs) simp_all

lemma update_item_twice:
  "(\<And>c. cj_string (g c) = cj_string c) \<Longrightarrow> update_item k f (update_item k g j) = update_item k (f \<circ> g) j"
  by (cases j) (simp add: update_item_def update_key_twice)

lemma set_child_twice: "set_child xs \<circ> set_child ys = set_child xs"
proof
  show "(set_child xs \<circ> set_child ys) j = set_child xs j" for j by (cases j) simp
qed

lemma clear_message_role: "k \<noteq> ''content'' \<Longrightarrow> item_string (Some (fst (clear_message m))) k = item_string (Some m) k"
  by (simp add: clear_message_def item_string_update split_beta Let_def split: option.split)

text \<open>The content of a message after clearing: the items cleared one by one.\<close>

definition items_of :: "cjson \<Rightarrow> cjson list" where
  "items_of m =
     (case cJSON_GetObjectItem (Some m) ''content'' of
        None \<Rightarrow> [] | Some c \<Rightarrow> if cJSON_IsArray (Some c) then cj_child c else [])"

lemma clear_message_content:
  "items_of (fst (clear_message m)) = map (fst \<circ> clear_item) (items_of m)"
  "snd (clear_message m) = sum_list (map (snd \<circ> clear_item) (items_of m))"
proof -
  have child: "cj_child (set_child xs c) = xs" "cJSON_IsArray (Some (set_child xs c)) = cJSON_IsArray (Some c)" for xs c
    by (cases c; simp add: cJSON_IsArray_def)+
  show "items_of (fst (clear_message m)) = map (fst \<circ> clear_item) (items_of m)"
    by (auto simp: items_of_def clear_message_def get_update_item split_beta Let_def clear_items_map child
        split: option.split)
  show "snd (clear_message m) = sum_list (map (snd \<circ> clear_item) (items_of m))"
    by (simp add: items_of_def clear_message_def split_beta Let_def clear_items_map split: option.split)
qed

lemma clear_message_again: "clear_message (fst (clear_message m)) = (fst (clear_message m), 0)"
proof -
  have items: "map (fst \<circ> clear_item) (map (fst \<circ> clear_item) xs) = map (fst \<circ> clear_item) xs" for xs
    by (simp add: clear_item_again)
  have zero: "snd (clear_message (fst (clear_message m))) = 0"
    by (simp add: clear_message_content clear_item_again)
  have "fst (clear_message (fst (clear_message m))) = fst (clear_message m)"
  proof (cases "cJSON_GetObjectItem (Some m) ''content''")
    case None
    then show ?thesis by (simp add: clear_message_def)
  next
    case (Some c)
    show ?thesis
    proof (cases "cJSON_IsArray (Some c)")
      case False
      with Some show ?thesis by (simp add: clear_message_def)
    next
      case True
      let ?f = "set_child (map (fst \<circ> clear_item) (cj_child c))"
      have m: "fst (clear_message m) = update_item ''content'' ?f m"
        using Some True by (simp add: clear_message_def split_beta Let_def clear_items_map)
      have "cJSON_GetObjectItem (Some (fst (clear_message m))) ''content'' = Some (?f c)"
        using Some by (simp add: m get_update_item)
      moreover have "cJSON_IsArray (Some (?f c))" "cj_child (?f c) = map (fst \<circ> clear_item) (cj_child c)"
        using True by (cases c; simp add: cJSON_IsArray_def)+
      ultimately have "fst (clear_message (fst (clear_message m))) = update_item ''content'' ?f (fst (clear_message m))"
        using items [of "cj_child c"]
        by (simp add: clear_message_def [of "fst (clear_message m)"] split_beta Let_def clear_items_map del: map_map)
      then show ?thesis by (simp add: m update_item_twice set_child_twice)
    qed
  qed
  with zero show ?thesis by (metis surjective_pairing)
qed

text \<open>What clearing leaves of a message: everything but the texts of its long tool results.\<close>

definition blank :: "cjson \<Rightarrow> cjson" where
  "blank m = fst (clear_message m)"

lemma blank_blank [simp]: "blank (blank m) = blank m"
  by (simp add: blank_def clear_message_again)

lemma clear_blank [simp]: "snd (clear_message (blank m)) = 0"
  by (simp add: blank_def clear_message_again)

text \<open>The identifiers of the tool calls and of the tool results in a message, in order.\<close>

definition ids_of :: "string \<Rightarrow> string \<Rightarrow> cjson \<Rightarrow> string option list" where
  "ids_of ty key m = map (\<lambda>b. item_string (Some b) key) (filter (\<lambda>b. item_string (Some b) ''type'' = Some ty) (items_of m))"

lemma ids_of_blank [simp]: "key \<noteq> ''content'' \<Longrightarrow> ids_of ty key (blank m) = ids_of ty key m"
  by (simp add: ids_of_def blank_def clear_message_content filter_map comp_def clear_item_other)

definition keep_from :: "cjson list \<Rightarrow> int \<Rightarrow> nat" where
  "keep_from ms k = nat (if k < int (length ms) then int (length ms) - k else 0)"

lemma compact_list:
  "compact_clear_tool_results (jarr None ms) k =
     (jarr None (map blank (take (keep_from ms k) ms) @ drop (keep_from ms k) ms),
      sum_list (map (snd \<circ> clear_message) (take (keep_from ms k) ms)))"
  by (simp add: compact_clear_tool_results_def keep_from_def cJSON_GetArraySize_def jarr_def split_beta Let_def
      clear_messages_map comp_def blank_def)

lemma compact_blank: "map blank (cj_child (fst (compact_clear_tool_results (jarr None ms) k))) = map blank ms"
proof -
  have "map blank (map blank (take n ms) @ drop n ms) = map blank (take n ms @ drop n ms)" for n
    unfolding map_append by simp
  then show ?thesis unfolding compact_list by simp
qed

lemma compact_again:
  assumes "0 \<le> k"
  shows "compact_clear_tool_results (fst (compact_clear_tool_results (jarr None ms) k)) k
    = (fst (compact_clear_tool_results (jarr None ms) k), 0)"
proof -
  define n where "n = keep_from ms k"
  have n: "n \<le> length ms" using assms by (auto simp: n_def keep_from_def)
  define front where "front = take n ms"
  define rear where "rear = drop n ms"
  have front: "length front = n" using n by (simp add: front_def)
  have c: "fst (compact_clear_tool_results (jarr None ms) k) = jarr None (map blank front @ rear)"
    by (simp add: compact_list n_def front_def rear_def)
  have "length (map blank front @ rear) = length ms" using n by (simp add: front_def rear_def)
  then have k: "keep_from (map blank front @ rear) k = n" by (simp only: keep_from_def n_def)
  show ?thesis unfolding c by (simp add: compact_list [of "map blank front @ rear"] k front comp_def)
qed

text \<open>
  \<^bold>\<open>C16\<close> Compaction: \<open>compact_clear_tool_results\<close> leaves the number of messages, the last \<open>k\<close>
  messages, and in every other message the role, the identifiers of the tool calls and of the tool
  results in their order, and all but the texts of the tool results; and a second compaction
  finds nothing to clear, so the retry after it cannot repeat for ever.
\<close>

theorem compaction:
  assumes "0 \<le> k" and "compact_clear_tool_results (jarr None ms) k = (a, n)"
  shows "length (cj_child a) = length ms \<and> drop (length ms - nat k) (cj_child a) = drop (length ms - nat k) ms
    \<and> map (\<lambda>m. item_string (Some m) ''role'') (cj_child a) = map (\<lambda>m. item_string (Some m) ''role'') ms
    \<and> map (ids_of ''tool_use'' ''id'') (cj_child a) = map (ids_of ''tool_use'' ''id'') ms
    \<and> map (ids_of ''tool_result'' ''tool_use_id'') (cj_child a) = map (ids_of ''tool_result'' ''tool_use_id'') ms
    \<and> map blank (cj_child a) = map blank ms
    \<and> compact_clear_tool_results a k = (a, 0)"
proof -
  have a: "a = fst (compact_clear_tool_results (jarr None ms) k)" using assms(2) by simp
  have blank: "map blank (cj_child a) = map blank ms" unfolding a by (rule compact_blank)
  have role: "item_string (Some (blank m)) ''role'' = item_string (Some m) ''role''" for m
    by (simp add: blank_def clear_message_role)
  have by_blank: "map g (cj_child a) = map g ms" if "\<And>m. g (blank m) = g m" for g :: "cjson \<Rightarrow> 'z"
  proof -
    have "map g (cj_child a) = map g (map blank (cj_child a))" by (simp add: that)
    also have "\<dots> = map g ms" unfolding blank by (simp add: that)
    finally show ?thesis .
  qed
  have len: "length (cj_child a) = length ms" using blank map_eq_imp_length_eq by blast
  have keep: "keep_from ms k = length ms - nat k" using assms(1) by (simp add: keep_from_def nat_diff_distrib')
  have "drop (length ms - nat k) (cj_child a) = drop (length ms - nat k) ms"
    unfolding a compact_list keep by simp
  moreover have "compact_clear_tool_results a k = (a, 0)" unfolding a by (rule compact_again [OF assms(1)])
  ultimately show ?thesis
    using len blank by_blank [of "\<lambda>m. item_string (Some m) ''role''"] role by_blank [of "ids_of ''tool_use'' ''id''"]
      by_blank [of "ids_of ''tool_result'' ''tool_use_id''"] by simp
qed

definition result_msg :: "string \<Rightarrow> cjson" where
  "result_msg t = jobj None [jstr ''role'' ''user'', jarr (Some ''content'')
     [jobj None [jstr ''type'' ''tool_result'', jstr ''tool_use_id'' ''i1'', jstr ''content'' t]]]"

theorem compaction_witness:
  "compact_clear_tool_results (fst (compact_clear_tool_results
     (jarr None [result_msg ''a long result'', hello_msg]) 1)) 1
   = (jarr None [result_msg cleared_text, hello_msg], 0)"
proof -
  have "compact_clear_tool_results (jarr None [result_msg ''a long result'', hello_msg]) 1
      = (jarr None [result_msg cleared_text, hello_msg], 1)"
    by (simp add: compact_clear_tool_results_def jarr_def cJSON_GetArraySize_def result_msg_def clear_message_def
        jobj_def jstr_def item_string_def cJSON_GetObjectItem_def cJSON_GetStringValue_def cJSON_IsArray_def
        clear_item_def cJSON_IsString_def cleared_text_def update_item_def cJSON_SetValuestring_def)
  from compaction [OF _ this] this show ?thesis by simp
qed

subsection \<open>Healing\<close>

text \<open>
  The reference: from the end, a poisoned message goes, and with it the message that then follows
  if that is a single tool result.
\<close>

fun heal :: "cjson list \<Rightarrow> cjson list" where
  "heal [] = []"
| "heal (m # ms) =
     (let rest = heal ms in
      if poisoned (Some m)
      then (if rest \<noteq> [] \<and> paired_result (Some (hd rest)) then tl rest else rest)
      else m # rest)"

lemma array_item_nth [simp]:
  "cJSON_GetArrayItem (Some (jarr ko xs)) (int i) = (if i < length xs then Some (xs ! i) else None)"
  by (simp add: cJSON_GetArrayItem_def)

lemma delete_item [simp]:
  "cJSON_DeleteItemFromArray (jarr ko xs) (int i) = jarr ko (remove_nth i xs)"
  by (simp add: cJSON_DeleteItemFromArray_def jarr_def remove_nth_beyond)
    (simp add: cJSON_GetArrayItem_def remove_nth_beyond)

lemma not_paired_None [simp]: "\<not> paired_result None"
  by (simp add: paired_result_def cJSON_GetObjectItem_def cJSON_IsArray_def Let_def)

lemma prune_loop_heal:
  "prune_loop (length front) (jarr None (front @ heal rear)) n
   = (jarr None (heal (front @ rear)), n + length (front @ heal rear) - length (heal (front @ rear)))
   \<and> length (heal (front @ rear)) \<le> length (front @ heal rear)"
proof (induction front arbitrary: rear n rule: rev_induct)
  case Nil
  show ?case by simp
next
  case (snoc m front)
  let ?r = "heal rear" and ?p = "heal (m # rear)"
  have step: "prune_loop (length (front @ [m])) (jarr None ((front @ [m]) @ ?r)) n
      = prune_loop (length front) (jarr None (front @ ?p)) (n + length (m # ?r) - length ?p)"
    by (cases ?r) (simp_all add: Let_def nth_append)
  have "length ?p \<le> length (m # ?r)" by (cases ?r) (simp_all add: Let_def)
  moreover have "length (heal (front @ m # rear)) \<le> length (front @ ?p)"
    using snoc.IH [of "m # rear"] by blast
  ultimately show ?case using snoc.IH [of "m # rear"] unfolding step by simp
qed

lemma heal_clean: "m \<in> set (heal ms) \<Longrightarrow> \<not> poisoned (Some m) \<and> m \<in> set ms"
proof (induction ms)
  case (Cons x ms)
  then show ?case by (auto simp: Let_def dest: list.set_sel(2) split: if_splits)
qed simp

lemma heal_length: "length (heal ms) \<le> length ms"
  by (induction ms) (auto simp: Let_def)

lemma heal_nothing: "\<forall>m \<in> set ms. \<not> poisoned (Some m) \<Longrightarrow> heal ms = ms"
  by (induction ms) simp_all

text \<open>
  Healing a resumed session: \<open>session_prune_empty_tool_use\<close>, whose loop deletes from the
  list it walks, computes \<open>heal\<close>; no message it leaves is a lone tool call with empty input, every
  message it leaves was there, the count it returns is the number of messages dropped, and a
  session without such calls is unchanged.
\<close>

lemma prune_heals:
  assumes "session_prune_empty_tool_use (jarr None ms) = (a, n)"
  shows "a = jarr None (heal ms) \<and> n = length ms - length (heal ms)
    \<and> (\<forall>m \<in> set (heal ms). \<not> poisoned (Some m) \<and> m \<in> set ms)
    \<and> (heal ms = ms \<longleftrightarrow> (\<forall>m \<in> set ms. \<not> poisoned (Some m)))"
proof -
  have "prune_loop (length ms) (jarr None ms) 0 = (jarr None (heal ms), length ms - length (heal ms))"
    using prune_loop_heal [of ms "[]" 0] by simp
  then have "a = jarr None (heal ms) \<and> n = length ms - length (heal ms)"
    using assms by (simp add: session_prune_empty_tool_use_def cJSON_GetArraySize_def)
  moreover have "\<forall>m \<in> set (heal ms). \<not> poisoned (Some m) \<and> m \<in> set ms" using heal_clean by blast
  moreover have "heal ms = ms \<longleftrightarrow> (\<forall>m \<in> set ms. \<not> poisoned (Some m))" using heal_clean heal_nothing by metis
  ultimately show ?thesis by blast
qed

definition empty_call :: cjson where
  "empty_call = jobj None [jstr ''role'' ''assistant'', jarr (Some ''content'')
     [jobj None [jstr ''type'' ''tool_use'', jstr ''id'' ''i1'', jobj (Some ''input'') []]]]"

lemma heal_example: "heal [hello_msg, empty_call, result_msg ''r'', hello_msg] = [hello_msg, hello_msg]"
  by (simp add: hello_msg_def empty_call_def result_msg_def poisoned_def paired_result_def item_string_def
      cJSON_GetArraySize_def cJSON_IsArray_def cJSON_GetArrayItem_def Let_def)

lemma prune_heals_witness:
  "session_prune_empty_tool_use (jarr None [hello_msg, empty_call, result_msg ''r'', hello_msg])
   = (jarr None [hello_msg, hello_msg], 2)"
proof -
  obtain a n where p: "session_prune_empty_tool_use (jarr None [hello_msg, empty_call, result_msg ''r'', hello_msg]) = (a, n)"
    by (metis surj_pair)
  from prune_heals [OF p] p show ?thesis by (simp only: heal_example) simp
qed

end
