(* ===== verification/Url.thy ===== *)
theory Url
  imports World
begin

section \<open>Numbers and URLs in text (main.c, with the C library's strtol, atoi and sscanf)\<close>

text \<open>
  \<^verbatim>\<open>strtol\<close>, \<^verbatim>\<open>atoi\<close> and the scan of a status line as the C standard defines them, and
  \<open>parse_url\<close> with the bounds of its output buffers.
\<close>

subsection \<open>strtol\<close>

definition is_space :: "char \<Rightarrow> bool" where
  "is_space c \<longleftrightarrow> byte c = 32 \<or> (9 \<le> byte c \<and> byte c \<le> 13)"

definition digit_in :: "nat \<Rightarrow> char \<Rightarrow> nat option" where
  "digit_in b c =
     (let d = (if is_digit c then byte c - 48
               else if 97 \<le> byte c \<and> byte c \<le> 122 then byte c - 87
               else if 65 \<le> byte c \<and> byte c \<le> 90 then byte c - 55 else 36)
      in if d < b then Some d else None)"

fun digits_value :: "nat \<Rightarrow> nat \<Rightarrow> string \<Rightarrow> nat" where
  "digits_value b acc [] = acc"
| "digits_value b acc (c # s) =
     (case digit_in b c of None \<Rightarrow> acc | Some d \<Rightarrow> digits_value b (b * acc + d) s)"

text \<open>The value saturates at \<^verbatim>\<open>LONG_MAX\<close> and \<^verbatim>\<open>LONG_MIN\<close>; base 16 allows a \<^verbatim>\<open>0x\<close>.\<close>

definition skip_0x :: "nat \<Rightarrow> string \<Rightarrow> string" where
  "skip_0x b s =
     (if b = 16 \<and> 3 \<le> length s \<and> s ! 0 = CHR ''0'' \<and> (s ! 1 = CHR ''x'' \<or> s ! 1 = CHR ''X'')
         \<and> digit_in 16 (s ! 2) \<noteq> None then drop 2 s else s)"

definition strtol :: "nat \<Rightarrow> string \<Rightarrow> int" where
  "strtol b s =
     (let s1 = dropWhile is_space s;
          neg = (s1 \<noteq> [] \<and> hd s1 = CHR ''-'');
          s2 = (if s1 \<noteq> [] \<and> (hd s1 = CHR ''-'' \<or> hd s1 = CHR ''+'') then tl s1 else s1);
          v = int (digits_value b 0 (skip_0x b s2))
      in if neg then max (- v) (- (2 ^ 63)) else min v (2 ^ 63 - 1))"

text \<open>\<^verbatim>\<open>atoi\<close> is \<^verbatim>\<open>(int)strtol(s, NULL, 10)\<close>.\<close>

definition to_int32 :: "int \<Rightarrow> int" where
  "to_int32 v = (v + 2 ^ 31) mod 2 ^ 32 - 2 ^ 31"

definition atoi :: "string \<Rightarrow> int" where
  "atoi s = to_int32 (strtol 10 s)"

lemma to_int32_id: "- (2 ^ 31) \<le> v \<Longrightarrow> v < 2 ^ 31 \<Longrightarrow> to_int32 v = v"
  by (simp add: to_int32_def)

lemma to_int32_range: "- (2 ^ 31) \<le> to_int32 v \<and> to_int32 v < 2 ^ 31"
  by (simp add: to_int32_def)

lemma strtol_range: "- (2 ^ 63) \<le> strtol b s \<and> strtol b s < 2 ^ 63"
  by (auto simp: strtol_def Let_def)

lemma digit_in_digit: "is_digit c \<Longrightarrow> digit_in 10 c = Some (digit_val c)"
proof -
  assume d: "is_digit c"
  then have "byte c - 48 < 10" by (auto simp: is_digit_def)
  with d show ?thesis by (simp add: digit_in_def digit_val_def)
qed

lemma digits_value_digits:
  "\<forall>c \<in> set ds. is_digit c \<Longrightarrow> r = [] \<or> digit_in 10 (hd r) = None \<Longrightarrow>
   digits_value 10 acc (ds @ r) = foldl (\<lambda>n c. 10 * n + digit_val c) acc ds"
proof (induction ds arbitrary: acc)
  case Nil
  then show ?case by (cases r) auto
next
  case (Cons c ds)
  then have "digit_in 10 c = Some (digit_val c)" by (intro digit_in_digit) simp
  with Cons show ?case by simp
qed

lemma is_digit_facts: "is_digit c \<Longrightarrow> \<not> is_space c \<and> c \<noteq> CHR ''-'' \<and> c \<noteq> CHR ''+''"
  by (auto simp: is_digit_def is_space_def byte_def)

lemma strtol_show_nat:
  assumes "r = [] \<or> digit_in 10 (hd r) = None" and "int n < 2 ^ 63"
  shows "strtol 10 (show_nat n @ r) = int n"
proof -
  obtain c s where s: "show_nat n = c # s" by (cases "show_nat n") auto
  then have "is_digit c" using show_nat_digits [of c n] by simp
  moreover have "digits_value 10 0 (show_nat n @ r) = n"
    using digits_value_digits [of "show_nat n" r 0] assms(1) show_nat_digits dec_val_show_nat [of n]
    by (simp add: dec_val_def)
  ultimately show ?thesis
    using assms(2) is_digit_facts [of c] by (simp add: strtol_def s skip_0x_def)
qed

lemma strtol_space: "is_space c \<Longrightarrow> strtol b (c # s) = strtol b s"
  by (simp add: strtol_def)

subsection \<open>sscanf\<close>

text \<open>One \<^verbatim>\<open>%d\<close>: white space, a sign, at least one digit.  The value is that of \<^verbatim>\<open>strtol\<close>, cut to int.\<close>

definition scan_int :: "string \<Rightarrow> (int \<times> string) option" where
  "scan_int s =
     (let s1 = dropWhile is_space s;
          s2 = (if s1 \<noteq> [] \<and> (hd s1 = CHR ''-'' \<or> hd s1 = CHR ''+'') then tl s1 else s1)
      in if s2 = [] \<or> \<not> is_digit (hd s2) then None
         else Some (to_int32 (strtol 10 s1), dropWhile is_digit s2))"

text \<open>\<^verbatim>\<open>sscanf(hdr, "HTTP/1.%*d %d", status)\<close>.\<close>

definition scan_status :: "string \<Rightarrow> int option" where
  "scan_status hdr =
     (if \<not> starts ''HTTP/1.'' hdr then None
      else case scan_int (drop 7 hdr) of
        None \<Rightarrow> None
      | Some (_, s) \<Rightarrow> map_option fst (scan_int (dropWhile is_space s)))"

subsection \<open>parse\_url\<close>

text \<open>\<^verbatim>\<open>host_sz\<close> and \<^verbatim>\<open>path_sz\<close> are the sizes of the caller's arrays; the result is host, port, path.\<close>

definition host_end :: "string \<Rightarrow> string \<times> string option" where
  "host_end p = (case strchr p (CHR ''/'') of
     Some slash \<Rightarrow> (take (length p - length slash) p, Some slash) | None \<Rightarrow> (p, None))"

definition parse_url :: "string \<Rightarrow> nat \<Rightarrow> nat \<Rightarrow> (string \<times> int \<times> string) option" where
  "parse_url url host_sz path_sz =
     (if \<not> starts ''https://'' url then None
      else
        let (h, slash) = host_end (drop 8 url); hostlen = length h in
        if hostlen = 0 \<or> host_sz \<le> hostlen then None
        else
          let path = fit path_sz (case slash of Some s \<Rightarrow> s | None \<Rightarrow> ''/'') in
          (case strchr h (CHR '':'') of
             None \<Rightarrow> Some (h, 443, path)
           | Some colon \<Rightarrow>
               let port = atoi (tl colon) in
               if port \<le> 0 \<or> 65535 < port then None
               else Some (take (hostlen - length colon) h, port, path)))"

text \<open>The parts of a URL with an explicit port, and of one without.\<close>

definition host_ok :: "string \<Rightarrow> bool" where
  "host_ok h \<longleftrightarrow> CHR ''/'' \<notin> set h \<and> CHR '':'' \<notin> set h"

definition path_ok :: "string \<Rightarrow> bool" where
  "path_ok p \<longleftrightarrow> p \<noteq> [] \<and> hd p = CHR ''/''"

lemma strchr_append: "c \<notin> set a \<Longrightarrow> strchr (a @ b) c = strchr b c"
  by (induction a) auto

lemma show_nat_no_char: "\<not> is_digit c \<Longrightarrow> c \<notin> set (show_nat n)"
  using show_nat_digits by blast

lemma host_end_path: "CHR ''/'' \<notin> set h \<Longrightarrow> path_ok p \<Longrightarrow> host_end (h @ p) = (h, Some p)"
  by (cases p) (auto simp: host_end_def strchr_append path_ok_def)

lemma host_end_noslash: "host_end p = (h, s) \<Longrightarrow> CHR ''/'' \<notin> set h"
proof (cases "strchr p (CHR ''/'')")
  case (Some r)
  then obtain a b where "p = a @ r" "r = CHR ''/'' # b" "CHR ''/'' \<notin> set a" by (auto simp: strchr_Some)
  moreover assume "host_end p = (h, s)"
  ultimately show ?thesis using Some by (simp add: host_end_def)
qed (auto simp: host_end_def strchr_None)

lemma parse_url_ported:
  assumes "host_ok h" and "path_ok p" and "0 < port" and "port \<le> 65535"
    and "length h + 1 + length (show_nat port) < host_sz" and "length p < path_sz"
  shows "parse_url (''https://'' @ h @ '':'' @ show_nat port @ p) host_sz path_sz = Some (h, int port, p)"
proof -
  let ?hp = "h @ '':'' @ show_nat port"
  have sl: "CHR ''/'' \<notin> set ?hp"
    using assms(1) show_nat_no_char [of "CHR ''/''" port] by (simp add: host_ok_def is_digit_def byte_def)
  have co: "strchr ?hp (CHR '':'') = Some (CHR '':'' # show_nat port)"
    using assms(1) by (simp add: host_ok_def strchr_append)
  have "atoi (show_nat port) = int port"
    using assms(4) strtol_show_nat [of "[]" port] by (simp add: atoi_def to_int32_id)
  then show ?thesis
    using host_end_path [OF sl assms(2)] co assms by (simp add: parse_url_def starts_def fit_id)
qed

lemma parse_url_default:
  assumes "host_ok h" and "h \<noteq> []" and "path_ok p" and "length h < host_sz" and "length p < path_sz"
  shows "parse_url (''https://'' @ h @ p) host_sz path_sz = Some (h, 443, p)"
proof -
  have "host_end (h @ p) = (h, Some p)" using assms(1,3) by (intro host_end_path) (auto simp: host_ok_def)
  moreover have "strchr h (CHR '':'') = None" using assms(1) by (simp add: host_ok_def strchr_None)
  ultimately show ?thesis using assms by (simp add: parse_url_def starts_def fit_id)
qed

text \<open>
  Whatever the URL, a host and path that \<open>parse_url\<close> hands out fit the caller's arrays
  with their terminators, the host has neither a slash nor a colon, and the port is in 1..65535.
\<close>

lemma parse_url_bounds:
  assumes "parse_url url host_sz path_sz = Some (h, port, p)" and "0 < path_sz"
  shows "length h < host_sz \<and> length p < path_sz \<and> host_ok h \<and> 1 \<le> port \<and> port \<le> 65535"
proof -
  obtain h0 slash where e: "host_end (drop 8 url) = (h0, slash)" by (metis surj_pair)
  have s0: "CHR ''/'' \<notin> set h0"
    using e by (rule host_end_noslash)
  have len: "length h0 < host_sz" "length p < path_sz"
    using assms e length_fit by (auto simp: parse_url_def Let_def split: if_splits option.splits)
  show ?thesis
  proof (cases "strchr h0 (CHR '':'')")
    case None
    then have "h = h0" "port = 443" using assms(1) e by (simp_all add: parse_url_def Let_def split: if_splits)
    then show ?thesis using None s0 len by (simp add: host_ok_def strchr_None)
  next
    case (Some colon)
    then obtain a b where ab: "h0 = a @ colon" "colon = CHR '':'' # b" "CHR '':'' \<notin> set a"
      by (auto simp: strchr_Some)
    then have "h = a" "1 \<le> port" "port \<le> 65535"
      using assms(1) e Some by (auto simp: parse_url_def Let_def split: if_splits)
    then show ?thesis using ab s0 len by (auto simp: host_ok_def)
  qed
qed

lemma parse_url_example:
  "parse_url ''https://api.kimi.com/coding'' 256 1024 = Some (''api.kimi.com'', 443, ''/coding'')"
  using parse_url_default [of "''api.kimi.com''" "''/coding''" 256 1024] by (simp add: host_ok_def path_ok_def)

lemma parse_url_bounds_witness:
  "length ''api.kimi.com'' < (256 :: nat) \<and> length ''/coding'' < (1024 :: nat)"
  using parse_url_bounds [OF parse_url_example] by simp

text \<open>
  \<open>parse_url\<close> recovers the parts of a URL written from them: host, explicit port, path.
\<close>

lemma parse_url_parts:
  assumes "host_ok h" and "path_ok p" and "0 < port" and "port \<le> 65535"
    and "length h + 6 < host_sz" and "length p < path_sz"
  shows "parse_url (''https://'' @ h @ '':'' @ show_nat port @ p) host_sz path_sz = Some (h, int port, p)"
proof -
  have "length (show_nat port) \<le> 5" using assms(4) by (intro length_show_nat_bound) auto
  then show ?thesis using assms by (intro parse_url_ported) auto
qed

lemma parse_url_parts_witness:
  "parse_url (''https://'' @ ''h'' @ '':'' @ show_nat 8443 @ ''/v1'') 256 1024 = Some (''h'', 8443, ''/v1'')"
  using parse_url_parts [of "''h''" "''/v1''" 8443 256 1024] by (simp add: host_ok_def path_ok_def)

end
