(* ===== verification/Http.thy ===== *)
theory Http
  imports Url SseMessage
begin

section \<open>Reading an HTTP response from the TLS connection (main.c)\<close>

text \<open>
  The header reader and the body reader of main.c, over any reader of decrypted bytes.
\<close>

abbreviation CRLF :: string where "CRLF \<equiv> [CR, LF]"

text \<open>
  The argument \<^verbatim>\<open>ioc\<close> of these functions is the reader \<open>rd\<close>: \<open>rd n s\<close> is what
  \<^verbatim>\<open>br_sslio_read(ioc, dst, n)\<close> does in state \<open>s\<close>: \<open>None\<close> for \<^verbatim>\<open>-1\<close>, else the bytes stored.
\<close>

type_synonym 's reader = "nat \<Rightarrow> 's \<Rightarrow> string option \<times> 's"

subsection \<open>Byte by byte until a terminator\<close>

text \<open>
  The loop of \<open>http_read_headers\<close>, and the loop that reads the size line of a chunk: \<open>k\<close> is how
  many bytes still fit, \<open>stop\<close> the test on what has been read.  The flag says whether the test
  succeeded or the array is full.
\<close>

fun read_until :: "'s reader \<Rightarrow> (string \<Rightarrow> bool) \<Rightarrow> nat \<Rightarrow> string \<Rightarrow> 's \<Rightarrow> (bool \<times> string) option \<times> 's" where
  "read_until rd stop 0 acc s = (Some (False, acc), s)"
| "read_until rd stop (Suc k) acc s =
     (case rd 1 s of
        (None, s') \<Rightarrow> (None, s')
      | (Some bs, s') \<Rightarrow>
          if bs = [] then (None, s')
          else if stop (acc @ bs) then (Some (True, acc @ bs), s')
          else read_until rd stop k (acc @ bs) s')"

definition ends_with :: "string \<Rightarrow> string \<Rightarrow> bool" where
  "ends_with t s \<longleftrightarrow> length t \<le> length s \<and> drop (length s - length t) s = t"

subsection \<open>http\_read\_headers\<close>

function header_scan :: "string \<Rightarrow> bool \<Rightarrow> int \<Rightarrow> bool \<times> int" where
  "header_scan line chunked clen =
     (if line = [] then (chunked, clen)
      else case strstr line CRLF of
        None \<Rightarrow> (chunked, clen)
      | Some eol \<Rightarrow>
          if starts_ci ''transfer-encoding:'' line then
            header_scan (drop 2 eol) (if strstr line ''chunked'' \<noteq> None then True else chunked) clen
          else if starts_ci ''content-length:'' line then
            header_scan (drop 2 eol) chunked (strtol 10 (drop 15 line))
          else header_scan (drop 2 eol) chunked clen)"
  by pat_completeness auto
termination
  by (relation "measure (\<lambda>(line, _). length line)") (auto dest!: strstr_Some_decomp)

declare header_scan.simps [simp del]

record http_head =
  hh_status :: int
  hh_hdr :: string
  hh_chunked :: bool
  hh_clen :: int

definition http_read_headers :: "'s reader \<Rightarrow> nat \<Rightarrow> 's \<Rightarrow> http_head option \<times> 's" where
  "http_read_headers rd hdr_sz s =
     (case read_until rd (ends_with (CRLF @ CRLF)) (hdr_sz - 1) [] s of
        (Some (True, hdr), s') \<Rightarrow>
          (case scan_status (cstr hdr) of
             None \<Rightarrow> (None, s')
           | Some status \<Rightarrow>
               let (chunked, clen) = header_scan (cstr hdr) False (- 1)
               in (Some \<lparr>hh_status = status, hh_hdr = hdr, hh_chunked = chunked, hh_clen = clen\<rparr>, s'))
      | (_, s') \<Rightarrow> (None, s'))"

subsection \<open>http\_stream\_body\<close>

text \<open>The callback and its user data; the world travels with them.\<close>

type_synonym 'u sink = "string \<Rightarrow> 'u \<times> world \<Rightarrow> nat \<times> ('u \<times> world)"

text \<open>The loop over one chunk: \<open>Some\<close> is an early return of \<open>http_stream_body\<close>.\<close>

function chunk_data :: "world reader \<Rightarrow> 'u sink \<Rightarrow> int \<Rightarrow> 'u \<times> world \<Rightarrow> int option \<times> ('u \<times> world)" where
  "chunk_data rd cb remaining uw =
     (if remaining \<le> 0 then (None, uw)
      else
        let (intr, w) = poll_interrupt (snd uw) in
        if intr then (Some (- 2), (fst uw, w))
        else (case rd (if remaining > 4096 then 4096 else nat remaining) w of
                (None, w) \<Rightarrow> (Some (- 1), (fst uw, w))
              | (Some bs, w) \<Rightarrow>
                  if bs = [] then (Some (- 1), (fst uw, w))
                  else let (taken, uw') = cb bs (fst uw, w) in
                       if taken \<noteq> length bs then (Some (- 1), uw')
                       else chunk_data rd cb (remaining - int (length bs)) uw'))"
  by pat_completeness auto
termination by (relation "measure (\<lambda>(rd, cb, remaining, uw). nat remaining)") auto

declare chunk_data.simps [simp del]

definition read_size_line :: "'s reader \<Rightarrow> 's \<Rightarrow> string option \<times> 's" where
  "read_size_line rd s =
     (case read_until rd (ends_with CRLF) 31 [] s of
        (None, s') \<Rightarrow> (None, s') | (Some (_, szline), s') \<Rightarrow> (Some szline, s'))"

partial_function (option) chunked_body ::
    "world reader \<Rightarrow> 'u sink \<Rightarrow> 'u \<times> world \<Rightarrow> (int \<times> ('u \<times> world)) option" where
  "chunked_body rd cb uw =
     (case poll_interrupt (snd uw) of (intr, w) \<Rightarrow>
        if intr then Some (- 2, (fst uw, w))
        else (case read_size_line rd w of
                (None, w) \<Rightarrow> Some (- 1, (fst uw, w))
              | (Some szline, w) \<Rightarrow>
                  if strtol 16 (cstr szline) < 0 then Some (- 1, (fst uw, w))
                  else if strtol 16 (cstr szline) = 0 then Some (0, (fst uw, snd (rd 2 w)))
                  else (case chunk_data rd cb (strtol 16 (cstr szline)) (fst uw, w) of
                          (Some r, uw') \<Rightarrow> Some (r, uw')
                        | (None, uw') \<Rightarrow>
                            (case rd 2 (snd uw') of
                               (None, w) \<Rightarrow> Some (- 1, (fst uw', w))
                             | (Some tr, w) \<Rightarrow>
                                 if tr = [] then Some (- 1, (fst uw', w))
                                 else chunked_body rd cb (fst uw', w)))))"

partial_function (option) plain_body ::
    "world reader \<Rightarrow> 'u sink \<Rightarrow> int \<Rightarrow> int \<Rightarrow> 'u \<times> world \<Rightarrow> (int \<times> ('u \<times> world)) option" where
  "plain_body rd cb clen read_total uw =
     (case poll_interrupt (snd uw) of (intr, w) \<Rightarrow>
        if intr then Some (- 2, (fst uw, w))
        else (case rd 4096 w of
                (None, w) \<Rightarrow> Some (- 1, (fst uw, w))
              | (Some bs, w) \<Rightarrow>
                  if bs = [] then Some (0, (fst uw, w))
                  else (case cb bs (fst uw, w) of (taken, uw') \<Rightarrow>
                    if taken \<noteq> length bs then Some (- 1, uw')
                    else if 0 \<le> clen \<and> clen \<le> read_total + int (length bs) then Some (0, uw')
                    else plain_body rd cb clen (read_total + int (length bs)) uw')))"

definition http_stream_body ::
    "world reader \<Rightarrow> bool \<Rightarrow> int \<Rightarrow> 'u sink \<Rightarrow> 'u \<times> world \<Rightarrow> (int \<times> ('u \<times> world)) option" where
  "http_stream_body rd chunked clen cb uw =
     (if chunked then chunked_body rd cb uw else plain_body rd cb clen 0 uw)"

end
