(* ===== verification/HttpSource.thy ===== *)
theory HttpSource
  imports Http
begin

section \<open>What the response reader does on every fragmentation\<close>

text \<open>
  \<open>byte_source\<close> is the contract of \<^verbatim>\<open>br_sslio_read\<close>: a successful read takes between one and \<open>n\<close>
  bytes off the front of what is still to come, never changes their order, and fails only at the
  end.  \<open>rest\<close> is the abstraction: the bytes still to come.
\<close>

locale byte_source =
  fixes rd :: "'s reader" and rest :: "'s \<Rightarrow> string" and frame :: "'s \<Rightarrow> 's \<Rightarrow> bool"
  assumes read_some: "0 < n \<Longrightarrow> rest s \<noteq> [] \<Longrightarrow>
      \<exists>bs s'. rd n s = (Some bs, s') \<and> bs \<noteq> [] \<and> length bs \<le> n \<and> rest s = bs @ rest s'"
    and read_end: "0 < n \<Longrightarrow> rest s = [] \<Longrightarrow> fst (rd n s) = None \<and> rest (snd (rd n s)) = []"
    and frame_refl: "frame s s"
    and frame_trans: "frame s s' \<Longrightarrow> frame s' s'' \<Longrightarrow> frame s s''"
    and read_frame: "frame s (snd (rd n s))"
begin

lemma read_one: "rest s = c # r \<Longrightarrow> \<exists>s'. rd 1 s = (Some [c], s') \<and> rest s' = r \<and> frame s s'"
proof -
  assume r: "rest s = c # r"
  then obtain bs s' where b: "rd 1 s = (Some bs, s')" "bs \<noteq> []" "length bs \<le> 1" "rest s = bs @ rest s'"
    using read_some [of 1 s] by auto
  then have "bs = [c]" "rest s' = r" using r by (cases bs; simp)+
  then show ?thesis using b(1) read_frame [of s 1] by auto
qed

text \<open>Byte by byte up to the first prefix that passes the test.\<close>

lemma read_until_found:
  assumes "rest s = t @ r" and "t \<noteq> []" and "length t \<le> k" and "stop (acc @ t)"
    and "\<And>i. 0 < i \<Longrightarrow> i < length t \<Longrightarrow> \<not> stop (acc @ take i t)"
  shows "\<exists>s'. read_until rd stop k acc s = (Some (True, acc @ t), s') \<and> rest s' = r \<and> frame s s'"
  using assms
proof (induction t arbitrary: k acc s)
  case Nil
  then show ?case by simp
next
  case (Cons c t)
  obtain k' where k: "k = Suc k'" using Cons.prems(3) by (cases k) auto
  obtain s1 where s1: "rd 1 s = (Some [c], s1)" "rest s1 = t @ r" "frame s s1"
    using read_one [of s c "t @ r"] Cons.prems(1) by auto
  show ?case
  proof (cases "t = []")
    case True
    then show ?thesis using s1 Cons.prems(4) by (simp add: k)
  next
    case False
    then have "\<not> stop (acc @ [c])" using Cons.prems(5) [of 1] by simp
    moreover have "\<not> stop ((acc @ [c]) @ take i t)" if "0 < i" "i < length t" for i
      using Cons.prems(5) [of "Suc i"] that by simp
    then have "\<exists>s'. read_until rd stop k' (acc @ [c]) s1 = (Some (True, (acc @ [c]) @ t), s')
        \<and> rest s' = r \<and> frame s1 s'"
      using Cons.prems False s1(2) k by (intro Cons.IH) auto
    ultimately show ?thesis using s1 frame_trans by (auto simp: k)
  qed
qed

lemma read_until_result:
  "read_until rd stop k acc s = (res, s') \<Longrightarrow>
   frame s s' \<and> length (rest s') \<le> length (rest s)
   \<and> (\<forall>b x. res = Some (b, x) \<longrightarrow> length x \<le> length acc + k \<and> rest s = drop (length acc) x @ rest s' \<and> take (length acc) x = acc)"
proof (induction k arbitrary: acc s)
  case 0
  then show ?case using frame_refl by auto
next
  case (Suc k)
  show ?case
  proof (cases "rest s")
    case Nil
    obtain s1 where "rd 1 s = (None, s1)" "rest s1 = []"
      using read_end [of 1 s] Nil by (metis fst_conv snd_conv surj_pair zero_less_one)
    then show ?thesis using Suc.prems Nil read_frame [of s 1] by simp
  next
    case (Cons c r)
    then obtain s1 where s1: "rd 1 s = (Some [c], s1)" "rest s1 = r" "frame s s1" using read_one by blast
    show ?thesis
    proof (cases "stop (acc @ [c])")
      case True
      then show ?thesis using Suc.prems s1 Cons by auto
    next
      case False
      then have r: "read_until rd stop k (acc @ [c]) s1 = (res, s')" using Suc.prems s1(1) by simp
      have "length acc \<le> length x \<and> drop (length acc) x = c # drop (Suc (length acc)) x \<and> take (length acc) x = acc"
        if "take (Suc (length acc)) x = acc @ [c]" for x
      proof -
        have "x = (acc @ [c]) @ drop (Suc (length acc)) x" using that by (metis append_take_drop_id)
        then obtain y where "x = acc @ c # y" by auto
        then show ?thesis by simp
      qed
      then show ?thesis using Suc.IH [OF r] s1 Cons frame_trans by fastforce
    qed
  qed
qed

end

text \<open>A terminator that occurs in \<open>t\<close> only at its end.\<close>

definition ends_first :: "string \<Rightarrow> string \<Rightarrow> bool" where
  "ends_first e t \<longleftrightarrow> ends_with e t \<and> (\<forall>i < length t. \<not> ends_with e (take i t))"

context byte_source
begin

lemma read_until_ends_first:
  assumes "rest s = t @ r" and "ends_first e t" and "e \<noteq> []" and "length t \<le> k"
  shows "\<exists>s'. read_until rd (ends_with e) k [] s = (Some (True, t), s') \<and> rest s' = r \<and> frame s s'"
proof -
  have "t \<noteq> []" using assms(2,3) by (auto simp: ends_first_def ends_with_def)
  then show ?thesis using read_until_found [OF assms(1), of k "ends_with e" "[]"] assms
    by (auto simp: ends_first_def)
qed

lemma read_headers_split:
  assumes "rest s = hdr @ body" and "ends_first (CRLF @ CRLF) hdr" and "length hdr < hdr_sz"
    and "scan_status (cstr hdr) = Some status"
  shows "\<exists>s'. http_read_headers rd hdr_sz s
      = (Some \<lparr>hh_status = status, hh_hdr = hdr, hh_chunked = fst (header_scan (cstr hdr) False (- 1)),
               hh_clen = snd (header_scan (cstr hdr) False (- 1))\<rparr>, s')
    \<and> rest s' = body \<and> frame s s'"
proof -
  obtain s' where "read_until rd (ends_with (CRLF @ CRLF)) (hdr_sz - 1) [] s = (Some (True, hdr), s')"
    "rest s' = body" "frame s s'"
    using read_until_ends_first [OF assms(1,2), of "hdr_sz - 1"] assms(3) by fastforce
  then show ?thesis using assms(4) by (simp add: http_read_headers_def split_beta)
qed

lemma read_headers_bounds:
  assumes "http_read_headers rd hdr_sz s = (Some h, s')" and "0 < hdr_sz"
  shows "length (hh_hdr h) < hdr_sz" and "rest s = hh_hdr h @ rest s'"
proof -
  obtain res s1 where r: "read_until rd (ends_with (CRLF @ CRLF)) (hdr_sz - 1) [] s = (res, s1)" by (metis surj_pair)
  obtain x where "res = Some (True, x)" "hh_hdr h = x" "s1 = s'"
    using assms(1) r by (auto simp: http_read_headers_def split_beta split: option.splits bool.splits prod.splits)
  then show "length (hh_hdr h) < hdr_sz" "rest s = hh_hdr h @ rest s'"
    using read_until_result [OF r] assms(2) by auto
qed

end

subsection \<open>Bodies\<close>

definition with_pieces :: "string list \<Rightarrow> world \<Rightarrow> world" where
  "with_pieces q w = w\<lparr>w_pieces := q\<rparr>"

definition same_but_pieces :: "world \<Rightarrow> world \<Rightarrow> bool" where
  "same_but_pieces w w' \<longleftrightarrow> w' = with_pieces (w_pieces w') w"

lemma with_pieces_simps [simp]:
  "with_pieces q (with_pieces q' w) = with_pieces q w" "with_pieces (w_pieces w) w = w"
  "w_pieces (with_pieces q w) = q" "plain_world (with_pieces q w) = plain_world w"
  "put_out s (with_pieces q w) = with_pieces q (put_out s w)"
  "put_err s (with_pieces q w) = with_pieces q (put_err s w)"
  "poll_interrupt (with_pieces q w) = apsnd (with_pieces q) (poll_interrupt w)"
  by (simp_all add: with_pieces_def plain_world_def quiet_def put_out_def put_err_def poll_interrupt_def
      on_sigint_def Let_def split: list.split)

lemma same_but_pieces_iff: "same_but_pieces w w' \<longleftrightarrow> (\<exists>q. w' = with_pieces q w)"
  by (auto simp: same_but_pieces_def)

lemma pieces_of_poll [simp]: "w_pieces (snd (poll_interrupt w)) = w_pieces w"
  by (rule poll_frame)

text \<open>
  The contract of a callback: it accepts every piece unless there is a signal, leaves the control
  part of the world alone, and does not look at the connection.
\<close>

locale body_transfer =
  byte_source rd rest same_but_pieces for rd :: "world reader" and rest :: "world \<Rightarrow> string" +
  fixes cb :: "'u sink"
  assumes rest_pieces: "w_pieces w = w_pieces w' \<Longrightarrow> rest w = rest w'"
    and cb_accepts: "plain_world w \<Longrightarrow> fst (cb p (u, w)) = length p"
    and cb_control: "plain_world w \<Longrightarrow> same_control w (snd (snd (cb p (u, w))))"
    and cb_oblivious: "cb p (u, with_pieces q w) = apsnd (apsnd (with_pieces q)) (cb p (u, w))"

text \<open>Calling the callback on pieces one after the other.\<close>

definition deliver :: "'u sink \<Rightarrow> string list \<Rightarrow> 'u \<times> world \<Rightarrow> 'u \<times> world" where
  "deliver cb ps uw = foldl (\<lambda>s p. snd (cb p s)) uw ps"

lemma deliver_simps [simp]:
  "deliver cb [] uw = uw" "deliver cb (p # ps) uw = deliver cb ps (snd (cb p uw))"
  "deliver cb (ps @ qs) uw = deliver cb qs (deliver cb ps uw)"
  by (simp_all add: deliver_def)

text \<open>Each chunk: size line, data.  The wire format of a list of them.\<close>

definition size_line :: "string \<Rightarrow> nat \<Rightarrow> bool" where
  "size_line l n \<longleftrightarrow> LF \<notin> set l \<and> no_nul l \<and> length l \<le> 28 \<and> strtol 16 (l @ CRLF) = int n"

definition chunk_wire :: "(string \<times> string) list \<Rightarrow> string" where
  "chunk_wire cs = concat (map (\<lambda>(l, d). l @ CRLF @ d @ CRLF) cs)"

definition chunk_ok :: "string \<times> string \<Rightarrow> bool" where
  "chunk_ok c \<longleftrightarrow> size_line (fst c) (length (snd c)) \<and> snd c \<noteq> []"

lemma chunk_wire_simps [simp]:
  "chunk_wire [] = []" "chunk_wire ((l, d) # cs) = l @ CRLF @ d @ CRLF @ chunk_wire cs"
  by (simp_all add: chunk_wire_def)

lemma ends_with_crlf: "ends_with CRLF s \<longleftrightarrow> (\<exists>a. s = a @ CRLF)"
proof
  assume "ends_with CRLF s"
  then have "s = take (length s - length CRLF) s @ CRLF"
    unfolding ends_with_def by (metis append_take_drop_id)
  then show "\<exists>a. s = a @ CRLF" by blast
qed (auto simp: ends_with_def)

lemma ends_first_crlf: "LF \<notin> set l \<Longrightarrow> ends_first CRLF (l @ CRLF)"
proof -
  assume l: "LF \<notin> set l"
  have "\<not> ends_with CRLF (take i (l @ CRLF))" if "i < length (l @ CRLF)" for i
  proof
    assume "ends_with CRLF (take i (l @ CRLF))"
    then obtain a where "take i (l @ CRLF) = a @ CRLF" by (auto simp only: ends_with_crlf)
    then have "LF \<in> set (take i (l @ CRLF))" by simp
    moreover have "take i (l @ CRLF) = take i (l @ [CR])" using that by (cases "i = Suc (length l)") auto
    ultimately show False using l by (auto dest: in_set_takeD)
  qed
  then show ?thesis by (auto simp: ends_first_def ends_with_crlf)
qed

lemma ends_first_lf_crlf: "LF \<notin> set l \<Longrightarrow> ends_first CRLF (LF # l @ CRLF)"
proof -
  assume l: "LF \<notin> set l"
  have "\<not> ends_with CRLF (take i (LF # l @ CRLF))" if "i < length (LF # l @ CRLF)" for i
  proof
    assume e: "ends_with CRLF (take i (LF # l @ CRLF))"
    then obtain j where i: "i = Suc j" by (cases i) (auto simp: ends_with_def)
    with e obtain a where a: "LF # take j (l @ CRLF) = a @ CRLF" by (auto simp: ends_with_crlf)
    then obtain a' where "take j (l @ CRLF) = a' @ CRLF" by (cases a) auto
    then have "ends_with CRLF (take j (l @ CRLF))" by (auto simp: ends_with_crlf)
    moreover have "j < length (l @ CRLF)" using that i by simp
    ultimately show False using ends_first_crlf [OF l] by (auto simp: ends_first_def)
  qed
  moreover have "ends_with CRLF (LF # l @ CRLF)" unfolding ends_with_crlf by (metis append_Cons)
  ultimately show ?thesis by (auto simp: ends_first_def)
qed

end
