(* ===== verification/HttpBody.thy ===== *)
theory HttpBody
  imports HttpSource
begin

section \<open>Transfer of a response body\<close>

text \<open>
  The functional behaviour of the body reader on a well-formed response, chunked or with a length, over
  any byte source: the callback receives the body, whatever the fragmentation.
\<close>

text \<open>
  The two bytes after a chunk may arrive one at a time; \<open>http_stream_body\<close> reads up to two and
  goes on, so the next size line may start with the line feed.  \<^verbatim>\<open>strtol\<close> skips it.
\<close>

definition line_rest :: "string \<Rightarrow> bool" where
  "line_rest pre \<longleftrightarrow> pre = [] \<or> pre = [LF]"

context body_transfer
begin

lemma rest_with_pieces [simp]: "rest (with_pieces (w_pieces w) w') = rest w"
  by (rule rest_pieces) simp

lemma rd_pieces: "\<exists>q. snd (rd n w) = with_pieces q w"
  using read_frame [of w n] by (simp add: same_but_pieces_iff)

lemma pieces_of_cb [simp]: "w_pieces (snd (snd (cb p (u, w)))) = w_pieces w"
proof -
  have "cb p (u, w) = apsnd (apsnd (with_pieces (w_pieces w))) (cb p (u, w))"
    using cb_oblivious [of p u "w_pieces w" w] by simp
  then have "snd (snd (cb p (u, w))) = with_pieces (w_pieces w) (snd (snd (cb p (u, w))))"
    by (metis snd_apsnd)
  then show ?thesis by (metis with_pieces_simps(3))
qed

lemma rest_of_cb: "rest (snd (snd (cb p (u, w)))) = rest w"
  by (rule rest_pieces) simp

lemma cb_plain: "plain_world w \<Longrightarrow> plain_world (snd (snd (cb p (u, w))))"
  using cb_control plain_world_same by blast

lemma deliver_oblivious:
  "deliver cb ps (u, with_pieces q w) = apsnd (with_pieces q) (deliver cb ps (u, w))"
proof (induction ps arbitrary: u w)
  case (Cons p ps)
  obtain k u1 w1 where "cb p (u, w) = (k, (u1, w1))" by (metis surj_pair)
  then show ?case using Cons.IH [of u1 w1] by (simp add: cb_oblivious)
qed simp

lemma deliver_plain: "plain_world w \<Longrightarrow> plain_world (snd (deliver cb ps (u, w)))"
proof (induction ps arbitrary: u w)
  case (Cons p ps)
  obtain k u1 w1 where c: "cb p (u, w) = (k, (u1, w1))" by (metis surj_pair)
  then have "plain_world w1" using cb_plain [OF Cons.prems, of p u] by simp
  then show ?case using Cons.IH c by simp
qed simp

text \<open>A read in a plain world, as a change of the pieces only.\<close>

lemma read_plain:
  assumes "rest w \<noteq> []" and "0 < n"
  obtains bs q where "rd n w = (Some bs, with_pieces q w)" "bs \<noteq> []" "length bs \<le> n"
    "rest w = bs @ rest (with_pieces q w)"
proof -
  obtain bs w' where b: "rd n w = (Some bs, w')" "bs \<noteq> []" "length bs \<le> n" "rest w = bs @ rest w'"
    using read_some [OF assms(2,1)] by blast
  obtain q where "snd (rd n w) = with_pieces q w" using rd_pieces by blast
  with b have "w' = with_pieces q w" by simp
  with b that show thesis by blast
qed

lemma cb_plain_result:
  assumes "plain_world w"
  obtains u1 w1 where "cb p (u, w) = (length p, (u1, w1))" "plain_world w1" "w_pieces w1 = w_pieces w"
proof -
  obtain k u1 w1 where c: "cb p (u, w) = (k, (u1, w1))" by (metis surj_pair)
  then have "k = length p" using cb_accepts [OF assms, of p u] by simp
  moreover have "plain_world w1" using cb_plain [OF assms, of p u] c by simp
  moreover have "w_pieces w1 = w_pieces w" using pieces_of_cb [of p u w] c by simp
  ultimately show thesis using c that by blast
qed

text \<open>One chunk arrives in order, whatever the reads return.\<close>

lemma chunk_data_delivers:
  assumes "plain_world w" and "rest w = d @ r"
  shows "\<exists>ps q u' w'. chunk_data rd cb (int (length d)) (u, w) = (None, (u', with_pieces q w'))
    \<and> deliver cb ps (u, w) = (u', w') \<and> concat ps = d \<and> rest (with_pieces q w') = r"
  using assms
proof (induction d arbitrary: u w rule: length_induct)
  case (1 d)
  show ?case
  proof (cases "d = []")
    case True
    then have "chunk_data rd cb (int (length d)) (u, w) = (None, (u, with_pieces (w_pieces w) w))"
      by (simp add: chunk_data.simps)
    moreover have "deliver cb [] (u, w) = (u, w)" "concat [] = d" "rest (with_pieces (w_pieces w) w) = r"
      using "1.prems" True by simp_all
    ultimately show ?thesis by blast
  next
    case False
    let ?n = "if int (length d) > 4096 then 4096 else nat (int (length d))"
    have ne: "rest w \<noteq> []" using "1.prems"(2) False by simp
    have n: "0 < ?n" "?n \<le> length d" using False by auto
    obtain bs q where b: "rd ?n w = (Some bs, with_pieces q w)" "bs \<noteq> []" "length bs \<le> ?n"
      "rest w = bs @ rest (with_pieces q w)"
      using read_plain [OF ne n(1)] .
    have "length bs \<le> length d" using b(3) n(2) by linarith
    then obtain d' where d: "d = bs @ d'" "rest (with_pieces q w) = d' @ r"
      using "1.prems"(2) b(4) by (auto simp: append_eq_append_conv2)
    obtain u1 w1 where c: "cb bs (u, w) = (length bs, (u1, w1))" "plain_world w1" "w_pieces w1 = w_pieces w"
      using cb_plain_result [OF "1.prems"(1)] .
    have cq: "cb bs (u, with_pieces q w) = (length bs, (u1, with_pieces q w1))"
      using c(1) by (simp add: cb_oblivious)
    have rq: "rest (with_pieces q w1) = d' @ r" using d(2) rest_pieces [of "with_pieces q w1" "with_pieces q w"] by simp
    have "length d' < length d" using d(1) b(2) by simp
    then obtain ps q' u' w' where ih:
      "chunk_data rd cb (int (length d')) (u1, with_pieces q w1) = (None, (u', with_pieces q' w'))"
      "deliver cb ps (u1, with_pieces q w1) = (u', w')" "concat ps = d'" "rest (with_pieces q' w') = r"
      using "1.IH" c(2) rq by (metis with_pieces_simps(4))
    obtain w2 where w2: "deliver cb ps (u1, w1) = (u', w2)" "w' = with_pieces q w2"
      using ih(2) deliver_oblivious [of ps u1 q w1] by (cases "deliver cb ps (u1, w1)") simp
    have poll: "poll_interrupt w = (False, w)" using "1.prems"(1) by (simp add: plain_world_def)
    have left: "int (length d) - int (length bs) = int (length d')" using d(1) by simp
    have "chunk_data rd cb (int (length d)) (u, w) = (None, (u', with_pieces q' w2))"
      using False poll b(1,2) cq ih(1) left w2(2) by (subst chunk_data.simps) simp
    moreover have "deliver cb (bs # ps) (u, w) = (u', w2)" "concat (bs # ps) = d" "rest (with_pieces q' w2) = r"
      using c(1) w2 ih d(1) by simp_all
    ultimately show ?thesis by blast
  qed
qed

lemma size_line_read:
  assumes "size_line l n" and "line_rest pre" and "rest w = pre @ l @ CRLF @ r"
  shows "\<exists>q. read_size_line rd w = (Some (pre @ l @ CRLF), with_pieces q w) \<and> rest (with_pieces q w) = r
    \<and> strtol 16 (cstr (pre @ l @ CRLF)) = int n"
proof -
  have l: "LF \<notin> set l" "no_nul l" "length l \<le> 28" "strtol 16 (l @ CRLF) = int n"
    using assms(1) by (auto simp: size_line_def)
  have e: "ends_first CRLF (pre @ l @ CRLF)"
    using assms(2) ends_first_crlf [OF l(1)] ends_first_lf_crlf [OF l(1)] by (auto simp: line_rest_def)
  have len: "length (pre @ l @ CRLF) \<le> 31" using assms(2) l(3) by (auto simp: line_rest_def)
  have r0: "rest w = (pre @ l @ CRLF) @ r" using assms(3) by simp
  obtain s' where s': "read_until rd (ends_with CRLF) 31 [] w = (Some (True, pre @ l @ CRLF), s')"
    "rest s' = r" "same_but_pieces w s'"
    using read_until_ends_first [OF r0 e _ len] by blast
  then obtain q where "s' = with_pieces q w" by (auto simp: same_but_pieces_iff)
  moreover have "strtol 16 (cstr (pre @ l @ CRLF)) = int n"
    using assms(2) l(2,4) strtol_space [of LF 16 "l @ CRLF"] by (auto simp: line_rest_def is_space_def byte_def)
  ultimately show ?thesis using s' by (intro exI [of _ q]) (simp add: read_size_line_def)
qed

lemma trailer_read:
  assumes "rest w = CRLF @ r"
  shows "\<exists>tr q pre. rd 2 w = (Some tr, with_pieces q w) \<and> tr \<noteq> [] \<and> line_rest pre
    \<and> rest (with_pieces q w) = pre @ r"
proof -
  have ne: "rest w \<noteq> []" using assms by simp
  obtain bs q where b: "rd 2 w = (Some bs, with_pieces q w)" "bs \<noteq> []" "length bs \<le> 2"
    "rest w = bs @ rest (with_pieces q w)"
    using read_plain [OF ne, of 2] by auto
  then have "(bs = [CR] \<and> rest (with_pieces q w) = [LF] @ r) \<or> (bs = CRLF \<and> rest (with_pieces q w) = [] @ r)"
    using assms by (cases bs; cases "tl bs") auto
  then show ?thesis using b(1,2) line_rest_def by blast
qed

lemma chunked_body_delivers:
  assumes "list_all chunk_ok cs" and "size_line l0 0" and "plain_world w" and "line_rest pre"
    and "rest w = pre @ chunk_wire cs @ l0 @ CRLF @ r"
  shows "\<exists>ps q u' w'. chunked_body rd cb (u, w) = Some (0, (u', with_pieces q w'))
    \<and> deliver cb ps (u, w) = (u', w') \<and> concat ps = concat (map snd cs)"
  using assms
proof (induction cs arbitrary: u w pre)
  case Nil
  obtain q where q: "read_size_line rd w = (Some (pre @ l0 @ CRLF), with_pieces q w)"
    "strtol 16 (cstr (pre @ l0 @ CRLF)) = int 0"
    using size_line_read [OF Nil.prems(2,4)] Nil.prems(5) by fastforce
  obtain q' where q': "snd (rd 2 (with_pieces q w)) = with_pieces q' (with_pieces q w)" using rd_pieces by blast
  have "chunked_body rd cb (u, w) = Some (0, (u, with_pieces q' w))"
    using Nil.prems(3) q q' by (subst chunked_body.simps) (simp add: plain_world_def)
  moreover have "deliver cb [] (u, w) = (u, w)" "concat [] = concat (map snd [])" by simp_all
  ultimately show ?case by blast
next
  case (Cons c cs)
  obtain l d where c: "c = (l, d)" by (cases c)
  have cs: "list_all chunk_ok cs" using Cons.prems(1) by simp
  have ok: "size_line l (length d)" "d \<noteq> []" using Cons.prems(1) c by (auto simp: chunk_ok_def)
  let ?X = "chunk_wire cs @ l0 @ CRLF @ r"
  obtain q where q: "read_size_line rd w = (Some (pre @ l @ CRLF), with_pieces q w)"
    "rest (with_pieces q w) = d @ CRLF @ ?X" "strtol 16 (cstr (pre @ l @ CRLF)) = int (length d)"
    using size_line_read [OF ok(1) Cons.prems(4), of w "d @ CRLF @ ?X"] Cons.prems(5) c by auto
  have pq: "plain_world (with_pieces q w)" using Cons.prems(3) by simp
  obtain ps q2 u2 w2 where cd:
    "chunk_data rd cb (int (length d)) (u, with_pieces q w) = (None, (u2, with_pieces q2 w2))"
    "deliver cb ps (u, with_pieces q w) = (u2, w2)" "concat ps = d" "rest (with_pieces q2 w2) = CRLF @ ?X"
    using chunk_data_delivers [OF pq q(2)] by blast
  obtain w3 where w3: "deliver cb ps (u, w) = (u2, w3)" "w2 = with_pieces q w3"
    using cd(2) deliver_oblivious [of ps u q w] by (cases "deliver cb ps (u, w)") simp
  have p3: "plain_world w3" using deliver_plain [OF Cons.prems(3), of ps u] w3(1) by simp
  obtain tr q4 pre' where tr: "rd 2 (with_pieces q2 w2) = (Some tr, with_pieces q4 (with_pieces q2 w2))" "tr \<noteq> []"
    "line_rest pre'" "rest (with_pieces q4 (with_pieces q2 w2)) = pre' @ ?X"
    using trailer_read [OF cd(4)] by blast
  have p4: "plain_world (with_pieces q4 w3)" "rest (with_pieces q4 w3) = pre' @ ?X"
    using p3 tr(4) w3(2) by simp_all
  obtain ps' q5 u5 w5 where ih: "chunked_body rd cb (u2, with_pieces q4 w3) = Some (0, (u5, with_pieces q5 w5))"
    "deliver cb ps' (u2, with_pieces q4 w3) = (u5, w5)" "concat ps' = concat (map snd cs)"
    using Cons.IH [OF cs Cons.prems(2) p4(1) tr(3) p4(2)] by blast
  obtain w6 where w6: "deliver cb ps' (u2, w3) = (u5, w6)" "w5 = with_pieces q4 w6"
    using ih(2) deliver_oblivious [of ps' u2 q4 w3] by (cases "deliver cb ps' (u2, w3)") simp
  have "chunked_body rd cb (u, w) = Some (0, (u5, with_pieces q5 w6))"
    using Cons.prems(3) q(1,3) ok(2) cd(1) tr(1,2) ih(1) w3(2) w6(2)
    by (subst chunked_body.simps) (simp add: plain_world_def)
  moreover have "deliver cb (ps @ ps') (u, w) = (u5, w6)" "concat (ps @ ps') = concat (map snd (c # cs))"
    using w3(1) w6(1) cd(3) ih(3) c by simp_all
  ultimately show ?case by blast
qed

subsection \<open>It always returns\<close>

lemma read_shrinks:
  "0 < n \<Longrightarrow> length (rest (snd (rd n w))) \<le> length (rest w)"
  "0 < n \<Longrightarrow> rd n w = (Some bs, w') \<Longrightarrow> bs \<noteq> [] \<Longrightarrow> length (rest w') < length (rest w)"
proof -
  assume n: "0 < n"
  show "length (rest (snd (rd n w))) \<le> length (rest w)"
    using read_some [OF n, of w] read_end [OF n, of w] by (cases "rest w = []") auto
  show "length (rest w') < length (rest w)" if "rd n w = (Some bs, w')" "bs \<noteq> []"
    using read_some [OF n, of w] read_end [OF n, of w] that by (cases "rest w = []") auto
qed

lemma rest_of_poll: "rest (snd (poll_interrupt w)) = rest w"
  by (rule rest_pieces) simp

lemma size_line_shrinks: "length (rest (snd (read_size_line rd w))) \<le> length (rest w)"
proof -
  obtain res s' where "read_until rd (ends_with CRLF) 31 [] w = (res, s')" by (metis surj_pair)
  with read_until_result [OF this] show ?thesis by (auto simp: read_size_line_def split: option.split)
qed

lemma cb_rest: "cb p (u, w) = (k, uw') \<Longrightarrow> rest (snd uw') = rest w"
  using rest_of_cb [of p u w] by simp

lemma chunk_data_shrinks: "length (rest (snd (snd (chunk_data rd cb n (u, w))))) \<le> length (rest w)"
proof (induction "nat n" arbitrary: n u w rule: less_induct)
  case less
  let ?want = "if n > 4096 then 4096 else nat n"
  obtain intr w1 where poll: "poll_interrupt w = (intr, w1)" by (metis surj_pair)
  then have w1: "rest w1 = rest w" using rest_of_poll [of w] by simp
  show ?case
  proof (cases "n \<le> 0 \<or> intr")
    case True
    then show ?thesis using poll w1 by (subst chunk_data.simps) auto
  next
    case False
    obtain res w2 where rd: "rd ?want w1 = (res, w2)" by (metis surj_pair)
    have want: "0 < ?want" using False by auto
    have w2: "length (rest w2) \<le> length (rest w)" using read_shrinks(1) [OF want, of w1] rd w1 by simp
    show ?thesis
    proof (cases "res = None \<or> res = Some []")
      case True
      then show ?thesis using False poll rd w2 by (subst chunk_data.simps) auto
    next
      case some: False
      then obtain bs where bs: "res = Some bs" "bs \<noteq> []" by auto
      obtain k u3 w3 where cb: "cb bs (u, w2) = (k, (u3, w3))" by (metis surj_pair)
      have "rest w3 = rest w2" using cb_rest [OF cb] by simp
      moreover have "length (rest (snd (snd (chunk_data rd cb (n - int (length bs)) (u3, w3))))) \<le> length (rest w3)"
        using False bs(2) by (intro less) auto
      ultimately show ?thesis
        using False poll rd bs cb w2 by (subst chunk_data.simps) auto
    qed
  qed
qed

lemma chunked_body_returns: "\<exists>res. chunked_body rd cb (u, w) = Some res"
proof (induction "length (rest w)" arbitrary: u w rule: less_induct)
  case less
  obtain intr w1 where poll: "poll_interrupt w = (intr, w1)" by (metis surj_pair)
  obtain line w2 where line: "read_size_line rd w1 = (line, w2)" by (metis surj_pair)
  have w2: "length (rest w2) \<le> length (rest w)"
    using size_line_shrinks [of w1] line rest_of_poll [of w] poll by simp
  show ?case
  proof (cases "intr \<or> line = None \<or> strtol 16 (cstr (the line)) \<le> 0")
    case True
    then show ?thesis using poll line by (subst chunked_body.simps) (auto split: option.split)
  next
    case False
    then obtain l where l: "line = Some l" "strtol 16 (cstr l) > 0" by auto
    obtain e u3 w3 where cd: "chunk_data rd cb (strtol 16 (cstr l)) (u, w2) = (e, (u3, w3))" by (metis surj_pair)
    obtain tr w4 where tr: "rd 2 w3 = (tr, w4)" by (metis surj_pair)
    have w3: "length (rest w3) \<le> length (rest w2)"
      using chunk_data_shrinks [of "strtol 16 (cstr l)" u w2] cd by simp
    show ?thesis
    proof (cases "e \<noteq> None \<or> tr = None \<or> tr = Some []")
      case True
      then show ?thesis using False poll line l cd tr by (subst chunked_body.simps) (auto split: option.split)
    next
      case go: False
      then obtain bs where "tr = Some bs" "bs \<noteq> []" by auto
      then have "length (rest w4) < length (rest w)" using read_shrinks(2) [of 2 w3 bs w4] tr w2 w3 by simp
      then have "\<exists>res. chunked_body rd cb (u3, w4) = Some res" by (rule less)
      then show ?thesis using False go poll line l cd tr by (subst chunked_body.simps) auto
    qed
  qed
qed

lemma plain_body_returns: "\<exists>res. plain_body rd cb clen t (u, w) = Some res"
proof (induction "length (rest w)" arbitrary: u w t rule: less_induct)
  case less
  obtain intr w1 where poll: "poll_interrupt w = (intr, w1)" by (metis surj_pair)
  obtain r w2 where rd: "rd 4096 w1 = (r, w2)" by (metis surj_pair)
  show ?case
  proof (cases "intr \<or> r = None \<or> r = Some []")
    case True
    then show ?thesis using poll rd by (subst plain_body.simps) auto
  next
    case False
    then obtain bs where bs: "r = Some bs" "bs \<noteq> []" by auto
    obtain k u3 w3 where cb: "cb bs (u, w2) = (k, (u3, w3))" by (metis surj_pair)
    have "length (rest w3) < length (rest w)"
      using read_shrinks(2) [of 4096 w1 bs w2] rd bs rest_of_poll [of w] poll cb_rest [OF cb] by simp
    then have "\<exists>res. plain_body rd cb clen (t + int (length bs)) (u3, w3) = Some res" by (rule less)
    then show ?thesis using False poll rd bs cb by (subst plain_body.simps) auto
  qed
qed

lemma stream_body_returns: "\<exists>res. http_stream_body rd chunked clen cb (u, w) = Some res"
  using chunked_body_returns plain_body_returns by (simp add: http_stream_body_def)

subsection \<open>What every step keeps, the whole transfer keeps\<close>

lemma stream_body_invariant:
  assumes poll: "\<And>u w. P (u, w) \<Longrightarrow> P (u, snd (poll_interrupt w))"
    and pieces: "\<And>u w q. P (u, w) \<Longrightarrow> P (u, with_pieces q w)"
    and sink: "\<And>p u w. P (u, w) \<Longrightarrow> P (snd (cb p (u, w)))"
    and start: "P (u, w)" and run: "http_stream_body rd chunked clen cb (u, w) = Some (r, uw')"
  shows "P uw'"
proof -
  have read: "P (u, w')" if "P (u, w)" "rd n w = (x, w')" for u w n x w'
    using rd_pieces [of n w] that pieces by auto
  have line: "P (u, w')" if P: "P (u, w)" and r: "read_size_line rd w = (x, w')" for u w x w'
  proof -
    obtain res where "read_until rd (ends_with CRLF) 31 [] w = (res, w')"
      using r by (auto simp: read_size_line_def split: option.splits prod.splits)
    then have "same_but_pieces w w'" using read_until_result by blast
    then show ?thesis using P pieces by (auto simp: same_but_pieces_iff)
  qed
  have polled: "P (u, w')" if "P (u, w)" "poll_interrupt w = (b, w')" for u w b w'
    using poll [OF that(1)] that(2) by simp
  have sunk: "P uw''" if "P (u, w)" "cb p (u, w) = (k, uw'')" for u w p k uw''
    using sink [OF that(1), of p] that(2) by simp
  have chunk: "P uw''" if "P (u, w)" "chunk_data rd cb n (u, w) = (e, uw'')" for n u w e uw''
    using that
  proof (induction "nat n" arbitrary: n u w rule: less_induct)
    case less
    obtain b w2 where p: "poll_interrupt w = (b, w2)" by (metis surj_pair)
    obtain res w3 where rd: "rd (if n > 4096 then 4096 else nat n) w2 = (res, w3)" by (metis surj_pair)
    have w2: "P (u, w2)" using less.prems(1) polled p by blast
    have w3: "P (u, w3)" using read [OF w2 rd] .
    show ?case
    proof (cases "n \<le> 0 \<or> b \<or> res = None \<or> res = Some []")
      case True
      then show ?thesis using less.prems w2 w3 p rd by (subst (asm) chunk_data.simps) (auto split: if_splits)
    next
      case False
      then obtain bs where bs: "res = Some bs" "bs \<noteq> []" by auto
      obtain k u4 w4 where cb: "cb bs (u, w3) = (k, (u4, w4))" by (metis surj_pair)
      have w4: "P (u4, w4)" using sunk [OF w3 cb] .
      have "nat (n - int (length bs)) < nat n" using False bs(2) by (cases bs) auto
      then have "chunk_data rd cb (n - int (length bs)) (u4, w4) = (e, uw'') \<Longrightarrow> P uw''"
        using less.hyps w4 by blast
      then show ?thesis using less.prems(2) False w4 p rd bs cb
        by (subst (asm) chunk_data.simps) (auto split: if_splits)
    qed
  qed
  have chunked: "P uw'" if "P (u, w)" "chunked_body rd cb (u, w) = Some (r, uw')" for u w r uw'
    using that
  proof (induction "length (rest w)" arbitrary: u w rule: less_induct)
    case less
    obtain b w1 where p: "poll_interrupt w = (b, w1)" by (metis surj_pair)
    obtain l w2 where l: "read_size_line rd w1 = (l, w2)" by (metis surj_pair)
    have w1: "P (u, w1)" and w2: "P (u, w2)" using polled less.prems(1) p line l by blast+
    have l2: "length (rest w2) \<le> length (rest w)"
      using size_line_shrinks [of w1] l rest_of_poll [of w] p by simp
    obtain e u3 w3 where cd: "chunk_data rd cb (strtol 16 (cstr (the l))) (u, w2) = (e, (u3, w3))" by (metis surj_pair)
    have w3: "P (u3, w3)" using chunk [OF w2 cd] .
    have l3: "length (rest w3) \<le> length (rest w2)"
      using chunk_data_shrinks [of "strtol 16 (cstr (the l))" u w2] cd by simp
    obtain tr w4 where tr: "rd 2 w3 = (tr, w4)" by (metis surj_pair)
    have w4: "P (u3, w4)" using read [OF w3 tr] .
    have fin: "P (u, snd (rd 2 w2))" by (rule read [OF w2]) (rule surjective_pairing)
    show ?case
    proof (cases "b \<or> l = None \<or> strtol 16 (cstr (the l)) \<le> 0 \<or> e \<noteq> None \<or> tr = None \<or> tr = Some []")
      case True
      then show ?thesis using less.prems(2) w1 w2 w3 w4 fin p l cd tr
        by (subst (asm) chunked_body.simps) (auto split: if_splits option.splits)
    next
      case False
      then obtain bs where bs: "tr = Some bs" "bs \<noteq> []" by auto
      then have "length (rest w4) < length (rest w)" using read_shrinks(2) [of 2 w3 bs w4] tr l2 l3 by simp
      moreover have "chunked_body rd cb (u3, w4) = Some (r, uw')"
        using less.prems(2) False p l cd tr bs by (subst (asm) chunked_body.simps) auto
      ultimately show ?thesis using less.hyps w4 by blast
    qed
  qed
  have plain: "P uw'" if "P (u, w)" "plain_body rd cb clen t (u, w) = Some (r, uw')" for u w t r uw'
    using that
  proof (induction "length (rest w)" arbitrary: u w t rule: less_induct)
    case less
    obtain b w1 where p: "poll_interrupt w = (b, w1)" by (metis surj_pair)
    obtain l w2 where l: "rd 4096 w1 = (l, w2)" by (metis surj_pair)
    have w1: "P (u, w1)" and w2: "P (u, w2)" using polled less.prems(1) p read l by blast+
    obtain k u3 w3 where cb: "cb (the l) (u, w2) = (k, (u3, w3))" by (metis surj_pair)
    have w3: "P (u3, w3)" using sunk [OF w2 cb] .
    show ?case
    proof (cases "b \<or> l = None \<or> l = Some []")
      case True
      then show ?thesis using less.prems(2) w1 w2 p l
        by (subst (asm) plain_body.simps) (auto split: if_splits)
    next
      case False
      then obtain bs where bs: "l = Some bs" "bs \<noteq> []" by auto
      then have "length (rest w3) < length (rest w)"
        using read_shrinks(2) [of 4096 w1 bs w2] l rest_of_poll [of w] p cb_rest [OF cb] by simp
      then have "plain_body rd cb clen t' (u3, w3) = Some (r, uw') \<Longrightarrow> P uw'" for t' using less.hyps w3 by blast
      then show ?thesis using less.prems(2) False w3 p l bs cb
        by (subst (asm) plain_body.simps) (auto split: if_splits)
    qed
  qed
  show ?thesis using run chunked [OF start] plain [OF start] by (auto simp: http_stream_body_def split: if_splits)
qed

subsection \<open>A body with a length\<close>

lemma plain_body_delivers:
  assumes "plain_world w" and "rest w = d" and "d \<noteq> []" and "0 \<le> clen" and "clen = t + int (length d)"
  shows "\<exists>ps q u' w'. plain_body rd cb clen t (u, w) = Some (0, (u', with_pieces q w'))
    \<and> deliver cb ps (u, w) = (u', w') \<and> concat ps = d"
  using assms
proof (induction d arbitrary: u w t rule: length_induct)
  case (1 d)
  have ne: "rest w \<noteq> []" using "1.prems"(2,3) by simp
  obtain bs q where b: "rd 4096 w = (Some bs, with_pieces q w)" "bs \<noteq> []" "length bs \<le> 4096"
    "rest w = bs @ rest (with_pieces q w)"
    using read_plain [OF ne, of 4096] by auto
  obtain u1 w1 where c: "cb bs (u, w) = (length bs, (u1, w1))" "plain_world w1" "w_pieces w1 = w_pieces w"
    using cb_plain_result [OF "1.prems"(1)] .
  have cq: "cb bs (u, with_pieces q w) = (length bs, (u1, with_pieces q w1))"
    using c(1) by (simp add: cb_oblivious)
  define d' where "d' = rest (with_pieces q w)"
  have d: "d = bs @ d'" using b(4) "1.prems"(2) d'_def by simp
  have r': "rest (with_pieces q w1) = d'" unfolding d'_def by (rule rest_pieces) simp
  have poll: "poll_interrupt w = (False, w)" using "1.prems"(1) by (simp add: plain_world_def)
  show ?case
  proof (cases "d' = []")
    case True
    then have "plain_body rd cb clen t (u, w) = Some (0, (u1, with_pieces q w1))"
      using poll b(1,2) cq "1.prems"(4,5) d by (subst plain_body.simps) simp
    moreover have "deliver cb [bs] (u, w) = (u1, w1)" "concat [bs] = d" using c(1) d True by simp_all
    ultimately show ?thesis by blast
  next
    case False
    have p1: "plain_world (with_pieces q w1)" "length d' < length d" "clen = t + int (length bs) + int (length d')"
      using c(2) b(2) d "1.prems"(5) by simp_all
    obtain ps q2 u2 w2 where ih:
      "plain_body rd cb clen (t + int (length bs)) (u1, with_pieces q w1) = Some (0, (u2, with_pieces q2 w2))"
      "deliver cb ps (u1, with_pieces q w1) = (u2, w2)" "concat ps = d'"
      using "1.IH" p1 r' False "1.prems"(4) by metis
    obtain w3 where w3: "deliver cb ps (u1, w1) = (u2, w3)" "w2 = with_pieces q w3"
      using ih(2) deliver_oblivious [of ps u1 q w1] by (cases "deliver cb ps (u1, w1)") simp
    have "\<not> clen \<le> t + int (length bs)" using False "1.prems"(5) d by simp
    then have "plain_body rd cb clen t (u, w) = Some (0, (u2, with_pieces q2 w3))"
      using poll b(1,2) cq ih(1) w3(2) by (subst plain_body.simps) simp
    moreover have "deliver cb (bs # ps) (u, w) = (u2, w3)" "concat (bs # ps) = d"
      using c(1) w3(1) ih(3) d by simp_all
    ultimately show ?thesis by blast
  qed
qed

end

section \<open>The connection of the program and its callback\<close>

text \<open>
  \<^verbatim>\<open>br_sslio_read\<close> on the open connection: \<open>w_pieces\<close> are the records whose contents become
  readable in turn, empty ones skipped; at most one of them answers a read.
\<close>

definition sslio_read :: "world reader" where
  "sslio_read n w =
     (case dropWhile (\<lambda>p. p = []) (w_pieces w) of
        [] \<Rightarrow> (None, with_pieces [] w)
      | p # ps \<Rightarrow> (Some (take n p), with_pieces (drop n p # ps) w))"

definition to_come :: "world \<Rightarrow> string" where
  "to_come w = concat (w_pieces w)"

lemma concat_dropWhile_Nil: "concat (dropWhile (\<lambda>p. p = []) ps) = concat ps"
  by (induction ps) auto

lemma sslio_cases:
  obtains (none) "to_come w = []" "sslio_read n w = (None, with_pieces [] w)"
  | (some) p ps where "to_come w = p @ concat ps" "p \<noteq> []"
      "sslio_read n w = (Some (take n p), with_pieces (drop n p # ps) w)"
proof (cases "dropWhile (\<lambda>p. p = []) (w_pieces w)")
  case Nil
  have "to_come w = []" using Nil concat_dropWhile_Nil [of "w_pieces w"] by (simp add: to_come_def)
  moreover have "sslio_read n w = (None, with_pieces [] w)" unfolding sslio_read_def Nil by simp
  ultimately show thesis by (rule none)
next
  case (Cons p ps)
  have p: "p \<noteq> []" using Cons hd_dropWhile [of "\<lambda>p. p = []" "w_pieces w"] by auto
  have "to_come w = p @ concat ps"
    using Cons concat_dropWhile_Nil [of "w_pieces w"] by (simp add: to_come_def)
  moreover have "sslio_read n w = (Some (take n p), with_pieces (drop n p # ps) w)"
    unfolding sslio_read_def Cons by simp
  ultimately show thesis using p by (intro some)
qed

lemma to_come_with [simp]: "to_come (with_pieces q w) = concat q"
  by (simp add: to_come_def)

interpretation tls: byte_source sslio_read to_come same_but_pieces
proof
  fix n :: nat and s :: world
  show "\<exists>bs s'. sslio_read n s = (Some bs, s') \<and> bs \<noteq> [] \<and> length bs \<le> n \<and> to_come s = bs @ to_come s'"
    if "0 < n" "to_come s \<noteq> []" using that by (cases rule: sslio_cases [of s n]) auto
  show "fst (sslio_read n s) = None \<and> to_come (snd (sslio_read n s)) = []" if "0 < n" "to_come s = []"
    using that by (cases rule: sslio_cases [of s n]) auto
  show "same_but_pieces s (snd (sslio_read n s))"
    by (cases rule: sslio_cases [of s n]) (auto simp: same_but_pieces_iff)
  show "same_but_pieces s s" by (simp add: same_but_pieces_def)
  show "same_but_pieces s s'" if "same_but_pieces s t" "same_but_pieces t s'" for t s'
    using that by (auto simp: same_but_pieces_iff)
qed

text \<open>\<open>on_chunk\<close> as the callback.\<close>

lemma with_pieces_warn: "block_overflow_warn i (with_pieces q w) = with_pieces q (block_overflow_warn i w)"
  by (simp add: block_overflow_warn_def with_pieces_def put_err_def)

lemma with_pieces_json [simp]: "w_json (with_pieces q w) = w_json w" "w_debug (with_pieces q w) = w_debug w"
  by (simp_all add: with_pieces_def)

lemma with_pieces_add:
  "add_text t b (with_pieces q w) = apsnd (with_pieces q) (add_text t b w)"
  "add_partial t b (with_pieces q w) = apsnd (with_pieces q) (add_partial t b w)"
  by (simp_all add: add_text_def add_partial_def Let_def split: option.split)

lemma with_pieces_block_start:
  "handle_block_start evt st (with_pieces q w) = apsnd (with_pieces q) (handle_block_start evt st w)"
  by (simp add: handle_block_start_def Let_def with_pieces_warn)

lemma with_pieces_block_delta:
  "handle_block_delta evt st (with_pieces q w) = apsnd (with_pieces q) (handle_block_delta evt st w)"
  by (simp add: handle_block_delta_def Let_def with_pieces_warn with_pieces_add split_beta split: option.split)

lemma with_pieces_event:
  "handle_event st s (with_pieces q w) = apsnd (with_pieces q) (handle_event st s w)"
  by (simp add: handle_event_def Let_def with_pieces_block_start with_pieces_block_delta split: option.split)

lemma with_pieces_char: "on_char c (st, with_pieces q w) = apsnd (with_pieces q) (on_char c (st, w))"
proof -
  have "on_line st (with_pieces q w) = apsnd (with_pieces q) (on_line st w)"
    by (simp add: on_line_def with_pieces_event)
  then show ?thesis by (simp add: on_char_def split_beta Let_def)
qed

lemma with_pieces_chars:
  "foldl (\<lambda>sw c. on_char c sw) (st, with_pieces q w) cs = apsnd (with_pieces q) (foldl (\<lambda>sw c. on_char c sw) (st, w) cs)"
proof (induction cs arbitrary: st w)
  case (Cons c cs)
  show ?case using Cons.IH [of "fst (on_char c (st, w))" "snd (on_char c (st, w))"]
    by (simp add: with_pieces_char apsnd_def map_prod_def split_beta)
qed simp

lemma with_pieces_chunk: "on_chunk p (st, with_pieces q w) = apsnd (apsnd (with_pieces q)) (on_chunk p (st, w))"
  using with_pieces_chars [of "head_copy p st" q] by (simp add: on_chunk_def split_beta Let_def)

interpretation sse: body_transfer sslio_read to_come on_chunk
proof
  show "to_come w = to_come w'" if "w_pieces w = w_pieces w'" for w w' using that by (simp add: to_come_def)
  show "fst (on_chunk p (u, w)) = length p" if "plain_world w" for p u w
    using that by (simp add: on_chunk_plain)
  show "same_control w (snd (snd (on_chunk p (u, w))))" if "plain_world w" for p u w
    using that same_control_chars [of "(head_copy p u, w)" p] by (simp add: on_chunk_plain)
  show "on_chunk p (u, with_pieces q w) = apsnd (apsnd (with_pieces q)) (on_chunk p (u, w))" for p u q w
    by (rule with_pieces_chunk)
qed

end
