(* ===== verification/Net.thy ===== *)
theory Net
  imports HttpBody
begin

section \<open>Connections and one request (main.c)\<close>

text \<open>
  Sockets, the callbacks of the TLS library, one request over TLS, and
  \<open>do_turn\<close>.  The file descriptor table is part of the world, so leaks are visible.
\<close>

subsection \<open>Sockets\<close>

definition open_socket :: "world \<Rightarrow> nat \<times> world" where
  "open_socket w =
     (w_next_fd w, w\<lparr>w_fds := insert (w_next_fd w) (w_fds w), w_next_fd := Suc (w_next_fd w)\<rparr>)"

definition close_fd :: "nat \<Rightarrow> world \<Rightarrow> world" where
  "close_fd fd w = w\<lparr>w_fds := w_fds w - {fd}\<rparr>"

text \<open>
  The loop over the addresses: \<open>Some fd\<close> is a connected descriptor.  The fields of \<open>In_progress\<close>
  are the results of \<^verbatim>\<open>select\<close> and of \<^verbatim>\<open>getsockopt(SO_ERROR)\<close>.
\<close>

fun connect_loop :: "address list \<Rightarrow> world \<Rightarrow> nat option \<times> world" where
  "connect_loop [] w = (None, w)"
| "connect_loop (a # as) w =
     (if \<not> ad_socket a then connect_loop as w
      else
        let (fd, w) = open_socket w in
        (case ad_connect a of
           Connected \<Rightarrow> (Some fd, w)
         | Refused \<Rightarrow> connect_loop as (close_fd fd w)
         | In_progress sr err \<Rightarrow>
             if sr \<le> 0 then connect_loop as (close_fd fd w)
             else if err \<noteq> 0 then connect_loop as (close_fd fd w)
             else (Some fd, w)))"

text \<open>The addresses that \<^verbatim>\<open>getaddrinfo\<close> found for host and port, or NULL.\<close>

definition tcp_connect :: "address list option \<Rightarrow> world \<Rightarrow> nat option \<times> world" where
  "tcp_connect res w = (case res of None \<Rightarrow> (None, w) | Some as \<Rightarrow> connect_loop as w)"

text \<open>
  The low-level callbacks of the TLS engine: a call interrupted by a signal is repeated.  The
  script holds the results of the successive calls of \<^verbatim>\<open>recv\<close> (or \<^verbatim>\<open>send\<close>).
\<close>

datatype io_result = Moved nat | Eintr | Io_error

fun sock_read :: "io_result list \<Rightarrow> int \<times> io_result list" where
  "sock_read [] = (- 1, [])"
| "sock_read (Moved n # rs) = (int n, rs)"
| "sock_read (Eintr # rs) = sock_read rs"
| "sock_read (Io_error # rs) = (- 1, rs)"

fun sock_write :: "io_result list \<Rightarrow> int \<times> io_result list" where
  "sock_write [] = (- 1, [])"
| "sock_write (Moved n # rs) = (int n, rs)"
| "sock_write (Eintr # rs) = sock_write rs"
| "sock_write (Io_error # rs) = (- 1, rs)"

lemma sock_read_skips: "sock_read rs = (case dropWhile (\<lambda>r. r = Eintr) rs of
    Moved n # rs' \<Rightarrow> (int n, rs') | Io_error # rs' \<Rightarrow> (- 1, rs') | _ \<Rightarrow> (- 1, []))"
  by (induction rs rule: sock_read.induct) auto

subsection \<open>The request\<close>

definition request_head :: "string \<Rightarrow> string \<Rightarrow> string \<Rightarrow> nat \<Rightarrow> string" where
  "request_head path host api_key len =
     ''POST '' @ path @ '' HTTP/1.1'' @ CRLF
     @ ''Host: '' @ host @ CRLF
     @ ''User-Agent: sa/0.1'' @ CRLF
     @ ''Content-Type: application/json'' @ CRLF
     @ ''Accept: text/event-stream'' @ CRLF
     @ ''Anthropic-Version: 2023-06-01'' @ CRLF
     @ ''X-API-Key: '' @ api_key @ CRLF
     @ ''Content-Length: '' @ show_nat len @ CRLF
     @ ''Connection: close'' @ CRLF
     @ CRLF"

text \<open>The body of an error response, up to the room in \<^verbatim>\<open>err_head\<close>; \<open>acc\<close> is what it holds.\<close>

function read_error_body :: "'s reader \<Rightarrow> nat \<Rightarrow> string \<Rightarrow> 's \<Rightarrow> string \<times> 's" where
  "read_error_body rd err_head_sz acc s =
     (if length acc + 1 < err_head_sz then
        case rd 512 s of
          (None, s') \<Rightarrow> (acc, s')
        | (Some bs, s') \<Rightarrow>
            if bs = [] then (acc, s')
            else read_error_body rd err_head_sz (acc @ take (err_head_sz - 1 - length acc) bs) s'
      else (acc, s))"
  by pat_completeness auto
termination
proof (relation "measure (\<lambda>(rd, n, acc, s). n - length acc)", goal_cases)
  case 1
  then show ?case by simp
next
  case (2 rd n acc s x s' bs)
  then show ?case by (cases bs) (auto simp: min_def)
qed

declare read_error_body.simps [simp del]

definition sent :: "string \<Rightarrow> world \<Rightarrow> world" where
  "sent s w = w\<lparr>w_sent := w_sent w @ s\<rparr>"

definition next_connection :: "world \<Rightarrow> connection \<times> world" where
  "next_connection w =
     (case w_connections w of
        [] \<Rightarrow> (\<lparr>cn_addrs = None, cn_write_head = False, cn_write_body = False, cn_flush = False, cn_pieces = [], cn_close = True\<rparr>, w)
      | c # cs \<Rightarrow> (c, w\<lparr>w_connections := cs\<rparr>))"

text \<open>
  After the connection stands: write, read the head, then the body.  The result is the return
  value, \<^verbatim>\<open>*out_status\<close> and the state; \<^verbatim>\<open>err_head\<close> is \<^verbatim>\<open>st->raw_head\<close>, as in the only call.
\<close>

text \<open>
  The end of a request whose response was read: \<^verbatim>\<open>br_sslio_close\<close>, which may not return
  (\<^term>\<open>None\<close>), then \<^verbatim>\<open>close\<close>.
\<close>

definition sslio_close :: "nat \<Rightarrow> connection \<Rightarrow> world \<Rightarrow> world option" where
  "sslio_close fd c w = (if cn_close c then Some (close_fd fd w) else None)"

definition post_on :: "nat \<Rightarrow> connection \<Rightarrow> string \<Rightarrow> string \<Rightarrow> stream_state_t \<times> world \<Rightarrow>
    (int \<times> int \<times> (stream_state_t \<times> world)) option" where
  "post_on fd c req body sw =
     (let (st, w) = sw in
      if \<not> cn_write_head c then Some (- 1, 0, (st, close_fd fd w))
      else if \<not> cn_write_body c then Some (- 1, 0, (st, close_fd fd (sent req w)))
      else let w = sent (req @ body) w in
      if \<not> cn_flush c then Some (- 1, 0, (st, close_fd fd w))
      else (case http_read_headers sslio_read 8192 w of
         (None, w) \<Rightarrow> Some (- 1, 0, (st, close_fd fd w))
       | (Some h, w) \<Rightarrow>
           if hh_status h \<noteq> 200 then
             let (err, w) = read_error_body sslio_read raw_head_size [] w;
                 st = st\<lparr>st_raw_head := err @ NUL # drop (length err + 1) (st_raw_head st)\<rparr>
             in (case sslio_close fd c w of None \<Rightarrow> None | Some w \<Rightarrow> Some (- 1, hh_status h, (st, w)))
           else (case http_stream_body sslio_read (hh_chunked h) (hh_clen h) on_chunk (st, w) of
                   None \<Rightarrow> None
                 | Some (r, (st, w)) \<Rightarrow>
                     (case sslio_close fd c w of
                        None \<Rightarrow> None
                      | Some w \<Rightarrow> Some (if r = - 2 then - 2 else if r < 0 then - 1 else 0, 200, (st, w))))))"

definition http_post_sse :: "string \<Rightarrow> string \<Rightarrow> string \<Rightarrow> stream_state_t \<times> world \<Rightarrow>
    (int \<times> int \<times> (stream_state_t \<times> world)) option" where
  "http_post_sse url api_key body sw =
     (let (st, w) = sw in
      case parse_url url 256 1024 of
        None \<Rightarrow> Some (- 1, 0, (st, w))
      | Some (host, port, path) \<Rightarrow>
          let (c, w) = next_connection w in
          (case tcp_connect (cn_addrs c) w of
             (None, w) \<Rightarrow>
               Some (- 1, 0, (st, put_err ([LF] @ ''connect failed: '' @ w_strerror w @ [LF]) w))
           | (Some fd, w) \<Rightarrow>
               let w = w\<lparr>w_pieces := cn_pieces c\<rparr>; req = request_head path host api_key (length body) in
               if 4096 \<le> length req then Some (- 1, 0, (st, close_fd fd w))
               else post_on fd c req body (st, w)))"

subsection \<open>One turn of the model\<close>

definition context_message :: "string \<Rightarrow> bool" where
  "context_message m \<longleftrightarrow> strstr m ''context'' \<noteq> None \<or> strstr m ''token'' \<noteq> None \<or> strstr m ''length'' \<noteq> None"

text \<open>The error message in a JSON error body.\<close>

definition error_message :: "string \<Rightarrow> string option" where
  "error_message raw =
     (if cstr raw = [] then None
      else case cJSON_Parse (Some (cstr raw)) of
        None \<Rightarrow> None
      | Some j \<Rightarrow> item_string (cJSON_GetObjectItem (Some j) ''error'') ''message'')"

definition turn_result :: "int \<Rightarrow> int \<Rightarrow> stream_state_t \<Rightarrow> world \<Rightarrow> int \<times> world" where
  "turn_result r status st w =
     (let (intr, w) = poll_interrupt w in
      if intr then (- 2, w)
      else if r = - 2 then (- 2, w)
      else if r < 0 \<and> status = 0 then (- 1, put_err ([LF] @ ''http: transport error'' @ [LF]) w)
      else if status \<noteq> 200 then
        let w = put_err ([LF] @ ''api status '' @ show_int status @ [LF]) w in
        (case error_message (st_raw_head st) of
           None \<Rightarrow> (- 1, w)
         | Some m \<Rightarrow> (if context_message m then - 3 else - 1, put_err (''error: '' @ m @ [LF]) w))
      else (0, w))"

definition do_turn :: "string \<Rightarrow> string \<Rightarrow> string \<Rightarrow> stream_state_t \<times> world \<Rightarrow>
    (int \<times> (stream_state_t \<times> world)) option" where
  "do_turn url api_key req_json sw =
     (case http_post_sse url api_key req_json sw of
        None \<Rightarrow> None
      | Some (r, status, (st, w)) \<Rightarrow>
          let (res, w) = turn_result r status st w in Some (res, (st, w)))"

subsection \<open>No descriptor is left open\<close>

lemma fds_with_pieces [simp]: "w_fds (with_pieces q w) = w_fds w" "w_next_fd (with_pieces q w) = w_next_fd w"
  by (simp_all add: with_pieces_def)

definition connects :: "address \<Rightarrow> bool" where
  "connects a \<longleftrightarrow> ad_socket a \<and>
     (case ad_connect a of Connected \<Rightarrow> True | Refused \<Rightarrow> False | In_progress sr err \<Rightarrow> 0 < sr \<and> err = 0)"

lemma connect_loop_step:
  "connect_loop (a # as) w =
     (if \<not> ad_socket a then connect_loop as w
      else if connects a then (Some (w_next_fd w), snd (open_socket w))
      else connect_loop as (close_fd (w_next_fd w) (snd (open_socket w))))"
  by (cases "ad_connect a") (simp_all add: connects_def open_socket_def)

declare connect_loop.simps(2) [simp del]

lemma connect_loop_fds:
  assumes "\<forall>x \<in> w_fds w. x < w_next_fd w" and "connect_loop as w = (r, w')"
  shows "(case r of None \<Rightarrow> w_fds w' = w_fds w | Some fd \<Rightarrow> fd \<notin> w_fds w \<and> w_fds w' = insert fd (w_fds w))
    \<and> (\<forall>x \<in> w_fds w'. x < w_next_fd w')"
  using assms
proof (induction as arbitrary: w)
  case Nil
  then show ?case by auto
next
  case (Cons a as)
  let ?fd = "w_next_fd w"
  let ?o = "w\<lparr>w_fds := insert ?fd (w_fds w), w_next_fd := Suc ?fd\<rparr>"
  have new: "?fd \<notin> w_fds w" using Cons.prems(1) by blast
  have c: "close_fd ?fd ?o = w\<lparr>w_next_fd := Suc ?fd\<rparr>" using new by (simp add: close_fd_def)
  have small: "\<forall>x \<in> w_fds w. x < Suc ?fd" using Cons.prems(1) less_SucI by blast
  consider (nosock) "\<not> ad_socket a" | (ok) "connect_loop (a # as) w = (Some ?fd, ?o)"
    | (again) "connect_loop (a # as) w = connect_loop as (w\<lparr>w_next_fd := Suc ?fd\<rparr>)"
    by (cases "ad_socket a"; cases "connects a") (simp_all add: connect_loop_step open_socket_def c)
  then show ?case
  proof cases
    case nosock
    then show ?thesis using Cons by (simp add: connect_loop_step)
  next
    case ok
    then show ?thesis using Cons.prems new small by auto
  next
    case again
    then show ?thesis using Cons.IH [of "w\<lparr>w_next_fd := Suc ?fd\<rparr>"] Cons.prems small by (cases r) simp_all
  qed
qed

definition fds_wf :: "world \<Rightarrow> bool" where
  "fds_wf w \<longleftrightarrow> (\<forall>x \<in> w_fds w. x < w_next_fd w)"

lemma poll_fds [simp]: "w_fds (snd (poll_interrupt w)) = w_fds w"
  by (simp add: poll_interrupt_def on_sigint_def Let_def split: list.split)

lemma fds_simps [simp]:
  "w_fds (close_fd fd w) = w_fds w - {fd}" "w_fds (sent s w) = w_fds w" "w_fds (w\<lparr>w_pieces := ps\<rparr>) = w_fds w"
  "w_fds (snd (next_connection w)) = w_fds w" "w_next_fd (snd (next_connection w)) = w_next_fd w"
  by (simp_all add: close_fd_def sent_def next_connection_def split: list.split)

lemma chunk_fds: "w_fds (snd (snd (on_chunk p sw))) = w_fds (snd sw)"
proof -
  obtain st w where sw: "sw = (st, w)" by (cases sw)
  obtain b w1 where p: "poll_interrupt w = (b, w1)" by (metis surj_pair)
  then have w1: "w_fds w1 = w_fds w" using poll_fds [of w] by simp
  have "w_fds (snd (foldl (\<lambda>sw c. on_char c sw) (st', w2) cs)) = w_fds w2" for st' w2 cs
    using same_control_chars [of "(st', w2)" cs] by (simp add: same_control_def)
  with w1 show ?thesis by (simp add: sw on_chunk_def p Let_def)
qed

lemma stream_body_keeps:
  assumes "stream_ok st" and "http_stream_body sslio_read ch clen on_chunk (st, w) = Some (r, (st', w'))"
  shows "stream_ok st' \<and> w_fds w' = w_fds w"
proof -
  have "stream_ok (fst (st', w')) \<and> w_fds (snd (st', w')) = w_fds w"
  proof (rule sse.stream_body_invariant [OF _ _ _ _ assms(2), of "\<lambda>uw. stream_ok (fst uw) \<and> w_fds (snd uw) = w_fds w"])
    show "stream_ok (fst (snd (on_chunk p (u, wa)))) \<and> w_fds (snd (snd (on_chunk p (u, wa)))) = w_fds w"
      if "stream_ok (fst (u, wa)) \<and> w_fds (snd (u, wa)) = w_fds w" for p u wa
      using that chunk_fds [of p "(u, wa)"] stream_ok_chunk [of "(u, wa)" p] by simp
  qed (use assms(1) in simp_all)
  then show ?thesis by simp
qed

lemma read_headers_frame: "http_read_headers sslio_read n w = (h, w') \<Longrightarrow> same_but_pieces w w'"
proof -
  assume h: "http_read_headers sslio_read n w = (h, w')"
  obtain res s' where r: "read_until sslio_read (ends_with (CRLF @ CRLF)) (n - 1) [] w = (res, s')" by (metis surj_pair)
  then have "s' = w'" using h by (auto simp: http_read_headers_def split: option.splits prod.splits bool.splits)
  with tls.read_until_result [OF r] show ?thesis by simp
qed

lemma read_error_frame: "same_but_pieces w (snd (read_error_body sslio_read n acc w))"
proof (induction "n - length acc" arbitrary: acc w rule: less_induct)
  case less
  obtain x w1 where rd: "sslio_read 512 w = (x, w1)" by (metis surj_pair)
  have w1: "same_but_pieces w w1" using tls.read_frame [of w 512] rd by simp
  show ?case
  proof (cases "length acc + 1 < n \<and> x \<noteq> None \<and> x \<noteq> Some []")
    case False
    then show ?thesis using w1 rd tls.frame_refl by (subst read_error_body.simps) auto
  next
    case True
    then obtain bs where bs: "x = Some bs" "bs \<noteq> []" by auto
    then have "same_but_pieces w1 (snd (read_error_body sslio_read n (acc @ take (n - 1 - length acc) bs) w1))"
      using True by (intro less) (cases bs; auto simp: min_def)
    then show ?thesis using True bs rd tls.frame_trans [OF w1] by (subst read_error_body.simps) auto
  qed
qed

lemma frame_fds: "same_but_pieces w w' \<Longrightarrow> w_fds w' = w_fds w"
  by (metis same_but_pieces_def fds_with_pieces(1))

definition blocks_sound :: "stream_state_t \<Rightarrow> bool" where
  "blocks_sound st \<longleftrightarrow> stream_ok (with_head ([], 0) st)"

lemma blocks_sound_ok: "stream_ok st \<Longrightarrow> blocks_sound st"
  by (simp add: blocks_sound_def stream_ok_def with_head_def)

lemma blocks_sound_head [simp]: "blocks_sound (st\<lparr>st_raw_head := h\<rparr>) = blocks_sound st"
  by (simp add: blocks_sound_def with_head_def)

definition returns_or_hangs :: "bool \<Rightarrow> ('a \<Rightarrow> bool) \<Rightarrow> 'a option \<Rightarrow> bool" where
  "returns_or_hangs may_hang P res \<longleftrightarrow> (case res of None \<Rightarrow> may_hang | Some x \<Rightarrow> P x)"

lemma returns_or_hangs_simps [simp]:
  "returns_or_hangs m P None = m" "returns_or_hangs m P (Some x) = P x"
  by (simp_all add: returns_or_hangs_def)

definition request_done :: "nat set \<Rightarrow> int \<times> int \<times> (stream_state_t \<times> world) \<Rightarrow> bool" where
  "request_done F = (\<lambda>(r, status, (st, w)). w_fds w = F \<and> blocks_sound st
     \<and> r \<in> {0, - 1, - 2} \<and> (r = 0 \<longrightarrow> status = 200))"

lemma post_on_keeps:
  assumes "stream_ok st"
  shows "returns_or_hangs (\<not> cn_close c) (request_done (w_fds w - {fd})) (post_on fd c req body (st, w))"
proof -
  let ?w = "sent (req @ body) w"
  obtain h w1 where h: "http_read_headers sslio_read 8192 ?w = (h, w1)" by (metis surj_pair)
  have w1: "w_fds w1 = w_fds w" using frame_fds [OF read_headers_frame [OF h]] by simp
  note st = blocks_sound_ok [OF assms]
  consider (early) "\<not> cn_write_head c \<or> \<not> cn_write_body c \<or> \<not> cn_flush c \<or> h = None"
    | (error) hd where "cn_write_head c" "cn_write_body c" "cn_flush c" "h = Some hd" "hh_status hd \<noteq> 200"
    | (body) hd where "cn_write_head c" "cn_write_body c" "cn_flush c" "h = Some hd" "hh_status hd = 200"
    by blast
  then show ?thesis
  proof cases
    case early
    then show ?thesis using h w1 st by (auto simp: post_on_def request_done_def Let_def)
  next
    case error
    have "w_fds (snd (read_error_body sslio_read raw_head_size [] w1)) = w_fds w1"
      using frame_fds [OF read_error_frame] .
    then show ?thesis using error h w1 st
      by (simp add: post_on_def sslio_close_def request_done_def split_beta Let_def)
  next
    case body
    obtain r st' w' where b: "http_stream_body sslio_read (hh_chunked hd) (hh_clen hd) on_chunk (st, w1) = Some (r, (st', w'))"
      using sse.stream_body_returns [of "hh_chunked hd" "hh_clen hd" st w1] by (metis surj_pair)
    then show ?thesis using body h w1 stream_body_keeps [OF assms b] blocks_sound_ok
      by (simp add: post_on_def sslio_close_def request_done_def)
  qed
qed

lemma post_keeps:
  assumes "stream_ok st" and "fds_wf w"
  shows "returns_or_hangs (\<exists>c rest. w_connections w = c # rest \<and> \<not> cn_close c) (request_done (w_fds w))
    (http_post_sse url key body (st, w))"
proof (cases "parse_url url 256 1024")
  case None
  then show ?thesis using blocks_sound_ok [OF assms(1)] by (simp add: http_post_sse_def request_done_def)
next
  case (Some u)
  obtain host port path where u: "u = (host, port, path)" by (cases u)
  obtain c w1 where c: "next_connection w = (c, w1)" by (metis surj_pair)
  have hang: "\<exists>rest. w_connections w = c # rest" if "\<not> cn_close c"
    using c that by (auto simp: next_connection_def split: list.splits)
  have w1: "w_fds w1 = w_fds w" "\<forall>x \<in> w_fds w1. x < w_next_fd w1"
    using c fds_simps(4,5) [of w] assms(2) by (simp_all add: fds_wf_def)
  obtain f w2 where f: "tcp_connect (cn_addrs c) w1 = (f, w2)" by (metis surj_pair)
  have w2: "(case f of None \<Rightarrow> w_fds w2 = w_fds w | Some fd \<Rightarrow> fd \<notin> w_fds w \<and> w_fds w2 = insert fd (w_fds w))"
  proof (cases "cn_addrs c")
    case None
    then show ?thesis using f w1(1) by (auto simp: tcp_connect_def)
  next
    case (Some as)
    then have "connect_loop as w1 = (f, w2)" using f by (simp add: tcp_connect_def)
    from connect_loop_fds [OF w1(2) this] show ?thesis using w1(1) by (cases f) auto
  qed
  show ?thesis
  proof (cases f)
    case None
    then show ?thesis using Some u c f w2 blocks_sound_ok [OF assms(1)] by (simp add: http_post_sse_def request_done_def)
  next
    case fd: (Some fd)
    let ?req = "request_head path host key (length body)"
    let ?w3 = "w2\<lparr>w_pieces := cn_pieces c\<rparr>"
    show ?thesis
    proof (cases "4096 \<le> length ?req")
      case True
      then show ?thesis using Some u c f w2 fd blocks_sound_ok [OF assms(1)]
        by (simp add: http_post_sse_def request_done_def Let_def)
    next
      case False
      have "w_fds ?w3 - {fd} = w_fds w" using w2 fd by auto
      then have "returns_or_hangs (\<not> cn_close c) (request_done (w_fds w)) (post_on fd c ?req body (st, ?w3))"
        using post_on_keeps [OF assms(1), of c ?w3 fd ?req body] by simp
      then show ?thesis using Some u c f fd False hang
        by (cases "post_on fd c ?req body (st, ?w3)") (auto simp: http_post_sse_def Let_def)
    qed
  qed
qed

end
