(* ===== verification/NetProps.thy ===== *)
theory NetProps
  imports Net
begin

section \<open>Properties of the transport and of one turn\<close>

text \<open>
  That one request ends, closes what it opens and reports every failure, and what it delivers when the
  server answers: the message of the event stream, from the bytes of the connection.
\<close>

subsection \<open>Totality and cleanup\<close>

text \<open>
  The body reader always returns: for every connection, however it is cut up, garbled
  or truncated, whatever the two framing headers said, and whatever signals arrive.
\<close>

lemma http_stream_body_returns:
  "\<exists>res. http_stream_body sslio_read chunked clen on_chunk (st, w) = Some res"
  by (rule sse.stream_body_returns)

lemma turn_keeps: "w_fds (snd (turn_result r status st w)) = w_fds w"
proof -
  have "w_fds (put_err s w') = w_fds w'" for s w' by simp
  then show ?thesis
    using poll_fds [of w] by (simp add: turn_result_def Let_def split_beta split: option.split)
qed

lemma turn_codes: "fst (turn_result r status st w) \<in> {0, - 1, - 2, - 3}"
  by (simp add: turn_result_def Let_def split_beta split: option.split)

definition turn_done :: "nat set \<Rightarrow> int \<times> (stream_state_t \<times> world) \<Rightarrow> bool" where
  "turn_done F = (\<lambda>(r, (st, w)). r \<in> {0, - 1, - 2, - 3} \<and> w_fds w = F \<and> blocks_sound st)"

lemma do_turn_returns:
  assumes "stream_ok st" and "fds_wf w"
  shows "returns_or_hangs (\<exists>c rest. w_connections w = c # rest \<and> \<not> cn_close c) (turn_done (w_fds w))
    (do_turn url key body (st, w))"
proof (cases "http_post_sse url key body (st, w)")
  case None
  then show ?thesis using post_keeps [OF assms, of url key body] by (simp add: do_turn_def)
next
  case (Some x)
  obtain r status st' w1 where x: "x = (r, status, (st', w1))" by (metis surj_pair)
  have p: "w_fds w1 = w_fds w" "blocks_sound st'"
    using post_keeps [OF assms, of url key body] by (simp_all add: Some x request_done_def)
  obtain res w2 where t: "turn_result r status st' w1 = (res, w2)" by (metis surj_pair)
  have "res \<in> {0, - 1, - 2, - 3}" "w_fds w2 = w_fds w"
    using turn_codes [of r status st' w1] turn_keeps [of r status st' w1] p(1) t by simp_all
  then show ?thesis using p(2) t by (simp add: do_turn_def Some x turn_done_def)
qed


lemma fds_wf_calm [simp]: "fds_wf calm_world"
  by (simp add: fds_wf_def calm_world_def)


subsection \<open>Chunked transfer\<close>

lemma deliver_chunks: "deliver on_chunk ps sw = foldl (\<lambda>sw p. snd (on_chunk p sw)) sw ps"
  by (simp add: deliver_def)

lemma chunked_transfer:
  assumes "plain_world w" and "list_all chunk_ok cs" and "size_line l0 0"
    and "to_come w = chunk_wire cs @ l0 @ CRLF @ r"
  shows "\<exists>q st' w'. http_stream_body sslio_read True clen on_chunk (stream_zero, w) = Some (0, (st', with_pieces q w'))
    \<and> snd (on_chunk (concat (map snd cs)) (stream_zero, w)) = (st', w')"
proof -
  have lr: "line_rest []" by (simp add: line_rest_def)
  have rest: "to_come w = [] @ chunk_wire cs @ l0 @ CRLF @ r" using assms(4) by simp
  obtain ps q st' w' where "chunked_body sslio_read on_chunk (stream_zero, w) = Some (0, (st', with_pieces q w'))"
    "deliver on_chunk ps (stream_zero, w) = (st', w')" "concat ps = concat (map snd cs)"
    using sse.chunked_body_delivers [OF assms(2,3,1) lr rest] by blast
  then show ?thesis
    using chunks_concat [OF assms(1) head_len_ok_zero, of ps] by (auto simp: http_stream_body_def deliver_chunks)
qed

text \<open>
  \<^bold>\<open>C8\<close> Chunked decoding is independent of the TLS records: for every list of chunks with
  their size lines, and every way of cutting the encoded bytes into records (also between the CR
  and the LF after a chunk, where the code reads on with half of it), the callback ends in the state
  it has after receiving the payload at once.
\<close>

theorem chunked_decoding:
  assumes "plain_world w" and "list_all chunk_ok cs" and "size_line l0 0"
    and "concat (w_pieces w) = chunk_wire cs @ l0 @ CRLF @ CRLF"
  shows "\<exists>q st' w'. http_stream_body sslio_read True clen on_chunk (stream_zero, w) = Some (0, (st', with_pieces q w'))
    \<and> snd (on_chunk (concat (map snd cs)) (stream_zero, w)) = (st', w')"
  using chunked_transfer [OF assms(1-3), of CRLF] assms(4) by (simp add: to_come_def)

lemma size_line_examples: "size_line ''3'' 3" "size_line ''0'' 0"
  by (simp_all add: size_line_def strtol_def is_space_def skip_0x_def digit_in_def is_digit_def byte_def)

theorem chunked_decoding_witness:
  "\<exists>q st' w'. http_stream_body sslio_read True (- 1) on_chunk
      (stream_zero, with_pieces [''3'' @ CRLF @ ''a'', ''bc'' @ [CR], [LF] @ ''0'' @ CRLF @ CRLF] calm_world)
      = Some (0, (st', with_pieces q w'))"
proof -
  let ?w = "with_pieces [''3'' @ CRLF @ ''a'', ''bc'' @ [CR], [LF] @ ''0'' @ CRLF @ CRLF] calm_world"
  have "plain_world ?w" by simp
  moreover have "list_all chunk_ok [(''3'', ''abc'')]" using size_line_examples(1) by (simp add: chunk_ok_def eval_nat_numeral)
  ultimately show ?thesis
    using chunked_decoding [of ?w "[(''3'', ''abc'')]" "''0''" "- 1"] size_line_examples(2) by auto
qed

subsection \<open>A whole exchange\<close>

text \<open>What the terminal shows of a message.\<close>

definition shown :: "sitem list \<Rightarrow> string" where
  "shown its = concat (map (\<lambda>it. case it of SText ds \<Rightarrow> concat ds | STool _ _ _ \<Rightarrow> []) its)"

lemma emit_items_shown: "emit_items its w = (if w_json w then w else put_out (shown its) w)"
proof (induction its arbitrary: w)
  case Nil
  then show ?case by (simp add: shown_def put_out_def)
next
  case (Cons it its)
  show ?case by (cases it) (simp_all add: Cons.IH, simp_all add: shown_def put_out_def)
qed

definition with_fds :: "nat set \<Rightarrow> nat \<Rightarrow> world \<Rightarrow> world" where
  "with_fds F m w = w\<lparr>w_fds := F, w_next_fd := m\<rparr>"

definition same_but_fds :: "world \<Rightarrow> world \<Rightarrow> bool" where
  "same_but_fds w w' \<longleftrightarrow> (\<exists>F m. w' = with_fds F m w)"

lemma open_close_fds:
  "snd (open_socket w) = with_fds (insert (w_next_fd w) (w_fds w)) (Suc (w_next_fd w)) w"
  "close_fd fd w = with_fds (w_fds w - {fd}) (w_next_fd w) w"
  by (simp_all add: open_socket_def close_fd_def with_fds_def)

lemma with_fds_twice [simp]: "with_fds F m (with_fds G n w) = with_fds F m w"
  by (simp add: with_fds_def)

lemma same_but_fds_open: "same_but_fds w (snd (open_socket w))" "same_but_fds w (close_fd fd (snd (open_socket w)))"
  by (auto simp: same_but_fds_def open_close_fds)

lemma same_but_fds_trans: "same_but_fds w w' \<Longrightarrow> same_but_fds w' w'' \<Longrightarrow> same_but_fds w w''"
  unfolding same_but_fds_def by (metis with_fds_twice)

lemma connect_loop_connects:
  "\<exists>a \<in> set as. connects a \<Longrightarrow> \<exists>fd w'. connect_loop as w = (Some fd, w') \<and> same_but_fds w w'"
proof (induction as arbitrary: w)
  case (Cons a as)
  show ?case
  proof (cases "connects a")
    case True
    then have "ad_socket a" by (simp add: connects_def)
    with True show ?thesis using same_but_fds_open by (auto simp: connect_loop_step)
  next
    case False
    then have ex: "\<exists>a \<in> set as. connects a" using Cons.prems by simp
    show ?thesis
    proof (cases "ad_socket a")
      case True
      then show ?thesis
        using False Cons.IH [OF ex, of "close_fd (w_next_fd w) (snd (open_socket w))"] same_but_fds_open(2)
          same_but_fds_trans by (fastforce simp: connect_loop_step)
    next
      case no: False
      then show ?thesis using Cons.IH [OF ex, of w] by (simp add: connect_loop_step)
    qed
  qed
qed simp

text \<open>The head of a chunked 200 response; a connection that accepts the request, delivers \<open>payload\<close> and
  answers the close.\<close>

definition sse_head :: "string \<Rightarrow> bool" where
  "sse_head hdr \<longleftrightarrow> ends_first (CRLF @ CRLF) hdr \<and> length hdr < 8192
     \<and> scan_status (cstr hdr) = Some 200 \<and> fst (header_scan (cstr hdr) False (- 1))"

definition delivers :: "connection \<Rightarrow> string \<Rightarrow> bool" where
  "delivers c payload \<longleftrightarrow> (\<exists>as. cn_addrs c = Some as \<and> (\<exists>a \<in> set as. connects a))
     \<and> cn_write_head c \<and> cn_write_body c \<and> cn_flush c \<and> cn_close c
     \<and> (\<exists>hdr cs l0. sse_head hdr \<and> list_all chunk_ok cs \<and> size_line l0 0
          \<and> concat (cn_pieces c) = hdr @ chunk_wire cs @ l0 @ CRLF @ CRLF \<and> payload = concat (map snd cs))"

lemma post_on_delivers:
  assumes w: "plain_world w" and c: "delivers c payload" "w_pieces w = cn_pieces c"
  shows "\<exists>q q1 st' w'. post_on fd c req body (stream_zero, w) = Some (0, 200, (st', close_fd fd (with_pieces q w')))
    \<and> snd (on_chunk payload (stream_zero, with_pieces q1 (sent (req @ body) w))) = (st', w')"
proof -
  obtain hdr cs l0 where h: "sse_head hdr" "list_all chunk_ok cs" "size_line l0 0"
    "concat (cn_pieces c) = hdr @ chunk_wire cs @ l0 @ CRLF @ CRLF" "payload = concat (map snd cs)"
    using c(1) by (auto simp: delivers_def)
  let ?w = "sent (req @ body) w"
  let ?h = "\<lparr>hh_status = 200, hh_hdr = hdr, hh_chunked = fst (header_scan (cstr hdr) False (- 1)),
               hh_clen = snd (header_scan (cstr hdr) False (- 1))\<rparr>"
  have "to_come ?w = hdr @ chunk_wire cs @ l0 @ CRLF @ CRLF" using h(4) c(2) by (simp add: to_come_def sent_def)
  then obtain w1 where w1: "http_read_headers sslio_read 8192 ?w = (Some ?h, w1)"
    "to_come w1 = chunk_wire cs @ l0 @ CRLF @ CRLF" "same_but_pieces ?w w1"
    using tls.read_headers_split [of ?w hdr _ 8192 200] h(1) by (auto simp: sse_head_def)
  obtain q1 where q1: "w1 = with_pieces q1 ?w" using w1(3) by (auto simp: same_but_pieces_iff)
  have "plain_world ?w" using w by (simp add: plain_world_def quiet_def sent_def)
  then have p1: "plain_world w1" by (simp add: q1)
  obtain q st' w' where b: "http_stream_body sslio_read True (hh_clen ?h) on_chunk (stream_zero, w1)
      = Some (0, (st', with_pieces q w'))" "snd (on_chunk payload (stream_zero, w1)) = (st', w')"
    using chunked_transfer [OF p1 h(2,3) w1(2)] h(5) by blast
  have "post_on fd c req body (stream_zero, w) = Some (0, 200, (st', close_fd fd (with_pieces q w')))"
    using c(1) h(1) w1(1) b(1) by (simp add: post_on_def sslio_close_def delivers_def sse_head_def)
  then show ?thesis using b(2) q1 by blast
qed

lemma plain_with_fds [simp]: "plain_world (with_fds F m w) = plain_world w" "plain_world (sent s w) = plain_world w"
  by (simp_all add: with_fds_def sent_def plain_world_def quiet_def)

definition with_connections :: "connection list \<Rightarrow> world \<Rightarrow> world" where
  "with_connections cs w = w\<lparr>w_connections := cs\<rparr>"

lemma turn_delivers:
  assumes w: "plain_world w" "w_connections w = c # rest" and c: "delivers c (wire_text (message_events 0 its))"
    and its: "list_all item_ok its" "length its \<le> MAX_BLOCKS" "lines_fit (message_events 0 its)"
    and url: "parse_url url 256 1024 = Some (host, port, path)"
    and req: "length (request_head path host key (length body)) < 4096"
  shows "\<exists>st' w'. do_turn url key body (stream_zero, w) = Some (0, (st', w'))
    \<and> blocks_to_content st' = message_content its
    \<and> w_out w' = w_out w @ (if w_json w then [] else shown its)
    \<and> w_sent w' = w_sent w @ request_head path host key (length body) @ body"
proof -
  let ?w1 = "w\<lparr>w_connections := rest\<rparr>"
  let ?req = "request_head path host key (length body)"
  obtain as where as: "cn_addrs c = Some as" "\<exists>a \<in> set as. connects a" using c by (auto simp: delivers_def)
  obtain fd F m where f: "connect_loop as ?w1 = (Some fd, with_fds F m ?w1)"
    using connect_loop_connects [OF as(2), of ?w1] by (auto simp: same_but_fds_def)
  let ?w2 = "(with_fds F m ?w1)\<lparr>w_pieces := cn_pieces c\<rparr>"
  have p2: "plain_world ?w2" using w(1) by (simp add: plain_world_def quiet_def with_fds_def)
  obtain q q1 st' w3 where post: "post_on fd c ?req body (stream_zero, ?w2) = Some (0, 200, (st', close_fd fd (with_pieces q w3)))"
    and run: "snd (on_chunk (wire_text (message_events 0 its)) (stream_zero, with_pieces q1 (sent (?req @ body) ?w2))) = (st', w3)"
    using post_on_delivers [OF p2 c, of fd ?req body] by auto
  let ?w4 = "with_pieces q1 (sent (?req @ body) ?w2)"
  have p4: "plain_world ?w4" using p2 by simp
  have res: "w3 = emit_items its ?w4" "blocks_to_content st' = message_content its"
    using stream_message [OF p4 its] run by auto
  let ?w5 = "close_fd fd (with_pieces q w3)"
  have p5: "quiet ?w5"
    using w(1) by (simp add: res(1) emit_items_shown plain_world_def quiet_def close_fd_def with_pieces_def
        sent_def with_fds_def)
  have "http_post_sse url key body (stream_zero, w) = Some (0, 200, (st', ?w5))"
    using post w(2) url as(1) f req by (simp add: http_post_sse_def next_connection_def tcp_connect_def)
  then have "do_turn url key body (stream_zero, w) = Some (0, (st', ?w5))"
    using p5 by (simp add: do_turn_def turn_result_def)
  moreover have "w_out ?w5 = w_out w @ (if w_json w then [] else shown its)"
    "w_sent ?w5 = w_sent w @ ?req @ body"
    by (simp_all add: res(1) emit_items_shown close_fd_def with_pieces_def sent_def with_fds_def)
  ultimately show ?thesis using res(2) by blast
qed

text \<open>
  \<^bold>\<open>C1\<close> A whole turn: some address answers, the request is written, a chunked 200 response
  arrives in any records, and its payload is the event stream of any list of text and tool blocks.
  Then the turn succeeds, the stored content is that list, the terminal shows its text, exactly the
  request head and the body have been sent, and the descriptor is closed again.
\<close>

theorem turn_end_to_end:
  assumes "plain_world w" and "w_connections w = c # rest"
    and "delivers c (wire_text (message_events 0 its))"
    and "list_all item_ok its" and "length its \<le> MAX_BLOCKS" and "lines_fit (message_events 0 its)"
    and "parse_url url 256 1024 = Some (host, port, path)"
    and "length (request_head path host key (length body)) < 4096"
  shows "\<exists>st' w'. do_turn url key body (stream_zero, w) = Some (0, (st', w'))
    \<and> blocks_to_content st' = message_content its
    \<and> w_out w' = w_out w @ (if w_json w then [] else shown its)
    \<and> w_sent w' = w_sent w @ request_head path host key (length body) @ body"
  using assms by (rule turn_delivers)

text \<open>A concrete connection for the witness: the second address answers, one byte per chunk.\<close>

definition ok_head :: string where
  "ok_head = ''HTTP/1.1 200 OK'' @ CRLF @ ''Transfer-Encoding: chunked'' @ CRLF @ CRLF"

definition byte_chunks :: "string \<Rightarrow> (string \<times> string) list" where
  "byte_chunks s = map (\<lambda>c. (''1'', [c])) s"

definition good_connection :: "string \<Rightarrow> connection" where
  "good_connection payload = \<lparr>cn_addrs = Some [\<lparr>ad_socket = True, ad_connect = Refused\<rparr>,
       \<lparr>ad_socket = True, ad_connect = In_progress 1 0\<rparr>],
     cn_write_head = True, cn_write_body = True, cn_flush = True,
     cn_pieces = [ok_head @ chunk_wire (byte_chunks payload), ''0'' @ CRLF @ CRLF], cn_close = True\<rparr>"

lemma ok_head_split: "ends_first (CRLF @ CRLF) ok_head" "length ok_head < 8192"
  by code_simp+

lemma ok_head_scan: "scan_status (cstr ok_head) = Some 200" "fst (header_scan (cstr ok_head) False (- 1))"
  by code_simp+

lemma byte_chunks_ok: "list_all chunk_ok (byte_chunks s)" "concat (map snd (byte_chunks s)) = s"
proof -
  have "size_line ''1'' (Suc 0)"
    by (simp add: size_line_def strtol_def is_space_def skip_0x_def digit_in_def is_digit_def byte_def)
  then show "list_all chunk_ok (byte_chunks s)" by (induction s) (auto simp: byte_chunks_def chunk_ok_def)
  show "concat (map snd (byte_chunks s)) = s" by (induction s) (auto simp: byte_chunks_def)
qed

lemma good_connection_delivers: "delivers (good_connection payload) payload"
proof -
  let ?P = "\<lambda>hdr cs l0. sse_head hdr \<and> list_all chunk_ok cs \<and> size_line l0 0
     \<and> concat (cn_pieces (good_connection payload)) = hdr @ chunk_wire cs @ l0 @ CRLF @ CRLF
     \<and> payload = concat (map snd cs)"
  have "?P ok_head (byte_chunks payload) ''0''"
    using ok_head_split ok_head_scan byte_chunks_ok size_line_examples(2)
    by (simp add: sse_head_def good_connection_def)
  then have "\<exists>hdr cs l0. ?P hdr cs l0" by blast
  then show ?thesis by (simp add: delivers_def good_connection_def connects_def)
qed

theorem turn_end_to_end_witness:
  "\<exists>st' w'. do_turn ''https://api.kimi.com/coding'' ''key'' ''{}''
      (stream_zero, calm_world\<lparr>w_connections := [good_connection (wire_text (message_events 0 [SText [''h'', ''i'']]))]\<rparr>)
      = Some (0, (st', w'))
    \<and> blocks_to_content st' = Some (jarr None [jobj None [jstr ''type'' ''text'', jstr ''text'' ''hi'']])
    \<and> w_out w' = ''hi''"
proof -
  let ?its = "[SText [''h'', ''i'']]"
  let ?w = "calm_world\<lparr>w_connections := [good_connection (wire_text (message_events 0 ?its))]\<rparr>"
  have p: "plain_world ?w" by (simp add: plain_world_def quiet_def calm_world_def)
  have c: "w_connections ?w = good_connection (wire_text (message_events 0 ?its)) # []" by simp
  have its: "list_all item_ok ?its" "length ?its \<le> MAX_BLOCKS"
    by (simp_all add: no_nul_def MAX_BLOCK_SIZE_def MAX_BLOCKS_def)
  have "length (show_nat (length ''{}'')) \<le> 1" by (rule length_show_nat_bound) simp_all
  then have req: "length (request_head ''/coding'' ''api.kimi.com'' ''key'' (length ''{}'')) < 4096"
    by (simp add: request_head_def)
  have v: "message_content ?its = Some (jarr None [jobj None [jstr ''type'' ''text'', jstr ''text'' ''hi'']])"
    "w_out ?w @ (if w_json ?w then [] else shown ?its) = ''hi''"
    by (simp_all add: message_content_def shown_def calm_world_def)
  show ?thesis
    using turn_end_to_end [OF p c good_connection_delivers its lines_fit_hi parse_url_example req, unfolded v] by blast
qed

subsection \<open>What a close that does not return does\<close>

lemma turn_hangs:
  assumes "w_connections w = c # rest" and "cn_addrs c = Some as" and "\<exists>a \<in> set as. connects a"
    and "cn_write_head c \<and> cn_write_body c \<and> cn_flush c" and "\<not> cn_close c"
    and hdr: "ends_first (CRLF @ CRLF) hdr" "length hdr < 8192" "scan_status (cstr hdr) = Some status"
    and "concat (cn_pieces c) = hdr @ after"
    and "parse_url url 256 1024 = Some (host, port, path)"
    and "length (request_head path host key (length body)) < 4096"
  shows "do_turn url key body (st, w) = None"
proof -
  let ?w1 = "w\<lparr>w_connections := rest\<rparr>"
  let ?req = "request_head path host key (length body)"
  obtain fd F m where f: "connect_loop as ?w1 = (Some fd, with_fds F m ?w1)"
    using connect_loop_connects [OF assms(3), of ?w1] by (auto simp: same_but_fds_def)
  let ?w2 = "sent (?req @ body) ((with_fds F m ?w1)\<lparr>w_pieces := cn_pieces c\<rparr>)"
  have "to_come ?w2 = hdr @ after" using assms(9) by (simp add: to_come_def sent_def)
  then obtain h w3 where h: "http_read_headers sslio_read 8192 ?w2 = (Some h, w3)"
    using tls.read_headers_split [of ?w2 hdr after 8192 status] hdr by auto
  obtain r st2 w4 where "http_stream_body sslio_read (hh_chunked h) (hh_clen h) on_chunk (st, w3) = Some (r, (st2, w4))"
    using sse.stream_body_returns [of "hh_chunked h" "hh_clen h" st w3] by (metis surj_pair)
  then have "post_on fd c ?req body (st, (with_fds F m ?w1)\<lparr>w_pieces := cn_pieces c\<rparr>) = None"
    using assms(4,5) h by (simp add: post_on_def sslio_close_def split_beta Let_def)
  then have "http_post_sse url key body (st, w) = None"
    using assms f by (simp add: http_post_sse_def next_connection_def tcp_connect_def)
  then show ?thesis by (simp add: do_turn_def)
qed

subsection \<open>What a broken stream does\<close>

lemma read_nothing: "to_come w = [] \<Longrightarrow> \<exists>q. read_size_line sslio_read w = (None, with_pieces q w)"
proof -
  assume n: "to_come w = []"
  obtain q where "sslio_read 1 w = (None, with_pieces q w)"
    using n by (cases rule: sslio_cases [of w 1]) auto
  moreover have "(31 :: nat) = Suc 30" by simp
  ultimately have "read_size_line sslio_read w = (None, with_pieces q w)"
    by (simp only: read_size_line_def read_until.simps) simp
  then show ?thesis by blast
qed

text \<open>
  \<^bold>\<open>C15\<close> A transport failure after a 200 head counts as success: when the connection breaks
  right after the response head (and the close returns), \<open>do_turn\<close> still returns 0, and the turn yields an assistant
  message with an empty content array instead of a transport error.
\<close>

theorem broken_stream_accepted:
  assumes "plain_world w" and "w_connections w = c # rest"
    and "cn_addrs c = Some as" and "\<exists>a \<in> set as. connects a"
    and "cn_write_head c \<and> cn_write_body c \<and> cn_flush c \<and> cn_close c"
    and "sse_head hdr" and "concat (cn_pieces c) = hdr"
    and "parse_url url 256 1024 = Some (host, port, path)"
    and "length (request_head path host key (length body)) < 4096"
  shows "\<exists>w'. do_turn url key body (stream_zero, w) = Some (0, (stream_zero, w'))
    \<and> blocks_to_content stream_zero = Some (jarr None []) \<and> w_err w' = w_err w"
proof -
  let ?w1 = "w\<lparr>w_connections := rest\<rparr>"
  let ?req = "request_head path host key (length body)"
  obtain fd F m where f: "connect_loop as ?w1 = (Some fd, with_fds F m ?w1)"
    using connect_loop_connects [OF assms(4), of ?w1] by (auto simp: same_but_fds_def)
  let ?w2 = "sent (?req @ body) ((with_fds F m ?w1)\<lparr>w_pieces := cn_pieces c\<rparr>)"
  have "to_come ?w2 = hdr @ []" using assms(7) by (simp add: to_come_def sent_def)
  then obtain h w3 where h: "http_read_headers sslio_read 8192 ?w2 = (Some h, w3)" "hh_status h = 200" "hh_chunked h"
    "to_come w3 = []" "same_but_pieces ?w2 w3"
    using tls.read_headers_split [of ?w2 hdr "[]" 8192 200] assms(6) by (auto simp: sse_head_def)
  obtain q3 where q3: "w3 = with_pieces q3 ?w2" using h(5) by (auto simp: same_but_pieces_iff)
  have "plain_world ?w2" using assms(1) by (simp add: plain_world_def quiet_def sent_def with_fds_def)
  then have p3: "poll_interrupt w3 = (False, w3)" by (simp add: q3 plain_world_def)
  obtain q4 where "read_size_line sslio_read w3 = (None, with_pieces q4 w3)" using read_nothing [OF h(4)] by blast
  then have "http_stream_body sslio_read (hh_chunked h) (hh_clen h) on_chunk (stream_zero, w3)
      = Some (- 1, (stream_zero, with_pieces q4 w3))"
    using h(3) p3 by (simp add: http_stream_body_def chunked_body.simps)
  then have post: "http_post_sse url key body (stream_zero, w)
      = Some (- 1, 200, (stream_zero, close_fd fd (with_pieces q4 w3)))"
    using assms h(1,2) f by (simp add: http_post_sse_def next_connection_def tcp_connect_def post_on_def sslio_close_def)
  have q: "quiet (close_fd fd (with_pieces q4 w3))"
    using assms(1) by (simp add: q3 quiet_def plain_world_def sent_def with_fds_def with_pieces_def close_fd_def)
  have "do_turn url key body (stream_zero, w) = Some (0, (stream_zero, close_fd fd (with_pieces q4 w3)))"
    using post q by (simp add: do_turn_def turn_result_def)
  moreover have "w_err (close_fd fd (with_pieces q4 w3)) = w_err w"
    by (simp add: q3 sent_def with_fds_def with_pieces_def close_fd_def)
  moreover have "blocks_to_content stream_zero = Some (jarr None [])"
    by (simp add: blocks_to_content_def active_blocks_def stream_zero_def)
  ultimately show ?thesis by blast
qed

theorem broken_stream_accepted_witness:
  "\<exists>w'. do_turn ''https://api.kimi.com/coding'' ''key'' ''{}''
      (stream_zero, calm_world\<lparr>w_connections := [(good_connection [])\<lparr>cn_pieces := [ok_head]\<rparr>]\<rparr>)
      = Some (0, (stream_zero, w')) \<and> w_err w' = []"
proof -
  let ?c = "(good_connection [])\<lparr>cn_pieces := [ok_head]\<rparr>"
  let ?w = "calm_world\<lparr>w_connections := [?c]\<rparr>"
  have p: "plain_world ?w" by (simp add: plain_world_def quiet_def calm_world_def)
  have c: "w_connections ?w = ?c # []" by simp
  have a: "cn_addrs ?c = Some [\<lparr>ad_socket = True, ad_connect = Refused\<rparr>,
       \<lparr>ad_socket = True, ad_connect = In_progress 1 0\<rparr>]" by (simp add: good_connection_def)
  have ex: "\<exists>a \<in> set [\<lparr>ad_socket = True, ad_connect = Refused\<rparr>,
       \<lparr>ad_socket = True, ad_connect = In_progress 1 0\<rparr>]. connects a" by (simp add: connects_def)
  have wr: "cn_write_head ?c \<and> cn_write_body ?c \<and> cn_flush ?c \<and> cn_close ?c" by (simp add: good_connection_def)
  have hd: "sse_head ok_head" using ok_head_split ok_head_scan by (simp add: sse_head_def)
  have pc: "concat (cn_pieces ?c) = ok_head" by simp
  have "length (show_nat (length ''{}'')) \<le> 1" by (rule length_show_nat_bound) simp_all
  then have req: "length (request_head ''/coding'' ''api.kimi.com'' ''key'' (length ''{}'')) < 4096"
    by (simp add: request_head_def)
  have "w_err ?w = []" by (simp add: calm_world_def)
  then show ?thesis
    using broken_stream_accepted [OF p c a ex wr hd pc parse_url_example req] by auto
qed

end
