(* ===== verification/Schemas.thy ===== *)
theory Schemas
  imports JRound Sse FileToolProps
begin

section \<open>The tool schemas sent to the model (main.c)\<close>

text \<open>
  The descriptions of the tools that every request carries, and the lookup of a tool by its name with
  the check of its required arguments.
\<close>

text \<open>An add on an existing node; NULL arguments cannot occur here.\<close>

definition added :: "cjson \<Rightarrow> string \<Rightarrow> cjson \<Rightarrow> cjson" where
  "added ob key item =
     (case cJSON_AddItemToObject (Some ob) (Some key) (Some item) of Some j \<Rightarrow> j | None \<Rightarrow> ob)"

definition added_string :: "cjson \<Rightarrow> string \<Rightarrow> string \<Rightarrow> cjson" where
  "added_string ob key s =
     (case cJSON_AddStringToObject (Some ob) (Some key) (Some s) of Some j \<Rightarrow> j | None \<Rightarrow> ob)"

definition pushed :: "cjson \<Rightarrow> cjson \<Rightarrow> cjson" where
  "pushed arr item = (case cJSON_AddItemToArray (Some arr) (Some item) of Some j \<Rightarrow> j | None \<Rightarrow> arr)"

definition add_prop :: "cjson \<Rightarrow> string \<Rightarrow> string \<Rightarrow> cjson" where
  "add_prop props name ty = added props name (added_string cJSON_CreateObject ''type'' ty)"

definition add_required :: "cjson \<Rightarrow> string \<Rightarrow> cjson" where
  "add_required schema name =
     (let schema = (case cJSON_GetObjectItem (Some schema) ''required'' of
                      None \<Rightarrow> added schema ''required'' cJSON_CreateArray | Some _ \<Rightarrow> schema)
      in update_item ''required'' (\<lambda>a. pushed a (cJSON_CreateString (Some name))) schema)"

definition make_tool :: "string \<Rightarrow> string \<Rightarrow> cjson" where
  "make_tool name desc =
     (let t = added_string (added_string cJSON_CreateObject ''name'' name) ''description'' desc;
          schema = added (added_string cJSON_CreateObject ''type'' ''object'') ''properties'' cJSON_CreateObject
      in added t ''input_schema'' schema)"

text \<open>Code that changes the node \<^verbatim>\<open>tool_props(t)\<close> or \<^verbatim>\<open>tool_schema(t)\<close> points to, on the tree.\<close>

definition tool_schema :: "(cjson \<Rightarrow> cjson) \<Rightarrow> cjson \<Rightarrow> cjson" where
  "tool_schema f tool = update_item ''input_schema'' f tool"

definition tool_props :: "(cjson \<Rightarrow> cjson) \<Rightarrow> cjson \<Rightarrow> cjson" where
  "tool_props f tool = tool_schema (update_item ''properties'' f) tool"

definition shell_desc :: string where
  "shell_desc = ''Run a shell command via /bin/sh -c. Returns combined stdout+stderr and exit code.''"

definition make_shell_tool :: cjson where
  "make_shell_tool =
     (let t = make_tool ''shell'' shell_desc;
          t = tool_props (\<lambda>p. add_prop p ''cmd'' ''string'') t
      in tool_schema (\<lambda>s. add_required s ''cmd'') t)"

definition read_file_desc :: string where
  "read_file_desc = ''Read a text file. Returns up to '' @ [APOS] @ ''limit'' @ [APOS]
            @ '' lines starting from '' @ [APOS] @ ''offset'' @ [APOS]
            @ '' (1-indexed), each prefixed with line number + tab. Default limit 2000. Hard cap 256KB. ''
            @ ''For larger files, page through with offset.''"

definition make_read_file_tool :: cjson where
  "make_read_file_tool =
     (let t = make_tool ''read_file'' read_file_desc;
          t = tool_props (\<lambda>p. add_prop p ''path'' ''string'') t;
          t = tool_props (\<lambda>p. add_prop p ''offset'' ''integer'') t;
          t = tool_props (\<lambda>p. add_prop p ''limit'' ''integer'') t
      in tool_schema (\<lambda>s. add_required s ''path'') t)"

definition edit_file_desc :: string where
  "edit_file_desc = ''Edit a file. If '' @ [APOS] @ ''old_string'' @ [APOS] @ '' is empty, write ''
            @ [APOS] @ ''new_string'' @ [APOS] @ '' as the full file contents (creates or overwrites). Otherwise, ''
            @ [APOS] @ ''old_string'' @ [APOS]
            @ '' must appear exactly once in the file and will be replaced with ''
            @ [APOS] @ ''new_string'' @ [APOS]
            @ ''. Errors on 0 or >1 matches. Atomic via .tmp + rename. File size cap 4 MB.''"

definition make_edit_file_tool :: cjson where
  "make_edit_file_tool =
     (let t = make_tool ''edit_file'' edit_file_desc;
          t = tool_props (\<lambda>p. add_prop p ''path'' ''string'') t;
          t = tool_props (\<lambda>p. add_prop p ''old_string'' ''string'') t;
          t = tool_props (\<lambda>p. add_prop p ''new_string'' ''string'') t;
          t = tool_schema (\<lambda>s. add_required s ''path'') t;
          t = tool_schema (\<lambda>s. add_required s ''old_string'') t
      in tool_schema (\<lambda>s. add_required s ''new_string'') t)"

definition all_tools :: cjson where
  "all_tools = pushed (pushed (pushed cJSON_CreateArray make_shell_tool) make_read_file_tool) make_edit_file_tool"

subsection \<open>Their form\<close>

lemma added_simps [simp]:
  "added (jobj ko ms) k j = jobj ko (ms @ [set_string (Some k) j])"
  "added_string (jobj ko ms) k s = jobj ko (ms @ [jstr k s])"
  "pushed (jarr ko xs) j = jarr ko (xs @ [j])"
  by (simp_all add: added_def added_string_def pushed_def)

lemma update_item_jobj [simp]: "update_item k f (jobj ko ms) = jobj ko (update_key k f ms)"
  by (simp add: update_item_def jobj_def)

definition jarg :: "string \<Rightarrow> string \<Rightarrow> cjson" where
  "jarg name ty = jobj (Some name) [jstr ''type'' ty]"

definition jelem :: "string \<Rightarrow> cjson" where
  "jelem s = cJSON_CreateString (Some s)"

text \<open>Name, description, declared arguments with their types, required arguments.\<close>

definition tool_form :: "string \<Rightarrow> string \<Rightarrow> (string \<times> string) list \<Rightarrow> string list \<Rightarrow> cjson" where
  "tool_form name desc args req =
     jobj None [jstr ''name'' name, jstr ''description'' desc,
       jobj (Some ''input_schema'') [jstr ''type'' ''object'',
         jobj (Some ''properties'') (map (\<lambda>(n, ty). jarg n ty) args),
         jarr (Some ''required'') (map jelem req)]]"

lemmas tool_defs = make_tool_def tool_props_def tool_schema_def add_prop_def add_required_def
  tool_form_def jarg_def jelem_def

lemma tool_forms:
  "make_shell_tool = tool_form ''shell'' shell_desc [(''cmd'', ''string'')] [''cmd'']"
  "make_read_file_tool = tool_form ''read_file'' read_file_desc
     [(''path'', ''string''), (''offset'', ''integer''), (''limit'', ''integer'')] [''path'']"
  "make_edit_file_tool = tool_form ''edit_file'' edit_file_desc
     [(''path'', ''string''), (''old_string'', ''string''), (''new_string'', ''string'')]
     [''path'', ''old_string'', ''new_string'']"
  by (simp_all add: make_shell_tool_def make_read_file_tool_def make_edit_file_tool_def tool_defs)

lemma all_tools_form: "all_tools = jarr None [make_shell_tool, make_read_file_tool, make_edit_file_tool]"
  by (simp add: all_tools_def)

subsection \<open>The schemas and the dispatcher agree\<close>

definition tool_name :: "cjson \<Rightarrow> string option" where
  "tool_name t = item_string (Some t) ''name''"

text \<open>The strings in the \<^verbatim>\<open>required\<close> array of a tool.\<close>

definition tool_required :: "cjson \<Rightarrow> string set" where
  "tool_required t =
     {s. \<exists>r c. cJSON_GetObjectItem (cJSON_GetObjectItem (Some t) ''input_schema'') ''required'' = Some r
          \<and> c \<in> set (cj_child r) \<and> cJSON_GetStringValue (Some c) = Some s}"

lemma jelem_value [simp]: "cJSON_GetStringValue (Some (jelem s)) = Some s"
  by (simp add: jelem_def create_defs cJSON_GetStringValue_def)

lemma tool_form_parts [simp]:
  "tool_name (tool_form name desc args req) = Some name"
  "tool_required (tool_form name desc args req) = set req"
  by (auto simp: tool_name_def tool_required_def tool_form_def item_string_def)

lemma refuse:
  "input_string input ''cmd'' = None \<Longrightarrow> dispatch_tool ''shell'' input w = (''error: shell requires cmd'', w)"
  "input_string input ''path'' = None \<Longrightarrow> dispatch_tool ''read_file'' input w = (''error: read_file requires path'', w)"
  "r \<in> {''path'', ''old_string'', ''new_string''} \<Longrightarrow> input_string input r = None \<Longrightarrow>
     dispatch_tool ''edit_file'' input w = (''error: edit_file requires path, old_string, new_string'', w)"
proof -
  show "input_string input ''cmd'' = None \<Longrightarrow> dispatch_tool ''shell'' input w = (''error: shell requires cmd'', w)"
    by (simp add: dispatch_tool_def)
  show "input_string input ''path'' = None \<Longrightarrow> dispatch_tool ''read_file'' input w = (''error: read_file requires path'', w)"
    by (simp add: dispatch_tool_def)
  assume "r \<in> {''path'', ''old_string'', ''new_string''}" "input_string input r = None"
  then have "input_string input ''path'' = None \<or> input_string input ''old_string'' = None \<or> input_string input ''new_string'' = None"
    by (elim insertE) simp_all
  then show "dispatch_tool ''edit_file'' input w = (''error: edit_file requires path, old_string, new_string'', w)"
    by (elim disjE) (simp_all add: dispatch_tool_def split: option.split)
qed

text \<open>
  \<^bold>\<open>C21\<close> Schema and dispatcher agree: for each tool announced to the model, a call under its name
  that lacks an argument its schema lists as required is answered with an error, before anything is
  run, written or printed.
\<close>

theorem dispatch_refuses_missing:
  assumes "t \<in> set (cj_child all_tools)" and "tool_name t = Some name" and "r \<in> tool_required t"
    and "input_string input r = None"
  shows "failed (fst (dispatch_tool name input w)) \<and> snd (dispatch_tool name input w) = w"
proof -
  consider "t = make_shell_tool" | "t = make_read_file_tool" | "t = make_edit_file_tool"
    using assms(1) by (auto simp: all_tools_form)
  then show ?thesis
  proof cases
    case 1
    then have "name = ''shell''" "r = ''cmd''" using assms(2,3) by (simp_all add: tool_forms)
    then show ?thesis using refuse(1) assms(4) by simp
  next
    case 2
    then have "name = ''read_file''" "r = ''path''" using assms(2,3) by (simp_all add: tool_forms)
    then show ?thesis using refuse(2) assms(4) by simp
  next
    case 3
    then have "name = ''edit_file''" "r \<in> {''path'', ''old_string'', ''new_string''}"
      using assms(2,3) by (simp_all add: tool_forms)
    then show ?thesis using refuse(3) assms(4) by simp
  qed
qed

theorem dispatch_refuses_missing_witness:
  "snd (dispatch_tool ''edit_file'' (Some (jobj None [jstr ''path'' ''f''])) calm_world) = calm_world"
proof -
  have "make_edit_file_tool \<in> set (cj_child all_tools)" by (simp add: all_tools_form)
  moreover have "tool_name make_edit_file_tool = Some ''edit_file''" "''old_string'' \<in> tool_required make_edit_file_tool"
    by (simp_all add: tool_forms)
  ultimately show ?thesis
    using dispatch_refuses_missing [of make_edit_file_tool "''edit_file''" "''old_string''"
        "Some (jobj None [jstr ''path'' ''f''])" calm_world]
    by (simp add: input_string_def)
qed

lemma wf_jelem [simp]: "no_nul s \<Longrightarrow> wf_body (jelem s)" "cj_string (jelem s) = None"
  by (simp_all add: jelem_def create_defs)

lemma wf_tool_form: "no_nul name \<Longrightarrow> no_nul desc \<Longrightarrow> list_all (\<lambda>(n, ty). no_nul n \<and> no_nul ty) args \<Longrightarrow>
    list_all no_nul req \<Longrightarrow> wf_body (tool_form name desc args req) \<and> cj_string (tool_form name desc args req) = None"
  by (auto simp: tool_form_def jarg_def list_all_iff)

lemma wf_all_tools: "wf_json all_tools"
  using wf_tool_form [of _ shell_desc] wf_tool_form [of _ read_file_desc] wf_tool_form [of _ edit_file_desc]
  by (simp add: wf_json_def all_tools_form tool_forms shell_desc_def read_file_desc_def edit_file_desc_def)

end
