(* ===== verification/Chat.thy ===== *)
theory Chat
  imports Session NetProps Schemas
begin

section \<open>A chat turn: the agent's loop (main.c)\<close>

text \<open>
  \<open>chat_turn\<close> sends the conversation, stores the answer, runs the tools it asks for, stores their
  results, and starts over until the model asks for no tool.
\<close>

definition chat_request :: "string \<Rightarrow> string \<Rightarrow> cjson \<Rightarrow> cjson \<Rightarrow> cjson option" where
  "chat_request model system_prompt messages tools =
     (let req = Some cJSON_CreateObject;
          req = cJSON_AddStringToObject req (Some ''model'') (Some model);
          req = cJSON_AddNumberToObject req (Some ''max_tokens'') (Fin 4096);
          req = cJSON_AddStringToObject req (Some ''system'') (Some system_prompt);
          req = cJSON_AddItemReferenceToObject req (Some ''messages'') (Some messages);
          req = cJSON_AddItemReferenceToObject req (Some ''tools'') (Some tools)
      in cJSON_AddBoolToObject req (Some ''stream'') True)"

text \<open>The results of the tool calls among the blocks, run in their order.\<close>

definition tool_result :: "block_t \<Rightarrow> string \<Rightarrow> cjson option" where
  "tool_result b out =
     (let res = Some cJSON_CreateObject;
          res = cJSON_AddStringToObject res (Some ''type'') (Some ''tool_result'');
          res = cJSON_AddStringToObject res (Some ''tool_use_id'') (Some (b_id b))
      in cJSON_AddStringToObject res (Some ''content'') (Some out))"

definition block_input :: "block_t \<Rightarrow> cjson option" where
  "block_input b = cJSON_Parse (Some (if 0 < length (bdata (b_partial b)) then cstr (bdata (b_partial b)) else ''{}''))"

fun tool_results :: "block_t list \<Rightarrow> cjson option \<Rightarrow> world \<Rightarrow> cjson option \<times> world" where
  "tool_results [] results w = (results, w)"
| "tool_results (b # bs) results w =
     (if b_type b \<noteq> ''tool_use'' then tool_results bs results w
      else
        let (out, w) = dispatch_tool (b_name b) (block_input b) w
        in tool_results bs (cJSON_AddItemToArray results (tool_result b out)) w)"

definition role_message :: "string \<Rightarrow> cjson option \<Rightarrow> cjson option" where
  "role_message role c =
     cJSON_AddItemToObject (cJSON_AddStringToObject (Some cJSON_CreateObject) (Some ''role'') (Some role)) (Some ''content'') c"

definition add_message :: "cjson option \<Rightarrow> cjson \<times> world \<Rightarrow> cjson \<times> world" where
  "add_message msg mw =
     (let (messages, w) = mw in
      (case msg of None \<Rightarrow> messages | Some m \<Rightarrow> cj_append_child messages m, session_append msg w))"

text \<open>One pass of the loop: its exit code, or none to go round again.\<close>

definition chat_compact :: "cjson \<times> world \<Rightarrow> int option \<times> (cjson \<times> world)" where
  "chat_compact mw =
     (let (messages, w) = mw; (messages, cleared) = compact_clear_tool_results messages 10 in
      if 0 < cleared then
        let w = put_err (''[compacted: cleared '' @ show_nat cleared @ '' tool result''
                  @ (if cleared = 1 then [] else ''s'') @ ''; retrying]'' @ [LF]) w
        in (None, (messages, session_rewrite (Some messages) w))
      else (Some 1, (messages, put_err (''[context overflow with nothing to compact; bailing]'' @ [LF]) w)))"

definition broken_notice :: "stream_state_t \<Rightarrow> string" where
  "broken_notice st =
     [LF] @ ''[broken tool_use (stop_reason='' @ (if st_stop_reason st \<noteq> [] then st_stop_reason st else ''?'') @ '') ''
     @ [CHR 0xE2, CHR 0x80, CHR 0x94] @ '' discarding turn; retry]'' @ [LF]"

definition chat_answer :: "stream_state_t \<Rightarrow> cjson \<times> world \<Rightarrow> int option \<times> (cjson \<times> world)" where
  "chat_answer st mw =
     (let (messages, w) = mw in
      case blocks_to_content st of
        None \<Rightarrow> (Some 2, (messages, put_err (broken_notice st) w))
      | Some c \<Rightarrow>
          let (messages, w) = add_message (role_message ''assistant'' (Some c)) (messages, w) in
          if \<not> (\<exists>b \<in> set (active_blocks st). b_type b = ''tool_use'') then (Some 0, (messages, w))
          else
            let (results, w) = tool_results (active_blocks st) (Some cJSON_CreateArray) w
            in (None, add_message (role_message ''user'' results) (messages, w)))"

definition chat_pass :: "string \<Rightarrow> string \<Rightarrow> string \<Rightarrow> string \<Rightarrow> cjson \<Rightarrow> cjson \<times> world \<Rightarrow>
    (int option \<times> (cjson \<times> world)) option" where
  "chat_pass url api_key model system_prompt tools mw =
     (let (messages, w) = mw; (intr, w) = poll_interrupt w in
      if intr then Some (Some 130, (messages, w))
      else
        let req_json = cJSON_PrintUnformatted (chat_request model system_prompt messages tools) in
        (case do_turn url api_key req_json (stream_zero, w) of
           None \<Rightarrow> None
         | Some (r, (st, w)) \<Rightarrow>
             let w = put_out [LF] w in
             if r = - 3 then Some (chat_compact (messages, w))
             else if r = - 2 then Some (Some 130, (messages, put_err ([LF] @ ''[interrupted]'' @ [LF]) w))
             else if r < 0 then Some (Some 1, (messages, w))
             else Some (chat_answer st (messages, w))))"

text \<open>The loop; its argument counts the passes left of \<^const>\<open>MAX_TOOL_ITER\<close>.\<close>

fun chat_loop :: "nat \<Rightarrow> string \<Rightarrow> string \<Rightarrow> string \<Rightarrow> string \<Rightarrow> cjson \<Rightarrow> cjson \<times> world \<Rightarrow>
    (int \<times> (cjson \<times> world)) option" where
  "chat_loop 0 url api_key model system_prompt tools mw =
     Some (0, (fst mw, put_err ([LF] @ ''[max tool iterations reached]'' @ [LF]) (snd mw)))"
| "chat_loop (Suc n) url api_key model system_prompt tools mw =
     (case chat_pass url api_key model system_prompt tools mw of
        None \<Rightarrow> None
      | Some (Some code, mw) \<Rightarrow> Some (code, mw)
      | Some (None, mw) \<Rightarrow> chat_loop n url api_key model system_prompt tools mw)"

definition chat_turn :: "string \<Rightarrow> string \<Rightarrow> string \<Rightarrow> string \<Rightarrow> cjson \<Rightarrow> cjson \<Rightarrow> world \<Rightarrow>
    (int \<times> (cjson \<times> world)) option" where
  "chat_turn url api_key model system_prompt messages tools w =
     chat_loop MAX_TOOL_ITER url api_key model system_prompt tools (messages, w)"

end
