(* ===== verification/ChatProps.thy ===== *)
theory ChatProps
  imports Chat
begin

section \<open>The agent's loop: it ends, it pairs calls with results, it reports what it stores\<close>

text \<open>
  What a chat turn does whatever the model, the network and the tools answer: the frame of a request,
  the pairing of every tool call with one result, the agreement of the session file with the conversation,
  and that the loop ends after at most \<^const>\<open>MAX_TOOL_ITER\<close> requests.
\<close>

subsection \<open>What a request changes in the world\<close>

text \<open>
  A request moves descriptors, pieces and scripts of the network; it leaves the files and the
  scripts of the tools, and in \<^verbatim>\<open>--json\<close> mode the standard output.
\<close>

definition request_frame :: "world \<Rightarrow> world \<Rightarrow> bool" where
  "request_frame w w' \<longleftrightarrow> w_json w' = w_json w \<and> w_files w' = w_files w \<and> w_writes w' = w_writes w
     \<and> w_append_ok w' = w_append_ok w \<and> w_commands w' = w_commands w \<and> w_ran w' = w_ran w
     \<and> (w_json w \<longrightarrow> w_out w' = w_out w) \<and> w_next_fd w \<le> w_next_fd w'
     \<and> set (w_connections w') \<subseteq> set (w_connections w)"

lemma request_frame_refl [simp]: "request_frame w w"
  by (simp add: request_frame_def)

lemma request_frame_trans: "request_frame a b \<Longrightarrow> request_frame b c \<Longrightarrow> request_frame a c"
  by (auto simp: request_frame_def)

lemma request_frame_steps [simp]:
  "request_frame w (put_err s w') = request_frame w w'" "request_frame w (sent s w') = request_frame w w'"
  "request_frame w (close_fd fd w') = request_frame w w'" "request_frame w (w'\<lparr>w_pieces := q\<rparr>) = request_frame w w'"
  "request_frame w (with_pieces q w') = request_frame w w'"
  "request_frame w (snd (poll_interrupt w')) = request_frame w w'"
  by (simp_all add: request_frame_def sent_def close_fd_def with_pieces_def poll_interrupt_def on_sigint_def Let_def
      split: list.split)

lemma request_frame_next: "request_frame w (snd (next_connection w))"
  by (auto simp: request_frame_def next_connection_def split: list.split)

lemma request_frame_connect: "request_frame w (snd (connect_loop as w))"
proof (induction as arbitrary: w)
  case (Cons a as)
  have o: "request_frame w (snd (open_socket w))" for w by (simp add: request_frame_def open_socket_def)
  have "request_frame w (snd (connect_loop as (close_fd fd (snd (open_socket w)))))" for fd
    using request_frame_trans [OF _ Cons.IH [of "close_fd fd (snd (open_socket w))"], of w] o by simp
  then show ?case using Cons.IH o by (simp add: connect_loop_step)
qed simp

text \<open>In \<^verbatim>\<open>--json\<close> mode the events print nothing on standard output.\<close>

lemma silent_add:
  "w_json w \<Longrightarrow> w_out (snd (add_text t b w)) = w_out w" "w_out (snd (add_partial t b w)) = w_out w"
  by (simp_all add: add_text_def add_partial_def Let_def split: option.split)

lemma silent_warn [simp]: "w_out (block_overflow_warn i w) = w_out w" "w_json (block_overflow_warn i w) = w_json w"
  by (simp_all add: block_overflow_warn_def)

lemma silent_event: "w_json w \<Longrightarrow> w_out (snd (handle_event st s w)) = w_out w"
proof -
  assume j: "w_json w"
  have "w_out (snd (handle_block_start e st w)) = w_out w" for e
    by (simp add: handle_block_start_def Let_def)
  moreover have "w_out (snd (handle_block_delta e st w)) = w_out w" for e
    using j by (simp add: handle_block_delta_def Let_def split_beta silent_add split: option.split)
  ultimately show ?thesis by (simp add: handle_event_def Let_def split: option.split)
qed

lemma silent_char: "w_json (snd sw) \<Longrightarrow> w_out (snd (on_char c sw)) = w_out (snd sw)"
proof -
  have "w_json w \<Longrightarrow> w_out (snd (on_line st w)) = w_out w" for st w
    by (simp add: on_line_def silent_event)
  then show "w_json (snd sw) \<Longrightarrow> ?thesis" by (simp add: on_char_def split_beta Let_def)
qed

lemma silent_chars: "w_json (snd sw) \<Longrightarrow> w_out (snd (foldl (\<lambda>sw c. on_char c sw) sw cs)) = w_out (snd sw)"
proof (induction cs arbitrary: sw)
  case (Cons c cs)
  have "w_json (snd (on_char c sw))" using Cons.prems same_control_char [of sw c] by (simp add: same_control_def)
  then show ?case using Cons silent_char [of sw c] by simp
qed simp

lemma request_frame_chunk: "request_frame w (snd (snd (on_chunk p (st, w))))"
proof -
  obtain b w1 where p: "poll_interrupt w = (b, w1)" by (metis surj_pair)
  then have w1: "request_frame w w1" using request_frame_steps(6) [of w w] by simp
  have "request_frame w2 (snd (foldl (\<lambda>sw c. on_char c sw) (st', w2) cs))" for st' w2 cs
    using same_control_chars [of "(st', w2)" cs] silent_chars [of "(st', w2)" cs]
    by (simp add: request_frame_def same_control_def)
  from request_frame_trans [OF _ this] w1 show ?thesis by (simp add: on_chunk_def p Let_def)
qed

lemma request_frame_body:
  assumes "http_stream_body sslio_read ch clen on_chunk (st, w) = Some (r, (st', w'))"
  shows "request_frame w w'"
proof -
  have "request_frame w (snd (st', w'))"
  proof (rule sse.stream_body_invariant [OF _ _ _ _ assms, of "\<lambda>uw. request_frame w (snd uw)"])
    show "request_frame w (snd (snd (on_chunk p (u, wa))))" if "request_frame w (snd (u, wa))" for p u wa
      using request_frame_trans [OF _ request_frame_chunk] that by simp
  qed simp_all
  then show ?thesis by simp
qed

lemma request_frame_pieces: "same_but_pieces w w' \<Longrightarrow> request_frame w w'"
  by (auto simp: same_but_pieces_iff)

lemma request_frame_post:
  assumes "post_on fd c req body (st, w) = Some (r, status, (st', w'))"
  shows "request_frame w w'"
proof -
  let ?w = "sent (req @ body) w"
  obtain h w1 where h: "http_read_headers sslio_read 8192 ?w = (h, w1)" by (metis surj_pair)
  have w1: "request_frame w w1"
    using request_frame_trans [OF _ request_frame_pieces [OF read_headers_frame [OF h]]] by simp
  have err: "request_frame w (snd (read_error_body sslio_read raw_head_size [] w1))"
    using request_frame_trans [OF w1 request_frame_pieces [OF read_error_frame]] .
  have body: "request_frame w w2" if "http_stream_body sslio_read ch cl on_chunk (st, w1) = Some (x, (st2, w2))" for ch cl x st2 w2
    using request_frame_trans [OF w1 request_frame_body [OF that]] .
  show ?thesis using assms h w1 err body
    by (auto simp: post_on_def sslio_close_def Let_def split_beta split: if_splits option.splits)
qed

lemma request_frame_http:
  assumes "http_post_sse url key body (st, w) = Some (r, status, (st', w'))"
  shows "request_frame w w'"
proof (cases "parse_url url 256 1024")
  case None
  then show ?thesis using assms by (simp add: http_post_sse_def)
next
  case (Some u)
  obtain host port path where u: "u = (host, port, path)" by (cases u)
  obtain c w1 where c: "next_connection w = (c, w1)" by (metis surj_pair)
  obtain f w2 where f: "tcp_connect (cn_addrs c) w1 = (f, w2)" by (metis surj_pair)
  have "request_frame w w1" using request_frame_next [of w] c by simp
  moreover have "request_frame w1 w2"
    using f request_frame_connect [of w1 "the (cn_addrs c)"] by (auto simp: tcp_connect_def split: option.splits)
  ultimately have w2: "request_frame w w2" by (rule request_frame_trans)
  have post: "request_frame w w3" if "post_on fd c req body (st, w2\<lparr>w_pieces := q\<rparr>) = Some (x, y, (z, w3))" for fd req q x y z w3
    using request_frame_trans [OF _ request_frame_post [OF that]] w2 by simp
  show ?thesis using assms Some u c f w2 post
    by (auto simp: http_post_sse_def Let_def split: option.splits if_splits)
qed

lemma request_frame_turn:
  assumes "do_turn url key body (st, w) = Some (r, (st', w'))"
  shows "request_frame w w'"
proof -
  obtain x status w1 where p: "http_post_sse url key body (st, w) = Some (x, status, (st', w1))"
    "turn_result x status st' w1 = (r, w')"
    using assms by (auto simp: do_turn_def split: option.splits prod.splits)
  have "request_frame w1 (snd (turn_result x status st' w1))"
    by (simp add: turn_result_def Let_def split_beta split: option.split)
  then show ?thesis using request_frame_trans [OF request_frame_http [OF p(1)]] p(2) by simp
qed

subsection \<open>The loop ends\<close>

text \<open>
  What every step keeps: the descriptors, and that the connections still to come are among those there
  were, so that a close that will not return is one of the environment's.
\<close>

definition fds_same :: "world \<Rightarrow> world \<Rightarrow> bool" where
  "fds_same w w' \<longleftrightarrow> w_fds w' = w_fds w \<and> w_next_fd w \<le> w_next_fd w'
     \<and> set (w_connections w') \<subseteq> set (w_connections w)"

definition may_hang :: "world \<Rightarrow> bool" where
  "may_hang w \<longleftrightarrow> (\<exists>c \<in> set (w_connections w). \<not> cn_close c)"

lemma fds_same_refl [simp]: "fds_same w w"
  by (simp add: fds_same_def)

lemma fds_same_trans: "fds_same a b \<Longrightarrow> fds_same b c \<Longrightarrow> fds_same a c"
  by (auto simp: fds_same_def)

lemma fds_same_wf: "fds_same w w' \<Longrightarrow> fds_wf w \<Longrightarrow> fds_wf w'"
  by (auto simp: fds_same_def fds_wf_def)

lemma fds_same_hang: "fds_same w w' \<Longrightarrow> may_hang w' \<Longrightarrow> may_hang w"
  by (auto simp: fds_same_def may_hang_def)

lemma fds_same_steps [simp]:
  "fds_same w (put_err s w') = fds_same w w'" "fds_same w (put_out s w') = fds_same w w'"
  "fds_same w (put_file p f w') = fds_same w w'" "fds_same w (unlink p w') = fds_same w w'"
  "fds_same w (rename p q w') = fds_same w w'" "fds_same w (snd (next_write n w')) = fds_same w w'"
  "fds_same w (snd (next_append_ok w')) = fds_same w w'" "fds_same w (snd (run_command c w')) = fds_same w w'"
  "fds_same w (snd (poll_interrupt w')) = fds_same w w'" "fds_same w (append_file p s w') = fds_same w w'"
  by (simp_all add: fds_same_def put_file_def unlink_def rename_def next_write_def next_append_ok_def run_command_def
      poll_interrupt_def on_sigint_def append_file_def Let_def split: list.split option.split)

lemma fds_same_append [simp]: "fds_same w (session_append m w') = fds_same w w'"
  by (simp add: session_append_def Let_def split_beta)

lemma fds_same_rewrite [simp]: "fds_same w (session_rewrite m w') = fds_same w w'"
  by (simp add: session_rewrite_def Let_def split_beta split: option.split)

lemma fds_same_write [simp]: "fds_same w (snd (atomic_write p t n w')) = fds_same w w'"
  by (simp add: atomic_write_def Let_def split_beta split: option.split)

lemma fds_same_edit [simp]: "fds_same w (snd (edit_file_tool p a b w')) = fds_same w w'"
  by (simp add: edit_file_tool_def Let_def split: option.split)

lemma fds_same_dispatch [simp]: "fds_same w (snd (dispatch_tool name input w')) = fds_same w w'"
proof -
  have "fds_same w (snd (run_shell c w1)) = fds_same w w1" for c w1
    by (simp add: run_shell_def Let_def split_beta split: option.split)
  then show ?thesis by (simp add: dispatch_tool_def Let_def split: option.split)
qed

lemma fds_same_results [simp]: "fds_same w (snd (tool_results bs rs w')) = fds_same w w'"
  by (induction bs arbitrary: rs w') (simp_all add: split_beta Let_def)

lemma fds_same_answer: "fds_same w (snd (snd (chat_answer st (messages, w))))"
  by (simp add: chat_answer_def add_message_def Let_def split_beta split: option.split)

lemma fds_same_compact: "fds_same w (snd (snd (chat_compact (messages, w))))"
  by (simp add: chat_compact_def Let_def split_beta)

lemma exit_codes:
  "fst (chat_answer st mw) \<in> {None, Some 0, Some 2}" "fst (chat_compact mw) \<in> {None, Some 1}"
  by (simp_all add: chat_answer_def chat_compact_def Let_def split_beta split: option.split)

lemma turn_step:
  assumes "fds_wf w"
  shows "returns_or_hangs (may_hang w) (\<lambda>(r, (st, w')). r \<in> {0, - 1, - 2, - 3} \<and> fds_same w w' \<and> blocks_sound st)
    (do_turn url key body (stream_zero, w))"
proof (cases "do_turn url key body (stream_zero, w)")
  case None
  then show ?thesis using do_turn_returns [OF stream_ok_zero assms, of url key body] by (auto simp: may_hang_def)
next
  case (Some x)
  obtain r st w' where x: "x = (r, (st, w'))" by (metis surj_pair)
  have "request_frame w w'" using request_frame_turn Some x by blast
  then show ?thesis using do_turn_returns [OF stream_ok_zero assms, of url key body]
    by (simp add: Some x turn_done_def fds_same_def request_frame_def)
qed

definition pass_done :: "world \<Rightarrow> int option \<times> (cjson \<times> world) \<Rightarrow> bool" where
  "pass_done w = (\<lambda>(c, (m, w')). c \<in> {None, Some 0, Some 1, Some 2, Some 130} \<and> fds_same w w')"

definition run_done :: "world \<Rightarrow> int \<times> (cjson \<times> world) \<Rightarrow> bool" where
  "run_done w = (\<lambda>(c, (m, w')). c \<in> {0, 1, 2, 130} \<and> fds_same w w')"

lemma chat_pass_returns:
  assumes "fds_wf w"
  shows "returns_or_hangs (may_hang w) (pass_done w) (chat_pass url key model sys tools (messages, w))"
proof -
  obtain intr w1 where p: "poll_interrupt w = (intr, w1)" by (metis surj_pair)
  have w1: "fds_same w w1" using fds_same_steps(9) [of w w] p by simp
  let ?req = "cJSON_PrintUnformatted (chat_request model sys messages tools)"
  note ts = turn_step [OF fds_same_wf [OF w1 assms], of url key ?req]
  consider (intr) intr | (hang) "\<not> intr" "do_turn url key ?req (stream_zero, w1) = None"
    | (turn) r st w2 where "\<not> intr" "do_turn url key ?req (stream_zero, w1) = Some (r, (st, w2))"
    by (cases "do_turn url key ?req (stream_zero, w1)") auto
  then show ?thesis
  proof cases
    case intr
    then show ?thesis using p w1 by (simp add: chat_pass_def pass_done_def)
  next
    case hang
    then have "may_hang w" using ts fds_same_hang [OF w1] by simp
    then show ?thesis using p hang by (simp add: chat_pass_def Let_def)
  next
    case turn
    have t2: "fds_same w1 w2" using ts turn by simp
    have w2: "fds_same w (put_out [LF] w2)" using fds_same_trans [OF w1 t2] by simp
    obtain c1 m1 w3 where a: "chat_answer st (messages, put_out [LF] w2) = (c1, (m1, w3))" by (metis surj_pair)
    obtain c2 m2 w4 where b: "chat_compact (messages, put_out [LF] w2) = (c2, (m2, w4))" by (metis surj_pair)
    have "fds_same w w3" "fds_same w w4"
      using fds_same_trans [OF w2 fds_same_answer] fds_same_trans [OF w2 fds_same_compact] a b
      by (metis snd_conv)+
    then show ?thesis
      using p turn a b w2 exit_codes(1) [of st "(messages, put_out [LF] w2)"] exit_codes(2) [of "(messages, put_out [LF] w2)"]
      by (auto simp: chat_pass_def pass_done_def Let_def)
  qed
qed

lemma chat_loop_returns:
  assumes "fds_wf w"
  shows "returns_or_hangs (may_hang w) (run_done w) (chat_loop n url key model sys tools (messages, w))"
  using assms
proof (induction n arbitrary: messages w)
  case 0
  then show ?case by (simp add: run_done_def)
next
  case (Suc n)
  note ps = chat_pass_returns [OF Suc.prems, of url key model sys tools messages]
  consider (hang) "chat_pass url key model sys tools (messages, w) = None"
    | (stop) c m1 w1 where "chat_pass url key model sys tools (messages, w) = Some (Some c, (m1, w1))"
    | (go) m1 w1 where "chat_pass url key model sys tools (messages, w) = Some (None, (m1, w1))"
    by (cases "chat_pass url key model sys tools (messages, w)") (auto, metis not_None_eq)
  then show ?case
  proof cases
    case hang
    then show ?thesis using ps by simp
  next
    case stop
    then show ?thesis using ps by (auto simp: pass_done_def run_done_def)
  next
    case go
    then have s: "fds_same w w1" using ps by (simp add: pass_done_def)
    have "returns_or_hangs (may_hang w1) (run_done w1) (chat_loop n url key model sys tools (m1, w1))"
      using Suc.IH [OF fds_same_wf [OF s Suc.prems]] .
    then show ?thesis using go fds_same_hang [OF s] fds_same_trans [OF s]
      by (auto simp: returns_or_hangs_def run_done_def split: option.splits prod.splits)
  qed
qed

subsection \<open>What one pass adds to the conversation\<close>

definition out_same :: "world \<Rightarrow> world \<Rightarrow> bool" where
  "out_same w w' \<longleftrightarrow> w_out w' = w_out w \<and> w_json w' = w_json w"

lemma out_same_steps [simp]:
  "out_same w w" "out_same w (put_err s w') = out_same w w'"
  "out_same w (put_file p f w') = out_same w w'" "out_same w (unlink p w') = out_same w w'"
  "out_same w (rename p q w') = out_same w w'" "out_same w (snd (next_write n w')) = out_same w w'"
  "out_same w (snd (next_append_ok w')) = out_same w w'" "out_same w (snd (run_command c w')) = out_same w w'"
  "out_same w (snd (poll_interrupt w')) = out_same w w'" "out_same w (append_file p s w') = out_same w w'"
  by (simp_all add: out_same_def put_file_def unlink_def rename_def next_write_def next_append_ok_def run_command_def
      poll_interrupt_def on_sigint_def append_file_def Let_def split: list.split option.split)

lemma out_same_rewrite [simp]: "out_same w (session_rewrite m w') = out_same w w'"
  by (simp add: session_rewrite_def Let_def split_beta split: option.split)

lemma out_same_write [simp]: "out_same w (snd (atomic_write p t n w')) = out_same w w'"
  by (simp add: atomic_write_def Let_def split_beta split: option.split)

lemma out_same_edit [simp]: "out_same w (snd (edit_file_tool p a b w')) = out_same w w'"
  by (simp add: edit_file_tool_def Let_def split: option.split)

lemma out_same_dispatch [simp]: "out_same w (snd (dispatch_tool name input w')) = out_same w w'"
proof -
  have "out_same w (snd (run_shell c w1)) = out_same w w1" for c w1
    by (simp add: run_shell_def Let_def split_beta split: option.split)
  then show ?thesis by (simp add: dispatch_tool_def Let_def split: option.split)
qed

lemma out_same_results [simp]: "out_same w (snd (tool_results bs rs w')) = out_same w w'"
  by (induction bs arbitrary: rs w') (simp_all add: split_beta Let_def)

text \<open>A message of the conversation, and what storing it prints in \<^verbatim>\<open>--json\<close> mode.\<close>

definition chat_message :: "string \<Rightarrow> cjson list \<Rightarrow> cjson" where
  "chat_message role items = jobj None [jstr ''role'' role, jarr (Some ''content'') items]"

lemma role_message_form: "role_message role (Some (jarr None items)) = Some (chat_message role items)"
  by (simp add: role_message_def chat_message_def)

lemma chat_message_parts [simp]:
  "item_string (Some (chat_message role items)) ''role'' = Some role" "items_of (chat_message role items) = items"
  by (simp_all add: chat_message_def item_string_def items_of_def cJSON_IsArray_def)

lemma chat_message_line [simp]: "json_text (chat_message role items) \<noteq> []"
  by (simp add: chat_message_def)

lemma append_prints:
  "w_json (session_append (Some m) w) = w_json w"
  "w_out (session_append (Some m) w) = w_out w @ (if w_json w then json_text m @ [LF] else [])"
  by (simp_all add: session_append_def Let_def split_beta print_text next_append_ok_def append_file_def put_file_def
      split: list.split option.split)

definition call_ids :: "block_t list \<Rightarrow> string option list" where
  "call_ids bs = map (\<lambda>b. Some (b_id b)) (filter (\<lambda>b. b_type b = ''tool_use'') bs)"

lemma block_object_type: "block_object b = Some c \<Longrightarrow>
  item_string (Some c) ''type'' = Some (b_type b) \<and> (b_type b = ''tool_use'' \<longrightarrow> item_string (Some c) ''id'' = Some (b_id b))"
  by (auto simp: block_object_def item_string_def Let_def split: if_splits option.splits)

lemma blocks_loop_ids:
  "blocks_loop bs (jarr None xs) = Some c \<Longrightarrow>
   \<exists>ys. c = jarr None (xs @ ys) \<and> map (\<lambda>b. item_string (Some b) ''id'') (filter (\<lambda>b. item_string (Some b) ''type'' = Some ''tool_use'') ys) = call_ids bs"
proof (induction bs arbitrary: xs)
  case Nil
  then show ?case by (auto simp: call_ids_def intro!: exI [of _ "[]"])
next
  case (Cons b bs)
  show ?case
  proof (cases "b_type b = []")
    case True
    then show ?thesis using Cons by (simp add: call_ids_def)
  next
    case False
    then obtain ob where b: "block_object b = Some ob" "blocks_loop bs (jarr None (xs @ [ob])) = Some c"
      using Cons.prems by (auto split: option.splits)
    from Cons.IH [OF b(2)] obtain ys where ys: "c = jarr None ((xs @ [ob]) @ ys)"
      "map (\<lambda>b. item_string (Some b) ''id'') (filter (\<lambda>b. item_string (Some b) ''type'' = Some ''tool_use'') ys) = call_ids bs"
      by blast
    then show ?thesis using block_object_type [OF b(1)] by (intro exI [of _ "ob # ys"]) (simp add: call_ids_def)
  qed
qed

lemma content_ids:
  assumes "blocks_to_content st = Some c"
  shows "\<exists>ys. c = jarr None ys \<and> ids_of ''tool_use'' ''id'' (chat_message role ys) = call_ids (active_blocks st)"
  using blocks_loop_ids [of "active_blocks st" "[]" c] assms
  by (auto simp: blocks_to_content_def ids_of_def)

lemma tool_results_ids:
  "\<exists>ys. fst (tool_results bs (Some (jarr None xs)) w) = Some (jarr None (xs @ ys))
     \<and> map (\<lambda>b. item_string (Some b) ''tool_use_id'') (filter (\<lambda>b. item_string (Some b) ''type'' = Some ''tool_result'') ys) = call_ids bs"
proof (induction bs arbitrary: xs w)
  case Nil
  then show ?case by (auto simp: call_ids_def intro!: exI [of _ "[]"])
next
  case (Cons b bs)
  show ?case
  proof (cases "b_type b = ''tool_use''")
    case False
    then show ?thesis using Cons by (simp add: call_ids_def)
  next
    case True
    obtain out w1 where d: "dispatch_tool (b_name b) (block_input b) w = (out, w1)" by (metis surj_pair)
    let ?r = "jobj None [jstr ''type'' ''tool_result'', jstr ''tool_use_id'' (b_id b), jstr ''content'' out]"
    have r: "tool_result b out = Some ?r" by (simp add: tool_result_def)
    obtain ys where ys: "fst (tool_results bs (Some (jarr None (xs @ [?r]))) w1) = Some (jarr None ((xs @ [?r]) @ ys))"
      "map (\<lambda>b. item_string (Some b) ''tool_use_id'') (filter (\<lambda>b. item_string (Some b) ''type'' = Some ''tool_result'') ys) = call_ids bs"
      using Cons.IH [of "xs @ [?r]" w1] by blast
    have "item_string (Some ?r) ''type'' = Some ''tool_result''" "item_string (Some ?r) ''tool_use_id'' = Some (b_id b)"
      by (simp_all add: item_string_def)
    with ys d r True show ?thesis by (intro exI [of _ "?r # ys"]) (simp add: call_ids_def)
  qed
qed

text \<open>
  A conversation that the API accepts: every answer with tool calls is followed by one message of
  the user with exactly one result for each call, under its identifier, in the order of the calls;
  an answer without tool calls is the last one.
\<close>

fun conversation :: "cjson list \<Rightarrow> bool" where
  "conversation [] = True"
| "conversation [a] \<longleftrightarrow> item_string (Some a) ''role'' = Some ''assistant'' \<and> ids_of ''tool_use'' ''id'' a = []"
| "conversation (a # u # rest) \<longleftrightarrow>
     item_string (Some a) ''role'' = Some ''assistant'' \<and> ids_of ''tool_use'' ''id'' a \<noteq> []
     \<and> item_string (Some u) ''role'' = Some ''user''
     \<and> ids_of ''tool_result'' ''tool_use_id'' u = ids_of ''tool_use'' ''id'' a \<and> conversation rest"

lemma conversation_append: "conversation xs \<Longrightarrow> even (length xs) \<Longrightarrow> conversation ys \<Longrightarrow> conversation (xs @ ys)"
  by (induction xs rule: conversation.induct) auto

text \<open>The lines of \<^verbatim>\<open>--json\<close> output that carry messages: those that are not empty.\<close>

definition reports :: "string list \<Rightarrow> cjson list \<Rightarrow> bool" where
  "reports chunks ms \<longleftrightarrow> filter (\<lambda>s. s \<noteq> [LF]) chunks = map (\<lambda>m. json_text m @ [LF]) ms"

lemma reports_append: "reports as ms \<Longrightarrow> reports bs ns \<Longrightarrow> reports (as @ bs) (ms @ ns)"
  by (simp add: reports_def)

text \<open>
  From \<open>(ms, w)\<close> to \<open>(messages', w')\<close>: the messages \<open>new\<close> were added, older ones may have been
  cleared, and in \<^verbatim>\<open>--json\<close> mode the new ones were printed.
\<close>

definition extends :: "cjson list \<Rightarrow> world \<Rightarrow> cjson list \<Rightarrow> cjson \<Rightarrow> world \<Rightarrow> bool" where
  "extends ms w new messages' w' \<longleftrightarrow>
     (\<exists>ms'. messages' = jarr None ms' \<and> map blank ms' = map blank (ms @ new)) \<and> w_json w' = w_json w
     \<and> (w_json w \<longrightarrow> (\<exists>chunks. w_out w' = w_out w @ concat chunks \<and> reports chunks new))"

lemma extendsI:
  "messages' = jarr None ms' \<Longrightarrow> map blank ms' = map blank (ms @ new) \<Longrightarrow> w_json w' = w_json w \<Longrightarrow>
   (w_json w \<Longrightarrow> w_out w' = w_out w @ concat chunks) \<Longrightarrow> reports chunks new \<Longrightarrow> extends ms w new messages' w'"
  by (auto simp: extends_def)

lemma extends_out:
  "extends ms w new m' w' \<Longrightarrow> w_json w \<Longrightarrow> \<exists>chunks. w_out w' = w_out w @ concat chunks \<and> reports chunks new"
  by (simp add: extends_def)

lemma jarr_inject [simp]: "jarr k xs = jarr k ys \<longleftrightarrow> xs = ys"
  by (simp add: jarr_def)

lemma extends_trans:
  assumes "extends ms w new (jarr None ms1) w1" and "extends ms1 w1 new' m2 w2"
  shows "extends ms w (new @ new') m2 w2"
proof -
  obtain ms2 where m: "m2 = jarr None ms2" "map blank ms2 = map blank (ms @ new @ new')"
    using assms by (auto simp: extends_def)
  have j: "w_json w1 = w_json w" "w_json w2 = w_json w" using assms by (simp_all add: extends_def)
  have "\<exists>chunks. w_out w2 = w_out w @ concat chunks \<and> reports chunks (new @ new')" if jw: "w_json w"
  proof -
    obtain as bs where "w_out w1 = w_out w @ concat as" "reports as new"
      "w_out w2 = w_out w1 @ concat bs" "reports bs new'"
      using extends_out [OF assms(1) jw] extends_out [OF assms(2)] jw j by blast
    then show ?thesis by (intro exI [of _ "as @ bs"]) (simp add: reports_append)
  qed
  with m j show ?thesis by (simp add: extends_def)
qed

lemma extends_same: "out_same w w' \<Longrightarrow> extends ms w [] (jarr None ms) w'"
  by (rule extendsI [where ms' = ms and chunks = "[]"]) (simp_all add: out_same_def reports_def)

lemma extends_frame: "request_frame w w' \<Longrightarrow> extends ms w [] (jarr None ms) w'"
  by (rule extendsI [where ms' = ms and chunks = "[]"]) (simp_all add: request_frame_def reports_def)

lemma extends_newline: "extends ms w [] (jarr None ms) (put_out [LF] w)"
  by (rule extendsI [where ms' = ms and chunks = "[[LF]]"]) (simp_all add: reports_def)

lemma extends_message:
  assumes "m = chat_message role items"
  shows "extends ms w [m] (jarr None (ms @ [m])) (session_append (Some m) w)"
  by (rule extendsI [where ms' = "ms @ [m]" and chunks = "[json_text m @ [LF]]"])
    (simp_all add: append_prints reports_def assms)

lemma extends_compact: "extends ms w [] (fst (snd (chat_compact (jarr None ms, w)))) (snd (snd (chat_compact (jarr None ms, w))))"
proof -
  have out: "out_same w (snd (snd (chat_compact (jarr None ms, w))))"
    by (simp add: chat_compact_def Let_def split_beta)
  have f: "fst (snd (chat_compact (jarr None ms, w))) = fst (compact_clear_tool_results (jarr None ms) 10)"
    by (simp add: chat_compact_def Let_def split_beta)
  obtain ms' where m: "fst (compact_clear_tool_results (jarr None ms) 10) = jarr None ms'"
    unfolding compact_list by (metis fst_conv)
  have "map blank ms' = map blank ms" using compact_blank [of ms 10] m by simp
  with out f m show ?thesis
    by (intro extendsI [where ms' = ms' and chunks = "[]"]) (simp_all add: out_same_def reports_def)
qed

lemma add_message_form:
  "add_message (Some m) (jarr None xs, w) = (jarr None (xs @ [m]), session_append (Some m) w)"
  by (simp add: add_message_def jarr_def cj_append_child_def)

lemma answer_extends:
  assumes "chat_answer st (jarr None ms, w) = (c, (m', w'))"
  shows "\<exists>new. extends ms w new m' w' \<and> conversation new \<and> (c = None \<longrightarrow> even (length new))"
proof (cases "blocks_to_content st")
  case None
  then have "m' = jarr None ms" "out_same w w'" using assms by (auto simp: chat_answer_def)
  then show ?thesis using extends_same by (intro exI [of _ "[]"]) simp
next
  case (Some ct)
  obtain items where a: "ct = jarr None items" "ids_of ''tool_use'' ''id'' (chat_message ''assistant'' items) = call_ids (active_blocks st)"
    using content_ids [OF Some] by blast
  let ?a = "chat_message ''assistant'' items" and ?calls = "\<exists>b \<in> set (active_blocks st). b_type b = ''tool_use''"
  let ?w1 = "session_append (Some ?a) w"
  have e1: "extends ms w [?a] (jarr None (ms @ [?a])) ?w1" by (rule extends_message) simp
  have calls: "?calls \<longleftrightarrow> call_ids (active_blocks st) \<noteq> []" by (auto simp: call_ids_def filter_empty_conv)
  show ?thesis
  proof (cases ?calls)
    case False
    then have "c = Some 0" "m' = jarr None (ms @ [?a])" "w' = ?w1"
      using assms Some by (auto simp: chat_answer_def a(1) role_message_form add_message_form)
    then show ?thesis using e1 False calls a(2) by (intro exI [of _ "[?a]"]) simp
  next
    case True
    obtain rs w2 where r: "tool_results (active_blocks st) (Some (jarr None [])) ?w1 = (rs, w2)" by (metis surj_pair)
    obtain ys where ys: "rs = Some (jarr None ys)" "ids_of ''tool_result'' ''tool_use_id'' (chat_message ''user'' ys) = call_ids (active_blocks st)"
      using tool_results_ids [of "active_blocks st" "[]" ?w1] r by (auto simp: ids_of_def)
    let ?u = "chat_message ''user'' ys"
    have "out_same ?w1 w2" using out_same_results [of ?w1 "active_blocks st" "Some (jarr None [])" ?w1] r by simp
    then have e2: "extends (ms @ [?a]) ?w1 [] (jarr None (ms @ [?a])) w2" by (rule extends_same)
    have e3: "extends (ms @ [?a]) w2 [?u] (jarr None ((ms @ [?a]) @ [?u])) (session_append (Some ?u) w2)"
      by (rule extends_message) simp
    have "c = None" "m' = jarr None ((ms @ [?a]) @ [?u])" "w' = session_append (Some ?u) w2"
      using assms Some True r by (auto simp: chat_answer_def a(1) ys(1) role_message_form add_message_form)
    moreover have "extends ms w ([?a] @ [] @ [?u]) m' w'"
      unfolding calculation using extends_trans [OF e1 extends_trans [OF e2 e3]] by simp
    ultimately show ?thesis using a(2) ys(2) True calls by (intro exI [of _ "[?a, ?u]"]) simp
  qed
qed

lemma pass_extends:
  assumes "chat_pass url key model sys tools (jarr None ms, w) = Some (c, (m', w'))"
  shows "\<exists>new. extends ms w new m' w' \<and> conversation new \<and> (c = None \<longrightarrow> even (length new))"
proof -
  obtain intr w1 where p: "poll_interrupt w = (intr, w1)" by (metis surj_pair)
  have e1: "extends ms w [] (jarr None ms) w1"
    using extends_same out_same_steps(9) [of w w] p by (metis out_same_steps(1) snd_conv)
  show ?thesis
  proof (cases intr)
    case True
    then show ?thesis using assms p e1 by (intro exI [of _ "[]"]) (simp add: chat_pass_def)
  next
    case False
    let ?req = "cJSON_PrintUnformatted (chat_request model sys (jarr None ms) tools)"
    obtain r st w2 where t: "do_turn url key ?req (stream_zero, w1) = Some (r, (st, w2))"
      using assms p False by (auto simp: chat_pass_def Let_def split: option.splits prod.splits)
    let ?w3 = "put_out [LF] w2"
    have e3: "extends ms w [] (jarr None ms) ?w3"
      using extends_trans [OF e1 extends_trans [OF extends_frame [OF request_frame_turn [OF t]] extends_newline]] by simp
    have err: "extends ms w [] (jarr None ms) (put_err s ?w3)" for s
      using extends_trans [OF e3 extends_same [of ?w3 "put_err s ?w3"]] by simp
    consider (compact) "r = - 3" "chat_compact (jarr None ms, ?w3) = (c, (m', w'))"
      | (stop) "m' = jarr None ms" "w' = ?w3 \<or> w' = put_err ([LF] @ ''[interrupted]'' @ [LF]) ?w3" "c \<noteq> None"
      | (answer) "chat_answer st (jarr None ms, ?w3) = (c, (m', w'))"
      using assms p False t by (auto simp: chat_pass_def Let_def split: if_splits)
    then show ?thesis
    proof cases
      case compact
      then have "extends ms ?w3 [] m' w'" using extends_compact [of ms ?w3] by simp
      then show ?thesis using extends_trans [OF e3] by (intro exI [of _ "[]"]) fastforce
    next
      case stop
      then show ?thesis using e3 err by (intro exI [of _ "[]"]) auto
    next
      case answer
      then obtain new where "extends ms ?w3 new m' w'" "conversation new" "c = None \<longrightarrow> even (length new)"
        using answer_extends by blast
      then show ?thesis using extends_trans [OF e3] by (intro exI [of _ new]) fastforce
    qed
  qed
qed

lemma loop_extends:
  assumes "chat_loop n url key model sys tools (jarr None ms, w) = Some (c, (m', w'))"
  shows "\<exists>new. extends ms w new m' w' \<and> conversation new"
  using assms
proof (induction n arbitrary: ms w)
  case 0
  have "extends ms w [] (jarr None ms) (put_err s w)" for s using extends_same [of w "put_err s w"] by simp
  then show ?case using 0 by (intro exI [of _ "[]"]) auto
next
  case (Suc n)
  obtain c1 m1 w1 where p: "chat_pass url key model sys tools (jarr None ms, w) = Some (c1, (m1, w1))"
    using Suc.prems by (auto split: option.splits prod.splits)
  obtain new where e: "extends ms w new m1 w1" "conversation new" "c1 = None \<longrightarrow> even (length new)"
    using pass_extends [OF p] by blast
  obtain ms1 where m1: "m1 = jarr None ms1" using e(1) by (auto simp: extends_def)
  show ?case
  proof (cases c1)
    case None
    then have "chat_loop n url key model sys tools (jarr None ms1, w1) = Some (c, (m', w'))"
      using Suc.prems p m1 by simp
    then obtain new' where "extends ms1 w1 new' m' w'" "conversation new'" using Suc.IH by blast
    then show ?thesis
      using extends_trans [OF e(1) [unfolded m1]] conversation_append [of new new'] e None by blast
  next
    case Some
    then show ?thesis using Suc.prems p e by auto
  qed
qed

subsection \<open>The properties\<close>



text \<open>
  \<^bold>\<open>C3\<close> What a chat turn leaves is a conversation the API accepts: the old messages, up to cleared
  tool results, followed by new ones in which every answer with tool calls is answered by one user
  message holding exactly one result per call, under the identifier of the call, in order; a turn that
  is interrupted, fails or overflows in between ends after such a pair.  In \<^verbatim>\<open>--json\<close> mode the
  non-empty lines printed are exactly the new messages.
\<close>

theorem chat_turn_conversation:
  assumes "chat_turn url key model sys (jarr None ms) tools w = Some (c, (messages', w'))"
  shows "\<exists>new ms'. messages' = jarr None ms' \<and> map blank ms' = map blank (ms @ new) \<and> conversation new
    \<and> (w_json w \<longrightarrow> (\<exists>chunks. w_out w' = w_out w @ concat chunks \<and> reports chunks new))"
  using loop_extends [of MAX_TOOL_ITER url key model sys tools ms w c messages' w'] assms
  by (auto simp: chat_turn_def extends_def)

definition hi_world :: world where
  "hi_world = calm_world\<lparr>w_json := True,
     w_connections := [good_connection (wire_text (message_events 0 [SText [''h'', ''i'']]))]\<rparr>"

lemma length_json_string: "length (json_string s) \<le> 6 * length s + 2"
proof -
  have "length (concat (map escape_char t)) \<le> 6 * length t" for t
  proof (induction t)
    case (Cons c t)
    have "length (escape_char c) \<le> 6" by (simp add: escape_char_def)
    then show ?case using Cons by simp
  qed simp
  from this [of "cstr s"] length_cstr [of s] show ?thesis by (simp add: json_string_def)
qed

lemma hi_request: "length (cJSON_PrintUnformatted (chat_request ''m'' ''s'' (jarr None [hello_msg]) (jarr None []))) < 10 ^ 4"
proof -
  have "chat_request ''m'' ''s'' (jarr None [hello_msg]) (jarr None []) = Some (jobj None [jstr ''model'' ''m'', jnum ''max_tokens'' 4096,
     jstr ''system'' ''s'', CJ cJSON_Array None 0 (Fin 0) (Some ''messages'') True [hello_msg],
     CJ cJSON_Array None 0 (Fin 0) (Some ''tools'') True [], CJ cJSON_True None 0 (Fin 0) (Some ''stream'') False []])"
    by (simp add: chat_request_def jobj_def jarr_def jnum_def jstr_def add_defs create_defs)
  moreover have "length (show_int 4096) \<le> 20" using length_show_int [of 4096 19] by simp
  ultimately show ?thesis
    using length_json_string [of "''m''"] length_json_string [of "''s''"] length_json_string [of "''user''"]
      length_json_string [of "[QUOTE, LF]"] length_json_string [of "''model''"] length_json_string [of "''max_tokens''"]
      length_json_string [of "''system''"] length_json_string [of "''messages''"] length_json_string [of "''tools''"]
      length_json_string [of "''stream''"] length_json_string [of "''role''"] length_json_string [of "''text''"]
    by (simp add: print_text hello_msg_def member_text_def str_or_empty_def)
qed

theorem chat_turn_conversation_witness:
  "\<exists>new ms' w'. chat_turn ''https://api.kimi.com/coding'' ''key'' ''m'' ''s'' (jarr None [hello_msg]) (jarr None []) hi_world
     = Some (0, (jarr None ms', w'))
   \<and> map blank ms' = map blank (hello_msg # new) \<and> new \<noteq> [] \<and> conversation new
   \<and> (\<exists>chunks. w_out w' = concat chunks \<and> reports chunks new)"
proof -
  let ?its = "[SText [''h'', ''i'']]" and ?req = "cJSON_PrintUnformatted (chat_request ''m'' ''s'' (jarr None [hello_msg]) (jarr None []))"
  have p: "plain_world hi_world" by (simp add: plain_world_def quiet_def calm_world_def hi_world_def)
  have c: "w_connections hi_world = good_connection (wire_text (message_events 0 ?its)) # []" by (simp add: hi_world_def)
  have its: "list_all item_ok ?its" "length ?its \<le> MAX_BLOCKS"
    by (simp_all add: no_nul_def MAX_BLOCK_SIZE_def MAX_BLOCKS_def)
  have "length (show_nat (length ?req)) \<le> 4" using hi_request by (intro length_show_nat_bound) simp_all
  then have req: "length (request_head ''/coding'' ''api.kimi.com'' ''key'' (length ?req)) < 4096"
    by (simp add: request_head_def)
  obtain st w1 where t: "do_turn ''https://api.kimi.com/coding'' ''key'' ?req (stream_zero, hi_world) = Some (0, (st, w1))"
    "blocks_to_content st = message_content ?its"
    using turn_delivers [OF p c good_connection_delivers its lines_fit_hi parse_url_example req] by blast
  let ?items = "[jobj None [jstr ''type'' ''text'', jstr ''text'' ''hi'']]"
  have ct: "blocks_to_content st = Some (jarr None ?items)" using t(2) by (simp add: message_content_def)
  have "call_ids (active_blocks st) = []"
    using content_ids [OF ct, of "''assistant''"] by (auto simp: ids_of_def item_string_def)
  then have "\<not> (\<exists>b \<in> set (active_blocks st). b_type b = ''tool_use'')" by (auto simp: call_ids_def filter_empty_conv)
  then obtain w' where a: "chat_answer st (jarr None [hello_msg], put_out [LF] w1)
      = (Some 0, (jarr None [hello_msg, chat_message ''assistant'' ?items], w'))"
    using ct by (simp add: chat_answer_def role_message_form add_message_form)
  have "poll_interrupt hi_world = (False, hi_world)" using p by (simp add: plain_world_def)
  then have run: "chat_turn ''https://api.kimi.com/coding'' ''key'' ''m'' ''s'' (jarr None [hello_msg]) (jarr None []) hi_world
     = Some (0, (jarr None [hello_msg, chat_message ''assistant'' ?items], w'))"
    using t(1) a chat_loop.simps(2) [of 59] by (simp add: chat_turn_def MAX_TOOL_ITER_def chat_pass_def Let_def)
  from chat_turn_conversation [OF run]
  obtain new ms' where n: "jarr None [hello_msg, chat_message ''assistant'' ?items] = jarr None ms'"
    "map blank ms' = map blank ([hello_msg] @ new)" "conversation new"
    "w_json hi_world \<longrightarrow> (\<exists>chunks. w_out w' = w_out hi_world @ concat chunks \<and> reports chunks new)"
    by blast
  have "w_json hi_world" "w_out hi_world = []" by (simp_all add: hi_world_def calm_world_def)
  moreover have "new \<noteq> []" using n(1,2) by auto
  ultimately show ?thesis using n run by auto
qed

end
