(* ===== verification/Skills.thy ===== *)
theory Skills
  imports Config World
begin

section \<open>Skills (main.c)\<close>

text \<open>
  Skill files: the parser of their front matter with folded and quoted values, and the scan of the skill
  directories into a table of bounded size.
\<close>

record skill_t =
  sk_name :: string
  sk_description :: string
  sk_path :: string

subsection \<open>Lines and trimming\<close>

text \<open>\<^verbatim>\<open>fgets(line, n, f)\<close>: at most \<open>n - 1\<close> bytes, up to and with the line feed.\<close>

fun take_line :: "nat \<Rightarrow> string \<Rightarrow> string" where
  "take_line 0 s = []"
| "take_line (Suc k) [] = []"
| "take_line (Suc k) (c # s) = c # (if c = LF then [] else take_line k s)"

function fgets_lines :: "nat \<Rightarrow> string \<Rightarrow> string list" where
  "fgets_lines n s =
     (if s = [] \<or> n \<le> 1 then []
      else let l = take_line (n - 1) s in l # fgets_lines n (drop (length l) s))"
  by pat_completeness auto
termination
proof (relation "measure (\<lambda>(n, s). length s)", goal_cases)
  case 1
  then show ?case by simp
next
  case (2 n s l)
  then have "0 < length l" by (cases s; cases "n - 1") auto
  with 2 show ?case by auto
qed

declare fgets_lines.simps [simp del]

definition is_blank :: "char \<Rightarrow> bool" where
  "is_blank c \<longleftrightarrow> c = CHR '' '' \<or> c = TAB"

definition is_trail :: "char \<Rightarrow> bool" where
  "is_trail c \<longleftrightarrow> c = CHR '' '' \<or> c = TAB \<or> c = CR \<or> c = LF"

definition rstrip :: "(char \<Rightarrow> bool) \<Rightarrow> string \<Rightarrow> string" where
  "rstrip p s = rev (dropWhile p (rev s))"

definition quoted_by :: "char \<Rightarrow> string \<Rightarrow> bool" where
  "quoted_by q s \<longleftrightarrow> 2 \<le> length s \<and> hd s = q \<and> last s = q"

definition trim :: "string \<Rightarrow> string" where
  "trim s =
     (let s = rstrip is_trail (dropWhile is_blank s)
      in if quoted_by QUOTE s \<or> quoted_by APOS s then butlast (tl s) else s)"

definition append_fold :: "string \<Rightarrow> nat \<Rightarrow> string \<Rightarrow> bool \<Rightarrow> string" where
  "append_fold dst dst_size s folded =
     (let cur = length dst in
      if dst_size \<le> cur + 1 then dst
      else if 0 < cur then
        if dst_size \<le> cur + 2 then dst
        else let dst = dst @ [if folded then CHR '' '' else LF]
             in dst @ take (dst_size - length dst - 1) s
      else dst @ take (dst_size - length dst - 1) s)"

subsection \<open>parse\_frontmatter\<close>

text \<open>The local variables: flags, the field that continuation lines go to, the two fields.\<close>

datatype fm_target = To_name | To_description

record fm_state =
  fm_in :: bool
  fm_saw_header :: bool
  fm_cont :: "(fm_target \<times> bool) option"
  fm_name :: string
  fm_description :: string

fun target_size :: "fm_target \<Rightarrow> nat" where
  "target_size To_name = 128"
| "target_size To_description = 512"

fun get_target :: "fm_target \<Rightarrow> fm_state \<Rightarrow> string" where
  "get_target To_name f = fm_name f"
| "get_target To_description f = fm_description f"

fun set_target :: "fm_target \<Rightarrow> string \<Rightarrow> fm_state \<Rightarrow> fm_state" where
  "set_target To_name s f = f\<lparr>fm_name := s\<rparr>"
| "set_target To_description s f = f\<lparr>fm_description := s\<rparr>"

definition block_mark :: "char \<Rightarrow> string \<Rightarrow> bool" where
  "block_mark c v \<longleftrightarrow> v \<noteq> [] \<and> hd v = c \<and> (tl v = [] \<or> v ! 1 = CHR ''-'' \<or> v ! 1 = CHR ''+'')"

text \<open>A line \<^verbatim>\<open>key: value\<close>.\<close>

definition fm_key :: "string \<Rightarrow> fm_target option" where
  "fm_key key = (if key = ''name'' then Some To_name
                 else if key = ''description'' then Some To_description else None)"

definition fm_entry :: "string \<Rightarrow> fm_state \<Rightarrow> fm_state" where
  "fm_entry t f =
     (case strchr t (CHR '':'') of
        None \<Rightarrow> f
      | Some colon \<Rightarrow>
          let key = trim (take (length t - length colon) t); val = trim (tl colon) in
          (case fm_key key of
             None \<Rightarrow> f
           | Some target \<Rightarrow>
               let f = set_target target [] f in
               if block_mark (CHR ''>'') val then f\<lparr>fm_cont := Some (target, True)\<rparr>
               else if block_mark (CHR ''|'') val then f\<lparr>fm_cont := Some (target, False)\<rparr>
               else set_target target (fit (target_size target) val) f))"

text \<open>One line of the loop; the flag is \<^verbatim>\<open>break\<close>.\<close>

definition fm_line :: "string \<Rightarrow> fm_state \<Rightarrow> bool \<times> fm_state" where
  "fm_line line f =
     (let line = cstr line;
          indented = (line \<noteq> [] \<and> is_blank (hd line));
          t = trim (fit 2048 line)
      in if \<not> fm_in f then
           if t = ''---'' then (False, f\<lparr>fm_in := True, fm_saw_header := True\<rparr>)
           else (t \<noteq> [], f)
         else if t = ''---'' then (True, f)
         else if fm_cont f \<noteq> None \<and> indented then
           (False, if t = [] then f
                   else case fm_cont f of
                     None \<Rightarrow> f
                   | Some (target, folded) \<Rightarrow>
                       set_target target (append_fold (get_target target f) (target_size target) t folded) f)
         else (False, fm_entry t (f\<lparr>fm_cont := None\<rparr>)))"

fun fm_lines :: "string list \<Rightarrow> fm_state \<Rightarrow> fm_state" where
  "fm_lines [] f = f"
| "fm_lines (l # ls) f = (let (stop, f) = fm_line l f in if stop then f else fm_lines ls f)"

definition fm_start :: fm_state where
  "fm_start = \<lparr>fm_in = False, fm_saw_header = False, fm_cont = None, fm_name = [], fm_description = []\<rparr>"

definition parse_frontmatter :: "world \<Rightarrow> string \<Rightarrow> (string \<times> string) option" where
  "parse_frontmatter w path =
     (case read_file w path of
        None \<Rightarrow> None
      | Some text \<Rightarrow>
          let f = fm_lines (fgets_lines 2048 text) fm_start
          in if fm_saw_header f \<and> fm_name f \<noteq> [] then Some (fm_name f, fm_description f) else None)"

subsection \<open>scan\_skills\_dir\<close>

definition is_md :: "string \<Rightarrow> bool" where
  "is_md n \<longleftrightarrow> 4 \<le> length n \<and> drop (length n - 3) n = ''.md''"

text \<open>The file an entry stands for: itself if it is regular, its \<^verbatim>\<open>SKILL.md\<close> if it is a directory.\<close>

definition skill_source :: "world \<Rightarrow> string \<Rightarrow> string \<Rightarrow> string option" where
  "skill_source w path n =
     (if w_files w path \<noteq> None then (if is_md n then Some path else None)
      else if w_dirs w path \<noteq> None then
        let skill_md = path @ ''/SKILL.md'' in if 1024 \<le> length skill_md then None else Some skill_md
      else None)"

definition load_skill :: "world \<Rightarrow> string \<Rightarrow> string \<Rightarrow> skill_t option" where
  "load_skill w dir n =
     (let path = dir @ ''/'' @ n in
      if 1024 \<le> length path then None
      else case skill_source w path n of
        None \<Rightarrow> None
      | Some source \<Rightarrow>
          (case parse_frontmatter w source of
             None \<Rightarrow> None
           | Some (name, desc) \<Rightarrow>
               let chosen = (case w_realpath w source of Some r \<Rightarrow> r | None \<Rightarrow> source)
               in Some \<lparr>sk_name = name, sk_description = desc, sk_path = fit 1024 chosen\<rparr>))"

fun scan_skills_loop :: "string \<Rightarrow> string list \<Rightarrow> skill_t list \<times> world \<Rightarrow> skill_t list \<times> world" where
  "scan_skills_loop dir [] sw = sw"
| "scan_skills_loop dir (n # ns) sw =
     (let (skills, w) = sw in
      if MAX_SKILLS \<le> length skills then
        (skills, if w_skill_warned w then w
                 else (put_err (''[skill cap '' @ show_nat MAX_SKILLS @ '' reached; further skills ignored]'' @ [LF]) w)
                        \<lparr>w_skill_warned := True\<rparr>)
      else if n \<noteq> [] \<and> hd n = CHR ''.'' then scan_skills_loop dir ns (skills, w)
      else case load_skill w dir n of
             None \<Rightarrow> scan_skills_loop dir ns (skills, w)
           | Some sk \<Rightarrow> scan_skills_loop dir ns (skills @ [sk], w))"

definition scan_skills_dir :: "string \<Rightarrow> skill_t list \<times> world \<Rightarrow> skill_t list \<times> world" where
  "scan_skills_dir dir sw =
     (case w_dirs (snd sw) dir of None \<Rightarrow> sw | Some ents \<Rightarrow> scan_skills_loop dir ents sw)"

subsection \<open>Bounds\<close>

lemma append_fold_bound: "length dst < n \<Longrightarrow> length (append_fold dst n s b) < n"
  by (auto simp: append_fold_def Let_def min_def)

definition fm_ok :: "fm_state \<Rightarrow> bool" where
  "fm_ok f \<longleftrightarrow> length (fm_name f) < 128 \<and> length (fm_description f) < 512"

lemma fm_ok_set: "fm_ok f \<Longrightarrow> length s < target_size target \<Longrightarrow> fm_ok (set_target target s f)"
  by (cases target) (simp_all add: fm_ok_def)

lemma fm_ok_get: "fm_ok f \<Longrightarrow> length (get_target target f) < target_size target"
  by (cases target) (simp_all add: fm_ok_def)

lemma fm_ok_cont [simp]: "fm_ok (f\<lparr>fm_cont := c\<rparr>) = fm_ok f"
  "fm_ok (f\<lparr>fm_in := b, fm_saw_header := d\<rparr>) = fm_ok f"
  by (simp_all add: fm_ok_def)

lemma target_size_pos [simp]: "0 < target_size target"
  by (cases target) simp_all

lemma fm_ok_entry: "fm_ok f \<Longrightarrow> fm_ok (fm_entry t f)"
  by (simp add: fm_entry_def Let_def fm_ok_set length_fit split: option.split)

lemma fm_ok_line: "fm_ok f \<Longrightarrow> fm_ok (snd (fm_line l f))"
  by (simp add: fm_line_def Let_def fm_ok_entry fm_ok_set append_fold_bound fm_ok_get split: option.split prod.split)

lemma fm_ok_lines: "fm_ok f \<Longrightarrow> fm_ok (fm_lines ls f)"
  by (induction ls arbitrary: f) (simp_all add: split_beta fm_ok_line)

definition skill_ok :: "skill_t \<Rightarrow> bool" where
  "skill_ok sk \<longleftrightarrow> sk_name sk \<noteq> [] \<and> length (sk_name sk) < 128 \<and> length (sk_description sk) < 512
     \<and> length (sk_path sk) < 1024"

lemma skill_ok_load: "load_skill w dir n = Some sk \<Longrightarrow> skill_ok sk"
proof -
  assume "load_skill w dir n = Some sk"
  then obtain source name desc where s: "parse_frontmatter w source = Some (name, desc)"
    "sk_name sk = name" "sk_description sk = desc" "length (sk_path sk) < 1024"
    by (auto simp: load_skill_def Let_def length_fit split: if_splits option.splits)
  have "fm_ok fm_start" by (simp add: fm_ok_def fm_start_def)
  then have "fm_ok (fm_lines ls fm_start)" for ls by (rule fm_ok_lines)
  then have "length name < 128" "length desc < 512" "name \<noteq> []"
    using s(1) by (auto simp: parse_frontmatter_def Let_def fm_ok_def split: option.splits if_splits)
  with s show ?thesis by (simp add: skill_ok_def)
qed

lemma scan_skills_keeps:
  "list_all skill_ok (fst sw) \<and> length (fst sw) \<le> MAX_SKILLS \<Longrightarrow>
   list_all skill_ok (fst (scan_skills_dir dir sw)) \<and> length (fst (scan_skills_dir dir sw)) \<le> MAX_SKILLS"
proof -
  have "list_all skill_ok (fst sw) \<and> length (fst sw) \<le> MAX_SKILLS \<Longrightarrow>
      list_all skill_ok (fst (scan_skills_loop dir ns sw)) \<and> length (fst (scan_skills_loop dir ns sw)) \<le> MAX_SKILLS" for ns
    by (induction dir ns sw rule: scan_skills_loop.induct)
      (auto simp: Let_def skill_ok_load split: option.split)
  then show "list_all skill_ok (fst sw) \<and> length (fst sw) \<le> MAX_SKILLS \<Longrightarrow> ?thesis"
    by (auto simp: scan_skills_dir_def split: option.split)
qed

text \<open>
  Whatever is in the skill directories and however often they are scanned, at most 128
  skills are loaded, each with a name, and every field fits its array with the terminator.
\<close>

lemma scan_skills_ok:
  assumes "list_all skill_ok skills" and "length skills \<le> MAX_SKILLS"
  shows "list_all skill_ok (fst (scan_skills_dir dir (skills, w)))
    \<and> length (fst (scan_skills_dir dir (skills, w))) \<le> MAX_SKILLS"
  using scan_skills_keeps [of "(skills, w)"] assms by simp

lemma scan_skills_ok_witness:
  "length (fst (scan_skills_dir ''d'' ([], calm_world\<lparr>w_dirs := (\<lambda>_. Some (replicate 500 ''x''))\<rparr>))) \<le> MAX_SKILLS"
  using scan_skills_ok [of "[]"] by simp

subsection \<open>A front matter is read as written\<close>

lemma take_line_line: "LF \<notin> set l \<Longrightarrow> length l < k \<Longrightarrow> take_line k (l @ LF # r) = l @ [LF]"
proof (induction l arbitrary: k)
  case Nil
  then show ?case by (cases k) auto
next
  case (Cons c l)
  then show ?case by (cases k) auto
qed

lemma fgets_line: "LF \<notin> set l \<Longrightarrow> length l + 1 < n \<Longrightarrow>
    fgets_lines n (l @ LF # r) = (l @ [LF]) # fgets_lines n r"
  by (subst fgets_lines.simps) (simp add: take_line_line)

text \<open>A value that trimming leaves alone.\<close>

definition tidy :: "string \<Rightarrow> bool" where
  "tidy s \<longleftrightarrow> s \<noteq> [] \<and> \<not> is_blank (hd s) \<and> \<not> is_trail (last s) \<and> LF \<notin> set s \<and> no_nul s
     \<and> hd s \<notin> {QUOTE, APOS, CHR ''>'', CHR ''|'', CHR ''-''}"

lemma rstrip_keep: "s \<noteq> [] \<Longrightarrow> \<not> p (last s) \<Longrightarrow> list_all p t \<Longrightarrow> rstrip p (s @ t) = s"
proof -
  assume a: "s \<noteq> []" "\<not> p (last s)" "list_all p t"
  then have "dropWhile p (rev t @ rev s) = rev s"
    by (metis append_self_conv2 dropWhile_append2 dropWhile_eq_self_iff hd_rev list_all_iff rev_is_Nil_conv set_rev)
  then show ?thesis by (simp add: rstrip_def)
qed

lemma trim_tidy:
  assumes "s \<noteq> []" and "\<not> is_blank (hd s)" and "\<not> is_trail (last s)" and "hd s \<noteq> QUOTE" and "hd s \<noteq> APOS"
    and "list_all is_blank b" and "list_all is_trail t"
  shows "trim (b @ s @ t) = s"
proof -
  have "dropWhile is_blank (b @ s @ t) = s @ t"
    using assms(1,2,6) by (simp add: dropWhile_append2 list_all_iff dropWhile_eq_self_iff)
  then show ?thesis using assms rstrip_keep [of s is_trail t] by (simp add: trim_def quoted_by_def)
qed

text \<open>Trimming the line \<open>key: value\<close>, and its two parts.\<close>

lemma trim_line:
  assumes "tidy v" and "k \<in> {''name'', ''description''}"
  shows "trim (k @ '': '' @ v @ [LF]) = k @ '': '' @ v" and "trim k = k" and "trim (CHR '' '' # v) = v"
proof -
  have v: "v \<noteq> []" "\<not> is_trail (last v)" "\<not> is_blank (hd v)" "hd v \<noteq> QUOTE" "hd v \<noteq> APOS"
    using assms(1) by (auto simp: tidy_def)
  have k: "k \<noteq> []" "\<not> is_blank (hd k)" "hd k \<noteq> QUOTE" "hd k \<noteq> APOS" "\<not> is_trail (last k)"
    using assms(2) by (auto simp: is_blank_def is_trail_def)
  show "trim (k @ '': '' @ v @ [LF]) = k @ '': '' @ v"
    using trim_tidy [of "k @ '': '' @ v" "[]" "[LF]"] k v by (simp add: is_trail_def)
  show "trim k = k" using trim_tidy [of k "[]" "[]"] k by simp
  show "trim (CHR '' '' # v) = v" using trim_tidy [of v "'' ''" "[]"] v by (simp add: is_blank_def)
qed

lemma fm_entry_value:
  assumes "tidy v" and "k \<in> {''name'', ''description''}" and "fm_key k = Some target" and "length v < target_size target"
  shows "fm_entry (k @ '': '' @ v) f = set_target target v (set_target target [] f)"
proof -
  have c: "CHR '':'' \<notin> set k" using assms(2) by auto
  have "strchr (k @ '': '' @ v) (CHR '':'') = Some ('': '' @ v)"
    using c by (induction k) auto
  moreover have "\<not> block_mark (CHR ''>'') v" "\<not> block_mark (CHR ''|'') v"
    using assms(1) by (auto simp: tidy_def block_mark_def)
  ultimately show ?thesis
    using assms trim_line [OF assms(1,2)] by (simp add: fm_entry_def fit_id)
qed

lemma fm_line_marker:
  "fm_line [CHR ''-'', CHR ''-'', CHR ''-'', LF] f
     = (if fm_in f then (True, f) else (False, f\<lparr>fm_in := True, fm_saw_header := True\<rparr>))"
proof -
  have "trim [CHR ''-'', CHR ''-'', CHR ''-'', LF] = ''---''" by code_simp
  then show ?thesis by (simp add: fm_line_def fit_def cstr_def)
qed

lemma fm_line_entry:
  assumes "tidy v" and "k \<in> {''name'', ''description''}" and "fm_key k = Some target"
    and "length v < target_size target" and "fm_in f"
  shows "fm_line (k @ '': '' @ v @ [LF]) f = (False, set_target target v (set_target target [] (f\<lparr>fm_cont := None\<rparr>)))"
proof -
  have "length v < 512" using assms(4) by (cases target) simp_all
  moreover have "k \<noteq> [] \<and> \<not> is_blank (hd k) \<and> no_nul k \<and> length k < 12 \<and> hd k \<noteq> CHR ''-''"
    using assms(2) by (auto simp: is_blank_def)
  moreover have "no_nul v" using assms(1) by (simp add: tidy_def)
  ultimately show ?thesis
    using trim_line(1) [OF assms(1,2)] fm_entry_value [OF assms(1-4)] assms(5)
    by (cases k) (simp_all add: fm_line_def fit_id)
qed

lemma fm_line_folded:
  assumes "fm_in f"
  shows "fm_line (''description: >'' @ [LF]) f = (False, f\<lparr>fm_cont := Some (To_description, True), fm_description := []\<rparr>)"
proof -
  have e: "trim (''description: >'' @ [LF]) = ''description: >''" "trim ''description'' = ''description''" "trim '' >'' = ''>''"
    by code_simp+
  have "fm_entry ''description: >'' (f\<lparr>fm_cont := None\<rparr>)
      = f\<lparr>fm_cont := Some (To_description, True), fm_description := []\<rparr>"
    using e(2,3) by (simp add: fm_entry_def fm_key_def block_mark_def)
  then show ?thesis using e(1) assms by (simp add: fm_line_def fit_def cstr_def is_blank_def)
qed

fun unwords :: "string list \<Rightarrow> string" where
  "unwords [] = []"
| "unwords [w] = w"
| "unwords (w # ws) = w @ CHR '' '' # unwords ws"

definition join_words :: "string \<Rightarrow> string list \<Rightarrow> string" where
  "join_words acc ws = (if acc = [] then unwords ws else if ws = [] then acc else acc @ CHR '' '' # unwords ws)"

lemma join_words_step: "w \<noteq> [] \<Longrightarrow> join_words (join_words acc [w]) ws = join_words acc (w # ws)"
  by (cases ws) (simp_all add: join_words_def)

lemma fm_line_cont:
  assumes "tidy d" and "fm_in f" and "fm_cont f = Some (To_description, True)"
    and "length (join_words (fm_description f) [d]) < 511"
  shows "fm_line (''  '' @ d @ [LF]) f = (False, f\<lparr>fm_description := join_words (fm_description f) [d]\<rparr>)"
proof -
  have d: "d \<noteq> []" "no_nul d" "hd d \<noteq> CHR ''-''" "\<not> is_blank (hd d)" "\<not> is_trail (last d)" "hd d \<noteq> QUOTE" "hd d \<noteq> APOS"
    using assms(1) by (auto simp: tidy_def)
  have len: "length d < 511" using assms(4) by (auto simp: join_words_def split: if_splits)
  have t: "trim (''  '' @ d @ [LF]) = d"
    using trim_tidy [of d "''  ''" "[LF]"] d by (simp add: is_blank_def is_trail_def)
  have nd: "d \<noteq> ''---''" using d(3) by auto
  have "append_fold (fm_description f) 512 d True = join_words (fm_description f) [d]"
    using assms(4) by (cases "fm_description f = []") (simp_all add: append_fold_def join_words_def)
  then show ?thesis
    using t nd d(1,2) len assms(2,3) by (simp add: fm_line_def fit_id is_blank_def)
qed

lemma fm_lines_cont:
  assumes "list_all tidy ds" and "fm_in f" and "fm_cont f = Some (To_description, True)"
    and "length (join_words (fm_description f) ds) < 511"
  shows "fm_lines (map (\<lambda>d. ''  '' @ d @ [LF]) ds @ ls) f = fm_lines ls (f\<lparr>fm_description := join_words (fm_description f) ds\<rparr>)"
  using assms
proof (induction ds arbitrary: f)
  case Nil
  have "join_words (fm_description f) [] = fm_description f" by (simp add: join_words_def)
  then show ?case by simp
next
  case (Cons d ds)
  have d: "d \<noteq> []" using Cons.prems(1) by (simp add: tidy_def)
  have j: "join_words (join_words (fm_description f) [d]) ds = join_words (fm_description f) (d # ds)"
    by (rule join_words_step [OF d])
  have "length (join_words (fm_description f) [d]) \<le> length (join_words (fm_description f) (d # ds))"
    by (cases ds) (simp_all add: join_words_def)
  then have "fm_line (''  '' @ d @ [LF]) f = (False, f\<lparr>fm_description := join_words (fm_description f) [d]\<rparr>)"
    using Cons.prems by (intro fm_line_cont) simp_all
  then show ?case using Cons.IH [of "f\<lparr>fm_description := join_words (fm_description f) [d]\<rparr>"] Cons.prems j by simp
qed

definition skill_text :: "string \<Rightarrow> string list \<Rightarrow> string \<Rightarrow> string" where
  "skill_text name ds rest =
     ''---'' @ LF # ''name: '' @ name @ LF # ''description: >'' @ LF #
     concat (map (\<lambda>d. ''  '' @ d @ [LF]) ds) @ ''---'' @ LF # rest"

lemma fgets_cont:
  "list_all tidy ds \<Longrightarrow> list_all (\<lambda>d. length d < 511) ds \<Longrightarrow>
   fgets_lines 2048 (concat (map (\<lambda>d. ''  '' @ d @ [LF]) ds) @ r) = map (\<lambda>d. ''  '' @ d @ [LF]) ds @ fgets_lines 2048 r"
proof (induction ds)
  case (Cons d ds)
  have "LF \<notin> set (''  '' @ d)" "length (''  '' @ d) + 1 < 2048" using Cons.prems by (auto simp: tidy_def)
  from fgets_line [OF this] Cons show ?case by simp
qed simp

lemma unwords_long: "d \<in> set ds \<Longrightarrow> length d \<le> length (unwords ds)"
  by (induction ds rule: unwords.induct) auto

lemma folded_skill:
  assumes "tidy name" and "length name < 128" and "list_all tidy ds" and "length (unwords ds) < 511"
    and "read_file w path = Some (skill_text name ds rest)"
  shows "parse_frontmatter w path = Some (name, unwords ds)"
proof -
  have nm: "LF \<notin> set name" "name \<noteq> []" using assms(1) by (auto simp: tidy_def)
  have short: "list_all (\<lambda>d. length d < 511) ds"
    using unwords_long [of _ ds] assms(4) by (fastforce simp: list_all_iff)
  let ?m = "[CHR ''-'', CHR ''-'', CHR ''-'', LF]"
  let ?ls = "?m # (''name: '' @ name @ [LF]) # (''description: >'' @ [LF]) # map (\<lambda>d. ''  '' @ d @ [LF]) ds @ ?m # fgets_lines 2048 rest"
  have lines: "fgets_lines 2048 (skill_text name ds rest) = ?ls"
  proof -
    have "fgets_lines 2048 (''---'' @ LF # rest) = ?m # fgets_lines 2048 rest"
      using fgets_line [of "''---''" 2048 rest] by simp
    note r = this fgets_cont [OF assms(3) short, of "''---'' @ LF # rest"]
    have "fgets_lines 2048 (''description: >'' @ LF # X) = (''description: >'' @ [LF]) # fgets_lines 2048 X" for X
      by (rule fgets_line) simp_all
    moreover have "fgets_lines 2048 ((''name: '' @ name) @ LF # X) = ((''name: '' @ name) @ [LF]) # fgets_lines 2048 X" for X
      using nm assms(2) by (intro fgets_line) simp_all
    moreover have "fgets_lines 2048 (''---'' @ LF # X) = ?m # fgets_lines 2048 X" for X
      using fgets_line [of "''---''" 2048 X] by simp
    ultimately show ?thesis using r by (simp add: skill_text_def)
  qed
  let ?f1 = "fm_start\<lparr>fm_in := True, fm_saw_header := True\<rparr>"
  have n: "fm_line (''name'' @ '': '' @ name @ [LF]) ?f1 = (False, set_target To_name name (set_target To_name [] (?f1\<lparr>fm_cont := None\<rparr>)))"
    using assms(1,2) by (intro fm_line_entry) (simp_all add: fm_key_def)
  have "fm_lines ?ls fm_start = ?f1\<lparr>fm_name := name, fm_cont := Some (To_description, True), fm_description := unwords ds\<rparr>"
    using n fm_line_folded [of "?f1\<lparr>fm_cont := None, fm_name := name\<rparr>"] fm_lines_cont [OF assms(3)] assms(4)
    by (simp add: fm_line_marker join_words_def) (simp add: fm_start_def)
  then show ?thesis using assms(5) nm lines by (simp add: parse_frontmatter_def fm_start_def)
qed

text \<open>
  A skill file with a name and a folded description is read as it was written: the name,
  and the description's lines joined by single spaces, whatever follows the front matter.
\<close>

lemma frontmatter_folded:
  assumes "tidy name" and "length name < 128" and "list_all tidy ds" and "length (unwords ds) < 511"
    and "read_file w path = Some (skill_text name ds rest)"
  shows "parse_frontmatter w path = Some (name, unwords ds)"
  using assms by (rule folded_skill)

lemma frontmatter_folded_witness:
  "parse_frontmatter (calm_world\<lparr>w_files := (\<lambda>_. Some \<lparr>content = skill_text ''pdf'' [''Read'', ''PDF files''] ''body'', mode = 420\<rparr>)\<rparr>) ''p''
     = Some (''pdf'', ''Read PDF files'')"
  using frontmatter_folded [of "''pdf''" "[''Read'', ''PDF files'']" _ _ "''body''"]
  by (simp add: tidy_def is_blank_def is_trail_def read_file_def)

end
