(* ===== verification/Rules.thy ===== *)
theory Rules
  imports Skills
begin

section \<open>Rules (main.c)\<close>

text \<open>
  Rule files with their front matter and path globs, the shell command that decides whether a rule
  applies, and the directory scan.
\<close>

record rule_t =
  r_path :: string
  r_paths :: "string list"
  r_content :: string

subsection \<open>rule\_applies\<close>

text \<open>\<^verbatim>\<open>snprintf(cmd, 1024, ...)\<close> for one glob.\<close>

definition rule_command :: "string \<Rightarrow> string" where
  "rule_command g =
     (let g = (if starts ''**/'' g then drop 3 g else g)
      in fit 1024 (''find . -type f -name '' @ [APOS] @ g @ [APOS] @ '' -not -path '' @ [APOS] @ ''*/.git/*''
           @ [APOS] @ '' -print -quit 2>/dev/null''))"

fun any_path_matches :: "string list \<Rightarrow> world \<Rightarrow> bool \<times> world" where
  "any_path_matches [] w = (False, w)"
| "any_path_matches (g # gs) w =
     (case run_command (rule_command g) w of
        (None, w) \<Rightarrow> any_path_matches gs w
      | (Some r, w) \<Rightarrow> if cmd_output r \<noteq> [] then (True, w) else any_path_matches gs w)"

definition rule_applies :: "rule_t \<Rightarrow> world \<Rightarrow> bool \<times> world" where
  "rule_applies r w = (if r_paths r = [] then (True, w) else any_path_matches (r_paths r) w)"

subsection \<open>parse\_rule\<close>

definition is_item_lead :: "char \<Rightarrow> bool" where
  "is_item_lead c \<longleftrightarrow> c = CHR '' '' \<or> c = QUOTE \<or> c = APOS"

definition is_item_trail :: "char \<Rightarrow> bool" where
  "is_item_trail c \<longleftrightarrow> c = CHR '' '' \<or> c = CR \<or> c = QUOTE \<or> c = APOS"

text \<open>An indented line of the \<^verbatim>\<open>paths:\<close> list.\<close>

definition rule_item :: "string \<Rightarrow> string list \<Rightarrow> string list" where
  "rule_item line paths =
     (let q = dropWhile is_blank line in
      if q \<noteq> [] \<and> hd q = CHR ''-'' then
        let v = rstrip is_item_trail (dropWhile is_item_lead (tl q))
        in if v \<noteq> [] \<and> length paths < MAX_RULE_PATHS then paths @ [fit 256 v] else paths
      else paths)"

text \<open>The line at \<open>p\<close>, and what follows its line feed.\<close>

definition first_line :: "string \<Rightarrow> string" where
  "first_line p = takeWhile (\<lambda>c. c \<noteq> LF) p"

definition after_line :: "string \<Rightarrow> string" where
  "after_line p = tl (dropWhile (\<lambda>c. c \<noteq> LF) p)"

function rule_loop :: "string \<Rightarrow> bool \<Rightarrow> string list \<Rightarrow> string list" where
  "rule_loop p in_paths paths =
     (if p = [] then paths
      else
        let line = first_line p in
        if starts ''---'' line then paths
        else if \<not> is_blank (hd p) then rule_loop (after_line p) (starts ''paths:'' line) paths
        else if in_paths then rule_loop (after_line p) in_paths (rule_item line paths)
        else rule_loop (after_line p) in_paths paths)"
  by pat_completeness auto

lemma after_line_less: "p \<noteq> [] \<Longrightarrow> length (after_line p) < length p"
proof -
  assume "p \<noteq> []"
  then have "0 < length p" by simp
  moreover have "length (dropWhile (\<lambda>c. c \<noteq> LF) p) \<le> length p" by (rule length_dropWhile_le)
  ultimately show ?thesis unfolding after_line_def length_tl by linarith
qed

termination rule_loop
  by (relation "measure (\<lambda>(p, i, ps). length p)") (auto simp: after_line_less)

declare rule_loop.simps [simp del]

definition rule_paths :: "string \<Rightarrow> string list" where
  "rule_paths text =
     (if \<not> starts ''---'' text then []
      else case strchr text LF of None \<Rightarrow> [] | Some p \<Rightarrow> rule_loop (tl p) False [])"

definition parse_rule :: "world \<Rightarrow> string \<Rightarrow> rule_t option" where
  "parse_rule w path =
     (case read_file w path of
        None \<Rightarrow> None
      | Some text \<Rightarrow> Some \<lparr>r_path = fit 1024 path, r_paths = rule_paths (cstr text), r_content = text\<rparr>)"

subsection \<open>scan\_rules\_dir\<close>

fun scan_rules_loop :: "string \<Rightarrow> string list \<Rightarrow> rule_t list \<times> world \<Rightarrow> rule_t list \<times> world" where
  "scan_rules_loop dir [] rw = rw"
| "scan_rules_loop dir (fn # fns) rw =
     (let (rules, w) = rw; path = dir @ ''/'' @ fn in
      if MAX_RULES \<le> length rules then (rules, w)
      else if fn \<noteq> [] \<and> hd fn = CHR ''.'' then scan_rules_loop dir fns (rules, w)
      else if \<not> is_md fn then scan_rules_loop dir fns (rules, w)
      else if 1024 \<le> length path then scan_rules_loop dir fns (rules, w)
      else case w_files w path of
        None \<Rightarrow> scan_rules_loop dir fns (rules, w)
      | Some f \<Rightarrow>
          if 64 * 1024 < length (content f)
          then scan_rules_loop dir fns (rules, put_err (''[rule >64KB skipped: '' @ path @ '']'' @ [LF]) w)
          else (case parse_rule w path of
                  None \<Rightarrow> scan_rules_loop dir fns (rules, w)
                | Some r \<Rightarrow> scan_rules_loop dir fns (rules @ [r], w)))"

definition scan_rules_dir :: "string \<Rightarrow> rule_t list \<times> world \<Rightarrow> rule_t list \<times> world" where
  "scan_rules_dir dir rw =
     (case w_dirs (snd rw) dir of None \<Rightarrow> rw | Some ents \<Rightarrow> scan_rules_loop dir ents rw)"

subsection \<open>Bounds\<close>

definition paths_ok :: "string list \<Rightarrow> bool" where
  "paths_ok ps \<longleftrightarrow> length ps \<le> MAX_RULE_PATHS \<and> list_all (\<lambda>p. p \<noteq> [] \<and> length p < 256) ps"

definition rule_ok :: "rule_t \<Rightarrow> bool" where
  "rule_ok r \<longleftrightarrow> length (r_path r) < 1024 \<and> paths_ok (r_paths r)"

lemma fit_nonempty: "1 < n \<Longrightarrow> s \<noteq> [] \<Longrightarrow> fit n s \<noteq> []"
  by (simp add: fit_def)

lemma paths_ok_item: "paths_ok ps \<Longrightarrow> paths_ok (rule_item line ps)"
  by (simp add: paths_ok_def rule_item_def Let_def length_fit fit_nonempty)

lemma paths_ok_loop: "paths_ok ps \<Longrightarrow> paths_ok (rule_loop p b ps)"
proof (induction p b ps rule: rule_loop.induct)
  case (1 p b ps)
  then show ?case by (subst rule_loop.simps) (simp add: Let_def paths_ok_item)
qed

lemma rule_ok_parse: "parse_rule w path = Some r \<Longrightarrow> rule_ok r"
  by (auto simp: parse_rule_def rule_ok_def rule_paths_def length_fit paths_ok_def [of "[]"]
      intro!: paths_ok_loop split: option.splits)

lemma scan_rules_keeps:
  "list_all rule_ok (fst rw) \<and> length (fst rw) \<le> MAX_RULES \<Longrightarrow>
   list_all rule_ok (fst (scan_rules_dir dir rw)) \<and> length (fst (scan_rules_dir dir rw)) \<le> MAX_RULES"
proof -
  have "list_all rule_ok (fst rw) \<and> length (fst rw) \<le> MAX_RULES \<Longrightarrow>
      list_all rule_ok (fst (scan_rules_loop dir fns rw)) \<and> length (fst (scan_rules_loop dir fns rw)) \<le> MAX_RULES" for fns
  proof (induction fns arbitrary: rw)
    case (Cons fn fns)
    show ?case
      using Cons rule_ok_parse by (cases rw) (simp add: Let_def split: option.split)
  qed simp
  then show "list_all rule_ok (fst rw) \<and> length (fst rw) \<le> MAX_RULES \<Longrightarrow> ?thesis"
    by (auto simp: scan_rules_dir_def split: option.split)
qed

text \<open>
  Whatever is in the rule directories, at most 64 rules are loaded, each with at most 8
  globs, none of them empty, and every path and glob fits its array with the terminator.
\<close>

lemma scan_rules_ok:
  assumes "list_all rule_ok rules" and "length rules \<le> MAX_RULES"
  shows "list_all rule_ok (fst (scan_rules_dir dir (rules, w)))
    \<and> length (fst (scan_rules_dir dir (rules, w))) \<le> MAX_RULES"
  using scan_rules_keeps [of "(rules, w)"] assms by simp

lemma scan_rules_ok_witness:
  "length (fst (scan_rules_dir ''d'' ([], calm_world\<lparr>w_dirs := (\<lambda>_. Some (replicate 500 ''x.md''))\<rparr>))) \<le> MAX_RULES"
  using scan_rules_ok [of "[]"] by simp

subsection \<open>When a rule applies\<close>

lemma any_path_first:
  "w_commands w = Some r # cs \<Longrightarrow> cmd_output r \<noteq> [] \<Longrightarrow>
   fst (any_path_matches (g # gs) w) \<and> w_ran (snd (any_path_matches (g # gs) w)) = w_ran w @ [rule_command g]"
  by (simp add: run_command_def Let_def)

text \<open>
  A glob reaches the shell as it stands in the rule file, between single quotes that it can
  close: the glob below makes \<open>rule_applies\<close> run a command of the rule's author, here
  \<^verbatim>\<open>touch x\<close>, before any tool call of the model.
\<close>

lemma rule_glob_injection:
  "w_ran (snd (rule_applies \<lparr>r_path = ''r.md'', r_paths = [[APOS] @ ''; touch x; '' @ [APOS]], r_content = []\<rparr>
      (calm_world\<lparr>w_commands := [Some \<lparr>cmd_output = ''x'', cmd_status = Exited 0, cmd_files = (\<lambda>f. f)\<rparr>]\<rparr>)))
    = [''find . -type f -name '' @ [APOS, APOS] @ ''; touch x; '' @ [APOS, APOS] @ '' -not -path ''
         @ [APOS] @ ''*/.git/*'' @ [APOS] @ '' -print -quit 2>/dev/null'']"
  by (simp add: rule_applies_def run_command_def calm_world_def rule_command_def starts_def fit_def Let_def)

subsection \<open>A list of paths is read as written\<close>

definition glob_ok :: "string \<Rightarrow> bool" where
  "glob_ok g \<longleftrightarrow> g \<noteq> [] \<and> LF \<notin> set g \<and> no_nul g \<and> length g < 256
     \<and> \<not> is_item_lead (hd g) \<and> \<not> is_item_trail (last g)"

definition path_line :: "string \<Rightarrow> string" where
  "path_line g = ''  - '' @ [QUOTE] @ g @ [QUOTE]"

lemma rule_item_path: "glob_ok g \<Longrightarrow> length ps < MAX_RULE_PATHS \<Longrightarrow> rule_item (path_line g) ps = ps @ [g]"
proof -
  assume g: "glob_ok g" and n: "length ps < MAX_RULE_PATHS"
  have "dropWhile is_blank (path_line g) = ''- '' @ [QUOTE] @ g @ [QUOTE]"
    by (simp add: path_line_def is_blank_def)
  moreover have "dropWhile is_item_lead ('' '' @ [QUOTE] @ g @ [QUOTE]) = g @ [QUOTE]"
    using g by (cases g) (simp_all add: glob_ok_def is_item_lead_def)
  moreover have "rstrip is_item_trail (g @ [QUOTE]) = g"
    using g rstrip_keep [of g is_item_trail "[QUOTE]"] by (simp add: glob_ok_def is_item_trail_def)
  ultimately show ?thesis using g n by (simp add: rule_item_def Let_def glob_ok_def fit_id)
qed

lemma line_parts: "LF \<notin> set l \<Longrightarrow> first_line (l @ LF # r) = l" "LF \<notin> set l \<Longrightarrow> after_line (l @ LF # r) = r"
proof -
  assume "LF \<notin> set l"
  then have l: "\<And>x. x \<in> set l \<Longrightarrow> x \<noteq> LF" by auto
  show "first_line (l @ LF # r) = l" using l by (simp add: first_line_def takeWhile_append2)
  show "after_line (l @ LF # r) = r" using l by (simp add: after_line_def dropWhile_append2)
qed

lemma rule_loop_items:
  "list_all glob_ok gs \<Longrightarrow> length ps + length gs \<le> MAX_RULE_PATHS \<Longrightarrow>
   rule_loop (concat (map (\<lambda>g. path_line g @ [LF]) gs) @ r) True ps = rule_loop r True (ps @ gs)"
proof (induction gs arbitrary: ps)
  case (Cons g gs)
  let ?X = "concat (map (\<lambda>g. path_line g @ [LF]) gs) @ r"
  have nl: "LF \<notin> set (path_line g)" using Cons.prems by (simp add: path_line_def glob_ok_def)
  have "rule_item (path_line g) ps = ps @ [g]" using Cons.prems by (intro rule_item_path) simp_all
  moreover have "\<not> starts ''---'' (path_line g)" "is_blank (hd (path_line g @ LF # ?X))" "path_line g @ LF # ?X \<noteq> []"
    by (simp_all add: path_line_def starts_def is_blank_def)
  ultimately have "rule_loop (path_line g @ LF # ?X) True ps = rule_loop ?X True (ps @ [g])"
    using line_parts [OF nl, of ?X] by (subst rule_loop.simps) simp
  then show ?case using Cons by simp
qed simp

text \<open>
  The globs of a rule file are read as they were written: up to 8 quoted items under
  \<^verbatim>\<open>paths:\<close>, in order, whatever text follows the front matter.
\<close>

lemma rule_paths_read:
  assumes "list_all glob_ok gs" and "length gs \<le> MAX_RULE_PATHS"
  shows "rule_paths (''---'' @ LF # ''paths:'' @ LF # concat (map (\<lambda>g. path_line g @ [LF]) gs) @ ''---'' @ LF # rest) = gs"
proof -
  let ?R = "''---'' @ LF # rest"
  let ?X = "concat (map (\<lambda>g. path_line g @ [LF]) gs) @ ?R"
  have "rule_loop (''paths:'' @ LF # ?X) False [] = rule_loop ?X True []"
    using line_parts [of "''paths:''" ?X] by (subst rule_loop.simps) (simp add: starts_def is_blank_def)
  also have "\<dots> = rule_loop ?R True gs" using rule_loop_items [OF assms(1), of "[]" ?R] assms(2) by simp
  also have "\<dots> = gs" using line_parts [of "''---''" rest] by (subst rule_loop.simps) (simp add: starts_def)
  finally show ?thesis by (simp add: rule_paths_def starts_def)
qed

lemma rule_paths_read_witness:
  "rule_paths (''---'' @ LF # ''paths:'' @ LF # (path_line ''**/*.c'' @ [LF]) @ ''---'' @ LF # ''body'') = [''**/*.c'']"
  using rule_paths_read [of "[''**/*.c'']" "''body''"]
  by (simp add: glob_ok_def is_item_lead_def is_item_trail_def MAX_RULE_PATHS_def)

end
