(* ===== verification/Prompt.thy ===== *)
theory Prompt
  imports Rules Buffers
begin

section \<open>The system prompt (main.c)\<close>

text \<open>
  \<open>build_system_prompt\<close> concatenates the base prompt, the CLAUDE.md files, the rules that apply and
  the list of skills, whose fields are escaped for XML.
\<close>

subsection \<open>CLAUDE.md\<close>

text \<open>\<^verbatim>\<open>fread\<close> by 4096 bytes until nothing is left.\<close>

function append_pieces :: "buf_t \<Rightarrow> string \<Rightarrow> buf_t" where
  "append_pieces out rest =
     (if rest = [] then out else append_pieces (buf_append out (take 4096 rest)) (drop 4096 rest))"
  by pat_completeness auto
termination by (relation "measure (\<lambda>(out, rest). length rest)") auto

declare append_pieces.simps [simp del]

definition append_claude_md :: "buf_t \<Rightarrow> string \<Rightarrow> string \<Rightarrow> world \<Rightarrow> buf_t \<times> nat" where
  "append_claude_md out path label w =
     (case read_file w path of
        None \<Rightarrow> (out, 0)
      | Some body \<Rightarrow>
          let out = buf_append out ([LF, LF] @ ''Contents of '');
              out = buf_append out path;
              out = buf_append out '' ('';
              out = buf_append out label;
              out = buf_append out (''):'' @ [LF, LF])
          in (append_pieces out body, 1))"

subsection \<open>XML\<close>

definition xml_char :: "char \<Rightarrow> string" where
  "xml_char c =
     (if c = CHR ''<'' then ''&lt;'' else if c = CHR ''>'' then ''&gt;''
      else if c = CHR ''&'' then ''&amp;'' else [c])"

definition buf_append_xml_escaped :: "buf_t \<Rightarrow> string \<Rightarrow> buf_t" where
  "buf_append_xml_escaped out s = foldl (\<lambda>out c. buf_append out (xml_char c)) out s"

subsection \<open>build\_system\_prompt\<close>

definition global_label :: string where
  "global_label = ''user'' @ [APOS] @ ''s private global instructions for all projects''"

definition append_home_md :: "buf_t \<Rightarrow> world \<Rightarrow> buf_t \<times> nat" where
  "append_home_md out w =
     (case w_env w ''HOME'' of
        None \<Rightarrow> (out, 0)
      | Some home \<Rightarrow>
          let p = home @ ''/.claude/CLAUDE.md''
          in if length p < 1024 then append_claude_md out p global_label w else (out, 0))"

definition append_rule :: "rule_t \<Rightarrow> buf_t \<Rightarrow> buf_t" where
  "append_rule r out =
     (let out = buf_append out ([LF, LF] @ ''Contents of '');
          out = buf_append out (r_path r);
          out = buf_append out ('' (rule):'' @ [LF, LF])
      in buf_append out (cstr (r_content r)))"

fun append_rules :: "rule_t list \<Rightarrow> buf_t \<times> world \<Rightarrow> buf_t \<times> world" where
  "append_rules [] bw = bw"
| "append_rules (r # rs) bw =
     (let (out, w) = bw; (ok, w) = rule_applies r w
      in append_rules rs (if ok then append_rule r out else out, w))"

definition skill_hint :: string where
  "skill_hint = [LF, LF] @ ''To use a skill, first read its SKILL.md (via `cat <path>`) to learn its instructions, ''
     @ ''then follow them. The path is a markdown file, not an executable.''"

definition append_skill :: "buf_t \<Rightarrow> skill_t \<Rightarrow> buf_t" where
  "append_skill out sk =
     (let out = buf_append out (''  <skill>'' @ [LF] @ ''    <name>'');
          out = buf_append_xml_escaped out (sk_name sk);
          out = buf_append out (''</name>'' @ [LF] @ ''    <description>'');
          out = buf_append_xml_escaped out (sk_description sk);
          out = buf_append out (''</description>'' @ [LF] @ ''    <path>'');
          out = buf_append_xml_escaped out (sk_path sk)
      in buf_append out (''</path>'' @ [LF] @ ''  </skill>'' @ [LF]))"

definition report_loaded :: "nat \<Rightarrow> world \<Rightarrow> world" where
  "report_loaded n w = (if 0 < n then put_err (''[loaded '' @ show_nat n @ '' CLAUDE.md]'' @ [LF]) w else w)"

definition build_system_prompt :: "rule_t list \<Rightarrow> skill_t list \<Rightarrow> buf_t \<Rightarrow> world \<Rightarrow> buf_t \<times> world" where
  "build_system_prompt rules skills out w =
     (let out = buf_append out BASE_SYSTEM;
          (out, n) = append_home_md out w;
          (out, m) = append_claude_md out ''./CLAUDE.md'' ''project instructions'' w;
          w = report_loaded (n + m) w;
          (out, w) = append_rules rules (out, w)
      in if skills = [] then (out, w)
         else
           let out = buf_append out skill_hint;
               out = buf_append out ([LF, LF] @ ''<skills>'' @ [LF]);
               out = foldl append_skill out skills
           in (buf_append out ''</skills>'', w))"

subsection \<open>The text that is built\<close>

lemma bdata_pieces [simp]: "bdata (append_pieces out s) = bdata out @ s"
proof (induction out s rule: append_pieces.induct)
  case (1 out s)
  then show ?case by (subst append_pieces.simps) simp
qed

lemma bdata_xml [simp]: "bdata (buf_append_xml_escaped out s) = bdata out @ concat (map xml_char s)"
  unfolding buf_append_xml_escaped_def by (induction s arbitrary: out) simp_all

definition md_text :: "string \<Rightarrow> string \<Rightarrow> world \<Rightarrow> string" where
  "md_text path label w =
     (case read_file w path of None \<Rightarrow> []
      | Some body \<Rightarrow> [LF, LF] @ ''Contents of '' @ path @ '' ('' @ label @ ''):'' @ [LF, LF] @ body)"

lemma bdata_md: "bdata (fst (append_claude_md out path label w)) = bdata out @ md_text path label w"
  by (simp add: append_claude_md_def md_text_def Let_def split: option.split)

definition home_text :: "world \<Rightarrow> string" where
  "home_text w =
     (case w_env w ''HOME'' of
        None \<Rightarrow> []
      | Some home \<Rightarrow>
          if length (home @ ''/.claude/CLAUDE.md'') < 1024
          then md_text (home @ ''/.claude/CLAUDE.md'') global_label w else [])"

lemma bdata_home: "bdata (fst (append_home_md out w)) = bdata out @ home_text w"
  by (simp add: append_home_md_def home_text_def Let_def bdata_md split: option.split)

text \<open>The rules that apply, with the world that deciding so leaves.\<close>

fun applying :: "rule_t list \<Rightarrow> world \<Rightarrow> rule_t list \<times> world" where
  "applying [] w = ([], w)"
| "applying (r # rs) w =
     (let (ok, w) = rule_applies r w; (xs, w) = applying rs w in (if ok then r # xs else xs, w))"

definition rule_text :: "rule_t \<Rightarrow> string" where
  "rule_text r = [LF, LF] @ ''Contents of '' @ r_path r @ '' (rule):'' @ [LF, LF] @ cstr (r_content r)"

lemma bdata_rule: "bdata (append_rule r out) = bdata out @ rule_text r"
  by (simp add: append_rule_def rule_text_def Let_def)

lemma append_rules_text:
  "bdata (fst (append_rules rs (out, w))) = bdata out @ concat (map rule_text (fst (applying rs w)))
   \<and> snd (append_rules rs (out, w)) = snd (applying rs w)"
proof (induction rs arbitrary: out w)
  case (Cons r rs)
  obtain ok w1 where r: "rule_applies r w = (ok, w1)" by (metis surj_pair)
  show ?case using Cons.IH [of _ w1] by (simp add: r split_beta Let_def bdata_rule)
qed simp

definition xml_text :: "string \<Rightarrow> string" where
  "xml_text s = concat (map xml_char s)"

definition skill_entry :: "string \<times> string \<times> string \<Rightarrow> string" where
  "skill_entry f =
     (let (name, desc, path) = f in
      ''  <skill>'' @ [LF] @ ''    <name>'' @ xml_text name @ ''</name>'' @ [LF] @ ''    <description>''
      @ xml_text desc @ ''</description>'' @ [LF] @ ''    <path>'' @ xml_text path
      @ ''</path>'' @ [LF] @ ''  </skill>'' @ [LF])"

definition skill_fields :: "skill_t \<Rightarrow> string \<times> string \<times> string" where
  "skill_fields sk = (sk_name sk, sk_description sk, sk_path sk)"

definition skills_text :: "skill_t list \<Rightarrow> string" where
  "skills_text sks =
     (if sks = [] then []
      else skill_hint @ [LF, LF] @ ''<skills>'' @ [LF] @ concat (map (skill_entry \<circ> skill_fields) sks) @ ''</skills>'')"

lemma bdata_skill: "bdata (append_skill out sk) = bdata out @ skill_entry (skill_fields sk)"
  by (simp add: append_skill_def skill_entry_def skill_fields_def xml_text_def Let_def)

lemma bdata_skills: "bdata (foldl append_skill out sks) = bdata out @ concat (map (skill_entry \<circ> skill_fields) sks)"
  by (induction sks arbitrary: out) (simp_all add: bdata_skill)

definition prompt_text :: "rule_t list \<Rightarrow> skill_t list \<Rightarrow> world \<Rightarrow> string" where
  "prompt_text rules skills w =
     BASE_SYSTEM @ home_text w @ md_text ''./CLAUDE.md'' ''project instructions'' w
     @ concat (map rule_text (fst (applying rules w))) @ skills_text skills"

lemma rule_world_err: "run_command c (put_err s w) = (fst (run_command c w), put_err s (snd (run_command c w)))"
  by (simp add: run_command_def put_err_def Let_def split: list.split option.split)

lemma any_path_err: "any_path_matches gs (put_err s w) = (fst (any_path_matches gs w), put_err s (snd (any_path_matches gs w)))"
proof (induction gs w rule: any_path_matches.induct)
  case (2 g gs w)
  then show ?case
    by (cases "run_command (rule_command g) w") (simp add: rule_world_err split: option.split)
qed simp

lemma applying_err: "fst (applying rs (put_err s w)) = fst (applying rs w)"
proof (induction rs arbitrary: w)
  case (Cons r rs)
  have "rule_applies r (put_err s w) = (fst (rule_applies r w), put_err s (snd (rule_applies r w)))"
    by (simp add: rule_applies_def any_path_err)
  then show ?case using Cons by (simp add: split_beta Let_def)
qed simp

lemma prompt_data: "bdata (fst (build_system_prompt rules skills buf_empty w)) = prompt_text rules skills w"
proof -
  obtain o1 n where h: "append_home_md (buf_append buf_empty BASE_SYSTEM) w = (o1, n)" by (metis surj_pair)
  obtain o2 m where c: "append_claude_md o1 ''./CLAUDE.md'' ''project instructions'' w = (o2, m)" by (metis surj_pair)
  define w1 where "w1 = report_loaded (n + m) w"
  obtain o3 w2 where r: "append_rules rules (o2, w1) = (o3, w2)" by (metis surj_pair)
  have d1: "bdata o1 = BASE_SYSTEM @ home_text w" using bdata_home [of "buf_append buf_empty BASE_SYSTEM" w] h by simp
  have d2: "bdata o2 = bdata o1 @ md_text ''./CLAUDE.md'' ''project instructions'' w"
    using bdata_md [of o1 "''./CLAUDE.md''" "''project instructions''" w] c by simp
  have "fst (applying rules w1) = fst (applying rules w)" by (simp add: w1_def report_loaded_def applying_err)
  then have d3: "bdata o3 = bdata o2 @ concat (map rule_text (fst (applying rules w)))"
    using append_rules_text [of rules o2 w1] r by simp
  show ?thesis
    using h c r d1 d2 d3
    by (simp add: build_system_prompt_def prompt_text_def skills_text_def Let_def w1_def [symmetric] bdata_skills)
qed

subsection \<open>The skill list can be read back\<close>

fun xml_read :: "string \<Rightarrow> string" where
  "xml_read [] = []"
| "xml_read (c # s) =
     (if prefix ''&lt;'' (c # s) then CHR ''<'' # xml_read (drop 3 s)
      else if prefix ''&gt;'' (c # s) then CHR ''>'' # xml_read (drop 3 s)
      else if prefix ''&amp;'' (c # s) then CHR ''&'' # xml_read (drop 4 s)
      else c # xml_read s)"

lemma xml_read_text: "xml_read (xml_text s) = s"
proof (induction s)
  case (Cons c s)
  then show ?case by (simp add: xml_text_def xml_char_def)
qed (simp add: xml_text_def)

lemma xml_no_tag: "CHR ''<'' \<notin> set (xml_text s)"
  by (simp add: xml_text_def xml_char_def)

text \<open>A field up to its closing tag, and a whole entry.\<close>

definition read_field :: "string \<Rightarrow> string \<Rightarrow> (string \<times> string) option" where
  "read_field before s =
     (if prefix before s
      then let t = drop (length before) s
           in Some (xml_read (takeWhile (\<lambda>c. c \<noteq> CHR ''<'') t), dropWhile (\<lambda>c. c \<noteq> CHR ''<'') t)
      else None)"

lemma read_field_text: "read_field b (b @ xml_text x @ CHR ''<'' # r) = Some (x, CHR ''<'' # r)"
proof -
  have "\<forall>c \<in> set (xml_text x). c \<noteq> CHR ''<''" using xml_no_tag by metis
  then show ?thesis by (simp add: read_field_def Let_def takeWhile_append2 dropWhile_append2 xml_read_text)
qed

lemma read_field_less: "read_field b s = Some (x, r) \<Longrightarrow> length r + length b \<le> length s"
proof -
  assume "read_field b s = Some (x, r)"
  then obtain t where "s = b @ t" "r = dropWhile (\<lambda>c. c \<noteq> CHR ''<'') t"
    by (auto simp: read_field_def Let_def prefix_def split: if_splits)
  then show ?thesis using length_dropWhile_le [of _ t] by simp
qed

definition name_tag :: string where "name_tag = ''  <skill>'' @ [LF] @ ''    <name>''"
definition desc_tag :: string where "desc_tag = ''</name>'' @ [LF] @ ''    <description>''"
definition path_tag :: string where "path_tag = ''</description>'' @ [LF] @ ''    <path>''"
definition end_tag :: string where "end_tag = ''</path>'' @ [LF] @ ''  </skill>'' @ [LF]"

definition read_entry :: "string \<Rightarrow> ((string \<times> string \<times> string) \<times> string) option" where
  "read_entry s =
     (case read_field name_tag s of None \<Rightarrow> None
      | Some (name, s) \<Rightarrow>
          (case read_field desc_tag s of None \<Rightarrow> None
           | Some (desc, s) \<Rightarrow>
               (case read_field path_tag s of None \<Rightarrow> None
                | Some (path, s) \<Rightarrow>
                    if prefix end_tag s then Some ((name, desc, path), drop (length end_tag) s) else None)))"

lemma read_entry_text: "read_entry (skill_entry f @ r) = Some (f, r)"
proof -
  obtain n d p where f: "f = (n, d, p)" by (metis surj_pair)
  have tags: "desc_tag = CHR ''<'' # tl desc_tag" "path_tag = CHR ''<'' # tl path_tag" "end_tag = CHR ''<'' # tl end_tag"
    by (simp_all add: desc_tag_def path_tag_def end_tag_def)
  have e: "skill_entry f @ r = name_tag @ xml_text n @ desc_tag @ xml_text d @ path_tag @ xml_text p @ end_tag @ r"
    by (simp add: f skill_entry_def name_tag_def desc_tag_def path_tag_def end_tag_def)
  have 1: "read_field name_tag (skill_entry f @ r) = Some (n, desc_tag @ xml_text d @ path_tag @ xml_text p @ end_tag @ r)"
    using read_field_text [of name_tag n] tags(1) by (metis e append_Cons)
  have 2: "read_field desc_tag (desc_tag @ xml_text d @ path_tag @ xml_text p @ end_tag @ r)
      = Some (d, path_tag @ xml_text p @ end_tag @ r)"
    using read_field_text [of desc_tag d] tags(2) by (metis append_Cons)
  have 3: "read_field path_tag (path_tag @ xml_text p @ end_tag @ r) = Some (p, end_tag @ r)"
    using read_field_text [of path_tag p] tags(3) by (metis append_Cons)
  show ?thesis using 1 2 3 by (simp add: read_entry_def f)
qed

lemma read_entry_less: "read_entry s = Some (f, r) \<Longrightarrow> length r < length s"
proof -
  assume "read_entry s = Some (f, r)"
  then obtain n d p s1 s2 s3 where r: "read_field name_tag s = Some (n, s1)" "read_field desc_tag s1 = Some (d, s2)"
    "read_field path_tag s2 = Some (p, s3)" "r = drop (length end_tag) s3"
    by (auto simp: read_entry_def split: option.splits prod.splits if_splits)
  have "0 < length name_tag" by (simp add: name_tag_def)
  moreover have "length r \<le> length s3" using r(4) by simp
  ultimately show ?thesis
    using read_field_less [OF r(1)] read_field_less [OF r(2)] read_field_less [OF r(3)] by linarith
qed

function read_skills :: "string \<Rightarrow> (string \<times> string \<times> string) list" where
  "read_skills s = (case read_entry s of None \<Rightarrow> [] | Some (f, r) \<Rightarrow> f # read_skills r)"
  by pat_completeness auto
termination read_skills by (relation "measure length") (auto dest: read_entry_less)

declare read_skills.simps [simp del]

lemma read_skills_text: "read_skills (concat (map skill_entry fs) @ ''</skills>'') = fs"
proof (induction fs)
  case Nil
  have "read_entry ''</skills>'' = None" by (simp add: read_entry_def read_field_def name_tag_def)
  then show ?case by (subst read_skills.simps) simp
next
  case (Cons f fs)
  then show ?case by (subst read_skills.simps) (simp add: read_entry_text)
qed

text \<open>
  \<^bold>\<open>C17\<close> The system prompt is the base prompt, the CLAUDE.md files that exist, the rules that
  apply in their order, and, when skills were loaded, a list from which a reader of the tags gets
  back every skill's name, description and path, whatever characters they contain: the escaping
  leaves no field that could close its tag.
\<close>

theorem prompt_contents:
  assumes "skills \<noteq> []"
  shows "\<exists>entries. bdata (fst (build_system_prompt rules skills buf_empty w)) =
      BASE_SYSTEM @ home_text w @ md_text ''./CLAUDE.md'' ''project instructions'' w
      @ concat (map rule_text (fst (applying rules w)))
      @ skill_hint @ [LF, LF] @ ''<skills>'' @ [LF] @ entries
    \<and> read_skills entries = map skill_fields skills"
  using assms read_skills_text [of "map skill_fields skills"]
  by (auto simp: prompt_data prompt_text_def skills_text_def)

theorem prompt_contents_witness:
  "\<exists>entries. bdata (fst (build_system_prompt []
        [\<lparr>sk_name = ''a</name>'', sk_description = ''<&>'', sk_path = ''p''\<rparr>] buf_empty calm_world)) =
      BASE_SYSTEM @ skill_hint @ [LF, LF] @ ''<skills>'' @ [LF] @ entries
    \<and> read_skills entries = [(''a</name>'', ''<&>'', ''p'')]"
  using prompt_contents [of "[\<lparr>sk_name = ''a</name>'', sk_description = ''<&>'', sk_path = ''p''\<rparr>]" "[]" calm_world]
  by (simp add: home_text_def md_text_def read_file_def calm_world_def skill_fields_def)

end
