(* ===== verification/SaMain.thy ===== *)
theory SaMain
  imports ChatProps Prompt
begin

section \<open>The program (main.c)\<close>

text \<open>
  \<open>main\<close>: its arguments and environment, the extensions, the resumption of a session, the one-shot and
  the interactive mode, and every exit status; with the proof that it returns.
\<close>

definition make_user_msg :: "string \<Rightarrow> cjson" where
  "make_user_msg s =
     (let msg = cJSON_AddStringToObject (Some cJSON_CreateObject) (Some ''role'') (Some ''user'');
          item = cJSON_AddStringToObject (Some cJSON_CreateObject) (Some ''type'') (Some ''text'');
          item = cJSON_AddStringToObject item (Some ''text'') (Some s);
          c = cJSON_AddItemToArray (Some cJSON_CreateArray) item
      in the (cJSON_AddItemToObject msg (Some ''content'') c))"

text \<open>The flags: \<^verbatim>\<open>continue_flag\<close>, \<^verbatim>\<open>g_json\<close> and the remaining arguments.\<close>

fun parse_flags :: "string list \<Rightarrow> bool \<times> bool \<Rightarrow> (bool \<times> bool) \<times> string list" where
  "parse_flags [] f = (f, [])"
| "parse_flags (a # args) (cont, json) =
     (if a = ''-c'' \<or> a = ''--continue'' then parse_flags args (True, json)
      else if a = ''--json'' then parse_flags args (cont, True)
      else ((cont, json), a # args))"

definition api_url :: "string \<Rightarrow> string" where
  "api_url base = fit 1024 (rstrip (\<lambda>c. c = CHR ''/'') base @ ''/v1/messages'')"

definition plural :: "nat \<Rightarrow> string" where
  "plural n = (if n = 1 then [] else ''s'')"

text \<open>The skill and rule directories of the project, then those of the home directory.\<close>

definition load_home :: "string \<Rightarrow> skill_t list \<Rightarrow> rule_t list \<Rightarrow> world \<Rightarrow> skill_t list \<times> rule_t list \<times> world" where
  "load_home home skills rules w =
     (let hp = home @ ''/.claude/skills'';
          (skills, w) = (if length hp < 1024 then scan_skills_dir hp (skills, w) else (skills, w));
          hp = home @ ''/.claude/rules'';
          (rules, w) = (if length hp < 1024 then scan_rules_dir hp (rules, w) else (rules, w))
      in (skills, rules, w))"

definition load_extensions :: "world \<Rightarrow> skill_t list \<times> rule_t list \<times> world" where
  "load_extensions w =
     (let (skills, w) = scan_skills_dir ''./.claude/skills'' ([], w);
          (rules, w) = scan_rules_dir ''./.claude/rules'' ([], w);
          (skills, rules, w) =
            (case w_env w ''HOME'' of None \<Rightarrow> (skills, rules, w) | Some home \<Rightarrow> load_home home skills rules w);
          w = (if skills \<noteq> []
               then put_err (''[loaded '' @ show_nat (length skills) @ '' skill'' @ plural (length skills) @ '']'' @ [LF]) w
               else w);
          w = (if rules \<noteq> []
               then put_err (''[loaded '' @ show_nat (length rules) @ '' rule'' @ plural (length rules) @ '']'' @ [LF]) w
               else w)
      in (skills, rules, w))"

text \<open>\<^verbatim>\<open>--continue\<close>: load, heal, save what was healed.\<close>

definition resume_session :: "world \<Rightarrow> cjson \<times> world" where
  "resume_session w =
     (let (loaded, messages, w) = session_load cJSON_CreateArray w in
      if loaded < 0 then (messages, put_err (''[no prior session at '' @ SESSION_PATH @ '']'' @ [LF]) w)
      else
        let (messages, pruned) = session_prune_empty_tool_use messages;
            w = (if 0 < pruned
                 then session_rewrite (Some messages)
                        (put_err (''[session: healed '' @ show_nat pruned @ '' poisoned tool_use/result block''
                           @ plural pruned @ '']'' @ [LF]) w)
                 else w)
        in (messages, put_err (''[resumed '' @ show_nat (cJSON_GetArraySize (Some messages)) @ '' messages]'' @ [LF]) w))"

fun join_args :: "string list \<Rightarrow> string" where
  "join_args [] = []"
| "join_args [a] = a"
| "join_args (a # as) = a @ '' '' @ join_args as"

text \<open>
  What the successive calls of \<^verbatim>\<open>fgets\<close> on standard input return: a line in pieces of at most
  8191 bytes, or NULL (\<^term>\<open>None\<close>) because of a SIGINT.
\<close>

definition stdin_reads :: "world \<Rightarrow> string option list" where
  "stdin_reads w =
     concat (map (\<lambda>e. case e of None \<Rightarrow> [None] | Some t \<Rightarrow> map Some (fgets_lines 8192 t)) (w_stdin w))"

definition prompt_mark :: string where
  "prompt_mark = [LF, ESC] @ ''[1;36m'' @ [CHR 0xE2, CHR 0x80, CHR 0xBA] @ '' '' @ [ESC] @ ''[0m''"

fun repl :: "bool \<Rightarrow> (cjson \<times> world \<Rightarrow> (int \<times> (cjson \<times> world)) option) \<Rightarrow> string option list \<Rightarrow> cjson \<times> world \<Rightarrow>
    (int \<times> (cjson \<times> world)) option" where
  "repl is_tty turn [] (messages, w) =
     (let w = (if is_tty then put_err prompt_mark w else w)\<lparr>w_interrupt := False\<rparr>
      in Some (0, (messages, if is_tty then put_err [LF] w else w)))"
| "repl is_tty turn (None # reads) (messages, w) =
     (let w = (if is_tty then put_err prompt_mark w else w)\<lparr>w_interrupt := False\<rparr>
      in repl is_tty turn reads (messages, if is_tty then put_err [LF] w else w))"
| "repl is_tty turn (Some line # reads) (messages, w) =
     (let w = (if is_tty then put_err prompt_mark w else w)\<lparr>w_interrupt := False\<rparr>;
          line = chomp (cstr line)
      in if line = [] then repl is_tty turn reads (messages, w)
         else case turn (add_message (Some (make_user_msg line)) (messages, w)) of
           None \<Rightarrow> None
         | Some (r, mw) \<Rightarrow> if r = 1 then Some (1, mw) else repl is_tty turn reads mw)"

text \<open>One prompt from the arguments, or a session on standard input.\<close>

definition run_agent :: "bool \<Rightarrow> string list \<Rightarrow> string \<Rightarrow> (cjson \<times> world \<Rightarrow> (int \<times> (cjson \<times> world)) option) \<Rightarrow>
    cjson \<times> world \<Rightarrow> (int \<times> (cjson \<times> world)) option" where
  "run_agent is_tty args model turn mw =
     (if args \<noteq> [] then turn (add_message (Some (make_user_msg (join_args args))) mw)
      else
        let (messages, w) = mw;
            w = (if is_tty
                 then put_err (''sa '' @ model @ '' '' @ [CHR 0xE2, CHR 0x80, CHR 0x94]
                        @ '' Ctrl+D to exit, Ctrl+C to interrupt'' @ [LF]) w
                 else w)
        in repl is_tty turn (stdin_reads w) (messages, w))"

definition env_or :: "world \<Rightarrow> string \<Rightarrow> string \<Rightarrow> string" where
  "env_or w name dflt = (case w_env w name of Some v \<Rightarrow> v | None \<Rightarrow> dflt)"

definition set_flags :: "bool \<Rightarrow> world \<Rightarrow> world" where
  "set_flags json w = w\<lparr>w_json := json, w_debug := w_debug w \<or> w_env w ''TINY_DEBUG'' \<noteq> None\<rparr>"

definition sa_main :: "bool \<Rightarrow> string list \<Rightarrow> world \<Rightarrow> (int \<times> (cjson \<times> world)) option" where
  "sa_main is_tty argv w =
     (let ((cont, json), args) = parse_flags argv (False, False) in
      case w_env w ''KIMI_TOKEN'' of
        None \<Rightarrow> Some (1, (cJSON_CreateArray, put_err (''set KIMI_TOKEN'' @ [LF]) (w\<lparr>w_json := json\<rparr>)))
      | Some api_key \<Rightarrow>
          let url = api_url (env_or w ''KIMI_BASE_URL'' ''https://api.kimi.com/coding'');
              model = env_or w ''MODEL'' ''kimi-for-coding'';
              (skills, rules, w) = load_extensions (set_flags json w);
              (sys, w) = build_system_prompt rules skills buf_empty w;
              (messages, w) = (if cont then resume_session w else (cJSON_CreateArray, w))
          in run_agent is_tty args model
               (\<lambda>(messages, w). chat_turn url api_key model (cstr (bdata sys)) messages all_tools w) (messages, w))"

subsection \<open>It ends\<close>

definition ends_with_code :: "world \<Rightarrow> (int \<times> (cjson \<times> world)) option \<Rightarrow> bool" where
  "ends_with_code w = returns_or_hangs (may_hang w) (run_done w)"

lemma ends_with_code_simps [simp]:
  "ends_with_code w None = may_hang w"
  "ends_with_code w (Some (c, (m, w'))) = (c \<in> {0, 1, 2, 130} \<and> fds_same w w')"
  by (simp_all add: ends_with_code_def run_done_def)

lemma turn_ends: "fds_wf w \<Longrightarrow> ends_with_code w (chat_turn url key model sys messages tools w)"
  using chat_loop_returns [of w MAX_TOOL_ITER url key model sys tools messages]
  by (simp add: ends_with_code_def chat_turn_def)

lemma ends_after: "fds_same w w' \<Longrightarrow> ends_with_code w' r \<Longrightarrow> ends_with_code w r"
  unfolding ends_with_code_def returns_or_hangs_def run_done_def
  using fds_same_trans fds_same_hang by (auto split: option.splits prod.splits)

lemma fds_same_flags [simp]:
  "fds_same w (w'\<lparr>w_interrupt := b\<rparr>) = fds_same w w'" "fds_same w (w'\<lparr>w_json := b\<rparr>) = fds_same w w'"
  "fds_same w (w'\<lparr>w_debug := b\<rparr>) = fds_same w w'" "fds_same w (w'\<lparr>w_skill_warned := b\<rparr>) = fds_same w w'"
  by (simp_all add: fds_same_def)

lemma fds_same_message [simp]: "fds_same w (snd (add_message m (messages, w'))) = fds_same w w'"
  by (simp add: add_message_def)

lemma repl_ends:
  assumes "fds_wf w" and turn: "\<And>mw. fds_wf (snd mw) \<Longrightarrow> ends_with_code (snd mw) (turn mw)"
  shows "ends_with_code w (repl is_tty turn reads (messages, w))"
  using assms(1)
proof (induction reads arbitrary: messages w)
  case Nil
  show ?case by (simp add: Let_def)
next
  case (Cons e reads)
  let ?w = "(if is_tty then put_err prompt_mark w else w)\<lparr>w_interrupt := False\<rparr>"
  have w: "fds_same w ?w" "fds_same w (put_err [LF] ?w)" by simp_all
  show ?case
  proof (cases e)
    case None
    let ?w2 = "if is_tty then put_err [LF] ?w else ?w"
    have s: "fds_same w ?w2" by simp
    have "ends_with_code ?w2 (repl is_tty turn reads (messages, ?w2))"
      by (rule Cons.IH [OF fds_same_wf [OF s Cons.prems]])
    then show ?thesis using ends_after [OF s] by (simp add: None Let_def)
  next
    case (Some line)
    show ?thesis
    proof (cases "chomp (cstr line) = []")
      case True
      have "ends_with_code ?w (repl is_tty turn reads (messages, ?w))"
        by (rule Cons.IH [OF fds_same_wf [OF w(1) Cons.prems]])
      then show ?thesis using ends_after [OF w(1)] True by (simp add: Some Let_def)
    next
      case False
      let ?mw = "add_message (Some (make_user_msg (chomp (cstr line)))) (messages, ?w)"
      have s: "fds_same w (snd ?mw)" by simp
      have e: "ends_with_code (snd ?mw) (turn ?mw)" using turn [OF fds_same_wf [OF s Cons.prems]] .
      show ?thesis
      proof (cases "turn ?mw")
        case hang: None
        then have "may_hang w" using e fds_same_hang [OF s] by simp
        then show ?thesis using hang False by (simp add: Some Let_def)
      next
        case ret: (Some x)
        obtain c m w1 where x: "x = (c, (m, w1))" by (metis surj_pair)
        have w1: "fds_same w w1" "c \<in> {0, 1, 2, 130}" using e fds_same_trans [OF s] by (simp_all add: ret x)
        have "ends_with_code w (repl is_tty turn reads (m, w1))"
          using ends_after [OF w1(1)] Cons.IH [OF fds_same_wf [OF w1(1) Cons.prems]] by blast
        moreover have "ends_with_code w (Some (1, (m, w1)))" using w1 by simp
        ultimately show ?thesis using False by (simp add: Some ret x Let_def)
      qed
    qed
  qed
qed

lemma fds_same_skills: "fds_same w (snd (scan_skills_dir dir (skills, w)))"
proof -
  have "fds_same w (snd (scan_skills_loop dir ns (skills, w)))" for ns skills
  proof (induction ns arbitrary: skills w)
    case (Cons n ns)
    then show ?case by (simp add: Let_def split: option.split)
  qed simp
  then show ?thesis by (simp add: scan_skills_dir_def split: option.split)
qed

lemma fds_same_rules: "fds_same w (snd (scan_rules_dir dir (rules, w)))"
proof -
  have "fds_same w (snd (scan_rules_loop dir ns (rules, w)))" for ns rules
  proof (induction ns arbitrary: rules w)
    case (Cons n ns)
    have "fds_same w (snd (scan_rules_loop dir ns (rules, put_err s w)))" for s rules
      using fds_same_trans [OF _ Cons.IH [of "put_err s w" rules], of w] by simp
    with Cons show ?case by (simp add: Let_def split: option.split)
  qed simp
  then show ?thesis by (simp add: scan_rules_dir_def split: option.split)
qed

lemma fds_same_extensions: "fds_same w (snd (snd (load_extensions w)))"
proof -
  have s: "fds_same w (snd sw) \<Longrightarrow> fds_same w (snd (scan_skills_dir dir sw))" for sw dir
    using fds_same_trans fds_same_skills [of "snd sw" dir "fst sw"] by auto
  have r: "fds_same w (snd rw) \<Longrightarrow> fds_same w (snd (scan_rules_dir dir rw))" for rw dir
    using fds_same_trans fds_same_rules [of "snd rw" dir "fst rw"] by auto
  have h: "fds_same w w1 \<Longrightarrow> fds_same w (snd (snd (load_home home skills rules w1)))" for home skills rules w1
    by (simp add: load_home_def Let_def split_beta s r)
  show ?thesis by (simp add: load_extensions_def Let_def split_beta s r h split: option.split)
qed

lemma fds_same_prompt: "fds_same w (snd (build_system_prompt rules skills out w))"
proof -
  have "fds_same w (snd (any_path_matches gs w))" for gs w
  proof (induction gs w rule: any_path_matches.induct)
    case (2 g gs w)
    show ?case
    proof (cases "run_command (rule_command g) w")
      case (Pair r w1)
      then have "fds_same w w1" using fds_same_steps(8) [of w "rule_command g" w] by simp
      then show ?thesis using 2 Pair fds_same_trans by (auto split: option.split)
    qed
  qed simp
  then have applies: "fds_same w (snd (rule_applies r w))" for r w by (simp add: rule_applies_def)
  have rules: "fds_same w (snd (append_rules rs (out, w)))" for rs out w
  proof (induction rs arbitrary: out w)
    case (Cons r rs)
    show ?case using applies [of w r] Cons.IH fds_same_trans by (simp add: split_beta Let_def)
  qed simp
  have r: "fds_same w w1 \<Longrightarrow> fds_same w (snd (append_rules rs (out, w1)))" for w1 rs out
    using rules fds_same_trans by blast
  show ?thesis by (simp add: build_system_prompt_def report_loaded_def Let_def split_beta r)
qed

lemma fds_same_resume: "fds_same w (snd (resume_session w))"
proof -
  have "fds_same w (snd (snd (load_lines ls messages n w)))" for ls messages n
  proof (induction ls arbitrary: messages n w)
    case (Cons l ls)
    have "fds_same w (snd (snd (load_lines ls messages n (put_err s w))))" for s messages n
      using fds_same_trans [OF _ Cons.IH [of "put_err s w"], of w] by simp
    with Cons show ?case by (simp add: Let_def split: option.split)
  qed simp
  then have "fds_same w (snd (snd (session_load cJSON_CreateArray w)))"
    by (simp add: session_load_def split: option.split)
  then show ?thesis by (simp add: resume_session_def Let_def split_beta)
qed

lemma run_agent_ends:
  assumes "fds_wf w" and turn: "\<And>mw. fds_wf (snd mw) \<Longrightarrow> ends_with_code (snd mw) (turn mw)"
  shows "ends_with_code w (run_agent is_tty args model turn (messages, w))"
proof -
  let ?mw = "add_message (Some (make_user_msg (join_args args))) (messages, w)"
  have s: "fds_same w (snd ?mw)" by simp
  have "ends_with_code w (turn ?mw)" using ends_after [OF s turn [OF fds_same_wf [OF s assms(1)]]] .
  moreover have "ends_with_code w (repl is_tty turn (stdin_reads w1) (messages, w1))" if "fds_same w w1" for w1
    using ends_after [OF that repl_ends [OF fds_same_wf [OF that assms(1)] turn]] .
  ultimately show ?thesis by (simp add: run_agent_def Let_def)
qed

lemma main_ends:
  assumes "fds_wf w"
  shows "ends_with_code w (sa_main is_tty argv w)"
proof -
  obtain cont json args where f: "parse_flags argv (False, False) = ((cont, json), args)" by (metis surj_pair)
  show ?thesis
  proof (cases "w_env w ''KIMI_TOKEN''")
    case None
    then show ?thesis by (simp add: sa_main_def f fds_same_def)
  next
    case (Some key)
    obtain skills rules w2 where e: "load_extensions (set_flags json w) = (skills, rules, w2)" by (metis surj_pair)
    obtain sys w3 where p: "build_system_prompt rules skills buf_empty w2 = (sys, w3)" by (metis surj_pair)
    obtain messages w4 where r: "(if cont then resume_session w3 else (cJSON_CreateArray, w3)) = (messages, w4)" by (metis surj_pair)
    have "fds_same w (set_flags json w)" by (simp add: set_flags_def fds_same_def)
    then have "fds_same w w2" using fds_same_trans fds_same_extensions e by (metis snd_conv)
    then have "fds_same w w3" using fds_same_trans fds_same_prompt p by (metis snd_conv)
    moreover have "fds_same w3 w4" using fds_same_resume [of w3] r by (cases cont) simp_all
    ultimately have w4: "fds_same w w4" by (rule fds_same_trans)
    have turn: "ends_with_code (snd mw) ((\<lambda>(messages, w). chat_turn url key model sys messages all_tools w) mw)"
      if "fds_wf (snd mw)" for mw url model sys
      using turn_ends [OF that] by (simp add: split_beta)
    show ?thesis
      unfolding sa_main_def f Some Let_def prod.case option.case e p r
      using ends_after [OF w4 run_agent_ends [OF fds_same_wf [OF w4 assms] turn]] .
  qed
qed



end
