(* ===== verification/CtWords.thy ===== *)
theory CtWords
  imports Prelude
begin

section \<open>Constant-time primitives (bearssl/src/inner.h)\<close>

text \<open>
  The functions that replace comparisons and branches on secret 32-bit values.  A boolean is a word
  that is 0 or 1; \<open>int32_t\<close> and \<open>uint32_t\<close> are the same 32 bits, read with \<^const>\<open>sint\<close> or
  \<^const>\<open>unat\<close>.
\<close>

unbundle bit_operations_syntax

type_synonym u8 = "8 word"
type_synonym u16 = "16 word"
type_synonym u32 = "32 word"
type_synonym u64 = "64 word"

definition NOT_ctl :: "u32 \<Rightarrow> u32" where
  "NOT_ctl ctl = ctl XOR 1"

definition MUX :: "u32 \<Rightarrow> u32 \<Rightarrow> u32 \<Rightarrow> u32" where
  "MUX ctl x y = y XOR (- ctl AND (x XOR y))"

definition EQ :: "u32 \<Rightarrow> u32 \<Rightarrow> u32" where
  "EQ x y = (let q = x XOR y in NOT_ctl (drop_bit 31 (q OR - q)))"

definition NEQ :: "u32 \<Rightarrow> u32 \<Rightarrow> u32" where
  "NEQ x y = (let q = x XOR y in drop_bit 31 (q OR - q))"

definition GT :: "u32 \<Rightarrow> u32 \<Rightarrow> u32" where
  "GT x y = (let z = y - x in drop_bit 31 (z XOR ((x XOR y) AND (x XOR z))))"

definition GE :: "u32 \<Rightarrow> u32 \<Rightarrow> u32" where "GE x y = NOT_ctl (GT y x)"
definition LT :: "u32 \<Rightarrow> u32 \<Rightarrow> u32" where "LT x y = GT y x"
definition LE :: "u32 \<Rightarrow> u32 \<Rightarrow> u32" where "LE x y = NOT_ctl (GT x y)"

definition CMP :: "u32 \<Rightarrow> u32 \<Rightarrow> u32" where
  "CMP x y = GT x y OR - GT y x"

definition EQ0 :: "u32 \<Rightarrow> u32" where
  "EQ0 x = (let q = x in drop_bit 31 (NOT (q OR - q)))"

definition GT0 :: "u32 \<Rightarrow> u32" where
  "GT0 x = (let q = x in drop_bit 31 (NOT q AND - q))"

definition GE0 :: "u32 \<Rightarrow> u32" where
  "GE0 x = drop_bit 31 (NOT x)"

definition LT0 :: "u32 \<Rightarrow> u32" where
  "LT0 x = drop_bit 31 x"

definition LE0 :: "u32 \<Rightarrow> u32" where
  "LE0 x = (let q = x in drop_bit 31 (q OR NOT (- q)))"

definition BIT_LENGTH :: "u32 \<Rightarrow> u32" where
  "BIT_LENGTH x =
     (let k = NEQ x 0;
          c = GT x 0xFFFF; x = MUX c (drop_bit 16 x) x; k = k + push_bit 4 c;
          c = GT x 0x00FF; x = MUX c (drop_bit 8 x) x; k = k + push_bit 3 c;
          c = GT x 0x000F; x = MUX c (drop_bit 4 x) x; k = k + push_bit 2 c;
          c = GT x 0x0003; x = MUX c (drop_bit 2 x) x; k = k + push_bit 1 c
      in k + GT x 0x0001)"

definition MIN_u32 :: "u32 \<Rightarrow> u32 \<Rightarrow> u32" where "MIN_u32 x y = MUX (GT x y) y x"
definition MAX_u32 :: "u32 \<Rightarrow> u32 \<Rightarrow> u32" where "MAX_u32 x y = MUX (GT x y) x y"

text \<open>The products; the versions without \<^verbatim>\<open>BR_CT_MUL31\<close> and \<^verbatim>\<open>BR_CT_MUL15\<close>.\<close>

definition MUL :: "u32 \<Rightarrow> u32 \<Rightarrow> u64" where "MUL x y = ucast x * ucast y"
definition MUL31 :: "u32 \<Rightarrow> u32 \<Rightarrow> u64" where "MUL31 x y = ucast x * ucast y"
definition MUL31_lo :: "u32 \<Rightarrow> u32 \<Rightarrow> u32" where "MUL31_lo x y = (x * y) AND 0x7FFFFFFF"
definition MUL15 :: "u32 \<Rightarrow> u32 \<Rightarrow> u32" where "MUL15 x y = x * y"

text \<open>The same products where the multiplier is not constant-time for small operands.\<close>

definition MUL31_ct :: "u32 \<Rightarrow> u32 \<Rightarrow> u64" where
  "MUL31_ct x y =
     ucast (x OR 0x80000000) * ucast (y OR 0x80000000) - push_bit 31 (ucast x) - push_bit 31 (ucast y) - push_bit 62 1"

definition MUL31_lo_ct :: "u32 \<Rightarrow> u32 \<Rightarrow> u32" where
  "MUL31_lo_ct x y =
     (let xl = (x AND 0xFFFF) OR 0x80000000; xh = drop_bit 16 x OR 0x80000000;
          yl = (y AND 0xFFFF) OR 0x80000000; yh = drop_bit 16 y OR 0x80000000
      in (xl * yl + push_bit 16 (xl * yh + xh * yl)) AND 0x7FFFFFFF)"

definition MUL15_ct :: "u32 \<Rightarrow> u32 \<Rightarrow> u32" where
  "MUL15_ct x y = ((x OR 0x80000000) * (y OR 0x80000000)) AND 0x7FFFFFFF"

text \<open>\<open>br_ccopy\<close> on the first \<open>len\<close> bytes of \<open>dst\<close>.\<close>

fun br_ccopy :: "u32 \<Rightarrow> u8 list \<Rightarrow> u8 list \<Rightarrow> nat \<Rightarrow> u8 list" where
  "br_ccopy ctl (d # dst) (s # src) (Suc len) = ucast (MUX ctl (ucast s) (ucast d)) # br_ccopy ctl dst src len"
| "br_ccopy ctl dst src len = dst"

subsection \<open>They compute what they are named after\<close>

lemma high_bit: "drop_bit 31 (w :: u32) = of_bool (bit w 31)"
proof (rule bit_word_eqI)
  fix n assume "n < LENGTH(32)"
  then show "bit (drop_bit 31 w) n = bit (of_bool (bit w 31) :: u32) n"
    by (cases "n = 0") (auto simp: bit_simps dest: bit_imp_le_length)
qed

lemma bit31: "bit (w :: u32) 31 \<longleftrightarrow> 2 ^ 31 \<le> uint w"
proof -
  have "bit w 31 \<longleftrightarrow> bit (uint w) 31" by (simp add: bit_uint_iff)
  also have "\<dots> \<longleftrightarrow> odd (uint w div 2 ^ 31)" by (rule bit_iff_odd)
  also have "\<dots> \<longleftrightarrow> 2 ^ 31 \<le> uint w"
  proof (cases "2 ^ 31 \<le> uint w")
    case True
    then have "uint w div 2 ^ 31 = 1" using uint_bounded [of w] by simp
    with True show ?thesis by simp
  next
    case False
    then have "uint w div 2 ^ 31 = 0" using uint_bounded [of w] by simp
    with False show ?thesis by simp
  qed
  finally show ?thesis .
qed

lemma NOT_ctl_of_bool [simp]: "NOT_ctl (of_bool b) = of_bool (\<not> b)"
  by (cases b) (simp_all add: NOT_ctl_def)

lemma MUX_of_bool [simp]: "MUX (of_bool b) x y = (if b then x else y)"
  by (cases b) (simp_all add: MUX_def ac_simps)

lemma uint_minus32: "uint (- w :: u32) = (if w = 0 then 0 else 2 ^ 32 - uint w)"
  using uint_bounded [of w] by (auto simp: uint_word_ariths zmod_zminus1_eq_if unsigned_eq_0_iff)

lemma xor_zero: "x XOR y = 0 \<longleftrightarrow> x = (y :: 'a :: len word)"
proof
  assume "x XOR y = 0"
  then have "(x XOR y) XOR y = y" by simp
  then show "x = y" by (simp add: ac_simps)
qed simp

lemma nonzero_bit: "bit (q OR - q) 31 \<longleftrightarrow> q \<noteq> 0" for q :: u32
proof -
  have "2 ^ 31 \<le> uint q \<or> 2 ^ 31 \<le> uint (- q) \<longleftrightarrow> q \<noteq> 0"
    using uint_minus32 [of q] by auto
  then show ?thesis unfolding bit_or_iff using bit31 [of q] bit31 [of "- q"] by blast
qed

lemma NEQ_spec: "NEQ x y = of_bool (x \<noteq> y)"
  unfolding NEQ_def Let_def high_bit nonzero_bit xor_zero ..

lemma EQ_spec: "EQ x y = of_bool (x = y)"
  unfolding EQ_def Let_def high_bit nonzero_bit xor_zero NOT_ctl_of_bool by simp

lemma uint_bound: "0 \<le> uint (x :: u32) \<and> uint x < 2 ^ 32"
  using uint_bounded [of x] by simp

lemma uint_minus_diff: "uint (y - x :: u32) = (if uint x \<le> uint y then uint y - uint x else uint y - uint x + 2 ^ 32)"
proof -
  have u: "uint (y - x) = (uint y - uint x) mod 2 ^ 32" by (simp add: uint_word_ariths)
  show ?thesis
  proof (cases "uint x \<le> uint y")
    case True
    have "uint y - uint x < 2 ^ 32" using uint_bound [of y] uint_bound [of x] by linarith
    then show ?thesis using True u by simp
  next
    case False
    have "(uint y - uint x) mod 2 ^ 32 = (uint y - uint x + 2 ^ 32) mod 2 ^ 32" by simp
    also have "\<dots> = uint y - uint x + 2 ^ 32"
      using False uint_bound [of x] uint_bound [of y] by (intro mod_pos_pos_trivial) linarith+
    finally show ?thesis using False u by simp
  qed
qed

lemma GT_spec: "GT x y = of_bool (y < x)"
proof -
  let ?z = "y - x"
  have top: "(2 ^ 31 \<le> c) \<noteq> (((2 ^ 31 \<le> a) \<noteq> (2 ^ 31 \<le> b)) \<and> ((2 ^ 31 \<le> a) \<noteq> (2 ^ 31 \<le> c))) \<longleftrightarrow> b < a"
    if "c = (if a \<le> b then b - a else b - a + 2 ^ 32)" "0 \<le> a \<and> a < 2 ^ 32" "0 \<le> b \<and> b < 2 ^ 32" for a b c :: int
    using that by (cases "a \<le> b"; cases "2 ^ 31 \<le> a"; cases "2 ^ 31 \<le> b") simp_all
  have "bit (?z XOR ((x XOR y) AND (x XOR ?z))) 31 \<longleftrightarrow> uint y < uint x"
    unfolding bit_xor_iff bit_and_iff bit31 [of x] bit31 [of y] bit31 [of "y - x"]
    by (rule top [OF uint_minus_diff uint_bound uint_bound])
  then show ?thesis unfolding GT_def Let_def high_bit word_less_def by (rule arg_cong)
qed

lemma GE_spec: "GE x y = of_bool (y \<le> x)"
  by (simp add: GE_def GT_spec not_less)

lemma LT_spec: "LT x y = of_bool (x < y)"
  by (simp add: LT_def GT_spec)

lemma LE_spec: "LE x y = of_bool (x \<le> y)"
  by (simp add: LE_def GT_spec not_less)

lemma CMP_spec: "sint (CMP x y) = (if x < y then - 1 else if x = y then 0 else 1)"
  by (auto simp: CMP_def GT_spec)

lemma MIN_spec: "MIN_u32 x y = min x y"
  unfolding MIN_u32_def GT_spec MUX_of_bool min_def by auto

lemma MAX_spec: "MAX_u32 x y = max x y"
  unfolding MAX_u32_def GT_spec MUX_of_bool max_def by auto

text \<open>The tests of a signed value.\<close>

lemma neg_bit: "bit (x :: u32) 31 \<longleftrightarrow> sint x < 0"
  using bit_last_iff [of x] by simp

lemma pos_bit: "\<not> bit x 31 \<and> bit (- x :: u32) 31 \<longleftrightarrow> 0 < sint x"
proof -
  have "\<not> bit x 31 \<and> bit (- x) 31 \<longleftrightarrow> \<not> bit x 31 \<and> x \<noteq> 0"
    unfolding bit31 uint_minus32 using uint_bound [of x] by auto
  also have "\<dots> \<longleftrightarrow> \<not> sint x < 0 \<and> sint x \<noteq> 0" by (simp add: neg_bit signed_eq_0_iff)
  finally show ?thesis by auto
qed

lemma of_bool_eqI: "b = c \<Longrightarrow> of_bool b = (of_bool c :: u32)"
  by simp

lemma GT0_spec: "GT0 x = of_bool (0 < sint x)"
  unfolding GT0_def Let_def high_bit bit_and_iff bit_not_iff
  by (rule of_bool_eqI) (use pos_bit [of x] in simp)

lemma EQ0_spec: "EQ0 x = of_bool (sint x = 0)"
  unfolding EQ0_def Let_def high_bit bit_not_iff nonzero_bit
  by (rule of_bool_eqI) (simp add: signed_eq_0_iff)

lemma GE0_spec: "GE0 x = of_bool (0 \<le> sint x)"
  unfolding GE0_def high_bit bit_not_iff
  by (rule of_bool_eqI) (use neg_bit [of x] in \<open>simp add: not_less\<close>)

lemma LT0_spec: "LT0 x = of_bool (sint x < 0)"
  unfolding LT0_def high_bit neg_bit ..

lemma LE0_spec: "LE0 x = of_bool (sint x \<le> 0)"
  unfolding LE0_def Let_def high_bit bit_or_iff bit_not_iff
  by (rule of_bool_eqI) (use pos_bit [of x] in auto)

lemmas ct_specs = EQ_spec NEQ_spec GT_spec GE_spec LT_spec LE_spec MIN_spec MAX_spec
  EQ0_spec GT0_spec GE0_spec LT0_spec LE0_spec

text \<open>The length of a number in binary.\<close>

fun bit_len :: "nat \<Rightarrow> nat" where
  "bit_len n = (if n = 0 then 0 else Suc (bit_len (n div 2)))"

declare bit_len.simps [simp del]

lemma bit_len_0 [simp]: "bit_len 0 = 0"
  by (subst bit_len.simps) simp

lemma bit_len_step: "n \<noteq> 0 \<Longrightarrow> bit_len n = Suc (bit_len (n div 2))"
  by (subst bit_len.simps) simp

lemma bit_len_shift: "2 ^ s \<le> n \<Longrightarrow> bit_len n = s + bit_len (n div 2 ^ s)"
proof (induction s arbitrary: n)
  case (Suc s)
  have "0 < (2 :: nat) ^ Suc s" by simp
  then have "n \<noteq> 0" using Suc.prems by linarith
  moreover have "2 ^ s \<le> n div 2" using Suc.prems by (auto simp: less_eq_div_iff_mult_less_eq ac_simps)
  ultimately have "bit_len n = Suc (s + bit_len (n div 2 div 2 ^ s))"
    using Suc.IH [of "n div 2"] bit_len_step [of n] by linarith
  then show ?case by (simp only: power_Suc div_mult2_eq add_Suc)
qed simp

lemma bit_len_small: "n < 4 \<Longrightarrow> bit_len n = of_bool (n \<noteq> 0) + of_bool (1 < n)"
proof -
  have 1: "bit_len 1 = 1" using bit_len_step [of 1] by simp
  have "bit_len 2 = 2" "bit_len 3 = 2" using bit_len_step [of 2] bit_len_step [of 3] 1 by simp_all
  moreover assume "n < 4"
  then have "n = 0 \<or> n = 1 \<or> n = 2 \<or> n = 3" by arith
  ultimately show ?thesis using 1 by auto
qed

lemma bit_len_bounds: "n < 2 ^ bit_len n \<and> (n \<noteq> 0 \<longrightarrow> 2 ^ (bit_len n - 1) \<le> n)"
proof (induction n rule: bit_len.induct)
  case (1 n)
  show ?case
  proof (cases "n = 0")
    case False
    then have IH: "n div 2 < 2 ^ bit_len (n div 2)" "n div 2 \<noteq> 0 \<longrightarrow> 2 ^ (bit_len (n div 2) - 1) \<le> n div 2"
      using 1 by blast+
    have n: "bit_len n = Suc (bit_len (n div 2))" using False by (rule bit_len_step)
    have up: "n < 2 * p" if "n div 2 < p" for p using that by linarith
    have low: "2 * p \<le> n" if "p \<le> n div 2" for p using that by linarith
    have "2 ^ bit_len (n div 2) \<le> n"
    proof (cases "n div 2 = 0")
      case True
      then show ?thesis using False by simp
    next
      case nz: False
      then have "(2 :: nat) ^ bit_len (n div 2) = 2 * 2 ^ (bit_len (n div 2) - 1)"
        using bit_len_step [OF nz] by simp
      then show ?thesis using low IH(2) nz by metis
    qed
    then show ?thesis using up [OF IH(1)] n by simp
  qed simp
qed

text \<open>One halving step of \<open>BIT_LENGTH\<close>.\<close>

definition halve :: "nat \<Rightarrow> u32 \<Rightarrow> u32" where
  "halve s x = (if 2 ^ s \<le> unat x then drop_bit s x else x)"

lemma unat_halve: "unat (halve s x) = (if 2 ^ s \<le> unat x then unat x div 2 ^ s else unat x)"
  by (simp add: halve_def unat_drop_bit_eq drop_bit_nat_def)

lemma halve_bound: "unat x < 2 ^ (s + s) \<Longrightarrow> unat (halve s x) < 2 ^ s"
  by (simp add: unat_halve power_add less_mult_imp_div_less)

lemma halve_0: "halve s y = 0 \<longleftrightarrow> y = 0"
proof -
  have "2 ^ s \<le> unat y \<Longrightarrow> 0 < unat y div 2 ^ s" by (simp add: div_greater_zero_iff)
  then have "unat (halve s y) = 0 \<longleftrightarrow> unat y = 0" by (auto simp: unat_halve)
  then show ?thesis by (simp only: unat_eq_0)
qed

lemma halve_step: "MUX (of_bool (2 ^ s \<le> unat x)) (drop_bit s x) x = halve s x"
  by (simp only: MUX_of_bool halve_def)

lemma GT_masks:
  "GT x 0xFFFF = of_bool (2 ^ 16 \<le> unat x)" "GT x 0x00FF = of_bool (2 ^ 8 \<le> unat x)"
  "GT x 0x000F = of_bool (2 ^ 4 \<le> unat x)" "GT x 0x0003 = of_bool (2 ^ 2 \<le> unat x)"
  "GT x 0x0001 = of_bool (1 < unat x)"
  unfolding GT_spec word_less_nat_alt by (rule of_bool_eqI, simp, arith?)+

lemma unat_flags:
  "unat (of_bool a + push_bit 4 (of_bool b) + push_bit 3 (of_bool c) + push_bit 2 (of_bool d) + push_bit 1 (of_bool e) + of_bool f :: u32)
   = of_bool a + (if b then 16 else 0) + (if c then 8 else 0) + (if d then 4 else 0) + (if e then 2 else 0) + of_bool f"
  by (cases a; cases b; cases c; cases d; cases e; cases f) simp_all

lemma BIT_LENGTH_spec: "unat (BIT_LENGTH x) = bit_len (unat x)"
proof -
  define x1 where "x1 = halve 16 x"
  define x2 where "x2 = halve 8 x1"
  define x3 where "x3 = halve 4 x2"
  define x4 where "x4 = halve 2 x3"
  have "unat x < 2 ^ (16 + 16)" using unsigned_less [of x] by simp
  then have "unat x1 < 2 ^ (8 + 8)" unfolding x1_def using halve_bound [of x 16] by simp
  then have "unat x2 < 2 ^ (4 + 4)" unfolding x2_def using halve_bound [of x1 8] by simp
  then have "unat x3 < 2 ^ (2 + 2)" unfolding x3_def using halve_bound [of x2 4] by simp
  then have b4: "unat x4 < 4" unfolding x4_def using halve_bound [of x3 2] by simp
  have len: "bit_len (unat y) = (if 2 ^ s \<le> unat y then s else 0) + bit_len (unat (halve s y))" for s y
    by (simp add: unat_halve bit_len_shift)
  have "unat x4 = 0 \<longleftrightarrow> x = 0" unfolding unat_eq_0 by (simp only: x1_def x2_def x3_def x4_def halve_0)
  then have l4: "bit_len (unat x4) = of_bool (x \<noteq> 0) + of_bool (1 < unat x4)"
    using bit_len_small [OF b4] by simp
  have "BIT_LENGTH x = of_bool (x \<noteq> 0) + push_bit 4 (of_bool (2 ^ 16 \<le> unat x)) + push_bit 3 (of_bool (2 ^ 8 \<le> unat x1))
      + push_bit 2 (of_bool (2 ^ 4 \<le> unat x2)) + push_bit 1 (of_bool (2 ^ 2 \<le> unat x3)) + of_bool (1 < unat x4)"
    unfolding BIT_LENGTH_def Let_def NEQ_spec GT_masks halve_step
      x1_def [symmetric] x2_def [symmetric] x3_def [symmetric] x4_def [symmetric] ..
  then have "unat (BIT_LENGTH x) = of_bool (x \<noteq> 0) + (if 2 ^ 16 \<le> unat x then 16 else 0) + (if 2 ^ 8 \<le> unat x1 then 8 else 0)
      + (if 2 ^ 4 \<le> unat x2 then 4 else 0) + (if 2 ^ 2 \<le> unat x3 then 2 else 0) + of_bool (1 < unat x4)"
    by (simp only: unat_flags)
  also have "\<dots> = bit_len (unat x)"
    using len [of x 16] len [of x1 8] len [of x2 4] len [of x3 2] l4
    unfolding x1_def [symmetric] x2_def [symmetric] x3_def [symmetric] x4_def [symmetric] by linarith
  finally show ?thesis .
qed

text \<open>The conditional copy works on whole byte strings.\<close>

lemma ucast_down_up [simp]: "ucast (ucast (s :: u8) :: u32) = s" "ucast (ucast (h :: u16) :: u32) = h"
  by (rule bit_word_eqI; simp add: bit_simps)+

lemma ccopy_spec: "length dst = len \<Longrightarrow> length src = len \<Longrightarrow> br_ccopy (of_bool b) dst src len = (if b then src else dst)"
  by (induction "of_bool b :: u32" dst src len rule: br_ccopy.induct) auto

text \<open>The multiplications for a multiplier whose time depends on the size of its operands.\<close>

lemma high_or: "x < 2 ^ 31 \<Longrightarrow> ucast (x OR 0x80000000) = (ucast (x :: u32) :: u64) + 2 ^ 31"
proof -
  assume x: "x < 2 ^ 31"
  have top: "\<not> bit x 31" using x unfolding bit31 word_less_def by simp
  have "(0x80000000 :: u32) = push_bit 31 1" by simp
  moreover have "ucast (x OR push_bit 31 1) = (ucast x :: u64) OR push_bit 31 1"
    by (simp add: unsigned_or_eq)
  moreover have "(ucast x :: u64) OR push_bit 31 1 = ucast x + push_bit 31 1"
  proof (rule disjunctive_add_eq_or [symmetric], rule bit_word_eqI)
    fix n assume "n < LENGTH(64)"
    show "bit ((ucast x :: u64) AND push_bit 31 1) n = bit (0 :: u64) n"
      using top by (cases "n = 31") (simp_all add: bit_and_iff bit_push_bit_iff bit_1_iff bit_unsigned_iff del: push_bit_of_1)
  qed
  ultimately show ?thesis by simp
qed

lemma MUL31_ct_eq: "x < 2 ^ 31 \<Longrightarrow> y < 2 ^ 31 \<Longrightarrow> MUL31_ct x y = MUL31 x y"
  unfolding MUL31_ct_def MUL31_def by (simp only: high_or push_bit_eq_mult) (simp add: algebra_simps)

definition lo31 :: "u32 \<Rightarrow> int" where
  "lo31 x = uint x mod 2 ^ 31"

lemma lo31_eqI: "lo31 x = lo31 y \<Longrightarrow> x AND 0x7FFFFFFF = y AND (0x7FFFFFFF :: u32)"
proof -
  assume "lo31 x = lo31 y"
  then have "take_bit 31 (uint x) = take_bit 31 (uint y)" by (simp add: lo31_def take_bit_eq_mod)
  then have "take_bit 31 x = take_bit 31 y" by (metis unsigned_take_bit_eq word_uint_eq_iff)
  then show ?thesis by (simp add: take_bit_eq_mask mask_eq_exp_minus_1)
qed

lemma lo31_mult: "lo31 (x * y) = (lo31 x * lo31 y) mod 2 ^ 31"
  by (simp add: lo31_def uint_word_ariths mod_mod_cancel mod_mult_eq)

lemma lo31_add: "lo31 (x + y) = (lo31 x + lo31 y) mod 2 ^ 31"
  by (simp add: lo31_def uint_word_ariths mod_mod_cancel mod_add_eq)

lemma lo31_or: "lo31 (x OR 0x80000000) = lo31 x"
proof -
  have "take_bit 31 (x OR 0x80000000) = take_bit 31 x" by simp
  then have "take_bit 31 (uint (x OR 0x80000000)) = take_bit 31 (uint x)" by (metis unsigned_take_bit_eq)
  then show ?thesis by (simp add: lo31_def take_bit_eq_mod)
qed

lemma split16: "x = (x AND 0xFFFF) + push_bit 16 (drop_bit 16 x :: u32)"
proof -
  have "(0xFFFF :: u32) = mask 16" by (simp add: mask_eq_exp_minus_1)
  then have "x AND 0xFFFF = take_bit 16 x" by (simp add: take_bit_eq_mask)
  moreover have "take_bit 16 x + push_bit 16 (drop_bit 16 x) = x"
    using bits_ident [of 16 x] by (simp only: add.commute)
  ultimately show ?thesis by simp
qed

lemma MUL31_lo_ct_eq: "MUL31_lo_ct x y = MUL31_lo x y"
proof -
  define xl xh yl yh where "xl = x AND 0xFFFF" "xh = drop_bit 16 x" "yl = y AND 0xFFFF" "yh = drop_bit 16 y"
  have x: "x = xl + 2 ^ 16 * xh" and y: "y = yl + 2 ^ 16 * yh"
    using split16 [of x] split16 [of y] by (simp_all add: xl_xh_yl_yh_def push_bit_eq_mult ac_simps)
  have wrap: "(2 :: u32) ^ 32 = 0" by (simp add: word_uint_eq_iff)
  have ring: "x * y = (xl * yl + 2 ^ 16 * (xl * yh + xh * yl)) + 2 ^ 32 * (xh * yh)"
    unfolding x y by (simp add: algebra_simps)
  have "lo31 ((xl OR 0x80000000) * (yl OR 0x80000000)
      + 2 ^ 16 * ((xl OR 0x80000000) * (yh OR 0x80000000) + (xh OR 0x80000000) * (yl OR 0x80000000)))
      = lo31 (xl * yl + 2 ^ 16 * (xl * yh + xh * yl))"
    by (simp only: lo31_add lo31_mult lo31_or)
  also have "\<dots> = lo31 (x * y)" unfolding ring wrap mult_zero_left add_0_right ..
  finally show ?thesis
    unfolding MUL31_lo_ct_def MUL31_lo_def Let_def xl_xh_yl_yh_def
    by (intro lo31_eqI) (simp add: push_bit_eq_mult ac_simps)
qed

lemma MUL15_ct_eq:
  assumes "x < 2 ^ 15" "y < 2 ^ 15"
  shows "MUL15_ct x y = MUL15 x y"
proof -
  have "uint x < 2 ^ 15" "uint y < 2 ^ 15" using assms by (simp_all add: word_less_def)
  then have "uint x * uint y < 2 ^ 15 * 2 ^ 15"
    using uint_bound [of x] uint_bound [of y] by (intro mult_strict_mono) auto
  then have "uint (x * y) < 2 ^ 31" by (simp add: uint_word_ariths)
  then have "uint (take_bit 31 (x * y)) = uint (x * y)" by (simp add: unsigned_take_bit_eq take_bit_int_eq_self)
  then have "take_bit 31 (x * y) = x * y" by (simp only: word_uint_eq_iff)
  then have "x * y = (x * y) AND 0x7FFFFFFF" by (simp add: take_bit_eq_mask mask_eq_exp_minus_1)
  also have "\<dots> = ((x OR 0x80000000) * (y OR 0x80000000)) AND 0x7FFFFFFF"
    by (rule lo31_eqI) (simp only: lo31_mult lo31_or)
  finally show ?thesis by (simp add: MUL15_ct_def MUL15_def)
qed

text \<open>
  The branch-free primitives compute what they are named after, for all 32-bit
  values: the comparisons of unsigned and signed numbers, selection, minimum, maximum, the number of
  bits, the 31-bit product forced through large operands, and the conditional copy.
\<close>

lemma ct_primitives:
  "EQ x y = of_bool (x = y) \<and> NEQ x y = of_bool (x \<noteq> y) \<and> GT x y = of_bool (y < x) \<and> GE x y = of_bool (y \<le> x)
   \<and> LT x y = of_bool (x < y) \<and> LE x y = of_bool (x \<le> y)
   \<and> sint (CMP x y) = (if x < y then - 1 else if x = y then 0 else 1)
   \<and> EQ0 x = of_bool (sint x = 0) \<and> GT0 x = of_bool (0 < sint x) \<and> GE0 x = of_bool (0 \<le> sint x)
   \<and> LT0 x = of_bool (sint x < 0) \<and> LE0 x = of_bool (sint x \<le> 0)
   \<and> MUX (of_bool b) x y = (if b then x else y) \<and> MIN_u32 x y = min x y \<and> MAX_u32 x y = max x y
   \<and> unat (BIT_LENGTH x) = bit_len (unat x) \<and> MUL31_lo_ct x y = MUL31_lo x y
   \<and> br_ccopy (of_bool b) (map fst c) (map snd c) (length c) = (if b then map snd c else map fst c)"
  by (simp only: ct_specs CMP_spec BIT_LENGTH_spec MUL31_lo_ct_eq MUX_of_bool ccopy_spec length_map simp_thms)

text \<open>A rotation written with two shifts.\<close>

lemma shifts_rotl: "0 < n \<Longrightarrow> n < 32 \<Longrightarrow> push_bit n x OR drop_bit (32 - n) x = word_rotl n (x :: u32)"
proof (rule bit_word_eqI)
  fix k assume n: "0 < n" "n < 32" and k: "k < LENGTH(32)"
  show "bit ((push_bit n x OR drop_bit (32 - n) x)) k = bit (word_rotl n x) k"
  proof (cases "k < n")
    case True
    then have "(k + (32 - n)) mod 32 = 32 - n + k" using n k by simp
    then show ?thesis using True n k by (simp add: bit_simps)
  next
    case False
    then have "(k + (32 - n)) mod 32 = k - n" using n k by (simp add: mod_if)
    moreover have "\<not> bit x (32 - n + k)" using False by (auto dest: bit_imp_le_length)
    ultimately show ?thesis using False n k by (simp add: bit_simps)
  qed
qed

end
