(* ===== verification/BrCodec.thy ===== *)
theory BrCodec
  imports CtWords
begin

section \<open>Integer encoding (bearssl/src/inner.h, bearssl/src/codec)\<close>

text \<open>
  Little- and big-endian encoding of 16-, 32- and 64-bit integers and of arrays of them.  An encoder
  returns the bytes it stores at \<open>dst\<close>; a decoder reads the first bytes at \<open>src\<close>.  The unaligned
  variants (\<^verbatim>\<open>BR_LE_UNALIGNED\<close>, \<^verbatim>\<open>BR_BE_UNALIGNED\<close>) store the same bytes with one access on a
  machine of the same byte order.
\<close>

definition br_enc16le :: "u32 \<Rightarrow> u8 list" where
  "br_enc16le x = [ucast x, ucast (drop_bit 8 x)]"

definition br_enc16be :: "u32 \<Rightarrow> u8 list" where
  "br_enc16be x = [ucast (drop_bit 8 x), ucast x]"

definition br_dec16le :: "u8 list \<Rightarrow> u32" where
  "br_dec16le buf = ucast (buf ! 0) OR push_bit 8 (ucast (buf ! 1))"

definition br_dec16be :: "u8 list \<Rightarrow> u32" where
  "br_dec16be buf = push_bit 8 (ucast (buf ! 0)) OR ucast (buf ! 1)"

definition br_enc32le :: "u32 \<Rightarrow> u8 list" where
  "br_enc32le x = [ucast x, ucast (drop_bit 8 x), ucast (drop_bit 16 x), ucast (drop_bit 24 x)]"

definition br_enc32be :: "u32 \<Rightarrow> u8 list" where
  "br_enc32be x = [ucast (drop_bit 24 x), ucast (drop_bit 16 x), ucast (drop_bit 8 x), ucast x]"

definition br_dec32le :: "u8 list \<Rightarrow> u32" where
  "br_dec32le buf = ucast (buf ! 0) OR push_bit 8 (ucast (buf ! 1)) OR push_bit 16 (ucast (buf ! 2))
     OR push_bit 24 (ucast (buf ! 3))"

definition br_dec32be :: "u8 list \<Rightarrow> u32" where
  "br_dec32be buf = push_bit 24 (ucast (buf ! 0)) OR push_bit 16 (ucast (buf ! 1)) OR push_bit 8 (ucast (buf ! 2))
     OR ucast (buf ! 3)"

definition br_enc64le :: "u64 \<Rightarrow> u8 list" where
  "br_enc64le x = br_enc32le (ucast x) @ br_enc32le (ucast (drop_bit 32 x))"

definition br_enc64be :: "u64 \<Rightarrow> u8 list" where
  "br_enc64be x = br_enc32be (ucast (drop_bit 32 x)) @ br_enc32be (ucast x)"

definition br_dec64le :: "u8 list \<Rightarrow> u64" where
  "br_dec64le buf = ucast (br_dec32le buf) OR push_bit 32 (ucast (br_dec32le (drop 4 buf)))"

definition br_dec64be :: "u8 list \<Rightarrow> u64" where
  "br_dec64be buf = push_bit 32 (ucast (br_dec32be buf)) OR ucast (br_dec32be (drop 4 buf))"

definition br_swap32 :: "u32 \<Rightarrow> u32" where
  "br_swap32 x =
     (let x = push_bit 8 (x AND 0x00FF00FF) OR (drop_bit 8 x AND 0x00FF00FF)
      in push_bit 16 x OR drop_bit 16 x)"

subsection \<open>Arrays\<close>

text \<open>The number of elements comes first; the decoders return the array they fill.\<close>

fun br_range_dec16le :: "nat \<Rightarrow> u8 list \<Rightarrow> u16 list" where
  "br_range_dec16le 0 buf = []"
| "br_range_dec16le (Suc num) buf = ucast (br_dec16le buf) # br_range_dec16le num (drop 2 buf)"

fun br_range_dec16be :: "nat \<Rightarrow> u8 list \<Rightarrow> u16 list" where
  "br_range_dec16be 0 buf = []"
| "br_range_dec16be (Suc num) buf = ucast (br_dec16be buf) # br_range_dec16be num (drop 2 buf)"

fun br_range_enc16le :: "u16 list \<Rightarrow> nat \<Rightarrow> u8 list" where
  "br_range_enc16le v 0 = []"
| "br_range_enc16le v (Suc num) = br_enc16le (ucast (v ! 0)) @ br_range_enc16le (drop 1 v) num"

fun br_range_enc16be :: "u16 list \<Rightarrow> nat \<Rightarrow> u8 list" where
  "br_range_enc16be v 0 = []"
| "br_range_enc16be v (Suc num) = br_enc16be (ucast (v ! 0)) @ br_range_enc16be (drop 1 v) num"

fun br_range_dec32le :: "nat \<Rightarrow> u8 list \<Rightarrow> u32 list" where
  "br_range_dec32le 0 buf = []"
| "br_range_dec32le (Suc num) buf = br_dec32le buf # br_range_dec32le num (drop 4 buf)"

fun br_range_dec32be :: "nat \<Rightarrow> u8 list \<Rightarrow> u32 list" where
  "br_range_dec32be 0 buf = []"
| "br_range_dec32be (Suc num) buf = br_dec32be buf # br_range_dec32be num (drop 4 buf)"

fun br_range_enc32le :: "u32 list \<Rightarrow> nat \<Rightarrow> u8 list" where
  "br_range_enc32le v 0 = []"
| "br_range_enc32le v (Suc num) = br_enc32le (v ! 0) @ br_range_enc32le (drop 1 v) num"

fun br_range_enc32be :: "u32 list \<Rightarrow> nat \<Rightarrow> u8 list" where
  "br_range_enc32be v 0 = []"
| "br_range_enc32be v (Suc num) = br_enc32be (v ! 0) @ br_range_enc32be (drop 1 v) num"

fun br_range_dec64le :: "nat \<Rightarrow> u8 list \<Rightarrow> u64 list" where
  "br_range_dec64le 0 buf = []"
| "br_range_dec64le (Suc num) buf = br_dec64le buf # br_range_dec64le num (drop 8 buf)"

fun br_range_dec64be :: "nat \<Rightarrow> u8 list \<Rightarrow> u64 list" where
  "br_range_dec64be 0 buf = []"
| "br_range_dec64be (Suc num) buf = br_dec64be buf # br_range_dec64be num (drop 8 buf)"

fun br_range_enc64le :: "u64 list \<Rightarrow> nat \<Rightarrow> u8 list" where
  "br_range_enc64le v 0 = []"
| "br_range_enc64le v (Suc num) = br_enc64le (v ! 0) @ br_range_enc64le (drop 1 v) num"

fun br_range_enc64be :: "u64 list \<Rightarrow> nat \<Rightarrow> u8 list" where
  "br_range_enc64be v 0 = []"
| "br_range_enc64be v (Suc num) = br_enc64be (v ! 0) @ br_range_enc64be (drop 1 v) num"

subsection \<open>Decoding what was encoded\<close>

lemmas enc_defs = br_enc16le_def br_enc16be_def br_enc32le_def br_enc32be_def br_enc64le_def br_enc64be_def
lemmas dec_defs = br_dec16le_def br_dec16be_def br_dec32le_def br_dec32be_def br_dec64le_def br_dec64be_def

lemma length_enc [simp]:
  "length (br_enc16le v) = 2" "length (br_enc16be v) = 2" "length (br_enc32le v) = 4" "length (br_enc32be v) = 4"
  "length (br_enc64le x) = 8" "length (br_enc64be x) = 8"
  by (simp_all add: enc_defs)

lemma byte_ranges:
  assumes "n < LENGTH(32)" and "n < 8 \<Longrightarrow> P" and "8 \<le> n \<Longrightarrow> n < 16 \<Longrightarrow> P" and "16 \<le> n \<Longrightarrow> n < 24 \<Longrightarrow> P"
    and "24 \<le> n \<Longrightarrow> n < 32 \<Longrightarrow> P"
  shows P
  using assms by simp linarith

lemma bytes32:
  "ucast (ucast x :: u8) OR push_bit 8 (ucast (ucast (drop_bit 8 x) :: u8)) OR push_bit 16 (ucast (ucast (drop_bit 16 x) :: u8))
     OR push_bit 24 (ucast (ucast (drop_bit 24 x) :: u8)) = (x :: u32)"
  by (rule bit_word_eqI, rule byte_ranges, assumption) (simp_all add: bit_simps, linarith+)

lemma dec_enc32 [simp]: "br_dec32le (br_enc32le x @ r) = x" "br_dec32be (br_enc32be x @ r) = x"
  using bytes32 [of x] by (simp_all add: enc_defs dec_defs ac_simps)

lemma bytes64: "ucast (ucast x :: u32) OR push_bit 32 (ucast (ucast (drop_bit 32 x) :: u32)) = (x :: u64)"
  by (rule bit_word_eqI) (auto simp: bit_simps dest: bit_imp_le_length)

lemma dec_enc64 [simp]: "br_dec64le (br_enc64le x @ r) = x" "br_dec64be (br_enc64be x @ r) = x"
  using bytes64 [of x] by (simp_all add: br_enc64le_def br_enc64be_def br_dec64le_def br_dec64be_def ac_simps)

lemma bytes16: "ucast (ucast (ucast x :: u32) :: u8) OR push_bit 8 (ucast (ucast (drop_bit 8 (ucast x :: u32)) :: u8)) = (ucast (x :: u16) :: u32)"
  by (rule bit_word_eqI) (auto simp: bit_simps dest: bit_imp_le_length)

lemma dec_enc16 [simp]:
  "br_dec16le (br_enc16le (ucast (x :: u16)) @ r) = ucast x" "br_dec16be (br_enc16be (ucast x) @ r) = ucast x"
  using bytes16 [of x] by (simp_all add: enc_defs dec_defs ac_simps)

lemma odd_bytes_mask: "(0x00FF00FF :: u32) = mask 8 OR push_bit 16 (mask 8)"
  by (simp add: mask_eq_exp_minus_1)

lemma swap32_spec: "br_swap32 x = br_dec32be (br_enc32le x)"
  unfolding br_swap32_def Let_def enc_defs dec_defs odd_bytes_mask
  by (rule bit_word_eqI, rule byte_ranges, assumption) (simp_all add: bit_simps, auto)

subsection \<open>Arrays of integers\<close>

text \<open>What the six pairs of functions share: a fixed width, an inverse on one element, and the loop.\<close>

locale range_codec =
  fixes width :: nat
    and enc :: "'a \<Rightarrow> u8 list"
    and dec :: "u8 list \<Rightarrow> 'a"
    and range_enc :: "'a list \<Rightarrow> nat \<Rightarrow> u8 list"
    and range_dec :: "nat \<Rightarrow> u8 list \<Rightarrow> 'a list"
  assumes len_enc: "length (enc x) = width"
    and dec_enc: "dec (enc x @ r) = x"
    and range_enc_0: "range_enc v 0 = []"
    and range_enc_Suc: "range_enc v (Suc n) = enc (v ! 0) @ range_enc (drop 1 v) n"
    and range_dec_0: "range_dec 0 buf = []"
    and range_dec_Suc: "range_dec (Suc n) buf = dec buf # range_dec n (drop width buf)"
begin

lemma length_range_enc: "length (range_enc v n) = n * width"
  by (induction n arbitrary: v) (simp_all add: range_enc_0 range_enc_Suc len_enc)

lemma length_range_dec: "length (range_dec n buf) = n"
  by (induction n arbitrary: buf) (simp_all add: range_dec_0 range_dec_Suc)

lemma range_dec_enc: "range_dec (length v) (range_enc v (length v) @ r) = v"
proof (induction v)
  case (Cons x v)
  then show ?case by (simp add: range_enc_Suc range_dec_Suc dec_enc len_enc)
qed (simp add: range_dec_0)

lemma range_enc_map: "n \<le> length v \<Longrightarrow> range_enc v n = concat (map enc (take n v))"
proof (induction n arbitrary: v)
  case (Suc n)
  then obtain x w where "v = x # w" by (cases v) auto
  then show ?case using Suc by (simp add: range_enc_Suc)
qed (simp add: range_enc_0)

end

interpretation le16: range_codec 2 "\<lambda>x. br_enc16le (ucast x)" "\<lambda>b. ucast (br_dec16le b)" br_range_enc16le br_range_dec16le
  by unfold_locales simp_all

interpretation be16: range_codec 2 "\<lambda>x. br_enc16be (ucast x)" "\<lambda>b. ucast (br_dec16be b)" br_range_enc16be br_range_dec16be
  by unfold_locales simp_all

interpretation le32: range_codec 4 br_enc32le br_dec32le br_range_enc32le br_range_dec32le
  by unfold_locales simp_all

interpretation be32: range_codec 4 br_enc32be br_dec32be br_range_enc32be br_range_dec32be
  by unfold_locales simp_all

interpretation le64: range_codec 8 br_enc64le br_dec64le br_range_enc64le br_range_dec64le
  by unfold_locales simp_all

interpretation be64: range_codec 8 br_enc64be br_dec64be br_range_enc64be br_range_dec64be
  by unfold_locales simp_all

text \<open>
  Decoding an encoded array gives the array back, in both byte orders and all three
  widths, whatever follows it in memory; and \<open>br_swap32\<close> exchanges the byte orders.
\<close>

lemma codec_roundtrip:
  fixes h :: "u16 list" and w :: "u32 list" and d :: "u64 list"
  shows "br_range_dec16le (length h) (br_range_enc16le h (length h) @ r) = h
    \<and> br_range_dec16be (length h) (br_range_enc16be h (length h) @ r) = h
    \<and> br_range_dec32le (length w) (br_range_enc32le w (length w) @ r) = w
    \<and> br_range_dec32be (length w) (br_range_enc32be w (length w) @ r) = w
    \<and> br_range_dec64le (length d) (br_range_enc64le d (length d) @ r) = d
    \<and> br_range_dec64be (length d) (br_range_enc64be d (length d) @ r) = d
    \<and> br_swap32 x = br_dec32be (br_enc32le x @ r)"
  using swap32_spec [of x]
  by (simp add: le16.range_dec_enc be16.range_dec_enc le32.range_dec_enc be32.range_dec_enc
      le64.range_dec_enc be64.range_dec_enc br_dec32be_def br_enc32le_def)

end
