(* ===== verification/ChaCha20.thy ===== *)
theory ChaCha20
  imports BrCodec
begin

section \<open>ChaCha20 (bearssl/src/symcipher/chacha20\_ct.c)\<close>

text \<open>
  The portable implementation.  It works in place; the model returns the new contents of \<open>data\<close> with
  the counter.  The specification is that of RFC 8439: a keystream of 64-byte blocks, numbered by the
  32-bit counter, that is added to the data bit by bit.
\<close>

definition CW :: "u32 list" where
  "CW = [0x61707865, 0x3320646E, 0x79622D32, 0x6B206574]"

text \<open>The macro \<open>QROUND\<close>, on the array \<open>state\<close>.\<close>

definition QROUND :: "nat \<Rightarrow> nat \<Rightarrow> nat \<Rightarrow> nat \<Rightarrow> u32 list \<Rightarrow> u32 list" where
  "QROUND a b c d state =
     (let state = state[a := state ! a + state ! b];
          state = state[d := state ! d XOR state ! a];
          state = state[d := push_bit 16 (state ! d) OR drop_bit 16 (state ! d)];
          state = state[c := state ! c + state ! d];
          state = state[b := state ! b XOR state ! c];
          state = state[b := push_bit 12 (state ! b) OR drop_bit 20 (state ! b)];
          state = state[a := state ! a + state ! b];
          state = state[d := state ! d XOR state ! a];
          state = state[d := push_bit 8 (state ! d) OR drop_bit 24 (state ! d)];
          state = state[c := state ! c + state ! d];
          state = state[b := state ! b XOR state ! c];
          state = state[b := push_bit 7 (state ! b) OR drop_bit 25 (state ! b)]
      in state)"

definition chacha_pass :: "u32 list \<Rightarrow> u32 list" where
  "chacha_pass state =
     (let state = QROUND 0 4 8 12 state;
          state = QROUND 1 5 9 13 state;
          state = QROUND 2 6 10 14 state;
          state = QROUND 3 7 11 15 state;
          state = QROUND 0 5 10 15 state;
          state = QROUND 1 6 11 12 state;
          state = QROUND 2 7 8 13 state;
          state = QROUND 3 4 9 14 state
      in state)"

text \<open>The 64 bytes \<open>tmp\<close> of one pass of the loop over the data.\<close>

definition chacha_tmp :: "u32 list \<Rightarrow> u32 list \<Rightarrow> u32 \<Rightarrow> u8 list" where
  "chacha_tmp kw ivw cc =
     (let state = CW @ kw @ [cc] @ ivw;
          state = (chacha_pass ^^ 10) state
      in concat (map (\<lambda>u. br_enc32le (state ! u + CW ! u)) [0..<4])
         @ concat (map (\<lambda>u. br_enc32le (state ! u + kw ! (u - 4))) [4..<12])
         @ br_enc32le (state ! 12 + cc)
         @ concat (map (\<lambda>u. br_enc32le (state ! u + ivw ! (u - 13))) [13..<16]))"

function chacha_loop :: "u32 list \<Rightarrow> u32 list \<Rightarrow> u32 \<Rightarrow> u8 list \<Rightarrow> u8 list \<times> u32" where
  "chacha_loop kw ivw cc buf =
     (if buf = [] then ([], cc)
      else
        let tmp = chacha_tmp kw ivw cc;
            clen = (if length buf < 64 then length buf else 64);
            (rest, cc') = chacha_loop kw ivw (cc + 1) (drop clen buf)
        in (map (\<lambda>u. buf ! u XOR tmp ! u) [0..<clen] @ rest, cc'))"
  by pat_completeness auto
termination by (relation "measure (\<lambda>(kw, ivw, cc, buf). length buf)") auto

declare chacha_loop.simps [simp del]

definition br_chacha20_ct_run :: "u8 list \<Rightarrow> u8 list \<Rightarrow> u32 \<Rightarrow> u8 list \<Rightarrow> u8 list \<times> u32" where
  "br_chacha20_ct_run key iv cc data =
     (let kw = map (\<lambda>u. br_dec32le (drop (push_bit 2 u) key)) [0..<8];
          ivw = map (\<lambda>u. br_dec32le (drop (push_bit 2 u) iv)) [0..<3]
      in chacha_loop kw ivw cc data)"

subsection \<open>RFC 8439\<close>

definition quarter :: "u32 \<times> u32 \<times> u32 \<times> u32 \<Rightarrow> u32 \<times> u32 \<times> u32 \<times> u32" where
  "quarter = (\<lambda>(a, b, c, d).
     let a = a + b; d = word_rotl 16 (d XOR a);
         c = c + d; b = word_rotl 12 (b XOR c);
         a = a + b; d = word_rotl 8 (d XOR a);
         c = c + d; b = word_rotl 7 (b XOR c)
     in (a, b, c, d))"

definition on_quarter :: "nat \<times> nat \<times> nat \<times> nat \<Rightarrow> u32 list \<Rightarrow> u32 list" where
  "on_quarter = (\<lambda>(x, y, z, w) s.
     let (a, b, c, d) = quarter (s ! x, s ! y, s ! z, s ! w) in s[x := a, y := b, z := c, w := d])"

text \<open>Four column rounds and four diagonal rounds of the 4 by 4 matrix.\<close>

definition columns :: "(nat \<times> nat \<times> nat \<times> nat) list" where
  "columns = map (\<lambda>i. (i, 4 + i, 8 + i, 12 + i)) [0, 1, 2, 3]"

definition diagonals :: "(nat \<times> nat \<times> nat \<times> nat) list" where
  "diagonals = map (\<lambda>i. (i, 4 + (i + 1) mod 4, 8 + (i + 2) mod 4, 12 + (i + 3) mod 4)) [0, 1, 2, 3]"

definition chacha20_block :: "u8 list \<Rightarrow> u8 list \<Rightarrow> u32 \<Rightarrow> u8 list" where
  "chacha20_block key nonce n =
     (let s = CW @ br_range_dec32le 8 key @ [n] @ br_range_dec32le 3 nonce;
          t = (fold on_quarter (columns @ diagonals) ^^ 10) s
      in br_range_enc32le (map2 (+) t s) 16)"

text \<open>The byte at \<open>i\<close> of the keystream that starts with block \<open>n\<close>.\<close>

definition keystream :: "u8 list \<Rightarrow> u8 list \<Rightarrow> u32 \<Rightarrow> nat \<Rightarrow> u8" where
  "keystream key nonce n i = chacha20_block key nonce (n + of_nat (i div 64)) ! (i mod 64)"

definition chacha20_encrypt :: "u8 list \<Rightarrow> u8 list \<Rightarrow> u32 \<Rightarrow> u8 list \<Rightarrow> u8 list" where
  "chacha20_encrypt key nonce n text = map (\<lambda>i. text ! i XOR keystream key nonce n i) [0..<length text]"

subsection \<open>The rounds\<close>

lemma rotl_shifts:
  "push_bit 16 x OR drop_bit 16 x = word_rotl 16 (x :: u32)" "push_bit 12 x OR drop_bit 20 x = word_rotl 12 (x :: u32)"
  "push_bit 8 x OR drop_bit 24 x = word_rotl 8 (x :: u32)" "push_bit 7 x OR drop_bit 25 x = word_rotl 7 (x :: u32)"
proof -
  have e: "32 - 16 = (16 :: nat)" "32 - 12 = (20 :: nat)" "32 - 8 = (24 :: nat)" "32 - 7 = (25 :: nat)" by simp_all
  show "push_bit 16 x OR drop_bit 16 x = word_rotl 16 x" by (rule shifts_rotl [of 16 x, unfolded e]) simp_all
  show "push_bit 12 x OR drop_bit 20 x = word_rotl 12 x" by (rule shifts_rotl [of 12 x, unfolded e]) simp_all
  show "push_bit 8 x OR drop_bit 24 x = word_rotl 8 x" by (rule shifts_rotl [of 8 x, unfolded e]) simp_all
  show "push_bit 7 x OR drop_bit 25 x = word_rotl 7 x" by (rule shifts_rotl [of 7 x, unfolded e]) simp_all
qed

definition put4 :: "u32 list \<Rightarrow> nat \<Rightarrow> nat \<Rightarrow> nat \<Rightarrow> nat \<Rightarrow> u32 \<Rightarrow> u32 \<Rightarrow> u32 \<Rightarrow> u32 \<Rightarrow> u32 list" where
  "put4 s a b c d A B C D = s[a := A, b := B, c := C, d := D]"

lemma put4_nth:
  assumes "distinct [a, b, c, d]" "a < length s" "b < length s" "c < length s" "d < length s"
  shows "put4 s a b c d A B C D ! a = A" "put4 s a b c d A B C D ! b = B" "put4 s a b c d A B C D ! c = C" "put4 s a b c d A B C D ! d = D"
  using assms by (simp_all add: put4_def)

lemma put4_update:
  assumes "distinct [a, b, c, d]"
  shows "(put4 s a b c d A B C D)[a := X] = put4 s a b c d X B C D" "(put4 s a b c d A B C D)[b := X] = put4 s a b c d A X C D"
    "(put4 s a b c d A B C D)[c := X] = put4 s a b c d A B X D" "(put4 s a b c d A B C D)[d := X] = put4 s a b c d A B C X"
  using assms by (simp_all add: put4_def list_update_swap [of d a] list_update_swap [of c a] list_update_swap [of b a]
      list_update_swap [of d b] list_update_swap [of c b] list_update_swap [of d c])

lemma QROUND_quarter:
  assumes "distinct [a, b, c, d]" "a < length s" "b < length s" "c < length s" "d < length s"
  shows "QROUND a b c d s = on_quarter (a, b, c, d) s"
proof -
  have "s = put4 s a b c d (s ! a) (s ! b) (s ! c) (s ! d)" by (simp add: put4_def)
  then have "QROUND a b c d s = QROUND a b c d (put4 s a b c d (s ! a) (s ! b) (s ! c) (s ! d))" by simp
  also have "\<dots> = on_quarter (a, b, c, d) s"
    unfolding QROUND_def on_quarter_def quarter_def rotl_shifts prod.case
    by (simp only: Let_def put4_nth [OF assms] put4_update [OF assms(1)] prod.case cong: let_weak_cong) (simp only: put4_def)
  finally show ?thesis .
qed

lemma length_on_quarter [simp]: "length (on_quarter q s) = length s"
  by (simp add: on_quarter_def case_prod_unfold Let_def)

lemma chacha_pass_rounds:
  assumes "length s = 16"
  shows "chacha_pass s = fold on_quarter (columns @ diagonals) s"
proof -
  have cd: "columns @ diagonals = [(0, 4, 8, 12), (1, 5, 9, 13), (2, 6, 10, 14), (3, 7, 11, 15),
      (0, 5, 10, 15), (1, 6, 11, 12), (2, 7, 8, 13), (3, 4, 9, 14)]"
    by (simp add: columns_def diagonals_def)
  show ?thesis unfolding cd chacha_pass_def Let_def using assms by (simp add: QROUND_quarter)
qed

lemma length_fold_quarter [simp]: "length (fold on_quarter qs s) = length s"
  by (induction qs arbitrary: s) simp_all

lemma length_rounds [simp]: "length ((fold on_quarter qs ^^ n) s) = length s"
  by (induction n) simp_all

lemma chacha_passes:
  assumes "length s = 16"
  shows "(chacha_pass ^^ n) s = (fold on_quarter (columns @ diagonals) ^^ n) s"
  by (induction n) (simp_all add: chacha_pass_rounds assms del: fold_append)

lemma range_dec32le_map: "br_range_dec32le n buf = map (\<lambda>u. br_dec32le (drop (push_bit 2 u) buf)) [0..<n]"
proof (induction n arbitrary: buf)
  case (Suc n)
  have "[0..<Suc n] = 0 # map Suc [0..<n]" by (simp add: map_Suc_upt upt_conv_Cons)
  then show ?case using Suc by (simp add: push_bit_eq_mult add.commute)
qed simp

lemma range_enc32le_map: "n \<le> length v \<Longrightarrow> br_range_enc32le v n = concat (map br_enc32le (take n v))"
  by (rule le32.range_enc_map)

lemma length_CW [simp]: "length CW = 4"
  by (simp add: CW_def)

lemma chacha_tmp_block:
  assumes "kw = br_range_dec32le 8 key" "ivw = br_range_dec32le 3 iv"
  shows "chacha_tmp kw ivw cc = chacha20_block key iv cc"
proof -
  let ?s = "CW @ kw @ [cc] @ ivw"
  let ?t = "(fold on_quarter (columns @ diagonals) ^^ 10) ?s"
  have l: "length kw = 8" "length ivw = 3" using assms by (simp_all add: range_dec32le_map)
  have eq: "(chacha_pass ^^ 10) ?s = ?t" using l by (intro chacha_passes) simp
  have m: "map2 (+) ?t ?s = map (\<lambda>u. ?t ! u + ?s ! u) [0..<16]"
    using l by (intro nth_equalityI) (simp_all del: upt_rec_numeral fold_append)
  have sp: "[0..<16] = [0..<4] @ [4..<12] @ [12] @ [13..<16]" by code_simp
  have a: "map (\<lambda>u. br_enc32le (?t ! u + ?s ! u)) [0..<4] = map (\<lambda>u. br_enc32le (?t ! u + CW ! u)) [0..<4]"
    by (intro map_cong refl) (simp add: nth_append)
  have b: "map (\<lambda>u. br_enc32le (?t ! u + ?s ! u)) [4..<12] = map (\<lambda>u. br_enc32le (?t ! u + kw ! (u - 4))) [4..<12]"
    using l by (intro map_cong refl) (auto simp: nth_append)
  have c: "br_enc32le (?t ! 12 + ?s ! 12) = br_enc32le (?t ! 12 + cc)"
    using l by (simp add: nth_append)
  have d: "map (\<lambda>u. br_enc32le (?t ! u + ?s ! u)) [13..<16] = map (\<lambda>u. br_enc32le (?t ! u + ivw ! (u - 13))) [13..<16]"
    using l by (intro map_cong refl) (auto simp: nth_append)
  have "br_range_enc32le (map2 (+) ?t ?s) 16 = concat (map (\<lambda>u. br_enc32le (?t ! u + ?s ! u)) [0..<16])"
    unfolding m by (simp add: range_enc32le_map o_def del: upt_rec_numeral)
  also have "\<dots> = concat (map (\<lambda>u. br_enc32le (?t ! u + CW ! u)) [0..<4]) @ concat (map (\<lambda>u. br_enc32le (?t ! u + kw ! (u - 4))) [4..<12])
      @ br_enc32le (?t ! 12 + cc) @ concat (map (\<lambda>u. br_enc32le (?t ! u + ivw ! (u - 13))) [13..<16])"
    unfolding sp map_append concat_append a b d list.map concat.simps append_Nil2 c ..
  finally show ?thesis
    unfolding chacha_tmp_def chacha20_block_def Let_def eq assms [symmetric] by simp
qed

lemma length_chacha20_block [simp]: "length (chacha20_block key nonce n) = 64"
  by (simp add: chacha20_block_def Let_def le32.length_range_enc del: fold_append)

subsection \<open>The data\<close>

lemma encrypt_block:
  assumes "text \<noteq> []"
  shows "chacha20_encrypt key nonce n text =
    map (\<lambda>u. text ! u XOR chacha20_block key nonce n ! u) [0..<min (length text) 64] @ chacha20_encrypt key nonce (n + 1) (drop 64 text)"
    (is "_ = ?r")
proof (rule nth_equalityI)
  show l: "length (chacha20_encrypt key nonce n text) = length ?r" by (simp add: chacha20_encrypt_def)
  fix i assume i: "i < length (chacha20_encrypt key nonce n text)"
  show "chacha20_encrypt key nonce n text ! i = ?r ! i"
  proof (cases "i < 64")
    case True
    then show ?thesis using i by (simp add: chacha20_encrypt_def nth_append keystream_def)
  next
    case False
    then have "i div 64 = Suc ((i - 64) div 64)" "i mod 64 = (i - 64) mod 64" "i - 64 < length text - 64"
      using i by (simp_all add: le_div_geq le_mod_geq chacha20_encrypt_def)
    then show ?thesis using False i
      by (simp add: chacha20_encrypt_def nth_append keystream_def add.assoc)
  qed
qed

lemma chacha_loop_encrypt:
  assumes "kw = br_range_dec32le 8 key" "ivw = br_range_dec32le 3 iv"
  shows "chacha_loop kw ivw cc buf = (chacha20_encrypt key iv cc buf, cc + of_nat ((length buf + 63) div 64))"
proof (induction "length buf" arbitrary: cc buf rule: less_induct)
  case less
  show ?case
  proof (cases "buf = []")
    case True
    then show ?thesis by (subst chacha_loop.simps) (simp add: chacha20_encrypt_def)
  next
    case False
    let ?c = "if length buf < 64 then length buf else 64"
    have d: "drop ?c buf = drop 64 buf" by simp
    have "length (drop 64 buf) < length buf" using False by simp
    note ih = less [OF this]
    have n: "(length buf + 63) div 64 = Suc ((length (drop 64 buf) + 63) div 64)"
    proof (cases "length buf \<le> 64")
      case True
      then have "(length buf + 63) div 64 = 1" using False by (simp add: div_nat_eqI Suc_leI)
      then show ?thesis using True by simp
    next
      case False
      then have "length buf + 63 = (length (drop 64 buf) + 63) + 64" by simp
      then show ?thesis by simp
    qed
    show ?thesis
      unfolding chacha_loop.simps [of kw ivw cc buf] Let_def if_not_P [OF False] d ih [of "cc + 1"] prod.case
        chacha_tmp_block [OF assms] encrypt_block [OF False] n
      by (simp add: min_def add.assoc)
  qed
qed

lemma chacha20_ct_encrypt:
  "br_chacha20_ct_run key iv cc data = (chacha20_encrypt key iv cc data, cc + of_nat ((length data + 63) div 64))"
  unfolding br_chacha20_ct_run_def Let_def by (rule chacha_loop_encrypt) (simp_all add: range_dec32le_map)

lemma length_chacha20_encrypt [simp]: "length (chacha20_encrypt key nonce n text) = length text"
  by (simp add: chacha20_encrypt_def)

lemma chacha20_encrypt_twice [simp]: "chacha20_encrypt key nonce n (chacha20_encrypt key nonce n text) = text"
  by (intro nth_equalityI) (simp_all add: chacha20_encrypt_def xor.assoc)

end
