(* ===== verification/Poly1305.thy ===== *)
theory Poly1305
  imports ChaCha20
begin

section \<open>Poly1305 (bearssl/src/symcipher/poly1305\_ctmul.c)\<close>

text \<open>
  The implementation with 26-bit limbs and 64-bit products, and the combination with ChaCha20 that
  encrypts and authenticates.  The function \<open>ichacha\<close> is an argument, as in the source.  The data is
  processed in place: the model returns its new contents and the tag.
\<close>

type_synonym br_chacha20_run = "u8 list \<Rightarrow> u8 list \<Rightarrow> u32 \<Rightarrow> u8 list \<Rightarrow> u8 list \<times> u32"

abbreviation M :: "u32 \<Rightarrow> u32 \<Rightarrow> u64" where
  "M x y \<equiv> ucast x * ucast y"

text \<open>One pass over a complete block.\<close>

definition poly_pass :: "u32 list \<Rightarrow> u8 list \<Rightarrow> u32 \<times> u32 \<times> u32 \<times> u32 \<times> u32 \<Rightarrow> u32 \<times> u32 \<times> u32 \<times> u32 \<times> u32" where
  "poly_pass r buf acc =
     (let r0 = r ! 0; r1 = r ! 1; r2 = r ! 2; r3 = r ! 3; r4 = r ! 4;
          u1 = r1 * 5; u2 = r2 * 5; u3 = r3 * 5; u4 = r4 * 5;
          (a0, a1, a2, a3, a4) = acc;
          a0 = a0 + (br_dec32le buf AND 0x03FFFFFF);
          a1 = a1 + (drop_bit 2 (br_dec32le (drop 3 buf)) AND 0x03FFFFFF);
          a2 = a2 + (drop_bit 4 (br_dec32le (drop 6 buf)) AND 0x03FFFFFF);
          a3 = a3 + (drop_bit 6 (br_dec32le (drop 9 buf)) AND 0x03FFFFFF);
          a4 = a4 + (drop_bit 8 (br_dec32le (drop 12 buf)) OR 0x01000000);
          w0 = M a0 r0 + M a1 u4 + M a2 u3 + M a3 u2 + M a4 u1;
          w1 = M a0 r1 + M a1 r0 + M a2 u4 + M a3 u3 + M a4 u2;
          w2 = M a0 r2 + M a1 r1 + M a2 r0 + M a3 u4 + M a4 u3;
          w3 = M a0 r3 + M a1 r2 + M a2 r1 + M a3 r0 + M a4 u4;
          w4 = M a0 r4 + M a1 r3 + M a2 r2 + M a3 r1 + M a4 r0;
          c = drop_bit 26 w0; a0 = ucast w0 AND 0x3FFFFFF; w1 = w1 + c;
          c = drop_bit 26 w1; a1 = ucast w1 AND 0x3FFFFFF; w2 = w2 + c;
          c = drop_bit 26 w2; a2 = ucast w2 AND 0x3FFFFFF; w3 = w3 + c;
          c = drop_bit 26 w3; a3 = ucast w3 AND 0x3FFFFFF; w4 = w4 + c;
          c = drop_bit 26 w4; a4 = ucast w4 AND 0x3FFFFFF;
          a0 = a0 + ucast c * 5;
          a1 = a1 + drop_bit 26 a0;
          a0 = a0 AND 0x3FFFFFF
      in (a0, a1, a2, a3, a4))"

text \<open>A partial block is padded with zeros.\<close>

function poly1305_loop :: "u32 list \<Rightarrow> u8 list \<Rightarrow> u32 \<times> u32 \<times> u32 \<times> u32 \<times> u32 \<Rightarrow> u32 \<times> u32 \<times> u32 \<times> u32 \<times> u32" where
  "poly1305_loop r buf acc =
     (if buf = [] then acc
      else if length buf < 16 then poly_pass r (buf @ replicate (16 - length buf) 0) acc
      else poly1305_loop r (drop 16 buf) (poly_pass r buf acc))"
  by pat_completeness auto
termination by (relation "measure (\<lambda>(r, buf, acc). length buf)") auto

declare poly1305_loop.simps [simp del]

definition poly1305_inner :: "u32 list \<Rightarrow> u32 list \<Rightarrow> u8 list \<Rightarrow> u32 list" where
  "poly1305_inner acc r data =
     (let (a0, a1, a2, a3, a4) = poly1305_loop r data (acc ! 0, acc ! 1, acc ! 2, acc ! 3, acc ! 4) in [a0, a1, a2, a3, a4])"

text \<open>The loops of the final reduction.\<close>

definition final_carry :: "u32 list \<Rightarrow> u32 list" where
  "final_carry acc =
     fst (fold (\<lambda>i (acc, cc).
       let j = (if 5 \<le> i then i - 5 else i);
           acc = acc[j := acc ! j + cc];
           cc = drop_bit 26 (acc ! j);
           acc = acc[j := acc ! j AND 0x03FFFFFF]
       in (acc, cc)) [1..<7] (acc, 0))"

definition final_select :: "u32 list \<Rightarrow> u32 list" where
  "final_select acc =
     (let ctl = GT (acc ! 0) 0x03FFFFFA;
          ctl = fold (\<lambda>i ctl. ctl AND EQ (acc ! i) 0x03FFFFFF) [1..<5] ctl
      in fst (fold (\<lambda>i (acc, cc).
           let t = acc ! i + cc;
               cc = drop_bit 26 t;
               t = t AND 0x03FFFFFF
           in (acc[i := MUX ctl t (acc ! i)], cc)) [0..<5] (acc, 5)))"

text \<open>The tag: the accumulator plus \<open>s\<close>, the second half of the key.\<close>

definition make_tag :: "u32 list \<Rightarrow> u8 list \<Rightarrow> u8 list" where
  "make_tag acc pkey =
     (let w = ucast (acc ! 0) + push_bit 26 (ucast (acc ! 1)) + ucast (br_dec32le (drop 16 pkey)) :: u64;
          t0 = br_enc32le (ucast w);
          w = drop_bit 32 w + push_bit 20 (ucast (acc ! 2)) + ucast (br_dec32le (drop 20 pkey));
          t1 = br_enc32le (ucast w);
          w = drop_bit 32 w + push_bit 14 (ucast (acc ! 3)) + ucast (br_dec32le (drop 24 pkey));
          t2 = br_enc32le (ucast w);
          hi = ucast (drop_bit 32 w) + push_bit 8 (acc ! 4) + br_dec32le (drop 28 pkey)
      in t0 @ t1 @ t2 @ br_enc32le hi)"

definition poly_r :: "u8 list \<Rightarrow> u32 list" where
  "poly_r pkey =
     [br_dec32le pkey AND 0x03FFFFFF,
      drop_bit 2 (br_dec32le (drop 3 pkey)) AND 0x03FFFF03,
      drop_bit 4 (br_dec32le (drop 6 pkey)) AND 0x03FFC0FF,
      drop_bit 6 (br_dec32le (drop 9 pkey)) AND 0x03F03FFF,
      drop_bit 8 (br_dec32le (drop 12 pkey)) AND 0x000FFFFF]"

definition br_poly1305_ctmul_run ::
  "u8 list \<Rightarrow> u8 list \<Rightarrow> u8 list \<Rightarrow> u8 list \<Rightarrow> br_chacha20_run \<Rightarrow> bool \<Rightarrow> u8 list \<times> u8 list" where
  "br_poly1305_ctmul_run key iv data aad ichacha encrypt =
     (let pkey = fst (ichacha key iv 0 (replicate 32 0));
          data = (if encrypt then fst (ichacha key iv 1 data) else data);
          r = poly_r pkey;
          acc = replicate 5 0;
          foot = br_enc64le (of_nat (length aad)) @ br_enc64le (of_nat (length data));
          acc = poly1305_inner acc r aad;
          acc = poly1305_inner acc r data;
          acc = poly1305_inner acc r foot;
          acc = final_select (final_carry acc);
          tag = make_tag acc pkey;
          data = (if \<not> encrypt then fst (ichacha key iv 1 data) else data)
      in (data, tag))"

subsection \<open>RFC 8439\<close>

fun le_num :: "u8 list \<Rightarrow> nat" where
  "le_num [] = 0"
| "le_num (b # bs) = unat b + 256 * le_num bs"

fun le_bytes :: "nat \<Rightarrow> nat \<Rightarrow> u8 list" where
  "le_bytes 0 n = []"
| "le_bytes (Suc k) n = of_nat n # le_bytes k (n div 256)"

definition P1305 :: nat where "P1305 = 2 ^ 130 - 5"

definition clamp :: "nat \<Rightarrow> nat" where
  "clamp r = r AND 0x0FFFFFFC0FFFFFFC0FFFFFFC0FFFFFFF"

text \<open>The polynomial of a list of blocks, in the order of the message.\<close>

definition poly_step :: "nat \<Rightarrow> u8 list \<Rightarrow> nat \<Rightarrow> nat" where
  "poly_step r block a = ((a + le_num block + 2 ^ 128) * r) mod P1305"

definition pad16 :: "u8 list \<Rightarrow> u8 list" where
  "pad16 m = m @ replicate ((16 - length m mod 16) mod 16) 0"

fun blocks16 :: "u8 list \<Rightarrow> u8 list list" where
  "blocks16 m = (if m = [] then [] else take 16 m # blocks16 (drop 16 m))"

declare blocks16.simps [simp del]

definition aead_message :: "u8 list \<Rightarrow> u8 list \<Rightarrow> u8 list" where
  "aead_message aad ct = pad16 aad @ pad16 ct @ le_bytes 8 (length aad) @ le_bytes 8 (length ct)"

definition poly1305_residue :: "u8 list \<Rightarrow> u8 list \<Rightarrow> nat" where
  "poly1305_residue pkey m = fold (poly_step (clamp (le_num (take 16 pkey)))) (blocks16 m) 0"

definition poly1305_mac :: "u8 list \<Rightarrow> u8 list \<Rightarrow> u8 list" where
  "poly1305_mac pkey m = le_bytes 16 (poly1305_residue pkey m + le_num (drop 16 (take 32 pkey)))"

subsection \<open>Bytes and limbs\<close>

lemma bit_le_num: "bit (le_num bs) i = (i div 8 < length bs \<and> bit (bs ! (i div 8)) (i mod 8))"
proof (induction bs arbitrary: i)
  case (Cons b bs)
  have s: "le_num (b # bs) = unat b OR push_bit 8 (le_num bs)"
  proof -
    have "\<not> bit (unat b) n \<or> \<not> bit (push_bit 8 (le_num bs)) n" for n
      by (auto simp: bit_simps dest: bit_imp_le_length)
    then have "unat b + push_bit 8 (le_num bs) = unat b OR push_bit 8 (le_num bs)" by (rule disjunctive_add)
    then show ?thesis by (simp add: push_bit_eq_mult mult.commute)
  qed
  show ?case
  proof (cases "i < 8")
    case True
    then show ?thesis unfolding s by (simp add: bit_simps)
  next
    case False
    then have "i div 8 = Suc ((i - 8) div 8)" "i mod 8 = (i - 8) mod 8" by (simp_all add: le_div_geq le_mod_geq)
    then show ?thesis unfolding s using False Cons [of "i - 8"] by (auto simp: bit_simps dest: bit_imp_le_length)
  qed
qed simp

lemma bit_dec32le: "bit (br_dec32le buf) i = (i < 32 \<and> bit (buf ! (i div 8)) (i mod 8))"
proof -
  consider "i < 8" | "8 \<le> i" "i < 16" | "16 \<le> i" "i < 24" | "24 \<le> i" "i < 32" | "32 \<le> i" by linarith
  then show ?thesis
  proof cases
    case 1
    then show ?thesis by (simp add: br_dec32le_def bit_simps)
  next
    case 2
    then have "i div 8 = 1" "i mod 8 = i - 8" by (simp_all add: le_div_geq le_mod_geq)
    then show ?thesis using 2 by (auto simp: br_dec32le_def bit_simps dest: bit_imp_le_length)
  next
    case 3
    then have "i div 8 = 2" "i mod 8 = i - 16" by (simp_all add: le_div_geq le_mod_geq)
    then show ?thesis using 3 by (auto simp: br_dec32le_def bit_simps dest: bit_imp_le_length)
  next
    case 4
    then have "i div 8 = 3" "i mod 8 = i - 24" by (simp_all add: le_div_geq le_mod_geq)
    then show ?thesis using 4 by (auto simp: br_dec32le_def bit_simps dest: bit_imp_le_length)
  next
    case 5
    then show ?thesis by (auto dest: bit_imp_le_length)
  qed
qed

lemma unat_dec32le:
  assumes "k + 4 \<le> length bs"
  shows "unat (br_dec32le (drop k bs)) = take_bit 32 (drop_bit (8 * k) (le_num bs))"
proof (rule bit_eqI)
  fix i
  have "(8 * k + i) div 8 = k + i div 8" "(8 * k + i) mod 8 = i mod 8" by simp_all
  moreover have "i < 32 \<Longrightarrow> k + i div 8 < length bs" using assms by (auto simp: less_mult_imp_div_less)
  ultimately show "bit (unat (br_dec32le (drop k bs))) i = bit (take_bit 32 (drop_bit (8 * k) (le_num bs))) i"
    using assms by (auto simp: bit_unsigned_iff bit_dec32le bit_take_bit_iff bit_drop_bit_eq bit_le_num dest: bit_imp_le_length)
qed

lemma le_num_bound: "le_num bs < 256 ^ length bs"
proof (induction bs)
  case (Cons b bs)
  have "unat b < 256" using unsigned_less [of b] by simp
  then show ?case using Cons by simp
qed simp

lemma limb_mul:
  fixes B P :: nat
  assumes "B ^ 5 = P + 5"
  shows "(x0 + B * x1 + B^2 * x2 + B^3 * x3 + B^4 * x4) * (r0 + B * r1 + B^2 * r2 + B^3 * r3 + B^4 * r4) =
    (x0 * r0 + x1 * (5 * r4) + x2 * (5 * r3) + x3 * (5 * r2) + x4 * (5 * r1))
    + B * (x0 * r1 + x1 * r0 + x2 * (5 * r4) + x3 * (5 * r3) + x4 * (5 * r2))
    + B^2 * (x0 * r2 + x1 * r1 + x2 * r0 + x3 * (5 * r4) + x4 * (5 * r3))
    + B^3 * (x0 * r3 + x1 * r2 + x2 * r1 + x3 * r0 + x4 * (5 * r4))
    + B^4 * (x0 * r4 + x1 * r3 + x2 * r2 + x3 * r1 + x4 * r0)
    + P * ((x1 * r4 + x2 * r3 + x3 * r2 + x4 * r1) + B * (x2 * r4 + x3 * r3 + x4 * r2) + B^2 * (x3 * r4 + x4 * r3) + B^3 * (x4 * r4))"
  using assms by algebra

lemma carry_chain:
  fixes B P :: nat
  assumes "B ^ 5 = P + 5"
    and "w0 = m0 + B * c0" "w1 + c0 = m1 + B * c1" "w2 + c1 = m2 + B * c2" "w3 + c2 = m3 + B * c3" "w4 + c3 = m4 + B * c4"
    and "m0 + 5 * c4 = n0 + B * c5"
  shows "w0 + B * w1 + B^2 * w2 + B^3 * w3 + B^4 * w4 = n0 + B * (m1 + c5) + B^2 * m2 + B^3 * m3 + B^4 * m4 + P * c4"
  using assms by algebra

lemma carry_around:
  fixes B :: nat
  assumes "m1 + B * k1 = a1" "m2 + B * k2 = a2 + k1" "m3 + B * k3 = a3 + k2" "m4 + B * k4 = a4 + k3"
  shows "a0 + B * a1 + B^2 * a2 + B^3 * a3 + B^4 * a4 = a0 + B * m1 + B^2 * m2 + B^3 * m3 + B^4 * m4 + B^5 * k4"
    "m0 + B * k5 = a0 + k4 \<Longrightarrow>
      m0 + B * (m1 + k5) + B^2 * m2 + B^3 * m3 + B^4 * m4 + B^5 * k4 = a0 + B * a1 + B^2 * a2 + B^3 * a3 + B^4 * a4 + k4"
proof -
  have e: "B^2 * a2 + B^2 * k1 = B^2 * m2 + B^3 * k2" "B^3 * a3 + B^3 * k2 = B^3 * m3 + B^4 * k3" "B^4 * a4 + B^4 * k3 = B^4 * m4 + B^5 * k4"
    using arg_cong [OF assms(2), of "(*) (B^2)"] arg_cong [OF assms(3), of "(*) (B^3)"] arg_cong [OF assms(4), of "(*) (B^4)"]
    by (simp_all add: algebra_simps numeral_eq_Suc)
  have f: "B * a1 = B * m1 + B^2 * k1" unfolding assms(1) [symmetric] by (simp add: algebra_simps power2_eq_square)
  show s: "a0 + B * a1 + B^2 * a2 + B^3 * a3 + B^4 * a4 = a0 + B * m1 + B^2 * m2 + B^3 * m3 + B^4 * m4 + B^5 * k4"
    unfolding f using e by linarith
  show "m0 + B * (m1 + k5) + B^2 * m2 + B^3 * m3 + B^4 * m4 + B^5 * k4 = a0 + B * a1 + B^2 * a2 + B^3 * a3 + B^4 * a4 + k4"
    if "m0 + B * k5 = a0 + k4"
    unfolding s distrib_left using that by linarith
qed

lemma limbs_less:
  fixes B :: nat
  assumes "a0 < B" "a1 < B" "a2 < B" "a3 < B" "a4 < B"
  shows "a0 + B * a1 + B^2 * a2 + B^3 * a3 + B^4 * a4 < B ^ 5"
proof -
  have "a0 + B * a1 + B^2 * a2 + B^3 * a3 + B^4 * a4 \<le> (B - 1) + B * (B - 1) + B^2 * (B - 1) + B^3 * (B - 1) + B^4 * (B - 1)"
    using assms by (intro add_mono mult_le_mono) simp_all
  also have "\<dots> + 1 = B ^ 5" using assms(1) by (cases B) (simp_all add: numeral_eq_Suc algebra_simps)
  finally show ?thesis by simp
qed

text \<open>The value of five limbs.\<close>

definition lv :: "u32 \<times> u32 \<times> u32 \<times> u32 \<times> u32 \<Rightarrow> nat" where
  "lv = (\<lambda>(a0, a1, a2, a3, a4). unat a0 + 2 ^ 26 * unat a1 + (2 ^ 26)^2 * unat a2 + (2 ^ 26)^3 * unat a3 + (2 ^ 26)^4 * unat a4)"

lemma mask26: "(0x03FFFFFF :: u32) = mask 26"
  by (simp add: mask_eq_exp_minus_1)

lemma unat_mask26: "unat (x AND 0x03FFFFFF :: u32) = take_bit 26 (unat x)"
  unfolding mask26 by (simp add: unsigned_take_bit_eq flip: take_bit_eq_mask)

lemma unat_drop: "unat (drop_bit n (x :: 'a :: len word)) = drop_bit n (unat x)"
  by (rule bit_eqI) (auto simp: bit_simps dest: bit_imp_le_length)

lemma block_limbs:
  assumes "length b = 16"
  shows "unat (br_dec32le b AND 0x03FFFFFF) = take_bit 26 (le_num b)"
    "unat (drop_bit 2 (br_dec32le (drop 3 b)) AND 0x03FFFFFF) = take_bit 26 (drop_bit 26 (le_num b))"
    "unat (drop_bit 4 (br_dec32le (drop 6 b)) AND 0x03FFFFFF) = take_bit 26 (drop_bit 52 (le_num b))"
    "unat (drop_bit 6 (br_dec32le (drop 9 b)) AND 0x03FFFFFF) = take_bit 26 (drop_bit 78 (le_num b))"
    "unat (drop_bit 8 (br_dec32le (drop 12 b)) OR 0x01000000) = drop_bit 104 (le_num b) + 2 ^ 24"
proof -
  have d: "unat (br_dec32le b) = take_bit 32 (le_num b)" "unat (br_dec32le (drop 3 b)) = take_bit 32 (drop_bit 24 (le_num b))"
    "unat (br_dec32le (drop 6 b)) = take_bit 32 (drop_bit 48 (le_num b))" "unat (br_dec32le (drop 9 b)) = take_bit 32 (drop_bit 72 (le_num b))"
    "unat (br_dec32le (drop 12 b)) = take_bit 32 (drop_bit 96 (le_num b))"
    using assms unat_dec32le [of 0 b] unat_dec32le [of 3 b] unat_dec32le [of 6 b] unat_dec32le [of 9 b] unat_dec32le [of 12 b] by simp_all
  have top: "bit (le_num b) i \<Longrightarrow> i < 128" for i using assms by (simp add: bit_le_num div_less_iff_less_mult)
  show "unat (br_dec32le b AND 0x03FFFFFF) = take_bit 26 (le_num b)"
    unfolding unat_mask26 d by (simp add: take_bit_take_bit)
  show "unat (drop_bit 2 (br_dec32le (drop 3 b)) AND 0x03FFFFFF) = take_bit 26 (drop_bit 26 (le_num b))"
    unfolding unat_mask26 unat_drop d by (rule bit_eqI) (auto simp: bit_simps)
  show "unat (drop_bit 4 (br_dec32le (drop 6 b)) AND 0x03FFFFFF) = take_bit 26 (drop_bit 52 (le_num b))"
    unfolding unat_mask26 unat_drop d by (rule bit_eqI) (auto simp: bit_simps)
  show "unat (drop_bit 6 (br_dec32le (drop 9 b)) AND 0x03FFFFFF) = take_bit 26 (drop_bit 78 (le_num b))"
    unfolding unat_mask26 unat_drop d by (rule bit_eqI) (auto simp: bit_simps)
  have h: "drop_bit 8 (take_bit 32 (drop_bit 96 (le_num b))) = drop_bit 104 (le_num b)"
  proof (rule bit_eqI)
    show "bit (drop_bit 8 (take_bit 32 (drop_bit 96 (le_num b)))) i = bit (drop_bit 104 (le_num b)) i" for i
      using top [of "104 + i"] by (auto simp: bit_simps)
  qed
  have "drop_bit 104 (le_num b) + 2 ^ 24 = drop_bit 104 (le_num b) OR 2 ^ 24"
  proof (rule disjunctive_add)
    have e: "bit (2 ^ k :: nat) n = (n = k)" for k n by (auto simp: bit_exp_iff)
    show "\<not> bit (drop_bit 104 (le_num b)) n \<or> \<not> bit (2 ^ 24 :: nat) n" for n
      using top [of "104 + n"] e [of 24 n] by (cases "n = 24") (auto simp: bit_drop_bit_eq)
  qed
  then show "unat (drop_bit 8 (br_dec32le (drop 12 b)) OR 0x01000000) = drop_bit 104 (le_num b) + 2 ^ 24"
    by (simp add: unsigned_or_eq unat_drop d h)
qed

lemma split_limb: "(n :: nat) = take_bit 26 n + 2 ^ 26 * drop_bit 26 n"
  using bits_ident [of 26 n] by (simp add: push_bit_eq_mult mult.commute add.commute)

lemma limbs_sum:
  "(n :: nat) = take_bit 26 n + 2 ^ 26 * take_bit 26 (drop_bit 26 n) + (2 ^ 26)^2 * take_bit 26 (drop_bit 52 n)
     + (2 ^ 26)^3 * take_bit 26 (drop_bit 78 n) + (2 ^ 26)^4 * drop_bit 104 n"
proof -
  note s = split_limb [of n] split_limb [of "drop_bit 26 n"] split_limb [of "drop_bit 52 n"] split_limb [of "drop_bit 78 n"]
  show ?thesis using s by (simp add: drop_bit_drop_bit)
qed

subsection \<open>One pass multiplies modulo the prime\<close>

definition limbs_ok :: "u32 \<times> u32 \<times> u32 \<times> u32 \<times> u32 \<Rightarrow> bool" where
  "limbs_ok = (\<lambda>(a0, a1, a2, a3, a4). unat a0 < 2 ^ 26 \<and> unat a1 < 2 ^ 26 + 64 \<and> unat a2 < 2 ^ 26 \<and> unat a3 < 2 ^ 26 \<and> unat a4 < 2 ^ 26)"

lemma unat_up: "unat (ucast (x :: u32) :: u64) = unat x"
  by (simp add: unsigned_ucast_eq take_bit_nat_eq_self_iff) (rule less_le_trans [OF unsigned_less], simp)

lemma unat_M: "unat (M x y) = unat x * unat y"
proof -
  have "unat x * unat y < 2 ^ 32 * 2 ^ 32" using unsigned_less [of x] unsigned_less [of y] by (intro mult_strict_mono) simp_all
  then have "unat (ucast x :: u64) * unat (ucast y :: u64) < 2 ^ LENGTH(64)" unfolding unat_up by simp
  then have "unat (M x y) = unat (ucast x :: u64) * unat (ucast y :: u64)" by (simp only: unat_mult_lem)
  then show ?thesis by (simp only: unat_up)
qed

text \<open>Addition and products that do not wrap around.\<close>

lemma unat_plus_small: "unat (x :: 'a :: len word) + unat y \<le> n \<Longrightarrow> n < 2 ^ LENGTH('a) \<Longrightarrow> unat (x + y) = unat x + unat y"
  by (meson le_less_trans unat_add_lem)

lemma unat_sum5:
  fixes v w x y z :: u64
  assumes "unat v \<le> b" "unat w \<le> b" "unat x \<le> b" "unat y \<le> b" "unat z \<le> b" "5 * b < 2 ^ 64"
  shows "unat (v + w + x + y + z) = unat v + unat w + unat x + unat y + unat z"
proof -
  have 1: "unat (v + w) = unat v + unat w" using assms by (intro unat_plus_small [of _ _ "2 * b"]) simp_all
  have 2: "unat (v + w + x) = unat v + unat w + unat x" using assms 1 by (subst unat_plus_small [of _ _ "3 * b"]) simp_all
  have 3: "unat (v + w + x + y) = unat v + unat w + unat x + unat y" using assms 2 by (subst unat_plus_small [of _ _ "4 * b"]) simp_all
  show ?thesis using assms 3 by (subst unat_plus_small [of _ _ "5 * b"]) simp_all
qed

lemma carry_out: "unat (w :: u64) = take_bit 26 (unat w) + 2 ^ 26 * unat (drop_bit 26 w)"
  unfolding unat_drop by (rule split_limb)

lemma low_limb: "unat (ucast (w :: u64) AND 0x3FFFFFF :: u32) = take_bit 26 (unat w)"
  unfolding unat_mask26 by (simp add: unsigned_ucast_eq take_bit_take_bit)

lemma drop26_bound: "unat (w :: u64) \<le> b \<Longrightarrow> unat (drop_bit 26 w) \<le> b div 2 ^ 26"
  unfolding unat_drop unfolding drop_bit_eq_div by (rule div_le_mono)

lemma take26: "take_bit 26 (n :: nat) < 2 ^ 26"
  by (rule take_bit_nat_less_exp)

lemma unat_sum6:
  fixes v w x y z c :: u64
  assumes "unat v \<le> b" "unat w \<le> b" "unat x \<le> b" "unat y \<le> b" "unat z \<le> b" "unat c \<le> e" "5 * b + e < 2 ^ 64"
  shows "unat (v + w + x + y + z + c) = unat v + unat w + unat x + unat y + unat z + unat c \<and> unat (v + w + x + y + z + c) \<le> 5 * b + e"
proof -
  have s: "unat (v + w + x + y + z) = unat v + unat w + unat x + unat y + unat z" using assms by (intro unat_sum5 [of _ b]) simp_all
  then have "unat (v + w + x + y + z + c) = unat v + unat w + unat x + unat y + unat z + unat c"
    using assms by (subst unat_plus_small [of _ _ "5 * b + e"]) simp_all
  then show ?thesis using assms by simp
qed

lemma mul_pass:
  fixes x0 x1 x2 x3 x4 r0 r1 r2 r3 r4 :: u32
  assumes x: "unat x0 < 2 ^ 27 + 64" "unat x1 < 2 ^ 27 + 64" "unat x2 < 2 ^ 27 + 64" "unat x3 < 2 ^ 27 + 64" "unat x4 < 2 ^ 27 + 64"
    and r: "unat r0 < 2 ^ 26" "unat r1 < 2 ^ 26" "unat r2 < 2 ^ 26" "unat r3 < 2 ^ 26" "unat r4 < 2 ^ 26"
  defines "w0 \<equiv> M x0 r0 + M x1 (r4 * 5) + M x2 (r3 * 5) + M x3 (r2 * 5) + M x4 (r1 * 5)"
  defines "w1 \<equiv> M x0 r1 + M x1 r0 + M x2 (r4 * 5) + M x3 (r3 * 5) + M x4 (r2 * 5) + drop_bit 26 w0"
  defines "w2 \<equiv> M x0 r2 + M x1 r1 + M x2 r0 + M x3 (r4 * 5) + M x4 (r3 * 5) + drop_bit 26 w1"
  defines "w3 \<equiv> M x0 r3 + M x1 r2 + M x2 r1 + M x3 r0 + M x4 (r4 * 5) + drop_bit 26 w2"
  defines "w4 \<equiv> M x0 r4 + M x1 r3 + M x2 r2 + M x3 r1 + M x4 r0 + drop_bit 26 w3"
  defines "n0 \<equiv> (ucast w0 AND 0x3FFFFFF) + ucast (drop_bit 26 w4) * 5"
  defines "out \<equiv> (n0 AND 0x3FFFFFF, (ucast w1 AND 0x3FFFFFF) + drop_bit 26 n0, ucast w2 AND 0x3FFFFFF, ucast w3 AND 0x3FFFFFF, ucast w4 AND 0x3FFFFFF)"
  shows "limbs_ok out \<and> (\<exists>k. lv (x0, x1, x2, x3, x4) * lv (r0, r1, r2, r3, r4) = lv out + P1305 * k)"
proof -
  have u: "unat (r * 5) = 5 * unat r" "unat (r * 5) < 335544320" if "unat r < 2 ^ 26" for r :: u32
  proof -
    have "unat r * unat (5 :: u32) < 2 ^ LENGTH(32)" using that by simp
    then show e: "unat (r * 5) = 5 * unat r" by (simp only: unat_mult_lem) simp
    show "unat (r * 5) < 335544320" using that e by simp
  qed
  define b d e where "b = (134217792 * 335544320 :: nat)" and "d = (134217792 * 67108864 :: nat)" and "e = (4000000000 :: nat)"
  have pb: "unat (M x y) \<le> b" if "unat x < 2 ^ 27 + 64" "unat y < 335544320" for x y :: u32
    unfolding unat_M b_def using that by (intro mult_le_mono) simp_all
  have pd: "unat (M x y) \<le> d" if "unat x < 2 ^ 27 + 64" "unat y < 2 ^ 26" for x y :: u32
    unfolding unat_M d_def using that by (intro mult_le_mono) simp_all
  have rb: "unat r0 < 335544320" "unat r1 < 335544320" "unat r2 < 335544320" "unat r3 < 335544320" "unat r4 < 335544320"
    using r by simp_all
  have nb: "5 * b + e < 2 ^ 64" "(5 * b + e) div 2 ^ 26 \<le> e" "5 * d + e < 2 ^ 64" "(5 * d + e) div 2 ^ 26 \<le> 671089500"
    by (simp_all add: b_def d_def e_def)
  have "unat w0 = unat (M x0 r0) + unat (M x1 (r4 * 5)) + unat (M x2 (r3 * 5)) + unat (M x3 (r2 * 5)) + unat (M x4 (r1 * 5)) + unat (0 :: u64)
      \<and> unat w0 \<le> 5 * b + e"
    using unat_sum6 [of "M x0 r0" b "M x1 (r4 * 5)" "M x2 (r3 * 5)" "M x3 (r2 * 5)" "M x4 (r1 * 5)" 0 e] pb x rb u(2) r nb(1)
    unfolding w0_def by simp
  then have s0: "unat w0 = unat (M x0 r0) + unat (M x1 (r4 * 5)) + unat (M x2 (r3 * 5)) + unat (M x3 (r2 * 5)) + unat (M x4 (r1 * 5))"
    and t0: "unat w0 \<le> 5 * b + e" by simp_all
  have c0: "unat (drop_bit 26 w0) \<le> e" using drop26_bound [OF t0] nb(2) by simp
  have s1: "unat w1 = unat (M x0 r1) + unat (M x1 r0) + unat (M x2 (r4 * 5)) + unat (M x3 (r3 * 5)) + unat (M x4 (r2 * 5)) + unat (drop_bit 26 w0)
      \<and> unat w1 \<le> 5 * b + e"
    unfolding w1_def by (intro unat_sum6 pb x rb u(2) r nb(1) c0)
  then have c1: "unat (drop_bit 26 w1) \<le> e" using drop26_bound [of w1 "5 * b + e"] nb(2) by simp
  have s2: "unat w2 = unat (M x0 r2) + unat (M x1 r1) + unat (M x2 r0) + unat (M x3 (r4 * 5)) + unat (M x4 (r3 * 5)) + unat (drop_bit 26 w1)
      \<and> unat w2 \<le> 5 * b + e"
    unfolding w2_def by (intro unat_sum6 pb x rb u(2) r nb(1) c1)
  then have c2: "unat (drop_bit 26 w2) \<le> e" using drop26_bound [of w2 "5 * b + e"] nb(2) by simp
  have s3: "unat w3 = unat (M x0 r3) + unat (M x1 r2) + unat (M x2 r1) + unat (M x3 r0) + unat (M x4 (r4 * 5)) + unat (drop_bit 26 w2)
      \<and> unat w3 \<le> 5 * b + e"
    unfolding w3_def by (intro unat_sum6 pb x rb u(2) r nb(1) c2)
  then have c3: "unat (drop_bit 26 w3) \<le> e" using drop26_bound [of w3 "5 * b + e"] nb(2) by simp
  have s4: "unat w4 = unat (M x0 r4) + unat (M x1 r3) + unat (M x2 r2) + unat (M x3 r1) + unat (M x4 r0) + unat (drop_bit 26 w3)
      \<and> unat w4 \<le> 5 * d + e"
    unfolding w4_def by (intro unat_sum6 pd x r nb(3) c3)
  then have c4: "unat (drop_bit 26 w4) \<le> 671089500" using drop26_bound [of w4 "5 * d + e"] nb(4) by simp
  have uc: "unat (ucast (drop_bit 26 w4) :: u32) = unat (drop_bit 26 w4)"
    using c4 by (simp add: unsigned_ucast_eq take_bit_nat_eq_self_iff)
  have "unat (ucast (drop_bit 26 w4) :: u32) * unat (5 :: u32) < 2 ^ LENGTH(32)" using c4 unfolding uc by simp
  then have "unat (ucast (drop_bit 26 w4) * (5 :: u32)) = unat (ucast (drop_bit 26 w4) :: u32) * unat (5 :: u32)" by (simp only: unat_mult_lem)
  then have m5: "unat (ucast (drop_bit 26 w4) * (5 :: u32)) = 5 * unat (drop_bit 26 w4)" unfolding uc by simp
  have n0: "unat n0 = take_bit 26 (unat w0) + 5 * unat (drop_bit 26 w4)" "unat n0 \<le> 3422556364"
  proof -
    have l: "take_bit 26 (unat w0) < 67108864" using take26 [of "unat w0"] by simp
    have "unat n0 = unat (ucast w0 AND 0x3FFFFFF :: u32) + unat (ucast (drop_bit 26 w4) * (5 :: u32))"
      unfolding n0_def using c4 l by (intro unat_plus_small [of _ _ 3422556364]) (simp_all add: low_limb m5)
    then show "unat n0 = take_bit 26 (unat w0) + 5 * unat (drop_bit 26 w4)" unfolding low_limb m5 .
    then show "unat n0 \<le> 3422556364" using c4 l by simp
  qed
  have c5: "unat (drop_bit 26 n0) \<le> 63" unfolding unat_drop unfolding drop_bit_eq_div using n0(2) by simp
  have a1: "unat ((ucast w1 AND 0x3FFFFFF) + drop_bit 26 n0) = take_bit 26 (unat w1) + unat (drop_bit 26 n0)"
    using c5 take26 [of "unat w1"] by (subst unat_plus_small [of _ _ "67108927"]) (simp_all add: low_limb)
  have "take_bit 26 (unat w1) + unat (drop_bit 26 n0) < 2 ^ 26 + 64"
    using c5 take26 [of "unat w1"] by simp
  then have ok: "limbs_ok out"
    unfolding limbs_ok_def out_def prod.case a1 low_limb unat_mask26 [of n0] by (simp only: take26 simp_thms)
  have n0': "unat (n0 AND 0x3FFFFFF) + 2 ^ 26 * unat (drop_bit 26 n0) = take_bit 26 (unat w0) + 5 * unat (drop_bit 26 w4)"
    unfolding unat_mask26 unat_drop [of 26 n0] using n0(1) split_limb [of "unat n0"] by simp
  have p: "(2 ^ 26) ^ 5 = P1305 + 5" by (simp add: P1305_def)
  define s0' s1' s2' s3' s4' where s:
    "s0' = unat x0 * unat r0 + unat x1 * (5 * unat r4) + unat x2 * (5 * unat r3) + unat x3 * (5 * unat r2) + unat x4 * (5 * unat r1)"
    "s1' = unat x0 * unat r1 + unat x1 * unat r0 + unat x2 * (5 * unat r4) + unat x3 * (5 * unat r3) + unat x4 * (5 * unat r2)"
    "s2' = unat x0 * unat r2 + unat x1 * unat r1 + unat x2 * unat r0 + unat x3 * (5 * unat r4) + unat x4 * (5 * unat r3)"
    "s3' = unat x0 * unat r3 + unat x1 * unat r2 + unat x2 * unat r1 + unat x3 * unat r0 + unat x4 * (5 * unat r4)"
    "s4' = unat x0 * unat r4 + unat x1 * unat r3 + unat x2 * unat r2 + unat x3 * unat r1 + unat x4 * unat r0"
  have w: "s0' = unat w0" "s1' + unat (drop_bit 26 w0) = unat w1" "s2' + unat (drop_bit 26 w1) = unat w2"
      "s3' + unat (drop_bit 26 w2) = unat w3" "s4' + unat (drop_bit 26 w3) = unat w4"
    using s0 s1 s2 s3 s4 unfolding s unat_M u(1) [OF r(1)] u(1) [OF r(2)] u(1) [OF r(3)] u(1) [OF r(4)] u(1) [OF r(5)] by simp_all
  have chain: "s0' + 2 ^ 26 * s1' + (2 ^ 26)^2 * s2' + (2 ^ 26)^3 * s3' + (2 ^ 26)^4 * s4' =
      unat (n0 AND 0x3FFFFFF) + 2 ^ 26 * (take_bit 26 (unat w1) + unat (drop_bit 26 n0)) + (2 ^ 26)^2 * take_bit 26 (unat w2)
      + (2 ^ 26)^3 * take_bit 26 (unat w3) + (2 ^ 26)^4 * take_bit 26 (unat w4) + P1305 * unat (drop_bit 26 w4)"
    by (rule carry_chain [OF p, where ?c0.0 = "unat (drop_bit 26 w0)" and ?c1.0 = "unat (drop_bit 26 w1)" and ?c2.0 = "unat (drop_bit 26 w2)"
          and ?c3.0 = "unat (drop_bit 26 w3)" and ?c5.0 = "unat (drop_bit 26 n0)" and ?m0.0 = "take_bit 26 (unat w0)"])
      (simp_all only: w carry_out [symmetric] n0')
  note mul = limb_mul [OF p, of "unat x0" "unat x1" "unat x2" "unat x3" "unat x4" "unat r0" "unat r1" "unat r2" "unat r3" "unat r4",
      folded s, unfolded chain]
  have "lv (x0, x1, x2, x3, x4) * lv (r0, r1, r2, r3, r4) = lv out + P1305 * (unat (drop_bit 26 w4) +
      (unat x1 * unat r4 + unat x2 * unat r3 + unat x3 * unat r2 + unat x4 * unat r1 + 2 ^ 26 * (unat x2 * unat r4 + unat x3 * unat r3 + unat x4 * unat r2)
       + (2 ^ 26)^2 * (unat x3 * unat r4 + unat x4 * unat r3) + (2 ^ 26)^3 * (unat x4 * unat r4)))"
    unfolding lv_def out_def prod.case mul low_limb a1 by (simp only: add_mult_distrib2 add.assoc)
  then show ?thesis using ok by blast
qed

definition r_ok :: "u32 list \<Rightarrow> bool" where
  "r_ok r \<longleftrightarrow> length r = 5 \<and> (\<forall>x \<in> set r. unat x < 2 ^ 26)"

definition rv :: "u32 list \<Rightarrow> nat" where
  "rv r = lv (r ! 0, r ! 1, r ! 2, r ! 3, r ! 4)"

lemma poly_pass_step:
  assumes "limbs_ok acc" "r_ok r" "length b = 16"
  shows "limbs_ok (poly_pass r b acc)" "\<exists>k. (lv acc + le_num b + 2 ^ 128) * rv r = lv (poly_pass r b acc) + P1305 * k"
proof -
  obtain a0 a1 a2 a3 a4 where acc: "acc = (a0, a1, a2, a3, a4)" by (cases acc)
  define l0 l1 l2 l3 l4 where l: "l0 = br_dec32le b AND 0x03FFFFFF" "l1 = drop_bit 2 (br_dec32le (drop 3 b)) AND 0x03FFFFFF"
    "l2 = drop_bit 4 (br_dec32le (drop 6 b)) AND 0x03FFFFFF" "l3 = drop_bit 6 (br_dec32le (drop 9 b)) AND 0x03FFFFFF"
    "l4 = drop_bit 8 (br_dec32le (drop 12 b)) OR 0x01000000"
  have lim: "unat a0 < 2 ^ 26" "unat a1 < 2 ^ 26 + 64" "unat a2 < 2 ^ 26" "unat a3 < 2 ^ 26" "unat a4 < 2 ^ 26"
    using assms(1) by (simp_all add: acc limbs_ok_def)
  have ul: "unat l0 = take_bit 26 (le_num b)" "unat l1 = take_bit 26 (drop_bit 26 (le_num b))"
      "unat l2 = take_bit 26 (drop_bit 52 (le_num b))" "unat l3 = take_bit 26 (drop_bit 78 (le_num b))"
      "unat l4 = drop_bit 104 (le_num b) + 2 ^ 24"
    unfolding l using block_limbs [OF assms(3)] by blast+
  have "le_num b < 2 ^ 128" using le_num_bound [of b] assms(3) by simp
  then have top: "drop_bit 104 (le_num b) < 2 ^ 24" unfolding drop_bit_eq_div by (simp add: less_mult_imp_div_less)
  have bl: "unat l0 < 2 ^ 26" "unat l1 < 2 ^ 26" "unat l2 < 2 ^ 26" "unat l3 < 2 ^ 26" "unat l4 < 2 ^ 25"
    unfolding ul by (rule take26)+ (use top in simp)
  have s: "unat (a0 + l0) = unat a0 + unat l0" "unat (a1 + l1) = unat a1 + unat l1" "unat (a2 + l2) = unat a2 + unat l2"
      "unat (a3 + l3) = unat a3 + unat l3" "unat (a4 + l4) = unat a4 + unat l4"
    using lim bl by (intro unat_plus_small [of _ _ 2147483648]; simp)+
  have x: "unat (a0 + l0) < 2 ^ 27 + 64" "unat (a1 + l1) < 2 ^ 27 + 64" "unat (a2 + l2) < 2 ^ 27 + 64"
      "unat (a3 + l3) < 2 ^ 27 + 64" "unat (a4 + l4) < 2 ^ 27 + 64"
    unfolding s using lim bl by simp_all
  have rr: "unat (r ! 0) < 2 ^ 26" "unat (r ! 1) < 2 ^ 26" "unat (r ! 2) < 2 ^ 26" "unat (r ! 3) < 2 ^ 26" "unat (r ! 4) < 2 ^ 26"
    using assms(2) by (simp_all add: r_ok_def)
  note mp = mul_pass [OF x rr]
  have v: "lv (a0 + l0, a1 + l1, a2 + l2, a3 + l3, a4 + l4) = lv acc + le_num b + 2 ^ 128"
  proof -
    have "lv (a0 + l0, a1 + l1, a2 + l2, a3 + l3, a4 + l4) = lv acc + (take_bit 26 (le_num b) + 2 ^ 26 * take_bit 26 (drop_bit 26 (le_num b))
        + (2 ^ 26)^2 * take_bit 26 (drop_bit 52 (le_num b)) + (2 ^ 26)^3 * take_bit 26 (drop_bit 78 (le_num b)) + (2 ^ 26)^4 * drop_bit 104 (le_num b))
        + (2 ^ 26)^4 * 2 ^ 24"
      unfolding lv_def acc prod.case s ul by (simp only: add_mult_distrib2 ac_simps)
    then show ?thesis unfolding limbs_sum [of "le_num b", symmetric] by (simp flip: power_mult power_add)
  qed
  show "limbs_ok (poly_pass r b acc)"
    using mp unfolding poly_pass_def acc Let_def prod.case l [symmetric] by blast
  show "\<exists>k. (lv acc + le_num b + 2 ^ 128) * rv r = lv (poly_pass r b acc) + P1305 * k"
    using mp unfolding v poly_pass_def acc Let_def prod.case l [symmetric] rv_def by blast
qed

subsection \<open>The message\<close>

lemma le_num_zeros [simp]: "le_num (b @ replicate n 0) = le_num b"
proof (induction b)
  case Nil
  then show ?case by (induction n) simp_all
qed simp

lemma pad16_short: "m \<noteq> [] \<Longrightarrow> length m < 16 \<Longrightarrow> pad16 m = m @ replicate (16 - length m) 0"
  by (cases "length m") (simp_all add: pad16_def)

lemma pad16_Nil [simp]: "pad16 [] = []"
  by (simp add: pad16_def)

lemma pad16_long: "16 \<le> length m \<Longrightarrow> pad16 m = take 16 m @ pad16 (drop 16 m)"
  by (simp add: pad16_def le_mod_geq)

lemma length_pad16: "length (pad16 m) mod 16 = 0"
proof -
  have "length (pad16 m) mod 16 = (length m mod 16 + (16 - length m mod 16) mod 16) mod 16"
    by (simp add: pad16_def mod_add_left_eq)
  also have "\<dots> = 0" by (cases "length m mod 16 = 0") simp_all
  finally show ?thesis .
qed

lemma blocks16_append: "length a mod 16 = 0 \<Longrightarrow> blocks16 (a @ b) = blocks16 a @ blocks16 b"
proof (induction "length a" arbitrary: a rule: less_induct)
  case less
  show ?case
  proof (cases "a = []")
    case True
    then show ?thesis by (simp add: blocks16.simps [of "[]"])
  next
    case False
    then have l: "16 \<le> length a" using less(2) by (cases "length a < 16") simp_all
    then have "length (drop 16 a) mod 16 = 0" using less(2) by (simp add: le_mod_geq)
    then show ?thesis using less(1) [of "drop 16 a"] False l
      by (subst (1 2) blocks16.simps) simp
  qed
qed

lemma fold_step_mod: "fold (poly_step r) bs (a mod P1305) mod P1305 = fold (poly_step r) bs a mod P1305"
proof (induction bs arbitrary: a)
  case (Cons b bs)
  have "poly_step r b (a mod P1305) = poly_step r b a"
    unfolding poly_step_def add.assoc by (rule mod_mult_cong [OF mod_add_left_eq refl])
  then show ?case by simp
qed simp

lemma poly_pass_mod:
  assumes "limbs_ok acc" "r_ok r" "length b = 16"
  shows "lv (poly_pass r b acc) mod P1305 = poly_step (rv r) b (lv acc)"
proof (rule exE [OF poly_pass_step(2) [OF assms]])
  fix k assume e: "(lv acc + le_num b + 2 ^ 128) * rv r = lv (poly_pass r b acc) + P1305 * k"
  show ?thesis unfolding poly_step_def add.assoc [symmetric] e by (rule mod_mult_self2 [symmetric])
qed

lemma poly1305_loop_mod:
  assumes "limbs_ok acc" "r_ok r"
  shows "limbs_ok (poly1305_loop r buf acc) \<and>
    lv (poly1305_loop r buf acc) mod P1305 = fold (poly_step (rv r)) (blocks16 (pad16 buf)) (lv acc) mod P1305"
  using assms(1)
proof (induction "length buf" arbitrary: buf acc rule: less_induct)
  case less
  consider "buf = []" | "buf \<noteq> []" "length buf < 16" | "16 \<le> length buf" by linarith
  then show ?case
  proof cases
    case 1
    then show ?thesis using less(2) by (subst (1 2) poly1305_loop.simps) (simp add: blocks16.simps)
  next
    case 2
    let ?b = "buf @ replicate (16 - length buf) 0"
    have l: "length ?b = 16" using 2 by simp
    have "blocks16 (pad16 buf) = [?b]" using 2 l by (simp add: pad16_short blocks16.simps)
    moreover have "poly1305_loop r buf acc = poly_pass r ?b acc" using 2 by (subst poly1305_loop.simps) simp
    ultimately show ?thesis using poly_pass_step(1) [OF less(2) assms(2) l] poly_pass_mod [OF less(2) assms(2) l]
        mod_mod_trivial [of _ P1305]
      by (simp only: fold.simps comp_def id_apply) (metis mod_mod_trivial)
  next
    case 3
    let ?b = "take 16 buf"
    have l: "length ?b = 16" using 3 by simp
    have ne: "buf \<noteq> []" using 3 by auto
    have d: "br_dec32le buf = br_dec32le ?b" "br_dec32le (drop 3 buf) = br_dec32le (drop 3 ?b)"
      "br_dec32le (drop 6 buf) = br_dec32le (drop 6 ?b)" "br_dec32le (drop 9 buf) = br_dec32le (drop 9 ?b)"
      "br_dec32le (drop 12 buf) = br_dec32le (drop 12 ?b)"
      using 3 by (simp_all add: br_dec32le_def)
    have pass: "poly_pass r buf acc = poly_pass r ?b acc" unfolding poly_pass_def d ..
    have ok: "limbs_ok (poly_pass r ?b acc)" by (rule poly_pass_step(1) [OF less(2) assms(2) l])
    have eq: "poly1305_loop r buf acc = poly1305_loop r (drop 16 buf) (poly_pass r ?b acc)"
      using 3 ne by (subst poly1305_loop.simps) (simp add: pass)
    have "blocks16 (pad16 buf) = ?b # blocks16 (pad16 (drop 16 buf))"
      unfolding pad16_long [OF 3] using ne 3 by (subst blocks16.simps) simp
    then have "fold (poly_step (rv r)) (blocks16 (pad16 buf)) (lv acc) mod P1305
        = fold (poly_step (rv r)) (blocks16 (pad16 (drop 16 buf))) (lv (poly_pass r ?b acc)) mod P1305"
      using poly_pass_mod [OF less(2) assms(2) l] fold_step_mod [of "rv r" _ "lv (poly_pass r ?b acc)"] by simp
    moreover have "length (drop 16 buf) < length buf" using 3 by simp
    ultimately show ?thesis using less(1) [OF _ ok, of "drop 16 buf"] unfolding eq by simp
  qed
qed

subsection \<open>The final reduction\<close>

lemma list5: "length xs = 5 \<Longrightarrow> xs = [xs ! 0, xs ! 1, xs ! 2, xs ! 3, xs ! 4]"
  by (auto simp: numeral_eq_Suc length_Suc_conv)

text \<open>Carrying a bit into a limb.\<close>

lemma carry_limb:
  assumes "unat (a :: u32) \<le> 2 ^ 26 + 63" "unat c \<le> 1"
  shows "unat (drop_bit 26 (a + c)) \<le> 1"
    "unat ((a + c) AND 0x03FFFFFF) + 2 ^ 26 * unat (drop_bit 26 (a + c)) = unat a + unat c"
    "unat ((a + c) AND 0x03FFFFFF) < 2 ^ 26"
proof -
  have s: "unat (a + c) = unat a + unat c" using assms by (intro unat_plus_small [of _ _ "2 ^ 26 + 64"]) simp_all
  show "unat (drop_bit 26 (a + c)) \<le> 1" unfolding unat_drop s unfolding drop_bit_eq_div using assms by simp
  show "unat ((a + c) AND 0x03FFFFFF) + 2 ^ 26 * unat (drop_bit 26 (a + c)) = unat a + unat c"
    unfolding unat_drop unat_mask26 s by (rule split_limb [symmetric])
  show "unat ((a + c) AND 0x03FFFFFF) < 2 ^ 26" unfolding unat_mask26 by (rule take26)
qed

definition limbs26 :: "u32 list \<Rightarrow> bool" where
  "limbs26 acc \<longleftrightarrow> length acc = 5 \<and> (\<forall>x \<in> set acc. unat x < 2 ^ 26)"

text \<open>A value from \<open>2\<^sup>1\<^sup>3\<^sup>0\<close> on comes back as its excess plus 1, not plus 5.\<close>

lemma final_carry_value:
  assumes "limbs_ok (a0, a1, a2, a3, a4)"
  defines "acc \<equiv> final_carry [a0, a1, a2, a3, a4]" and "V \<equiv> lv (a0, a1, a2, a3, a4)"
  shows "limbs26 acc \<and> rv acc = (if V < 2 ^ 130 then V else V - 2 ^ 130 + 1)"
proof -
  have lim: "unat a0 < 2 ^ 26" "unat a1 < 2 ^ 26 + 64" "unat a2 < 2 ^ 26" "unat a3 < 2 ^ 26" "unat a4 < 2 ^ 26"
    using assms(1) by (simp_all add: limbs_ok_def)
  define m1 k1 where 1: "m1 = a1 AND 0x03FFFFFF" "k1 = drop_bit 26 a1"
  define m2 k2 where 2: "m2 = (a2 + k1) AND 0x03FFFFFF" "k2 = drop_bit 26 (a2 + k1)"
  define m3 k3 where 3: "m3 = (a3 + k2) AND 0x03FFFFFF" "k3 = drop_bit 26 (a3 + k2)"
  define m4 k4 where 4: "m4 = (a4 + k3) AND 0x03FFFFFF" "k4 = drop_bit 26 (a4 + k3)"
  define m0 k5 where 5: "m0 = (a0 + k4) AND 0x03FFFFFF" "k5 = drop_bit 26 (a0 + k4)"
  define n1 where 6: "n1 = (m1 + k5) AND 0x03FFFFFF"
  have u: "[1..<7] = [1, 2, 3, 4, 5, 6 :: nat]" by (simp add: upt_rec)
  have acc: "acc = [m0, n1, m2, m3, m4]"
    unfolding acc_def final_carry_def u by (simp add: Let_def 1 2 3 4 5 6)
  have c1: "unat k1 \<le> 1" "unat m1 + 2 ^ 26 * unat k1 = unat a1" "unat m1 < 2 ^ 26"
    using carry_limb [of a1 0] lim(2) by (simp_all add: 1)
  have c2: "unat k2 \<le> 1" "unat m2 + 2 ^ 26 * unat k2 = unat a2 + unat k1" "unat m2 < 2 ^ 26"
    using carry_limb [of a2 k1] lim(3) c1(1) by (simp_all add: 2)
  have c3: "unat k3 \<le> 1" "unat m3 + 2 ^ 26 * unat k3 = unat a3 + unat k2" "unat m3 < 2 ^ 26"
    using carry_limb [of a3 k2] lim(4) c2(1) by (simp_all add: 3)
  have c4: "unat k4 \<le> 1" "unat m4 + 2 ^ 26 * unat k4 = unat a4 + unat k3" "unat m4 < 2 ^ 26"
    using carry_limb [of a4 k3] lim(5) c3(1) by (simp_all add: 4)
  have c5: "unat k5 \<le> 1" "unat m0 + 2 ^ 26 * unat k5 = unat a0 + unat k4" "unat m0 < 2 ^ 26"
    using carry_limb [of a0 k4] lim(1) c4(1) by (simp_all add: 5)
  have no: "unat k5 = 0 \<or> unat m1 < 64"
  proof (cases "unat k5 = 0")
    case False
    have "unat k4 = 1" using c5(1,2,3) lim(1) c4(1) False by (cases "unat k4") auto
    then have "unat k3 = 1" using c4(2) lim(5) c3(1) by (cases "unat k3") auto
    then have "unat k2 = 1" using c3(2) lim(4) c2(1) by (cases "unat k2") auto
    then have "unat k1 = 1" using c2(2) lim(3) c1(1) by (cases "unat k1") auto
    then show ?thesis using c1(2) lim(2) by simp
  qed simp
  have "unat (m1 + k5) = unat m1 + unat k5" using c1(3) c5(1) by (intro unat_plus_small [of _ _ "2 ^ 26"]) simp_all
  moreover have "unat m1 + unat k5 < 2 ^ 26" using no c1(3) c5(1) by auto
  ultimately have n1: "unat n1 = unat m1 + unat k5" "unat n1 < 2 ^ 26"
    unfolding 6 unat_mask26 by (simp add: take_bit_nat_eq_self_iff, intro take26)
  have ok: "limbs26 acc" unfolding limbs26_def acc using c5(3) n1(2) c2(3) c3(3) c4(3) by simp
  have B: "(2 ^ 26 :: nat) ^ 5 = 2 ^ 130" by simp
  have v: "rv acc + (2 ^ 26) ^ 5 * unat k4 = V + unat k4"
    using carry_around(2) [OF c1(2) c2(2) c3(2) c4(2) c5(2)] unfolding rv_def lv_def V_def acc prod.case by (simp add: n1(1))
  have less: "rv acc < 2 ^ 130"
    using limbs_less [OF c5(3) n1(2) c2(3) c3(3) c4(3)] unfolding rv_def lv_def acc prod.case B by simp
  show ?thesis
  proof (cases "unat k4 = 0")
    case True
    then show ?thesis using ok v less by simp
  next
    case False
    then have "unat k4 = 1" using c4(1) by simp
    then have "rv acc + 2 ^ 130 = V + 1" using v unfolding B by simp
    moreover have "V = unat a0 + 2 ^ 26 * unat m1 + (2 ^ 26)^2 * unat m2 + (2 ^ 26)^3 * unat m3 + (2 ^ 26)^4 * unat m4 + 2 ^ 130"
      using carry_around(1) [OF c1(2) c2(2) c3(2) c4(2), of "unat a0"] \<open>unat k4 = 1\<close> unfolding V_def lv_def prod.case by simp
    then have "2 ^ 130 \<le> V" by simp
    ultimately show ?thesis using ok by simp
  qed
qed

text \<open>The selection is the remainder modulo the prime.\<close>

lemma word_eq_mask26: "unat (x :: u32) < 2 ^ 26 \<Longrightarrow> (x = 0x03FFFFFF) = (unat x = 67108863)"
  by (simp add: word_unat_eq_iff)

lemma final_select_value:
  assumes "limbs26 acc"
  shows "limbs26 (final_select acc) \<and> rv (final_select acc) = rv acc mod P1305"
proof -
  obtain a0 a1 a2 a3 a4 where acc: "acc = [a0, a1, a2, a3, a4]"
    using list5 [of acc] assms by (auto simp: limbs26_def)
  have lim: "unat a0 < 2 ^ 26" "unat a1 < 2 ^ 26" "unat a2 < 2 ^ 26" "unat a3 < 2 ^ 26" "unat a4 < 2 ^ 26"
    using assms by (simp_all add: acc limbs26_def)
  define big where "big \<longleftrightarrow> 0x03FFFFFA < a0 \<and> a1 = 0x03FFFFFF \<and> a2 = 0x03FFFFFF \<and> a3 = 0x03FFFFFF \<and> a4 = 0x03FFFFFF"
  have u: "[1..<5] = [1, 2, 3, 4 :: nat]" "[0..<5] = [0, 1, 2, 3, 4 :: nat]" by (simp_all add: upt_rec)
  have ctl: "fold (\<lambda>i ctl. ctl AND EQ (acc ! i) 0x03FFFFFF) [1..<5] (GT (acc ! 0) 0x03FFFFFA) = of_bool big"
    unfolding u acc big_def by (simp add: ct_specs)
  have sel: "final_select acc = fst (fold (\<lambda>i (acc, cc). let t = acc ! i + cc in
      (acc[i := if big then t AND 0x03FFFFFF else acc ! i], drop_bit 26 t)) [0..<5] (acc, 5))"
    unfolding final_select_def Let_def ctl MUX_of_bool ..
  show ?thesis
  proof (cases big)
    case False
    have "final_select acc = acc" unfolding sel unfolding u acc using False by (simp add: Let_def)
    moreover have "rv acc < P1305"
    proof (rule ccontr)
      assume "\<not> rv acc < P1305"
      then have ge: "P1305 \<le> unat a0 + 2 ^ 26 * unat a1 + (2 ^ 26)^2 * unat a2 + (2 ^ 26)^3 * unat a3 + (2 ^ 26)^4 * unat a4"
        by (simp add: rv_def lv_def acc)
      have "unat a4 = 67108863" "unat a3 = 67108863" "unat a2 = 67108863" "unat a1 = 67108863" "67108859 \<le> unat a0"
        using ge lim unfolding P1305_def by simp_all
      then show False using False lim by (simp add: big_def word_eq_mask26 word_less_nat_alt)
    qed
    ultimately show ?thesis using assms by simp
  next
    case True
    then have a: "a1 = 0x03FFFFFF" "a2 = 0x03FFFFFF" "a3 = 0x03FFFFFF" "a4 = 0x03FFFFFF" "0x03FFFFFA < a0"
      by (simp_all add: big_def)
    have a0: "67108859 \<le> unat a0" using a(5) by (simp add: word_less_nat_alt)
    have s: "unat (a0 + 5) = unat a0 + 5" using lim(1) unat_plus_small [of a0 5 "2 ^ 26 + 5"] by simp
    have d: "drop_bit 26 (a0 + 5) = 1"
      unfolding word_unat_eq_iff unat_drop s unfolding drop_bit_eq_div using a0 lim(1) by (simp add: div_nat_eqI)
    have m: "unat ((a0 + 5) AND 0x03FFFFFF) = unat a0 + 5 - 2 ^ 26"
      unfolding unat_mask26 s unfolding take_bit_eq_mod using a0 lim(1) by (simp add: le_mod_geq)
    have sel: "final_select acc = [(a0 + 5) AND 0x03FFFFFF, 0, 0, 0, 0]"
      unfolding sel unfolding u acc using True by (simp add: Let_def a(1-4) d)
    have "rv acc = P1305 + (unat a0 + 5 - 2 ^ 26)"
      unfolding rv_def lv_def acc P1305_def using a0 by (simp add: a(1-4))
    moreover have "unat a0 + 5 - 2 ^ 26 < P1305" using lim(1) by (simp add: P1305_def)
    ultimately have "rv (final_select acc) = rv acc mod P1305"
      unfolding sel rv_def lv_def by (simp add: m)
    moreover have "limbs26 (final_select acc)" unfolding sel limbs26_def using m lim(1) by simp
    ultimately show ?thesis by blast
  qed
qed

subsection \<open>The tag\<close>

lemma length_le_bytes [simp]: "length (le_bytes k n) = k"
  by (induction k arbitrary: n) simp_all

lemma le_bytes_split: "le_bytes (j + k) n = le_bytes j n @ le_bytes k (n div 256 ^ j)"
  by (induction j arbitrary: n) (simp_all add: div_mult2_eq)

lemma le_bytes_nth: "i < k \<Longrightarrow> le_bytes k n ! i = of_nat (drop_bit (8 * i) n)"
proof (induction k arbitrary: i n)
  case (Suc k)
  then show ?case
    by (cases i) (simp_all add: drop_bit_eq_div power_add div_mult2_eq)
qed simp

lemma le_bytes_cong: "take_bit (8 * k) m = take_bit (8 * k) n \<Longrightarrow> le_bytes k m = le_bytes k n"
proof (rule nth_equalityI; simp add: le_bytes_nth)
  fix i assume eq: "take_bit (8 * k) m = take_bit (8 * k) n" and i: "i < k"
  show "(of_nat (drop_bit (8 * i) m) :: u8) = of_nat (drop_bit (8 * i) n)"
  proof (rule bit_word_eqI)
    fix j assume "j < LENGTH(8)"
    then have "8 * i + j < 8 * k" using i by simp
    then have "bit m (8 * i + j) = bit n (8 * i + j)"
      using arg_cong [OF eq, of "\<lambda>x. bit x (8 * i + j)"] by (simp add: bit_simps)
    then show "bit (of_nat (drop_bit (8 * i) m) :: u8) j = bit (of_nat (drop_bit (8 * i) n) :: u8) j"
      by (simp add: bit_simps)
  qed
qed

lemma enc32le_bytes: "br_enc32le x = le_bytes 4 (unat x)"
proof (rule nth_equalityI)
  fix i assume "i < length (br_enc32le x)"
  then have "i = 0 \<or> i = 1 \<or> i = 2 \<or> i = 3" by (simp add: br_enc32le_def) linarith
  then show "br_enc32le x ! i = le_bytes 4 (unat x) ! i"
    by (auto simp: br_enc32le_def le_bytes_nth simp flip: unat_drop)
qed (simp add: br_enc32le_def)

lemma enc64le_bytes: "br_enc64le (of_nat n) = le_bytes 8 n"
proof -
  let ?w = "of_nat n :: u64"
  have "br_enc32le (ucast ?w) = le_bytes 4 n"
    unfolding enc32le_bytes by (rule le_bytes_cong) (simp add: unsigned_ucast_eq unsigned_of_nat take_bit_take_bit)
  moreover have "br_enc32le (ucast (drop_bit 32 ?w)) = le_bytes 4 (n div 256 ^ 4)"
    unfolding enc32le_bytes
  proof (rule le_bytes_cong)
    have "unat (ucast (drop_bit 32 ?w) :: u32) = take_bit 32 (drop_bit 32 (take_bit 64 n))"
      by (simp add: unsigned_ucast_eq unat_drop unsigned_of_nat)
    also have "\<dots> = take_bit 32 (drop_bit 32 n)" by (rule bit_eqI) (auto simp: bit_simps)
    finally show "take_bit (8 * 4) (unat (ucast (drop_bit 32 ?w) :: u32)) = take_bit (8 * 4) (n div 256 ^ 4)"
      by (simp add: drop_bit_eq_div take_bit_take_bit)
  qed
  ultimately show ?thesis
    unfolding br_enc64le_def using le_bytes_split [of 4 4 n] by simp
qed

lemma low32: "br_enc32le (ucast (w :: u64)) = le_bytes 4 (unat w)"
  unfolding enc32le_bytes by (rule le_bytes_cong) (simp add: unsigned_ucast_eq take_bit_take_bit)

lemma unat_push_ucast:
  assumes "unat x * 2 ^ n < 2 ^ 64"
  shows "unat (push_bit n (ucast (x :: u32) :: u64)) = 2 ^ n * unat x"
proof -
  have "unat (push_bit n (ucast x :: u64)) = take_bit LENGTH(64) (push_bit n (unat x))"
    by (simp only: unsigned_push_bit_eq unat_up)
  also have "\<dots> = unat x * 2 ^ n"
    using assms by (simp add: push_bit_eq_mult take_bit_nat_eq_self_iff)
  finally show ?thesis by (simp add: mult.commute)
qed

lemma le_bytes_add: "le_bytes k (n + 256 ^ k * m) = le_bytes k n"
proof (rule le_bytes_cong)
  have "(256 :: nat) ^ k = 2 ^ (8 * k)" by (simp add: power_mult)
  then show "take_bit (8 * k) (n + 256 ^ k * m) = take_bit (8 * k) n" by (simp add: take_bit_eq_mod)
qed

text \<open>Four digits in base \<open>2\<^sup>3\<^sup>2\<close>, each with the carry of the one before.\<close>

lemma le_bytes_digits:
  "le_bytes 16 (n0 + 2 ^ 32 * n1 + 2 ^ 64 * n2 + 2 ^ 96 * n3) =
    (let d0 = n0; d1 = d0 div 2 ^ 32 + n1; d2 = d1 div 2 ^ 32 + n2; d3 = d2 div 2 ^ 32 + n3
     in le_bytes 4 d0 @ le_bytes 4 d1 @ le_bytes 4 d2 @ le_bytes 4 d3)"
proof -
  have step: "le_bytes (4 + k) (n + 2 ^ 32 * m) = le_bytes 4 n @ le_bytes k (n div 2 ^ 32 + m)" for k n m
    using le_bytes_add [of 4 n m] by (simp add: le_bytes_split [of 4 k] add.commute [of m])
  have step': "le_bytes (4 + k) (x + (n + 2 ^ 32 * m)) = le_bytes 4 (x + n) @ le_bytes k ((x + n) div 2 ^ 32 + m)" for k x n m
    using step [of k "x + n" m] by (simp only: add.assoc)
  have "n0 + 2 ^ 32 * n1 + 2 ^ 64 * n2 + 2 ^ 96 * n3 = n0 + 2 ^ 32 * (n1 + 2 ^ 32 * (n2 + 2 ^ 32 * n3))" by simp
  then have "le_bytes (4 + (4 + (4 + 4))) (n0 + 2 ^ 32 * n1 + 2 ^ 64 * n2 + 2 ^ 96 * n3) =
      le_bytes 4 n0 @ le_bytes 4 (n0 div 2 ^ 32 + n1) @ le_bytes 4 ((n0 div 2 ^ 32 + n1) div 2 ^ 32 + n2)
      @ le_bytes 4 (((n0 div 2 ^ 32 + n1) div 2 ^ 32 + n2) div 2 ^ 32 + n3)"
    by (simp only: step step')
  then show ?thesis by (simp add: Let_def)
qed

lemma le_num_words:
  assumes "length b = 16"
  shows "le_num b = unat (br_dec32le b) + 2 ^ 32 * unat (br_dec32le (drop 4 b)) + 2 ^ 64 * unat (br_dec32le (drop 8 b))
    + 2 ^ 96 * unat (br_dec32le (drop 12 b))"
proof -
  let ?n = "le_num b"
  have w: "unat (br_dec32le b) = take_bit 32 ?n" "unat (br_dec32le (drop 4 b)) = take_bit 32 (drop_bit 32 ?n)"
      "unat (br_dec32le (drop 8 b)) = take_bit 32 (drop_bit 64 ?n)" "unat (br_dec32le (drop 12 b)) = take_bit 32 (drop_bit 96 ?n)"
    using assms unat_dec32le [of 0 b] unat_dec32le [of 4 b] unat_dec32le [of 8 b] unat_dec32le [of 12 b] by simp_all
  have s: "n = take_bit 32 n + 2 ^ 32 * drop_bit 32 n" for n :: nat
    using bits_ident [of 32 n] by (simp add: push_bit_eq_mult mult.commute add.commute)
  have "drop_bit 128 ?n = 0" using le_num_bound [of b] assms by (simp add: drop_bit_eq_div)
  then show ?thesis
    using s [of ?n] s [of "drop_bit 32 ?n"] s [of "drop_bit 64 ?n"] s [of "drop_bit 96 ?n"] unfolding w by (simp add: drop_bit_drop_bit)
qed

lemma make_tag_value:
  assumes "limbs26 acc" "32 \<le> length pkey"
  shows "make_tag acc pkey = le_bytes 16 (rv acc + le_num (drop 16 (take 32 pkey)))"
proof -
  obtain a0 a1 a2 a3 a4 where acc: "acc = [a0, a1, a2, a3, a4]"
    using list5 [of acc] assms(1) by (auto simp: limbs26_def)
  have lim: "unat a0 < 2 ^ 26" "unat a1 < 2 ^ 26" "unat a2 < 2 ^ 26" "unat a3 < 2 ^ 26" "unat a4 < 2 ^ 26"
    using assms(1) by (simp_all add: acc limbs26_def)
  define s0 s1 s2 s3 where s: "s0 = br_dec32le (drop 16 pkey)" "s1 = br_dec32le (drop 20 pkey)" "s2 = br_dec32le (drop 24 pkey)"
    "s3 = br_dec32le (drop 28 pkey)"
  have sb: "unat x < 2 ^ 32" for x :: u32 using unsigned_less [of x] by simp
  define w0 :: u64 where "w0 = ucast a0 + push_bit 26 (ucast a1) + ucast s0"
  define w1 :: u64 where "w1 = drop_bit 32 w0 + push_bit 20 (ucast a2) + ucast s1"
  define w2 :: u64 where "w2 = drop_bit 32 w1 + push_bit 14 (ucast a3) + ucast s2"
  define hi :: u32 where "hi = ucast (drop_bit 32 w2) + push_bit 8 a4 + s3"
  have tag: "make_tag acc pkey = le_bytes 4 (unat w0) @ le_bytes 4 (unat w1) @ le_bytes 4 (unat w2) @ br_enc32le hi"
    by (simp add: make_tag_def Let_def acc low32 w0_def w1_def w2_def hi_def s)
  have dr: "unat (drop_bit 32 w) < 2 ^ 32" "unat (drop_bit 32 w) = unat w div 2 ^ 32" for w :: u64
  proof -
    have "unat w < 2 ^ LENGTH(64)" by (rule unsigned_less)
    then show "unat (drop_bit 32 w) < 2 ^ 32" "unat (drop_bit 32 w) = unat w div 2 ^ 32"
      unfolding unat_drop unfolding drop_bit_eq_div by (simp_all add: less_mult_imp_div_less)
  qed
  have add3: "unat (x + y + z) = unat x + unat y + unat z" if "unat x < 2 ^ 62" "unat y < 2 ^ 62" "unat z < 2 ^ 62" for x y z :: u64
    using that unat_plus_small [of x y "2 ^ 63"] unat_plus_small [of "x + y" z "3 * 2 ^ 62"] by simp
  have p: "unat (push_bit 26 (ucast a1 :: u64)) = 2 ^ 26 * unat a1" "unat (push_bit 20 (ucast a2 :: u64)) = 2 ^ 20 * unat a2"
      "unat (push_bit 14 (ucast a3 :: u64)) = 2 ^ 14 * unat a3"
    using lim by (simp_all add: unat_push_ucast)
  have u0: "unat w0 = unat a0 + 2 ^ 26 * unat a1 + unat s0"
    unfolding w0_def using lim sb [of s0] by (subst add3) (simp_all add: unat_up p)
  have u1: "unat w1 = unat w0 div 2 ^ 32 + 2 ^ 20 * unat a2 + unat s1"
    unfolding w1_def using lim sb [of s1] dr(1) [of w0] by (subst add3) (simp_all add: unat_up p dr(2))
  have u2: "unat w2 = unat w1 div 2 ^ 32 + 2 ^ 14 * unat a3 + unat s2"
    unfolding w2_def using lim sb [of s2] dr(1) [of w1] by (subst add3) (simp_all add: unat_up p dr(2))
  have "hi = of_nat (unat w2 div 2 ^ 32 + 2 ^ 8 * unat a4 + unat s3)"
  proof -
    have "ucast (drop_bit 32 w2) = (of_nat (unat w2 div 2 ^ 32) :: u32)" unfolding dr(2) [symmetric] by simp
    then show ?thesis unfolding hi_def by (simp add: push_bit_eq_mult mult.commute)
  qed
  then have "unat hi = take_bit 32 (unat w2 div 2 ^ 32 + 2 ^ 8 * unat a4 + unat s3)"
    by (simp only: unsigned_of_nat) simp
  then have h: "br_enc32le hi = le_bytes 4 (unat w2 div 2 ^ 32 + 2 ^ 8 * unat a4 + unat s3)"
    unfolding enc32le_bytes by (intro le_bytes_cong) (simp add: take_bit_take_bit)
  have "le_num (drop 16 (take 32 pkey)) = unat s0 + 2 ^ 32 * unat s1 + 2 ^ 64 * unat s2 + 2 ^ 96 * unat s3"
    using le_num_words [of "drop 16 (take 32 pkey)"] assms(2) unfolding s by (simp add: br_dec32le_def)
  then have n: "rv acc + le_num (drop 16 (take 32 pkey)) = (unat a0 + 2 ^ 26 * unat a1 + unat s0) + 2 ^ 32 * (2 ^ 20 * unat a2 + unat s1)
      + 2 ^ 64 * (2 ^ 14 * unat a3 + unat s2) + 2 ^ 96 * (2 ^ 8 * unat a4 + unat s3)"
    by (simp add: rv_def lv_def acc)
  show ?thesis
    unfolding tag n le_bytes_digits Let_def h u0 [symmetric] add.assoc [symmetric] u1 [symmetric] u2 [symmetric] ..
qed

subsection \<open>The key\<close>

lemma clamp_limb:
  assumes "j + 26 \<le> 32"
  shows "drop_bit j (take_bit 32 (drop_bit k n)) AND take_bit 26 m = take_bit 26 (drop_bit (k + j) n AND (m :: nat))"
  using assms by (intro bit_eqI) (auto simp: bit_simps ac_simps)

lemma poly_r_value:
  assumes "16 \<le> length pkey"
  shows "r_ok (poly_r pkey)" "rv (poly_r pkey) = clamp (le_num (take 16 pkey))"
proof -
  let ?n = "le_num (take 16 pkey)" and ?C = "0x0FFFFFFC0FFFFFFC0FFFFFFC0FFFFFFF :: nat"
  have d: "br_dec32le (drop k pkey) = br_dec32le (drop k (take 16 pkey))" if "k \<le> 12" for k
    using that assms by (simp add: br_dec32le_def)
  have w: "unat (br_dec32le (drop k pkey)) = take_bit 32 (drop_bit (8 * k) ?n)" if "k \<le> 12" for k
    unfolding d [OF that] using that assms by (intro unat_dec32le) simp
  have top: "?n < 2 ^ 128" using le_num_bound [of "take 16 pkey"] assms by simp
  have m: "take_bit 26 ?C = 0x03FFFFFF" "take_bit 26 (drop_bit 26 ?C) = 0x03FFFF03" "take_bit 26 (drop_bit 52 ?C) = 0x03FFC0FF"
      "take_bit 26 (drop_bit 78 ?C) = 0x03F03FFF" "drop_bit 104 ?C = 0x000FFFFF"
    by (simp_all add: take_bit_eq_mod drop_bit_eq_div)
  have a: "unat (x AND 0x03FFFFFF) = unat x AND 0x03FFFFFF" "unat (x AND 0x03FFFF03) = unat x AND 0x03FFFF03"
      "unat (x AND 0x03FFC0FF) = unat x AND 0x03FFC0FF" "unat (x AND 0x03F03FFF) = unat x AND 0x03F03FFF"
      "unat (x AND 0x000FFFFF) = unat x AND 0x000FFFFF" for x :: u32
    by (simp_all add: unsigned_and_eq)
  have 0: "unat (poly_r pkey ! 0) = take_bit 26 (clamp ?n)"
    using clamp_limb [of 0 0 ?n ?C] w [of 0] by (simp add: poly_r_def a m clamp_def)
  have 1: "unat (poly_r pkey ! 1) = take_bit 26 (drop_bit 26 (clamp ?n))"
    using clamp_limb [of 2 24 ?n "drop_bit 26 ?C"] w [of 3] unfolding m by (simp add: poly_r_def a clamp_def unat_drop)
  have 2: "unat (poly_r pkey ! 2) = take_bit 26 (drop_bit 52 (clamp ?n))"
    using clamp_limb [of 4 48 ?n "drop_bit 52 ?C"] w [of 6] unfolding m by (simp add: poly_r_def a clamp_def unat_drop)
  have 3: "unat (poly_r pkey ! 3) = take_bit 26 (drop_bit 78 (clamp ?n))"
    using clamp_limb [of 6 72 ?n "drop_bit 78 ?C"] w [of 9] unfolding m by (simp add: poly_r_def a clamp_def unat_drop)
  have h: "drop_bit 8 (take_bit 32 (drop_bit 96 ?n)) = drop_bit 104 ?n"
  proof (rule bit_eqI)
    have b: "\<not> bit ?n (104 + i)" if "24 \<le> i" for i
    proof -
      have "16 \<le> (104 + i) div 8" using that by (simp add: less_eq_div_iff_mult_less_eq)
      then show ?thesis by (simp add: bit_le_num)
    qed
    show "bit (drop_bit 8 (take_bit 32 (drop_bit 96 ?n))) i = bit (drop_bit 104 ?n) i" for i
      using b [of i] by (cases "i < 24") (auto simp: bit_simps)
  qed
  have m4: "(0x000FFFFF :: nat) = mask 20" by (simp add: mask_eq_exp_minus_1)
  have c4: "drop_bit 104 (clamp ?n) = take_bit 20 (drop_bit 104 ?n)"
    unfolding clamp_def drop_bit_and m(5) unfolding m4 by (simp only: take_bit_eq_mask)
  have "unat (poly_r pkey ! 4) = drop_bit 8 (take_bit 32 (drop_bit 96 ?n)) AND 0x000FFFFF"
    using w [of 12] by (simp add: poly_r_def a unat_drop)
  then have "unat (poly_r pkey ! 4) = drop_bit 104 (clamp ?n)"
    unfolding c4 h m4 by (simp only: take_bit_eq_mask)
  moreover have "drop_bit 104 (clamp ?n) < 2 ^ 26"
    unfolding c4 by (rule less_le_trans [OF take_bit_nat_less_exp]) simp
  ultimately have 4: "unat (poly_r pkey ! 4) = drop_bit 104 (clamp ?n)" "unat (poly_r pkey ! 4) < 2 ^ 26"
    by simp_all
  have l: "poly_r pkey = [poly_r pkey ! 0, poly_r pkey ! 1, poly_r pkey ! 2, poly_r pkey ! 3, poly_r pkey ! 4]"
    by (simp add: poly_r_def)
  have "unat (poly_r pkey ! i) < 2 ^ 26" if "i < 5" for i
  proof -
    have "i = 0 \<or> i = 1 \<or> i = 2 \<or> i = 3 \<or> i = 4" using that by linarith
    then show ?thesis using 0 1 2 3 4(2) take26 by (auto simp del: One_nat_def)
  qed
  moreover have "length (poly_r pkey) = 5" by (simp add: poly_r_def)
  ultimately show "r_ok (poly_r pkey)" unfolding r_ok_def all_set_conv_all_nth by auto
  show "rv (poly_r pkey) = clamp ?n"
    unfolding rv_def lv_def prod.case 0 1 2 3 4(1) by (rule limbs_sum [symmetric])
qed

subsection \<open>The whole function\<close>

text \<open>The accumulator after the whole message, and the tag made of it.\<close>

definition limb_list :: "u32 \<times> u32 \<times> u32 \<times> u32 \<times> u32 \<Rightarrow> u32 list" where
  "limb_list = (\<lambda>(a0, a1, a2, a3, a4). [a0, a1, a2, a3, a4])"

lemma inner_limbs: "poly1305_inner (limb_list l) r data = limb_list (poly1305_loop r data l)"
  by (simp add: poly1305_inner_def limb_list_def case_prod_unfold Let_def)

lemma fold_step_less: "a < P1305 \<Longrightarrow> fold (poly_step r) bs a < P1305"
  by (induction bs arbitrary: a) (simp_all add: poly_step_def P1305_def)

lemma limbs_ok_less: "limbs_ok l \<Longrightarrow> lv l < 2 ^ 130 + 2 ^ 32"
proof -
  assume l: "limbs_ok l"
  obtain a0 a1 a2 a3 a4 where e: "l = (a0, a1, a2, a3, a4)" by (cases l)
  have b: "unat a0 < 2 ^ 26" "unat a1 - 64 < 2 ^ 26" "unat a2 < 2 ^ 26" "unat a3 < 2 ^ 26" "unat a4 < 2 ^ 26"
    using l by (auto simp: e limbs_ok_def)
  have "lv l \<le> (unat a0 + 2 ^ 26 * (unat a1 - 64) + (2 ^ 26)^2 * unat a2 + (2 ^ 26)^3 * unat a3 + (2 ^ 26)^4 * unat a4) + 2 ^ 32"
    unfolding e lv_def prod.case by simp
  also have "\<dots> < (2 ^ 26) ^ 5 + 2 ^ 32" using limbs_less [OF b] by (simp only: add_less_cancel_right)
  finally show ?thesis by simp
qed

lemma run_tag:
  fixes pkey aad ct :: "u8 list"
  assumes "32 \<le> length pkey"
  defines "acc \<equiv> poly1305_inner (poly1305_inner (poly1305_inner (replicate 5 0) (poly_r pkey) aad) (poly_r pkey) ct) (poly_r pkey)
      (br_enc64le (of_nat (length aad)) @ br_enc64le (of_nat (length ct)))"
    and "n \<equiv> poly1305_residue pkey (aead_message aad ct)"
  shows "\<exists>V. V mod P1305 = n \<and> V < 2 ^ 130 + 2 ^ 32
    \<and> make_tag (final_select (final_carry acc)) pkey
      = le_bytes 16 ((if V < 2 ^ 130 then n else n - 4) + le_num (drop 16 (take 32 pkey)))"
proof -
  let ?r = "poly_r pkey"
  note r = poly_r_value [of pkey]
  have rk: "r_ok ?r" "rv ?r = clamp (le_num (take 16 pkey))" using r assms(1) by simp_all
  define l1 where "l1 = poly1305_loop ?r aad (0, 0, 0, 0, 0)"
  define l2 where "l2 = poly1305_loop ?r ct l1"
  define l3 where "l3 = poly1305_loop ?r (br_enc64le (of_nat (length aad)) @ br_enc64le (of_nat (length ct))) l2"
  have z: "limbs_ok (0, 0, 0, 0, 0)" "lv (0, 0, 0, 0, 0) = 0" by (simp_all add: limbs_ok_def lv_def)
  have s1: "limbs_ok l1" "lv l1 mod P1305 = fold (poly_step (rv ?r)) (blocks16 (pad16 aad)) 0 mod P1305"
    using poly1305_loop_mod [OF z(1) rk(1), of aad] unfolding l1_def z(2) by auto
  have s2: "limbs_ok l2" "lv l2 mod P1305 = fold (poly_step (rv ?r)) (blocks16 (pad16 ct)) (lv l1) mod P1305"
    using poly1305_loop_mod [OF s1(1) rk(1), of ct] unfolding l2_def by auto
  have f: "br_enc64le (of_nat (length aad)) @ br_enc64le (of_nat (length ct)) = le_bytes 8 (length aad) @ le_bytes 8 (length ct)"
    by (simp only: enc64le_bytes)
  have fp: "pad16 (le_bytes 8 (length aad) @ le_bytes 8 (length ct)) = le_bytes 8 (length aad) @ le_bytes 8 (length ct)"
    by (simp add: pad16_def)
  have s3: "limbs_ok l3" "lv l3 mod P1305 = fold (poly_step (rv ?r)) (blocks16 (le_bytes 8 (length aad) @ le_bytes 8 (length ct))) (lv l2) mod P1305"
    using poly1305_loop_mod [OF s2(1) rk(1), of "le_bytes 8 (length aad) @ le_bytes 8 (length ct)"] unfolding l3_def f fp by auto
  have "lv l3 mod P1305 = fold (poly_step (rv ?r)) (blocks16 (pad16 aad) @ blocks16 (pad16 ct)
      @ blocks16 (le_bytes 8 (length aad) @ le_bytes 8 (length ct))) 0 mod P1305"
    using s1(2) s2(2) s3(2) fold_step_mod [of "rv ?r"] unfolding fold_append comp_def by metis
  also have "\<dots> = fold (poly_step (rv ?r)) (blocks16 (aead_message aad ct)) 0 mod P1305"
    unfolding aead_message_def by (simp only: blocks16_append length_pad16)
  finally have v: "lv l3 mod P1305 = n"
    using fold_step_less [of 0] by (simp add: n_def poly1305_residue_def rk(2) P1305_def)
  obtain a0 a1 a2 a3 a4 where l3: "l3 = (a0, a1, a2, a3, a4)" by (cases l3)
  have acc: "acc = [a0, a1, a2, a3, a4]"
  proof -
    have "replicate 5 0 = limb_list (0, 0, 0, 0, 0)" by (simp add: limb_list_def numeral_eq_Suc)
    then have "acc = limb_list l3" unfolding acc_def by (simp only: inner_limbs l3_def l2_def l1_def)
    then show ?thesis by (simp add: l3 limb_list_def)
  qed
  let ?c = "final_carry [a0, a1, a2, a3, a4]"
  have c: "limbs26 ?c" "rv ?c = (if lv l3 < 2 ^ 130 then lv l3 else lv l3 - 2 ^ 130 + 1)"
    using final_carry_value [OF s3(1) [unfolded l3]] unfolding l3 by auto
  have s: "limbs26 (final_select ?c)" "rv (final_select ?c) = rv ?c mod P1305"
    using final_select_value [OF c(1)] by auto
  have b: "lv l3 < 2 ^ 130 + 2 ^ 32" by (rule limbs_ok_less [OF s3(1)])
  have "rv (final_select ?c) = (if lv l3 < 2 ^ 130 then n else n - 4)"
  proof (cases "lv l3 < 2 ^ 130")
    case True
    then show ?thesis using s(2) c(2) v by simp
  next
    case False
    then have "lv l3 mod P1305 = lv l3 - P1305" using b by (simp add: P1305_def le_mod_geq)
    then have "n = lv l3 - 2 ^ 130 + 5" using v False by (simp add: P1305_def)
    then show ?thesis using s(2) c(2) False b by (simp add: P1305_def)
  qed
  then show ?thesis using v b make_tag_value [OF s(1) assms(1)] unfolding acc by (intro exI [of _ "lv l3"]) simp
qed

subsection \<open>On ChaCha20\<close>

lemma one_time_key: "chacha20_encrypt key iv 0 (replicate 32 0) = take 32 (chacha20_block key iv 0)"
proof -
  have "chacha20_encrypt key iv 0 (replicate 32 0) = map (\<lambda>i. chacha20_block key iv 0 ! i) [0..<32]"
    unfolding chacha20_encrypt_def by (intro map_cong) (auto simp: keystream_def)
  also have "\<dots> = take 32 (chacha20_block key iv 0)" by (intro nth_equalityI) simp_all
  finally show ?thesis .
qed

text \<open>The tag is right unless the residue is one of the \<open>2\<^sup>3\<^sup>2 + 5\<close> least.\<close>

lemma ctmul_rfc8439:
  assumes "2 ^ 32 + 5 \<le> poly1305_residue (take 32 (chacha20_block key iv 0)) (aead_message aad (chacha20_encrypt key iv 1 data))"
  shows "br_poly1305_ctmul_run key iv data aad br_chacha20_ct_run True
      = (chacha20_encrypt key iv 1 data,
         poly1305_mac (take 32 (chacha20_block key iv 0)) (aead_message aad (chacha20_encrypt key iv 1 data)))
    \<and> br_poly1305_ctmul_run key iv (chacha20_encrypt key iv 1 data) aad br_chacha20_ct_run False
      = (data, poly1305_mac (take 32 (chacha20_block key iv 0)) (aead_message aad (chacha20_encrypt key iv 1 data)))"
proof -
  let ?k = "take 32 (chacha20_block key iv 0)" and ?ct = "chacha20_encrypt key iv 1 data"
  let ?m = "aead_message aad ?ct" and ?r = "poly_r ?k"
  let ?acc = "poly1305_inner (poly1305_inner (poly1305_inner (replicate 5 0) ?r aad) ?r ?ct) ?r
      (br_enc64le (of_nat (length aad)) @ br_enc64le (of_nat (length ?ct)))"
  have "32 \<le> length ?k" by simp
  from run_tag [OF this, of aad ?ct] obtain V where V: "V mod P1305 = poly1305_residue ?k ?m" "V < 2 ^ 130 + 2 ^ 32"
    "make_tag (final_select (final_carry ?acc)) ?k
      = le_bytes 16 ((if V < 2 ^ 130 then poly1305_residue ?k ?m else poly1305_residue ?k ?m - 4) + le_num (drop 16 (take 32 ?k)))"
    by blast
  have "V < 2 ^ 130"
  proof (rule ccontr)
    assume "\<not> V < 2 ^ 130"
    then have "V mod P1305 < 2 ^ 32 + 5" using V(2) by (simp add: P1305_def le_mod_geq)
    then show False using V(1) assms by simp
  qed
  then have t: "make_tag (final_select (final_carry ?acc)) ?k = poly1305_mac ?k ?m"
    unfolding V(3) poly1305_mac_def by simp
  show ?thesis
    unfolding br_poly1305_ctmul_run_def Let_def chacha20_ct_encrypt fst_conv one_time_key if_True if_False
      not_True_eq_False not_False_eq_True t chacha20_encrypt_twice by simp
qed

end
