(* ===== verification/PolyProps.thy ===== *)
theory PolyProps
  imports Poly1305
begin

section \<open>The tag of ChaCha20 and Poly1305\<close>

text \<open>
  \<^verbatim>\<open>br_poly1305_ctmul_run\<close> on \<^verbatim>\<open>br_chacha20_ct_run\<close> against RFC 8439: they agree when the residue of the
  polynomial is at least \<open>2\<^sup>3\<^sup>2 + 5\<close>, and there is a message below that bound for which they do not.  The loop
  \<open>Finalise modular reduction\<close> of the source propagates the carry of the top limb to the bottom one without the factor
  five, so that an accumulator of \<open>2\<^sup>1\<^sup>3\<^sup>0\<close> or more loses four.  The message is evaluated under
  the key and the nonce that are all zero, with ChaCha20 on natural numbers, which the simplifier computes quickly.
\<close>

subsection \<open>ChaCha20 on natural numbers\<close>

definition nadd :: "nat \<Rightarrow> nat \<Rightarrow> nat" where
  "nadd a b = (if a + b < 4294967296 then a + b else a + b - 4294967296)"

text \<open>A rotation by \<open>n\<close> bits, with \<open>m = 2 ^ (32 - n)\<close> and \<open>l = 2 ^ n\<close>.\<close>

definition nrot :: "nat \<Rightarrow> nat \<Rightarrow> nat \<Rightarrow> nat" where
  "nrot m l a = (let q = a div m in (a - q * m) * l + q)"

definition nquarter :: "nat \<Rightarrow> nat \<Rightarrow> nat \<Rightarrow> nat \<Rightarrow> nat \<times> nat \<times> nat \<times> nat" where
  "nquarter a b c d =
     (let a = nadd a b; d = nrot 65536 65536 (d XOR a);
          c = nadd c d; b = nrot 1048576 4096 (b XOR c);
          a = nadd a b; d = nrot 16777216 256 (d XOR a);
          c = nadd c d; b = nrot 33554432 128 (b XOR c)
      in (a, b, c, d))"

fun nput :: "nat \<times> nat \<times> nat \<times> nat \<Rightarrow> nat \<times> nat \<times> nat \<times> nat \<Rightarrow> nat list \<Rightarrow> nat list" where
  "nput (x, y, z, w) (a, b, c, d) s = s[x := a, y := b, z := c, w := d]"

fun on_nquarter :: "nat \<times> nat \<times> nat \<times> nat \<Rightarrow> nat list \<Rightarrow> nat list" where
  "on_nquarter (x, y, z, w) s = nput (x, y, z, w) (nquarter (s ! x) (s ! y) (s ! z) (s ! w)) s"

declare on_nquarter.simps [simp del]

definition nround :: "nat list \<Rightarrow> nat list" where
  "nround s = fold on_nquarter [(0, 4, 8, 12), (1, 5, 9, 13), (2, 6, 10, 14), (3, 7, 11, 15),
      (0, 5, 10, 15), (1, 6, 11, 12), (2, 7, 8, 13), (3, 4, 9, 14)] s"

lemmas nround_eval = nround_def on_nquarter.simps nquarter_def nadd_def nrot_def Let_def

lemma nround_0:
  "nround [0x61707865, 0x3320646E, 0x79622D32, 0x6B206574, 0x00000000, 0x00000000, 0x00000000, 0x00000000,
    0x00000000, 0x00000000, 0x00000000, 0x00000000, 0x00000000, 0x00000000, 0x00000000, 0x00000000]
  = [0xE45FD249, 0x1BB820A6, 0xE31A88EA, 0xE667A9FE, 0x2A3BF673, 0x86BF4098, 0x460B500A, 0xFA169886,
    0x538DCA0E, 0x0C439641, 0x00FA16BC, 0x8A08812A, 0x6BBF8B09, 0xC33013D6, 0xBB9F9849, 0x87C62165]"
  by (simp add: nround_eval cong: let_weak_cong)

lemma nround_1:
  "nround [0xE45FD249, 0x1BB820A6, 0xE31A88EA, 0xE667A9FE, 0x2A3BF673, 0x86BF4098, 0x460B500A, 0xFA169886,
    0x538DCA0E, 0x0C439641, 0x00FA16BC, 0x8A08812A, 0x6BBF8B09, 0xC33013D6, 0xBB9F9849, 0x87C62165]
  = [0xB20E0DA6, 0x21219E43, 0x79C69196, 0x8EB9D107, 0x28BFA54E, 0x0E8A389F, 0x7919A4B4, 0x323F2639,
    0x69727D19, 0x12E796EC, 0xD1875D88, 0x602BB1EC, 0x601C8A8D, 0x18CF3767, 0x60D10EBC, 0x17AA36CA]"
  by (simp add: nround_eval cong: let_weak_cong)

lemma nround_2:
  "nround [0xB20E0DA6, 0x21219E43, 0x79C69196, 0x8EB9D107, 0x28BFA54E, 0x0E8A389F, 0x7919A4B4, 0x323F2639,
    0x69727D19, 0x12E796EC, 0xD1875D88, 0x602BB1EC, 0x601C8A8D, 0x18CF3767, 0x60D10EBC, 0x17AA36CA]
  = [0x0287A2A1, 0xD2DC39EF, 0xF2ECF51E, 0xC3876AFE, 0x9276B821, 0x37CCB7A7, 0x1FE6C459, 0xE5F95617,
    0xD7B18523, 0xA0952FF2, 0x131F6FF5, 0x6F38A9CC, 0x5C427A5F, 0x1D928D7B, 0xF4D2B4DA, 0x1A640884]"
  by (simp add: nround_eval cong: let_weak_cong)

lemma nround_3:
  "nround [0x0287A2A1, 0xD2DC39EF, 0xF2ECF51E, 0xC3876AFE, 0x9276B821, 0x37CCB7A7, 0x1FE6C459, 0xE5F95617,
    0xD7B18523, 0xA0952FF2, 0x131F6FF5, 0x6F38A9CC, 0x5C427A5F, 0x1D928D7B, 0xF4D2B4DA, 0x1A640884]
  = [0xCE7E87D9, 0xA31FFB1B, 0x6F562E4D, 0x3684A3AB, 0xC30E842C, 0x3B7F9ACE, 0x88E11B18, 0x1E1A71EF,
    0x72E14C98, 0x416F21B9, 0x6753449F, 0x19566D45, 0xA3424A31, 0x01B086DA, 0xB8FD7B38, 0x42FE0C0E]"
  by (simp add: nround_eval cong: let_weak_cong)

lemma nround_4:
  "nround [0xCE7E87D9, 0xA31FFB1B, 0x6F562E4D, 0x3684A3AB, 0xC30E842C, 0x3B7F9ACE, 0x88E11B18, 0x1E1A71EF,
    0x72E14C98, 0x416F21B9, 0x6753449F, 0x19566D45, 0xA3424A31, 0x01B086DA, 0xB8FD7B38, 0x42FE0C0E]
  = [0x4E03490C, 0x97EEBEF9, 0xF682BB04, 0x2F47E3B0, 0x50B4761B, 0xEA7C9CF0, 0xB3A3E583, 0xE5BAD8A8,
    0x4F9F9D79, 0x44F52393, 0xABBFAF66, 0x5EFD347A, 0xB1F55CB5, 0x05110AED, 0x561C5907, 0xD41D25B4]"
  by (simp add: nround_eval cong: let_weak_cong)

lemma nround_5:
  "nround [0x4E03490C, 0x97EEBEF9, 0xF682BB04, 0x2F47E3B0, 0x50B4761B, 0xEA7C9CF0, 0xB3A3E583, 0xE5BAD8A8,
    0x4F9F9D79, 0x44F52393, 0xABBFAF66, 0x5EFD347A, 0xB1F55CB5, 0x05110AED, 0x561C5907, 0xD41D25B4]
  = [0x092A7C36, 0x20D8F099, 0x996BF24F, 0x6A62C0EB, 0xBBC32904, 0x1474E049, 0xA589007E, 0x5F15AE2E,
    0x79F86405, 0xC0E37AD2, 0x3428E82C, 0x798CFAAC, 0x2C9F623A, 0x1969DEA0, 0x2FE80B61, 0xBE261341]"
  by (simp add: nround_eval cong: let_weak_cong)

lemma nround_6:
  "nround [0x092A7C36, 0x20D8F099, 0x996BF24F, 0x6A62C0EB, 0xBBC32904, 0x1474E049, 0xA589007E, 0x5F15AE2E,
    0x79F86405, 0xC0E37AD2, 0x3428E82C, 0x798CFAAC, 0x2C9F623A, 0x1969DEA0, 0x2FE80B61, 0xBE261341]
  = [0x6DDF4B98, 0x5FDE0110, 0xD9DDB632, 0x7418250B, 0xDDA3EA19, 0x46DA35F5, 0x31FB36CA, 0x70E56323,
    0x46D58770, 0xC0C8E4E6, 0xBA4B1657, 0xC4702B5E, 0xAF4AD6E3, 0xE6947902, 0x2681E5BB, 0x28344E52]"
  by (simp add: nround_eval cong: let_weak_cong)

lemma nround_7:
  "nround [0x6DDF4B98, 0x5FDE0110, 0xD9DDB632, 0x7418250B, 0xDDA3EA19, 0x46DA35F5, 0x31FB36CA, 0x70E56323,
    0x46D58770, 0xC0C8E4E6, 0xBA4B1657, 0xC4702B5E, 0xAF4AD6E3, 0xE6947902, 0x2681E5BB, 0x28344E52]
  = [0xF6EB4385, 0x0F5070CF, 0x824AC4D4, 0xFF026184, 0x71DB97DD, 0x60CD994D, 0xAD805036, 0x89D591CE,
    0x9E5243F3, 0x16D0EE25, 0x82E92B96, 0xD0DA8654, 0x6B96A006, 0x477A37F7, 0xD244FA8C, 0xB24C5C63]"
  by (simp add: nround_eval cong: let_weak_cong)

lemma nround_8:
  "nround [0xF6EB4385, 0x0F5070CF, 0x824AC4D4, 0xFF026184, 0x71DB97DD, 0x60CD994D, 0xAD805036, 0x89D591CE,
    0x9E5243F3, 0x16D0EE25, 0x82E92B96, 0xD0DA8654, 0x6B96A006, 0x477A37F7, 0xD244FA8C, 0xB24C5C63]
  = [0x0A49D0BB, 0xFD73BFEB, 0xC24392D4, 0xE110766D, 0x7C188159, 0x390F8B4D, 0x0A23271F, 0x0E051682,
    0x5B48A341, 0x0861DFF7, 0x5D33CDBB, 0x17D4372D, 0xC5D89A0B, 0x9DF1402C, 0xB08AB5E0, 0x85488580]"
  by (simp add: nround_eval cong: let_weak_cong)

lemma nround_9:
  "nround [0x0A49D0BB, 0xFD73BFEB, 0xC24392D4, 0xE110766D, 0x7C188159, 0x390F8B4D, 0x0A23271F, 0x0E051682,
    0x5B48A341, 0x0861DFF7, 0x5D33CDBB, 0x17D4372D, 0xC5D89A0B, 0x9DF1402C, 0xB08AB5E0, 0x85488580]
  = [0x4C704011, 0x5D1D8D32, 0x6C08300E, 0xBD9D20DF, 0xB819D2BD, 0x1AED8DA0, 0xCCEF36A8, 0xC70D778B,
    0x7C5941DA, 0x8D485751, 0x3FE02477, 0x374AD8B8, 0xF4B8436A, 0x1CA11815, 0x69B687C3, 0x8665EEB2]"
  by (simp add: nround_eval cong: let_weak_cong)



subsection \<open>From naturals to words\<close>

abbreviation w32 :: "nat \<Rightarrow> u32" where "w32 \<equiv> of_nat"

lemma w32_wrap: "w32 4294967296 = 0" "(4294967296 :: u32) = 0"
  by (simp_all add: word_eq_iff_unsigned)

lemma nadd_word: "w32 (nadd a b) = w32 a + w32 b"
proof (cases "a + b < 4294967296")
  case False
  then have "w32 (a + b) = w32 (a + b - 4294967296) + w32 4294967296" by (simp flip: of_nat_add)
  then show ?thesis using False by (simp add: nadd_def w32_wrap)
qed (simp add: nadd_def)

lemma nadd_less: "a < 4294967296 \<Longrightarrow> b < 4294967296 \<Longrightarrow> nadd a b < 4294967296"
  by (simp add: nadd_def) linarith

lemma nrot_word:
  assumes "a < 4294967296" "0 < n" "n < 32" "m = 2 ^ (32 - n)" "l = 2 ^ n"
  shows "w32 (nrot m l a) = word_rotl n (w32 a)" "nrot m l a < 4294967296"
proof -
  have ml: "m * l = 4294967296" using assms by (simp flip: power_add)
  have m: "0 < m" using assms by simp
  have e: "nrot m l a = (a mod m) * l + a div m" by (simp add: nrot_def Let_def minus_div_mult_eq_mod)
  have q: "a div m < l" using assms(1) unfolding ml [symmetric] by (simp add: less_mult_imp_div_less mult.commute)
  have "(a mod m) * l + a div m < (a mod m + 1) * l" using q by simp
  also have "\<dots> \<le> m * l" using m by (intro mult_le_mono1) (simp add: Suc_leI)
  finally show "nrot m l a < 4294967296" unfolding e ml .
  have a: "unat (w32 a) = a" using assms(1) by (simp only: unsigned_of_nat) (simp add: take_bit_nat_eq_self_iff)
  have "w32 (nrot m l a) = push_bit n (w32 a) + drop_bit (32 - n) (w32 a)"
  proof -
    have "w32 (a mod m * l) = w32 (a * l)"
    proof -
      have "a * l = a mod m * l + (a div m) * (m * l)" 
        by (metis distrib_right mult.assoc mod_mult_div_eq mult.commute add.commute)
      then show ?thesis unfolding ml by (simp add: w32_wrap)
    qed
    moreover have "w32 (a * l) = push_bit n (w32 a)" using assms by (simp add: push_bit_eq_mult)
    moreover have "w32 (a div m) = drop_bit (32 - n) (w32 a)"
    proof -
      have "unat (drop_bit (32 - n) (w32 a)) = a div m" unfolding unat_drop a using assms by (simp add: drop_bit_eq_div)
      then have "w32 (unat (drop_bit (32 - n) (w32 a))) = w32 (a div m)" by (rule arg_cong)
      then show ?thesis by simp
    qed
    ultimately show ?thesis unfolding e by simp
  qed
  also have "\<dots> = push_bit n (w32 a) OR drop_bit (32 - n) (w32 a)"
    using assms(2,3) by (intro disjunctive_add) (auto simp: bit_simps dest: bit_imp_le_length)
  also have "\<dots> = word_rotl n (w32 a)" by (rule shifts_rotl [OF assms(2,3)])
  finally show "w32 (nrot m l a) = word_rotl n (w32 a)" .
qed

lemma nxor_less: "a < 4294967296 \<Longrightarrow> b < 4294967296 \<Longrightarrow> a XOR b < (4294967296 :: nat)"
proof -
  assume "a < 4294967296" "b < 4294967296"
  then have "take_bit 32 a = a" "take_bit 32 b = b" by (simp_all add: take_bit_nat_eq_self_iff)
  then have "take_bit 32 (a XOR b) = a XOR b" unfolding take_bit_xor by simp
  then show ?thesis using take_bit_nat_less_exp [of 32 "a XOR b"] by simp
qed

lemma nrots:
  assumes "a < 4294967296"
  shows "w32 (nrot 65536 65536 a) = word_rotl 16 (w32 a)" "w32 (nrot 1048576 4096 a) = word_rotl 12 (w32 a)"
    "w32 (nrot 16777216 256 a) = word_rotl 8 (w32 a)" "w32 (nrot 33554432 128 a) = word_rotl 7 (w32 a)"
    "nrot 65536 65536 a < 4294967296" "nrot 1048576 4096 a < 4294967296"
    "nrot 16777216 256 a < 4294967296" "nrot 33554432 128 a < 4294967296"
  using nrot_word [OF assms, of 16] nrot_word [OF assms, of 12] nrot_word [OF assms, of 8] nrot_word [OF assms, of 7] by simp_all


definition small :: "nat list \<Rightarrow> bool" where
  "small s = (\<forall>x \<in> set s. x < 4294967296)"

lemma small_update: "small s \<Longrightarrow> x < 4294967296 \<Longrightarrow> small (s[i := x])"
  unfolding small_def using set_update_subset_insert [of s i x] by blast

lemma nquarter_word:
  assumes "a < 4294967296" "b < 4294967296" "c < 4294967296" "d < 4294967296" and "nquarter a b c d = (a', b', c', d')"
  shows "quarter (w32 a, w32 b, w32 c, w32 d) = (w32 a', w32 b', w32 c', w32 d')"
    "a' < 4294967296" "b' < 4294967296" "c' < 4294967296" "d' < 4294967296"
proof -
  define a1 where "a1 = nadd a b"
  define d1 where "d1 = nrot 65536 65536 (d XOR a1)"
  define c1 where "c1 = nadd c d1"
  define b1 where "b1 = nrot 1048576 4096 (b XOR c1)"
  define a2 where "a2 = nadd a1 b1"
  define d2 where "d2 = nrot 16777216 256 (d1 XOR a2)"
  define c2 where "c2 = nadd c1 d2"
  define b2 where "b2 = nrot 33554432 128 (b1 XOR c2)"
  note l1 = nadd_less [OF assms(1,2), folded a1_def]
  note l2 = nrots(5) [OF nxor_less [OF assms(4) l1], folded d1_def]
  note l3 = nadd_less [OF assms(3) l2, folded c1_def]
  note l4 = nrots(6) [OF nxor_less [OF assms(2) l3], folded b1_def]
  note l5 = nadd_less [OF l1 l4, folded a2_def]
  note l6 = nrots(7) [OF nxor_less [OF l2 l5], folded d2_def]
  note l7 = nadd_less [OF l3 l6, folded c2_def]
  note l8 = nrots(8) [OF nxor_less [OF l4 l7], folded b2_def]
  have r: "a' = a2" "b' = b2" "c' = c2" "d' = d2"
    using assms(5) unfolding nquarter_def Let_def a1_def [symmetric] unfolding d1_def [symmetric] unfolding c1_def [symmetric]
    unfolding b1_def [symmetric] unfolding a2_def [symmetric] unfolding d2_def [symmetric] unfolding c2_def [symmetric]
    unfolding b2_def [symmetric] by simp_all
  show "a' < 4294967296" "b' < 4294967296" "c' < 4294967296" "d' < 4294967296" unfolding r by (rule l5 l6 l7 l8)+
  have w1: "w32 d1 = word_rotl 16 (w32 d XOR w32 a1)" "w32 b1 = word_rotl 12 (w32 b XOR w32 c1)"
      "w32 d2 = word_rotl 8 (w32 d1 XOR w32 a2)" "w32 b2 = word_rotl 7 (w32 b1 XOR w32 c2)"
    using nrots(1) [OF nxor_less [OF assms(4) l1]] nrots(2) [OF nxor_less [OF assms(2) l3]]
      nrots(3) [OF nxor_less [OF l2 l5]] nrots(4) [OF nxor_less [OF l4 l7]]
    unfolding of_nat_xor_eq d1_def [symmetric] b1_def [symmetric] d2_def [symmetric] b2_def [symmetric] .
  have w2: "w32 a1 = w32 a + w32 b" "w32 c1 = w32 c + w32 d1" "w32 a2 = w32 a1 + w32 b1" "w32 c2 = w32 c1 + w32 d2"
    unfolding a1_def c1_def a2_def c2_def by (rule nadd_word)+
  show "quarter (w32 a, w32 b, w32 c, w32 d) = (w32 a', w32 b', w32 c', w32 d')"
    unfolding quarter_def prod.case Let_def r unfolding w2(1) [symmetric] unfolding w1(1) [symmetric] unfolding w2(2) [symmetric]
    unfolding w1(2) [symmetric] unfolding w2(3) [symmetric] unfolding w1(3) [symmetric] unfolding w2(4) [symmetric]
    unfolding w1(4) [symmetric] ..
qed

lemma on_nquarter_word:
  assumes "small s" "x < length s" "y < length s" "z < length s" "w < length s"
  shows "on_quarter (x, y, z, w) (map w32 s) = map w32 (on_nquarter (x, y, z, w) s)" "small (on_nquarter (x, y, z, w) s)"
proof -
  obtain a b c d where q: "nquarter (s ! x) (s ! y) (s ! z) (s ! w) = (a, b, c, d)" by (metis prod_cases4)
  have l: "s ! x < 4294967296" "s ! y < 4294967296" "s ! z < 4294967296" "s ! w < 4294967296"
    using assms unfolding small_def by simp_all
  note n = nquarter_word [OF l q]
  show "on_quarter (x, y, z, w) (map w32 s) = map w32 (on_nquarter (x, y, z, w) s)"
    using assms(2-5) by (simp add: on_quarter_def on_nquarter.simps q n(1) map_update)
  show "small (on_nquarter (x, y, z, w) s)"
    using assms(1) n(2-5) by (simp add: on_nquarter.simps q small_update)
qed

lemma length_on_nquarter [simp]: "length (on_nquarter q s) = length s"
proof -
  obtain x y z w where q: "q = (x, y, z, w)" by (metis prod_cases4)
  obtain a b c d where "nquarter (s ! x) (s ! y) (s ! z) (s ! w) = (a, b, c, d)" by (metis prod_cases4)
  then show ?thesis by (simp add: q on_nquarter.simps)
qed

lemma fold_nquarter_word:
  assumes "small s" "\<forall>(x, y, z, w) \<in> set qs. x < length s \<and> y < length s \<and> z < length s \<and> w < length s"
  shows "fold on_quarter qs (map w32 s) = map w32 (fold on_nquarter qs s) \<and> small (fold on_nquarter qs s)"
  using assms
proof (induction qs arbitrary: s)
  case (Cons q qs)
  obtain x y z w where q: "q = (x, y, z, w)" by (metis prod_cases4)
  have b: "x < length s" "y < length s" "z < length s" "w < length s" using Cons.prems by (simp_all add: q)
  show ?case
    using Cons.IH [of "on_nquarter q s"] Cons.prems on_nquarter_word [OF Cons.prems(1) b] by (simp add: q)
qed simp

lemma nround_word:
  assumes "small s" "length s = 16"
  shows "fold on_quarter (columns @ diagonals) (map w32 s) = map w32 (nround s)" "small (nround s)" "length (nround s) = 16"
proof -
  have cd: "columns @ diagonals = [(0, 4, 8, 12), (1, 5, 9, 13), (2, 6, 10, 14), (3, 7, 11, 15),
      (0, 5, 10, 15), (1, 6, 11, 12), (2, 7, 8, 13), (3, 4, 9, 14)]"
    by (simp add: columns_def diagonals_def)
  have in16: "\<forall>(x, y, z, w) \<in> set [(0, 4, 8, 12), (1, 5, 9, 13), (2, 6, 10, 14), (3, 7, 11, 15),
      (0, 5, 10, 15), (1, 6, 11, 12), (2, 7, 8, 13), (3, 4, 9, 14)]. x < length s \<and> y < length s \<and> z < length s \<and> w < length s"
    using assms(2) by simp
  show "fold on_quarter (columns @ diagonals) (map w32 s) = map w32 (nround s)" "small (nround s)"
    unfolding cd nround_def by (simp_all only: fold_nquarter_word [OF assms(1) in16])
  show "length (nround s) = 16" using assms(2) by (simp add: nround_def)
qed

lemma nround_pow_word:
  assumes "small s" "length s = 16"
  shows "(fold on_quarter (columns @ diagonals) ^^ n) (map w32 s) = map w32 ((nround ^^ n) s)
    \<and> small ((nround ^^ n) s) \<and> length ((nround ^^ n) s) = 16"
proof (induction n)
  case (Suc n)
  then show ?case using nround_word [of "(nround ^^ n) s"] by (simp del: fold_append)
qed (simp add: assms)

lemma nround_10:
  "(nround ^^ 10) [0x61707865, 0x3320646E, 0x79622D32, 0x6B206574, 0x00000000, 0x00000000, 0x00000000, 0x00000000,
    0x00000000, 0x00000000, 0x00000000, 0x00000000, 0x00000000, 0x00000000, 0x00000000, 0x00000000]
  = [0x4C704011, 0x5D1D8D32, 0x6C08300E, 0xBD9D20DF, 0xB819D2BD, 0x1AED8DA0, 0xCCEF36A8, 0xC70D778B,
    0x7C5941DA, 0x8D485751, 0x3FE02477, 0x374AD8B8, 0xF4B8436A, 0x1CA11815, 0x69B687C3, 0x8665EEB2]"
proof -
  have ten: "(nround ^^ 10) s = nround (nround (nround (nround (nround (nround (nround (nround (nround (nround s)))))))))" for s
    by (simp add: numeral_eq_Suc)
  show ?thesis
    unfolding ten nround_0 nround_1 nround_2 nround_3 nround_4 nround_5 nround_6 nround_7 nround_8 nround_9 ..
qed


subsection \<open>The first block of the key\<close>

definition zkey :: "u8 list" where "zkey = replicate 32 0"
definition ziv :: "u8 list" where "ziv = replicate 12 0"

lemma zwords: "br_range_dec32le n (replicate (4 * n) 0) = replicate n 0"
  by (induction n) (simp_all add: br_dec32le_def)

lemma zblock:
  "take 32 (chacha20_block zkey ziv 0) = [118, 184, 224, 173, 160, 241, 61, 144, 64, 93, 106, 229, 83, 134, 189, 40,
     189, 210, 25, 184, 160, 141, 237, 26, 168, 54, 239, 204, 139, 119, 13, 199]"
proof -
  let ?s = "[0x61707865, 0x3320646E, 0x79622D32, 0x6B206574, 0x00000000, 0x00000000, 0x00000000, 0x00000000,
    0x00000000, 0x00000000, 0x00000000, 0x00000000, 0x00000000, 0x00000000, 0x00000000, 0x00000000] :: nat list"
  have z: "br_range_dec32le 8 zkey = replicate 8 0" "br_range_dec32le 3 ziv = replicate 3 0"
    using zwords [of 8] zwords [of 3] by (simp_all add: zkey_def ziv_def)
  have s: "CW @ replicate 8 0 @ [0] @ replicate 3 0 = map w32 ?s"
  proof -
    have "replicate 8 (0 :: u32) = [0, 0, 0, 0, 0, 0, 0, 0]" "replicate 3 (0 :: u32) = [0, 0, 0]" by (simp_all add: numeral_eq_Suc)
    then show ?thesis by (simp add: CW_def)
  qed
  have l: "length ?s = 16" by simp
  have sm: "small ?s" by (simp add: small_def)
  have t: "(fold on_quarter (columns @ diagonals) ^^ 10) (map w32 ?s) = map w32 ((nround ^^ 10) ?s)"
    using nround_pow_word [OF sm l] by blast
  have m: "map2 (+) (map w32 u) (map w32 v) = map w32 (map2 nadd u v)" for u v
    by (simp add: zip_map1 zip_map2 nadd_word case_prod_unfold o_def)
  show ?thesis
    unfolding chacha20_block_def Let_def z s t m nround_10
    by (simp add: range_enc32le_map nadd_def br_enc32le_def)
qed


subsection \<open>The message\<close>

definition flaw_otk :: "u8 list" where
  "flaw_otk = [118, 184, 224, 173, 160, 241, 61, 144, 64, 93, 106, 229, 83, 134, 189, 40,
     189, 210, 25, 184, 160, 141, 237, 26, 168, 54, 239, 204, 139, 119, 13, 199]"

definition flaw_ct :: "u8 list" where
  "flaw_ct = [205, 78, 6, 142, 38, 160, 190, 5, 210, 45, 43, 194, 192, 37, 171, 255]"

definition flaw_tag :: "u8 list" where
  "flaw_tag = [191, 210, 25, 184, 160, 141, 237, 26, 168, 54, 239, 204, 139, 119, 13, 199]"

definition right_tag :: "u8 list" where
  "right_tag = [195, 210, 25, 184, 160, 141, 237, 26, 168, 54, 239, 204, 139, 119, 13, 199]"

lemma flaw_r: "poly_r flaw_otk = [31504502, 58484739, 30670851, 20977065, 572806]"
  by (simp add: poly_r_def flaw_otk_def br_dec32le_def)

lemma flaw_pass1:
  "poly_pass [31504502, 58484739, 30670851, 20977065, 572806] flaw_ct (0, 0, 0, 0, 0) = (57248466, 28585921, 25820904, 53072268, 28684506)"
  by (simp add: poly_pass_def flaw_ct_def br_dec32le_def Let_def cong: let_weak_cong)

lemma flaw_pass2:
  "poly_pass [31504502, 58484739, 30670851, 20977065, 572806] [0, 0, 0, 0, 0, 0, 0, 0, 16, 0, 0, 0, 0, 0, 0, 0]
    (57248466, 28585921, 25820904, 53072268, 28684506) = (1, 67108864, 67108863, 67108863, 67108863)"
  by (simp add: poly_pass_def br_dec32le_def Let_def cong: let_weak_cong)

lemma flaw_final: "final_carry [1, 67108864, 67108863, 67108863, 67108863] = [2, 0, 0, 0, 0]"
  by (simp add: final_carry_def upt_rec Let_def)

lemma flaw_select: "final_select [2, 0, 0, 0, 0] = [2, 0, 0, 0, 0]"
proof -
  have u: "[1..<5] = [1, 2, 3, 4 :: nat]" "[0..<5] = [0, 1, 2, 3, 4 :: nat]" by (simp_all add: upt_rec)
  show ?thesis unfolding final_select_def u by (simp add: ct_specs MUX_of_bool [of False, simplified] Let_def)
qed

lemma flaw_make: "make_tag [2, 0, 0, 0, 0] flaw_otk = flaw_tag"
  by (simp add: make_tag_def flaw_otk_def flaw_tag_def br_dec32le_def br_enc32le_def Let_def cong: let_weak_cong)

lemma le_bytes_numeral: "le_bytes (numeral k) n = of_nat n # le_bytes (pred_numeral k) (n div 256)"
  by (simp only: numeral_eq_Suc [of k] le_bytes.simps)

lemma flaw_foot: "le_bytes 8 0 @ le_bytes 8 (length flaw_ct) = [0, 0, 0, 0, 0, 0, 0, 0, 16, 0, 0, 0, 0, 0, 0, 0]"
  by (simp add: flaw_ct_def le_bytes_numeral)

lemma flaw_residue: "poly1305_residue flaw_otk (aead_message [] flaw_ct) = 6"
proof -
  have "pad16 [] = []" "pad16 flaw_ct = flaw_ct" by (simp_all add: pad16_def flaw_ct_def)
  then have m: "aead_message [] flaw_ct = flaw_ct @ [0, 0, 0, 0, 0, 0, 0, 0, 16, 0, 0, 0, 0, 0, 0, 0]"
    by (simp only: aead_message_def list.size flaw_foot append_Nil)
  have b: "blocks16 (aead_message [] flaw_ct) = [flaw_ct, [0, 0, 0, 0, 0, 0, 0, 0, 16, 0, 0, 0, 0, 0, 0, 0]]"
    unfolding m by (simp add: blocks16.simps flaw_ct_def)
  have r: "le_num (take 16 flaw_otk) = 54153188427484749102756803625621698678" by (simp add: flaw_otk_def)
  have c: "clamp 54153188427484749102756803625621698678 = 11617892255358311416684375977521887350" by (simp add: clamp_def)
  have s1: "poly_step 11617892255358311416684375977521887350 flaw_ct 0 = 581790916010512851149567094491573750482"
    by (simp add: poly_step_def P1305_def flaw_ct_def)
  have s2: "poly_step 11617892255358311416684375977521887350 [0, 0, 0, 0, 0, 0, 0, 0, 16, 0, 0, 0, 0, 0, 0, 0] 581790916010512851149567094491573750482 = 6"
    by (simp add: poly_step_def P1305_def)
  show ?thesis unfolding poly1305_residue_def b r c by (simp only: fold_simps s1 s2)
qed

lemma flaw_mac: "poly1305_mac flaw_otk (aead_message [] flaw_ct) = right_tag"
  unfolding poly1305_mac_def flaw_residue by (simp add: flaw_otk_def right_tag_def le_bytes_numeral)

lemma flaw_acc:
  "poly1305_inner (poly1305_inner (poly1305_inner (replicate 5 0) (poly_r flaw_otk) []) (poly_r flaw_otk) flaw_ct) (poly_r flaw_otk)
      (br_enc64le (of_nat (length [])) @ br_enc64le (of_nat (length flaw_ct))) = [1, 67108864, 67108863, 67108863, 67108863]"
proof -
  have z: "replicate 5 0 = limb_list (0, 0, 0, 0, 0)" by (simp add: limb_list_def numeral_eq_Suc)
  have f: "br_enc64le (of_nat (length [])) @ br_enc64le (of_nat (length flaw_ct)) = [0, 0, 0, 0, 0, 0, 0, 0, 16, 0, 0, 0, 0, 0, 0, 0]"
    unfolding enc64le_bytes list.size by (rule flaw_foot)
  have l: "length flaw_ct = 16" "flaw_ct \<noteq> []" "drop 16 flaw_ct = []" by (simp_all add: flaw_ct_def)
  have e: "poly1305_loop r [] a = a" for r a by (simp add: poly1305_loop.simps)
  have c: "poly1305_loop r flaw_ct a = poly_pass r flaw_ct a" for r a
    by (subst poly1305_loop.simps) (simp add: l e)
  have t: "poly1305_loop r [0, 0, 0, 0, 0, 0, 0, 0, 16, 0, 0, 0, 0, 0, 0, 0] a = poly_pass r [0, 0, 0, 0, 0, 0, 0, 0, 16, 0, 0, 0, 0, 0, 0, 0] a" for r a
    by (subst poly1305_loop.simps) (simp add: e)
  show ?thesis unfolding z f inner_limbs e c t flaw_r flaw_pass1 flaw_pass2 by (simp add: limb_list_def)
qed

subsection \<open>RFC 8439\<close>

text \<open>\<^bold>\<open>C31\<close>: encryption and decryption with the tag are those of RFC 8439: the data is encrypted with the keystream
  from block 1, the key of the tag is the beginning of block 0, and the tag is the Poly1305 of the padded additional data, the
  padded ciphertext and the two lengths; provided that the residue of the polynomial is not one of the \<open>2\<^sup>3\<^sup>2 + 5\<close> least.
  In particular decryption gives back the data with the same tag.\<close>

theorem chacha20_poly1305_rfc8439:
  assumes "2 ^ 32 + 5 \<le> poly1305_residue (take 32 (chacha20_block key iv 0)) (aead_message aad (chacha20_encrypt key iv 1 data))"
  shows "br_poly1305_ctmul_run key iv data aad br_chacha20_ct_run True
      = (chacha20_encrypt key iv 1 data,
         poly1305_mac (take 32 (chacha20_block key iv 0)) (aead_message aad (chacha20_encrypt key iv 1 data)))
    \<and> br_poly1305_ctmul_run key iv (chacha20_encrypt key iv 1 data) aad br_chacha20_ct_run False
      = (data, poly1305_mac (take 32 (chacha20_block key iv 0)) (aead_message aad (chacha20_encrypt key iv 1 data)))"
  using ctmul_rfc8439 [OF assms] by simp

lemma residue_1:
  "poly1305_residue flaw_otk (aead_message [1, 2, 3] [5, 6, 7]) = 429120475305386196090064102526806794248"
proof -
  have z: "replicate 13 (0 :: u8) = [0, 0, 0, 0, 0, 0, 0, 0, 0, 0, 0, 0, 0]" by (simp add: numeral_eq_Suc)
  have "aead_message [1, 2, 3] [5, 6, 7] = [1, 2, 3, 0, 0, 0, 0, 0, 0, 0, 0, 0, 0, 0, 0, 0, 5, 6, 7, 0, 0, 0, 0, 0, 0, 0, 0, 0, 0, 0, 0, 0, 3, 0, 0, 0, 0, 0, 0, 0, 3, 0, 0, 0, 0, 0, 0, 0]"
    by (simp add: aead_message_def pad16_def le_bytes_numeral z)
  then have b: "blocks16 (aead_message [1, 2, 3] [5, 6, 7]) = [[1, 2, 3, 0, 0, 0, 0, 0, 0, 0, 0, 0, 0, 0, 0, 0],
      [5, 6, 7, 0, 0, 0, 0, 0, 0, 0, 0, 0, 0, 0, 0, 0], [3, 0, 0, 0, 0, 0, 0, 0, 3, 0, 0, 0, 0, 0, 0, 0]]"
    by (simp add: blocks16.simps)
  have c: "clamp (le_num (take 16 flaw_otk)) = 11617892255358311416684375977521887350" by (simp add: flaw_otk_def clamp_def)
  have s1: "poly_step 11617892255358311416684375977521887350 [1, 2, 3, 0, 0, 0, 0, 0, 0, 0, 0, 0, 0, 0, 0, 0] 0 = 44732255889043549000624519263795588070"
    by (simp add: poly_step_def P1305_def)
  have s2: "poly_step 11617892255358311416684375977521887350 [5, 6, 7, 0, 0, 0, 0, 0, 0, 0, 0, 0, 0, 0, 0, 0] 44732255889043549000624519263795588070 = 917900134943677905874889241412736997107"
    by (simp add: poly_step_def P1305_def)
  have s3: "poly_step 11617892255358311416684375977521887350 [3, 0, 0, 0, 0, 0, 0, 0, 3, 0, 0, 0, 0, 0, 0, 0] 917900134943677905874889241412736997107 = 429120475305386196090064102526806794248"
    by (simp add: poly_step_def P1305_def)
  show ?thesis unfolding poly1305_residue_def b c by (simp only: fold_simps s1 s2 s3)
qed

theorem chacha20_poly1305_rfc8439_witness:
  "br_poly1305_ctmul_run zkey ziv (chacha20_encrypt zkey ziv 1 [5, 6, 7]) [1, 2, 3] br_chacha20_ct_run True
    = ([5, 6, 7], [197, 242, 71, 129, 50, 4, 198, 75, 233, 243, 122, 95, 117, 16, 227, 9])"
proof -
  have k: "take 32 (chacha20_block zkey ziv 0) = flaw_otk" by (simp only: zblock flaw_otk_def)
  have "2 ^ 32 + 5 \<le> poly1305_residue (take 32 (chacha20_block zkey ziv 0))
      (aead_message [1, 2, 3] (chacha20_encrypt zkey ziv 1 (chacha20_encrypt zkey ziv 1 [5, 6, 7])))"
    unfolding k chacha20_encrypt_twice residue_1 by simp
  from chacha20_poly1305_rfc8439 [OF this]
  have "br_poly1305_ctmul_run zkey ziv (chacha20_encrypt zkey ziv 1 [5, 6, 7]) [1, 2, 3] br_chacha20_ct_run True
      = ([5, 6, 7], poly1305_mac flaw_otk (aead_message [1, 2, 3] [5, 6, 7]))"
    unfolding k chacha20_encrypt_twice by blast
  then show ?thesis
    unfolding poly1305_mac_def residue_1 by (simp add: flaw_otk_def le_bytes_numeral)
qed

subsection \<open>A wrong tag\<close>

text \<open>\<^bold>\<open>C32\<close>: under the key and the nonce that are all zero, without additional data, there is a message of sixteen bytes whose
  tag is not the one of RFC 8439: its first byte is 4 too small, when the message is encrypted and when it is decrypted.\<close>

theorem poly1305_ctmul_wrong_tag:
  defines "pt \<equiv> chacha20_encrypt zkey ziv 1 flaw_ct"
  shows "br_poly1305_ctmul_run zkey ziv pt [] br_chacha20_ct_run True = (flaw_ct, flaw_tag)
    \<and> br_poly1305_ctmul_run zkey ziv flaw_ct [] br_chacha20_ct_run False = (pt, flaw_tag)
    \<and> poly1305_mac (take 32 (chacha20_block zkey ziv 0)) (aead_message [] flaw_ct) = right_tag
    \<and> flaw_tag \<noteq> right_tag"
proof -
  have k: "take 32 (chacha20_block zkey ziv 0) = flaw_otk" by (simp only: zblock flaw_otk_def)
  have "br_poly1305_ctmul_run zkey ziv d [] br_chacha20_ct_run e =
      (if e then chacha20_encrypt zkey ziv 1 d else chacha20_encrypt zkey ziv 1 d, flaw_tag)"
    if "(if e then chacha20_encrypt zkey ziv 1 d else d) = flaw_ct" for d e
    using that
    unfolding br_poly1305_ctmul_run_def Let_def chacha20_ct_encrypt fst_conv one_time_key k
    by (cases e) (simp_all only: if_True if_False not_True_eq_False not_False_eq_True flaw_acc flaw_final flaw_select flaw_make)
  then show ?thesis using k flaw_mac by (simp add: pt_def) (simp add: flaw_tag_def right_tag_def)
qed


end
