(* ===== verification/SslEngine.thy ===== *)
theory SslEngine
  imports BrCodec
begin

section \<open>The record engine of TLS (bearssl/src/ssl/ssl\_engine.c)\<close>

text \<open>
  The part of the engine that moves bytes between the transport, the application and the handshake
  processor.  Memory is one array \<open>mem\<close>; the buffers are addresses in it, so that buffers that
  overlap or coincide (half-duplex mode) are modelled as they are.  \<^term>\<open>None\<close> is NULL.  The
  encryption of records is a table of functions, as in the C code; the table for no encryption is
  defined here.  The handshake processor (generated from T0 code) is the argument \<open>hs\<close> of the
  functions that give it control.  Lengths and indexes of type \<^verbatim>\<open>size_t\<close> are natural numbers:
  the invariant below shows that no subtraction goes below zero.
\<close>

datatype br_iomode = BR_IO_FAILED | BR_IO_IN | BR_IO_OUT | BR_IO_INOUT

text \<open>
  The tables: \<open>encrypt\<close> and \<open>decrypt\<close> work in place on \<open>mem\<close>, from an address and a length, and
  return the address and length of the result, the memory and the new context of the cipher.
\<close>

record 'i br_sslrec_in_class =
  check_length :: "'i \<Rightarrow> nat \<Rightarrow> bool"
  decrypt :: "'i \<Rightarrow> u8 \<Rightarrow> u32 \<Rightarrow> u8 list \<Rightarrow> nat \<Rightarrow> nat \<Rightarrow> (nat \<times> nat) option \<times> u8 list \<times> 'i"

record 'o br_sslrec_out_class =
  max_plaintext :: "'o \<Rightarrow> nat \<Rightarrow> nat \<Rightarrow> nat \<times> nat"
  encrypt :: "'o \<Rightarrow> u8 \<Rightarrow> u32 \<Rightarrow> u8 list \<Rightarrow> nat \<Rightarrow> nat \<Rightarrow> (nat \<times> nat) \<times> u8 list \<times> 'o"

record ('i, 'o) br_ssl_engine_context =
  err :: nat
  mem :: "u8 list"
  ibuf :: "nat option"
  obuf :: "nat option"
  ibuf_len :: nat
  obuf_len :: nat
  max_frag_len :: nat
  log_max_frag_len :: nat
  peer_log_max_frag_len :: nat
  ixa :: nat
  ixb :: nat
  ixc :: nat
  oxa :: nat
  oxb :: nat
  oxc :: nat
  iomode :: br_iomode
  incrypt :: bool
  shutdown_recv :: bool
  record_type_in :: u8
  record_type_out :: u8
  version_in :: u32
  version_out :: u32
  in_vtable :: "'i br_sslrec_in_class"
  in_ctx :: 'i
  out_vtable :: "'o br_sslrec_out_class"
  out_ctx :: 'o
  application_data :: nat
  reneg :: nat
  no_renegotiation :: bool
  hbuf_in :: "nat option"
  hbuf_out :: "nat option"
  saved_hbuf_out :: "nat option"
  hlen_in :: nat
  hlen_out :: nat
  action :: nat
  alert :: nat
  suites_buf :: "u16 list"
  suites_num :: nat

definition br_ssl_engine_closed :: "('i, 'o) br_ssl_engine_context \<Rightarrow> bool" where
  "br_ssl_engine_closed cc \<longleftrightarrow> iomode cc = BR_IO_FAILED"

definition br_ssl_engine_has_pld_to_send :: "('i, 'o) br_ssl_engine_context \<Rightarrow> bool" where
  "br_ssl_engine_has_pld_to_send rc \<longleftrightarrow> oxa rc \<noteq> oxb rc \<and> oxa rc \<noteq> oxc rc"

definition br_ssl_engine_last_error :: "('i, 'o) br_ssl_engine_context \<Rightarrow> nat" where
  "br_ssl_engine_last_error cc = err cc"

definition br_ssl_engine_fail :: "('i, 'o) br_ssl_engine_context \<Rightarrow> nat \<Rightarrow> ('i, 'o) br_ssl_engine_context" where
  "br_ssl_engine_fail rc e = (if iomode rc \<noteq> BR_IO_FAILED then rc\<lparr>iomode := BR_IO_FAILED, err := e\<rparr> else rc)"

text \<open>The error codes that occur here.\<close>

definition BR_ERR_OK :: nat where "BR_ERR_OK = 0"
definition BR_ERR_BAD_PARAM :: nat where "BR_ERR_BAD_PARAM = 1"
definition BR_ERR_UNSUPPORTED_VERSION :: nat where "BR_ERR_UNSUPPORTED_VERSION = 3"
definition BR_ERR_BAD_VERSION :: nat where "BR_ERR_BAD_VERSION = 4"
definition BR_ERR_BAD_LENGTH :: nat where "BR_ERR_BAD_LENGTH = 5"
definition BR_ERR_TOO_LARGE :: nat where "BR_ERR_TOO_LARGE = 6"
definition BR_ERR_BAD_MAC :: nat where "BR_ERR_BAD_MAC = 7"
definition BR_ERR_UNEXPECTED :: nat where "BR_ERR_UNEXPECTED = 10"
definition BR_ERR_IO :: nat where "BR_ERR_IO = 31"

definition BR_SSL_CHANGE_CIPHER_SPEC :: u8 where "BR_SSL_CHANGE_CIPHER_SPEC = 20"
definition BR_SSL_ALERT :: u8 where "BR_SSL_ALERT = 21"
definition BR_SSL_HANDSHAKE :: u8 where "BR_SSL_HANDSHAKE = 22"
definition BR_SSL_APPLICATION_DATA :: u8 where "BR_SSL_APPLICATION_DATA = 23"

definition MAX_OUT_OVERHEAD :: nat where "MAX_OUT_OVERHEAD = 85"
definition MAX_IN_OVERHEAD :: nat where "MAX_IN_OVERHEAD = 325"

subsection \<open>Registers and buffers\<close>

definition make_ready_in :: "('i, 'o) br_ssl_engine_context \<Rightarrow> ('i, 'o) br_ssl_engine_context" where
  "make_ready_in rc =
     (let rc = rc\<lparr>ixa := 0, ixb := 0, ixc := 5\<rparr>
      in if iomode rc = BR_IO_IN then rc\<lparr>iomode := BR_IO_INOUT\<rparr> else rc)"

definition make_ready_out :: "('i, 'o) br_ssl_engine_context \<Rightarrow> ('i, 'o) br_ssl_engine_context" where
  "make_ready_out rc =
     (let a = 5;
          b = obuf_len rc - a;
          (a, b) = max_plaintext (out_vtable rc) (out_ctx rc) a b;
          b = (if max_frag_len rc < b - a then a + max_frag_len rc else b);
          rc = rc\<lparr>oxa := a, oxb := b, oxc := a\<rparr>
      in if iomode rc = BR_IO_OUT then rc\<lparr>iomode := BR_IO_INOUT\<rparr> else rc)"

definition br_ssl_engine_new_max_frag_len :: "('i, 'o) br_ssl_engine_context \<Rightarrow> nat \<Rightarrow> ('i, 'o) br_ssl_engine_context" where
  "br_ssl_engine_new_max_frag_len rc len =
     (let rc = rc\<lparr>max_frag_len := len mod 2 ^ 16\<rparr>;
          nxb = oxc rc + len
      in if oxa rc < oxb rc \<and> nxb < oxb rc \<and> oxa rc < nxb then rc\<lparr>oxb := nxb\<rparr> else rc)"

text \<open>The records without encryption; the context is not used.\<close>

definition clear_max_plaintext :: "'o \<Rightarrow> nat \<Rightarrow> nat \<Rightarrow> nat \<times> nat" where
  "clear_max_plaintext cc start end' =
     (let len = end' - start in (start, if 16384 < len then start + 16384 else end'))"

definition store :: "nat \<Rightarrow> u8 list \<Rightarrow> u8 list \<Rightarrow> u8 list" where
  "store a bs m = take a m @ bs @ drop (a + length bs) m"

definition clear_encrypt :: "'o \<Rightarrow> u8 \<Rightarrow> u32 \<Rightarrow> u8 list \<Rightarrow> nat \<Rightarrow> nat \<Rightarrow> (nat \<times> nat) \<times> u8 list \<times> 'o" where
  "clear_encrypt cc record_type version m data data_len =
     (let buf = data - 5;
          m = store buf ([record_type] @ br_enc16be version @ br_enc16be (of_nat data_len)) m
      in ((buf, data_len + 5), m, cc))"

definition br_sslrec_out_clear_vtable :: "'o br_sslrec_out_class" where
  "br_sslrec_out_clear_vtable = \<lparr>max_plaintext = clear_max_plaintext, encrypt = clear_encrypt\<rparr>"

text \<open>The loop over \<open>u\<close> from 14 down to 9 ends at 8 when no standard length fits.\<close>

fun frag_log :: "nat \<Rightarrow> nat \<Rightarrow> nat \<Rightarrow> nat" where
  "frag_log ilen olen u =
     (if u < 9 then u
      else if 2 ^ u + MAX_OUT_OVERHEAD \<le> olen \<and> 2 ^ u + MAX_IN_OVERHEAD \<le> ilen then u
      else frag_log ilen olen (u - 1))"

declare frag_log.simps [simp del]

definition br_ssl_engine_set_buffers_bidi ::
  "('i, 'o) br_ssl_engine_context \<Rightarrow> nat option \<Rightarrow> nat \<Rightarrow> nat option \<Rightarrow> nat \<Rightarrow> ('i, 'o) br_ssl_engine_context" where
  "br_ssl_engine_set_buffers_bidi rc ib ilen ob olen =
     (let rc = rc\<lparr>iomode := BR_IO_INOUT, incrypt := False, err := BR_ERR_OK, version_in := 0,
                 record_type_in := 0, version_out := 0, record_type_out := 0\<rparr>;
          finish = (\<lambda>rc. let rc = rc\<lparr>out_vtable := br_sslrec_out_clear_vtable\<rparr>
                         in make_ready_out (make_ready_in rc))
      in case ib of
           None \<Rightarrow> finish (if ibuf rc = None then br_ssl_engine_fail rc BR_ERR_BAD_PARAM else rc)
         | Some a \<Rightarrow>
             let rc = rc\<lparr>ibuf := Some a, ibuf_len := ilen\<rparr>;
                 (ob, olen) = (case ob of None \<Rightarrow> (ib, ilen) | Some b \<Rightarrow> (Some b, olen));
                 rc = rc\<lparr>obuf := ob, obuf_len := olen\<rparr>;
                 u = frag_log ilen olen 14
             in if u = 8 then br_ssl_engine_fail rc BR_ERR_BAD_PARAM
                else let u = (if u = 13 then 12 else u)
                     in finish (rc\<lparr>max_frag_len := 2 ^ u, log_max_frag_len := u, peer_log_max_frag_len := 0\<rparr>))"

definition br_ssl_engine_set_buffer ::
  "('i, 'o) br_ssl_engine_context \<Rightarrow> nat option \<Rightarrow> nat \<Rightarrow> bool \<Rightarrow> ('i, 'o) br_ssl_engine_context" where
  "br_ssl_engine_set_buffer rc buf buf_len bidi =
     (case buf of
        None \<Rightarrow> br_ssl_engine_set_buffers_bidi rc None 0 None 0
      | Some a \<Rightarrow>
          if bidi then
            if buf_len < 512 + MAX_IN_OVERHEAD + 512 + MAX_OUT_OVERHEAD then
              rc\<lparr>iomode := BR_IO_FAILED, err := BR_ERR_BAD_PARAM\<rparr>
            else
              let w = (if buf_len < 16384 + MAX_IN_OVERHEAD + 512 + MAX_OUT_OVERHEAD then 512 + MAX_OUT_OVERHEAD
                       else buf_len - (16384 + MAX_IN_OVERHEAD))
              in br_ssl_engine_set_buffers_bidi rc (Some a) (buf_len - w) (Some (a + w)) w
          else br_ssl_engine_set_buffers_bidi rc (Some a) buf_len None 0)"

definition engine_clearbuf :: "('i, 'o) br_ssl_engine_context \<Rightarrow> ('i, 'o) br_ssl_engine_context" where
  "engine_clearbuf rc = make_ready_out (make_ready_in rc)"

definition br_ssl_engine_set_suites :: "('i, 'o) br_ssl_engine_context \<Rightarrow> u16 list \<Rightarrow> ('i, 'o) br_ssl_engine_context" where
  "br_ssl_engine_set_suites cc suites =
     (if 2 * length (suites_buf cc) < 2 * length suites then br_ssl_engine_fail cc BR_ERR_BAD_PARAM
      else cc\<lparr>suites_buf := suites @ drop (length suites) (suites_buf cc), suites_num := length suites\<rparr>)"

subsection \<open>Bytes from and to the transport and the payload\<close>

definition recvrec_buf :: "('i, 'o) br_ssl_engine_context \<Rightarrow> nat option \<times> nat" where
  "recvrec_buf rc =
     (if shutdown_recv rc then (None, 0)
      else if iomode rc = BR_IO_IN \<or> iomode rc = BR_IO_INOUT then
        if ixa rc = ixb rc then
          let z = ixc rc;
              z = (if ibuf_len rc - ixa rc < z then ibuf_len rc - ixa rc else z)
          in (Some (the (ibuf rc) + ixa rc), z)
        else (None, 0)
      else (None, 0))"

text \<open>A record header: its type, version and length are checked and the registers set for its data.\<close>

definition recv_header :: "('i, 'o) br_ssl_engine_context \<Rightarrow> ('i, 'o) br_ssl_engine_context" where
  "recv_header rc =
     (let ib = the (ibuf rc);
          rc = rc\<lparr>record_type_in := mem rc ! ib\<rparr>;
          version = br_dec16be (drop (ib + 1) (mem rc))
      in if drop_bit 8 version \<noteq> 3 then br_ssl_engine_fail rc BR_ERR_UNSUPPORTED_VERSION
         else if version_in rc \<noteq> 0 \<and> version_in rc \<noteq> version then br_ssl_engine_fail rc BR_ERR_BAD_VERSION
         else
           let rc = rc\<lparr>version_in := version\<rparr>;
               rlen = unat (br_dec16be (drop (ib + 3) (mem rc)))
           in if incrypt rc \<and> \<not> check_length (in_vtable rc) (in_ctx rc) rlen then br_ssl_engine_fail rc BR_ERR_BAD_LENGTH
              else if incrypt rc \<and> ibuf_len rc - 5 < rlen then br_ssl_engine_fail rc BR_ERR_TOO_LARGE
              else if \<not> incrypt rc \<and> 16384 < rlen then br_ssl_engine_fail rc BR_ERR_BAD_LENGTH
              else if rlen = 0 then make_ready_in rc
              else rc\<lparr>ixa := 5, ixb := 5, ixc := rlen\<rparr>)"

text \<open>A complete encrypted record.\<close>

definition recv_decrypt :: "('i, 'o) br_ssl_engine_context \<Rightarrow> ('i, 'o) br_ssl_engine_context" where
  "recv_decrypt rc =
     (let pbuf_len = ixa rc - 5;
          (r, m, c) = decrypt (in_vtable rc) (in_ctx rc) (record_type_in rc) (version_in rc) (mem rc) (the (ibuf rc) + 5) pbuf_len;
          rc = rc\<lparr>mem := m, in_ctx := c\<rparr>
      in case r of
           None \<Rightarrow> br_ssl_engine_fail rc BR_ERR_BAD_MAC
         | Some (pbuf, pbuf_len) \<Rightarrow>
             let rc = rc\<lparr>ixa := pbuf - the (ibuf rc)\<rparr>;
                 rc = rc\<lparr>ixb := ixa rc + pbuf_len\<rparr>
             in if ixa rc = ixb rc then make_ready_in rc else rc)"

definition recvrec_ack :: "('i, 'o) br_ssl_engine_context \<Rightarrow> nat \<Rightarrow> ('i, 'o) br_ssl_engine_context" where
  "recvrec_ack rc len =
     (let rc = (if iomode rc = BR_IO_INOUT \<and> ibuf rc = obuf rc then rc\<lparr>iomode := BR_IO_IN\<rparr> else rc);
          rc = rc\<lparr>ixa := ixa rc + len\<rparr>;
          rc = rc\<lparr>ixb := ixa rc, ixc := ixc rc - len\<rparr>
      in if ixa rc < 5 then rc
         else if ixa rc = 5 then recv_header rc
         else if \<not> incrypt rc then rc\<lparr>ixa := 5\<rparr>
         else if ixc rc \<noteq> 0 then rc
         else recv_decrypt rc)"

definition br_ssl_engine_recvrec_finished :: "('i, 'o) br_ssl_engine_context \<Rightarrow> bool" where
  "br_ssl_engine_recvrec_finished rc =
     (if iomode rc = BR_IO_IN \<or> iomode rc = BR_IO_INOUT then ixc rc = 0 \<or> ixa rc < 5 else True)"

definition recvpld_buf :: "('i, 'o) br_ssl_engine_context \<Rightarrow> nat option \<times> nat" where
  "recvpld_buf rc =
     (if iomode rc = BR_IO_IN \<or> iomode rc = BR_IO_INOUT then
        let len = ixb rc - ixa rc in (if len = 0 then None else Some (the (ibuf rc) + ixa rc), len)
      else (None, 0))"

definition recvpld_ack :: "('i, 'o) br_ssl_engine_context \<Rightarrow> nat \<Rightarrow> ('i, 'o) br_ssl_engine_context" where
  "recvpld_ack rc len =
     (let rc = rc\<lparr>ixa := ixa rc + len\<rparr>
      in if ixa rc = ixb rc then
           if ixc rc = 0 then make_ready_in rc else rc\<lparr>ixa := 5, ixb := 5\<rparr>
         else rc)"

definition sendpld_buf :: "('i, 'o) br_ssl_engine_context \<Rightarrow> nat option \<times> nat" where
  "sendpld_buf rc =
     (if iomode rc = BR_IO_OUT \<or> iomode rc = BR_IO_INOUT then
        let len = oxb rc - oxa rc in (if len = 0 then None else Some (the (obuf rc) + oxa rc), len)
      else (None, 0))"

definition sendpld_flush :: "('i, 'o) br_ssl_engine_context \<Rightarrow> bool \<Rightarrow> ('i, 'o) br_ssl_engine_context" where
  "sendpld_flush rc force =
     (if oxa rc = oxb rc then rc
      else
        let xlen = oxa rc - oxc rc
        in if xlen = 0 \<and> \<not> force then rc
           else
             let ((buf, xlen), m, c) = encrypt (out_vtable rc) (out_ctx rc) (record_type_out rc) (version_out rc)
                   (mem rc) (the (obuf rc) + oxc rc) xlen;
                 rc = rc\<lparr>mem := m, out_ctx := c\<rparr>;
                 rc = rc\<lparr>oxa := buf - the (obuf rc)\<rparr>;
                 rc = rc\<lparr>oxb := oxa rc\<rparr>
             in rc\<lparr>oxc := oxa rc + xlen\<rparr>)"

definition sendpld_ack :: "('i, 'o) br_ssl_engine_context \<Rightarrow> nat \<Rightarrow> ('i, 'o) br_ssl_engine_context" where
  "sendpld_ack rc len =
     (let rc = (if iomode rc = BR_IO_INOUT \<and> ibuf rc = obuf rc then rc\<lparr>iomode := BR_IO_OUT\<rparr> else rc);
          rc = rc\<lparr>oxa := oxa rc + len\<rparr>
      in if oxb rc \<le> oxa rc then sendpld_flush (rc\<lparr>oxb := oxa rc + 1\<rparr>) False else rc)"

definition sendrec_buf :: "('i, 'o) br_ssl_engine_context \<Rightarrow> nat option \<times> nat" where
  "sendrec_buf rc =
     (if (iomode rc = BR_IO_OUT \<or> iomode rc = BR_IO_INOUT) \<and> oxa rc < oxc rc then
        (Some (the (obuf rc) + oxa rc), oxc rc - oxa rc)
      else (None, 0))"

definition sendrec_ack :: "('i, 'o) br_ssl_engine_context \<Rightarrow> nat \<Rightarrow> ('i, 'o) br_ssl_engine_context" where
  "sendrec_ack rc len =
     (let rc = rc\<lparr>oxa := oxa rc + len\<rparr>;
          rc = rc\<lparr>oxb := oxa rc\<rparr>
      in if oxa rc = oxc rc then make_ready_out rc else rc)"

definition has_rec_tosend :: "('i, 'o) br_ssl_engine_context \<Rightarrow> bool" where
  "has_rec_tosend rc \<longleftrightarrow> oxa rc = oxb rc \<and> oxa rc \<noteq> oxc rc"

subsection \<open>The handshake processor and the operations of the engine\<close>

text \<open>What the processor is given in one pass of the loop, and what is done with what it used.\<close>

definition offer :: "nat \<Rightarrow> ('i, 'o) br_ssl_engine_context \<Rightarrow> ('i, 'o) br_ssl_engine_context" where
  "offer act cc =
     (let (b, hin) = recvpld_buf cc;
          cc = cc\<lparr>hbuf_in := b\<rparr>;
          hin = (if b \<noteq> None \<and> record_type_in cc = BR_SSL_APPLICATION_DATA then 0 else hin);
          (b, hout) = sendpld_buf cc;
          cc = cc\<lparr>hbuf_out := b, saved_hbuf_out := b\<rparr>;
          hout = (if b \<noteq> None \<and> br_ssl_engine_has_pld_to_send cc then 0 else hout)
      in cc\<lparr>hlen_in := hin, hlen_out := hout, action := act\<rparr>)"

definition take_out :: "('i, 'o) br_ssl_engine_context \<Rightarrow> ('i, 'o) br_ssl_engine_context" where
  "take_out cc = (if hbuf_out cc \<noteq> saved_hbuf_out cc then sendpld_ack cc (the (hbuf_out cc) - the (saved_hbuf_out cc)) else cc)"

text \<open>The loop of the source need not end for an arbitrary processor, hence the result \<^term>\<open>None\<close>.\<close>

partial_function (option) jump_handshake ::
  "(('i, 'o) br_ssl_engine_context \<Rightarrow> ('i, 'o) br_ssl_engine_context) \<Rightarrow> ('i, 'o) br_ssl_engine_context \<Rightarrow> nat
   \<Rightarrow> ('i, 'o) br_ssl_engine_context option" where
  "jump_handshake hs cc act =
     (let hin = hlen_in (offer act cc);
          cc = hs (offer act cc)
      in if br_ssl_engine_closed cc then Some cc
         else
           let cc = take_out cc
           in if hin \<noteq> hlen_in cc then
                let cc = recvpld_ack cc (hin - hlen_in cc)
                in if hlen_in cc = 0 then jump_handshake hs cc 0 else Some cc
              else Some cc)"

definition br_ssl_engine_flush_record :: "('i, 'o) br_ssl_engine_context \<Rightarrow> ('i, 'o) br_ssl_engine_context" where
  "br_ssl_engine_flush_record cc =
     (let cc = take_out cc;
          cc = (if br_ssl_engine_has_pld_to_send cc then sendpld_flush cc False else cc);
          (b, hout) = sendpld_buf cc
      in cc\<lparr>hbuf_out := b, saved_hbuf_out := b, hlen_out := hout\<rparr>)"

definition br_ssl_engine_sendapp_buf :: "('i, 'o) br_ssl_engine_context \<Rightarrow> nat option \<times> nat" where
  "br_ssl_engine_sendapp_buf cc = (if even (application_data cc) then (None, 0) else sendpld_buf cc)"

definition br_ssl_engine_sendapp_ack :: "('i, 'o) br_ssl_engine_context \<Rightarrow> nat \<Rightarrow> ('i, 'o) br_ssl_engine_context" where
  "br_ssl_engine_sendapp_ack cc len = sendpld_ack cc len"

definition br_ssl_engine_recvapp_buf :: "('i, 'o) br_ssl_engine_context \<Rightarrow> nat option \<times> nat" where
  "br_ssl_engine_recvapp_buf cc =
     (if even (application_data cc) \<or> record_type_in cc \<noteq> BR_SSL_APPLICATION_DATA then (None, 0) else recvpld_buf cc)"

definition br_ssl_engine_recvapp_ack :: "('i, 'o) br_ssl_engine_context \<Rightarrow> nat \<Rightarrow> ('i, 'o) br_ssl_engine_context" where
  "br_ssl_engine_recvapp_ack cc len = recvpld_ack cc len"

definition br_ssl_engine_sendrec_buf :: "('i, 'o) br_ssl_engine_context \<Rightarrow> nat option \<times> nat" where
  "br_ssl_engine_sendrec_buf cc = sendrec_buf cc"

definition br_ssl_engine_sendrec_ack ::
  "(('i, 'o) br_ssl_engine_context \<Rightarrow> ('i, 'o) br_ssl_engine_context) \<Rightarrow> ('i, 'o) br_ssl_engine_context \<Rightarrow> nat
   \<Rightarrow> ('i, 'o) br_ssl_engine_context option" where
  "br_ssl_engine_sendrec_ack hs cc len =
     (let cc = sendrec_ack cc len
      in if len \<noteq> 0 \<and> \<not> has_rec_tosend cc
            \<and> (record_type_out cc \<noteq> BR_SSL_APPLICATION_DATA \<or> even (application_data cc))
         then jump_handshake hs cc 0 else Some cc)"

definition br_ssl_engine_recvrec_buf :: "('i, 'o) br_ssl_engine_context \<Rightarrow> nat option \<times> nat" where
  "br_ssl_engine_recvrec_buf cc = recvrec_buf cc"

definition br_ssl_engine_recvrec_ack ::
  "(('i, 'o) br_ssl_engine_context \<Rightarrow> ('i, 'o) br_ssl_engine_context) \<Rightarrow> ('i, 'o) br_ssl_engine_context \<Rightarrow> nat
   \<Rightarrow> ('i, 'o) br_ssl_engine_context option" where
  "br_ssl_engine_recvrec_ack hs cc len =
     (let cc = recvrec_ack cc len
      in if br_ssl_engine_closed cc then Some cc
         else
           let (buf, len) = recvpld_buf cc;
               t = record_type_in cc
           in if buf = None then Some cc
              else if t = BR_SSL_CHANGE_CIPHER_SPEC \<or> t = BR_SSL_ALERT \<or> t = BR_SSL_HANDSHAKE then jump_handshake hs cc 0
              else if t = BR_SSL_APPLICATION_DATA \<and> application_data cc = 1 then Some cc
              else if t = BR_SSL_APPLICATION_DATA \<and> application_data cc = 2 then Some (recvpld_ack cc len)
              else Some (br_ssl_engine_fail cc BR_ERR_UNEXPECTED))"

definition br_ssl_engine_close ::
  "(('i, 'o) br_ssl_engine_context \<Rightarrow> ('i, 'o) br_ssl_engine_context) \<Rightarrow> ('i, 'o) br_ssl_engine_context
   \<Rightarrow> ('i, 'o) br_ssl_engine_context option" where
  "br_ssl_engine_close hs cc = (if \<not> br_ssl_engine_closed cc then jump_handshake hs cc 1 else Some cc)"

text \<open>The boolean is the result of the C function.\<close>

definition br_ssl_engine_renegotiate ::
  "(('i, 'o) br_ssl_engine_context \<Rightarrow> ('i, 'o) br_ssl_engine_context) \<Rightarrow> ('i, 'o) br_ssl_engine_context
   \<Rightarrow> (bool \<times> ('i, 'o) br_ssl_engine_context) option" where
  "br_ssl_engine_renegotiate hs cc =
     (if br_ssl_engine_closed cc \<or> reneg cc = 1 \<or> no_renegotiation cc \<or> fst (br_ssl_engine_recvapp_buf cc) \<noteq> None
      then Some (False, cc)
      else map_option (Pair True) (jump_handshake hs cc 2))"

definition BR_SSL_CLOSED :: u32 where "BR_SSL_CLOSED = 0x0001"
definition BR_SSL_SENDREC :: u32 where "BR_SSL_SENDREC = 0x0002"
definition BR_SSL_RECVREC :: u32 where "BR_SSL_RECVREC = 0x0004"
definition BR_SSL_SENDAPP :: u32 where "BR_SSL_SENDAPP = 0x0008"
definition BR_SSL_RECVAPP :: u32 where "BR_SSL_RECVAPP = 0x0010"

definition br_ssl_engine_current_state :: "('i, 'o) br_ssl_engine_context \<Rightarrow> u32" where
  "br_ssl_engine_current_state cc =
     (if br_ssl_engine_closed cc then BR_SSL_CLOSED
      else
        let s = 0;
            s = (if fst (br_ssl_engine_sendrec_buf cc) \<noteq> None then s OR BR_SSL_SENDREC else s);
            s = (if fst (br_ssl_engine_recvrec_buf cc) \<noteq> None then s OR BR_SSL_RECVREC else s);
            s = (if fst (br_ssl_engine_sendapp_buf cc) \<noteq> None then s OR BR_SSL_SENDAPP else s);
            s = (if fst (br_ssl_engine_recvapp_buf cc) \<noteq> None then s OR BR_SSL_RECVAPP else s)
        in s)"

definition br_ssl_engine_flush :: "('i, 'o) br_ssl_engine_context \<Rightarrow> bool \<Rightarrow> ('i, 'o) br_ssl_engine_context" where
  "br_ssl_engine_flush cc force =
     (if \<not> br_ssl_engine_closed cc \<and> odd (application_data cc) then sendpld_flush cc force else cc)"

text \<open>The stacks of the processor are part of \<open>hs\<close>; \<open>hsinit\<close> sets its entry point.\<close>

definition br_ssl_engine_hs_reset ::
  "(('i, 'o) br_ssl_engine_context \<Rightarrow> ('i, 'o) br_ssl_engine_context) \<Rightarrow> (('i, 'o) br_ssl_engine_context \<Rightarrow> ('i, 'o) br_ssl_engine_context)
   \<Rightarrow> ('i, 'o) br_ssl_engine_context \<Rightarrow> ('i, 'o) br_ssl_engine_context option" where
  "br_ssl_engine_hs_reset hsinit hs cc =
     (let cc = engine_clearbuf cc;
          cc = hsinit cc;
          cc = cc\<lparr>shutdown_recv := False, application_data := 0, alert := 0\<rparr>
      in jump_handshake hs cc 0)"

end
