(* ===== verification/SslEngineProps.thy ===== *)
theory SslEngineProps
  imports SslEngine
begin

section \<open>Invariant of the record engine\<close>

text \<open>
  The two register files as the comments of the source describe them, the contracts of the record
  ciphers and of the handshake processor, and the steps a client of the engine may take.
\<close>

definition header_phase :: "('i, 'o) br_ssl_engine_context \<Rightarrow> bool" where
  "header_phase rc \<longleftrightarrow> ixa rc = ixb rc \<and> ixa rc < 5 \<and> ixc rc = 5 - ixa rc"

text \<open>In the data of a record: waiting for more of it when \<open>ixa = ixb\<close>, else with payload to be read.\<close>

definition data_phase :: "('i, 'o) br_ssl_engine_context \<Rightarrow> bool" where
  "data_phase rc \<longleftrightarrow> 5 \<le> ixa rc \<and> ixa rc \<le> ixb rc \<and> ixb rc \<le> ibuf_len rc
     \<and> (ixa rc = ixb rc \<longrightarrow> 0 < ixc rc \<and> ixb rc < ibuf_len rc)
     \<and> (if incrypt rc then (if ixa rc = ixb rc then ixb rc else 5) + ixc rc \<le> ibuf_len rc
        else ixa rc = ixb rc \<longrightarrow> ixa rc = 5)
     \<and> (incrypt rc \<and> 0 < ixc rc \<longrightarrow>
          check_length (in_vtable rc) (in_ctx rc) ((if ixa rc = ixb rc then ixa rc - 5 else 0) + ixc rc))"

definition in_ok :: "('i, 'o) br_ssl_engine_context \<Rightarrow> bool" where
  "in_ok rc \<longleftrightarrow> header_phase rc \<or> data_phase rc"

definition window :: "('i, 'o) br_ssl_engine_context \<Rightarrow> nat \<times> nat" where
  "window rc = max_plaintext (out_vtable rc) (out_ctx rc) 5 (obuf_len rc - 5)"

definition filling :: "('i, 'o) br_ssl_engine_context \<Rightarrow> bool" where
  "filling rc \<longleftrightarrow> oxc rc = fst (window rc) \<and> oxc rc \<le> oxa rc \<and> oxa rc < oxb rc \<and> oxb rc \<le> snd (window rc)"

definition sending :: "('i, 'o) br_ssl_engine_context \<Rightarrow> bool" where
  "sending rc \<longleftrightarrow> oxa rc = oxb rc \<and> oxa rc < oxc rc \<and> oxc rc \<le> obuf_len rc"

definition out_ok :: "('i, 'o) br_ssl_engine_context \<Rightarrow> bool" where
  "out_ok rc \<longleftrightarrow> filling rc \<or> sending rc"

definition bufs_ok :: "('i, 'o) br_ssl_engine_context \<Rightarrow> bool" where
  "bufs_ok rc \<longleftrightarrow> (\<exists>i j. ibuf rc = Some i \<and> obuf rc = Some j \<and> i + ibuf_len rc \<le> length (mem rc) \<and> j + obuf_len rc \<le> length (mem rc))
     \<and> 512 + 325 \<le> ibuf_len rc \<and> 512 + 85 \<le> obuf_len rc \<and> 0 < max_frag_len rc"

text \<open>Memory that differs at most in the bytes from \<open>a\<close> to below \<open>b\<close>.\<close>

definition same_outside :: "nat \<Rightarrow> nat \<Rightarrow> u8 list \<Rightarrow> u8 list \<Rightarrow> bool" where
  "same_outside a b m m' \<longleftrightarrow> length m' = length m \<and> (\<forall>k. k < a \<or> b \<le> k \<longrightarrow> m' ! k = m ! k)"

definition out_contract :: "'o br_sslrec_out_class \<Rightarrow> ('o \<Rightarrow> bool) \<Rightarrow> bool" where
  "out_contract v good \<longleftrightarrow> (\<forall>c len. good c \<and> 512 + 85 \<le> len \<longrightarrow>
     (let (a, b) = max_plaintext v c 5 (len - 5)
      in 5 \<le> a \<and> a < b \<and> b \<le> len
       \<and> (\<forall>t ver m base n. a + n \<le> b \<and> base + len \<le> length m \<longrightarrow>
            (let ((s, l), m', c') = encrypt v c t ver m (base + a) n
             in base \<le> s \<and> 0 < l \<and> s + l \<le> base + len \<and> same_outside base (base + len) m m' \<and> good c'))))"

definition in_contract :: "'i br_sslrec_in_class \<Rightarrow> ('i \<Rightarrow> bool) \<Rightarrow> bool" where
  "in_contract v good \<longleftrightarrow> (\<forall>c t ver m base n. good c \<and> check_length v c n \<and> base + n \<le> length m \<longrightarrow>
     (let (r, m', c') = decrypt v c t ver m base n
      in same_outside base (base + n) m m' \<and> good c'
       \<and> (case r of None \<Rightarrow> True | Some (p, l) \<Rightarrow> base \<le> p \<and> p + l \<le> base + n)))"

definition ciphers_ok :: "('i, 'o) br_ssl_engine_context \<Rightarrow> bool" where
  "ciphers_ok rc \<longleftrightarrow> (\<exists>good. out_contract (out_vtable rc) good \<and> good (out_ctx rc))
     \<and> (incrypt rc \<longrightarrow> (\<exists>good. in_contract (in_vtable rc) good \<and> good (in_ctx rc)))"

definition running :: "('i, 'o) br_ssl_engine_context \<Rightarrow> bool" where
  "running rc \<longleftrightarrow> bufs_ok rc \<and> in_ok rc \<and> out_ok rc \<and> ciphers_ok rc"

definition engine_ok :: "('i, 'o) br_ssl_engine_context \<Rightarrow> bool" where
  "engine_ok rc \<longleftrightarrow> br_ssl_engine_closed rc \<or> running rc"

text \<open>The same buffers, and no other memory touched.\<close>

definition keeps :: "('i, 'o) br_ssl_engine_context \<Rightarrow> ('i, 'o) br_ssl_engine_context \<Rightarrow> bool" where
  "keeps rc rc' \<longleftrightarrow> ibuf rc' = ibuf rc \<and> obuf rc' = obuf rc \<and> ibuf_len rc' = ibuf_len rc \<and> obuf_len rc' = obuf_len rc
     \<and> length (mem rc') = length (mem rc)
     \<and> (\<forall>k. (k < the (ibuf rc) \<or> the (ibuf rc) + ibuf_len rc \<le> k) \<and> (k < the (obuf rc) \<or> the (obuf rc) + obuf_len rc \<le> k)
          \<longrightarrow> mem rc' ! k = mem rc ! k)"

lemma keeps_refl [intro, simp]: "keeps rc rc"
  by (simp add: keeps_def)

lemma keeps_trans: "keeps a b \<Longrightarrow> keeps b c \<Longrightarrow> keeps a c"
  by (simp add: keeps_def)

lemma same_outside_refl [simp]: "same_outside a b m m"
  by (simp add: same_outside_def)

subsection \<open>Records without encryption satisfy the contract\<close>

lemma same_outside_trans: "same_outside a b m m' \<Longrightarrow> same_outside a b m' m'' \<Longrightarrow> same_outside a b m m''"
  by (simp add: same_outside_def)

lemma length_store [simp]: "a + length bs \<le> length m \<Longrightarrow> length (store a bs m) = length m"
  by (simp add: store_def)

lemma nth_store: "a + length bs \<le> length m \<Longrightarrow> k < a \<or> a + length bs \<le> k \<Longrightarrow> store a bs m ! k = m ! k"
  by (auto simp: store_def nth_append min_absorb2)

lemma store_same: "a + length bs \<le> length m \<Longrightarrow> lo \<le> a \<Longrightarrow> a + length bs \<le> hi \<Longrightarrow> same_outside lo hi m (store a bs m)"
  unfolding same_outside_def by (simp add: nth_store)

lemma clear_contract: "out_contract br_sslrec_out_clear_vtable (\<lambda>c. True)"
proof -
  have enc: "base \<le> base \<and> 0 < n + 5 \<and> base + (n + 5) \<le> base + len
      \<and> same_outside base (base + len) m (store base ([t] @ br_enc16be ver @ br_enc16be (of_nat n)) m)"
    if "5 + n \<le> b" "base + len \<le> length m" "512 + 85 \<le> len" "b \<le> len" for base n len m t ver b
    using that by (intro conjI store_same) simp_all
  have w: "5 \<le> fst (clear_max_plaintext c 5 (len - 5)) \<and> fst (clear_max_plaintext c 5 (len - 5)) < snd (clear_max_plaintext c 5 (len - 5))
      \<and> snd (clear_max_plaintext c 5 (len - 5)) \<le> len \<and> fst (clear_max_plaintext c 5 (len - 5)) = 5"
    if "512 + 85 \<le> len" for c :: 'b and len
    using that by (auto simp: clear_max_plaintext_def Let_def)
  show ?thesis
    unfolding out_contract_def br_sslrec_out_clear_vtable_def br_sslrec_out_class.simps clear_encrypt_def Let_def prod.case case_prod_unfold fst_conv snd_conv
    using w enc by fastforce
qed

subsection \<open>Every operation keeps the registers well formed\<close>

lemma make_ready_in_eq:
  "make_ready_in rc = rc\<lparr>ixa := 0, ixb := 0, ixc := 5, iomode := (if iomode rc = BR_IO_IN then BR_IO_INOUT else iomode rc)\<rparr>"
  by (simp add: make_ready_in_def Let_def)

lemma make_ready_out_eq:
  "make_ready_out rc =
     rc\<lparr>oxa := fst (window rc), oxc := fst (window rc),
        oxb := (if max_frag_len rc < snd (window rc) - fst (window rc) then fst (window rc) + max_frag_len rc else snd (window rc)),
        iomode := (if iomode rc = BR_IO_OUT then BR_IO_INOUT else iomode rc)\<rparr>"
  by (simp add: make_ready_out_def window_def Let_def case_prod_unfold)

lemmas running_defs = running_def bufs_ok_def in_ok_def out_ok_def ciphers_ok_def header_phase_def data_phase_def filling_def sending_def
  window_def

lemma window_bounds:
  assumes "bufs_ok rc" "ciphers_ok rc"
  shows "5 \<le> fst (window rc) \<and> fst (window rc) < snd (window rc) \<and> snd (window rc) \<le> obuf_len rc"
  using assms unfolding ciphers_ok_def out_contract_def window_def bufs_ok_def by (fastforce simp: case_prod_unfold Let_def)

lemma out_ok_make_ready_in [simp]: "out_ok (make_ready_in rc) = out_ok rc"
  by (simp add: make_ready_in_eq running_defs)

lemma ciphers_ok_make_ready_in [simp]: "ciphers_ok (make_ready_in rc) = ciphers_ok rc"
  by (simp add: make_ready_in_eq running_defs)

lemma bufs_ok_make_ready_in [simp]: "bufs_ok (make_ready_in rc) = bufs_ok rc"
  by (simp add: make_ready_in_eq running_defs)

lemma in_ok_make_ready_in [simp]: "in_ok (make_ready_in rc)"
  by (simp add: make_ready_in_eq running_defs)

lemma keeps_make_ready_in [simp]: "keeps rc (make_ready_in rc)"
  by (simp add: make_ready_in_eq keeps_def)

lemma in_ok_make_ready_out [simp]: "in_ok (make_ready_out rc) = in_ok rc"
  by (simp add: make_ready_out_eq running_defs)

lemma ciphers_ok_make_ready_out [simp]: "ciphers_ok (make_ready_out rc) = ciphers_ok rc"
  by (simp add: make_ready_out_eq running_defs)

lemma bufs_ok_make_ready_out [simp]: "bufs_ok (make_ready_out rc) = bufs_ok rc"
  by (simp add: make_ready_out_eq running_defs)

lemma keeps_make_ready_out [simp]: "keeps rc (make_ready_out rc)"
  by (simp add: make_ready_out_eq keeps_def)

lemma out_ok_make_ready_out: "bufs_ok rc \<Longrightarrow> ciphers_ok rc \<Longrightarrow> out_ok (make_ready_out rc)"
  using window_bounds [of rc] unfolding out_ok_def filling_def make_ready_out_eq window_def [of "rc\<lparr>oxa := _\<rparr>"]
  by (auto simp: window_def bufs_ok_def)

lemma running_make_ready_in: "bufs_ok rc \<Longrightarrow> out_ok rc \<Longrightarrow> ciphers_ok rc \<Longrightarrow> running (make_ready_in rc)"
  by (simp add: running_def)

lemma running_make_ready_out: "bufs_ok rc \<Longrightarrow> in_ok rc \<Longrightarrow> ciphers_ok rc \<Longrightarrow> running (make_ready_out rc)"
  by (simp add: running_def out_ok_make_ready_out)

text \<open>Changes of the other fields.\<close>

lemma in_ok_upd [simp]:
  "in_ok (rc\<lparr>mem := x0\<rparr>) = in_ok rc"
  "in_ok (rc\<lparr>out_ctx := x1\<rparr>) = in_ok rc"
  "in_ok (rc\<lparr>oxa := x2\<rparr>) = in_ok rc"
  "in_ok (rc\<lparr>oxb := x3\<rparr>) = in_ok rc"
  "in_ok (rc\<lparr>oxc := x4\<rparr>) = in_ok rc"
  "in_ok (rc\<lparr>iomode := x5\<rparr>) = in_ok rc"
  "in_ok (rc\<lparr>record_type_in := x8\<rparr>) = in_ok rc"
  "in_ok (rc\<lparr>record_type_out := x9\<rparr>) = in_ok rc"
  "in_ok (rc\<lparr>version_in := x10\<rparr>) = in_ok rc"
  "in_ok (rc\<lparr>version_out := x11\<rparr>) = in_ok rc"
  "in_ok (rc\<lparr>application_data := x12\<rparr>) = in_ok rc"
  "in_ok (rc\<lparr>reneg := x13\<rparr>) = in_ok rc"
  "in_ok (rc\<lparr>no_renegotiation := x14\<rparr>) = in_ok rc"
  "in_ok (rc\<lparr>hbuf_in := x15\<rparr>) = in_ok rc"
  "in_ok (rc\<lparr>hbuf_out := x16\<rparr>) = in_ok rc"
  "in_ok (rc\<lparr>saved_hbuf_out := x17\<rparr>) = in_ok rc"
  "in_ok (rc\<lparr>hlen_in := x18\<rparr>) = in_ok rc"
  "in_ok (rc\<lparr>hlen_out := x19\<rparr>) = in_ok rc"
  "in_ok (rc\<lparr>action := x20\<rparr>) = in_ok rc"
  "in_ok (rc\<lparr>alert := x21\<rparr>) = in_ok rc"
  "in_ok (rc\<lparr>shutdown_recv := x22\<rparr>) = in_ok rc"
  by (simp_all add: in_ok_def header_phase_def data_phase_def)

lemma out_ok_upd [simp]:
  "out_ok (rc\<lparr>mem := x0\<rparr>) = out_ok rc"
  "out_ok (rc\<lparr>ixa := x1\<rparr>) = out_ok rc"
  "out_ok (rc\<lparr>ixb := x2\<rparr>) = out_ok rc"
  "out_ok (rc\<lparr>ixc := x3\<rparr>) = out_ok rc"
  "out_ok (rc\<lparr>iomode := x4\<rparr>) = out_ok rc"
  "out_ok (rc\<lparr>in_ctx := x5\<rparr>) = out_ok rc"
  "out_ok (rc\<lparr>incrypt := x6\<rparr>) = out_ok rc"
  "out_ok (rc\<lparr>record_type_in := x7\<rparr>) = out_ok rc"
  "out_ok (rc\<lparr>record_type_out := x8\<rparr>) = out_ok rc"
  "out_ok (rc\<lparr>version_in := x9\<rparr>) = out_ok rc"
  "out_ok (rc\<lparr>version_out := x10\<rparr>) = out_ok rc"
  "out_ok (rc\<lparr>application_data := x11\<rparr>) = out_ok rc"
  "out_ok (rc\<lparr>reneg := x12\<rparr>) = out_ok rc"
  "out_ok (rc\<lparr>no_renegotiation := x13\<rparr>) = out_ok rc"
  "out_ok (rc\<lparr>hbuf_in := x14\<rparr>) = out_ok rc"
  "out_ok (rc\<lparr>hbuf_out := x15\<rparr>) = out_ok rc"
  "out_ok (rc\<lparr>saved_hbuf_out := x16\<rparr>) = out_ok rc"
  "out_ok (rc\<lparr>hlen_in := x17\<rparr>) = out_ok rc"
  "out_ok (rc\<lparr>hlen_out := x18\<rparr>) = out_ok rc"
  "out_ok (rc\<lparr>action := x19\<rparr>) = out_ok rc"
  "out_ok (rc\<lparr>alert := x20\<rparr>) = out_ok rc"
  "out_ok (rc\<lparr>shutdown_recv := x21\<rparr>) = out_ok rc"
  by (simp_all add: out_ok_def filling_def sending_def window_def)

lemma ciphers_ok_upd [simp]:
  "ciphers_ok (rc\<lparr>mem := x0\<rparr>) = ciphers_ok rc"
  "ciphers_ok (rc\<lparr>ixa := x1\<rparr>) = ciphers_ok rc"
  "ciphers_ok (rc\<lparr>ixb := x2\<rparr>) = ciphers_ok rc"
  "ciphers_ok (rc\<lparr>ixc := x3\<rparr>) = ciphers_ok rc"
  "ciphers_ok (rc\<lparr>oxa := x4\<rparr>) = ciphers_ok rc"
  "ciphers_ok (rc\<lparr>oxb := x5\<rparr>) = ciphers_ok rc"
  "ciphers_ok (rc\<lparr>oxc := x6\<rparr>) = ciphers_ok rc"
  "ciphers_ok (rc\<lparr>iomode := x7\<rparr>) = ciphers_ok rc"
  "ciphers_ok (rc\<lparr>record_type_in := x8\<rparr>) = ciphers_ok rc"
  "ciphers_ok (rc\<lparr>record_type_out := x9\<rparr>) = ciphers_ok rc"
  "ciphers_ok (rc\<lparr>version_in := x10\<rparr>) = ciphers_ok rc"
  "ciphers_ok (rc\<lparr>version_out := x11\<rparr>) = ciphers_ok rc"
  "ciphers_ok (rc\<lparr>application_data := x12\<rparr>) = ciphers_ok rc"
  "ciphers_ok (rc\<lparr>reneg := x13\<rparr>) = ciphers_ok rc"
  "ciphers_ok (rc\<lparr>no_renegotiation := x14\<rparr>) = ciphers_ok rc"
  "ciphers_ok (rc\<lparr>hbuf_in := x15\<rparr>) = ciphers_ok rc"
  "ciphers_ok (rc\<lparr>hbuf_out := x16\<rparr>) = ciphers_ok rc"
  "ciphers_ok (rc\<lparr>saved_hbuf_out := x17\<rparr>) = ciphers_ok rc"
  "ciphers_ok (rc\<lparr>hlen_in := x18\<rparr>) = ciphers_ok rc"
  "ciphers_ok (rc\<lparr>hlen_out := x19\<rparr>) = ciphers_ok rc"
  "ciphers_ok (rc\<lparr>action := x20\<rparr>) = ciphers_ok rc"
  "ciphers_ok (rc\<lparr>alert := x21\<rparr>) = ciphers_ok rc"
  "ciphers_ok (rc\<lparr>shutdown_recv := x22\<rparr>) = ciphers_ok rc"
  by (simp_all add: ciphers_ok_def)

lemma bufs_ok_upd [simp]:
  "bufs_ok (rc\<lparr>ixa := x0\<rparr>) = bufs_ok rc"
  "bufs_ok (rc\<lparr>ixb := x1\<rparr>) = bufs_ok rc"
  "bufs_ok (rc\<lparr>ixc := x2\<rparr>) = bufs_ok rc"
  "bufs_ok (rc\<lparr>oxa := x3\<rparr>) = bufs_ok rc"
  "bufs_ok (rc\<lparr>oxb := x4\<rparr>) = bufs_ok rc"
  "bufs_ok (rc\<lparr>oxc := x5\<rparr>) = bufs_ok rc"
  "bufs_ok (rc\<lparr>iomode := x6\<rparr>) = bufs_ok rc"
  "bufs_ok (rc\<lparr>in_ctx := x7\<rparr>) = bufs_ok rc"
  "bufs_ok (rc\<lparr>out_ctx := x8\<rparr>) = bufs_ok rc"
  "bufs_ok (rc\<lparr>incrypt := x9\<rparr>) = bufs_ok rc"
  "bufs_ok (rc\<lparr>record_type_in := x10\<rparr>) = bufs_ok rc"
  "bufs_ok (rc\<lparr>record_type_out := x11\<rparr>) = bufs_ok rc"
  "bufs_ok (rc\<lparr>version_in := x12\<rparr>) = bufs_ok rc"
  "bufs_ok (rc\<lparr>version_out := x13\<rparr>) = bufs_ok rc"
  "bufs_ok (rc\<lparr>application_data := x14\<rparr>) = bufs_ok rc"
  "bufs_ok (rc\<lparr>reneg := x15\<rparr>) = bufs_ok rc"
  "bufs_ok (rc\<lparr>no_renegotiation := x16\<rparr>) = bufs_ok rc"
  "bufs_ok (rc\<lparr>hbuf_in := x17\<rparr>) = bufs_ok rc"
  "bufs_ok (rc\<lparr>hbuf_out := x18\<rparr>) = bufs_ok rc"
  "bufs_ok (rc\<lparr>saved_hbuf_out := x19\<rparr>) = bufs_ok rc"
  "bufs_ok (rc\<lparr>hlen_in := x20\<rparr>) = bufs_ok rc"
  "bufs_ok (rc\<lparr>hlen_out := x21\<rparr>) = bufs_ok rc"
  "bufs_ok (rc\<lparr>action := x22\<rparr>) = bufs_ok rc"
  "bufs_ok (rc\<lparr>alert := x23\<rparr>) = bufs_ok rc"
  "bufs_ok (rc\<lparr>shutdown_recv := x24\<rparr>) = bufs_ok rc"
  by (simp_all add: bufs_ok_def)

lemma keeps_upd [simp]:
  "keeps rc0 (rc\<lparr>ixa := x0\<rparr>) = keeps rc0 rc"
  "keeps rc0 (rc\<lparr>ixb := x1\<rparr>) = keeps rc0 rc"
  "keeps rc0 (rc\<lparr>ixc := x2\<rparr>) = keeps rc0 rc"
  "keeps rc0 (rc\<lparr>oxa := x3\<rparr>) = keeps rc0 rc"
  "keeps rc0 (rc\<lparr>oxb := x4\<rparr>) = keeps rc0 rc"
  "keeps rc0 (rc\<lparr>oxc := x5\<rparr>) = keeps rc0 rc"
  "keeps rc0 (rc\<lparr>iomode := x6\<rparr>) = keeps rc0 rc"
  "keeps rc0 (rc\<lparr>in_ctx := x7\<rparr>) = keeps rc0 rc"
  "keeps rc0 (rc\<lparr>out_ctx := x8\<rparr>) = keeps rc0 rc"
  "keeps rc0 (rc\<lparr>incrypt := x9\<rparr>) = keeps rc0 rc"
  "keeps rc0 (rc\<lparr>record_type_in := x10\<rparr>) = keeps rc0 rc"
  "keeps rc0 (rc\<lparr>record_type_out := x11\<rparr>) = keeps rc0 rc"
  "keeps rc0 (rc\<lparr>version_in := x12\<rparr>) = keeps rc0 rc"
  "keeps rc0 (rc\<lparr>version_out := x13\<rparr>) = keeps rc0 rc"
  "keeps rc0 (rc\<lparr>application_data := x14\<rparr>) = keeps rc0 rc"
  "keeps rc0 (rc\<lparr>reneg := x15\<rparr>) = keeps rc0 rc"
  "keeps rc0 (rc\<lparr>no_renegotiation := x16\<rparr>) = keeps rc0 rc"
  "keeps rc0 (rc\<lparr>hbuf_in := x17\<rparr>) = keeps rc0 rc"
  "keeps rc0 (rc\<lparr>hbuf_out := x18\<rparr>) = keeps rc0 rc"
  "keeps rc0 (rc\<lparr>saved_hbuf_out := x19\<rparr>) = keeps rc0 rc"
  "keeps rc0 (rc\<lparr>hlen_in := x20\<rparr>) = keeps rc0 rc"
  "keeps rc0 (rc\<lparr>hlen_out := x21\<rparr>) = keeps rc0 rc"
  "keeps rc0 (rc\<lparr>action := x22\<rparr>) = keeps rc0 rc"
  "keeps rc0 (rc\<lparr>alert := x23\<rparr>) = keeps rc0 rc"
  "keeps rc0 (rc\<lparr>shutdown_recv := x24\<rparr>) = keeps rc0 rc"
  by (simp_all add: keeps_def)

lemma fail_cases: "br_ssl_engine_closed (br_ssl_engine_fail rc e)"
  by (simp add: br_ssl_engine_fail_def br_ssl_engine_closed_def)

lemma keeps_fail [simp]: "keeps rc (br_ssl_engine_fail rc' e) = keeps rc rc'"
  by (simp add: br_ssl_engine_fail_def keeps_def)

lemma engine_ok_fail [simp]: "engine_ok (br_ssl_engine_fail rc e)"
  by (simp add: engine_ok_def fail_cases)

text \<open>Sealing a record that holds some payload.\<close>

lemma encrypt_step:
  assumes "out_contract (out_vtable rc) good" "good (out_ctx rc)" "bufs_ok rc" "oxc rc = fst (window rc)" "oxc rc + n \<le> snd (window rc)"
    and "encrypt (out_vtable rc) (out_ctx rc) t ver (mem rc) (the (obuf rc) + oxc rc) n = ((s, l), m', c')"
  shows "the (obuf rc) \<le> s \<and> 0 < l \<and> s + l \<le> the (obuf rc) + obuf_len rc
    \<and> same_outside (the (obuf rc)) (the (obuf rc) + obuf_len rc) (mem rc) m' \<and> good c'"
proof -
  obtain a b where w: "max_plaintext (out_vtable rc) (out_ctx rc) 5 (obuf_len rc - 5) = (a, b)" by fastforce
  have b: "512 + 85 \<le> obuf_len rc" "the (obuf rc) + obuf_len rc \<le> length (mem rc)"
    using assms(3) by (auto simp: bufs_ok_def)
  have "\<forall>t ver m base n. a + n \<le> b \<and> base + obuf_len rc \<le> length m \<longrightarrow>
      (let ((s, l), m', c') = encrypt (out_vtable rc) (out_ctx rc) t ver m (base + a) n
       in base \<le> s \<and> 0 < l \<and> s + l \<le> base + obuf_len rc \<and> same_outside base (base + obuf_len rc) m m' \<and> good c')"
    using assms(1) [unfolded out_contract_def, rule_format, of "out_ctx rc" "obuf_len rc"] assms(2) b(1) w
    by (simp add: Let_def)
  from this [rule_format, of n "the (obuf rc)" "mem rc" t ver] show ?thesis
    using assms(4-6) b w by (simp add: window_def)
qed

lemma sendpld_flush_running:
  assumes "bufs_ok rc" "in_ok rc" "ciphers_ok rc" and "oxc rc = fst (window rc)" "oxc rc \<le> oxa rc" "oxa rc \<le> snd (window rc)" "oxa rc \<noteq> oxb rc"
    and "oxa rc \<noteq> oxc rc \<or> force \<or> filling rc"
  shows "running (sendpld_flush rc force) \<and> keeps rc (sendpld_flush rc force)"
proof (cases "oxa rc - oxc rc = 0 \<and> \<not> force")
  case True
  then have "sendpld_flush rc force = rc" "filling rc" using assms by (auto simp: sendpld_flush_def)
  then show ?thesis using assms by (simp add: running_def out_ok_def)
next
  case False
  obtain s l m' c' where e: "encrypt (out_vtable rc) (out_ctx rc) (record_type_out rc) (version_out rc) (mem rc)
      (the (obuf rc) + oxc rc) (oxa rc - oxc rc) = ((s, l), m', c')" by (metis prod.exhaust_sel)
  let ?rc = "rc\<lparr>mem := m', out_ctx := c', oxa := s - the (obuf rc), oxb := s - the (obuf rc), oxc := s - the (obuf rc) + l\<rparr>"
  have eq: "sendpld_flush rc force = ?rc"
    using False assms(7) e unfolding sendpld_flush_def Let_def by auto
  obtain good where g: "out_contract (out_vtable rc) good" "good (out_ctx rc)" using assms(3) by (auto simp: ciphers_ok_def)
  have le: "oxc rc + (oxa rc - oxc rc) \<le> snd (window rc)" using assms(5,6) by simp
  have s: "the (obuf rc) \<le> s" "0 < l" "s + l \<le> the (obuf rc) + obuf_len rc"
      "same_outside (the (obuf rc)) (the (obuf rc) + obuf_len rc) (mem rc) m'" "good c'"
    using encrypt_step [OF g assms(1,4) le e] by auto
  have "bufs_ok ?rc" using assms(1) s(4) by (simp add: bufs_ok_def same_outside_def)
  moreover have "in_ok ?rc" using assms(2) by simp
  moreover have "ciphers_ok ?rc" using assms(3) g(1) s(5) by (auto simp: ciphers_ok_def)
  moreover have "sending ?rc" using s(1-3) by (auto simp: sending_def)
  moreover have "keeps rc ?rc" using s(4) by (auto simp: keeps_def same_outside_def)
  ultimately show ?thesis unfolding eq running_def out_ok_def by blast
qed

lemma sendpld_ack_running:
  assumes "running rc" "filling rc" "n \<le> oxb rc - oxa rc"
  shows "running (sendpld_ack rc n) \<and> keeps rc (sendpld_ack rc n)"
proof -
  let ?rc = "rc\<lparr>iomode := (if iomode rc = BR_IO_INOUT \<and> ibuf rc = obuf rc then BR_IO_OUT else iomode rc), oxa := oxa rc + n\<rparr>"
  have eq: "sendpld_ack rc n = (if oxb rc \<le> oxa rc + n then sendpld_flush (?rc\<lparr>oxb := oxa rc + n + 1\<rparr>) False else ?rc)"
    by (simp add: sendpld_ack_def Let_def)
  have r: "bufs_ok (?rc\<lparr>oxb := x\<rparr>)" "in_ok (?rc\<lparr>oxb := x\<rparr>)" "ciphers_ok (?rc\<lparr>oxb := x\<rparr>)" "window (?rc\<lparr>oxb := x\<rparr>) = window rc"
      "keeps rc (?rc\<lparr>oxb := x\<rparr>)" "bufs_ok ?rc" "in_ok ?rc" "ciphers_ok ?rc" "window ?rc = window rc" "keeps rc ?rc" for x
    using assms(1) by (simp_all add: running_def window_def)
  show ?thesis
  proof (cases "oxb rc \<le> oxa rc + n")
    case True
    have "running (sendpld_flush (?rc\<lparr>oxb := oxa rc + n + 1\<rparr>) False)
        \<and> keeps (?rc\<lparr>oxb := oxa rc + n + 1\<rparr>) (sendpld_flush (?rc\<lparr>oxb := oxa rc + n + 1\<rparr>) False)"
      using assms(2,3) True by (intro sendpld_flush_running r) (simp_all add: r(4), auto simp: filling_def)
    then show ?thesis using True keeps_trans [OF r(5)] unfolding eq if_P [OF True] by blast
  next
    case False
    then have "filling ?rc" using assms(2,3) unfolding filling_def r(9) by simp
    then show ?thesis using r False unfolding eq running_def out_ok_def by simp
  qed
qed

lemma sendrec_ack_running:
  assumes "running rc" "sending rc \<or> filling rc" "n \<le> oxc rc - oxa rc" "0 < n"
  shows "running (sendrec_ack rc n) \<and> keeps rc (sendrec_ack rc n)"
proof -
  have b: "oxa rc < oxc rc" using assms(3,4) by simp
  then have s: "sending rc" using assms(2) by (auto simp: filling_def)
  let ?rc = "rc\<lparr>oxa := oxa rc + n, oxb := oxa rc + n\<rparr>"
  have r: "bufs_ok ?rc" "in_ok ?rc" "ciphers_ok ?rc" "keeps rc ?rc"
    using assms(1) by (simp_all add: running_def)
  show ?thesis
  proof (cases "oxa rc + n = oxc rc")
    case True
    then have "sendrec_ack rc n = make_ready_out ?rc" by (simp add: sendrec_ack_def Let_def)
    then show ?thesis using running_make_ready_out [OF r(1-3)] keeps_trans [OF r(4) keeps_make_ready_out] by simp
  next
    case False
    then have eq: "sendrec_ack rc n = ?rc" by (simp add: sendrec_ack_def Let_def)
    have "sending ?rc" using s False assms(3) b by (simp add: sending_def)
    then show ?thesis unfolding eq using r by (simp add: running_def out_ok_def)
  qed
qed

lemma recvpld_ack_running:
  assumes "running rc" "data_phase rc" "ixa rc \<noteq> ixb rc" "n \<le> ixb rc - ixa rc"
  shows "running (recvpld_ack rc n) \<and> keeps rc (recvpld_ack rc n)"
proof -
  let ?rc = "rc\<lparr>ixa := ixa rc + n\<rparr>"
  have r: "bufs_ok ?rc" "out_ok ?rc" "ciphers_ok ?rc" "keeps rc ?rc"
    using assms(1) by (simp_all add: running_def)
  consider (more) "ixa rc + n \<noteq> ixb rc" | (fresh) "ixa rc + n = ixb rc" "ixc rc = 0" | (rest) "ixa rc + n = ixb rc" "ixc rc \<noteq> 0"
    by blast
  then show ?thesis
  proof cases
    case more
    then have "data_phase ?rc" using assms(2-4) by (auto simp: data_phase_def split: if_splits)
    then show ?thesis using more r by (simp add: recvpld_ack_def Let_def running_def in_ok_def)
  next
    case fresh
    then show ?thesis using r running_make_ready_in [OF r(1-3)] keeps_trans [OF r(4) keeps_make_ready_in] by (simp add: recvpld_ack_def Let_def)
  next
    case rest
    have "512 \<le> ibuf_len rc" using r(1) by (simp add: bufs_ok_def)
    then have "data_phase (?rc\<lparr>ixa := 5, ixb := 5\<rparr>)"
      using assms(2,3) rest by (simp add: data_phase_def split: if_splits)
    then show ?thesis using rest r by (simp add: recvpld_ack_def Let_def running_def in_ok_def)
  qed
qed

lemma recv_header_ok:
  assumes "bufs_ok rc" "out_ok rc" "ciphers_ok rc"
  shows "engine_ok (recv_header rc) \<and> keeps rc (recv_header rc)"
proof -
  have len: "512 \<le> ibuf_len rc" using assms(1) by (simp add: bufs_ok_def)
  let ?rc = "\<lambda>v. rc\<lparr>record_type_in := mem rc ! the (ibuf rc), version_in := v\<rparr>"
  have mk: "running (make_ready_in (?rc v)) \<and> keeps rc (make_ready_in (?rc v))" for v
    using assms by (intro conjI running_make_ready_in keeps_trans [OF _ keeps_make_ready_in]) simp_all
  have dt: "running ((?rc v)\<lparr>ixa := 5, ixb := 5, ixc := n\<rparr>)"
    if "0 < n" "incrypt rc \<Longrightarrow> n \<le> ibuf_len rc - 5" "incrypt rc \<Longrightarrow> check_length (in_vtable rc) (in_ctx rc) n" for v n
  proof -
    have "data_phase ((?rc v)\<lparr>ixa := 5, ixb := 5, ixc := n\<rparr>)"
      using that len by (auto simp: data_phase_def)
    then show ?thesis using assms by (simp add: running_def in_ok_def)
  qed
  show ?thesis
    unfolding recv_header_def Let_def
    using mk dt by (auto simp: engine_ok_def fail_cases not_less)
qed

lemma recv_decrypt_ok:
  assumes "bufs_ok rc" "out_ok rc" "ciphers_ok rc" "incrypt rc" "5 \<le> ixa rc" "ixa rc \<le> ibuf_len rc" "ixc rc = 0"
    and "check_length (in_vtable rc) (in_ctx rc) (ixa rc - 5)"
  shows "engine_ok (recv_decrypt rc) \<and> keeps rc (recv_decrypt rc)"
proof -
  obtain good where g: "in_contract (in_vtable rc) good" "good (in_ctx rc)" using assms(3,4) by (auto simp: ciphers_ok_def)
  obtain r m' c' where d: "decrypt (in_vtable rc) (in_ctx rc) (record_type_in rc) (version_in rc) (mem rc) (the (ibuf rc) + 5) (ixa rc - 5)
      = (r, m', c')" by (metis prod.exhaust_sel)
  have i: "the (ibuf rc) + ibuf_len rc \<le> length (mem rc)" using assms(1) by (auto simp: bufs_ok_def)
  have s: "same_outside (the (ibuf rc) + 5) (the (ibuf rc) + 5 + (ixa rc - 5)) (mem rc) m'" "good c'"
      "\<And>p l. r = Some (p, l) \<Longrightarrow> the (ibuf rc) + 5 \<le> p \<and> p + l \<le> the (ibuf rc) + ixa rc"
    using g(1) [unfolded in_contract_def, rule_format, of "in_ctx rc" "ixa rc - 5" "the (ibuf rc) + 5" "mem rc" "record_type_in rc"
        "version_in rc"] g(2) i assms(5,6,8) d by (auto simp: Let_def)
  let ?rc = "rc\<lparr>mem := m', in_ctx := c'\<rparr>"
  have k: "bufs_ok ?rc" "out_ok ?rc" "ciphers_ok ?rc" "keeps rc ?rc"
    using assms s(1,2) g(1) by (auto simp: bufs_ok_def ciphers_ok_def keeps_def same_outside_def)
  show ?thesis
  proof (cases r)
    case None
    then have "recv_decrypt rc = br_ssl_engine_fail ?rc BR_ERR_BAD_MAC"
      unfolding recv_decrypt_def Let_def d prod.case by simp
    then show ?thesis using k(4) by simp
  next
    case (Some q)
    obtain p l where q: "q = (p, l)" by fastforce
    let ?rd = "?rc\<lparr>ixa := p - the (ibuf rc), ixb := p - the (ibuf rc) + l\<rparr>"
    have eq: "recv_decrypt rc = (if ixa ?rd = ixb ?rd then make_ready_in ?rd else ?rd)"
      unfolding recv_decrypt_def Let_def d prod.case using Some q by simp
    have pl: "the (ibuf rc) + 5 \<le> p" "p + l \<le> the (ibuf rc) + ixa rc" using s(3) Some q by auto
    have rd: "bufs_ok ?rd" "out_ok ?rd" "ciphers_ok ?rd" "keeps rc ?rd" using k by simp_all
    show ?thesis
    proof (cases "ixa ?rd = ixb ?rd")
      case True
      then show ?thesis using running_make_ready_in [OF rd(1-3)] keeps_trans [OF rd(4) keeps_make_ready_in]
        unfolding eq engine_ok_def by simp
    next
      case False
      then have "data_phase ?rd" using pl assms(6,7) assms(1) by (auto simp: data_phase_def bufs_ok_def)
      then show ?thesis using rd False unfolding eq engine_ok_def running_def in_ok_def by simp
    qed
  qed
qed

lemma recvrec_offer:
  assumes "running rc" "recvrec_buf rc = (Some p, n)"
  shows "p = the (ibuf rc) + ixa rc \<and> 0 < n \<and> n \<le> ixc rc \<and> ixa rc + n \<le> ibuf_len rc \<and> ixa rc = ixb rc"
proof -
  have e: "p = the (ibuf rc) + ixa rc" "n = min (ixc rc) (ibuf_len rc - ixa rc)" "ixa rc = ixb rc"
    using assms(2) by (auto simp: recvrec_buf_def Let_def split: if_splits)
  have "512 \<le> ibuf_len rc" using assms(1) by (simp add: running_def bufs_ok_def)
  then have "0 < ixc rc \<and> ixa rc < ibuf_len rc"
    using assms(1) e(3) by (auto simp: running_def in_ok_def header_phase_def data_phase_def)
  then show ?thesis using e by auto
qed

lemma iomode_if: "(if c then rc\<lparr>iomode := x\<rparr> else rc) = rc\<lparr>iomode := (if c then x else iomode rc)\<rparr>"
  by simp

lemma recvrec_ack_ok:
  assumes "running rc" "ixa rc = ixb rc" "0 < n" "n \<le> ixc rc" "ixa rc + n \<le> ibuf_len rc"
  shows "engine_ok (recvrec_ack rc n) \<and> keeps rc (recvrec_ack rc n)"
proof -
  let ?rc = "rc\<lparr>iomode := (if iomode rc = BR_IO_INOUT \<and> ibuf rc = obuf rc then BR_IO_IN else iomode rc),
      ixa := ixa rc + n, ixb := ixa rc + n, ixc := ixc rc - n\<rparr>"
  have eq: "recvrec_ack rc n =
      (if ixa rc + n < 5 then ?rc else if ixa rc + n = 5 then recv_header ?rc else if \<not> incrypt rc then ?rc\<lparr>ixa := 5\<rparr>
       else if ixc rc - n \<noteq> 0 then ?rc else recv_decrypt ?rc)"
    unfolding recvrec_ack_def Let_def iomode_if by (simp split del: if_split cong: if_cong)
  have r: "bufs_ok ?rc" "out_ok ?rc" "ciphers_ok ?rc" "keeps rc ?rc" and l: "512 \<le> ibuf_len rc"
    using assms(1) by (simp_all add: running_def bufs_ok_def [of rc])
  have h: "header_phase rc \<or> data_phase rc" using assms(1) by (simp add: running_def in_ok_def)
  have fin: "engine_ok x \<and> keeps rc x" if "in_ok x" "bufs_ok x \<and> out_ok x \<and> ciphers_ok x \<and> keeps rc x" for x
    using that by (simp add: engine_ok_def running_def)
  consider "ixa rc + n < 5" | "ixa rc + n = 5" | "5 < ixa rc + n" "\<not> incrypt rc" | "5 < ixa rc + n" "incrypt rc" "ixc rc - n \<noteq> 0"
    | "5 < ixa rc + n" "incrypt rc" "ixc rc - n = 0" by linarith
  then show ?thesis
  proof cases
    case 1
    then have "in_ok ?rc" using h by (auto simp: in_ok_def header_phase_def data_phase_def)
    then show ?thesis using fin [of ?rc] r 1 unfolding eq by simp
  next
    case 2
    have "engine_ok (recv_header ?rc) \<and> keeps ?rc (recv_header ?rc)" by (rule recv_header_ok [OF r(1-3)])
    then show ?thesis using 2 keeps_trans [OF r(4)] unfolding eq by auto
  next
    case 3
    then have d: "data_phase rc" using h assms(4) by (auto simp: header_phase_def)
    then have "data_phase (?rc\<lparr>ixa := 5\<rparr>)" using 3 assms(2-5) l by (simp add: data_phase_def)
    then show ?thesis using fin [of "?rc\<lparr>ixa := 5\<rparr>"] r 3 unfolding eq by (simp add: in_ok_def)
  next
    case 4
    then have d: "data_phase rc" using h assms(4) by (auto simp: header_phase_def)
    moreover have "5 \<le> ixa rc \<Longrightarrow> ixa rc - 5 + ixc rc = ixa rc + n - 5 + (ixc rc - n)" using assms(4) by simp
    ultimately have "data_phase ?rc" using 4 assms(2-5) by (auto simp: data_phase_def)
    then show ?thesis using fin [of ?rc] r 4 unfolding eq by (simp add: in_ok_def)
  next
    case 5
    then have "data_phase rc" using h assms(4) by (auto simp: header_phase_def)
    then have "check_length (in_vtable rc) (in_ctx rc) (ixa rc - 5 + ixc rc)" "5 \<le> ixa rc"
      using 5 assms(2-4) by (auto simp: data_phase_def)
    then have "check_length (in_vtable rc) (in_ctx rc) (ixa rc + n - 5)" using 5 assms(4) by simp
    then have "engine_ok (recv_decrypt ?rc) \<and> keeps ?rc (recv_decrypt ?rc)"
      using 5 assms(5) by (intro recv_decrypt_ok r) simp_all
    then show ?thesis using 5 keeps_trans [OF r(4)] unfolding eq by auto
  qed
qed

subsection \<open>Giving control to the handshake processor\<close>

text \<open>
  What the engine relies on from the processor: it leaves a well-formed engine, touches no other
  memory, reads no more than it is offered and announces no more output than there is room for.
\<close>

definition hs_law :: "(('i, 'o) br_ssl_engine_context \<Rightarrow> ('i, 'o) br_ssl_engine_context) \<Rightarrow> bool" where
  "hs_law hs \<longleftrightarrow> (\<forall>cc. running cc \<and> hlen_in cc \<le> snd (recvpld_buf cc) \<longrightarrow>
     (let cc' = hs cc
      in keeps cc cc' \<and> (br_ssl_engine_closed cc' \<or>
           running cc' \<and> ixa cc' = ixa cc \<and> ixb cc' = ixb cc \<and> hlen_in cc' \<le> hlen_in cc
           \<and> (hbuf_out cc' = saved_hbuf_out cc' \<or>
              (\<exists>s k. saved_hbuf_out cc' = Some s \<and> hbuf_out cc' = Some (s + k) \<and> filling cc' \<and> k \<le> oxb cc' - oxa cc')))))"

lemma running_upd [simp]:
  "running (rc\<lparr>hbuf_in := x1\<rparr>) = running rc"
  "running (rc\<lparr>hbuf_out := x2\<rparr>) = running rc"
  "running (rc\<lparr>saved_hbuf_out := x3\<rparr>) = running rc"
  "running (rc\<lparr>hlen_in := x4\<rparr>) = running rc"
  "running (rc\<lparr>hlen_out := x5\<rparr>) = running rc"
  "running (rc\<lparr>action := x6\<rparr>) = running rc"
  "running (rc\<lparr>iomode := x7\<rparr>) = running rc"
  by (simp_all add: running_def)

lemma offer_fields:
  "running (offer act cc) = running cc" "keeps rc0 (offer act cc) = keeps rc0 cc" "recvpld_buf (offer act cc) = recvpld_buf cc"
  "hlen_in (offer act cc) \<le> snd (recvpld_buf cc)" "ixa (offer act cc) = ixa cc" "ixb (offer act cc) = ixb cc"
  by (simp_all add: offer_def Let_def case_prod_unfold recvpld_buf_def)

lemma offer_law: "running cc \<Longrightarrow> running (offer act cc) \<and> hlen_in (offer act cc) \<le> snd (recvpld_buf (offer act cc))"
  by (simp add: offer_fields(1,3,4))

lemma take_out_running:
  assumes "running cc" "hbuf_out cc = saved_hbuf_out cc \<or>
      (\<exists>s k. saved_hbuf_out cc = Some s \<and> hbuf_out cc = Some (s + k) \<and> filling cc \<and> k \<le> oxb cc - oxa cc)"
  shows "running (take_out cc) \<and> keeps cc (take_out cc)"
  using assms sendpld_ack_running [of cc] by (auto simp: take_out_def)

lemma sendpld_ack_in [simp]:
  "ixa (sendpld_ack rc n) = ixa rc" "ixb (sendpld_ack rc n) = ixb rc" "hlen_in (sendpld_ack rc n) = hlen_in rc"
  by (simp_all add: sendpld_ack_def sendpld_flush_def Let_def case_prod_unfold)

lemma take_out_in [simp]: "ixa (take_out cc) = ixa cc" "ixb (take_out cc) = ixb cc" "hlen_in (take_out cc) = hlen_in cc"
  by (simp_all add: take_out_def)

text \<open>One pass of the loop.\<close>

lemma hs_pass:
  assumes "hs_law hs" "running cc" "\<not> br_ssl_engine_closed (hs (offer act cc))"
  defines "cc1 \<equiv> take_out (hs (offer act cc))"
  shows "running cc1" "keeps cc cc1" "ixa cc1 = ixa cc" "ixb cc1 = ixb cc" "hlen_in cc1 \<le> hlen_in (offer act cc)"
proof -
  have l: "running (offer act cc)" "hlen_in (offer act cc) \<le> snd (recvpld_buf (offer act cc))"
    using offer_law [OF assms(2)] by auto
  note h = assms(1) [unfolded hs_law_def Let_def, rule_format, OF conjI, OF l]
  show "ixa cc1 = ixa cc" "ixb cc1 = ixb cc" "hlen_in cc1 \<le> hlen_in (offer act cc)"
    using h assms(3) by (simp_all add: cc1_def offer_fields(5,6))
  have r: "running cc1 \<and> keeps (hs (offer act cc)) cc1"
    unfolding cc1_def using h assms(3) by (intro take_out_running) blast+
  then show "running cc1" by blast
  have "keeps cc (offer act cc)" by (simp add: offer_fields(2))
  then show "keeps cc cc1" using h r keeps_trans by blast
qed

lemma recvpld_len: "snd (recvpld_buf cc) \<le> ixb cc - ixa cc"
  by (simp add: recvpld_buf_def Let_def)

lemma hs_closed_keeps:
  assumes "hs_law hs" "running cc"
  shows "keeps cc (hs (offer act cc))"
proof -
  have "running (offer act cc)" "hlen_in (offer act cc) \<le> snd (recvpld_buf (offer act cc))"
    using offer_law [OF assms(2)] by auto
  from assms(1) [unfolded hs_law_def Let_def, rule_format, OF conjI, OF this]
  have "keeps (offer act cc) (hs (offer act cc))" by blast
  then show ?thesis using keeps_trans [of cc "offer act cc"] by (simp add: offer_fields(2))
qed

text \<open>With nothing to read there is one pass; else the input is used up after one pass or the loop ends.\<close>

lemma jump_handshake_drained:
  assumes "hs_law hs" "running cc" "ixa cc = ixb cc"
  shows "\<exists>cc'. jump_handshake hs cc act = Some cc' \<and> engine_ok cc' \<and> keeps cc cc'"
proof (cases "br_ssl_engine_closed (hs (offer act cc))")
  case True
  then show ?thesis using hs_closed_keeps [OF assms(1,2)] by (subst jump_handshake.simps) (simp add: Let_def engine_ok_def)
next
  case False
  have z: "hlen_in (offer act cc) = 0" using offer_fields(4) [of act cc] recvpld_len [of cc] assms(3) by simp
  then show ?thesis using hs_pass [OF assms(1,2) False] False
    by (subst jump_handshake.simps) (simp add: Let_def engine_ok_def)
qed

lemma jump_handshake_ok:
  assumes "hs_law hs" "running cc"
  shows "\<exists>cc'. jump_handshake hs cc act = Some cc' \<and> engine_ok cc' \<and> keeps cc cc'"
proof (cases "br_ssl_engine_closed (hs (offer act cc))")
  case True
  then show ?thesis using hs_closed_keeps [OF assms] by (subst jump_handshake.simps) (simp add: Let_def engine_ok_def)
next
  case False
  let ?c1 = "take_out (hs (offer act cc))" and ?hin = "hlen_in (offer act cc)"
  note p = hs_pass [OF assms False]
  have eq: "jump_handshake hs cc act =
      (if ?hin \<noteq> hlen_in ?c1
       then (if hlen_in (recvpld_ack ?c1 (?hin - hlen_in ?c1)) = 0 then jump_handshake hs (recvpld_ack ?c1 (?hin - hlen_in ?c1)) 0
             else Some (recvpld_ack ?c1 (?hin - hlen_in ?c1)))
       else Some ?c1)"
    using False by (subst jump_handshake.simps) (simp add: Let_def)
  show ?thesis
  proof (cases "?hin = hlen_in ?c1")
    case True
    then show ?thesis using p(1,2) unfolding eq by (simp add: engine_ok_def)
  next
    case part: False
    then have pos: "0 < ?hin" using p(5) by simp
    have le: "?hin \<le> ixb cc - ixa cc" using offer_fields(4) [of act cc] recvpld_len [of cc] by simp
    have d: "data_phase ?c1" using p(1,3,4) pos le by (auto simp: running_def in_ok_def header_phase_def)
    have "?hin - hlen_in ?c1 \<le> ixb ?c1 - ixa ?c1" "ixa ?c1 \<noteq> ixb ?c1" using p(3,4) le pos by auto
    then have r: "running (recvpld_ack ?c1 (?hin - hlen_in ?c1)) \<and> keeps cc (recvpld_ack ?c1 (?hin - hlen_in ?c1))"
      using recvpld_ack_running [OF p(1) d] keeps_trans [OF p(2)] by blast
    show ?thesis
    proof (cases "hlen_in (recvpld_ack ?c1 (?hin - hlen_in ?c1)) = 0")
      case False
      then show ?thesis using part r unfolding eq by (simp add: engine_ok_def)
    next
      case True
      have "hlen_in ?c1 = 0" using True by (simp add: recvpld_ack_def make_ready_in_def Let_def split: if_splits)
      moreover have "?hin = ixb cc - ixa cc"
        using pos by (auto simp: offer_def Let_def case_prod_unfold recvpld_buf_def split: if_splits)
      ultimately have "ixa (recvpld_ack ?c1 (?hin - hlen_in ?c1)) = ixb (recvpld_ack ?c1 (?hin - hlen_in ?c1))"
        using p(3,4) le pos by (simp add: recvpld_ack_def make_ready_in_def Let_def)
      from jump_handshake_drained [OF assms(1) conjunct1 [OF r] this, of 0] show ?thesis
        using part True r keeps_trans unfolding eq by metis
    qed
  qed
qed

subsection \<open>The engine under a client that keeps to the offered buffers\<close>

text \<open>
  The client receives bytes into the offered buffer, sends bytes of a record, writes and reads
  payload, flushes, closes and asks for a renegotiation, in any order.
\<close>

inductive engine_step ::
  "(('i, 'o) br_ssl_engine_context \<Rightarrow> ('i, 'o) br_ssl_engine_context) \<Rightarrow> ('i, 'o) br_ssl_engine_context \<Rightarrow> ('i, 'o) br_ssl_engine_context \<Rightarrow> bool"
  for hs where
  recv: "br_ssl_engine_recvrec_buf cc = (Some p, n) \<Longrightarrow> bs \<noteq> [] \<Longrightarrow> length bs \<le> n
    \<Longrightarrow> br_ssl_engine_recvrec_ack hs (cc\<lparr>mem := store p bs (mem cc)\<rparr>) (length bs) = Some cc' \<Longrightarrow> engine_step hs cc cc'"
| sent: "br_ssl_engine_sendrec_buf cc = (Some p, n) \<Longrightarrow> 0 < k \<Longrightarrow> k \<le> n
    \<Longrightarrow> br_ssl_engine_sendrec_ack hs cc k = Some cc' \<Longrightarrow> engine_step hs cc cc'"
| put: "br_ssl_engine_sendapp_buf cc = (Some p, n) \<Longrightarrow> length bs \<le> n
    \<Longrightarrow> engine_step hs cc (br_ssl_engine_sendapp_ack (cc\<lparr>mem := store p bs (mem cc)\<rparr>) (length bs))"
| got: "br_ssl_engine_recvapp_buf cc = (Some p, n) \<Longrightarrow> k \<le> n \<Longrightarrow> engine_step hs cc (br_ssl_engine_recvapp_ack cc k)"
| flush: "engine_step hs cc (br_ssl_engine_flush cc force)"
| close: "br_ssl_engine_close hs cc = Some cc' \<Longrightarrow> engine_step hs cc cc'"
| renegotiate: "br_ssl_engine_renegotiate hs cc = Some (b, cc') \<Longrightarrow> engine_step hs cc cc'"

text \<open>What the engine hands out lies in its buffers, and more bytes are never asked for without room for them.\<close>

definition offers_ok :: "('i, 'o) br_ssl_engine_context \<Rightarrow> bool" where
  "offers_ok cc \<longleftrightarrow>
     (\<forall>p n. br_ssl_engine_recvrec_buf cc = (Some p, n) \<longrightarrow> 0 < n \<and> the (ibuf cc) \<le> p \<and> p + n \<le> the (ibuf cc) + ibuf_len cc)
   \<and> (\<forall>p n. br_ssl_engine_recvapp_buf cc = (Some p, n) \<longrightarrow> 0 < n \<and> the (ibuf cc) \<le> p \<and> p + n \<le> the (ibuf cc) + ibuf_len cc)
   \<and> (\<forall>p n. br_ssl_engine_sendrec_buf cc = (Some p, n) \<longrightarrow> 0 < n \<and> the (obuf cc) \<le> p \<and> p + n \<le> the (obuf cc) + obuf_len cc)
   \<and> (\<forall>p n. br_ssl_engine_sendapp_buf cc = (Some p, n) \<longrightarrow> 0 < n \<and> the (obuf cc) \<le> p \<and> p + n \<le> the (obuf cc) + obuf_len cc)"

lemma recvpld_offer:
  assumes "running cc" "recvpld_buf cc = (Some p, n)"
  shows "p = the (ibuf cc) + ixa cc \<and> n = ixb cc - ixa cc \<and> 0 < n \<and> ixb cc \<le> ibuf_len cc \<and> data_phase cc"
  using assms by (auto simp: recvpld_buf_def Let_def running_def in_ok_def header_phase_def data_phase_def split: if_splits)

lemma sendpld_offer:
  assumes "running cc" "sendpld_buf cc = (Some p, n)"
  shows "p = the (obuf cc) + oxa cc \<and> n = oxb cc - oxa cc \<and> 0 < n \<and> oxb cc \<le> obuf_len cc \<and> filling cc"
  using assms window_bounds [of cc]
  by (auto simp: sendpld_buf_def Let_def running_def out_ok_def filling_def sending_def split: if_splits)

lemma sendrec_offer:
  assumes "running cc" "sendrec_buf cc = (Some p, n)"
  shows "p = the (obuf cc) + oxa cc \<and> n = oxc cc - oxa cc \<and> 0 < n \<and> oxc cc \<le> obuf_len cc \<and> sending cc"
  using assms by (auto simp: sendrec_buf_def running_def out_ok_def filling_def sending_def split: if_splits)

lemma closed_offers:
  assumes "br_ssl_engine_closed cc"
  shows "fst (recvrec_buf cc) = None" "fst (recvpld_buf cc) = None" "fst (sendrec_buf cc) = None" "fst (sendpld_buf cc) = None"
  using assms by (auto simp: br_ssl_engine_closed_def recvrec_buf_def recvpld_buf_def sendrec_buf_def sendpld_buf_def)

lemma offer_running:
  assumes "engine_ok cc" "fst (recvrec_buf cc) \<noteq> None \<or> fst (recvpld_buf cc) \<noteq> None \<or> fst (sendrec_buf cc) \<noteq> None \<or> fst (sendpld_buf cc) \<noteq> None"
  shows "running cc"
  using assms closed_offers [of cc] by (auto simp: engine_ok_def)

lemmas engine_bufs = br_ssl_engine_recvrec_buf_def br_ssl_engine_recvapp_buf_def br_ssl_engine_sendrec_buf_def br_ssl_engine_sendapp_buf_def

lemma engine_ok_offers: "engine_ok cc \<Longrightarrow> offers_ok cc"
  unfolding offers_ok_def engine_bufs
  using offer_running [of cc] recvrec_offer [of cc] recvpld_offer [of cc] sendrec_offer [of cc] sendpld_offer [of cc]
  by (fastforce split: if_splits)

lemma running_store:
  assumes "running cc" "a + length bs \<le> length (mem cc)"
  shows "running (cc\<lparr>mem := store a bs (mem cc)\<rparr>)"
  using assms by (simp add: running_def bufs_ok_def)

lemma keeps_store_in:
  assumes "running cc" "the (ibuf cc) \<le> a" "a + length bs \<le> the (ibuf cc) + ibuf_len cc"
  shows "keeps cc (cc\<lparr>mem := store a bs (mem cc)\<rparr>)" "a + length bs \<le> length (mem cc)"
  using assms by (auto simp: keeps_def running_def bufs_ok_def nth_store)

lemma keeps_store_out:
  assumes "running cc" "the (obuf cc) \<le> a" "a + length bs \<le> the (obuf cc) + obuf_len cc"
  shows "keeps cc (cc\<lparr>mem := store a bs (mem cc)\<rparr>)" "a + length bs \<le> length (mem cc)"
  using assms by (auto simp: keeps_def running_def bufs_ok_def nth_store)

text \<open>The operations return, whatever the processor does within its law, and keep the engine well formed.\<close>

lemma engine_recvrec_ack_ok:
  assumes "hs_law hs" "running cc" "ixa cc = ixb cc" "0 < n" "n \<le> ixc cc" "ixa cc + n \<le> ibuf_len cc"
  shows "\<exists>cc'. br_ssl_engine_recvrec_ack hs cc n = Some cc' \<and> engine_ok cc' \<and> keeps cc cc'"
proof -
  let ?c = "recvrec_ack cc n"
  have r: "engine_ok ?c \<and> keeps cc ?c" by (rule recvrec_ack_ok [OF assms(2-6)])
  show ?thesis
  proof (cases "br_ssl_engine_closed ?c")
    case True
    then show ?thesis using r by (simp add: br_ssl_engine_recvrec_ack_def)
  next
    case False
    then have run: "running ?c" using r by (simp add: engine_ok_def)
    obtain b l where bl: "recvpld_buf ?c = (b, l)" by fastforce
    show ?thesis
    proof (cases b)
      case None
      then show ?thesis using r False bl by (simp add: br_ssl_engine_recvrec_ack_def Let_def)
    next
      case (Some p)
      have "running (recvpld_ack ?c l) \<and> keeps ?c (recvpld_ack ?c l)"
        using recvpld_offer [OF run, of p l] bl Some recvpld_ack_running [OF run, of l] by auto
      moreover obtain c' where "jump_handshake hs ?c 0 = Some c'" "engine_ok c'" "keeps ?c c'"
        using jump_handshake_ok [OF assms(1) run] by blast
      ultimately show ?thesis using r False bl Some keeps_trans [OF conjunct2 [OF r]]
        unfolding br_ssl_engine_recvrec_ack_def Let_def by (auto simp: engine_ok_def [of "recvpld_ack ?c l"])
    qed
  qed
qed

lemma engine_sendrec_ack_ok:
  assumes "hs_law hs" "running cc" "sending cc" "0 < n" "n \<le> oxc cc - oxa cc"
  shows "\<exists>cc'. br_ssl_engine_sendrec_ack hs cc n = Some cc' \<and> engine_ok cc' \<and> keeps cc cc'"
proof -
  have r: "running (sendrec_ack cc n)" "keeps cc (sendrec_ack cc n)"
    using sendrec_ack_running [OF assms(2)] assms(3-5) by auto
  show ?thesis using r keeps_trans [OF r(2)] jump_handshake_ok [OF assms(1) r(1), of 0]
    unfolding br_ssl_engine_sendrec_ack_def Let_def by (auto simp: engine_ok_def)
qed

lemma engine_flush_ok:
  assumes "engine_ok cc"
  shows "engine_ok (br_ssl_engine_flush cc force) \<and> keeps cc (br_ssl_engine_flush cc force)"
proof (cases "\<not> br_ssl_engine_closed cc \<and> odd (application_data cc) \<and> oxa cc \<noteq> oxb cc")
  case True
  then have r: "running cc" using assms by (simp add: engine_ok_def)
  then have "filling cc" using True by (auto simp: running_def out_ok_def sending_def)
  then show ?thesis using True r sendpld_flush_running [of cc force]
    by (auto simp: br_ssl_engine_flush_def running_def filling_def engine_ok_def)
next
  case False
  then have "br_ssl_engine_flush cc force = cc" by (auto simp: br_ssl_engine_flush_def sendpld_flush_def)
  then show ?thesis using assms by simp
qed

lemma engine_close_ok:
  assumes "hs_law hs" "engine_ok cc"
  shows "\<exists>cc'. br_ssl_engine_close hs cc = Some cc' \<and> engine_ok cc' \<and> keeps cc cc'"
  using assms jump_handshake_ok [OF assms(1), of cc 1] by (auto simp: br_ssl_engine_close_def engine_ok_def)

lemma engine_renegotiate_ok:
  assumes "hs_law hs" "engine_ok cc"
  shows "\<exists>b cc'. br_ssl_engine_renegotiate hs cc = Some (b, cc') \<and> engine_ok cc' \<and> keeps cc cc'"
proof (cases "br_ssl_engine_closed cc")
  case True
  then show ?thesis using assms(2) by (auto simp: br_ssl_engine_renegotiate_def)
next
  case False
  then have "running cc" using assms(2) by (simp add: engine_ok_def)
  from jump_handshake_ok [OF assms(1) this, of 2] show ?thesis
    using assms(2) by (auto simp: br_ssl_engine_renegotiate_def)
qed

lemma engine_step_ok:
  assumes "engine_step hs cc cc'" "hs_law hs" "engine_ok cc"
  shows "engine_ok cc' \<and> keeps cc cc'"
  using assms
proof (induction rule: engine_step.induct)
  case (recv cc p n bs cc')
  let ?c = "cc\<lparr>mem := store p bs (mem cc)\<rparr>"
  have r: "running cc" using recv by (intro offer_running) (auto simp: engine_bufs)
  have o: "p = the (ibuf cc) + ixa cc \<and> 0 < n \<and> n \<le> ixc cc \<and> ixa cc + n \<le> ibuf_len cc \<and> ixa cc = ixb cc"
    using recv(1) by (intro recvrec_offer r) (simp add: engine_bufs)
  have k: "keeps cc ?c" "p + length bs \<le> length (mem cc)"
    using keeps_store_in [OF r, of p bs] o recv(3) by auto
  have "ixa ?c = ixb ?c" "0 < length bs" "length bs \<le> ixc ?c" "ixa ?c + length bs \<le> ibuf_len ?c"
    using o recv(2,3) by auto
  from engine_recvrec_ack_ok [OF recv(5) running_store [OF r k(2)] this] show ?case
    using recv(4) keeps_trans [OF k(1)] by auto
next
  case (sent cc p n k cc')
  have r: "running cc" using sent by (intro offer_running) (auto simp: engine_bufs)
  have o: "n = oxc cc - oxa cc \<and> sending cc"
    using sendrec_offer [OF r, of p n] sent(1) by (simp add: engine_bufs)
  have "k \<le> oxc cc - oxa cc" using o sent(3) by simp
  from engine_sendrec_ack_ok [OF sent(5) r conjunct2 [OF o] sent(2) this] show ?case using sent(4) by auto
next
  case (put cc p n bs)
  let ?c = "cc\<lparr>mem := store p bs (mem cc)\<rparr>"
  have b: "sendpld_buf cc = (Some p, n)" using put(1) by (simp add: engine_bufs split: if_splits)
  have r: "running cc" using put b by (intro offer_running) auto
  have o: "p = the (obuf cc) + oxa cc \<and> n = oxb cc - oxa cc \<and> 0 < n \<and> oxb cc \<le> obuf_len cc \<and> filling cc"
    by (rule sendpld_offer [OF r b])
  have k: "keeps cc ?c" "p + length bs \<le> length (mem cc)"
    using keeps_store_out [OF r, of p bs] o put(2) by auto
  have "filling ?c" "length bs \<le> oxb ?c - oxa ?c" using o put(2) by (simp_all add: filling_def window_def)
  from sendpld_ack_running [OF running_store [OF r k(2)] this] show ?case
    using keeps_trans [OF k(1)] by (auto simp: engine_ok_def br_ssl_engine_sendapp_ack_def)
next
  case (got cc p n k)
  have b: "recvpld_buf cc = (Some p, n)" using got(1) by (simp add: engine_bufs split: if_splits)
  have r: "running cc" using got b by (intro offer_running) auto
  show ?case using recvpld_offer [OF r b] recvpld_ack_running [OF r, of k] got(2)
    by (auto simp: engine_ok_def br_ssl_engine_recvapp_ack_def)
next
  case (flush cc force)
  then show ?case using engine_flush_ok by blast
next
  case (close cc cc')
  then show ?case using engine_close_ok [OF close(2,3)] by auto
next
  case (renegotiate cc b cc')
  then show ?case using engine_renegotiate_ok [OF renegotiate(2,3)] by auto
qed

lemma engine_steps_ok:
  assumes "(engine_step hs)\<^sup>*\<^sup>* cc cc'" "hs_law hs" "engine_ok cc"
  shows "engine_ok cc' \<and> keeps cc cc'"
  using assms(1)
proof (induction rule: rtranclp_induct)
  case base
  then show ?case using assms(3) by simp
next
  case (step y z)
  then show ?case using engine_step_ok [OF step(2) assms(2)] keeps_trans by blast
qed

subsection \<open>Setting the buffers\<close>

lemma frag_log_range: "512 + 85 \<le> olen \<Longrightarrow> 512 + 325 \<le> ilen \<Longrightarrow> 9 \<le> u \<Longrightarrow> 9 \<le> frag_log ilen olen u"
proof (induction u)
  case (Suc u)
  show ?case
  proof (cases "9 \<le> u")
    case True
    then show ?thesis using Suc by (subst frag_log.simps) simp
  next
    case False
    then have "Suc u = 9" using Suc(4) by simp
    then show ?thesis using Suc(2,3) by (subst frag_log.simps) (simp add: MAX_OUT_OVERHEAD_def MAX_IN_OVERHEAD_def)
  qed
qed simp

lemma set_buffers_running:
  assumes "512 + 325 \<le> ilen" "512 + 85 \<le> (case ob of None \<Rightarrow> ilen | Some b \<Rightarrow> olen)" "a + ilen \<le> length (mem rc)"
    and "(case ob of None \<Rightarrow> True | Some b \<Rightarrow> b + olen \<le> length (mem rc))"
  defines "cc \<equiv> br_ssl_engine_set_buffers_bidi rc (Some a) ilen ob olen"
  shows "running cc" "ibuf cc = Some a" "ibuf_len cc = ilen" "obuf cc = (case ob of None \<Rightarrow> Some a | Some b \<Rightarrow> Some b)"
    "obuf_len cc = (case ob of None \<Rightarrow> ilen | Some b \<Rightarrow> olen)" "mem cc = mem rc"
proof -
  let ?u = "frag_log ilen olen 14" and ?v = "frag_log ilen ilen 14"
  let ?rc = "\<lambda>u. rc\<lparr>iomode := BR_IO_INOUT, incrypt := False, err := BR_ERR_OK, version_in := 0, record_type_in := 0, version_out := 0,
      record_type_out := 0, ibuf := Some a, ibuf_len := ilen, obuf := (case ob of None \<Rightarrow> Some a | Some b \<Rightarrow> Some b),
      obuf_len := (case ob of None \<Rightarrow> ilen | Some b \<Rightarrow> olen), max_frag_len := 2 ^ u, log_max_frag_len := u, peer_log_max_frag_len := 0,
      out_vtable := br_sslrec_out_clear_vtable\<rparr>"
  define o' where "o' = (case ob of None \<Rightarrow> ilen | Some b \<Rightarrow> olen)"
  have u: "9 \<le> frag_log ilen o' 14" using assms(1,2) by (intro frag_log_range) (simp_all add: o'_def)
  obtain w where cc: "cc = make_ready_out (make_ready_in (?rc w))"
    unfolding cc_def br_ssl_engine_set_buffers_bidi_def Let_def using u
    by (cases ob) (auto simp: o'_def)
  have b: "bufs_ok (?rc w)" using assms(1-4) by (cases ob) (auto simp: bufs_ok_def)
  have c: "ciphers_ok (?rc w)" using clear_contract by (auto simp: ciphers_ok_def)
  show "running cc" unfolding cc using b c by (intro running_make_ready_out) simp_all
  show "ibuf cc = Some a" "ibuf_len cc = ilen" "obuf cc = (case ob of None \<Rightarrow> Some a | Some b \<Rightarrow> Some b)"
    "obuf_len cc = (case ob of None \<Rightarrow> ilen | Some b \<Rightarrow> olen)" "mem cc = mem rc"
    unfolding cc by (simp_all add: make_ready_in_eq make_ready_out_eq)
qed

lemma set_buffer_running:
  assumes "if bidi then 1434 \<le> len \<and> len \<le> 33418 else 837 \<le> len" "a + len \<le> length (mem rc)"
  defines "cc \<equiv> br_ssl_engine_set_buffer rc (Some a) len bidi"
  shows "running cc" "ibuf cc = Some a" "a \<le> the (obuf cc)" "ibuf_len cc \<le> len" "the (obuf cc) + obuf_len cc \<le> a + len" "mem cc = mem rc"
proof -
  let ?w = "if len < 16384 + MAX_IN_OVERHEAD + 512 + MAX_OUT_OVERHEAD then 512 + MAX_OUT_OVERHEAD else len - (16384 + MAX_IN_OVERHEAD)"
  have cc: "cc = (if bidi then br_ssl_engine_set_buffers_bidi rc (Some a) (len - ?w) (Some (a + ?w)) ?w
      else br_ssl_engine_set_buffers_bidi rc (Some a) len None 0)"
    using assms(1) by (auto simp: cc_def br_ssl_engine_set_buffer_def Let_def MAX_IN_OVERHEAD_def MAX_OUT_OVERHEAD_def split: if_splits)
  have w: "512 + 325 \<le> len - ?w" "512 + 85 \<le> ?w" "?w + ?w \<le> len" if bidi
    using assms(1) that by (auto simp: MAX_IN_OVERHEAD_def MAX_OUT_OVERHEAD_def)
  have "running cc \<and> ibuf cc = Some a \<and> a \<le> the (obuf cc) \<and> ibuf_len cc \<le> len \<and> the (obuf cc) + obuf_len cc \<le> a + len \<and> mem cc = mem rc"
  proof (cases bidi)
    case True
    note w = w [OF True]
    have "512 + 85 \<le> (case Some (a + ?w) of None \<Rightarrow> len - ?w | Some b \<Rightarrow> ?w)" "a + (len - ?w) \<le> length (mem rc)"
      "(case Some (a + ?w) of None \<Rightarrow> True | Some b \<Rightarrow> b + ?w \<le> length (mem rc))"
      using w assms(2) by auto
    note s = set_buffers_running [OF w(1) this]
    show ?thesis unfolding cc if_P [OF True] s using w s(1) by simp
  next
    case False
    have l: "512 + 325 \<le> len" "512 + 85 \<le> (case None of None \<Rightarrow> len | Some b \<Rightarrow> 0)" "case None of None \<Rightarrow> True | Some b \<Rightarrow> b + 0 \<le> length (mem rc)"
      using assms(1) False by auto
    note s = set_buffers_running [OF l(1,2) assms(2) l(3)]
    show ?thesis unfolding cc if_not_P [OF False] s using s(1) by simp
  qed
  then show "running cc" "ibuf cc = Some a" "a \<le> the (obuf cc)" "ibuf_len cc \<le> len" "the (obuf cc) + obuf_len cc \<le> a + len" "mem cc = mem rc"
    by blast+
qed

text \<open>The operations that give control to the processor return for every use of the offered buffers.\<close>

definition ops_return :: "(('i, 'o) br_ssl_engine_context \<Rightarrow> ('i, 'o) br_ssl_engine_context) \<Rightarrow> ('i, 'o) br_ssl_engine_context \<Rightarrow> bool" where
  "ops_return hs cc \<longleftrightarrow>
     (\<forall>p n bs. br_ssl_engine_recvrec_buf cc = (Some p, n) \<and> bs \<noteq> [] \<and> length bs \<le> n \<longrightarrow>
        br_ssl_engine_recvrec_ack hs (cc\<lparr>mem := store p bs (mem cc)\<rparr>) (length bs) \<noteq> None)
   \<and> (\<forall>p n k. br_ssl_engine_sendrec_buf cc = (Some p, n) \<and> 0 < k \<and> k \<le> n \<longrightarrow> br_ssl_engine_sendrec_ack hs cc k \<noteq> None)
   \<and> br_ssl_engine_close hs cc \<noteq> None \<and> br_ssl_engine_renegotiate hs cc \<noteq> None"

lemma engine_ok_returns:
  assumes "hs_law hs" "engine_ok cc"
  shows "ops_return hs cc"
proof -
  have recv: "br_ssl_engine_recvrec_ack hs (cc\<lparr>mem := store p bs (mem cc)\<rparr>) (length bs) \<noteq> None"
    if "br_ssl_engine_recvrec_buf cc = (Some p, n)" "bs \<noteq> []" "length bs \<le> n" for p n bs
  proof -
    have r: "running cc" using assms(2) that(1) by (intro offer_running) (auto simp: engine_bufs)
    have o: "p = the (ibuf cc) + ixa cc \<and> 0 < n \<and> n \<le> ixc cc \<and> ixa cc + n \<le> ibuf_len cc \<and> ixa cc = ixb cc"
      using that(1) by (intro recvrec_offer r) (simp add: engine_bufs)
    have k: "p + length bs \<le> length (mem cc)" using keeps_store_in(2) [OF r, of p bs] o that(3) by simp
    show ?thesis
      using engine_recvrec_ack_ok [OF assms(1) running_store [OF r k], of "length bs"] o that(2,3) by auto
  qed
  have send: "br_ssl_engine_sendrec_ack hs cc k \<noteq> None"
    if "br_ssl_engine_sendrec_buf cc = (Some p, n)" "0 < k" "k \<le> n" for p n k
  proof -
    have r: "running cc" using assms(2) that(1) by (intro offer_running) (auto simp: engine_bufs)
    then have "n = oxc cc - oxa cc \<and> sending cc" using sendrec_offer [OF r, of p n] that(1) by (simp add: engine_bufs)
    then show ?thesis using engine_sendrec_ack_ok [OF assms(1) r, of k] that(2,3) by auto
  qed
  show ?thesis
    unfolding ops_return_def
    using recv send engine_close_ok [OF assms] engine_renegotiate_ok [OF assms] by blast
qed

text \<open>\<^bold>\<open>C27\<close>. An engine set up on \<open>len\<close> bytes at \<open>a\<close> (half-duplex, or bidirectional up to 33418 bytes)
  keeps its registers well formed through any sequence of receiving, sending, writing, reading,
  flushing, closing and renegotiating: the buffers it hands out lie in its part of the memory and
  are not empty, no other byte of the memory changes, and every operation returns.  The handshake
  processor and the record ciphers are arbitrary within their contracts.\<close>

theorem engine_memory_safe:
  assumes "hs_law hs" "if bidi then 1434 \<le> len \<and> len \<le> 33418 else 837 \<le> len" "a + len \<le> length (mem rc)"
    and "(engine_step hs)\<^sup>*\<^sup>* (br_ssl_engine_set_buffer rc (Some a) len bidi) cc"
  shows "engine_ok cc \<and> offers_ok cc \<and> ops_return hs cc
    \<and> length (mem cc) = length (mem rc) \<and> (\<forall>k. k < a \<or> a + len \<le> k \<longrightarrow> mem cc ! k = mem rc ! k)"
proof -
  let ?cc = "br_ssl_engine_set_buffer rc (Some a) len bidi"
  note s = set_buffer_running [OF assms(2,3)]
  have ok: "engine_ok cc \<and> keeps ?cc cc"
    using engine_steps_ok [OF assms(4,1)] s(1) by (simp add: engine_ok_def)
  then have "offers_ok cc" "ops_return hs cc" using engine_ok_offers engine_ok_returns assms(1) by auto
  moreover have "length (mem cc) = length (mem rc)" using ok s(6) by (simp add: keeps_def)
  moreover have "mem cc ! k = mem rc ! k" if "k < a \<or> a + len \<le> k" for k
    using ok that s(2-6) unfolding keeps_def by (auto simp del: s(6))
  ultimately show ?thesis using ok by blast
qed

lemma hs_law_idle: "hs_law (\<lambda>cc. cc\<lparr>hbuf_out := saved_hbuf_out cc\<rparr>)"
  by (simp add: hs_law_def Let_def)

text \<open>A context as after zeroing, over a memory of \<open>n\<close> bytes.\<close>

definition blank_engine :: "nat \<Rightarrow> (unit, unit) br_ssl_engine_context" where
  "blank_engine n = \<lparr>err = 0, mem = replicate n 0, ibuf = None, obuf = None, ibuf_len = 0, obuf_len = 0, max_frag_len = 0,
     log_max_frag_len = 0, peer_log_max_frag_len = 0, ixa = 0, ixb = 0, ixc = 0, oxa = 0, oxb = 0, oxc = 0, iomode = BR_IO_FAILED,
     incrypt = False, shutdown_recv = False, record_type_in = 0, record_type_out = 0, version_in = 0, version_out = 0,
     in_vtable = \<lparr>check_length = (\<lambda>c n. False), decrypt = (\<lambda>c t v m a n. (None, m, c))\<rparr>, in_ctx = (),
     out_vtable = br_sslrec_out_clear_vtable, out_ctx = (), application_data = 0, reneg = 0, no_renegotiation = False,
     hbuf_in = None, hbuf_out = None, saved_hbuf_out = None, hlen_in = 0, hlen_out = 0, action = 0, alert = 0,
     suites_buf = replicate 48 0, suites_num = 0\<rparr>"

lemma mem_blank [simp]: "mem (blank_engine n) = replicate n 0"
  by (simp add: blank_engine_def)

theorem engine_memory_safe_witness:
  "let hs = (\<lambda>cc. cc\<lparr>hbuf_out := saved_hbuf_out cc\<rparr>);
       cc = br_ssl_engine_flush (br_ssl_engine_set_buffer (blank_engine 40000) (Some 100) 33178 True) True
   in engine_ok cc \<and> offers_ok cc \<and> ops_return hs cc \<and> length (mem cc) = 40000 \<and> mem cc ! 99 = 0"
proof -
  let ?rc = "br_ssl_engine_set_buffer (blank_engine 40000) (Some 100) 33178 True" and ?hs = "\<lambda>cc. cc\<lparr>hbuf_out := saved_hbuf_out cc\<rparr>"
  have "(engine_step ?hs)\<^sup>*\<^sup>* ?rc (br_ssl_engine_flush ?rc True)" by (intro r_into_rtranclp engine_step.flush)
  from engine_memory_safe [OF hs_law_idle _ _ this] show ?thesis by (simp add: Let_def)
qed

text \<open>\<^bold>\<open>C28\<close>. In bidirectional mode \<open>br_ssl_engine_set_buffer\<close> is to split the buffer into two separate
  parts.  It places the output part \<open>w\<close> bytes after the start instead of \<open>w\<close> bytes before the end:
  for every length below 33418, such as the 33178 bytes the program passes, the output buffer begins inside the
  input buffer.\<close>

theorem bidi_buffers_overlap:
  assumes "1434 \<le> len" "len < 33418" "a + len \<le> length (mem rc)"
  shows "\<exists>b. ibuf (br_ssl_engine_set_buffer rc (Some a) len True) = Some a
    \<and> obuf (br_ssl_engine_set_buffer rc (Some a) len True) = Some b
    \<and> a < b \<and> b < a + ibuf_len (br_ssl_engine_set_buffer rc (Some a) len True)"
proof -
  let ?w = "if len < 16384 + MAX_IN_OVERHEAD + 512 + MAX_OUT_OVERHEAD then 512 + MAX_OUT_OVERHEAD else len - (16384 + MAX_IN_OVERHEAD)"
  have cc: "br_ssl_engine_set_buffer rc (Some a) len True = br_ssl_engine_set_buffers_bidi rc (Some a) (len - ?w) (Some (a + ?w)) ?w"
    using assms(1) by (simp add: br_ssl_engine_set_buffer_def Let_def MAX_IN_OVERHEAD_def MAX_OUT_OVERHEAD_def)
  have w: "512 + 325 \<le> len - ?w" "512 + 85 \<le> (case Some (a + ?w) of None \<Rightarrow> len - ?w | Some b \<Rightarrow> ?w)" "a + (len - ?w) \<le> length (mem rc)"
      "(case Some (a + ?w) of None \<Rightarrow> True | Some b \<Rightarrow> b + ?w \<le> length (mem rc))" and lt: "0 < ?w" "?w < len - ?w"
    using assms by (auto simp: MAX_IN_OVERHEAD_def MAX_OUT_OVERHEAD_def)
  note s = set_buffers_running [OF w]
  show ?thesis unfolding cc s using lt by simp
qed

theorem bidi_buffers_overlap_witness:
  "\<exists>b. ibuf (br_ssl_engine_set_buffer (blank_engine 33178) (Some 0) 33178 True) = Some 0
     \<and> obuf (br_ssl_engine_set_buffer (blank_engine 33178) (Some 0) 33178 True) = Some b
     \<and> 0 < b \<and> b < 0 + ibuf_len (br_ssl_engine_set_buffer (blank_engine 33178) (Some 0) 33178 True)"
  by (rule bidi_buffers_overlap) simp_all

end
