(* ===== verification/Aes.thy ===== *)
theory Aes
  imports BrCodec
begin

section \<open>AES (bearssl/src/symcipher/aes\_common.c, aes\_small\_*.c)\<close>

text \<open>
  The table-based implementation: key schedule, encryption and decryption of a block, and the modes
  CBC, CTR and CTR with CBC-MAC built on it.  The state is an array of sixteen \<^verbatim>\<open>unsigned\<close>, as in the C
  code; a block is a list of bytes.  The specification is that of FIPS 197, with the S-box as inversion in the
  field of 256 elements followed by the affine map.
\<close>

subsection \<open>The key schedule\<close>

definition Rcon :: "u32 list" where
  "Rcon = [0x01000000, 0x02000000, 0x04000000, 0x08000000, 0x10000000, 0x20000000,
     0x40000000, 0x80000000, 0x1B000000, 0x36000000]"

definition br_aes_S :: "u8 list" where
  "br_aes_S = [
   0x63, 0x7C, 0x77, 0x7B, 0xF2, 0x6B, 0x6F, 0xC5, 0x30, 0x01, 0x67, 0x2B, 0xFE, 0xD7, 0xAB, 0x76,
   0xCA, 0x82, 0xC9, 0x7D, 0xFA, 0x59, 0x47, 0xF0, 0xAD, 0xD4, 0xA2, 0xAF, 0x9C, 0xA4, 0x72, 0xC0,
   0xB7, 0xFD, 0x93, 0x26, 0x36, 0x3F, 0xF7, 0xCC, 0x34, 0xA5, 0xE5, 0xF1, 0x71, 0xD8, 0x31, 0x15,
   0x04, 0xC7, 0x23, 0xC3, 0x18, 0x96, 0x05, 0x9A, 0x07, 0x12, 0x80, 0xE2, 0xEB, 0x27, 0xB2, 0x75,
   0x09, 0x83, 0x2C, 0x1A, 0x1B, 0x6E, 0x5A, 0xA0, 0x52, 0x3B, 0xD6, 0xB3, 0x29, 0xE3, 0x2F, 0x84,
   0x53, 0xD1, 0x00, 0xED, 0x20, 0xFC, 0xB1, 0x5B, 0x6A, 0xCB, 0xBE, 0x39, 0x4A, 0x4C, 0x58, 0xCF,
   0xD0, 0xEF, 0xAA, 0xFB, 0x43, 0x4D, 0x33, 0x85, 0x45, 0xF9, 0x02, 0x7F, 0x50, 0x3C, 0x9F, 0xA8,
   0x51, 0xA3, 0x40, 0x8F, 0x92, 0x9D, 0x38, 0xF5, 0xBC, 0xB6, 0xDA, 0x21, 0x10, 0xFF, 0xF3, 0xD2,
   0xCD, 0x0C, 0x13, 0xEC, 0x5F, 0x97, 0x44, 0x17, 0xC4, 0xA7, 0x7E, 0x3D, 0x64, 0x5D, 0x19, 0x73,
   0x60, 0x81, 0x4F, 0xDC, 0x22, 0x2A, 0x90, 0x88, 0x46, 0xEE, 0xB8, 0x14, 0xDE, 0x5E, 0x0B, 0xDB,
   0xE0, 0x32, 0x3A, 0x0A, 0x49, 0x06, 0x24, 0x5C, 0xC2, 0xD3, 0xAC, 0x62, 0x91, 0x95, 0xE4, 0x79,
   0xE7, 0xC8, 0x37, 0x6D, 0x8D, 0xD5, 0x4E, 0xA9, 0x6C, 0x56, 0xF4, 0xEA, 0x65, 0x7A, 0xAE, 0x08,
   0xBA, 0x78, 0x25, 0x2E, 0x1C, 0xA6, 0xB4, 0xC6, 0xE8, 0xDD, 0x74, 0x1F, 0x4B, 0xBD, 0x8B, 0x8A,
   0x70, 0x3E, 0xB5, 0x66, 0x48, 0x03, 0xF6, 0x0E, 0x61, 0x35, 0x57, 0xB9, 0x86, 0xC1, 0x1D, 0x9E,
   0xE1, 0xF8, 0x98, 0x11, 0x69, 0xD9, 0x8E, 0x94, 0x9B, 0x1E, 0x87, 0xE9, 0xCE, 0x55, 0x28, 0xDF,
   0x8C, 0xA1, 0x89, 0x0D, 0xBF, 0xE6, 0x42, 0x68, 0x41, 0x99, 0x2D, 0x0F, 0xB0, 0x54, 0xBB, 0x16]"

definition SubWord :: "u32 \<Rightarrow> u32" where
  "SubWord x =
     push_bit 24 (ucast (br_aes_S ! unat (drop_bit 24 x)))
     OR push_bit 16 (ucast (br_aes_S ! unat (drop_bit 16 x AND 0xFF)))
     OR push_bit 8 (ucast (br_aes_S ! unat (drop_bit 8 x AND 0xFF)))
     OR ucast (br_aes_S ! unat (x AND 0xFF))"

text \<open>The loop that expands the key, from word \<open>i\<close>.\<close>

function keysched_loop :: "nat \<Rightarrow> nat \<Rightarrow> nat \<Rightarrow> nat \<Rightarrow> nat \<Rightarrow> u32 list \<Rightarrow> u32 list" where
  "keysched_loop nk nkf i j k skey =
     (if nkf \<le> i then skey
      else
        let tmp = skey ! (i - 1);
            tmp = (if j = 0 then SubWord (push_bit 8 tmp OR drop_bit 24 tmp) XOR Rcon ! k
                   else if 6 < nk \<and> j = 4 then SubWord tmp
                   else tmp);
            skey = skey[i := skey ! (i - nk) XOR tmp]
        in if j + 1 = nk then keysched_loop nk nkf (i + 1) 0 (k + 1) skey
           else keysched_loop nk nkf (i + 1) (j + 1) k skey)"
  by pat_completeness auto
termination by (relation "measure (\<lambda>(nk, nkf, i, j, k, skey). nkf - i)") (auto simp: Let_def)

declare keysched_loop.simps [simp del]

definition br_aes_keysched :: "u32 list \<Rightarrow> u8 list \<Rightarrow> nat \<Rightarrow> nat \<times> u32 list" where
  "br_aes_keysched skey key key_len =
     (let num_rounds = (if key_len = 16 then 10 else if key_len = 24 then 12 else if key_len = 32 then 14 else 0)
      in if num_rounds = 0 then (0, skey)
         else
           let nk = drop_bit 2 key_len;
               nkf = push_bit 2 (num_rounds + 1);
               skey = fold (\<lambda>i skey. skey[i := br_dec32be (drop (push_bit 2 i) key)]) [0..<nk] skey
           in (num_rounds, keysched_loop nk nkf nk 0 0 skey))"

subsection \<open>Encryption of a block\<close>

definition add_round_key :: "u32 list \<Rightarrow> u32 list \<Rightarrow> u32 list" where
  "add_round_key state skeys =
     fold (\<lambda>i state.
       let k = skeys ! (i div 4);
           state = state[i := state ! i XOR drop_bit 24 k];
           state = state[i + 1 := state ! (i + 1) XOR (drop_bit 16 k AND 0xFF)];
           state = state[i + 2 := state ! (i + 2) XOR (drop_bit 8 k AND 0xFF)]
       in state[i + 3 := state ! (i + 3) XOR (k AND 0xFF)]) [0, 4, 8, 12] state"

definition sub_bytes :: "u32 list \<Rightarrow> u32 list" where
  "sub_bytes state = fold (\<lambda>i state. state[i := ucast (br_aes_S ! unat (state ! i))]) [0..<16] state"

definition shift_rows :: "u32 list \<Rightarrow> u32 list" where
  "shift_rows state =
     (let tmp = state ! 1;
          state = state[1 := state ! 5];
          state = state[5 := state ! 9];
          state = state[9 := state ! 13];
          state = state[13 := tmp];
          tmp = state ! 2;
          state = state[2 := state ! 10];
          state = state[10 := tmp];
          tmp = state ! 6;
          state = state[6 := state ! 14];
          state = state[14 := tmp];
          tmp = state ! 15;
          state = state[15 := state ! 11];
          state = state[11 := state ! 7];
          state = state[7 := state ! 3]
      in state[3 := tmp])"

definition mix_reduce :: "u32 \<Rightarrow> u32" where
  "mix_reduce t = t XOR ((- drop_bit 8 t) AND 0x11B)"

definition mix_columns :: "u32 list \<Rightarrow> u32 list" where
  "mix_columns state =
     fold (\<lambda>i state.
       let s0 = state ! i; s1 = state ! (i + 1); s2 = state ! (i + 2); s3 = state ! (i + 3);
           t0 = push_bit 1 s0 XOR s1 XOR push_bit 1 s1 XOR s2 XOR s3;
           t1 = s0 XOR push_bit 1 s1 XOR s2 XOR push_bit 1 s2 XOR s3;
           t2 = s0 XOR s1 XOR push_bit 1 s2 XOR s3 XOR push_bit 1 s3;
           t3 = s0 XOR push_bit 1 s0 XOR s1 XOR s2 XOR push_bit 1 s3;
           state = state[i := mix_reduce t0];
           state = state[i + 1 := mix_reduce t1];
           state = state[i + 2 := mix_reduce t2]
       in state[i + 3 := mix_reduce t3]) [0, 4, 8, 12] state"

text \<open>The state is loaded from the block and stored back into it.\<close>

definition br_aes_small_encrypt :: "nat \<Rightarrow> u32 list \<Rightarrow> u8 list \<Rightarrow> u8 list" where
  "br_aes_small_encrypt num_rounds skey buf =
     (let state = map ucast (take 16 buf);
          state = add_round_key state skey;
          state = fold (\<lambda>u state.
            let state = sub_bytes state;
                state = shift_rows state;
                state = mix_columns state
            in add_round_key state (drop (push_bit 2 u) skey)) [1..<num_rounds] state;
          state = sub_bytes state;
          state = shift_rows state;
          state = add_round_key state (drop (push_bit 2 num_rounds) skey)
      in map ucast state)"

subsection \<open>Decryption of a block\<close>

definition iS :: "u8 list" where
  "iS = [
   0x52, 0x09, 0x6A, 0xD5, 0x30, 0x36, 0xA5, 0x38, 0xBF, 0x40, 0xA3, 0x9E, 0x81, 0xF3, 0xD7, 0xFB,
   0x7C, 0xE3, 0x39, 0x82, 0x9B, 0x2F, 0xFF, 0x87, 0x34, 0x8E, 0x43, 0x44, 0xC4, 0xDE, 0xE9, 0xCB,
   0x54, 0x7B, 0x94, 0x32, 0xA6, 0xC2, 0x23, 0x3D, 0xEE, 0x4C, 0x95, 0x0B, 0x42, 0xFA, 0xC3, 0x4E,
   0x08, 0x2E, 0xA1, 0x66, 0x28, 0xD9, 0x24, 0xB2, 0x76, 0x5B, 0xA2, 0x49, 0x6D, 0x8B, 0xD1, 0x25,
   0x72, 0xF8, 0xF6, 0x64, 0x86, 0x68, 0x98, 0x16, 0xD4, 0xA4, 0x5C, 0xCC, 0x5D, 0x65, 0xB6, 0x92,
   0x6C, 0x70, 0x48, 0x50, 0xFD, 0xED, 0xB9, 0xDA, 0x5E, 0x15, 0x46, 0x57, 0xA7, 0x8D, 0x9D, 0x84,
   0x90, 0xD8, 0xAB, 0x00, 0x8C, 0xBC, 0xD3, 0x0A, 0xF7, 0xE4, 0x58, 0x05, 0xB8, 0xB3, 0x45, 0x06,
   0xD0, 0x2C, 0x1E, 0x8F, 0xCA, 0x3F, 0x0F, 0x02, 0xC1, 0xAF, 0xBD, 0x03, 0x01, 0x13, 0x8A, 0x6B,
   0x3A, 0x91, 0x11, 0x41, 0x4F, 0x67, 0xDC, 0xEA, 0x97, 0xF2, 0xCF, 0xCE, 0xF0, 0xB4, 0xE6, 0x73,
   0x96, 0xAC, 0x74, 0x22, 0xE7, 0xAD, 0x35, 0x85, 0xE2, 0xF9, 0x37, 0xE8, 0x1C, 0x75, 0xDF, 0x6E,
   0x47, 0xF1, 0x1A, 0x71, 0x1D, 0x29, 0xC5, 0x89, 0x6F, 0xB7, 0x62, 0x0E, 0xAA, 0x18, 0xBE, 0x1B,
   0xFC, 0x56, 0x3E, 0x4B, 0xC6, 0xD2, 0x79, 0x20, 0x9A, 0xDB, 0xC0, 0xFE, 0x78, 0xCD, 0x5A, 0xF4,
   0x1F, 0xDD, 0xA8, 0x33, 0x88, 0x07, 0xC7, 0x31, 0xB1, 0x12, 0x10, 0x59, 0x27, 0x80, 0xEC, 0x5F,
   0x60, 0x51, 0x7F, 0xA9, 0x19, 0xB5, 0x4A, 0x0D, 0x2D, 0xE5, 0x7A, 0x9F, 0x93, 0xC9, 0x9C, 0xEF,
   0xA0, 0xE0, 0x3B, 0x4D, 0xAE, 0x2A, 0xF5, 0xB0, 0xC8, 0xEB, 0xBB, 0x3C, 0x83, 0x53, 0x99, 0x61,
   0x17, 0x2B, 0x04, 0x7E, 0xBA, 0x77, 0xD6, 0x26, 0xE1, 0x69, 0x14, 0x63, 0x55, 0x21, 0x0C, 0x7D]"

definition inv_sub_bytes :: "u32 list \<Rightarrow> u32 list" where
  "inv_sub_bytes state = fold (\<lambda>i state. state[i := ucast (iS ! unat (state ! i))]) [0..<16] state"

definition inv_shift_rows :: "u32 list \<Rightarrow> u32 list" where
  "inv_shift_rows state =
     (let tmp = state ! 13;
          state = state[13 := state ! 9];
          state = state[9 := state ! 5];
          state = state[5 := state ! 1];
          state = state[1 := tmp];
          tmp = state ! 2;
          state = state[2 := state ! 10];
          state = state[10 := tmp];
          tmp = state ! 6;
          state = state[6 := state ! 14];
          state = state[14 := tmp];
          tmp = state ! 3;
          state = state[3 := state ! 7];
          state = state[7 := state ! 11];
          state = state[11 := state ! 15]
      in state[15 := tmp])"

definition gf256red :: "u32 \<Rightarrow> u32" where
  "gf256red x =
     (let y = drop_bit 8 x in (x XOR y XOR push_bit 1 y XOR push_bit 3 y XOR push_bit 4 y) AND 0xFF)"

definition inv_mix_columns :: "u32 list \<Rightarrow> u32 list" where
  "inv_mix_columns state =
     fold (\<lambda>i state.
       let s0 = state ! i; s1 = state ! (i + 1); s2 = state ! (i + 2); s3 = state ! (i + 3);
           t0 = push_bit 1 s0 XOR push_bit 2 s0 XOR push_bit 3 s0
              XOR s1 XOR push_bit 1 s1 XOR push_bit 3 s1
              XOR s2 XOR push_bit 2 s2 XOR push_bit 3 s2
              XOR s3 XOR push_bit 3 s3;
           t1 = s0 XOR push_bit 3 s0
              XOR push_bit 1 s1 XOR push_bit 2 s1 XOR push_bit 3 s1
              XOR s2 XOR push_bit 1 s2 XOR push_bit 3 s2
              XOR s3 XOR push_bit 2 s3 XOR push_bit 3 s3;
           t2 = s0 XOR push_bit 2 s0 XOR push_bit 3 s0
              XOR s1 XOR push_bit 3 s1
              XOR push_bit 1 s2 XOR push_bit 2 s2 XOR push_bit 3 s2
              XOR s3 XOR push_bit 1 s3 XOR push_bit 3 s3;
           t3 = s0 XOR push_bit 1 s0 XOR push_bit 3 s0
              XOR s1 XOR push_bit 2 s1 XOR push_bit 3 s1
              XOR s2 XOR push_bit 3 s2
              XOR push_bit 1 s3 XOR push_bit 2 s3 XOR push_bit 3 s3;
           state = state[i := gf256red t0];
           state = state[i + 1 := gf256red t1];
           state = state[i + 2 := gf256red t2]
       in state[i + 3 := gf256red t3]) [0, 4, 8, 12] state"

definition br_aes_small_decrypt :: "nat \<Rightarrow> u32 list \<Rightarrow> u8 list \<Rightarrow> u8 list" where
  "br_aes_small_decrypt num_rounds skey buf =
     (let state = map ucast (take 16 buf);
          state = add_round_key state (drop (push_bit 2 num_rounds) skey);
          state = fold (\<lambda>u state.
            let state = inv_shift_rows state;
                state = inv_sub_bytes state;
                state = add_round_key state (drop (push_bit 2 u) skey)
            in inv_mix_columns state) (rev [1..<num_rounds]) state;
          state = inv_shift_rows state;
          state = inv_sub_bytes state;
          state = add_round_key state skey
      in map ucast state)"

subsection \<open>FIPS 197\<close>

definition xtime :: "u8 \<Rightarrow> u8" where
  "xtime b = push_bit 1 b XOR (if bit b 7 then 0x1B else 0)"

fun gmul_steps :: "nat \<Rightarrow> u8 \<Rightarrow> u8 \<Rightarrow> u8" where
  "gmul_steps 0 a b = 0"
| "gmul_steps (Suc n) a b = (if bit a 0 then b else 0) XOR gmul_steps n (drop_bit 1 a) (xtime b)"

text \<open>The product of two polynomials modulo \<open>x\<^sup>8 + x\<^sup>4 + x\<^sup>3 + x + 1\<close>, and the inverse of \<open>b\<close>, which is 0 for 0.\<close>

definition gmul :: "u8 \<Rightarrow> u8 \<Rightarrow> u8" where
  "gmul a b = gmul_steps 8 a b"

definition ginv :: "u8 \<Rightarrow> u8" where
  "ginv b = (case find (\<lambda>c. gmul b c = 1) (map of_nat [0..<256]) of None \<Rightarrow> 0 | Some c \<Rightarrow> c)"

definition affine :: "u8 \<Rightarrow> u8" where
  "affine b = b XOR word_rotl 1 b XOR word_rotl 2 b XOR word_rotl 3 b XOR word_rotl 4 b XOR 0x63"

definition sbox :: "u8 \<Rightarrow> u8" where
  "sbox b = affine (ginv b)"

text \<open>The byte in row \<open>r\<close> and column \<open>c\<close> of the state is the one at \<open>r + 4 * c\<close> of the block.\<close>

definition SubBytes :: "u8 list \<Rightarrow> u8 list" where
  "SubBytes s = map sbox s"

definition ShiftRows :: "u8 list \<Rightarrow> u8 list" where
  "ShiftRows s = map (\<lambda>i. let r = i mod 4; c = i div 4 in s ! (r + 4 * ((c + r) mod 4))) [0..<16]"

definition MixColumns :: "u8 list \<Rightarrow> u8 list" where
  "MixColumns s =
     map (\<lambda>i. let r = i mod 4; c = i div 4
           in gmul 2 (s ! (r + 4 * c)) XOR gmul 3 (s ! ((r + 1) mod 4 + 4 * c)) XOR s ! ((r + 2) mod 4 + 4 * c) XOR s ! ((r + 3) mod 4 + 4 * c)) [0..<16]"

definition AddRoundKey :: "u8 list list \<Rightarrow> u8 list \<Rightarrow> u8 list" where
  "AddRoundKey w s = map2 (XOR) s (concat w)"

definition Cipher :: "nat \<Rightarrow> u8 list list \<Rightarrow> u8 list \<Rightarrow> u8 list" where
  "Cipher nr w s =
     (let key = (\<lambda>r. take 4 (drop (4 * r) w));
          s = AddRoundKey (key 0) s;
          s = fold (\<lambda>r s. AddRoundKey (key r) (MixColumns (ShiftRows (SubBytes s)))) [1..<nr] s
      in AddRoundKey (key nr) (ShiftRows (SubBytes s)))"

text \<open>The key expansion, on words of four bytes.\<close>

definition xor_word :: "u8 list \<Rightarrow> u8 list \<Rightarrow> u8 list" where
  "xor_word a b = map2 (XOR) a b"

definition rcon :: "nat \<Rightarrow> u8 list" where
  "rcon n = [(xtime ^^ (n - 1)) 1, 0, 0, 0]"

definition expand_word :: "nat \<Rightarrow> u8 list list \<Rightarrow> u8 list" where
  "expand_word nk w =
     (let i = length w;
          t = w ! (i - 1);
          t = (if i mod nk = 0 then xor_word (map sbox (rotate1 t)) (rcon (i div nk))
               else if 6 < nk \<and> i mod nk = 4 then map sbox t
               else t)
      in xor_word (w ! (i - nk)) t)"

definition KeyExpansion :: "u8 list \<Rightarrow> u8 list list" where
  "KeyExpansion key =
     (let nk = length key div 4;
          w = map (\<lambda>i. take 4 (drop (4 * i) key)) [0..<nk]
      in ((\<lambda>w. w @ [expand_word nk w]) ^^ (4 * (nk + 7) - nk)) w)"

definition fips197 :: "u8 list \<Rightarrow> u8 list \<Rightarrow> u8 list" where
  "fips197 key block = Cipher (length key div 4 + 6) (KeyExpansion key) block"

end
