(* ===== verification/AesField.thy ===== *)
theory AesField
  imports Aes
begin

section \<open>The field of AES\<close>

text \<open>
  The polynomials modulo \<open>x\<^sup>8 + x\<^sup>4 + x\<^sup>3 + x + 1\<close>: the product is bilinear, commutative and associative, so that
  inverses are unique and the S-box tables of the source can be compared with their definition.
\<close>

subsection \<open>Linear functions on bytes\<close>

definition linear8 :: "(u8 \<Rightarrow> u8) \<Rightarrow> bool" where
  "linear8 f \<longleftrightarrow> (\<forall>a b. f (a XOR b) = f a XOR f b)"

definition basis_sum :: "u8 \<Rightarrow> nat \<Rightarrow> u8" where
  "basis_sum b k = fold (\<lambda>i a. a XOR (if bit b i then push_bit i 1 else 0)) [0..<k] 0"

lemma basis_sum: "basis_sum b k = take_bit k b"
proof (induction k)
  case (Suc k)
  have "take_bit (Suc k) b = take_bit k b XOR (if bit b k then push_bit k 1 else 0)"
    by (rule bit_word_eqI) (auto simp: bit_simps less_Suc_eq simp del: push_bit_of_1)
  then show ?case using Suc by (simp add: basis_sum_def)
qed (simp add: basis_sum_def)

lemma byte_basis: "b = basis_sum b 8"
  by (rule bit_word_eqI) (simp add: basis_sum bit_simps)

lemma linear_zero: "linear8 f \<Longrightarrow> f 0 = 0"
  unfolding linear8_def by (metis xor_self_eq)

lemma linear_ext:
  assumes "linear8 f" "linear8 g" "\<And>i. i < 8 \<Longrightarrow> f (push_bit i 1) = g (push_bit i 1)"
  shows "f b = g b"
proof -
  have e: "k \<le> 8 \<Longrightarrow> f (basis_sum b k) = g (basis_sum b k)" for k
  proof (induction k)
    case (Suc k)
    have "basis_sum b (Suc k) = basis_sum b k XOR (if bit b k then push_bit k 1 else 0)" by (simp add: basis_sum_def)
    then show ?case using Suc assms(3) [of k] assms(1,2) linear_zero [OF assms(1)] linear_zero [OF assms(2)]
      by (simp add: linear8_def)
  qed (simp add: basis_sum_def linear_zero [OF assms(1)] linear_zero [OF assms(2)])
  show ?thesis using e [of 8] byte_basis [of b] by simp
qed

lemma linear_id: "linear8 (\<lambda>b. b)" "linear8 (\<lambda>b. 0)"
  by (simp_all add: linear8_def)

lemma linear_xor: "linear8 f \<Longrightarrow> linear8 g \<Longrightarrow> linear8 (\<lambda>b. f b XOR g b)"
  by (simp add: linear8_def ac_simps)

lemma linear_comp: "linear8 f \<Longrightarrow> linear8 g \<Longrightarrow> linear8 (\<lambda>b. f (g b))"
  by (simp add: linear8_def)

lemma xtime_xor: "xtime (a XOR b) = xtime a XOR xtime b"
  by (simp add: xtime_def push_bit_xor bit_simps xor.assoc xor.left_commute)

lemma linear_xtime: "linear8 xtime"
  by (simp add: linear8_def xtime_xor)

lemma xtime_zero [simp]: "xtime 0 = 0"
  by (simp add: xtime_def)

subsection \<open>The product\<close>

lemma steps_zero [simp]: "gmul_steps n a 0 = 0"
  by (induction n arbitrary: a) simp_all

lemma steps_xor_right: "gmul_steps n a (b XOR c) = gmul_steps n a b XOR gmul_steps n a c"
  by (induction n arbitrary: a b c) (simp_all add: xtime_xor ac_simps)

lemma steps_xtime: "gmul_steps n a (xtime b) = xtime (gmul_steps n a b)"
  by (induction n arbitrary: a b) (simp_all add: xtime_xor)

lemma steps_xor_left: "gmul_steps n (a XOR b) c = gmul_steps n a c XOR gmul_steps n b c"
  by (induction n arbitrary: a b c) (simp_all add: drop_bit_xor bit_simps ac_simps)

lemma steps_left_zero [simp]: "gmul_steps n 0 b = 0"
  by (induction n arbitrary: b) simp_all

lemma linear_gmul: "linear8 (gmul a)" "linear8 (\<lambda>a. gmul a b)"
  by (simp_all add: linear8_def gmul_def steps_xor_right steps_xor_left)

lemma steps_push:
  assumes "i < 8"
  shows "gmul_steps n (push_bit i 1) b = (if i < n then (xtime ^^ i) b else 0)"
  using assms
proof (induction n arbitrary: i b)
  case (Suc n)
  show ?case
  proof (cases i)
    case 0
    have "drop_bit (Suc 0) (1 :: u8) = 0" by (simp add: drop_bit_Suc)
    then show ?thesis by (simp add: 0)
  next
    case (Suc j)
    have "drop_bit 1 (push_bit (Suc j) 1 :: u8) = push_bit j 1"
      using Suc.prems Suc by (intro bit_word_eqI) (auto simp: bit_simps)
    then show ?thesis using Suc.IH [of j "xtime b"] Suc.prems
      by (simp add: Suc bit_simps funpow_swap1)
  qed
qed simp

lemma gmul_push: "i < 8 \<Longrightarrow> gmul (push_bit i 1) b = (xtime ^^ i) b"
  unfolding gmul_def by (subst steps_push) simp_all

lemma gmul_xtime_right: "gmul a (xtime b) = xtime (gmul a b)"
  by (simp add: gmul_def steps_xtime)

lemma gmul_funpow_right: "gmul a ((xtime ^^ i) b) = (xtime ^^ i) (gmul a b)"
  by (induction i) (simp_all add: gmul_xtime_right)

lemma linear_funpow: "linear8 (xtime ^^ i)"
  by (induction i) (simp_all add: linear8_def xtime_xor)

lemma less8: "i < (8 :: nat) \<Longrightarrow> i = 0 \<or> i = 1 \<or> i = 2 \<or> i = 3 \<or> i = 4 \<or> i = 5 \<or> i = 6 \<or> i = 7"
  by linarith

lemma gmul_steps_numeral: "gmul_steps (numeral k) a b = (if bit a 0 then b else 0) XOR gmul_steps (pred_numeral k) (drop_bit 1 a) (xtime b)"
  by (simp only: numeral_eq_Suc gmul_steps.simps)

lemma funpow_8: "(f ^^ 8) c = f (f (f (f (f (f (f (f c)))))))"
  by (simp add: numeral_eq_Suc)

lemma xtime_8: "(xtime ^^ 8) c = gmul 0x1B c"
proof (rule linear_ext [OF linear_funpow linear_gmul(1)])
  fix i :: nat assume "i < 8"
  then have "i = 0 \<or> i = 1 \<or> i = 2 \<or> i = 3 \<or> i = 4 \<or> i = 5 \<or> i = 6 \<or> i = 7" by linarith
  then show "(xtime ^^ 8) (push_bit i 1) = gmul 0x1B (push_bit i 1)"
    unfolding gmul_def gmul_steps_numeral funpow_8
    by (elim disjE; hypsubst) (simp_all add: gmul_steps_numeral xtime_def)
qed

lemma xtime_push: "Suc i < 8 \<Longrightarrow> xtime (push_bit i 1) = push_bit (Suc i) 1"
  by (simp add: xtime_def bit_simps del: push_bit_of_1)

lemma gmul_xtime_left: "gmul (xtime a) c = xtime (gmul a c)"
proof (rule linear_ext [of "\<lambda>a. gmul (xtime a) c" "\<lambda>a. xtime (gmul a c)"])
  show "linear8 (\<lambda>a. gmul (xtime a) c)" by (rule linear_comp [OF linear_gmul(2) linear_xtime])
  show "linear8 (\<lambda>a. xtime (gmul a c))" by (rule linear_comp [OF linear_xtime linear_gmul(2)])
  fix i :: nat assume i: "i < 8"
  show "gmul (xtime (push_bit i 1)) c = xtime (gmul (push_bit i 1) c)"
  proof (cases "i = 7")
    case True
    have "xtime (push_bit 7 1) = 0x1B" by (simp add: xtime_def)
    then have "gmul (xtime (push_bit i 1)) c = (xtime ^^ 8) c" unfolding True xtime_8 by (rule arg_cong)
    also have "\<dots> = xtime ((xtime ^^ 7) c)" by (simp add: numeral_eq_Suc)
    also have "\<dots> = xtime (gmul (push_bit i 1) c)" using gmul_push [of 7 c] by (simp add: True)
    finally show ?thesis .
  next
    case False
    then have "xtime (push_bit i 1) = push_bit (Suc i) 1" using i by (intro xtime_push) simp
    then show ?thesis using i False gmul_push [of "Suc i" c] gmul_push [of i c] by simp
  qed
qed

lemma gmul_funpow_left: "gmul ((xtime ^^ i) a) c = (xtime ^^ i) (gmul a c)"
  by (induction i) (simp_all add: gmul_xtime_left)

lemma gmul_assoc: "gmul a (gmul b c) = gmul (gmul a b) c"
proof (rule linear_ext [of "\<lambda>a. gmul a (gmul b c)" "\<lambda>a. gmul (gmul a b) c"])
  show "linear8 (\<lambda>a. gmul (gmul a b) c)" by (rule linear_comp [OF linear_gmul(2) linear_gmul(2)])
qed (simp_all only: linear_gmul gmul_push gmul_funpow_left)

lemma gmul_one: "gmul 1 b = b" "gmul b 1 = b"
proof -
  show "gmul 1 b = b" using gmul_push [of 0 b] by simp
  show "gmul b 1 = b"
  proof (rule linear_ext [of "\<lambda>b. gmul b 1"])
    fix i :: nat assume i: "i < 8"
    have "j < 8 \<Longrightarrow> (xtime ^^ j) 1 = push_bit j 1" for j
    proof (induction j)
      case (Suc j)
      then show ?case using xtime_push [of j] by simp
    qed simp
    then show "gmul (push_bit i 1) 1 = push_bit i 1" using i gmul_push by simp
  qed (simp_all add: linear_gmul linear_id)
qed

lemma gmul_commute: "gmul a b = gmul b a"
proof (rule linear_ext [of "\<lambda>a. gmul a b" "\<lambda>a. gmul b a"])
  fix i :: nat assume i: "i < 8"
  have p: "(xtime ^^ i) 1 = push_bit i 1" using gmul_push [OF i, of 1] by (simp add: gmul_one)
  show "gmul (push_bit i 1) b = gmul b (push_bit i 1)"
    unfolding gmul_push [OF i] unfolding p [symmetric] gmul_funpow_right gmul_one ..
qed (simp_all add: linear_gmul)

lemma inverse_unique: "gmul b c = 1 \<Longrightarrow> gmul b d = 1 \<Longrightarrow> c = d"
  by (metis gmul_assoc gmul_commute gmul_one(1))

subsection \<open>The S-box\<close>

text \<open>The inverses, in four parts.\<close>

definition inv0 :: "u8 list" where
  "inv0 = [
   0x00, 0x01, 0x8D, 0xF6, 0xCB, 0x52, 0x7B, 0xD1, 0xE8, 0x4F, 0x29, 0xC0, 0xB0, 0xE1, 0xE5, 0xC7,
   0x74, 0xB4, 0xAA, 0x4B, 0x99, 0x2B, 0x60, 0x5F, 0x58, 0x3F, 0xFD, 0xCC, 0xFF, 0x40, 0xEE, 0xB2,
   0x3A, 0x6E, 0x5A, 0xF1, 0x55, 0x4D, 0xA8, 0xC9, 0xC1, 0x0A, 0x98, 0x15, 0x30, 0x44, 0xA2, 0xC2,
   0x2C, 0x45, 0x92, 0x6C, 0xF3, 0x39, 0x66, 0x42, 0xF2, 0x35, 0x20, 0x6F, 0x77, 0xBB, 0x59, 0x19]"

definition inv1 :: "u8 list" where
  "inv1 = [
   0x1D, 0xFE, 0x37, 0x67, 0x2D, 0x31, 0xF5, 0x69, 0xA7, 0x64, 0xAB, 0x13, 0x54, 0x25, 0xE9, 0x09,
   0xED, 0x5C, 0x05, 0xCA, 0x4C, 0x24, 0x87, 0xBF, 0x18, 0x3E, 0x22, 0xF0, 0x51, 0xEC, 0x61, 0x17,
   0x16, 0x5E, 0xAF, 0xD3, 0x49, 0xA6, 0x36, 0x43, 0xF4, 0x47, 0x91, 0xDF, 0x33, 0x93, 0x21, 0x3B,
   0x79, 0xB7, 0x97, 0x85, 0x10, 0xB5, 0xBA, 0x3C, 0xB6, 0x70, 0xD0, 0x06, 0xA1, 0xFA, 0x81, 0x82]"

definition inv2 :: "u8 list" where
  "inv2 = [
   0x83, 0x7E, 0x7F, 0x80, 0x96, 0x73, 0xBE, 0x56, 0x9B, 0x9E, 0x95, 0xD9, 0xF7, 0x02, 0xB9, 0xA4,
   0xDE, 0x6A, 0x32, 0x6D, 0xD8, 0x8A, 0x84, 0x72, 0x2A, 0x14, 0x9F, 0x88, 0xF9, 0xDC, 0x89, 0x9A,
   0xFB, 0x7C, 0x2E, 0xC3, 0x8F, 0xB8, 0x65, 0x48, 0x26, 0xC8, 0x12, 0x4A, 0xCE, 0xE7, 0xD2, 0x62,
   0x0C, 0xE0, 0x1F, 0xEF, 0x11, 0x75, 0x78, 0x71, 0xA5, 0x8E, 0x76, 0x3D, 0xBD, 0xBC, 0x86, 0x57]"

definition inv3 :: "u8 list" where
  "inv3 = [
   0x0B, 0x28, 0x2F, 0xA3, 0xDA, 0xD4, 0xE4, 0x0F, 0xA9, 0x27, 0x53, 0x04, 0x1B, 0xFC, 0xAC, 0xE6,
   0x7A, 0x07, 0xAE, 0x63, 0xC5, 0xDB, 0xE2, 0xEA, 0x94, 0x8B, 0xC4, 0xD5, 0x9D, 0xF8, 0x90, 0x6B,
   0xB1, 0x0D, 0xD6, 0xEB, 0xC6, 0x0E, 0xCF, 0xAD, 0x08, 0x4E, 0xD7, 0xE3, 0x5D, 0x50, 0x1E, 0xB3,
   0x5B, 0x23, 0x38, 0x34, 0x68, 0x46, 0x03, 0x8C, 0xDD, 0x9C, 0x7D, 0xA0, 0xCD, 0x1A, 0x41, 0x1C]"

lemma inv0: "list_all (\<lambda>(b, c). gmul b c = 1) (zip (map of_nat [2..<64]) (drop 2 inv0))"
  by (simp add: inv0_def gmul_def gmul_steps_numeral xtime_def)

lemma inv1: "list_all (\<lambda>(b, c). gmul b c = 1) (zip (map of_nat [64..<128]) inv1)"
  by (simp add: inv1_def gmul_def gmul_steps_numeral xtime_def)

lemma inv2: "list_all (\<lambda>(b, c). gmul b c = 1) (zip (map of_nat [128..<192]) inv2)"
  by (simp add: inv2_def gmul_def gmul_steps_numeral xtime_def)

lemma inv3: "list_all (\<lambda>(b, c). gmul b c = 1) (zip (map of_nat [192..<256]) inv3)"
  by (simp add: inv3_def gmul_def gmul_steps_numeral xtime_def)

definition inverses :: "u8 list" where
  "inverses = inv0 @ inv1 @ inv2 @ inv3"

lemma inverses_gmul:
  assumes "0 < k" "k < 256"
  shows "gmul (of_nat k) (inverses ! k) = 1"
proof -
  have l: "length inv0 = 64" "length inv1 = 64" "length inv2 = 64" "length inv3 = 64"
    by (simp_all add: inv0_def inv1_def inv2_def inv3_def)
  have z: "gmul (of_nat (a + j)) (xs ! j) = 1" if "list_all (\<lambda>(b, c). gmul b c = 1) (zip (map of_nat [a..<b]) xs)" "j < b - a" "j < length xs" for a b j xs
    using that(1) [unfolded list_all_length, rule_format, of j] that(2,3) by (simp add: less_diff_conv add.commute)
  consider "k = 1" | "2 \<le> k" "k < 64" | "64 \<le> k" "k < 128" | "128 \<le> k" "k < 192" | "192 \<le> k" using assms by linarith
  then show ?thesis
  proof cases
    case 1
    then show ?thesis by (simp add: inverses_def inv0_def gmul_one)
  next
    case 2
    moreover have "Suc (Suc (k - 2)) = k" using 2 by simp
    ultimately show ?thesis using z [OF inv0, of "k - 2"] l by (simp add: inverses_def nth_append)
  next
    case 3
    define j where "j = k - 64"
    then have "k = 64 + j" "j < 64" using 3 by linarith+
    then show ?thesis using z [OF inv1, of j] l by (simp add: inverses_def nth_append)
  next
    case 4
    define j where "j = k - 128"
    then have "k = 128 + j" "j < 64" using 4 by linarith+
    then show ?thesis using z [OF inv2, of j] l by (simp add: inverses_def nth_append)
  next
    case 5
    define j where "j = k - 192"
    then have "k = 192 + j" "j < 64" using 5 assms(2) by linarith+
    then show ?thesis using z [OF inv3, of j] l by (simp add: inverses_def nth_append)
  qed
qed

lemma ginv_table: "ginv b = inverses ! unat b"
proof (cases "b = 0")
  case True
  have "find (\<lambda>c. gmul 0 c = 1) xs = None" for xs by (simp add: find_None_iff gmul_def)
  then show ?thesis by (simp add: True ginv_def inverses_def inv0_def)
next
  case False
  have k: "0 < unat b" "unat b < 256" using False unsigned_less [of b] by (simp_all add: unat_gt_0)
  have g: "gmul b (inverses ! unat b) = 1" using inverses_gmul [OF k] by simp
  let ?l = "map of_nat [0..<256] :: u8 list"
  have m: "inverses ! unat b \<in> set ?l"
  proof -
    have "inverses ! unat b = of_nat (unat (inverses ! unat b))" "unat (inverses ! unat b) < 256"
      using unsigned_less [of "inverses ! unat b"] by simp_all
    then show ?thesis by (metis (mono_tags) atLeastLessThan_iff imageI set_map set_upt zero_le)
  qed
  then obtain c where c: "find (\<lambda>c. gmul b c = 1) ?l = Some c" using g by (cases "find (\<lambda>c. gmul b c = 1) ?l") (auto simp: find_None_iff)
  then have "gmul b c = 1" by (auto simp: find_Some_iff)
  then show ?thesis using inverse_unique [OF g] c by (simp add: ginv_def)
qed

lemma rotl8: "0 < n \<Longrightarrow> n < 8 \<Longrightarrow> word_rotl n x = push_bit n x OR drop_bit (8 - n) (x :: u8)"
proof (rule bit_word_eqI)
  fix k assume n: "0 < n" "n < 8" and k: "k < LENGTH(8)"
  show "bit (word_rotl n x) k = bit (push_bit n x OR drop_bit (8 - n) x) k"
  proof (cases "k < n")
    case True
    then have "(k + (8 - n)) mod 8 = 8 - n + k" using n k by simp
    then show ?thesis using True n k by (simp add: bit_simps)
  next
    case False
    then have "(k + (8 - n)) mod 8 = k - n" using n k by (simp add: mod_if)
    moreover have "\<not> bit x (8 - n + k)" using False by (auto dest: bit_imp_le_length)
    ultimately show ?thesis using False n k by (simp add: bit_simps)
  qed
qed

lemma S_inverses: "br_aes_S = map affine inverses"
  by (simp add: br_aes_S_def inverses_def inv0_def inv1_def inv2_def inv3_def affine_def rotl8)

lemma S_sbox: "br_aes_S ! unat b = sbox b"
proof -
  have "length inverses = 256" by (simp add: inverses_def inv0_def inv1_def inv2_def inv3_def)
  then have "unat b < length inverses" using unsigned_less [of b] by simp
  then show ?thesis by (simp add: S_inverses ginv_table sbox_def)
qed

lemma inv_S: "map (\<lambda>y. iS ! unat y) br_aes_S = 0 # 1 # map of_nat [2..<256]"
  unfolding br_aes_S_def by simp (simp add: iS_def)

lemma iS_S: "iS ! unat (br_aes_S ! unat b) = b"
proof -
  have u: "unat b < 256" using unsigned_less [of b] by simp
  have l: "length br_aes_S = 256" by (simp add: br_aes_S_def)
  have "iS ! unat (br_aes_S ! unat b) = map (\<lambda>y. iS ! unat y) br_aes_S ! unat b" using u l by simp
  also have "\<dots> = of_nat (unat b)"
    unfolding inv_S using u by (cases "unat b" rule: nat.exhaust [case_product nat.exhaust]) (auto simp: nth_Cons split: nat.split)
  finally show ?thesis by simp
qed

end
