(* ===== verification/AesProps.thy ===== *)
theory AesProps
  imports AesField
begin

section \<open>AES against FIPS 197\<close>

text \<open>
  The state of the source holds sixteen bytes in words of 32 bits; each step of the source on such a state is the step
  of FIPS 197 on the bytes, and each step of decryption undoes the one of encryption.
\<close>

subsection \<open>Steps on bytes\<close>

abbreviation words :: "u8 list \<Rightarrow> u32 list" where "words \<equiv> map ucast"

lemma list16: "length s = 16 \<Longrightarrow> \<exists>a b c d e f g h i j k l m n p q. s = [a, b, c, d, e, f, g, h, i, j, k, l, m, n, p, q]"
  by (auto simp: numeral_eq_Suc length_Suc_conv)

lemma ucast_inv [simp]: "ucast (ucast (b :: u8) :: u32) = b"
  by (rule bit_word_eqI) (simp add: bit_simps)

lemma unat_word8 [simp]: "unat (ucast (b :: u8) :: u32) = unat b"
  by (rule bit_eqI) (auto simp: bit_simps dest: bit_imp_le_length)

lemma words_inv [simp]: "map (ucast \<circ> (ucast :: u8 \<Rightarrow> u32)) s = s"
  by (simp add: map_idI)

lemma sub_bytes_words:
  assumes "length s = 16"
  shows "sub_bytes (words s) = words (SubBytes s)"
proof -
  have u: "[0..<16] = [0, 1, 2, 3, 4, 5, 6, 7, 8, 9, 10, 11, 12, 13, 14, 15 :: nat]" by (simp add: upt_rec)
  show ?thesis using list16 [OF assms] unfolding sub_bytes_def u SubBytes_def by (auto simp: S_sbox)
qed

lemma ShiftRows_list:
  "ShiftRows [a, b, c, d, e, f, g, h, i, j, k, l, m, n, p, q] = [a, f, k, q, e, j, p, d, i, n, c, h, m, b, g, l]"
  by (simp add: ShiftRows_def upt_rec Let_def)

lemma shift_rows_words:
  assumes "length s = 16"
  shows "shift_rows (words s) = words (ShiftRows s)"
  using list16 [OF assms] by (auto simp: shift_rows_def Let_def ShiftRows_list)

lemma ucast_xor: "ucast (a XOR b :: u8) = (ucast a XOR ucast b :: u32)"
  by (rule bit_word_eqI) (auto simp: bit_simps)

lemma ucast_xtime: "ucast (xtime a) = push_bit 1 (ucast a :: u32) XOR (if bit a 7 then 0x11B else 0)"
proof -
  have "ucast (push_bit 1 a) = push_bit 1 (ucast a :: u32) XOR (if bit a 7 then push_bit 8 1 else 0)"
  proof (rule bit_word_eqI)
    fix n assume "n < LENGTH(32)"
    consider "n < 8" | "n = 8" | "8 < n" by linarith
    then show "bit (ucast (push_bit 1 a) :: u32) n = bit (push_bit 1 (ucast a :: u32) XOR (if bit a 7 then push_bit 8 1 else 0)) n"
      using \<open>n < LENGTH(32)\<close> by cases (auto simp: bit_simps dest: bit_imp_le_length simp del: push_bit_of_1 push_bit_Suc)
  qed
  then show ?thesis by (simp add: xtime_def ucast_xor xor.assoc)
qed

lemma mix_reduce_xtime: "mix_reduce (push_bit 1 (ucast a) XOR ucast b) = ucast (xtime a XOR b)"
proof -
  let ?t = "push_bit 1 (ucast a) XOR ucast b :: u32"
  have "drop_bit 8 ?t = of_bool (bit a 7)"
  proof (rule bit_word_eqI)
    fix n assume "n < LENGTH(32)"
    then show "bit (drop_bit 8 ?t) n = bit (of_bool (bit a 7) :: u32) n"
      by (cases n) (auto simp: bit_simps dest: bit_imp_le_length simp del: push_bit_Suc)
  qed
  then have "mix_reduce ?t = ?t XOR (if bit a 7 then 0x11B else 0)" by (simp add: mix_reduce_def)
  then show ?thesis unfolding ucast_xor ucast_xtime by (simp add: ac_simps)
qed

lemma gmul_2_3: "gmul 2 x = xtime x" "gmul 3 x = xtime x XOR x"
  by (simp_all add: gmul_def gmul_steps_numeral xor.commute)

text \<open>One column.\<close>

definition mix4 :: "u8 \<Rightarrow> u8 \<Rightarrow> u8 \<Rightarrow> u8 \<Rightarrow> u8 list" where
  "mix4 a b c d = [xtime (a XOR b) XOR b XOR c XOR d, xtime (b XOR c) XOR a XOR c XOR d,
     xtime (c XOR d) XOR a XOR b XOR d, xtime (a XOR d) XOR a XOR b XOR c]"

lemma MixColumns_list:
  "MixColumns [a, b, c, d, e, f, g, h, i, j, k, l, m, n, p, q] = mix4 a b c d @ mix4 e f g h @ mix4 i j k l @ mix4 m n p q"
  by (simp add: MixColumns_def upt_rec Let_def gmul_2_3 mix4_def xtime_xor) (simp add: ac_simps)

lemma mix_reduces:
  fixes a b c d :: u8
  shows "mix_reduce (push_bit 1 (ucast a) XOR ucast b XOR push_bit 1 (ucast b) XOR ucast c XOR ucast d) = ucast (mix4 a b c d ! 0)"
    "mix_reduce (ucast a XOR push_bit 1 (ucast b) XOR ucast c XOR push_bit 1 (ucast c) XOR ucast d) = ucast (mix4 a b c d ! 1)"
    "mix_reduce (ucast a XOR ucast b XOR push_bit 1 (ucast c) XOR ucast d XOR push_bit 1 (ucast d)) = ucast (mix4 a b c d ! 2)"
    "mix_reduce (ucast a XOR push_bit 1 (ucast a) XOR ucast b XOR ucast c XOR push_bit 1 (ucast d)) = ucast (mix4 a b c d ! 3)"
  using mix_reduce_xtime [of "a XOR b" "b XOR c XOR d"] mix_reduce_xtime [of "b XOR c" "a XOR c XOR d"]
    mix_reduce_xtime [of "c XOR d" "a XOR b XOR d"] mix_reduce_xtime [of "a XOR d" "a XOR b XOR c"]
  by (simp_all add: mix4_def ucast_xor push_bit_xor ac_simps)

lemma mix_columns_words:
  assumes "length s = 16"
  shows "mix_columns (words s) = words (MixColumns s)"
proof -
  obtain a b c d e f g h i j k l m n p q where s: "s = [a, b, c, d, e, f, g, h, i, j, k, l, m, n, p, q]" using list16 [OF assms] by auto
  show ?thesis unfolding s MixColumns_list
    by (simp add: mix_columns_def Let_def mix_reduces [unfolded One_nat_def] del: push_bit_Suc) (simp add: mix4_def)
qed

text \<open>The round key.\<close>

lemma key_byte:
  fixes k x :: u32 and a :: u8
  shows "ucast a XOR drop_bit 24 k = ucast (a XOR ucast (drop_bit 24 k))"
    "ucast a XOR (x AND 0xFF) = ucast (a XOR ucast x)"
proof -
  show "ucast a XOR drop_bit 24 k = ucast (a XOR ucast (drop_bit 24 k))"
    by (rule bit_word_eqI) (auto simp: bit_simps dest: bit_imp_le_length)
  have m: "(0xFF :: u32) = mask 8" by (simp add: mask_eq_exp_minus_1)
  show "ucast a XOR (x AND 0xFF) = ucast (a XOR ucast x)"
    unfolding m by (intro bit_word_eqI) (auto simp: bit_simps dest: bit_imp_le_length simp del: mask_numeral)
qed

lemma add_round_key_words:
  assumes "length s = 16" "4 \<le> length ks"
  shows "add_round_key (words s) ks = words (AddRoundKey (map br_enc32be (take 4 ks)) s)"
proof -
  obtain a b c d e f g h i j k l m n p q where s: "s = [a, b, c, d, e, f, g, h, i, j, k, l, m, n, p, q]" using list16 [OF assms(1)] by auto
  have t: "take 4 ks = [ks ! 0, ks ! 1, ks ! 2, ks ! 3]"
    using assms(2) by (intro nth_equalityI) (auto simp: less_Suc_eq numeral_eq_Suc)
  show ?thesis unfolding s t by (simp add: add_round_key_def Let_def key_byte AddRoundKey_def br_enc32be_def)
qed

subsection \<open>The inverse steps\<close>

lemma xor_cancel [simp]: "a XOR (a XOR b) = (b :: 'a :: len word)"
  by (simp flip: xor.assoc)

lemma inv_sub_bytes_undo:
  assumes "length s = 16"
  shows "inv_sub_bytes (words (SubBytes s)) = words s"
proof -
  have u: "[0..<16] = [0, 1, 2, 3, 4, 5, 6, 7, 8, 9, 10, 11, 12, 13, 14, 15 :: nat]" by (simp add: upt_rec)
  have i: "iS ! unat (sbox b) = b" for b using iS_S [of b] by (simp add: S_sbox)
  show ?thesis using list16 [OF assms] unfolding inv_sub_bytes_def u SubBytes_def by (auto simp: i)
qed

lemma inv_shift_rows_undo:
  assumes "length s = 16"
  shows "inv_shift_rows (words (ShiftRows s)) = words s"
  using list16 [OF assms] by (auto simp: inv_shift_rows_def Let_def ShiftRows_list)

lemma gf256red_xor: "gf256red (x XOR y) = gf256red x XOR gf256red y"
  unfolding gf256red_def Let_def push_bit_xor drop_bit_xor bit.conj_xor_distrib2 by (simp only: ac_simps)

lemma funpow_2_3: "(f ^^ 2) x = f (f x)" "(f ^^ 3) x = f (f (f x))"
  by (simp_all add: numeral_eq_Suc)

lemma gf256red_byte: "ucast (ucast (gf256red x) :: u8) = gf256red x"
proof -
  have m: "(0xFF :: u32) = mask 8" by (simp add: mask_eq_exp_minus_1)
  show ?thesis unfolding gf256red_def Let_def m
    by (rule bit_word_eqI) (auto simp: bit_simps simp del: mask_numeral push_bit_Suc)
qed

lemma gf256red_push:
  assumes "k = 0 \<or> k = 1 \<or> k = 2 \<or> k = 3"
  shows "gf256red (push_bit k (ucast a)) = ucast ((xtime ^^ k) a)"
proof -
  have "ucast (gf256red (push_bit k (ucast a))) = (xtime ^^ k) a"
  proof (rule linear_ext [of "\<lambda>a. ucast (gf256red (push_bit k (ucast a)))"])
    show "linear8 (\<lambda>a. ucast (gf256red (push_bit k (ucast a))) :: u8)"
      unfolding linear8_def ucast_xor push_bit_xor gf256red_xor by (intro allI bit_word_eqI) (simp add: bit_simps)
    fix i :: nat assume "i < 8"
    then have "i = 0 \<or> i = 1 \<or> i = 2 \<or> i = 3 \<or> i = 4 \<or> i = 5 \<or> i = 6 \<or> i = 7" by linarith
    with assms show "ucast (gf256red (push_bit k (ucast (push_bit i 1 :: u8)))) = (xtime ^^ k) (push_bit i 1)"
      by (elim disjE; hypsubst) (simp_all add: gf256red_def xtime_def funpow_2_3)
  qed (rule linear_funpow)
  then show ?thesis using gf256red_byte [of "push_bit k (ucast a)"] by simp
qed

text \<open>The four rows of the inverse matrix, on shifted bytes.\<close>

lemma red_bytes:
  fixes a b c d :: u8
  shows "gf256red (push_bit 1 (ucast a) XOR push_bit 2 (ucast a) XOR push_bit 3 (ucast a)
      XOR ucast b XOR push_bit 1 (ucast b) XOR push_bit 3 (ucast b)
      XOR ucast c XOR push_bit 2 (ucast c) XOR push_bit 3 (ucast c) XOR ucast d XOR push_bit 3 (ucast d))
    = ucast (xtime a XOR xtime (xtime a) XOR xtime (xtime (xtime a)) XOR b XOR xtime b XOR xtime (xtime (xtime b))
      XOR c XOR xtime (xtime c) XOR xtime (xtime (xtime c)) XOR d XOR xtime (xtime (xtime d)))"
  using gf256red_push [of 0] gf256red_push [of 1] gf256red_push [of 2] gf256red_push [of 3]
  by (simp add: gf256red_xor ucast_xor funpow_2_3)

lemma red_row:
  fixes a b c d :: u8
  defines "r \<equiv> \<lambda>a b c d. xtime a XOR xtime (xtime a) XOR xtime (xtime (xtime a)) XOR b XOR xtime b XOR xtime (xtime (xtime b))
      XOR c XOR xtime (xtime c) XOR xtime (xtime (xtime c)) XOR d XOR xtime (xtime (xtime d))"
  shows "r (mix4 a b c d ! 0) (mix4 a b c d ! 1) (mix4 a b c d ! 2) (mix4 a b c d ! 3) = a"
    "r (mix4 a b c d ! 1) (mix4 a b c d ! 2) (mix4 a b c d ! 3) (mix4 a b c d ! 0) = b"
    "r (mix4 a b c d ! 2) (mix4 a b c d ! 3) (mix4 a b c d ! 0) (mix4 a b c d ! 1) = c"
    "r (mix4 a b c d ! 3) (mix4 a b c d ! 0) (mix4 a b c d ! 1) (mix4 a b c d ! 2) = d"
  unfolding r_def by (simp_all add: mix4_def xtime_xor ac_simps)

lemma red_column:
  assumes "m = mix4 a b c d"
  shows "gf256red (push_bit 1 (ucast (m ! 0)) XOR push_bit 2 (ucast (m ! 0)) XOR push_bit 3 (ucast (m ! 0))
              XOR ucast (m ! 1) XOR push_bit 1 (ucast (m ! 1)) XOR push_bit 3 (ucast (m ! 1))
              XOR ucast (m ! 2) XOR push_bit 2 (ucast (m ! 2)) XOR push_bit 3 (ucast (m ! 2))
              XOR ucast (m ! 3) XOR push_bit 3 (ucast (m ! 3))) = ucast a"
    "gf256red (ucast (m ! 0) XOR push_bit 3 (ucast (m ! 0))
              XOR push_bit 1 (ucast (m ! 1)) XOR push_bit 2 (ucast (m ! 1)) XOR push_bit 3 (ucast (m ! 1))
              XOR ucast (m ! 2) XOR push_bit 1 (ucast (m ! 2)) XOR push_bit 3 (ucast (m ! 2))
              XOR ucast (m ! 3) XOR push_bit 2 (ucast (m ! 3)) XOR push_bit 3 (ucast (m ! 3))) = ucast b"
    "gf256red (ucast (m ! 0) XOR push_bit 2 (ucast (m ! 0)) XOR push_bit 3 (ucast (m ! 0))
              XOR ucast (m ! 1) XOR push_bit 3 (ucast (m ! 1))
              XOR push_bit 1 (ucast (m ! 2)) XOR push_bit 2 (ucast (m ! 2)) XOR push_bit 3 (ucast (m ! 2))
              XOR ucast (m ! 3) XOR push_bit 1 (ucast (m ! 3)) XOR push_bit 3 (ucast (m ! 3))) = ucast c"
    "gf256red (ucast (m ! 0) XOR push_bit 1 (ucast (m ! 0)) XOR push_bit 3 (ucast (m ! 0))
              XOR ucast (m ! 1) XOR push_bit 2 (ucast (m ! 1)) XOR push_bit 3 (ucast (m ! 1))
              XOR ucast (m ! 2) XOR push_bit 3 (ucast (m ! 2))
              XOR push_bit 1 (ucast (m ! 3)) XOR push_bit 2 (ucast (m ! 3)) XOR push_bit 3 (ucast (m ! 3))) = ucast d"
  using red_bytes [of "m ! 0" "m ! 1" "m ! 2" "m ! 3"] red_bytes [of "m ! 1" "m ! 2" "m ! 3" "m ! 0"]
    red_bytes [of "m ! 2" "m ! 3" "m ! 0" "m ! 1"] red_bytes [of "m ! 3" "m ! 0" "m ! 1" "m ! 2"]
  unfolding assms red_row by (simp_all only: ac_simps)

lemma inv_mix_columns_undo:
  assumes "length s = 16"
  shows "inv_mix_columns (words (MixColumns s)) = words s"
proof -
  obtain a b c d e f g h i j k l m n p q where s: "s = [a, b, c, d, e, f, g, h, i, j, k, l, m, n, p, q]" using list16 [OF assms] by auto
  have l: "mix4 a b c d = [mix4 a b c d ! 0, mix4 a b c d ! 1, mix4 a b c d ! 2, mix4 a b c d ! 3]" for a b c d
    by (simp add: mix4_def)
  show ?thesis unfolding s MixColumns_list
    by (subst l [of a b c d], subst l [of e f g h], subst l [of i j k l], subst l [of m n p q])
      (simp add: inv_mix_columns_def Let_def red_column [OF refl, unfolded One_nat_def] del: push_bit_Suc)
qed

subsection \<open>Blocks\<close>

lemma length_steps [simp]:
  "length (SubBytes s) = length s" "length (ShiftRows s) = 16" "length (MixColumns s) = 16"
  by (simp_all add: SubBytes_def ShiftRows_def MixColumns_def)

lemma concat_enc32be: "length (concat (map br_enc32be ws)) = 4 * length ws"
  by (induction ws) (simp_all add: br_enc32be_def)

lemma length_AddRoundKey [simp]: "length s = 16 \<Longrightarrow> 4 \<le> length ks \<Longrightarrow> length (AddRoundKey (map br_enc32be (take 4 ks)) s) = 16"
  by (simp add: AddRoundKey_def concat_enc32be)

lemma AddRoundKey_undo:
  assumes "length s = 16" "4 \<le> length ks"
  shows "AddRoundKey (map br_enc32be (take 4 ks)) (AddRoundKey (map br_enc32be (take 4 ks)) s) = s"
  using assms unfolding AddRoundKey_def by (intro nth_equalityI) (simp_all add: concat_enc32be xor.assoc)

text \<open>The encryption round of the source and of FIPS 197.\<close>

definition round_key :: "u32 list \<Rightarrow> nat \<Rightarrow> u8 list list" where
  "round_key skey r = map br_enc32be (take 4 (drop (4 * r) skey))"

definition aes_round :: "u32 list \<Rightarrow> nat \<Rightarrow> u8 list \<Rightarrow> u8 list" where
  "aes_round skey r s = AddRoundKey (round_key skey r) (MixColumns (ShiftRows (SubBytes s)))"

lemma push_2 [simp]: "push_bit 2 n = 4 * (n :: nat)"
  by (simp add: push_bit_eq_mult mult.commute)

lemma rounds_words:
  assumes "length s = 16" "\<forall>r \<in> set rs. 4 * (r + 1) \<le> length skey"
  shows "fold (\<lambda>u state. let state = sub_bytes state; state = shift_rows state; state = mix_columns state
      in add_round_key state (drop (push_bit 2 u) skey)) rs (words s) = words (fold (aes_round skey) rs s)
    \<and> length (fold (aes_round skey) rs s) = 16"
  using assms
proof (induction rs arbitrary: s)
  case (Cons r rs)
  have l: "4 \<le> length (drop (4 * r) skey)" using Cons.prems(2) by auto
  have r: "add_round_key (mix_columns (shift_rows (sub_bytes (words s)))) (drop (4 * r) skey) = words (aes_round skey r s)"
    using Cons.prems(1) l by (simp add: sub_bytes_words shift_rows_words mix_columns_words add_round_key_words aes_round_def round_key_def)
  have "length (aes_round skey r s) = 16" using l by (simp add: aes_round_def round_key_def)
  then show ?case using Cons.IH [of "aes_round skey r s"] Cons.prems(2) by (simp add: r Let_def)
qed simp

lemma small_encrypt_rounds:
  assumes "length b = 16" "0 < nr" "4 * (nr + 1) \<le> length skey"
  shows "br_aes_small_encrypt nr skey b
    = AddRoundKey (round_key skey nr) (ShiftRows (SubBytes (fold (aes_round skey) [1..<nr] (AddRoundKey (round_key skey 0) b))))"
proof -
  have l: "4 \<le> length skey" "4 \<le> length (drop (4 * nr) skey)" using assms(3) by simp_all
  let ?s = "AddRoundKey (round_key skey 0) b"
  have a: "add_round_key (words b) skey = words ?s" "length ?s = 16"
    using assms(1) l(1) by (simp_all add: add_round_key_words round_key_def)
  have r: "\<forall>r \<in> set [1..<nr]. 4 * (r + 1) \<le> length skey" using assms(3) by auto
  note f = rounds_words [OF a(2) r]
  show ?thesis
    unfolding br_aes_small_encrypt_def Let_def take_all [OF eq_refl [OF assms(1)]] a(1)
      f [unfolded Let_def, THEN conjunct1]
    using f [THEN conjunct2] l(2) by (simp add: sub_bytes_words shift_rows_words add_round_key_words round_key_def)
qed

lemma small_encrypt_Cipher:
  assumes "length b = 16" "0 < nr" "4 * (nr + 1) \<le> length skey"
  shows "br_aes_small_encrypt nr skey b = Cipher nr (map br_enc32be skey) b"
  unfolding small_encrypt_rounds [OF assms] Cipher_def Let_def aes_round_def [abs_def] round_key_def
  by (simp add: take_map drop_map)

text \<open>The decryption round undoes it.\<close>

lemma undo_round:
  assumes "length s = 16" "4 * (r + 1) \<le> length skey"
  shows "(let state = inv_shift_rows (words (ShiftRows (SubBytes (aes_round skey r s)))); state = inv_sub_bytes state;
      state = add_round_key state (drop (push_bit 2 r) skey) in inv_mix_columns state) = words (ShiftRows (SubBytes s))"
proof -
  have l: "4 \<le> length (drop (4 * r) skey)" using assms(2) by simp
  then have "length (aes_round skey r s) = 16" by (simp add: aes_round_def round_key_def)
  then show ?thesis using assms(1) l
    by (simp add: Let_def inv_shift_rows_undo inv_sub_bytes_undo add_round_key_words aes_round_def round_key_def AddRoundKey_undo inv_mix_columns_undo)
qed

lemma length_rounds_aes: "length s = 16 \<Longrightarrow> \<forall>r \<in> set rs. 4 * (r + 1) \<le> length skey \<Longrightarrow> length (fold (aes_round skey) rs s) = 16"
  using rounds_words by blast

lemma undo_rounds:
  assumes "length s = 16" "\<forall>r \<in> set rs. 4 * (r + 1) \<le> length skey"
  shows "fold (\<lambda>u state. let state = inv_shift_rows state; state = inv_sub_bytes state;
      state = add_round_key state (drop (push_bit 2 u) skey) in inv_mix_columns state) (rev rs)
      (words (ShiftRows (SubBytes (fold (aes_round skey) rs s)))) = words (ShiftRows (SubBytes s))"
  using assms
proof (induction rs rule: rev_induct)
  case (snoc r rs)
  have l: "length (fold (aes_round skey) rs s) = 16" using snoc.prems by (intro length_rounds_aes) simp_all
  have "4 * (r + 1) \<le> length skey" using snoc.prems by simp
  note u = undo_round [OF l this]
  show ?case using snoc by (simp add: u [unfolded push_2 Let_def] Let_def)
qed simp

lemma small_decrypt_encrypt:
  assumes "length b = 16" "0 < nr" "4 * (nr + 1) \<le> length skey"
  shows "br_aes_small_decrypt nr skey (br_aes_small_encrypt nr skey b) = b"
proof -
  have l: "4 \<le> length skey" "4 \<le> length (drop (4 * nr) skey)" using assms(3) by simp_all
  let ?s = "AddRoundKey (round_key skey 0) b"
  have s: "length ?s = 16" using assms(1) l(1) by (simp add: round_key_def)
  have r: "\<forall>r \<in> set [1..<nr]. 4 * (r + 1) \<le> length skey" using assms(3) by auto
  let ?t = "ShiftRows (SubBytes (fold (aes_round skey) [1..<nr] ?s))"
  have e: "br_aes_small_encrypt nr skey b = AddRoundKey (round_key skey nr) ?t" by (rule small_encrypt_rounds [OF assms])
  have t: "take 16 (AddRoundKey (round_key skey nr) ?t) = AddRoundKey (round_key skey nr) ?t" using l(2) by (simp add: round_key_def)
  have a: "add_round_key (words (AddRoundKey (round_key skey nr) ?t)) (drop (push_bit 2 nr) skey) = words ?t"
    using l(2) by (simp add: add_round_key_words round_key_def AddRoundKey_undo)
  show ?thesis
    unfolding br_aes_small_decrypt_def e t Let_def a undo_rounds [OF s r, unfolded Let_def]
    using s assms(1) l(1)
    by (simp add: inv_shift_rows_undo inv_sub_bytes_undo add_round_key_words round_key_def AddRoundKey_undo)
qed

subsection \<open>The key schedule\<close>

lemma enc32be_xor: "br_enc32be (a XOR b) = xor_word (br_enc32be a) (br_enc32be b)"
proof -
  have "ucast (x XOR y) = (ucast x XOR ucast y :: u8)" for x y :: u32
    by (rule bit_word_eqI) (simp add: bit_simps)
  then show ?thesis by (simp add: br_enc32be_def xor_word_def drop_bit_xor)
qed

lemma enc32be_bytes:
  fixes a b c d :: u8
  shows "br_enc32be (push_bit 24 (ucast a) OR push_bit 16 (ucast b) OR push_bit 8 (ucast c) OR ucast d) = [a, b, c, d]"
proof -
  have e: "ucast (push_bit 24 (ucast a) OR push_bit 16 (ucast b) OR push_bit 8 (ucast c) OR ucast d :: u32) = d"
    "ucast (drop_bit 8 (push_bit 24 (ucast a) OR push_bit 16 (ucast b) OR push_bit 8 (ucast c) OR ucast d :: u32)) = c"
    "ucast (drop_bit 16 (push_bit 24 (ucast a) OR push_bit 16 (ucast b) OR push_bit 8 (ucast c) OR ucast d :: u32)) = b"
    "ucast (drop_bit 24 (push_bit 24 (ucast a) OR push_bit 16 (ucast b) OR push_bit 8 (ucast c) OR ucast d :: u32)) = a"
    by (rule bit_word_eqI, auto simp: bit_simps dest: bit_imp_le_length)+
  show ?thesis unfolding br_enc32be_def e ..
qed

lemma unat_byte:
  fixes x :: u32
  shows "unat (drop_bit 24 x) = unat (ucast (drop_bit 24 x) :: u8)" "unat (y AND 0xFF :: u32) = unat (ucast y :: u8)"
proof -
  show "unat (drop_bit 24 x) = unat (ucast (drop_bit 24 x) :: u8)"
    by (rule bit_eqI) (auto simp: bit_simps dest: bit_imp_le_length)
  have m: "(0xFF :: u32) = mask 8" by (simp add: mask_eq_exp_minus_1)
  show "unat (y AND 0xFF) = unat (ucast y :: u8)"
    unfolding m by (rule bit_eqI) (auto simp: bit_simps dest: bit_imp_le_length simp del: mask_numeral)
qed

lemma SubWord_bytes: "br_enc32be (SubWord x) = map sbox (br_enc32be x)"
  unfolding SubWord_def enc32be_bytes unat_byte S_sbox by (simp add: br_enc32be_def)

lemma RotWord_bytes: "br_enc32be (push_bit 8 x OR drop_bit 24 x) = rotate1 (br_enc32be x)"
proof -
  have "ucast (push_bit 8 x OR drop_bit 24 x) = (ucast (drop_bit 24 x) :: u8)"
    "ucast (drop_bit 8 (push_bit 8 x OR drop_bit 24 x)) = (ucast x :: u8)"
    "ucast (drop_bit 16 (push_bit 8 x OR drop_bit 24 x)) = (ucast (drop_bit 8 x) :: u8)"
    "ucast (drop_bit 24 (push_bit 8 x OR drop_bit 24 x)) = (ucast (drop_bit 16 x) :: u8)"
    by (rule bit_word_eqI, auto simp: bit_simps dest: bit_imp_le_length)+
  then show ?thesis by (simp add: br_enc32be_def)
qed

lemma funpow_4_9:
  "(f ^^ 4) x = f (f (f (f x)))"
  "(f ^^ 5) x = f (f (f (f (f x))))"
  "(f ^^ 6) x = f (f (f (f (f (f x)))))"
  "(f ^^ 7) x = f (f (f (f (f (f (f x))))))"
  "(f ^^ 8) x = f (f (f (f (f (f (f (f x)))))))"
  "(f ^^ 9) x = f (f (f (f (f (f (f (f (f x))))))))"
  by (simp_all add: numeral_eq_Suc)

lemma Rcon_bytes: "k < 10 \<Longrightarrow> br_enc32be (Rcon ! k) = rcon (Suc k)"
proof -
  assume "k < 10"
  then have "(k = 0 \<or> k = 1 \<or> k = 2 \<or> k = 3 \<or> k = 4) \<or> 5 \<le> k \<and> k < 10" by linarith
  moreover have "5 \<le> k \<and> k < 10 \<Longrightarrow> k = 5 \<or> k = 6 \<or> k = 7 \<or> k = 8 \<or> k = 9" by linarith
  ultimately have "k = 0 \<or> k = 1 \<or> k = 2 \<or> k = 3 \<or> k = 4 \<or> k = 5 \<or> k = 6 \<or> k = 7 \<or> k = 8 \<or> k = 9" by blast
  then show ?thesis
    by (elim disjE; hypsubst) (simp_all add: Rcon_def rcon_def br_enc32be_def funpow_2_3 funpow_4_9 xtime_def)
qed

definition expand :: "nat \<Rightarrow> u8 list list \<Rightarrow> u8 list list" where
  "expand nk w = w @ [expand_word nk w]"

lemma keysched_loop_words:
  assumes "0 < nk" "j < nk" "i = nk * Suc k + j" "i \<le> nkf" "nkf \<le> length skey" "nkf \<le> 11 * nk"
  shows "map br_enc32be (take nkf (keysched_loop nk nkf i j k skey)) = (expand nk ^^ (nkf - i)) (map br_enc32be (take i skey))
    \<and> length (keysched_loop nk nkf i j k skey) = length skey"
  using assms
proof (induction "nkf - i" arbitrary: i j k skey)
  case 0
  then show ?case by (simp add: keysched_loop.simps)
next
  case (Suc n)
  have i: "i < nkf" "i < length skey" "0 < i" using Suc.hyps(2) Suc.prems by simp_all
  have "nk * Suc k < 11 * nk" using i(1) Suc.prems(3,6) by linarith
  then have k: "k < 10" by simp
  let ?t = "skey ! (i - 1)"
  let ?x = "skey ! (i - nk) XOR (if j = 0 then SubWord (push_bit 8 ?t OR drop_bit 24 ?t) XOR Rcon ! k
      else if 6 < nk \<and> j = 4 then SubWord ?t else ?t)"
  let ?s = "skey[i := ?x]"
  have m: "i mod nk = j" "i div nk = Suc k" using Suc.prems(1,2) unfolding Suc.prems(3) by (simp_all del: mult_Suc_right)
  have nk: "nk \<le> i" using Suc.prems(3) by simp
  have x: "br_enc32be ?x = expand_word nk (map br_enc32be (take i skey))"
    unfolding expand_word_def Let_def
    using i nk k Suc.prems(1) by (simp add: m enc32be_xor SubWord_bytes RotWord_bytes Rcon_bytes)
  have t: "map br_enc32be (take (Suc i) ?s) = expand nk (map br_enc32be (take i skey))"
    unfolding expand_def x [symmetric] using i(2) by (simp add: take_Suc_conv_app_nth)
  have step: "keysched_loop nk nkf i j k skey = (if j + 1 = nk then keysched_loop nk nkf (i + 1) 0 (k + 1) ?s
      else keysched_loop nk nkf (i + 1) (j + 1) k ?s)"
    using i(1) by (subst keysched_loop.simps) (simp add: Let_def)
  have n: "n = nkf - Suc i" using Suc.hyps(2) by simp
  have p: "(expand nk ^^ (nkf - i)) w = (expand nk ^^ n) (expand nk w)" for w
    using Suc.hyps(2) [symmetric] by (simp add: funpow_swap1)
  show ?case
  proof (cases "j + 1 = nk")
    case True
    then have "Suc i = nk * Suc (Suc k)" using Suc.prems(3) by simp
    then show ?thesis
      using Suc.hyps(1) [OF n, of 0 "Suc k" ?s] Suc.prems i True unfolding step p t n by simp
  next
    case False
    then show ?thesis
      using Suc.hyps(1) [OF n, of "Suc j" k ?s] Suc.prems i unfolding step p t n by simp
  qed
qed

lemma enc_dec32be: "4 \<le> length b \<Longrightarrow> br_enc32be (br_dec32be b) = take 4 b"
proof -
  assume l: "4 \<le> length b"
  have "take 4 b = [b ! 0, b ! 1, b ! 2, b ! 3]"
    using l by (intro nth_equalityI) (auto simp: less_Suc_eq numeral_eq_Suc)
  then show ?thesis using enc32be_bytes [of "b ! 0" "b ! 1" "b ! 2" "b ! 3"] by (simp add: br_dec32be_def)
qed

lemma fold_update_map:
  "n \<le> length xs \<Longrightarrow> fold (\<lambda>i xs. xs[i := f i]) [0..<n] xs = map f [0..<n] @ drop n xs"
proof (induction n)
  case (Suc n)
  then have "drop n xs = xs ! n # drop (Suc n) xs" by (simp add: Cons_nth_drop_Suc)
  then show ?case using Suc by (simp add: list_update_append)
qed simp

lemma keysched_words:
  assumes "length key = 16 \<or> length key = 24 \<or> length key = 32" "60 \<le> length skey"
    and "br_aes_keysched skey key (length key) = (nr, sk)"
  shows "nr = length key div 4 + 6" "map br_enc32be (take (4 * (nr + 1)) sk) = KeyExpansion key" "length sk = length skey"
proof -
  let ?nk = "length key div 4" and ?nr = "length key div 4 + 6"
  let ?w = "map (\<lambda>i. br_dec32be (drop (4 * i) key)) [0..<?nk]"
  let ?s = "?w @ drop ?nk skey"
  have nr: "(if length key = 16 then 10 else if length key = 24 then 12 else if length key = 32 then 14 else 0) = ?nr"
    using assms(1) by auto
  have nk: "drop_bit 2 (length key) = ?nk" by (simp add: drop_bit_eq_div)
  have b: "0 < ?nk" "?nk \<le> 4 * (?nr + 1)" "4 * (?nr + 1) \<le> length skey" "4 * (?nr + 1) \<le> 11 * ?nk" "?nk \<le> length skey"
    using assms(1,2) by auto
  have f: "fold (\<lambda>i skey. skey[i := br_dec32be (drop (push_bit 2 i) key)]) [0..<?nk] skey = ?s"
    unfolding push_2 by (rule fold_update_map [OF b(5)])
  have r: "(nr, sk) = (?nr, keysched_loop ?nk (push_bit 2 (?nr + 1)) ?nk 0 0 ?s)"
    unfolding assms(3) [symmetric] br_aes_keysched_def Let_def nr nk f by simp
  then show nr: "nr = ?nr" by blast
  have l: "length ?s = length skey" using b(5) by simp
  have k: "map br_enc32be (take (4 * (?nr + 1)) sk) = (expand ?nk ^^ (4 * (?nr + 1) - ?nk)) (map br_enc32be (take ?nk ?s)) \<and> length sk = length ?s"
    using r keysched_loop_words [of ?nk 0 ?nk 0 "4 * (?nr + 1)" ?s] b l unfolding push_2 by simp
  then show "length sk = length skey" using l by simp
  have w: "map br_enc32be (take ?nk ?s) = map (\<lambda>i. take 4 (drop (4 * i) key)) [0..<?nk]"
    using assms(1) by (auto simp: enc_dec32be)
  then show "map br_enc32be (take (4 * (nr + 1)) sk) = KeyExpansion key"
    using k [THEN conjunct1] unfolding nr w KeyExpansion_def Let_def expand_def [abs_def] by (simp add: add.assoc)
qed

lemma Cipher_take: "Cipher nr (take (4 * (nr + 1)) w) b = Cipher nr w b"
proof -
  have k: "take 4 (drop (4 * r) (take (4 * (nr + 1)) w)) = take 4 (drop (4 * r) w)" if "r \<le> nr" for r
  proof -
    have "4 * (nr + 1) = 4 * r + (4 * (nr - r) + 4)" using that by simp
    then have "4 \<le> 4 * (nr + 1) - 4 * r" by (simp only: diff_add_inverse le_add2)
    then show ?thesis by (simp only: drop_take take_take min_absorb1)
  qed
  have "fold (\<lambda>r s. AddRoundKey (take 4 (drop (4 * r) (take (4 * (nr + 1)) w))) (MixColumns (ShiftRows (SubBytes s)))) [1..<nr] s
      = fold (\<lambda>r s. AddRoundKey (take 4 (drop (4 * r) w)) (MixColumns (ShiftRows (SubBytes s)))) [1..<nr] s" for s
    by (rule fold_cong [OF refl refl]) (rule ext, simp only: k set_upt atLeastLessThan_iff less_imp_le)
  then show ?thesis unfolding Cipher_def Let_def using k [of 0] k [of nr] by (simp only: le0 order_refl)
qed

lemma aes_small_block:
  assumes "length key = 16 \<or> length key = 24 \<or> length key = 32" "60 \<le> length skey" "length block = 16"
  shows "let (nr, sk) = br_aes_keysched skey key (length key)
    in br_aes_small_encrypt nr sk block = fips197 key block \<and> br_aes_small_decrypt nr sk (fips197 key block) = block"
proof -
  obtain nr sk where k: "br_aes_keysched skey key (length key) = (nr, sk)" by fastforce
  note w = keysched_words [OF assms(1,2) k]
  have l: "0 < nr" "4 * (nr + 1) \<le> length sk" using assms(1,2) w(3) by (auto simp: w(1))
  have "br_aes_small_encrypt nr sk block = Cipher nr (take (4 * (nr + 1)) (map br_enc32be sk)) block"
    unfolding Cipher_take by (rule small_encrypt_Cipher [OF assms(3) l])
  also have "\<dots> = fips197 key block" unfolding take_map w(2) fips197_def by (simp only: w(1))
  finally show ?thesis using small_decrypt_encrypt [OF assms(3) l] by (simp add: k)
qed

text \<open>\<^bold>\<open>C29\<close>: for every key of 16, 24 or 32 bytes, and whatever the array of subkeys held before, the key schedule and
  the encryption of a block are those of FIPS 197, with the table \<open>S\<close> as the inversion in the field followed by the affine
  map; and decryption with the same subkeys gives the block back.\<close>

theorem aes_small_fips197:
  assumes "length key = 16 \<or> length key = 24 \<or> length key = 32" "60 \<le> length skey" "length block = 16"
  shows "let (nr, sk) = br_aes_keysched skey key (length key)
    in br_aes_small_encrypt nr sk block = fips197 key block \<and> br_aes_small_decrypt nr sk (fips197 key block) = block"
  by (rule aes_small_block [OF assms])

theorem aes_small_fips197_witness:
  "let (nr, sk) = br_aes_keysched (replicate 60 7) (map of_nat [0..<16]) 16
    in br_aes_small_encrypt nr sk (replicate 16 0xAA) = fips197 (map of_nat [0..<16]) (replicate 16 0xAA)
     \<and> br_aes_small_decrypt nr sk (fips197 (map of_nat [0..<16]) (replicate 16 0xAA)) = replicate 16 0xAA"
  using aes_small_fips197 [of "(map of_nat [0..<16])" "replicate 60 7" "replicate 16 0xAA"] by simp

end
