(* ===== verification/AesModes.thy ===== *)
theory AesModes
  imports AesProps
begin

section \<open>Modes of operation (bearssl/src/symcipher/aes\_small\_*.c, bearssl/inc/bearssl\_block.h)\<close>

text \<open>
  CBC, CTR, and CTR with CBC-MAC, which the library uses through tables of functions.  Data is processed in place: the
  functions return its new contents, and the new counter, IV or MAC.  As the documentation requires, the length is a multiple of
  16 for all but CTR; a last partial block is left out by the model, where the loop of the source would run past the data.
\<close>

record br_aes_keys =
  skey :: "u32 list"
  num_rounds :: nat

definition br_aes_small_ctr_init :: "br_aes_keys \<Rightarrow> u8 list \<Rightarrow> nat \<Rightarrow> br_aes_keys" where
  "br_aes_small_ctr_init ctx key len =
     (let (n, sk) = br_aes_keysched (skey ctx) key len in ctx\<lparr>skey := sk, num_rounds := n\<rparr>)"

definition br_aes_small_ctrcbc_init :: "br_aes_keys \<Rightarrow> u8 list \<Rightarrow> nat \<Rightarrow> br_aes_keys" where
  "br_aes_small_ctrcbc_init ctx key len =
     (let (n, sk) = br_aes_keysched (skey ctx) key len in ctx\<lparr>skey := sk, num_rounds := n\<rparr>)"

definition br_aes_small_cbcenc_init :: "br_aes_keys \<Rightarrow> u8 list \<Rightarrow> nat \<Rightarrow> br_aes_keys" where
  "br_aes_small_cbcenc_init ctx key len =
     (let (n, sk) = br_aes_keysched (skey ctx) key len in ctx\<lparr>skey := sk, num_rounds := n\<rparr>)"

definition br_aes_small_cbcdec_init :: "br_aes_keys \<Rightarrow> u8 list \<Rightarrow> nat \<Rightarrow> br_aes_keys" where
  "br_aes_small_cbcdec_init ctx key len =
     (let (n, sk) = br_aes_keysched (skey ctx) key len in ctx\<lparr>skey := sk, num_rounds := n\<rparr>)"

subsection \<open>CTR\<close>

definition xorbuf :: "u8 list \<Rightarrow> u8 list \<Rightarrow> nat \<Rightarrow> u8 list" where
  "xorbuf dst src len = fold (\<lambda>u dst. dst[u := dst ! u XOR src ! u]) [0..<len] dst"

function br_aes_small_ctr_run :: "br_aes_keys \<Rightarrow> u8 list \<Rightarrow> u32 \<Rightarrow> u8 list \<Rightarrow> u8 list \<times> u32" where
  "br_aes_small_ctr_run ctx iv cc buf =
     (if buf = [] then ([], cc)
      else
        let tmp = br_aes_small_encrypt (num_rounds ctx) (skey ctx) (take 12 iv @ br_enc32be cc);
            cc = cc + 1
        in if length buf \<le> 16 then (xorbuf buf tmp (length buf), cc)
           else
             let (rest, cc) = br_aes_small_ctr_run ctx iv cc (drop 16 buf)
             in (xorbuf (take 16 buf) tmp 16 @ rest, cc))"
  by pat_completeness auto
termination by (relation "measure (\<lambda>(ctx, iv, cc, buf). length buf)") auto

declare br_aes_small_ctr_run.simps [simp del]

subsection \<open>CTR with CBC-MAC\<close>

text \<open>The 128-bit counter in four words, and its increment.\<close>

definition ctr_next :: "u32 \<times> u32 \<times> u32 \<times> u32 \<Rightarrow> u32 \<times> u32 \<times> u32 \<times> u32" where
  "ctr_next = (\<lambda>(cc3, cc2, cc1, cc0).
     let cc0 = cc0 + 1;
         carry = drop_bit 31 (NOT (cc0 OR - cc0));
         cc1 = cc1 + carry;
         carry = carry AND drop_bit 31 (NOT (cc1 OR - cc1));
         cc2 = cc2 + carry;
         carry = carry AND drop_bit 31 (NOT (cc2 OR - cc2));
         cc3 = cc3 + carry
     in (cc3, cc2, cc1, cc0))"

definition ctr_bytes :: "u32 \<times> u32 \<times> u32 \<times> u32 \<Rightarrow> u8 list" where
  "ctr_bytes = (\<lambda>(cc3, cc2, cc1, cc0). br_enc32be cc3 @ br_enc32be cc2 @ br_enc32be cc1 @ br_enc32be cc0)"

definition ctr_words :: "u8 list \<Rightarrow> u32 \<times> u32 \<times> u32 \<times> u32" where
  "ctr_words bctr = (br_dec32be bctr, br_dec32be (drop 4 bctr), br_dec32be (drop 8 bctr), br_dec32be (drop 12 bctr))"

function ctrcbc_loop :: "br_aes_keys \<Rightarrow> u32 \<times> u32 \<times> u32 \<times> u32 \<Rightarrow> u8 list \<Rightarrow> u8 list \<times> (u32 \<times> u32 \<times> u32 \<times> u32)" where
  "ctrcbc_loop ctx c buf =
     (if length buf < 16 then (buf, c)
      else
        let tmp = br_aes_small_encrypt (num_rounds ctx) (skey ctx) (ctr_bytes c);
            (rest, c') = ctrcbc_loop ctx (ctr_next c) (drop 16 buf)
        in (xorbuf (take 16 buf) tmp 16 @ rest, c'))"
  by pat_completeness auto
termination by (relation "measure (\<lambda>(ctx, c, buf). length buf)") auto

declare ctrcbc_loop.simps [simp del]

definition br_aes_small_ctrcbc_ctr :: "br_aes_keys \<Rightarrow> u8 list \<Rightarrow> u8 list \<Rightarrow> u8 list \<times> u8 list" where
  "br_aes_small_ctrcbc_ctr ctx ctr data =
     (let (data, c) = ctrcbc_loop ctx (ctr_words ctr) data in (data, ctr_bytes c))"

function br_aes_small_ctrcbc_mac :: "br_aes_keys \<Rightarrow> u8 list \<Rightarrow> u8 list \<Rightarrow> u8 list" where
  "br_aes_small_ctrcbc_mac ctx cbcmac buf =
     (if length buf < 16 then cbcmac
      else br_aes_small_ctrcbc_mac ctx (br_aes_small_encrypt (num_rounds ctx) (skey ctx) (xorbuf cbcmac buf 16)) (drop 16 buf))"
  by pat_completeness auto
termination by (relation "measure (\<lambda>(ctx, cbcmac, buf). length buf)") auto

declare br_aes_small_ctrcbc_mac.simps [simp del]

text \<open>The new data, the new counter and the new MAC.\<close>

definition br_aes_small_ctrcbc_encrypt :: "br_aes_keys \<Rightarrow> u8 list \<Rightarrow> u8 list \<Rightarrow> u8 list \<Rightarrow> u8 list \<times> u8 list \<times> u8 list" where
  "br_aes_small_ctrcbc_encrypt ctx ctr cbcmac data =
     (let (data, ctr) = br_aes_small_ctrcbc_ctr ctx ctr data;
          cbcmac = br_aes_small_ctrcbc_mac ctx cbcmac data
      in (data, ctr, cbcmac))"

definition br_aes_small_ctrcbc_decrypt :: "br_aes_keys \<Rightarrow> u8 list \<Rightarrow> u8 list \<Rightarrow> u8 list \<Rightarrow> u8 list \<times> u8 list \<times> u8 list" where
  "br_aes_small_ctrcbc_decrypt ctx ctr cbcmac data =
     (let cbcmac = br_aes_small_ctrcbc_mac ctx cbcmac data;
          (data, ctr) = br_aes_small_ctrcbc_ctr ctx ctr data
      in (data, ctr, cbcmac))"

subsection \<open>CBC\<close>

text \<open>The new data and the new IV.\<close>

function br_aes_small_cbcenc_run :: "br_aes_keys \<Rightarrow> u8 list \<Rightarrow> u8 list \<Rightarrow> u8 list \<times> u8 list" where
  "br_aes_small_cbcenc_run ctx iv buf =
     (if length buf < 16 then (buf, iv)
      else
        let b = fold (\<lambda>i b. b[i := b ! i XOR iv ! i]) [0..<16] (take 16 buf);
            b = br_aes_small_encrypt (num_rounds ctx) (skey ctx) b;
            (rest, iv) = br_aes_small_cbcenc_run ctx b (drop 16 buf)
        in (b @ rest, iv))"
  by pat_completeness auto
termination by (relation "measure (\<lambda>(ctx, iv, buf). length buf)") auto

declare br_aes_small_cbcenc_run.simps [simp del]

function br_aes_small_cbcdec_run :: "br_aes_keys \<Rightarrow> u8 list \<Rightarrow> u8 list \<Rightarrow> u8 list \<times> u8 list" where
  "br_aes_small_cbcdec_run ctx iv buf =
     (if length buf < 16 then (buf, iv)
      else
        let tmp = take 16 buf;
            b = br_aes_small_decrypt (num_rounds ctx) (skey ctx) (take 16 buf);
            b = fold (\<lambda>i b. b[i := b ! i XOR iv ! i]) [0..<16] b;
            (rest, iv) = br_aes_small_cbcdec_run ctx tmp (drop 16 buf)
        in (b @ rest, iv))"
  by pat_completeness auto
termination by (relation "measure (\<lambda>(ctx, iv, buf). length buf)") auto

declare br_aes_small_cbcdec_run.simps [simp del]

subsection \<open>Adding a key stream\<close>

lemma length_xorbuf [simp]: "length (xorbuf dst src n) = length dst"
  unfolding xorbuf_def by (induction n) simp_all

lemma xorbuf_nth: "i < length dst \<Longrightarrow> xorbuf dst src n ! i = (if i < n then dst ! i XOR src ! i else dst ! i)"
proof (induction n)
  case (Suc n)
  have "xorbuf dst src (Suc n) = (xorbuf dst src n)[n := xorbuf dst src n ! n XOR src ! n]" by (simp add: xorbuf_def)
  then show ?case using Suc by (auto simp: nth_list_update less_Suc_eq)
qed (simp add: xorbuf_def)

lemma xorbuf_twice [simp]: "xorbuf (xorbuf dst src n) src n = dst"
  by (intro nth_equalityI) (simp_all add: xorbuf_nth xor.assoc)

lemma length_fold_update: "(\<And>i s. length (f i s) = length s) \<Longrightarrow> length (fold f is s) = length s"
  by (induction "is" arbitrary: s) simp_all

lemma length_small_encrypt [simp]: "length (br_aes_small_encrypt nr sk b) = min 16 (length b)"
proof -
  have a: "length (add_round_key s k) = length s" for s k
    unfolding add_round_key_def by (rule length_fold_update) (simp add: Let_def)
  have b: "length (sub_bytes s) = length s" for s unfolding sub_bytes_def by (rule length_fold_update) simp
  have c: "length (shift_rows s) = length s" for s by (simp add: shift_rows_def Let_def)
  have d: "length (mix_columns s) = length s" for s
    unfolding mix_columns_def by (rule length_fold_update) (simp add: Let_def)
  have f: "length (fold (\<lambda>u state. add_round_key (mix_columns (shift_rows (sub_bytes state))) (drop (push_bit 2 u) sk)) us s) = length s" for us s
    by (rule length_fold_update) (simp add: a b c d)
  show ?thesis unfolding br_aes_small_encrypt_def Let_def by (simp add: a b c f [unfolded push_2] min.commute)
qed

lemma ctr_run_length: "length (fst (br_aes_small_ctr_run ctx iv cc d)) = length d"
proof (induction ctx iv cc d rule: br_aes_small_ctr_run.induct)
  case (1 ctx iv cc buf)
  then show ?case by (subst br_aes_small_ctr_run.simps) (auto simp: Let_def case_prod_unfold)
qed

lemma ctr_run_twice: "fst (br_aes_small_ctr_run ctx iv cc (fst (br_aes_small_ctr_run ctx iv cc d))) = d"
proof (induction ctx iv cc d rule: br_aes_small_ctr_run.induct)
  case (1 ctx iv cc buf)
  let ?tmp = "br_aes_small_encrypt (num_rounds ctx) (skey ctx) (take 12 iv @ br_enc32be cc)"
  consider "buf = []" | "buf \<noteq> []" "length buf \<le> 16" | "16 < length buf" by linarith
  then show ?case
  proof cases
    case 1
    then show ?thesis by (simp add: br_aes_small_ctr_run.simps)
  next
    case 2
    then have r: "fst (br_aes_small_ctr_run ctx iv cc b) = xorbuf b ?tmp (length b)" if "length b = length buf" for b
      using that by (subst br_aes_small_ctr_run.simps) (auto simp: Let_def)
    show ?thesis by (simp add: r)
  next
    case 3
    then have r: "fst (br_aes_small_ctr_run ctx iv cc b) = xorbuf (take 16 b) ?tmp 16 @ fst (br_aes_small_ctr_run ctx iv (cc + 1) (drop 16 b))"
      if "length b = length buf" for b
      using that by (subst br_aes_small_ctr_run.simps) (auto simp: Let_def case_prod_unfold)
    have "length (xorbuf (take 16 buf) ?tmp 16 @ fst (br_aes_small_ctr_run ctx iv (cc + 1) (drop 16 buf))) = length buf"
      using 3 by (simp add: ctr_run_length)
    moreover have "buf \<noteq> []" "\<not> length buf \<le> 16" using 3 by auto
    ultimately show ?thesis using "1" [OF \<open>buf \<noteq> []\<close> refl refl \<open>\<not> length buf \<le> 16\<close>] 3 by (simp add: r)
  qed
qed

subsection \<open>The modes of SP 800-38A\<close>

definition ctr_mode :: "(u8 list \<Rightarrow> u8 list) \<Rightarrow> u8 list \<Rightarrow> u32 \<Rightarrow> u8 list \<Rightarrow> u8 list" where
  "ctr_mode E iv cc d = map (\<lambda>i. d ! i XOR E (iv @ br_enc32be (cc + of_nat (i div 16))) ! (i mod 16)) [0..<length d]"

fun cbc_mode :: "(u8 list \<Rightarrow> u8 list) \<Rightarrow> u8 list \<Rightarrow> u8 list \<Rightarrow> u8 list" where
  "cbc_mode E iv d =
     (if length d < 16 then [] else let c = E (map2 (XOR) (take 16 d) iv) in c @ cbc_mode E c (drop 16 d))"

declare cbc_mode.simps [simp del]

lemma ctr_mode_block:
  assumes "d \<noteq> []"
  shows "ctr_mode E iv cc d = xorbuf (take 16 d) (E (iv @ br_enc32be cc)) (min 16 (length d)) @ ctr_mode E iv (cc + 1) (drop 16 d)"
    (is "_ = ?r")
proof (rule nth_equalityI)
  show "length (ctr_mode E iv cc d) = length ?r" by (simp add: ctr_mode_def)
  fix i assume i: "i < length (ctr_mode E iv cc d)"
  show "ctr_mode E iv cc d ! i = ?r ! i"
  proof (cases "i < 16")
    case True
    then show ?thesis using i by (simp add: ctr_mode_def nth_append xorbuf_nth)
  next
    case False
    then have "i div 16 = Suc ((i - 16) div 16)" "i mod 16 = (i - 16) mod 16" "i - 16 < length d - 16"
      using i by (simp_all add: le_div_geq le_mod_geq ctr_mode_def)
    then show ?thesis using False i by (simp add: ctr_mode_def nth_append add.assoc)
  qed
qed

lemma ctr_run_mode:
  assumes "\<And>b. length b = 16 \<Longrightarrow> br_aes_small_encrypt (num_rounds ctx) (skey ctx) b = E b" "length iv = 12"
  shows "fst (br_aes_small_ctr_run ctx iv cc d) = ctr_mode E iv cc d"
proof (induction "length d" arbitrary: cc d rule: less_induct)
  case less
  have e: "br_aes_small_encrypt (num_rounds ctx) (skey ctx) (take 12 iv @ br_enc32be cc) = E (iv @ br_enc32be cc)"
    using assms(2) by (simp add: assms(1))
  consider "d = []" | "d \<noteq> []" "length d \<le> 16" | "16 < length d" by linarith
  then show ?case
  proof cases
    case 1
    then show ?thesis by (simp add: br_aes_small_ctr_run.simps ctr_mode_def)
  next
    case 2
    then show ?thesis unfolding ctr_mode_block [OF 2(1)]
      by (subst br_aes_small_ctr_run.simps) (simp add: Let_def e min_def ctr_mode_def)
  next
    case 3
    then have d: "d \<noteq> []" by auto
    show ?thesis unfolding ctr_mode_block [OF d] using less [of "drop 16 d" "cc + 1"] 3 d
      by (subst br_aes_small_ctr_run.simps) (simp add: Let_def e case_prod_unfold)
  qed
qed

lemma xor16: "length (b :: u8 list) = 16 \<Longrightarrow> length iv = 16 \<Longrightarrow> fold (\<lambda>i b. b[i := b ! i XOR iv ! i]) [0..<16] b = map2 (XOR) b iv"
  using length_xorbuf [of b iv 16] xorbuf_nth [of _ b iv 16] unfolding xorbuf_def by (intro nth_equalityI) simp_all

lemma cbcenc_mode:
  assumes "\<And>b. length b = 16 \<Longrightarrow> br_aes_small_encrypt (num_rounds ctx) (skey ctx) b = E b" "length iv = 16" "16 dvd length d"
  shows "fst (br_aes_small_cbcenc_run ctx iv d) = cbc_mode E iv d"
  using assms(2,3)
proof (induction "length d" arbitrary: iv d rule: less_induct)
  case less
  show ?case
  proof (cases "length d < 16")
    case True
    then have "d = []" using dvd_imp_le [OF less.prems(2)] by (cases d) auto
    then show ?thesis by (simp add: br_aes_small_cbcenc_run.simps cbc_mode.simps)
  next
    case False
    have e: "br_aes_small_encrypt (num_rounds ctx) (skey ctx) (map2 (XOR) (take 16 d) iv) = E (map2 (XOR) (take 16 d) iv)"
      using False less.prems(1) by (simp add: assms(1))
    then have l: "length (E (map2 (XOR) (take 16 d) iv)) = 16"
      using length_small_encrypt [of "num_rounds ctx" "skey ctx" "map2 (XOR) (take 16 d) iv"] False less.prems(1) by simp
    have "16 dvd length (drop 16 d)" using less.prems(2) False by (simp add: dvd_minus_self)
    moreover have "length (drop 16 d) < length d" using False by simp
    ultimately have ih: "fst (br_aes_small_cbcenc_run ctx (E (map2 (XOR) (take 16 d) iv)) (drop 16 d))
        = cbc_mode E (E (map2 (XOR) (take 16 d) iv)) (drop 16 d)" using less.hyps l by blast
    have "fst (br_aes_small_cbcenc_run ctx iv d)
        = E (map2 (XOR) (take 16 d) iv) @ fst (br_aes_small_cbcenc_run ctx (E (map2 (XOR) (take 16 d) iv)) (drop 16 d))"
      using False less.prems(1) by (subst br_aes_small_cbcenc_run.simps) (simp add: Let_def xor16 e split: prod.splits)
    then show ?thesis unfolding ih using False by (subst cbc_mode.simps) (simp add: Let_def)
  qed
qed

lemma cbcdec_cbcenc:
  assumes "\<And>b. length b = 16 \<Longrightarrow> br_aes_small_decrypt (num_rounds ctx) (skey ctx) (br_aes_small_encrypt (num_rounds ctx) (skey ctx) b) = b"
    and "length iv = 16" "16 dvd length d"
  shows "br_aes_small_cbcdec_run ctx iv (fst (br_aes_small_cbcenc_run ctx iv d)) = (d, snd (br_aes_small_cbcenc_run ctx iv d))
    \<and> length (fst (br_aes_small_cbcenc_run ctx iv d)) = length d"
  using assms(2,3)
proof (induction "length d" arbitrary: iv d rule: less_induct)
  case less
  show ?case
  proof (cases "length d < 16")
    case True
    then show ?thesis by (simp add: br_aes_small_cbcenc_run.simps br_aes_small_cbcdec_run.simps)
  next
    case False
    let ?b = "map2 (XOR) (take 16 d) iv"
    let ?c = "br_aes_small_encrypt (num_rounds ctx) (skey ctx) ?b"
    have b: "length ?b = 16" "length ?c = 16" using False less.prems(1) by simp_all
    have x: "map2 (XOR) ?b iv = take 16 d" using False less.prems(1) by (intro nth_equalityI) (simp_all add: xor.assoc)
    have "16 dvd length (drop 16 d)" using less.prems(2) False by (simp add: dvd_minus_self)
    with less.hyps [of "drop 16 d" ?c] b False
    have ih: "br_aes_small_cbcdec_run ctx ?c (fst (br_aes_small_cbcenc_run ctx ?c (drop 16 d))) = (drop 16 d, snd (br_aes_small_cbcenc_run ctx ?c (drop 16 d)))"
      "length (fst (br_aes_small_cbcenc_run ctx ?c (drop 16 d))) = length d - 16" by simp_all
    have e: "br_aes_small_cbcenc_run ctx iv d = (?c @ fst (br_aes_small_cbcenc_run ctx ?c (drop 16 d)), snd (br_aes_small_cbcenc_run ctx ?c (drop 16 d)))"
      using False less.prems(1) by (subst br_aes_small_cbcenc_run.simps) (simp add: Let_def case_prod_unfold xor16)
    have "br_aes_small_cbcdec_run ctx iv (?c @ r) = (take 16 d @ fst (br_aes_small_cbcdec_run ctx ?c r), snd (br_aes_small_cbcdec_run ctx ?c r))" for r
      using b less.prems(1) False
      by (subst br_aes_small_cbcdec_run.simps) (simp add: Let_def xor16 assms(1) x split: prod.splits)
    then show ?thesis unfolding e using ih b False by simp
  qed
qed

subsection \<open>The 128-bit counter\<close>

definition ctr_num :: "u32 \<times> u32 \<times> u32 \<times> u32 \<Rightarrow> nat" where
  "ctr_num = (\<lambda>(cc3, cc2, cc1, cc0). unat cc0 + 2 ^ 32 * unat cc1 + 2 ^ 64 * unat cc2 + 2 ^ 96 * unat cc3)"

lemma zero_carry: "drop_bit 31 (NOT (x OR - x)) = (of_bool (x = 0) :: u32)"
  using EQ0_spec [of x] by (simp add: EQ0_def Let_def signed_eq_0_iff)

lemma unat_inc: "unat (x + 1 :: u32) = (if x + 1 = 0 then 0 else unat x + 1)" "x + 1 = (0 :: u32) \<Longrightarrow> unat x = 2 ^ 32 - 1"
proof -
  show "unat (x + 1 :: u32) = (if x + 1 = 0 then 0 else unat x + 1)"
    using unatSuc [of x] by (simp add: add.commute)
  show "unat x = 2 ^ 32 - 1" if "x + 1 = (0 :: u32)"
  proof -
    have "x = - 1" using that by (simp only: eq_neg_iff_add_eq_0)
    then show ?thesis by (simp add: unsigned_minus_1_eq_mask mask_eq_exp_minus_1)
  qed
qed

lemma unat32_le: "unat (x :: u32) \<le> 2 ^ 32 - 1"
proof -
  have "unat x < 2 ^ LENGTH(32)" by (rule unsigned_less)
  then show ?thesis by simp
qed

lemma ctr_next_num: "ctr_num (ctr_next c) = (ctr_num c + 1) mod 2 ^ 128"
proof -
  obtain a b d e where c: "c = (a, b, d, e)" by (metis prod_cases4)
  have lt: "unat x \<le> 2 ^ 32 - 1" for x :: u32 by (rule unat32_le)
  have nx: "ctr_next c = (let e' = e + 1; d' = d + of_bool (e' = 0); b' = b + (of_bool (e' = 0) AND of_bool (d' = 0))
      in (a + (of_bool (e' = 0) AND of_bool (d' = 0) AND of_bool (b' = 0)), b', d', e'))"
    unfolding c ctr_next_def prod.case Let_def zero_carry by (simp only: and.assoc)
  consider "e + 1 \<noteq> 0" | "e + 1 = 0" "d + 1 \<noteq> 0" | "e + 1 = 0" "d + 1 = 0" "b + 1 \<noteq> 0"
    | "e + 1 = 0" "d + 1 = 0" "b + 1 = 0" "a + 1 \<noteq> 0" | "e + 1 = 0" "d + 1 = 0" "b + 1 = 0" "a + 1 = 0" by blast
  then show ?thesis
  proof cases
    case 1
    then have e: "ctr_next c = (a, b, d, e + 1)" by (simp add: nx Let_def)
    have "unat e + 1 \<le> 2 ^ 32 - 1" using 1 unat_inc(1) [of e] lt [of "e + 1"] by simp
    then have "ctr_num c + 1 < 2 ^ 128" using lt [of a] lt [of b] lt [of d] by (simp add: c ctr_num_def)
    then show ?thesis using 1 unat_inc(1) [of e] unfolding e by (simp add: c ctr_num_def)
  next
    case 2
    then have e: "ctr_next c = (a, b, d + 1, 0)" by (simp add: nx Let_def)
    have "unat d + 1 \<le> 2 ^ 32 - 1" using 2 unat_inc(1) [of d] lt [of "d + 1"] by simp
    then have "ctr_num c + 1 < 2 ^ 128" using lt [of a] lt [of b] lt [of e] by (simp add: c ctr_num_def)
    then show ?thesis using 2 unat_inc(1) [of d] unat_inc(2) [of e] unfolding e by (simp add: c ctr_num_def)
  next
    case 3
    then have e: "ctr_next c = (a, b + 1, 0, 0)" by (simp add: nx Let_def)
    have "unat b + 1 \<le> 2 ^ 32 - 1" using 3 unat_inc(1) [of b] lt [of "b + 1"] by simp
    then have "ctr_num c + 1 < 2 ^ 128" using lt [of a] lt [of d] lt [of e] by (simp add: c ctr_num_def)
    then show ?thesis using 3 unat_inc(1) [of b] unat_inc(2) [of e] unat_inc(2) [of d] unfolding e by (simp add: c ctr_num_def)
  next
    case 4
    then have e: "ctr_next c = (a + 1, 0, 0, 0)" by (simp add: nx Let_def)
    have "unat a + 1 \<le> 2 ^ 32 - 1" using 4 unat_inc(1) [of a] lt [of "a + 1"] by simp
    then have "ctr_num c + 1 < 2 ^ 128" using lt [of b] lt [of d] lt [of e] by (simp add: c ctr_num_def)
    then show ?thesis using 4 unat_inc(1) [of a] unat_inc(2) [of e] unat_inc(2) [of d] unat_inc(2) [of b] unfolding e by (simp add: c ctr_num_def)
  next
    case 5
    then have e: "ctr_next c = (0, 0, 0, 0)" by (simp add: nx Let_def)
    show ?thesis using unat_inc(2) [OF 5(1)] unat_inc(2) [OF 5(2)] unat_inc(2) [OF 5(3)] unat_inc(2) [OF 5(4)]
      unfolding e by (simp add: c ctr_num_def)
  qed
qed

lemma ctrcbc_loop_num: "ctr_num (snd (ctrcbc_loop ctx c d)) = (ctr_num c + length d div 16) mod 2 ^ 128"
proof (induction "length d" arbitrary: c d rule: less_induct)
  case less
  have m: "ctr_num c < 2 ^ 128"
  proof -
    obtain a b d e where c: "c = (a, b, d, e)" by (metis prod_cases4)
    have lt: "unat x \<le> 2 ^ 32 - 1" for x :: u32 by (rule unat32_le)
    show ?thesis using lt [of a] lt [of b] lt [of d] lt [of e] by (simp add: c ctr_num_def)
  qed
  show ?case
  proof (cases "length d < 16")
    case True
    then show ?thesis using m by (subst ctrcbc_loop.simps) simp
  next
    case False
    then have "length d div 16 = Suc (length (drop 16 d) div 16)" by (simp add: le_div_geq)
    moreover have "length (drop 16 d) < length d" using False by simp
    note less [OF this, of "ctr_next c"]
    ultimately show ?thesis using False
      by (subst ctrcbc_loop.simps) (simp add: Let_def case_prod_unfold ctr_next_num mod_add_left_eq)
  qed
qed

lemma ctrcbc_loop_length: "length (fst (ctrcbc_loop ctx c d)) = length d"
proof (induction "length d" arbitrary: c d rule: less_induct)
  case less
  show ?case
    using less [of "drop 16 d" "ctr_next c"] by (subst ctrcbc_loop.simps) (auto simp: Let_def case_prod_unfold)
qed

lemma ctrcbc_loop_twice: "ctrcbc_loop ctx c (fst (ctrcbc_loop ctx c d)) = (d, snd (ctrcbc_loop ctx c d))"
proof (induction "length d" arbitrary: c d rule: less_induct)
  case less
  show ?case
  proof (cases "length d < 16")
    case True
    then show ?thesis by (simp add: ctrcbc_loop.simps)
  next
    case False
    let ?tmp = "br_aes_small_encrypt (num_rounds ctx) (skey ctx) (ctr_bytes c)"
    have r: "ctrcbc_loop ctx c b = (xorbuf (take 16 b) ?tmp 16 @ fst (ctrcbc_loop ctx (ctr_next c) (drop 16 b)), snd (ctrcbc_loop ctx (ctr_next c) (drop 16 b)))"
      if "\<not> length b < 16" for b
      using that by (subst ctrcbc_loop.simps) (simp add: Let_def case_prod_unfold)
    have l: "\<not> length (xorbuf (take 16 d) ?tmp 16 @ fst (ctrcbc_loop ctx (ctr_next c) (drop 16 d))) < 16" using False by simp
    have "length (drop 16 d) < length d" using False by simp
    note ih = less [OF this, of "ctr_next c"]
    show ?thesis unfolding r [OF False] fst_conv unfolding r [OF l] using False ih by simp
  qed
qed

lemma ctrcbc_decrypt_encrypt:
  assumes "br_aes_small_ctrcbc_encrypt ctx ctr mac d = (c, ctr', mac')"
  shows "br_aes_small_ctrcbc_decrypt ctx ctr mac c = (d, ctr', mac')"
  using assms ctrcbc_loop_twice [of ctx "ctr_words ctr" d]
  by (auto simp: br_aes_small_ctrcbc_encrypt_def br_aes_small_ctrcbc_decrypt_def br_aes_small_ctrcbc_ctr_def Let_def split: prod.splits)

subsection \<open>Counter mode with a counter of 128 bits, and CBC-MAC\<close>

text \<open>A number in big-endian bytes, modulo \<open>256\<^sup>k\<close>.\<close>

fun be_octets :: "nat \<Rightarrow> nat \<Rightarrow> u8 list" where
  "be_octets 0 n = []"
| "be_octets (Suc k) n = be_octets k (n div 256) @ [of_nat n]"

definition ctr128_mode :: "(u8 list \<Rightarrow> u8 list) \<Rightarrow> nat \<Rightarrow> u8 list \<Rightarrow> u8 list" where
  "ctr128_mode E n d = map (\<lambda>i. d ! i XOR E (be_octets 16 (n + i div 16)) ! (i mod 16)) [0..<length d]"

text \<open>The MAC is the last block of the CBC encryption that starts from the MAC so far.\<close>

definition cbc_mac :: "(u8 list \<Rightarrow> u8 list) \<Rightarrow> u8 list \<Rightarrow> u8 list \<Rightarrow> u8 list" where
  "cbc_mac E mac d = drop (length d) (mac @ cbc_mode E mac d)"

lemma length_be_octets [simp]: "length (be_octets k n) = k"
  by (induction k arbitrary: n) simp_all

lemma be_octets_zero: "be_octets k 0 = replicate k 0"
  by (induction k) (simp_all add: replicate_append_same)

lemma be_octets_mod: "be_octets k (n mod 256 ^ k) = be_octets k n"
proof (induction k arbitrary: n)
  case (Suc k)
  have d: "n mod 256 ^ Suc k div 256 = n div 256 mod 256 ^ k" by (simp add: mod_mult2_eq)
  have "of_nat (n mod 256 ^ Suc k) = (of_nat n :: u8)"
    by (simp add: word_of_nat_eq_iff take_bit_eq_mod mod_mod_cancel)
  then show ?case unfolding be_octets.simps d Suc.IH by simp
qed simp

lemma word_octet:
  assumes "k + 8 \<le> 32"
  shows "(of_nat ((unat (x :: u32) + 2 ^ 32 * r) div 2 ^ k) :: u8) = ucast (drop_bit k x)"
proof -
  have "(2 :: nat) ^ 32 = 2 ^ (k + 8 + (24 - k))" using assms by simp
  also have "\<dots> = 2 ^ k * (2 ^ 8 * 2 ^ (24 - k))" by (simp only: power_add mult.assoc)
  finally have "unat x + 2 ^ 32 * r = unat x + 2 ^ k * (2 ^ 8 * (2 ^ (24 - k) * r))" by (simp only: mult.assoc)
  moreover have "(unat x + 2 ^ k * m) div 2 ^ k = unat x div 2 ^ k + m" for m by simp
  ultimately have "(unat x + 2 ^ 32 * r) div 2 ^ k = unat x div 2 ^ k + 2 ^ 8 * (2 ^ (24 - k) * r)" by (simp only:)
  moreover have "(of_nat (2 ^ 8 * m) :: u8) = 0" for m by (simp only: word_of_nat_eq_0_iff) simp
  ultimately have "(of_nat ((unat x + 2 ^ 32 * r) div 2 ^ k) :: u8) = of_nat (unat x div 2 ^ k)"
    by (simp only: of_nat_add add_0_right)
  also have "\<dots> = ucast (drop_bit k x)"
    using of_nat_unat [of "drop_bit k x", where ?'a = "8 word"] by (simp add: unat_drop_bit_eq drop_bit_eq_div [of k "unat x"])
  finally show ?thesis .
qed

lemma be_octets_word: "be_octets (k + 4) (unat (x :: u32) + 2 ^ 32 * r) = be_octets k r @ br_enc32be x"
proof -
  let ?n = "unat x + 2 ^ 32 * r"
  have d: "?n div 256 = ?n div 2 ^ 8" "?n div 2 ^ 8 div 256 = ?n div 2 ^ 16" "?n div 2 ^ 16 div 256 = ?n div 2 ^ 24"
    "?n div 2 ^ 24 div 256 = ?n div 2 ^ 32"
    by (simp_all add: div_mult2_eq [symmetric])
  have "unat x < 2 ^ 32" using unat32_le [of x] by simp
  then have r: "?n div 2 ^ 32 = r" by (simp add: div_nat_eqI)
  have "k + 4 = Suc (Suc (Suc (Suc k)))" by simp
  then show ?thesis unfolding be_octets.simps br_enc32be_def d r
    using word_octet [of 0 x r] word_octet [of 8 x r] word_octet [of 16 x r] word_octet [of 24 x r]
    by (simp only: be_octets.simps d r) simp
qed

lemma ctr_bytes_octets: "ctr_bytes c = be_octets 16 (ctr_num c)"
proof -
  obtain a b d e where c: "c = (a, b, d, e)" by (metis prod_cases4)
  have n: "ctr_num c = unat e + 2 ^ 32 * (unat d + 2 ^ 32 * (unat b + 2 ^ 32 * (unat a + 2 ^ 32 * 0)))"
    by (simp add: c ctr_num_def)
  have "be_octets (0 + 4 + 4 + 4 + 4) (ctr_num c) = be_octets 0 0 @ br_enc32be a @ br_enc32be b @ br_enc32be d @ br_enc32be e"
    unfolding n be_octets_word by simp
  then show ?thesis by (simp add: c ctr_bytes_def)
qed

lemma ctr_words_bytes: "ctr_words (ctr_bytes c) = c"
  by (cases c) (simp add: ctr_words_def ctr_bytes_def dec_enc32 [where r = "[]", simplified])

lemma ctr_words_octets: "\<exists>c. ctr_num c = n mod 2 ^ 128 \<and> ctr_words (be_octets 16 n) = c"
proof -
  let ?c = "(of_nat (n div 2 ^ 96), of_nat (n div 2 ^ 64), of_nat (n div 2 ^ 32), of_nat n) :: u32 \<times> u32 \<times> u32 \<times> u32"
  have u: "unat (of_nat m :: u32) = m mod 2 ^ 32" for m by (simp add: unsigned_of_nat take_bit_eq_mod)
  have "n mod 2 ^ 128 = n mod (2 ^ 32 * (2 ^ 32 * (2 ^ 32 * 2 ^ 32)))" by simp
  also have "\<dots> = 2 ^ 32 * (2 ^ 32 * (2 ^ 32 * (n div 2 ^ 32 div 2 ^ 32 div 2 ^ 32 mod 2 ^ 32) + n div 2 ^ 32 div 2 ^ 32 mod 2 ^ 32)
      + n div 2 ^ 32 mod 2 ^ 32) + n mod 2 ^ 32"
    unfolding mod_mult2_eq [of n "2 ^ 32"] mod_mult2_eq [of "n div 2 ^ 32" "2 ^ 32"]
      mod_mult2_eq [of "n div 2 ^ 32 div 2 ^ 32" "2 ^ 32"] ..
  finally have num: "ctr_num ?c = n mod 2 ^ 128"
    unfolding ctr_num_def prod.case u by (simp add: div_mult2_eq [symmetric] algebra_simps)
  have "be_octets 16 n = ctr_bytes ?c"
    unfolding ctr_bytes_octets num using be_octets_mod [of 16 n] by simp
  then show ?thesis using num ctr_words_bytes by metis
qed

lemma ctr128_block:
  assumes "16 \<le> length d"
  shows "ctr128_mode E n d = xorbuf (take 16 d) (E (be_octets 16 n)) 16 @ ctr128_mode E (n + 1) (drop 16 d)" (is "_ = ?r")
proof (rule nth_equalityI)
  show "length (ctr128_mode E n d) = length ?r" using assms by (simp add: ctr128_mode_def)
  fix i assume i: "i < length (ctr128_mode E n d)"
  show "ctr128_mode E n d ! i = ?r ! i"
  proof (cases "i < 16")
    case True
    then show ?thesis using i by (simp add: ctr128_mode_def nth_append xorbuf_nth)
  next
    case False
    then have "i div 16 = Suc ((i - 16) div 16)" "i mod 16 = (i - 16) mod 16" "i - 16 < length d - 16"
      using i by (simp_all add: le_div_geq le_mod_geq ctr128_mode_def)
    then show ?thesis using False i assms by (simp add: ctr128_mode_def nth_append)
  qed
qed

lemma ctrcbc_loop_mode:
  assumes E: "\<And>b. length b = 16 \<Longrightarrow> br_aes_small_encrypt (num_rounds ctx) (skey ctx) b = E b"
    and "16 dvd length d" "ctr_num c = n mod 2 ^ 128"
  shows "fst (ctrcbc_loop ctx c d) = ctr128_mode E n d"
  using assms(2,3)
proof (induction "length d" arbitrary: d c n rule: less_induct)
  case less
  show ?case
  proof (cases "length d < 16")
    case True
    then have "d = []" using dvd_imp_le [OF less.prems(1)] by (cases d) auto
    then show ?thesis by (simp add: ctrcbc_loop.simps ctr128_mode_def)
  next
    case False
    have "ctr_bytes c = be_octets 16 n"
      unfolding ctr_bytes_octets less.prems(2) using be_octets_mod [of 16 n] by simp
    then have e: "br_aes_small_encrypt (num_rounds ctx) (skey ctx) (ctr_bytes c) = E (be_octets 16 n)" by (simp add: E)
    have "16 dvd length (drop 16 d)" using less.prems(1) False by (simp add: dvd_minus_self)
    moreover have "ctr_num (ctr_next c) = (n + 1) mod 2 ^ 128" unfolding ctr_next_num less.prems(2) by (rule mod_add_left_eq)
    moreover have "length (drop 16 d) < length d" using False by simp
    ultimately have "fst (ctrcbc_loop ctx (ctr_next c) (drop 16 d)) = ctr128_mode E (n + 1) (drop 16 d)"
      using less.hyps by blast
    then show ?thesis using False ctr128_block [of d E n]
      by (subst ctrcbc_loop.simps) (simp add: Let_def case_prod_unfold e)
  qed
qed

lemma ctrcbc_mac_mode:
  assumes E: "\<And>b. length b = 16 \<Longrightarrow> br_aes_small_encrypt (num_rounds ctx) (skey ctx) b = E b"
    and "length mac = 16" "16 dvd length d"
  shows "br_aes_small_ctrcbc_mac ctx mac d = cbc_mac E mac d"
  using assms(2,3)
proof (induction "length d" arbitrary: mac d rule: less_induct)
  case less
  show ?case
  proof (cases "length d < 16")
    case True
    then have "d = []" using dvd_imp_le [OF less.prems(2)] by (cases d) auto
    then show ?thesis by (simp add: br_aes_small_ctrcbc_mac.simps cbc_mac_def cbc_mode.simps)
  next
    case False
    let ?b = "map2 (XOR) (take 16 d) mac"
    have x: "xorbuf mac d 16 = ?b"
      using less.prems(1) False by (intro nth_equalityI) (simp_all add: xorbuf_nth xor.commute)
    have b: "length ?b = 16" using less.prems(1) False by simp
    then have l: "length (E ?b) = 16" using E [OF b] length_small_encrypt [of "num_rounds ctx" "skey ctx" ?b] by simp
    have "16 dvd length (drop 16 d)" using less.prems(2) False by (simp add: dvd_minus_self)
    moreover have "length (drop 16 d) < length d" using False by simp
    ultimately have "br_aes_small_ctrcbc_mac ctx (E ?b) (drop 16 d) = cbc_mac E (E ?b) (drop 16 d)"
      using less.hyps l by blast
    moreover have "br_aes_small_ctrcbc_mac ctx mac d = br_aes_small_ctrcbc_mac ctx (E ?b) (drop 16 d)"
      using False E [OF b] by (subst br_aes_small_ctrcbc_mac.simps) (simp add: x)
    moreover have "cbc_mode E mac d = E ?b @ cbc_mode E (E ?b) (drop 16 d)"
      using False by (subst cbc_mode.simps) (simp add: Let_def)
    ultimately show ?thesis using less.prems(1) False by (simp add: cbc_mac_def)
  qed
qed

lemma ctrcbc_modes:
  assumes E: "\<And>b. length b = 16 \<Longrightarrow> br_aes_small_encrypt (num_rounds ctx) (skey ctx) b = E b"
    and "length mac = 16" "16 dvd length d"
  shows "br_aes_small_ctrcbc_ctr ctx (be_octets 16 n) d = (ctr128_mode E n d, be_octets 16 (n + length d div 16))"
    and "br_aes_small_ctrcbc_mac ctx mac d = cbc_mac E mac d"
    and "br_aes_small_ctrcbc_encrypt ctx (be_octets 16 n) mac d
      = (ctr128_mode E n d, be_octets 16 (n + length d div 16), cbc_mac E mac (ctr128_mode E n d))"
proof -
  obtain c where c: "ctr_num c = n mod 2 ^ 128" "ctr_words (be_octets 16 n) = c" using ctr_words_octets by blast
  have "ctr_num (snd (ctrcbc_loop ctx c d)) = (n + length d div 16) mod 2 ^ 128"
    unfolding ctrcbc_loop_num c(1) by (rule mod_add_left_eq)
  then have "ctr_bytes (snd (ctrcbc_loop ctx c d)) = be_octets 16 (n + length d div 16)"
    unfolding ctr_bytes_octets using be_octets_mod [of 16 "n + length d div 16"] by simp
  then show ctr: "br_aes_small_ctrcbc_ctr ctx (be_octets 16 n) d = (ctr128_mode E n d, be_octets 16 (n + length d div 16))"
    using ctrcbc_loop_mode [OF E assms(3) c(1)] by (simp add: br_aes_small_ctrcbc_ctr_def c(2) split_beta)
  show "br_aes_small_ctrcbc_mac ctx mac d = cbc_mac E mac d" by (rule ctrcbc_mac_mode [OF assms])
  have "br_aes_small_ctrcbc_mac ctx mac (ctr128_mode E n d) = cbc_mac E mac (ctr128_mode E n d)"
    by (rule ctrcbc_mac_mode [OF E assms(2)]) (simp_all add: ctr128_mode_def assms(3))
  then show "br_aes_small_ctrcbc_encrypt ctx (be_octets 16 n) mac d
      = (ctr128_mode E n d, be_octets 16 (n + length d div 16), cbc_mac E mac (ctr128_mode E n d))"
    by (simp add: br_aes_small_ctrcbc_encrypt_def ctr)
qed

subsection \<open>With the key schedule\<close>

lemma init_encrypts:
  assumes "length key = 16 \<or> length key = 24 \<or> length key = 32" "60 \<le> length (skey ctx)" "length b = 16"
    and "ctx' = br_aes_small_ctr_init ctx key (length key)"
  shows "br_aes_small_encrypt (num_rounds ctx') (skey ctx') b = fips197 key b"
    "br_aes_small_decrypt (num_rounds ctx') (skey ctx') (br_aes_small_encrypt (num_rounds ctx') (skey ctx') b) = b"
proof -
  obtain nr sk where k: "br_aes_keysched (skey ctx) key (length key) = (nr, sk)" by fastforce
  have c: "num_rounds ctx' = nr" "skey ctx' = sk" by (simp_all add: assms(4) br_aes_small_ctr_init_def k)
  show "br_aes_small_encrypt (num_rounds ctx') (skey ctx') b = fips197 key b"
    "br_aes_small_decrypt (num_rounds ctx') (skey ctx') (br_aes_small_encrypt (num_rounds ctx') (skey ctx') b) = b"
    using aes_small_block [OF assms(1,2,3)] k unfolding c by simp_all
qed

text \<open>
  \<^bold>\<open>C30\<close> With the contexts that the initialisation functions set up for a key of 16, 24 or 32 bytes, whatever they held
  before: CTR and CBC are the modes of SP 800-38A on the block cipher of FIPS 197, and CBC decryption gives the data back.
  The combined functions: CTR adds the key stream of a big-endian counter of 128 bits, which starts at any number
  and wraps, and returns the counter after the data; the MAC is the last CBC block, from any MAC so far; encryption
  is CTR followed by the MAC of the ciphertext, and decryption with the same counter and MAC returns the data, the same
  new counter and the same new MAC.
\<close>

theorem aes_modes_sp800_38a:
  assumes "length key = 16 \<or> length key = 24 \<or> length key = 32" "60 \<le> length (skey ctx)"
    and "length nonce = 12" "length iv = 16" "16 dvd length data"
  shows "let E = fips197 key; keys = br_aes_small_ctrcbc_init ctx key (length key);
           ct = ctr128_mode E n data; next = be_octets 16 (n + length data div 16)
       in fst (br_aes_small_ctr_run (br_aes_small_ctr_init ctx key (length key)) nonce cc msg) = ctr_mode E nonce cc msg
          \<and> fst (br_aes_small_cbcenc_run (br_aes_small_cbcenc_init ctx key (length key)) iv data) = cbc_mode E iv data
          \<and> fst (br_aes_small_cbcdec_run (br_aes_small_cbcdec_init ctx key (length key)) iv (cbc_mode E iv data)) = data
          \<and> br_aes_small_ctrcbc_ctr keys (be_octets 16 n) data = (ct, next)
          \<and> br_aes_small_ctrcbc_mac keys iv data = cbc_mac E iv data
          \<and> br_aes_small_ctrcbc_encrypt keys (be_octets 16 n) iv data = (ct, next, cbc_mac E iv ct)
          \<and> br_aes_small_ctrcbc_decrypt keys (be_octets 16 n) iv ct = (data, next, cbc_mac E iv ct)"
proof -
  let ?k = "br_aes_small_ctr_init ctx key (length key)"
  have same: "br_aes_small_cbcenc_init ctx key (length key) = ?k" "br_aes_small_cbcdec_init ctx key (length key) = ?k"
    "br_aes_small_ctrcbc_init ctx key (length key) = ?k"
    by (simp_all add: br_aes_small_ctr_init_def br_aes_small_cbcenc_init_def br_aes_small_cbcdec_init_def br_aes_small_ctrcbc_init_def)
  note e = init_encrypts [OF assms(1,2) _ refl]
  have cbc: "fst (br_aes_small_cbcenc_run ?k iv data) = cbc_mode (fips197 key) iv data"
    by (rule cbcenc_mode [OF _ assms(4,5)]) (rule e(1))
  have dec: "fst (br_aes_small_cbcdec_run ?k iv (cbc_mode (fips197 key) iv data)) = data"
    using cbcdec_cbcenc [OF _ assms(4,5), of ?k] e(2) unfolding cbc by simp
  note modes = ctrcbc_modes [of ?k "fips197 key", OF e(1) assms(4,5)]
  show ?thesis
    unfolding same Let_def using ctr_run_mode [of ?k "fips197 key" nonce cc msg, OF e(1) assms(3)] cbc dec modes
      ctrcbc_decrypt_encrypt [OF modes(3)] by simp
qed

theorem aes_modes_sp800_38a_witness:
  "fst (br_aes_small_ctr_run (br_aes_small_ctr_init \<lparr>skey = replicate 60 0, num_rounds = 0\<rparr> (replicate 16 1) 16) (replicate 12 2) 3 [4, 5, 6])
      = ctr_mode (fips197 (replicate 16 1)) (replicate 12 2) 3 [4, 5, 6]
    \<and> fst (br_aes_small_cbcdec_run (br_aes_small_cbcdec_init \<lparr>skey = replicate 60 0, num_rounds = 0\<rparr> (replicate 16 1) 16) (replicate 16 7)
      (cbc_mode (fips197 (replicate 16 1)) (replicate 16 7) (replicate 32 8))) = replicate 32 8
    \<and> snd (br_aes_small_ctrcbc_ctr (br_aes_small_ctrcbc_init \<lparr>skey = replicate 60 0, num_rounds = 0\<rparr> (replicate 16 1) 16)
        (be_octets 16 (2 ^ 128 - 1)) (replicate 32 8)) = replicate 15 0 @ [1]"
proof -
  have n: "2 ^ 128 - 1 + length (replicate 32 (8 :: u8)) div 16 = (1 + 256 ^ 16 :: nat)" "(1 + 256 ^ 16) mod 256 ^ 16 = (1 :: nat)"
    by simp_all
  have "be_octets 16 (1 + 256 ^ 16) = be_octets 16 1" using be_octets_mod [of 16 "1 + 256 ^ 16"] unfolding n(2) by (rule sym)
  moreover have "be_octets 16 1 = replicate 15 0 @ [1]" using be_octets.simps(2) [of 15 1] by (simp add: be_octets_zero)
  ultimately have "be_octets 16 (2 ^ 128 - 1 + length (replicate 32 (8 :: u8)) div 16) = replicate 15 0 @ [1]"
    unfolding n(1) by (rule trans)
  moreover have k: "length (replicate 16 1) = 16 \<or> length (replicate 16 1) = 24 \<or> length (replicate 16 1) = 32"
    "60 \<le> length (skey \<lparr>skey = replicate 60 0, num_rounds = 0\<rparr>)" "length (replicate 12 2) = 12" "length (replicate 16 7) = 16"
    "16 dvd length (replicate 32 8)" by simp_all
  ultimately show ?thesis
    using aes_modes_sp800_38a [OF k, where n = "2 ^ 128 - 1" and cc = 3 and msg = "[4, 5, 6]"]
    by (simp only: Let_def length_replicate snd_conv simp_thms)
qed

end
