(* ===== verification/RecAead.thy ===== *)
theory RecAead
  imports SslEngineProps AesModes Poly1305
begin

section \<open>Encrypted records (bearssl/src/ssl/ssl\_rec\_chapol.c, ssl\_rec\_gcm.c)\<close>

text \<open>
  The record ciphers of the engine: ChaCha20 with Poly1305, and a block cipher in GCM.  A context holds the sequence
  number, the key material and the functions it was initialised with; encryption and decryption work in place on the
  memory of the engine, from an address and a length.
\<close>

definition load :: "nat \<Rightarrow> nat \<Rightarrow> u8 list \<Rightarrow> u8 list" where
  "load a n m = take n (drop a m)"

type_synonym br_poly1305_run = "u8 list \<Rightarrow> u8 list \<Rightarrow> u8 list \<Rightarrow> u8 list \<Rightarrow> br_chacha20_run \<Rightarrow> bool \<Rightarrow> u8 list \<times> u8 list"

text \<open>The additional data of a record.\<close>

definition record_header :: "u64 \<Rightarrow> u8 \<Rightarrow> u32 \<Rightarrow> nat \<Rightarrow> u8 list" where
  "record_header seq record_type version len =
     br_enc64be seq @ [record_type] @ br_enc16be version @ br_enc16be (of_nat len)"

text \<open>The comparison of two tags, which does not stop at the first difference.\<close>

definition tags_differ :: "nat \<Rightarrow> u8 list \<Rightarrow> u8 list \<Rightarrow> u32" where
  "tags_differ n tag tag' = fold (\<lambda>u bad. bad OR ucast (tag ! u XOR tag' ! u)) [0..<n] 0"

subsection \<open>ChaCha20 and Poly1305\<close>

record br_sslrec_chapol_context =
  chapol_seq :: u64
  chapol_key :: "u8 list"
  chapol_iv :: "u8 list"
  chapol_ichacha :: br_chacha20_run
  chapol_ipoly :: br_poly1305_run

definition gen_chapol_init ::
  "br_sslrec_chapol_context \<Rightarrow> br_chacha20_run \<Rightarrow> br_poly1305_run \<Rightarrow> u8 list \<Rightarrow> u8 list \<Rightarrow> br_sslrec_chapol_context" where
  "gen_chapol_init cc ichacha ipoly key iv =
     cc\<lparr>chapol_seq := 0, chapol_ichacha := ichacha, chapol_ipoly := ipoly, chapol_key := take 32 key, chapol_iv := take 12 iv\<rparr>"

text \<open>The nonce: the sequence number is added to the last eight bytes of the IV.\<close>

definition chapol_nonce :: "u8 list \<Rightarrow> u64 \<Rightarrow> u8 list" where
  "chapol_nonce iv seq =
     fst (fold (\<lambda>u (nonce, seq).
       let nonce = nonce[11 - u := nonce ! (11 - u) XOR ucast seq];
           seq = drop_bit 8 seq
       in (nonce, seq)) [0..<8] (take 12 iv, seq))"

definition gen_chapol_process ::
  "br_sslrec_chapol_context \<Rightarrow> u8 \<Rightarrow> u32 \<Rightarrow> u8 list \<Rightarrow> bool \<Rightarrow> u8 list \<times> u8 list \<times> br_sslrec_chapol_context" where
  "gen_chapol_process cc record_type version data encrypting =
     (let seq = chapol_seq cc;
          cc = cc\<lparr>chapol_seq := seq + 1\<rparr>;
          header = record_header seq record_type version (length data);
          nonce = chapol_nonce (chapol_iv cc) seq;
          (data, tag) = chapol_ipoly cc (chapol_key cc) nonce data header (chapol_ichacha cc) encrypting
      in (data, tag, cc))"

definition chapol_check_length :: "br_sslrec_chapol_context \<Rightarrow> nat \<Rightarrow> bool" where
  "chapol_check_length cc rlen \<longleftrightarrow> 16 \<le> rlen \<and> rlen \<le> 16384 + 16"

definition chapol_decrypt ::
  "br_sslrec_chapol_context \<Rightarrow> u8 \<Rightarrow> u32 \<Rightarrow> u8 list \<Rightarrow> nat \<Rightarrow> nat \<Rightarrow> (nat \<times> nat) option \<times> u8 list \<times> br_sslrec_chapol_context" where
  "chapol_decrypt cc record_type version m data data_len =
     (let buf = data;
          len = data_len - 16;
          (d, tag, cc) = gen_chapol_process cc record_type version (load buf len m) False;
          m = store buf d m;
          bad = tags_differ 16 tag (load (buf + len) 16 m)
      in if bad \<noteq> 0 then (None, m, cc) else (Some (buf, len), m, cc))"

definition br_sslrec_in_chapol_vtable :: "br_sslrec_chapol_context br_sslrec_in_class" where
  "br_sslrec_in_chapol_vtable = \<lparr>check_length = chapol_check_length, decrypt = chapol_decrypt\<rparr>"

definition chapol_max_plaintext :: "br_sslrec_chapol_context \<Rightarrow> nat \<Rightarrow> nat \<Rightarrow> nat \<times> nat" where
  "chapol_max_plaintext cc start end' =
     (let len = end' - start - 16; len = (if 16384 < len then 16384 else len) in (start, start + len))"

definition chapol_encrypt ::
  "br_sslrec_chapol_context \<Rightarrow> u8 \<Rightarrow> u32 \<Rightarrow> u8 list \<Rightarrow> nat \<Rightarrow> nat \<Rightarrow> (nat \<times> nat) \<times> u8 list \<times> br_sslrec_chapol_context" where
  "chapol_encrypt cc record_type version m data data_len =
     (let buf = data;
          len = data_len;
          (d, tag, cc) = gen_chapol_process cc record_type version (load buf len m) True;
          m = store (buf + len) tag (store buf d m);
          buf = buf - 5;
          m = store buf ([record_type] @ br_enc16be version @ br_enc16be (of_nat (len + 16))) m
      in ((buf, len + 21), m, cc))"

definition br_sslrec_out_chapol_vtable :: "br_sslrec_chapol_context br_sslrec_out_class" where
  "br_sslrec_out_chapol_vtable = \<lparr>max_plaintext = chapol_max_plaintext, encrypt = chapol_encrypt\<rparr>"

subsection \<open>GCM\<close>

record 'k br_block_ctr_class =
  ctr_init :: "'k \<Rightarrow> u8 list \<Rightarrow> nat \<Rightarrow> 'k"
  ctr_run :: "'k \<Rightarrow> u8 list \<Rightarrow> u32 \<Rightarrow> u8 list \<Rightarrow> u8 list \<times> u32"

text \<open>\<open>gh y h data\<close> is the new value of \<open>y\<close>.\<close>

type_synonym br_ghash = "u8 list \<Rightarrow> u8 list \<Rightarrow> u8 list \<Rightarrow> u8 list"

record 'k br_sslrec_gcm_context =
  gcm_seq :: u64
  gcm_vtable :: "'k br_block_ctr_class"
  gcm_bc :: 'k
  gcm_gh :: br_ghash
  gcm_iv :: "u8 list"
  gcm_h :: "u8 list"

definition gen_gcm_init ::
  "'k br_sslrec_gcm_context \<Rightarrow> 'k br_block_ctr_class \<Rightarrow> u8 list \<Rightarrow> nat \<Rightarrow> br_ghash \<Rightarrow> u8 list \<Rightarrow> 'k br_sslrec_gcm_context" where
  "gen_gcm_init cc bc_impl key key_len gh_impl iv =
     (let cc = cc\<lparr>gcm_seq := 0, gcm_vtable := bc_impl, gcm_bc := ctr_init bc_impl (gcm_bc cc) key key_len,
            gcm_gh := gh_impl, gcm_iv := take 4 iv\<rparr>
      in cc\<lparr>gcm_h := fst (ctr_run bc_impl (gcm_bc cc) (replicate 12 0) 0 (replicate 16 0))\<rparr>)"

definition gcm_check_length :: "'k br_sslrec_gcm_context \<Rightarrow> nat \<Rightarrow> bool" where
  "gcm_check_length cc rlen \<longleftrightarrow> 24 \<le> rlen \<and> rlen \<le> 16384 + 24"

definition do_tag ::
  "'k br_sslrec_gcm_context \<Rightarrow> u8 \<Rightarrow> u32 \<Rightarrow> u8 list \<Rightarrow> u8 list \<times> 'k br_sslrec_gcm_context" where
  "do_tag cc record_type version data =
     (let header = record_header (gcm_seq cc) record_type version (length data);
          cc = cc\<lparr>gcm_seq := gcm_seq cc + 1\<rparr>;
          footer = br_enc64be (push_bit 3 (of_nat (length header))) @ br_enc64be (push_bit 3 (of_nat (length data)));
          tag = replicate 16 0;
          tag = gcm_gh cc tag (gcm_h cc) header;
          tag = gcm_gh cc tag (gcm_h cc) data;
          tag = gcm_gh cc tag (gcm_h cc) footer
      in (tag, cc))"

text \<open>The data and the block at \<open>xortag\<close>.\<close>

definition do_ctr :: "'k br_sslrec_gcm_context \<Rightarrow> u8 list \<Rightarrow> u8 list \<Rightarrow> u8 list \<Rightarrow> u8 list \<times> u8 list" where
  "do_ctr cc nonce data xortag =
     (let iv = take 4 (gcm_iv cc) @ take 8 nonce;
          data = fst (ctr_run (gcm_vtable cc) (gcm_bc cc) iv 2 data);
          xortag = fst (ctr_run (gcm_vtable cc) (gcm_bc cc) iv 1 xortag)
      in (data, xortag))"

definition gcm_decrypt ::
  "'k br_sslrec_gcm_context \<Rightarrow> u8 \<Rightarrow> u32 \<Rightarrow> u8 list \<Rightarrow> nat \<Rightarrow> nat \<Rightarrow> (nat \<times> nat) option \<times> u8 list \<times> 'k br_sslrec_gcm_context" where
  "gcm_decrypt cc record_type version m data data_len =
     (let buf = data + 8;
          len = data_len - 24;
          (tag, cc) = do_tag cc record_type version (load buf len m);
          (d, tag) = do_ctr cc (load data 8 m) (load buf len m) tag;
          m = store buf d m;
          bad = tags_differ 16 tag (load (buf + len) 16 m)
      in if bad \<noteq> 0 then (None, m, cc) else (Some (buf, len), m, cc))"

definition br_sslrec_in_gcm_vtable :: "'k br_sslrec_gcm_context br_sslrec_in_class" where
  "br_sslrec_in_gcm_vtable = \<lparr>check_length = gcm_check_length, decrypt = gcm_decrypt\<rparr>"

definition gcm_max_plaintext :: "'k br_sslrec_gcm_context \<Rightarrow> nat \<Rightarrow> nat \<Rightarrow> nat \<times> nat" where
  "gcm_max_plaintext cc start end' =
     (let start = start + 8;
          len = end' - start - 16;
          len = (if 16384 < len then 16384 else len)
      in (start, start + len))"

definition gcm_encrypt ::
  "'k br_sslrec_gcm_context \<Rightarrow> u8 \<Rightarrow> u32 \<Rightarrow> u8 list \<Rightarrow> nat \<Rightarrow> nat \<Rightarrow> (nat \<times> nat) \<times> u8 list \<times> 'k br_sslrec_gcm_context" where
  "gcm_encrypt cc record_type version m data data_len =
     (let buf = data;
          len = data_len;
          tmp = replicate 16 0;
          m = store (buf - 8) (br_enc64be (gcm_seq cc)) m;
          (d, tmp) = do_ctr cc (load (buf - 8) 8 m) (load buf len m) tmp;
          m = store buf d m;
          (tag, cc) = do_tag cc record_type version (load buf len m);
          m = store (buf + len) tag m;
          m = store (buf + len) (map2 (XOR) (load (buf + len) 16 m) tmp) m;
          len = len + 24;
          buf = buf - 13;
          m = store buf ([record_type] @ br_enc16be version @ br_enc16be (of_nat len)) m
      in ((buf, len + 5), m, cc))"

definition br_sslrec_out_gcm_vtable :: "'k br_sslrec_gcm_context br_sslrec_out_class" where
  "br_sslrec_out_gcm_vtable = \<lparr>max_plaintext = gcm_max_plaintext, encrypt = gcm_encrypt\<rparr>"

subsection \<open>Reading and writing memory\<close>

lemma length_load [simp]: "a + n \<le> length m \<Longrightarrow> length (load a n m) = n"
  by (simp add: load_def)

lemma load_same: "a + length bs \<le> length m \<Longrightarrow> load a (length bs) (store a bs m) = bs"
  by (simp add: load_def store_def)

lemma load_other:
  assumes "a + length bs \<le> length m" "b + n \<le> length m" "b + n \<le> a \<or> a + length bs \<le> b"
  shows "load b n (store a bs m) = load b n m"
  using assms by (elim disjE; intro nth_equalityI) (simp_all add: load_def nth_store)

lemma load_split: "a + n + k \<le> length m \<Longrightarrow> load a (n + k) m = load a n m @ load (a + n) k m"
  unfolding load_def take_add by (simp add: add.commute)

lemma length_record_header [simp]: "length (record_header s t v n) = 13"
  by (simp add: record_header_def)

lemma tags_differ_zero:
  assumes "length a = n" "length b = n"
  shows "tags_differ n a b = 0 \<longleftrightarrow> a = b"
proof -
  have "fold (\<lambda>u bad. bad OR ucast (a ! u XOR b ! u)) [0..<k] (0 :: u32) = 0 \<longleftrightarrow> (\<forall>u < k. a ! u = b ! u)" for k
  proof (induction k)
    case (Suc k)
    have "ucast (a ! k XOR b ! k) = (0 :: u32) \<longleftrightarrow> a ! k XOR b ! k = 0"
      by (metis ucast_inv unsigned_0)
    also have "\<dots> \<longleftrightarrow> a ! k = b ! k" by (metis xor_cancel xor.right_neutral xor_self_eq)
    finally show ?case using Suc by (auto simp: or_eq_0_iff less_Suc_eq)
  qed simp
  then show ?thesis using assms unfolding tags_differ_def by (auto intro: nth_equalityI)
qed

subsection \<open>What the record layer needs of an AEAD function\<close>

locale aead =
  fixes run :: "u8 list \<Rightarrow> u8 list \<Rightarrow> u8 list \<Rightarrow> u8 list \<Rightarrow> bool \<Rightarrow> u8 list \<times> u8 list"
  assumes length_run: "length (fst (run key nonce data aad e)) = length data"
    and length_tag: "length (snd (run key nonce data aad e)) = 16"
    and run_run: "run key nonce (fst (run key nonce data aad True)) aad False = (data, snd (run key nonce data aad True))"

text \<open>A context of ChaCha20 and Poly1305 that calls it.\<close>

definition chapol_on ::
  "(u8 list \<Rightarrow> u8 list \<Rightarrow> u8 list \<Rightarrow> u8 list \<Rightarrow> bool \<Rightarrow> u8 list \<times> u8 list) \<Rightarrow> br_sslrec_chapol_context \<Rightarrow> bool" where
  "chapol_on run cc \<longleftrightarrow> (\<forall>key nonce data aad e. chapol_ipoly cc key nonce data aad (chapol_ichacha cc) e = run key nonce data aad e)"

definition chapol_next :: "br_sslrec_chapol_context \<Rightarrow> br_sslrec_chapol_context" where
  "chapol_next cc = cc\<lparr>chapol_seq := chapol_seq cc + 1\<rparr>"

lemma chapol_on_next [simp]: "chapol_on run (chapol_next cc) = chapol_on run cc"
  by (simp add: chapol_on_def chapol_next_def)

lemma chapol_process:
  assumes "chapol_on run cc"
  shows "gen_chapol_process cc t ver d e =
    (let (d', tag) = run (chapol_key cc) (chapol_nonce (chapol_iv cc) (chapol_seq cc)) d (record_header (chapol_seq cc) t ver (length d)) e
     in (d', tag, chapol_next cc))"
  using assms by (simp add: gen_chapol_process_def chapol_on_def chapol_next_def Let_def)

lemma store_header:
  assumes "5 \<le> a" "a + n \<le> length m" "length h = 5"
  shows "load (a - 5) (5 + n) (store (a - 5) h m) = h @ load a n m"
proof -
  have "load (a - 5) (5 + n) (store (a - 5) h m) = load (a - 5) (length h) (store (a - 5) h m) @ load (a - 5 + 5) n (store (a - 5) h m)"
    using assms by (subst load_split) simp_all
  also have "load (a - 5) (length h) (store (a - 5) h m) = h" using assms by (intro load_same) simp
  also have "load (a - 5 + 5) n (store (a - 5) h m) = load a n m" using assms by (subst load_other) simp_all
  finally show ?thesis .
qed

lemma store_two:
  assumes "a + length d + length t \<le> length m"
  shows "load a (length d + length t) (store (a + length d) t (store a d m)) = d @ t"
proof -
  have l: "length (store a d m) = length m" using assms by simp
  have "load a (length d + length t) (store (a + length d) t (store a d m))
      = load a (length d) (store (a + length d) t (store a d m)) @ load (a + length d) (length t) (store (a + length d) t (store a d m))"
    using assms l by (subst load_split) simp_all
  also have "load a (length d) (store (a + length d) t (store a d m)) = d"
    using assms l by (subst load_other) (simp_all add: load_same)
  also have "load (a + length d) (length t) (store (a + length d) t (store a d m)) = t"
    using assms l by (intro load_same) simp
  finally show ?thesis .
qed

context aead
begin

lemma chapol_encrypt_bytes:
  assumes "chapol_on run cc" "5 \<le> a" "a + n + 16 \<le> length m"
    and "run (chapol_key cc) (chapol_nonce (chapol_iv cc) (chapol_seq cc)) (load a n m) (record_header (chapol_seq cc) t ver n) True = (ct, tag)"
  shows "\<exists>m'. chapol_encrypt cc t ver m a n = ((a - 5, n + 21), m', chapol_next cc)
    \<and> load (a - 5) (n + 21) m' = [t] @ br_enc16be ver @ br_enc16be (of_nat (n + 16)) @ ct @ tag
    \<and> same_outside (a - 5) (a + n + 16) m m'"
proof -
  have n: "length (load a n m) = n" using assms(3) by simp
  have l: "length ct = n" "length tag = 16"
    using length_run [of "chapol_key cc" "chapol_nonce (chapol_iv cc) (chapol_seq cc)" "load a n m" "record_header (chapol_seq cc) t ver n" True]
      length_tag [of "chapol_key cc" "chapol_nonce (chapol_iv cc) (chapol_seq cc)" "load a n m" "record_header (chapol_seq cc) t ver n" True]
    unfolding assms(4) n by simp_all
  let ?h = "[t] @ br_enc16be ver @ br_enc16be (of_nat (n + 16))"
  let ?m = "store (a + n) tag (store a ct m)"
  have e: "chapol_encrypt cc t ver m a n = ((a - 5, n + 21), store (a - 5) ?h ?m, chapol_next cc)"
    unfolding chapol_encrypt_def Let_def chapol_process [OF assms(1)] n assms(4) prod.case ..
  have lm: "length (store a ct m) = length m" "length ?m = length m" using assms(3) l by simp_all
  have h: "length ?h = 5" by simp
  have "load (a - 5) (5 + (n + 16)) (store (a - 5) ?h ?m) = ?h @ load a (n + 16) ?m"
    using assms(2,3) lm by (intro store_header h) simp_all
  also have "load a (n + 16) ?m = ct @ tag" using store_two [of a ct tag m] assms(3) l by simp
  finally have b: "load (a - 5) (n + 21) (store (a - 5) ?h ?m) = ?h @ ct @ tag" by (simp add: add.commute)
  have "same_outside (a - 5) (a + n + 16) m (store a ct m)" using assms(2,3) l by (intro store_same) simp_all
  moreover have "same_outside (a - 5) (a + n + 16) (store a ct m) ?m" using assms(2,3) l lm by (intro store_same) simp_all
  moreover have "same_outside (a - 5) (a + n + 16) ?m (store (a - 5) ?h ?m)" using assms(2,3) l lm h by (intro store_same) simp_all
  ultimately have "same_outside (a - 5) (a + n + 16) m (store (a - 5) ?h ?m)" using same_outside_trans by blast
  then show ?thesis using e b by simp
qed

lemma chapol_decrypt_bytes:
  assumes "chapol_on run cc" "a + n + 16 \<le> length m" "load a (n + 16) m = ct @ tag" "length ct = n"
    and "run (chapol_key cc) (chapol_nonce (chapol_iv cc) (chapol_seq cc)) ct (record_header (chapol_seq cc) t ver n) False = (pt, tag')"
  shows "chapol_decrypt cc t ver m a (n + 16) = ((if tag' = tag then Some (a, n) else None), store a pt m, chapol_next cc)"
    "length pt = n"
proof -
  have l: "load a n m = ct" "load (a + n) 16 m = tag" "length tag = 16"
    using assms(2-4) load_split [of a n 16 m] by auto
  show pt: "length pt = n"
    using length_run [of "chapol_key cc" "chapol_nonce (chapol_iv cc) (chapol_seq cc)" ct "record_header (chapol_seq cc) t ver n" False] assms(4,5)
    by simp
  have t: "length tag' = 16"
    using length_tag [of "chapol_key cc" "chapol_nonce (chapol_iv cc) (chapol_seq cc)" ct "record_header (chapol_seq cc) t ver n" False] assms(5)
    by simp
  have "load (a + n) 16 (store a pt m) = tag" using assms(2) pt l(2) by (subst load_other) simp_all
  then show "chapol_decrypt cc t ver m a (n + 16) = ((if tag' = tag then Some (a, n) else None), store a pt m, chapol_next cc)"
    unfolding chapol_decrypt_def Let_def chapol_process [OF assms(1)] using assms(4,5) tags_differ_zero [OF t l(3)] l by simp
qed

lemma chapol_out_contract: "out_contract br_sslrec_out_chapol_vtable (chapol_on run)"
proof -
  have w: "chapol_max_plaintext c 5 (len - 5) = (5, 5 + min 16384 (len - 26))" for c len
    by (simp add: chapol_max_plaintext_def Let_def min_def)
  have e: "let ((s, l), m', c') = chapol_encrypt c t ver m (base + 5) n
      in base \<le> s \<and> 0 < l \<and> s + l \<le> base + len \<and> same_outside base (base + len) m m' \<and> chapol_on run c'"
    if "chapol_on run c" "5 + n \<le> 5 + min 16384 (len - 26)" "base + len \<le> length m" "512 + 85 \<le> len" for c t ver m base n len
  proof -
    note h = that
    have b: "5 \<le> base + 5" "base + 5 + n + 16 \<le> length m" "base + 5 + n + 16 \<le> base + len" using h(2-4) by auto
    obtain ct tag where r: "run (chapol_key c) (chapol_nonce (chapol_iv c) (chapol_seq c)) (load (base + 5) n m) (record_header (chapol_seq c) t ver n) True = (ct, tag)"
      by fastforce
    obtain m' where m': "chapol_encrypt c t ver m (base + 5) n = ((base + 5 - 5, n + 21), m', chapol_next c)"
        "same_outside (base + 5 - 5) (base + 5 + n + 16) m m'"
      using chapol_encrypt_bytes [OF h(1) b(1,2) r] by blast
    then have "same_outside base (base + len) m m'" using b(3) by (auto simp: same_outside_def)
    then show ?thesis using m'(1) b(3) h(1) by simp
  qed
  show ?thesis
    unfolding out_contract_def br_sslrec_out_chapol_vtable_def br_sslrec_out_class.simps w prod.case Let_def [of "(_, _)"]
    using e by (auto simp: min_def)
qed

lemma chapol_in_contract: "in_contract br_sslrec_in_chapol_vtable (chapol_on run)"
proof -
  have d: "let (r, m', c') = chapol_decrypt c t ver m base n
      in same_outside base (base + n) m m' \<and> chapol_on run c'
       \<and> (case r of None \<Rightarrow> True | Some (p, l) \<Rightarrow> base \<le> p \<and> p + l \<le> base + n)"
    if "chapol_on run c" "chapol_check_length c n" "base + n \<le> length m" for c t ver m base n
  proof -
    have n: "n = n - 16 + 16" using that(2) by (simp add: chapol_check_length_def)
    let ?k = "n - 16"
    have b: "base + ?k + 16 \<le> length m" using n that(3) by simp
    have l: "load base (?k + 16) m = load base ?k m @ load (base + ?k) 16 m" "length (load base ?k m) = ?k"
      using load_split [OF b] b by simp_all
    obtain pt tag where r: "run (chapol_key c) (chapol_nonce (chapol_iv c) (chapol_seq c)) (load base ?k m) (record_header (chapol_seq c) t ver ?k) False = (pt, tag)"
      by fastforce
    note d = chapol_decrypt_bytes [OF that(1) b l r]
    have "same_outside base (base + n) m (store base pt m)" using d(2) b n by (intro store_same) simp_all
    then show ?thesis using d(1) n that(1) by simp
  qed
  show ?thesis
    unfolding in_contract_def br_sslrec_in_chapol_vtable_def br_sslrec_in_class.simps using d by blast
qed

text \<open>A record goes through the transport from one memory to another.\<close>

lemma chapol_roundtrip:
  assumes "chapol_on run cc" "chapol_on run dd"
    and "chapol_key dd = chapol_key cc" "chapol_iv dd = chapol_iv cc" "chapol_seq dd = chapol_seq cc"
    and "5 \<le> a" "a + n + 16 \<le> length m" "chapol_encrypt cc t ver m a n = ((s, l), m', cc')"
    and "b + l \<le> length m2" "load b l m2 = load s l m'"
  shows "\<exists>m3 dd'. chapol_decrypt dd t ver m2 (b + 5) (l - 5) = (Some (b + 5, n), m3, dd')
    \<and> load (b + 5) n m3 = load a n m \<and> chapol_seq dd' = chapol_seq cc'"
proof -
  let ?k = "chapol_key cc" and ?nonce = "chapol_nonce (chapol_iv cc) (chapol_seq cc)" and ?h = "record_header (chapol_seq cc) t ver n"
  obtain ct tag where r: "run ?k ?nonce (load a n m) ?h True = (ct, tag)" by fastforce
  obtain e where e: "chapol_encrypt cc t ver m a n = ((a - 5, n + 21), e, chapol_next cc)"
      "load (a - 5) (n + 21) e = [t] @ br_enc16be ver @ br_enc16be (of_nat (n + 16)) @ ct @ tag"
    using chapol_encrypt_bytes [OF assms(1,6,7) r] by blast
  have s: "l = n + 21" "m' = e" "cc' = chapol_next cc" "load s l m' = [t] @ br_enc16be ver @ br_enc16be (of_nat (n + 16)) @ ct @ tag"
    using assms(8) e by auto
  have c: "length ct = n" using length_run [of ?k ?nonce "load a n m" ?h True] r assms(7) by simp
  have b: "b + 5 + n + 16 \<le> length m2" using assms(9) s(1) by simp
  have "drop 5 (load b (5 + (n + 16)) m2) = load (b + 5) (n + 16) m2"
    using b by (subst load_split) simp_all
  then have l: "load (b + 5) (n + 16) m2 = ct @ tag" using assms(10) s(1,4) by (simp add: add.commute)
  have d: "run (chapol_key dd) (chapol_nonce (chapol_iv dd) (chapol_seq dd)) ct (record_header (chapol_seq dd) t ver n) False = (load a n m, tag)"
    unfolding assms(3,4,5) using run_run [of ?k ?nonce "load a n m" ?h] r by simp
  note dec = chapol_decrypt_bytes [OF assms(2) b l c d]
  have "load (b + 5) (length (load a n m)) (store (b + 5) (load a n m) m2) = load a n m"
    using b dec(2) by (intro load_same) simp
  moreover have "l - 5 = n + 16" using s(1) by simp
  ultimately show ?thesis using dec s(3) assms(5) by (simp add: chapol_next_def)
qed

end

text \<open>The functions of the library that the engine uses by default.\<close>

interpretation chapol: aead "\<lambda>key nonce data aad e. br_poly1305_ctmul_run key nonce data aad br_chacha20_ct_run e"
proof
  show "length (fst (br_poly1305_ctmul_run key nonce data aad br_chacha20_ct_run e)) = length data" for key nonce data aad e
    by (simp add: br_poly1305_ctmul_run_def Let_def chacha20_ct_encrypt)
  show "length (snd (br_poly1305_ctmul_run key nonce data aad br_chacha20_ct_run e)) = 16" for key nonce data aad e
    by (simp add: br_poly1305_ctmul_run_def Let_def make_tag_def)
  show "br_poly1305_ctmul_run key nonce (fst (br_poly1305_ctmul_run key nonce data aad br_chacha20_ct_run True)) aad br_chacha20_ct_run False
      = (data, snd (br_poly1305_ctmul_run key nonce data aad br_chacha20_ct_run True))" for key nonce data aad
    by (simp add: br_poly1305_ctmul_run_def Let_def chacha20_ct_encrypt)
qed

subsection \<open>What GCM needs of the cipher and of GHASH\<close>

locale gcm_functions =
  fixes run :: "'k \<Rightarrow> u8 list \<Rightarrow> u32 \<Rightarrow> u8 list \<Rightarrow> u8 list \<times> u32"
    and gh :: br_ghash
  assumes length_run: "length (fst (run k iv c d)) = length d"
    and run_xor: "fst (run k iv c d) = map2 (XOR) d (fst (run k iv c (replicate (length d) 0)))"
    and length_gh: "length y = 16 \<Longrightarrow> length (gh y h d) = 16"

definition gcm_on ::
  "('k \<Rightarrow> u8 list \<Rightarrow> u32 \<Rightarrow> u8 list \<Rightarrow> u8 list \<times> u32) \<Rightarrow> br_ghash \<Rightarrow> 'k br_sslrec_gcm_context \<Rightarrow> bool" where
  "gcm_on run gh cc \<longleftrightarrow> (\<forall>k iv c d. ctr_run (gcm_vtable cc) k iv c d = run k iv c d) \<and> (\<forall>y h d. gcm_gh cc y h d = gh y h d)"

definition gcm_next :: "'k br_sslrec_gcm_context \<Rightarrow> 'k br_sslrec_gcm_context" where
  "gcm_next cc = cc\<lparr>gcm_seq := gcm_seq cc + 1\<rparr>"

lemma gcm_on_next [simp]: "gcm_on run gh (gcm_next cc) = gcm_on run gh cc"
  by (simp add: gcm_on_def gcm_next_def)

lemma gcm_next_fields [simp]: "gcm_bc (gcm_next cc) = gcm_bc cc" "gcm_iv (gcm_next cc) = gcm_iv cc"
  by (simp_all add: gcm_next_def)

lemma do_tag_next: "do_tag cc t ver d = (fst (do_tag cc t ver d), gcm_next cc)"
  by (simp add: do_tag_def Let_def gcm_next_def)

lemma store_store: "length x = length y \<Longrightarrow> a + length x \<le> length m \<Longrightarrow> store a y (store a x m) = store a y m"
  by (simp add: store_def)

lemma map2_xor_twice: "length a \<le> length b \<Longrightarrow> map2 (XOR) (map2 (XOR) a b) b = (a :: u8 list)"
  by (intro nth_equalityI) (simp_all add: xor.assoc)

context gcm_functions
begin

lemma run_run: "fst (run k iv c (fst (run k iv c d))) = d"
proof -
  let ?z = "fst (run k iv c (replicate (length d) 0))"
  have "fst (run k iv c (fst (run k iv c d))) = map2 (XOR) (fst (run k iv c d)) ?z"
    by (subst run_xor) (simp only: length_run)
  also have "\<dots> = map2 (XOR) (map2 (XOR) d ?z) ?z" by (subst (1) run_xor) (rule refl)
  also have "\<dots> = d" by (rule map2_xor_twice) (simp add: length_run)
  finally show ?thesis .
qed

lemma length_do_tag: "gcm_on run gh cc \<Longrightarrow> length (fst (do_tag cc t ver d)) = 16"
  by (simp add: do_tag_def Let_def gcm_on_def length_gh)

lemma do_ctr_run:
  "gcm_on run gh cc \<Longrightarrow> do_ctr cc nonce d x
    = (fst (run (gcm_bc cc) (take 4 (gcm_iv cc) @ take 8 nonce) 2 d), fst (run (gcm_bc cc) (take 4 (gcm_iv cc) @ take 8 nonce) 1 x))"
  by (simp add: do_ctr_def Let_def gcm_on_def)

lemma gcm_encrypt_bytes:
  fixes t :: u8 and ver :: u32
  assumes "gcm_on run gh cc" "13 \<le> a" "a + n + 16 \<le> length m"
  defines "iv \<equiv> take 4 (gcm_iv cc) @ br_enc64be (gcm_seq cc)"
  defines "ct \<equiv> fst (run (gcm_bc cc) iv 2 (load a n m))"
  defines "tag \<equiv> map2 (XOR) (fst (do_tag cc t ver ct)) (fst (run (gcm_bc cc) iv 1 (replicate 16 0)))"
  shows "\<exists>m'. gcm_encrypt cc t ver m a n = ((a - 13, n + 29), m', gcm_next cc)
    \<and> load (a - 13) (n + 29) m' = [t] @ br_enc16be ver @ br_enc16be (of_nat (n + 24)) @ br_enc64be (gcm_seq cc) @ ct @ tag
    \<and> same_outside (a - 13) (a + n + 16) m m'"
proof -
  let ?q = "br_enc64be (gcm_seq cc)"
  have q: "length ?q = 8" by simp
  let ?m1 = "store (a - 8) ?q m"
  have m1: "length ?m1 = length m" "load (a - 8) 8 ?m1 = ?q" "load a n ?m1 = load a n m"
    using assms(2,3) q load_same [of "a - 8" ?q m] by (simp_all add: load_other)
  have ct: "length ct = n" unfolding ct_def length_run using assms(3) by simp
  let ?m2 = "store a ct ?m1"
  have m2: "length ?m2 = length m" "load a n ?m2 = ct"
    using assms(3) m1(1) ct load_same [of a ct ?m1] by simp_all
  obtain g where dt: "do_tag cc t ver ct = (g, gcm_next cc)" using do_tag_next by blast
  let ?g = g and ?z = "fst (run (gcm_bc cc) iv 1 (replicate 16 0))"
  have tg: "map2 (XOR) g ?z = tag" by (simp add: tag_def dt)
  have g: "length ?g = 16" "length ?z = 16" "length tag = 16"
    using length_do_tag [OF assms(1), of t ver ct] by (simp_all add: dt length_run tag_def)
  have m3: "load (a + n) 16 (store (a + n) ?g ?m2) = ?g"
    using load_same [of "a + n" ?g ?m2] g(1) m2(1) assms(3) by simp
  have m4: "store (a + n) tag (store (a + n) ?g ?m2) = store (a + n) tag ?m2"
    using g m2(1) assms(3) by (intro store_store) simp_all
  let ?h = "[t] @ br_enc16be ver @ br_enc16be (of_nat (n + 24))"
  let ?m5 = "store (a + n) tag ?m2"
  have m5: "length ?m5 = length m" using g(3) m2(1) assms(3) by simp
  have h: "length ?h = 5" by simp
  have a: "a - 13 = a - 8 - 5" "a - 8 + 8 = a" using assms(2) by simp_all
  have ctr: "do_ctr cc ?q (load a n m) (replicate 16 0) = (ct, ?z)"
    by (simp add: do_ctr_run [OF assms(1)] iv_def ct_def)
  have e: "gcm_encrypt cc t ver m a n = ((a - 13, n + 29), store (a - 13) ?h ?m5, gcm_next cc)"
    unfolding gcm_encrypt_def Let_def m1(2,3) ctr prod.case m2(2) dt m3 tg m4 by simp
  have c: "load a (n + 16) ?m5 = ct @ tag" using store_two [of a ct tag ?m1] assms(3) ct g(3) m1(1) by simp
  have q5: "load (a - 8) 8 ?m5 = ?q"
    using assms(2,3) m1 m2(1) ct g(3) by (simp add: load_other)
  have "load (a - 8 - 5) (5 + (8 + (n + 16))) (store (a - 8 - 5) ?h ?m5) = ?h @ load (a - 8) (8 + (n + 16)) ?m5"
    using assms(2,3) m5 by (intro store_header h) simp_all
  also have "load (a - 8) (8 + (n + 16)) ?m5 = ?q @ ct @ tag"
    using assms(2,3) m5 q5 c by (subst load_split) simp_all
  finally have b: "load (a - 13) (n + 29) (store (a - 13) ?h ?m5) = ?h @ ?q @ ct @ tag" unfolding a(1) by (simp add: add.commute)
  have "same_outside (a - 13) (a + n + 16) m ?m1" using assms(2,3) q by (intro store_same) simp_all
  moreover have "same_outside (a - 13) (a + n + 16) ?m1 ?m2" using assms(2,3) m1(1) ct by (intro store_same) simp_all
  moreover have "same_outside (a - 13) (a + n + 16) ?m2 ?m5" using assms(2,3) m2(1) g(3) by (intro store_same) simp_all
  moreover have "same_outside (a - 13) (a + n + 16) ?m5 (store (a - 13) ?h ?m5)" using assms(2,3) m5 h by (intro store_same) simp_all
  ultimately have "same_outside (a - 13) (a + n + 16) m (store (a - 13) ?h ?m5)" using same_outside_trans by blast
  then show ?thesis using e b by simp
qed

lemma gcm_decrypt_bytes:
  assumes "gcm_on run gh cc" "a + n + 24 \<le> length m" "load a (n + 24) m = nonce @ ct @ tag" "length nonce = 8" "length ct = n"
  shows "gcm_decrypt cc t ver m a (n + 24) =
    ((if fst (run (gcm_bc cc) (take 4 (gcm_iv cc) @ nonce) 1 (fst (do_tag cc t ver ct))) = tag then Some (a + 8, n) else None),
     store (a + 8) (fst (run (gcm_bc cc) (take 4 (gcm_iv cc) @ nonce) 2 ct)) m, gcm_next cc)"
proof -
  have sp: "load a (8 + (n + 16)) m = load a 8 m @ load (a + 8) n m @ load (a + 8 + n) 16 m"
    using assms(2) load_split [of a 8 "n + 16" m] load_split [of "a + 8" n 16 m] by simp
  have l: "load a 8 m = nonce" "load (a + 8) n m = ct" "load (a + 8 + n) 16 m = tag" "length tag = 16"
    using assms(2-5) sp by (auto simp: add.commute append_eq_append_conv)
  obtain g where dt: "do_tag cc t ver ct = (g, gcm_next cc)" using do_tag_next by blast
  let ?x = "fst (run (gcm_bc cc) (take 4 (gcm_iv cc) @ nonce) 1 g)"
  let ?d = "fst (run (gcm_bc cc) (take 4 (gcm_iv cc) @ nonce) 2 ct)"
  have x: "length ?x = 16" "length ?d = n" using length_do_tag [OF assms(1), of t ver ct] assms(5) by (simp_all add: length_run dt)
  have m: "load (a + 8 + n) 16 (store (a + 8) ?d m) = tag" using assms(2) x(2) l(3) by (simp add: load_other)
  have n: "n + 24 - 24 = n" by simp
  show ?thesis
    unfolding gcm_decrypt_def Let_def n l(1,2) dt prod.case fst_conv
    using assms(1) x l(4) m tags_differ_zero [OF x(1) l(4)] assms(4) by (simp add: do_ctr_run)
qed

lemma gcm_out_contract: "out_contract br_sslrec_out_gcm_vtable (gcm_on run gh)"
proof -
  have w: "gcm_max_plaintext c 5 (len - 5) = (13, 13 + min 16384 (len - 34))" for c :: "'a br_sslrec_gcm_context" and len
    by (simp add: gcm_max_plaintext_def Let_def min_def)
  have e: "let ((s, l), m', c') = gcm_encrypt c t ver m (base + 13) n
      in base \<le> s \<and> 0 < l \<and> s + l \<le> base + len \<and> same_outside base (base + len) m m' \<and> gcm_on run gh c'"
    if "gcm_on run gh c" "13 + n \<le> 13 + min 16384 (len - 34)" "base + len \<le> length m" "512 + 85 \<le> len" for c t ver m base n len
  proof -
    note h = that
    have b: "13 \<le> base + 13" "base + 13 + n + 16 \<le> length m" "base + 13 + n + 16 \<le> base + len" using h(2-4) by auto
    obtain m' where m': "gcm_encrypt c t ver m (base + 13) n = ((base + 13 - 13, n + 29), m', gcm_next c)"
        "same_outside (base + 13 - 13) (base + 13 + n + 16) m m'"
      using gcm_encrypt_bytes [OF h(1) b(1,2)] by blast
    then have "same_outside base (base + len) m m'" using b(3) by (auto simp: same_outside_def)
    then show ?thesis using m'(1) b(3) h(1) by simp
  qed
  show ?thesis
    unfolding out_contract_def br_sslrec_out_gcm_vtable_def br_sslrec_out_class.simps w prod.case Let_def [of "(_, _)"]
    using e by (auto simp: min_def)
qed

lemma gcm_in_contract: "in_contract br_sslrec_in_gcm_vtable (gcm_on run gh)"
proof -
  have d: "let (r, m', c') = gcm_decrypt c t ver m base n
      in same_outside base (base + n) m m' \<and> gcm_on run gh c'
       \<and> (case r of None \<Rightarrow> True | Some (p, l) \<Rightarrow> base \<le> p \<and> p + l \<le> base + n)"
    if "gcm_on run gh c" "gcm_check_length c n" "base + n \<le> length m" for c t ver m base n
  proof -
    have n: "n = n - 24 + 24" using that(2) by (simp add: gcm_check_length_def)
    let ?k = "n - 24"
    have b: "base + ?k + 24 \<le> length m" using n that(3) by simp
    have l: "load base (?k + 24) m = load base 8 m @ load (base + 8) ?k m @ load (base + 8 + ?k) 16 m"
      using b load_split [of base 8 "?k + 16" m] load_split [of "base + 8" ?k 16 m] by (simp add: add.commute)
    have l': "length (load base 8 m) = 8" "length (load (base + 8) ?k m) = ?k" using b by simp_all
    note d = gcm_decrypt_bytes [OF that(1) b l l']
    have "same_outside base (base + n) m (store (base + 8) (fst (run (gcm_bc c) (take 4 (gcm_iv c) @ load base 8 m) 2 (load (base + 8) ?k m))) m)"
      using b n l' by (intro store_same) (simp_all add: length_run)
    then show ?thesis using d [of t ver] n that(1) by simp
  qed
  show ?thesis
    unfolding in_contract_def br_sslrec_in_gcm_vtable_def br_sslrec_in_class.simps using d by blast
qed

lemma gcm_roundtrip:
  assumes "gcm_on run gh cc" "gcm_on run gh dd"
    and "\<And>c d. fst (run (gcm_bc dd) (take 4 (gcm_iv cc) @ br_enc64be (gcm_seq cc)) c d) = fst (run (gcm_bc cc) (take 4 (gcm_iv cc) @ br_enc64be (gcm_seq cc)) c d)"
    and "gcm_iv dd = gcm_iv cc" "gcm_h dd = gcm_h cc" "gcm_seq dd = gcm_seq cc"
    and "13 \<le> a" "a + n + 16 \<le> length m" "gcm_encrypt cc t ver m a n = ((s, l), m', cc')"
    and "b + l \<le> length m2" "load b l m2 = load s l m'"
  shows "\<exists>m3 dd'. gcm_decrypt dd t ver m2 (b + 5) (l - 5) = (Some (b + 13, n), m3, dd')
    \<and> load (b + 13) n m3 = load a n m \<and> gcm_seq dd' = gcm_seq cc'"
proof -
  let ?q = "br_enc64be (gcm_seq cc)"
  let ?iv = "take 4 (gcm_iv cc) @ ?q"
  let ?ct = "fst (run (gcm_bc cc) ?iv 2 (load a n m))"
  let ?tag = "map2 (XOR) (fst (do_tag cc t ver ?ct)) (fst (run (gcm_bc cc) ?iv 1 (replicate 16 0)))"
  obtain e where e: "gcm_encrypt cc t ver m a n = ((a - 13, n + 29), e, gcm_next cc)"
      "load (a - 13) (n + 29) e = [t] @ br_enc16be ver @ br_enc16be (of_nat (n + 24)) @ ?q @ ?ct @ ?tag"
    using gcm_encrypt_bytes [OF assms(1,7,8)] by blast
  have s: "l = n + 29" "cc' = gcm_next cc"
      "load s l m' = [t] @ br_enc16be ver @ br_enc16be (of_nat (n + 24)) @ ?q @ ?ct @ ?tag"
    using assms(9) e by auto
  have b: "b + 5 + n + 24 \<le> length m2" "l - 5 = n + 24" using assms(10) s(1) by simp_all
  have "drop 5 (load b (5 + (n + 24)) m2) = load (b + 5) (n + 24) m2"
    using b by (subst load_split) simp_all
  then have l: "load (b + 5) (n + 24) m2 = ?q @ ?ct @ ?tag" using assms(11) s(1,3) by (simp add: add.commute)
  have c: "length ?q = 8" "length ?ct = n" using assms(8) by (simp_all add: length_run)
  have tg: "fst (do_tag dd t ver ?ct) = fst (do_tag cc t ver ?ct)"
    using assms(1,2,5,6) by (simp add: do_tag_def Let_def gcm_on_def)
  have "fst (run (gcm_bc cc) ?iv 1 (fst (do_tag cc t ver ?ct))) = ?tag"
    using length_do_tag [OF assms(1), of t ver ?ct] run_xor [of "gcm_bc cc" ?iv 1 "fst (do_tag cc t ver ?ct)"] by simp
  then have d: "gcm_decrypt dd t ver m2 (b + 5) (n + 24) = (Some (b + 5 + 8, n), store (b + 5 + 8) (load a n m) m2, gcm_next dd)"
    using gcm_decrypt_bytes [OF assms(2) b(1) l c, of t ver] unfolding assms(4) assms(3) tg by (simp add: run_run)
  have "load (b + 5 + 8) (length (load a n m)) (store (b + 5 + 8) (load a n m) m2) = load a n m"
    using b assms(8) by (intro load_same) simp
  then show ?thesis using d b(2) s(2) assms(6,8) by (simp add: gcm_next_def add.commute)
qed

end

end
