(* ===== verification/Ghash.thy ===== *)
theory Ghash
  imports RecAead
begin

section \<open>GHASH (bearssl/src/hash/ghash\_ctmul.c)\<close>

text \<open>
  Multiplication in the field of GCM with integer multiplications on 32-bit words: \<open>bmul\<close> multiplies polynomials by keeping
  three zero bits between the data bits, where carries go.  It is the version that is compiled when \<^verbatim>\<open>BR_SLOW_MUL\<close> is
  not set.
\<close>

definition bmul :: "u32 \<Rightarrow> u32 \<Rightarrow> u32 \<times> u32" where
  "bmul x y =
     (let x0 = x AND 0x11111111; x1 = x AND 0x22222222; x2 = x AND 0x44444444; x3 = x AND 0x88888888;
          y0 = y AND 0x11111111; y1 = y AND 0x22222222; y2 = y AND 0x44444444; y3 = y AND 0x88888888;
          z0 = M x0 y0 XOR M x1 y3 XOR M x2 y2 XOR M x3 y1;
          z1 = M x0 y1 XOR M x1 y0 XOR M x2 y3 XOR M x3 y2;
          z2 = M x0 y2 XOR M x1 y1 XOR M x2 y0 XOR M x3 y3;
          z3 = M x0 y3 XOR M x1 y2 XOR M x2 y1 XOR M x3 y0;
          z0 = z0 AND 0x1111111111111111;
          z1 = z1 AND 0x2222222222222222;
          z2 = z2 AND 0x4444444444444444;
          z3 = z3 AND 0x8888888888888888;
          z = z0 OR z1 OR z2 OR z3
      in (ucast (drop_bit 32 z), ucast z))"

text \<open>
  One block: \<open>yw\<close> is multiplied by \<open>hw\<close>, word 0 being the least significant.  The arrays \<open>a\<close> and \<open>b\<close> hold the operands
  of the nine products, then their low and high halves.
\<close>

definition ghash_reduce :: "u32 list \<Rightarrow> u32 list" where
  "ghash_reduce zw =
     fold (\<lambda>i zw.
       let lw = zw ! i;
           zw = zw[i + 4 := zw ! (i + 4) XOR lw XOR drop_bit 1 lw XOR drop_bit 2 lw XOR drop_bit 7 lw]
       in zw[i + 3 := zw ! (i + 3) XOR push_bit 31 lw XOR push_bit 30 lw XOR push_bit 25 lw]) [0..<4] zw"

definition ghash_mul :: "u32 list \<Rightarrow> u32 list \<Rightarrow> u32 list" where
  "ghash_mul yw hw =
     (let a0 = yw ! 0; b0 = hw ! 0; a1 = yw ! 1; b1 = hw ! 1; a2 = a0 XOR a1; b2 = b0 XOR b1;
          a3 = yw ! 2; b3 = hw ! 2; a4 = yw ! 3; b4 = hw ! 3; a5 = a3 XOR a4; b5 = b3 XOR b4;
          a6 = a0 XOR a3; b6 = b0 XOR b3; a7 = a1 XOR a4; b7 = b1 XOR b4; a8 = a6 XOR a7; b8 = b6 XOR b7;
          (b0, a0) = bmul b0 a0; (b1, a1) = bmul b1 a1; (b2, a2) = bmul b2 a2;
          (b3, a3) = bmul b3 a3; (b4, a4) = bmul b4 a4; (b5, a5) = bmul b5 a5;
          (b6, a6) = bmul b6 a6; (b7, a7) = bmul b7 a7; (b8, a8) = bmul b8 a8;
          c0 = a0; c1 = b0 XOR a2 XOR a0 XOR a1; c2 = a1 XOR b2 XOR b0 XOR b1; c3 = b1;
          d0 = a3; d1 = b3 XOR a5 XOR a3 XOR a4; d2 = a4 XOR b5 XOR b3 XOR b4; d3 = b4;
          e0 = a6; e1 = b6 XOR a8 XOR a6 XOR a7; e2 = a7 XOR b8 XOR b6 XOR b7; e3 = b7;
          e0 = e0 XOR (c0 XOR d0); e1 = e1 XOR (c1 XOR d1); e2 = e2 XOR (c2 XOR d2); e3 = e3 XOR (c3 XOR d3);
          c2 = c2 XOR e0; c3 = c3 XOR e1; d0 = d0 XOR e2; d1 = d1 XOR e3;
          zw = [push_bit 1 c0, push_bit 1 c1 OR drop_bit 31 c0, push_bit 1 c2 OR drop_bit 31 c1, push_bit 1 c3 OR drop_bit 31 c2,
                push_bit 1 d0 OR drop_bit 31 c3, push_bit 1 d1 OR drop_bit 31 d0, push_bit 1 d2 OR drop_bit 31 d1,
                push_bit 1 d3 OR drop_bit 31 d2]
      in drop 4 (ghash_reduce zw))"

definition ghash_words :: "u8 list \<Rightarrow> u32 list" where
  "ghash_words b = [br_dec32be (drop 12 b), br_dec32be (drop 8 b), br_dec32be (drop 4 b), br_dec32be b]"

function ghash_loop :: "u32 list \<Rightarrow> u32 list \<Rightarrow> u8 list \<Rightarrow> u32 list" where
  "ghash_loop yw hw buf =
     (if buf = [] then yw
      else
        let src = (if 16 \<le> length buf then take 16 buf else buf @ replicate (16 - length buf) 0);
            yw = map2 (XOR) yw (ghash_words src)
        in ghash_loop (ghash_mul yw hw) hw (drop 16 buf))"
  by pat_completeness auto
termination by (relation "measure (\<lambda>(yw, hw, buf). length buf)") auto

declare ghash_loop.simps [simp del]

definition br_ghash_ctmul :: br_ghash where
  "br_ghash_ctmul y h data =
     (let yw = ghash_loop (ghash_words y) (ghash_words h) data
      in br_enc32be (yw ! 3) @ br_enc32be (yw ! 2) @ br_enc32be (yw ! 1) @ br_enc32be (yw ! 0))"

definition br_aes_small_ctr_vtable :: "br_aes_keys br_block_ctr_class" where
  "br_aes_small_ctr_vtable = \<lparr>ctr_init = br_aes_small_ctr_init, ctr_run = br_aes_small_ctr_run\<rparr>"

subsection \<open>AES in the record layer\<close>

lemma xorbuf_zero: "xorbuf d s n = map2 (XOR) d (xorbuf (replicate (length d) 0) s n)"
  by (intro nth_equalityI) (simp_all add: xorbuf_nth)

lemma aes_run_xor:
  "fst (br_aes_small_ctr_run ctx iv cc d) = map2 (XOR) d (fst (br_aes_small_ctr_run ctx iv cc (replicate (length d) 0)))"
proof (induction "length d" arbitrary: cc d rule: less_induct)
  case less
  let ?tmp = "br_aes_small_encrypt (num_rounds ctx) (skey ctx) (take 12 iv @ br_enc32be cc)"
  consider "d = []" | "d \<noteq> []" "length d \<le> 16" | "16 < length d" by linarith
  then show ?case
  proof cases
    case 1
    then show ?thesis by (simp add: br_aes_small_ctr_run.simps)
  next
    case 2
    then have r: "fst (br_aes_small_ctr_run ctx iv cc b) = xorbuf b ?tmp (length d)" if "length b = length d" for b
      using that by (subst br_aes_small_ctr_run.simps) (auto simp: Let_def)
    show ?thesis unfolding r [OF refl] r [OF length_replicate] by (rule xorbuf_zero)
  next
    case 3
    then have r: "fst (br_aes_small_ctr_run ctx iv cc b) = xorbuf (take 16 b) ?tmp 16 @ fst (br_aes_small_ctr_run ctx iv (cc + 1) (drop 16 b))"
      if "length b = length d" for b
      using that by (subst br_aes_small_ctr_run.simps) (auto simp: Let_def case_prod_unfold)
    have l: "length (drop 16 d) < length d" using 3 by simp
    have z: "take 16 (replicate (length d) 0) = replicate (length (take 16 d)) (0 :: u8)" "drop 16 (replicate (length d) 0) = replicate (length (drop 16 d)) (0 :: u8)"
      using 3 by (simp_all add: min_def)
    let ?a = "xorbuf (replicate (length (take 16 d)) 0) ?tmp 16" and ?b = "fst (br_aes_small_ctr_run ctx iv (cc + 1) (replicate (length (drop 16 d)) 0))"
    have "fst (br_aes_small_ctr_run ctx iv cc d) = map2 (XOR) (take 16 d) ?a @ map2 (XOR) (drop 16 d) ?b"
      unfolding r [OF refl] by (rule arg_cong2 [of _ _ _ _ "(@)", OF xorbuf_zero less [OF l]])
    also have "\<dots> = map2 (XOR) (take 16 d @ drop 16 d) (?a @ ?b)" using 3 by (simp del: append_take_drop_id)
    also have "?a @ ?b = fst (br_aes_small_ctr_run ctx iv cc (replicate (length d) 0))" using r [of "replicate (length d) 0"] unfolding z by simp
    finally show ?thesis by simp
  qed
qed

interpretation aes_gcm: gcm_functions br_aes_small_ctr_run br_ghash_ctmul
proof
  show "length (fst (br_aes_small_ctr_run k iv c d)) = length d" for k iv c d by (rule ctr_run_length)
  show "fst (br_aes_small_ctr_run k iv c d) = map2 (XOR) d (fst (br_aes_small_ctr_run k iv c (replicate (length d) 0)))" for k iv c d
    by (rule aes_run_xor)
  show "length (br_ghash_ctmul y h d) = 16" for y h d by (simp add: br_ghash_ctmul_def Let_def)
qed

end
