(* ===== verification/GhashField.thy ===== *)
theory GhashField
  imports Ghash Complex_Main
begin

section \<open>The multiplication of GHASH\<close>

subsection \<open>Products with holes\<close>

text \<open>A number with digits \<open>f\<close> in base 16.\<close>

lemma digits_less:
  assumes "\<forall>c < n. f c < (16 :: nat)"
  shows "(\<Sum>c < n. f c * 16 ^ c) < 16 ^ n"
  using assms
proof (induction n)
  case (Suc n)
  have "(\<Sum>c < Suc n. f c * 16 ^ c) < 16 ^ n + f n * 16 ^ n" using Suc by simp
  also have "\<dots> = (f n + 1) * 16 ^ n" by simp
  also have "\<dots> \<le> 16 * 16 ^ n" using Suc.prems by (intro mult_le_mono1) (use Suc.prems in auto)
  finally show ?case by simp
qed simp

lemma bit_less_exp: "n < 2 ^ m \<Longrightarrow> bit (n :: nat) i \<Longrightarrow> i < m"
  by (metis bit_take_bit_iff take_bit_nat_eq_self_iff)

lemma bit_digits:
  assumes "\<forall>c < n. f c < (16 :: nat)" "s < 4"
  shows "bit (\<Sum>c < n. f c * 16 ^ c) (4 * k + s) = (k < n \<and> bit (f k) s)"
  using assms(1)
proof (induction n)
  case (Suc n)
  let ?d = "\<Sum>c < n. f c * 16 ^ c"
  have p: "(16 :: nat) ^ n = 2 ^ (4 * n)" by (simp add: power_mult)
  have l: "?d < 2 ^ (4 * n)" using digits_less [of n f] Suc.prems unfolding p [symmetric] by simp
  have "\<not> bit ?d i \<or> \<not> bit (push_bit (4 * n) (f n)) i" for i
    using bit_less_exp [OF l, of i] by (auto simp: bit_push_bit_iff)
  then have "?d + push_bit (4 * n) (f n) = ?d OR push_bit (4 * n) (f n)" by (intro disjunctive_add) simp
  then have e: "(\<Sum>c < Suc n. f c * 16 ^ c) = ?d OR push_bit (4 * n) (f n)" by (simp add: p push_bit_eq_mult)
  have fn: "bit (f n) j \<Longrightarrow> j < 4" for j using bit_less_exp [of "f n" 4 j] Suc.prems by simp
  show ?case
  proof (cases "k = n")
    case True
    then show ?thesis using Suc assms(2) unfolding e by (simp add: bit_or_iff bit_push_bit_iff)
  next
    case False
    have "\<not> bit (push_bit (4 * n) (f n)) (4 * k + s)"
    proof
      assume "bit (push_bit (4 * n) (f n)) (4 * k + s)"
      then have "4 * n \<le> 4 * k + s" "4 * k + s - 4 * n < 4" using fn by (auto simp: bit_push_bit_iff)
      then show False using False assms(2) by linarith
    qed
    then show ?thesis using Suc False unfolding e by (auto simp: bit_or_iff)
  qed
qed simp

text \<open>The bits of a word at distance four, as such digits.\<close>

definition holes :: "u32 \<Rightarrow> nat \<Rightarrow> nat \<Rightarrow> nat" where
  "holes x p i = of_bool (bit x (4 * i + p))"

lemma holes_zero: "p < 4 \<Longrightarrow> 7 < i \<Longrightarrow> holes x p i = 0"
  by (auto simp: holes_def dest: bit_imp_le_length)

definition hole_mask :: "nat \<Rightarrow> 'a :: len word" where
  "hole_mask p = (if p = 0 then 0x1111111111111111 else if p = 1 then 0x2222222222222222
     else if p = 2 then 0x4444444444444444 else 0x8888888888888888)"

lemma upt_from_two: "2 < n \<Longrightarrow> [0..<n] = 0 # 1 # [2..<n]"
  by (simp add: upt_conv_Cons numeral_2_eq_2)

lemma bit_hole_masks:
  "\<forall>p \<in> set [0, 1, 2, 3]. \<forall>n \<in> set [0..<32]. bit (hole_mask p :: u32) n = (n mod 4 = p)"
  "\<forall>p \<in> set [0, 1, 2, 3]. \<forall>n \<in> set [0..<64]. bit (hole_mask p :: u64) n = (n mod 4 = p)"
  by (simp_all only: upt_from_two) (simp_all add: hole_mask_def)

lemma bit_hole_mask:
  assumes "p < 4"
  shows "bit (hole_mask p :: u32) n = (n < 32 \<and> n mod 4 = p)" "bit (hole_mask p :: u64) n = (n < 64 \<and> n mod 4 = p)"
proof -
  have p: "p \<in> set [0, 1, 2, 3]" using assms by auto
  show "bit (hole_mask p :: u32) n = (n < 32 \<and> n mod 4 = p)"
    using bit_hole_masks(1) [rule_format, OF p, of n] bit_imp_le_length [of "hole_mask p :: u32" n] by auto
  show "bit (hole_mask p :: u64) n = (n < 64 \<and> n mod 4 = p)"
    using bit_hole_masks(2) [rule_format, OF p, of n] bit_imp_le_length [of "hole_mask p :: u64" n] by auto
qed

lemma hole_mask_values:
  "hole_mask 0 = (0x11111111 :: u32)" "hole_mask 1 = (0x22222222 :: u32)" "hole_mask 2 = (0x44444444 :: u32)" "hole_mask 3 = (0x88888888 :: u32)"
  "hole_mask 0 = (0x1111111111111111 :: u64)" "hole_mask 1 = (0x2222222222222222 :: u64)"
  "hole_mask 2 = (0x4444444444444444 :: u64)" "hole_mask 3 = (0x8888888888888888 :: u64)"
  by (simp_all add: hole_mask_def word_eq_iff_unsigned)

lemma masked_digits:
  assumes "p < 4"
  shows "unat (x AND hole_mask p :: u32) = 2 ^ p * (\<Sum>i < 8. holes x p i * 16 ^ i)"
proof -
  let ?d = "\<Sum>i < 8. holes x p i * 16 ^ i"
  have b: "bit ?d (4 * k + s) = (k < 8 \<and> s = 0 \<and> bit x (4 * k + p))" if "s < 4" for k s
  proof -
    have "bit ?d (4 * k + s) = (k < 8 \<and> bit (holes x p k) s)"
      using that by (intro bit_digits) (simp_all add: holes_def)
    then show ?thesis unfolding holes_def bit_of_bool_iff by blast
  qed
  have "unat (x AND hole_mask p) = push_bit p ?d"
  proof (rule bit_eqI)
    fix n
    show "bit (unat (x AND hole_mask p)) n = bit (push_bit p ?d) n"
    proof (cases "p \<le> n")
      case True
      obtain k s where n: "n = p + (4 * k + s)" and s: "s < 4"
        using that [of "(n - p) div 4" "(n - p) mod 4"] True by simp
      have m: "n mod 4 = p \<longleftrightarrow> s = 0" using assms s unfolding n by presburger
      have "n < 32 \<longleftrightarrow> k < 8" if "s = 0" using assms unfolding n that by linarith
      then have "bit (unat (x AND hole_mask p)) n = (k < 8 \<and> s = 0 \<and> bit x n)"
        using m bit_imp_le_length [of x n] by (auto simp: bit_unsigned_iff bit_and_iff bit_hole_mask [OF assms])
      moreover have "bit (push_bit p ?d) n = bit ?d (4 * k + s)" by (simp add: bit_push_bit_iff n)
      moreover have "n = 4 * k + p" if "s = 0" using n that by simp
      ultimately show ?thesis unfolding b [OF s] by auto
    next
      case False
      then have "n mod 4 \<noteq> p" using assms by simp
      then show ?thesis using False by (simp add: bit_unsigned_iff bit_and_iff bit_hole_mask [OF assms] bit_push_bit_iff)
    qed
  qed
  then show ?thesis by (simp add: push_bit_eq_mult)
qed

text \<open>A product of two such words: the digits are the coefficients of the product of polynomials, at most 8.\<close>

definition conv :: "u32 \<Rightarrow> u32 \<Rightarrow> nat \<Rightarrow> nat \<Rightarrow> nat \<Rightarrow> nat" where
  "conv x y p q k = (\<Sum>i \<le> k. holes x p i * holes y q (k - i))"

lemma conv_digit:
  assumes "p < 4"
  shows "conv x y p q k < 16"
proof -
  have "conv x y p q k \<le> (\<Sum>i \<le> k. of_bool (i < 8))"
    unfolding conv_def by (rule sum_mono) (use holes_zero [OF assms, of _ x] in \<open>auto simp: holes_def\<close>)
  also have "\<dots> = card ({..k} \<inter> {i. i < 8})" unfolding of_bool_def by (simp add: sum.If_cases)
  also have "\<dots> \<le> card {..<8 :: nat}" by (rule card_mono) auto
  finally show ?thesis by simp
qed

lemma product_digits:
  assumes "p < 4" "q < 4"
  shows "unat (M (x AND hole_mask p) (y AND hole_mask q)) = push_bit (p + q) (\<Sum>k < 15. conv x y p q k * 16 ^ k)"
proof -
  have "unat (x AND hole_mask p) < 2 ^ 32" "unat (y AND hole_mask q) < 2 ^ 32"
    using unsigned_less [of "x AND hole_mask p"] unsigned_less [of "y AND hole_mask q"] by simp_all
  then have "unat (x AND hole_mask p) * unat (y AND hole_mask q) < 2 ^ 64"
    using mult_strict_mono [of "unat (x AND hole_mask p)" "2 ^ 32" "unat (y AND hole_mask q)" "2 ^ 32"] by simp
  then have "unat (M (x AND hole_mask p) (y AND hole_mask q)) = unat (x AND hole_mask p) * unat (y AND hole_mask q)"
    by (simp add: unat_word_ariths(2) unsigned_ucast_eq take_bit_nat_eq_self unsigned_less [THEN order_less_le_trans])
  also have "\<dots> = 2 ^ (p + q) * ((\<Sum>i < 8. holes x p i * 16 ^ i) * (\<Sum>i < 8. holes y q i * 16 ^ i))"
    unfolding masked_digits [OF assms(1)] masked_digits [OF assms(2)] by (simp add: power_add)
  also have "(\<Sum>i < 8. holes x p i * 16 ^ i) * (\<Sum>i < 8. holes y q i * 16 ^ i) = (\<Sum>k < 15. conv x y p q k * 16 ^ k)"
  proof -
    have "{..<8} = {..7 :: nat}" "{..<15} = {..7 + 7 :: nat}" by auto
    then show ?thesis unfolding conv_def
      using polynomial_product_nat [of 7 "holes x p" 7 "holes y q" 16] holes_zero [OF assms(1)] holes_zero [OF assms(2)] by simp
  qed
  finally show ?thesis by (simp add: push_bit_eq_mult)
qed

lemma product_bit:
  assumes "p < 4" "q < 4"
  shows "bit (M (x AND hole_mask p) (y AND hole_mask q)) (p + q + 4 * k) = odd (conv x y p q k)"
proof -
  let ?d = "\<Sum>k < 15. conv x y p q k * 16 ^ k"
  have z: "conv x y p q k = 0" if "15 \<le> k"
    unfolding conv_def
  proof (rule sum.neutral, rule ballI)
    fix i assume "i \<in> {..k}"
    then have "7 < i \<or> 7 < k - i" using that by auto
    then show "holes x p i * holes y q (k - i) = 0" using holes_zero [OF assms(1)] holes_zero [OF assms(2)] by auto
  qed
  have "bit (M (x AND hole_mask p) (y AND hole_mask q)) (p + q + 4 * k) = bit (push_bit (p + q) ?d) (p + q + 4 * k)"
    unfolding product_digits [OF assms(1,2), symmetric] by (auto simp: bit_unsigned_iff dest: bit_imp_le_length)
  also have "\<dots> = bit ?d (4 * k + 0)" by (simp add: bit_push_bit_iff)
  also have "\<dots> = (k < 15 \<and> bit (conv x y p q k) 0)" by (rule bit_digits) (simp_all add: conv_digit [OF assms(1)])
  finally show ?thesis using z by (auto simp: bit_0)
qed

lemma product_low:
  assumes "p < 4" "q < 4" "n < p + q"
  shows "\<not> bit (M (x AND hole_mask p) (y AND hole_mask q)) n"
proof -
  have "bit (M (x AND hole_mask p) (y AND hole_mask q)) n = bit (unat (M (x AND hole_mask p) (y AND hole_mask q))) n"
    by (auto simp: bit_unsigned_iff dest: bit_imp_le_length)
  then show ?thesis unfolding product_digits [OF assms(1,2)] using assms(3) by (simp add: bit_push_bit_iff)
qed

subsection \<open>The carry-less product\<close>

definition cl :: "u32 \<Rightarrow> u32 \<Rightarrow> nat \<Rightarrow> nat" where
  "cl x y n = (\<Sum>i \<le> n. of_bool (bit x i \<and> bit y (n - i)))"

lemma four_times:
  fixes g :: "nat \<Rightarrow> nat"
  shows "(\<Sum>i < 4 * n. g i) = (\<Sum>a < n. g (4 * a) + g (4 * a + 1) + g (4 * a + 2) + g (4 * a + 3))"
proof (induction n)
  case (Suc n)
  have "4 * Suc n = Suc (Suc (Suc (Suc (4 * n))))" by simp
  then show ?case using Suc by (simp only: sum.lessThan_Suc) (simp add: eval_nat_numeral)
qed simp

definition cl_part :: "u32 \<Rightarrow> u32 \<Rightarrow> nat \<Rightarrow> nat \<Rightarrow> nat \<Rightarrow> nat" where
  "cl_part x y r p k = (if p \<le> r then conv x y p (r - p) k else if k = 0 then 0 else conv x y p (r + 4 - p) (k - 1))"

lemma cl_split:
  assumes "r < 4"
  shows "cl x y (4 * k + r) = cl_part x y r 0 k + cl_part x y r 1 k + cl_part x y r 2 k + cl_part x y r 3 k"
proof -
  define g where "g i = (of_bool (i \<le> 4 * k + r \<and> bit x i \<and> bit y (4 * k + r - i)) :: nat)" for i
  have part: "(\<Sum>a < Suc k. g (4 * a + p)) = cl_part x y r p k" if p: "p < 4" for p
  proof (cases "p \<le> r")
    case True
    have "g (4 * a + p) = holes x p a * holes y (r - p) (k - a)" if "a < Suc k" for a
    proof -
      have "4 * a + p \<le> 4 * k + r" "4 * k + r - (4 * a + p) = 4 * (k - a) + (r - p)" using that True by auto
      then show ?thesis by (simp add: g_def holes_def)
    qed
    then show ?thesis unfolding cl_part_def conv_def lessThan_Suc_atMost using True by simp
  next
    case False
    have z: "g (4 * k + p) = 0" using False by (simp add: g_def)
    show ?thesis
    proof (cases k)
      case 0
      then show ?thesis using z False by (simp add: cl_part_def)
    next
      case (Suc j)
      have "g (4 * a + p) = holes x p a * holes y (r + 4 - p) (j - a)" if "a < Suc j" for a
      proof -
        have "4 * a + p \<le> 4 * k + r" "4 * k + r - (4 * a + p) = 4 * (j - a) + (r + 4 - p)" using that False p Suc by auto
        then show ?thesis by (simp add: g_def holes_def)
      qed
      then have "(\<Sum>a < Suc j. g (4 * a + p)) = conv x y p (r + 4 - p) j" unfolding conv_def lessThan_Suc_atMost by simp
      then show ?thesis using z False Suc by (simp add: cl_part_def)
    qed
  qed
  have "cl x y (4 * k + r) = (\<Sum>i \<le> 4 * k + r. g i)" unfolding cl_def g_def by simp
  also have "\<dots> = (\<Sum>i < 4 * Suc k. g i)"
    by (rule sum.mono_neutral_left) (use assms in \<open>auto simp: g_def\<close>)
  also have "\<dots> = (\<Sum>a < Suc k. g (4 * a + 0)) + (\<Sum>a < Suc k. g (4 * a + 1)) + (\<Sum>a < Suc k. g (4 * a + 2)) + (\<Sum>a < Suc k. g (4 * a + 3))"
    unfolding four_times by (simp only: sum.distrib add_0_right)
  finally show ?thesis using part [of 0] part [of 1] part [of 2] part [of 3] by simp
qed

lemma product_part:
  assumes "r < 4" "p < 4" "q = (if p \<le> r then r - p else r + 4 - p)"
  shows "bit (M (x AND hole_mask p) (y AND hole_mask q)) (4 * k + r) = odd (cl_part x y r p k)"
proof -
  consider "p \<le> r" | "r < p" "k = 0" | j where "r < p" "k = Suc j" by (cases "p \<le> r"; cases k; simp)
  then show ?thesis
  proof cases
    case 1
    then have "4 * k + r = p + q + 4 * k" "q < 4" using assms by auto
    then show ?thesis using product_bit [of p q x y k] assms 1 by (simp add: cl_part_def add.commute)
  next
    case 2
    then have "4 * k + r < p + q" "q < 4" using assms by auto
    then show ?thesis using product_low [of p q "4 * k + r" x y] assms 2 by (simp add: cl_part_def)
  next
    case 3
    then have "4 * k + r = p + q + 4 * j" "q < 4" using assms by auto
    then show ?thesis using product_bit [of p q x y j] assms 3 by (simp add: cl_part_def ac_simps)
  qed
qed

definition hole_sum :: "u32 \<Rightarrow> u32 \<Rightarrow> nat \<Rightarrow> nat \<Rightarrow> nat \<Rightarrow> nat \<Rightarrow> u64" where
  "hole_sum x y q0 q1 q2 q3 =
     M (x AND hole_mask 0) (y AND hole_mask q0) XOR M (x AND hole_mask 1) (y AND hole_mask q1)
     XOR M (x AND hole_mask 2) (y AND hole_mask q2) XOR M (x AND hole_mask 3) (y AND hole_mask q3)"

lemma hole_sum_bit:
  assumes "r < 4" "q0 = r" "q1 = (if 1 \<le> r then r - 1 else 3)" "q2 = (if 2 \<le> r then r - 2 else r + 2)" "q3 = (if 3 \<le> r then r - 3 else r + 1)"
  shows "bit (hole_sum x y q0 q1 q2 q3 AND hole_mask r) n = (n < 64 \<and> n mod 4 = r \<and> odd (cl x y n))"
proof (cases "n mod 4 = r")
  case True
  then have n: "n = 4 * (n div 4) + r" using mult_div_mod_eq [of 4 n] by simp
  have "bit (hole_sum x y q0 q1 q2 q3) (4 * k + r) = odd (cl x y (4 * k + r))" for k
  proof -
    have "bit (M (x AND hole_mask 0) (y AND hole_mask q0)) (4 * k + r) = odd (cl_part x y r 0 k)"
      "bit (M (x AND hole_mask 1) (y AND hole_mask q1)) (4 * k + r) = odd (cl_part x y r 1 k)"
      "bit (M (x AND hole_mask 2) (y AND hole_mask q2)) (4 * k + r) = odd (cl_part x y r 2 k)"
      "bit (M (x AND hole_mask 3) (y AND hole_mask q3)) (4 * k + r) = odd (cl_part x y r 3 k)"
      by (rule product_part; use assms in simp)+
    then show ?thesis unfolding hole_sum_def bit_xor_iff cl_split [OF assms(1)] by (simp only: even_add) blast
  qed
  from this [of "n div 4"] show ?thesis unfolding n [symmetric] using True by (simp add: bit_and_iff bit_hole_mask [OF assms(1)] conj_ac)
next
  case False
  then show ?thesis by (simp add: bit_and_iff bit_hole_mask [OF assms(1)])
qed

definition bmul_word :: "u32 \<Rightarrow> u32 \<Rightarrow> u64" where
  "bmul_word x y =
     hole_sum x y 0 3 2 1 AND hole_mask 0 OR hole_sum x y 1 0 3 2 AND hole_mask 1
     OR hole_sum x y 2 1 0 3 AND hole_mask 2 OR hole_sum x y 3 2 1 0 AND hole_mask 3"

lemma bmul_word: "bmul x y = (ucast (drop_bit 32 (bmul_word x y)), ucast (bmul_word x y))"
  by (simp only: bmul_def bmul_word_def hole_sum_def hole_mask_values Let_def)

lemma bmul_bit: "bit (bmul_word x y) n = (n < 64 \<and> odd (cl x y n))"
proof -
  have h: "bit (hole_sum x y 0 3 2 1 AND hole_mask 0) n = (n < 64 \<and> n mod 4 = 0 \<and> odd (cl x y n))"
    "bit (hole_sum x y 1 0 3 2 AND hole_mask 1) n = (n < 64 \<and> n mod 4 = 1 \<and> odd (cl x y n))"
    "bit (hole_sum x y 2 1 0 3 AND hole_mask 2) n = (n < 64 \<and> n mod 4 = 2 \<and> odd (cl x y n))"
    "bit (hole_sum x y 3 2 1 0 AND hole_mask 3) n = (n < 64 \<and> n mod 4 = 3 \<and> odd (cl x y n))"
    by (rule hole_sum_bit; simp)+
  have "n mod 4 < 4" by simp
  then have c: "n mod 4 = 0 \<or> n mod 4 = 1 \<or> n mod 4 = 2 \<or> n mod 4 = 3" by linarith
  then show ?thesis unfolding bmul_word_def bit_or_iff h by blast
qed

text \<open>Its two laws: it is additive in both operands, and a power of two shifts.\<close>

lemma odd_sum_xor:
  "odd (\<Sum>i \<in> A. of_bool (f i \<noteq> g i) :: nat) = (odd (\<Sum>i \<in> A. of_bool (f i) :: nat) \<noteq> odd (\<Sum>i \<in> A. of_bool (g i) :: nat))"
proof (induction A rule: infinite_finite_induct)
  case (insert a A)
  then show ?case by (cases "f a"; cases "g a") (simp_all del: sum_of_bool_eq)
qed (simp_all del: sum_of_bool_eq)

lemma bmul_word_xor:
  "bmul_word (x XOR x') y = bmul_word x y XOR bmul_word x' y"
  "bmul_word x (y XOR y') = bmul_word x y XOR bmul_word x y'"
proof -
  have "odd (cl (x XOR x') y n) = (odd (cl x y n) \<noteq> odd (cl x' y n))" for n
    unfolding cl_def odd_sum_xor [symmetric] bit_xor_iff by (rule arg_cong [of _ _ odd], rule sum.cong) auto
  then show "bmul_word (x XOR x') y = bmul_word x y XOR bmul_word x' y"
    by (intro bit_word_eqI) (auto simp: bmul_bit bit_xor_iff)
  have "odd (cl x (y XOR y') n) = (odd (cl x y n) \<noteq> odd (cl x y' n))" for n
    unfolding cl_def odd_sum_xor [symmetric] bit_xor_iff by (rule arg_cong [of _ _ odd], rule sum.cong) auto
  then show "bmul_word x (y XOR y') = bmul_word x y XOR bmul_word x y'"
    by (intro bit_word_eqI) (auto simp: bmul_bit bit_xor_iff)
qed

lemma bmul_word_shift:
  assumes "j < 32"
  shows "bmul_word x (push_bit j 1) = push_bit j (ucast x)"
proof (rule bit_word_eqI)
  fix n assume n: "n < LENGTH(64)"
  have "cl x (push_bit j 1) n = (\<Sum>i \<le> n. of_bool (i = n - j) * of_bool (j \<le> n \<and> bit x (n - j)))"
    unfolding cl_def by (rule sum.cong) (use assms in \<open>auto simp: bit_push_bit_iff bit_1_iff dest: bit_imp_le_length simp del: push_bit_of_1\<close>)
  also have "\<dots> = of_bool (j \<le> n \<and> bit x (n - j))" by (simp add: of_bool_def if_distrib [of "\<lambda>c. c * _"] sum.delta cong: if_cong)
  finally show "bit (bmul_word x (push_bit j 1)) n = bit (push_bit j (ucast x) :: u64) n"
    using n by (auto simp: bmul_bit bit_push_bit_iff bit_unsigned_iff)
qed

subsection \<open>Lists of 32-bit words as one word\<close>

fun pack :: "u32 list \<Rightarrow> 'a :: len word" where
  "pack [] = 0"
| "pack (w # ws) = ucast w OR push_bit 32 (pack ws)"

definition unpack :: "nat \<Rightarrow> 'a :: len word \<Rightarrow> u32 list" where
  "unpack k W = map (\<lambda>i. ucast (drop_bit (32 * i) W)) [0..<k]"

lemma bit_pack:
  "bit (pack ws :: 'a :: len word) n = (n < LENGTH('a) \<and> n div 32 < length ws \<and> bit (ws ! (n div 32)) (n mod 32))"
proof (induction ws arbitrary: n)
  case (Cons w ws)
  show ?case
  proof (cases "n < 32")
    case True
    then show ?thesis by (auto simp: bit_or_iff bit_push_bit_iff bit_unsigned_iff)
  next
    case False
    then have "n div 32 = Suc ((n - 32) div 32)" "n mod 32 = (n - 32) mod 32" by (simp_all add: le_div_geq le_mod_geq)
    then show ?thesis using False Cons [of "n - 32"] bit_imp_le_length [of w n]
      by (auto simp: bit_or_iff bit_push_bit_iff bit_unsigned_iff)
  qed
qed simp

lemma unpack_length [simp]: "length (unpack k W) = k"
  by (simp add: unpack_def)

lemma unpack_nth [simp]: "i < k \<Longrightarrow> unpack k W ! i = ucast (drop_bit (32 * i) W)"
  by (simp add: unpack_def)

lemma unpack_pack:
  assumes "length ws = k" "32 * k \<le> LENGTH('a :: len)"
  shows "unpack k (pack ws :: 'a word) = ws"
proof (rule nth_equalityI)
  fix i assume i: "i < length (unpack k (pack ws :: 'a word))"
  show "unpack k (pack ws :: 'a word) ! i = ws ! i"
  proof (rule bit_word_eqI)
    fix n assume "n < LENGTH(32)"
    then show "bit (unpack k (pack ws :: 'a word) ! i) n = bit (ws ! i) n"
      using i assms by (auto simp: bit_unsigned_iff bit_drop_bit_eq bit_pack)
  qed
qed (simp add: assms)

lemma pack_unpack:
  assumes "LENGTH('a :: len) = 32 * k"
  shows "pack (unpack k W) = (W :: 'a word)"
proof (rule bit_word_eqI)
  fix n assume "n < LENGTH('a)"
  then show "bit (pack (unpack k W) :: 'a word) n = bit W n"
    using assms by (auto simp: bit_pack bit_unsigned_iff bit_drop_bit_eq mult_div_mod_eq)
qed

lemma pack_xor: "length a = length b \<Longrightarrow> pack (map2 (XOR) a b) = (pack a XOR pack b :: 'a :: len word)"
  by (rule bit_word_eqI) (auto simp: bit_xor_iff bit_pack)

lemma unpack_xor: "unpack k (V XOR W) = map2 (XOR) (unpack k V) (unpack k W)"
  by (rule nth_equalityI) (auto intro!: bit_word_eqI simp: bit_xor_iff bit_unsigned_iff bit_drop_bit_eq)

lemma unpack_shift:
  assumes "32 * Suc k \<le> LENGTH('a :: len)" "i < Suc k"
  shows "unpack (Suc k) (push_bit 1 (W :: 'a word)) ! i =
     push_bit 1 (ucast (drop_bit (32 * i) W)) OR (if i = 0 then 0 else drop_bit 31 (ucast (drop_bit (32 * (i - 1)) W)))"
proof (rule bit_word_eqI)
  fix n assume n: "n < LENGTH(32)"
  show "bit (unpack (Suc k) (push_bit 1 W) ! i) n = bit (push_bit 1 (ucast (drop_bit (32 * i) W)) OR
      (if i = 0 then 0 else drop_bit 31 (ucast (drop_bit (32 * (i - 1)) W) :: u32))) n"
    using n assms by (cases i; cases n)
      (auto simp: bit_push_bit_iff bit_or_iff bit_drop_bit_eq bit_unsigned_iff ac_simps simp del: One_nat_def push_bit_Suc)
qed

subsection \<open>The multiplication of the source\<close>

definition lo :: "u32 \<Rightarrow> u32 \<Rightarrow> u32" where "lo x y = ucast (bmul_word x y)"

definition hi :: "u32 \<Rightarrow> u32 \<Rightarrow> u32" where "hi x y = ucast (drop_bit 32 (bmul_word x y))"

lemma lo_hi_xor:
  "lo (x XOR x') y = lo x y XOR lo x' y" "lo x (y XOR y') = lo x y XOR lo x y'"
  "hi (x XOR x') y = hi x y XOR hi x' y" "hi x (y XOR y') = hi x y XOR hi x y'"
  unfolding lo_def hi_def bmul_word_xor by (simp_all add: bit_eq_iff bit_simps)

text \<open>Karatsuba's nine products give the words of the product of polynomials.\<close>

definition karatsuba :: "u32 list \<Rightarrow> u32 list \<Rightarrow> u32 list" where
  "karatsuba yw hw =
     (let a0 = yw ! 0; b0 = hw ! 0; a1 = yw ! 1; b1 = hw ! 1; a2 = a0 XOR a1; b2 = b0 XOR b1;
          a3 = yw ! 2; b3 = hw ! 2; a4 = yw ! 3; b4 = hw ! 3; a5 = a3 XOR a4; b5 = b3 XOR b4;
          a6 = a0 XOR a3; b6 = b0 XOR b3; a7 = a1 XOR a4; b7 = b1 XOR b4; a8 = a6 XOR a7; b8 = b6 XOR b7;
          c0 = lo b0 a0; c1 = hi b0 a0 XOR lo b2 a2 XOR lo b0 a0 XOR lo b1 a1;
          c2 = lo b1 a1 XOR hi b2 a2 XOR hi b0 a0 XOR hi b1 a1; c3 = hi b1 a1;
          d0 = lo b3 a3; d1 = hi b3 a3 XOR lo b5 a5 XOR lo b3 a3 XOR lo b4 a4;
          d2 = lo b4 a4 XOR hi b5 a5 XOR hi b3 a3 XOR hi b4 a4; d3 = hi b4 a4;
          e0 = lo b6 a6 XOR (c0 XOR d0); e1 = (hi b6 a6 XOR lo b8 a8 XOR lo b6 a6 XOR lo b7 a7) XOR (c1 XOR d1);
          e2 = (lo b7 a7 XOR hi b8 a8 XOR hi b6 a6 XOR hi b7 a7) XOR (c2 XOR d2); e3 = hi b7 a7 XOR (c3 XOR d3)
      in [c0, c1, c2 XOR e0, c3 XOR e1, d0 XOR e2, d1 XOR e3, d2, d3])"

definition shift8 :: "u32 list \<Rightarrow> u32 list" where
  "shift8 p = map (\<lambda>i. push_bit 1 (p ! i) OR (if i = 0 then 0 else drop_bit 31 (p ! (i - 1)))) [0..<8]"

lemma upt8: "[0..<8] = [0, 1, 2, 3, 4, 5, 6, 7 :: nat]"
  by (simp add: upt_rec)

lemma ghash_mul_karatsuba: "ghash_mul yw hw = drop 4 (ghash_reduce (shift8 (karatsuba yw hw)))"
proof -
  have b: "bmul x y = (hi x y, lo x y)" for x y by (simp add: bmul_word lo_def hi_def)
  have s: "shift8 [c0, c1, c2, c3, d0, d1, d2, d3] =
      [push_bit 1 c0, push_bit 1 c1 OR drop_bit 31 c0, push_bit 1 c2 OR drop_bit 31 c1, push_bit 1 c3 OR drop_bit 31 c2,
       push_bit 1 d0 OR drop_bit 31 c3, push_bit 1 d1 OR drop_bit 31 d0, push_bit 1 d2 OR drop_bit 31 d1, push_bit 1 d3 OR drop_bit 31 d2]"
    for c0 c1 c2 c3 d0 d1 d2 d3 unfolding shift8_def upt8 by (simp add: numeral_eq_Suc del: push_bit_Suc)
  show ?thesis unfolding ghash_mul_def karatsuba_def Let_def b prod.case s ..
qed

lemma karatsuba_schoolbook:
  "karatsuba [y0, y1, y2, y3] [h0, h1, h2, h3] =
     [lo h0 y0, hi h0 y0 XOR lo h1 y0 XOR lo h0 y1, hi h1 y0 XOR hi h0 y1 XOR lo h2 y0 XOR lo h1 y1 XOR lo h0 y2,
      hi h2 y0 XOR hi h1 y1 XOR hi h0 y2 XOR lo h3 y0 XOR lo h2 y1 XOR lo h1 y2 XOR lo h0 y3,
      hi h3 y0 XOR hi h2 y1 XOR hi h1 y2 XOR hi h0 y3 XOR lo h3 y1 XOR lo h2 y2 XOR lo h1 y3,
      hi h3 y1 XOR hi h2 y2 XOR hi h1 y3 XOR lo h3 y2 XOR lo h2 y3, hi h3 y2 XOR hi h2 y3 XOR lo h3 y3, hi h3 y3]"
  unfolding karatsuba_def Let_def
  by (simp add: lo_hi_xor xor_cancel xor.assoc xor.left_commute xor.commute)

subsection \<open>The field of SP 800-38D\<close>

type_synonym u128 = "128 word"

text \<open>Multiplication by the polynomial \<open>x\<close>: blocks have the coefficient of \<open>x\<^sup>0\<close> in their most significant bit.\<close>

definition gcm_x :: "u128 \<Rightarrow> u128" where
  "gcm_x V = drop_bit 1 V XOR (if bit V 0 then push_bit 120 0xE1 else 0)"

definition gcm_mult :: "u128 \<Rightarrow> u128 \<Rightarrow> u128" where
  "gcm_mult X Y = fst (fold (\<lambda>i (Z, V). (if bit X (127 - i) then Z XOR V else Z, gcm_x V)) [0..<128] (0, Y))"

definition linear_word :: "('a :: len word \<Rightarrow> 'b :: len word) \<Rightarrow> bool" where
  "linear_word f \<longleftrightarrow> (\<forall>a b. f (a XOR b) = f a XOR f b)"

lemma linear_word_zero: "linear_word f \<Longrightarrow> f 0 = 0"
  unfolding linear_word_def by (metis xor_self_eq)

lemma linear_word_ext:
  fixes f g :: "'a :: len word \<Rightarrow> 'b :: len word"
  assumes "linear_word f" "linear_word g" "\<And>i. i < LENGTH('a) \<Longrightarrow> f (push_bit i 1) = g (push_bit i 1)"
  shows "f b = g b"
proof -
  have e: "k \<le> LENGTH('a) \<Longrightarrow> f (take_bit k b) = g (take_bit k b)" for k
  proof (induction k)
    case (Suc k)
    have "take_bit (Suc k) b = take_bit k b XOR (if bit b k then push_bit k 1 else 0)"
      by (rule bit_word_eqI) (auto simp: bit_simps less_Suc_eq simp del: push_bit_of_1)
    then show ?case using Suc assms(3) [of k] assms(1,2) linear_word_zero [OF assms(1)] linear_word_zero [OF assms(2)]
      by (simp add: linear_word_def)
  qed (simp add: linear_word_zero [OF assms(1)] linear_word_zero [OF assms(2)])
  have "take_bit LENGTH('a) b = b" by (rule take_bit_word_eq_self) simp
  then show ?thesis using e [of "LENGTH('a)"] by simp
qed

lemma linear_word_comp: "linear_word f \<Longrightarrow> linear_word g \<Longrightarrow> linear_word (\<lambda>b. f (g b))"
  by (simp add: linear_word_def)

lemma linear_gcm_x: "linear_word gcm_x"
  unfolding linear_word_def gcm_x_def by (auto simp: drop_bit_xor bit_xor_iff xor.assoc xor.commute xor.left_commute xor_cancel)

definition gcm_sum :: "nat \<Rightarrow> u128 \<Rightarrow> u128 \<Rightarrow> u128" where
  "gcm_sum n X Y = fold (\<lambda>i Z. Z XOR (if bit X (127 - i) then (gcm_x ^^ i) Y else 0)) [0..<n] 0"

lemma gcm_mult_sum: "gcm_mult X Y = gcm_sum 128 X Y"
proof -
  have "fold (\<lambda>i (Z, V). (if bit X (127 - i) then Z XOR V else Z, gcm_x V)) [0..<n] (0, Y) = (gcm_sum n X Y, (gcm_x ^^ n) Y)" for n
    by (induction n) (simp_all add: gcm_sum_def)
  then show ?thesis by (simp add: gcm_mult_def)
qed

lemma linear_gcm_mult: "linear_word (\<lambda>X. gcm_mult X Y)"
proof -
  have "gcm_sum n (X XOR X') Y = gcm_sum n X Y XOR gcm_sum n X' Y" for n X X'
    by (induction n) (auto simp: gcm_sum_def bit_xor_iff xor.assoc xor.commute xor.left_commute xor_cancel)
  then show ?thesis by (simp add: linear_word_def gcm_mult_sum)
qed

lemma gcm_mult_basis: "j < 128 \<Longrightarrow> gcm_mult (push_bit j 1) Y = (gcm_x ^^ (127 - j)) Y"
proof -
  assume j: "j < 128"
  have "n \<le> 128 \<Longrightarrow> gcm_sum n (push_bit j 1) Y = (if 127 - j < n then (gcm_x ^^ (127 - j)) Y else 0)" for n
  proof (induction n)
    case (Suc n)
    have "bit (push_bit j 1 :: u128) (127 - n) = (n = 127 - j)"
      using j Suc.prems by (auto simp: bit_push_bit_iff bit_1_iff simp del: push_bit_of_1)
    then show ?case using Suc by (auto simp: gcm_sum_def less_Suc_eq simp del: push_bit_of_1)
  qed (simp add: gcm_sum_def)
  moreover have "127 - j < 128" by simp
  ultimately show ?thesis unfolding gcm_mult_sum by (simp only: order_refl if_True)
qed

subsection \<open>The reduction\<close>

definition reduce_step :: "nat \<Rightarrow> u32 list \<Rightarrow> u32 list" where
  "reduce_step i zw =
     (let lw = zw ! i;
          zw = zw[i + 4 := zw ! (i + 4) XOR lw XOR drop_bit 1 lw XOR drop_bit 2 lw XOR drop_bit 7 lw]
      in zw[i + 3 := zw ! (i + 3) XOR push_bit 31 lw XOR push_bit 30 lw XOR push_bit 25 lw])"

lemma reduce_steps: "ghash_reduce zw = fold reduce_step [0..<4] zw"
  unfolding ghash_reduce_def reduce_step_def ..

lemma reduce_step_length [simp]: "length (reduce_step i zw) = length zw"
  by (simp add: reduce_step_def Let_def)

lemma fold_step_length: "length (fold reduce_step is zw) = length zw"
  by (induction "is" arbitrary: zw) simp_all

lemma reduce_step_xor:
  assumes "length a = length b" "i + 4 < length b"
  shows "reduce_step i (map2 (XOR) a b) = map2 (XOR) (reduce_step i a) (reduce_step i b)"
  by (rule nth_equalityI)
    (use assms in \<open>auto simp: reduce_step_def Let_def nth_list_update drop_bit_xor push_bit_xor ac_simps xor.left_commute\<close>)

lemma ghash_reduce_xor:
  assumes "length a = 8" "length b = 8"
  shows "ghash_reduce (map2 (XOR) a b) = map2 (XOR) (ghash_reduce a) (ghash_reduce b)"
proof -
  have "\<forall>i \<in> set is. i + 4 < 8 \<Longrightarrow> length a = 8 \<Longrightarrow> length b = 8
      \<Longrightarrow> fold reduce_step is (map2 (XOR) a b) = map2 (XOR) (fold reduce_step is a) (fold reduce_step is b)" for "is" a b
    by (induction "is" arbitrary: a b) (simp_all add: reduce_step_xor)
  then show ?thesis unfolding reduce_steps using assms by simp
qed

lemma ghash_reduce_length: "length (ghash_reduce zw) = length zw"
  by (simp add: reduce_steps fold_step_length)

definition red :: "256 word \<Rightarrow> u128" where
  "red W = pack (drop 4 (ghash_reduce (unpack 8 W)))"

lemma linear_red: "linear_word red"
  unfolding linear_word_def red_def
  by (simp add: unpack_xor ghash_reduce_xor drop_map drop_zip pack_xor ghash_reduce_length)

lemma word_position: "n < 32 \<Longrightarrow> i < 32 \<Longrightarrow> (32 * m + i \<le> 32 * l + n \<and> 32 * l + n - (32 * m + i) = 0) = (l = m \<and> n = (i :: nat))"
  by (cases l m rule: linorder_cases) auto

lemma unpack_basis:
  assumes "32 * k \<le> LENGTH('a :: len)" "i < 32" "m < k"
  shows "unpack k (push_bit (32 * m + i) 1 :: 'a word) = (replicate k 0)[m := push_bit i 1]"
proof (rule nth_equalityI)
  fix l assume l: "l < length (unpack k (push_bit (32 * m + i) 1 :: 'a word))"
  show "unpack k (push_bit (32 * m + i) 1 :: 'a word) ! l = (replicate k 0)[m := push_bit i 1] ! l"
  proof (rule bit_word_eqI)
    fix n assume n: "n < LENGTH(32)"
    have e: "32 * m + i \<le> 32 * l + n \<and> 32 * l + n - (32 * m + i) = 0 \<longleftrightarrow> l = m \<and> n = i"
      using n assms(2) by (intro word_position) simp_all
    have "32 * l + n < LENGTH('a)" using l n assms(1) by simp
    then have "bit (unpack k (push_bit (32 * m + i) 1 :: 'a word) ! l) n = (l = m \<and> n = i)"
      using l n e by (simp add: bit_unsigned_iff bit_drop_bit_eq bit_push_bit_iff bit_1_iff del: push_bit_of_1)
    then show "bit (unpack k (push_bit (32 * m + i) 1 :: 'a word) ! l) n = bit ((replicate k 0)[m := push_bit i 1] ! l :: u32) n"
      using l n by (cases "l = m") (auto simp: bit_push_bit_iff bit_1_iff simp del: push_bit_of_1)
  qed
qed simp

definition red_words :: "u32 list \<Rightarrow> u128" where
  "red_words zw = pack (drop 4 (ghash_reduce zw))"

lemma upt4: "[0..<4] = [0, 1, 2, 3 :: nat]"
  by (simp add: upt_rec)

lemma red_words_eval:
  "red_words [z0, z1, z2, z3, z4, z5, z6, z7] =
     (let s = \<lambda>z. z XOR drop_bit 1 z XOR drop_bit 2 z XOR drop_bit 7 z; t = \<lambda>z. push_bit 31 z XOR push_bit 30 z XOR push_bit 25 z;
          z3 = z3 XOR t z0
      in pack [z4 XOR s z0 XOR t z1, z5 XOR s z1 XOR t z2, z6 XOR s z2 XOR t z3, z7 XOR s z3])"
  unfolding red_words_def reduce_steps upt4 by (simp add: reduce_step_def Let_def numeral_eq_Suc xor.assoc)

definition basis8 :: "nat \<Rightarrow> nat \<Rightarrow> u32 list" where
  "basis8 m i = (replicate 8 0)[m := push_bit i 1]"

lemma basis8_words:
  "basis8 0 i = [push_bit i 1, 0, 0, 0, 0, 0, 0, 0]" "basis8 1 i = [0, push_bit i 1, 0, 0, 0, 0, 0, 0]"
  "basis8 2 i = [0, 0, push_bit i 1, 0, 0, 0, 0, 0]" "basis8 3 i = [0, 0, 0, push_bit i 1, 0, 0, 0, 0]"
  "basis8 4 i = [0, 0, 0, 0, push_bit i 1, 0, 0, 0]"
  by (simp_all add: basis8_def numeral_eq_Suc del: push_bit_of_1)

lemma gcm_x_low_0: "\<forall>i \<in> set [0..<31]. gcm_x (red_words (basis8 0 (Suc i))) = red_words (basis8 0 i)"
  unfolding upt_from_two [of 31, simplified] basis8_words red_words_eval by (simp add: gcm_x_def)

lemma gcm_x_low_1: "\<forall>i \<in> set [0..<31]. gcm_x (red_words (basis8 1 (Suc i))) = red_words (basis8 1 i)"
  unfolding upt_from_two [of 31, simplified] basis8_words red_words_eval by (simp add: gcm_x_def)

lemma gcm_x_low_2: "\<forall>i \<in> set [0..<31]. gcm_x (red_words (basis8 2 (Suc i))) = red_words (basis8 2 i)"
  unfolding upt_from_two [of 31, simplified] basis8_words red_words_eval by (simp add: gcm_x_def)

lemma gcm_x_low_3: "\<forall>i \<in> set [0..<31]. gcm_x (red_words (basis8 3 (Suc i))) = red_words (basis8 3 i)"
  unfolding upt_from_two [of 31, simplified] basis8_words red_words_eval by (simp add: gcm_x_def)

lemma gcm_x_carry:
  "gcm_x (red_words (basis8 1 0)) = red_words (basis8 0 31)"
  "gcm_x (red_words (basis8 2 0)) = red_words (basis8 1 31)"
  "gcm_x (red_words (basis8 3 0)) = red_words (basis8 2 31)"
  "gcm_x (red_words (basis8 4 0)) = red_words (basis8 3 31)"
  unfolding basis8_words red_words_eval by (simp_all add: gcm_x_def)

lemma red_basis: "m < 8 \<Longrightarrow> i < 32 \<Longrightarrow> red (push_bit (32 * m + i) 1) = red_words (basis8 m i)"
  by (simp add: red_def red_words_def basis8_def unpack_basis del: push_bit_of_1)

lemma red_high:
  assumes "k < 128"
  shows "red (push_bit (128 + k) 1) = push_bit k 1"
proof -
  have "k = 32 * (k div 32) + k mod 32" "k div 32 < 4" "k mod 32 < 32" using assms by auto
  then obtain m i where k: "k = 32 * m + i" "m < 4" "i < 32" by blast
  have m: "m = 0 \<or> m = 1 \<or> m = 2 \<or> m = 3" using k(2) by linarith
  have z: "red_words [0, 0, 0, 0, z4, z5, z6, z7] = pack [z4, z5, z6, z7]" for z4 z5 z6 z7
    unfolding red_words_eval by simp
  have d: "red_words ((replicate 8 0)[4 + m := push_bit i 1]) = pack ((replicate 4 0)[m := push_bit i 1])"
    using m by (elim disjE; hypsubst) (simp_all add: numeral_eq_Suc z [unfolded numeral_eq_Suc] del: push_bit_of_1)
  have "red (push_bit (128 + k) 1) = pack (unpack 4 (push_bit (32 * m + i) 1 :: u128))"
    using red_basis [of "4 + m" i] k d unpack_basis [where 'a = 128, of 4 i m] by (simp add: basis8_def add.assoc del: push_bit_of_1)
  also have "\<dots> = push_bit (32 * m + i) 1" by (rule pack_unpack) simp
  finally show ?thesis using k(1) by simp
qed

lemma gcm_x_red:
  assumes "k < 255"
  shows "gcm_x (red (push_bit (Suc k) 1)) = red (push_bit k 1)"
proof (cases "k < 128")
  case True
  then have "k = 32 * (k div 32) + k mod 32" "k div 32 < 4" "k mod 32 < 32" by auto
  then obtain m i where k: "k = 32 * m + i" "m < 4" "i < 32" by blast
  have m: "m = 0 \<or> m = 1 \<or> m = 2 \<or> m = 3" using k(2) by linarith
  show ?thesis
  proof (cases "i = 31")
    case True
    have "Suc k = 32 * Suc m + 0" using k True by simp
    then show ?thesis using red_basis [of m i] red_basis [of "Suc m" 0] k m True gcm_x_carry by (auto simp: eval_nat_numeral simp del: push_bit_of_1)
  next
    case False
    then have "i \<in> set [0..<31]" "Suc k = 32 * m + Suc i" "Suc i < 32" using k by auto
    then show ?thesis using red_basis [of m i] red_basis [of m "Suc i"] k m gcm_x_low_0 gcm_x_low_1 gcm_x_low_2 gcm_x_low_3 by auto
  qed
next
  case False
  define j where "j = k - 128"
  have j: "k = 128 + j" "Suc k = 128 + Suc j" "j < 127" using False assms by (auto simp: j_def)
  have "gcm_x (push_bit (Suc j) 1) = push_bit j 1"
    using j(3) by (intro bit_word_eqI) (auto simp: gcm_x_def bit_simps simp del: push_bit_of_1 push_bit_Suc)
  then show ?thesis unfolding j(1,2) using j(3) red_high [of j] red_high [of "Suc j"] by simp
qed

end
