(* ===== verification/GhashProps.thy ===== *)
theory GhashProps
  imports GhashField
begin

section \<open>GHASH against SP 800-38D\<close>

subsection \<open>The product of two blocks\<close>

definition block_product :: "u128 \<Rightarrow> u128 \<Rightarrow> 256 word" where
  "block_product Y H = pack (karatsuba (unpack 4 Y) (unpack 4 H))"

lemma unpack4: "unpack 4 (Y :: u128) = [ucast Y, ucast (drop_bit 32 Y), ucast (drop_bit 64 Y), ucast (drop_bit 96 Y)]"
  unfolding unpack_def upt4 by simp

lemma karatsuba_length: "length (karatsuba y h) = 8"
  by (simp add: karatsuba_def Let_def)

lemma linear_product: "linear_word (\<lambda>Y. block_product Y H)"
proof -
  have "karatsuba (unpack 4 (Y XOR Y')) (unpack 4 H) = map2 (XOR) (karatsuba (unpack 4 Y) (unpack 4 H)) (karatsuba (unpack 4 Y') (unpack 4 H))" for Y Y' :: u128
    unfolding unpack4 drop_bit_xor unsigned_xor_eq karatsuba_schoolbook
    by (simp add: lo_hi_xor xor.assoc xor.left_commute xor.commute)
  then show ?thesis by (simp add: linear_word_def block_product_def pack_xor karatsuba_length)
qed

lemma shift8_unpack: "shift8 (unpack 8 (K :: 256 word)) = unpack 8 (push_bit 1 K)"
  by (rule nth_equalityI) (use unpack_shift [where 'a = 256, of 7] in \<open>simp_all add: shift8_def del: push_bit_Suc\<close>)

lemma ghash_mul_red: "pack (ghash_mul (unpack 4 Y) (unpack 4 H)) = red (push_bit 1 (block_product Y H))"
  unfolding ghash_mul_karatsuba red_def block_product_def shift8_unpack [symmetric]
  by (simp add: unpack_pack karatsuba_length)

lemma lo_hi_zero: "lo h 0 = 0" "hi h 0 = 0"
  using lo_hi_xor(2) [of h 0 0] lo_hi_xor(4) [of h 0 0] by simp_all

lemma lo_basis: "i < 32 \<Longrightarrow> lo h (push_bit i 1) = push_bit i h"
  by (rule bit_word_eqI) (auto simp: lo_def bmul_word_shift bit_simps simp del: push_bit_of_1)

lemma hi_basis: "i < 32 \<Longrightarrow> hi h (push_bit i 1) = drop_bit (32 - i) h"
  by (rule bit_word_eqI) (auto simp: hi_def bmul_word_shift bit_simps ac_simps simp del: push_bit_of_1 dest: bit_imp_le_length)

lemma shifted_word:
  assumes "i < 32" "m < 4" "l < 8"
  shows "ucast (drop_bit (32 * l) (push_bit (32 * m + i) (ucast (H :: u128) :: 256 word))) =
     ((if m \<le> l then push_bit i (ucast (drop_bit (32 * (l - m)) H)) else 0)
      XOR (if m < l then drop_bit (32 - i) (ucast (drop_bit (32 * (l - m - 1)) H)) else 0) :: u32)"
proof (rule bit_word_eqI)
  fix n assume n: "n < LENGTH(32)"
  consider "l < m" | "l = m" | d where "l = m + Suc d" by (metis less_iff_Suc_add add_Suc_right linorder_neqE_nat)
  then show "bit (ucast (drop_bit (32 * l) (push_bit (32 * m + i) (ucast H :: 256 word))) :: u32) n =
    bit ((if m \<le> l then push_bit i (ucast (drop_bit (32 * (l - m)) H)) else 0)
      XOR (if m < l then drop_bit (32 - i) (ucast (drop_bit (32 * (l - m - 1)) H)) else 0) :: u32) n"
  proof cases
    case 1
    then have "32 * l + n < 32 * m + i" using n by simp
    then show ?thesis using 1 n by (simp add: bit_simps)
  next
    case 2
    then show ?thesis using n assms by (auto simp: bit_simps)
  next
    case 3
    have e: "32 * l + n - (32 * m + i) = 32 * (l - m) + (n - i)" if "i \<le> n" using 3 that by simp
    have e': "32 * l + n - (32 * m + i) = 32 * (l - m - 1) + (n + (32 - i))" if "n < i" using 3 that assms(1) by simp
    show ?thesis
    proof (cases "i \<le> n")
      case True
      then have "\<not> bit (ucast (drop_bit (32 * (l - m - 1)) H) :: u32) (n + (32 - i))" using assms(1) by (auto dest: bit_imp_le_length)
      then show ?thesis using True 3 n assms e by (auto simp: bit_xor_iff bit_unsigned_iff bit_drop_bit_eq bit_push_bit_iff ac_simps)
    next
      case False
      then show ?thesis using 3 n assms e' by (auto simp: bit_xor_iff bit_unsigned_iff bit_drop_bit_eq bit_push_bit_iff ac_simps)
    qed
  qed
qed

lemma product_basis:
  assumes "j < 128"
  shows "block_product (push_bit j 1) H = push_bit j (ucast H)"
proof -
  have "j = 32 * (j div 32) + j mod 32" "j div 32 < 4" "j mod 32 < 32" using assms by auto
  then obtain m i where j: "j = 32 * m + i" "m < 4" "i < 32" by blast
  have m: "m = 0 \<or> m = 1 \<or> m = 2 \<or> m = 3" using j(2) by linarith
  define h where "h k = (ucast (drop_bit (32 * k) H) :: u32)" for k
  have h4: "h k = 0" if "4 \<le> k" for k
    using that by (intro bit_word_eqI) (auto simp: h_def bit_simps dest: bit_imp_le_length)
  have H: "unpack 4 H = [h 0, h 1, h 2, h 3]" by (simp add: unpack4 h_def)
  have W: "unpack 8 (push_bit (32 * m + i) (ucast H :: 256 word)) =
      map (\<lambda>l. (if m \<le> l then push_bit i (h (l - m)) else 0) XOR (if m < l then drop_bit (32 - i) (h (l - m - 1)) else 0)) [0..<8]"
    unfolding unpack_def h_def by (rule map_cong [OF refl]) (use j in \<open>simp add: shifted_word\<close>)
  have r: "replicate 4 (0 :: u32) = [0, 0, 0, 0]" by (simp add: numeral_eq_Suc)
  have B: "unpack 4 (push_bit (32 * m + i) 1 :: u128) = [0, 0, 0, 0][m := push_bit i 1]"
    using unpack_basis [where 'a = 128, of 4 i m] j r by (simp del: push_bit_of_1)
  have "karatsuba (unpack 4 (push_bit (32 * m + i) 1 :: u128)) (unpack 4 H) = unpack 8 (push_bit (32 * m + i) (ucast H :: 256 word))"
    unfolding W H B upt8
    using m by (elim disjE; hypsubst)
      (simp_all add: karatsuba_schoolbook lo_hi_zero lo_basis [OF j(3)] hi_basis [OF j(3)] h4 xor.commute del: push_bit_of_1)
  then show ?thesis unfolding block_product_def j(1) by (simp only: pack_unpack [where 'a = 256 and k = 8, simplified])
qed

lemma red_shift:
  assumes "d \<le> 128"
  shows "red (push_bit (128 - d) (ucast (H :: u128))) = (gcm_x ^^ d) H"
  using assms
proof (induction d)
  case 0
  have "linear_word (\<lambda>H. red (push_bit 128 (ucast (H :: u128))))"
    using linear_red by (simp add: linear_word_def push_bit_xor unsigned_xor_eq)
  moreover have "red (push_bit 128 (ucast (push_bit i 1 :: u128))) = push_bit i 1" if "i < LENGTH(128)" for i
  proof -
    have "push_bit 128 (ucast (push_bit i 1 :: u128)) = (push_bit (128 + i) 1 :: 256 word)"
      using that by (intro bit_word_eqI) (auto simp: bit_simps simp del: push_bit_of_1)
    then show ?thesis using red_high [of i] that by simp
  qed
  ultimately show ?case using linear_word_ext [of "\<lambda>H. red (push_bit 128 (ucast (H :: u128)))" "\<lambda>H. H" H] by (simp add: linear_word_def)
next
  case (Suc d)
  define k where "k = 128 - Suc d"
  then have k: "128 - d = Suc k" "k < 128" using Suc.prems by auto
  have l: "linear_word (\<lambda>H. red (push_bit n (ucast (H :: u128))))" for n
    using linear_red by (simp add: linear_word_def push_bit_xor unsigned_xor_eq)
  have b: "red (push_bit k (ucast (push_bit i 1 :: u128))) = gcm_x (red (push_bit (Suc k) (ucast (push_bit i 1 :: u128))))"
    if "i < LENGTH(128)" for i
  proof -
    have "push_bit n (ucast (push_bit i 1 :: u128)) = (push_bit (n + i) 1 :: 256 word)" for n
      using that by (intro bit_word_eqI) (auto simp: bit_simps simp del: push_bit_of_1)
    then show ?thesis using gcm_x_red [of "k + i"] that k(2) by (simp del: push_bit_of_1 push_bit_Suc)
  qed
  have "red (push_bit k (ucast H)) = gcm_x (red (push_bit (Suc k) (ucast H)))"
    by (rule linear_word_ext [OF l linear_word_comp [OF linear_gcm_x l] b])
  then show ?case using Suc k unfolding k_def [symmetric] by simp
qed

lemma ghash_mul_field: "pack (ghash_mul (unpack 4 Y) (unpack 4 H)) = gcm_mult Y H"
proof -
  have l: "linear_word (\<lambda>Y. red (push_bit 1 (block_product Y H)))"
    using linear_red linear_product [of H] by (simp add: linear_word_def push_bit_xor del: push_bit_Suc)
  have "red (push_bit 1 (block_product Y H)) = gcm_mult Y H"
  proof (rule linear_word_ext [OF l linear_gcm_mult])
    fix j assume j: "j < LENGTH(128)"
    have "push_bit 1 (push_bit j (ucast H)) = (push_bit (128 - (127 - j)) (ucast H) :: 256 word)"
      using j by (simp add: push_bit_push_bit del: push_bit_Suc)
    then show "red (push_bit 1 (block_product (push_bit j 1) H)) = gcm_mult (push_bit j 1) H"
      using red_shift [of "127 - j" H] product_basis [of j H] gcm_mult_basis [of j H] j by (simp del: push_bit_of_1 push_bit_Suc)
  qed
  then show ?thesis unfolding ghash_mul_red .
qed

subsection \<open>Blocks of bytes\<close>

text \<open>A block of bytes as a word: the first byte is the most significant.\<close>

definition be_word :: "u8 list \<Rightarrow> u128" where
  "be_word bs = fold (\<lambda>b a. push_bit 8 a OR ucast b) bs 0"

definition be_bytes :: "u128 \<Rightarrow> u8 list" where
  "be_bytes V = map (\<lambda>i. ucast (drop_bit (120 - 8 * i) V)) [0..<16]"

text \<open>GHASH of a list of blocks, from the hash \<open>Y\<close> of what was before (SP 800-38D, algorithm 2).\<close>

definition gcm_ghash :: "u128 \<Rightarrow> u8 list list \<Rightarrow> u128 \<Rightarrow> u128" where
  "gcm_ghash H blocks Y = fold (\<lambda>X Y. gcm_mult (Y XOR be_word X) H) blocks Y"

lemma widen_push: "k \<le> 24 \<Longrightarrow> ucast (push_bit k (ucast (b :: u8)) :: u32) = (push_bit k (ucast b) :: u128)"
  by (rule bit_word_eqI) (auto simp: bit_simps dest: bit_imp_le_length)

lemma widen_byte: "ucast (ucast (b :: u8) :: u32) = (ucast b :: u128)"
  using widen_push [of 0 b] by simp

lemma be_word_words:
  assumes "length b = 16"
  shows "be_word b = pack (ghash_words b)"
proof -
  obtain b0 b1 b2 b3 b4 b5 b6 b7 b8 b9 b10 b11 b12 b13 b14 b15
    where b: "b = [b0, b1, b2, b3, b4, b5, b6, b7, b8, b9, b10, b11, b12, b13, b14, b15]"
    using assms by (auto simp: numeral_eq_Suc length_Suc_conv)
  show ?thesis
    unfolding b ghash_words_def be_word_def br_dec32be_def
    by (simp add: unsigned_or_eq widen_push widen_byte push_bit_or push_bit_push_bit or.assoc or.left_commute or.commute)
qed

lemma byte_of_word: "k \<le> 24 \<Longrightarrow> (ucast (drop_bit k (ucast (X :: u128) :: u32)) :: u8) = ucast (drop_bit k X)"
  by (rule bit_word_eqI) (auto simp: bit_simps dest: bit_imp_le_length)

lemma be_bytes_words:
  "be_bytes W = br_enc32be (unpack 4 W ! 3) @ br_enc32be (unpack 4 W ! 2) @ br_enc32be (unpack 4 W ! 1) @ br_enc32be (unpack 4 W ! 0)"
proof -
  have u: "[0..<16] = [0, 1, 2, 3, 4, 5, 6, 7, 8, 9, 10, 11, 12, 13, 14, 15 :: nat]" by (simp add: upt_rec)
  have z: "(ucast (ucast (X :: u128) :: u32) :: u8) = ucast X" for X using byte_of_word [of 0 X] by simp
  show ?thesis unfolding be_bytes_def u br_enc32be_def by (simp add: byte_of_word z drop_bit_drop_bit)
qed

lemma ghash_words_length: "length (ghash_words b) = 4"
  by (simp add: ghash_words_def)

lemma ghash_mul_length: "length (ghash_mul y h) = 4"
  unfolding ghash_mul_karatsuba by (simp add: ghash_reduce_length shift8_def)

lemma ghash_loop_spec:
  assumes "length yw = 4" "length hw = 4"
  shows "pack (ghash_loop yw hw buf) = gcm_ghash (pack hw) (blocks16 (pad16 buf)) (pack yw) \<and> length (ghash_loop yw hw buf) = 4"
  using assms(1)
proof (induction "length buf" arbitrary: yw buf rule: less_induct)
  case less
  show ?case
  proof (cases "buf = []")
    case True
    then show ?thesis using less.prems by (simp add: ghash_loop.simps pad16_def blocks16.simps gcm_ghash_def)
  next
    case False
    define src where "src = (if 16 \<le> length buf then take 16 buf else buf @ replicate (16 - length buf) 0)"
    define y' where "y' = ghash_mul (map2 (XOR) yw (ghash_words src)) hw"
    have s: "length src = 16" by (simp add: src_def)
    have b: "blocks16 (pad16 buf) = src # blocks16 (pad16 (drop 16 buf))"
    proof (cases "16 \<le> length buf")
      case True
      have ne: "take 16 buf @ pad16 (drop 16 buf) \<noteq> []" using False by simp
      show ?thesis unfolding pad16_long [OF True] using True ne by (subst blocks16.simps) (simp add: src_def)
    next
      case short: False
      then have p: "pad16 buf = src" using pad16_short [of buf] False by (simp add: src_def)
      have "src \<noteq> []" "take 16 src = src" "drop 16 src = []" using s by auto
      then show ?thesis unfolding p using short by (subst blocks16.simps) (simp add: blocks16.simps)
    qed
    have l: "length (map2 (XOR) yw (ghash_words src)) = 4" using less.prems by (simp add: ghash_words_length)
    have "pack y' = gcm_mult (pack (map2 (XOR) yw (ghash_words src))) (pack hw)"
      using ghash_mul_field [of "pack (map2 (XOR) yw (ghash_words src))" "pack hw"] unpack_pack [where 'a = 128, OF l]
        unpack_pack [where 'a = 128, OF assms(2)] by (simp add: y'_def)
    then have y: "pack y' = gcm_mult (pack yw XOR be_word src) (pack hw)"
      using less.prems by (simp add: pack_xor ghash_words_length be_word_words s)
    have "length y' = 4" by (simp add: y'_def ghash_mul_length)
    moreover have "ghash_loop yw hw buf = ghash_loop y' hw (drop 16 buf)"
      using False by (subst ghash_loop.simps) (simp add: src_def y'_def Let_def)
    moreover have "length (drop 16 buf) < length buf" using False by simp
    ultimately show ?thesis using less.hyps [of "drop 16 buf" y'] unfolding b by (simp add: gcm_ghash_def y)
  qed
qed

lemma ghash_ctmul_field:
  assumes "length y = 16" "length h = 16"
  shows "br_ghash_ctmul y h data = be_bytes (gcm_ghash (be_word h) (blocks16 (pad16 data)) (be_word y))"
proof -
  let ?z = "ghash_loop (ghash_words y) (ghash_words h) data"
  have z: "pack ?z = gcm_ghash (be_word h) (blocks16 (pad16 data)) (be_word y)" "length ?z = 4"
    using ghash_loop_spec [OF ghash_words_length ghash_words_length, of y h data] by (simp_all add: be_word_words assms)
  show ?thesis unfolding z(1) [symmetric] be_bytes_words using unpack_pack [where 'a = 128, OF z(2)]
    by (simp add: br_ghash_ctmul_def Let_def)
qed

end
