(* ===== verification/GcmProps.thy ===== *)
theory GcmProps
  imports GhashProps RecProps
begin

section \<open>Records in GCM\<close>

text \<open>
  Records of AES in GCM have the bytes of RFC 5288, with the authenticated encryption of SP 800-38D, and are decrypted to what was
  encrypted.  Both kinds of AEAD records keep the contract of the record engine.
\<close>

subsection \<open>The specification\<close>

definition len64 :: "u8 list \<Rightarrow> u8 list" where
  "len64 x = br_enc64be (of_nat (8 * length x))"

definition gcm_ae :: "u8 list \<Rightarrow> u8 list \<Rightarrow> u8 list \<Rightarrow> u8 list \<Rightarrow> u8 list \<times> u8 list" where
  "gcm_ae key iv aad p =
     (let E = fips197 key;
          H = be_word (E (replicate 16 0));
          c = ctr_mode E iv 2 p;
          S = gcm_ghash H (blocks16 (pad16 aad @ pad16 c @ len64 aad @ len64 c)) 0
      in (c, ctr_mode E iv 1 (be_bytes S)))"

lemma be_word_bytes: "be_word (be_bytes W) = W"
proof -
  have l: "length (be_bytes W) = 16" by (simp add: be_bytes_def)
  have d: "br_dec32be (br_enc32be x) = x" for x using dec_enc32(2) [of x "[]"] by simp
  have w: "unpack 4 W = [unpack 4 W ! 0, unpack 4 W ! 1, unpack 4 W ! 2, unpack 4 W ! 3]" by (simp add: unpack4)
  have "ghash_words (be_bytes W) = [unpack 4 W ! 0, unpack 4 W ! 1, unpack 4 W ! 2, unpack 4 W ! 3]"
    unfolding ghash_words_def be_bytes_words by (simp add: d)
  then have "ghash_words (be_bytes W) = unpack 4 W" using w by simp
  then show ?thesis unfolding be_word_words [OF l] using pack_unpack [where 'a = 128 and k = 4 and W = W] by simp
qed

lemma be_word_zero: "be_word (replicate 16 0) = 0"
  by (simp add: be_word_def numeral_eq_Suc)

lemma length_be_bytes [simp]: "length (be_bytes W) = 16"
  by (simp add: be_bytes_def)

lemma length_ctr_mode [simp]: "length (ctr_mode E iv c d) = length d"
  by (simp add: ctr_mode_def)

lemma len64_bits: "length x < 2 ^ 61 \<Longrightarrow> push_bit 3 (of_nat (length x)) = (of_nat (8 * length x) :: u64)"
  by (simp add: push_bit_eq_mult mult.commute)

lemma three_ghash:
  assumes "length h = 16"
  shows "br_ghash_ctmul (br_ghash_ctmul (br_ghash_ctmul (replicate 16 0) h a) h c) h f
    = be_bytes (gcm_ghash (be_word h) (blocks16 (pad16 a @ pad16 c @ pad16 f)) 0)"
  using assms
  by (simp add: ghash_ctmul_field be_word_bytes be_word_zero blocks16_append length_pad16 gcm_ghash_def)

subsection \<open>Contexts of AES in GCM\<close>

definition aes_gcm_init :: "br_aes_keys br_sslrec_gcm_context \<Rightarrow> u8 list \<Rightarrow> u8 list \<Rightarrow> br_aes_keys br_sslrec_gcm_context" where
  "aes_gcm_init cc key iv = gen_gcm_init cc br_aes_small_ctr_vtable key (length key) br_ghash_ctmul iv"

lemma aes_gcm_on: "gcm_on br_aes_small_ctr_run br_ghash_ctmul ((aes_gcm_init cc key iv)\<lparr>gcm_seq := q\<rparr>)"
  by (simp add: gcm_on_def aes_gcm_init_def gen_gcm_init_def Let_def br_aes_small_ctr_vtable_def)

lemma aes_gcm_fields:
  "gcm_bc (aes_gcm_init cc key iv) = br_aes_small_ctr_init (gcm_bc cc) key (length key)"
  "gcm_iv (aes_gcm_init cc key iv) = take 4 iv"
  "gcm_gh (aes_gcm_init cc key iv) = br_ghash_ctmul"
  "gcm_h (aes_gcm_init cc key iv) = fst (br_aes_small_ctr_run (br_aes_small_ctr_init (gcm_bc cc) key (length key)) (replicate 12 0) 0 (replicate 16 0))"
  by (simp_all add: aes_gcm_init_def gen_gcm_init_def Let_def br_aes_small_ctr_vtable_def)

lemma aes_ctr_mode:
  assumes "length key = 16 \<or> length key = 24 \<or> length key = 32" "60 \<le> length (skey ctx)" "length iv = 12"
  shows "fst (br_aes_small_ctr_run (br_aes_small_ctr_init ctx key (length key)) iv c d) = ctr_mode (fips197 key) iv c d"
  by (rule ctr_run_mode [OF init_encrypts(1) [OF assms(1,2) _ refl] assms(3)])

lemma length_fips197:
  assumes "length key = 16 \<or> length key = 24 \<or> length key = 32" "length b = 16"
  shows "length (fips197 key b) = 16"
proof -
  define ctx where "ctx = br_aes_small_ctr_init \<lparr>skey = replicate 60 0, num_rounds = 0\<rparr> key (length key)"
  have "br_aes_small_encrypt (num_rounds ctx) (skey ctx) b = fips197 key b"
    by (rule init_encrypts(1) [OF assms(1) _ assms(2) ctx_def]) simp
  then show ?thesis using assms(2) length_small_encrypt [of "num_rounds ctx" "skey ctx" b] by simp
qed

lemma hash_key:
  assumes "length key = 16 \<or> length key = 24 \<or> length key = 32" "60 \<le> length (skey (gcm_bc cc))"
  shows "gcm_h (aes_gcm_init cc key iv) = fips197 key (replicate 16 0)"
proof -
  let ?e = "fips197 key (replicate 16 0)"
  have l: "length ?e = 16" by (rule length_fips197 [OF assms(1)]) simp
  have z: "replicate 12 0 @ br_enc32be 0 = (replicate 16 0 :: u8 list)" by (simp add: br_enc32be_def numeral_eq_Suc)
  have "gcm_h (aes_gcm_init cc key iv) = ctr_mode (fips197 key) (replicate 12 0) 0 (replicate 16 0)"
    unfolding aes_gcm_fields by (rule aes_ctr_mode [OF assms]) simp
  also have "\<dots> = ?e" by (rule nth_equalityI) (simp_all add: ctr_mode_def z l)
  finally show ?thesis .
qed

lemma aes_gcm_ae:
  fixes q :: u64 and t :: u8 and ver :: u32
  assumes "length key = 16 \<or> length key = 24 \<or> length key = 32" "60 \<le> length (skey (gcm_bc c0))" "4 \<le> length iv" "length d < 2 ^ 61"
  defines "cc \<equiv> (aes_gcm_init c0 key iv)\<lparr>gcm_seq := q\<rparr>"
  defines "nonce \<equiv> take 4 iv @ br_enc64be q"
  defines "ct \<equiv> fst (br_aes_small_ctr_run (gcm_bc cc) (take 4 (gcm_iv cc) @ br_enc64be (gcm_seq cc)) 2 d)"
  shows "(ct, map2 (XOR) (fst (do_tag cc t ver ct)) (fst (br_aes_small_ctr_run (gcm_bc cc) (take 4 (gcm_iv cc) @ br_enc64be (gcm_seq cc)) 1 (replicate 16 0))))
    = gcm_ae key nonce (record_header q t ver (length d)) d"
proof -
  let ?hd = "record_header q t ver (length d)"
  have n: "length nonce = 12" using assms(3) by (simp add: nonce_def)
  have f: "gcm_bc cc = br_aes_small_ctr_init (gcm_bc c0) key (length key)" "take 4 (gcm_iv cc) @ br_enc64be (gcm_seq cc) = nonce"
    by (simp_all add: cc_def aes_gcm_fields nonce_def)
  have run: "fst (br_aes_small_ctr_run (gcm_bc cc) nonce c x) = ctr_mode (fips197 key) nonce c x" for c x
    unfolding f(1) by (rule aes_ctr_mode [OF assms(1,2) n])
  have ct: "ct = ctr_mode (fips197 key) nonce 2 d" unfolding ct_def f(2) by (rule run)
  have h: "gcm_h cc = fips197 key (replicate 16 0)" using hash_key [OF assms(1,2)] by (simp add: cc_def)
  have foot: "pad16 (br_enc64be (push_bit 3 (of_nat (length ?hd))) @ br_enc64be (push_bit 3 (of_nat (length ct)))) = len64 ?hd @ len64 ct"
    using len64_bits [of ?hd] len64_bits [of ct] assms(4) by (simp add: pad16_def len64_def ct)
  have "fst (do_tag cc t ver ct) = be_bytes (gcm_ghash (be_word (gcm_h cc)) (blocks16 (pad16 ?hd @ pad16 ct @ len64 ?hd @ len64 ct)) 0)"
    using three_ghash [of "gcm_h cc" ?hd ct] length_fips197 [OF assms(1), of "replicate 16 0"] foot
    by (simp add: do_tag_def Let_def aes_gcm_fields(3) cc_def hash_key [OF assms(1,2)] ct)
  then obtain S where S: "fst (do_tag cc t ver ct) = be_bytes S" "S = gcm_ghash (be_word (fips197 key (replicate 16 0))) (blocks16 (pad16 ?hd @ pad16 ct @ len64 ?hd @ len64 ct)) 0"
    unfolding h by blast
  have "map2 (XOR) (be_bytes S) (ctr_mode (fips197 key) nonce 1 (replicate 16 0)) = ctr_mode (fips197 key) nonce 1 (be_bytes S)"
    by (rule nth_equalityI) (simp_all add: ctr_mode_def)
  then show ?thesis unfolding f(2) run S(1) gcm_ae_def Let_def using S(2) ct by simp
qed

text \<open>\<^bold>\<open>C34\<close>: two contexts of AES in GCM set up with the same key and implicit nonce, whatever their memory held before, at the
  same sequence number \<open>q\<close>: the record that one makes has the bytes of RFC 5288, with ciphertext and tag of SP 800-38D over the
  block cipher of FIPS 197; and when these bytes arrive in the memory of the other, it finds the plaintext there and goes on
  to the same sequence number.\<close>

theorem gcm_records:
  assumes "length key = 16 \<or> length key = 24 \<or> length key = 32" "60 \<le> length (skey (gcm_bc c0))" "60 \<le> length (skey (gcm_bc d0))"
    and "4 \<le> length iv" "n < 2 ^ 61"
    and "cc = (gen_gcm_init c0 br_aes_small_ctr_vtable key (length key) br_ghash_ctmul iv)\<lparr>gcm_seq := q\<rparr>"
    and "dd = (gen_gcm_init d0 br_aes_small_ctr_vtable key (length key) br_ghash_ctmul iv)\<lparr>gcm_seq := q\<rparr>"
    and "13 \<le> a" "a + n + 16 \<le> length m" "gcm_encrypt cc t ver m a n = ((s, l), m', cc')"
    and "b + l \<le> length m2" "load b l m2 = load s l m'"
  shows "(let (ct, tag) = gcm_ae key (take 4 iv @ br_enc64be q) (record_header q t ver n) (load a n m)
          in load s l m' = [t] @ br_enc16be ver @ br_enc16be (of_nat (n + 24)) @ br_enc64be q @ ct @ tag)
    \<and> (\<exists>m3 dd'. gcm_decrypt dd t ver m2 (b + 5) (l - 5) = (Some (b + 13, n), m3, dd')
         \<and> load (b + 13) n m3 = load a n m \<and> gcm_seq dd' = gcm_seq cc')"
proof
  have cc: "cc = (aes_gcm_init c0 key iv)\<lparr>gcm_seq := q\<rparr>" and dd: "dd = (aes_gcm_init d0 key iv)\<lparr>gcm_seq := q\<rparr>"
    by (simp_all add: assms(6,7) aes_gcm_init_def)
  have on: "gcm_on br_aes_small_ctr_run br_ghash_ctmul cc" "gcm_on br_aes_small_ctr_run br_ghash_ctmul dd"
    unfolding cc dd by (rule aes_gcm_on)+
  have nonce: "take 4 (gcm_iv cc) @ br_enc64be (gcm_seq cc) = take 4 iv @ br_enc64be q" "length (take 4 iv @ br_enc64be q) = 12"
    using assms(4) by (simp_all add: cc aes_gcm_fields)
  have d: "length (load a n m) = n" using assms(9) by simp
  have "length (load a n m) < 2 ^ 61" using d assms(5) by simp
  note ae = aes_gcm_ae [OF assms(1,2,4) this, where q = q and t = t and ver = ver, folded cc]
  show "let (ct, tag) = gcm_ae key (take 4 iv @ br_enc64be q) (record_header q t ver n) (load a n m)
          in load s l m' = [t] @ br_enc16be ver @ br_enc16be (of_nat (n + 24)) @ br_enc64be q @ ct @ tag"
    using aes_gcm.gcm_encrypt_bytes [OF on(1) assms(8,9), of t ver] assms(10) unfolding ae [unfolded d, symmetric] prod.case Let_def
    by (auto simp: cc)
  show "\<exists>m3 dd'. gcm_decrypt dd t ver m2 (b + 5) (l - 5) = (Some (b + 13, n), m3, dd')
         \<and> load (b + 13) n m3 = load a n m \<and> gcm_seq dd' = gcm_seq cc'"
  proof (rule aes_gcm.gcm_roundtrip [OF on _ _ _ _ assms(8-12)])
    show "fst (br_aes_small_ctr_run (gcm_bc dd) (take 4 (gcm_iv cc) @ br_enc64be (gcm_seq cc)) c x)
        = fst (br_aes_small_ctr_run (gcm_bc cc) (take 4 (gcm_iv cc) @ br_enc64be (gcm_seq cc)) c x)" for c x
      unfolding nonce(1) using aes_ctr_mode [OF assms(1) _ nonce(2)] assms(2,3) by (simp add: cc dd aes_gcm_fields)
    show "gcm_h dd = gcm_h cc" using hash_key [OF assms(1)] assms(2,3) by (simp add: cc dd)
  qed (simp_all add: cc dd aes_gcm_fields)
qed

definition gcm_example :: "br_aes_keys br_sslrec_gcm_context" where
  "gcm_example = (gen_gcm_init
     \<lparr>gcm_seq = 9, gcm_vtable = br_aes_small_ctr_vtable, gcm_bc = \<lparr>skey = replicate 60 0, num_rounds = 0\<rparr>, gcm_gh = br_ghash_ctmul, gcm_iv = [], gcm_h = []\<rparr>
     br_aes_small_ctr_vtable (replicate 16 1) (length (replicate 16 (1 :: u8))) br_ghash_ctmul (replicate 4 2))\<lparr>gcm_seq := 5\<rparr>"

theorem gcm_records_witness:
  "\<exists>m3 dd'. gcm_decrypt gcm_example 23 0x303 (fst (snd (gcm_encrypt gcm_example 23 0x303 (replicate 100 7) 20 20))) 12 44
      = (Some (20, 20), m3, dd') \<and> load 20 20 m3 = replicate 20 7"
proof -
  have on: "gcm_on br_aes_small_ctr_run br_ghash_ctmul gcm_example"
    using aes_gcm_on unfolding gcm_example_def aes_gcm_init_def by blast
  have "13 \<le> (20 :: nat)" "20 + 20 + 16 \<le> length (replicate 100 (7 :: u8))" by simp_all
  from aes_gcm.gcm_encrypt_bytes [OF on this, of 23 "0x303"] obtain m'
    where e: "gcm_encrypt gcm_example 23 0x303 (replicate 100 7) 20 20 = ((7, 49), m', gcm_next gcm_example)" and "same_outside 7 56 (replicate 100 7) m'"
    by fastforce
  then have l: "length m' = 100" by (simp add: same_outside_def)
  have "\<exists>m3 dd'. gcm_decrypt gcm_example 23 0x303 m' (7 + 5) (49 - 5) = (Some (7 + 13, 20), m3, dd')
      \<and> load (7 + 13) 20 m3 = load 20 20 (replicate 100 7) \<and> gcm_seq dd' = gcm_seq (gcm_next gcm_example)"
    using l by (intro conjunct2 [OF gcm_records [OF _ _ _ _ _ gcm_example_def gcm_example_def _ _ e _ refl]]) simp_all
  moreover have "load 20 20 (replicate 100 7) = (replicate 20 7 :: u8 list)" by (simp add: load_def)
  ultimately show ?thesis by (auto simp: e)
qed

subsection \<open>The record engine with these ciphers\<close>

lemma chapol_ciphers:
  "out_contract br_sslrec_out_chapol_vtable (chapol_on (\<lambda>key nonce data aad e. br_poly1305_ctmul_run key nonce data aad br_chacha20_ct_run e))"
  "in_contract br_sslrec_in_chapol_vtable (chapol_on (\<lambda>key nonce data aad e. br_poly1305_ctmul_run key nonce data aad br_chacha20_ct_run e))"
  by (rule chapol.chapol_out_contract chapol.chapol_in_contract)+

end
