(* ===== verification/MdHash.thy ===== *)
theory MdHash
  imports BrCodec
begin

section \<open>Block-wise hashing (what the files of bearssl/src/hash share)\<close>

text \<open>
  Every hash function of the library buffers its input and runs a round function on each complete
  block; \<open>'v\<close> is the chaining value.  \<open>md_loop\<close> is the body that the update functions have in common
  (\<open>inc\<close> is what one pass adds to the byte counter: the files md5.c, sha1.c and md5sha1.c count inside
  the loop, the others before it) and \<open>md_head\<close> the first part of the output functions, up to the
  place of the length field.  The specification below is the padding and chaining of RFC 1321 and
  FIPS 180-4 on the whole message.
\<close>

record 'v md_context =
  cc_buf :: "u8 list"
  cc_count :: u64
  cc_val :: 'v

definition memcpy :: "'a list \<Rightarrow> nat \<Rightarrow> 'a list \<Rightarrow> nat \<Rightarrow> 'a list" where
  "memcpy dst off src n = take off dst @ take n src @ drop (off + n) dst"

lemma length_memcpy: "off + n \<le> length dst \<Longrightarrow> n \<le> length src \<Longrightarrow> length (memcpy dst off src n) = length dst"
  by (simp add: memcpy_def)

lemma take_memcpy: "off \<le> length dst \<Longrightarrow> n \<le> length src \<Longrightarrow> take (off + n) (memcpy dst off src n) = take off dst @ take n src"
  by (simp add: memcpy_def)

text \<open>The pointer is \<open>count\<close> modulo the block size, hence below it; the second test only stands for that.\<close>

function md_loop :: "nat \<Rightarrow> (u8 list \<Rightarrow> 'v \<Rightarrow> 'v) \<Rightarrow> (nat \<Rightarrow> u64 \<Rightarrow> u64) \<Rightarrow> nat \<Rightarrow> u8 list \<Rightarrow> 'v md_context \<Rightarrow> 'v md_context" where
  "md_loop n rnd inc ptr data cc =
     (if data = [] then cc else if n \<le> ptr then cc
      else let clen = n - ptr;
               clen = (if length data < clen then length data else clen);
               cc = cc\<lparr>cc_buf := memcpy (cc_buf cc) ptr data clen\<rparr>;
               ptr = ptr + clen;
               data = drop clen data;
               cc = cc\<lparr>cc_count := inc clen (cc_count cc)\<rparr>
           in if ptr = n then md_loop n rnd inc 0 data (cc\<lparr>cc_val := rnd (cc_buf cc) (cc_val cc)\<rparr>)
              else md_loop n rnd inc ptr data cc)"
  by pat_completeness auto
termination by (relation "measure (\<lambda>(n, rnd, inc, ptr, data, cc). length data)") auto

declare md_loop.simps [simp del]

text \<open>The last block up to its length field, whose offset is \<open>off\<close>; a first one when it does not fit.\<close>

definition md_head :: "nat \<Rightarrow> nat \<Rightarrow> (u8 list \<Rightarrow> 'v \<Rightarrow> 'v) \<Rightarrow> nat \<Rightarrow> u8 list \<Rightarrow> 'v \<Rightarrow> u8 list \<times> 'v" where
  "md_head n off rnd ptr b val =
     (let buf = take ptr b @ [0x80]; ptr = ptr + 1
      in if off < ptr then (replicate off 0, rnd (buf @ replicate (n - ptr) 0) val)
         else (buf @ replicate (off - ptr) 0, val))"

subsection \<open>Specification\<close>

fun blocks :: "nat \<Rightarrow> 'a list \<Rightarrow> 'a list list" where
  "blocks n xs = (if n = 0 \<or> length xs < n then [] else take n xs # blocks n (drop n xs))"

fun partial_block :: "nat \<Rightarrow> 'a list \<Rightarrow> 'a list" where
  "partial_block n xs = (if n = 0 \<or> length xs < n then xs else partial_block n (drop n xs))"

declare blocks.simps [simp del] partial_block.simps [simp del]

definition md_padding :: "nat \<Rightarrow> nat \<Rightarrow> nat \<Rightarrow> u8 list" where
  "md_padding n off len = 0x80 # replicate ((off + n - (len + 1) mod n) mod n) 0"

definition md_chain :: "nat \<Rightarrow> (u8 list \<Rightarrow> 'v \<Rightarrow> 'v) \<Rightarrow> 'v \<Rightarrow> u8 list \<Rightarrow> 'v" where
  "md_chain n rnd iv m = fold rnd (blocks n m) iv"

definition md_hash :: "nat \<Rightarrow> nat \<Rightarrow> (nat \<Rightarrow> u8 list) \<Rightarrow> (u8 list \<Rightarrow> 'v \<Rightarrow> 'v) \<Rightarrow> 'v \<Rightarrow> u8 list \<Rightarrow> 'v" where
  "md_hash n off lenb rnd iv m = md_chain n rnd iv (m @ md_padding n off (length m) @ lenb (length m))"

subsection \<open>Blocks of a growing message\<close>

lemma length_partial: "0 < n \<Longrightarrow> length (partial_block n xs) = length xs mod n"
proof (induction n xs rule: partial_block.induct)
  case (1 n xs)
  then show ?case by (subst partial_block.simps) (auto simp: not_less le_mod_geq)
qed

lemma blocks_short: "length xs < n \<Longrightarrow> blocks n xs = [] \<and> partial_block n xs = xs"
  by (simp add: blocks.simps partial_block.simps)

lemma blocks_full: "length xs = n \<Longrightarrow> 0 < n \<Longrightarrow> blocks n xs = [xs] \<and> partial_block n xs = []"
  by (subst blocks.simps, subst partial_block.simps) (simp add: blocks_short)

lemma blocks_step: "0 < n \<Longrightarrow> n \<le> length xs \<Longrightarrow> blocks n xs = take n xs # blocks n (drop n xs) \<and> partial_block n xs = partial_block n (drop n xs)"
  by (subst blocks.simps, subst partial_block.simps) simp

lemma blocks_append:
  "0 < n \<Longrightarrow> blocks n (m @ d) = blocks n m @ blocks n (partial_block n m @ d) \<and> partial_block n (m @ d) = partial_block n (partial_block n m @ d)"
proof (induction n m rule: blocks.induct)
  case (1 n m)
  show ?case
  proof (cases "length m < n")
    case True
    then show ?thesis by (simp add: blocks_short)
  next
    case False
    then have "blocks n (m @ d) = take n m # blocks n (drop n m @ d) \<and> partial_block n (m @ d) = partial_block n (drop n m @ d)"
      using blocks_step [of n "m @ d"] 1(2) by simp
    moreover have "blocks n m = take n m # blocks n (drop n m) \<and> partial_block n m = partial_block n (drop n m)"
      using blocks_step [of n m] 1(2) False by simp
    moreover have "blocks n (drop n m @ d) = blocks n (drop n m) @ blocks n (partial_block n (drop n m) @ d)
        \<and> partial_block n (drop n m @ d) = partial_block n (partial_block n (drop n m) @ d)"
      by (rule 1(1)) (use 1(2) False in simp_all)
    ultimately show ?thesis by simp
  qed
qed

lemma blocks_grow:
  "0 < n \<Longrightarrow> length m mod n + length d < n \<Longrightarrow> blocks n (m @ d) = blocks n m \<and> partial_block n (m @ d) = partial_block n m @ d"
  using blocks_append [of n m d] blocks_short [of "partial_block n m @ d" n] by (simp add: length_partial)

lemma blocks_fill:
  "0 < n \<Longrightarrow> length m mod n + length d = n \<Longrightarrow> blocks n (m @ d) = blocks n m @ [partial_block n m @ d] \<and> partial_block n (m @ d) = []"
  using blocks_append [of n m d] blocks_full [of "partial_block n m @ d" n] by (simp add: length_partial)

subsection \<open>The loop and the padding compute the specification\<close>

definition absorbed :: "nat \<Rightarrow> (u8 list \<Rightarrow> 'v \<Rightarrow> 'v) \<Rightarrow> 'v \<Rightarrow> u8 list \<Rightarrow> 'v md_context \<Rightarrow> bool" where
  "absorbed n rnd iv m cc \<longleftrightarrow> length (cc_buf cc) = n \<and> cc_val cc = md_chain n rnd iv m
     \<and> take (length m mod n) (cc_buf cc) = partial_block n m"

lemma absorbed_count [simp]: "absorbed n rnd iv m (cc\<lparr>cc_count := c\<rparr>) = absorbed n rnd iv m cc"
  by (simp add: absorbed_def)

lemma md_loop_absorbed:
  "0 < n \<Longrightarrow> absorbed n rnd iv m cc \<Longrightarrow> ptr = length m mod n \<Longrightarrow> absorbed n rnd iv (m @ data) (md_loop n rnd inc ptr data cc)"
proof (induction n rnd inc ptr data cc arbitrary: m rule: md_loop.induct)
  case (1 n rnd inc ptr data cc)
  note n = 1(3) and ab = 1(4) and p = 1(5)
  have ptr: "ptr < n" using n p by simp
  then have nptr: "\<not> n \<le> ptr" by simp
  show ?case
  proof (cases "data = []")
    case True
    then show ?thesis using ab by (simp add: md_loop.simps)
  next
    case False
    define clen where "clen = (if length data < n - ptr then length data else n - ptr)"
    define d where "d = take clen data"
    define cc1 where "cc1 = cc\<lparr>cc_buf := memcpy (cc_buf cc) ptr data clen, cc_count := inc clen (cc_count cc)\<rparr>"
    have clen: "ptr + clen \<le> n" "clen \<le> length data" "length d = clen"
      using ptr by (auto simp: clen_def d_def)
    have cc1_split: "cc1 = cc\<lparr>cc_buf := memcpy (cc_buf cc) ptr data clen\<rparr>\<lparr>cc_count := inc clen (cc_count (cc\<lparr>cc_buf := memcpy (cc_buf cc) ptr data clen\<rparr>))\<rparr>"
      by (simp add: cc1_def)
    have buf: "length (cc_buf cc1) = n" "take (ptr + clen) (cc_buf cc1) = partial_block n m @ d"
      using ab p clen by (simp_all add: cc1_def absorbed_def length_memcpy take_memcpy d_def)
    have data: "m @ data = (m @ d) @ drop clen data" by (simp add: d_def)
    have step: "md_loop n rnd inc ptr data cc =
        (if ptr + clen = n then md_loop n rnd inc 0 (drop clen data) (cc1\<lparr>cc_val := rnd (cc_buf cc1) (cc_val cc1)\<rparr>)
         else md_loop n rnd inc (ptr + clen) (drop clen data) cc1)"
      using False ptr by (subst md_loop.simps) (simp add: Let_def clen_def cc1_def)
    show ?thesis
    proof (cases "ptr + clen = n")
      case full: True
      have "length (m @ d) mod n = 0" using full clen p by (simp) (metis mod_add_left_eq mod_self)
      moreover have "absorbed n rnd iv (m @ d) (cc1\<lparr>cc_val := rnd (cc_buf cc1) (cc_val cc1)\<rparr>)"
        using blocks_fill [of n m d] full clen buf n p ab calculation
        by (simp add: absorbed_def md_chain_def cc1_def)
      ultimately have "absorbed n rnd iv ((m @ d) @ drop clen data)
          (md_loop n rnd inc 0 (drop clen data) (cc1\<lparr>cc_val := rnd (cc_buf cc1) (cc_val cc1)\<rparr>))"
        using 1(1) [OF False nptr refl clen_def refl refl refl cc1_split full n] by metis
      then show ?thesis unfolding step data using full by simp
    next
      case part: False
      have len: "length (m @ d) mod n = ptr + clen" using part clen p
        by (simp) (metis le_neq_implies_less mod_add_left_eq mod_less)
      moreover have "absorbed n rnd iv (m @ d) cc1"
        using blocks_grow [of n m d] part clen buf n p ab len by (simp add: absorbed_def md_chain_def cc1_def)
      ultimately have "absorbed n rnd iv ((m @ d) @ drop clen data) (md_loop n rnd inc (ptr + clen) (drop clen data) cc1)"
        using 1(2) [OF False nptr refl clen_def refl refl refl cc1_split part n] by metis
      then show ?thesis unfolding step data using part by simp
    qed
  qed
qed

lemma md_loop_count:
  assumes "inc = (\<lambda>k c. c + of_nat k) \<and> c = of_nat (length data) \<or> inc = (\<lambda>k c. c) \<and> c = 0" and "0 < n" and "ptr < n"
  shows "cc_count (md_loop n rnd inc ptr data cc) = cc_count cc + c"
  using assms
proof (induction n rnd inc ptr data cc arbitrary: c rule: md_loop.induct)
  case (1 n rnd inc ptr data cc)
  show ?case
  proof (cases "data = []")
    case True
    then show ?thesis using 1(3) by (auto simp: md_loop.simps)
  next
    case False
    define clen where "clen = (if length data < n - ptr then length data else n - ptr)"
    define cc1 where "cc1 = cc\<lparr>cc_buf := memcpy (cc_buf cc) ptr data clen\<rparr>\<lparr>cc_count := inc clen (cc_count (cc\<lparr>cc_buf := memcpy (cc_buf cc) ptr data clen\<rparr>))\<rparr>"
    have clen: "ptr + clen \<le> n" "clen \<le> length data" using 1(5) by (auto simp: clen_def)
    have nptr: "\<not> n \<le> ptr" using 1(5) by simp
    define c1 where "c1 = (if inc 1 0 = 0 then 0 else of_nat (length data - clen) :: u64)"
    have inc: "inc = (\<lambda>k c. c + of_nat k) \<and> c1 = of_nat (length (drop clen data)) \<or> inc = (\<lambda>k c. c) \<and> c1 = 0"
      using 1(3) by (auto simp: c1_def)
    have c: "cc_count cc1 + c1 = cc_count cc + c"
      using 1(3) clen by (auto simp: cc1_def c1_def)
    have step: "md_loop n rnd inc ptr data cc =
        (if ptr + clen = n then md_loop n rnd inc 0 (drop clen data) (cc1\<lparr>cc_val := rnd (cc_buf cc1) (cc_val cc1)\<rparr>)
         else md_loop n rnd inc (ptr + clen) (drop clen data) cc1)"
      using False nptr by (subst md_loop.simps) (simp add: Let_def clen_def cc1_def)
    show ?thesis
    proof (cases "ptr + clen = n")
      case full: True
      show ?thesis unfolding step using full c
          1(1) [OF False nptr refl clen_def refl refl refl cc1_def full inc 1(4) 1(4)] by simp
    next
      case part: False
      then have "ptr + clen < n" using clen by simp
      then show ?thesis unfolding step using part c
          1(2) [OF False nptr refl clen_def refl refl refl cc1_def part inc 1(4)] by simp
    qed
  qed
qed

lemma md_padding_short:
  assumes "off < n" "r = len mod n" "r + 1 \<le> off"
  shows "md_padding n off len = [0x80] @ replicate (off - (r + 1)) 0"
proof -
  have "(len + 1) mod n = (r + 1) mod n" unfolding assms(2) by (rule mod_add_left_eq [symmetric])
  then have "(len + 1) mod n = r + 1" using assms(1,3) by simp
  moreover have "off + n - (r + 1) = off - (r + 1) + n" using assms(3) by simp
  then have "(off + n - (r + 1)) mod n = (off - (r + 1)) mod n" by (simp only: mod_add_self2)
  moreover have "(off - (r + 1)) mod n = off - (r + 1)" using assms(1) by (intro mod_less) linarith
  ultimately show ?thesis by (simp add: md_padding_def)
qed

lemma md_padding_long:
  assumes "off < n" "r = len mod n" "off < r + 1"
  shows "md_padding n off len = ([0x80] @ replicate (n - (r + 1)) 0) @ replicate off 0"
proof -
  have r: "r + 1 \<le> n" using assms by (metis Suc_eq_plus1 Suc_leI mod_less_divisor not_less_zero gr0I)
  have "(off + n - (len + 1) mod n) mod n = n - (r + 1) + off"
  proof (cases "r + 1 = n")
    case True
    then have "(len + 1) mod n = 0" using assms(2) by (metis mod_add_left_eq mod_self)
    then show ?thesis using True assms(1) by simp
  next
    case False
    have "(len + 1) mod n = (r + 1) mod n" unfolding assms(2) by (rule mod_add_left_eq [symmetric])
    then have "(len + 1) mod n = r + 1" using r False by simp
    then show ?thesis using False r assms by simp
  qed
  then show ?thesis by (simp add: md_padding_def replicate_add)
qed

text \<open>The digest of a whole message from the state of the context.\<close>

lemma md_head_spec:
  assumes ab: "absorbed n rnd iv m cc" and ptr: "ptr = length m mod n" and off: "off < n" and lenb: "length lenb = n - off"
    and head: "md_head n off rnd ptr (cc_buf cc) (cc_val cc) = (buf, v)"
  shows "rnd (buf @ lenb) v = md_chain n rnd iv (m @ md_padding n off (length m) @ lenb) \<and> length buf = off"
proof -
  have n: "0 < n" using off by simp
  then have pn: "ptr < n" unfolding ptr by simp
  have b: "take ptr (cc_buf cc) = partial_block n m" and v: "cc_val cc = fold rnd (blocks n m) iv" and len: "length (partial_block n m) = ptr"
    using ab ptr n by (simp_all add: absorbed_def md_chain_def length_partial)
  show ?thesis
  proof (cases "ptr + 1 \<le> off")
    case True
    define d where "d = [0x80] @ replicate (off - (ptr + 1)) 0 @ lenb"
    have "length m mod n + length d = n" using True lenb off ptr by (simp add: d_def)
    then have "blocks n (m @ d) = blocks n m @ [partial_block n m @ d]" using blocks_fill [OF n] by blast
    moreover have "m @ md_padding n off (length m) @ lenb = m @ d" using md_padding_short [OF off ptr True] by (simp add: d_def)
    ultimately have "md_chain n rnd iv (m @ md_padding n off (length m) @ lenb) = rnd (partial_block n m @ d) (cc_val cc)"
      by (simp add: md_chain_def v)
    moreover have "buf @ lenb = partial_block n m @ d \<and> v = cc_val cc \<and> length buf = off"
      using head True b len by (auto simp: md_head_def Let_def d_def)
    ultimately show ?thesis by simp
  next
    case False
    define d where "d = [0x80 :: u8] @ replicate (n - (ptr + 1)) 0"
    have "length m mod n + length d = n" using pn ptr by (simp add: d_def)
    then have d: "blocks n (m @ d) = blocks n m @ [partial_block n m @ d]" "partial_block n (m @ d) = []"
      "length (m @ d) mod n = 0"
      using blocks_fill [OF n, of m d] by (simp_all, metis mod_add_left_eq mod_self)
    have "blocks n ((m @ d) @ (replicate off 0 @ lenb)) = blocks n (m @ d) @ [replicate off 0 @ lenb]"
      using blocks_fill [OF n, of "m @ d" "replicate off 0 @ lenb"] d off lenb by simp
    moreover have "m @ md_padding n off (length m) @ lenb = (m @ d) @ (replicate off 0 @ lenb)"
      using md_padding_long [OF off ptr] False by (simp add: d_def)
    ultimately have "md_chain n rnd iv (m @ md_padding n off (length m) @ lenb)
        = rnd (replicate off 0 @ lenb) (rnd (partial_block n m @ d) (cc_val cc))"
      using d by (simp add: md_chain_def v)
    moreover have "buf = replicate off 0 \<and> v = rnd (partial_block n m @ d) (cc_val cc)"
      using head False b by (auto simp: md_head_def Let_def d_def)
    ultimately show ?thesis by simp
  qed
qed

text \<open>The byte counter wraps at $2^{64}$, which every block size divides.\<close>

lemma count_mask:
  assumes "k \<le> 64"
  shows "unat (of_nat len AND mask k :: u64) = len mod 2 ^ k"
proof -
  have "unat (take_bit k (of_nat len :: u64)) = take_bit k (take_bit 64 len)"
    by (simp add: unsigned_take_bit_eq unsigned_of_nat del: take_bit_take_bit)
  also have "\<dots> = take_bit k len" using assms by (simp only: take_bit_take_bit min_absorb1)
  finally show ?thesis by (simp only: take_bit_eq_mask [of k "of_nat len :: u64"] take_bit_eq_mod [of k len])
qed

lemma count_masks: "unat (of_nat len AND 63 :: u64) = len mod 64" "unat (of_nat len AND 127 :: u64) = len mod 128"
  using count_mask [of 6 len] count_mask [of 7 len] by (simp_all add: mask_eq_exp_minus_1)

lemma absorbed_start: "0 < n \<Longrightarrow> length (cc_buf cc) = n \<Longrightarrow> cc_val cc = iv \<Longrightarrow> absorbed n rnd iv [] cc"
  by (simp add: absorbed_def md_chain_def blocks_short)

end
