(* ===== verification/HashClass.thy ===== *)
theory HashClass
  imports MdHash
begin

section \<open>The interface of a hash function (bearssl/inc/bearssl\_hash.h)\<close>

text \<open>
  The virtual table of a hash function over a context type \<open>'s\<close>.  Callers put a context on their
  stack without initialising it; \<open>context_mem\<close> is what that storage happens to hold, so the
  statements below, which leave it arbitrary, show that it does not matter.  \<open>hc_state\<close> returns the
  saved state and the byte counter, \<open>hc_out\<close> the digest it writes.  The size of the context is an
  allocation matter and has no field here.
\<close>

record 's br_hash_class =
  context_mem :: 's
  desc :: u32
  hc_init :: "'s \<Rightarrow> 's"
  hc_update :: "'s \<Rightarrow> u8 list \<Rightarrow> 's"
  hc_out :: "'s \<Rightarrow> u8 list"
  hc_state :: "'s \<Rightarrow> u8 list \<times> u64"
  hc_set_state :: "'s \<Rightarrow> u8 list \<Rightarrow> u64 \<Rightarrow> 's"

definition BR_HASHDESC_ID :: "nat \<Rightarrow> u32" where "BR_HASHDESC_ID x = push_bit 0 (of_nat x)"
definition BR_HASHDESC_OUT :: "nat \<Rightarrow> u32" where "BR_HASHDESC_OUT x = push_bit 8 (of_nat x)"
definition BR_HASHDESC_STATE :: "nat \<Rightarrow> u32" where "BR_HASHDESC_STATE x = push_bit 15 (of_nat x)"
definition BR_HASHDESC_LBLEN :: "nat \<Rightarrow> u32" where "BR_HASHDESC_LBLEN x = push_bit 23 (of_nat x)"
definition BR_HASHDESC_MD_PADDING :: u32 where "BR_HASHDESC_MD_PADDING = push_bit 28 1"
definition BR_HASHDESC_MD_PADDING_128 :: u32 where "BR_HASHDESC_MD_PADDING_128 = push_bit 29 1"
definition BR_HASHDESC_MD_PADDING_BE :: u32 where "BR_HASHDESC_MD_PADDING_BE = push_bit 30 1"

lemmas hashdesc_defs = BR_HASHDESC_ID_def BR_HASHDESC_OUT_def BR_HASHDESC_STATE_def BR_HASHDESC_LBLEN_def
  BR_HASHDESC_MD_PADDING_def BR_HASHDESC_MD_PADDING_128_def BR_HASHDESC_MD_PADDING_BE_def

definition br_digest_size :: "'s br_hash_class \<Rightarrow> nat" where
  "br_digest_size digest_class = unat (drop_bit 8 (desc digest_class) AND 0x7F)"

definition block_size :: "'s br_hash_class \<Rightarrow> nat" where
  "block_size dig = (let ls = drop_bit 23 (desc dig) AND 0x0F in 2 ^ unat ls)"

text \<open>\<open>br_digest_size_by_ID\<close>; the identifiers are those of TLS, 0 is the pair of MD5 and SHA-1.\<close>

definition br_digest_size_by_ID :: "int \<Rightarrow> nat" where
  "br_digest_size_by_ID digest_id =
     (if digest_id = 0 then 16 + 20
      else if digest_id = 1 then 16
      else if digest_id = 2 then 20
      else if digest_id = 3 then 28
      else if digest_id = 4 then 32
      else if digest_id = 5 then 48
      else if digest_id = 6 then 64
      else 0)"

text \<open>Arbitrary contents of an uninitialised context with a buffer of \<open>n\<close> bytes.\<close>

type_synonym 'v junk = "(nat \<Rightarrow> u8) \<times> u64 \<times> 'v"

definition stack_context :: "nat \<Rightarrow> 'v junk \<Rightarrow> 'v md_context" where
  "stack_context n mem = \<lparr>cc_buf = map (fst mem) [0..<n], cc_count = fst (snd mem), cc_val = snd (snd mem)\<rparr>"

lemma length_stack_context [simp]: "length (cc_buf (stack_context n mem)) = n"
  by (simp add: stack_context_def)

subsection \<open>What the callers rely on\<close>

text \<open>
  \<open>rep m s\<close>: the context \<open>s\<close> has absorbed the message \<open>m\<close>; \<open>ok s\<close>: \<open>s\<close> is storage of the right
  size.  \<open>digest\<close> is the function on whole messages that the table computes piecewise.
\<close>

locale hash_streaming =
  fixes dig :: "'s br_hash_class"
    and digest :: "u8 list \<Rightarrow> u8 list"
    and ok :: "'s \<Rightarrow> bool"
    and rep :: "u8 list \<Rightarrow> 's \<Rightarrow> bool"
  assumes mem_ok: "ok (context_mem dig)"
    and rep_ok: "rep m s \<Longrightarrow> ok s"
    and init_rep: "ok s \<Longrightarrow> rep [] (hc_init dig s)"
    and update_rep: "rep m s \<Longrightarrow> rep (m @ d) (hc_update dig s d)"
    and out_rep: "rep m s \<Longrightarrow> hc_out dig s = digest m"
    and state_count: "rep m s \<Longrightarrow> snd (hc_state dig s) = of_nat (length m)"
    and resume: "rep m s \<Longrightarrow> ok t \<Longrightarrow> length m mod block_size dig = 0
      \<Longrightarrow> rep m (hc_set_state dig t (fst (hc_state dig s)) (of_nat (length m)))"
    and length_digest: "length (digest m) = br_digest_size dig"
    and digest_pos: "0 < br_digest_size dig"
    and digest_block: "br_digest_size dig \<le> 64" "64 \<le> block_size dig"
begin

lemma fold_update: "rep m s \<Longrightarrow> rep (m @ concat ds) (fold (\<lambda>d s. hc_update dig s d) ds s)"
proof (induction ds arbitrary: m s)
  case (Cons d ds)
  then show ?case using Cons.IH [OF update_rep [of m s d]] by simp
qed simp

lemma init_update: "ok s \<Longrightarrow> rep d (hc_update dig (hc_init dig s) d)"
  using update_rep [OF init_rep] by fastforce

text \<open>A computation from uninitialised storage, with the message in any number of pieces.\<close>

lemma run_digest: "ok s \<Longrightarrow> hc_out dig (fold (\<lambda>d s. hc_update dig s d) ds (hc_init dig s)) = digest (concat ds)"
  using out_rep [OF fold_update [OF init_rep]] by simp

end

subsection \<open>Functions built on the common loop\<close>

text \<open>
  The contract of the functions that chain a value of type \<open>'v\<close> over blocks of \<open>n\<close> bytes; it gives the
  one above.  \<open>good\<close> says that the value has the shape that survives being saved.
\<close>

locale md_function =
  fixes dig :: "'v md_context br_hash_class"
    and digest :: "u8 list \<Rightarrow> u8 list"
    and n :: nat
    and rnd :: "u8 list \<Rightarrow> 'v \<Rightarrow> 'v"
    and iv :: 'v
    and good :: "'v \<Rightarrow> bool"
    and save :: "'v \<Rightarrow> u8 list"
    and load :: "u8 list \<Rightarrow> 'v"
  assumes n_block: "block_size dig = n" "64 \<le> n"
    and mem: "length (cc_buf (context_mem dig)) = n"
    and init: "hc_init dig cc = cc\<lparr>cc_val := iv, cc_count := 0\<rparr>"
    and update: "absorbed n rnd iv m cc \<Longrightarrow> cc_count cc = of_nat (length m)
      \<Longrightarrow> absorbed n rnd iv (m @ d) (hc_update dig cc d) \<and> cc_count (hc_update dig cc d) = of_nat (length (m @ d))"
    and out: "absorbed n rnd iv m cc \<Longrightarrow> cc_count cc = of_nat (length m) \<Longrightarrow> hc_out dig cc = digest m"
    and state: "hc_state dig cc = (save (cc_val cc), cc_count cc)"
    and set_state: "hc_set_state dig cc b c = cc\<lparr>cc_val := load b, cc_count := c\<rparr>"
    and good: "good iv" "good v \<Longrightarrow> good (rnd b v)"
    and load_save: "good v \<Longrightarrow> load (save v) = v"
    and digest_length: "length (digest m) = br_digest_size dig" "0 < br_digest_size dig" "br_digest_size dig \<le> 64"
begin

definition rep :: "u8 list \<Rightarrow> 'v md_context \<Rightarrow> bool" where
  "rep m cc \<longleftrightarrow> absorbed n rnd iv m cc \<and> cc_count cc = of_nat (length m)"

lemma good_chain: "good (md_chain n rnd iv m)"
proof -
  have "good (fold rnd bs v)" if "good v" for bs v using that by (induction bs arbitrary: v) (auto intro: good)
  then show ?thesis unfolding md_chain_def using good by blast
qed

end

sublocale md_function \<subseteq> hash_streaming dig digest "\<lambda>cc. length (cc_buf cc) = n" rep
proof
  show "length (cc_buf (context_mem dig)) = n" by (rule mem)
  show "length (cc_buf s) = n" if "rep m s" for m s using that by (simp add: rep_def absorbed_def)
  show "rep [] (hc_init dig s)" if "length (cc_buf s) = n" for s
    using that n_block by (simp add: rep_def init absorbed_start)
  show "rep (m @ d) (hc_update dig s d)" if "rep m s" for m s d using that update by (simp add: rep_def)
  show "hc_out dig s = digest m" if "rep m s" for m s using that out by (simp add: rep_def)
  show "snd (hc_state dig s) = of_nat (length m)" if "rep m s" for m s using that by (simp add: rep_def state)
  show "rep m (hc_set_state dig t (fst (hc_state dig s)) (of_nat (length m)))"
    if "rep m s" "length (cc_buf t) = n" "length m mod block_size dig = 0" for m s t
  proof -
    have "partial_block n m = []" using that n_block length_partial [of n m] by simp
    then show ?thesis using that n_block
      by (simp add: rep_def state set_state absorbed_def load_save good_chain)
  qed
qed (simp_all add: digest_length n_block)

text \<open>The two forms of update establish the step of the contract.\<close>

lemma md_update_in_loop:
  assumes "absorbed n rnd iv m cc" "cc_count cc = of_nat (length m)" "0 < n" "ptr = length m mod n"
  shows "absorbed n rnd iv (m @ d) (md_loop n rnd (\<lambda>k c. c + of_nat k) ptr d cc)
    \<and> cc_count (md_loop n rnd (\<lambda>k c. c + of_nat k) ptr d cc) = of_nat (length (m @ d))"
  using md_loop_absorbed [OF assms(3,1,4)] md_loop_count [of "\<lambda>k c. c + of_nat k" "of_nat (length d)" d n ptr rnd cc] assms
  by simp

lemma md_update_before_loop:
  assumes "absorbed n rnd iv m cc" "cc_count cc = of_nat (length m)" "0 < n" "ptr = length m mod n"
  shows "absorbed n rnd iv (m @ d) (md_loop n rnd (\<lambda>k c. c) ptr d (cc\<lparr>cc_count := cc_count cc + of_nat (length d)\<rparr>))
    \<and> cc_count (md_loop n rnd (\<lambda>k c. c) ptr d (cc\<lparr>cc_count := cc_count cc + of_nat (length d)\<rparr>)) = of_nat (length (m @ d))"
  using md_loop_absorbed [OF assms(3) _ assms(4), of rnd iv "cc\<lparr>cc_count := cc_count cc + of_nat (length d)\<rparr>"]
    md_loop_count [of "\<lambda>k c. c" 0 d n ptr rnd] assms
  by simp

lemma fold_groups:
  "(\<And>i. i \<in> set is \<Longrightarrow> f i = fold g [i..<i + k]) \<Longrightarrow> fold f is s = fold g (concat (map (\<lambda>i. [i..<i + k]) is)) s"
  by (induction "is" arbitrary: s) simp_all

end
