(* ===== verification/Hmac.thy ===== *)
theory Hmac
  imports HashClass
begin

section \<open>HMAC (bearssl/src/mac/hmac.c)\<close>

text \<open>
  HMAC over any hash function given by its table.  A key context holds the two saved states of the
  hash function after one block, from which every computation resumes; the union of hash contexts in
  the C structure is the context type \<open>'s\<close> of the table it holds.
\<close>

record 's br_hmac_key_context =
  dig_vtable :: "'s br_hash_class"
  ksi :: "u8 list"
  kso :: "u8 list"

record 's br_hmac_context =
  hm_vtable :: "'s br_hash_class"
  hm_dig :: 's
  hm_kso :: "u8 list"
  out_len :: nat

text \<open>The hash context \<open>hc\<close> belongs to the caller and is returned as well.\<close>

definition process_key :: "'s br_hash_class \<Rightarrow> 's \<Rightarrow> u8 list \<Rightarrow> u8 \<Rightarrow> 's \<times> u8 list" where
  "process_key dig hc key bb =
     (let blen = block_size dig;
          tmp = map (\<lambda>b. b XOR bb) key;
          tmp = tmp @ replicate (blen - length key) bb;
          hc = hc_init dig hc;
          hc = hc_update dig hc tmp
      in (hc, fst (hc_state dig hc)))"

definition br_hmac_key_init :: "'s br_hash_class \<Rightarrow> u8 list \<Rightarrow> 's br_hmac_key_context" where
  "br_hmac_key_init dig key =
     (let hc = context_mem dig;
          (hc, key) =
            (if block_size dig < length key then
               let hc = hc_init dig hc;
                   hc = hc_update dig hc key;
                   kbuf = hc_out dig hc
               in (hc, take (br_digest_size dig) kbuf)
             else (hc, key));
          (hc, ki) = process_key dig hc key 0x36;
          (hc, ko) = process_key dig hc key 0x5C
      in \<lparr>dig_vtable = dig, ksi = ki, kso = ko\<rparr>)"

definition br_hmac_init :: "'s br_hmac_key_context \<Rightarrow> nat \<Rightarrow> 's br_hmac_context" where
  "br_hmac_init kc n =
     (let dig = dig_vtable kc;
          blen = block_size dig;
          hc = hc_init dig (context_mem dig);
          hc = hc_set_state dig hc (ksi kc) (of_nat blen);
          hlen = br_digest_size dig;
          hlen = (if 0 < n \<and> n < hlen then n else hlen)
      in \<lparr>hm_vtable = dig, hm_dig = hc, hm_kso = kso kc, out_len = hlen\<rparr>)"

definition br_hmac_update :: "'s br_hmac_context \<Rightarrow> u8 list \<Rightarrow> 's br_hmac_context" where
  "br_hmac_update ctx data = ctx\<lparr>hm_dig := hc_update (hm_vtable ctx) (hm_dig ctx) data\<rparr>"

definition br_hmac_out :: "'s br_hmac_context \<Rightarrow> u8 list" where
  "br_hmac_out ctx =
     (let dig = hm_vtable ctx;
          tmp = hc_out dig (hm_dig ctx);
          blen = block_size dig;
          hc = hc_init dig (context_mem dig);
          hc = hc_set_state dig hc (hm_kso ctx) (of_nat blen);
          hlen = br_digest_size dig;
          hc = hc_update dig hc (take hlen tmp);
          tmp = hc_out dig hc
      in take (out_len ctx) tmp)"

definition br_hmac_size :: "'s br_hmac_context \<Rightarrow> nat" where
  "br_hmac_size ctx = out_len ctx"

definition br_hmac_get_digest :: "'s br_hmac_context \<Rightarrow> 's br_hash_class" where
  "br_hmac_get_digest hc = hm_vtable hc"

definition br_hmac_key_get_digest :: "'s br_hmac_key_context \<Rightarrow> 's br_hash_class" where
  "br_hmac_key_get_digest kc = dig_vtable kc"

subsection \<open>Specification (RFC 2104)\<close>

definition hmac_key :: "(u8 list \<Rightarrow> u8 list) \<Rightarrow> nat \<Rightarrow> u8 list \<Rightarrow> u8 list" where
  "hmac_key H B key = (let k = (if B < length key then H key else key) in k @ replicate (B - length k) 0)"

definition hmac :: "(u8 list \<Rightarrow> u8 list) \<Rightarrow> nat \<Rightarrow> u8 list \<Rightarrow> u8 list \<Rightarrow> u8 list" where
  "hmac H B key m =
     (let k0 = hmac_key H B key
      in H (map (\<lambda>b. b XOR 0x5C) k0 @ H (map (\<lambda>b. b XOR 0x36) k0 @ m)))"

lemma length_hmac_key: "length (H key) \<le> B \<Longrightarrow> length (hmac_key H B key) = B"
  by (auto simp: hmac_key_def Let_def)

context hash_streaming
begin

abbreviation mac :: "u8 list \<Rightarrow> u8 list \<Rightarrow> u8 list" where
  "mac \<equiv> hmac digest (block_size dig)"

definition pad :: "u8 \<Rightarrow> u8 list \<Rightarrow> u8 list" where
  "pad bb key = map (\<lambda>b. b XOR bb) (hmac_key digest (block_size dig) key)"

definition saved :: "u8 list \<Rightarrow> u8 list \<Rightarrow> bool" where
  "saved m b \<longleftrightarrow> (\<exists>s. rep m s \<and> b = fst (hc_state dig s))"

definition keyed :: "u8 list \<Rightarrow> 's br_hmac_key_context \<Rightarrow> bool" where
  "keyed key kc \<longleftrightarrow> dig_vtable kc = dig \<and> saved (pad 0x36 key) (ksi kc) \<and> saved (pad 0x5C key) (kso kc)"

definition macing :: "u8 list \<Rightarrow> u8 list \<Rightarrow> nat \<Rightarrow> 's br_hmac_context \<Rightarrow> bool" where
  "macing key m n ctx \<longleftrightarrow> hm_vtable ctx = dig \<and> rep (pad 0x36 key @ m) (hm_dig ctx) \<and> saved (pad 0x5C key) (hm_kso ctx)
     \<and> out_len ctx = (if 0 < n \<and> n < br_digest_size dig then n else br_digest_size dig)"

lemma length_pad: "length (pad bb key) = block_size dig"
  using length_hmac_key [of digest key "block_size dig"] length_digest digest_block by (simp add: pad_def)

lemma process_key_spec:
  assumes "ok hc" "length key \<le> block_size dig"
  shows "process_key dig hc key bb = (s, b) \<Longrightarrow>
    rep (map (\<lambda>x. x XOR bb) (key @ replicate (block_size dig - length key) 0)) s \<and> b = fst (hc_state dig s) \<and> ok s"
  using init_update [OF assms(1)] rep_ok assms(2) by (auto simp: process_key_def Let_def)

lemma key_init_keyed: "keyed key (br_hmac_key_init dig key)"
proof -
  define k where "k = (if block_size dig < length key then digest key else key)"
  define h0 where "h0 = (if block_size dig < length key then hc_update dig (hc_init dig (context_mem dig)) key else context_mem dig)"
  have k: "length k \<le> block_size dig" using length_digest digest_block by (simp add: k_def)
  have h0: "ok h0" using init_update [OF mem_ok] rep_ok mem_ok by (auto simp: h0_def)
  have long: "take (br_digest_size dig) (hc_out dig (hc_update dig (hc_init dig (context_mem dig)) key)) = digest key"
    using out_rep [OF init_update [OF mem_ok]] length_digest by simp
  obtain s1 b1 where p1: "process_key dig h0 k 0x36 = (s1, b1)" by fastforce
  obtain s2 b2 where p2: "process_key dig s1 k 0x5C = (s2, b2)" by fastforce
  have "br_hmac_key_init dig key = \<lparr>dig_vtable = dig, ksi = b1, kso = b2\<rparr>"
    using p1 p2 unfolding br_hmac_key_init_def Let_def long k_def h0_def by (simp split: if_splits)
  moreover note spec1 = process_key_spec [OF h0 k p1] and spec2 = process_key_spec [OF _ k p2]
  moreover have "hmac_key digest (block_size dig) key = k @ replicate (block_size dig - length k) 0"
    by (simp add: hmac_key_def k_def Let_def)
  ultimately show ?thesis by (auto simp: keyed_def saved_def pad_def)
qed

lemma resume_saved:
  assumes "saved m b" "length m = block_size dig" "ok t"
  shows "rep m (hc_set_state dig t b (of_nat (block_size dig)))"
  using assms resume [of m _ t] by (auto simp: saved_def)

lemma hmac_init_macing: "keyed key kc \<Longrightarrow> macing key [] n (br_hmac_init kc n)"
  using resume_saved [OF _ length_pad rep_ok [OF init_rep [OF mem_ok]]]
  by (auto simp: keyed_def macing_def br_hmac_init_def Let_def)

lemma hmac_update_macing: "macing key m n ctx \<Longrightarrow> macing key (m @ d) n (br_hmac_update ctx d)"
  using update_rep [of "pad 54 key @ m" "hm_dig ctx" d] by (auto simp: macing_def br_hmac_update_def)

lemma hmac_fold_macing: "macing key m n ctx \<Longrightarrow> macing key (m @ concat ds) n (fold (\<lambda>d c. br_hmac_update c d) ds ctx)"
proof (induction ds arbitrary: m ctx)
  case (Cons d ds)
  then show ?case using Cons.IH [OF hmac_update_macing [of key m n ctx d]] by simp
qed simp

lemma hmac_out_macing:
  assumes "macing key m n ctx"
  shows "br_hmac_out ctx = take (if 0 < n \<and> n < br_digest_size dig then n else br_digest_size dig) (mac key m)"
proof -
  have inner: "hc_out dig (hm_dig ctx) = digest (pad 0x36 key @ m)" using assms out_rep by (auto simp: macing_def)
  have "rep (pad 0x5C key) (hc_set_state dig (hc_init dig (context_mem dig)) (hm_kso ctx) (of_nat (block_size dig)))"
    using assms resume_saved [OF _ length_pad rep_ok [OF init_rep [OF mem_ok]]] by (auto simp: macing_def)
  from out_rep [OF update_rep [OF this]] show ?thesis using assms inner length_digest
    by (simp add: br_hmac_out_def macing_def Let_def hmac_def pad_def)
qed

lemma length_mac: "length (mac key m) = br_digest_size dig"
  by (simp add: hmac_def Let_def length_digest)

text \<open>The whole computation with the untruncated length.\<close>

lemma hmac_full: "keyed key kc \<Longrightarrow> br_hmac_out (fold (\<lambda>d c. br_hmac_update c d) ds (br_hmac_init kc 0)) = mac key (concat ds)"
  using hmac_out_macing [OF hmac_fold_macing [OF hmac_init_macing]] length_mac by simp

lemmas hmac_full_1 = hmac_full [of _ _ "[_]", simplified] and hmac_full_2 = hmac_full [of _ _ "[_, _]", simplified]
  and hmac_full_3 = hmac_full [of _ _ "[_, _, _]", simplified]

lemma hmac_size_spec: "keyed key kc \<Longrightarrow> br_hmac_size (br_hmac_init kc 0) = br_digest_size dig"
  using hmac_init_macing [of key kc 0] by (simp add: macing_def br_hmac_size_def)

end

end
