(* ===== verification/Kdf.thy ===== *)
theory Kdf
  imports Hmac
begin

section \<open>Derivation of keys and random bytes (prf.c, hkdf.c, hmac\_drbg.c, mgf1.c)\<close>

text \<open>
  The pseudo-random functions of TLS, HKDF, the deterministic generator HMAC\_DRBG and the mask
  function MGF1, all over the table of a hash function.  A loop that fills a buffer is a recursion on
  what is left of it.  Each of them would not end for a hash function whose output is empty; the
  second test of each recursion stands for that and never holds for a real table.
\<close>

definition xor_bytes :: "u8 list \<Rightarrow> u8 list \<Rightarrow> u8 list" where
  "xor_bytes xs ys = map2 (\<lambda>x y. x XOR y) xs ys"

subsection \<open>The TLS pseudo-random functions\<close>

text \<open>\<open>label\<close> is memory that holds a C string; \<open>seed\<close> the chunks of the seed.\<close>

definition hmac_chunks :: "'s br_hmac_context \<Rightarrow> u8 list list \<Rightarrow> 's br_hmac_context" where
  "hmac_chunks hc seed = fold (\<lambda>d hc. br_hmac_update hc d) seed hc"

function phash_loop :: "'s br_hmac_key_context \<Rightarrow> nat \<Rightarrow> u8 list \<Rightarrow> u8 list list \<Rightarrow> u8 list \<Rightarrow> u8 list \<Rightarrow> u8 list" where
  "phash_loop kc hlen label seed a buf =
     (let hc = br_hmac_init kc 0;
          hc = br_hmac_update hc (take hlen a);
          hc = br_hmac_update hc label;
          hc = hmac_chunks hc seed;
          tmp = br_hmac_out hc;
          u = (if hlen < length buf then hlen else length buf);
          filled = xor_bytes (take u buf) (take u tmp);
          buf = drop u buf
      in if buf = [] then filled
         else if hlen = 0 then []
         else let hc = br_hmac_init kc 0;
                  hc = br_hmac_update hc (take hlen a);
                  a = br_hmac_out hc
              in filled @ phash_loop kc hlen label seed a buf)"
  by pat_completeness auto
termination by (relation "measure (\<lambda>(kc, hlen, label, seed, a, buf). length buf)") (auto split: if_splits)

declare phash_loop.simps [simp del]

definition br_tls_phash :: "u8 list \<Rightarrow> 's br_hash_class \<Rightarrow> u8 list \<Rightarrow> u8 list \<Rightarrow> u8 list list \<Rightarrow> u8 list" where
  "br_tls_phash dst dig secret label seed =
     (if dst = [] then dst
      else let label = takeWhile (\<lambda>c. c \<noteq> 0) label;
               hlen = br_digest_size dig;
               kc = br_hmac_key_init dig secret;
               hc = br_hmac_init kc 0;
               hc = br_hmac_update hc label;
               hc = hmac_chunks hc seed;
               a = br_hmac_out hc
           in phash_loop kc hlen label seed a dst)"

subsection \<open>MGF1\<close>

text \<open>\<open>hc\<close> is the uninitialised context on the stack; \<open>c\<close> the 32-bit block counter.\<close>

function mgf1_loop :: "'s br_hash_class \<Rightarrow> u8 list \<Rightarrow> nat \<Rightarrow> 's \<Rightarrow> u32 \<Rightarrow> u8 list \<Rightarrow> u8 list" where
  "mgf1_loop dig seed hlen hc c buf =
     (if buf = [] then []
      else if hlen = 0 then []
      else let hc = hc_init dig hc;
               hc = hc_update dig hc seed;
               tmp = br_enc32be c;
               hc = hc_update dig hc tmp;
               tmp = hc_out dig hc
           in xor_bytes (take hlen buf) (take hlen tmp) @ mgf1_loop dig seed hlen hc (c + 1) (drop hlen buf))"
  by pat_completeness auto
termination by (relation "measure (\<lambda>(dig, seed, hlen, hc, c, buf). length buf)") auto

declare mgf1_loop.simps [simp del]

definition br_mgf1_xor :: "u8 list \<Rightarrow> 's br_hash_class \<Rightarrow> u8 list \<Rightarrow> u8 list" where
  "br_mgf1_xor buf dig seed = mgf1_loop dig seed (br_digest_size dig) (context_mem dig) 0 buf"

subsection \<open>HMAC\_DRBG\<close>

record 's br_hmac_drbg_context =
  digest_class :: "'s br_hash_class"
  drbg_K :: "u8 list"
  drbg_V :: "u8 list"

definition br_hmac_drbg_update :: "'s br_hmac_drbg_context \<Rightarrow> u8 list \<Rightarrow> 's br_hmac_drbg_context" where
  "br_hmac_drbg_update ctx seed =
     (let dig = digest_class ctx;
          hlen = br_digest_size dig;
          kc = br_hmac_key_init dig (take hlen (drbg_K ctx));
          hc = br_hmac_init kc 0;
          hc = br_hmac_update hc (take hlen (drbg_V ctx));
          hc = br_hmac_update hc [0x00];
          hc = br_hmac_update hc seed;
          ctx = ctx\<lparr>drbg_K := br_hmac_out hc\<rparr>;
          kc = br_hmac_key_init dig (take hlen (drbg_K ctx));
          hc = br_hmac_init kc 0;
          hc = br_hmac_update hc (take hlen (drbg_V ctx));
          ctx = ctx\<lparr>drbg_V := br_hmac_out hc\<rparr>
      in if seed = [] then ctx
         else let hc = br_hmac_init kc 0;
                  hc = br_hmac_update hc (take hlen (drbg_V ctx));
                  hc = br_hmac_update hc [0x01];
                  hc = br_hmac_update hc seed;
                  ctx = ctx\<lparr>drbg_K := br_hmac_out hc\<rparr>;
                  kc = br_hmac_key_init dig (take hlen (drbg_K ctx));
                  hc = br_hmac_init kc 0;
                  hc = br_hmac_update hc (take hlen (drbg_V ctx))
              in ctx\<lparr>drbg_V := br_hmac_out hc\<rparr>)"

definition br_hmac_drbg_init :: "'s br_hash_class \<Rightarrow> u8 list \<Rightarrow> 's br_hmac_drbg_context" where
  "br_hmac_drbg_init dig seed =
     (let hlen = br_digest_size dig
      in br_hmac_drbg_update \<lparr>digest_class = dig, drbg_K = replicate hlen 0x00, drbg_V = replicate hlen 0x01\<rparr> seed)"

function drbg_loop :: "'s br_hmac_key_context \<Rightarrow> nat \<Rightarrow> u8 list \<Rightarrow> nat \<Rightarrow> u8 list \<times> u8 list" where
  "drbg_loop kc hlen V len =
     (if len = 0 then ([], V)
      else if hlen = 0 then ([], V)
      else let hc = br_hmac_init kc 0;
               hc = br_hmac_update hc (take hlen V);
               V = br_hmac_out hc;
               clen = hlen;
               clen = (if len < clen then len else clen);
               (rest, V') = drbg_loop kc hlen V (len - clen)
           in (take clen V @ rest, V'))"
  by pat_completeness auto
termination by (relation "measure (\<lambda>(kc, hlen, V, len). len)") auto

declare drbg_loop.simps [simp del]

definition br_hmac_drbg_generate :: "'s br_hmac_drbg_context \<Rightarrow> nat \<Rightarrow> u8 list \<times> 's br_hmac_drbg_context" where
  "br_hmac_drbg_generate ctx len =
     (let dig = digest_class ctx;
          hlen = br_digest_size dig;
          kc = br_hmac_key_init dig (take hlen (drbg_K ctx));
          (out, V) = drbg_loop kc hlen (drbg_V ctx) len;
          ctx = ctx\<lparr>drbg_V := V\<rparr>;
          hc = br_hmac_init kc 0;
          hc = br_hmac_update hc (take hlen (drbg_V ctx));
          hc = br_hmac_update hc [0x00];
          ctx = ctx\<lparr>drbg_K := br_hmac_out hc\<rparr>;
          kc = br_hmac_key_init dig (take hlen (drbg_K ctx));
          hc = br_hmac_init kc 0;
          hc = br_hmac_update hc (take hlen (drbg_V ctx))
      in (out, ctx\<lparr>drbg_V := br_hmac_out hc\<rparr>))"

subsection \<open>HKDF\<close>

text \<open>The union of the two HMAC contexts is a sum; reading the other member is undefined behaviour.\<close>

datatype 's hkdf_u = Hmac_ctx "'s br_hmac_context" | Prk_ctx "'s br_hmac_key_context"

fun hmac_ctx :: "'s hkdf_u \<Rightarrow> 's br_hmac_context" where
  "hmac_ctx (Hmac_ctx c) = c"
| "hmac_ctx (Prk_ctx c) = undefined"

fun prk_ctx :: "'s hkdf_u \<Rightarrow> 's br_hmac_key_context" where
  "prk_ctx (Prk_ctx c) = c"
| "prk_ctx (Hmac_ctx c) = undefined"

record 's br_hkdf_context =
  hk_u :: "'s hkdf_u"
  hk_buf :: "u8 list"
  hk_ptr :: nat
  dig_len :: nat
  chunk_num :: u32

text \<open>A salt of \<^term>\<open>None\<close> is \<^verbatim>\<open>BR_HKDF_NO_SALT\<close>; \<open>hc\<close> is the context to initialise.\<close>

definition br_hkdf_init :: "'s br_hkdf_context \<Rightarrow> 's br_hash_class \<Rightarrow> u8 list option \<Rightarrow> 's br_hkdf_context" where
  "br_hkdf_init hc dig salt =
     (let salt = (case salt of None \<Rightarrow> replicate (br_digest_size dig) 0 | Some s \<Rightarrow> s);
          kc = br_hmac_key_init dig salt;
          c = br_hmac_init kc 0
      in hc\<lparr>hk_u := Hmac_ctx c, dig_len := br_hmac_size c\<rparr>)"

definition br_hkdf_inject :: "'s br_hkdf_context \<Rightarrow> u8 list \<Rightarrow> 's br_hkdf_context" where
  "br_hkdf_inject hc ikm = hc\<lparr>hk_u := Hmac_ctx (br_hmac_update (hmac_ctx (hk_u hc)) ikm)\<rparr>"

definition br_hkdf_flip :: "'s br_hkdf_context \<Rightarrow> 's br_hkdf_context" where
  "br_hkdf_flip hc =
     (let tmp = br_hmac_out (hmac_ctx (hk_u hc))
      in hc\<lparr>hk_u := Prk_ctx (br_hmac_key_init (br_hmac_get_digest (hmac_ctx (hk_u hc))) (take (dig_len hc) tmp)),
            hk_ptr := dig_len hc, chunk_num := 0\<rparr>)"

text \<open>The next block, after \<open>chunk_num\<close> was counted up.\<close>

definition hkdf_block :: "'s br_hkdf_context \<Rightarrow> u8 list \<Rightarrow> 's br_hkdf_context" where
  "hkdf_block hc info =
     (let x = ucast (chunk_num hc) :: u8;
          c = br_hmac_init (prk_ctx (hk_u hc)) 0;
          c = (if x \<noteq> 1 then br_hmac_update c (take (dig_len hc) (hk_buf hc)) else c);
          c = br_hmac_update c info;
          c = br_hmac_update c [x]
      in hc\<lparr>hk_buf := br_hmac_out c, hk_ptr := 0\<rparr>)"

text \<open>Returns the bytes written, whose number is the result of the C function, and the new context.\<close>

function br_hkdf_produce :: "'s br_hkdf_context \<Rightarrow> u8 list \<Rightarrow> nat \<Rightarrow> u8 list \<times> 's br_hkdf_context" where
  "br_hkdf_produce hc info olen =
     (if olen = 0 then ([], hc)
      else let full = (hk_ptr hc = dig_len hc);
               hc = (if full then hc\<lparr>chunk_num := chunk_num hc + 1\<rparr> else hc)
           in if full \<and> chunk_num hc = 256 then ([], hc)
              else let hc = (if full then hkdf_block hc info else hc);
                       clen = dig_len hc - hk_ptr hc;
                       clen = (if olen < clen then olen else clen);
                       bytes = take clen (drop (hk_ptr hc) (hk_buf hc));
                       hc = hc\<lparr>hk_ptr := hk_ptr hc + clen\<rparr>
                   in if clen = 0 then ([], hc)
                      else let (rest, hc) = br_hkdf_produce hc info (olen - clen) in (bytes @ rest, hc))"
  by pat_completeness auto
termination by (relation "measure (\<lambda>(hc, info, olen). olen)") auto

declare br_hkdf_produce.simps [simp del]

end
