(* ===== verification/Md5Sha1.thy ===== *)
theory Md5Sha1
  imports Hmac
begin

section \<open>MD5, SHA-1 and their concatenation (bearssl/src/hash/md5.c, sha1.c, md5sha1.c)\<close>

text \<open>
  The rounds are unrolled as in the source: one pass of a loop does four steps of MD5 or five of
  SHA-1 and the roles of the variables rotate in the text, not at run time.  The chaining value is the
  array \<open>val\<close>.  The specification with one step at a time follows each of them.
\<close>

definition ROTL :: "u32 \<Rightarrow> nat \<Rightarrow> u32" where
  "ROTL x n = push_bit n x OR drop_bit (32 - n) x"

subsection \<open>MD5\<close>

definition md5_F :: "u32 \<Rightarrow> u32 \<Rightarrow> u32 \<Rightarrow> u32" where "md5_F b c d = ((c XOR d) AND b) XOR d"
definition md5_G :: "u32 \<Rightarrow> u32 \<Rightarrow> u32 \<Rightarrow> u32" where "md5_G b c d = ((c XOR b) AND d) XOR c"
definition md5_H :: "u32 \<Rightarrow> u32 \<Rightarrow> u32 \<Rightarrow> u32" where "md5_H b c d = b XOR c XOR d"
definition md5_I :: "u32 \<Rightarrow> u32 \<Rightarrow> u32 \<Rightarrow> u32" where "md5_I b c d = c XOR (b OR NOT d)"

definition br_md5_IV :: "u32 list" where
  "br_md5_IV = [0x67452301, 0xEFCDAB89, 0x98BADCFE, 0x10325476]"

definition md5_K :: "u32 list" where
  "md5_K = concat [
     [0xD76AA478, 0xE8C7B756, 0x242070DB, 0xC1BDCEEE],
     [0xF57C0FAF, 0x4787C62A, 0xA8304613, 0xFD469501],
     [0x698098D8, 0x8B44F7AF, 0xFFFF5BB1, 0x895CD7BE],
     [0x6B901122, 0xFD987193, 0xA679438E, 0x49B40821],
     [0xF61E2562, 0xC040B340, 0x265E5A51, 0xE9B6C7AA],
     [0xD62F105D, 0x02441453, 0xD8A1E681, 0xE7D3FBC8],
     [0x21E1CDE6, 0xC33707D6, 0xF4D50D87, 0x455A14ED],
     [0xA9E3E905, 0xFCEFA3F8, 0x676F02D9, 0x8D2A4C8A],
     [0xFFFA3942, 0x8771F681, 0x6D9D6122, 0xFDE5380C],
     [0xA4BEEA44, 0x4BDECFA9, 0xF6BB4B60, 0xBEBFBC70],
     [0x289B7EC6, 0xEAA127FA, 0xD4EF3085, 0x04881D05],
     [0xD9D4D039, 0xE6DB99E5, 0x1FA27CF8, 0xC4AC5665],
     [0xF4292244, 0x432AFF97, 0xAB9423A7, 0xFC93A039],
     [0x655B59C3, 0x8F0CCC92, 0xFFEFF47D, 0x85845DD1],
     [0x6FA87E4F, 0xFE2CE6E0, 0xA3014314, 0x4E0811A1],
     [0xF7537E82, 0xBD3AF235, 0x2AD7D2BB, 0xEB86D391]]"

definition md5_MP :: "nat list" where
  "md5_MP = [
     1, 6, 11, 0, 5, 10, 15, 4, 9, 14, 3, 8, 13, 2, 7, 12,
     5, 8, 11, 14, 1, 4, 7, 10, 13, 0, 3, 6, 9, 12, 15, 2,
     0, 7, 14, 5, 12, 3, 10, 1, 8, 15, 6, 13, 4, 11, 2, 9]"

text \<open>
  One pass of a loop of four steps.  The four loops differ in the function \<open>f\<close>, the rotations \<open>r\<close>
  and the index \<open>p\<close> of the message word of a step.
\<close>

definition md5_pass :: "(u32 \<Rightarrow> u32 \<Rightarrow> u32 \<Rightarrow> u32) \<Rightarrow> nat list \<Rightarrow> (nat \<Rightarrow> nat) \<Rightarrow> u32 list \<Rightarrow> nat
    \<Rightarrow> u32 \<times> u32 \<times> u32 \<times> u32 \<Rightarrow> u32 \<times> u32 \<times> u32 \<times> u32" where
  "md5_pass f r p m i = (\<lambda>(a, b, c, d).
     let a = b + ROTL (a + f b c d + m ! p (i + 0) + md5_K ! (i + 0)) (r ! 0);
         d = a + ROTL (d + f a b c + m ! p (i + 1) + md5_K ! (i + 1)) (r ! 1);
         c = d + ROTL (c + f d a b + m ! p (i + 2) + md5_K ! (i + 2)) (r ! 2);
         b = c + ROTL (b + f c d a + m ! p (i + 3) + md5_K ! (i + 3)) (r ! 3)
     in (a, b, c, d))"

definition br_md5_round :: "u8 list \<Rightarrow> u32 list \<Rightarrow> u32 list" where
  "br_md5_round buf val =
     (let a = val ! 0; b = val ! 1; c = val ! 2; d = val ! 3;
          m = br_range_dec32le 16 buf;
          mp = (\<lambda>i. md5_MP ! (i - 16));
          s = fold (md5_pass md5_F [7, 12, 17, 22] (\<lambda>i. i) m) [0, 4, 8, 12] (a, b, c, d);
          s = fold (md5_pass md5_G [5, 9, 14, 20] mp m) [16, 20, 24, 28] s;
          s = fold (md5_pass md5_H [4, 11, 16, 23] mp m) [32, 36, 40, 44] s;
          (a, b, c, d) = fold (md5_pass md5_I [6, 10, 15, 21] mp m) [48, 52, 56, 60] s
      in [val ! 0 + a, val ! 1 + b, val ! 2 + c, val ! 3 + d])"

type_synonym br_md5_context = "u32 list md_context"

definition br_md5_init :: "br_md5_context \<Rightarrow> br_md5_context" where
  "br_md5_init cc = cc\<lparr>cc_val := br_md5_IV, cc_count := 0\<rparr>"

definition br_md5_update :: "br_md5_context \<Rightarrow> u8 list \<Rightarrow> br_md5_context" where
  "br_md5_update cc data =
     (let ptr = unat (cc_count cc AND 63)
      in md_loop 64 br_md5_round (\<lambda>clen count. count + of_nat clen) ptr data cc)"

definition br_md5_out :: "br_md5_context \<Rightarrow> u8 list" where
  "br_md5_out cc =
     (let ptr = unat (cc_count cc AND 63);
          (buf, val) = md_head 64 56 br_md5_round ptr (cc_buf cc) (cc_val cc);
          buf = buf @ br_enc64le (push_bit 3 (cc_count cc));
          val = br_md5_round buf val
      in br_range_enc32le val 4)"

definition br_md5_state :: "br_md5_context \<Rightarrow> u8 list \<times> u64" where
  "br_md5_state cc = (br_range_enc32le (cc_val cc) 4, cc_count cc)"

definition br_md5_set_state :: "br_md5_context \<Rightarrow> u8 list \<Rightarrow> u64 \<Rightarrow> br_md5_context" where
  "br_md5_set_state cc stb count = cc\<lparr>cc_val := br_range_dec32le 4 stb, cc_count := count\<rparr>"

definition br_md5_vtable :: "u32 list junk \<Rightarrow> br_md5_context br_hash_class" where
  "br_md5_vtable mem =
     \<lparr>context_mem = stack_context 64 mem,
      desc = BR_HASHDESC_ID 1 OR BR_HASHDESC_OUT 16 OR BR_HASHDESC_STATE 16 OR BR_HASHDESC_LBLEN 6
        OR BR_HASHDESC_MD_PADDING,
      hc_init = br_md5_init, hc_update = br_md5_update, hc_out = br_md5_out,
      hc_state = br_md5_state, hc_set_state = br_md5_set_state\<rparr>"

subsection \<open>SHA-1\<close>

definition sha1_F :: "u32 \<Rightarrow> u32 \<Rightarrow> u32 \<Rightarrow> u32" where "sha1_F b c d = ((c XOR d) AND b) XOR d"
definition sha1_G :: "u32 \<Rightarrow> u32 \<Rightarrow> u32 \<Rightarrow> u32" where "sha1_G b c d = b XOR c XOR d"
definition sha1_H :: "u32 \<Rightarrow> u32 \<Rightarrow> u32 \<Rightarrow> u32" where "sha1_H b c d = (d AND c) OR ((d OR c) AND b)"
definition sha1_I :: "u32 \<Rightarrow> u32 \<Rightarrow> u32 \<Rightarrow> u32" where "sha1_I b c d = sha1_G b c d"

definition sha1_K1 :: u32 where "sha1_K1 = 0x5A827999"
definition sha1_K2 :: u32 where "sha1_K2 = 0x6ED9EBA1"
definition sha1_K3 :: u32 where "sha1_K3 = 0x8F1BBCDC"
definition sha1_K4 :: u32 where "sha1_K4 = 0xCA62C1D6"

definition br_sha1_IV :: "u32 list" where
  "br_sha1_IV = [0x67452301, 0xEFCDAB89, 0x98BADCFE, 0x10325476, 0xC3D2E1F0]"

text \<open>One pass of a loop of five steps; the four loops differ in \<open>f\<close> and \<open>k\<close>.\<close>

definition sha1_pass :: "(u32 \<Rightarrow> u32 \<Rightarrow> u32 \<Rightarrow> u32) \<Rightarrow> u32 \<Rightarrow> u32 list \<Rightarrow> nat \<Rightarrow> u32 \<times> u32 \<times> u32 \<times> u32 \<times> u32
    \<Rightarrow> u32 \<times> u32 \<times> u32 \<times> u32 \<times> u32" where
  "sha1_pass f k m i = (\<lambda>(a, b, c, d, e).
     let e = e + (ROTL a 5 + f b c d + k + m ! (i + 0)); b = ROTL b 30;
         d = d + (ROTL e 5 + f a b c + k + m ! (i + 1)); a = ROTL a 30;
         c = c + (ROTL d 5 + f e a b + k + m ! (i + 2)); e = ROTL e 30;
         b = b + (ROTL c 5 + f d e a + k + m ! (i + 3)); d = ROTL d 30;
         a = a + (ROTL b 5 + f c d e + k + m ! (i + 4)); c = ROTL c 30
     in (a, b, c, d, e))"

definition br_sha1_round :: "u8 list \<Rightarrow> u32 list \<Rightarrow> u32 list" where
  "br_sha1_round buf val =
     (let a = val ! 0; b = val ! 1; c = val ! 2; d = val ! 3; e = val ! 4;
          m = br_range_dec32be 16 buf;
          m = fold (\<lambda>i m. let x = m ! (i - 3) XOR m ! (i - 8) XOR m ! (i - 14) XOR m ! (i - 16)
                          in m @ [ROTL x 1]) [16..<80] m;
          s = fold (sha1_pass sha1_F sha1_K1 m) [0, 5, 10, 15] (a, b, c, d, e);
          s = fold (sha1_pass sha1_G sha1_K2 m) [20, 25, 30, 35] s;
          s = fold (sha1_pass sha1_H sha1_K3 m) [40, 45, 50, 55] s;
          (a, b, c, d, e) = fold (sha1_pass sha1_I sha1_K4 m) [60, 65, 70, 75] s
      in [val ! 0 + a, val ! 1 + b, val ! 2 + c, val ! 3 + d, val ! 4 + e])"

type_synonym br_sha1_context = "u32 list md_context"

definition br_sha1_init :: "br_sha1_context \<Rightarrow> br_sha1_context" where
  "br_sha1_init cc = cc\<lparr>cc_val := br_sha1_IV, cc_count := 0\<rparr>"

definition br_sha1_update :: "br_sha1_context \<Rightarrow> u8 list \<Rightarrow> br_sha1_context" where
  "br_sha1_update cc data =
     (let ptr = unat (cc_count cc AND 63)
      in md_loop 64 br_sha1_round (\<lambda>clen count. count + of_nat clen) ptr data cc)"

definition br_sha1_out :: "br_sha1_context \<Rightarrow> u8 list" where
  "br_sha1_out cc =
     (let ptr = unat (cc_count cc AND 63);
          (buf, val) = md_head 64 56 br_sha1_round ptr (cc_buf cc) (cc_val cc);
          buf = buf @ br_enc64be (push_bit 3 (cc_count cc));
          val = br_sha1_round buf val
      in br_range_enc32be val 5)"

definition br_sha1_state :: "br_sha1_context \<Rightarrow> u8 list \<times> u64" where
  "br_sha1_state cc = (br_range_enc32be (cc_val cc) 5, cc_count cc)"

definition br_sha1_set_state :: "br_sha1_context \<Rightarrow> u8 list \<Rightarrow> u64 \<Rightarrow> br_sha1_context" where
  "br_sha1_set_state cc stb count = cc\<lparr>cc_val := br_range_dec32be 5 stb, cc_count := count\<rparr>"

definition br_sha1_vtable :: "u32 list junk \<Rightarrow> br_sha1_context br_hash_class" where
  "br_sha1_vtable mem =
     \<lparr>context_mem = stack_context 64 mem,
      desc = BR_HASHDESC_ID 2 OR BR_HASHDESC_OUT 20 OR BR_HASHDESC_STATE 20 OR BR_HASHDESC_LBLEN 6
        OR BR_HASHDESC_MD_PADDING OR BR_HASHDESC_MD_PADDING_BE,
      hc_init = br_sha1_init, hc_update = br_sha1_update, hc_out = br_sha1_out,
      hc_state = br_sha1_state, hc_set_state = br_sha1_set_state\<rparr>"

subsection \<open>MD5 and SHA-1 at once\<close>

text \<open>The chaining value is the pair of \<open>val_md5\<close> and \<open>val_sha1\<close>.\<close>

type_synonym br_md5sha1_context = "(u32 list \<times> u32 list) md_context"

definition md5sha1_round :: "u8 list \<Rightarrow> u32 list \<times> u32 list \<Rightarrow> u32 list \<times> u32 list" where
  "md5sha1_round buf v = (br_md5_round buf (fst v), br_sha1_round buf (snd v))"

definition br_md5sha1_init :: "br_md5sha1_context \<Rightarrow> br_md5sha1_context" where
  "br_md5sha1_init cc = cc\<lparr>cc_val := (br_md5_IV, br_sha1_IV), cc_count := 0\<rparr>"

definition br_md5sha1_update :: "br_md5sha1_context \<Rightarrow> u8 list \<Rightarrow> br_md5sha1_context" where
  "br_md5sha1_update cc data =
     (let ptr = unat (cc_count cc AND 63)
      in md_loop 64 md5sha1_round (\<lambda>clen count. count + of_nat clen) ptr data cc)"

definition br_md5sha1_out :: "br_md5sha1_context \<Rightarrow> u8 list" where
  "br_md5sha1_out cc =
     (let count = cc_count cc;
          ptr = unat (count AND 63);
          (buf, val_md5, val_sha1) = md_head 64 56 md5sha1_round ptr (cc_buf cc) (cc_val cc);
          count = push_bit 3 count;
          val_md5 = br_md5_round (buf @ br_enc64le count) val_md5;
          val_sha1 = br_sha1_round (buf @ br_enc64be count) val_sha1
      in br_range_enc32le val_md5 4 @ br_range_enc32be val_sha1 5)"

definition br_md5sha1_state :: "br_md5sha1_context \<Rightarrow> u8 list \<times> u64" where
  "br_md5sha1_state cc =
     (br_range_enc32le (fst (cc_val cc)) 4 @ br_range_enc32be (snd (cc_val cc)) 5, cc_count cc)"

definition br_md5sha1_set_state :: "br_md5sha1_context \<Rightarrow> u8 list \<Rightarrow> u64 \<Rightarrow> br_md5sha1_context" where
  "br_md5sha1_set_state cc stb count =
     cc\<lparr>cc_val := (br_range_dec32le 4 stb, br_range_dec32be 5 (drop 16 stb)), cc_count := count\<rparr>"

definition br_md5sha1_vtable :: "(u32 list \<times> u32 list) junk \<Rightarrow> br_md5sha1_context br_hash_class" where
  "br_md5sha1_vtable mem =
     \<lparr>context_mem = stack_context 64 mem,
      desc = BR_HASHDESC_ID 0 OR BR_HASHDESC_OUT 36 OR BR_HASHDESC_STATE 36 OR BR_HASHDESC_LBLEN 6,
      hc_init = br_md5sha1_init, hc_update = br_md5sha1_update, hc_out = br_md5sha1_out,
      hc_state = br_md5sha1_state, hc_set_state = br_md5sha1_set_state\<rparr>"

subsection \<open>Specifications: one step at a time\<close>

definition md5_step :: "u32 list \<Rightarrow> nat \<Rightarrow> u32 \<times> u32 \<times> u32 \<times> u32 \<Rightarrow> u32 \<times> u32 \<times> u32 \<times> u32" where
  "md5_step m i = (\<lambda>(a, b, c, d).
     let (f, g, s) =
       (if i < 16 then ((b AND c) OR (NOT b AND d), i, [7, 12, 17, 22])
        else if i < 32 then ((b AND d) OR (c AND NOT d), (5 * i + 1) mod 16, [5, 9, 14, 20])
        else if i < 48 then (b XOR c XOR d, (3 * i + 5) mod 16, [4, 11, 16, 23])
        else (c XOR (b OR NOT d), (7 * i) mod 16, [6, 10, 15, 21]))
     in (d, b + word_rotl (s ! (i mod 4)) (a + f + md5_K ! i + m ! g), b, c))"

definition md5_compress :: "u8 list \<Rightarrow> u32 list \<Rightarrow> u32 list" where
  "md5_compress buf v =
     (let (a, b, c, d) = fold (md5_step (br_range_dec32le 16 buf)) [0..<64] (v ! 0, v ! 1, v ! 2, v ! 3)
      in [v ! 0 + a, v ! 1 + b, v ! 2 + c, v ! 3 + d])"

definition md5_digest :: "u8 list \<Rightarrow> u8 list" where
  "md5_digest m = concat (map br_enc32le (md_hash 64 56 (\<lambda>l. br_enc64le (of_nat (8 * l))) md5_compress br_md5_IV m))"

definition sha1_step :: "(nat \<Rightarrow> u32) \<Rightarrow> nat \<Rightarrow> u32 \<times> u32 \<times> u32 \<times> u32 \<times> u32 \<Rightarrow> u32 \<times> u32 \<times> u32 \<times> u32 \<times> u32" where
  "sha1_step w t = (\<lambda>(a, b, c, d, e).
     let (f, k) =
       (if t < 20 then ((b AND c) OR (NOT b AND d), sha1_K1)
        else if t < 40 then (b XOR c XOR d, sha1_K2)
        else if t < 60 then ((b AND c) OR (b AND d) OR (c AND d), sha1_K3)
        else (b XOR c XOR d, sha1_K4))
     in (word_rotl 5 a + f + e + k + w t, a, word_rotl 30 b, c, d))"

fun sha1_w :: "u32 list \<Rightarrow> nat \<Rightarrow> u32" where
  "sha1_w m t = (if t < 16 then m ! t
     else word_rotl 1 (sha1_w m (t - 3) XOR sha1_w m (t - 8) XOR sha1_w m (t - 14) XOR sha1_w m (t - 16)))"

declare sha1_w.simps [simp del]

definition sha1_compress :: "u8 list \<Rightarrow> u32 list \<Rightarrow> u32 list" where
  "sha1_compress buf v =
     (let (a, b, c, d, e) = fold (sha1_step (sha1_w (br_range_dec32be 16 buf))) [0..<80] (v ! 0, v ! 1, v ! 2, v ! 3, v ! 4)
      in [v ! 0 + a, v ! 1 + b, v ! 2 + c, v ! 3 + d, v ! 4 + e])"

definition sha1_digest :: "u8 list \<Rightarrow> u8 list" where
  "sha1_digest m = concat (map br_enc32be (md_hash 64 56 (\<lambda>l. br_enc64be (of_nat (8 * l))) sha1_compress br_sha1_IV m))"

subsection \<open>The unrolled rounds are these steps\<close>

lemma ROTL_rotl: "0 < n \<Longrightarrow> n < 32 \<Longrightarrow> ROTL x n = word_rotl n x"
  by (simp add: ROTL_def shifts_rotl)

lemma md5_FG: "md5_F b c d = (b AND c) OR (NOT b AND d)" "md5_G b c d = (b AND d) OR (c AND NOT d)"
  unfolding md5_F_def md5_G_def by (rule bit_word_eqI; auto simp: bit_simps)+

lemmas md5_funs = md5_FG md5_H_def md5_I_def

lemma upt_unroll4: "[i..<i + 4] = [i, i + 1, i + 2, i + 3 :: nat]"
  by (simp add: upt_conv_Cons)

lemma upt_unroll5: "[i..<i + 5] = [i, i + 1, i + 2, i + 3, i + 4 :: nat]"
  by (simp add: upt_conv_Cons)

lemma md5_MP_table:
  "\<forall>i \<in> set [16..<32]. md5_MP ! (i - 16) = (5 * i + 1) mod 16"
  "\<forall>i \<in> set [32..<48]. md5_MP ! (i - 16) = (3 * i + 5) mod 16"
  "\<forall>i \<in> set [48..<64]. md5_MP ! (i - 16) = (7 * i) mod 16"
  by code_simp+

lemma md5_MP_step:
  "16 \<le> i \<Longrightarrow> i < 32 \<Longrightarrow> md5_MP ! (i - 16) = (5 * i + 1) mod 16"
  "32 \<le> i \<Longrightarrow> i < 48 \<Longrightarrow> md5_MP ! (i - 16) = (3 * i + 5) mod 16"
  "48 \<le> i \<Longrightarrow> i < 64 \<Longrightarrow> md5_MP ! (i - 16) = (7 * i) mod 16"
  by (rule bspec [OF md5_MP_table(1)] bspec [OF md5_MP_table(2)] bspec [OF md5_MP_table(3)], simp only: set_upt atLeastLessThan_iff simp_thms)+

lemma md5_steps:
  assumes i: "4 dvd i"
    and step: "\<And>j a b c d. i \<le> j \<Longrightarrow> j < i + 4 \<Longrightarrow>
      md5_step m j (a, b, c, d) = (d, b + ROTL (a + f b c d + m ! p j + md5_K ! j) (r ! (j mod 4)), b, c)"
  shows "md5_pass f r p m i = fold (md5_step m) [i..<i + 4]"
proof
  fix s :: "u32 \<times> u32 \<times> u32 \<times> u32"
  obtain a b c d where s: "s = (a, b, c, d)" by (cases s) auto
  have "(i + 0) mod 4 = 0" "(i + 1) mod 4 = 1" "(i + 2) mod 4 = 2" "(i + 3) mod 4 = 3" using i by presburger+
  note step [of "i + 0", unfolded this(1)] step [of "i + 1", unfolded this(2)] step [of "i + 2", unfolded this(3)]
    step [of "i + 3", unfolded this(4)]
  then show "md5_pass f r p m i s = fold (md5_step m) [i..<i + 4] s"
    unfolding s md5_pass_def prod.case Let_def upt_unroll4 by simp
qed

lemma rot_table:
  "length l = 4 \<Longrightarrow> \<forall>r \<in> set l. 0 < r \<and> r < 32 \<Longrightarrow> word_rotl (l ! (j mod 4)) x = ROTL x (l ! (j mod 4))"
  by (rule ROTL_rotl [symmetric]) (metis mod_less_divisor nth_mem zero_less_numeral)+

lemma md5_step_ranges:
  "j < 16 \<Longrightarrow> md5_step m j (a, b, c, d) = (d, b + ROTL (a + md5_F b c d + m ! j + md5_K ! j) ([7, 12, 17, 22] ! (j mod 4)), b, c)"
  "16 \<le> j \<Longrightarrow> j < 32 \<Longrightarrow> md5_step m j (a, b, c, d)
    = (d, b + ROTL (a + md5_G b c d + m ! (md5_MP ! (j - 16)) + md5_K ! j) ([5, 9, 14, 20] ! (j mod 4)), b, c)"
  "32 \<le> j \<Longrightarrow> j < 48 \<Longrightarrow> md5_step m j (a, b, c, d)
    = (d, b + ROTL (a + md5_H b c d + m ! (md5_MP ! (j - 16)) + md5_K ! j) ([4, 11, 16, 23] ! (j mod 4)), b, c)"
  "48 \<le> j \<Longrightarrow> j < 64 \<Longrightarrow> md5_step m j (a, b, c, d)
    = (d, b + ROTL (a + md5_I b c d + m ! (md5_MP ! (j - 16)) + md5_K ! j) ([6, 10, 15, 21] ! (j mod 4)), b, c)"
  unfolding md5_step_def md5_funs Let_def prod.case
  by (simp_all add: rot_table md5_MP_step) (simp_all only: ac_simps)

lemma md5_passes:
  "i \<in> set [0, 4, 8, 12] \<Longrightarrow> md5_pass md5_F [7, 12, 17, 22] (\<lambda>i. i) m i = fold (md5_step m) [i..<i + 4]"
  "i \<in> set [16, 20, 24, 28] \<Longrightarrow> md5_pass md5_G [5, 9, 14, 20] (\<lambda>i. md5_MP ! (i - 16)) m i = fold (md5_step m) [i..<i + 4]"
  "i \<in> set [32, 36, 40, 44] \<Longrightarrow> md5_pass md5_H [4, 11, 16, 23] (\<lambda>i. md5_MP ! (i - 16)) m i = fold (md5_step m) [i..<i + 4]"
  "i \<in> set [48, 52, 56, 60] \<Longrightarrow> md5_pass md5_I [6, 10, 15, 21] (\<lambda>i. md5_MP ! (i - 16)) m i = fold (md5_step m) [i..<i + 4]"
  by (rule md5_steps, force, (rule md5_step_ranges; force))+

lemma br_md5_round_steps: "br_md5_round buf val = md5_compress buf val"
proof -
  have all: "[0..<64] = concat (map (\<lambda>i. [i..<i + 4]) [0, 4, 8, 12]) @ concat (map (\<lambda>i. [i..<i + 4]) [16, 20, 24, 28])
      @ concat (map (\<lambda>i. [i..<i + 4]) [32, 36, 40, 44]) @ concat (map (\<lambda>i. [i..<i + 4]) [48, 52, 56, 60 :: nat])"
    by code_simp
  have loops:
    "fold (md5_pass md5_F [7, 12, 17, 22] (\<lambda>i. i) m) [0, 4, 8, 12] s
      = fold (md5_step m) (concat (map (\<lambda>i. [i..<i + 4]) [0, 4, 8, 12])) s"
    "fold (md5_pass md5_G [5, 9, 14, 20] (\<lambda>i. md5_MP ! (i - 16)) m) [16, 20, 24, 28] s
      = fold (md5_step m) (concat (map (\<lambda>i. [i..<i + 4]) [16, 20, 24, 28])) s"
    "fold (md5_pass md5_H [4, 11, 16, 23] (\<lambda>i. md5_MP ! (i - 16)) m) [32, 36, 40, 44] s
      = fold (md5_step m) (concat (map (\<lambda>i. [i..<i + 4]) [32, 36, 40, 44])) s"
    "fold (md5_pass md5_I [6, 10, 15, 21] (\<lambda>i. md5_MP ! (i - 16)) m) [48, 52, 56, 60] s
      = fold (md5_step m) (concat (map (\<lambda>i. [i..<i + 4]) [48, 52, 56, 60])) s" for m s
    by (rule fold_groups, rule md5_passes, assumption)+
  show ?thesis
    unfolding br_md5_round_def md5_compress_def all fold_append o_apply Let_def loops ..
qed

text \<open>SHA-1: the schedule and the loops of five steps.\<close>

lemma sha1_FH: "sha1_F b c d = (b AND c) OR (NOT b AND d)" "sha1_H b c d = (b AND c) OR (b AND d) OR (c AND d)"
  unfolding sha1_F_def sha1_H_def by (rule bit_word_eqI; auto simp: bit_simps)+

lemmas sha1_funs = sha1_FH sha1_G_def sha1_I_def

lemma sha1_schedule:
  assumes "length m = 16" and "16 \<le> n" and "n \<le> 80"
  shows "fold (\<lambda>i m. let x = m ! (i - 3) XOR m ! (i - 8) XOR m ! (i - 14) XOR m ! (i - 16) in m @ [ROTL x 1]) [16..<n] m
    = map (sha1_w m) [0..<n]"
  using assms(2,3)
proof (induction n rule: dec_induct)
  case base
  have "map (sha1_w m) [0..<16] = map (nth m) [0..<16]" by (intro map_cong) (auto simp: sha1_w.simps)
  then have "map (sha1_w m) [0..<16] = m" using assms(1) map_nth [of m] by (simp only:)
  then show ?case by simp
next
  case (step n)
  then show ?case by (simp add: ROTL_rotl nth_append Let_def sha1_w.simps [of m n])
qed

lemma sha1_steps:
  assumes step: "\<And>j a b c d e. i \<le> j \<Longrightarrow> j < i + 5 \<Longrightarrow>
      sha1_step w j (a, b, c, d, e) = (e + (ROTL a 5 + f b c d + k + m ! j), a, ROTL b 30, c, d)"
  shows "sha1_pass f k m i = fold (sha1_step w) [i..<i + 5]"
proof
  fix s :: "u32 \<times> u32 \<times> u32 \<times> u32 \<times> u32"
  obtain a b c d e where s: "s = (a, b, c, d, e)" by (cases s) auto
  note step [of "i + 0"] step [of "i + 1"] step [of "i + 2"] step [of "i + 3"] step [of "i + 4"]
  then show "sha1_pass f k m i s = fold (sha1_step w) [i..<i + 5] s"
    unfolding s sha1_pass_def prod.case Let_def upt_unroll5 by simp
qed

lemma sha1_step_ranges:
  assumes "m ! t = w t"
  shows "t < 20 \<Longrightarrow> sha1_step w t (a, b, c, d, e) = (e + (ROTL a 5 + sha1_F b c d + sha1_K1 + m ! t), a, ROTL b 30, c, d)"
    "20 \<le> t \<Longrightarrow> t < 40 \<Longrightarrow> sha1_step w t (a, b, c, d, e) = (e + (ROTL a 5 + sha1_G b c d + sha1_K2 + m ! t), a, ROTL b 30, c, d)"
    "40 \<le> t \<Longrightarrow> t < 60 \<Longrightarrow> sha1_step w t (a, b, c, d, e) = (e + (ROTL a 5 + sha1_H b c d + sha1_K3 + m ! t), a, ROTL b 30, c, d)"
    "60 \<le> t \<Longrightarrow> sha1_step w t (a, b, c, d, e) = (e + (ROTL a 5 + sha1_I b c d + sha1_K4 + m ! t), a, ROTL b 30, c, d)"
  unfolding sha1_step_def sha1_funs Let_def prod.case using assms by (simp_all add: ROTL_rotl)

lemma sha1_passes:
  assumes "\<And>t. t < 80 \<Longrightarrow> m ! t = w t"
  shows "i \<in> set [0, 5, 10, 15] \<Longrightarrow> sha1_pass sha1_F sha1_K1 m i = fold (sha1_step w) [i..<i + 5]"
    "i \<in> set [20, 25, 30, 35] \<Longrightarrow> sha1_pass sha1_G sha1_K2 m i = fold (sha1_step w) [i..<i + 5]"
    "i \<in> set [40, 45, 50, 55] \<Longrightarrow> sha1_pass sha1_H sha1_K3 m i = fold (sha1_step w) [i..<i + 5]"
    "i \<in> set [60, 65, 70, 75] \<Longrightarrow> sha1_pass sha1_I sha1_K4 m i = fold (sha1_step w) [i..<i + 5]"
proof -
  have r: "j < 80" if "i \<in> set [0, 5, 10, 15, 20, 25, 30, 35, 40, 45, 50, 55, 60, 65, 70, 75]" "j < i + 5" for j using that by auto
  show "i \<in> set [0, 5, 10, 15] \<Longrightarrow> sha1_pass sha1_F sha1_K1 m i = fold (sha1_step w) [i..<i + 5]"
    by (rule sha1_steps, rule sha1_step_ranges(1) [OF assms]) (use r in auto)
  show "i \<in> set [20, 25, 30, 35] \<Longrightarrow> sha1_pass sha1_G sha1_K2 m i = fold (sha1_step w) [i..<i + 5]"
    by (rule sha1_steps, rule sha1_step_ranges(2) [OF assms]) (use r in auto)
  show "i \<in> set [40, 45, 50, 55] \<Longrightarrow> sha1_pass sha1_H sha1_K3 m i = fold (sha1_step w) [i..<i + 5]"
    by (rule sha1_steps, rule sha1_step_ranges(3) [OF assms]) (use r in auto)
  show "i \<in> set [60, 65, 70, 75] \<Longrightarrow> sha1_pass sha1_I sha1_K4 m i = fold (sha1_step w) [i..<i + 5]"
    by (rule sha1_steps, rule sha1_step_ranges(4) [OF assms]) (use r in auto)
qed

lemma length_dec32be_16: "length (br_range_dec32be 16 buf) = 16"
  by (rule be32.length_range_dec)

lemma br_sha1_round_steps: "br_sha1_round buf val = sha1_compress buf val"
proof -
  have all: "[0..<80] = concat (map (\<lambda>i. [i..<i + 5]) [0, 5, 10, 15]) @ concat (map (\<lambda>i. [i..<i + 5]) [20, 25, 30, 35])
      @ concat (map (\<lambda>i. [i..<i + 5]) [40, 45, 50, 55]) @ concat (map (\<lambda>i. [i..<i + 5]) [60, 65, 70, 75 :: nat])"
    by code_simp
  define w where "w = sha1_w (br_range_dec32be 16 buf)"
  define m where "m = map w [0..<80]"
  have m: "t < 80 \<Longrightarrow> m ! t = w t" for t unfolding m_def by (simp del: upt_rec_numeral)
  have sched: "fold (\<lambda>i m. let x = m ! (i - 3) XOR m ! (i - 8) XOR m ! (i - 14) XOR m ! (i - 16) in m @ [ROTL x 1]) [16..<80]
      (br_range_dec32be 16 buf) = m"
    unfolding m_def w_def by (rule sha1_schedule [OF length_dec32be_16]) simp_all
  have loops:
    "fold (sha1_pass sha1_F sha1_K1 m) [0, 5, 10, 15] s = fold (sha1_step w) (concat (map (\<lambda>i. [i..<i + 5]) [0, 5, 10, 15])) s"
    "fold (sha1_pass sha1_G sha1_K2 m) [20, 25, 30, 35] s = fold (sha1_step w) (concat (map (\<lambda>i. [i..<i + 5]) [20, 25, 30, 35])) s"
    "fold (sha1_pass sha1_H sha1_K3 m) [40, 45, 50, 55] s = fold (sha1_step w) (concat (map (\<lambda>i. [i..<i + 5]) [40, 45, 50, 55])) s"
    "fold (sha1_pass sha1_I sha1_K4 m) [60, 65, 70, 75] s = fold (sha1_step w) (concat (map (\<lambda>i. [i..<i + 5]) [60, 65, 70, 75])) s" for s
    by (rule fold_groups, rule sha1_passes, rule m, assumption, assumption)+
  show ?thesis
    unfolding br_sha1_round_def sha1_compress_def w_def [symmetric] all fold_append o_apply Let_def
      sched [unfolded Let_def] loops ..
qed

subsection \<open>The contract\<close>

lemma md5_rnd: "br_md5_round = md5_compress"
  by (intro ext) (rule br_md5_round_steps)

lemma sha1_rnd: "br_sha1_round = sha1_compress"
  by (intro ext) (rule br_sha1_round_steps)

lemma length_md5_compress [simp]: "length (md5_compress b v) = 4"
  by (simp add: md5_compress_def split: prod.split)

lemma length_sha1_compress [simp]: "length (sha1_compress b v) = 5"
  by (simp add: sha1_compress_def split: prod.split)

lemma length_IVs [simp]: "length br_md5_IV = 4" "length br_sha1_IV = 5"
  by (simp_all add: br_md5_IV_def br_sha1_IV_def)

lemma length_fold: "length v = k \<Longrightarrow> (\<And>b v. length (f b v) = k) \<Longrightarrow> length (fold f bs v) = k"
  by (induction bs arbitrary: v) auto

lemma length_chain [simp]: "length (md_chain n md5_compress br_md5_IV m) = 4" "length (md_chain n sha1_compress br_sha1_IV m) = 5"
  by (simp_all add: md_chain_def length_fold)

lemma bits_of_bytes: "push_bit 3 (of_nat l :: u64) = of_nat (8 * l)"
  by (simp add: push_bit_eq_mult)

lemma concat_map_length: "(\<And>x. length (f x) = k) \<Longrightarrow> length (concat (map f xs)) = k * length xs"
  by (induction xs) auto

lemmas out_bytes = le32.range_enc_map be32.range_enc_map

lemma br_md5_out_spec:
  assumes "absorbed 64 br_md5_round br_md5_IV m cc" "cc_count cc = of_nat (length m)"
  shows "br_md5_out cc = md5_digest m"
proof -
  obtain buf v where h: "md_head 64 56 br_md5_round (length m mod 64) (cc_buf cc) (cc_val cc) = (buf, v)" by fastforce
  have "br_md5_round (buf @ br_enc64le (of_nat (8 * length m))) v
      = md_hash 64 56 (\<lambda>l. br_enc64le (of_nat (8 * l))) br_md5_round br_md5_IV m"
    using md_head_spec [OF assms(1) refl _ _ h] by (simp add: md_hash_def)
  then show ?thesis using h
    by (simp add: br_md5_out_def Let_def assms(2) count_masks bits_of_bytes md5_digest_def md5_rnd out_bytes md_hash_def)
qed

lemma br_sha1_out_spec:
  assumes "absorbed 64 br_sha1_round br_sha1_IV m cc" "cc_count cc = of_nat (length m)"
  shows "br_sha1_out cc = sha1_digest m"
proof -
  obtain buf v where h: "md_head 64 56 br_sha1_round (length m mod 64) (cc_buf cc) (cc_val cc) = (buf, v)" by fastforce
  have "br_sha1_round (buf @ br_enc64be (of_nat (8 * length m))) v
      = md_hash 64 56 (\<lambda>l. br_enc64be (of_nat (8 * l))) br_sha1_round br_sha1_IV m"
    using md_head_spec [OF assms(1) refl _ _ h] by (simp add: md_hash_def)
  then show ?thesis using h
    by (simp add: br_sha1_out_def Let_def assms(2) count_masks bits_of_bytes sha1_digest_def sha1_rnd out_bytes md_hash_def)
qed

lemmas md5_vt = br_md5_vtable_def block_size_def br_digest_size_def hashdesc_defs
lemmas sha1_vt = br_sha1_vtable_def block_size_def br_digest_size_def hashdesc_defs

interpretation md5: md_function "br_md5_vtable mem" md5_digest 64 br_md5_round br_md5_IV
  "\<lambda>v. length v = 4" "\<lambda>v. br_range_enc32le v 4" "br_range_dec32le 4" for mem
proof
  show "block_size (br_md5_vtable mem) = 64" by (simp add: md5_vt)
  show "length (md5_digest m) = br_digest_size (br_md5_vtable mem)" for m
    by (simp add: md5_vt md5_digest_def md_hash_def concat_map_length [where k = 4])
  show "0 < br_digest_size (br_md5_vtable mem)" "br_digest_size (br_md5_vtable mem) \<le> 64" by (simp_all add: md5_vt)
  show "absorbed 64 br_md5_round br_md5_IV (m @ d) (hc_update (br_md5_vtable mem) cc d)
      \<and> cc_count (hc_update (br_md5_vtable mem) cc d) = of_nat (length (m @ d))"
    if "absorbed 64 br_md5_round br_md5_IV m cc" "cc_count cc = of_nat (length m)" for m cc d
    unfolding br_md5_vtable_def br_hash_class.simps br_md5_update_def Let_def that(2) count_masks
    by (rule md_update_in_loop [OF that]) simp_all
  show "hc_out (br_md5_vtable mem) cc = md5_digest m"
    if "absorbed 64 br_md5_round br_md5_IV m cc" "cc_count cc = of_nat (length m)" for m cc
    using br_md5_out_spec [OF that] by (simp add: br_md5_vtable_def)
  show "br_range_dec32le 4 (br_range_enc32le v 4) = v" if "length v = 4" for v
    using le32.range_dec_enc [of v "[]"] that by simp
qed (simp_all add: br_md5_vtable_def br_md5_init_def br_md5_state_def br_md5_set_state_def md5_rnd)

interpretation sha1: md_function "br_sha1_vtable mem" sha1_digest 64 br_sha1_round br_sha1_IV
  "\<lambda>v. length v = 5" "\<lambda>v. br_range_enc32be v 5" "br_range_dec32be 5" for mem
proof
  show "block_size (br_sha1_vtable mem) = 64" by (simp add: sha1_vt)
  show "length (sha1_digest m) = br_digest_size (br_sha1_vtable mem)" for m
    by (simp add: sha1_vt sha1_digest_def md_hash_def concat_map_length [where k = 4])
  show "0 < br_digest_size (br_sha1_vtable mem)" "br_digest_size (br_sha1_vtable mem) \<le> 64" by (simp_all add: sha1_vt)
  show "absorbed 64 br_sha1_round br_sha1_IV (m @ d) (hc_update (br_sha1_vtable mem) cc d)
      \<and> cc_count (hc_update (br_sha1_vtable mem) cc d) = of_nat (length (m @ d))"
    if "absorbed 64 br_sha1_round br_sha1_IV m cc" "cc_count cc = of_nat (length m)" for m cc d
    unfolding br_sha1_vtable_def br_hash_class.simps br_sha1_update_def Let_def that(2) count_masks
    by (rule md_update_in_loop [OF that]) simp_all
  show "hc_out (br_sha1_vtable mem) cc = sha1_digest m"
    if "absorbed 64 br_sha1_round br_sha1_IV m cc" "cc_count cc = of_nat (length m)" for m cc
    using br_sha1_out_spec [OF that] by (simp add: br_sha1_vtable_def)
  show "br_range_dec32be 5 (br_range_enc32be v 5) = v" if "length v = 5" for v
    using be32.range_dec_enc [of v "[]"] that by simp
qed (simp_all add: br_sha1_vtable_def br_sha1_init_def br_sha1_state_def br_sha1_set_state_def sha1_rnd)

text \<open>The pair runs the two functions side by side on one buffer.\<close>

lemma fold_md5sha1: "fold md5sha1_round bs v = (fold br_md5_round bs (fst v), fold br_sha1_round bs (snd v))"
  by (induction bs arbitrary: v) (simp_all add: md5sha1_round_def)

lemma chain_md5sha1: "md_chain n md5sha1_round (iv, iv') m = (md_chain n br_md5_round iv m, md_chain n br_sha1_round iv' m)"
  by (simp add: md_chain_def fold_md5sha1)

lemma absorbed_md5sha1:
  assumes "absorbed n md5sha1_round (iv, iv') m cc"
  shows "absorbed n br_md5_round iv m \<lparr>cc_buf = cc_buf cc, cc_count = c, cc_val = fst (cc_val cc)\<rparr>"
    and "absorbed n br_sha1_round iv' m \<lparr>cc_buf = cc_buf cc, cc_count = c, cc_val = snd (cc_val cc)\<rparr>"
  using assms by (simp_all add: absorbed_def chain_md5sha1)

lemma md_head_md5sha1:
  "md_head n off md5sha1_round p b v = (buf, v1, v2) \<Longrightarrow>
     md_head n off br_md5_round p b (fst v) = (buf, v1) \<and> md_head n off br_sha1_round p b (snd v) = (buf, v2)"
  by (auto simp: md_head_def Let_def md5sha1_round_def split: if_splits)

lemma br_md5sha1_out_spec:
  assumes "absorbed 64 md5sha1_round (br_md5_IV, br_sha1_IV) m cc" "cc_count cc = of_nat (length m)"
  shows "br_md5sha1_out cc = md5_digest m @ sha1_digest m"
proof -
  let ?c5 = "\<lparr>cc_buf = cc_buf cc, cc_count = of_nat (length m), cc_val = fst (cc_val cc)\<rparr>"
  let ?c1 = "\<lparr>cc_buf = cc_buf cc, cc_count = of_nat (length m), cc_val = snd (cc_val cc)\<rparr>"
  obtain buf v1 v2 where h: "md_head 64 56 md5sha1_round (length m mod 64) (cc_buf cc) (cc_val cc) = (buf, v1, v2)"
    by (metis surj_pair)
  have "br_md5sha1_out cc = br_md5_out ?c5 @ br_sha1_out ?c1"
    using md_head_md5sha1 [OF h]
    by (simp add: br_md5sha1_out_def br_md5_out_def br_sha1_out_def Let_def assms(2) count_masks h)
  then show ?thesis
    using br_md5_out_spec [OF absorbed_md5sha1(1) [OF assms(1)]] br_sha1_out_spec [OF absorbed_md5sha1(2) [OF assms(1)]]
    by simp
qed

lemmas md5sha1_vt = br_md5sha1_vtable_def block_size_def br_digest_size_def hashdesc_defs

interpretation md5sha1: md_function "br_md5sha1_vtable mem" "\<lambda>m. md5_digest m @ sha1_digest m" 64 md5sha1_round
  "(br_md5_IV, br_sha1_IV)" "\<lambda>v. length (fst v) = 4 \<and> length (snd v) = 5"
  "\<lambda>v. br_range_enc32le (fst v) 4 @ br_range_enc32be (snd v) 5"
  "\<lambda>b. (br_range_dec32le 4 b, br_range_dec32be 5 (drop 16 b))" for mem
proof
  show "block_size (br_md5sha1_vtable mem) = 64" by (simp add: md5sha1_vt)
  show "length (md5_digest m @ sha1_digest m) = br_digest_size (br_md5sha1_vtable mem)" for m
    using md5.length_digest [of m undefined] sha1.length_digest [of m undefined] by (simp add: md5sha1_vt br_md5_vtable_def br_sha1_vtable_def)
  show "0 < br_digest_size (br_md5sha1_vtable mem)" "br_digest_size (br_md5sha1_vtable mem) \<le> 64" by (simp_all add: md5sha1_vt)
  show "absorbed 64 md5sha1_round (br_md5_IV, br_sha1_IV) (m @ d) (hc_update (br_md5sha1_vtable mem) cc d)
      \<and> cc_count (hc_update (br_md5sha1_vtable mem) cc d) = of_nat (length (m @ d))"
    if "absorbed 64 md5sha1_round (br_md5_IV, br_sha1_IV) m cc" "cc_count cc = of_nat (length m)" for m cc d
    unfolding br_md5sha1_vtable_def br_hash_class.simps br_md5sha1_update_def Let_def that(2) count_masks
    by (rule md_update_in_loop [OF that]) simp_all
  show "hc_out (br_md5sha1_vtable mem) cc = md5_digest m @ sha1_digest m"
    if "absorbed 64 md5sha1_round (br_md5_IV, br_sha1_IV) m cc" "cc_count cc = of_nat (length m)" for m cc
    using br_md5sha1_out_spec [OF that] by (simp add: br_md5sha1_vtable_def)
  show "(br_range_dec32le 4 (br_range_enc32le (fst v) 4 @ br_range_enc32be (snd v) 5),
      br_range_dec32be 5 (drop 16 (br_range_enc32le (fst v) 4 @ br_range_enc32be (snd v) 5))) = v"
    if "length (fst v) = 4 \<and> length (snd v) = 5" for v
    using le32.range_dec_enc [of "fst v"] be32.range_dec_enc [of "snd v" "[]"] le32.length_range_enc [of "fst v" 4] that
    by (cases v) simp
qed (simp_all add: br_md5sha1_vtable_def br_md5sha1_init_def br_md5sha1_state_def br_md5sha1_set_state_def md5sha1_round_def
    md5_rnd sha1_rnd)

end
