(* ===== verification/Sha2.thy ===== *)
theory Sha2
  imports Md5Sha1
begin

section \<open>SHA-2 (bearssl/src/hash/sha2small.c, sha2big.c)\<close>

text \<open>
  SHA-224 and SHA-256 on 32-bit words, SHA-384 and SHA-512 on 64-bit words.  The loop of eight steps
  per pass, in which the roles of the eight variables rotate through the text, is the same in both
  files and takes the step macro as its argument; a step returns the new values of its \<open>D\<close> and \<open>H\<close>.
\<close>

definition CH :: "'a :: len word \<Rightarrow> 'a word \<Rightarrow> 'a word \<Rightarrow> 'a word" where "CH x y z = ((y XOR z) AND x) XOR z"
definition MAJ :: "'a :: len word \<Rightarrow> 'a word \<Rightarrow> 'a word \<Rightarrow> 'a word" where "MAJ x y z = (y AND z) OR ((y OR z) AND x)"

definition sha2_pass :: "('a \<Rightarrow> 'a \<Rightarrow> 'a \<Rightarrow> 'a \<Rightarrow> 'a \<Rightarrow> 'a \<Rightarrow> 'a \<Rightarrow> 'a \<Rightarrow> nat \<Rightarrow> 'a \<times> 'a) \<Rightarrow> nat
    \<Rightarrow> 'a \<times> 'a \<times> 'a \<times> 'a \<times> 'a \<times> 'a \<times> 'a \<times> 'a \<Rightarrow> 'a \<times> 'a \<times> 'a \<times> 'a \<times> 'a \<times> 'a \<times> 'a \<times> 'a" where
  "sha2_pass STEP i = (\<lambda>(a, b, c, d, e, f, g, h).
     let (d, h) = STEP a b c d e f g h (i + 0);
         (c, g) = STEP h a b c d e f g (i + 1);
         (b, f) = STEP g h a b c d e f (i + 2);
         (a, e) = STEP f g h a b c d e (i + 3);
         (h, d) = STEP e f g h a b c d (i + 4);
         (g, c) = STEP d e f g h a b c (i + 5);
         (f, b) = STEP c d e f g h a b (i + 6);
         (e, a) = STEP b c d e f g h a (i + 7)
     in (a, b, c, d, e, f, g, h))"

subsection \<open>32-bit words\<close>

definition ROTR32 :: "u32 \<Rightarrow> nat \<Rightarrow> u32" where "ROTR32 x n = push_bit (32 - n) x OR drop_bit n x"

definition BSG2_0 :: "u32 \<Rightarrow> u32" where "BSG2_0 x = ROTR32 x 2 XOR ROTR32 x 13 XOR ROTR32 x 22"
definition BSG2_1 :: "u32 \<Rightarrow> u32" where "BSG2_1 x = ROTR32 x 6 XOR ROTR32 x 11 XOR ROTR32 x 25"
definition SSG2_0 :: "u32 \<Rightarrow> u32" where "SSG2_0 x = ROTR32 x 7 XOR ROTR32 x 18 XOR drop_bit 3 x"
definition SSG2_1 :: "u32 \<Rightarrow> u32" where "SSG2_1 x = ROTR32 x 17 XOR ROTR32 x 19 XOR drop_bit 10 x"

definition br_sha224_IV :: "u32 list" where
  "br_sha224_IV = [
     0xC1059ED8, 0x367CD507, 0x3070DD17, 0xF70E5939,
     0xFFC00B31, 0x68581511, 0x64F98FA7, 0xBEFA4FA4]"

definition br_sha256_IV :: "u32 list" where
  "br_sha256_IV = [
     0x6A09E667, 0xBB67AE85, 0x3C6EF372, 0xA54FF53A,
     0x510E527F, 0x9B05688C, 0x1F83D9AB, 0x5BE0CD19]"

definition sha2small_K :: "u32 list" where
  "sha2small_K = concat [
     [0x428A2F98, 0x71374491, 0xB5C0FBCF, 0xE9B5DBA5],
     [0x3956C25B, 0x59F111F1, 0x923F82A4, 0xAB1C5ED5],
     [0xD807AA98, 0x12835B01, 0x243185BE, 0x550C7DC3],
     [0x72BE5D74, 0x80DEB1FE, 0x9BDC06A7, 0xC19BF174],
     [0xE49B69C1, 0xEFBE4786, 0x0FC19DC6, 0x240CA1CC],
     [0x2DE92C6F, 0x4A7484AA, 0x5CB0A9DC, 0x76F988DA],
     [0x983E5152, 0xA831C66D, 0xB00327C8, 0xBF597FC7],
     [0xC6E00BF3, 0xD5A79147, 0x06CA6351, 0x14292967],
     [0x27B70A85, 0x2E1B2138, 0x4D2C6DFC, 0x53380D13],
     [0x650A7354, 0x766A0ABB, 0x81C2C92E, 0x92722C85],
     [0xA2BFE8A1, 0xA81A664B, 0xC24B8B70, 0xC76C51A3],
     [0xD192E819, 0xD6990624, 0xF40E3585, 0x106AA070],
     [0x19A4C116, 0x1E376C08, 0x2748774C, 0x34B0BCB5],
     [0x391C0CB3, 0x4ED8AA4A, 0x5B9CCA4F, 0x682E6FF3],
     [0x748F82EE, 0x78A5636F, 0x84C87814, 0x8CC70208],
     [0x90BEFFFA, 0xA4506CEB, 0xBEF9A3F7, 0xC67178F2]]"

definition SHA2_STEP :: "u32 list \<Rightarrow> u32 \<Rightarrow> u32 \<Rightarrow> u32 \<Rightarrow> u32 \<Rightarrow> u32 \<Rightarrow> u32 \<Rightarrow> u32 \<Rightarrow> u32 \<Rightarrow> nat \<Rightarrow> u32 \<times> u32" where
  "SHA2_STEP w A B C D E F G H j =
     (let T1 = H + BSG2_1 E + CH E F G + sha2small_K ! j + w ! j;
          T2 = BSG2_0 A + MAJ A B C
      in (D + T1, T1 + T2))"

definition br_sha2small_round :: "u8 list \<Rightarrow> u32 list \<Rightarrow> u32 list" where
  "br_sha2small_round buf val =
     (let w = br_range_dec32be 16 buf;
          w = fold (\<lambda>i w. w @ [SSG2_1 (w ! (i - 2)) + w ! (i - 7) + SSG2_0 (w ! (i - 15)) + w ! (i - 16)]) [16..<64] w;
          a = val ! 0; b = val ! 1; c = val ! 2; d = val ! 3;
          e = val ! 4; f = val ! 5; g = val ! 6; h = val ! 7;
          (a, b, c, d, e, f, g, h) = fold (sha2_pass (SHA2_STEP w)) [0, 8, 16, 24, 32, 40, 48, 56] (a, b, c, d, e, f, g, h)
      in [val ! 0 + a, val ! 1 + b, val ! 2 + c, val ! 3 + d, val ! 4 + e, val ! 5 + f, val ! 6 + g, val ! 7 + h])"

type_synonym br_sha224_context = "u32 list md_context"
type_synonym br_sha256_context = br_sha224_context

definition sha2small_update :: "br_sha224_context \<Rightarrow> u8 list \<Rightarrow> br_sha224_context" where
  "sha2small_update cc data =
     (let ptr = unat (cc_count cc AND 63);
          cc = cc\<lparr>cc_count := cc_count cc + of_nat (length data)\<rparr>
      in md_loop 64 br_sha2small_round (\<lambda>clen count. count) ptr data cc)"

definition sha2small_out :: "br_sha224_context \<Rightarrow> nat \<Rightarrow> u8 list" where
  "sha2small_out cc num =
     (let ptr = unat (cc_count cc AND 63);
          (buf, val) = md_head 64 56 br_sha2small_round ptr (cc_buf cc) (cc_val cc);
          buf = buf @ br_enc64be (push_bit 3 (cc_count cc));
          val = br_sha2small_round buf val
      in br_range_enc32be val num)"

definition br_sha224_init :: "br_sha224_context \<Rightarrow> br_sha224_context" where
  "br_sha224_init cc = cc\<lparr>cc_val := br_sha224_IV, cc_count := 0\<rparr>"

definition br_sha224_update :: "br_sha224_context \<Rightarrow> u8 list \<Rightarrow> br_sha224_context" where
  "br_sha224_update cc data = sha2small_update cc data"

definition br_sha224_out :: "br_sha224_context \<Rightarrow> u8 list" where
  "br_sha224_out cc = sha2small_out cc 7"

definition br_sha224_state :: "br_sha224_context \<Rightarrow> u8 list \<times> u64" where
  "br_sha224_state cc = (br_range_enc32be (cc_val cc) 8, cc_count cc)"

definition br_sha224_set_state :: "br_sha224_context \<Rightarrow> u8 list \<Rightarrow> u64 \<Rightarrow> br_sha224_context" where
  "br_sha224_set_state cc stb count = cc\<lparr>cc_val := br_range_dec32be 8 stb, cc_count := count\<rparr>"

definition br_sha256_init :: "br_sha256_context \<Rightarrow> br_sha256_context" where
  "br_sha256_init cc = cc\<lparr>cc_val := br_sha256_IV, cc_count := 0\<rparr>"

definition br_sha256_out :: "br_sha256_context \<Rightarrow> u8 list" where
  "br_sha256_out cc = sha2small_out cc 8"

text \<open>The header makes \<open>br_sha256_update\<close>, \<open>br_sha256_state\<close> and \<open>br_sha256_set_state\<close> macros for the 224 versions.\<close>

definition br_sha224_vtable :: "u32 list junk \<Rightarrow> br_sha224_context br_hash_class" where
  "br_sha224_vtable mem =
     \<lparr>context_mem = stack_context 64 mem,
      desc = BR_HASHDESC_ID 3 OR BR_HASHDESC_OUT 28 OR BR_HASHDESC_STATE 32 OR BR_HASHDESC_LBLEN 6
        OR BR_HASHDESC_MD_PADDING OR BR_HASHDESC_MD_PADDING_BE,
      hc_init = br_sha224_init, hc_update = br_sha224_update, hc_out = br_sha224_out,
      hc_state = br_sha224_state, hc_set_state = br_sha224_set_state\<rparr>"

definition br_sha256_vtable :: "u32 list junk \<Rightarrow> br_sha256_context br_hash_class" where
  "br_sha256_vtable mem =
     \<lparr>context_mem = stack_context 64 mem,
      desc = BR_HASHDESC_ID 4 OR BR_HASHDESC_OUT 32 OR BR_HASHDESC_STATE 32 OR BR_HASHDESC_LBLEN 6
        OR BR_HASHDESC_MD_PADDING OR BR_HASHDESC_MD_PADDING_BE,
      hc_init = br_sha256_init, hc_update = br_sha224_update, hc_out = br_sha256_out,
      hc_state = br_sha224_state, hc_set_state = br_sha224_set_state\<rparr>"

subsection \<open>64-bit words\<close>

definition ROTR64 :: "u64 \<Rightarrow> nat \<Rightarrow> u64" where "ROTR64 x n = push_bit (64 - n) x OR drop_bit n x"

definition BSG5_0 :: "u64 \<Rightarrow> u64" where "BSG5_0 x = ROTR64 x 28 XOR ROTR64 x 34 XOR ROTR64 x 39"
definition BSG5_1 :: "u64 \<Rightarrow> u64" where "BSG5_1 x = ROTR64 x 14 XOR ROTR64 x 18 XOR ROTR64 x 41"
definition SSG5_0 :: "u64 \<Rightarrow> u64" where "SSG5_0 x = ROTR64 x 1 XOR ROTR64 x 8 XOR drop_bit 7 x"
definition SSG5_1 :: "u64 \<Rightarrow> u64" where "SSG5_1 x = ROTR64 x 19 XOR ROTR64 x 61 XOR drop_bit 6 x"

definition IV384 :: "u64 list" where
  "IV384 = [
     0xCBBB9D5DC1059ED8, 0x629A292A367CD507, 0x9159015A3070DD17, 0x152FECD8F70E5939,
     0x67332667FFC00B31, 0x8EB44A8768581511, 0xDB0C2E0D64F98FA7, 0x47B5481DBEFA4FA4]"

definition IV512 :: "u64 list" where
  "IV512 = [
     0x6A09E667F3BCC908, 0xBB67AE8584CAA73B, 0x3C6EF372FE94F82B, 0xA54FF53A5F1D36F1,
     0x510E527FADE682D1, 0x9B05688C2B3E6C1F, 0x1F83D9ABFB41BD6B, 0x5BE0CD19137E2179]"

definition sha2big_K :: "u64 list" where
  "sha2big_K = concat [
     [0x428A2F98D728AE22, 0x7137449123EF65CD, 0xB5C0FBCFEC4D3B2F, 0xE9B5DBA58189DBBC],
     [0x3956C25BF348B538, 0x59F111F1B605D019, 0x923F82A4AF194F9B, 0xAB1C5ED5DA6D8118],
     [0xD807AA98A3030242, 0x12835B0145706FBE, 0x243185BE4EE4B28C, 0x550C7DC3D5FFB4E2],
     [0x72BE5D74F27B896F, 0x80DEB1FE3B1696B1, 0x9BDC06A725C71235, 0xC19BF174CF692694],
     [0xE49B69C19EF14AD2, 0xEFBE4786384F25E3, 0x0FC19DC68B8CD5B5, 0x240CA1CC77AC9C65],
     [0x2DE92C6F592B0275, 0x4A7484AA6EA6E483, 0x5CB0A9DCBD41FBD4, 0x76F988DA831153B5],
     [0x983E5152EE66DFAB, 0xA831C66D2DB43210, 0xB00327C898FB213F, 0xBF597FC7BEEF0EE4],
     [0xC6E00BF33DA88FC2, 0xD5A79147930AA725, 0x06CA6351E003826F, 0x142929670A0E6E70],
     [0x27B70A8546D22FFC, 0x2E1B21385C26C926, 0x4D2C6DFC5AC42AED, 0x53380D139D95B3DF],
     [0x650A73548BAF63DE, 0x766A0ABB3C77B2A8, 0x81C2C92E47EDAEE6, 0x92722C851482353B],
     [0xA2BFE8A14CF10364, 0xA81A664BBC423001, 0xC24B8B70D0F89791, 0xC76C51A30654BE30],
     [0xD192E819D6EF5218, 0xD69906245565A910, 0xF40E35855771202A, 0x106AA07032BBD1B8],
     [0x19A4C116B8D2D0C8, 0x1E376C085141AB53, 0x2748774CDF8EEB99, 0x34B0BCB5E19B48A8],
     [0x391C0CB3C5C95A63, 0x4ED8AA4AE3418ACB, 0x5B9CCA4F7763E373, 0x682E6FF3D6B2B8A3],
     [0x748F82EE5DEFB2FC, 0x78A5636F43172F60, 0x84C87814A1F0AB72, 0x8CC702081A6439EC],
     [0x90BEFFFA23631E28, 0xA4506CEBDE82BDE9, 0xBEF9A3F7B2C67915, 0xC67178F2E372532B],
     [0xCA273ECEEA26619C, 0xD186B8C721C0C207, 0xEADA7DD6CDE0EB1E, 0xF57D4F7FEE6ED178],
     [0x06F067AA72176FBA, 0x0A637DC5A2C898A6, 0x113F9804BEF90DAE, 0x1B710B35131C471B],
     [0x28DB77F523047D84, 0x32CAAB7B40C72493, 0x3C9EBE0A15C9BEBC, 0x431D67C49C100D4C],
     [0x4CC5D4BECB3E42B6, 0x597F299CFC657E2A, 0x5FCB6FAB3AD6FAEC, 0x6C44198C4A475817]]"

definition SHA2BIG_STEP :: "u64 list \<Rightarrow> u64 \<Rightarrow> u64 \<Rightarrow> u64 \<Rightarrow> u64 \<Rightarrow> u64 \<Rightarrow> u64 \<Rightarrow> u64 \<Rightarrow> u64 \<Rightarrow> nat \<Rightarrow> u64 \<times> u64" where
  "SHA2BIG_STEP w A B C D E F G H j =
     (let T1 = H + BSG5_1 E + CH E F G + sha2big_K ! j + w ! j;
          T2 = BSG5_0 A + MAJ A B C
      in (D + T1, T1 + T2))"

definition sha2big_round :: "u8 list \<Rightarrow> u64 list \<Rightarrow> u64 list" where
  "sha2big_round buf val =
     (let w = br_range_dec64be 16 buf;
          w = fold (\<lambda>i w. w @ [SSG5_1 (w ! (i - 2)) + w ! (i - 7) + SSG5_0 (w ! (i - 15)) + w ! (i - 16)]) [16..<80] w;
          a = val ! 0; b = val ! 1; c = val ! 2; d = val ! 3;
          e = val ! 4; f = val ! 5; g = val ! 6; h = val ! 7;
          (a, b, c, d, e, f, g, h) =
            fold (sha2_pass (SHA2BIG_STEP w)) [0, 8, 16, 24, 32, 40, 48, 56, 64, 72] (a, b, c, d, e, f, g, h)
      in [val ! 0 + a, val ! 1 + b, val ! 2 + c, val ! 3 + d, val ! 4 + e, val ! 5 + f, val ! 6 + g, val ! 7 + h])"

type_synonym br_sha384_context = "u64 list md_context"
type_synonym br_sha512_context = br_sha384_context

definition sha2big_update :: "br_sha384_context \<Rightarrow> u8 list \<Rightarrow> br_sha384_context" where
  "sha2big_update cc data =
     (let ptr = unat (cc_count cc AND 127);
          cc = cc\<lparr>cc_count := cc_count cc + of_nat (length data)\<rparr>
      in md_loop 128 sha2big_round (\<lambda>clen count. count) ptr data cc)"

definition sha2big_out :: "br_sha384_context \<Rightarrow> nat \<Rightarrow> u8 list" where
  "sha2big_out cc num =
     (let ptr = unat (cc_count cc AND 127);
          (buf, val) = md_head 128 112 sha2big_round ptr (cc_buf cc) (cc_val cc);
          buf = buf @ br_enc64be (drop_bit 61 (cc_count cc));
          buf = buf @ br_enc64be (push_bit 3 (cc_count cc));
          val = sha2big_round buf val
      in br_range_enc64be val num)"

definition br_sha384_init :: "br_sha384_context \<Rightarrow> br_sha384_context" where
  "br_sha384_init cc = cc\<lparr>cc_val := IV384, cc_count := 0\<rparr>"

definition br_sha384_update :: "br_sha384_context \<Rightarrow> u8 list \<Rightarrow> br_sha384_context" where
  "br_sha384_update cc data = sha2big_update cc data"

definition br_sha384_out :: "br_sha384_context \<Rightarrow> u8 list" where
  "br_sha384_out cc = sha2big_out cc 6"

definition br_sha384_state :: "br_sha384_context \<Rightarrow> u8 list \<times> u64" where
  "br_sha384_state cc = (br_range_enc64be (cc_val cc) 8, cc_count cc)"

definition br_sha384_set_state :: "br_sha384_context \<Rightarrow> u8 list \<Rightarrow> u64 \<Rightarrow> br_sha384_context" where
  "br_sha384_set_state cc stb count = cc\<lparr>cc_val := br_range_dec64be 8 stb, cc_count := count\<rparr>"

definition br_sha512_init :: "br_sha512_context \<Rightarrow> br_sha512_context" where
  "br_sha512_init cc = cc\<lparr>cc_val := IV512, cc_count := 0\<rparr>"

definition br_sha512_out :: "br_sha512_context \<Rightarrow> u8 list" where
  "br_sha512_out cc = sha2big_out cc 8"

definition br_sha384_vtable :: "u64 list junk \<Rightarrow> br_sha384_context br_hash_class" where
  "br_sha384_vtable mem =
     \<lparr>context_mem = stack_context 128 mem,
      desc = BR_HASHDESC_ID 5 OR BR_HASHDESC_OUT 48 OR BR_HASHDESC_STATE 64 OR BR_HASHDESC_LBLEN 7
        OR BR_HASHDESC_MD_PADDING OR BR_HASHDESC_MD_PADDING_BE OR BR_HASHDESC_MD_PADDING_128,
      hc_init = br_sha384_init, hc_update = br_sha384_update, hc_out = br_sha384_out,
      hc_state = br_sha384_state, hc_set_state = br_sha384_set_state\<rparr>"

definition br_sha512_vtable :: "u64 list junk \<Rightarrow> br_sha512_context br_hash_class" where
  "br_sha512_vtable mem =
     \<lparr>context_mem = stack_context 128 mem,
      desc = BR_HASHDESC_ID 6 OR BR_HASHDESC_OUT 64 OR BR_HASHDESC_STATE 64 OR BR_HASHDESC_LBLEN 7
        OR BR_HASHDESC_MD_PADDING OR BR_HASHDESC_MD_PADDING_BE OR BR_HASHDESC_MD_PADDING_128,
      hc_init = br_sha512_init, hc_update = br_sha384_update, hc_out = br_sha512_out,
      hc_state = br_sha384_state, hc_set_state = br_sha384_set_state\<rparr>"

subsection \<open>Specification (FIPS 180-4)\<close>

type_synonym 'a regs8 = "'a \<times> 'a \<times> 'a \<times> 'a \<times> 'a \<times> 'a \<times> 'a \<times> 'a"

definition sha2_step :: "('a :: len word \<Rightarrow> 'a word) \<Rightarrow> ('a word \<Rightarrow> 'a word) \<Rightarrow> 'a word list \<Rightarrow> (nat \<Rightarrow> 'a word) \<Rightarrow> nat
    \<Rightarrow> 'a word regs8 \<Rightarrow> 'a word regs8" where
  "sha2_step S0 S1 K w t = (\<lambda>(a, b, c, d, e, f, g, h).
     let T1 = h + S1 e + ((e AND f) XOR (NOT e AND g)) + K ! t + w t;
         T2 = S0 a + ((a AND b) XOR (a AND c) XOR (b AND c))
     in (T1 + T2, a, b, c, d + T1, e, f, g))"

fun sha2_w :: "('a :: len word \<Rightarrow> 'a word) \<Rightarrow> ('a word \<Rightarrow> 'a word) \<Rightarrow> 'a word list \<Rightarrow> nat \<Rightarrow> 'a word" where
  "sha2_w s0 s1 m t = (if t < 16 then m ! t
     else s1 (sha2_w s0 s1 m (t - 2)) + sha2_w s0 s1 m (t - 7) + s0 (sha2_w s0 s1 m (t - 15)) + sha2_w s0 s1 m (t - 16))"

declare sha2_w.simps [simp del]

definition sha2_compress :: "(nat \<Rightarrow> 'a :: len word regs8 \<Rightarrow> 'a word regs8) \<Rightarrow> nat \<Rightarrow> 'a word list \<Rightarrow> 'a word list" where
  "sha2_compress step n v =
     (let (a, b, c, d, e, f, g, h) = fold step [0..<n] (v ! 0, v ! 1, v ! 2, v ! 3, v ! 4, v ! 5, v ! 6, v ! 7)
      in [v ! 0 + a, v ! 1 + b, v ! 2 + c, v ! 3 + d, v ! 4 + e, v ! 5 + f, v ! 6 + g, v ! 7 + h])"

definition sha256_compress :: "u8 list \<Rightarrow> u32 list \<Rightarrow> u32 list" where
  "sha256_compress buf = sha2_compress
     (sha2_step (\<lambda>x. word_rotr 2 x XOR word_rotr 13 x XOR word_rotr 22 x)
        (\<lambda>x. word_rotr 6 x XOR word_rotr 11 x XOR word_rotr 25 x) sha2small_K
        (sha2_w (\<lambda>x. word_rotr 7 x XOR word_rotr 18 x XOR drop_bit 3 x)
           (\<lambda>x. word_rotr 17 x XOR word_rotr 19 x XOR drop_bit 10 x) (br_range_dec32be 16 buf))) 64"

definition sha512_compress :: "u8 list \<Rightarrow> u64 list \<Rightarrow> u64 list" where
  "sha512_compress buf = sha2_compress
     (sha2_step (\<lambda>x. word_rotr 28 x XOR word_rotr 34 x XOR word_rotr 39 x)
        (\<lambda>x. word_rotr 14 x XOR word_rotr 18 x XOR word_rotr 41 x) sha2big_K
        (sha2_w (\<lambda>x. word_rotr 1 x XOR word_rotr 8 x XOR drop_bit 7 x)
           (\<lambda>x. word_rotr 19 x XOR word_rotr 61 x XOR drop_bit 6 x) (br_range_dec64be 16 buf))) 80"

text \<open>The length field counts bits modulo $2^{64}$, respectively $2^{67}$, as the 64-bit byte counter does.\<close>

definition sha2_len64 :: "nat \<Rightarrow> u8 list" where
  "sha2_len64 l = br_enc64be (of_nat (8 * l))"

definition sha2_len128 :: "nat \<Rightarrow> u8 list" where
  "sha2_len128 l = br_enc64be (of_nat (8 * (l mod 2 ^ 64) div 2 ^ 64)) @ br_enc64be (of_nat (8 * l))"

definition sha224_digest :: "u8 list \<Rightarrow> u8 list" where
  "sha224_digest m = concat (map br_enc32be (take 7 (md_hash 64 56 sha2_len64 sha256_compress br_sha224_IV m)))"

definition sha256_digest :: "u8 list \<Rightarrow> u8 list" where
  "sha256_digest m = concat (map br_enc32be (md_hash 64 56 sha2_len64 sha256_compress br_sha256_IV m))"

definition sha384_digest :: "u8 list \<Rightarrow> u8 list" where
  "sha384_digest m = concat (map br_enc64be (take 6 (md_hash 128 112 sha2_len128 sha512_compress IV384 m)))"

definition sha512_digest :: "u8 list \<Rightarrow> u8 list" where
  "sha512_digest m = concat (map br_enc64be (md_hash 128 112 sha2_len128 sha512_compress IV512 m))"

subsection \<open>The unrolled rounds are these steps\<close>

lemma rotr_shifts:
  fixes x :: "'a :: len word"
  assumes n: "0 < n" "n < LENGTH('a)"
  shows "push_bit (LENGTH('a) - n) x OR drop_bit n x = word_rotr n x"
proof (rule bit_word_eqI)
  fix k assume k: "k < LENGTH('a)"
  show "bit (push_bit (LENGTH('a) - n) x OR drop_bit n x) k = bit (word_rotr n x) k"
  proof (cases "k + n < LENGTH('a)")
    case True
    then have "\<not> LENGTH('a) - n \<le> k" by simp
    then show ?thesis using True n k by (simp add: bit_simps ac_simps)
  next
    case False
    then have "(k + n) mod LENGTH('a) = k + n - LENGTH('a)" using n k by (simp add: mod_if)
    moreover have "k - (LENGTH('a) - n) = k + n - LENGTH('a)" "LENGTH('a) - n \<le> k" using False n by simp_all
    moreover have "\<not> bit x (n + k)" using False by (auto dest: bit_imp_le_length)
    ultimately show ?thesis using n k by (simp add: bit_simps)
  qed
qed

lemma ROTR_rotr: "0 < n \<Longrightarrow> n < 32 \<Longrightarrow> ROTR32 x n = word_rotr n x" "0 < n \<Longrightarrow> n < 64 \<Longrightarrow> ROTR64 y n = word_rotr n y"
  using rotr_shifts [of n x] rotr_shifts [of n y] by (simp_all add: ROTR32_def ROTR64_def)

lemma CH_MAJ: "CH x y z = (x AND y) XOR (NOT x AND z)" "MAJ x y z = (x AND y) XOR (x AND z) XOR (y AND z)"
  unfolding CH_def MAJ_def by (rule bit_word_eqI; auto simp: bit_simps)+

lemma upt_unroll8: "[i..<i + 8] = [i, i + 1, i + 2, i + 3, i + 4, i + 5, i + 6, i + 7 :: nat]"
  by (simp add: upt_conv_Cons)

text \<open>A step given as its new \<open>D\<close> and \<open>H\<close>, and as a rotation of the eight variables.\<close>

lemma sha2_pass_steps:
  assumes step: "\<And>j a b c d e f g h. i \<le> j \<Longrightarrow> j < i + 8 \<Longrightarrow>
      step j (a, b, c, d, e, f, g, h) = (let (d', h') = STEP a b c d e f g h j in (h', a, b, c, d', e, f, g))"
  shows "sha2_pass STEP i s = fold step [i..<i + 8] s"
proof -
  obtain a b c d e f g h where s: "s = (a, b, c, d, e, f, g, h)" by (metis surj_pair)
  obtain d1 h1 where 0: "STEP a b c d e f g h (i + 0) = (d1, h1)" by fastforce
  obtain c1 g1 where 1: "STEP h1 a b c d1 e f g (i + 1) = (c1, g1)" by fastforce
  obtain b1 f1 where 2: "STEP g1 h1 a b c1 d1 e f (i + 2) = (b1, f1)" by fastforce
  obtain a1 e1 where 3: "STEP f1 g1 h1 a b1 c1 d1 e (i + 3) = (a1, e1)" by fastforce
  obtain h2 d2 where 4: "STEP e1 f1 g1 h1 a1 b1 c1 d1 (i + 4) = (h2, d2)" by fastforce
  obtain g2 c2 where 5: "STEP d2 e1 f1 g1 h2 a1 b1 c1 (i + 5) = (g2, c2)" by fastforce
  obtain f2 b2 where 6: "STEP c2 d2 e1 f1 g2 h2 a1 b1 (i + 6) = (f2, b2)" by fastforce
  obtain e2 a2 where 7: "STEP b2 c2 d2 e1 f2 g2 h2 a1 (i + 7) = (e2, a2)" by fastforce
  have "sha2_pass STEP i s = (a2, b2, c2, d2, e2, f2, g2, h2)"
    unfolding s sha2_pass_def Let_def by (simp only: 0 1 2 3 4 5 6 7 prod.case)
  moreover have "fold step [i..<i + 8] s = (a2, b2, c2, d2, e2, f2, g2, h2)"
    using 0 1 2 3 4 5 6 7 unfolding s upt_unroll8 by (simp add: step)
  ultimately show ?thesis by simp
qed

text \<open>The message schedule as an array that grows.\<close>

lemma sha2_schedule:
  assumes "length m = 16" and "16 \<le> n"
  shows "fold (\<lambda>i w. w @ [s1 (w ! (i - 2)) + w ! (i - 7) + s0 (w ! (i - 15)) + w ! (i - 16)]) [16..<n] m
    = map (sha2_w s0 s1 m) [0..<n]"
  using assms(2)
proof (induction n rule: dec_induct)
  case base
  have "map (sha2_w s0 s1 m) [0..<16] = map (nth m) [0..<16]" by (intro map_cong) (auto simp: sha2_w.simps)
  then have "map (sha2_w s0 s1 m) [0..<16] = m" using assms(1) map_nth [of m] by (simp only:)
  then show ?case by simp
next
  case (step n)
  then show ?case by (simp add: nth_append sha2_w.simps [of s0 s1 m n])
qed

lemma sigmas32:
  "BSG2_0 = (\<lambda>x. word_rotr 2 x XOR word_rotr 13 x XOR word_rotr 22 x)"
  "BSG2_1 = (\<lambda>x. word_rotr 6 x XOR word_rotr 11 x XOR word_rotr 25 x)"
  "SSG2_0 = (\<lambda>x. word_rotr 7 x XOR word_rotr 18 x XOR drop_bit 3 x)"
  "SSG2_1 = (\<lambda>x. word_rotr 17 x XOR word_rotr 19 x XOR drop_bit 10 x)"
  by (intro ext, simp add: BSG2_0_def BSG2_1_def SSG2_0_def SSG2_1_def ROTR_rotr)+

lemma sigmas64:
  "BSG5_0 = (\<lambda>x. word_rotr 28 x XOR word_rotr 34 x XOR word_rotr 39 x)"
  "BSG5_1 = (\<lambda>x. word_rotr 14 x XOR word_rotr 18 x XOR word_rotr 41 x)"
  "SSG5_0 = (\<lambda>x. word_rotr 1 x XOR word_rotr 8 x XOR drop_bit 7 x)"
  "SSG5_1 = (\<lambda>x. word_rotr 19 x XOR word_rotr 61 x XOR drop_bit 6 x)"
  by (intro ext, simp add: BSG5_0_def BSG5_1_def SSG5_0_def SSG5_1_def ROTR_rotr)+

lemma sha2_groups:
  assumes "\<And>i s. i \<in> set is \<Longrightarrow> sha2_pass STEP i s = fold step [i..<i + 8] s"
  shows "fold (sha2_pass STEP) is s = fold step (concat (map (\<lambda>i. [i..<i + 8]) is)) s"
  by (rule fold_groups) (intro ext assms)

lemma br_sha2small_round_steps: "br_sha2small_round buf val = sha256_compress buf val"
proof -
  define w where "w = sha2_w SSG2_0 SSG2_1 (br_range_dec32be 16 buf)"
  define m where "m = map w [0..<64]"
  have m: "t < 64 \<Longrightarrow> m ! t = w t" for t unfolding m_def by (simp del: upt_rec_numeral)
  have sched: "fold (\<lambda>i w. w @ [SSG2_1 (w ! (i - 2)) + w ! (i - 7) + SSG2_0 (w ! (i - 15)) + w ! (i - 16)]) [16..<64]
      (br_range_dec32be 16 buf) = m"
    unfolding m_def w_def by (rule sha2_schedule) (simp_all add: be32.length_range_dec)
  have all: "[0..<64] = concat (map (\<lambda>i. [i..<i + 8]) [0, 8, 16, 24, 32, 40, 48, 56 :: nat])" by code_simp
  have step: "sha2_step BSG2_0 BSG2_1 sha2small_K w j (a, b, c, d, e, f, g, h)
      = (let (d', h') = SHA2_STEP m a b c d e f g h j in (h', a, b, c, d', e, f, g))" if "j < 64" for j a b c d e f g h
    using that by (simp add: sha2_step_def SHA2_STEP_def Let_def CH_MAJ m)
  have "fold (sha2_pass (SHA2_STEP m)) [0, 8, 16, 24, 32, 40, 48, 56] s = fold (sha2_step BSG2_0 BSG2_1 sha2small_K w) [0..<64] s" for s
    unfolding all by (rule sha2_groups, rule sha2_pass_steps, rule step) auto
  then show ?thesis
    unfolding br_sha2small_round_def sha256_compress_def sha2_compress_def sigmas32 [symmetric] w_def [symmetric] Let_def sched
    by (simp only:)
qed

lemma sha2big_round_steps: "sha2big_round buf val = sha512_compress buf val"
proof -
  define w where "w = sha2_w SSG5_0 SSG5_1 (br_range_dec64be 16 buf)"
  define m where "m = map w [0..<80]"
  have m: "t < 80 \<Longrightarrow> m ! t = w t" for t unfolding m_def by (simp del: upt_rec_numeral)
  have sched: "fold (\<lambda>i w. w @ [SSG5_1 (w ! (i - 2)) + w ! (i - 7) + SSG5_0 (w ! (i - 15)) + w ! (i - 16)]) [16..<80]
      (br_range_dec64be 16 buf) = m"
    unfolding m_def w_def by (rule sha2_schedule) (simp_all add: be64.length_range_dec)
  have all: "[0..<80] = concat (map (\<lambda>i. [i..<i + 8]) [0, 8, 16, 24, 32, 40, 48, 56, 64, 72 :: nat])" by code_simp
  have step: "sha2_step BSG5_0 BSG5_1 sha2big_K w j (a, b, c, d, e, f, g, h)
      = (let (d', h') = SHA2BIG_STEP m a b c d e f g h j in (h', a, b, c, d', e, f, g))" if "j < 80" for j a b c d e f g h
    using that by (simp add: sha2_step_def SHA2BIG_STEP_def Let_def CH_MAJ m)
  have "fold (sha2_pass (SHA2BIG_STEP m)) [0, 8, 16, 24, 32, 40, 48, 56, 64, 72] s = fold (sha2_step BSG5_0 BSG5_1 sha2big_K w) [0..<80] s" for s
    unfolding all by (rule sha2_groups, rule sha2_pass_steps, rule step) auto
  then show ?thesis
    unfolding sha2big_round_def sha512_compress_def sha2_compress_def sigmas64 [symmetric] w_def [symmetric] Let_def sched
    by (simp only:)
qed

lemma sha2_rnd: "br_sha2small_round = sha256_compress" "sha2big_round = sha512_compress"
  by (intro ext, rule br_sha2small_round_steps sha2big_round_steps)+

subsection \<open>The contract\<close>

lemma length_compress [simp]: "length (sha256_compress b v) = 8" "length (sha512_compress b' v') = 8"
  by (simp_all add: sha256_compress_def sha512_compress_def sha2_compress_def split: prod.split)

lemma length_IVs8 [simp]: "length br_sha224_IV = 8" "length br_sha256_IV = 8" "length IV384 = 8" "length IV512 = 8"
  by (simp_all add: br_sha224_IV_def br_sha256_IV_def IV384_def IV512_def)

lemma length_chain8 [simp]:
  "length iv = 8 \<Longrightarrow> length (md_chain n sha256_compress iv m) = 8"
  "length iv' = 8 \<Longrightarrow> length (md_chain n sha512_compress iv' m) = 8"
  by (simp_all add: md_chain_def length_fold)

lemma length_sha2_len [simp]: "length (sha2_len64 l) = 8" "length (sha2_len128 l) = 16"
  by (simp_all add: sha2_len64_def sha2_len128_def)

lemma sha2small_update_absorbed:
  assumes "absorbed 64 br_sha2small_round iv m cc" "cc_count cc = of_nat (length m)"
  shows "absorbed 64 br_sha2small_round iv (m @ d) (sha2small_update cc d)
    \<and> cc_count (sha2small_update cc d) = of_nat (length (m @ d))"
  unfolding sha2small_update_def Let_def
  by (rule md_update_before_loop [OF assms]) (simp_all add: assms(2) count_masks)

lemma sha2big_update_absorbed:
  assumes "absorbed 128 sha2big_round iv m cc" "cc_count cc = of_nat (length m)"
  shows "absorbed 128 sha2big_round iv (m @ d) (sha2big_update cc d)
    \<and> cc_count (sha2big_update cc d) = of_nat (length (m @ d))"
  unfolding sha2big_update_def Let_def
  by (rule md_update_before_loop [OF assms]) (simp_all add: assms(2) count_masks)

lemma sha2small_out_spec:
  assumes "absorbed 64 br_sha2small_round iv m cc" "cc_count cc = of_nat (length m)" "length iv = 8" "num \<le> 8"
  shows "sha2small_out cc num = concat (map br_enc32be (take num (md_hash 64 56 sha2_len64 sha256_compress iv m)))"
proof -
  obtain buf v where h: "md_head 64 56 br_sha2small_round (length m mod 64) (cc_buf cc) (cc_val cc) = (buf, v)" by fastforce
  have "br_sha2small_round (buf @ sha2_len64 (length m)) v = md_hash 64 56 sha2_len64 br_sha2small_round iv m"
    using md_head_spec [OF assms(1) refl _ _ h] by (simp add: md_hash_def)
  then show ?thesis using h assms(3,4)
    by (simp add: sha2small_out_def Let_def assms(2) count_masks bits_of_bytes sha2_len64_def sha2_rnd out_bytes md_hash_def)
qed

lemma high_bits_of_bytes: "drop_bit 61 (of_nat l :: u64) = of_nat (8 * (l mod 2 ^ 64) div 2 ^ 64)"
proof -
  have "unat (drop_bit 61 (of_nat l :: u64)) = l mod 2 ^ 64 div 2 ^ 61"
    by (simp only: unat_drop_bit_eq unsigned_of_nat) (simp add: take_bit_eq_mod drop_bit_eq_div)
  also have "\<dots> = 8 * (l mod 2 ^ 64) div 2 ^ 64"
    using div_mult_mult1 [of "8 :: nat" "l mod 2 ^ 64" "2 ^ 61"] by simp
  finally have "(of_nat (unat (drop_bit 61 (of_nat l :: u64))) :: u64) = of_nat (8 * (l mod 2 ^ 64) div 2 ^ 64)"
    by (rule arg_cong)
  then show ?thesis by (simp only: of_nat_unat ucast_id)
qed

lemma sha2big_out_spec:
  assumes "absorbed 128 sha2big_round iv m cc" "cc_count cc = of_nat (length m)" "length iv = 8" "num \<le> 8"
  shows "sha2big_out cc num = concat (map br_enc64be (take num (md_hash 128 112 sha2_len128 sha512_compress iv m)))"
proof -
  obtain buf v where h: "md_head 128 112 sha2big_round (length m mod 128) (cc_buf cc) (cc_val cc) = (buf, v)" by fastforce
  have "sha2big_round (buf @ sha2_len128 (length m)) v = md_hash 128 112 sha2_len128 sha2big_round iv m"
    using md_head_spec [OF assms(1) refl _ _ h] by (simp add: md_hash_def)
  moreover have "(buf @ br_enc64be (drop_bit 61 (of_nat (length m)))) @ br_enc64be (push_bit 3 (of_nat (length m)))
      = buf @ sha2_len128 (length m)"
    by (simp only: sha2_len128_def high_bits_of_bytes bits_of_bytes append_assoc)
  then have "sha2big_out cc num = br_range_enc64be (sha2big_round (buf @ sha2_len128 (length m)) v) num"
    by (simp only: sha2big_out_def Let_def assms(2) count_masks h prod.case)
  ultimately show ?thesis using assms(3,4) by (simp add: sha2_rnd be64.range_enc_map md_hash_def)
qed

lemmas sha224_vt = br_sha224_vtable_def block_size_def br_digest_size_def hashdesc_defs
lemmas sha256_vt = br_sha256_vtable_def block_size_def br_digest_size_def hashdesc_defs
lemmas sha384_vt = br_sha384_vtable_def block_size_def br_digest_size_def hashdesc_defs
lemmas sha512_vt = br_sha512_vtable_def block_size_def br_digest_size_def hashdesc_defs

interpretation sha224: md_function "br_sha224_vtable mem" sha224_digest 64 br_sha2small_round br_sha224_IV
  "\<lambda>v. length v = 8" "\<lambda>v. br_range_enc32be v 8" "br_range_dec32be 8" for mem
proof
  show "block_size (br_sha224_vtable mem) = 64" by (simp add: sha224_vt)
  show "length (sha224_digest m) = br_digest_size (br_sha224_vtable mem)" for m
    by (simp add: sha224_vt sha224_digest_def md_hash_def concat_map_length [where k = 4])
  show "0 < br_digest_size (br_sha224_vtable mem)" "br_digest_size (br_sha224_vtable mem) \<le> 64" by (simp_all add: sha224_vt)
  show "absorbed 64 br_sha2small_round br_sha224_IV (m @ d) (hc_update (br_sha224_vtable mem) cc d)
      \<and> cc_count (hc_update (br_sha224_vtable mem) cc d) = of_nat (length (m @ d))"
    if "absorbed 64 br_sha2small_round br_sha224_IV m cc" "cc_count cc = of_nat (length m)" for m cc d
    using sha2small_update_absorbed [OF that] by (simp add: br_sha224_vtable_def br_sha224_update_def)
  show "hc_out (br_sha224_vtable mem) cc = sha224_digest m"
    if "absorbed 64 br_sha2small_round br_sha224_IV m cc" "cc_count cc = of_nat (length m)" for m cc
    using sha2small_out_spec [OF that, of 7]
    by (simp add: br_sha224_vtable_def br_sha224_out_def sha224_digest_def md_hash_def)
  show "br_range_dec32be 8 (br_range_enc32be v 8) = v" if "length v = 8" for v
    using be32.range_dec_enc [of v "[]"] that by simp
qed (simp_all add: br_sha224_vtable_def br_sha224_init_def br_sha224_state_def br_sha224_set_state_def sha2_rnd)

interpretation sha256: md_function "br_sha256_vtable mem" sha256_digest 64 br_sha2small_round br_sha256_IV
  "\<lambda>v. length v = 8" "\<lambda>v. br_range_enc32be v 8" "br_range_dec32be 8" for mem
proof
  show "block_size (br_sha256_vtable mem) = 64" by (simp add: sha256_vt)
  show "length (sha256_digest m) = br_digest_size (br_sha256_vtable mem)" for m
    by (simp add: sha256_vt sha256_digest_def md_hash_def concat_map_length [where k = 4])
  show "0 < br_digest_size (br_sha256_vtable mem)" "br_digest_size (br_sha256_vtable mem) \<le> 64" by (simp_all add: sha256_vt)
  show "absorbed 64 br_sha2small_round br_sha256_IV (m @ d) (hc_update (br_sha256_vtable mem) cc d)
      \<and> cc_count (hc_update (br_sha256_vtable mem) cc d) = of_nat (length (m @ d))"
    if "absorbed 64 br_sha2small_round br_sha256_IV m cc" "cc_count cc = of_nat (length m)" for m cc d
    using sha2small_update_absorbed [OF that] by (simp add: br_sha256_vtable_def br_sha224_update_def)
  show "hc_out (br_sha256_vtable mem) cc = sha256_digest m"
    if "absorbed 64 br_sha2small_round br_sha256_IV m cc" "cc_count cc = of_nat (length m)" for m cc
    using sha2small_out_spec [OF that, of 8]
    by (simp add: br_sha256_vtable_def br_sha256_out_def sha256_digest_def md_hash_def)
  show "br_range_dec32be 8 (br_range_enc32be v 8) = v" if "length v = 8" for v
    using be32.range_dec_enc [of v "[]"] that by simp
qed (simp_all add: br_sha256_vtable_def br_sha256_init_def br_sha224_state_def br_sha224_set_state_def sha2_rnd)

interpretation sha384: md_function "br_sha384_vtable mem" sha384_digest 128 sha2big_round IV384
  "\<lambda>v. length v = 8" "\<lambda>v. br_range_enc64be v 8" "br_range_dec64be 8" for mem
proof
  show "block_size (br_sha384_vtable mem) = 128" by (simp add: sha384_vt)
  show "length (sha384_digest m) = br_digest_size (br_sha384_vtable mem)" for m
    by (simp add: sha384_vt sha384_digest_def md_hash_def concat_map_length [where k = 8])
  show "0 < br_digest_size (br_sha384_vtable mem)" "br_digest_size (br_sha384_vtable mem) \<le> 64" by (simp_all add: sha384_vt)
  show "absorbed 128 sha2big_round IV384 (m @ d) (hc_update (br_sha384_vtable mem) cc d)
      \<and> cc_count (hc_update (br_sha384_vtable mem) cc d) = of_nat (length (m @ d))"
    if "absorbed 128 sha2big_round IV384 m cc" "cc_count cc = of_nat (length m)" for m cc d
    using sha2big_update_absorbed [OF that] by (simp add: br_sha384_vtable_def br_sha384_update_def)
  show "hc_out (br_sha384_vtable mem) cc = sha384_digest m"
    if "absorbed 128 sha2big_round IV384 m cc" "cc_count cc = of_nat (length m)" for m cc
    using sha2big_out_spec [OF that, of 6]
    by (simp add: br_sha384_vtable_def br_sha384_out_def sha384_digest_def md_hash_def)
  show "br_range_dec64be 8 (br_range_enc64be v 8) = v" if "length v = 8" for v
    using be64.range_dec_enc [of v "[]"] that by simp
qed (simp_all add: br_sha384_vtable_def br_sha384_init_def br_sha384_state_def br_sha384_set_state_def sha2_rnd)

interpretation sha512: md_function "br_sha512_vtable mem" sha512_digest 128 sha2big_round IV512
  "\<lambda>v. length v = 8" "\<lambda>v. br_range_enc64be v 8" "br_range_dec64be 8" for mem
proof
  show "block_size (br_sha512_vtable mem) = 128" by (simp add: sha512_vt)
  show "length (sha512_digest m) = br_digest_size (br_sha512_vtable mem)" for m
    by (simp add: sha512_vt sha512_digest_def md_hash_def concat_map_length [where k = 8])
  show "0 < br_digest_size (br_sha512_vtable mem)" "br_digest_size (br_sha512_vtable mem) \<le> 64" by (simp_all add: sha512_vt)
  show "absorbed 128 sha2big_round IV512 (m @ d) (hc_update (br_sha512_vtable mem) cc d)
      \<and> cc_count (hc_update (br_sha512_vtable mem) cc d) = of_nat (length (m @ d))"
    if "absorbed 128 sha2big_round IV512 m cc" "cc_count cc = of_nat (length m)" for m cc d
    using sha2big_update_absorbed [OF that] by (simp add: br_sha512_vtable_def br_sha384_update_def)
  show "hc_out (br_sha512_vtable mem) cc = sha512_digest m"
    if "absorbed 128 sha2big_round IV512 m cc" "cc_count cc = of_nat (length m)" for m cc
    using sha2big_out_spec [OF that, of 8]
    by (simp add: br_sha512_vtable_def br_sha512_out_def sha512_digest_def md_hash_def)
  show "br_range_dec64be 8 (br_range_enc64be v 8) = v" if "length v = 8" for v
    using be64.range_dec_enc [of v "[]"] that by simp
qed (simp_all add: br_sha512_vtable_def br_sha512_init_def br_sha384_state_def br_sha384_set_state_def sha2_rnd)

end
