(* ===== verification/KdfProps.thy ===== *)
theory KdfProps
  imports Kdf Sha2
begin

section \<open>The pseudo-random functions of TLS over the hash tables, and what the derivations compute\<close>

text \<open>
  The specifications of RFC 2104, RFC 5246, RFC 2246, RFC 5869, RFC 8017 and SP 800-90A, and the proofs
  that the streaming code computes them over each hash table of the library.
\<close>

definition br_tls10_prf :: "u32 list junk \<Rightarrow> nat \<Rightarrow> u8 list \<Rightarrow> u8 list \<Rightarrow> u8 list list \<Rightarrow> u8 list" where
  "br_tls10_prf mem len secret label seed =
     (let slen = (length secret + 1) div 2;
          dst = replicate len 0;
          dst = br_tls_phash dst (br_md5_vtable mem) (take slen secret) label seed
      in br_tls_phash dst (br_sha1_vtable mem) (take slen (drop (length secret - slen) secret)) label seed)"

definition br_tls12_sha256_prf :: "u32 list junk \<Rightarrow> nat \<Rightarrow> u8 list \<Rightarrow> u8 list \<Rightarrow> u8 list list \<Rightarrow> u8 list" where
  "br_tls12_sha256_prf mem len secret label seed =
     br_tls_phash (replicate len 0) (br_sha256_vtable mem) secret label seed"

definition br_tls12_sha384_prf :: "u64 list junk \<Rightarrow> nat \<Rightarrow> u8 list \<Rightarrow> u8 list \<Rightarrow> u8 list list \<Rightarrow> u8 list" where
  "br_tls12_sha384_prf mem len secret label seed =
     br_tls_phash (replicate len 0) (br_sha384_vtable mem) secret label seed"

subsection \<open>Specifications\<close>

text \<open>RFC 5246, section 5: \<open>A(1)\<close> is \<open>mac seed\<close> and each block is \<open>mac (A(i) + seed)\<close>.\<close>

fun p_blocks :: "(u8 list \<Rightarrow> u8 list) \<Rightarrow> u8 list \<Rightarrow> nat \<Rightarrow> u8 list \<Rightarrow> u8 list" where
  "p_blocks M seed 0 a = []"
| "p_blocks M seed (Suc k) a = M (a @ seed) @ p_blocks M seed k (M a)"

definition P_hash :: "(u8 list \<Rightarrow> u8 list) \<Rightarrow> u8 list \<Rightarrow> nat \<Rightarrow> u8 list" where
  "P_hash M seed n = take n (p_blocks M seed n (M seed))"

text \<open>RFC 8017, appendix B.2.1.\<close>

definition mgf1 :: "(u8 list \<Rightarrow> u8 list) \<Rightarrow> u8 list \<Rightarrow> nat \<Rightarrow> u8 list" where
  "mgf1 H seed n = take n (concat (map (\<lambda>i. H (seed @ br_enc32be (of_nat i))) [0..<n]))"

text \<open>SP 800-90A, section 10.1.2: the update function and the output blocks.\<close>

definition sp_update :: "(u8 list \<Rightarrow> u8 list \<Rightarrow> u8 list) \<Rightarrow> u8 list \<Rightarrow> u8 list \<times> u8 list \<Rightarrow> u8 list \<times> u8 list" where
  "sp_update M seed = (\<lambda>(K, V).
     let K = M K (V @ [0x00] @ seed); V = M K V
     in if seed = [] then (K, V) else let K = M K (V @ [0x01] @ seed); V = M K V in (K, V))"

definition sp_blocks :: "(u8 list \<Rightarrow> u8 list) \<Rightarrow> nat \<Rightarrow> u8 list \<Rightarrow> u8 list" where
  "sp_blocks M k V = concat (map (\<lambda>i. (M ^^ Suc i) V) [0..<k])"

text \<open>RFC 5869: the blocks \<open>T(i)\<close> and the output keying material up to its maximal length.\<close>

fun hkdf_T :: "(u8 list \<Rightarrow> u8 list) \<Rightarrow> u8 list \<Rightarrow> nat \<Rightarrow> u8 list" where
  "hkdf_T M info 0 = []"
| "hkdf_T M info (Suc i) = M (hkdf_T M info i @ info @ [of_nat (Suc i)])"

definition hkdf_okm :: "(u8 list \<Rightarrow> u8 list) \<Rightarrow> u8 list \<Rightarrow> u8 list" where
  "hkdf_okm M info = concat (map (\<lambda>i. hkdf_T M info (Suc i)) [0..<255])"

text \<open>A whole derivation, with its output requested in any pieces.\<close>

fun hkdf_requests :: "'s br_hkdf_context \<Rightarrow> u8 list \<Rightarrow> nat list \<Rightarrow> u8 list" where
  "hkdf_requests hc info [] = []"
| "hkdf_requests hc info (n # ns) =
     (let (out, hc) = br_hkdf_produce hc info n in out @ hkdf_requests hc info ns)"

subsection \<open>Streams\<close>

lemma length_xor_bytes [simp]: "length (xor_bytes xs ys) = min (length xs) (length ys)"
  by (simp add: xor_bytes_def)

lemma xor_bytes_append: "xor_bytes xs (b @ s) = xor_bytes (take (length b) xs) b @ xor_bytes (drop (length b) xs) s"
  by (simp add: xor_bytes_def zip_append2)

lemma xor_bytes_zero: "xor_bytes (replicate n 0) ys = take n ys"
proof (induction n arbitrary: ys)
  case (Suc n)
  then show ?case by (cases ys) (simp_all add: xor_bytes_def)
qed (simp add: xor_bytes_def)

lemma xor_bytes_prefix: "length xs \<le> n \<Longrightarrow> xor_bytes xs (take n ys) = xor_bytes xs ys"
proof (induction xs arbitrary: n ys)
  case (Cons x xs)
  then show ?case by (cases n; cases ys) (simp_all add: xor_bytes_def)
qed (simp add: xor_bytes_def)

lemma length_p_blocks: "(\<And>x. length (M x) = h) \<Longrightarrow> length (p_blocks M seed k a) = k * h"
  by (induction k arbitrary: a) simp_all

text \<open>More blocks than needed do not change the beginning.\<close>

lemma p_blocks_more:
  "(\<And>x. length (M x) = h) \<Longrightarrow> j \<le> k \<Longrightarrow> take (j * h) (p_blocks M seed k a) = p_blocks M seed j a"
proof (induction j arbitrary: k a)
  case (Suc j)
  then obtain k' where "k = Suc k'" "j \<le> k'" by (cases k) auto
  then show ?case using Suc by simp
qed simp

lemma concat_block:
  assumes "\<And>j. j < n \<Longrightarrow> length (f j) = h" and "i < n" and "q + l \<le> h"
  shows "take l (drop (i * h + q) (concat (map f [0..<n]))) = take l (drop q (f i))"
proof -
  have "length (concat (map f [0..<k])) = k * h" if "k \<le> n" for k using that by (induction k) (simp_all add: assms(1))
  then have len: "length (concat (map f [0..<i])) = i * h" using assms(2) by simp
  have "[0..<n] = [0..<i] @ i # [Suc i..<n]" using assms(2) using upt_add_eq_append [of 0 i "n - i"] by (simp add: upt_conv_Cons)
  then have "concat (map f [0..<n]) = concat (map f [0..<i]) @ f i @ concat (map f [Suc i..<n])" by simp
  then have "drop (i * h + q) (concat (map f [0..<n])) = drop q (f i @ concat (map f [Suc i..<n]))"
    using len by (simp add: drop_append)
  then show ?thesis using assms by simp
qed

subsection \<open>The functions compute the specifications\<close>

context hash_streaming
begin

lemma take_mac [simp]: "take (br_digest_size dig) (mac key m) = mac key m"
  by (simp add: length_mac)

lemma take_digest_id: "length a = br_digest_size dig \<Longrightarrow> take (br_digest_size dig) a = a"
  by simp

lemma chunks_mac: "keyed key kc \<Longrightarrow>
    br_hmac_out (hmac_chunks (br_hmac_update (br_hmac_update (br_hmac_init kc 0) a) b) seed) = mac key (a @ b @ concat seed)"
  "keyed key kc \<Longrightarrow> br_hmac_out (hmac_chunks (br_hmac_update (br_hmac_init kc 0) b) seed) = mac key (b @ concat seed)"
  using hmac_full [of key kc "a # b # seed"] hmac_full [of key kc "b # seed"] by (simp_all add: hmac_chunks_def)

lemma phash_loop_spec:
  assumes key: "keyed key kc" and hlen: "hlen = br_digest_size dig"
  shows "length a = hlen \<Longrightarrow> length buf \<le> k \<Longrightarrow>
    phash_loop kc hlen label seed a buf = xor_bytes buf (p_blocks (mac key) (label @ concat seed) k a)"
proof (induction k arbitrary: a buf)
  case 0
  then show ?case by (simp add: phash_loop.simps xor_bytes_def Let_def)
next
  case (Suc k)
  have h: "0 < hlen" using digest_pos hlen by simp
  define tmp where "tmp = mac key (a @ label @ concat seed)"
  have lt: "length tmp = hlen" by (simp add: tmp_def length_mac hlen)
  have ta: "take hlen a = a" using Suc.prems by simp
  have tmp: "br_hmac_out (hmac_chunks (br_hmac_update (br_hmac_update (br_hmac_init kc 0) (take hlen a)) label) seed) = tmp"
    unfolding ta tmp_def by (rule chunks_mac(1) [OF key])
  have next_a: "br_hmac_out (br_hmac_update (br_hmac_init kc 0) (take hlen a)) = mac key a"
    unfolding ta by (rule hmac_full_1 [OF key])
  have spec: "xor_bytes buf (p_blocks (mac key) (label @ concat seed) (Suc k) a)
      = xor_bytes (take hlen buf) tmp @ xor_bytes (drop hlen buf) (p_blocks (mac key) (label @ concat seed) k (mac key a))"
    using lt by (simp add: xor_bytes_append tmp_def [symmetric])
  show ?case
  proof (cases "length buf \<le> hlen")
    case True
    have "phash_loop kc hlen label seed a buf = xor_bytes buf (take (length buf) tmp)"
      using True by (subst phash_loop.simps) (auto simp: Let_def tmp)
    then show ?thesis using True unfolding spec by (simp add: xor_bytes_prefix) (simp add: xor_bytes_def)
  next
    case False
    have "phash_loop kc hlen label seed a buf
        = xor_bytes (take hlen buf) tmp @ phash_loop kc hlen label seed (mac key a) (drop hlen buf)"
      using False h lt by (subst phash_loop.simps) (simp add: Let_def tmp next_a)
    moreover have "length (drop hlen buf) \<le> k" using Suc.prems h False by simp
    ultimately show ?thesis unfolding spec using Suc.IH [of "mac key a" "drop hlen buf"] length_mac hlen by simp
  qed
qed

lemma phash_spec: "br_tls_phash dst dig secret label seed
    = xor_bytes dst (P_hash (mac secret) (takeWhile (\<lambda>c. c \<noteq> 0) label @ concat seed) (length dst))"
proof (cases "dst = []")
  case False
  let ?l = "takeWhile (\<lambda>c. c \<noteq> 0) label"
  have "br_tls_phash dst dig secret label seed
      = xor_bytes dst (p_blocks (mac secret) (?l @ concat seed) (length dst) (mac secret (?l @ concat seed)))"
    using False phash_loop_spec [OF key_init_keyed refl length_mac order_refl] chunks_mac(2) [OF key_init_keyed]
    by (simp add: br_tls_phash_def Let_def)
  then show ?thesis by (simp add: P_hash_def xor_bytes_prefix)
qed (simp add: br_tls_phash_def xor_bytes_def)

text \<open>MGF1.\<close>

lemma mgf1_loop_spec:
  assumes "hlen = br_digest_size dig" and "ok hc" and "length buf \<le> k"
  shows "mgf1_loop dig seed hlen hc (of_nat i) buf
    = xor_bytes buf (concat (map (\<lambda>j. digest (seed @ br_enc32be (of_nat j))) [i..<i + k]))"
  using assms
proof (induction k arbitrary: hc i buf)
  case 0
  then show ?case by (simp add: mgf1_loop.simps xor_bytes_def)
next
  case (Suc k)
  show ?case
  proof (cases "buf = []")
    case True
    then show ?thesis by (simp add: mgf1_loop.simps xor_bytes_def)
  next
    case False
    define hc1 where "hc1 = hc_update dig (hc_update dig (hc_init dig hc) seed) (br_enc32be (of_nat i))"
    have r: "rep (seed @ br_enc32be (of_nat i)) hc1"
      unfolding hc1_def using update_rep [OF init_update [OF Suc.prems(2)]] .
    have "mgf1_loop dig seed hlen hc (of_nat i) buf
        = xor_bytes (take hlen buf) (take hlen (hc_out dig hc1)) @ mgf1_loop dig seed hlen hc1 (of_nat (Suc i)) (drop hlen buf)"
      using False digest_pos Suc.prems(1) by (subst mgf1_loop.simps) (simp add: Let_def hc1_def ac_simps)
    moreover have "hc_out dig hc1 = digest (seed @ br_enc32be (of_nat i))" by (rule out_rep [OF r])
    moreover have "length (drop hlen buf) \<le> k" using Suc.prems False digest_pos by simp
    note Suc.IH [OF Suc.prems(1) rep_ok [OF r] this, of "Suc i"]
    moreover have "[i..<i + Suc k] = i # [Suc i..<Suc i + k]" by (simp add: upt_conv_Cons)
    ultimately show ?thesis using Suc.prems(1) length_digest by (simp add: xor_bytes_append)
  qed
qed

lemma mgf1_spec: "br_mgf1_xor buf dig seed = xor_bytes buf (mgf1 digest seed (length buf))"
  using mgf1_loop_spec [OF refl mem_ok order_refl, where i = 0] by (simp add: br_mgf1_xor_def mgf1_def xor_bytes_prefix)

text \<open>HMAC\_DRBG: the two registers.\<close>

definition drbg :: "u8 list \<times> u8 list \<Rightarrow> 's br_hmac_drbg_context \<Rightarrow> bool" where
  "drbg KV ctx \<longleftrightarrow> digest_class ctx = dig \<and> drbg_K ctx = fst KV \<and> drbg_V ctx = snd KV
     \<and> length (fst KV) = br_digest_size dig \<and> length (snd KV) = br_digest_size dig"

lemma drbg_update_spec:
  assumes "drbg KV ctx"
  shows "drbg (sp_update mac seed KV) (br_hmac_drbg_update ctx seed)"
proof -
  obtain K V where KV: "KV = (K, V)" by (cases KV)
  have ctx: "digest_class ctx = dig" "drbg_K ctx = K" "drbg_V ctx = V" "length K = br_digest_size dig" "length V = br_digest_size dig"
    using assms by (simp_all add: drbg_def KV)
  note macs = hmac_full_1 [OF key_init_keyed] hmac_full_2 [OF key_init_keyed] hmac_full_3 [OF key_init_keyed]
  show ?thesis
    using ctx by (cases "seed = []") (simp_all add: drbg_def br_hmac_drbg_update_def sp_update_def Let_def macs KV length_mac)
qed

lemma drbg_init_spec:
  "drbg (sp_update mac seed (replicate (br_digest_size dig) 0, replicate (br_digest_size dig) 1)) (br_hmac_drbg_init dig seed)"
  unfolding br_hmac_drbg_init_def Let_def by (rule drbg_update_spec) (simp add: drbg_def)

definition drbg_count :: "nat \<Rightarrow> nat" where
  "drbg_count len = (len + br_digest_size dig - 1) div br_digest_size dig"

lemma drbg_count_simps:
  "drbg_count 0 = 0"
  "0 < len \<Longrightarrow> drbg_count len = Suc (drbg_count (len - br_digest_size dig))"
proof -
  show zero: "drbg_count 0 = 0" using digest_pos by (simp add: drbg_count_def)
  let ?h = "br_digest_size dig"
  have count: "drbg_count n = Suc ((n - 1) div ?h)" if "0 < n" for n
  proof -
    have "n + ?h - 1 = n - 1 + ?h" using that by simp
    then show ?thesis unfolding drbg_count_def using digest_pos by (simp only: div_add_self2)
  qed
  assume len: "0 < len"
  show "drbg_count len = Suc (drbg_count (len - ?h))"
  proof (cases "len \<le> ?h")
    case True
    then have "(len - 1) div ?h = 0" using len by simp
    then show ?thesis using True by (simp add: count [OF len] zero)
  next
    case False
    then have "(len - 1) div ?h = Suc ((len - 1 - ?h) div ?h)" using digest_pos by (intro le_div_geq) simp_all
    moreover have "len - 1 - ?h = len - ?h - 1" by simp
    ultimately show ?thesis using False count [OF len] count [of "len - ?h"] by simp
  qed
qed

lemma sp_blocks_Suc: "sp_blocks M (Suc k) V = M V @ sp_blocks M k (M V)"
proof -
  have "[0..<Suc k] = 0 # map Suc [0..<k]" by (simp add: upt_conv_Cons map_Suc_upt)
  then show ?thesis by (simp add: sp_blocks_def comp_def funpow_swap1)
qed

lemma drbg_enough: "len \<le> drbg_count len * br_digest_size dig \<and> drbg_count len \<le> len"
proof (induction len rule: less_induct)
  case (less len)
  show ?case
  proof (cases "len = 0")
    case False
    then have "len - br_digest_size dig < len" using digest_pos by simp
    from less.IH [OF this] have "len - br_digest_size dig \<le> drbg_count (len - br_digest_size dig) * br_digest_size dig"
      "drbg_count (len - br_digest_size dig) \<le> len - br_digest_size dig" by simp_all
    moreover have "drbg_count len = Suc (drbg_count (len - br_digest_size dig))" using False drbg_count_simps(2) by simp
    ultimately show ?thesis using False digest_pos by (simp only: mult_Suc) linarith
  qed (simp add: drbg_count_simps)
qed

lemma sp_blocks_prefix: "take len (sp_blocks (mac K) len V) = take len (sp_blocks (mac K) (drbg_count len) V)"
proof -
  have more: "take (j * br_digest_size dig) (sp_blocks (mac K) k V) = sp_blocks (mac K) j V" if "j \<le> k" for j k V
    using that
  proof (induction j arbitrary: k V)
    case (Suc j)
    then obtain k' where "k = Suc k'" "j \<le> k'" by (cases k) auto
    then show ?case using Suc.IH [of k' "mac K V"] by (simp add: sp_blocks_Suc length_mac)
  qed (simp add: sp_blocks_def)
  show ?thesis using more [of "drbg_count len" len V] drbg_enough [of len] take_take [of len "drbg_count len * br_digest_size dig"]
    by (metis min.absorb1)
qed

lemma drbg_loop_spec:
  assumes "keyed K kc"
  shows "length V = br_digest_size dig \<Longrightarrow> drbg_loop kc (br_digest_size dig) V len
    = (take len (sp_blocks (mac K) (drbg_count len) V), (mac K ^^ drbg_count len) V)"
proof (induction len arbitrary: V rule: less_induct)
  case (less len)
  let ?h = "br_digest_size dig"
  show ?case
  proof (cases "len = 0")
    case True
    then show ?thesis by (simp add: drbg_loop.simps drbg_count_simps sp_blocks_def)
  next
    case False
    define clen where "clen = (if len < ?h then len else ?h)"
    have c: "len - clen = len - ?h" "len - clen < len" using False digest_pos by (auto simp: clen_def)
    have V: "br_hmac_out (br_hmac_update (br_hmac_init kc 0) (take ?h V)) = mac K V"
      using hmac_full_1 [OF assms] less.prems by simp
    have "drbg_loop kc ?h V len =
        (let (rest, V') = drbg_loop kc ?h (mac K V) (len - clen) in (take clen (mac K V) @ rest, V'))"
      using False digest_pos by (subst drbg_loop.simps) (simp add: Let_def V clen_def)
    moreover have "drbg_loop kc ?h (mac K V) (len - clen)
        = (take (len - clen) (sp_blocks (mac K) (drbg_count (len - clen)) (mac K V)), (mac K ^^ drbg_count (len - clen)) (mac K V))"
      by (rule less.IH [OF c(2) length_mac])
    moreover have "take len (mac K V @ s) = take clen (mac K V) @ take (len - clen) s" for s
      by (simp add: clen_def length_mac)
    ultimately show ?thesis using False
      by (simp add: drbg_count_simps(2) sp_blocks_Suc c(1) funpow_swap1)
  qed
qed

lemma drbg_generate_spec:
  assumes "drbg (K, V) ctx"
  shows "fst (br_hmac_drbg_generate ctx len) = take len (sp_blocks (mac K) (drbg_count len) V)"
    and "drbg (sp_update mac [] (K, (mac K ^^ drbg_count len) V)) (snd (br_hmac_drbg_generate ctx len))"
proof -
  have ctx: "digest_class ctx = dig" "drbg_K ctx = K" "drbg_V ctx = V" "length K = br_digest_size dig" "length V = br_digest_size dig"
    using assms by (simp_all add: drbg_def)
  have loop: "drbg_loop (br_hmac_key_init dig K) (br_digest_size dig) V len
      = (take len (sp_blocks (mac K) (drbg_count len) V), (mac K ^^ drbg_count len) V)"
    by (rule drbg_loop_spec [OF key_init_keyed ctx(5)])
  have lV: "length ((mac K ^^ n) V) = br_digest_size dig" for n using ctx(5) by (cases n) (simp_all add: length_mac)
  note macs = hmac_full_1 [OF key_init_keyed] hmac_full_2 [OF key_init_keyed]
  show "fst (br_hmac_drbg_generate ctx len) = take len (sp_blocks (mac K) (drbg_count len) V)"
    using ctx loop by (simp add: br_hmac_drbg_generate_def Let_def)
  show "drbg (sp_update mac [] (K, (mac K ^^ drbg_count len) V)) (snd (br_hmac_drbg_generate ctx len))"
    using ctx loop lV by (simp add: br_hmac_drbg_generate_def drbg_def sp_update_def Let_def macs length_mac)
qed

text \<open>HKDF: \<open>p\<close> bytes were produced.\<close>

definition hkdf_at :: "u8 list \<Rightarrow> u8 list \<Rightarrow> nat \<Rightarrow> 's br_hkdf_context \<Rightarrow> bool" where
  "hkdf_at prk info p hc \<longleftrightarrow> (\<exists>kc. hk_u hc = Prk_ctx kc \<and> keyed prk kc) \<and> dig_len hc = br_digest_size dig
     \<and> hk_ptr hc \<le> br_digest_size dig \<and> unat (chunk_num hc) \<le> 255
     \<and> p + br_digest_size dig = unat (chunk_num hc) * br_digest_size dig + hk_ptr hc
     \<and> (0 < unat (chunk_num hc) \<longrightarrow> hk_buf hc = hkdf_T (mac prk) info (unat (chunk_num hc)))"

lemma length_hkdf_T: "0 < i \<Longrightarrow> length (hkdf_T (mac prk) info i) = br_digest_size dig"
  by (cases i) (simp_all add: length_mac)

lemma hkdf_block_spec:
  assumes "keyed prk kc" and "hk_u hc = Prk_ctx kc" and "dig_len hc = br_digest_size dig" and "c = unat (chunk_num hc)"
    and "0 < c" and "c \<le> 255" and "1 < c \<longrightarrow> hk_buf hc = hkdf_T (mac prk) info (c - 1)"
  shows "hkdf_block hc info = hc\<lparr>hk_buf := hkdf_T (mac prk) info c, hk_ptr := 0\<rparr>"
proof -
  obtain i where i: "c = Suc i" using assms(5) by (cases c) auto
  have x: "(ucast (chunk_num hc) :: u8) = of_nat c" using assms(4) by (simp add: of_nat_unat)
  have "unat (of_nat c :: u8) = c" using assms(6) by (simp add: unsigned_of_nat take_bit_eq_mod)
  then have x1: "(of_nat c :: u8) \<noteq> 1 \<longleftrightarrow> 0 < i" using i by (metis of_nat_1 One_nat_def not_gr0 unsigned_1 nat.inject)
  show ?thesis
  proof (cases "i = 0")
    case True
    then have "(of_nat c :: u8) = 1" using i by simp
    then show ?thesis using assms(2) hmac_full_2 [OF assms(1)] True i by (simp add: hkdf_block_def Let_def x)
  next
    case False
    then have "hk_buf hc = hkdf_T (mac prk) info i" using assms(7) i by simp
    moreover have "(of_nat c :: u8) \<noteq> 1" using x1 False by simp
    ultimately show ?thesis
      using assms(2,3) hmac_full_3 [OF assms(1)] False i length_hkdf_T [of i] by (simp add: hkdf_block_def Let_def x)
  qed
qed

lemma hkdf_pass:
  assumes at: "hkdf_at prk info p hc" and ptr: "hk_ptr hc < br_digest_size dig"
    and clen: "hk_ptr hc + clen \<le> br_digest_size dig"
  shows "take clen (drop (hk_ptr hc) (hk_buf hc)) = take clen (drop p (hkdf_okm (mac prk) info))"
    and "hkdf_at prk info (p + clen) (hc\<lparr>hk_ptr := hk_ptr hc + clen\<rparr>)"
proof -
  let ?h = "br_digest_size dig"
  obtain i where i: "unat (chunk_num hc) = Suc i" using at ptr by (cases "unat (chunk_num hc)") (simp_all add: hkdf_at_def)
  have p: "p = i * ?h + hk_ptr hc" and i255: "i < 255" using at i by (simp_all add: hkdf_at_def)
  have "take clen (drop (i * ?h + hk_ptr hc) (concat (map (\<lambda>i. hkdf_T (mac prk) info (Suc i)) [0..<255])))
      = take clen (drop (hk_ptr hc) (hkdf_T (mac prk) info (Suc i)))"
    by (rule concat_block [OF length_hkdf_T i255 clen]) simp
  then show "take clen (drop (hk_ptr hc) (hk_buf hc)) = take clen (drop p (hkdf_okm (mac prk) info))"
    using at i unfolding p hkdf_okm_def by (simp add: hkdf_at_def)
  show "hkdf_at prk info (p + clen) (hc\<lparr>hk_ptr := hk_ptr hc + clen\<rparr>)" using at clen by (auto simp: hkdf_at_def)
qed

lemma hkdf_refill:
  assumes at: "hkdf_at prk info p hc" and full: "hk_ptr hc = br_digest_size dig" and room: "p < 255 * br_digest_size dig"
  defines "hc1 \<equiv> hc\<lparr>chunk_num := chunk_num hc + 1\<rparr>"
  shows "chunk_num hc1 \<noteq> 256" and "hkdf_at prk info p (hkdf_block hc1 info)" and "hk_ptr (hkdf_block hc1 info) = 0"
proof -
  let ?h = "br_digest_size dig"
  obtain kc where kc: "hk_u hc = Prk_ctx kc" "keyed prk kc" and dl: "dig_len hc = ?h" using at by (auto simp: hkdf_at_def)
  define c where "c = unat (chunk_num hc)"
  have p: "p = c * ?h" using at full by (simp add: hkdf_at_def c_def)
  then have c: "c < 255" using room by simp
  then have c1: "unat (chunk_num hc1) = Suc c" unfolding hc1_def c_def
    by (simp add: unat_word_ariths)
  show "chunk_num hc1 \<noteq> 256" using c c1 by auto
  have "hkdf_block hc1 info = hc1\<lparr>hk_buf := hkdf_T (mac prk) info (Suc c), hk_ptr := 0\<rparr>"
    by (rule hkdf_block_spec [OF kc(2)]) (use kc dl c c1 at in \<open>auto simp: hc1_def hkdf_at_def c_def\<close>)
  then show "hkdf_at prk info p (hkdf_block hc1 info)" "hk_ptr (hkdf_block hc1 info) = 0"
    using c1 c kc dl p by (simp_all add: hkdf_at_def hc1_def)
qed

lemma hkdf_produce_spec:
  "hkdf_at prk info p hc \<Longrightarrow> p + n \<le> 255 * br_digest_size dig \<Longrightarrow>
     fst (br_hkdf_produce hc info n) = take n (drop p (hkdf_okm (mac prk) info))
     \<and> hkdf_at prk info (p + n) (snd (br_hkdf_produce hc info n))"
proof (induction n arbitrary: p hc rule: less_induct)
  case (less n)
  let ?h = "br_digest_size dig"
  show ?case
  proof (cases "n = 0")
    case True
    then show ?thesis using less.prems by (simp add: br_hkdf_produce.simps)
  next
    case False
    have dl: "dig_len hc = ?h" using less.prems by (simp add: hkdf_at_def)
    define hc1 where "hc1 = hc\<lparr>chunk_num := chunk_num hc + 1\<rparr>"
    define hc2 where "hc2 = (if hk_ptr hc = ?h then hkdf_block hc1 info else hc)"
    define clen where "clen = (if n < ?h - hk_ptr hc2 then n else ?h - hk_ptr hc2)"
    define hc3 where "hc3 = hc2\<lparr>hk_ptr := hk_ptr hc2 + clen\<rparr>"
    have room: "p < 255 * ?h" using False less.prems by simp
    have at2: "hkdf_at prk info p hc2" and ptr2: "hk_ptr hc2 < ?h" and lim: "hk_ptr hc = ?h \<longrightarrow> chunk_num hc1 \<noteq> 256"
      using hkdf_refill [OF less.prems(1) _ room] less.prems(1) digest_pos
      by (auto simp: hc2_def hc1_def hkdf_at_def)
    have dl2: "dig_len hc2 = ?h" using at2 by (simp add: hkdf_at_def)
    have clen: "0 < clen" "clen \<le> n" "hk_ptr hc2 + clen \<le> ?h" using ptr2 False by (auto simp: clen_def)
    have step: "br_hkdf_produce hc info n = (let (rest, h4) = br_hkdf_produce hc3 info (n - clen)
        in (take clen (drop (hk_ptr hc2) (hk_buf hc2)) @ rest, h4))"
    proof (cases "hk_ptr hc = ?h")
      case True
      then have hc2: "hkdf_block hc1 info = hc2" by (simp add: hc2_def)
      show ?thesis using False True lim ptr2
        by (subst br_hkdf_produce.simps) (simp add: Let_def dl hc1_def [symmetric] hc2 dl2 clen_def hc3_def)
    next
      case ne: False
      then have hc2: "hc = hc2" by (simp add: hc2_def)
      show ?thesis using False ne ptr2 unfolding hc2
        by (subst br_hkdf_produce.simps) (simp add: Let_def dl2 clen_def hc3_def)
    qed
    note pass = hkdf_pass [OF at2 ptr2 clen(3)]
    have "fst (br_hkdf_produce hc3 info (n - clen)) = take (n - clen) (drop (p + clen) (hkdf_okm (mac prk) info))
        \<and> hkdf_at prk info (p + clen + (n - clen)) (snd (br_hkdf_produce hc3 info (n - clen)))"
      by (rule less.IH) (use clen pass(2) less.prems in \<open>simp_all add: hc3_def\<close>)
    moreover have "take n (drop p xs) = take clen (drop p xs) @ take (n - clen) (drop (p + clen) xs)" for xs :: "u8 list"
      using clen(2) take_add [of clen "n - clen" "drop p xs"] by (simp add: ac_simps)
    ultimately show ?thesis using clen(2) pass(1) by (simp add: step case_prod_unfold Let_def)
  qed
qed

lemma hkdf_requests_spec:
  "hkdf_at prk info p hc \<Longrightarrow> p + sum_list ns \<le> 255 * br_digest_size dig \<Longrightarrow>
     hkdf_requests hc info ns = take (sum_list ns) (drop p (hkdf_okm (mac prk) info))"
proof (induction ns arbitrary: p hc)
  case (Cons n ns)
  have "fst (br_hkdf_produce hc info n) = take n (drop p (hkdf_okm (mac prk) info))"
    "hkdf_at prk info (p + n) (snd (br_hkdf_produce hc info n))"
    using hkdf_produce_spec [OF Cons.prems(1), of n] Cons.prems(2) by simp_all
  moreover have "hkdf_requests (snd (br_hkdf_produce hc info n)) info ns
      = take (sum_list ns) (drop (p + n) (hkdf_okm (mac prk) info))"
    by (rule Cons.IH [OF calculation(2)]) (use Cons.prems(2) in simp)
  ultimately show ?case by (simp add: case_prod_unfold Let_def take_add ac_simps)
qed simp

lemma hkdf_first: "take (br_digest_size dig) (hkdf_okm (mac prk) info) = mac prk (info @ [1])"
proof -
  have "take (br_digest_size dig) (drop (0 * br_digest_size dig + 0) (concat (map (\<lambda>i. hkdf_T (mac prk) info (Suc i)) [0..<255])))
      = take (br_digest_size dig) (drop 0 (hkdf_T (mac prk) info (Suc 0)))"
    by (rule concat_block [OF length_hkdf_T]) simp_all
  then show ?thesis unfolding hkdf_okm_def by simp
qed

lemma hkdf_extract:
  defines "prk \<equiv> \<lambda>salt ikm. mac (case salt of None \<Rightarrow> replicate (br_digest_size dig) 0 | Some s \<Rightarrow> s) ikm"
  shows "hkdf_at (prk salt (concat ikms)) info 0 (br_hkdf_flip (fold (\<lambda>d hc. br_hkdf_inject hc d) ikms (br_hkdf_init hc dig salt)))"
proof -
  define key where "key = (case salt of None \<Rightarrow> replicate (br_digest_size dig) 0 | Some s \<Rightarrow> s)"
  define st where "st m hc = (\<exists>c. hk_u hc = Hmac_ctx c \<and> macing key m 0 c \<and> dig_len hc = br_digest_size dig)" for m and hc :: "'s br_hkdf_context"
  have "st [] (br_hkdf_init hc dig salt)"
    using hmac_init_macing [OF key_init_keyed, of key 0] hmac_size_spec [OF key_init_keyed, of key]
    by (simp add: st_def br_hkdf_init_def Let_def key_def)
  moreover have "st m hc \<Longrightarrow> st (m @ concat ds) (fold (\<lambda>d hc. br_hkdf_inject hc d) ds hc)" for m ds hc
  proof (induction ds arbitrary: m hc)
    case (Cons d ds)
    then have "st (m @ d) (br_hkdf_inject hc d)" by (auto simp: st_def br_hkdf_inject_def hmac_update_macing)
    then show ?case using Cons.IH by fastforce
  qed simp
  ultimately have "st (concat ikms) (fold (\<lambda>d hc. br_hkdf_inject hc d) ikms (br_hkdf_init hc dig salt))" by fastforce
  then obtain c where c: "hk_u (fold (\<lambda>d hc. br_hkdf_inject hc d) ikms (br_hkdf_init hc dig salt)) = Hmac_ctx c"
    "macing key (concat ikms) 0 c" "dig_len (fold (\<lambda>d hc. br_hkdf_inject hc d) ikms (br_hkdf_init hc dig salt)) = br_digest_size dig"
    unfolding st_def by blast
  have "hm_vtable c = dig" using c(2) by (simp add: macing_def)
  then show ?thesis using c(1,3) hmac_out_macing [OF c(2)] key_init_keyed
    by (simp add: hkdf_at_def br_hkdf_flip_def Let_def br_hmac_get_digest_def prk_def key_def)
qed

text \<open>
  Past its limit: the call that finds nothing left counts the chunks to 256, the next one to 257,
  whose low byte is 1, and produces the first block again.
\<close>

lemma hkdf_wraps:
  assumes at: "hkdf_at prk info (255 * br_digest_size dig) hc" and n: "0 < n"
  shows "fst (br_hkdf_produce hc info n) = []"
    and "fst (br_hkdf_produce (snd (br_hkdf_produce hc info n)) info (br_digest_size dig)) = mac prk (info @ [1])"
proof -
  let ?h = "br_digest_size dig"
  obtain kc where kc: "hk_u hc = Prk_ctx kc" "keyed prk kc" and dl: "dig_len hc = ?h" using at by (auto simp: hkdf_at_def)
  have "unat (chunk_num hc) * ?h \<le> 255 * ?h" "hk_ptr hc \<le> ?h" "255 * ?h + ?h = unat (chunk_num hc) * ?h + hk_ptr hc"
    using at by (simp_all add: hkdf_at_def)
  then have ptr: "hk_ptr hc = ?h" and "unat (chunk_num hc) * ?h = 255 * ?h" by linarith+
  then have "unat (chunk_num hc) = unat (255 :: u32)" using digest_pos by simp
  then have num: "chunk_num hc = 255" by (simp only: word_unat_eq_iff)
  have one: "br_hkdf_produce hc info n = ([], hc\<lparr>chunk_num := 256\<rparr>)"
    using n by (subst br_hkdf_produce.simps) (simp add: Let_def dl ptr num)
  have block: "hkdf_block (hc\<lparr>chunk_num := 257\<rparr>) info = hc\<lparr>chunk_num := 257, hk_buf := mac prk (info @ [257]), hk_ptr := 0\<rparr>"
    using hmac_full_2 [OF kc(2), of info "[257]"] kc(1) by (simp add: hkdf_block_def Let_def)
  have low: "[1 :: u8] = [257]" by simp
  show "fst (br_hkdf_produce hc info n) = []" by (simp add: one)
  show "fst (br_hkdf_produce (snd (br_hkdf_produce hc info n)) info ?h) = mac prk (info @ [1])"
    using digest_pos unfolding one low
    by (subst br_hkdf_produce.simps) (simp add: Let_def dl ptr block br_hkdf_produce.simps length_mac)
qed

end

subsection \<open>The properties\<close>

definition hash_run :: "'s br_hash_class \<Rightarrow> u8 list list \<Rightarrow> u8 list" where
  "hash_run dig ds = hc_out dig (fold (\<lambda>d s. hc_update dig s d) ds (hc_init dig (context_mem dig)))"

lemmas runs = md5.run_digest sha1.run_digest md5sha1.run_digest sha224.run_digest sha256.run_digest sha384.run_digest
  sha512.run_digest

text \<open>
  \<^bold>\<open>C22\<close> Whatever an uninitialised context holds and however a message is cut into updates, each
  of the seven hash tables yields the digest that RFC 1321 or FIPS 180-4 assigns to the whole
  message: padded with one bit, zeros and its length, cut into blocks and chained through the
  compression function with one step per round.
\<close>

theorem hash_digests:
  "hash_run (br_md5_vtable mem) ds = md5_digest (concat ds)
   \<and> hash_run (br_sha1_vtable mem) ds = sha1_digest (concat ds)
   \<and> hash_run (br_md5sha1_vtable mem2) ds = md5_digest (concat ds) @ sha1_digest (concat ds)
   \<and> hash_run (br_sha224_vtable mem) ds = sha224_digest (concat ds)
   \<and> hash_run (br_sha256_vtable mem) ds = sha256_digest (concat ds)
   \<and> hash_run (br_sha384_vtable mem8) ds = sha384_digest (concat ds)
   \<and> hash_run (br_sha512_vtable mem8) ds = sha512_digest (concat ds)"
  unfolding hash_run_def
  by (simp only: runs md5.mem sha1.mem md5sha1.mem sha224.mem sha256.mem sha384.mem sha512.mem simp_thms)

definition hmac_run :: "'s br_hash_class \<Rightarrow> u8 list \<Rightarrow> u8 list list \<Rightarrow> nat \<Rightarrow> u8 list" where
  "hmac_run dig key ds n = br_hmac_out (fold (\<lambda>d c. br_hmac_update c d) ds (br_hmac_init (br_hmac_key_init dig key) n))"

definition cut :: "nat \<Rightarrow> nat \<Rightarrow> u8 list \<Rightarrow> u8 list" where
  "cut n h m = take (if 0 < n \<and> n < h then n else h) m"

context hash_streaming
begin

lemma hmac_run_spec:
  "hmac_run dig key ds n = cut n (br_digest_size dig) (mac key (concat ds))"
  using hmac_out_macing [OF hmac_fold_macing [OF hmac_init_macing [OF key_init_keyed]]]
  by (simp add: hmac_run_def cut_def)

end

text \<open>The sizes that the tables announce.\<close>

lemma table_sizes:
  "br_digest_size (br_md5_vtable mem) = 16" "block_size (br_md5_vtable mem) = 64"
  "br_digest_size (br_sha1_vtable mem) = 20" "block_size (br_sha1_vtable mem) = 64"
  "br_digest_size (br_sha224_vtable mem) = 28" "block_size (br_sha224_vtable mem) = 64"
  "br_digest_size (br_sha256_vtable mem) = 32" "block_size (br_sha256_vtable mem) = 64"
  "br_digest_size (br_sha384_vtable mem8) = 48" "block_size (br_sha384_vtable mem8) = 128"
  "br_digest_size (br_sha512_vtable mem8) = 64" "block_size (br_sha512_vtable mem8) = 128"
  by (simp_all add: md5_vt sha1_vt sha224_vt sha256_vt sha384_vt sha512_vt)

text \<open>
  \<^bold>\<open>C23\<close> \<open>br_hmac_key_init\<close>, \<open>br_hmac_init\<close>, \<open>br_hmac_update\<close> and \<open>br_hmac_out\<close> compute the
  HMAC of RFC 2104 over each hash table, for keys of any length (longer than a block, too), for
  messages in any pieces, cut to the length that was asked for.
\<close>

theorem hmac_rfc2104:
  "hmac_run (br_md5_vtable mem) key ds n = cut n 16 (hmac md5_digest 64 key (concat ds))
   \<and> hmac_run (br_sha1_vtable mem) key ds n = cut n 20 (hmac sha1_digest 64 key (concat ds))
   \<and> hmac_run (br_sha224_vtable mem) key ds n = cut n 28 (hmac sha224_digest 64 key (concat ds))
   \<and> hmac_run (br_sha256_vtable mem) key ds n = cut n 32 (hmac sha256_digest 64 key (concat ds))
   \<and> hmac_run (br_sha384_vtable mem8) key ds n = cut n 48 (hmac sha384_digest 128 key (concat ds))
   \<and> hmac_run (br_sha512_vtable mem8) key ds n = cut n 64 (hmac sha512_digest 128 key (concat ds))"
  by (simp only: md5.hmac_run_spec sha1.hmac_run_spec sha224.hmac_run_spec sha256.hmac_run_spec sha384.hmac_run_spec
      sha512.hmac_run_spec table_sizes simp_thms)

text \<open>
  \<^bold>\<open>C24\<close> The pseudo-random functions of TLS 1.2 are the \<open>P_hash\<close> of RFC 5246 over SHA-256 and
  SHA-384, those of TLS 1.0 the exclusive or of \<open>P_MD5\<close> and \<open>P_SHA1\<close> over the two halves of the
  secret, which share a byte when its length is odd; for any label, list of seed chunks and length.
\<close>

theorem tls_prfs:
  "br_tls12_sha256_prf mem len secret label seed = P_hash (hmac sha256_digest 64 secret) (takeWhile (\<lambda>c. c \<noteq> 0) label @ concat seed) len
   \<and> br_tls12_sha384_prf mem8 len secret label seed = P_hash (hmac sha384_digest 128 secret) (takeWhile (\<lambda>c. c \<noteq> 0) label @ concat seed) len
   \<and> br_tls10_prf mem len secret label seed
      = xor_bytes (P_hash (hmac md5_digest 64 (take ((length secret + 1) div 2) secret)) (takeWhile (\<lambda>c. c \<noteq> 0) label @ concat seed) len)
          (P_hash (hmac sha1_digest 64 (drop (length secret div 2) secret)) (takeWhile (\<lambda>c. c \<noteq> 0) label @ concat seed) len)"
proof -
  have len: "length (P_hash M s n) = n" if "\<And>x. length (M x) = h" "0 < h" for M s n h
  proof -
    have "n \<le> n * h" using that(2) by simp
    then show ?thesis using length_p_blocks [of M h s n "M s", OF that(1)] by (simp add: P_hash_def)
  qed
  have l5: "length (P_hash (hmac md5_digest 64 k) s n) = n" for k s n
    by (rule len [of _ 16]) (use md5.length_mac in \<open>simp_all add: table_sizes\<close>)
  have l2: "length (P_hash (hmac sha256_digest 64 k) s n) = n" for k s n
    by (rule len [of _ 32]) (use sha256.length_mac in \<open>simp_all add: table_sizes\<close>)
  have l3: "length (P_hash (hmac sha384_digest 128 k) s n) = n" for k s n
    by (rule len [of _ 48]) (use sha384.length_mac in \<open>simp_all add: table_sizes\<close>)
  have half: "length secret - Suc (length secret) div 2 = length secret div 2" by linarith
  show ?thesis
    by (simp add: br_tls12_sha256_prf_def br_tls12_sha384_prf_def br_tls10_prf_def Let_def half
        sha256.phash_spec sha384.phash_spec md5.phash_spec sha1.phash_spec table_sizes xor_bytes_zero l2 l3 l5)
qed

definition hkdf_run :: "'s br_hkdf_context \<Rightarrow> 's br_hash_class \<Rightarrow> u8 list option \<Rightarrow> u8 list list \<Rightarrow> u8 list \<Rightarrow> nat list \<Rightarrow> u8 list" where
  "hkdf_run hc dig salt ikms info ns =
     hkdf_requests (br_hkdf_flip (fold (\<lambda>d hc. br_hkdf_inject hc d) ikms (br_hkdf_init hc dig salt))) info ns"

text \<open>
  HKDF over SHA-256 and SHA-384: for any salt, present or absent, any pieces of input key
  material and any sequence of requests that stays within 255 blocks in total, the bytes produced are
  the output keying material of RFC 5869.
\<close>

lemma hkdf_rfc5869:
  assumes "sum_list ns \<le> 255 * 32"
  shows "hkdf_run hc (br_sha256_vtable mem) salt ikms info ns
      = take (sum_list ns) (hkdf_okm (hmac sha256_digest 64
          (hmac sha256_digest 64 (case salt of None \<Rightarrow> replicate 32 0 | Some s \<Rightarrow> s) (concat ikms))) info)
    \<and> hkdf_run hc8 (br_sha384_vtable mem8) salt ikms info ns
      = take (sum_list ns) (hkdf_okm (hmac sha384_digest 128
          (hmac sha384_digest 128 (case salt of None \<Rightarrow> replicate 48 0 | Some s \<Rightarrow> s) (concat ikms))) info)"
  using assms sha256.hkdf_requests_spec [OF sha256.hkdf_extract, of ns]
    sha384.hkdf_requests_spec [OF sha384.hkdf_extract, of ns]
  by (cases salt) (simp_all add: hkdf_run_def table_sizes)

lemma hkdf_rfc5869_witness:
  "\<forall>hc mem. hkdf_run hc (br_sha256_vtable mem) None [[1, 2], [3]] [7] [5, 40]
     = take 45 (hkdf_okm (hmac sha256_digest 64 (hmac sha256_digest 64 (replicate 32 0) [1, 2, 3])) [7])"
  using hkdf_rfc5869 [of "[5, 40]" _ _ None "[[1, 2], [3]]" "[7]"] by simp

text \<open>
  \<^bold>\<open>C25\<close> The limit of 255 blocks holds for one call only: after all of them were produced, a call
  returns nothing, and the next one returns the first block of the stream once more, although its
  input chaining is that of no further block.
\<close>

theorem hkdf_limit_bypassed:
  "hkdf_run hc (br_sha256_vtable mem) salt ikms info [255 * 32, 32, 32]
     = hkdf_run hc (br_sha256_vtable mem) salt ikms info [255 * 32] @ hkdf_run hc (br_sha256_vtable mem) salt ikms info [32]"
proof -
  define key where "key = (case salt of None \<Rightarrow> replicate (br_digest_size (br_sha256_vtable mem)) 0 | Some s \<Rightarrow> s)"
  define prk where "prk = hmac sha256_digest 64 key (concat ikms)"
  define h0 where "h0 = br_hkdf_flip (fold (\<lambda>d hc. br_hkdf_inject hc d) ikms (br_hkdf_init hc (br_sha256_vtable mem) salt))"
  have at0: "sha256.hkdf_at mem prk info 0 h0"
    using sha256.hkdf_extract [of mem salt ikms info hc] by (simp add: prk_def key_def h0_def table_sizes)
  define h1 where "h1 = snd (br_hkdf_produce h0 info 8160)"
  define h2 where "h2 = snd (br_hkdf_produce h1 info 32)"
  have at1: "sha256.hkdf_at mem prk info (255 * br_digest_size (br_sha256_vtable mem)) h1"
    using sha256.hkdf_produce_spec [OF at0, of "255 * 32"] by (simp add: h1_def table_sizes)
  have "fst (br_hkdf_produce h1 info 32) = []" and "fst (br_hkdf_produce h2 info 32) = hmac sha256_digest 64 prk (info @ [1])"
    using sha256.hkdf_wraps [OF at1, of 32] by (simp_all add: table_sizes h2_def)
  moreover have "fst (br_hkdf_produce h0 info 32) = hmac sha256_digest 64 prk (info @ [1])"
    using sha256.hkdf_produce_spec [OF at0, of 32] sha256.hkdf_first [of mem prk info] by (simp add: table_sizes)
  ultimately show ?thesis
    by (simp add: hkdf_run_def h0_def [symmetric] h1_def [symmetric] h2_def [symmetric] case_prod_unfold Let_def)
qed


end
