(* ===== verification/SslKeys.thy ===== *)
theory SslKeys
  imports GcmProps KdfProps
begin

section \<open>Keys of the record layer (bearssl/src/ssl/ssl\_engine.c, end)\<close>

text \<open>
  The choice of the pseudo-random function, the master secret, the key block, and the functions that switch one direction of the
  engine to the AEAD ciphers.  The fields of the context of the engine that these functions read are the record
  \<open>br_ssl_secrets\<close>; the unions that hold the contexts of the record ciphers are the record \<open>rec_union\<close>, of which each
  initialisation function writes one view.
\<close>

type_synonym br_tls_prf_impl = "nat \<Rightarrow> u8 list \<Rightarrow> u8 list \<Rightarrow> u8 list list \<Rightarrow> u8 list"

record rec_union =
  u_chapol :: br_sslrec_chapol_context
  u_gcm :: "br_aes_keys br_sslrec_gcm_context"

type_synonym ssl_engine = "(rec_union, rec_union) br_ssl_engine_context"

text \<open>A table of functions that works on one view of the union.\<close>

definition view_in :: "('u \<Rightarrow> 'c) \<Rightarrow> ('c \<Rightarrow> 'u \<Rightarrow> 'u) \<Rightarrow> 'c br_sslrec_in_class \<Rightarrow> 'u br_sslrec_in_class" where
  "view_in get put v =
     \<lparr>check_length = \<lambda>u. check_length v (get u),
      decrypt = \<lambda>u t ver m a n. (let (r, m, c) = decrypt v (get u) t ver m a n in (r, m, put c u))\<rparr>"

definition view_out :: "('u \<Rightarrow> 'c) \<Rightarrow> ('c \<Rightarrow> 'u \<Rightarrow> 'u) \<Rightarrow> 'c br_sslrec_out_class \<Rightarrow> 'u br_sslrec_out_class" where
  "view_out get put v =
     \<lparr>max_plaintext = \<lambda>u. max_plaintext v (get u),
      encrypt = \<lambda>u t ver m a n. (let (r, m, c) = encrypt v (get u) t ver m a n in (r, m, put c u))\<rparr>"

text \<open>The initialisation functions in the tables: the new table and the new contents of the union.\<close>

definition in_gcm_init ::
  "rec_union \<Rightarrow> br_aes_keys br_block_ctr_class \<Rightarrow> u8 list \<Rightarrow> nat \<Rightarrow> br_ghash \<Rightarrow> u8 list \<Rightarrow> rec_union br_sslrec_in_class \<times> rec_union" where
  "in_gcm_init u bc_impl key key_len gh_impl iv =
     (view_in u_gcm (\<lambda>c u. u\<lparr>u_gcm := c\<rparr>) br_sslrec_in_gcm_vtable, u\<lparr>u_gcm := gen_gcm_init (u_gcm u) bc_impl key key_len gh_impl iv\<rparr>)"

definition out_gcm_init ::
  "rec_union \<Rightarrow> br_aes_keys br_block_ctr_class \<Rightarrow> u8 list \<Rightarrow> nat \<Rightarrow> br_ghash \<Rightarrow> u8 list \<Rightarrow> rec_union br_sslrec_out_class \<times> rec_union" where
  "out_gcm_init u bc_impl key key_len gh_impl iv =
     (view_out u_gcm (\<lambda>c u. u\<lparr>u_gcm := c\<rparr>) br_sslrec_out_gcm_vtable, u\<lparr>u_gcm := gen_gcm_init (u_gcm u) bc_impl key key_len gh_impl iv\<rparr>)"

definition in_chapol_init ::
  "rec_union \<Rightarrow> br_chacha20_run \<Rightarrow> br_poly1305_run \<Rightarrow> u8 list \<Rightarrow> u8 list \<Rightarrow> rec_union br_sslrec_in_class \<times> rec_union" where
  "in_chapol_init u ichacha ipoly key iv =
     (view_in u_chapol (\<lambda>c u. u\<lparr>u_chapol := c\<rparr>) br_sslrec_in_chapol_vtable, u\<lparr>u_chapol := gen_chapol_init (u_chapol u) ichacha ipoly key iv\<rparr>)"

definition out_chapol_init ::
  "rec_union \<Rightarrow> br_chacha20_run \<Rightarrow> br_poly1305_run \<Rightarrow> u8 list \<Rightarrow> u8 list \<Rightarrow> rec_union br_sslrec_out_class \<times> rec_union" where
  "out_chapol_init u ichacha ipoly key iv =
     (view_out u_chapol (\<lambda>c u. u\<lparr>u_chapol := c\<rparr>) br_sslrec_out_chapol_vtable, u\<lparr>u_chapol := gen_chapol_init (u_chapol u) ichacha ipoly key iv\<rparr>)"

record br_ssl_secrets =
  session_version :: u32
  master_secret :: "u8 list"
  client_random :: "u8 list"
  server_random :: "u8 list"
  prf10 :: br_tls_prf_impl
  prf_sha256 :: br_tls_prf_impl
  prf_sha384 :: br_tls_prf_impl
  ighash :: br_ghash
  ichacha :: br_chacha20_run
  ipoly :: br_poly1305_run
  igcm_in :: "rec_union \<Rightarrow> br_aes_keys br_block_ctr_class \<Rightarrow> u8 list \<Rightarrow> nat \<Rightarrow> br_ghash \<Rightarrow> u8 list \<Rightarrow> rec_union br_sslrec_in_class \<times> rec_union"
  igcm_out :: "rec_union \<Rightarrow> br_aes_keys br_block_ctr_class \<Rightarrow> u8 list \<Rightarrow> nat \<Rightarrow> br_ghash \<Rightarrow> u8 list \<Rightarrow> rec_union br_sslrec_out_class \<times> rec_union"
  ichapol_in :: "rec_union \<Rightarrow> br_chacha20_run \<Rightarrow> br_poly1305_run \<Rightarrow> u8 list \<Rightarrow> u8 list \<Rightarrow> rec_union br_sslrec_in_class \<times> rec_union"
  ichapol_out :: "rec_union \<Rightarrow> br_chacha20_run \<Rightarrow> br_poly1305_run \<Rightarrow> u8 list \<Rightarrow> u8 list \<Rightarrow> rec_union br_sslrec_out_class \<times> rec_union"

definition BR_TLS12 :: u32 where "BR_TLS12 = 0x0303"

definition br_sha384_ID :: nat where "br_sha384_ID = 5"

definition br_ssl_engine_get_PRF :: "br_ssl_secrets \<Rightarrow> nat \<Rightarrow> br_tls_prf_impl" where
  "br_ssl_engine_get_PRF cc prf_id =
     (if BR_TLS12 \<le> session_version cc then if prf_id = br_sha384_ID then prf_sha384 cc else prf_sha256 cc
      else prf10 cc)"

text \<open>The labels are string literals: their bytes and a zero byte.\<close>

definition c_label :: "string \<Rightarrow> u8 list" where
  "c_label s = map (\<lambda>c. of_nat (of_char c)) s @ [0]"

definition br_ssl_engine_compute_master :: "br_ssl_secrets \<Rightarrow> nat \<Rightarrow> u8 list \<Rightarrow> br_ssl_secrets" where
  "br_ssl_engine_compute_master cc prf_id pms =
     (let iprf = br_ssl_engine_get_PRF cc prf_id;
          seed = [client_random cc, server_random cc]
      in cc\<lparr>master_secret := iprf 48 pms (c_label ''master secret'') seed\<rparr>)"

definition compute_key_block :: "br_ssl_secrets \<Rightarrow> nat \<Rightarrow> nat \<Rightarrow> u8 list" where
  "compute_key_block cc prf_id half_len =
     (let iprf = br_ssl_engine_get_PRF cc prf_id;
          seed = [server_random cc, client_random cc]
      in iprf (2 * half_len) (master_secret cc) (c_label ''key expansion'') seed)"

definition br_ssl_engine_switch_gcm_in ::
  "br_ssl_secrets \<Rightarrow> bool \<Rightarrow> nat \<Rightarrow> br_aes_keys br_block_ctr_class \<Rightarrow> nat \<Rightarrow> ssl_engine \<Rightarrow> ssl_engine" where
  "br_ssl_engine_switch_gcm_in sc is_client prf_id bc_impl cipher_key_len cc =
     (let kb = compute_key_block sc prf_id (cipher_key_len + 4);
          (cipher_key, iv) =
            (if is_client then (drop cipher_key_len kb, drop (2 * cipher_key_len + 4) kb)
             else (kb, drop (2 * cipher_key_len) kb));
          (v, c) = igcm_in sc (in_ctx cc) bc_impl (take cipher_key_len cipher_key) cipher_key_len (ighash sc) iv
      in cc\<lparr>in_vtable := v, in_ctx := c, incrypt := True\<rparr>)"

definition br_ssl_engine_switch_gcm_out ::
  "br_ssl_secrets \<Rightarrow> bool \<Rightarrow> nat \<Rightarrow> br_aes_keys br_block_ctr_class \<Rightarrow> nat \<Rightarrow> ssl_engine \<Rightarrow> ssl_engine" where
  "br_ssl_engine_switch_gcm_out sc is_client prf_id bc_impl cipher_key_len cc =
     (let kb = compute_key_block sc prf_id (cipher_key_len + 4);
          (cipher_key, iv) =
            (if is_client then (kb, drop (2 * cipher_key_len) kb)
             else (drop cipher_key_len kb, drop (2 * cipher_key_len + 4) kb));
          (v, c) = igcm_out sc (out_ctx cc) bc_impl (take cipher_key_len cipher_key) cipher_key_len (ighash sc) iv
      in cc\<lparr>out_vtable := v, out_ctx := c\<rparr>)"

definition br_ssl_engine_switch_chapol_in :: "br_ssl_secrets \<Rightarrow> bool \<Rightarrow> nat \<Rightarrow> ssl_engine \<Rightarrow> ssl_engine" where
  "br_ssl_engine_switch_chapol_in sc is_client prf_id cc =
     (let kb = compute_key_block sc prf_id 44;
          (cipher_key, iv) = (if is_client then (drop 32 kb, drop 76 kb) else (kb, drop 64 kb));
          (v, c) = ichapol_in sc (in_ctx cc) (ichacha sc) (ipoly sc) cipher_key iv
      in cc\<lparr>in_vtable := v, in_ctx := c, incrypt := True\<rparr>)"

definition br_ssl_engine_switch_chapol_out :: "br_ssl_secrets \<Rightarrow> bool \<Rightarrow> nat \<Rightarrow> ssl_engine \<Rightarrow> ssl_engine" where
  "br_ssl_engine_switch_chapol_out sc is_client prf_id cc =
     (let kb = compute_key_block sc prf_id 44;
          (cipher_key, iv) = (if is_client then (kb, drop 64 kb) else (drop 32 kb, drop 76 kb));
          (v, c) = ichapol_out sc (out_ctx cc) (ichacha sc) (ipoly sc) cipher_key iv
      in cc\<lparr>out_vtable := v, out_ctx := c\<rparr>)"

subsection \<open>The engine after a switch\<close>

lemma view_in_contract:
  assumes "in_contract v good" "\<And>c u. get (put c u) = c"
  shows "in_contract (view_in get put v) (\<lambda>u. good (get u))"
  unfolding in_contract_def
proof (intro allI impI)
  fix u and t :: u8 and ver :: u32 and m :: "u8 list" and base n :: nat
  assume h: "good (get u) \<and> check_length (view_in get put v) u n \<and> base + n \<le> length m"
  then have "let (r, m', c') = decrypt v (get u) t ver m base n
      in same_outside base (base + n) m m' \<and> good c' \<and> (case r of None \<Rightarrow> True | Some (p, l) \<Rightarrow> base \<le> p \<and> p + l \<le> base + n)"
    using assms(1) unfolding in_contract_def view_in_def by simp
  then show "let (r, m', c') = decrypt (view_in get put v) u t ver m base n
      in same_outside base (base + n) m m' \<and> good (get c') \<and> (case r of None \<Rightarrow> True | Some (p, l) \<Rightarrow> base \<le> p \<and> p + l \<le> base + n)"
    by (simp add: view_in_def assms(2) case_prod_unfold Let_def)
qed

lemma view_out_contract:
  assumes "out_contract v good" "\<And>c u. get (put c u) = c"
  shows "out_contract (view_out get put v) (\<lambda>u. good (get u))"
  unfolding out_contract_def
proof (intro allI impI)
  fix u and len :: nat
  assume h: "good (get u) \<and> 512 + 85 \<le> len"
  then have "let (a, b) = max_plaintext v (get u) 5 (len - 5)
      in 5 \<le> a \<and> a < b \<and> b \<le> len
       \<and> (\<forall>t ver m base n. a + n \<le> b \<and> base + len \<le> length m \<longrightarrow>
            (let ((s, l), m', c') = encrypt v (get u) t ver m (base + a) n
             in base \<le> s \<and> 0 < l \<and> s + l \<le> base + len \<and> same_outside base (base + len) m m' \<and> good c'))"
    using assms(1) unfolding out_contract_def by blast
  then show "let (a, b) = max_plaintext (view_out get put v) u 5 (len - 5)
      in 5 \<le> a \<and> a < b \<and> b \<le> len
       \<and> (\<forall>t ver m base n. a + n \<le> b \<and> base + len \<le> length m \<longrightarrow>
            (let ((s, l), m', c') = encrypt (view_out get put v) u t ver m (base + a) n
             in base \<le> s \<and> 0 < l \<and> s + l \<le> base + len \<and> same_outside base (base + len) m m' \<and> good (get c')))"
    by (simp add: view_out_def assms(2) case_prod_unfold Let_def)
qed

text \<open>The functions of the library behind the pointers.\<close>

definition library_ciphers :: "br_ssl_secrets \<Rightarrow> bool" where
  "library_ciphers sc \<longleftrightarrow> igcm_in sc = in_gcm_init \<and> igcm_out sc = out_gcm_init \<and> ichapol_in sc = in_chapol_init
     \<and> ichapol_out sc = out_chapol_init \<and> ichacha sc = br_chacha20_ct_run \<and> ipoly sc = br_poly1305_ctmul_run \<and> ighash sc = br_ghash_ctmul"

abbreviation chapol_run :: "u8 list \<Rightarrow> u8 list \<Rightarrow> u8 list \<Rightarrow> u8 list \<Rightarrow> bool \<Rightarrow> u8 list \<times> u8 list" where
  "chapol_run key nonce data aad e \<equiv> br_poly1305_ctmul_run key nonce data aad br_chacha20_ct_run e"

lemma chapol_on_init: "chapol_on chapol_run (gen_chapol_init c br_chacha20_ct_run br_poly1305_ctmul_run key iv)"
  by (simp add: chapol_on_def gen_chapol_init_def)

lemma gcm_on_init: "gcm_on br_aes_small_ctr_run br_ghash_ctmul (gen_gcm_init c br_aes_small_ctr_vtable key n br_ghash_ctmul iv)"
  by (simp add: gcm_on_def gen_gcm_init_def Let_def br_aes_small_ctr_vtable_def)

lemmas in_views =
  view_in_contract [OF chapol.chapol_in_contract, of u_chapol "\<lambda>c u. u\<lparr>u_chapol := c\<rparr>", simplified]
  view_in_contract [OF aes_gcm.gcm_in_contract, of u_gcm "\<lambda>c u. u\<lparr>u_gcm := c\<rparr>", simplified]

lemmas out_views =
  view_out_contract [OF chapol.chapol_out_contract, of u_chapol "\<lambda>c u. u\<lparr>u_chapol := c\<rparr>", simplified]
  view_out_contract [OF aes_gcm.gcm_out_contract, of u_gcm "\<lambda>c u. u\<lparr>u_gcm := c\<rparr>", simplified]

lemma running_switch_in:
  assumes "running cc" "header_phase cc" "in_contract v good" "good c"
  shows "running (cc\<lparr>in_vtable := v, in_ctx := c, incrypt := True\<rparr>)"
  using assms unfolding running_def in_ok_def ciphers_ok_def out_ok_def
  by (auto simp: bufs_ok_def header_phase_def filling_def sending_def window_def)

lemma running_switch_out:
  assumes "running cc" "sending cc" "out_contract v good" "good c"
  shows "running (cc\<lparr>out_vtable := v, out_ctx := c\<rparr>)"
  using assms unfolding running_def in_ok_def ciphers_ok_def out_ok_def
  by (auto simp: bufs_ok_def header_phase_def data_phase_def filling_def sending_def window_def)

end
