(* ===== verification/RecEngine.thy ===== *)
theory RecEngine
  imports SslKeys
begin

section \<open>One record from engine to engine\<close>

text \<open>
  What the functions of the record engine do with a payload and with the record it becomes, for any pair of record ciphers that
  undo each other; the pair is an interface, of which ChaCha20 with Poly1305 and AES in GCM are the instances.
\<close>

lemma store_append: "a + length x + length y \<le> length m \<Longrightarrow> store (a + length x) y (store a x m) = store a (x @ y) m"
  by (simp add: store_def take_add drop_drop add.commute add.left_commute)

lemma dec_enc16_small: "v < 2 ^ 16 \<Longrightarrow> br_dec16be (br_enc16be v @ r) = v"
proof -
  assume v: "v < 2 ^ 16"
  have "ucast (ucast v :: u16) = take_bit 16 v" by (rule bit_word_eqI) (simp add: bit_simps)
  also have "\<dots> = v"
  proof (rule word_unat_eq_iff [THEN iffD2])
    have "unat v < 2 ^ 16" using v by (simp add: word_less_nat_alt)
    then show "unat (take_bit 16 v) = unat v" by (simp add: unsigned_take_bit_eq take_bit_nat_eq_self)
  qed
  finally show ?thesis using dec_enc16(2) [of "ucast v :: u16" r] by simp
qed

subsection \<open>Two record ciphers that undo each other\<close>

text \<open>
  \<open>pre\<close> bytes stand before the ciphertext, 16 behind it.  \<open>R c d\<close> relates the context of one end to that of the other.
\<close>

locale record_pair =
  fixes pre :: nat and vo :: "'u br_sslrec_out_class" and vi :: "'u br_sslrec_in_class" and R :: "'u \<Rightarrow> 'u \<Rightarrow> bool"
  assumes pre: "5 \<le> pre" "pre \<le> 13"
    and window: "max_plaintext vo c 5 (len - 5) = (pre, pre + min 16384 (len - (pre + 21)))"
    and check: "n \<le> 16384 \<Longrightarrow> check_length vi d (n + pre + 11)"
    and seal_open: "R c d \<Longrightarrow> pre \<le> a \<Longrightarrow> n \<le> 16384 \<Longrightarrow> a + n + 16 \<le> length m \<Longrightarrow>
      \<exists>m' c'. encrypt vo c t ver m a n = ((a - pre, n + pre + 16), m', c') \<and> length m' = length m
        \<and> take 5 (load (a - pre) (n + pre + 16) m') = [t] @ br_enc16be ver @ br_enc16be (of_nat (n + pre + 11))
        \<and> (\<forall>m2 b. b + (n + pre + 16) \<le> length m2 \<and> load b (n + pre + 16) m2 = load (a - pre) (n + pre + 16) m' \<longrightarrow>
             (\<exists>m3 d'. decrypt vi d t ver m2 (b + 5) (n + pre + 11) = (Some (b + pre, n), m3, d')
                \<and> length m3 = length m2 \<and> load (b + pre) n m3 = load a n m \<and> R c' d'))"

subsection \<open>Sending and receiving\<close>

text \<open>
  A payload of the given type goes into the output buffer, is flushed, and its record is taken out; the bytes of a record arrive,
  its header first, and the payload is read.
\<close>

definition send_record :: "('u, 'u) br_ssl_engine_context \<Rightarrow> u8 \<times> u8 list \<Rightarrow> u8 list \<times> ('u, 'u) br_ssl_engine_context" where
  "send_record A = (\<lambda>(t, p).
     let A = A\<lparr>record_type_out := t\<rparr>;
         A = A\<lparr>mem := store (the (fst (sendpld_buf A))) p (mem A)\<rparr>;
         A = sendpld_flush (sendpld_ack A (length p)) False;
         (b, n) = sendrec_buf A
     in (load (the b) n (mem A), sendrec_ack A n))"

definition receive_record :: "('u, 'u) br_ssl_engine_context \<Rightarrow> u8 list \<Rightarrow> (u8 \<times> u8 list) option \<times> ('u, 'u) br_ssl_engine_context" where
  "receive_record B r =
     (let B = recvrec_ack (B\<lparr>mem := store (the (fst (recvrec_buf B))) (take 5 r) (mem B)\<rparr>) 5;
          B = recvrec_ack (B\<lparr>mem := store (the (fst (recvrec_buf B))) (drop 5 r) (mem B)\<rparr>) (length r - 5);
          (b, n) = recvpld_buf B
      in (map_option (\<lambda>b. (record_type_in B, load b n (mem B))) b, recvpld_ack B n))"

text \<open>An engine that may send its next record, and one that awaits its next record.\<close>

definition ready_out :: "('i, 'o) br_ssl_engine_context \<Rightarrow> bool" where
  "ready_out A \<longleftrightarrow> iomode A = BR_IO_INOUT \<and> oxa A = fst (window A) \<and> oxc A = fst (window A)
     \<and> oxb A = fst (window A) + min (max_frag_len A) (snd (window A) - fst (window A))
     \<and> (\<exists>j. obuf A = Some j \<and> j + obuf_len A \<le> length (mem A))"

definition waiting_in :: "('i, 'o) br_ssl_engine_context \<Rightarrow> bool" where
  "waiting_in B \<longleftrightarrow> iomode B = BR_IO_INOUT \<and> ixa B = 0 \<and> ixb B = 0 \<and> ixc B = 5 \<and> incrypt B \<and> \<not> shutdown_recv B
     \<and> (\<exists>i. ibuf B = Some i \<and> i + ibuf_len B \<le> length (mem B))"

text \<open>A payload that fits the fragment length and the buffers on both sides.\<close>

definition fits :: "('i, 'o) br_ssl_engine_context \<Rightarrow> ('i, 'o) br_ssl_engine_context \<Rightarrow> u8 list \<Rightarrow> bool" where
  "fits A B p \<longleftrightarrow> p \<noteq> [] \<and> length p \<le> max_frag_len A \<and> length p \<le> 16384 \<and> length p + 34 \<le> obuf_len A
     \<and> length p + 29 \<le> ibuf_len B"

lemma ready_make_ready_out:
  assumes "iomode A = BR_IO_OUT \<or> iomode A = BR_IO_INOUT" "obuf A = Some j" "j + obuf_len A \<le> length (mem A)"
    "fst (window A) \<le> snd (window A)"
  shows "ready_out (make_ready_out A)"
  using assms by (auto simp: ready_out_def make_ready_out_eq window_def)

lemma waiting_make_ready_in:
  assumes "iomode B = BR_IO_IN \<or> iomode B = BR_IO_INOUT" "ibuf B = Some i" "i + ibuf_len B \<le> length (mem B)" "incrypt B" "\<not> shutdown_recv B"
  shows "waiting_in (make_ready_in B)"
  using assms by (auto simp: waiting_in_def make_ready_in_eq)

context record_pair
begin

lemma window_of: "out_vtable A = vo \<Longrightarrow> window A = (pre, pre + min 16384 (obuf_len A - (pre + 21)))"
  by (simp add: window_def window)

lemma window_regs:
  assumes "out_vtable A = vo" "ready_out A"
  shows "oxa A = pre" "oxc A = pre" "oxb A = pre + min (max_frag_len A) (min 16384 (obuf_len A - (pre + 21)))"
  using assms(2) unfolding ready_out_def window_of [OF assms(1)] by simp_all

text \<open>What the flush of a payload leaves: the record, ready to be taken out.\<close>

lemma flush_payload:
  assumes A: "out_vtable A = vo" "ready_out A" "obuf A = Some j" "iomode A = BR_IO_INOUT"
    and p: "p \<noteq> []" "length p \<le> oxb A - pre"
    and e: "encrypt vo (out_ctx A) (record_type_out A) (version_out A) (mem A) (j + pre) (length p) = ((j, k), m', c')"
  shows "\<exists>io. sendpld_flush (sendpld_ack A (length p)) False
    = A\<lparr>mem := m', out_ctx := c', oxa := 0, oxb := 0, oxc := k, iomode := io\<rparr> \<and> (io = BR_IO_OUT \<or> io = BR_IO_INOUT)"
proof -
  note regs = window_regs [OF A(1,2)]
  define io where "io = (if ibuf A = obuf A then BR_IO_OUT else BR_IO_INOUT)"
  let ?A = "A\<lparr>iomode := io, oxa := pre + length p\<rparr>"
  have ack: "sendpld_ack A (length p) = (if oxb A \<le> pre + length p then sendpld_flush (?A\<lparr>oxb := pre + length p + 1\<rparr>) False else ?A)"
    unfolding sendpld_ack_def Let_def iomode_if by (simp add: io_def A(4) regs(1))
  have f: "sendpld_flush (?A\<lparr>oxb := b\<rparr>) False
      = A\<lparr>mem := m', out_ctx := c', oxa := 0, oxb := 0, oxc := k, iomode := io\<rparr>" if "b \<noteq> pre + length p" for b
    using that p(1) e by (simp add: sendpld_flush_def Let_def A(1,3) regs(1,2))
  have "sendpld_flush (sendpld_ack A (length p)) False
      = A\<lparr>mem := m', out_ctx := c', oxa := 0, oxb := 0, oxc := k, iomode := io\<rparr>"
  proof (cases "oxb A \<le> pre + length p")
    case True
    then show ?thesis unfolding ack by (simp add: f) (simp add: sendpld_flush_def)
  next
    case False
    then show ?thesis unfolding ack using f [of "oxb A"] by simp
  qed
  then show ?thesis by (auto simp: io_def)
qed

lemma sends:
  assumes A: "out_vtable A = vo" "ready_out A" and f: "fits A B p" and R: "R (out_ctx A) d"
  shows "\<exists>r A'. send_record A (t, p) = (r, A') \<and> length r = length p + pre + 16
    \<and> take 5 r = [t] @ br_enc16be (version_out A) @ br_enc16be (of_nat (length p + pre + 11))
    \<and> out_vtable A' = vo \<and> ready_out A' \<and> version_out A' = version_out A \<and> max_frag_len A' = max_frag_len A \<and> obuf_len A' = obuf_len A
    \<and> (\<forall>m2 b. b + length r \<le> length m2 \<and> load b (length r) m2 = r \<longrightarrow>
         (\<exists>m3 d'. decrypt vi d t (version_out A) m2 (b + 5) (length p + pre + 11) = (Some (b + pre, length p), m3, d')
            \<and> length m3 = length m2 \<and> load (b + pre) (length p) m3 = p \<and> R (out_ctx A') d'))"
proof -
  obtain j where j: "obuf A = Some j" "j + obuf_len A \<le> length (mem A)" and io: "iomode A = BR_IO_INOUT"
    using A(2) by (auto simp: ready_out_def)
  note regs = window_regs [OF A]
  have len: "length p \<le> oxb A - pre" "0 < length p" "j + pre + length p + 16 \<le> length (mem A)" "oxb A - oxa A \<noteq> 0"
  proof -
    have g: "0 < length p" "length p \<le> max_frag_len A" "length p \<le> 16384" "length p + 34 \<le> obuf_len A" using f by (simp_all add: fits_def)
    then have "length p \<le> obuf_len A - (pre + 21)" using pre by linarith
    then show len: "length p \<le> oxb A - pre" unfolding regs using g by simp
    show "0 < length p" using g by simp
    then show "oxb A - oxa A \<noteq> 0" using len unfolding regs(1) by linarith
    show "j + pre + length p + 16 \<le> length (mem A)" using g pre j(2) by linarith
  qed
  define A1 where "A1 = A\<lparr>record_type_out := t, mem := store (j + pre) p (mem A)\<rparr>"
  have A1: "out_vtable A1 = vo" "ready_out A1" "obuf A1 = Some j" "iomode A1 = BR_IO_INOUT" "oxb A1 = oxb A"
    "length (mem A1) = length (mem A)"
    using A len j by (simp_all add: A1_def ready_out_def window_def)
  have "length p \<le> oxb A1 - pre" "j + pre + length p + 16 \<le> length (mem A1)" using len A1 by simp_all
  note A1 = A1 this
  have p: "load (j + pre) (length p) (mem A1) = p" using len by (simp add: A1_def load_same)
  obtain m' c' where e: "encrypt vo (out_ctx A1) t (version_out A) (mem A1) (j + pre) (length p) = ((j, length p + pre + 16), m', c')"
    and m': "length m' = length (mem A1)"
      "take 5 (load j (length p + pre + 16) m') = [t] @ br_enc16be (version_out A) @ br_enc16be (of_nat (length p + pre + 11))"
    and d: "\<And>m2 b. b + (length p + pre + 16) \<le> length m2 \<Longrightarrow> load b (length p + pre + 16) m2 = load j (length p + pre + 16) m' \<Longrightarrow>
       \<exists>m3 d'. decrypt vi d t (version_out A) m2 (b + 5) (length p + pre + 11) = (Some (b + pre, length p), m3, d')
         \<and> length m3 = length m2 \<and> load (b + pre) (length p) m3 = p \<and> R c' d'"
  proof -
    have "R (out_ctx A1) d" "length p \<le> 16384" "pre \<le> j + pre" using R f by (simp_all add: A1_def fits_def)
    from seal_open [OF this(1,3,2) A1(8), of t "version_out A"] that show thesis unfolding diff_add_inverse2 p by blast
  qed
  have e1: "encrypt vo (out_ctx A1) (record_type_out A1) (version_out A1) (mem A1) (j + pre) (length p) = ((j, length p + pre + 16), m', c')"
    using e by (simp add: A1_def)
  obtain io' where fl: "sendpld_flush (sendpld_ack A1 (length p)) False
      = A1\<lparr>mem := m', out_ctx := c', oxa := 0, oxb := 0, oxc := length p + pre + 16, iomode := io'\<rparr>"
    and io': "io' = BR_IO_OUT \<or> io' = BR_IO_INOUT"
    using flush_payload [OF A1(1-4) _ A1(7) e1] len(2) by auto
  define A2 where "A2 = A1\<lparr>mem := m', out_ctx := c', oxa := 0, oxb := 0, oxc := length p + pre + 16, iomode := io'\<rparr>"
  define A3 where "A3 = make_ready_out (A2\<lparr>oxa := length p + pre + 16, oxb := length p + pre + 16\<rparr>)"
  have b: "sendrec_buf A2 = (Some j, length p + pre + 16)" using io' A1(3) by (auto simp: A2_def sendrec_buf_def)
  have ack: "sendrec_ack A2 (length p + pre + 16) = A3" by (simp add: A2_def A3_def sendrec_ack_def Let_def)
  have "sendpld_buf (A\<lparr>record_type_out := t\<rparr>) = (Some (j + pre), oxb A - pre)"
    using io j(1) regs len(4) by (simp add: sendpld_buf_def Let_def)
  then have s: "send_record A (t, p) = (load j (length p + pre + 16) m', A3)"
    unfolding send_record_def Let_def prod.case using fl b ack by (simp add: A1_def [symmetric] A2_def [symmetric]) (simp add: A2_def)
  have "ready_out A3" unfolding A3_def
    by (rule ready_make_ready_out [of _ j]) (use A1(1,3,6) io' j m'(1) in \<open>auto simp: A2_def A1_def window_def window A(1)\<close>)
  moreover have "out_vtable A3 = vo" "version_out A3 = version_out A" "max_frag_len A3 = max_frag_len A" "obuf_len A3 = obuf_len A" "out_ctx A3 = c'"
    using A(1) by (simp_all add: A3_def A2_def A1_def make_ready_out_eq)
  moreover have "length (load j (length p + pre + 16) m') = length p + pre + 16" using A1(8) m'(1) by simp
  ultimately show ?thesis using s m'(2) d by auto
qed

text \<open>The two halves of receiving: the header, then the rest of the record.\<close>

lemma header_arrives:
  assumes B: "waiting_in B" "in_vtable B = vi" "ibuf B = Some i"
    and v: "version_in B = 0 \<or> version_in B = ver" "drop_bit 8 ver = 3"
    and n: "n \<le> 16384" "n + pre + 16 \<le> ibuf_len B"
    and r: "take 5 r = [t] @ br_enc16be ver @ br_enc16be (of_nat (n + pre + 11))" "5 \<le> length r"
  shows "\<exists>io. recvrec_ack (B\<lparr>mem := store i (take 5 r) (mem B)\<rparr>) 5
      = B\<lparr>mem := store i (take 5 r) (mem B), record_type_in := t, version_in := ver, ixa := 5, ixb := 5, ixc := n + pre + 11, iomode := io\<rparr>
    \<and> (io = BR_IO_IN \<or> io = BR_IO_INOUT)"
proof -
  have m: "i + ibuf_len B \<le> length (mem B)" using B(1,3) by (auto simp: waiting_in_def)
  define io where "io = (if ibuf B = obuf B then BR_IO_IN else BR_IO_INOUT)"
  let ?m = "store i (take 5 r) (mem B)"
  have l5: "length (take 5 r) = 5" using r(2) by simp
  have "load i 5 ?m = take 5 r" using load_same [of i "take 5 r" "mem B"] l5 m n(2) pre by simp
  then have b: "drop i ?m = [t] @ br_enc16be ver @ br_enc16be (of_nat (n + pre + 11)) @ drop 5 (drop i ?m)"
    using append_take_drop_id [of 5 "drop i ?m"] r(1) by (simp add: load_def)
  have hdr: "?m ! i = t" "drop (i + 1) ?m = br_enc16be ver @ br_enc16be (of_nat (n + pre + 11)) @ drop 5 (drop i ?m)"
    "drop (i + 3) ?m = br_enc16be (of_nat (n + pre + 11)) @ drop 5 (drop i ?m)"
  proof -
    have "i < length ?m" using l5 m n(2) pre by simp
    then show "?m ! i = t" using arg_cong [OF b, of hd] by (simp add: hd_drop_conv_nth)
    have d1: "drop (i + 1) ?m = drop 1 (drop i ?m)" and d3: "drop (i + 3) ?m = drop 3 (drop i ?m)"
      by (simp_all add: add.commute)
    show "drop (i + 1) ?m = br_enc16be ver @ br_enc16be (of_nat (n + pre + 11)) @ drop 5 (drop i ?m)"
      unfolding d1 using arg_cong [OF b, of "drop 1"] by simp
    show "drop (i + 3) ?m = br_enc16be (of_nat (n + pre + 11)) @ drop 5 (drop i ?m)"
      unfolding d3 using arg_cong [OF b, of "drop 3"] by (simp add: br_enc16be_def numeral_eq_Suc)
  qed
  have k: "k < 2 ^ 16 \<Longrightarrow> (of_nat k :: u32) < 2 ^ 16 \<and> unat (of_nat k :: u32) = k" for k
    by (simp add: word_less_nat_alt unsigned_of_nat take_bit_nat_eq_self)
  have "n + pre + 11 < 2 ^ 16" using n(1) pre by simp
  then have len: "(of_nat (n + pre + 11) :: u32) < 2 ^ 16" "unat (of_nat (n + pre + 11) :: u32) = n + pre + 11"
    using k by blast+
  have "ver < 2 ^ 16"
  proof -
    have "unat ver div 2 ^ 8 = 3" using arg_cong [OF v(2), of unat] by (simp add: unat_drop_bit_eq drop_bit_eq_div [of 8 "unat ver"])
    then have "unat ver < 2 ^ 16" using div_mult_mod_eq [of "unat ver" "2 ^ 8"] mod_less_divisor [of "2 ^ 8" "unat ver"] by simp
    then show ?thesis by (simp add: word_less_nat_alt)
  qed
  then have ver: "br_dec16be (drop (i + 1) ?m) = ver" unfolding hdr(2) by (rule dec_enc16_small)
  have rlen: "unat (br_dec16be (drop (i + 3) ?m)) = n + pre + 11"
    unfolding hdr(3) dec_enc16_small [OF len(1)] by (rule len(2))
  have w: "iomode B = BR_IO_INOUT" "ixa B = 0" "ixc B = 5" "incrypt B" using B(1) by (simp_all add: waiting_in_def)
  have big: "\<not> ibuf_len B - 5 < n + pre + 11" using n(2) by simp
  let ?B = "B\<lparr>mem := ?m, iomode := io, ixa := 5, ixb := 5, ixc := 0\<rparr>"
  have "recvrec_ack (B\<lparr>mem := ?m\<rparr>) 5 = recv_header ?B"
    using w unfolding recvrec_ack_def Let_def iomode_if by (simp add: io_def)
  also have "recv_header ?B = ?B\<lparr>record_type_in := t, version_in := ver, ixc := n + pre + 11\<rparr>"
    using B(2,3) v w(4) ver rlen check [OF n(1)] big hdr(1) by (auto simp: recv_header_def Let_def)
  finally show ?thesis by (intro exI [of _ io]) (auto simp: io_def)
qed

lemma body_arrives:
  assumes B: "ibuf B = Some i" "i + ibuf_len B \<le> length (mem B)" "incrypt B" "in_vtable B = vi" "iomode B = BR_IO_IN \<or> iomode B = BR_IO_INOUT"
    and regs: "ixa B = 5" "ixb B = 5" "ixc B = k" "0 < k"
    and d: "decrypt vi (in_ctx B) (record_type_in B) (version_in B) m (i + 5) k = (Some (i + pre, n), m3, d')" "0 < n"
    and m: "m = store (i + 5) body (mem B)"
  shows "\<exists>io. recvrec_ack (B\<lparr>mem := m\<rparr>) k
      = B\<lparr>mem := m3, in_ctx := d', ixa := pre, ixb := pre + n, ixc := 0, iomode := io\<rparr> \<and> (io = BR_IO_IN \<or> io = BR_IO_INOUT)"
proof -
  define io where "io = (if iomode B = BR_IO_INOUT \<and> ibuf B = obuf B then BR_IO_IN else iomode B)"
  let ?B = "B\<lparr>mem := m, iomode := io, ixa := 5 + k, ixb := 5 + k, ixc := 0\<rparr>"
  have "recvrec_ack (B\<lparr>mem := m\<rparr>) k = recv_decrypt ?B"
    using B(3) regs unfolding recvrec_ack_def Let_def iomode_if by (simp add: io_def)
  also have "recv_decrypt ?B = ?B\<lparr>mem := m3, in_ctx := d', ixa := pre, ixb := pre + n\<rparr>"
    using B(1,4) d by (simp add: recv_decrypt_def Let_def)
  finally show ?thesis using B(5) by (intro exI [of _ io]) (auto simp: io_def)
qed

lemma receives:
  assumes B: "waiting_in B" "in_vtable B = vi"
    and v: "version_in B = 0 \<or> version_in B = ver" "drop_bit 8 ver = 3"
    and n: "n \<le> 16384" "0 < n" "n + pre + 16 \<le> ibuf_len B"
    and r: "take 5 r = [t] @ br_enc16be ver @ br_enc16be (of_nat (n + pre + 11))" "length r = n + pre + 16"
    and d: "\<And>m2 b. b + length r \<le> length m2 \<Longrightarrow> load b (length r) m2 = r \<Longrightarrow>
      \<exists>m3 d'. decrypt vi (in_ctx B) t ver m2 (b + 5) (n + pre + 11) = (Some (b + pre, n), m3, d')
        \<and> length m3 = length m2 \<and> load (b + pre) n m3 = p \<and> R c' d'"
  shows "\<exists>B'. receive_record B r = (Some (t, p), B') \<and> waiting_in B' \<and> in_vtable B' = vi \<and> version_in B' = ver
    \<and> ibuf_len B' = ibuf_len B \<and> R c' (in_ctx B')"
proof -
  obtain i where i: "ibuf B = Some i" "i + ibuf_len B \<le> length (mem B)" using B(1) by (auto simp: waiting_in_def)
  let ?m = "store i (take 5 r) (mem B)"
  have r5: "5 \<le> length r" using r(2) by simp
  obtain io where h: "recvrec_ack (B\<lparr>mem := ?m\<rparr>) 5
      = B\<lparr>mem := ?m, record_type_in := t, version_in := ver, ixa := 5, ixb := 5, ixc := n + pre + 11, iomode := io\<rparr>"
    "io = BR_IO_IN \<or> io = BR_IO_INOUT"
    using header_arrives [OF B i(1) v n(1,3) r(1) r5] by blast
  define B1 where "B1 = B\<lparr>mem := ?m, record_type_in := t, version_in := ver, ixa := 5, ixb := 5, ixc := n + pre + 11, iomode := io\<rparr>"
  have st: "store (i + 5) (drop 5 r) ?m = store i r (mem B)"
    using store_append [of i "take 5 r" "drop 5 r" "mem B"] r(2) r5 n(3) i(2) by simp
  have lm: "length (store i r (mem B)) = length (mem B)" "i + length r \<le> length (mem B)" "load i (length r) (store i r (mem B)) = r"
    using load_same [of i r "mem B"] r(2) n(3) i(2) by simp_all
  obtain m3 d' where e: "decrypt vi (in_ctx B) t ver (store i r (mem B)) (i + 5) (n + pre + 11) = (Some (i + pre, n), m3, d')"
      "length m3 = length (mem B)" "load (i + pre) n m3 = p" "R c' d'"
    using d [of i "store i r (mem B)"] lm by auto
  have B1: "ibuf B1 = Some i" "i + ibuf_len B1 \<le> length (mem B1)" "incrypt B1" "in_vtable B1 = vi" "iomode B1 = BR_IO_IN \<or> iomode B1 = BR_IO_INOUT"
    "ixa B1 = 5" "ixb B1 = 5" "ixc B1 = n + pre + 11" "0 < n + pre + 11"
    using B i h(2) r5 lm by (simp_all add: B1_def waiting_in_def)
  have e1: "decrypt vi (in_ctx B1) (record_type_in B1) (version_in B1) (store i r (mem B)) (i + 5) (n + pre + 11) = (Some (i + pre, n), m3, d')"
    using e(1) by (simp add: B1_def)
  have m1: "store i r (mem B) = store (i + 5) (drop 5 r) (mem B1)" using st by (simp add: B1_def)
  obtain io2 where k: "recvrec_ack (B1\<lparr>mem := store i r (mem B)\<rparr>) (n + pre + 11)
      = B1\<lparr>mem := m3, in_ctx := d', ixa := pre, ixb := pre + n, ixc := 0, iomode := io2\<rparr>" "io2 = BR_IO_IN \<or> io2 = BR_IO_INOUT"
    using body_arrives [OF B1 e1 n(2) m1] by blast
  define B2 where "B2 = B1\<lparr>mem := m3, in_ctx := d', ixa := pre, ixb := pre + n, ixc := 0, iomode := io2\<rparr>"
  define B3 where "B3 = make_ready_in (B2\<lparr>ixa := pre + n\<rparr>)"
  have w: "the (fst (recvrec_buf B)) = i" "the (fst (recvrec_buf B1)) = i + 5"
    using B(1) i h(2) by (auto simp: waiting_in_def recvrec_buf_def Let_def B1_def)
  have u: "recvpld_buf B2 = (Some (i + pre), n)" "recvpld_ack B2 n = B3"
    using k(2) n(2) i(1) by (auto simp: recvpld_buf_def recvpld_ack_def Let_def B2_def B1_def B3_def)
  have s: "receive_record B r = (Some (t, p), B3)"
  proof -
    have l: "length r - 5 = n + pre + 11" using r(2) by simp
    have "recvrec_ack (B1\<lparr>mem := store (i + 5) (drop 5 r) (mem B1)\<rparr>) (n + pre + 11) = B2"
      unfolding m1 [symmetric] using k(1) by (simp add: B2_def)
    then show ?thesis
      unfolding receive_record_def Let_def w(1) h(1) B1_def [symmetric] w(2) l
      using u e(3) by (simp add: B2_def B1_def)
  qed
  have "waiting_in B3" unfolding B3_def
    by (rule waiting_make_ready_in [of _ i]) (use B(1) i k(2) e(2) in \<open>auto simp: waiting_in_def B2_def B1_def\<close>)
  moreover have "in_vtable B3 = vi" "version_in B3 = ver" "ibuf_len B3 = ibuf_len B" "in_ctx B3 = d'"
    using B(2) by (simp_all add: B3_def B2_def B1_def make_ready_in_eq)
  ultimately show ?thesis using s e(4) by blast
qed

end

subsection \<open>A sequence of records\<close>

text \<open>What the second engine reads of the records that the first one sends, one after the other.\<close>

fun transfer :: "('u, 'u) br_ssl_engine_context \<Rightarrow> ('u, 'u) br_ssl_engine_context \<Rightarrow> (u8 \<times> u8 list) list \<Rightarrow> (u8 \<times> u8 list) option list" where
  "transfer A B [] = []"
| "transfer A B (x # xs) =
     (let (r, A) = send_record A x; (y, B) = receive_record B r in y # transfer A B xs)"

context record_pair
begin

lemma transfer_all:
  assumes "out_vtable A = vo" "ready_out A" "in_vtable B = vi" "waiting_in B" "R (out_ctx A) (in_ctx B)"
    and "version_in B = 0 \<or> version_in B = version_out A" "drop_bit 8 (version_out A) = 3"
    and "\<forall>(t, p) \<in> set xs. fits A B p"
  shows "transfer A B xs = map Some xs"
  using assms
proof (induction xs arbitrary: A B)
  case (Cons x xs)
  obtain t p where x: "x = (t, p)" by (cases x)
  have f: "fits A B p" using Cons.prems(8) x by simp
  obtain r A' where s: "send_record A (t, p) = (r, A')" "length r = length p + pre + 16"
      "take 5 r = [t] @ br_enc16be (version_out A) @ br_enc16be (of_nat (length p + pre + 11))"
      "out_vtable A' = vo" "ready_out A'" "version_out A' = version_out A" "max_frag_len A' = max_frag_len A" "obuf_len A' = obuf_len A"
    and d: "\<And>m2 b. b + length r \<le> length m2 \<Longrightarrow> load b (length r) m2 = r \<Longrightarrow>
       \<exists>m3 d'. decrypt vi (in_ctx B) t (version_out A) m2 (b + 5) (length p + pre + 11) = (Some (b + pre, length p), m3, d')
            \<and> length m3 = length m2 \<and> load (b + pre) (length p) m3 = p \<and> R (out_ctx A') d'"
    using sends [OF Cons.prems(1,2) f Cons.prems(5), of t] by auto
  have n: "length p \<le> 16384" "0 < length p" "length p + pre + 16 \<le> ibuf_len B" using f pre by (auto simp: fits_def)
  obtain B' where g: "receive_record B r = (Some (t, p), B')" "waiting_in B'" "in_vtable B' = vi" "version_in B' = version_out A"
      "ibuf_len B' = ibuf_len B" "R (out_ctx A') (in_ctx B')"
    using receives [OF Cons.prems(4,3,6,7) n s(3,2) d] by blast
  have "\<forall>(t, p) \<in> set xs. fits A' B' p"
    using Cons.prems(8) s(7,8) g(5) by (auto simp: fits_def)
  then have "transfer A' B' xs = map Some xs"
    using Cons.IH [of A' B'] s(4-6) g(2-4,6) Cons.prems(7) by simp
  then show ?case by (simp add: x s(1) g(1))
qed simp

end

end
