(* ===== verification/SwitchProps.thy ===== *)
theory SwitchProps
  imports RecEngine
begin

section \<open>Switching the record layer to encryption\<close>

text \<open>
  A switch installs the keys of RFC 5246, turns decryption on and keeps the engine well formed; and two engines that share the
  secrets of a session understand each other's records afterwards, in both directions.
\<close>

subsection \<open>The ciphers of the library as pairs\<close>

definition chapol_linked :: "rec_union \<Rightarrow> rec_union \<Rightarrow> bool" where
  "chapol_linked u v \<longleftrightarrow> (let c = u_chapol u; d = u_chapol v
     in chapol_on chapol_run c \<and> chapol_on chapol_run d
      \<and> chapol_key d = chapol_key c \<and> chapol_iv d = chapol_iv c \<and> chapol_seq d = chapol_seq c)"

definition gcm_linked :: "rec_union \<Rightarrow> rec_union \<Rightarrow> bool" where
  "gcm_linked u v \<longleftrightarrow> (let c = u_gcm u; d = u_gcm v
     in gcm_on br_aes_small_ctr_run br_ghash_ctmul c \<and> gcm_on br_aes_small_ctr_run br_ghash_ctmul d
      \<and> gcm_iv d = gcm_iv c \<and> 4 \<le> length (gcm_iv c) \<and> gcm_h d = gcm_h c \<and> gcm_seq d = gcm_seq c
      \<and> (\<forall>iv k x. length iv = 12 \<longrightarrow> fst (br_aes_small_ctr_run (gcm_bc d) iv k x) = fst (br_aes_small_ctr_run (gcm_bc c) iv k x)))"

abbreviation chapol_out_table :: "rec_union br_sslrec_out_class" where
  "chapol_out_table \<equiv> view_out u_chapol (\<lambda>c u. u\<lparr>u_chapol := c\<rparr>) br_sslrec_out_chapol_vtable"

abbreviation chapol_in_table :: "rec_union br_sslrec_in_class" where
  "chapol_in_table \<equiv> view_in u_chapol (\<lambda>c u. u\<lparr>u_chapol := c\<rparr>) br_sslrec_in_chapol_vtable"

abbreviation gcm_out_table :: "rec_union br_sslrec_out_class" where
  "gcm_out_table \<equiv> view_out u_gcm (\<lambda>c u. u\<lparr>u_gcm := c\<rparr>) br_sslrec_out_gcm_vtable"

abbreviation gcm_in_table :: "rec_union br_sslrec_in_class" where
  "gcm_in_table \<equiv> view_in u_gcm (\<lambda>c u. u\<lparr>u_gcm := c\<rparr>) br_sslrec_in_gcm_vtable"

lemma decrypt_length:
  assumes "in_contract v good" "good c" "check_length v c n" "base + n \<le> length m" "decrypt v c t ver m base n = (r, m', c')"
  shows "length m' = length m"
proof -
  have "let (r, m', c') = decrypt v c t ver m base n
      in same_outside base (base + n) m m' \<and> good c' \<and> (case r of None \<Rightarrow> True | Some (p, l) \<Rightarrow> base \<le> p \<and> p + l \<le> base + n)"
    using assms(1-4) unfolding in_contract_def by blast
  then show ?thesis by (simp add: assms(5) same_outside_def)
qed

lemma chapol_decrypt_next: "chapol_on run cc \<Longrightarrow> chapol_decrypt cc t ver m a n = (r, m', cc') \<Longrightarrow> cc' = chapol_next cc"
  by (auto simp: chapol_decrypt_def chapol_process Let_def case_prod_unfold split: if_splits)

lemma gcm_decrypt_next: "gcm_decrypt cc t ver m a n = (r, m', cc') \<Longrightarrow> cc' = gcm_next cc"
  using do_tag_next [of cc t ver] by (simp add: gcm_decrypt_def Let_def case_prod_unfold split: if_splits) (metis snd_conv)+

lemma chapol_seal_open:
  assumes R: "chapol_linked u v" and a: "5 \<le> a" "a + n + 16 \<le> length m" and n: "n \<le> 16384"
  shows "\<exists>m' u'. encrypt chapol_out_table u t ver m a n = ((a - 5, n + 5 + 16), m', u') \<and> length m' = length m
    \<and> take 5 (load (a - 5) (n + 5 + 16) m') = [t] @ br_enc16be ver @ br_enc16be (of_nat (n + 5 + 11))
    \<and> (\<forall>m2 b. b + (n + 5 + 16) \<le> length m2 \<and> load b (n + 5 + 16) m2 = load (a - 5) (n + 5 + 16) m' \<longrightarrow>
         (\<exists>m3 v'. decrypt chapol_in_table v t ver m2 (b + 5) (n + 5 + 11) = (Some (b + 5, n), m3, v')
            \<and> length m3 = length m2 \<and> load (b + 5) n m3 = load a n m \<and> chapol_linked u' v'))"
proof -
  let ?c = "u_chapol u" and ?d = "u_chapol v"
  have on: "chapol_on chapol_run ?c" "chapol_on chapol_run ?d"
    and k: "chapol_key ?d = chapol_key ?c" "chapol_iv ?d = chapol_iv ?c" "chapol_seq ?d = chapol_seq ?c"
    using R by (simp_all add: chapol_linked_def Let_def)
  obtain m' where e: "chapol_encrypt ?c t ver m a n = ((a - 5, n + 21), m', chapol_next ?c)"
      and h: "take 5 (load (a - 5) (n + 21) m') = [t] @ br_enc16be ver @ br_enc16be (of_nat (n + 16))"
      and so: "same_outside (a - 5) (a + n + 16) m m'"
    using chapol.chapol_encrypt_bytes [OF on(1) a prod.collapse [symmetric], of t ver] by (auto simp: br_enc16be_def)
  have d: "\<exists>m3. chapol_decrypt ?d t ver m2 (b + 5) (n + 16) = (Some (b + 5, n), m3, chapol_next ?d)
      \<and> length m3 = length m2 \<and> load (b + 5) n m3 = load a n m"
    if b: "b + (n + 21) \<le> length m2" "load b (n + 21) m2 = load (a - 5) (n + 21) m'" for m2 b
  proof -
    have l: "n + 21 - 5 = n + 16" by simp
    obtain m3 dd where d: "chapol_decrypt ?d t ver m2 (b + 5) (n + 16) = (Some (b + 5, n), m3, dd)" "load (b + 5) n m3 = load a n m"
      using chapol.chapol_roundtrip [OF on k a e b, unfolded l] by blast
    have "chapol_check_length ?d (n + 16)" using n by (simp add: chapol_check_length_def)
    then have "length m3 = length m2" using decrypt_length [OF chapol.chapol_in_contract on(2), of "n + 16" "b + 5" m2 t ver] b(1) d(1)
      by (simp add: br_sslrec_in_chapol_vtable_def)
    then show ?thesis using d chapol_decrypt_next [OF on(2) d(1)] by simp
  qed
  have R2: "chapol_linked (u\<lparr>u_chapol := chapol_next ?c\<rparr>) (v\<lparr>u_chapol := chapol_next ?d\<rparr>)"
    using R by (simp add: chapol_linked_def Let_def) (simp add: chapol_next_def)
  have e2: "encrypt chapol_out_table u t ver m a n = ((a - 5, n + 21), m', u\<lparr>u_chapol := chapol_next ?c\<rparr>)"
    using e by (simp add: view_out_def br_sslrec_out_chapol_vtable_def)
  have d2: "\<exists>m3. decrypt chapol_in_table v t ver m2 (b + 5) (n + 16) = (Some (b + 5, n), m3, v\<lparr>u_chapol := chapol_next ?d\<rparr>)
      \<and> length m3 = length m2 \<and> load (b + 5) n m3 = load a n m"
    if "b + (n + 21) \<le> length m2" "load b (n + 21) m2 = load (a - 5) (n + 21) m'" for m2 b
    using d [OF that] by (auto simp: view_in_def br_sslrec_in_chapol_vtable_def)
  have s: "n + 5 + 16 = n + 21" "n + 5 + 11 = n + 16" by simp_all
  have "length m' = length m" using so by (simp add: same_outside_def)
  then show ?thesis unfolding s using e2 d2 h R2 by blast
qed

lemma gcm_seal_open:
  assumes R: "gcm_linked u v" and a: "13 \<le> a" "a + n + 16 \<le> length m" and n: "n \<le> 16384"
  shows "\<exists>m' u'. encrypt gcm_out_table u t ver m a n = ((a - 13, n + 13 + 16), m', u') \<and> length m' = length m
    \<and> take 5 (load (a - 13) (n + 13 + 16) m') = [t] @ br_enc16be ver @ br_enc16be (of_nat (n + 13 + 11))
    \<and> (\<forall>m2 b. b + (n + 13 + 16) \<le> length m2 \<and> load b (n + 13 + 16) m2 = load (a - 13) (n + 13 + 16) m' \<longrightarrow>
         (\<exists>m3 v'. decrypt gcm_in_table v t ver m2 (b + 5) (n + 13 + 11) = (Some (b + 13, n), m3, v')
            \<and> length m3 = length m2 \<and> load (b + 13) n m3 = load a n m \<and> gcm_linked u' v'))"
proof -
  let ?c = "u_gcm u" and ?d = "u_gcm v"
  have on: "gcm_on br_aes_small_ctr_run br_ghash_ctmul ?c" "gcm_on br_aes_small_ctr_run br_ghash_ctmul ?d"
    and k: "gcm_iv ?d = gcm_iv ?c" "gcm_h ?d = gcm_h ?c" "gcm_seq ?d = gcm_seq ?c"
    and r: "\<And>j y. fst (br_aes_small_ctr_run (gcm_bc ?d) (take 4 (gcm_iv ?c) @ br_enc64be (gcm_seq ?c)) j y)
      = fst (br_aes_small_ctr_run (gcm_bc ?c) (take 4 (gcm_iv ?c) @ br_enc64be (gcm_seq ?c)) j y)"
    using R by (simp_all add: gcm_linked_def Let_def)
  obtain m' where e: "gcm_encrypt ?c t ver m a n = ((a - 13, n + 29), m', gcm_next ?c)"
      and h: "take 5 (load (a - 13) (n + 29) m') = [t] @ br_enc16be ver @ br_enc16be (of_nat (n + 24))"
      and so: "same_outside (a - 13) (a + n + 16) m m'"
    using aes_gcm.gcm_encrypt_bytes [OF on(1) a, of t ver] by (auto simp: br_enc16be_def)
  have d: "\<exists>m3. gcm_decrypt ?d t ver m2 (b + 5) (n + 24) = (Some (b + 13, n), m3, gcm_next ?d)
      \<and> length m3 = length m2 \<and> load (b + 13) n m3 = load a n m"
    if b: "b + (n + 29) \<le> length m2" "load b (n + 29) m2 = load (a - 13) (n + 29) m'" for m2 b
  proof -
    have l: "n + 29 - 5 = n + 24" by simp
    obtain m3 dd where d: "gcm_decrypt ?d t ver m2 (b + 5) (n + 24) = (Some (b + 13, n), m3, dd)" "load (b + 13) n m3 = load a n m"
      using aes_gcm.gcm_roundtrip [OF on r k a e b, unfolded l] by blast
    have "gcm_check_length ?d (n + 24)" using n by (simp add: gcm_check_length_def)
    then have "length m3 = length m2" using decrypt_length [OF aes_gcm.gcm_in_contract on(2), of "n + 24" "b + 5" m2 t ver] b(1) d(1)
      by (simp add: br_sslrec_in_gcm_vtable_def)
    then show ?thesis using d gcm_decrypt_next [OF d(1)] by simp
  qed
  have R2: "gcm_linked (u\<lparr>u_gcm := gcm_next ?c\<rparr>) (v\<lparr>u_gcm := gcm_next ?d\<rparr>)"
    using R by (simp add: gcm_linked_def Let_def) (simp add: gcm_next_def)
  have e2: "encrypt gcm_out_table u t ver m a n = ((a - 13, n + 29), m', u\<lparr>u_gcm := gcm_next ?c\<rparr>)"
    using e by (simp add: view_out_def br_sslrec_out_gcm_vtable_def)
  have d2: "\<exists>m3. decrypt gcm_in_table v t ver m2 (b + 5) (n + 24) = (Some (b + 13, n), m3, v\<lparr>u_gcm := gcm_next ?d\<rparr>)
      \<and> length m3 = length m2 \<and> load (b + 13) n m3 = load a n m"
    if "b + (n + 29) \<le> length m2" "load b (n + 29) m2 = load (a - 13) (n + 29) m'" for m2 b
    using d [OF that] by (auto simp: view_in_def br_sslrec_in_gcm_vtable_def)
  have s: "n + 13 + 16 = n + 29" "n + 13 + 11 = n + 24" by simp_all
  have "length m' = length m" using so by (simp add: same_outside_def)
  then show ?thesis unfolding s using e2 d2 h R2 by blast
qed

interpretation chapol_pair: record_pair 5 chapol_out_table chapol_in_table chapol_linked
proof unfold_locales
  fix c d :: rec_union and a n len :: nat and m :: "u8 list" and t ver
  show "max_plaintext chapol_out_table c 5 (len - 5) = (5, 5 + min 16384 (len - (5 + 21)))"
    by (simp add: view_out_def br_sslrec_out_chapol_vtable_def chapol_max_plaintext_def Let_def min_def)
  show "n \<le> 16384 \<Longrightarrow> check_length chapol_in_table d (n + 5 + 11)"
    by (simp add: view_in_def br_sslrec_in_chapol_vtable_def chapol_check_length_def)
  show "\<exists>m' c'. encrypt chapol_out_table c t ver m a n = ((a - 5, n + 5 + 16), m', c') \<and> length m' = length m
      \<and> take 5 (load (a - 5) (n + 5 + 16) m') = [t] @ br_enc16be ver @ br_enc16be (of_nat (n + 5 + 11))
      \<and> (\<forall>m2 b. b + (n + 5 + 16) \<le> length m2 \<and> load b (n + 5 + 16) m2 = load (a - 5) (n + 5 + 16) m' \<longrightarrow>
           (\<exists>m3 d'. decrypt chapol_in_table d t ver m2 (b + 5) (n + 5 + 11) = (Some (b + 5, n), m3, d')
              \<and> length m3 = length m2 \<and> load (b + 5) n m3 = load a n m \<and> chapol_linked c' d'))"
    if "chapol_linked c d" "5 \<le> a" "n \<le> 16384" "a + n + 16 \<le> length m"
    by (rule chapol_seal_open [OF that(1,2,4,3)])
qed simp_all

interpretation gcm_pair: record_pair 13 gcm_out_table gcm_in_table gcm_linked
proof unfold_locales
  fix c d :: rec_union and a n len :: nat and m :: "u8 list" and t ver
  show "max_plaintext gcm_out_table c 5 (len - 5) = (13, 13 + min 16384 (len - (13 + 21)))"
    by (simp add: view_out_def br_sslrec_out_gcm_vtable_def gcm_max_plaintext_def Let_def min_def)
  show "n \<le> 16384 \<Longrightarrow> check_length gcm_in_table d (n + 13 + 11)"
    by (simp add: view_in_def br_sslrec_in_gcm_vtable_def gcm_check_length_def)
  show "\<exists>m' c'. encrypt gcm_out_table c t ver m a n = ((a - 13, n + 13 + 16), m', c') \<and> length m' = length m
      \<and> take 5 (load (a - 13) (n + 13 + 16) m') = [t] @ br_enc16be ver @ br_enc16be (of_nat (n + 13 + 11))
      \<and> (\<forall>m2 b. b + (n + 13 + 16) \<le> length m2 \<and> load b (n + 13 + 16) m2 = load (a - 13) (n + 13 + 16) m' \<longrightarrow>
           (\<exists>m3 d'. decrypt gcm_in_table d t ver m2 (b + 5) (n + 13 + 11) = (Some (b + 13, n), m3, d')
              \<and> length m3 = length m2 \<and> load (b + 13) n m3 = load a n m \<and> gcm_linked c' d'))"
    if "gcm_linked c d" "13 \<le> a" "n \<le> 16384" "a + n + 16 \<le> length m"
    by (rule gcm_seal_open [OF that(1,2,4,3)])
qed simp_all

subsection \<open>The keys of a direction\<close>

definition same_session :: "br_ssl_secrets \<Rightarrow> br_ssl_secrets \<Rightarrow> bool" where
  "same_session sa sb \<longleftrightarrow> session_version sa = session_version sb \<and> master_secret sa = master_secret sb
     \<and> client_random sa = client_random sb \<and> server_random sa = server_random sb
     \<and> (\<forall>prf_id. br_ssl_engine_get_PRF sa prf_id = br_ssl_engine_get_PRF sb prf_id)"


text \<open>
  RFC 5246, section 6.3: the key block is the output of the pseudo-random function on the master secret and the two random values,
  and is cut into the client's key, the server's key, the client's IV and the server's IV.
\<close>

definition rfc5246_key_block :: "br_ssl_secrets \<Rightarrow> nat \<Rightarrow> nat \<Rightarrow> nat \<Rightarrow> u8 list" where
  "rfc5246_key_block sc prf_id k v =
     br_ssl_engine_get_PRF sc prf_id (2 * k + 2 * v) (master_secret sc) (c_label ''key expansion'') [server_random sc, client_random sc]"

definition write_key :: "bool \<Rightarrow> nat \<Rightarrow> u8 list \<Rightarrow> u8 list" where
  "write_key client k block = take k (if client then block else drop k block)"

definition write_iv :: "bool \<Rightarrow> nat \<Rightarrow> nat \<Rightarrow> u8 list \<Rightarrow> u8 list" where
  "write_iv client k v block = take v (drop (2 * k) (if client then block else drop v block))"

lemma key_block: "compute_key_block sc prf_id (k + v) = rfc5246_key_block sc prf_id k v"
  by (simp add: compute_key_block_def rfc5246_key_block_def Let_def)

lemma gen_init_cut:
  "gen_chapol_init c r p (take 32 key) (take 12 iv) = gen_chapol_init c r p key iv"
  "gen_gcm_init d b key n g (take 4 iv) = gen_gcm_init d b key n g iv"
  by (simp_all add: gen_chapol_init_def gen_gcm_init_def)

definition chapol_keys :: "bool \<Rightarrow> u8 list \<Rightarrow> rec_union \<Rightarrow> rec_union" where
  "chapol_keys client block u =
     u\<lparr>u_chapol := gen_chapol_init (u_chapol u) br_chacha20_ct_run br_poly1305_ctmul_run (write_key client 32 block) (write_iv client 32 12 block)\<rparr>"

definition gcm_keys :: "bool \<Rightarrow> nat \<Rightarrow> u8 list \<Rightarrow> rec_union \<Rightarrow> rec_union" where
  "gcm_keys client k block u =
     u\<lparr>u_gcm := gen_gcm_init (u_gcm u) br_aes_small_ctr_vtable (write_key client k block) k br_ghash_ctmul (write_iv client k 4 block)\<rparr>"

text \<open>Each switch in terms of these: the incoming direction has the keys of the peer.\<close>

lemma switches:
  assumes "library_ciphers sc"
  shows "br_ssl_engine_switch_chapol_in sc client prf_id cc
      = cc\<lparr>in_vtable := chapol_in_table, in_ctx := chapol_keys (\<not> client) (rfc5246_key_block sc prf_id 32 12) (in_ctx cc), incrypt := True\<rparr>"
    "br_ssl_engine_switch_chapol_out sc client prf_id cc
      = cc\<lparr>out_vtable := chapol_out_table, out_ctx := chapol_keys client (rfc5246_key_block sc prf_id 32 12) (out_ctx cc)\<rparr>"
    "br_ssl_engine_switch_gcm_in sc client prf_id br_aes_small_ctr_vtable k cc
      = cc\<lparr>in_vtable := gcm_in_table, in_ctx := gcm_keys (\<not> client) k (rfc5246_key_block sc prf_id k 4) (in_ctx cc), incrypt := True\<rparr>"
    "br_ssl_engine_switch_gcm_out sc client prf_id br_aes_small_ctr_vtable k cc
      = cc\<lparr>out_vtable := gcm_out_table, out_ctx := gcm_keys client k (rfc5246_key_block sc prf_id k 4) (out_ctx cc)\<rparr>"
proof -
  note lib = assms [unfolded library_ciphers_def]
  have b: "compute_key_block sc prf_id 44 = rfc5246_key_block sc prf_id 32 12" using key_block [of sc prf_id 32 12] by simp
  note defs = Let_def lib b key_block chapol_keys_def gcm_keys_def write_key_def write_iv_def gen_init_cut
    in_chapol_init_def in_gcm_init_def out_chapol_init_def out_gcm_init_def add.commute
  show "br_ssl_engine_switch_chapol_in sc client prf_id cc
      = cc\<lparr>in_vtable := chapol_in_table, in_ctx := chapol_keys (\<not> client) (rfc5246_key_block sc prf_id 32 12) (in_ctx cc), incrypt := True\<rparr>"
    unfolding br_ssl_engine_switch_chapol_in_def by (cases client) (simp_all add: defs)
  show "br_ssl_engine_switch_chapol_out sc client prf_id cc
      = cc\<lparr>out_vtable := chapol_out_table, out_ctx := chapol_keys client (rfc5246_key_block sc prf_id 32 12) (out_ctx cc)\<rparr>"
    unfolding br_ssl_engine_switch_chapol_out_def by (cases client) (simp_all add: defs)
  show "br_ssl_engine_switch_gcm_in sc client prf_id br_aes_small_ctr_vtable k cc
      = cc\<lparr>in_vtable := gcm_in_table, in_ctx := gcm_keys (\<not> client) k (rfc5246_key_block sc prf_id k 4) (in_ctx cc), incrypt := True\<rparr>"
    unfolding br_ssl_engine_switch_gcm_in_def by (cases client) (simp_all add: defs)
  show "br_ssl_engine_switch_gcm_out sc client prf_id br_aes_small_ctr_vtable k cc
      = cc\<lparr>out_vtable := gcm_out_table, out_ctx := gcm_keys client k (rfc5246_key_block sc prf_id k 4) (out_ctx cc)\<rparr>"
    unfolding br_ssl_engine_switch_gcm_out_def by (cases client) (simp_all add: defs)
qed

lemma chapol_keys_linked: "chapol_linked (chapol_keys client b u) (chapol_keys client b v)"
  by (simp add: chapol_linked_def chapol_keys_def chapol_on_init Let_def) (simp add: gen_chapol_init_def)

lemma gcm_keys_linked:
  assumes "k = 16 \<or> k = 24 \<or> k = 32" "length b = 2 * k + 8"
    and "60 \<le> length (skey (gcm_bc (u_gcm u)))" "60 \<le> length (skey (gcm_bc (u_gcm v)))"
  shows "gcm_linked (gcm_keys client k b u) (gcm_keys client k b v)"
proof -
  let ?key = "write_key client k b" and ?iv = "write_iv client k 4 b"
  have key: "length ?key = k" "length ?iv = 4" using assms(2) by (auto simp: write_key_def write_iv_def)
  have init: "u_gcm (gcm_keys client k b w) = aes_gcm_init (u_gcm w) ?key ?iv" for w
    by (simp add: gcm_keys_def aes_gcm_init_def key(1))
  have l: "length ?key = 16 \<or> length ?key = 24 \<or> length ?key = 32" using key(1) assms(1) by simp
  have on: "gcm_on br_aes_small_ctr_run br_ghash_ctmul (aes_gcm_init c ?key ?iv)" for c by (simp add: aes_gcm_init_def gcm_on_init)
  have sq: "gcm_seq (aes_gcm_init c ?key ?iv) = 0" for c by (simp add: aes_gcm_init_def gen_gcm_init_def Let_def)
  show ?thesis
    unfolding gcm_linked_def Let_def init
    using hash_key [OF l assms(3)] hash_key [OF l assms(4)] aes_ctr_mode [OF l assms(3)] aes_ctr_mode [OF l assms(4)] key(2)
    by (simp add: on sq aes_gcm_fields)
qed

subsection \<open>The engine after a switch\<close>

lemma finished_phase:
  assumes "running cc" "iomode cc = BR_IO_IN \<or> iomode cc = BR_IO_INOUT" "br_ssl_engine_recvrec_finished cc"
  shows "header_phase cc \<or> data_phase cc \<and> ixa cc < ixb cc \<and> ixc cc = 0"
  using assms unfolding running_def in_ok_def header_phase_def data_phase_def br_ssl_engine_recvrec_finished_def
  by (auto split: if_splits)

lemma running_switch_finished:
  assumes "running cc" "iomode cc = BR_IO_IN \<or> iomode cc = BR_IO_INOUT" "br_ssl_engine_recvrec_finished cc" "in_contract v good" "good c"
  shows "running (cc\<lparr>in_vtable := v, in_ctx := c, incrypt := True\<rparr>)"
proof (cases "header_phase cc")
  case True
  show ?thesis by (rule running_switch_in [OF assms(1) True assms(4,5)])
next
  case False
  then have d: "data_phase cc" "ixa cc < ixb cc" "ixc cc = 0" using finished_phase [OF assms(1-3)] by blast+
  have "data_phase (cc\<lparr>in_vtable := v, in_ctx := c, incrypt := True\<rparr>)"
    using d assms(1) by (auto simp: data_phase_def running_def bufs_ok_def)
  moreover have "out_ok (cc\<lparr>in_vtable := v, in_ctx := c, incrypt := True\<rparr>)" "bufs_ok (cc\<lparr>in_vtable := v, in_ctx := c, incrypt := True\<rparr>)"
    using assms(1) by (auto simp: running_def out_ok_def filling_def sending_def window_def bufs_ok_def)
  moreover have "ciphers_ok (cc\<lparr>in_vtable := v, in_ctx := c, incrypt := True\<rparr>)"
    using assms(1,4,5) by (auto simp: running_def ciphers_ok_def)
  ultimately show ?thesis by (simp add: running_def in_ok_def)
qed

text \<open>
  \<^bold>\<open>C36\<close> A switch does what RFC 5246 asks, at the points at which the handshake makes it.  Incoming, when the record in the
  input buffer is complete, as \<^verbatim>\<open>more-incoming-bytes?\<close> checks with \<open>br_ssl_engine_recvrec_finished\<close> after the byte of
  ChangeCipherSpec is read: decryption is on from the next record, with the table of the cipher and the peer's write key and IV of
  the key block.  Outgoing, when the flushed ChangeCipherSpec waits to be sent: the next record is encrypted with the engine's own
  write key and IV.  Either way the engine stays well formed, so that all its registers stay in its buffers from there on.
\<close>

theorem switch_keeps_running:
  assumes "library_ciphers sc" "running cc"
  shows "let block = rfc5246_key_block sc prf_id 32 12; gblock = rfc5246_key_block sc prf_id key_len 4;
             ci = br_ssl_engine_switch_chapol_in sc client prf_id cc; co = br_ssl_engine_switch_chapol_out sc client prf_id cc;
             gi = br_ssl_engine_switch_gcm_in sc client prf_id br_aes_small_ctr_vtable key_len cc;
             go = br_ssl_engine_switch_gcm_out sc client prf_id br_aes_small_ctr_vtable key_len cc
         in ((iomode cc = BR_IO_IN \<or> iomode cc = BR_IO_INOUT) \<and> br_ssl_engine_recvrec_finished cc \<longrightarrow>
              running ci \<and> incrypt ci \<and> in_vtable ci = chapol_in_table \<and> in_ctx ci = chapol_keys (\<not> client) block (in_ctx cc)
            \<and> running gi \<and> incrypt gi \<and> in_vtable gi = gcm_in_table \<and> in_ctx gi = gcm_keys (\<not> client) key_len gblock (in_ctx cc))
          \<and> (sending cc \<longrightarrow>
              running co \<and> out_vtable co = chapol_out_table \<and> out_ctx co = chapol_keys client block (out_ctx cc)
            \<and> running go \<and> out_vtable go = gcm_out_table \<and> out_ctx go = gcm_keys client key_len gblock (out_ctx cc))"
proof -
  have c: "chapol_on chapol_run (u_chapol (chapol_keys client b u))" for client b u by (simp add: chapol_keys_def chapol_on_init)
  have g: "gcm_on br_aes_small_ctr_run br_ghash_ctmul (u_gcm (gcm_keys client k b u))" for client k b u
    by (simp add: gcm_keys_def gcm_on_init)
  show ?thesis
    unfolding Let_def switches [OF assms(1)]
    using running_switch_finished [OF assms(2) _ _ in_views(1) c] running_switch_finished [OF assms(2) _ _ in_views(2) g]
      running_switch_out [OF assms(2) _ out_views(1) c] running_switch_out [OF assms(2) _ out_views(2) g]
    by simp
qed

subsection \<open>Two engines\<close>

text \<open>
  The engines go on when the ChangeCipherSpec is out, and when it is read.
\<close>

definition after_sending :: "ssl_engine \<Rightarrow> ssl_engine" where
  "after_sending A = sendrec_ack A (oxc A - oxa A)"

definition after_reading :: "ssl_engine \<Rightarrow> ssl_engine" where
  "after_reading B = recvpld_ack B (ixb B - ixa B)"

lemma sent_ready:
  assumes "running A" "sending A" "iomode A = BR_IO_OUT \<or> iomode A = BR_IO_INOUT" "fst (window (A\<lparr>out_vtable := v, out_ctx := c\<rparr>)) \<le> snd (window (A\<lparr>out_vtable := v, out_ctx := c\<rparr>))"
  shows "ready_out (after_sending (A\<lparr>out_vtable := v, out_ctx := c\<rparr>))"
    "out_vtable (after_sending (A\<lparr>out_vtable := v, out_ctx := c\<rparr>)) = v" "out_ctx (after_sending (A\<lparr>out_vtable := v, out_ctx := c\<rparr>)) = c"
    "version_out (after_sending (A\<lparr>out_vtable := v, out_ctx := c\<rparr>)) = version_out A"
    "fits (after_sending (A\<lparr>out_vtable := v, out_ctx := c\<rparr>)) B p = fits A B p"
proof -
  let ?A = "A\<lparr>out_vtable := v, out_ctx := c\<rparr>"
  have e: "after_sending ?A = make_ready_out (?A\<lparr>oxa := oxc A, oxb := oxc A\<rparr>)"
    using assms(2) by (simp add: after_sending_def sendrec_ack_def sending_def Let_def)
  obtain j where j: "obuf A = Some j" "j + obuf_len A \<le> length (mem A)" using assms(1) by (auto simp: running_def bufs_ok_def)
  show "ready_out (after_sending ?A)"
    unfolding e by (rule ready_make_ready_out [of _ j]) (use assms(3,4) j in \<open>auto simp: window_def\<close>)
  show "out_vtable (after_sending ?A) = v" "out_ctx (after_sending ?A) = c" "version_out (after_sending ?A) = version_out A"
    "fits (after_sending ?A) B p = fits A B p"
    unfolding e by (simp_all add: make_ready_out_eq fits_def)
qed

lemma read_waiting:
  assumes "running B" "iomode B = BR_IO_IN \<or> iomode B = BR_IO_INOUT" "br_ssl_engine_recvrec_finished B" "ixa B \<noteq> ixb B" "\<not> shutdown_recv B"
  shows "waiting_in (after_reading (B\<lparr>in_vtable := v, in_ctx := c, incrypt := True\<rparr>))"
    "in_vtable (after_reading (B\<lparr>in_vtable := v, in_ctx := c, incrypt := True\<rparr>)) = v"
    "in_ctx (after_reading (B\<lparr>in_vtable := v, in_ctx := c, incrypt := True\<rparr>)) = c"
    "version_in (after_reading (B\<lparr>in_vtable := v, in_ctx := c, incrypt := True\<rparr>)) = version_in B"
    "fits A (after_reading (B\<lparr>in_vtable := v, in_ctx := c, incrypt := True\<rparr>)) p = fits A B p"
proof -
  let ?B = "B\<lparr>in_vtable := v, in_ctx := c, incrypt := True\<rparr>"
  have "ixa B < ixb B" "ixc B = 0" using finished_phase [OF assms(1-3)] assms(4) by (auto simp: header_phase_def)
  then have e: "after_reading ?B = make_ready_in (?B\<lparr>ixa := ixb B\<rparr>)"
    by (simp add: after_reading_def recvpld_ack_def Let_def)
  obtain i where i: "ibuf B = Some i" "i + ibuf_len B \<le> length (mem B)" using assms(1) by (auto simp: running_def bufs_ok_def)
  show "waiting_in (after_reading ?B)"
    unfolding e by (rule waiting_make_ready_in [of _ i]) (use assms(2,5) i in auto)
  show "in_vtable (after_reading ?B) = v" "in_ctx (after_reading ?B) = c" "version_in (after_reading ?B) = version_in B"
    "fits A (after_reading ?B) p = fits A B p"
    unfolding e by (simp_all add: make_ready_in_eq fits_def)
qed

text \<open>
  \<^bold>\<open>C35\<close> Two engines that hold the same version, master secret and random values understand each other.  One is sending its
  ChangeCipherSpec and switches its outgoing direction as client (or as server); the other has read it and switches its incoming
  direction in the other role.  Once these records are done, any sequence of payloads of any types that the first one puts into its
  output buffer, flushes and sends in records arrives at the second one, header and body through its own buffer and checks, as it
  was written: for ChaCha20 and Poly1305 and for AES in GCM with each key length, whatever the memory of the two engines held before,
  when each payload fits the fragment length and the buffers.
\<close>

theorem switched_engines_agree:
  assumes "library_ciphers sa" "library_ciphers sb" "same_session sa sb"
    and "\<And>len s l d. length (br_ssl_engine_get_PRF sb prf_id len s l d) = len"
    and "key_len = 16 \<or> key_len = 24 \<or> key_len = 32"
    and "60 \<le> length (skey (gcm_bc (u_gcm (out_ctx A))))" "60 \<le> length (skey (gcm_bc (u_gcm (in_ctx B))))"
    and "running A" "sending A" "iomode A = BR_IO_OUT \<or> iomode A = BR_IO_INOUT"
    and "running B" "iomode B = BR_IO_IN \<or> iomode B = BR_IO_INOUT" "br_ssl_engine_recvrec_finished B" "ixa B \<noteq> ixb B"
      "\<not> shutdown_recv B"
    and "version_in B = 0 \<or> version_in B = version_out A" "drop_bit 8 (version_out A) = 3"
    and "\<forall>(t, p) \<in> set xs. fits A B p"
  shows "transfer (after_sending (br_ssl_engine_switch_chapol_out sa client prf_id A))
        (after_reading (br_ssl_engine_switch_chapol_in sb (\<not> client) prf_id B)) xs = map Some xs
    \<and> transfer (after_sending (br_ssl_engine_switch_gcm_out sa client prf_id br_aes_small_ctr_vtable key_len A))
        (after_reading (br_ssl_engine_switch_gcm_in sb (\<not> client) prf_id br_aes_small_ctr_vtable key_len B)) xs = map Some xs"
proof -
  have k: "rfc5246_key_block sa prf_id k v = rfc5246_key_block sb prf_id k v" for k v
    using assms(3) by (simp add: rfc5246_key_block_def same_session_def)
  have l: "length (rfc5246_key_block sb prf_id key_len 4) = 2 * key_len + 8"
    using assms(4) by (simp add: rfc5246_key_block_def)
  have wc: "fst (window (A\<lparr>out_vtable := chapol_out_table, out_ctx := c\<rparr>)) \<le> snd (window (A\<lparr>out_vtable := chapol_out_table, out_ctx := c\<rparr>))" for c
    by (subst (1 2) chapol_pair.window_of) simp_all
  have wg: "fst (window (A\<lparr>out_vtable := gcm_out_table, out_ctx := c\<rparr>)) \<le> snd (window (A\<lparr>out_vtable := gcm_out_table, out_ctx := c\<rparr>))" for c
    by (subst (1 2) gcm_pair.window_of) simp_all
  note sc = sent_ready [OF assms(8-10) wc] and sg = sent_ready [OF assms(8-10) wg] and r = read_waiting [OF assms(11-15)]
  have "transfer (after_sending (A\<lparr>out_vtable := chapol_out_table, out_ctx := chapol_keys client b (out_ctx A)\<rparr>))
      (after_reading (B\<lparr>in_vtable := chapol_in_table, in_ctx := chapol_keys client b (in_ctx B), incrypt := True\<rparr>)) xs = map Some xs" for b
    by (rule chapol_pair.transfer_all) (use assms(16-18) in \<open>simp_all add: sc r chapol_keys_linked\<close>)
  moreover have "transfer (after_sending (A\<lparr>out_vtable := gcm_out_table, out_ctx := gcm_keys client key_len b (out_ctx A)\<rparr>))
      (after_reading (B\<lparr>in_vtable := gcm_in_table, in_ctx := gcm_keys client key_len b (in_ctx B), incrypt := True\<rparr>)) xs = map Some xs"
    if "length b = 2 * key_len + 8" for b
    by (rule gcm_pair.transfer_all) (use assms(16-18) in \<open>simp_all add: sg r gcm_keys_linked [OF assms(5) that assms(6,7)]\<close>)
  ultimately show ?thesis unfolding switches [OF assms(1)] switches [OF assms(2)] k using l by simp
qed

text \<open>An engine that is sending one record and has read another, and the secrets of a session over the functions of the library.\<close>

definition example_union :: rec_union where
  "example_union =
     \<lparr>u_chapol = \<lparr>chapol_seq = 9, chapol_key = [], chapol_iv = [], chapol_ichacha = br_chacha20_ct_run, chapol_ipoly = br_poly1305_ctmul_run\<rparr>,
      u_gcm = \<lparr>gcm_seq = 9, gcm_vtable = br_aes_small_ctr_vtable, gcm_bc = \<lparr>skey = replicate 60 0, num_rounds = 0\<rparr>,
        gcm_gh = br_ghash_ctmul, gcm_iv = [], gcm_h = []\<rparr>\<rparr>"

definition example_engine :: ssl_engine where
  "example_engine = \<lparr>err = 0, mem = replicate 1434 0, ibuf = Some 0, obuf = Some 837, ibuf_len = 837, obuf_len = 597, max_frag_len = 512,
     log_max_frag_len = 9, peer_log_max_frag_len = 0, ixa = 5, ixb = 6, ixc = 0, oxa = 5, oxb = 5, oxc = 100, iomode = BR_IO_INOUT,
     incrypt = False, shutdown_recv = False, record_type_in = 0, record_type_out = 0, version_in = 0x0303, version_out = 0x0303,
     in_vtable = gcm_in_table, in_ctx = example_union,
     out_vtable = br_sslrec_out_clear_vtable, out_ctx = example_union, application_data = 0, reneg = 0, no_renegotiation = False,
     hbuf_in = None, hbuf_out = None, saved_hbuf_out = None, hlen_in = 0, hlen_out = 0, action = 0, alert = 0,
     suites_buf = replicate 48 0, suites_num = 0\<rparr>"

definition example_secrets :: br_ssl_secrets where
  "example_secrets = \<lparr>session_version = 0x0303, master_secret = replicate 48 1, client_random = replicate 32 2, server_random = replicate 32 3,
     prf10 = (\<lambda>len s l d. replicate len 0),
     prf_sha256 = br_tls12_sha256_prf (\<lambda>i. 0, 0, replicate 8 0), prf_sha384 = (\<lambda>len s l d. replicate len 0),
     ighash = br_ghash_ctmul, ichacha = br_chacha20_ct_run, ipoly = br_poly1305_ctmul_run,
     igcm_in = in_gcm_init, igcm_out = out_gcm_init, ichapol_in = in_chapol_init, ichapol_out = out_chapol_init\<rparr>"

lemma example_library: "library_ciphers example_secrets"
  by (simp add: library_ciphers_def example_secrets_def)

lemma example_running: "running example_engine" "sending example_engine" "br_ssl_engine_recvrec_finished example_engine"
    "iomode example_engine = BR_IO_INOUT" "ixa example_engine \<noteq> ixb example_engine" "\<not> shutdown_recv example_engine"
    "version_in example_engine = version_out example_engine" "drop_bit 8 (version_out example_engine) = 3"
proof -
  have "out_contract br_sslrec_out_clear_vtable (\<lambda>c :: rec_union. True)" by (rule clear_contract)
  then show "running example_engine"
    by (auto simp: example_engine_def running_def bufs_ok_def in_ok_def out_ok_def ciphers_ok_def data_phase_def sending_def)
  show "sending example_engine" "br_ssl_engine_recvrec_finished example_engine"
    "iomode example_engine = BR_IO_INOUT" "ixa example_engine \<noteq> ixb example_engine" "\<not> shutdown_recv example_engine"
    "version_in example_engine = version_out example_engine"
    by (simp_all add: example_engine_def sending_def br_ssl_engine_recvrec_finished_def)
  show "drop_bit 8 (version_out example_engine) = 3" by (simp add: example_engine_def)
qed

theorem switch_keeps_running_witness:
  "running (br_ssl_engine_switch_gcm_in example_secrets True 4 br_aes_small_ctr_vtable 16 example_engine)
   \<and> out_ctx (br_ssl_engine_switch_gcm_out example_secrets True 4 br_aes_small_ctr_vtable 16 example_engine)
     = gcm_keys True 16 (rfc5246_key_block example_secrets 4 16 4) example_union"
proof -
  have "out_ctx example_engine = example_union" by (simp add: example_engine_def)
  then show ?thesis
    using switch_keeps_running [OF example_library example_running(1), where prf_id = 4 and key_len = 16 and client = True, unfolded Let_def]
      example_running(2,3,4) by simp
qed

theorem switched_engines_agree_witness:
  "transfer (after_sending (br_ssl_engine_switch_gcm_out example_secrets True 4 br_aes_small_ctr_vtable 16 example_engine))
     (after_reading (br_ssl_engine_switch_gcm_in example_secrets False 4 br_aes_small_ctr_vtable 16 example_engine))
     [(22, [1, 2, 3]), (23, [4])]
   = [Some (22, [1, 2, 3]), Some (23, [4])]"
proof -
  have "length (P_hash (hmac sha256_digest 64 s) x n) = n" for s x n
  proof -
    have "n \<le> n * 32" by simp
    then show ?thesis using length_p_blocks [of "hmac sha256_digest 64 s" 32 x n] sha256.length_mac
      by (simp add: P_hash_def table_sizes)
  qed
  then have len: "length (br_ssl_engine_get_PRF example_secrets 4 len s l d) = len" for len s l d
    by (simp add: br_ssl_engine_get_PRF_def example_secrets_def BR_TLS12_def br_sha384_ID_def br_tls12_sha256_prf_def sha256.phash_spec table_sizes)
  have sk: "60 \<le> length (skey (gcm_bc (u_gcm (out_ctx example_engine))))" "60 \<le> length (skey (gcm_bc (u_gcm (in_ctx example_engine))))"
    by (simp_all add: example_engine_def example_union_def)
  have io: "iomode example_engine = BR_IO_OUT \<or> iomode example_engine = BR_IO_INOUT" "iomode example_engine = BR_IO_IN \<or> iomode example_engine = BR_IO_INOUT"
    "version_in example_engine = 0 \<or> version_in example_engine = version_out example_engine"
    "\<forall>(t, p) \<in> set [(22, [1, 2, 3]), (23, [4])]. fits example_engine example_engine p"
    by (simp_all add: example_running fits_def) (simp_all add: example_engine_def)
  have "same_session example_secrets example_secrets" by (simp add: same_session_def)
  from conjunct2 [OF switched_engines_agree [OF example_library example_library this len _ sk example_running(1,2) io(1)
        example_running(1) io(2) example_running(3,5,6) io(3) example_running(8) io(4), where client = True and key_len = 16]]
  show ?thesis by (simp del: transfer.simps)
qed

end
