(* ===== verification/SslIo.thy ===== *)
theory SslIo
  imports RecAead
begin

section \<open>Blocking I/O over the record engine (bearssl/src/ssl/ssl\_io.c)\<close>

text \<open>
  The functions the agent reads and writes with.  The two callbacks of the context work on the same connection, whose state is
  \<open>io_world\<close>: \<open>low_read\<close> yields at most so many bytes or an error (\<^term>\<open>None\<close>, a negative number in C), \<open>low_write\<close> says how many
  bytes it took.  The loops need not end: they are partial functions, \<^term>\<open>None\<close> meaning that the function does not return.
\<close>

record ('i, 'o, 'w) br_sslio_context =
  engine :: "('i, 'o) br_ssl_engine_context"
  io_world :: 'w
  low_read :: "'w \<Rightarrow> nat \<Rightarrow> u8 list option \<times> 'w"
  low_write :: "'w \<Rightarrow> u8 list \<Rightarrow> nat option \<times> 'w"

type_synonym ('i, 'o) hs_run = "('i, 'o) br_ssl_engine_context \<Rightarrow> ('i, 'o) br_ssl_engine_context"

definition br_sslio_init ::
  "('i, 'o) br_ssl_engine_context \<Rightarrow> ('w \<Rightarrow> nat \<Rightarrow> u8 list option \<times> 'w) \<Rightarrow> ('w \<Rightarrow> u8 list \<Rightarrow> nat option \<times> 'w) \<Rightarrow> 'w
   \<Rightarrow> ('i, 'o, 'w) br_sslio_context" where
  "br_sslio_init eng rd wr w = \<lparr>engine = eng, io_world = w, low_read = rd, low_write = wr\<rparr>"

text \<open>The branches of \<open>run_until\<close> that use the connection, up to the next pass of the loop.\<close>

definition send_record :: "('i, 'o) hs_run \<Rightarrow> ('i, 'o, 'w) br_sslio_context \<Rightarrow> (bool \<times> ('i, 'o, 'w) br_sslio_context) option" where
  "send_record hs ctx =
     (let (buf, len) = br_ssl_engine_sendrec_buf (engine ctx);
          (wlen, w) = low_write ctx (io_world ctx) (load (the buf) len (mem (engine ctx)));
          ctx = ctx\<lparr>io_world := w\<rparr>
      in case wlen of
           None \<Rightarrow> Some (False, if shutdown_recv (engine ctx) then ctx else ctx\<lparr>engine := br_ssl_engine_fail (engine ctx) BR_ERR_IO\<rparr>)
         | Some n \<Rightarrow>
             if 0 < n then map_option (\<lambda>e. (True, ctx\<lparr>engine := e\<rparr>)) (br_ssl_engine_sendrec_ack hs (engine ctx) n)
             else Some (True, ctx))"

definition recv_record :: "('i, 'o) hs_run \<Rightarrow> ('i, 'o, 'w) br_sslio_context \<Rightarrow> (bool \<times> ('i, 'o, 'w) br_sslio_context) option" where
  "recv_record hs ctx =
     (let (buf, len) = br_ssl_engine_recvrec_buf (engine ctx);
          (r, w) = low_read ctx (io_world ctx) len;
          ctx = ctx\<lparr>io_world := w\<rparr>
      in case r of
           None \<Rightarrow> Some (False, ctx\<lparr>engine := br_ssl_engine_fail (engine ctx) BR_ERR_IO\<rparr>)
         | Some bs \<Rightarrow>
             if bs \<noteq> [] then
               map_option (\<lambda>e. (True, ctx\<lparr>engine := e\<rparr>))
                 (br_ssl_engine_recvrec_ack hs ((engine ctx)\<lparr>mem := store (the buf) bs (mem (engine ctx))\<rparr>) (length bs))
             else Some (True, ctx))"

text \<open>The result is whether the target was reached (0 in C) or not (-1).\<close>

partial_function (option) run_until ::
  "('i, 'o) hs_run \<Rightarrow> u32 \<Rightarrow> ('i, 'o, 'w) br_sslio_context \<Rightarrow> (bool \<times> ('i, 'o, 'w) br_sslio_context) option" where
  "run_until hs target ctx =
     (let state = br_ssl_engine_current_state (engine ctx)
      in if state AND BR_SSL_CLOSED \<noteq> 0 then Some (False, ctx)
         else if state AND BR_SSL_SENDREC \<noteq> 0 then
           Option.bind (send_record hs ctx) (\<lambda>r. if fst r then run_until hs target (snd r) else Some r)
         else if state AND target \<noteq> 0 then Some (True, ctx)
         else if state AND BR_SSL_RECVAPP \<noteq> 0 then Some (False, ctx)
         else if state AND BR_SSL_RECVREC \<noteq> 0 then
           Option.bind (recv_record hs ctx) (\<lambda>r. if fst r then run_until hs target (snd r) else Some r)
         else run_until hs target (ctx\<lparr>engine := br_ssl_engine_flush (engine ctx) False\<rparr>))"

text \<open>The data read, or \<^term>\<open>None\<close> for -1.\<close>

definition br_sslio_read ::
  "('i, 'o) hs_run \<Rightarrow> ('i, 'o, 'w) br_sslio_context \<Rightarrow> nat \<Rightarrow> (u8 list option \<times> ('i, 'o, 'w) br_sslio_context) option" where
  "br_sslio_read hs ctx len =
     (if len = 0 then Some (Some [], ctx)
      else Option.bind (run_until hs BR_SSL_RECVAPP ctx) (\<lambda>(ok, ctx).
        if \<not> ok then Some (None, ctx)
        else
          let (buf, alen) = br_ssl_engine_recvapp_buf (engine ctx);
              alen = (if len < alen then len else alen);
              dst = load (the buf) alen (mem (engine ctx))
          in Some (Some dst, ctx\<lparr>engine := br_ssl_engine_recvapp_ack (engine ctx) alen\<rparr>)))"

partial_function (option) br_sslio_read_all ::
  "('i, 'o) hs_run \<Rightarrow> ('i, 'o, 'w) br_sslio_context \<Rightarrow> nat \<Rightarrow> u8 list \<Rightarrow> (u8 list option \<times> ('i, 'o, 'w) br_sslio_context) option" where
  "br_sslio_read_all hs ctx len buf =
     (if len = 0 then Some (Some buf, ctx)
      else Option.bind (br_sslio_read hs ctx len) (\<lambda>r.
        if fst r = None then Some (None, snd r)
        else br_sslio_read_all hs (snd r) (len - length (the (fst r))) (buf @ the (fst r))))"

text \<open>The number of bytes taken.\<close>

definition br_sslio_write ::
  "('i, 'o) hs_run \<Rightarrow> ('i, 'o, 'w) br_sslio_context \<Rightarrow> u8 list \<Rightarrow> (nat option \<times> ('i, 'o, 'w) br_sslio_context) option" where
  "br_sslio_write hs ctx src =
     (if src = [] then Some (Some 0, ctx)
      else Option.bind (run_until hs BR_SSL_SENDAPP ctx) (\<lambda>(ok, ctx).
        if \<not> ok then Some (None, ctx)
        else
          let (buf, alen) = br_ssl_engine_sendapp_buf (engine ctx);
              alen = (if length src < alen then length src else alen);
              e = (engine ctx)\<lparr>mem := store (the buf) (take alen src) (mem (engine ctx))\<rparr>
          in Some (Some alen, ctx\<lparr>engine := br_ssl_engine_sendapp_ack e alen\<rparr>)))"

partial_function (option) br_sslio_write_all ::
  "('i, 'o) hs_run \<Rightarrow> ('i, 'o, 'w) br_sslio_context \<Rightarrow> u8 list \<Rightarrow> (bool \<times> ('i, 'o, 'w) br_sslio_context) option" where
  "br_sslio_write_all hs ctx src =
     (if src = [] then Some (True, ctx)
      else Option.bind (br_sslio_write hs ctx src) (\<lambda>r.
        if fst r = None then Some (False, snd r)
        else br_sslio_write_all hs (snd r) (drop (the (fst r)) src)))"

definition br_sslio_flush ::
  "('i, 'o) hs_run \<Rightarrow> ('i, 'o, 'w) br_sslio_context \<Rightarrow> (bool \<times> ('i, 'o, 'w) br_sslio_context) option" where
  "br_sslio_flush hs ctx =
     run_until hs (BR_SSL_SENDAPP OR BR_SSL_RECVAPP) (ctx\<lparr>engine := br_ssl_engine_flush (engine ctx) False\<rparr>)"

text \<open>The loop of \<open>br_sslio_close\<close>.\<close>

definition discard_app :: "('i, 'o, 'w) br_sslio_context \<Rightarrow> ('i, 'o, 'w) br_sslio_context" where
  "discard_app ctx =
     (let (buf, len) = br_ssl_engine_recvapp_buf (engine ctx)
      in if buf \<noteq> None then ctx\<lparr>engine := br_ssl_engine_recvapp_ack (engine ctx) len\<rparr> else ctx)"

partial_function (option) close_loop ::
  "('i, 'o) hs_run \<Rightarrow> ('i, 'o, 'w) br_sslio_context \<Rightarrow> ('i, 'o, 'w) br_sslio_context option" where
  "close_loop hs ctx =
     (if br_ssl_engine_current_state (engine ctx) = BR_SSL_CLOSED then Some ctx
      else Option.bind (run_until hs BR_SSL_RECVAPP ctx) (\<lambda>r. close_loop hs (discard_app (snd r))))"

definition br_sslio_close ::
  "('i, 'o) hs_run \<Rightarrow> ('i, 'o, 'w) br_sslio_context \<Rightarrow> (bool \<times> ('i, 'o, 'w) br_sslio_context) option" where
  "br_sslio_close hs ctx =
     Option.bind (br_ssl_engine_close hs (engine ctx)) (\<lambda>e.
       Option.bind (close_loop hs (ctx\<lparr>engine := e\<rparr>)) (\<lambda>ctx.
         Some (br_ssl_engine_last_error (engine ctx) = BR_ERR_OK, ctx)))"

subsection \<open>The state bits\<close>

lemmas state_bits = BR_SSL_CLOSED_def BR_SSL_SENDREC_def BR_SSL_RECVREC_def BR_SSL_SENDAPP_def BR_SSL_RECVAPP_def

lemma current_state_bits:
  "br_ssl_engine_current_state cc AND BR_SSL_CLOSED \<noteq> 0 \<longleftrightarrow> br_ssl_engine_closed cc"
  "br_ssl_engine_current_state cc = BR_SSL_CLOSED \<longleftrightarrow> br_ssl_engine_closed cc"
  "br_ssl_engine_current_state cc AND BR_SSL_SENDREC \<noteq> 0 \<longleftrightarrow> \<not> br_ssl_engine_closed cc \<and> fst (br_ssl_engine_sendrec_buf cc) \<noteq> None"
  "br_ssl_engine_current_state cc AND BR_SSL_RECVREC \<noteq> 0 \<longleftrightarrow> \<not> br_ssl_engine_closed cc \<and> fst (br_ssl_engine_recvrec_buf cc) \<noteq> None"
  "br_ssl_engine_current_state cc AND BR_SSL_SENDAPP \<noteq> 0 \<longleftrightarrow> \<not> br_ssl_engine_closed cc \<and> fst (br_ssl_engine_sendapp_buf cc) \<noteq> None"
  "br_ssl_engine_current_state cc AND BR_SSL_RECVAPP \<noteq> 0 \<longleftrightarrow> \<not> br_ssl_engine_closed cc \<and> fst (br_ssl_engine_recvapp_buf cc) \<noteq> None"
  by (cases "br_ssl_engine_closed cc"; cases "fst (br_ssl_engine_sendrec_buf cc)"; cases "fst (br_ssl_engine_recvrec_buf cc)";
      cases "fst (br_ssl_engine_sendapp_buf cc)"; cases "fst (br_ssl_engine_recvapp_buf cc)";
      simp add: br_ssl_engine_current_state_def state_bits Let_def)+

end
