(* ===== verification/SslIoProps.thy ===== *)
theory SslIoProps
  imports SslIo
begin

section \<open>What blocking I/O keeps and returns\<close>

text \<open>The callbacks return no more than they were asked for.\<close>

definition transport_ok :: "('i, 'o, 'w) br_sslio_context \<Rightarrow> bool" where
  "transport_ok ctx \<longleftrightarrow> (\<forall>w n bs w'. low_read ctx w n = (Some bs, w') \<longrightarrow> length bs \<le> n)
     \<and> (\<forall>w d n w'. low_write ctx w d = (Some n, w') \<longrightarrow> n \<le> length d)"

text \<open>An engine in order, the same buffers, the same callbacks.\<close>

definition io_keeps :: "('i, 'o, 'w) br_sslio_context \<Rightarrow> ('i, 'o, 'w) br_sslio_context \<Rightarrow> bool" where
  "io_keeps ctx ctx' \<longleftrightarrow> engine_ok (engine ctx') \<and> keeps (engine ctx) (engine ctx')
     \<and> low_read ctx' = low_read ctx \<and> low_write ctx' = low_write ctx"

lemma io_keeps_trans: "io_keeps a b \<Longrightarrow> io_keeps b c \<Longrightarrow> io_keeps a c"
  by (auto simp: io_keeps_def intro: keeps_trans)

lemma io_keeps_transport: "io_keeps a b \<Longrightarrow> transport_ok b = transport_ok a"
  by (simp add: io_keeps_def transport_ok_def)

lemma io_keeps_ok: "io_keeps a b \<Longrightarrow> engine_ok (engine b)"
  by (simp add: io_keeps_def)

lemma io_keeps_refl: "engine_ok (engine a) \<Longrightarrow> io_keeps a a"
  by (simp add: io_keeps_def)

lemma send_record_ok:
  assumes "hs_law hs" "transport_ok ctx" "engine_ok (engine ctx)" "fst (br_ssl_engine_sendrec_buf (engine ctx)) \<noteq> None"
  shows "\<exists>b ctx'. send_record hs ctx = Some (b, ctx') \<and> io_keeps ctx ctx'"
proof -
  let ?e = "engine ctx"
  obtain p n where b: "br_ssl_engine_sendrec_buf ?e = (Some p, n)" using assms(4) by (metis not_None_eq prod.collapse)
  have r: "running ?e" using assms(3,4) by (intro offer_running) (auto simp: engine_bufs)
  have o: "n = oxc ?e - oxa ?e" "sending ?e" "p + n \<le> length (mem ?e)"
    using sendrec_offer [OF r, of p n] b r by (auto simp: engine_bufs running_def bufs_ok_def)
  obtain k w where w: "low_write ctx (io_world ctx) (load p n (mem ?e)) = (k, w)" by fastforce
  show ?thesis
  proof (cases k)
    case None
    then show ?thesis using assms(3) by (auto simp: send_record_def b w io_keeps_def Let_def)
  next
    case (Some j)
    have j: "j \<le> n" using assms(2) w o(3) unfolding transport_ok_def Some by fastforce
    show ?thesis
    proof (cases "0 < j")
      case True
      have "j \<le> oxc ?e - oxa ?e" using j o(1) by simp
      from engine_sendrec_ack_ok [OF assms(1) r o(2) True this] show ?thesis
        using True Some by (auto simp: send_record_def b w io_keeps_def Let_def)
    next
      case False
      then show ?thesis using assms(3) Some by (auto simp: send_record_def b w io_keeps_def Let_def)
    qed
  qed
qed

lemma recv_record_ok:
  assumes "hs_law hs" "transport_ok ctx" "engine_ok (engine ctx)" "fst (br_ssl_engine_recvrec_buf (engine ctx)) \<noteq> None"
  shows "\<exists>b ctx'. recv_record hs ctx = Some (b, ctx') \<and> io_keeps ctx ctx'"
proof -
  let ?e = "engine ctx"
  obtain p n where b: "br_ssl_engine_recvrec_buf ?e = (Some p, n)" using assms(4) by (metis not_None_eq prod.collapse)
  have r: "running ?e" using assms(3,4) by (intro offer_running) (auto simp: engine_bufs)
  have o: "p = the (ibuf ?e) + ixa ?e \<and> 0 < n \<and> n \<le> ixc ?e \<and> ixa ?e + n \<le> ibuf_len ?e \<and> ixa ?e = ixb ?e"
    using b by (intro recvrec_offer r) (simp add: engine_bufs)
  obtain k w where w: "low_read ctx (io_world ctx) n = (k, w)" by fastforce
  show ?thesis
  proof (cases k)
    case None
    then show ?thesis using assms(3) by (auto simp: recv_record_def b w io_keeps_def Let_def)
  next
    case (Some bs)
    have l: "length bs \<le> n" using assms(2) w unfolding transport_ok_def Some by blast
    show ?thesis
    proof (cases "bs = []")
      case True
      then show ?thesis using assms(3) Some by (auto simp: recv_record_def b w io_keeps_def Let_def)
    next
      case False
      let ?c = "?e\<lparr>mem := store p bs (mem ?e)\<rparr>"
      have k: "keeps ?e ?c" "p + length bs \<le> length (mem ?e)" using keeps_store_in [OF r, of p bs] o l by auto
      have "ixa ?c = ixb ?c" "0 < length bs" "length bs \<le> ixc ?c" "ixa ?c + length bs \<le> ibuf_len ?c" using o l False by auto
      from engine_recvrec_ack_ok [OF assms(1) running_store [OF r k(2)] this] show ?thesis
        using False Some keeps_trans [OF k(1)] by (auto simp: recv_record_def b w io_keeps_def Let_def)
    qed
  qed
qed

text \<open>The target is reached, and no record is waiting to be sent.\<close>

definition at_target :: "u32 \<Rightarrow> ('i, 'o) br_ssl_engine_context \<Rightarrow> bool" where
  "at_target target cc \<longleftrightarrow> \<not> br_ssl_engine_closed cc \<and> fst (br_ssl_engine_sendrec_buf cc) = None
     \<and> br_ssl_engine_current_state cc AND target \<noteq> 0"

definition until_ok :: "('i, 'o, 'w) br_sslio_context \<Rightarrow> u32 \<Rightarrow> bool \<times> ('i, 'o, 'w) br_sslio_context \<Rightarrow> bool" where
  "until_ok ctx target r \<longleftrightarrow> io_keeps ctx (snd r) \<and> (fst r \<longrightarrow> at_target target (engine (snd r)))"

lemma until_ok_next: "io_keeps ctx ctx' \<Longrightarrow> until_ok ctx' target r \<Longrightarrow> until_ok ctx target r"
  using io_keeps_trans by (auto simp: until_ok_def)

lemma run_until_ok_aux:
  assumes "run_until hs target ctx = Some r"
  shows "hs_law hs \<longrightarrow> transport_ok ctx \<longrightarrow> engine_ok (engine ctx) \<longrightarrow> until_ok ctx target r"
proof (rule run_until.raw_induct
    [where P = "\<lambda>hs target ctx r. hs_law hs \<longrightarrow> transport_ok ctx \<longrightarrow> engine_ok (engine ctx) \<longrightarrow> until_ok ctx target r", OF _ assms], intro impI)
  fix rec :: "('a, 'b) hs_run \<Rightarrow> u32 \<Rightarrow> ('a, 'b, 'c) br_sslio_context \<Rightarrow> (bool \<times> ('a, 'b, 'c) br_sslio_context) option"
    and hs :: "('a, 'b) hs_run" and target :: u32 and ctx :: "('a, 'b, 'c) br_sslio_context" and r
  assume IH: "\<And>hs target ctx r. rec hs target ctx = Some r
      \<Longrightarrow> hs_law hs \<longrightarrow> transport_ok ctx \<longrightarrow> engine_ok (engine ctx) \<longrightarrow> until_ok ctx target r"
    and eq: "(let state = br_ssl_engine_current_state (engine ctx)
      in if state AND BR_SSL_CLOSED \<noteq> 0 then Some (False, ctx)
         else if state AND BR_SSL_SENDREC \<noteq> 0 then
           Option.bind (send_record hs ctx) (\<lambda>r. if fst r then rec hs target (snd r) else Some r)
         else if state AND target \<noteq> 0 then Some (True, ctx)
         else if state AND BR_SSL_RECVAPP \<noteq> 0 then Some (False, ctx)
         else if state AND BR_SSL_RECVREC \<noteq> 0 then
           Option.bind (recv_record hs ctx) (\<lambda>r. if fst r then rec hs target (snd r) else Some r)
         else rec hs target (ctx\<lparr>engine := br_ssl_engine_flush (engine ctx) False\<rparr>)) = Some r"
    and law: "hs_law hs" "transport_ok ctx" "engine_ok (engine ctx)"
  let ?e = "engine ctx"
  have cont: "until_ok ctx target r" if "Option.bind (Some (b, c)) (\<lambda>r. if fst r then rec hs target (snd r) else Some r) = Some r" "io_keeps ctx c" for b c
  proof (cases b)
    case True
    then have "until_ok c target r" using IH law that io_keeps_transport [OF that(2)] io_keeps_ok [OF that(2)] by simp
    then show ?thesis by (rule until_ok_next [OF that(2)])
  next
    case False
    then show ?thesis using that by (auto simp: until_ok_def)
  qed
  note step = eq [unfolded Let_def current_state_bits]
  consider (closed) "br_ssl_engine_closed ?e" | (send) "\<not> br_ssl_engine_closed ?e" "fst (br_ssl_engine_sendrec_buf ?e) \<noteq> None"
    | (target) "at_target target ?e"
    | (app) "\<not> br_ssl_engine_closed ?e" "fst (br_ssl_engine_sendrec_buf ?e) = None" "br_ssl_engine_current_state ?e AND target = 0"
        "fst (br_ssl_engine_recvapp_buf ?e) \<noteq> None"
    | (recv) "\<not> br_ssl_engine_closed ?e" "fst (br_ssl_engine_sendrec_buf ?e) = None" "br_ssl_engine_current_state ?e AND target = 0"
        "fst (br_ssl_engine_recvapp_buf ?e) = None" "fst (br_ssl_engine_recvrec_buf ?e) \<noteq> None"
    | (flush) "\<not> br_ssl_engine_closed ?e" "fst (br_ssl_engine_sendrec_buf ?e) = None" "br_ssl_engine_current_state ?e AND target = 0"
        "fst (br_ssl_engine_recvapp_buf ?e) = None" "fst (br_ssl_engine_recvrec_buf ?e) = None"
    unfolding at_target_def by metis
  then show "until_ok ctx target r"
  proof cases
    case closed
    then show ?thesis using step law by (auto simp: until_ok_def io_keeps_refl)
  next
    case send
    then obtain b c where s: "send_record hs ctx = Some (b, c)" "io_keeps ctx c" using send_record_ok [of hs ctx] law by blast
    then show ?thesis using step send by (intro cont) auto
  next
    case target
    then show ?thesis using step law by (auto simp: until_ok_def io_keeps_refl at_target_def)
  next
    case app
    then show ?thesis using step law by (auto simp: until_ok_def io_keeps_refl)
  next
    case recv
    then obtain b c where s: "recv_record hs ctx = Some (b, c)" "io_keeps ctx c" using recv_record_ok [of hs ctx] law by blast
    then show ?thesis using step recv by (intro cont) auto
  next
    case flush
    let ?c = "ctx\<lparr>engine := br_ssl_engine_flush ?e False\<rparr>"
    have k: "io_keeps ctx ?c" using engine_flush_ok [of ?e False] law by (simp add: io_keeps_def)
    have "rec hs target ?c = Some r" using step flush by auto
    then have "until_ok ?c target r" using IH law io_keeps_transport [OF k] io_keeps_ok [OF k] by simp
    then show ?thesis by (rule until_ok_next [OF k])
  qed
qed

lemma run_until_ok:
  assumes "run_until hs target ctx = Some r" "hs_law hs" "transport_ok ctx" "engine_ok (engine ctx)"
  shows "until_ok ctx target r"
  using run_until_ok_aux [OF assms(1)] assms(2-4) by blast

subsection \<open>The calls of the agent\<close>

lemma io_keeps_engine: "engine_ok e \<Longrightarrow> keeps (engine ctx) e \<Longrightarrow> io_keeps ctx (ctx\<lparr>engine := e\<rparr>)"
  by (simp add: io_keeps_def)

lemma at_target_app:
  assumes "at_target BR_SSL_RECVAPP cc"
  shows "\<exists>p n. br_ssl_engine_recvapp_buf cc = (Some p, n)"
  using assms unfolding at_target_def current_state_bits by (metis not_None_eq prod.collapse)

lemma at_target_send:
  assumes "at_target BR_SSL_SENDAPP cc"
  shows "\<exists>p n. br_ssl_engine_sendapp_buf cc = (Some p, n)"
  using assms unfolding at_target_def current_state_bits by (metis not_None_eq prod.collapse)

lemma read_ok:
  assumes "br_sslio_read hs ctx len = Some (r, ctx')" "hs_law hs" "transport_ok ctx" "engine_ok (engine ctx)"
  shows "io_keeps ctx ctx' \<and> (\<forall>d. r = Some d \<longrightarrow> length d \<le> len \<and> (0 < len \<longrightarrow> d \<noteq> []))"
proof (cases "len = 0")
  case True
  then show ?thesis using assms by (auto simp: br_sslio_read_def io_keeps_refl)
next
  case False
  then obtain ok c where u: "run_until hs BR_SSL_RECVAPP ctx = Some (ok, c)" using assms(1) by (auto simp: br_sslio_read_def bind_eq_Some_conv)
  have k: "io_keeps ctx c" "ok \<Longrightarrow> at_target BR_SSL_RECVAPP (engine c)" using run_until_ok [OF u assms(2-4)] by (simp_all add: until_ok_def)
  show ?thesis
  proof (cases ok)
    case True
    obtain p n where b: "br_ssl_engine_recvapp_buf (engine c) = (Some p, n)" using at_target_app k(2) True by blast
    then have b': "recvpld_buf (engine c) = (Some p, n)" by (simp add: br_ssl_engine_recvapp_buf_def split: if_splits)
    have run: "running (engine c)" using io_keeps_ok [OF k(1)] b' by (intro offer_running) auto
    have o: "p = the (ibuf (engine c)) + ixa (engine c) \<and> n = ixb (engine c) - ixa (engine c) \<and> 0 < n \<and> ixb (engine c) \<le> ibuf_len (engine c)
        \<and> data_phase (engine c)"
      by (rule recvpld_offer [OF run b'])
    let ?a = "if len < n then len else n"
    have "running (recvpld_ack (engine c) ?a) \<and> keeps (engine c) (recvpld_ack (engine c) ?a)"
      using recvpld_ack_running [OF run, of ?a] o by auto
    then have "io_keeps c (c\<lparr>engine := br_ssl_engine_recvapp_ack (engine c) ?a\<rparr>)"
      by (simp add: io_keeps_def engine_ok_def br_ssl_engine_recvapp_ack_def)
    moreover have "p + n \<le> length (mem (engine c))" using o run by (auto simp: running_def bufs_ok_def)
    moreover have "r = Some (load p ?a (mem (engine c)))" "ctx' = c\<lparr>engine := br_ssl_engine_recvapp_ack (engine c) ?a\<rparr>"
      using assms(1) False u True b by (simp_all add: br_sslio_read_def Let_def)
    ultimately show ?thesis using io_keeps_trans [OF k(1)] o False by (auto simp: load_def)
  next
    case False
    then show ?thesis using assms(1) \<open>len \<noteq> 0\<close> u k(1) by (auto simp: br_sslio_read_def)
  qed
qed

lemma write_ok:
  assumes "br_sslio_write hs ctx src = Some (r, ctx')" "hs_law hs" "transport_ok ctx" "engine_ok (engine ctx)"
  shows "io_keeps ctx ctx' \<and> (\<forall>n. r = Some n \<longrightarrow> n \<le> length src \<and> (src \<noteq> [] \<longrightarrow> 0 < n))"
proof (cases "src = []")
  case True
  then show ?thesis using assms by (auto simp: br_sslio_write_def io_keeps_refl)
next
  case False
  then obtain ok c where u: "run_until hs BR_SSL_SENDAPP ctx = Some (ok, c)" using assms(1) by (auto simp: br_sslio_write_def bind_eq_Some_conv)
  have k: "io_keeps ctx c" "ok \<Longrightarrow> at_target BR_SSL_SENDAPP (engine c)" using run_until_ok [OF u assms(2-4)] by (simp_all add: until_ok_def)
  show ?thesis
  proof (cases ok)
    case True
    let ?e = "engine c"
    obtain p n where b: "br_ssl_engine_sendapp_buf ?e = (Some p, n)" using at_target_send k(2) True by blast
    then have b': "sendpld_buf ?e = (Some p, n)" by (simp add: br_ssl_engine_sendapp_buf_def split: if_splits)
    have run: "running ?e" using io_keeps_ok [OF k(1)] b' by (intro offer_running) auto
    have o: "p = the (obuf ?e) + oxa ?e \<and> n = oxb ?e - oxa ?e \<and> 0 < n \<and> oxb ?e \<le> obuf_len ?e \<and> filling ?e"
      by (rule sendpld_offer [OF run b'])
    let ?a = "if length src < n then length src else n"
    let ?bs = "take ?a src"
    let ?c = "?e\<lparr>mem := store p ?bs (mem ?e)\<rparr>"
    have l: "length ?bs = ?a" "?a \<le> n" by simp_all
    have s: "keeps ?e ?c" "p + length ?bs \<le> length (mem ?e)" using keeps_store_out [OF run, of p ?bs] o l by auto
    have "filling ?c" "?a \<le> oxb ?c - oxa ?c" using o l(2) by (simp_all add: filling_def window_def)
    from sendpld_ack_running [OF running_store [OF run s(2)] this] have "engine_ok (br_ssl_engine_sendapp_ack ?c ?a) \<and> keeps ?e (br_ssl_engine_sendapp_ack ?c ?a)"
      using keeps_trans [OF s(1)] by (auto simp: engine_ok_def br_ssl_engine_sendapp_ack_def)
    then have "io_keeps c (c\<lparr>engine := br_ssl_engine_sendapp_ack ?c ?a\<rparr>)" by (simp add: io_keeps_def)
    moreover have "r = Some ?a" "ctx' = c\<lparr>engine := br_ssl_engine_sendapp_ack ?c ?a\<rparr>"
      using assms(1) False u True b by (simp_all add: br_sslio_write_def Let_def)
    ultimately show ?thesis using io_keeps_trans [OF k(1)] o False by auto
  next
    case False
    then show ?thesis using assms(1) \<open>src \<noteq> []\<close> u k(1) by (auto simp: br_sslio_write_def)
  qed
qed

lemma read_all_ok_aux:
  assumes "br_sslio_read_all hs ctx len buf = Some r"
  shows "hs_law hs \<longrightarrow> transport_ok ctx \<longrightarrow> engine_ok (engine ctx) \<longrightarrow>
    io_keeps ctx (snd r) \<and> (\<forall>d. fst r = Some d \<longrightarrow> length d = length buf + len)"
proof (rule br_sslio_read_all.raw_induct
    [where P = "\<lambda>hs ctx len buf r. hs_law hs \<longrightarrow> transport_ok ctx \<longrightarrow> engine_ok (engine ctx) \<longrightarrow>
       io_keeps ctx (snd r) \<and> (\<forall>d. fst r = Some d \<longrightarrow> length d = length buf + len)", OF _ assms], intro impI)
  fix rec :: "('a, 'b) hs_run \<Rightarrow> ('a, 'b, 'c) br_sslio_context \<Rightarrow> nat \<Rightarrow> u8 list \<Rightarrow> (u8 list option \<times> ('a, 'b, 'c) br_sslio_context) option"
    and hs :: "('a, 'b) hs_run" and ctx :: "('a, 'b, 'c) br_sslio_context" and len :: nat and buf :: "u8 list" and r
  assume IH: "\<And>hs ctx len buf r. rec hs ctx len buf = Some r \<Longrightarrow> hs_law hs \<longrightarrow> transport_ok ctx \<longrightarrow> engine_ok (engine ctx) \<longrightarrow>
      io_keeps ctx (snd r) \<and> (\<forall>d. fst r = Some d \<longrightarrow> length d = length buf + len)"
    and eq: "(if len = 0 then Some (Some buf, ctx)
      else Option.bind (br_sslio_read hs ctx len) (\<lambda>r.
        if fst r = None then Some (None, snd r)
        else rec hs (snd r) (len - length (the (fst r))) (buf @ the (fst r)))) = Some r"
    and law: "hs_law hs" "transport_ok ctx" "engine_ok (engine ctx)"
  show "io_keeps ctx (snd r) \<and> (\<forall>d. fst r = Some d \<longrightarrow> length d = length buf + len)"
  proof (cases "len = 0")
    case True
    then show ?thesis using eq law by (auto simp: io_keeps_refl)
  next
    case False
    then obtain d c where rd: "br_sslio_read hs ctx len = Some (d, c)" using eq by (auto simp: bind_eq_Some_conv)
    note k = read_ok [OF rd law]
    show ?thesis
    proof (cases d)
      case None
      then show ?thesis using eq False rd k by auto
    next
      case (Some x)
      then have "rec hs c (len - length x) (buf @ x) = Some r" using eq False rd by simp
      from IH [OF this] have "io_keeps c (snd r) \<and> (\<forall>d. fst r = Some d \<longrightarrow> length d = length (buf @ x) + (len - length x))"
        using law io_keeps_ok [of ctx c] io_keeps_transport [of ctx c] k by blast
      then show ?thesis using k Some io_keeps_trans [of ctx c "snd r"] by auto
    qed
  qed
qed

lemma write_all_ok_aux:
  assumes "br_sslio_write_all hs ctx src = Some r"
  shows "hs_law hs \<longrightarrow> transport_ok ctx \<longrightarrow> engine_ok (engine ctx) \<longrightarrow> io_keeps ctx (snd r)"
proof (rule br_sslio_write_all.raw_induct
    [where P = "\<lambda>hs ctx src r. hs_law hs \<longrightarrow> transport_ok ctx \<longrightarrow> engine_ok (engine ctx) \<longrightarrow> io_keeps ctx (snd r)", OF _ assms], intro impI)
  fix rec :: "('a, 'b) hs_run \<Rightarrow> ('a, 'b, 'c) br_sslio_context \<Rightarrow> u8 list \<Rightarrow> (bool \<times> ('a, 'b, 'c) br_sslio_context) option"
    and hs :: "('a, 'b) hs_run" and ctx :: "('a, 'b, 'c) br_sslio_context" and src :: "u8 list" and r
  assume IH: "\<And>hs ctx src r. rec hs ctx src = Some r \<Longrightarrow> hs_law hs \<longrightarrow> transport_ok ctx \<longrightarrow> engine_ok (engine ctx) \<longrightarrow> io_keeps ctx (snd r)"
    and eq: "(if src = [] then Some (True, ctx)
      else Option.bind (br_sslio_write hs ctx src) (\<lambda>r.
        if fst r = None then Some (False, snd r) else rec hs (snd r) (drop (the (fst r)) src))) = Some r"
    and law: "hs_law hs" "transport_ok ctx" "engine_ok (engine ctx)"
  show "io_keeps ctx (snd r)"
  proof (cases "src = []")
    case True
    then show ?thesis using eq law by (auto simp: io_keeps_refl)
  next
    case False
    then obtain n c where wr: "br_sslio_write hs ctx src = Some (n, c)" using eq by (auto simp: bind_eq_Some_conv)
    note k = conjunct1 [OF write_ok [OF wr law]]
    show ?thesis
    proof (cases n)
      case None
      then show ?thesis using eq False wr k by auto
    next
      case (Some x)
      then have "rec hs c (drop x src) = Some r" using eq False wr by simp
      from IH [OF this] have "io_keeps c (snd r)"
        using law io_keeps_ok [OF k] io_keeps_transport [OF k] by blast
      then show ?thesis by (rule io_keeps_trans [OF k])
    qed
  qed
qed

lemma discard_app_ok:
  assumes "engine_ok (engine ctx)"
  shows "io_keeps ctx (discard_app ctx)"
proof (cases "br_ssl_engine_recvapp_buf (engine ctx)")
  case (Pair b n)
  show ?thesis
  proof (cases b)
    case None
    then show ?thesis using Pair assms by (simp add: discard_app_def io_keeps_refl)
  next
    case (Some p)
    then have b': "recvpld_buf (engine ctx) = (Some p, n)" using Pair by (simp add: br_ssl_engine_recvapp_buf_def split: if_splits)
    have run: "running (engine ctx)" using assms b' by (intro offer_running) auto
    show ?thesis using recvpld_offer [OF run b'] recvpld_ack_running [OF run, of n] Pair Some
      by (auto simp: discard_app_def io_keeps_def engine_ok_def br_ssl_engine_recvapp_ack_def)
  qed
qed

lemma close_loop_ok_aux:
  assumes "close_loop hs ctx = Some c"
  shows "hs_law hs \<longrightarrow> transport_ok ctx \<longrightarrow> engine_ok (engine ctx) \<longrightarrow> io_keeps ctx c \<and> br_ssl_engine_closed (engine c)"
proof (rule close_loop.raw_induct
    [where P = "\<lambda>hs ctx c. hs_law hs \<longrightarrow> transport_ok ctx \<longrightarrow> engine_ok (engine ctx) \<longrightarrow> io_keeps ctx c \<and> br_ssl_engine_closed (engine c)",
      OF _ assms], intro impI)
  fix rec :: "('a, 'b) hs_run \<Rightarrow> ('a, 'b, 'c) br_sslio_context \<Rightarrow> ('a, 'b, 'c) br_sslio_context option"
    and hs :: "('a, 'b) hs_run" and ctx c :: "('a, 'b, 'c) br_sslio_context"
  assume IH: "\<And>hs ctx c. rec hs ctx = Some c \<Longrightarrow> hs_law hs \<longrightarrow> transport_ok ctx \<longrightarrow> engine_ok (engine ctx)
      \<longrightarrow> io_keeps ctx c \<and> br_ssl_engine_closed (engine c)"
    and eq: "(if br_ssl_engine_current_state (engine ctx) = BR_SSL_CLOSED then Some ctx
      else Option.bind (run_until hs BR_SSL_RECVAPP ctx) (\<lambda>r. rec hs (discard_app (snd r)))) = Some c"
    and law: "hs_law hs" "transport_ok ctx" "engine_ok (engine ctx)"
  show "io_keeps ctx c \<and> br_ssl_engine_closed (engine c)"
  proof (cases "br_ssl_engine_closed (engine ctx)")
    case True
    then show ?thesis using eq law by (auto simp: current_state_bits io_keeps_refl)
  next
    case False
    then obtain r where r: "run_until hs BR_SSL_RECVAPP ctx = Some r" "rec hs (discard_app (snd r)) = Some c"
      using eq by (auto simp: current_state_bits bind_eq_Some_conv)
    have "io_keeps ctx (snd r)" using run_until_ok [OF r(1) law] by (simp add: until_ok_def)
    then have k: "io_keeps ctx (discard_app (snd r))" using discard_app_ok io_keeps_ok io_keeps_trans by blast
    from IH [OF r(2)] have "io_keeps (discard_app (snd r)) c \<and> br_ssl_engine_closed (engine c)"
      using law io_keeps_ok [OF k] io_keeps_transport [OF k] by blast
    then show ?thesis using io_keeps_trans [OF k] by blast
  qed
qed

text \<open>A program's calls, and what is promised of their results and of the engine after them.\<close>

datatype io_call = Read nat | Read_all nat | Write "u8 list" | Write_all "u8 list" | Flush | Close

datatype io_result = Data "u8 list option" | Count "nat option" | Done bool

fun do_call :: "('i, 'o) hs_run \<Rightarrow> ('i, 'o, 'w) br_sslio_context \<Rightarrow> io_call \<Rightarrow> (io_result \<times> ('i, 'o, 'w) br_sslio_context) option" where
  "do_call hs ctx (Read n) = map_option (apfst Data) (br_sslio_read hs ctx n)"
| "do_call hs ctx (Read_all n) = map_option (apfst Data) (br_sslio_read_all hs ctx n [])"
| "do_call hs ctx (Write src) = map_option (apfst Count) (br_sslio_write hs ctx src)"
| "do_call hs ctx (Write_all src) = map_option (apfst Done) (br_sslio_write_all hs ctx src)"
| "do_call hs ctx Flush = map_option (apfst Done) (br_sslio_flush hs ctx)"
| "do_call hs ctx Close = map_option (apfst Done) (br_sslio_close hs ctx)"

fun result_ok :: "io_call \<Rightarrow> io_result \<Rightarrow> ('i, 'o) br_ssl_engine_context \<Rightarrow> bool" where
  "result_ok (Read n) (Data r) e = (\<forall>d. r = Some d \<longrightarrow> length d \<le> n \<and> (0 < n \<longrightarrow> d \<noteq> []))"
| "result_ok (Read_all n) (Data r) e = (\<forall>d. r = Some d \<longrightarrow> length d = n)"
| "result_ok (Write s) (Count r) e = (\<forall>n. r = Some n \<longrightarrow> n \<le> length s \<and> (s \<noteq> [] \<longrightarrow> 0 < n))"
| "result_ok (Write_all s) (Done b) e = True"
| "result_ok Flush (Done b) e = (b \<longrightarrow> \<not> br_ssl_engine_closed e \<and> fst (br_ssl_engine_sendrec_buf e) = None)"
| "result_ok Close (Done b) e = (br_ssl_engine_closed e \<and> b = (err e = BR_ERR_OK))"
| "result_ok _ _ _ = False"

text \<open>The engine after each call is recorded with its result.\<close>

fun io_calls :: "('i, 'o) hs_run \<Rightarrow> ('i, 'o, 'w) br_sslio_context \<Rightarrow> io_call list
    \<Rightarrow> ((io_call \<times> io_result \<times> ('i, 'o) br_ssl_engine_context) list \<times> ('i, 'o, 'w) br_sslio_context) option" where
  "io_calls hs ctx [] = Some ([], ctx)"
| "io_calls hs ctx (c # cs) = Option.bind (do_call hs ctx c) (\<lambda>(r, ctx).
     Option.bind (io_calls hs ctx cs) (\<lambda>(rs, ctx'). Some ((c, r, engine ctx) # rs, ctx')))"

lemma do_call_ok:
  assumes "do_call hs ctx c = Some (r, ctx')" "hs_law hs" "transport_ok ctx" "engine_ok (engine ctx)"
  shows "io_keeps ctx ctx' \<and> result_ok c r (engine ctx')"
proof (cases c)
  case (Read n)
  then show ?thesis using assms read_ok [of hs ctx n] by auto
next
  case (Read_all n)
  then show ?thesis using assms read_all_ok_aux [of hs ctx n "[]"] by auto
next
  case (Write s)
  then show ?thesis using assms write_ok [of hs ctx s] by auto
next
  case (Write_all s)
  then show ?thesis using assms write_all_ok_aux [of hs ctx s] by auto
next
  case Flush
  let ?c = "ctx\<lparr>engine := br_ssl_engine_flush (engine ctx) False\<rparr>"
  have k: "io_keeps ctx ?c" using engine_flush_ok [OF assms(4)] by (simp add: io_keeps_def)
  obtain b where b: "run_until hs (BR_SSL_SENDAPP OR BR_SSL_RECVAPP) ?c = Some (b, ctx')" "r = Done b"
    using assms(1) Flush by (auto simp: br_sslio_flush_def)
  have "until_ok ?c (BR_SSL_SENDAPP OR BR_SSL_RECVAPP) (b, ctx')"
    by (rule run_until_ok [OF b(1) assms(2)]) (use assms(3) io_keeps_transport [OF k] io_keeps_ok [OF k] in simp_all)
  then show ?thesis using io_keeps_trans [OF k] Flush b(2) by (auto simp: until_ok_def at_target_def)
next
  case Close
  then obtain e where e: "br_ssl_engine_close hs (engine ctx) = Some e" "close_loop hs (ctx\<lparr>engine := e\<rparr>) = Some ctx'"
      "r = Done (err (engine ctx') = BR_ERR_OK)"
    using assms(1) by (auto simp: br_sslio_close_def bind_eq_Some_conv br_ssl_engine_last_error_def)
  have k: "io_keeps ctx (ctx\<lparr>engine := e\<rparr>)" using engine_close_ok [OF assms(2,4)] e(1) by (auto simp: io_keeps_def)
  have "io_keeps (ctx\<lparr>engine := e\<rparr>) ctx' \<and> br_ssl_engine_closed (engine ctx')"
    using close_loop_ok_aux [OF e(2)] assms(2,3) io_keeps_ok [OF k] io_keeps_transport [OF k] by blast
  then show ?thesis using io_keeps_trans [OF k] Close e(3) by auto
qed

lemma io_calls_ok:
  assumes "io_calls hs ctx cs = Some (rs, ctx')" "hs_law hs" "transport_ok ctx" "engine_ok (engine ctx)"
  shows "io_keeps ctx ctx' \<and> map fst rs = cs \<and> (\<forall>(c, r, e) \<in> set rs. result_ok c r e)"
  using assms
proof (induction cs arbitrary: ctx rs)
  case Nil
  then show ?case by (simp add: io_keeps_refl)
next
  case (Cons c cs)
  from Cons.prems(1) obtain r ctx1 rs1 where c: "do_call hs ctx c = Some (r, ctx1)" "io_calls hs ctx1 cs = Some (rs1, ctx')" "rs = (c, r, engine ctx1) # rs1"
    by (auto simp: bind_eq_Some_conv)
  note k = do_call_ok [OF c(1) Cons.prems(2-4)]
  have "transport_ok ctx1" "engine_ok (engine ctx1)" using k Cons.prems(3) io_keeps_transport [of ctx ctx1] io_keeps_ok [of ctx ctx1] by simp_all
  from Cons.IH [OF c(2) Cons.prems(2) this] k show ?case using c(3) io_keeps_trans [of ctx ctx1 ctx'] by auto
qed


subsection \<open>Closing a broken connection\<close>

text \<open>A record waits, the connection takes nothing.\<close>

definition write_stuck :: "('i, 'o, 'w) br_sslio_context \<Rightarrow> bool" where
  "write_stuck ctx \<longleftrightarrow> (\<forall>w d. fst (low_write ctx w d) = None) \<and> \<not> br_ssl_engine_closed (engine ctx)
     \<and> fst (br_ssl_engine_sendrec_buf (engine ctx)) \<noteq> None \<and> fst (br_ssl_engine_recvapp_buf (engine ctx)) = None"

lemma stuck_run:
  assumes "write_stuck ctx"
  shows "\<exists>w. run_until hs target ctx = Some (False, (if shutdown_recv (engine ctx) then ctx\<lparr>io_world := w\<rparr>
    else ctx\<lparr>io_world := w, engine := br_ssl_engine_fail (engine ctx) BR_ERR_IO\<rparr>))"
proof -
  obtain p n where b: "br_ssl_engine_sendrec_buf (engine ctx) = (p, n)" by fastforce
  obtain w where w: "low_write ctx (io_world ctx) (load (the p) n (mem (engine ctx))) = (None, w)"
    using assms unfolding write_stuck_def by (metis prod.collapse)
  have "send_record hs ctx = Some (False, (if shutdown_recv (engine ctx) then ctx\<lparr>io_world := w\<rparr>
      else ctx\<lparr>io_world := w, engine := br_ssl_engine_fail (engine ctx) BR_ERR_IO\<rparr>))"
    by (simp add: send_record_def b w Let_def)
  then show ?thesis using assms by (subst run_until.simps) (auto simp: Let_def current_state_bits write_stuck_def)
qed

lemma stuck_discard:
  assumes "write_stuck ctx"
  shows "discard_app (ctx\<lparr>io_world := w\<rparr>) = ctx\<lparr>io_world := w\<rparr>" "write_stuck (ctx\<lparr>io_world := w\<rparr>)"
  using assms by (auto simp: discard_app_def write_stuck_def case_prod_unfold)

lemma close_loop_stuck:
  assumes "close_loop hs ctx = Some c"
  shows "write_stuck ctx \<and> shutdown_recv (engine ctx) \<longrightarrow> False"
proof (rule close_loop.raw_induct
    [where P = "\<lambda>hs ctx c. write_stuck ctx \<and> shutdown_recv (engine ctx) \<longrightarrow> False", OF _ assms], intro impI, elim conjE)
  fix rec :: "('a, 'b) hs_run \<Rightarrow> ('a, 'b, 'c) br_sslio_context \<Rightarrow> ('a, 'b, 'c) br_sslio_context option"
    and hs :: "('a, 'b) hs_run" and ctx c :: "('a, 'b, 'c) br_sslio_context"
  assume IH: "\<And>hs ctx c. rec hs ctx = Some c \<Longrightarrow> write_stuck ctx \<and> shutdown_recv (engine ctx) \<longrightarrow> False"
    and eq: "(if br_ssl_engine_current_state (engine ctx) = BR_SSL_CLOSED then Some ctx
      else Option.bind (run_until hs BR_SSL_RECVAPP ctx) (\<lambda>r. rec hs (discard_app (snd r)))) = Some c"
    and s: "write_stuck ctx" "shutdown_recv (engine ctx)"
  obtain w where "run_until hs BR_SSL_RECVAPP ctx = Some (False, ctx\<lparr>io_world := w\<rparr>)" using stuck_run [OF s(1)] s(2) by fastforce
  moreover have "\<not> br_ssl_engine_closed (engine ctx)" using s(1) by (simp add: write_stuck_def)
  ultimately have "rec hs (ctx\<lparr>io_world := w\<rparr>) = Some c" using eq stuck_discard(1) [OF s(1)] by (simp add: current_state_bits)
  from IH [OF this] show False using stuck_discard(2) [OF s(1), of w] s(2) by simp
qed

text \<open>\<^bold>\<open>C38\<close>: closing when the connection no longer takes bytes and the engine has a record (its \<^verbatim>\<open>close_notify\<close>) to send: if the
  peer's \<^verbatim>\<open>close_notify\<close> has been received, \<open>br_sslio_close\<close> never returns, since \<open>run_until\<close> then leaves the engine as it is and the
  loop waits for it to be closed; if it has not been received, \<open>br_sslio_close\<close> returns with an error.\<close>

theorem sslio_close_hangs:
  assumes "br_ssl_engine_close hs (engine ctx) = Some e" "write_stuck (ctx\<lparr>engine := e\<rparr>)"
  shows "if shutdown_recv e then br_sslio_close hs ctx = None else \<exists>ctx'. br_sslio_close hs ctx = Some (False, ctx')"
proof (cases "shutdown_recv e")
  case True
  have "close_loop hs (ctx\<lparr>engine := e\<rparr>) = None"
    using close_loop_stuck [of hs "ctx\<lparr>engine := e\<rparr>"] assms(2) True by fastforce
  then show ?thesis using assms(1) True by (simp add: br_sslio_close_def)
next
  case False
  have nc: "\<not> br_ssl_engine_closed e" using assms(2) by (simp add: write_stuck_def)
  obtain w where r: "run_until hs BR_SSL_RECVAPP (ctx\<lparr>engine := e\<rparr>) = Some (False, ctx\<lparr>io_world := w, engine := br_ssl_engine_fail e BR_ERR_IO\<rparr>)"
    using stuck_run [OF assms(2), of hs BR_SSL_RECVAPP] False by auto
  let ?f = "br_ssl_engine_fail e BR_ERR_IO"
  have f: "br_ssl_engine_closed ?f" "err ?f = BR_ERR_IO" using nc by (simp_all add: br_ssl_engine_fail_def br_ssl_engine_closed_def)
  have "fst (br_ssl_engine_recvapp_buf ?f) = None" using closed_offers(2) [OF f(1)] by (auto simp: br_ssl_engine_recvapp_buf_def)
  then have d: "discard_app (ctx\<lparr>io_world := w, engine := ?f\<rparr>) = ctx\<lparr>io_world := w, engine := ?f\<rparr>" by (simp add: discard_app_def case_prod_unfold)
  have "close_loop hs (ctx\<lparr>io_world := w, engine := ?f\<rparr>) = Some (ctx\<lparr>io_world := w, engine := ?f\<rparr>)"
    by (subst close_loop.simps) (simp add: current_state_bits f)
  then have "close_loop hs (ctx\<lparr>engine := e\<rparr>) = Some (ctx\<lparr>io_world := w, engine := ?f\<rparr>)"
    by (subst close_loop.simps) (simp add: current_state_bits nc r d)
  then show ?thesis using assms(1) False f by (simp add: br_sslio_close_def br_ssl_engine_last_error_def BR_ERR_IO_def BR_ERR_OK_def)
qed

definition closing_engine :: "(unit, unit) br_ssl_engine_context" where
  "closing_engine = (blank_engine 1434)\<lparr>iomode := BR_IO_INOUT, ibuf := Some 0, ibuf_len := 837, obuf := Some 837, obuf_len := 597,
     max_frag_len := 512, ixc := 5, oxa := 5, oxb := 5, oxc := 36, record_type_out := BR_SSL_ALERT, shutdown_recv := True\<rparr>"

definition broken_io :: "(unit, unit, unit) br_sslio_context" where
  "broken_io = br_sslio_init closing_engine (\<lambda>w n. (None, w)) (\<lambda>w d. (None, w)) ()"

theorem sslio_close_hangs_witness:
  "br_sslio_close (\<lambda>cc. cc\<lparr>hbuf_out := saved_hbuf_out cc\<rparr>) broken_io = None"
proof -
  let ?hs = "\<lambda>cc :: (unit, unit) br_ssl_engine_context. cc\<lparr>hbuf_out := saved_hbuf_out cc\<rparr>"
  obtain e where e: "br_ssl_engine_close ?hs closing_engine = Some e" "\<not> br_ssl_engine_closed e" "shutdown_recv e"
      "fst (br_ssl_engine_sendrec_buf e) \<noteq> None" "fst (br_ssl_engine_recvapp_buf e) = None"
    by (simp add: br_ssl_engine_close_def jump_handshake.simps closing_engine_def blank_engine_def br_ssl_engine_closed_def offer_def
        take_out_def Let_def recvpld_buf_def sendpld_buf_def sendrec_buf_def br_ssl_engine_sendrec_buf_def br_ssl_engine_recvapp_buf_def)
  then have "write_stuck (broken_io\<lparr>engine := e\<rparr>)" by (simp add: write_stuck_def broken_io_def br_sslio_init_def)
  then show ?thesis using sslio_close_hangs [of ?hs broken_io e] e by (simp add: broken_io_def br_sslio_init_def)
qed

definition quiet_io :: "(unit, unit, unit) br_sslio_context" where
  "quiet_io = br_sslio_init (br_ssl_engine_set_buffer (blank_engine 900) (Some 10) 837 False) (\<lambda>w n. (None, w)) (\<lambda>w d. (Some 0, w)) ()"


end
