(* ===== verification/I31.thy ===== *)
theory I31
  imports CtWords BrCodec
begin

section \<open>Big integers of 31-bit words (bearssl/src/int/i31_*.c)\<close>

text \<open>
  An integer is an array of 32-bit words.  Word 0 is the header: the bit length, encoded as \<open>32 * k + b\<close> for \<open>k\<close> full
  words and \<open>b\<close> bits more, so that \<open>(x[0] + 31) >> 5\<close> words follow; each holds 31 bits, the least significant word
  first.  An operation that writes to an array returns the array updated; arrays that the code keeps apart are separate
  lists, and a loop over the words is a \<^const>\<open>fold\<close> over the indices.
\<close>

unbundle bit_operations_syntax

text \<open>The number of words that an encoded bit length announces.\<close>

definition words31 :: "u32 \<Rightarrow> nat" where
  "words31 b = unat (drop_bit 5 (b + 31))"

subsection \<open>Division of 64 bits by 32 (i32_div32.c, inner.h)\<close>

text \<open>The quotient and the remainder.\<close>

definition div_step :: "u32 \<Rightarrow> nat \<Rightarrow> u32 \<times> u32 \<times> u32 \<Rightarrow> u32 \<times> u32 \<times> u32" where
  "div_step d k = (\<lambda>(q, hi, lo).
     let j = 32 - k;
         w = push_bit j hi OR drop_bit k lo;
         ctl = GE w d OR drop_bit k hi;
         hi2 = drop_bit j (w - d);
         lo2 = lo - push_bit k d;
         hi = MUX ctl hi2 hi;
         lo = MUX ctl lo2 lo
     in (q OR push_bit k ctl, hi, lo))"

definition br_divrem :: "u32 \<Rightarrow> u32 \<Rightarrow> u32 \<Rightarrow> u32 \<times> u32" where
  "br_divrem hi lo d =
     (let ch = EQ hi d;
          hi = MUX ch 0 hi;
          (q, hi, lo) = fold (div_step d) (rev [1..<32]) (0, hi, lo);
          cf = GE lo d OR hi
      in (q OR cf, MUX cf (lo - d) lo))"

definition br_rem :: "u32 \<Rightarrow> u32 \<Rightarrow> u32 \<Rightarrow> u32" where
  "br_rem hi lo d = snd (br_divrem hi lo d)"

definition br_div :: "u32 \<Rightarrow> u32 \<Rightarrow> u32 \<Rightarrow> u32" where
  "br_div hi lo d = fst (br_divrem hi lo d)"

subsection \<open>Length, zero, addition and subtraction\<close>

text \<open>The array has no header here.\<close>

definition br_i31_bit_length :: "u32 list \<Rightarrow> nat \<Rightarrow> u32" where
  "br_i31_bit_length x xlen =
     (let (tw, twk) =
        fold (\<lambda>k (tw, twk).
          let c = EQ tw 0;
              w = x ! k
          in (MUX c w tw, MUX c (of_nat k) twk)) (rev [0..<xlen]) (0, 0)
      in push_bit 5 twk + BIT_LENGTH tw)"

definition br_i31_zero :: "u32 list \<Rightarrow> u32 \<Rightarrow> u32 list" where
  "br_i31_zero x bl = (bl # replicate (words31 bl) 0) @ drop (words31 bl + 1) x"

definition br_i31_iszero :: "u32 list \<Rightarrow> u32" where
  "br_i31_iszero x =
     (let z = fold (\<lambda>u z. z OR x ! u) (rev [1..<words31 (x ! 0) + 1]) 0
      in drop_bit 31 (NOT (z OR - z)))"

text \<open>The carry and the array.\<close>

definition br_i31_add :: "u32 list \<Rightarrow> u32 list \<Rightarrow> u32 \<Rightarrow> u32 \<times> u32 list" where
  "br_i31_add a b ctl =
     (let m = unat (drop_bit 5 (a ! 0 + 63))
      in fold (\<lambda>u (cc, a).
           let aw = a ! u;
               bw = b ! u;
               naw = aw + bw + cc
           in (drop_bit 31 naw, a[u := MUX ctl (naw AND 0x7FFFFFFF) aw])) [1..<m] (0, a))"

definition br_i31_sub :: "u32 list \<Rightarrow> u32 list \<Rightarrow> u32 \<Rightarrow> u32 \<times> u32 list" where
  "br_i31_sub a b ctl =
     (let m = unat (drop_bit 5 (a ! 0 + 63))
      in fold (\<lambda>u (cc, a).
           let aw = a ! u;
               bw = b ! u;
               naw = aw - bw - cc
           in (drop_bit 31 naw, a[u := MUX ctl (naw AND 0x7FFFFFFF) aw])) [1..<m] (0, a))"

definition br_i31_rshift :: "u32 list \<Rightarrow> nat \<Rightarrow> u32 list" where
  "br_i31_rshift x count =
     (let len = words31 (x ! 0)
      in if len = 0 then x
         else
           let (r, x) =
             fold (\<lambda>u (r, x).
               let w = x ! u
               in (drop_bit count w, x[u - 1 := (push_bit (31 - count) w OR r) AND 0x7FFFFFFF]))
               [2..<len + 1] (drop_bit count (x ! 1), x)
           in x[len := r])"

subsection \<open>Multiplication by a word and reduction (i31_muladd.c)\<close>

definition memmove_up :: "u32 list \<Rightarrow> nat \<Rightarrow> u32 list" where
  "memmove_up x mlen = take 2 x @ take (mlen - 1) (drop 1 x) @ drop (mlen + 1) x"

text \<open>One word of the subtraction of \<open>q\<close> times the modulus.\<close>

definition muladd_step :: "u32 \<Rightarrow> u32 list \<Rightarrow> nat \<Rightarrow> u32 \<times> u32 \<times> u32 list \<Rightarrow> u32 \<times> u32 \<times> u32 list" where
  "muladd_step q m u = (\<lambda>(cc, tb, x).
     let mw = m ! u;
         zl = MUL31 mw q + ucast cc;
         cc = ucast (drop_bit 31 zl);
         zw = ucast zl AND 0x7FFFFFFF;
         xw = x ! u;
         nxw = xw - zw;
         cc = cc + drop_bit 31 nxw;
         nxw = nxw AND 0x7FFFFFFF
     in (cc, MUX (EQ nxw mw) tb (GT nxw mw), x[u := nxw]))"

definition br_i31_muladd_small :: "u32 list \<Rightarrow> u32 \<Rightarrow> u32 list \<Rightarrow> u32 list" where
  "br_i31_muladd_small x z m =
     (let m_bitlen = m ! 0
      in if m_bitlen = 0 then x
         else if m_bitlen \<le> 31 then
           let hi = drop_bit 1 (x ! 1);
               lo = push_bit 31 (x ! 1) OR z
           in x[1 := br_rem hi lo (m ! 1)]
         else
           let mlen = words31 m_bitlen;
               mblr = unat (m_bitlen AND 31);
               hi = x ! mlen;
               (a0, a1, b0, x) =
                 (if mblr = 0 then
                    let a0 = x ! mlen;
                        x = (memmove_up x mlen)[1 := z]
                    in (a0, x ! mlen, m ! mlen, x)
                  else
                    let a0 = (push_bit (31 - mblr) (x ! mlen) OR drop_bit mblr (x ! (mlen - 1))) AND 0x7FFFFFFF;
                        x = (memmove_up x mlen)[1 := z];
                        a1 = (push_bit (31 - mblr) (x ! mlen) OR drop_bit mblr (x ! (mlen - 1))) AND 0x7FFFFFFF;
                        b0 = (push_bit (31 - mblr) (m ! mlen) OR drop_bit mblr (m ! (mlen - 1))) AND 0x7FFFFFFF
                    in (a0, a1, b0, x));
               g = br_div (drop_bit 1 a0) (a1 OR push_bit 31 a0) b0;
               q = MUX (EQ a0 b0) 0x7FFFFFFF (MUX (EQ g 0) 0 (g - 1));
               (cc, tb, x) = fold (muladd_step q m) [1..<mlen + 1] (0, 1, x);
               over = GT cc hi;
               under = NOT over AND (tb OR LT cc hi);
               x = snd (br_i31_add x m over)
           in snd (br_i31_sub x m under))"

subsection \<open>Montgomery representation\<close>

definition br_i31_ninv31 :: "u32 \<Rightarrow> u32" where
  "br_i31_ninv31 x =
     (let y = 2 - x;
          y = y * (2 - y * x);
          y = y * (2 - y * x);
          y = y * (2 - y * x);
          y = y * (2 - y * x)
      in MUX (x AND 1) (- y) 0 AND 0x7FFFFFFF)"

text \<open>
  \<open>br_i31_montymul\<close>: one word of the inner loop, the loop unrolled four times with the loop over the words that are
  left, and the loop over the words of \<open>x\<close>.
\<close>

definition montymul_word :: "u32 \<Rightarrow> u32 \<Rightarrow> u32 list \<Rightarrow> u32 list \<Rightarrow> nat \<Rightarrow> u64 \<times> u32 list \<Rightarrow> u64 \<times> u32 list" where
  "montymul_word xu f y m v = (\<lambda>(r, d).
     let z = ucast (d ! (v + 1)) + MUL31 xu (y ! (v + 1)) + MUL31 f (m ! (v + 1)) + r
     in (drop_bit 31 z, d[v := ucast z AND 0x7FFFFFFF]))"

definition montymul_row :: "nat \<Rightarrow> u32 \<Rightarrow> u32 \<Rightarrow> u32 list \<Rightarrow> u32 list \<Rightarrow> u32 list \<Rightarrow> u64 \<times> u32 list" where
  "montymul_row len xu f y m d =
     (let len4 = len div 4;
          w = montymul_word xu f y m;
          s = fold (\<lambda>i s. w (4 * i + 3) (w (4 * i + 2) (w (4 * i + 1) (w (4 * i) s)))) [0..<len4] (0, d)
      in fold w [4 * len4..<len] s)"

definition montymul_step :: "nat \<Rightarrow> u32 list \<Rightarrow> u32 list \<Rightarrow> u32 list \<Rightarrow> u32 \<Rightarrow> nat \<Rightarrow> u64 \<times> u32 list \<Rightarrow> u64 \<times> u32 list" where
  "montymul_step len x y m m0i u = (\<lambda>(dh, d).
     let xu = x ! (u + 1);
         f = MUL31_lo (d ! 1 + MUL31_lo (x ! (u + 1)) (y ! 1)) m0i;
         (r, d) = montymul_row len xu f y m d;
         zh = dh + r
     in (drop_bit 31 zh, d[len := ucast zh AND 0x7FFFFFFF]))"

definition br_i31_montymul :: "u32 list \<Rightarrow> u32 list \<Rightarrow> u32 list \<Rightarrow> u32 list \<Rightarrow> u32 \<Rightarrow> u32 list" where
  "br_i31_montymul d x y m m0i =
     (let len = words31 (m ! 0);
          d = br_i31_zero d (m ! 0);
          (dh, d) = fold (montymul_step len x y m m0i) [0..<len] (0, d);
          d = d[0 := m ! 0];
          (c, d) = br_i31_sub d m 0
      in snd (br_i31_sub d m (NEQ (ucast dh) 0 OR NOT_ctl c)))"

definition br_i31_to_monty :: "u32 list \<Rightarrow> u32 list \<Rightarrow> u32 list" where
  "br_i31_to_monty x m = fold (\<lambda>_ x. br_i31_muladd_small x 0 m) [0..<words31 (m ! 0)] x"

definition from_monty_word :: "u32 \<Rightarrow> u32 list \<Rightarrow> nat \<Rightarrow> u64 \<times> u32 list \<Rightarrow> u64 \<times> u32 list" where
  "from_monty_word f m v = (\<lambda>(cc, x).
     let z = ucast (x ! (v + 1)) + MUL31 f (m ! (v + 1)) + cc
     in (drop_bit 31 z, if v \<noteq> 0 then x[v := ucast z AND 0x7FFFFFFF] else x))"

definition br_i31_from_monty :: "u32 list \<Rightarrow> u32 list \<Rightarrow> u32 \<Rightarrow> u32 list" where
  "br_i31_from_monty x m m0i =
     (let len = words31 (m ! 0);
          x = fold (\<lambda>u x.
            let f = MUL31_lo (x ! 1) m0i;
                (cc, x) = fold (from_monty_word f m) [0..<len] (0, x)
            in x[len := ucast cc]) [0..<len] x;
          (c, x) = br_i31_sub x m 0
      in snd (br_i31_sub x m (NOT_ctl c)))"

subsection \<open>Modular exponentiation (i31_modpow.c, i31_modpow2.c)\<close>

text \<open>\<open>memcpy\<close> and \<open>CCOPY\<close> on arrays of words; the conditional copy works on their bytes.\<close>

definition memcpy_w :: "u32 list \<Rightarrow> u32 list \<Rightarrow> nat \<Rightarrow> u32 list" where
  "memcpy_w dst src n = take n src @ drop n dst"

definition CCOPY_w :: "u32 \<Rightarrow> u32 list \<Rightarrow> u32 list \<Rightarrow> nat \<Rightarrow> u32 list" where
  "CCOPY_w ctl dst src n =
     br_range_dec32le (length dst)
       (br_ccopy ctl (br_range_enc32le dst (length dst)) (br_range_enc32le src (length src)) (4 * n))"

definition br_i31_modpow :: "u32 list \<Rightarrow> u8 list \<Rightarrow> nat \<Rightarrow> u32 list \<Rightarrow> u32 \<Rightarrow> u32 list \<Rightarrow> u32 list \<Rightarrow> u32 list" where
  "br_i31_modpow x e elen m m0i t1 t2 =
     (let mlen = unat (drop_bit 5 (m ! 0 + 63));
          t1 = br_i31_to_monty (memcpy_w t1 x mlen) m;
          x = (br_i31_zero x (m ! 0))[1 := 1];
          (x, t1, t2) =
            fold (\<lambda>k (x, t1, t2).
              let ctl = ucast (drop_bit (k mod 8) (e ! (elen - 1 - k div 8))) AND 1;
                  t2 = br_i31_montymul t2 x t1 m m0i;
                  x = CCOPY_w ctl x t2 mlen;
                  t2 = br_i31_montymul t2 t1 t1 m m0i;
                  t1 = memcpy_w t1 t2 mlen
              in (x, t1, t2)) [0..<unat (push_bit 3 (of_nat elen :: u32))] (x, t1, t2)
      in x)"

text \<open>
  The temporaries of \<open>br_i31_modpow_opt\<close> lie one after the other in \<open>tmp\<close>, \<open>mwlen\<close> words each: \<open>t1\<close>, then the window
  \<open>t2\<close>, whose entry \<open>k\<close> is the power \<open>x ^ k\<close>; entry 0 receives the power looked up.
\<close>

definition slots :: "nat \<Rightarrow> nat \<Rightarrow> u32 list \<Rightarrow> u32 list list" where
  "slots mwlen n t = map (\<lambda>k. take mwlen (drop (k * mwlen) t)) [0..<n]"

definition window_bits :: "nat \<Rightarrow> nat \<Rightarrow> nat" where
  "window_bits mwlen twlen =
     (case find (\<lambda>w. (2 ^ w + 1) * mwlen \<le> twlen) [5, 4, 3, 2] of Some w \<Rightarrow> w | None \<Rightarrow> 1)"

text \<open>The number of bits to read, the exponent's bytes that are left, and the accumulator.\<close>

definition next_bits :: "nat \<Rightarrow> u8 list \<Rightarrow> u32 \<Rightarrow> nat \<Rightarrow> nat \<times> u8 list \<times> u32 \<times> nat" where
  "next_bits win_len e acc acc_len =
     (if acc_len < win_len then
        case e of
          b # e \<Rightarrow> (win_len, e, push_bit 8 acc OR ucast b, acc_len + 8)
        | [] \<Rightarrow> (acc_len, e, acc, acc_len)
      else (win_len, e, acc, acc_len))"

definition window_lookup :: "nat \<Rightarrow> u32 list \<Rightarrow> nat \<Rightarrow> u32 \<Rightarrow> u32 list list \<Rightarrow> u32 list" where
  "window_lookup mwlen m k bits t2 =
     fold (\<lambda>u t.
       let mask = - EQ (of_nat u) bits
       in fold (\<lambda>v t. t[v := t ! v OR (mask AND t2 ! u ! v)]) [1..<mwlen] t)
       [1..<2 ^ k] (br_i31_zero (t2 ! 0) (m ! 0))"

function modpow_loop ::
  "nat \<Rightarrow> nat \<Rightarrow> nat \<Rightarrow> u32 list \<Rightarrow> u32 \<Rightarrow> u8 list \<Rightarrow> u32 \<Rightarrow> nat \<Rightarrow> u32 list \<times> u32 list \<times> u32 list list \<Rightarrow>
   u32 list \<times> u32 list \<times> u32 list list" where
  "modpow_loop win_len mwlen mlen m m0i e acc acc_len (x, t1, t2) =
     (if win_len = 0 \<or> acc_len = 0 \<and> e = [] then (x, t1, t2)
      else
        let (k, e, acc, acc_len) = next_bits win_len e acc acc_len;
            bits = drop_bit (acc_len - k) acc AND (push_bit k 1 - 1);
            acc_len = acc_len - k;
            (x, t1) = ((\<lambda>(x, t1). let t1 = br_i31_montymul t1 x x m m0i in (memcpy_w x t1 mlen, t1)) ^^ k) (x, t1);
            t2 = (if 1 < win_len then t2[0 := window_lookup mwlen m k bits t2] else t2);
            t1 = br_i31_montymul t1 x (t2 ! 0) m m0i;
            x = CCOPY_w (NEQ bits 0) x t1 mlen
        in modpow_loop win_len mwlen mlen m m0i e acc acc_len (x, t1, t2))"
  by pat_completeness auto
termination
  by (relation "measure (\<lambda>(w, mw, ml, m, i, e, acc, n, s). 9 * length e + n)")
    (auto simp: next_bits_def split: if_splits list.splits)

text \<open>The result is \<^term>\<open>None\<close> where the code returns 0 because \<open>tmp\<close> is too small.\<close>

definition br_i31_modpow_opt ::
  "u32 list \<Rightarrow> u8 list \<Rightarrow> u32 list \<Rightarrow> u32 \<Rightarrow> u32 list \<Rightarrow> nat \<Rightarrow> u32 list option" where
  "br_i31_modpow_opt x e m m0i tmp twlen =
     (let mlen = unat (drop_bit 5 (m ! 0 + 63));
          mwlen = mlen + mlen mod 2
      in if twlen < 2 * mwlen then None
         else
           let win_len = window_bits mwlen twlen;
               t1 = take mwlen tmp;
               t2 = slots mwlen (if win_len = 1 then 1 else 2 ^ win_len) (drop mwlen tmp);
               x = br_i31_to_monty x m;
               t2 = (if win_len = 1 then t2[0 := memcpy_w (t2 ! 0) x mlen]
                     else
                       fold (\<lambda>u t2. t2[u := br_i31_montymul (t2 ! u) (t2 ! (u - 1)) x m m0i]) [2..<2 ^ win_len]
                         (t2[1 := memcpy_w (t2 ! 1) x mlen]));
               x = br_i31_zero x (m ! 0);
               x = x[words31 (m ! 0) := 1];
               x = br_i31_muladd_small x 0 m;
               (x, t1, t2) = modpow_loop win_len mwlen mlen m m0i e 0 0 (x, t1, t2)
           in Some (br_i31_from_monty x m m0i))"

end
