(* ===== verification/I31Arith.thy ===== *)
theory I31Arith
  imports I31
begin

section \<open>Big integers: addition, subtraction and division\<close>

text \<open>
  The number in the words \<open>1 .. k\<close> of an array, and the operations that work on it word by word: addition,
  subtraction, the division of 64 bits by 32, and the reduction of \<open>i31_muladd.c\<close>.
\<close>

unbundle bit_operations_syntax

subsection \<open>Words of 31 bits\<close>

lemma mask31: "(0x7FFFFFFF :: 'a :: len word) = mask 31"
  by (simp add: mask_eq_exp_minus_1)

lemma unat_and31: "unat (a AND 0x7FFFFFFF :: u32) = unat a mod 2 ^ 31"
proof -
  have "a AND 0x7FFFFFFF = take_bit 31 a" by (simp only: mask31 take_bit_eq_mask)
  then have "unat (a AND 0x7FFFFFFF) = take_bit 31 (unat a)" by (simp only: unsigned_take_bit_eq)
  then show ?thesis by (simp only: take_bit_eq_mod)
qed

lemma unat_ucast32: "unat (ucast (a :: u64) :: u32) = unat a mod 2 ^ 32"
  by (simp add: unsigned_ucast_eq take_bit_eq_mod)

lemma unat_ucast64 [simp]: "unat (ucast (a :: u32) :: u64) = unat a"
proof -
  have "unat a < 2 ^ 64" using unsigned_less [of a, where ?'a = nat] by simp
  then show ?thesis by (simp add: unsigned_ucast_eq take_bit_eq_mod)
qed

lemma unat_lo31: "unat (ucast (a :: u64) AND 0x7FFFFFFF :: u32) = unat a mod 2 ^ 31"
  by (simp add: unat_and31 unat_ucast32 mod_mod_cancel)

lemma unat_shift: "unat (drop_bit n a) = unat a div 2 ^ n"
  by (simp add: unat_drop_bit_eq drop_bit_nat_def)

lemma unat_bounds: "unat (a :: u32) < 2 ^ 32" "unat (b :: u64) < 2 ^ 64"
  using unsigned_less [of a] unsigned_less [of b] by simp_all

lemma unat_plus: "unat a + unat b < 2 ^ LENGTH('a) \<Longrightarrow> unat (a + b :: 'a :: len word) = unat a + unat b"
  by (simp add: unat_word_ariths)

lemma unat_times: "unat a * unat b < 2 ^ LENGTH('a) \<Longrightarrow> unat (a * b :: 'a :: len word) = unat a * unat b"
  by (simp add: unat_word_ariths)

lemma words31_div: "unat b + 31 < 2 ^ 32 \<Longrightarrow> words31 b = (unat b + 31) div 32"
  unfolding words31_def unat_shift by (subst unat_plus) simp_all

lemma words63: "unat b + 63 < 2 ^ 32 \<Longrightarrow> unat (drop_bit 5 (b + 63)) = Suc (words31 b)"
  unfolding unat_shift by (subst unat_plus) (simp_all add: words31_div)

text \<open>A number is extended by a digit and a carry.\<close>

lemma digit_step:
  fixes v :: nat
  assumes "v < R"
  shows "v + (n mod w) * R = (v + n * R) mod (w * R)" "n div w = (v + n * R) div (w * R)"
proof -
  have "n * R = (n mod w) * R + (n div w) * (w * R)"
    by (metis add.commute div_mult_mod_eq distrib_right mult.assoc)
  then have s: "v + n * R = (v + (n mod w) * R) + (n div w) * (w * R)" by simp
  show "v + (n mod w) * R = (v + n * R) mod (w * R)"
  proof (cases "w = 0")
    case False
    have "v + (n mod w) * R < (n mod w + 1) * R" using assms by simp
    also have "\<dots> \<le> w * R" using False by (intro mult_right_mono) (simp_all add: Suc_leI)
    finally show ?thesis unfolding s by simp
  qed simp
  show "n div w = (v + n * R) div (w * R)"
  proof (cases "w = 0")
    case False
    have "v + (n mod w) * R < (n mod w + 1) * R" using assms by simp
    also have "\<dots> \<le> w * R" using False by (intro mult_right_mono) (simp_all add: Suc_leI)
    finally show ?thesis unfolding s using False assms by simp
  qed simp
qed

text \<open>The number that \<open>k\<close> words after the header represent.\<close>

fun nval :: "u32 list \<Rightarrow> nat \<Rightarrow> nat" where
  "nval x 0 = 0"
| "nval x (Suc k) = nval x k + unat (x ! Suc k) * 2 ^ (31 * k)"

definition words_ok :: "u32 list \<Rightarrow> nat \<Rightarrow> bool" where
  "words_ok x k \<longleftrightarrow> k < length x \<and> (\<forall>i\<in>{1..k}. unat (x ! i) < 2 ^ 31)"

lemma words_okD: "words_ok x k \<Longrightarrow> 0 < i \<Longrightarrow> i \<le> k \<Longrightarrow> unat (x ! i) < 2 ^ 31"
  by (simp add: words_ok_def)

lemma words_ok_mono: "words_ok x k \<Longrightarrow> j \<le> k \<Longrightarrow> words_ok x j"
  by (simp add: words_ok_def)

lemma words_ok_Suc: "words_ok x (Suc k) \<longleftrightarrow> words_ok x k \<and> Suc k < length x \<and> unat (x ! Suc k) < 2 ^ 31"
proof -
  have "{1..Suc k} = insert (Suc k) {1..k}" by auto
  then show ?thesis by (auto simp: words_ok_def)
qed

lemma nval_cong: "(\<And>i. 0 < i \<Longrightarrow> i \<le> k \<Longrightarrow> x ! i = y ! i) \<Longrightarrow> nval x k = nval y k"
  by (induction k) auto

lemma nval_update [simp]: "j = 0 \<or> k < j \<Longrightarrow> nval (x[j := w]) k = nval x k"
  by (rule nval_cong) auto

lemma words_ok_update [simp]: "j = 0 \<or> k < j \<Longrightarrow> words_ok (x[j := w]) k = words_ok x k"
  by (auto simp: words_ok_def)

lemma nval_bound: "words_ok x k \<Longrightarrow> nval x k < 2 ^ (31 * k)"
proof (induction k)
  case (Suc k)
  then have a: "nval x k < 2 ^ (31 * k)" and b: "unat (x ! Suc k) < 2 ^ 31" by (simp_all add: words_ok_Suc)
  have "nval x (Suc k) < 2 ^ (31 * k) + unat (x ! Suc k) * 2 ^ (31 * k)" using a by simp
  also have "\<dots> = (unat (x ! Suc k) + 1) * 2 ^ (31 * k)" by simp
  also have "\<dots> \<le> 2 ^ 31 * 2 ^ (31 * k)" using b by (intro mult_right_mono) auto
  finally show ?case by (simp add: power_add)
qed simp

lemma nval_shift:
  assumes "\<And>i. 0 < i \<Longrightarrow> i \<le> k \<Longrightarrow> y ! Suc i = x ! i"
  shows "nval y (Suc k) = unat (y ! 1) + 2 ^ 31 * nval x k"
  using assms
proof (induction k)
  case (Suc k)
  have "nval y (Suc (Suc k)) = nval y (Suc k) + unat (x ! Suc k) * 2 ^ (31 * Suc k)" using Suc.prems by simp
  then show ?case using Suc by (simp add: power_add algebra_simps)
qed simp

lemma nval_0 [simp]: "(\<And>i. 0 < i \<Longrightarrow> i \<le> k \<Longrightarrow> x ! i = 0) \<Longrightarrow> nval x k = 0"
  by (induction k) auto

subsection \<open>Addition and subtraction\<close>

text \<open>Both walk along two arrays with a carry; the sum is stored where the control bit says so.\<close>

definition walk31 :: "(u32 \<Rightarrow> u32 \<Rightarrow> u32 \<Rightarrow> u32) \<Rightarrow> u32 list \<Rightarrow> u32 \<Rightarrow> nat \<Rightarrow> u32 list \<Rightarrow> u32 \<times> u32 list" where
  "walk31 f b ctl k a =
     fold (\<lambda>u (cc, a). let naw = f (a ! u) (b ! u) cc in (drop_bit 31 naw, a[u := MUX ctl (naw AND 0x7FFFFFFF) (a ! u)]))
       [1..<Suc k] (0, a)"

lemma walk31_Suc:
  "walk31 f b ctl (Suc k) a =
     (let (cc, a') = walk31 f b ctl k a; naw = f (a' ! Suc k) (b ! Suc k) cc
      in (drop_bit 31 naw, a'[Suc k := MUX ctl (naw AND 0x7FFFFFFF) (a' ! Suc k)]))"
  by (simp add: walk31_def case_prod_beta)

lemma walk31_0 [simp]: "walk31 f b ctl 0 a = (0, a)"
  by (simp add: walk31_def)

text \<open>What is stored depends on the control bit, the carry does not.\<close>

definition on_words :: "nat \<Rightarrow> u32 list \<Rightarrow> u32 list \<Rightarrow> bool" where
  "on_words k a s \<longleftrightarrow> length s = length a \<and> words_ok s k \<and> (\<forall>j. j = 0 \<or> k < j \<longrightarrow> s ! j = a ! j)"

lemma add_walk:
  assumes "words_ok a k" "words_ok b k"
  shows "\<exists>s. walk31 (\<lambda>x y c. x + y + c) b (of_bool c) k a = (of_bool (2 ^ (31 * k) \<le> nval a k + nval b k), if c then s else a)
    \<and> on_words k a s \<and> nval s k = (nval a k + nval b k) mod 2 ^ (31 * k)"
  using assms
proof (induction k)
  case 0
  then show ?case by (intro exI [of _ a]) (simp add: on_words_def)
next
  case (Suc k)
  let ?f = "\<lambda>x y c :: u32. x + y + c" and ?R = "(2 :: nat) ^ (31 * k)"
  have ok: "words_ok a k" "words_ok b k" using Suc.prems by (simp_all add: words_ok_Suc)
  from Suc.IH [OF ok] obtain s where s: "walk31 ?f b (of_bool c) k a = (of_bool (?R \<le> nval a k + nval b k), if c then s else a)"
    and on: "on_words k a s" and v: "nval s k = (nval a k + nval b k) mod ?R" by blast
  define aw bw where "aw = a ! Suc k" and "bw = b ! Suc k"
  define cb where "cb \<longleftrightarrow> ?R \<le> nval a k + nval b k"
  define n where "n = aw + bw + of_bool cb"
  have w: "unat aw < 2 ^ 31" "unat bw < 2 ^ 31" using Suc.prems by (simp_all add: words_ok_Suc aw_def bw_def)
  have n: "unat n = unat aw + unat bw + of_bool cb"
    using w unfolding n_def by (cases cb) (simp_all add: unat_word_ariths)
  have b: "nval a k < ?R" "nval b k < ?R" using ok by (simp_all add: nval_bound)
  have low: "nval s k + of_bool cb * ?R = nval a k + nval b k"
    using b v unfolding cb_def by (cases "?R \<le> nval a k + nval b k") (simp_all add: le_mod_geq)
  have at: "(if c then s else a) ! Suc k = aw" using on by (simp add: on_words_def aw_def)
  define s' where "s' = s[Suc k := n AND 0x7FFFFFFF]"
  have len: "Suc k < length s" using on Suc.prems by (simp add: on_words_def words_ok_Suc)
  have step: "walk31 ?f b (of_bool c) (Suc k) a = (drop_bit 31 n, if c then s' else a)"
    unfolding walk31_Suc s Let_def prod.case at bw_def [symmetric] cb_def [symmetric] n_def [symmetric]
    by (simp add: s'_def aw_def)
  have v': "nval s' (Suc k) = nval s k + (unat n mod 2 ^ 31) * ?R"
    using len by (simp add: s'_def unat_and31)
  have tot: "nval a (Suc k) + nval b (Suc k) = nval s k + unat n * ?R"
    using low by (simp add: n aw_def bw_def algebra_simps)
  have sb: "nval s k < ?R" using on by (simp add: on_words_def nval_bound)
  have RS: "(2 :: nat) ^ (31 * Suc k) = 2 ^ 31 * ?R" by (simp add: power_add)
  have 1: "nval s' (Suc k) = (nval a (Suc k) + nval b (Suc k)) mod 2 ^ (31 * Suc k)"
    unfolding v' tot RS by (rule digit_step(1) [OF sb])
  have q: "unat n div 2 ^ 31 = (nval a (Suc k) + nval b (Suc k)) div 2 ^ (31 * Suc k)"
    unfolding tot RS by (rule digit_step(2) [OF sb])
  have "unat n < 2 * 2 ^ 31" using n w by (cases cb) simp_all
  then have "unat n div 2 ^ 31 < 2" by (rule less_mult_imp_div_less)
  then have q01: "unat n div 2 ^ 31 = 0 \<or> unat n div 2 ^ 31 = 1" by linarith
  have big: "2 ^ (31 * Suc k) \<le> nval a (Suc k) + nval b (Suc k) \<longleftrightarrow> unat n div 2 ^ 31 \<noteq> 0"
    unfolding q by (simp add: div_eq_0_iff not_less del: nval.simps)
  have "unat (drop_bit 31 n) = unat (of_bool (unat n div 2 ^ 31 \<noteq> 0) :: u32)"
    unfolding unat_shift using q01 by auto
  then have 2: "drop_bit 31 n = of_bool (2 ^ (31 * Suc k) \<le> nval a (Suc k) + nval b (Suc k))"
    unfolding big by (simp only: word_unat_eq_iff)
  have 3: "on_words (Suc k) a s'"
    using on len by (auto simp: on_words_def s'_def words_ok_Suc unat_and31)
  show ?case using step 1 2 3 by metis
qed

lemma borrow_int:
  fixes A B C :: int
  assumes "0 \<le> A" "A < 2 ^ 31" "0 \<le> B" "B < 2 ^ 31" "0 \<le> C" "C \<le> 1"
  shows "(A - B - C) mod 2 ^ 32 = A - B - C + (if A < B + C then 2 ^ 32 else 0)"
proof (cases "A < B + C")
  case True
  have "(A - B - C) mod 2 ^ 32 = (A - B - C + 2 ^ 32) mod 2 ^ 32" by simp
  also have "\<dots> = A - B - C + 2 ^ 32" using True assms by (intro mod_pos_pos_trivial) simp_all
  finally show ?thesis using True by simp
next
  case False
  then show ?thesis using assms by simp
qed

lemma borrow_word:
  fixes aw bw :: u32 and c :: bool
  assumes "unat aw < 2 ^ 31" "unat bw < 2 ^ 31"
  defines "n \<equiv> aw - bw - of_bool c"
  shows "unat n mod 2 ^ 31 + unat bw + of_bool c = unat aw + of_bool (unat aw < unat bw + of_bool c) * 2 ^ 31"
    and "drop_bit 31 n = of_bool (unat aw < unat bw + of_bool c)"
proof -
  have u: "int (unat n) = (int (unat aw) - int (unat bw) - of_bool c) mod 2 ^ 32"
    unfolding n_def by (cases c) (simp_all add: uint_word_ariths mod_diff_left_eq)
  have "int (unat aw) < int (2 ^ 31)" "int (unat bw) < int (2 ^ 31)" using assms(1,2) by (simp_all only: of_nat_less_iff)
  then have "int (unat aw) < 2 ^ 31" "int (unat bw) < 2 ^ 31" by (simp_all only: of_nat_power of_nat_numeral)
  then have i: "int (unat n) = int (unat aw) - int (unat bw) - of_bool c + (if int (unat aw) < int (unat bw) + of_bool c then 2 ^ 32 else 0)"
    unfolding u by (intro borrow_int) simp_all
  have lt: "int p < int q + of_bool c \<longleftrightarrow> p < q + of_bool c" for p q by (cases c) auto
  from i have "int (unat n + unat bw + of_bool c) = int (unat aw + of_bool (unat aw < unat bw + of_bool c) * 2 ^ 32)"
    unfolding lt by simp
  then have n: "unat n + unat bw + of_bool c = unat aw + of_bool (unat aw < unat bw + of_bool c) * 2 ^ 32"
    by (simp only: of_nat_eq_iff)
  have cases: "(unat n < 2 ^ 31 \<and> \<not> unat aw < unat bw + of_bool c)
    \<or> (2 ^ 31 \<le> unat n \<and> unat n < 2 * 2 ^ 31 \<and> unat aw < unat bw + of_bool c)"
    using n assms(1,2) by (cases "unat aw < unat bw + of_bool c"; cases c) simp_all
  then have q: "unat n mod 2 ^ 31 = unat n - of_bool (unat aw < unat bw + of_bool c) * 2 ^ 31"
    "unat n div 2 ^ 31 = of_bool (unat aw < unat bw + of_bool c)"
    by (auto simp: le_mod_geq le_div_geq)
  show "unat n mod 2 ^ 31 + unat bw + of_bool c = unat aw + of_bool (unat aw < unat bw + of_bool c) * 2 ^ 31"
    using n cases unfolding q by auto
  have "unat (drop_bit 31 n) = unat (of_bool (unat aw < unat bw + of_bool c) :: u32)"
    unfolding unat_shift q by simp
  then show "drop_bit 31 n = of_bool (unat aw < unat bw + of_bool c)" by (simp only: word_unat_eq_iff)
qed

lemma sub_walk:
  assumes "words_ok a k" "words_ok b k"
  shows "\<exists>s. walk31 (\<lambda>x y c. x - y - c) b (of_bool c) k a = (of_bool (nval a k < nval b k), if c then s else a)
    \<and> on_words k a s \<and> nval s k + nval b k = nval a k + of_bool (nval a k < nval b k) * 2 ^ (31 * k)"
  using assms
proof (induction k)
  case 0
  then show ?case by (intro exI [of _ a]) (simp add: on_words_def)
next
  case (Suc k)
  let ?f = "\<lambda>x y c :: u32. x - y - c" and ?R = "(2 :: nat) ^ (31 * k)"
  have ok: "words_ok a k" "words_ok b k" using Suc.prems by (simp_all add: words_ok_Suc)
  from Suc.IH [OF ok] obtain s where s: "walk31 ?f b (of_bool c) k a = (of_bool (nval a k < nval b k), if c then s else a)"
    and on: "on_words k a s" and v: "nval s k + nval b k = nval a k + of_bool (nval a k < nval b k) * ?R" by blast
  define aw bw where "aw = a ! Suc k" and "bw = b ! Suc k"
  define cb where "cb \<longleftrightarrow> nval a k < nval b k"
  define n where "n = aw - bw - of_bool cb"
  have w: "unat aw < 2 ^ 31" "unat bw < 2 ^ 31" using Suc.prems by (simp_all add: words_ok_Suc aw_def bw_def)
  define co where "co \<longleftrightarrow> unat aw < unat bw + of_bool cb"
  have n: "unat n mod 2 ^ 31 + unat bw + of_bool cb = unat aw + of_bool co * 2 ^ 31" "drop_bit 31 n = of_bool co"
    unfolding n_def co_def by (rule borrow_word [OF w])+
  have at: "(if c then s else a) ! Suc k = aw" using on by (simp add: on_words_def aw_def)
  define s' where "s' = s[Suc k := n AND 0x7FFFFFFF]"
  have len: "Suc k < length s" using on Suc.prems by (simp add: on_words_def words_ok_Suc)
  have step: "walk31 ?f b (of_bool c) (Suc k) a = (drop_bit 31 n, if c then s' else a)"
    unfolding walk31_Suc s Let_def prod.case at bw_def [symmetric] cb_def [symmetric] n_def [symmetric]
    by (simp add: s'_def aw_def)
  have RS: "(2 :: nat) ^ (31 * Suc k) = 2 ^ 31 * ?R" by (simp add: power_add)
  have on': "on_words (Suc k) a s'"
    using on len by (auto simp: on_words_def s'_def words_ok_Suc unat_and31)
  have "nval s' (Suc k) + nval b (Suc k) = nval s k + nval b k + (unat n mod 2 ^ 31 + unat bw) * ?R"
    using len by (simp add: s'_def unat_and31 bw_def algebra_simps)
  also have "\<dots> = nval a k + (unat n mod 2 ^ 31 + unat bw + of_bool cb) * ?R"
    using v by (simp add: cb_def algebra_simps)
  also have "\<dots> = nval a (Suc k) + of_bool co * 2 ^ (31 * Suc k)"
    unfolding n(1) RS by (simp add: aw_def algebra_simps)
  finally have sum: "nval s' (Suc k) + nval b (Suc k) = nval a (Suc k) + of_bool co * 2 ^ (31 * Suc k)" .
  have "nval s' (Suc k) < 2 ^ (31 * Suc k)" using on' unfolding on_words_def by (blast intro: nval_bound)
  then have co: "co \<longleftrightarrow> nval a (Suc k) < nval b (Suc k)" using sum by (cases co) (auto simp del: nval.simps)
  show ?case using step on' sum unfolding n(2) co by blast
qed

text \<open>The functions of the code, on arrays of equal length.\<close>

lemma on_words_header: "on_words k a s \<Longrightarrow> s ! 0 = a ! 0"
  by (simp add: on_words_def)

lemma add_is_walk:
  assumes "words31 (a ! 0) = k" "unat (a ! 0) + 63 < 2 ^ 32"
  shows "br_i31_add a b ctl = walk31 (\<lambda>x y c. x + y + c) b ctl k a"
  unfolding br_i31_add_def walk31_def words63 [OF assms(2)] assms(1) Let_def ..

lemma sub_is_walk:
  assumes "words31 (a ! 0) = k" "unat (a ! 0) + 63 < 2 ^ 32"
  shows "br_i31_sub a b ctl = walk31 (\<lambda>x y c. x - y - c) b ctl k a"
  unfolding br_i31_sub_def walk31_def words63 [OF assms(2)] assms(1) Let_def ..

end
