(* ===== verification/I31Div.thy ===== *)
theory I31Div
  imports I31Arith
begin

section \<open>Big integers: the division of 64 bits by 32\<close>

text \<open>
  \<open>br_divrem\<close> computes the quotient bit by bit.  The number that is left, \<open>hi\<close> and \<open>lo\<close> side by side, shrinks below the
  divisor shifted by the number of bits that are still to come.
\<close>

unbundle bit_operations_syntax

definition wide :: "u32 \<Rightarrow> u32 \<Rightarrow> nat" where
  "wide hi lo = unat hi * 2 ^ 32 + unat lo"

lemma unat_lt32 [simp]: "unat (w :: u32) < 4294967296"
  using unsigned_less [of w, where ?'a = nat] by simp

lemma unat_push: "unat (push_bit n (w :: u32)) = unat w * 2 ^ n mod 2 ^ 32"
proof -
  have "unat (push_bit n w) = take_bit LENGTH(32) (push_bit n (unat w))" by (rule unsigned_push_bit_eq)
  then show ?thesis by (simp add: take_bit_eq_mod push_bit_eq_mult)
qed

lemma wide_div_mod: "wide hi lo div 2 ^ 32 = unat hi" "wide hi lo mod 2 ^ 32 = unat lo"
  by (simp_all add: wide_def div_eq_0_iff)

lemma wide_eqI: "unat hi = V div 2 ^ 32 \<Longrightarrow> unat lo = V mod 2 ^ 32 \<Longrightarrow> wide hi lo = V"
  by (simp add: wide_def)

lemma shifted_pair:
  assumes "0 < k" "k < 32"
  shows "unat (push_bit (32 - k) hi OR drop_bit k lo :: u32) = wide hi lo div 2 ^ k mod 2 ^ 32"
proof -
  have le: "unat lo div 2 ^ k < 2 ^ (32 - k)"
  proof (rule less_mult_imp_div_less)
    show "unat lo < 2 ^ (32 - k) * 2 ^ k" using assms unat_bounds(1) [of lo] by (simp flip: power_add)
  qed
  have dis: "push_bit (32 - k) hi AND drop_bit k lo = 0"
    by (rule bit_word_eqI) (use assms in \<open>auto simp: bit_simps dest: bit_imp_le_length\<close>)
  have "unat (push_bit (32 - k) hi) = unat hi * 2 ^ (32 - k) mod 2 ^ 32" by (rule unat_push)
  also have "\<dots> = (unat hi mod 2 ^ k) * 2 ^ (32 - k)"
    using assms mod_mult_mult2 [of "unat hi" "2 ^ (32 - k)" "2 ^ k"] by (simp flip: power_add)
  finally have p: "unat (push_bit (32 - k) hi) = (unat hi mod 2 ^ k) * 2 ^ (32 - k)" .
  have "unat (push_bit (32 - k) hi OR drop_bit k lo) = unat (push_bit (32 - k) hi) + unat (drop_bit k lo)"
  proof -
    have "unat (push_bit (32 - k) hi) AND unat (drop_bit k lo) = 0"
      using dis by (metis unsigned_0 unsigned_and_eq)
    then show ?thesis by (simp add: unsigned_or_eq disjunctive_add_eq_or)
  qed
  also have "\<dots> = unat lo div 2 ^ k + (unat hi mod 2 ^ k) * 2 ^ (32 - k)" by (simp add: p unat_shift)
  also have "\<dots> = (unat lo div 2 ^ k + unat hi * 2 ^ (32 - k)) mod (2 ^ k * 2 ^ (32 - k))"
    by (rule digit_step(1) [OF le])
  also have "(2 :: nat) ^ k * 2 ^ (32 - k) = 2 ^ 32" using assms by (simp flip: power_add)
  also have "unat lo div 2 ^ k + unat hi * 2 ^ (32 - k) = wide hi lo div 2 ^ k"
  proof -
    have "(2 :: nat) ^ 32 = 2 ^ (32 - k) * 2 ^ k" using assms by (simp flip: power_add)
    then have "wide hi lo = unat lo + (unat hi * 2 ^ (32 - k)) * 2 ^ k" by (simp only: wide_def ac_simps)
    then show ?thesis by simp
  qed
  finally show ?thesis .
qed

lemma high_part: "unat (drop_bit k hi) = wide hi lo div 2 ^ k div 2 ^ 32"
proof -
  have "wide hi lo div 2 ^ k div 2 ^ 32 = wide hi lo div 2 ^ 32 div 2 ^ k"
    by (simp only: div_mult2_eq [symmetric] ac_simps)
  then show ?thesis by (simp only: wide_div_mod unat_shift)
qed

definition div_inv :: "nat \<Rightarrow> u32 \<Rightarrow> nat \<Rightarrow> u32 \<times> u32 \<times> u32 \<Rightarrow> bool" where
  "div_inv N d j = (\<lambda>(q, hi, lo). unat q * unat d + wide hi lo = N \<and> wide hi lo < unat d * 2 ^ j \<and> 2 ^ j dvd unat q)"

lemma or_low_bit:
  assumes "2 ^ Suc k dvd unat (q :: u32)" "k < 32"
  shows "unat (q OR push_bit k (of_bool c)) = unat q + of_bool c * 2 ^ k"
proof (cases c)
  case True
  have p: "unat (push_bit k 1 :: u32) = 2 ^ k"
  proof -
    have "(2 :: nat) ^ k < 2 ^ 32" using assms(2) by (intro power_strict_increasing) simp_all
    then show ?thesis unfolding unat_push by simp
  qed
  have "take_bit (Suc k) (unat q) = 0" using assms(1) by (simp only: take_bit_eq_mod dvd_imp_mod_0)
  then have "\<not> bit (unat q) k" by (metis bit_0_eq bit_take_bit_iff bot_apply bot_bool_def lessI)
  then have "unat q AND 2 ^ k = 0" by (auto intro!: bit_eqI simp: bit_and_iff bit_exp_iff)
  then show ?thesis using True p by (simp add: unsigned_or_eq disjunctive_add_eq_or)
qed simp

lemma div_step_inv:
  assumes inv: "div_inv N d (Suc k) s" and k: "0 < k" "k < 32"
  shows "div_inv N d k (div_step d k s)"
proof -
  obtain q hi lo where s: "s = (q, hi, lo)" by (rule prod_cases3)
  define V T where "V = wide hi lo" and "T = wide hi lo div 2 ^ k"
  have q: "unat q * unat d + V = N" and Vb: "V < unat d * 2 ^ Suc k" and dv: "2 ^ Suc k dvd unat q"
    using inv by (simp_all add: s div_inv_def V_def)
  define w where "w = push_bit (32 - k) hi OR drop_bit k lo"
  have w: "unat w = T mod 2 ^ 32" unfolding w_def T_def by (rule shifted_pair [OF k])
  have h: "unat (drop_bit k hi) = T div 2 ^ 32" unfolding T_def by (rule high_part)
  have Tb: "T < 2 * unat d"
    unfolding T_def V_def [symmetric] by (rule less_mult_imp_div_less) (use Vb in \<open>simp add: ac_simps\<close>)
  have db: "unat d < 2 ^ 32" by (rule unat_bounds)
  have hb: "drop_bit k hi = of_bool (2 ^ 32 \<le> T)"
  proof -
    have "T < 2 * 2 ^ 32" using Tb db by linarith
    then have "T div 2 ^ 32 < 2" by (rule less_mult_imp_div_less)
    then have "T div 2 ^ 32 = of_bool (2 ^ 32 \<le> T)" by (auto simp: div_eq_0_iff less_2_cases_iff)
    then have "unat (drop_bit k hi) = unat (of_bool (2 ^ 32 \<le> T) :: u32)" by (simp add: h)
    then show ?thesis by (simp only: word_unat_eq_iff)
  qed
  have ctl: "GE w d OR drop_bit k hi = of_bool (unat d \<le> T)"
  proof (cases "2 ^ 32 \<le> T")
    case True
    then have "unat d \<le> T" using db by linarith
    then show ?thesis unfolding hb GE_spec using True by (cases "d \<le> w") simp_all
  next
    case False
    then show ?thesis unfolding hb GE_spec word_le_nat_alt w by simp
  qed
  show ?thesis
  proof (cases "unat d \<le> T")
    case False
    have "V < unat d * 2 ^ k"
    proof -
      have "V = T * 2 ^ k + V mod 2 ^ k" unfolding T_def V_def by (rule div_mult_mod_eq [symmetric])
      also have "\<dots> < (T + 1) * 2 ^ k" by simp
      also have "\<dots> \<le> unat d * 2 ^ k" using False by (intro mult_right_mono) simp_all
      finally show ?thesis .
    qed
    moreover have "2 ^ k dvd unat q" by (rule dvd_trans [OF _ dv]) simp
    ultimately show ?thesis
      unfolding s div_step_def prod.case Let_def w_def [symmetric] ctl div_inv_def MUX_of_bool
      using False q by (simp add: V_def)
  next
    case True
    have kp: "(2 :: nat) ^ 32 = 2 ^ k * 2 ^ (32 - k)" using k by (simp flip: power_add)
    define V' where "V' = V - unat d * 2 ^ k"
    have VT: "V = T * 2 ^ k + V mod 2 ^ k" unfolding T_def V_def by (rule div_mult_mod_eq [symmetric])
    have dk: "unat d * 2 ^ k \<le> V" using True by (subst VT) (simp add: trans_le_add1)
    have V': "V' = (T - unat d) * 2 ^ k + V mod 2 ^ k"
    proof -
      have "V' = (T * 2 ^ k + V mod 2 ^ k) - unat d * 2 ^ k" unfolding V'_def using VT by simp
      then show ?thesis using True by (simp add: diff_mult_distrib)
    qed
    have dT: "V' div 2 ^ k = T - unat d" unfolding V' by simp
    have wd: "unat (w - d) = T - unat d"
    proof -
      have "uint (w - d) = (int (T mod 2 ^ 32) - int (unat d)) mod 2 ^ 32"
        unfolding w [symmetric] by (simp add: uint_word_ariths)
      also have "\<dots> = (int T - int (unat d)) mod 2 ^ 32" by (simp add: zmod_int mod_diff_left_eq)
      also have "\<dots> = int (T - unat d) mod int (2 ^ 32)" using True by (simp add: of_nat_diff)
      also have "\<dots> = int ((T - unat d) mod 2 ^ 32)" by (simp only: zmod_int)
      also have "(T - unat d) mod 2 ^ 32 = T - unat d"
      proof (rule mod_less)
        show "T - unat d < 2 ^ 32" using Tb db by linarith
      qed
      finally show ?thesis by (metis nat_int unat_eq_nat_uint)
    qed
    have hi2: "unat (drop_bit (32 - k) (w - d)) = V' div 2 ^ 32"
      unfolding unat_shift wd dT [symmetric] kp div_mult2_eq ..
    have lo2: "unat (lo - push_bit k d) = V' mod 2 ^ 32"
    proof -
      have "uint (lo - push_bit k d) = (int (V mod 2 ^ 32) - int (unat d * 2 ^ k)) mod 2 ^ 32"
      proof -
        have "uint (lo - push_bit k d) = (int (unat lo) - int (unat (push_bit k d))) mod 2 ^ 32"
          by (simp add: uint_word_ariths)
        then show ?thesis
          unfolding unat_push V_def wide_div_mod by (simp only: zmod_int of_nat_power of_nat_numeral mod_diff_right_eq)
      qed
      also have "\<dots> = (int V - int (unat d * 2 ^ k)) mod 2 ^ 32"
        by (simp only: zmod_int of_nat_power of_nat_numeral mod_diff_left_eq)
      also have "\<dots> = int V' mod int (2 ^ 32)" unfolding V'_def using dk by (simp add: of_nat_diff)
      also have "\<dots> = int (V' mod 2 ^ 32)" by (simp only: zmod_int)
      finally show ?thesis by (metis nat_int unat_eq_nat_uint)
    qed
    have wide: "wide (drop_bit (32 - k) (w - d)) (lo - push_bit k d) = V'" by (rule wide_eqI [OF hi2 lo2])
    have qk: "unat (q OR push_bit k (of_bool True)) = unat q + 2 ^ k"
      using or_low_bit [OF dv k(2), of True] by simp
    have "(unat q + 2 ^ k) * unat d + V' = N" using q dk by (simp add: V'_def algebra_simps)
    moreover have "V' < unat d * 2 ^ k"
    proof -
      have "V' < (T - unat d + 1) * 2 ^ k" unfolding V' by simp
      also have "\<dots> \<le> unat d * 2 ^ k" using Tb True by (intro mult_right_mono) simp_all
      finally show ?thesis .
    qed
    moreover have "2 ^ k dvd unat q + 2 ^ k" by (intro dvd_add dvd_trans [OF _ dv]) simp_all
    ultimately show ?thesis
      unfolding s div_step_def prod.case Let_def w_def [symmetric] ctl div_inv_def MUX_of_bool
      using True qk wide by simp
  qed
qed

lemma div_steps:
  "n < 32 \<Longrightarrow> div_inv N d (Suc n) s \<Longrightarrow> div_inv N d 1 (fold (div_step d) (rev [1..<Suc n]) s)"
proof (induction n arbitrary: s)
  case (Suc n)
  have "rev [1..<Suc (Suc n)] = Suc n # rev [1..<Suc n]" by simp
  then show ?case using Suc div_step_inv [OF Suc.prems(2)] by simp
qed simp

lemma divrem_spec:
  assumes "unat hi < unat d"
  shows "unat (fst (br_divrem hi lo d)) = wide hi lo div unat d"
    and "unat (snd (br_divrem hi lo d)) = wide hi lo mod unat d"
proof -
  have hd: "EQ hi d = of_bool False" using assms unfolding EQ_spec by auto
  obtain q h l where f: "fold (div_step d) (rev [1..<32]) (0, hi, lo) = (q, h, l)" by (rule prod_cases3)
  have start: "div_inv (wide hi lo) d (Suc 31) (0, hi, lo)"
  proof -
    have "wide hi lo < (unat hi + 1) * 2 ^ 32" using unat_bounds(1) [of lo] by (simp add: wide_def)
    also have "\<dots> \<le> unat d * 2 ^ 32" using assms by (intro mult_right_mono) simp_all
    finally show ?thesis by (simp add: div_inv_def)
  qed
  have "div_inv (wide hi lo) d 1 (q, h, l)"
    using div_steps [OF _ start] f by simp
  then have q: "unat q * unat d + wide h l = wide hi lo" and V: "wide h l < unat d * 2" and dv: "2 ^ Suc 0 dvd unat q"
    by (simp_all add: div_inv_def)
  have hb: "h = of_bool (2 ^ 32 \<le> wide h l)"
  proof -
    have "wide h l < 2 * 2 ^ 32" using V unat_bounds(1) [of d] by linarith
    then have "wide h l div 2 ^ 32 < 2" by (rule less_mult_imp_div_less)
    then have "unat h < 2" by (simp only: wide_div_mod)
    moreover have "2 ^ 32 \<le> wide h l \<longleftrightarrow> unat h \<noteq> 0"
      unfolding wide_div_mod(1) [of h l, symmetric] by (simp add: div_eq_0_iff not_less)
    ultimately have "unat h = unat (of_bool (2 ^ 32 \<le> wide h l) :: u32)" by auto
    then show ?thesis by (simp only: word_unat_eq_iff)
  qed
  have cf: "GE l d OR h = of_bool (unat d \<le> wide h l)"
  proof (cases "2 ^ 32 \<le> wide h l")
    case True
    then have "unat d \<le> wide h l" using unat_bounds(1) [of d] by linarith
    moreover have "h = 1" using hb True by simp
    ultimately show ?thesis unfolding GE_spec by (cases "d \<le> l") simp_all
  next
    case False
    then have "h = 0" using hb by simp
    then show ?thesis unfolding GE_spec word_le_nat_alt wide_def by simp
  qed
  have div: "br_divrem hi lo d = (q OR of_bool (unat d \<le> wide h l), if unat d \<le> wide h l then l - d else l)"
    unfolding br_divrem_def hd Let_def MUX_of_bool if_False f prod.case cf ..
  have q1: "unat (q OR of_bool (unat d \<le> wide h l)) = unat q + of_bool (unat d \<le> wide h l)"
    using or_low_bit [of 0 q "unat d \<le> wide h l"] dv by simp
  have r: "unat (snd (br_divrem hi lo d)) = wide h l - of_bool (unat d \<le> wide h l) * unat d"
  proof (cases "unat d \<le> wide h l")
    case True
    have "int (unat (l - d)) = (int (wide h l mod 2 ^ 32) - int (unat d)) mod 2 ^ 32"
      unfolding wide_div_mod by (simp add: uint_word_ariths)
    also have "\<dots> = (int (wide h l) - int (unat d)) mod 2 ^ 32"
      by (simp only: zmod_int of_nat_power of_nat_numeral mod_diff_left_eq)
    also have "\<dots> = int (wide h l - unat d) mod int (2 ^ 32)" using True by (simp add: of_nat_diff)
    also have "\<dots> = int ((wide h l - unat d) mod 2 ^ 32)" by (simp only: zmod_int)
    also have "(wide h l - unat d) mod 2 ^ 32 = wide h l - unat d"
    proof (rule mod_less)
      show "wide h l - unat d < 2 ^ 32" using V unat_bounds(1) [of d] by linarith
    qed
    finally have "unat (l - d) = wide h l - unat d" by (simp only: of_nat_eq_iff)
    then show ?thesis unfolding div using True by simp
  next
    case False
    then have "wide h l < 2 ^ 32" using unat_bounds(1) [of d] by linarith
    then have "h = 0" using hb by simp
    then show ?thesis unfolding div using False by (simp add: wide_def)
  qed
  have rlt: "unat (snd (br_divrem hi lo d)) < unat d" unfolding r using V by (cases "unat d \<le> wide h l") simp_all
  have tot: "wide hi lo = unat (fst (br_divrem hi lo d)) * unat d + unat (snd (br_divrem hi lo d))"
    unfolding r unfolding div fst_conv q1 q [symmetric] by (cases "unat d \<le> wide h l") (simp_all add: algebra_simps)
  show "unat (fst (br_divrem hi lo d)) = wide hi lo div unat d"
    unfolding tot using rlt by simp
  show "unat (snd (br_divrem hi lo d)) = wide hi lo mod unat d"
    unfolding tot using rlt by simp
qed

lemma div_rem_specs:
  assumes "unat hi < unat d"
  shows "unat (br_div hi lo d) = wide hi lo div unat d" "unat (br_rem hi lo d) = wide hi lo mod unat d"
  using divrem_spec [OF assms] by (simp_all add: br_div_def br_rem_def)

end
