(* ===== verification/I31Muladd.thy ===== *)
theory I31Muladd
  imports I31Div
begin

section \<open>Big integers: multiplication by a word modulo an integer\<close>

text \<open>
  \<open>br_i31_muladd_small\<close> replaces \<open>x\<close> by \<open>(x * 2^31 + z) mod m\<close>.  The quotient is estimated from the leading words and
  is off by one at most; the sign of what is left tells which correction is due.
\<close>

unbundle bit_operations_syntax

text \<open>A modulus of \<open>L\<close> words with its header, and an array with the header of the modulus.\<close>

definition modulus31 :: "u32 list \<Rightarrow> nat \<Rightarrow> bool" where
  "modulus31 m L \<longleftrightarrow> 0 < L \<and> L < 2 ^ 26 \<and> words_ok m L \<and> m ! L \<noteq> 0
     \<and> unat (m ! 0) = 32 * (L - 1) + bit_len (unat (m ! L))"

definition sized :: "u32 list \<Rightarrow> u32 list \<Rightarrow> nat \<Rightarrow> bool" where
  "sized m x L \<longleftrightarrow> x ! 0 = m ! 0 \<and> words_ok x L"

lemma bit_len_31:
  assumes "n \<noteq> 0" "n < 2 ^ 31"
  shows "0 < bit_len n" "bit_len n \<le> 31"
proof -
  show "0 < bit_len n" using assms bit_len_step by simp
  have "(2 :: nat) ^ (bit_len n - 1) < 2 ^ 31" using assms bit_len_bounds [of n] by linarith
  then have "bit_len n - 1 < 31" by (simp only: power_strict_increasing_iff one_less_numeral_iff semiring_norm)
  then show "bit_len n \<le> 31" by simp
qed

lemma modulus31D:
  assumes "modulus31 m L"
  shows "0 < L" "words_ok m L" "words31 (m ! 0) = L" "unat (m ! 0) + 63 < 2 ^ 32" "m ! 0 \<noteq> 0"
    and "m ! 0 \<le> 31 \<longleftrightarrow> L = 1" "unat (m ! 0 AND 31) = bit_len (unat (m ! L))"
    and "0 < bit_len (unat (m ! L))" "bit_len (unat (m ! L)) \<le> 31"
proof -
  note M = assms [unfolded modulus31_def]
  show L: "0 < L" "words_ok m L" using M by simp_all
  have t: "unat (m ! L) \<noteq> 0" "unat (m ! L) < 2 ^ 31" using M by (auto simp: unat_eq_0 words_ok_def)
  show b: "0 < bit_len (unat (m ! L))" "bit_len (unat (m ! L)) \<le> 31" by (rule bit_len_31 [OF t])+
  have u: "unat (m ! 0) = 32 * (L - 1) + bit_len (unat (m ! L))" using M by simp
  moreover have "L < 67108864" using M by simp
  ultimately have "unat (m ! 0) + 63 < 4294967296" using b by linarith
  then show s: "unat (m ! 0) + 63 < 2 ^ 32" by simp
  have "words31 (m ! 0) = (unat (m ! 0) + 31) div 32" by (rule words31_div) (use s in simp)
  also have "\<dots> = L" using u b L(1) by (cases L) simp_all
  finally show "words31 (m ! 0) = L" .
  show "m ! 0 \<noteq> 0" using u b(1) by (auto simp: unat_eq_0 [symmetric])
  show "m ! 0 \<le> 31 \<longleftrightarrow> L = 1" using u b L(1) unfolding word_le_nat_alt by (cases L) auto
  have "m ! 0 AND 31 = take_bit 5 (m ! 0)"
    by (simp add: take_bit_eq_mask mask_eq_exp_minus_1)
  then have "unat (m ! 0 AND 31) = unat (m ! 0) mod 2 ^ 5" by (simp only: unsigned_take_bit_eq) (simp add: take_bit_eq_mod)
  also have "\<dots> = bit_len (unat (m ! L))" using u b by simp
  finally show "unat (m ! 0 AND 31) = bit_len (unat (m ! L))" .
qed

lemma nval_top: "0 < L \<Longrightarrow> nval x L = nval x (L - 1) + unat (x ! L) * 2 ^ (31 * (L - 1))"
  by (cases L) simp_all

lemma modulus_bounds:
  assumes "modulus31 m L"
  shows "2 ^ (31 * (L - 1) + bit_len (unat (m ! L)) - 1) \<le> nval m L"
    and "nval m L < 2 ^ (31 * (L - 1) + bit_len (unat (m ! L)))"
proof -
  let ?t = "unat (m ! L)" and ?R = "(2 :: nat) ^ (31 * (L - 1))"
  note M = assms [unfolded modulus31_def]
  have b: "0 < bit_len ?t" by (rule modulus31D(8) [OF assms])
  have v: "nval m L = nval m (L - 1) + ?t * ?R" using M by (intro nval_top) simp
  have t: "2 ^ (bit_len ?t - 1) \<le> ?t" "?t + 1 \<le> 2 ^ bit_len ?t"
    using M bit_len_bounds [of ?t] by (auto simp: unat_eq_0 Suc_le_eq)
  have "31 * (L - 1) + bit_len ?t - 1 = (bit_len ?t - 1) + 31 * (L - 1)" using b by linarith
  then have "2 ^ (31 * (L - 1) + bit_len ?t - 1) = 2 ^ (bit_len ?t - 1) * ?R" by (simp only: power_add)
  also have "\<dots> \<le> ?t * ?R" using t(1) by (rule mult_right_mono) simp
  finally show "2 ^ (31 * (L - 1) + bit_len ?t - 1) \<le> nval m L" using v by linarith
  have "nval m (L - 1) < ?R" by (rule nval_bound [OF words_ok_mono [OF modulus31D(2) [OF assms]]]) simp
  then have "nval m L < (?t + 1) * ?R" unfolding v by simp
  also have "\<dots> \<le> 2 ^ bit_len ?t * ?R" using t(2) by (rule mult_right_mono) simp
  finally show "nval m L < 2 ^ (31 * (L - 1) + bit_len ?t)" by (simp only: power_add ac_simps)
qed

subsection \<open>The leading bits\<close>

lemma or_add:
  fixes a b :: "'a :: len word"
  assumes "2 ^ n dvd unat a" "unat b < 2 ^ n"
  shows "unat (a OR b) = unat a + unat b"
proof -
  have "take_bit n (unat a) = 0" using assms(1) by (simp only: take_bit_eq_mod dvd_imp_mod_0)
  then have a: "\<not> bit (unat a) i" if "i < n" for i using that by (metis bit_0_eq bit_take_bit_iff bot_apply bot_bool_def)
  have "take_bit n (unat b) = unat b" using assms(2) by (simp only: take_bit_eq_mod mod_less)
  then have b: "\<not> bit (unat b) i" if "n \<le> i" for i using that by (metis bit_take_bit_iff not_less)
  have "unat a AND unat b = 0"
    by (rule bit_eqI) (use a b in \<open>auto simp: bit_and_iff not_less [symmetric]\<close>)
  then show ?thesis by (simp add: unsigned_or_eq disjunctive_add_eq_or)
qed

lemma dvd_push: "n \<le> 32 \<Longrightarrow> 2 ^ n dvd unat (push_bit n (a :: u32))"
  unfolding unat_push by (intro dvd_mod le_imp_power_dvd) simp_all

lemma leading_bits:
  assumes ok: "words_ok x L" and L: "2 \<le> L" and r: "r \<le> 31"
  shows "unat ((push_bit (31 - r) (x ! L) OR drop_bit r (x ! (L - 1))) AND 0x7FFFFFFF)
    = nval x L div 2 ^ (31 * (L - 2) + r) mod 2 ^ 31"
proof -
  define h l where "h = unat (x ! L)" and "l = unat (x ! (L - 1))"
  have l: "l < 2 ^ 31" using ok L by (simp add: words_ok_def l_def)
  have lr: "l div 2 ^ r < 2 ^ (31 - r)"
    by (rule less_mult_imp_div_less) (use l r in \<open>simp flip: power_add\<close>)
  have "unat (push_bit (31 - r) (x ! L) OR drop_bit r (x ! (L - 1)))
      = unat (push_bit (31 - r) (x ! L)) + unat (drop_bit r (x ! (L - 1)))"
    by (rule or_add [where n = "31 - r"]) (use lr in \<open>simp_all add: dvd_push unat_shift l_def\<close>)
  then have "unat ((push_bit (31 - r) (x ! L) OR drop_bit r (x ! (L - 1))) AND 0x7FFFFFFF)
      = (h * 2 ^ (31 - r) mod 2 ^ 32 + l div 2 ^ r) mod 2 ^ 31"
    unfolding unat_and31 by (simp only: unat_push unat_shift h_def l_def)
  also have "\<dots> = (h * 2 ^ (31 - r) + l div 2 ^ r) mod 2 ^ 31"
  proof -
    have "(2 :: nat) ^ 32 = 2 ^ 31 * 2" by simp
    then show ?thesis by (metis dvd_triv_left mod_add_left_eq mod_mod_cancel)
  qed
  also have "h * 2 ^ (31 - r) + l div 2 ^ r = (l + h * 2 ^ 31) div 2 ^ r"
  proof -
    have "(2 :: nat) ^ 31 = 2 ^ (31 - r) * 2 ^ r" using r by (simp flip: power_add)
    then have "(l + h * 2 ^ 31) div 2 ^ r = (l + (h * 2 ^ (31 - r)) * 2 ^ r) div 2 ^ r" by (simp only: mult.assoc)
    also have "\<dots> = h * 2 ^ (31 - r) + l div 2 ^ r" by (rule div_mult_self1) simp
    finally show ?thesis ..
  qed
  also have "l + h * 2 ^ 31 = nval x L div 2 ^ (31 * (L - 2))"
  proof -
    obtain k where k: "L = Suc (Suc k)" using L by (metis One_nat_def Suc_1 Suc_le_D Suc_le_mono)
    have "nval x k < 2 ^ (31 * k)" by (rule nval_bound [OF words_ok_mono [OF ok]]) (simp add: k)
    moreover have "nval x L = nval x k + (l + h * 2 ^ 31) * 2 ^ (31 * k)"
      by (simp add: k h_def l_def power_add algebra_simps)
    moreover have "L - 2 = k" by (simp add: k)
    ultimately show ?thesis by simp
  qed
  finally show ?thesis by (simp add: power_add div_mult2_eq)
qed

lemma wide31:
  assumes "unat z < 2 ^ 31"
  shows "wide (drop_bit 1 x) (push_bit 31 x OR z) = unat x * 2 ^ 31 + unat z"
proof -
  have "unat (push_bit 31 x OR z) = unat (push_bit 31 x) + unat z"
    by (rule or_add [OF dvd_push assms]) simp
  also have "unat (push_bit 31 x) = (unat x mod 2) * 2 ^ 31"
    unfolding unat_push using mod_mult_mult2 [of "unat x" "2 ^ 31" 2] by simp
  finally have "wide (drop_bit 1 x) (push_bit 31 x OR z) = (unat x div 2) * 2 ^ 32 + (unat x mod 2) * 2 ^ 31 + unat z"
    by (simp add: wide_def unat_shift)
  also have "\<dots> = (2 * (unat x div 2) + unat x mod 2) * 2 ^ 31 + unat z" by (simp only: distrib_right) simp
  finally show ?thesis by (simp only: mult_div_mod_eq)
qed

subsection \<open>The estimate of the quotient\<close>

definition guess :: "nat \<Rightarrow> nat \<Rightarrow> nat" where
  "guess G b = (if G div 2 ^ 31 = b then 2 ^ 31 - 1 else if G div b = 0 then 0 else G div b - 1)"

lemma quotient_estimate:
  fixes A M T :: nat
  assumes T: "0 < T" and b: "2 ^ 30 \<le> M div T" "M div T < 2 ^ 31" and A: "A < 2 ^ 31 * M"
  defines "q \<equiv> guess (A div T) (M div T)"
  shows "q < 2 ^ 31" "q * M \<le> A + M" "A < (q + 2) * M"
proof -
  define b where "b = M div T"
  define G where "G = A div T"
  have M1: "b * T \<le> M" by (simp add: b_def)
  have M2: "M < (b + 1) * T"
  proof -
    have "M = b * T + M mod T" by (simp add: b_def)
    also have "\<dots> < b * T + T" using T by simp
    finally show ?thesis by simp
  qed
  have A1: "G * T \<le> A" by (simp add: G_def)
  have A2: "A < (G + 1) * T"
  proof -
    have "A = G * T + A mod T" by (simp add: G_def)
    also have "\<dots> < G * T + T" using T by simp
    finally show ?thesis by simp
  qed
  have b0: "2 ^ 30 \<le> b" "b < 2 ^ 31" using b by (simp_all add: b_def)
  define a where "a = G div 2 ^ 31"
  have GG: "G = a * 2 ^ 31 + G mod 2 ^ 31" by (simp add: a_def)
  have ab: "a \<le> b"
  proof (rule ccontr)
    assume "\<not> a \<le> b"
    then have "(b + 1) * 2 ^ 31 \<le> G" by (subst GG) (simp add: trans_le_add1)
    then have "(b + 1) * 2 ^ 31 * T \<le> A" using A1 by (meson le_trans mult_le_mono1)
    moreover have "2 ^ 31 * M \<le> 2 ^ 31 * ((b + 1) * T)" using M2 by simp
    ultimately show False using A by (simp add: algebra_simps)
  qed
  have up: "A < (u + 1) * M" if "G < (u + 1) * b" for u
  proof -
    have "A < (G + 1) * T" by (rule A2)
    also have "\<dots> \<le> (u + 1) * b * T" using that by (intro mult_right_mono) simp_all
    also have "\<dots> \<le> (u + 1) * M" using M1 by (simp only: mult.assoc mult_le_mono2)
    finally show ?thesis .
  qed
  have low: "u * M \<le> A" if "u * (b + 1) \<le> G" for u
  proof -
    have "u * M \<le> u * ((b + 1) * T)" using M2 by simp
    also have "\<dots> \<le> G * T" using that by (simp only: mult.assoc [symmetric] mult_le_mono1)
    also have "\<dots> \<le> A" by (rule A1)
    finally show ?thesis .
  qed
  have "q < 2 ^ 31 \<and> q * M \<le> A + M \<and> A < (q + 2) * M"
  proof (cases "a = b")
    case True
    then have q: "q = 2 ^ 31 - 1" by (simp add: q_def guess_def G_def [symmetric] b_def [symmetric] a_def)
    have "(2 ^ 31 - 2) * (b + 1) \<le> G"
      using b0(1) by (subst GG) (simp add: True algebra_simps)
    then have "(2 ^ 31 - 2) * M \<le> A" by (rule low)
    moreover have "(2 ^ 31 - 1) * M = (2 ^ 31 - 2) * M + M" by (simp add: algebra_simps)
    moreover have "A < (2 ^ 31 - 1 + 2) * M" using A by simp
    ultimately show ?thesis unfolding q by simp
  next
    case False
    then have lt: "a < b" using ab by simp
    define u where "u = G div b"
    have u31: "u < 2 ^ 31"
    proof -
      have "G < (a + 1) * 2 ^ 31" by (subst GG) simp
      also have "\<dots> \<le> 2 ^ 31 * b" using lt by simp
      finally show ?thesis unfolding u_def by (rule less_mult_imp_div_less)
    qed
    have ub: "u * b \<le> G" by (simp add: u_def)
    have bpos: "0 < b" using b0(1) by (cases b) simp_all
    have "G = u * b + G mod b" by (simp add: u_def)
    moreover have "G mod b < b" using bpos by (rule mod_less_divisor)
    ultimately have "G < u * b + b" by linarith
    then have "G < (u + 1) * b" by simp
    then have ubnd: "A < (u + 1) * M" by (rule up)
    show ?thesis
    proof (cases "u = 0")
      case True
      then have "q = 0" using False by (simp add: q_def guess_def G_def [symmetric] b_def [symmetric] a_def u_def)
      moreover have "M \<le> 2 * M" by simp
      ultimately show ?thesis using ubnd True by auto
    next
      case nz: False
      then have q: "q = u - 1" using False by (simp add: q_def guess_def G_def [symmetric] b_def [symmetric] a_def u_def)
      have 2: "A < (q + 2) * M" using ubnd nz q by simp
      have "q * M \<le> A + M"
      proof (cases "u = 1")
        case False
        then obtain v where v: "u = v + 2" using nz by (metis One_nat_def Suc_1 add.commute add_2_eq_Suc not0_implies_Suc)
        have "v * (b + 1) \<le> G" using ub u31 b0 unfolding v by (simp add: algebra_simps)
        then have "v * M \<le> A" by (rule low)
        then show ?thesis unfolding q v by simp
      qed (simp add: q)
      then show ?thesis using 2 u31 q by simp
    qed
  qed
  then show "q < 2 ^ 31" "q * M \<le> A + M" "A < (q + 2) * M" by simp_all
qed

subsection \<open>The multiple of the modulus is subtracted\<close>

lemma of_bool_32: "unat (w :: u32) = of_bool b \<Longrightarrow> w = of_bool b"
  by (rule word_unat_eq_iff [THEN iffD2]) (cases b; simp)

lemma muladd_loop:
  assumes x: "words_ok x k" and m: "words_ok m k" and q: "unat q < 2 ^ 31"
  shows "\<exists>cc y. fold (muladd_step q m) [1..<Suc k] (0, 1, x) = (cc, of_bool (nval m k \<le> nval y k), y)
    \<and> unat cc \<le> 2 ^ 31 \<and> on_words k x y
    \<and> nval x k + unat cc * 2 ^ (31 * k) = nval y k + unat q * nval m k"
  using x m
proof (induction k)
  case 0
  then show ?case by (intro exI [of _ 0] exI [of _ x]) (simp add: on_words_def)
next
  case (Suc k)
  let ?R = "(2 :: nat) ^ (31 * k)"
  have ok: "words_ok x k" "words_ok m k" using Suc.prems by (simp_all add: words_ok_Suc)
  from Suc.IH [OF ok] obtain cc y where f: "fold (muladd_step q m) [1..<Suc k] (0, 1, x) = (cc, of_bool (nval m k \<le> nval y k), y)"
    and cc: "unat cc \<le> 2 ^ 31" and on: "on_words k x y"
    and eq: "nval x k + unat cc * ?R = nval y k + unat q * nval m k" by blast
  define mw xw where "mw = m ! Suc k" and "xw = x ! Suc k"
  have w: "unat mw < 2 ^ 31" "unat xw < 2 ^ 31" using Suc.prems by (simp_all add: words_ok_Suc mw_def xw_def)
  have yx: "y ! Suc k = xw" using on by (simp add: on_words_def xw_def)
  define zl where "zl = MUL31 mw q + ucast cc"
  have mq: "unat mw * unat q \<le> (2 ^ 31 - 1) * (2 ^ 31 - 1)" by (rule mult_mono) (use w q in simp_all)
  have zl: "unat zl = unat mw * unat q + unat cc"
  proof -
    have "unat (MUL31 mw q) = unat mw * unat q"
      unfolding MUL31_def by (subst unat_times) (use mq in simp_all)
    then show ?thesis unfolding zl_def by (subst unat_plus) (use mq cc in simp_all)
  qed
  have hi: "unat zl div 2 ^ 31 < 2 ^ 31" by (rule less_mult_imp_div_less) (use zl mq cc in simp)
  have cc1: "unat (ucast (drop_bit 31 zl) :: u32) = unat zl div 2 ^ 31"
    unfolding unat_ucast32 unat_shift using hi by simp
  define zw where "zw = (ucast zl :: u32) AND 0x7FFFFFFF"
  have zw: "unat zw = unat zl mod 2 ^ 31" unfolding zw_def by (rule unat_lo31)
  define nx where "nx = xw - zw"
  define b where "b \<longleftrightarrow> unat xw < unat zw"
  have nx: "unat nx mod 2 ^ 31 + unat zw = unat xw + of_bool b * 2 ^ 31" "drop_bit 31 nx = of_bool b"
    using borrow_word [of xw zw False] w zw by (simp_all add: nx_def b_def)
  define cc' where "cc' = (ucast (drop_bit 31 zl) :: u32) + drop_bit 31 nx"
  have cc': "unat cc' = unat zl div 2 ^ 31 + of_bool b"
    unfolding cc'_def nx(2) by (subst unat_plus) (use cc1 hi in \<open>cases b; simp\<close>)+
  define y' where "y' = y[Suc k := nx AND 0x7FFFFFFF]"
  have len: "Suc k < length y" using on Suc.prems by (simp add: on_words_def words_ok_Suc)
  have top: "nval y' (Suc k) = nval y k + (unat nx mod 2 ^ 31) * ?R" using len by (simp add: y'_def unat_and31)
  have on': "on_words (Suc k) x y'" using on len by (auto simp: on_words_def y'_def words_ok_Suc unat_and31)
  have step: "muladd_step q m (Suc k) (cc, of_bool (nval m k \<le> nval y k), y)
      = (cc', MUX (EQ (nx AND 0x7FFFFFFF) mw) (of_bool (nval m k \<le> nval y k)) (GT (nx AND 0x7FFFFFFF) mw), y')"
    unfolding muladd_step_def prod.case Let_def yx mw_def [symmetric] zl_def [symmetric] zw_def [symmetric]
      nx_def [symmetric] cc'_def [symmetric] y'_def [symmetric] ..
  have tb: "MUX (EQ (nx AND 0x7FFFFFFF) mw) (of_bool (nval m k \<le> nval y k)) (GT (nx AND 0x7FFFFFFF) mw)
      = of_bool (nval m (Suc k) \<le> nval y' (Suc k))"
  proof -
    define n where "n = unat nx mod 2 ^ 31"
    have yb: "nval y k < ?R" "nval m k < ?R" using on ok by (simp_all add: on_words_def nval_bound)
    have less: "u + a * ?R < v + c * ?R" if "a < c" "u < ?R" for u v a c
    proof -
      have "u + a * ?R < (a + 1) * ?R" using that by simp
      also have "\<dots> \<le> c * ?R" using that by (intro mult_right_mono) simp_all
      finally show ?thesis by simp
    qed
    have "nval m (Suc k) \<le> nval y' (Suc k) \<longleftrightarrow> (if n = unat mw then nval m k \<le> nval y k else unat mw < n)"
    proof (cases "n = unat mw")
      case True
      then show ?thesis unfolding top n_def [symmetric] by (simp add: mw_def)
    next
      case False
      then have "n < unat mw \<or> unat mw < n" by linarith
      then show ?thesis
        using False less [of n "unat mw" "nval y k" "nval m k"] less [of "unat mw" n "nval m k" "nval y k"] yb
        unfolding top n_def [symmetric] by (auto simp: mw_def)
    qed
    moreover have "unat (nx AND 0x7FFFFFFF) = n" by (simp only: unat_and31 n_def)
    ultimately show ?thesis unfolding EQ_spec GT_spec MUX_of_bool word_less_nat_alt word_unat_eq_iff by simp
  qed
  have "nval x (Suc k) + unat cc' * 2 ^ (31 * Suc k)
      = nval x k + (unat xw + unat cc' * 2 ^ 31) * ?R"
    by (simp add: xw_def power_add algebra_simps)
  also have "unat xw + unat cc' * 2 ^ 31 = unat nx mod 2 ^ 31 + unat zl"
  proof -
    have "unat cc' * 2 ^ 31 = unat zl div 2 ^ 31 * 2 ^ 31 + of_bool b * 2 ^ 31" by (simp add: cc' algebra_simps)
    then have "unat xw + unat cc' * 2 ^ 31 = unat zl div 2 ^ 31 * 2 ^ 31 + (unat xw + of_bool b * 2 ^ 31)" by simp
    also have "\<dots> = unat zl div 2 ^ 31 * 2 ^ 31 + unat zl mod 2 ^ 31 + unat nx mod 2 ^ 31"
      unfolding nx(1) [symmetric] zw by simp
    finally show ?thesis by simp
  qed
  also have "nval x k + (unat nx mod 2 ^ 31 + unat zl) * ?R
      = (nval x k + unat cc * ?R) + (unat nx mod 2 ^ 31 + unat mw * unat q) * ?R"
    by (simp add: zl algebra_simps)
  also have "\<dots> = nval y' (Suc k) + unat q * nval m (Suc k)"
    unfolding eq top by (simp add: mw_def algebra_simps)
  finally have sum: "nval x (Suc k) + unat cc' * 2 ^ (31 * Suc k) = nval y' (Suc k) + unat q * nval m (Suc k)" .
  have "fold (muladd_step q m) [1..<Suc (Suc k)] (0, 1, x) = (cc', of_bool (nval m (Suc k) \<le> nval y' (Suc k)), y')"
    using f step tb by simp
  moreover have "unat cc' \<le> 2 ^ 31" using cc' hi by (cases b) simp_all
  ultimately show ?case using on' sum by blast
qed

subsection \<open>The whole function\<close>

text \<open>The corrections, once for the numbers involved.\<close>

lemma correction:
  fixes A M R X Y q cc hi :: nat
  assumes A: "A = X + hi * R" and run: "X + cc * R = Y + q * M" and XY: "X < R" "Y < R" and MR: "M < R" "0 < M"
    and est: "q * M \<le> A + M" "A < (q + 2) * M"
  shows "hi < cc \<Longrightarrow> (Y + M) mod R = A mod M"
    and "\<not> hi < cc \<Longrightarrow> M \<le> Y \<or> cc < hi \<Longrightarrow> (if Y < M then Y + R - M else Y - M) = A mod M"
    and "\<not> hi < cc \<Longrightarrow> \<not> (M \<le> Y \<or> cc < hi) \<Longrightarrow> Y = A mod M"
proof -
  have all: "A + cc * R = Y + q * M + hi * R" using A run by linarith
  have A2: "A < q * M + 2 * M" using est(2) by (simp add: algebra_simps)
  have modq: "A mod M = r" if "A = q' * M + r" "r < M" for q' r using that by simp
  show "(Y + M) mod R = A mod M" if hc: "hi < cc"
  proof -
    obtain d where d: "cc = hi + Suc d" using hc less_iff_Suc_add by (metis add_Suc_right)
    have e: "A + R + d * R = Y + q * M" using all by (simp add: d algebra_simps)
    have d0: "d = 0"
    proof (rule ccontr)
      assume "d \<noteq> 0"
      then have "R \<le> d * R" by simp
      then have "A + R + R \<le> Y + q * M" using e by linarith
      then show False using est(1) XY MR by linarith
    qed
    then have e: "A + R = Y + q * M" using e by simp
    have "q \<noteq> 0" using e XY by (cases q) simp_all
    then obtain p where p: "q = Suc p" using not0_implies_Suc by blast
    have e': "A + R = Y + M + p * M" using e by (simp add: p)
    have YM: "R \<le> Y + M" using e est(1) by linarith
    then have "(Y + M) mod R = Y + M - R" using XY MR by (simp add: le_mod_geq)
    moreover have "A = p * M + (Y + M - R)" using e' YM by linarith
    moreover have "Y + M - R < M" using XY YM by linarith
    ultimately show ?thesis using modq by metis
  qed
  show "(if Y < M then Y + R - M else Y - M) = A mod M" if hc: "\<not> hi < cc" and u: "M \<le> Y \<or> cc < hi"
  proof -
    obtain d where d: "hi = cc + d" using hc by (metis le_Suc_ex not_less)
    have e: "A = Y + q * M + d * R" using all by (simp add: d algebra_simps)
    show ?thesis
    proof (cases "d = 0")
      case True
      then have "M \<le> Y" using u d by simp
      moreover have "A = Suc q * M + (Y - M)" using e True \<open>M \<le> Y\<close> by simp
      moreover have "Y - M < M" using e True A2 \<open>M \<le> Y\<close> by linarith
      ultimately show ?thesis using modq by (metis not_less)
    next
      case False
      then have "R \<le> d * R" by simp
      have d1: "d = 1"
      proof (rule ccontr)
        assume "d \<noteq> 1"
        then have "2 \<le> d" using False by linarith
        then have "2 * R \<le> d * R" by (rule mult_right_mono) simp
        then show False using e A2 MR by linarith
      qed
      then have e1: "A = Y + q * M + R" using e by simp
      have "Y < M" using e1 A2 MR by linarith
      moreover have "A = Suc q * M + (Y + R - M)" using e1 MR by simp
      moreover have "Y + R - M < M" using e1 A2 MR by linarith
      ultimately show ?thesis using modq by metis
    qed
  qed
  show "Y = A mod M" if hc: "\<not> hi < cc" and u: "\<not> (M \<le> Y \<or> cc < hi)"
  proof -
    have "hi = cc" using hc u by simp
    then have "A = q * M + Y" using all by simp
    moreover have "Y < M" using u by simp
    ultimately show ?thesis using modq by metis
  qed
qed

lemma sized_walks:
  assumes m: "modulus31 m L" and x: "sized m x L"
  shows "\<exists>s. br_i31_add x m (of_bool c) = (of_bool (2 ^ (31 * L) \<le> nval x L + nval m L), if c then s else x)
      \<and> on_words L x s \<and> nval s L = (nval x L + nval m L) mod 2 ^ (31 * L)"
    and "\<exists>s. br_i31_sub x m (of_bool c) = (of_bool (nval x L < nval m L), if c then s else x)
      \<and> on_words L x s \<and> nval s L + nval m L = nval x L + of_bool (nval x L < nval m L) * 2 ^ (31 * L)"
proof -
  have h: "words31 (x ! 0) = L" "unat (x ! 0) + 63 < 2 ^ 32" and ok: "words_ok x L" "words_ok m L"
    using modulus31D [OF m] x by (simp_all add: sized_def)
  show "\<exists>s. br_i31_add x m (of_bool c) = (of_bool (2 ^ (31 * L) \<le> nval x L + nval m L), if c then s else x)
      \<and> on_words L x s \<and> nval s L = (nval x L + nval m L) mod 2 ^ (31 * L)"
    unfolding add_is_walk [OF h] by (rule add_walk [OF ok])
  show "\<exists>s. br_i31_sub x m (of_bool c) = (of_bool (nval x L < nval m L), if c then s else x)
      \<and> on_words L x s \<and> nval s L + nval m L = nval x L + of_bool (nval x L < nval m L) * 2 ^ (31 * L)"
    unfolding sub_is_walk [OF h] by (rule sub_walk [OF ok])
qed

lemma sized_on_words: "sized m x L \<Longrightarrow> on_words L x s \<Longrightarrow> sized m s L"
  by (simp add: sized_def on_words_def)

lemma correct_by_control:
  assumes m: "modulus31 m L" and y: "sized m y L" and X: "A = X + hi * 2 ^ (31 * L)" "X < 2 ^ (31 * L)" and
    run: "X + unat cc * 2 ^ (31 * L) = nval y L + q * nval m L" and
    est: "q * nval m L \<le> A + nval m L" "A < (q + 2) * nval m L" and h: "unat hw = hi"
  defines "over \<equiv> GT cc hw"
  defines "short \<equiv> NOT over AND (of_bool (nval m L \<le> nval y L) OR LT cc hw)"
  defines "r \<equiv> snd (br_i31_sub (snd (br_i31_add y m over)) m short)"
  shows "length r = length y \<and> sized m r L \<and> nval r L = A mod nval m L"
proof -
  let ?M = "nval m L" and ?R = "(2 :: nat) ^ (31 * L)"
  have MR: "?M < ?R" by (rule nval_bound [OF modulus31D(2) [OF m]])
  have M0: "0 < ?M" using modulus_bounds(1) [OF m] by (metis gr0I le_0_eq power_not_zero zero_neq_numeral)
  have YR: "nval y L < ?R" using y by (simp add: sized_def nval_bound)
  note cor = correction [OF X(1) run X(2) YR MR M0 est]
  have ov: "over = of_bool (hi < unat cc)" by (simp add: over_def GT_spec word_less_nat_alt h)
  have un: "short = of_bool (\<not> hi < unat cc \<and> (?M \<le> nval y L \<or> unat cc < hi))"
    unfolding short_def ov LT_spec word_less_nat_alt h
    by (cases "hi < unat cc"; cases "?M \<le> nval y L"; cases "unat cc < hi") simp_all
  obtain s where s: "br_i31_add y m over = (of_bool (?R \<le> nval y L + ?M), if hi < unat cc then s else y)"
    and son: "on_words L y s" and sv: "nval s L = (nval y L + ?M) mod ?R"
    using sized_walks(1) [OF m y, of "hi < unat cc"] unfolding ov [symmetric] by blast
  define a where "a = (if hi < unat cc then s else y)"
  have a: "sized m a L" unfolding a_def using sized_on_words [OF y son] y by simp
  obtain u where u: "br_i31_sub a m short = (of_bool (nval a L < ?M), if \<not> hi < unat cc \<and> (?M \<le> nval y L \<or> unat cc < hi) then u else a)"
    and uon: "on_words L a u" and uv: "nval u L + ?M = nval a L + of_bool (nval a L < ?M) * ?R"
    using sized_walks(2) [OF m a, of "\<not> hi < unat cc \<and> (?M \<le> nval y L \<or> unat cc < hi)"] unfolding un [symmetric] by blast
  have r: "r = (if \<not> hi < unat cc \<and> (?M \<le> nval y L \<or> unat cc < hi) then u else a)"
    unfolding r_def s snd_conv a_def [symmetric] u ..
  have "length r = length y \<and> sized m r L"
    using a sized_on_words [OF a uon] son uon unfolding r by (auto simp: on_words_def a_def)
  moreover have "nval r L = A mod ?M"
  proof (cases "hi < unat cc")
    case True
    then show ?thesis using cor(1) sv by (simp add: r a_def)
  next
    case False
    then have "a = y" by (simp add: a_def)
    then have "nval u L = (if nval y L < ?M then nval y L + ?R - ?M else nval y L - ?M)" using uv by auto
    then show ?thesis using False cor(2,3) \<open>a = y\<close> by (auto simp: r)
  qed
  ultimately show ?thesis by blast
qed

text \<open>The array is moved up by a word.\<close>

lemma memmove_up:
  fixes x :: "u32 list" and z :: u32
  assumes "0 < L" "L < length x"
  defines "y \<equiv> (memmove_up x L)[1 := z]"
  shows "length y = length x" "y ! 0 = x ! 0" "y ! 1 = z" "\<And>i. 0 < i \<Longrightarrow> i < L \<Longrightarrow> y ! Suc i = x ! i"
proof -
  show l: "length y = length x" using assms by (auto simp: memmove_up_def)
  show "y ! 0 = x ! 0" using assms by (auto simp: memmove_up_def nth_append)
  show "y ! 1 = z" using assms l by (simp add: memmove_up_def)
  fix i assume i: "0 < i" "i < L"
  obtain j where j: "i = Suc j" using i by (cases i) simp_all
  have jL: "j < L - 1" using i j by simp
  have "y ! Suc i = (take 2 x @ take (L - 1) (drop 1 x) @ drop (L + 1) x) ! Suc (Suc j)"
    unfolding y_def memmove_up_def j by simp
  also have "\<dots> = (take (L - 1) (drop 1 x) @ drop (L + 1) x) ! j" using assms(2) i by (simp add: nth_append j min_def)
  also have "\<dots> = x ! i" using assms(2) i jL by (simp add: nth_append j)
  finally show "y ! Suc i = x ! i" .
qed

lemma muladd_small_one:
  assumes m: "modulus31 m 1" and x: "sized m x 1" and z: "unat z < 2 ^ 31"
    and r: "unat (x ! 1) div 2 < unat (m ! 1)"
  defines "y \<equiv> br_i31_muladd_small x z m"
  shows "length y = length x \<and> sized m y 1 \<and> nval y 1 = (nval x 1 * 2 ^ 31 + unat z) mod nval m 1"
proof -
  have len: "1 < length x" using x by (simp add: sized_def words_ok_def)
  have m1: "unat (m ! 1) < 2 ^ 31" using modulus31D(2) [OF m] by (simp add: words_ok_def)
  have y: "y = x[1 := br_rem (drop_bit 1 (x ! 1)) (push_bit 31 (x ! 1) OR z) (m ! 1)]"
    unfolding y_def br_i31_muladd_small_def Let_def using modulus31D(5,6) [OF m] by simp
  have "unat (br_rem (drop_bit 1 (x ! 1)) (push_bit 31 (x ! 1) OR z) (m ! 1)) = (unat (x ! 1) * 2 ^ 31 + unat z) mod unat (m ! 1)"
    unfolding wide31 [OF z, symmetric] by (rule div_rem_specs(2)) (use r in \<open>simp add: unat_shift\<close>)
  then have v: "unat (y ! 1) = (unat (x ! 1) * 2 ^ 31 + unat z) mod unat (m ! 1)" using len by (simp add: y)
  have "unat (m ! 1) \<noteq> 0" using r by simp
  then have "unat (y ! 1) < unat (m ! 1)" unfolding v by (intro mod_less_divisor) simp
  then have "sized m y 1" using x len m1 by (simp add: sized_def words_ok_def y)
  then show ?thesis using v by (simp add: y)
qed

lemma muladd_small_many:
  assumes m: "modulus31 m L" and L: "2 \<le> L" and x: "sized m x L" and z: "unat z < 2 ^ 31" and lt: "nval x L < nval m L"
  defines "y \<equiv> br_i31_muladd_small x z m"
  shows "length y = length x \<and> sized m y L \<and> nval y L = (nval x L * 2 ^ 31 + unat z) mod nval m L"
proof -
  note M = modulus31D [OF m]
  define r where "r = bit_len (unat (m ! L))"
  define T where "T = (2 :: nat) ^ (31 * (L - 2) + r)"
  define A where "A = nval x L * 2 ^ 31 + unat z"
  define hi where "hi = x ! L"
  define x1 where "x1 = (memmove_up x L)[1 := z]"
  have r: "0 < r" "r \<le> 31" using M(8,9) by (simp_all add: r_def)
  have ok: "words_ok x L" and len: "0 < L" "L < length x" using x L by (simp_all add: sized_def words_ok_def)
  have T31: "T * 2 ^ 31 = 2 ^ (31 * (L - 1) + r)" 
  proof -
    have "31 * (L - 1) + r = (31 * (L - 2) + r) + 31" using L by simp
    then show ?thesis by (simp only: T_def power_add)
  qed
  have T30: "T * 2 ^ 30 = 2 ^ (31 * (L - 1) + r - 1)"
  proof -
    have "31 * (L - 1) + r - 1 = (31 * (L - 2) + r) + 30" using L r by simp
    then show ?thesis by (simp only: T_def power_add)
  qed
  have Mb: "T * 2 ^ 30 \<le> nval m L" "nval m L < T * 2 ^ 31"
    using modulus_bounds [OF m] unfolding T30 T31 r_def by simp_all
  have T0: "0 < T" by (simp add: T_def)
  have b: "2 ^ 30 \<le> nval m L div T" using Mb(1) T0 by (simp add: less_eq_div_iff_mult_less_eq ac_simps)
  have b': "nval m L div T < 2 ^ 31" by (rule less_mult_imp_div_less) (use Mb(2) in \<open>simp add: ac_simps\<close>)
  have ALT: "A < 2 ^ 31 * nval m L"
  proof -
    have "A < (nval x L + 1) * 2 ^ 31" using z by (simp add: A_def)
    also have "\<dots> \<le> nval m L * 2 ^ 31" using lt by (intro mult_right_mono) simp_all
    finally show ?thesis by (simp only: ac_simps)
  qed
  \<comment> \<open>the array moved up\<close>
  note up = memmove_up [OF len, where z = z, folded x1_def]
  have sx1: "sized m x1 L"
    unfolding sized_def words_ok_def
  proof (intro conjI ballI)
    show "x1 ! 0 = m ! 0" using up(2) x by (simp add: sized_def)
    show "L < length x1" using up(1) len by simp
    fix i assume "i \<in> {1..L}"
    then consider "i = 1" | j where "i = Suc j" "0 < j" "j < L" by (cases i) auto
    then show "unat (x1 ! i) < 2 ^ 31"
    proof cases
      case 2
      then show ?thesis using up(4) ok by (simp add: words_ok_def)
    qed (use up(3) z in simp)
  qed
  obtain k where k: "L = Suc k" using len by (cases L) simp_all
  have A: "A = nval x1 L + unat hi * 2 ^ (31 * L)"
  proof -
    have "nval x1 (Suc k) = unat (x1 ! 1) + 2 ^ 31 * nval x k"
      by (rule nval_shift) (use up(4) k in simp)
    then show ?thesis unfolding A_def hi_def k using up(3) by (simp add: power_add algebra_simps)
  qed
  \<comment> \<open>the leading bits\<close>
  have xT: "nval x L div T < 2 ^ 31" by (rule less_mult_imp_div_less) (use lt Mb(2) in \<open>simp add: ac_simps\<close>)
  define a0 where "a0 = (push_bit (31 - r) (x ! L) OR drop_bit r (x ! (L - 1))) AND 0x7FFFFFFF"
  define a1 where "a1 = (push_bit (31 - r) (x1 ! L) OR drop_bit r (x1 ! (L - 1))) AND 0x7FFFFFFF"
  define b0 where "b0 = (push_bit (31 - r) (m ! L) OR drop_bit r (m ! (L - 1))) AND 0x7FFFFFFF"
  have a0: "unat a0 = nval x L div T"
    unfolding a0_def leading_bits [OF ok L r(2)] T_def [symmetric] using xT by simp
  have b0: "unat b0 = nval m L div T"
    unfolding b0_def leading_bits [OF M(2) L r(2)] T_def [symmetric] using b' by simp
  have a1: "unat a1 = nval x1 L div T mod 2 ^ 31"
    unfolding a1_def T_def by (rule leading_bits [OF _ L r(2)]) (use sx1 in \<open>simp add: sized_def\<close>)
  have AT: "A div T = unat a0 * 2 ^ 31 + unat a1"
  proof -
    have "A div T div 2 ^ 31 = A div 2 ^ 31 div T" by (simp only: div_mult2_eq [symmetric] ac_simps)
    also have "A div 2 ^ 31 = nval x L" using z by (simp add: A_def)
    finally have q: "A div T div 2 ^ 31 = unat a0" by (simp only: a0)
    have "31 * L = 31 * (L - 2) + r + 31 + (31 - r)" using L r by simp
    then have "(2 :: nat) ^ (31 * L) = T * 2 ^ 31 * 2 ^ (31 - r)" by (simp only: T_def power_add)
    then have "A = nval x1 L + (unat hi * 2 ^ (31 - r) * 2 ^ 31) * T" unfolding A by (simp only: ac_simps)
    then have "A div T = unat hi * 2 ^ (31 - r) * 2 ^ 31 + nval x1 L div T" using T0 by simp
    then have "A div T mod 2 ^ 31 = unat a1" by (simp add: a1)
    with q show ?thesis by (metis div_mult_mod_eq)
  qed
  \<comment> \<open>the estimate\<close>
  define g where "g = br_div (drop_bit 1 a0) (a1 OR push_bit 31 a0) b0"
  define q where "q = MUX (EQ a0 b0) 0x7FFFFFFF (MUX (EQ g 0) 0 (g - 1))"
  have a1b: "unat a1 < 2 ^ 31" unfolding a1 by simp
  have ab: "unat a0 \<le> unat b0" unfolding a0 b0 using lt by (simp add: div_le_mono)
  have lt2: "unat (drop_bit 1 a0) < unat b0"
  proof -
    have "unat b0 \<noteq> 0" using b b0 by (cases "unat b0") simp_all
    moreover have "unat (drop_bit 1 a0) = unat a0 div 2" by (simp add: unat_shift)
    ultimately show ?thesis using ab by linarith
  qed
  have g: "unat g = A div T div (nval m L div T)"
    unfolding g_def or.commute [of a1] div_rem_specs(1) [OF lt2] wide31 [OF a1b] AT [symmetric] b0 ..
  have q: "unat q = guess (A div T) (nval m L div T)"
  proof -
    have d: "A div T div 2 ^ 31 = unat a0" unfolding AT using a1b by simp
    have e: "a0 = b0 \<longleftrightarrow> A div T div 2 ^ 31 = nval m L div T" unfolding d b0 [symmetric] by (rule word_unat_eq_iff)
    have "g = 0 \<longleftrightarrow> unat g = 0" by (simp add: unat_eq_0)
    then have z: "g = 0 \<longleftrightarrow> A div T div (nval m L div T) = 0" unfolding g .
    have "unat (g - 1) = A div T div (nval m L div T) - 1" if "g \<noteq> 0" using that unat_minus_one g by metis
    then show ?thesis unfolding q_def EQ_spec MUX_of_bool guess_def e [symmetric] z [symmetric] by simp
  qed
  note est = quotient_estimate [OF T0 b b' ALT, folded q]
  \<comment> \<open>the subtraction and its correction\<close>
  obtain cc w where f: "fold (muladd_step q m) [1..<Suc L] (0, 1, x1) = (cc, of_bool (nval m L \<le> nval w L), w)"
    and on: "on_words L x1 w" and run: "nval x1 L + unat cc * 2 ^ (31 * L) = nval w L + unat q * nval m L"
    using muladd_loop [OF _ M(2) est(1), of x1] sx1 unfolding sized_def by blast
  have y: "y = snd (br_i31_sub (snd (br_i31_add w m (GT cc hi))) m
      (NOT (GT cc hi) AND (of_bool (nval m L \<le> nval w L) OR LT cc hi)))"
  proof -
    have c: "(m ! 0 = 0) = False" "(m ! 0 \<le> 31) = False" "(r = 0) = False" using M(5,6) L r(1) by simp_all
    show ?thesis
      unfolding y_def br_i31_muladd_small_def Let_def M(3,7) r_def [symmetric] c if_False prod.case
      unfolding x1_def [symmetric] a0_def [symmetric] b0_def [symmetric] unfolding a1_def [symmetric] hi_def [symmetric]
      unfolding g_def [symmetric] unfolding q_def [symmetric] Suc_eq_plus1 [symmetric] f prod.case ..
  qed
  have "length w = length x" using on up(1) by (simp add: on_words_def)
  moreover have X: "nval x1 L < 2 ^ (31 * L)" using sx1 by (simp add: sized_def nval_bound)
  ultimately show ?thesis
    using correct_by_control [OF m sized_on_words [OF sx1 on] A X run est(2,3) refl] unfolding y A_def by simp
qed

text \<open>The array may hold any number below the modulus, or 1 where the modulus is a single word.\<close>

definition below :: "u32 list \<Rightarrow> u32 list \<Rightarrow> nat \<Rightarrow> bool" where
  "below m x L \<longleftrightarrow> sized m x L \<and> nval x L < nval m L"

lemma muladd_small:
  assumes m: "modulus31 m L" and x: "below m x L" and z: "unat z < 2 ^ 31"
  defines "y \<equiv> br_i31_muladd_small x z m"
  shows "length y = length x \<and> below m y L \<and> nval y L = (nval x L * 2 ^ 31 + unat z) mod nval m L"
proof -
  have M0: "0 < nval m L" using x by (simp add: below_def)
  have "length y = length x \<and> sized m y L \<and> nval y L = (nval x L * 2 ^ 31 + unat z) mod nval m L"
  proof (cases "L = 1")
    case True
    then show ?thesis
      unfolding y_def using m x z muladd_small_one [of m x z] by (auto simp: below_def)
  next
    case False
    then have "2 \<le> L" using modulus31D(1) [OF m] by simp
    then show ?thesis unfolding y_def using m x z by (intro muladd_small_many) (simp_all add: below_def)
  qed
  then show ?thesis using M0 by (simp add: below_def)
qed

end
