(* ===== verification/I31Monty.thy ===== *)
theory I31Monty
  imports I31Muladd
begin

section \<open>Big integers: Montgomery multiplication\<close>

text \<open>
  Both functions divide by \<open>2 ^ (31 * L)\<close> modulo the modulus, a word at a time: a multiple of the modulus is added that
  makes the lowest word zero, and the words move down.  The first part of the theory is that row of words; the second
  puts the rows together.
\<close>

unbundle bit_operations_syntax

lemma odd_word: "x AND 1 = (of_bool (odd (unat (x :: u32))) :: u32)"
proof -
  have "bit (unat x) 0 = bit x 0" by (simp add: bit_unsigned_iff)
  then show ?thesis by (simp add: and_one_eq mod_2_eq_odd bit_0)
qed

subsection \<open>The inverse of the lowest word\<close>

lemma newton_step:
  fixes x y :: "'a :: comm_ring_1"
  shows "1 - x * (y * (2 - y * x)) = (1 - x * y) ^ 2"
  by (simp add: power2_eq_square algebra_simps)

lemma ninv31_inverse:
  fixes x :: u32
  assumes "odd (unat x)"
  shows "2 ^ 31 dvd unat x * unat (br_i31_ninv31 x) + 1"
proof -
  define s where "s y = y * (2 - y * x)" for y
  define y where "y = s (s (s (s (2 - x))))"
  have s: "1 - x * s y = (1 - x * y) ^ 2" for y unfolding s_def by (rule newton_step)
  have "1 - x * y = (1 - x * (2 - x)) ^ 16" unfolding y_def s by (simp flip: power_mult)
  also have "1 - x * (2 - x) = (x - 1) ^ 2" by (simp add: power2_eq_square algebra_simps)
  also have "((x - 1) ^ 2) ^ 16 = (x - 1) ^ 32" by (simp flip: power_mult)
  also have "(x - 1) ^ 32 = 0"
  proof -
    obtain h where h: "unat x = 2 * h + 1" using assms by (rule oddE)
    have "x = of_nat (2 * h + 1)" unfolding h [symmetric] by simp
    then have "x - 1 = 2 * of_nat h" by simp
    then have "(x - 1) ^ 32 = 2 ^ 32 * of_nat h ^ 32" by (simp only: power_mult_distrib)
    moreover have "(2 :: u32) ^ 32 = 0" by simp
    ultimately show ?thesis by (simp only: mult_zero_left)
  qed
  finally have xy: "x * y = 1" by simp
  have "x AND 1 = of_bool True" using assms odd_word [of x] by simp
  then have n: "br_i31_ninv31 x = - y AND 0x7FFFFFFF"
    unfolding br_i31_ninv31_def Let_def s_def [symmetric] y_def [symmetric] by (simp only: MUX_of_bool if_True)
  have "x * (- y) = - 1" using xy by simp
  then have "unat (x * (- y)) = 2 ^ 32 - 1" by (simp add: unsigned_minus_1_eq_mask mask_eq_exp_minus_1)
  then have e: "unat x * unat (- y) mod 2 ^ 32 = 2 ^ 32 - 1" unfolding unat_word_ariths by simp
  have "(unat x * (unat (- y) mod 2 ^ 31) + 1) mod 2 ^ 31 = (unat x * unat (- y) mod 2 ^ 32 + 1) mod 2 ^ 31"
  proof -
    have "unat x * unat (- y) mod 2 ^ 32 mod 2 ^ 31 = unat x * unat (- y) mod 2 ^ 31"
      by (rule mod_mod_cancel) (simp add: le_imp_power_dvd)
    then show ?thesis by (metis mod_add_left_eq mod_mult_right_eq)
  qed
  also have "\<dots> = 0" unfolding e by simp
  finally show ?thesis unfolding n unat_and31 by (simp only: mod_0_imp_dvd)
qed

lemma ninv31_even: "even (unat x) \<Longrightarrow> br_i31_ninv31 x = 0"
proof -
  assume "even (unat x)"
  then have "x AND 1 = of_bool False" by (simp add: odd_word)
  then show ?thesis unfolding br_i31_ninv31_def Let_def by (simp only: MUX_of_bool if_False) simp
qed

subsection \<open>A row of words\<close>

text \<open>
  The step that \<open>br_i31_montymul\<close> and \<open>br_i31_from_monty\<close> share: the word above is added to a product and to the carry,
  and the low 31 bits go one place down; the lowest word is stored or dropped.
\<close>

definition row_word :: "bool \<Rightarrow> (nat \<Rightarrow> u64) \<Rightarrow> nat \<Rightarrow> u64 \<times> u32 list \<Rightarrow> u64 \<times> u32 list" where
  "row_word keep t v = (\<lambda>(r, d).
     let z = ucast (d ! (v + 1)) + t v + r
     in (drop_bit 31 z, if v \<noteq> 0 \<or> keep then d[v := ucast z AND 0x7FFFFFFF] else d))"

lemma montymul_word_row:
  "montymul_word xu f y m = row_word True (\<lambda>v. MUL31 xu (y ! (v + 1)) + MUL31 f (m ! (v + 1)))"
  unfolding montymul_word_def row_word_def by (intro ext) (simp add: Let_def case_prod_beta add.assoc)

lemma from_monty_word_row: "from_monty_word f m = row_word False (\<lambda>v. MUL31 f (m ! (v + 1)))"
  unfolding from_monty_word_def row_word_def by (intro ext) (simp add: Let_def case_prod_beta)

text \<open>The unrolled loop does the same steps.\<close>

lemma fold_by_four: "fold (\<lambda>i s. w (4 * i + 3) (w (4 * i + 2) (w (4 * i + 1) (w (4 * i) s)))) [0..<n] s = fold w [0..<4 * n] s"
proof (induction n)
  case (Suc n)
  have "[4 * n..<4 * n + 4] = [4 * n, 4 * n + 1, 4 * n + 2, 4 * n + 3]" by (simp add: upt_conv_Cons)
  then have "[0..<4 * Suc n] = [0..<4 * n] @ [4 * n, 4 * n + 1, 4 * n + 2, 4 * n + 3]"
    using upt_add_eq_append [of 0 "4 * n" 4] by (simp add: add.commute)
  then show ?case using Suc by simp
qed simp

lemma montymul_row_fold: "montymul_row len xu f y m d = fold (montymul_word xu f y m) [0..<len] (0, d)"
proof -
  have "[0..<len] = [0..<4 * (len div 4)] @ [4 * (len div 4)..<len]"
    using upt_add_eq_append [of 0 "4 * (len div 4)" "len mod 4"] by simp
  then show ?thesis unfolding montymul_row_def Let_def fold_by_four by simp
qed

fun tsum :: "(nat \<Rightarrow> u64) \<Rightarrow> nat \<Rightarrow> nat" where
  "tsum t 0 = 0"
| "tsum t (Suc k) = tsum t k + unat (t k) * 2 ^ (31 * k)"

lemma row_run:
  assumes c: "0 < c" "c \<le> 2" and t: "\<And>v. v \<le> k \<Longrightarrow> unat (t v) \<le> c * ((2 ^ 31 - 1) * (2 ^ 31 - 1))"
    and d: "words_ok d (Suc k)"
  shows "\<exists>r d' c0. fold (row_word keep t) [0..<Suc k] (0, d) = (r, d') \<and> unat r < c * 2 ^ 31 \<and> length d' = length d
    \<and> words_ok d' k \<and> (\<forall>j>k. d' ! j = d ! j) \<and> c0 < 2 ^ 31
    \<and> nval d (Suc k) + tsum t (Suc k) = c0 + 2 ^ 31 * nval d' k + unat r * 2 ^ (31 * Suc k)"
  using t d
proof (induction k)
  case 0
  define z where "z = ucast (d ! Suc 0) + t 0"
  have d1: "unat (d ! 1) < 2 ^ 31" using 0(2) by (simp add: words_ok_def)
  have tb: "unat (t 0) \<le> c * ((2 ^ 31 - 1) * (2 ^ 31 - 1))" using 0(1) by simp
  have z: "unat z = unat (d ! 1) + unat (t 0)"
    unfolding z_def by (subst unat_plus) (use d1 tb c in simp_all)
  have r: "unat (drop_bit 31 z) < c * 2 ^ 31"
    unfolding unat_shift by (rule less_mult_imp_div_less) (use z d1 tb c in \<open>simp add: algebra_simps\<close>)
  have e: "unat z = unat z mod 2 ^ 31 + unat z div 2 ^ 31 * 2 ^ 31" by simp
  show ?case
    by (rule exI [of _ "drop_bit 31 z"], rule exI [of _ "if keep then d[0 := ucast z AND 0x7FFFFFFF] else d"],
        rule exI [of _ "unat z mod 2 ^ 31"])
      (use 0(2) r z e in \<open>auto simp: row_word_def z_def [symmetric] words_ok_def unat_shift\<close>)
next
  case (Suc k)
  let ?R = "(2 :: nat) ^ (31 * Suc k)"
  have dk: "words_ok d (Suc k)" using Suc.prems(2) by (simp add: words_ok_Suc)
  from Suc.IH [OF Suc.prems(1) dk] obtain r d' c0 where
    f: "fold (row_word keep t) [0..<Suc k] (0, d) = (r, d')" and r: "unat r < c * 2 ^ 31" and len: "length d' = length d"
    and ok: "words_ok d' k" and same: "\<forall>j>k. d' ! j = d ! j" and c0: "c0 < 2 ^ 31"
    and eq: "nval d (Suc k) + tsum t (Suc k) = c0 + 2 ^ 31 * nval d' k + unat r * ?R" by auto
  define z where "z = ucast (d ! Suc (Suc k)) + t (Suc k) + r"
  have d1: "unat (d ! Suc (Suc k)) < 2 ^ 31" using Suc.prems(2) by (simp add: words_ok_Suc)
  have tb: "unat (t (Suc k)) \<le> c * ((2 ^ 31 - 1) * (2 ^ 31 - 1))" using Suc.prems(1) by simp
  have c12: "c = 1 \<or> c = 2" using c by linarith
  have z: "unat z = unat (d ! Suc (Suc k)) + unat (t (Suc k)) + unat r"
  proof -
    have "unat (ucast (d ! Suc (Suc k)) + t (Suc k)) = unat (d ! Suc (Suc k)) + unat (t (Suc k))"
      by (subst unat_plus) (use d1 tb c12 in auto)
    then show ?thesis unfolding z_def by (subst unat_plus) (use d1 tb r c12 in auto)
  qed
  have r': "unat (drop_bit 31 z) < c * 2 ^ 31"
    unfolding unat_shift by (rule less_mult_imp_div_less) (use z d1 tb r c12 in auto)
  define d'' where "d'' = d'[Suc k := ucast z AND 0x7FFFFFFF]"
  have lk: "Suc (Suc k) < length d'" using Suc.prems(2) len by (simp add: words_ok_Suc)
  have v: "nval d'' (Suc k) = nval d' k + (unat z mod 2 ^ 31) * 2 ^ (31 * k)"
    using lk by (simp add: d''_def unat_lo31)
  have step: "fold (row_word keep t) [0..<Suc (Suc k)] (0, d) = (drop_bit 31 z, d'')"
  proof -
    have "fold (row_word keep t) [0..<Suc (Suc k)] (0, d) = row_word keep t (Suc k) (fold (row_word keep t) [0..<Suc k] (0, d))" by simp
    also have "\<dots> = row_word keep t (Suc k) (r, d')" unfolding f ..
    also have "\<dots> = (drop_bit 31 z, d'')" using same by (simp add: row_word_def z_def d''_def Let_def)
    finally show ?thesis .
  qed
  have e: "unat z = unat z mod 2 ^ 31 + unat z div 2 ^ 31 * 2 ^ 31" by simp
  have "nval d (Suc (Suc k)) + tsum t (Suc (Suc k))
      = (nval d (Suc k) + tsum t (Suc k)) + (unat (d ! Suc (Suc k)) + unat (t (Suc k))) * ?R"
    by (simp add: algebra_simps)
  also have "\<dots> = c0 + 2 ^ 31 * nval d' k + unat z * ?R"
    unfolding eq z by (simp only: algebra_simps)
  also have "unat z * ?R = 2 ^ 31 * ((unat z mod 2 ^ 31) * 2 ^ (31 * k)) + unat z div 2 ^ 31 * 2 ^ (31 * Suc (Suc k))"
  proof -
    have "?R = 2 ^ 31 * 2 ^ (31 * k)" "(2 :: nat) ^ (31 * Suc (Suc k)) = 2 ^ 31 * ?R" by (simp_all add: power_add)
    then show ?thesis by (subst e) (simp only: distrib_right distrib_left ac_simps)
  qed
  also have "c0 + 2 ^ 31 * nval d' k + (2 ^ 31 * ((unat z mod 2 ^ 31) * 2 ^ (31 * k)) + unat z div 2 ^ 31 * 2 ^ (31 * Suc (Suc k)))
      = c0 + 2 ^ 31 * nval d'' (Suc k) + unat (drop_bit 31 z) * 2 ^ (31 * Suc (Suc k))"
    unfolding v unat_shift by (simp only: distrib_left add.assoc)
  finally have sum: "nval d (Suc (Suc k)) + tsum t (Suc (Suc k))
      = c0 + 2 ^ 31 * nval d'' (Suc k) + unat (drop_bit 31 z) * 2 ^ (31 * Suc (Suc k))" .
  have ok'': "words_ok d'' (Suc k)" using ok lk by (simp add: words_ok_Suc d''_def unat_lo31)
  have "length d'' = length d" "\<forall>j>Suc k. d'' ! j = d ! j" using len same by (simp_all add: d''_def)
  then show ?case using step r' ok'' c0 sum by blast
qed

subsection \<open>The two functions\<close>

definition monty_inverse :: "u32 list \<Rightarrow> u32 \<Rightarrow> bool" where
  "monty_inverse m m0i \<longleftrightarrow> unat m0i < 2 ^ 31 \<and> 2 ^ 31 dvd unat (m ! 1) * unat m0i + 1"

lemma mul31: "unat x < 2 ^ 31 \<Longrightarrow> unat y < 2 ^ 31 \<Longrightarrow> unat (MUL31 x y) = unat x * unat y"
  and mul31_bound: "unat x < 2 ^ 31 \<Longrightarrow> unat y < 2 ^ 31 \<Longrightarrow> unat x * unat y \<le> (2 ^ 31 - 1) * (2 ^ 31 - 1)"
proof -
  assume x: "unat x < 2 ^ 31" and y: "unat y < 2 ^ 31"
  show b: "unat x * unat y \<le> (2 ^ 31 - 1) * (2 ^ 31 - 1)" by (rule mult_mono) (use x y in simp_all)
  show "unat (MUL31 x y) = unat x * unat y"
    unfolding MUL31_def by (subst unat_times) (use b in simp_all)
qed

lemma mul31_lo: "unat (MUL31_lo x y) = unat x * unat y mod 2 ^ 31"
  unfolding MUL31_lo_def unat_and31 unat_word_ariths by (simp add: mod_mod_cancel)

lemma tsum_scale: "tsum t k = a * nval y k" if "\<And>v. v < k \<Longrightarrow> unat (t v) = a * unat (y ! Suc v)"
  using that by (induction k) (simp_all add: algebra_simps)

lemma tsum_scale2: "tsum t k = a * nval y k + b * nval m k" if "\<And>v. v < k \<Longrightarrow> unat (t v) = a * unat (y ! Suc v) + b * unat (m ! Suc v)"
  using that by (induction k) (simp_all add: algebra_simps)

text \<open>The lowest word of the sum vanishes.\<close>

lemma nval_mod: "0 < k \<Longrightarrow> nval x k mod 2 ^ 31 = unat (x ! 1) mod 2 ^ 31"
proof (induction k)
  case (Suc k)
  show ?case
  proof (cases "k = 0")
    case False
    then have "nval x (Suc k) = nval x k + 2 ^ 31 * (unat (x ! Suc k) * 2 ^ (31 * (k - 1)))"
      by (cases k) (simp_all add: power_add)
    then have "nval x (Suc k) mod 2 ^ 31 = nval x k mod 2 ^ 31" by (simp only: mod_mult_self2)
    then show ?thesis using Suc False by (simp del: nval.simps)
  qed simp
qed simp

lemma mod_factor: "(s + (b mod w) * n) mod w = (s + b * n) mod (w :: nat)"
  by (metis mod_add_right_eq mod_mult_left_eq)

lemma lowest_zero:
  assumes inv: "monty_inverse m m0i" and k: "0 < k"
    and f: "unat f = (a * unat m0i) mod 2 ^ 31" and a: "a mod 2 ^ 31 = s mod 2 ^ 31"
  shows "(s + unat f * nval m k) mod 2 ^ 31 = 0"
proof -
  have "(s + unat f * nval m k) mod 2 ^ 31 = (a + a * unat m0i * unat (m ! 1)) mod 2 ^ 31"
  proof -
    have "(s + unat f * nval m k) mod 2 ^ 31 = (s + (a * unat m0i) * nval m k) mod 2 ^ 31"
      unfolding f by (rule mod_factor)
    also have "\<dots> = (a + (a * unat m0i) * unat (m ! 1)) mod 2 ^ 31"
      by (intro mod_add_cong mod_mult_cong a [symmetric] nval_mod [OF k] refl)
    finally show ?thesis .
  qed
  also have "a + a * unat m0i * unat (m ! 1) = a * (unat (m ! 1) * unat m0i + 1)" by (simp add: algebra_simps)
  also have "\<dots> mod 2 ^ 31 = 0"
    by (rule dvd_imp_mod_0, rule dvd_mult) (use inv in \<open>simp only: monty_inverse_def\<close>)
  finally show ?thesis .
qed

lemma low_word_0:
  fixes c :: nat
  assumes "S = c + 2 ^ 31 * n + r * 2 ^ (31 * Suc k)" "c < 2 ^ 31" "S mod 2 ^ 31 = 0"
  shows "c = 0"
proof -
  have "S = c + 2 ^ 31 * (n + r * 2 ^ (31 * k))" using assms(1) by (simp add: power_add algebra_simps)
  then have "S mod 2 ^ 31 = c mod 2 ^ 31" by (simp only: mod_mult_self2)
  then show ?thesis using assms by simp
qed

text \<open>One word of \<open>x\<close>: what the array and the extra word represent is divided by \<open>2 ^ 31\<close>.\<close>

definition full :: "nat \<Rightarrow> u64 \<Rightarrow> u32 list \<Rightarrow> nat" where
  "full L dh d = nval d L + unat dh * 2 ^ (31 * L)"

lemma times_31: "(2 ^ 31 - 1) * n + n = 2 ^ 31 * (n :: nat)"
  by simp

lemma montymul_step_spec:
  assumes m: "modulus31 m L" "monty_inverse m m0i" and y: "words_ok y L" "nval y L < 2 ^ (31 * L)"
    and x: "unat (x ! (u + 1)) < 2 ^ 31" and d: "words_ok d L" "unat dh \<le> 1" "full L dh d < nval y L + nval m L"
    and run: "montymul_step L x y m m0i u (dh, d) = (dh', d')"
  shows "words_ok d' L \<and> unat dh' \<le> 1 \<and> full L dh' d' < nval y L + nval m L \<and> length d' = length d
    \<and> (\<exists>f. 2 ^ 31 * full L dh' d' = full L dh d + unat (x ! (u + 1)) * nval y L + f * nval m L)"
proof -
  let ?M = "nval m L" and ?Y = "nval y L" and ?R = "(2 :: nat) ^ (31 * L)"
  obtain k where L: "L = Suc k" using modulus31D(1) [OF m(1)] by (cases L) simp_all
  define xu where "xu = x ! (u + 1)"
  define f where "f = MUL31_lo (d ! 1 + MUL31_lo xu (y ! 1)) m0i"
  define t where "t = (\<lambda>v. MUL31 xu (y ! (v + 1)) + MUL31 f (m ! (v + 1)))"
  note mok = modulus31D(2) [OF m(1)]
  have f31: "unat f < 2 ^ 31" unfolding f_def mul31_lo by simp
  have xu: "unat xu < 2 ^ 31" using x by (simp add: xu_def)
  have t: "unat (t v) = unat xu * unat (y ! Suc v) + unat f * unat (m ! Suc v) \<and> unat (t v) \<le> 2 * ((2 ^ 31 - 1) * (2 ^ 31 - 1))"
    if "v < L" for v
  proof -
    have w: "unat (y ! Suc v) < 2 ^ 31" "unat (m ! Suc v) < 2 ^ 31" using that y(1) mok by (simp_all add: words_ok_def)
    have b: "unat xu * unat (y ! Suc v) \<le> (2 ^ 31 - 1) * (2 ^ 31 - 1)" "unat f * unat (m ! Suc v) \<le> (2 ^ 31 - 1) * (2 ^ 31 - 1)"
      by (rule mul31_bound [OF xu w(1)], rule mul31_bound [OF f31 w(2)])
    have "unat (t v) = unat (MUL31 xu (y ! Suc v)) + unat (MUL31 f (m ! Suc v))"
      unfolding t_def by (subst unat_plus) (use b in \<open>simp_all add: mul31 [OF xu w(1)] mul31 [OF f31 w(2)]\<close>)
    then show ?thesis using b by (simp add: mul31 [OF xu w(1)] mul31 [OF f31 w(2)])
  qed
  obtain r e c0 where row: "montymul_row L xu f y m d = (r, e)" and r: "unat r < 2 * 2 ^ 31" and len: "length e = length d"
    and ok: "words_ok e k" and c0: "c0 < 2 ^ 31"
    and eq: "nval d (Suc k) + tsum t (Suc k) = c0 + 2 ^ 31 * nval e k + unat r * 2 ^ (31 * Suc k)"
  proof -
    have p: "0 < (2 :: nat)" "(2 :: nat) \<le> 2" by simp_all
    have tb: "\<And>v. v \<le> k \<Longrightarrow> unat (t v) \<le> 2 * ((2 ^ 31 - 1) * (2 ^ 31 - 1))" using t L le_imp_less_Suc by blast
    have "montymul_row L xu f y m d = fold (row_word True t) [0..<Suc k] (0, d)"
      unfolding montymul_row_fold montymul_word_row L t_def ..
    moreover obtain r e c0 where "fold (row_word True t) [0..<Suc k] (0, d) = (r, e)" "unat r < 2 * 2 ^ 31" "length e = length d"
      "words_ok e k" "c0 < 2 ^ 31" "nval d (Suc k) + tsum t (Suc k) = c0 + 2 ^ 31 * nval e k + unat r * 2 ^ (31 * Suc k)"
      using row_run [where t = t and keep = True and c = 2 and k = k and d = d, OF p tb d(1) [unfolded L]] by blast
    ultimately show ?thesis using that by simp
  qed
  have ts: "tsum t (Suc k) = unat xu * ?Y + unat f * ?M"
    unfolding L by (rule tsum_scale2) (use t in \<open>simp add: L\<close>)
  have "(nval d L + unat xu * ?Y + unat f * ?M) mod 2 ^ 31 = 0"
  proof (rule lowest_zero [OF m(2)])
    show "unat f = (unat (d ! 1 + MUL31_lo xu (y ! 1)) * unat m0i) mod 2 ^ 31" unfolding f_def mul31_lo ..
    have "unat (d ! 1 + MUL31_lo xu (y ! 1)) mod 2 ^ 31 = (unat (d ! 1) + (unat xu * unat (y ! 1)) mod 2 ^ 31) mod 2 ^ 31"
      unfolding unat_word_ariths mul31_lo by (simp add: mod_mod_cancel)
    also have "\<dots> = (nval d L + unat xu * ?Y) mod 2 ^ 31"
      using nval_mod [of L d] nval_mod [of L y] L by (metis (no_types, lifting) mod_add_eq mod_mult_eq zero_less_Suc mod_mod_trivial)
    finally show "unat (d ! 1 + MUL31_lo xu (y ! 1)) mod 2 ^ 31 = (nval d L + unat xu * ?Y) mod 2 ^ 31" .
  qed (simp add: L)
  then have "c0 = 0" using low_word_0 [OF eq c0] unfolding ts L by (simp only: add.assoc)
  define zh where "zh = dh + r"
  have zh: "unat zh = unat dh + unat r" unfolding zh_def by (subst unat_plus) (use d(2) r in simp_all)
  have res: "dh' = drop_bit 31 zh" "d' = e[L := ucast zh AND 0x7FFFFFFF]"
    using run unfolding montymul_step_def prod.case Let_def xu_def [symmetric] f_def [symmetric] row zh_def [symmetric] by simp_all
  have lL: "L < length e" using d(1) len by (simp add: words_ok_def)
  have ok': "words_ok d' L" using ok lL unfolding res L by (simp add: words_ok_Suc unat_lo31)
  have "2 ^ 31 * full L dh' d' = 2 ^ 31 * nval e k + (unat zh mod 2 ^ 31 + unat zh div 2 ^ 31 * 2 ^ 31) * ?R"
  proof -
    have v: "nval d' L = nval e k + (unat zh mod 2 ^ 31) * 2 ^ (31 * k)" using lL unfolding res L by (simp add: unat_lo31)
    have R: "?R = 2 ^ 31 * 2 ^ (31 * k)" by (simp add: L power_add)
    show ?thesis unfolding full_def v res(1) unat_shift R by (simp only: distrib_left distrib_right ac_simps)
  qed
  also have "\<dots> = 2 ^ 31 * nval e k + unat zh * ?R" by (simp only: mod_div_mult_eq)
  also have "\<dots> = (nval d L + tsum t L) + unat dh * ?R"
    using eq \<open>c0 = 0\<close> unfolding zh L by (simp only: distrib_right add_0_left ac_simps)
  finally have sum: "2 ^ 31 * full L dh' d' = full L dh d + unat xu * ?Y + unat f * ?M"
    unfolding ts [folded L] full_def by simp
  have "2 ^ 31 * full L dh' d' < 2 ^ 31 * (?Y + ?M)"
  proof -
    have b: "unat xu * ?Y \<le> (2 ^ 31 - 1) * ?Y" "unat f * ?M \<le> (2 ^ 31 - 1) * ?M"
      by (rule mult_right_mono; use xu f31 in simp)+
    show ?thesis unfolding sum distrib_left using d(3) b times_31 [of ?Y] times_31 [of ?M] by linarith
  qed
  then have lt: "full L dh' d' < ?Y + ?M" by simp
  have MR: "?M < ?R" by (rule nval_bound [OF mok])
  have "unat dh' * ?R < 2 * ?R" using lt y(2) MR unfolding full_def by linarith
  then have "unat dh' \<le> 1" by simp
  then show ?thesis using ok' lt sum len by (auto simp: res xu_def)
qed

lemma montymul_loop:
  assumes m: "modulus31 m L" "monty_inverse m m0i" and y: "words_ok y L" and x: "words_ok x L" and u: "u \<le> L"
    and d: "words_ok d L" "nval d L = 0" and M0: "0 < nval m L"
  shows "\<exists>dh d'. fold (montymul_step L x y m m0i) [0..<u] (0, d) = (dh, d') \<and> words_ok d' L \<and> unat dh \<le> 1
    \<and> full L dh d' < nval y L + nval m L \<and> length d' = length d
    \<and> (\<exists>j. full L dh d' * 2 ^ (31 * u) = nval x u * nval y L + j * nval m L)"
  using u
proof (induction u)
  case 0
  then show ?case using d M0 by (auto simp: full_def)
next
  case (Suc u)
  then obtain dh e j where f: "fold (montymul_step L x y m m0i) [0..<u] (0, d) = (dh, e)" and ok: "words_ok e L" "unat dh \<le> 1"
    and lt: "full L dh e < nval y L + nval m L" and len: "length e = length d"
    and j: "full L dh e * 2 ^ (31 * u) = nval x u * nval y L + j * nval m L" by auto
  obtain dh' d' where s: "montymul_step L x y m m0i u (dh, e) = (dh', d')" by (rule prod.exhaust)
  have xu: "unat (x ! (u + 1)) < 2 ^ 31" using x Suc.prems by (simp add: words_ok_def)
  from montymul_step_spec [OF m y nval_bound [OF y] xu ok lt s] obtain f' where
    d': "words_ok d' L" "unat dh' \<le> 1" "full L dh' d' < nval y L + nval m L" "length d' = length e"
    and f': "2 ^ 31 * full L dh' d' = full L dh e + unat (x ! (u + 1)) * nval y L + f' * nval m L" by blast
  have "full L dh' d' * 2 ^ (31 * Suc u) = (2 ^ 31 * full L dh' d') * 2 ^ (31 * u)" by (simp add: power_add)
  also have "\<dots> = full L dh e * 2 ^ (31 * u) + unat (x ! Suc u) * 2 ^ (31 * u) * nval y L + f' * 2 ^ (31 * u) * nval m L"
    unfolding f' by (simp add: algebra_simps)
  also have "\<dots> = nval x (Suc u) * nval y L + (j + f' * 2 ^ (31 * u)) * nval m L"
    unfolding j by (simp add: algebra_simps)
  finally show ?case using f s d' len by auto
qed

text \<open>The final subtraction.\<close>

lemma final_sub:
  assumes m: "modulus31 m L" and d: "sized m d L" and dh: "D = nval d L + of_bool h * 2 ^ (31 * L)" "D < 2 * nval m L"
  defines "r \<equiv> (let (c, d) = br_i31_sub d m 0 in snd (br_i31_sub d m (of_bool h OR NOT_ctl c)))"
  shows "length r = length d \<and> below m r L \<and> (\<exists>j. D = nval r L + j * nval m L)"
proof -
  let ?M = "nval m L" and ?R = "(2 :: nat) ^ (31 * L)"
  have MR: "?M < ?R" by (rule nval_bound [OF modulus31D(2) [OF m]])
  have dR: "nval d L < ?R" using d by (simp add: sized_def nval_bound)
  have first: "br_i31_sub d m 0 = (of_bool (nval d L < ?M), d)"
    using sized_walks(2) [OF m d, of False] by auto
  define w where "w \<longleftrightarrow> h \<or> \<not> nval d L < ?M"
  have ctl: "of_bool h OR NOT_ctl (of_bool (nval d L < ?M)) = (of_bool w :: u32)"
    unfolding w_def by (cases h; cases "nval d L < ?M") (simp_all add: NOT_ctl_def)
  obtain s where s: "br_i31_sub d m (of_bool w) = (of_bool (nval d L < ?M), if w then s else d)"
    and on: "on_words L d s" and v: "nval s L + ?M = nval d L + of_bool (nval d L < ?M) * ?R"
    using sized_walks(2) [OF m d, of w] by blast
  have r: "r = (if w then s else d)" unfolding r_def first Let_def prod.case ctl s snd_conv ..
  show ?thesis
  proof (cases w)
    case False
    then show ?thesis using d dh by (auto simp: r w_def below_def)
  next
    case True
    have h: "h \<Longrightarrow> nval d L < ?M" using dh MR by auto
    have "D = nval s L + 1 * ?M"
      using v True h dh(1) unfolding w_def by (cases h) auto
    moreover from this have "nval s L < ?M" using dh(2) by simp
    moreover have "length s = length d" using on by (simp add: on_words_def)
    ultimately show ?thesis using True sized_on_words [OF d on] unfolding r below_def by auto
  qed
qed

lemma zero_array:
  assumes "modulus31 m L" "L < length d"
  shows "length (br_i31_zero d (m ! 0)) = length d" "sized m (br_i31_zero d (m ! 0)) L" "nval (br_i31_zero d (m ! 0)) L = 0"
proof -
  have w: "words31 (m ! 0) = L" by (rule modulus31D(3) [OF assms(1)])
  show l: "length (br_i31_zero d (m ! 0)) = length d" using assms(2) by (simp add: br_i31_zero_def w)
  have z: "br_i31_zero d (m ! 0) ! i = 0" if "0 < i" "i \<le> L" for i
    using that by (cases i) (simp_all add: br_i31_zero_def w nth_append)
  have "br_i31_zero d (m ! 0) ! 0 = m ! 0" by (simp add: br_i31_zero_def)
  then show "sized m (br_i31_zero d (m ! 0)) L" using l z assms(2) by (simp add: sized_def words_ok_def)
  show "nval (br_i31_zero d (m ! 0)) L = 0" by (rule nval_0) (rule z)
qed

lemma montymul:
  assumes m: "modulus31 m L" "monty_inverse m m0i" and y: "below m y L" and x: "words_ok x L" and d: "L < length d"
  defines "r \<equiv> br_i31_montymul d x y m m0i"
  shows "length r = length d \<and> below m r L
    \<and> (nval r L * 2 ^ (31 * L)) mod nval m L = (nval x L * nval y L) mod nval m L"
proof -
  let ?M = "nval m L" and ?R = "(2 :: nat) ^ (31 * L)"
  have yok: "words_ok y L" and yM: "nval y L < ?M" using y by (simp_all add: below_def sized_def)
  have M0: "0 < ?M" using yM by linarith
  note z = zero_array [OF m(1) d]
  obtain dh e j where f: "fold (montymul_step L x y m m0i) [0..<L] (0, br_i31_zero d (m ! 0)) = (dh, e)"
    and ok: "words_ok e L" "unat dh \<le> 1" and lt: "full L dh e < nval y L + ?M" and len: "length e = length d"
    and j: "full L dh e * ?R = nval x L * nval y L + j * ?M"
    using montymul_loop [OF m yok x order.refl _ z(3) M0] z(1,2) by (auto simp: sized_def)
  define h where "h \<longleftrightarrow> dh \<noteq> 0"
  have dh: "unat dh = of_bool h" using ok(2) by (auto simp: h_def unat_eq_0 le_Suc_eq)
  have "unat (ucast dh :: u32) = of_bool h" unfolding unat_ucast32 dh by simp
  then have u: "ucast dh = (of_bool h :: u32)" by (rule of_bool_32)
  have nz: "NEQ (ucast dh) 0 = of_bool h" unfolding u NEQ_spec by (cases h) simp_all
  define e' where "e' = e[0 := m ! 0]"
  have e': "sized m e' L" using ok(1) by (cases e) (auto simp: e'_def sized_def words_ok_def)
  have "full L dh e = nval e' L + of_bool h * ?R" unfolding full_def dh e'_def by simp
  moreover have "full L dh e < 2 * ?M" using lt yM by linarith
  ultimately have fs: "length r = length e' \<and> below m r L \<and> (\<exists>i. full L dh e = nval r L + i * ?M)"
    using final_sub [OF m(1) e'] unfolding r_def br_i31_montymul_def Let_def modulus31D(3) [OF m(1)] f prod.case
      e'_def [symmetric] nz by blast
  then obtain i where i: "full L dh e = nval r L + i * ?M" by blast
  have "(nval r L * ?R) mod ?M = (full L dh e * ?R) mod ?M" 
  proof -
    have "full L dh e * ?R = nval r L * ?R + (i * ?R) * ?M" unfolding i by (simp add: algebra_simps)
    then show ?thesis by (simp only: mod_mult_self1)
  qed
  also have "\<dots> = (nval x L * nval y L) mod ?M" unfolding j by simp
  finally show ?thesis using fs len by (simp add: e'_def)
qed

lemma from_monty_step:
  assumes m: "modulus31 m L" "monty_inverse m m0i" and x: "words_ok x L" "nval x L < nval m L"
    and run: "fold (from_monty_word (MUL31_lo (x ! 1) m0i) m) [0..<L] (0, x) = (cc, e)"
  defines "x' \<equiv> e[L := ucast cc]"
  shows "words_ok x' L \<and> nval x' L < nval m L \<and> length x' = length x \<and> x' ! 0 = x ! 0
    \<and> (\<exists>f. 2 ^ 31 * nval x' L = nval x L + f * nval m L)"
proof -
  let ?M = "nval m L" and ?R = "(2 :: nat) ^ (31 * L)"
  obtain k where L: "L = Suc k" using modulus31D(1) [OF m(1)] by (cases L) simp_all
  define f where "f = MUL31_lo (x ! 1) m0i"
  define t where "t = (\<lambda>v. MUL31 f (m ! (v + 1)))"
  note mok = modulus31D(2) [OF m(1)]
  have f31: "unat f < 2 ^ 31" unfolding f_def mul31_lo by simp
  have t: "unat (t v) = unat f * unat (m ! Suc v) \<and> unat (t v) \<le> 1 * ((2 ^ 31 - 1) * (2 ^ 31 - 1))" if "v < L" for v
  proof -
    have w: "unat (m ! Suc v) < 2 ^ 31" using that mok by (simp add: words_ok_def)
    show ?thesis using mul31_bound [OF f31 w] unfolding t_def by (simp add: mul31 [OF f31 w])
  qed
  have p: "0 < (1 :: nat)" "(1 :: nat) \<le> 2" by simp_all
  have tb: "\<And>v. v \<le> k \<Longrightarrow> unat (t v) \<le> 1 * ((2 ^ 31 - 1) * (2 ^ 31 - 1))" using t L le_imp_less_Suc by blast
  have fe: "fold (row_word False t) [0..<Suc k] (0, x) = (cc, e)"
    using run unfolding f_def [symmetric] from_monty_word_row t_def [symmetric] L .
  obtain r' e' c0 where fe': "fold (row_word False t) [0..<Suc k] (0, x) = (r', e')"
    and cc': "unat r' < 1 * 2 ^ 31" and len': "length e' = length x"
    and ok': "words_ok e' k" and c0: "c0 < 2 ^ 31"
    and eq': "nval x (Suc k) + tsum t (Suc k) = c0 + 2 ^ 31 * nval e' k + unat r' * 2 ^ (31 * Suc k)"
    using row_run [where t = t and keep = False and c = 1 and k = k and d = x, OF p tb x(1) [unfolded L]] by blast
  have re: "r' = cc" "e' = e" using fe fe' by simp_all
  have cc: "unat cc < 2 ^ 31" and len: "length e = length x"
    and ok: "words_ok e k"
    and eq: "nval x (Suc k) + tsum t (Suc k) = c0 + 2 ^ 31 * nval e k + unat cc * 2 ^ (31 * Suc k)"
    using cc' len' ok' eq' unfolding re by simp_all
  have e0: "e ! 0 = x ! 0"
  proof -
    have "snd (fold (row_word False t) [0..<n] s) ! 0 = snd s ! 0" for n s
      by (induction n) (simp_all add: row_word_def case_prod_beta Let_def)
    from this [of "Suc k" "(0, x)"] show ?thesis unfolding fe by simp
  qed
  have ts: "tsum t (Suc k) = unat f * ?M"
    unfolding L by (rule tsum_scale) (use t in \<open>simp add: L\<close>)
  have "(nval x L + unat f * ?M) mod 2 ^ 31 = 0"
  proof (rule lowest_zero [OF m(2)])
    show "unat f = (unat (x ! 1) * unat m0i) mod 2 ^ 31" unfolding f_def mul31_lo ..
    show "unat (x ! 1) mod 2 ^ 31 = nval x L mod 2 ^ 31" using nval_mod [of L x] L by simp
  qed (simp add: L)
  then have "c0 = 0" using low_word_0 [OF eq c0] unfolding ts L by simp
  have u: "unat (ucast cc :: u32) = unat cc" unfolding unat_ucast32 using cc by simp
  have lL: "L < length e" using x(1) len by (simp add: words_ok_def)
  have ok': "words_ok x' L" using ok lL cc u unfolding x'_def L by (simp add: words_ok_Suc)
  have "2 ^ 31 * nval x' L = 2 ^ 31 * nval e k + unat cc * 2 ^ (31 * Suc k)"
    using lL unfolding x'_def L by (simp add: u power_add algebra_simps)
  then have sum: "2 ^ 31 * nval x' L = nval x L + unat f * ?M"
    using eq \<open>c0 = 0\<close> unfolding ts L by simp
  have "unat f * ?M \<le> (2 ^ 31 - 1) * ?M" by (rule mult_right_mono) (use f31 in simp_all)
  then have "2 ^ 31 * nval x' L < 2 ^ 31 * ?M" unfolding sum using x(2) times_31 [of ?M] by linarith
  then have "nval x' L < ?M" by simp
  then show ?thesis using ok' sum len e0 L by (auto simp: x'_def)
qed

lemma from_monty:
  assumes m: "modulus31 m L" "monty_inverse m m0i" and x: "below m x L"
  defines "r \<equiv> br_i31_from_monty x m m0i"
  shows "length r = length x \<and> below m r L \<and> (nval r L * 2 ^ (31 * L)) mod nval m L = nval x L mod nval m L"
proof -
  let ?M = "nval m L" and ?R = "(2 :: nat) ^ (31 * L)"
  define F where "F = (\<lambda>u :: nat. \<lambda>x.
    let (cc, x) = fold (from_monty_word (MUL31_lo (x ! 1) m0i) m) [0..<L] (0, x) in x[L := ucast cc])"
  have loop: "below m (fold F [0..<u] x) L \<and> length (fold F [0..<u] x) = length x
      \<and> (\<exists>j. nval (fold F [0..<u] x) L * 2 ^ (31 * u) = nval x L + j * ?M)" for u
  proof (induction u)
    case 0
    have "nval x L = nval x L + 0 * ?M" by simp
    then show ?case using x by (metis fold_simps(1) id_apply mult.right_neutral mult_0_right power_0 upt_0)
  next
    case (Suc u)
    define y where "y = fold F [0..<u] x"
    obtain cc e where run: "fold (from_monty_word (MUL31_lo (y ! 1) m0i) m) [0..<L] (0, y) = (cc, e)" by (rule prod.exhaust)
    have fy: "fold F [0..<Suc u] x = e[L := ucast cc]" 
    proof -
      have "fold F [0..<Suc u] x = F u y" by (simp add: y_def)
      also have "\<dots> = e[L := ucast cc]" unfolding F_def run Let_def prod.case ..
      finally show ?thesis .
    qed
    from Suc obtain j where y: "sized m y L" "nval y L < ?M" "length y = length x" and j: "nval y L * 2 ^ (31 * u) = nval x L + j * ?M"
      unfolding y_def [symmetric] below_def by blast
    have yok: "words_ok y L" using y(1) by (simp add: sized_def)
    from from_monty_step [OF m yok y(2) run] obtain f where
      s: "words_ok (e[L := ucast cc]) L" "nval (e[L := ucast cc]) L < ?M" "length (e[L := ucast cc]) = length y" "e[L := ucast cc] ! 0 = y ! 0"
      and f: "2 ^ 31 * nval (e[L := ucast cc]) L = nval y L + f * ?M" by blast
    have "nval (e[L := ucast cc]) L * 2 ^ (31 * Suc u) = (2 ^ 31 * nval (e[L := ucast cc]) L) * 2 ^ (31 * u)"
      by (simp add: power_add)
    also have "\<dots> = nval x L + (j + f * 2 ^ (31 * u)) * ?M" unfolding f using j by (simp add: algebra_simps)
    finally show ?case unfolding fy below_def sized_def using s y by (auto simp: sized_def)
  qed
  define e where "e = fold F [0..<L] x"
  from loop [of L] obtain j where e: "sized m e L" "nval e L < ?M" "length e = length x" and j: "nval e L * ?R = nval x L + j * ?M"
    unfolding e_def [symmetric] below_def by blast
  have "length r = length e \<and> below m r L \<and> (\<exists>i. nval e L = nval r L + i * ?M)"
    using final_sub [OF m(1) e(1), of "nval e L" False] e(2)
    unfolding r_def br_i31_from_monty_def Let_def modulus31D(3) [OF m(1)] F_def [unfolded Let_def, symmetric] e_def [symmetric] by simp
  then obtain i where r: "length r = length e" "below m r L" and i: "nval e L = nval r L + i * ?M" by blast
  have "i = 0" using i e(2) by (cases i) simp_all
  then have "(nval r L * ?R) mod ?M = (nval x L + j * ?M) mod ?M" using i j by simp
  then show ?thesis using r e(3) by simp
qed

lemma to_monty:
  assumes m: "modulus31 m L" and x: "below m x L"
  defines "r \<equiv> br_i31_to_monty x m"
  shows "length r = length x \<and> below m r L \<and> nval r L = (nval x L * 2 ^ (31 * L)) mod nval m L"
proof -
  let ?F = "\<lambda>_ :: nat. \<lambda>x. br_i31_muladd_small x 0 m"
  have "length (fold ?F [0..<u] x) = length x \<and> below m (fold ?F [0..<u] x) L
      \<and> nval (fold ?F [0..<u] x) L = (nval x L * 2 ^ (31 * u)) mod nval m L" for u
  proof (induction u)
    case 0
    then show ?case using x by (simp add: below_def)
  next
    case (Suc u)
    define y where "y = fold ?F [0..<u] x"
    have y: "length y = length x" "below m y L" "nval y L = (nval x L * 2 ^ (31 * u)) mod nval m L"
      using Suc by (simp_all add: y_def)
    have z: "unat (0 :: u32) < 2 ^ 31" by simp
    have fy: "fold ?F [0..<Suc u] x = br_i31_muladd_small y 0 m" by (simp add: y_def)
    have "(nval y L * 2 ^ 31 + unat (0 :: u32)) mod nval m L = (nval x L * 2 ^ (31 * Suc u)) mod nval m L"
      unfolding y(3) by (simp add: power_add mod_mult_left_eq ac_simps)
    then show ?case unfolding fy using muladd_small [OF m y(2) z] y(1) by simp
  qed
  then show ?thesis unfolding r_def br_i31_to_monty_def modulus31D(3) [OF m] by blast
qed

end
