(* ===== verification/I31Pow.thy ===== *)
theory I31Pow
  imports I31Monty
begin

section \<open>Big integers: modular exponentiation\<close>

text \<open>
  With an odd modulus \<open>M\<close>, \<open>br_i31_modpow\<close> and \<open>br_i31_modpow_opt\<close> replace \<open>x\<close> by \<open>x ^ e mod M\<close>, where the exponent
  is given as bytes.  The powers are kept in Montgomery representation: \<open>v\<close> stands as \<open>v * 2 ^ (31 * L) mod M\<close>.
\<close>

unbundle bit_operations_syntax

text \<open>The number that bytes represent, the most significant first (OS2IP of RFC 8017).\<close>

fun os2ip :: "u8 list \<Rightarrow> nat" where
  "os2ip [] = 0"
| "os2ip (b # bs) = unat b * 256 ^ length bs + os2ip bs"

lemma os2ip_append: "os2ip (a @ b) = os2ip a * 256 ^ length b + os2ip b"
  by (induction a) (simp_all add: power_add algebra_simps)

lemma unat_u8 [simp]: "unat (b :: u8) < 256"
  using unsigned_less [of b, where ?'a = nat] by simp

lemma os2ip_bound: "os2ip bs < 256 ^ length bs"
proof (induction bs)
  case (Cons b bs)
  have "unat b * 256 ^ length bs + os2ip bs < (unat b + 1) * 256 ^ length bs" using Cons by simp
  also have "\<dots> \<le> 256 * 256 ^ length bs"
  proof (rule mult_right_mono)
    show "unat b + 1 \<le> 256" using unat_u8 [of b] by linarith
  qed simp
  finally show ?case by simp
qed simp

subsection \<open>Montgomery representation\<close>

definition odd_modulus :: "u32 list \<Rightarrow> nat \<Rightarrow> u32 \<Rightarrow> bool" where
  "odd_modulus m L m0i \<longleftrightarrow> modulus31 m L \<and> monty_inverse m m0i \<and> odd (nval m L)"

lemma odd_modulusD:
  assumes "odd_modulus m L m0i"
  shows "modulus31 m L" "monty_inverse m m0i" "odd (nval m L)" "0 < nval m L" "0 < L" "words31 (m ! 0) = L"
  using assms modulus31D(1,3) [of m L] by (auto simp: odd_modulus_def intro: odd_pos)

lemma cancel_R:
  fixes a b M :: nat
  assumes odd: "odd M"
  shows "(a * 2 ^ k) mod M = (b * 2 ^ k) mod M \<Longrightarrow> a mod M = b mod M"
proof (induction a b rule: linorder_wlog)
  case (le a b)
  have "M dvd b * 2 ^ k - a * 2 ^ k" using le.prems le.hyps by (simp add: mod_eq_dvd_iff_nat [symmetric])
  then have "M dvd (b - a) * 2 ^ k" by (simp add: diff_mult_distrib)
  moreover have "coprime M (2 ^ k)" using odd by (simp add: coprime_commute)
  ultimately have "M dvd b - a" by (simp add: coprime_dvd_mult_left_iff)
  then show ?case using le.hyps by (simp add: mod_eq_dvd_iff_nat [symmetric])
qed simp

text \<open>\<open>x\<close> is the Montgomery representation of \<open>v\<close>.\<close>

definition rep :: "u32 list \<Rightarrow> nat \<Rightarrow> nat \<Rightarrow> u32 list \<Rightarrow> bool" where
  "rep m L v x \<longleftrightarrow> below m x L \<and> nval x L = (v * 2 ^ (31 * L)) mod nval m L"

lemma rep_length: "rep m L v x \<Longrightarrow> L < length x"
  by (simp add: rep_def below_def sized_def words_ok_def)

lemma rep_mult:
  assumes om: "odd_modulus m L m0i" and "rep m L a x" "rep m L b y" "L < length d"
  shows "rep m L (a * b) (br_i31_montymul d x y m m0i)" "length (br_i31_montymul d x y m m0i) = length d"
proof -
  note od = odd_modulusD [OF om]
  let ?M = "nval m L" and ?R = "2 ^ (31 * L) :: nat"
  let ?r = "br_i31_montymul d x y m m0i"
  have r: "length ?r = length d" "below m ?r L" and e: "(nval ?r L * ?R) mod ?M = (nval x L * nval y L) mod ?M"
    using montymul [OF od(1,2), of y x d] assms by (auto simp: rep_def below_def sized_def)
  have "(nval ?r L * ?R) mod ?M = (a * b * ?R * ?R) mod ?M"
    unfolding e using assms by (simp add: rep_def mod_mult_eq ac_simps)
  then have "nval ?r L mod ?M = (a * b * ?R) mod ?M" by (rule cancel_R [OF od(3)])
  then show "rep m L (a * b) ?r" using r by (simp add: rep_def below_def)
  show "length ?r = length d" by (rule r)
qed

lemma to_monty_rep:
  assumes om: "odd_modulus m L m0i" and "below m x L"
  shows "rep m L (nval x L) (br_i31_to_monty x m)" "length (br_i31_to_monty x m) = length x"
  using to_monty [OF odd_modulusD(1) [OF om] assms(2)] by (simp_all add: rep_def)

lemma from_monty_rep:
  assumes om: "odd_modulus m L m0i" and "rep m L v x"
  shows "below m (br_i31_from_monty x m m0i) L" "nval (br_i31_from_monty x m m0i) L = v mod nval m L"
    "length (br_i31_from_monty x m m0i) = length x"
proof -
  note od = odd_modulusD [OF om]
  let ?M = "nval m L" and ?R = "2 ^ (31 * L) :: nat"
  let ?r = "br_i31_from_monty x m m0i"
  have r: "length ?r = length x" "below m ?r L" and e: "(nval ?r L * ?R) mod ?M = nval x L mod ?M"
    using from_monty [OF od(1,2)] assms by (auto simp: rep_def)
  have "(nval ?r L * ?R) mod ?M = (v * ?R) mod ?M" unfolding e using assms by (simp add: rep_def)
  then have "nval ?r L mod ?M = v mod ?M" by (rule cancel_R [OF od(3)])
  then show "nval ?r L = v mod ?M" using r(2) by (simp add: below_def)
  show "below m ?r L" "length ?r = length x" by (rule r)+
qed

text \<open>Words beyond the modulus do not matter.\<close>

lemma memcpy_same:
  assumes "L < length d" "L < length s"
  shows "length (memcpy_w d s (Suc L)) = length d" "\<And>i. i \<le> L \<Longrightarrow> memcpy_w d s (Suc L) ! i = s ! i"
  using assms by (simp_all add: memcpy_w_def nth_append)

lemma below_same: "(\<And>i. i \<le> L \<Longrightarrow> d ! i = s ! i) \<Longrightarrow> L < length d \<Longrightarrow> below m s L \<Longrightarrow> below m d L \<and> nval d L = nval s L"
  using nval_cong [of L d s] by (auto simp: below_def sized_def words_ok_def)

lemma rep_memcpy:
  assumes "rep m L v s" "L < length d"
  shows "rep m L v (memcpy_w d s (Suc L))"
proof -
  have s: "L < length s" by (rule rep_length [OF assms(1)])
  note c = memcpy_same [OF assms(2) s]
  have "below m (memcpy_w d s (Suc L)) L \<and> nval (memcpy_w d s (Suc L)) L = nval s L"
    by (rule below_same) (use c assms in \<open>simp_all add: rep_def\<close>)
  then show ?thesis using assms(1) by (simp add: rep_def)
qed

text \<open>One, in Montgomery representation.\<close>

lemma rep_one:
  assumes om: "odd_modulus m L m0i" and len: "L < length x"
  defines "y \<equiv> br_i31_muladd_small ((br_i31_zero x (m ! 0))[L := 1]) 0 m"
  shows "rep m L 1 y" "length y = length x"
proof -
  note od = odd_modulusD [OF om]
  let ?M = "nval m L" and ?R = "2 ^ (31 * L) :: nat"
  let ?z = "br_i31_zero x (m ! 0)"
  note z = zero_array [OF od(1) len]
  obtain k where k: "L = Suc k" using modulus31D(1) [OF od(1)] by (cases L) simp_all
  have u: "sized m (?z[L := 1]) L"
    using z(1,2) len od(5) by (auto simp: sized_def words_ok_def nth_list_update)
  have zk: "nval ?z k = 0" using z(3) by (simp add: k)
  have v: "nval (?z[L := 1]) L = 2 ^ (31 * k)"
    using z(1) len zk by (simp add: k)
  have "length y = length x \<and> sized m y L \<and> nval y L = (2 ^ (31 * k) * 2 ^ 31) mod ?M"
  proof (cases "k = 0")
    case True
    have "length y = length ?z \<and> sized m y 1 \<and> nval y 1 = (nval (?z[1 := 1]) 1 * 2 ^ 31 + unat (0 :: u32)) mod nval m 1"
      using muladd_small_one [of m "?z[1 := 1]" 0] od(1) u od(4) z(1) len
      unfolding y_def by (simp add: k True)
    then show ?thesis using v z(1) by (simp add: k True)
  next
    case False
    have "2 ^ (31 * k) < ?M"
    proof -
      have "(2 :: nat) ^ (31 * k) \<le> 2 ^ (31 * (L - 1) + bit_len (unat (m ! L)) - 1)"
        using modulus31D(8) [OF od(1)] by (intro power_increasing) (simp_all add: k)
      also have "\<dots> \<le> ?M" by (rule modulus_bounds(1) [OF od(1)])
      finally have "2 ^ (31 * k) \<le> ?M" .
      moreover have "even ((2 :: nat) ^ (31 * k))" using False by simp
      ultimately show ?thesis using od(3) by (metis le_neq_implies_less)
    qed
    then have b: "below m (?z[L := 1]) L" using u v by (simp add: below_def)
    have "unat (0 :: u32) < 2 ^ 31" by simp
    from muladd_small [OF od(1) b this] show ?thesis unfolding y_def v using z(1) by (simp add: below_def)
  qed
  moreover have "2 ^ (31 * k) * 2 ^ 31 = (1 :: nat) * ?R" by (simp add: k power_add)
  ultimately show "rep m L 1 y" "length y = length x" using od(4) by (simp_all add: rep_def below_def)
qed

end
