(* ===== verification/I31Modpow.thy ===== *)
theory I31Modpow
  imports I31Pow
begin

section \<open>Big integers: the exponentiation with a window\<close>

text \<open>
  \<open>br_i31_modpow_opt\<close> reads the exponent from its most significant bit on, up to five bits at a time, squares as often
  and multiplies by the power that the window holds for these bits.
\<close>

unbundle bit_operations_syntax

subsection \<open>Conditional copies\<close>

lemma br_ccopy_prefix:
  "n \<le> length d \<Longrightarrow> n \<le> length s \<Longrightarrow> br_ccopy (of_bool b) d s n = (if b then take n s @ drop n d else d)"
proof (induction n arbitrary: d s)
  case (Suc n)
  obtain x d' y s' where ds: "d = x # d'" "s = y # s'" using Suc.prems by (cases d; cases s) auto
  have "br_ccopy (of_bool b) d s (Suc n) = (if b then y else x) # br_ccopy (of_bool b) d' s' n"
    unfolding ds by simp
  then show ?case using Suc.IH [of d' s'] Suc.prems by (simp add: ds)
qed simp

lemma length_concat_enc: "length (concat (map br_enc32le v)) = 4 * length v"
  by (induction v) simp_all

lemma take_concat_enc: "n \<le> length v \<Longrightarrow> take (4 * n) (concat (map br_enc32le v)) = concat (map br_enc32le (take n v))"
  and drop_concat_enc: "n \<le> length v \<Longrightarrow> drop (4 * n) (concat (map br_enc32le v)) = concat (map br_enc32le (drop n v))"
proof -
  assume n: "n \<le> length v"
  have v: "concat (map br_enc32le v) = concat (map br_enc32le (take n v)) @ concat (map br_enc32le (drop n v))"
    by (metis append_take_drop_id concat_append map_append)
  have l: "length (concat (map br_enc32le (take n v))) = 4 * n" using n by (simp add: length_concat_enc)
  show "take (4 * n) (concat (map br_enc32le v)) = concat (map br_enc32le (take n v))" unfolding v using l by simp
  show "drop (4 * n) (concat (map br_enc32le v)) = concat (map br_enc32le (drop n v))" unfolding v using l by simp
qed

lemma CCOPY_w_memcpy:
  assumes "n \<le> length d" "n \<le> length s"
  shows "CCOPY_w (of_bool b) d s n = (if b then memcpy_w d s n else d)"
proof -
  have e: "br_range_enc32le v (length v) = concat (map br_enc32le v)" for v using le32.range_enc_map [of "length v" v] by simp
  have rt: "br_range_dec32le (length v) (concat (map br_enc32le v)) = v" for v
    using le32.range_dec_enc [of v "[]"] by (simp add: e)
  have "concat (map br_enc32le (take n s)) @ concat (map br_enc32le (drop n d)) = concat (map br_enc32le (memcpy_w d s n))"
    by (simp add: memcpy_w_def)
  moreover have "length (memcpy_w d s n) = length d" using assms by (simp add: memcpy_w_def)
  ultimately show ?thesis
    unfolding CCOPY_w_def e using assms rt [of d] rt [of "memcpy_w d s n"]
    by (simp add: br_ccopy_prefix length_concat_enc take_concat_enc drop_concat_enc)
qed

subsection \<open>The window\<close>

lemma lookup_words:
  "length (fold (\<lambda>v t. t[v := t ! v OR (msk AND s ! v)]) [1..<n] t) = length t
   \<and> (\<forall>i<length t. fold (\<lambda>v t. t[v := t ! v OR (msk AND s ! v)]) [1..<n] t ! i
       = (if 0 < i \<and> i < n then t ! i OR (msk AND s ! i) else t ! i))"
proof (induction n)
  case (Suc n)
  show ?case
  proof (cases "n = 0")
    case False
    then show ?thesis using Suc by (auto simp: nth_list_update less_Suc_eq)
  qed simp
qed simp

lemma window_lookup:
  assumes m: "modulus31 m L" and s0: "length (t2 ! 0) = n" and n: "L < n" and b: "unat bits < 2 ^ k" and k: "k \<le> 5"
  defines "t \<equiv> window_lookup n m k bits t2"
  shows "length t = n" "t ! 0 = m ! 0"
    "\<And>i. 0 < i \<Longrightarrow> i \<le> L \<Longrightarrow> t ! i = (if unat bits = 0 then 0 else t2 ! unat bits ! i)"
proof -
  define z where "z = br_i31_zero (t2 ! 0) (m ! 0)"
  have L0: "L < length (t2 ! 0)" using s0 n by simp
  have zz: "length z = n" "z ! 0 = m ! 0" using zero_array(1,2) [OF m L0] s0 by (simp_all add: z_def sized_def)
  have zi: "z ! i = 0" if "0 < i" "i \<le> L" for i
    using that modulus31D(3) [OF m] by (cases i) (simp_all add: z_def br_i31_zero_def nth_append)
  define F where "F = (\<lambda>u. \<lambda>t. let mask = - EQ (of_nat u) bits in fold (\<lambda>v t. t[v := t ! v OR (mask AND t2 ! u ! v)]) [1..<n] t)"
  have "length (fold F [1..<j] z) = n \<and> fold F [1..<j] z ! 0 = m ! 0
      \<and> (\<forall>i. 0 < i \<longrightarrow> i \<le> L \<longrightarrow> fold F [1..<j] z ! i = (if 0 < unat bits \<and> unat bits < j then t2 ! unat bits ! i else 0))"
    if "j \<le> 32" for j
    using that
  proof (induction j)
    case 0
    then show ?case using zz zi by simp
  next
    case (Suc j)
    show ?case
    proof (cases "j = 0")
      case True
      then show ?thesis using zz zi by auto
    next
      case False
      define t where "t = fold F [1..<j] z"
      have t: "length t = n" "t ! 0 = m ! 0"
        "\<And>i. 0 < i \<Longrightarrow> i \<le> L \<Longrightarrow> t ! i = (if 0 < unat bits \<and> unat bits < j then t2 ! unat bits ! i else 0)"
        using Suc unfolding t_def by auto
      have f: "fold F [1..<Suc j] z = F j t" using False by (simp add: t_def)
      have "unat (of_nat j :: u32) = j" using Suc.prems by (simp add: unat_of_nat)
      then have e: "EQ (of_nat j) bits = of_bool (unat bits = j)"
        unfolding EQ_spec word_unat_eq_iff by (auto intro: of_bool_eqI)
      define msk :: u32 where "msk = - of_bool (unat bits = j)"
      have Fj: "F j t = fold (\<lambda>v t. t[v := t ! v OR (msk AND t2 ! j ! v)]) [1..<n] t"
        unfolding F_def e Let_def msk_def ..
      note w = lookup_words [of msk "t2 ! j" n t, folded Fj]
      have "F j t ! i = (if 0 < unat bits \<and> unat bits < Suc j then t2 ! unat bits ! i else 0)" if "0 < i" "i \<le> L" for i
      proof (cases "unat bits = j")
        case True
        then have "msk = - 1" by (simp add: msk_def)
        then show ?thesis using w that n t(1) t(3) [of i] False True by simp
      next
        case neq: False
        then have "msk = 0" by (simp add: msk_def)
        then show ?thesis using w that n t(1) t(3) [of i] neq by auto
      qed
      moreover have "F j t ! 0 = t ! 0" using w t(1) n by auto
      ultimately show ?thesis unfolding f using w t(1,2) by simp
    qed
  qed
  from this [of "2 ^ k"] have *: "length t = n" "t ! 0 = m ! 0"
    "\<And>i. 0 < i \<Longrightarrow> i \<le> L \<Longrightarrow> t ! i = (if 0 < unat bits \<and> unat bits < 2 ^ k then t2 ! unat bits ! i else 0)"
  proof -
    have "(2 :: nat) ^ k \<le> 2 ^ 5" using k by (intro power_increasing) simp_all
    then have "2 ^ k \<le> (32 :: nat)" by simp
    moreover have "t = fold F [1..<2 ^ k] z" unfolding t_def window_lookup_def F_def z_def ..
    ultimately show "length t = n" "t ! 0 = m ! 0"
      "\<And>i. 0 < i \<Longrightarrow> i \<le> L \<Longrightarrow> t ! i = (if 0 < unat bits \<and> unat bits < 2 ^ k then t2 ! unat bits ! i else 0)"
      using \<open>2 ^ k \<le> 32 \<Longrightarrow> _\<close> by simp_all
  qed
  show "length t = n" "t ! 0 = m ! 0" by (rule *)+
  show "t ! i = (if unat bits = 0 then 0 else t2 ! unat bits ! i)" if "0 < i" "i \<le> L" for i
    using *(3) [OF that] b by simp
qed

text \<open>The window of \<open>w\<close> bits over the base \<open>b\<close>; with a single bit, entry 0 is the base itself.\<close>

definition window :: "u32 list \<Rightarrow> nat \<Rightarrow> nat \<Rightarrow> nat \<Rightarrow> nat \<Rightarrow> u32 list list \<Rightarrow> bool" where
  "window m L n w b t2 \<longleftrightarrow> t2 \<noteq> [] \<and> length (t2 ! 0) = n
     \<and> (if w = 1 then rep m L b (t2 ! 0) else \<forall>u. 0 < u \<longrightarrow> u < 2 ^ w \<longrightarrow> u < length t2 \<and> rep m L (b ^ u) (t2 ! u))"

lemma lookup_power:
  assumes om: "odd_modulus m L m0i" and win: "window m L n w b t2" and n: "L < n"
    and bits: "unat bits < 2 ^ k" and k: "k \<le> w" "0 < w" "w \<le> 5"
  defines "t \<equiv> if 1 < w then t2[0 := window_lookup n m k bits t2] else t2"
  shows "window m L n w b t" "below m (t ! 0) L" "bits \<noteq> 0 \<Longrightarrow> rep m L (b ^ unat bits) (t ! 0)"
proof -
  note od = odd_modulusD [OF om]
  have u0: "bits \<noteq> 0 \<longleftrightarrow> unat bits \<noteq> 0" by (simp add: unat_eq_0)
  have "window m L n w b t \<and> below m (t ! 0) L \<and> (bits \<noteq> 0 \<longrightarrow> rep m L (b ^ unat bits) (t ! 0))"
  proof (cases "w = 1")
    case True
    have "unat bits < 2"
    proof -
      have "(2 :: nat) ^ k \<le> 2 ^ 1" using k True by (intro power_increasing) simp_all
      then show ?thesis using bits by simp
    qed
    then have "bits \<noteq> 0 \<Longrightarrow> unat bits = 1" using u0 by linarith
    then show ?thesis using win True by (auto simp: t_def window_def rep_def)
  next
    case False
    then have w: "1 < w" using k by simp
    have s0: "length (t2 ! 0) = n" "t2 \<noteq> []" using win by (simp_all add: window_def)
    have k5: "k \<le> 5" using k by simp
    define s where "s = window_lookup n m k bits t2"
    note lk = window_lookup [OF od(1) s0(1) n bits k5, folded s_def]
    have t: "t = t2[0 := s]" "t ! 0 = s" using w s0 by (simp_all add: t_def s_def)
    have W: "window m L n w b t" using win False lk(1) unfolding t window_def by auto
    show ?thesis
    proof (cases "unat bits = 0")
      case True
      have "nval s L = 0" by (rule nval_0) (use lk(3) True in simp)
      moreover have "sized m s L" using lk True n by (simp add: sized_def words_ok_def)
      ultimately show ?thesis using W od(4) u0 True by (simp add: t(2) below_def)
    next
      case nz: False
      have "(2 :: nat) ^ k \<le> 2 ^ w" using k by (intro power_increasing) simp_all
      then have "unat bits < 2 ^ w" using bits by linarith
      then have r: "rep m L (b ^ unat bits) (t2 ! unat bits)" using win False nz by (simp add: window_def)
      have same: "s ! i = t2 ! unat bits ! i" if "i \<le> L" for i
        using that lk(2) lk(3) [of i] nz r by (cases "i = 0") (simp_all add: rep_def below_def sized_def)
      have "below m s L \<and> nval s L = nval (t2 ! unat bits) L"
        by (rule below_same) (use same lk(1) n r in \<open>simp_all add: rep_def\<close>)
      then have "rep m L (b ^ unat bits) s" using r by (simp add: rep_def)
      then show ?thesis using W by (simp add: t(2) rep_def)
    qed
  qed
  then show "window m L n w b t" "below m (t ! 0) L" "bits \<noteq> 0 \<Longrightarrow> rep m L (b ^ unat bits) (t ! 0)" by blast+
qed

lemma squarings:
  assumes om: "odd_modulus m L m0i" and x: "rep m L v x" and t1: "L < length t1"
    and f: "((\<lambda>(x, t1). let t1 = br_i31_montymul t1 x x m m0i in (memcpy_w x t1 (Suc L), t1)) ^^ k) (x, t1) = (x', t1')"
  shows "rep m L (v ^ 2 ^ k) x' \<and> length x' = length x \<and> length t1' = length t1"
  using f
proof (induction k arbitrary: x' t1')
  case 0
  then show ?case using x by simp
next
  case (Suc k)
  let ?F = "\<lambda>(x, t1). let t1 = br_i31_montymul t1 x x m m0i in (memcpy_w x t1 (Suc L), t1)"
  obtain y s where y: "(?F ^^ k) (x, t1) = (y, s)" by (rule prod.exhaust)
  note IH = Suc.IH [OF y]
  have e: "t1' = br_i31_montymul s y y m m0i" "x' = memcpy_w y t1' (Suc L)"
    using Suc.prems y by (auto simp: Let_def)
  have s: "L < length s" using IH t1 by simp
  have yr: "rep m L (v ^ 2 ^ k) y" using IH by simp
  have r: "rep m L (v ^ 2 ^ k * v ^ 2 ^ k) t1'" "length t1' = length s"
    unfolding e(1) by (rule rep_mult [OF om yr yr s])+
  have "v ^ 2 ^ k * v ^ 2 ^ k = v ^ 2 ^ Suc k" by (simp add: power_add [symmetric] mult_2)
  moreover have "rep m L (v ^ 2 ^ k * v ^ 2 ^ k) x'" unfolding e(2) by (rule rep_memcpy [OF r(1) rep_length [OF yr]])
  moreover have "length x' = length y" unfolding e(2) by (rule memcpy_same(1) [OF rep_length [OF yr] rep_length [OF r(1)]])
  ultimately show ?case using IH r(2) by simp
qed

subsection \<open>The bits of the exponent\<close>

text \<open>What is still to be read: the accumulator's bits, then the bytes.\<close>

definition pending :: "u8 list \<Rightarrow> u32 \<Rightarrow> nat \<Rightarrow> nat" where
  "pending e acc al = (unat acc mod 2 ^ al) * 256 ^ length e + os2ip e"

lemma next_bits_spec:
  assumes nb: "next_bits w e acc al = (k, e', acc', al')" and al: "al \<le> 7" and w: "0 < w" "w \<le> 5" and more: "\<not> (al = 0 \<and> e = [])"
  shows "0 < k" "k \<le> w" "k \<le> al'" "al' \<le> 15" "al' - k \<le> 7" "pending e' acc' al' = pending e acc al"
    "al' + 8 * length e' = al + 8 * length e" "9 * length e' + (al' - k) < 9 * length e + al"
proof -
  have *: "0 < k \<and> k \<le> w \<and> k \<le> al' \<and> al' \<le> 15 \<and> al' - k \<le> 7 \<and> al' + 8 * length e' = al + 8 * length e
      \<and> 9 * length e' + (al' - k) < 9 * length e + al"
    using nb al w more by (auto simp: next_bits_def split: if_splits list.splits)
  then show "0 < k" "k \<le> w" "k \<le> al'" "al' \<le> 15" "al' - k \<le> 7"
    "al' + 8 * length e' = al + 8 * length e" "9 * length e' + (al' - k) < 9 * length e + al" by blast+
  show "pending e' acc' al' = pending e acc al"
  proof (cases "al < w \<and> e \<noteq> []")
    case False
    then show ?thesis using nb by (auto simp: next_bits_def split: if_splits list.splits)
  next
    case True
    then obtain b bs where e: "e = b # bs" by (cases e) auto
    have s: "e' = bs" "acc' = push_bit 8 acc OR ucast b" "al' = al + 8" using nb True by (auto simp: next_bits_def e)
    have ub: "unat (ucast b :: u32) = unat b" 
    proof -
      have "unat b < 2 ^ 32" by (rule less_trans [OF unat_u8]) simp
      then show ?thesis by (simp add: unsigned_ucast_eq take_bit_eq_mod)
    qed
    have "unat acc' = unat (push_bit 8 acc) + unat (ucast b :: u32)"
      unfolding s(2) by (rule or_add [where n = 8]) (simp_all add: dvd_push [of 8, simplified] ub)
    then have u: "unat acc' = unat acc * 256 mod 2 ^ 32 + unat b" by (simp add: unat_push ub)
    have d: "(2 :: nat) ^ (al + 8) dvd 2 ^ 32" using al by (intro le_imp_power_dvd) simp
    have "unat acc' mod 2 ^ (al + 8) = (unat acc * 256 + unat b) mod 2 ^ (al + 8)"
      unfolding u using d by (metis mod_add_left_eq mod_mod_cancel)
    also have "(unat acc * 256 + unat b) mod 2 ^ (al + 8) = (unat acc mod 2 ^ al) * 256 + unat b"
      using digit_step(1) [of "unat b" 256 "unat acc" "2 ^ al"] by (simp add: power_add ac_simps)
    finally show ?thesis unfolding pending_def s e by (simp add: algebra_simps)
  qed
qed

lemma leading_window:
  fixes acc :: u32
  assumes "k \<le> al" "k \<le> 5"
  defines "bits \<equiv> drop_bit (al - k) acc AND (push_bit k 1 - 1)"
  shows "unat bits < 2 ^ k" "unat acc mod 2 ^ al = unat bits * 2 ^ (al - k) + unat acc mod 2 ^ (al - k)"
proof -
  have "push_bit k 1 - 1 = (mask k :: u32)" by (simp add: mask_eq_exp_minus_1)
  then have "bits = take_bit k (drop_bit (al - k) acc)" by (simp only: bits_def take_bit_eq_mask)
  then have "unat bits = take_bit k (unat (drop_bit (al - k) acc))" by (simp only: unsigned_take_bit_eq)
  then have u: "unat bits = unat acc div 2 ^ (al - k) mod 2 ^ k" by (simp only: take_bit_eq_mod unat_shift)
  then show "unat bits < 2 ^ k" by simp
  have "(2 :: nat) ^ al = 2 ^ (al - k) * 2 ^ k" using assms(1) by (simp flip: power_add)
  then show "unat acc mod 2 ^ al = unat bits * 2 ^ (al - k) + unat acc mod 2 ^ (al - k)"
    unfolding u by (metis mod_mult2_eq mult.commute)
qed

lemma modpow_loop:
  assumes om: "odd_modulus m L m0i" and n: "L < n" and w: "0 < w" "w \<le> 5"
    and win: "window m L n w b t2" and x: "rep m L (b ^ P) x" and t1: "L < length t1" and al: "al \<le> 7"
    and run: "modpow_loop w n (Suc L) m m0i e acc al (x, t1, t2) = (x', t1', t2')"
  shows "rep m L (b ^ (P * 2 ^ (al + 8 * length e) + pending e acc al)) x' \<and> length x' = length x"
  using win x t1 al run
proof (induction "9 * length e + al" arbitrary: e acc al x t1 t2 P rule: less_induct)
  case less
  note win = less.prems(1) and x = less.prems(2) and t1 = less.prems(3) and al = less.prems(4) and run = less.prems(5)
  show ?case
  proof (cases "al = 0 \<and> e = []")
    case True
    then have "x' = x" using run w by (simp add: modpow_loop.simps)
    then show ?thesis using x True by (simp add: pending_def)
  next
    case False
    obtain k e1 acc1 al1 where nb: "next_bits w e acc al = (k, e1, acc1, al1)" by (rule prod_cases4)
    note s = next_bits_spec [OF nb al w False]
    define bits where "bits = drop_bit (al1 - k) acc1 AND (push_bit k 1 - 1)"
    have k5: "k \<le> 5" using s(2) w by simp
    note bv = leading_window [OF s(3) k5, of acc1, folded bits_def]
    obtain y r where sq: "((\<lambda>(x, t1). let t1 = br_i31_montymul t1 x x m m0i in (memcpy_w x t1 (Suc L), t1)) ^^ k) (x, t1) = (y, r)"
      by (rule prod.exhaust)
    from squarings [OF om x t1 sq] have y: "rep m L ((b ^ P) ^ 2 ^ k) y" "length y = length x" "length r = length t1" by simp_all
    define u where "u = (if 1 < w then t2[0 := window_lookup n m k bits t2] else t2)"
    note lk = lookup_power [OF om win n bv(1) s(2) w, folded u_def]
    define z where "z = br_i31_montymul r y (u ! 0) m m0i"
    have Lr: "L < length r" using y(3) t1 by simp
    have yok: "words_ok y L" using y(1) by (simp add: rep_def below_def sized_def)
    have zl: "length z = length r"
      unfolding z_def using montymul [OF odd_modulusD(1,2) [OF om] lk(2) yok Lr] by simp
    define v where "v = CCOPY_w (NEQ bits 0) y z (Suc L)"
    have Ly: "L < length y" by (rule rep_length [OF y(1)])
    have vv: "v = (if bits \<noteq> 0 then memcpy_w y z (Suc L) else y)"
      unfolding v_def NEQ_spec by (rule CCOPY_w_memcpy) (use Ly Lr zl in simp_all)
    have pw: "(b ^ P) ^ 2 ^ k * b ^ unat bits = b ^ (P * 2 ^ k + unat bits)" by (simp add: power_add power_mult)
    have v: "rep m L (b ^ (P * 2 ^ k + unat bits)) v \<and> length v = length x"
    proof (cases "bits = 0")
      case True
      then show ?thesis using y vv pw by simp
    next
      case nz: False
      have "rep m L ((b ^ P) ^ 2 ^ k * b ^ unat bits) z"
        unfolding z_def by (rule rep_mult(1) [OF om y(1) lk(3) [OF nz] Lr])
      then have "rep m L (b ^ (P * 2 ^ k + unat bits)) z" unfolding pw .
      then show ?thesis
        using nz vv y(2) rep_memcpy [OF _ Ly] memcpy_same(1) [OF Ly rep_length] by simp
    qed
    have rec: "modpow_loop w n (Suc L) m m0i e1 acc1 (al1 - k) (v, z, u) = (x', t1', t2')"
    proof -
      have c: "(w = 0 \<or> al = 0 \<and> e = []) = False" using False w by simp
      show ?thesis
        using run unfolding modpow_loop.simps [of w n "Suc L" m m0i e acc al] c if_False nb Let_def prod.case
        unfolding bits_def [symmetric] sq [unfolded Let_def] prod.case
        unfolding u_def [symmetric] z_def [symmetric] unfolding v_def [symmetric] .
    qed
    have Lz: "L < length z" using zl Lr by simp
    have "rep m L (b ^ ((P * 2 ^ k + unat bits) * 2 ^ (al1 - k + 8 * length e1) + pending e1 acc1 (al1 - k))) x' \<and> length x' = length v"
      by (rule less.hyps [OF s(8) lk(1) _ Lz s(5) rec]) (use v in simp)
    moreover have "(P * 2 ^ k + unat bits) * 2 ^ (al1 - k + 8 * length e1) + pending e1 acc1 (al1 - k)
        = P * 2 ^ (al + 8 * length e) + pending e acc al"
    proof -
      have p: "(2 :: nat) ^ k * 2 ^ (al1 - k + 8 * length e1) = 2 ^ (al + 8 * length e)"
        unfolding s(7) [symmetric] using s(3) by (simp flip: power_add)
      have q: "(2 :: nat) ^ (al1 - k + 8 * length e1) = 2 ^ (al1 - k) * 256 ^ length e1"
        by (simp add: power_add power_mult)
      have "pending e acc al = (unat bits * 2 ^ (al1 - k) + unat acc1 mod 2 ^ (al1 - k)) * 256 ^ length e1 + os2ip e1"
        unfolding s(6) [symmetric] by (simp only: pending_def bv(2))
      then have "pending e acc al = unat bits * 2 ^ (al1 - k + 8 * length e1) + pending e1 acc1 (al1 - k)"
        unfolding pending_def q by (simp add: algebra_simps)
      moreover have "(P * 2 ^ k + unat bits) * 2 ^ (al1 - k + 8 * length e1)
          = P * 2 ^ (al + 8 * length e) + unat bits * 2 ^ (al1 - k + 8 * length e1)"
        unfolding distrib_right mult.assoc p ..
      ultimately show ?thesis by simp
    qed
    ultimately show ?thesis using v by simp
  qed
qed

subsection \<open>The whole exponentiation\<close>

lemma window_bits:
  "0 < window_bits n tw" "window_bits n tw \<le> 5" "window_bits n tw \<noteq> 1 \<Longrightarrow> (2 ^ window_bits n tw + 1) * n \<le> tw"
  by (auto simp: window_bits_def)

lemma slot_length:
  assumes "c * n \<le> length t" "k < c"
  shows "k < length (slots n c t)" "length (slots n c t ! k) = n"
proof -
  show k: "k < length (slots n c t)" using assms(2) by (simp add: slots_def)
  have "(k + 1) * n \<le> c * n" using assms(2) by (intro mult_right_mono) simp_all
  then have "n \<le> length t - k * n" using assms(1) by simp
  then show "length (slots n c t ! k) = n" using assms(2) by (simp add: slots_def)
qed

lemma fill_window:
  assumes om: "odd_modulus m L m0i" and n: "L < n" and x: "rep m L b x"
    and t: "\<And>k. k < c \<Longrightarrow> k < length t2 \<and> length (t2 ! k) = n" and c: "1 < c"
  defines "F \<equiv> \<lambda>u t2. t2[u := br_i31_montymul (t2 ! u) (t2 ! (u - 1)) x m m0i]"
  defines "s \<equiv> fold F [2..<c] (t2[1 := memcpy_w (t2 ! 1) x (Suc L)])"
  shows "\<forall>k<c. k < length s \<and> length (s ! k) = n" "\<forall>k<c. 0 < k \<longrightarrow> rep m L (b ^ k) (s ! k)"
proof -
  define s1 where "s1 = t2[1 := memcpy_w (t2 ! 1) x (Suc L)]"
  have L1: "L < length (t2 ! 1)" "1 < length t2" using t [OF c] n by simp_all
  have s1: "\<forall>k<c. k < length s1 \<and> length (s1 ! k) = n" "rep m L (b ^ 1) (s1 ! 1)"
    using t L1 memcpy_same(1) [OF L1(1) rep_length [OF x]] rep_memcpy [OF x L1(1)] by (auto simp: s1_def nth_list_update)
  have "(\<forall>k<c. k < length (fold F [2..<j] s1) \<and> length (fold F [2..<j] s1 ! k) = n)
      \<and> (\<forall>k<j. 0 < k \<longrightarrow> rep m L (b ^ k) (fold F [2..<j] s1 ! k))" if "2 \<le> j" "j \<le> c" for j
    using that
  proof (induction j rule: dec_induct)
    case base
    then show ?case using s1 by (auto simp: less_2_cases_iff)
  next
    case (step j)
    define a where "a = fold F [2..<j] s1"
    have IH: "\<forall>k<c. k < length a \<and> length (a ! k) = n" "\<forall>k<j. 0 < k \<longrightarrow> rep m L (b ^ k) (a ! k)"
      using step.IH step.prems unfolding a_def by simp_all
    have f: "fold F [2..<Suc j] s1 = a[j := br_i31_montymul (a ! j) (a ! (j - 1)) x m m0i]"
      using step.hyps by (simp add: a_def F_def)
    have p: "rep m L (b ^ (j - 1)) (a ! (j - 1))" using IH(2) step.hyps by simp
    have l: "L < length (a ! j)" using IH(1) step.prems n by simp
    have "b ^ (j - 1) * b = b ^ j" using step.hyps by (cases j) simp_all
    then have r: "rep m L (b ^ j) (br_i31_montymul (a ! j) (a ! (j - 1)) x m m0i)"
      "length (br_i31_montymul (a ! j) (a ! (j - 1)) x m m0i) = n"
      using rep_mult [OF om p x l] IH(1) step.prems by simp_all
    show ?case unfolding f using IH r step.prems by (auto simp: nth_list_update less_Suc_eq)
  qed
  from this [of c] c show "\<forall>k<c. k < length s \<and> length (s ! k) = n" "\<forall>k<c. 0 < k \<longrightarrow> rep m L (b ^ k) (s ! k)"
    unfolding s_def s1_def [symmetric] by simp_all
qed

lemma modpow_opt:
  assumes om: "odd_modulus m L m0i" and x: "below m x L"
    and n: "n = Suc L + Suc L mod 2" and room: "2 * n \<le> twlen" "twlen \<le> length tmp"
  shows "\<exists>y. br_i31_modpow_opt x e m m0i tmp twlen = Some y \<and> below m y L \<and> length y = length x
    \<and> nval y L = nval x L ^ os2ip e mod nval m L"
proof -
  note od = odd_modulusD [OF om]
  define b where "b = nval x L"
  define w where "w = window_bits n twlen"
  have w: "0 < w" "w \<le> 5" "w \<noteq> 1 \<Longrightarrow> (2 ^ w + 1) * n \<le> twlen" unfolding w_def by (rule window_bits; assumption)+
  have mlen: "unat (drop_bit 5 (m ! 0 + 63)) = Suc L" using words63 modulus31D(3,4) [OF od(1)] by simp
  have Ln: "L < n" using n by simp
  define y where "y = br_i31_to_monty x m"
  have y: "rep m L b y" "length y = length x" unfolding y_def b_def by (rule to_monty_rep [OF om x])+
  define c where "c = (if w = 1 then 1 else 2 ^ w :: nat)"
  have c0: "0 < c" by (simp add: c_def)
  have c1: "w \<noteq> 1 \<Longrightarrow> 1 < c" using w(1) one_less_power [of "2 :: nat" w] by (simp add: c_def)
  have room': "c * n \<le> length (drop n tmp)"
  proof (cases "w = 1")
    case True
    then show ?thesis using room by (simp add: c_def)
  next
    case False
    then have "c * n + n \<le> twlen" using w(3) by (simp add: c_def)
    then show ?thesis using room(2) by simp
  qed
  define s where "s = slots n c (drop n tmp)"
  have s: "k < length s \<and> length (s ! k) = n" if "k < c" for k
    unfolding s_def using slot_length [OF room' that] by simp
  define s' where "s' = (if w = 1 then s[0 := memcpy_w (s ! 0) y (Suc L)]
    else fold (\<lambda>u t2. t2[u := br_i31_montymul (t2 ! u) (t2 ! (u - 1)) y m m0i]) [2..<2 ^ w] (s[1 := memcpy_w (s ! 1) y (Suc L)]))"
  have win: "window m L n w b s'"
  proof (cases "w = 1")
    case True
    have l: "L < length (s ! 0)" "0 < length s" using s [OF c0] Ln by auto
    show ?thesis
      using True l s [OF c0] memcpy_same(1) [OF l(1) rep_length [OF y(1)]] rep_memcpy [OF y(1) l(1)]
      by (auto simp: window_def s'_def)
  next
    case False
    note fw = fill_window [OF om Ln y(1) s c1 [OF False]]
    have c2: "c = 2 ^ w" using False by (simp add: c_def)
    have s'': "s' = fold (\<lambda>u t2. t2[u := br_i31_montymul (t2 ! u) (t2 ! (u - 1)) y m m0i]) [2..<c] (s[1 := memcpy_w (s ! 1) y (Suc L)])"
      using False by (simp add: s'_def c2)
    have "0 < length s' \<and> length (s' ! 0) = n" using fw(1) c0 unfolding s'' by blast
    moreover have "\<forall>u. 0 < u \<longrightarrow> u < 2 ^ w \<longrightarrow> u < length s' \<and> rep m L (b ^ u) (s' ! u)"
      using fw unfolding s'' c2 by blast
    ultimately show ?thesis using False by (auto simp: window_def)
  qed
  define z where "z = br_i31_muladd_small ((br_i31_zero y (m ! 0))[L := 1]) 0 m"
  have z: "rep m L (b ^ 0) z" "length z = length x"
    using rep_one [OF om rep_length [OF y(1)]] y(2) by (simp_all add: z_def)
  have t1: "L < length (take n tmp)" using room Ln by simp
  obtain u t1' t2' where run: "modpow_loop w n (Suc L) m m0i e 0 0 (z, take n tmp, s') = (u, t1', t2')" by (rule prod_cases3)
  have "rep m L (b ^ (0 * 2 ^ (0 + 8 * length e) + pending e 0 0)) u \<and> length u = length z"
    by (rule modpow_loop [OF om Ln w(1,2) win z(1) t1 _ run]) simp
  then have u: "rep m L (b ^ os2ip e) u" "length u = length x" using z(2) by (simp_all add: pending_def)
  have "br_i31_modpow_opt x e m m0i tmp twlen = Some (br_i31_from_monty u m m0i)"
  proof -
    have c: "(twlen < 2 * n) = False" using room by simp
    show ?thesis
      unfolding br_i31_modpow_opt_def Let_def mlen n [symmetric] c if_False w_def [symmetric] c_def [symmetric] s_def [symmetric]
        y_def [symmetric] od(6) z_def [symmetric] s'_def [symmetric] run prod.case ..
  qed
  then show ?thesis using from_monty_rep [OF om u(1)] u(2) by (simp add: b_def)
qed

end
