(* ===== verification/I31Codec.thy ===== *)
theory I31Codec
  imports I31Modpow
begin

section \<open>Big integers: decoding and encoding (i31_decode.c, i31_decmod.c, i31_encode.c)\<close>

text \<open>
  Bytes come and go with the most significant first.  Decoding gathers them from the end in an accumulator that gives
  off a word whenever it holds 31 bits; encoding gathers the words and gives off 32 bits.
\<close>

unbundle bit_operations_syntax

subsection \<open>The functions\<close>

text \<open>A byte enters the accumulator; the word that is complete, if any.\<close>

definition push_byte :: "u8 \<Rightarrow> u32 \<Rightarrow> nat \<Rightarrow> u32 option \<times> u32 \<times> nat" where
  "push_byte b8 acc acc_len =
     (let b = ucast b8;
          acc = acc OR push_bit acc_len b;
          acc_len = acc_len + 8
      in if 31 \<le> acc_len then
           let w = acc AND 0x7FFFFFFF;
               acc_len = acc_len - 31
           in (Some w, drop_bit (8 - acc_len) b, acc_len)
         else (None, acc, acc_len))"

definition br_i31_decode :: "u32 list \<Rightarrow> u8 list \<Rightarrow> u32 list" where
  "br_i31_decode x src =
     (let (x, v, acc, acc_len) =
        fold (\<lambda>b (x, v, acc, acc_len).
          case push_byte b acc acc_len of
            (Some w, acc, acc_len) \<Rightarrow> (x[v := w], v + 1, acc, acc_len)
          | (None, acc, acc_len) \<Rightarrow> (x, v, acc, acc_len)) (rev src) (x, 1, 0, 0);
          (x, v) = (if acc_len \<noteq> 0 then (x[v := acc], v + 1) else (x, v))
      in x[0 := br_i31_bit_length (drop 1 x) (v - 1)])"

text \<open>One pass of \<open>br_i31_decode_mod\<close> over \<open>tlen\<close> bytes: the first compares with the modulus, the second writes.\<close>

definition decode_mod_word :: "bool \<Rightarrow> u32 list \<Rightarrow> nat \<Rightarrow> u32 \<Rightarrow> nat \<Rightarrow> u32 list \<times> u32 \<Rightarrow> u32 list \<times> u32" where
  "decode_mod_word pass m mlen xw v = (\<lambda>(x, r).
     if v \<le> mlen then
       if pass then (x[v := r AND xw], r)
       else let cc = CMP xw (m ! v) in (x, MUX (EQ cc 0) r cc)
     else if \<not> pass then (x, MUX (EQ xw 0) r 1)
     else (x, r))"

definition decode_mod_byte ::
  "bool \<Rightarrow> u8 list \<Rightarrow> u32 list \<Rightarrow> nat \<Rightarrow> nat \<Rightarrow> (u32 list \<times> u32) \<times> nat \<times> u32 \<times> nat \<Rightarrow> (u32 list \<times> u32) \<times> nat \<times> u32 \<times> nat" where
  "decode_mod_byte pass src m mlen u = (\<lambda>(s, v, acc, acc_len).
     let b = (if u < length src then src ! (length src - 1 - u) else 0)
     in case push_byte b acc acc_len of
          (Some xw, acc, acc_len) \<Rightarrow> (decode_mod_word pass m mlen xw v s, v + 1, acc, acc_len)
        | (None, acc, acc_len) \<Rightarrow> (s, v, acc, acc_len))"

definition decode_mod_pass :: "bool \<Rightarrow> u8 list \<Rightarrow> u32 list \<Rightarrow> nat \<Rightarrow> nat \<Rightarrow> u32 list \<times> u32 \<Rightarrow> u32 list \<times> u32" where
  "decode_mod_pass pass src m mlen tlen s =
     (let ((x, r), v, acc, acc_len) = fold (decode_mod_byte pass src m mlen) [0..<tlen] (s, 1, 0, 0);
          r = drop_bit 1 r
      in (x, r OR push_bit 1 r))"

definition br_i31_decode_mod :: "u32 list \<Rightarrow> u8 list \<Rightarrow> u32 list \<Rightarrow> u32 \<times> u32 list" where
  "br_i31_decode_mod x src m =
     (let mlen = words31 (m ! 0);
          tlen = 4 * mlen;
          tlen = (if tlen < length src then length src else tlen) + 4;
          (x, r) = decode_mod_pass True src m mlen tlen (decode_mod_pass False src m mlen tlen (x, 0))
      in (r AND 1, x[0 := m ! 0]))"

text \<open>The bytes below position \<open>len\<close>; the first branch of the loop only fetches a word.\<close>

function encode_loop :: "u32 list \<Rightarrow> nat \<Rightarrow> nat \<Rightarrow> nat \<Rightarrow> u32 \<Rightarrow> nat \<Rightarrow> u8 list" where
  "encode_loop x xlen k len acc acc_len =
     (if len = 0 then []
      else
        let w = (if k \<le> xlen then x ! k else 0);
            k = k + 1
        in if acc_len = 0 then encode_loop x xlen k len w 31
           else
             let z = acc OR push_bit acc_len w;
                 acc_len = acc_len - 1;
                 acc = drop_bit (31 - acc_len) w
             in if 4 \<le> len then encode_loop x xlen k (len - 4) acc acc_len @ br_enc32be z
                else
                  (if len = 3 then [ucast (drop_bit 16 z)] else [])
                  @ (if 2 \<le> len then [ucast (drop_bit 8 z)] else []) @ [ucast z])"
  by pat_completeness auto
termination by (relation "measure (\<lambda>(x, xlen, k, len, acc, acc_len). 2 * len + of_bool (acc_len = 0))") auto

definition br_i31_encode :: "nat \<Rightarrow> u32 list \<Rightarrow> u8 list" where
  "br_i31_encode len x =
     (let xlen = words31 (x ! 0)
      in if xlen = 0 then replicate len 0 else encode_loop x xlen 1 len 0 0)"

subsection \<open>Digits\<close>

definition digit31 :: "nat \<Rightarrow> nat \<Rightarrow> nat" where
  "digit31 N i = N div 2 ^ (31 * i) mod 2 ^ 31"

lemma mod_split: "N mod p + (N div p mod w) * p = N mod (p * w :: nat)"
  by (metis add.commute mod_mult2_eq mult.commute)

lemma div_shifted: "(a + c * 2 ^ n) div 2 ^ n = a div 2 ^ n + (c :: nat)"
  by simp

lemma nval_digits:
  "(\<And>i. i < k \<Longrightarrow> unat (x ! Suc i) = digit31 N i) \<Longrightarrow> nval x k = N mod 2 ^ (31 * k)"
proof (induction k)
  case (Suc k)
  have "nval x (Suc k) = N mod 2 ^ (31 * k) + (N div 2 ^ (31 * k) mod 2 ^ 31) * 2 ^ (31 * k)"
    using Suc by (simp add: digit31_def)
  also have "\<dots> = N mod (2 ^ (31 * k) * 2 ^ 31)" by (rule mod_split)
  finally show ?case by (simp add: power_add ac_simps)
qed simp

lemma digits_nval:
  assumes "words_ok x L"
  shows "digit31 (nval x L) i = (if i < L then unat (x ! Suc i) else 0)"
  using assms
proof (induction L)
  case (Suc L)
  have ok: "words_ok x L" and t: "unat (x ! Suc L) < 2 ^ 31" using Suc.prems by (simp_all add: words_ok_Suc)
  have b: "nval x L < 2 ^ (31 * L)" by (rule nval_bound [OF ok])
  consider "i < L" | "i = L" | "L < i" by linarith
  then show ?case
  proof cases
    case 1
    then obtain d where L: "L = i + Suc d" using less_iff_Suc_add by (metis add_Suc_right)
    have "nval x (Suc L) = nval x L + (unat (x ! Suc L) * 2 ^ (31 * d) * 2 ^ 31) * 2 ^ (31 * i)"
      by (simp add: L power_add algebra_simps)
    then have "nval x (Suc L) div 2 ^ (31 * i) = nval x L div 2 ^ (31 * i) + unat (x ! Suc L) * 2 ^ (31 * d) * 2 ^ 31"
      by (simp only: div_shifted)
    then have "digit31 (nval x (Suc L)) i = digit31 (nval x L) i"
      unfolding digit31_def by (simp only: mod_mult_self1)
    then show ?thesis using Suc.IH [OF ok] 1 by simp
  next
    case 2
    then show ?thesis using b t by (simp add: digit31_def)
  next
    case 3
    have "nval x (Suc L) < 2 ^ (31 * Suc L)" by (rule nval_bound [OF Suc.prems])
    also have "(2 :: nat) ^ (31 * Suc L) \<le> 2 ^ (31 * i)" using 3 by (intro power_increasing) simp_all
    finally show ?thesis using 3 by (simp add: digit31_def)
  qed
qed (simp add: digit31_def)

text \<open>The bytes of a number, from the end.\<close>

lemma pow256: "(256 :: nat) ^ u = 2 ^ (8 * u)"
  by (simp add: power_mult)

lemma os2ip_byte:
  "os2ip src div 256 ^ u mod 256 = (if u < length src then unat (src ! (length src - 1 - u)) else 0)"
proof (induction src)
  case (Cons b src)
  let ?n = "length src"
  consider "u < ?n" | "u = ?n" | "?n < u" by linarith
  then show ?case
  proof cases
    case 1
    then obtain d where n: "?n = u + Suc d" using less_iff_Suc_add by (metis add_Suc_right)
    have "os2ip (b # src) = os2ip src + (unat b * 256 ^ d * 256) * 256 ^ u" by (simp add: n power_add algebra_simps)
    then have "os2ip (b # src) div 256 ^ u = os2ip src div 256 ^ u + unat b * 256 ^ d * 256"
      by (simp only: pow256 div_shifted)
    then have "os2ip (b # src) div 256 ^ u mod 256 = os2ip src div 256 ^ u mod 256" by (simp only: mod_mult_self1)
    then show ?thesis using Cons 1 by (simp add: nth_Cons')
  next
    case 2
    then show ?thesis using os2ip_bound [of src] by simp
  next
    case 3
    have "os2ip (b # src) < 256 ^ length (b # src)" by (rule os2ip_bound)
    also have "\<dots> \<le> (256 :: nat) ^ u" using 3 by (intro power_increasing) simp_all
    finally show ?thesis using 3 by simp
  qed
qed simp

subsection \<open>The accumulator\<close>

text \<open>After \<open>u\<close> bytes of \<open>N\<close>, \<open>v - 1\<close> words have been given off.\<close>

definition acc_at :: "nat \<Rightarrow> nat \<Rightarrow> nat \<Rightarrow> u32 \<Rightarrow> nat \<Rightarrow> bool" where
  "acc_at N u v acc al \<longleftrightarrow> 8 * u = 31 * (v - 1) + al \<and> al \<le> 30 \<and> 0 < v
     \<and> unat acc = N mod 2 ^ (8 * u) div 2 ^ (31 * (v - 1))"

lemma acc_start: "acc_at N 0 1 0 0"
  by (simp add: acc_at_def)

lemma acc_bound: "acc_at N u v acc al \<Longrightarrow> unat acc < 2 ^ al"
proof -
  assume a: "acc_at N u v acc al"
  have "N mod 2 ^ (8 * u) < 2 ^ al * 2 ^ (31 * (v - 1))"
    using a by (simp add: acc_at_def add.commute flip: power_add)
  then show ?thesis using a unfolding acc_at_def by (simp add: less_mult_imp_div_less)
qed

lemma push_byte_spec:
  fixes b :: u8
  assumes a: "acc_at N u v acc al" and b: "unat b = N div 256 ^ u mod 256"
  shows "case push_byte b acc al of
      (None, acc', al') \<Rightarrow> acc_at N (Suc u) v acc' al'
    | (Some w, acc', al') \<Rightarrow> acc_at N (Suc u) (Suc v) acc' al' \<and> unat w = digit31 N (v - 1)"
proof -
  let ?P = "(2 :: nat) ^ (31 * (v - 1))"
  have al: "al \<le> 30" and u8: "8 * u = 31 * (v - 1) + al" and v: "0 < v" and ua: "unat acc = N mod 2 ^ (8 * u) div ?P"
    using a by (simp_all add: acc_at_def)
  have ub: "unat (ucast b :: u32) = unat b"
  proof -
    have "unat b < 2 ^ 32" by (rule less_trans [OF unat_u8]) simp
    then show ?thesis by (simp add: unsigned_ucast_eq take_bit_eq_mod)
  qed
  define S where "S = unat acc + unat b * 2 ^ al"
  have S: "S = N mod 2 ^ (8 * Suc u) div ?P"
  proof -
    have "N mod 2 ^ (8 * Suc u) = N mod (2 ^ (8 * u) * 256)" by (simp add: power_add ac_simps)
    also have "\<dots> = N mod 2 ^ (8 * u) + unat b * 2 ^ (8 * u)" unfolding b pow256 by (rule mod_split [symmetric])
    also have "\<dots> = N mod 2 ^ (8 * u) + (unat b * 2 ^ al) * ?P" unfolding u8 by (simp add: power_add ac_simps)
    finally show ?thesis by (simp add: S_def ua)
  qed
  have ab: "unat acc < 2 ^ al" by (rule acc_bound [OF a])
  have or: "unat (acc OR push_bit al (ucast b)) = unat acc + unat b * 2 ^ al mod 2 ^ 32"
  proof -
    have "unat (push_bit al (ucast b) OR acc) = unat (push_bit al (ucast b) :: u32) + unat acc"
      by (rule or_add [OF dvd_push ab]) (use al in simp)
    then show ?thesis by (simp add: unat_push ub or.commute)
  qed
  show ?thesis
  proof (cases "31 \<le> al + 8")
    case False
    have "unat b * 2 ^ al < 2 ^ 8 * 2 ^ al" using unsigned_less [of b, where ?'a = nat] by simp
    also have "2 ^ 8 * 2 ^ al \<le> (2 :: nat) ^ 32" unfolding power_add [symmetric] using False by (intro power_increasing) simp_all
    finally have "unat (acc OR push_bit al (ucast b)) = S" using or by (simp add: S_def)
    then show ?thesis using False u8 v S by (simp add: push_byte_def Let_def acc_at_def)
  next
    case True
    have w: "unat ((acc OR push_bit al (ucast b)) AND 0x7FFFFFFF) = digit31 N (v - 1)"
    proof -
      have "(unat acc + unat b * 2 ^ al mod 2 ^ 32) mod 2 ^ 31 = S mod 2 ^ 31"
      proof -
        have "unat b * 2 ^ al mod 2 ^ 32 mod 2 ^ 31 = unat b * 2 ^ al mod 2 ^ 31" by (rule mod_mod_cancel) (simp add: le_imp_power_dvd)
        then show ?thesis unfolding S_def by (metis mod_add_right_eq)
      qed
      also have "S mod 2 ^ 31 = N div ?P mod 2 ^ 31"
      proof -
        have e: "8 * Suc u = 31 * (v - 1) + (al + 8)" using u8 by simp
        have "S = N div ?P mod 2 ^ (al + 8)" unfolding S e power_add [of 2 "31 * (v - 1)"] by (simp add: mod_mult2_eq)
        moreover have "(2 :: nat) ^ 31 dvd 2 ^ (al + 8)" using True by (rule le_imp_power_dvd)
        ultimately show ?thesis by (simp only: mod_mod_cancel)
      qed
      finally show ?thesis unfolding unat_and31 or digit31_def .
    qed
    have "unat (drop_bit (8 - (al + 8 - 31)) (ucast b :: u32)) = S div 2 ^ 31"
    proof -
      have "S div 2 ^ al = unat b" using ab by (simp add: S_def)
      moreover have "S div 2 ^ 31 = S div 2 ^ al div 2 ^ (31 - al)"
        using al by (simp flip: div_mult2_eq power_add)
      moreover have "8 - (al + 8 - 31) = 31 - al" using True al by simp
      ultimately show ?thesis by (simp only: unat_shift ub)
    qed
    also have "\<dots> = N mod 2 ^ (8 * Suc u) div 2 ^ (31 * v)"
    proof -
      have "31 * v = 31 * (v - 1) + 31" using v by simp
      then show ?thesis unfolding S by (simp only: power_add div_mult2_eq)
    qed
    finally have c: "unat (drop_bit (8 - (al + 8 - 31)) (ucast b :: u32)) = N mod 2 ^ (8 * Suc u) div 2 ^ (31 * v)" .
    have "8 * Suc u = 31 * v + (al + 8 - 31)" using u8 True v by (cases v) simp_all
    then show ?thesis using True w c al v by (simp add: push_byte_def Let_def acc_at_def)
  qed
qed

subsection \<open>Decoding\<close>

definition decode_byte :: "u8 \<Rightarrow> u32 list \<times> nat \<times> u32 \<times> nat \<Rightarrow> u32 list \<times> nat \<times> u32 \<times> nat" where
  "decode_byte b = (\<lambda>(x, v, acc, al).
     case push_byte b acc al of (Some w, acc, al) \<Rightarrow> (x[v := w], v + 1, acc, al) | (None, acc, al) \<Rightarrow> (x, v, acc, al))"

lemma decode_bytes:
  assumes len: "8 * length src \<le> 31 * (length x - 1)" and u: "u \<le> length src"
  shows "\<exists>y v acc al. fold decode_byte (take u (rev src)) (x, 1, 0, 0) = (y, v, acc, al)
    \<and> acc_at (os2ip src) u v acc al \<and> length y = length x \<and> (\<forall>i<v - 1. unat (y ! Suc i) = digit31 (os2ip src) i)"
  using u
proof (induction u)
  case 0
  then show ?case using acc_start by simp
next
  case (Suc u)
  let ?N = "os2ip src"
  define b where "b = src ! (length src - 1 - u)"
  have u: "u < length src" using Suc.prems by simp
  have tk: "take (Suc u) (rev src) = take u (rev src) @ [b]"
    using u by (simp add: take_Suc_conv_app_nth rev_nth b_def)
  have ub: "unat b = ?N div 256 ^ u mod 256" using os2ip_byte [of src u] u by (simp add: b_def)
  from Suc obtain y v acc al where f: "fold decode_byte (take u (rev src)) (x, 1, 0, 0) = (y, v, acc, al)"
    and a: "acc_at ?N u v acc al" and ly: "length y = length x" and dg: "\<forall>i<v - 1. unat (y ! Suc i) = digit31 ?N i" by auto
  obtain o' acc' al' where pb: "push_byte b acc al = (o', acc', al')" by (rule prod_cases3)
  note ps = push_byte_spec [OF a ub, unfolded pb prod.case]
  have step: "fold decode_byte (take (Suc u) (rev src)) (x, 1, 0, 0) = decode_byte b (y, v, acc, al)"
    unfolding tk by (simp only: fold_append comp_apply f fold_simps id_apply)
  show ?case
  proof (cases o')
    case None
    then have "decode_byte b (y, v, acc, al) = (y, v, acc', al')" by (simp add: decode_byte_def pb)
    then show ?thesis using step ps None ly dg by auto
  next
    case (Some w)
    then have e: "decode_byte b (y, v, acc, al) = (y[v := w], Suc v, acc', al')" by (simp add: decode_byte_def pb)
    have a': "acc_at ?N (Suc u) (Suc v) acc' al'" and w: "unat w = digit31 ?N (v - 1)" using ps Some by simp_all
    have v: "0 < v" using a by (simp add: acc_at_def)
    have "31 * v \<le> 8 * Suc u" using a' by (simp add: acc_at_def)
    also have "\<dots> \<le> 8 * length src" using Suc.prems by (rule mult_le_mono2)
    also have "\<dots> \<le> 31 * (length x - 1)" by (rule len)
    finally have "v \<le> length x - 1" by simp
    then have vl: "v < length y" using ly v by linarith
    have "unat (y[v := w] ! Suc i) = digit31 ?N i" if "i < v" for i
      using that dg w vl v by (cases "Suc i = v") auto
    then show ?thesis using step e a' ly by auto
  qed
qed

text \<open>The header: the index of the leading word and its length.\<close>

lemma bit_length_scan:
  defines "F \<equiv> \<lambda>x k (tw, twk). let c = EQ tw 0; w = x ! k in (MUX c w tw, MUX c (of_nat k) twk :: u32)"
  shows "tw \<noteq> 0 \<Longrightarrow> fold (F x) (rev [0..<n]) (tw, twk) = (tw, twk)"
    and "(\<forall>i<n. x ! i = 0) \<Longrightarrow> fst (fold (F x) (rev [0..<n]) (0, twk)) = 0"
    and "k < n \<Longrightarrow> x ! k \<noteq> 0 \<Longrightarrow> (\<forall>i. k < i \<longrightarrow> i < n \<longrightarrow> x ! i = 0) \<Longrightarrow> fold (F x) (rev [0..<n]) (0, twk) = (x ! k, of_nat k)"
proof -
  have st: "F x n (tw, twk) = (if tw = 0 then (x ! n, of_nat n) else (tw, twk))" for n tw twk
    unfolding F_def EQ_spec Let_def prod.case MUX_of_bool by simp
  show keep: "tw \<noteq> 0 \<Longrightarrow> fold (F x) (rev [0..<n]) (tw, twk) = (tw, twk)" for n tw twk
    by (induction n) (simp_all add: st)
  show "(\<forall>i<n. x ! i = 0) \<Longrightarrow> fst (fold (F x) (rev [0..<n]) (0, twk)) = 0"
    by (induction n arbitrary: twk) (simp_all add: st)
  show "k < n \<Longrightarrow> x ! k \<noteq> 0 \<Longrightarrow> (\<forall>i. k < i \<longrightarrow> i < n \<longrightarrow> x ! i = 0) \<Longrightarrow> fold (F x) (rev [0..<n]) (0, twk) = (x ! k, of_nat k)"
  proof (induction n arbitrary: twk)
    case (Suc n)
    show ?case
    proof (cases "k = n")
      case True
      then show ?thesis using Suc.prems keep by (simp add: st)
    next
      case False
      then have "x ! n = 0" "k < n" using Suc.prems by auto
      then show ?thesis using Suc by (simp add: st)
    qed
  qed simp
qed

lemma bit_length:
  assumes "k < n" "k < 2 ^ 26" "x ! k \<noteq> 0" "\<forall>i. k < i \<longrightarrow> i < n \<longrightarrow> x ! i = 0"
  shows "unat (br_i31_bit_length x n) = 32 * k + bit_len (unat (x ! k))"
proof -
  have "br_i31_bit_length x n = push_bit 5 (of_nat k) + BIT_LENGTH (x ! k)"
    unfolding br_i31_bit_length_def using bit_length_scan(3) [OF assms(1,3,4), of 0] by (simp add: case_prod_beta')
  moreover have "unat (push_bit 5 (of_nat k :: u32)) = 32 * k"
  proof -
    have k: "k < 67108864" using assms(2) by simp
    have "unat (of_nat k :: u32) = k" using k by (simp add: unat_of_nat)
    then show ?thesis using k unfolding unat_push by simp
  qed
  moreover have "bit_len (unat (x ! k)) \<le> 32"
  proof (rule ccontr)
    assume "\<not> bit_len (unat (x ! k)) \<le> 32"
    then have "(2 :: nat) ^ 32 \<le> 2 ^ (bit_len (unat (x ! k)) - 1)" by (intro power_increasing) simp_all
    then have "2 ^ 32 \<le> unat (x ! k)" using bit_len_bounds [of "unat (x ! k)"] assms(3) by (simp add: unat_eq_0)
    then show False using unat_bounds(1) [of "x ! k"] by linarith
  qed
  ultimately show ?thesis using assms(2) by (simp add: unat_word_ariths BIT_LENGTH_spec)
qed

lemma nval_zeros: "L \<le> k \<Longrightarrow> (\<And>i. L < i \<Longrightarrow> i \<le> k \<Longrightarrow> x ! i = 0) \<Longrightarrow> nval x k = nval x L"
proof (induction k)
  case (Suc k)
  show ?case
  proof (cases "L = Suc k")
    case False
    then show ?thesis using Suc by simp
  qed simp
qed simp

lemma decode:
  assumes len: "8 * length src \<le> 31 * (length x - 1)" "length src < 2 ^ 25" and pos: "0 < os2ip src"
  defines "y \<equiv> br_i31_decode x src"
  shows "\<exists>L. modulus31 y L \<and> nval y L = os2ip src \<and> length y = length x"
proof -
  let ?N = "os2ip src" and ?n = "length src"
  obtain z v acc al where f: "fold decode_byte (rev src) (x, 1, 0, 0) = (z, v, acc, al)"
    and a: "acc_at ?N ?n v acc al" and lz: "length z = length x" and dg: "\<forall>i<v - 1. unat (z ! Suc i) = digit31 ?N i"
    using decode_bytes [OF len(1), of ?n] by auto
  have Nb: "?N < 2 ^ (8 * ?n)" using os2ip_bound [of src] by (simp add: pow256)
  have v: "0 < v" and u8: "8 * ?n = 31 * (v - 1) + al" and al: "al \<le> 30" and ua: "unat acc = ?N div 2 ^ (31 * (v - 1))"
    using a Nb by (simp_all add: acc_at_def)
  define K where "K = (if al = 0 then v - 1 else v)"
  define s where "s = (if al = 0 then z else z[v := acc])"
  have ab: "unat acc < 2 ^ 31"
  proof -
    have "unat acc < 2 ^ al" by (rule acc_bound [OF a])
    also have "\<dots> \<le> (2 :: nat) ^ 31" using al by (intro power_increasing) simp_all
    finally show ?thesis .
  qed
  have K: "K < length x \<or> K = 0" using u8 v len(1) by (auto simp: K_def)
  have ds: "unat (s ! Suc i) = digit31 ?N i" if "i < K" for i
  proof (cases "al = 0")
    case True
    then show ?thesis using that dg by (simp add: s_def K_def)
  next
    case False
    have "unat acc = digit31 ?N (v - 1)" using ua ab by (simp add: digit31_def)
    then show ?thesis using that dg False K lz by (cases "Suc i = v") (auto simp: s_def K_def)
  qed
  have ls: "length s = length x" by (simp add: s_def lz)
  have Kb: "8 * ?n \<le> 31 * K" using u8 v al by (cases v) (auto simp: K_def)
  have "?N < 2 ^ (31 * K)"
  proof -
    have "(2 :: nat) ^ (8 * ?n) \<le> 2 ^ (31 * K)" using Kb by (intro power_increasing) simp_all
    then show ?thesis using Nb by linarith
  qed
  then have sv: "nval s K = ?N" using nval_digits [of K s ?N] ds by simp
  have y: "y = s[0 := br_i31_bit_length (drop 1 s) K]"
  proof -
    have "y = (let (x, v, acc, al) = fold decode_byte (rev src) (x, 1, 0, 0);
          (x, v) = (if al \<noteq> 0 then (x[v := acc], v + 1) else (x, v))
        in x[0 := br_i31_bit_length (drop 1 x) (v - 1)])"
      unfolding y_def br_i31_decode_def decode_byte_def ..
    then show ?thesis unfolding f by (cases "al = 0") (simp_all add: s_def K_def)
  qed
  \<comment> \<open>the leading word\<close>
  define P where "P = (\<lambda>k. k < K \<and> s ! Suc k \<noteq> 0)"
  have ex: "\<exists>k. P k"
  proof (rule ccontr)
    assume "\<not> (\<exists>k. P k)"
    then have "s ! i = 0" if "0 < i" "i \<le> K" for i using that by (cases i) (auto simp: P_def)
    then have "nval s K = 0" by (intro nval_0) simp
    then show False using sv pos by simp
  qed
  define k where "k = Greatest P"
  have Pb: "\<And>i. P i \<Longrightarrow> i \<le> K" by (simp add: P_def)
  have Pk: "P k" unfolding k_def using ex Pb by (metis GreatestI_nat)
  have top: "\<not> P i" if "k < i" for i using that Greatest_le_nat [of P i K] Pb unfolding k_def by (meson not_le)
  have k: "k < K" "s ! Suc k \<noteq> 0" using Pk by (simp_all add: P_def)
  have z0: "s ! i = 0" if "Suc k < i" "i \<le> K" for i using that top [of "i - 1"] by (cases i) (auto simp: P_def)
  have Kl: "K < length x" using K k by linarith
  have k26: "Suc k < 2 ^ 26"
  proof -
    have "v \<le> ?n + 1" using u8 v by linarith
    then have "K \<le> ?n + 1" by (auto simp: K_def)
    then show ?thesis using k(1) len(2) by simp
  qed
  show ?thesis
  proof (intro exI [of _ "Suc k"] conjI)
    have d: "drop 1 s ! i = s ! Suc i" if "i < K" for i using that Kl ls by simp
    have hd: "unat (br_i31_bit_length (drop 1 s) K) = 32 * k + bit_len (unat (drop 1 s ! k))"
      by (rule bit_length [OF k(1) Suc_lessD [OF k26]]) (use d k z0 in auto)
    have kl: "Suc k < length s" using k Kl ls by simp
    have t31: "unat (s ! Suc i) < 2 ^ 31" if "i < K" for i using ds [OF that] by (simp add: digit31_def)
    have "words_ok y (Suc k)"
      unfolding words_ok_def y
    proof (intro conjI ballI)
      show "Suc k < length (s[0 := br_i31_bit_length (drop 1 s) K])" using kl by simp
      fix i assume i: "i \<in> {1..Suc k}"
      then obtain j where "i = Suc j" "j < K" using k by (cases i) auto
      then show "unat (s[0 := br_i31_bit_length (drop 1 s) K] ! i) < 2 ^ 31" using t31 by simp
    qed
    then show "modulus31 y (Suc k)"
      using k k26 hd d kl by (cases s) (auto simp: modulus31_def y)
    have "nval s K = nval s (Suc k)" by (rule nval_zeros) (use k z0 in auto)
    then show "nval y (Suc k) = ?N" using sv by (simp add: y)
    show "length y = length x" by (simp add: y ls)
  qed
qed

subsection \<open>Decoding below a modulus\<close>

abbreviation word31 :: "nat \<Rightarrow> nat \<Rightarrow> u32" where
  "word31 N i \<equiv> of_nat (digit31 N i)"

lemma unat_word31: "unat (word31 N i) = digit31 N i"
proof -
  have "digit31 N i < 2 ^ 31" by (simp add: digit31_def)
  then show ?thesis by (simp add: unat_of_nat)
qed

lemma decode_mod_run:
  "\<exists>v acc al. fold (decode_mod_byte pass src m L) [0..<u] (s, 1, 0, 0)
      = (fold (\<lambda>i. decode_mod_word pass m L (word31 (os2ip src) i) (Suc i)) [0..<v - 1] s, v, acc, al)
    \<and> acc_at (os2ip src) u v acc al"
proof (induction u)
  case 0
  then show ?case using acc_start by simp
next
  case (Suc u)
  let ?N = "os2ip src" and ?W = "\<lambda>i. decode_mod_word pass m L (word31 (os2ip src) i) (Suc i)"
  define b where "b = (if u < length src then src ! (length src - 1 - u) else 0)"
  have ub: "unat b = ?N div 256 ^ u mod 256" unfolding os2ip_byte b_def by simp
  from Suc obtain v acc al where f: "fold (decode_mod_byte pass src m L) [0..<u] (s, 1, 0, 0) = (fold ?W [0..<v - 1] s, v, acc, al)"
    and a: "acc_at ?N u v acc al" by blast
  obtain o' acc' al' where pb: "push_byte b acc al = (o', acc', al')" by (rule prod_cases3)
  note ps = push_byte_spec [OF a ub, unfolded pb prod.case]
  have v: "0 < v" using a by (simp add: acc_at_def)
  have step: "fold (decode_mod_byte pass src m L) [0..<Suc u] (s, 1, 0, 0) = decode_mod_byte pass src m L u (fold ?W [0..<v - 1] s, v, acc, al)"
    using f by simp
  show ?case
  proof (cases o')
    case None
    then have "decode_mod_byte pass src m L u (fold ?W [0..<v - 1] s, v, acc, al) = (fold ?W [0..<v - 1] s, v, acc', al')"
      unfolding decode_mod_byte_def prod.case Let_def b_def [symmetric] pb by simp
    then show ?thesis using step ps None by auto
  next
    case (Some w)
    have "unat w = digit31 ?N (v - 1)" and a': "acc_at ?N (Suc u) (Suc v) acc' al'" using ps Some by simp_all
    then have w: "w = word31 ?N (v - 1)" by (metis of_nat_unat ucast_id)
    have "decode_mod_byte pass src m L u (fold ?W [0..<v - 1] s, v, acc, al)
        = (decode_mod_word pass m L w v (fold ?W [0..<v - 1] s), Suc v, acc', al')"
      unfolding decode_mod_byte_def prod.case Let_def b_def [symmetric] pb Some by simp
    also have "decode_mod_word pass m L w v (fold ?W [0..<v - 1] s) = fold ?W [0..<Suc v - 1] s"
      using v by (cases v) (simp_all add: w)
    finally show ?thesis using step a' by auto
  qed
qed

lemma CMP_word: "CMP x y = (if x < y then - 1 else if x = y then 0 else 1)"
  by (auto simp: CMP_def GT_spec)

definition order32 :: "nat \<Rightarrow> nat \<Rightarrow> u32" where
  "order32 a b = (if a < b then - 1 else if a = b then 0 else 1)"

lemma order32_digit:
  assumes "u < R" "v < R"
  shows "order32 (u + a * R) (v + b * R) = (if a = b then order32 u v else if a < b then - 1 else 1)"
proof -
  have less: "p + c * R < q + d * R" if "c < d" "p < R" for c d p q
  proof -
    have "p + c * R < (c + 1) * R" using that by simp
    also have "\<dots> \<le> d * R" using that by (intro mult_right_mono) simp_all
    finally show ?thesis by simp
  qed
  show ?thesis
    using less [of a b u v] less [of b a v u] assms by (cases a b rule: linorder_cases) (auto simp: order32_def)
qed

lemma compare_pass:
  assumes m: "modulus31 m L"
  shows "fold (\<lambda>i. decode_mod_word False m L (word31 N i) (Suc i)) [0..<j] (x, 0) = (x, order32 (N mod 2 ^ (31 * j)) (nval m (min j L)))"
proof (induction j)
  case (Suc j)
  let ?R = "(2 :: nat) ^ (31 * j)"
  have Nj: "N mod 2 ^ (31 * Suc j) = N mod ?R + digit31 N j * ?R"
    unfolding digit31_def using mod_split [of N ?R "2 ^ 31"] by (simp add: power_add ac_simps)
  have mok: "words_ok m L" by (rule modulus31D(2) [OF m])
  have f: "fold (\<lambda>i. decode_mod_word False m L (word31 N i) (Suc i)) [0..<Suc j] (x, 0)
      = decode_mod_word False m L (word31 N j) (Suc j) (x, order32 (N mod ?R) (nval m (min j L)))"
    using Suc by simp
  show ?case
  proof (cases "Suc j \<le> L")
    case True
    have mj: "nval m j < ?R" by (rule nval_bound [OF words_ok_mono [OF mok]]) (use True in simp)
    have "order32 (N mod 2 ^ (31 * Suc j)) (nval m (Suc j))
        = (if digit31 N j = unat (m ! Suc j) then order32 (N mod ?R) (nval m j) else if digit31 N j < unat (m ! Suc j) then - 1 else 1)"
      unfolding Nj nval.simps by (rule order32_digit) (use mj in simp_all)
    also have "\<dots> = MUX (EQ (CMP (word31 N j) (m ! Suc j)) 0) (order32 (N mod ?R) (nval m j)) (CMP (word31 N j) (m ! Suc j))"
    proof -
      have c: "(CMP a b = 0) = (a = b)" for a b by (auto simp: CMP_word)
      have e: "(word31 N j = m ! Suc j) = (digit31 N j = unat (m ! Suc j))" "(word31 N j < m ! Suc j) = (digit31 N j < unat (m ! Suc j))"
        unfolding word_less_nat_alt word_unat_eq_iff unat_word31 by simp_all
      show ?thesis unfolding EQ_spec MUX_of_bool c CMP_word e by simp
    qed
    finally show ?thesis unfolding f using True by (simp add: decode_mod_word_def Let_def min_def)
  next
    case False
    have mR: "nval m L < ?R"
    proof -
      have "nval m L < 2 ^ (31 * L)" by (rule nval_bound [OF mok])
      also have "\<dots> \<le> ?R" using False by (intro power_increasing) simp_all
      finally show ?thesis .
    qed
    have "order32 (N mod 2 ^ (31 * Suc j)) (nval m L) = order32 (N mod ?R + digit31 N j * ?R) (nval m L + 0 * ?R)"
      unfolding Nj by simp
    also have "\<dots> = (if digit31 N j = 0 then order32 (N mod ?R) (nval m L) else 1)"
      by (subst order32_digit) (use mR in simp_all)
    also have "\<dots> = MUX (EQ (word31 N j) 0) (order32 (N mod ?R) (nval m L)) 1"
      unfolding EQ_spec MUX_of_bool word_unat_eq_iff unat_word31 by simp
    finally have e: "order32 (N mod 2 ^ (31 * Suc j)) (nval m L) = MUX (EQ (word31 N j) 0) (order32 (N mod ?R) (nval m L)) 1" .
    have mn: "min j L = L" "min (Suc j) L = L" using False by simp_all
    show ?thesis unfolding f mn e using False by (simp add: decode_mod_word_def)
  qed
qed (simp add: order32_def)

lemma write_pass:
  assumes "L < length x"
  shows "\<exists>y. fold (\<lambda>i. decode_mod_word True m L (word31 N i) (Suc i)) [0..<j] (x, r) = (y, r) \<and> length y = length x \<and> y ! 0 = x ! 0
    \<and> (\<forall>i<min j L. y ! Suc i = r AND word31 N i)"
proof (induction j)
  case (Suc j)
  then obtain y where "fold (\<lambda>i. decode_mod_word True m L (word31 N i) (Suc i)) [0..<j] (x, r) = (y, r)" "length y = length x"
    "y ! 0 = x ! 0" "\<forall>i<min j L. y ! Suc i = r AND word31 N i" by blast
  then show ?case using assms by (auto simp: decode_mod_word_def nth_list_update less_Suc_eq min_def)
qed simp

lemma decode_mod:
  fixes src :: "u8 list"
  assumes m: "modulus31 m L" and x: "L < length x"
  defines "N \<equiv> os2ip src"
  shows "\<exists>y. br_i31_decode_mod x src m = (of_bool (N < nval m L), y) \<and> length y = length x \<and> sized m y L
    \<and> nval y L = (if N < nval m L then N else 0)"
proof -
  define tlen where "tlen = (if 4 * L < length src then length src else 4 * L) + 4"
  have words: "\<exists>j. decode_mod_pass pass src m L tlen s
      = (let (x, r) = fold (\<lambda>i. decode_mod_word pass m L (word31 N i) (Suc i)) [0..<j] s in (x, drop_bit 1 r OR push_bit 1 (drop_bit 1 r)))
      \<and> L \<le> j \<and> N < 2 ^ (31 * j)" for pass s
  proof -
    obtain v acc al where f: "fold (decode_mod_byte pass src m L) [0..<tlen] (s, 1, 0, 0)
        = (fold (\<lambda>i. decode_mod_word pass m L (word31 N i) (Suc i)) [0..<v - 1] s, v, acc, al)" and a: "acc_at N tlen v acc al"
      using decode_mod_run [of pass src m L tlen s] unfolding N_def by blast
    have e: "8 * tlen = 31 * (v - 1) + al" "al \<le> 30" using a by (simp_all add: acc_at_def)
    have t: "length src + 4 \<le> tlen" "4 * L + 4 \<le> tlen" by (simp_all add: tlen_def)
    have "L \<le> v - 1" using e t(2) by linarith
    moreover have "N < 2 ^ (31 * (v - 1))"
    proof -
      have "8 * length src \<le> 31 * (v - 1)" using e t(1) by linarith
      then have "(2 :: nat) ^ (8 * length src) \<le> 2 ^ (31 * (v - 1))" by (intro power_increasing) simp_all
      then show ?thesis using os2ip_bound [of src] unfolding N_def pow256 by linarith
    qed
    ultimately show ?thesis unfolding decode_mod_pass_def Let_def f by (auto simp: case_prod_beta)
  qed
  obtain j where p1: "decode_mod_pass False src m L tlen (x, 0) = (x, drop_bit 1 (order32 N (nval m L)) OR push_bit 1 (drop_bit 1 (order32 N (nval m L))))"
  proof -
    obtain j where e: "decode_mod_pass False src m L tlen (x, 0)
      = (let (x, r) = fold (\<lambda>i. decode_mod_word False m L (word31 N i) (Suc i)) [0..<j] (x, 0) in (x, drop_bit 1 r OR push_bit 1 (drop_bit 1 r)))"
      and j: "L \<le> j" "N < 2 ^ (31 * j)" using words by blast
    have "order32 (N mod 2 ^ (31 * j)) (nval m (min j L)) = order32 N (nval m L)" using j by (simp add: min_def)
    then show ?thesis using that e unfolding compare_pass [OF m] by simp
  qed
  define r where "r = - (of_bool (N < nval m L) :: u32)"
  have full: "drop_bit 1 (- 1 :: u32) OR push_bit 1 (drop_bit 1 (- 1)) = - 1"
  proof -
    have "(- 1 :: u32) = 0xFFFFFFFF" by simp
    then show ?thesis by (simp only:) simp
  qed
  have r1: "drop_bit 1 (order32 N (nval m L)) OR push_bit 1 (drop_bit 1 (order32 N (nval m L))) = r"
    unfolding r_def order32_def using full by (cases N "nval m L" rule: linorder_cases) simp_all
  have r2: "drop_bit 1 r OR push_bit 1 (drop_bit 1 r) = r" unfolding r_def using full by (cases "N < nval m L") simp_all
  obtain y where p2: "decode_mod_pass True src m L tlen (x, r) = (y, r)" and y: "length y = length x" "\<forall>i<L. y ! Suc i = r AND word31 N i"
  proof -
    obtain j where e: "decode_mod_pass True src m L tlen (x, r)
      = (let (x, r) = fold (\<lambda>i. decode_mod_word True m L (word31 N i) (Suc i)) [0..<j] (x, r) in (x, drop_bit 1 r OR push_bit 1 (drop_bit 1 r)))"
      and j: "L \<le> j" using words by blast
    obtain y where "fold (\<lambda>i. decode_mod_word True m L (word31 N i) (Suc i)) [0..<j] (x, r) = (y, r)" "length y = length x"
      "\<forall>i<min j L. y ! Suc i = r AND word31 N i" using write_pass [OF x] by blast
    then show ?thesis using that e j r2 by (simp add: min_def)
  qed
  have run: "br_i31_decode_mod x src m = (r AND 1, y[0 := m ! 0])"
    unfolding br_i31_decode_mod_def Let_def modulus31D(3) [OF m] tlen_def [symmetric] p1 r1 p2 prod.case ..
  have ra: "r AND 1 = of_bool (N < nval m L)" unfolding r_def by (cases "N < nval m L") simp_all
  have dg: "unat (y[0 := m ! 0] ! Suc i) = (if N < nval m L then digit31 N i else 0)" if "i < L" for i
    using y(2) that unfolding r_def by (simp add: unat_word31)
  have ok: "words_ok (y[0 := m ! 0]) L"
    unfolding words_ok_def
  proof (intro conjI ballI)
    show "L < length (y[0 := m ! 0])" using x y(1) by simp
    fix i assume "i \<in> {1..L}"
    then obtain k where "i = Suc k" "k < L" by (cases i) auto
    then show "unat (y[0 := m ! 0] ! i) < 2 ^ 31" using dg by (simp add: digit31_def)
  qed
  have "nval (y[0 := m ! 0]) L = (if N < nval m L then N else 0)"
  proof (cases "N < nval m L")
    case True
    then have "nval (y[0 := m ! 0]) L = N mod 2 ^ (31 * L)" by (intro nval_digits) (use dg in simp)
    also have "\<dots> = N"
    proof (rule mod_less)
      show "N < 2 ^ (31 * L)" using True nval_bound [OF modulus31D(2) [OF m]] by linarith
    qed
    finally show ?thesis using True by simp
  next
    case False
    have "nval (y[0 := m ! 0]) L = 0"
    proof (rule nval_0)
      fix i assume i: "0 < i" "i \<le> L"
      then obtain k where "i = Suc k" "k < L" by (cases i) auto
      then show "y[0 := m ! 0] ! i = 0" using dg False by (simp add: unat_eq_0)
    qed
    then show ?thesis using False by simp
  qed
  moreover have "sized m (y[0 := m ! 0]) L" using ok x y(1) by (cases y) (auto simp: sized_def)
  ultimately show ?thesis using run ra y(1) by auto
qed

subsection \<open>Encoding\<close>

lemma os2ip_enc32: "os2ip (br_enc32be z) = unat z"
proof -
  have b: "unat (ucast (w :: u32) :: u8) = unat w mod 256" for w by (simp add: unsigned_ucast_eq take_bit_eq_mod)
  have "os2ip (br_enc32be z) = (unat z div 2 ^ 24 mod 256) * 256 ^ 3 + (unat z div 2 ^ 16 mod 256) * 256 ^ 2
      + (unat z div 2 ^ 8 mod 256) * 256 + unat z mod 256"
    by (simp add: br_enc32be_def b unat_shift)
  also have "\<dots> = unat z"
  proof -
    have d: "n = n div 256 * 256 + n mod 256" for n :: nat by simp
    have q: "unat z div 2 ^ 16 = unat z div 2 ^ 8 div 256" "unat z div 2 ^ 24 = unat z div 2 ^ 16 div 256"
      by (simp_all add: div_mult2_eq [symmetric])
    have top: "unat z div 2 ^ 24 mod 256 = unat z div 2 ^ 24"
    proof (rule mod_less)
      show "unat z div 2 ^ 24 < 256" by (rule less_mult_imp_div_less) (use unat_bounds(1) [of z] in simp)
    qed
    have "unat z = unat z div 2 ^ 8 * 256 + unat z mod 256" using d [of "unat z"] by simp
    also have "unat z div 2 ^ 8 = unat z div 2 ^ 16 * 256 + unat z div 2 ^ 8 mod 256" unfolding q(1) by (rule d)
    also have "unat z div 2 ^ 16 = unat z div 2 ^ 24 * 256 + unat z div 2 ^ 16 mod 256" unfolding q(2) by (rule d)
    finally show ?thesis unfolding top by (simp add: algebra_simps)
  qed
  finally show ?thesis .
qed

lemma encode_short:
  fixes z :: u32
  assumes "0 < n" "n < 4"
  defines "s \<equiv> (if n = 3 then [ucast (drop_bit 16 z)] else []) @ (if 2 \<le> n then [ucast (drop_bit 8 z)] else []) @ [ucast z] :: u8 list"
  shows "length s = n" "os2ip s = unat z mod 256 ^ n"
proof -
  have s: "s = drop (4 - n) (br_enc32be z)"
  proof -
    have "n = 1 \<or> n = 2 \<or> n = 3" using assms(1,2) by linarith
    then show ?thesis by (elim disjE) (simp_all add: s_def br_enc32be_def)
  qed
  have l: "length (br_enc32be z) = 4" by simp
  show "length s = n" unfolding s using l assms(2) by simp
  have "unat z = os2ip (take (4 - n) (br_enc32be z)) * 256 ^ n + os2ip s"
    unfolding s os2ip_enc32 [symmetric] using os2ip_append [of "take (4 - n) (br_enc32be z)" "drop (4 - n) (br_enc32be z)"] l assms(2) by simp
  moreover have "os2ip s < 256 ^ n" using os2ip_bound [of s] \<open>length s = n\<close> by simp
  ultimately show "os2ip s = unat z mod 256 ^ n" by simp
qed

lemma encode_loop_spec:
  assumes x: "words_ok x L" and acc: "unat acc < 2 ^ al" "al \<le> 31" and k: "0 < k"
  defines "Z \<equiv> unat acc + 2 ^ al * (nval x L div 2 ^ (31 * (k - 1)))"
  shows "length (encode_loop x L k len acc al) = len \<and> os2ip (encode_loop x L k len acc al) = Z mod 256 ^ len"
  using acc k unfolding Z_def
proof (induction "2 * len + of_bool (al = 0)" arbitrary: k len acc al rule: less_induct)
  case less
  let ?N = "nval x L" and ?e = "encode_loop x L k len acc al"
  define Z where "Z = unat acc + 2 ^ al * (?N div 2 ^ (31 * (k - 1)))"
  define w where "w = (if k \<le> L then x ! k else 0)"
  define q where "q = ?N div 2 ^ (31 * k)"
  have w: "unat w = digit31 ?N (k - 1)" using digits_nval [OF x, of "k - 1"] less.prems(3) by (auto simp: w_def)
  have w31: "unat w < 2 ^ 31" unfolding w digit31_def by simp
  have split: "?N div 2 ^ (31 * (k - 1)) = unat w + 2 ^ 31 * q"
  proof -
    have "31 * k = 31 * (k - 1) + 31" using less.prems(3) by simp
    then have "q = ?N div 2 ^ (31 * (k - 1)) div 2 ^ 31" unfolding q_def by (simp only: power_add div_mult2_eq)
    then show ?thesis unfolding w digit31_def by simp
  qed
  show ?case
  proof (cases "len = 0")
    case True
    then show ?thesis by (simp add: encode_loop.simps)
  next
    case len: False
    show ?thesis
    proof (cases "al = 0")
      case True
      have e: "?e = encode_loop x L (k + 1) len w 31"
        using len True by (subst encode_loop.simps) (simp add: w_def Let_def)
      have "length (encode_loop x L (k + 1) len w 31) = len \<and> os2ip (encode_loop x L (k + 1) len w 31)
          = (unat w + 2 ^ 31 * (?N div 2 ^ (31 * (k + 1 - 1)))) mod 256 ^ len"
        by (rule less.hyps) (use w31 True in simp_all)
      then show ?thesis unfolding e using less.prems(1) split True by (simp add: q_def)
    next
      case al: False
      define z where "z = acc OR push_bit al w"
      have uz: "unat z = unat acc + unat w * 2 ^ al mod 2 ^ 32"
      proof -
        have "unat (push_bit al w OR acc) = unat (push_bit al w) + unat acc"
          by (rule or_add [OF dvd_push less.prems(1)]) (use less.prems(2) in simp)
        then show ?thesis by (simp add: unat_push z_def or.commute)
      qed
      have Zs: "Z = (unat acc + unat w * 2 ^ al) + 2 ^ 32 * (2 ^ (al - 1) * q)"
      proof -
        have "(2 :: nat) ^ al * 2 ^ 31 = 2 ^ 32 * 2 ^ (al - 1)" using al by (cases al) simp_all
        then show ?thesis unfolding Z_def split distrib_left by (simp only: ac_simps)
      qed
      have zmod: "unat z = Z mod 2 ^ 32"
      proof -
        have "unat acc + unat w * 2 ^ al mod 2 ^ 32 = (unat acc + unat w * 2 ^ al) mod 2 ^ 32"
        proof -
          have "unat acc + unat w * 2 ^ al mod 2 ^ 32 < 2 ^ 32" using unat_bounds(1) [of z] unfolding uz .
          then show ?thesis by (metis mod_add_right_eq mod_less)
        qed
        then show ?thesis unfolding Zs uz by simp
      qed
      define acc' where "acc' = drop_bit (31 - (al - 1)) w"
      have a': "unat acc' = unat w div 2 ^ (32 - al)"
        using al less.prems(2) by (simp add: acc'_def unat_shift)
      have zdiv: "Z div 2 ^ 32 = unat acc' + 2 ^ (al - 1) * q"
      proof -
        have "(2 :: nat) ^ 32 = 2 ^ al * 2 ^ (32 - al)" using less.prems(2) by (simp flip: power_add)
        then have "(unat acc + unat w * 2 ^ al) div 2 ^ 32 = (unat acc + unat w * 2 ^ al) div 2 ^ al div 2 ^ (32 - al)"
          by (simp only: div_mult2_eq)
        also have "\<dots> = unat acc'" unfolding a' div_shifted using less.prems(1) by simp
        finally show ?thesis unfolding Zs by simp
      qed
      have a'b: "unat acc' < 2 ^ (al - 1)"
      proof -
        have "(2 :: nat) ^ 31 = 2 ^ (al - 1) * 2 ^ (32 - al)" using al less.prems(2) by (simp flip: power_add)
        then have "unat w < 2 ^ (al - 1) * 2 ^ (32 - al)" using w31 by (simp only:)
        then show ?thesis unfolding a' by (rule less_mult_imp_div_less)
      qed
      show ?thesis
      proof (cases "4 \<le> len")
        case True
        have e: "?e = encode_loop x L (k + 1) (len - 4) acc' (al - 1) @ br_enc32be z"
          using len al True by (subst encode_loop.simps) (simp add: w_def Let_def z_def acc'_def)
        have "length (encode_loop x L (k + 1) (len - 4) acc' (al - 1)) = len - 4
            \<and> os2ip (encode_loop x L (k + 1) (len - 4) acc' (al - 1))
              = (unat acc' + 2 ^ (al - 1) * (?N div 2 ^ (31 * (k + 1 - 1)))) mod 256 ^ (len - 4)"
          by (rule less.hyps) (use True al a'b less.prems in auto)
        then have r: "length (encode_loop x L (k + 1) (len - 4) acc' (al - 1)) = len - 4"
          "os2ip (encode_loop x L (k + 1) (len - 4) acc' (al - 1)) = (Z div 2 ^ 32) mod 256 ^ (len - 4)"
          unfolding zdiv q_def by simp_all
        have "Z mod 256 ^ len = Z mod (2 ^ 32 * 256 ^ (len - 4))"
        proof -
          have "(256 :: nat) ^ len = 256 ^ 4 * 256 ^ (len - 4)" unfolding power_add [symmetric] using True by simp
          moreover have "(256 :: nat) ^ 4 = 2 ^ 32" by simp
          ultimately show ?thesis by (simp only:)
        qed
        also have "\<dots> = Z mod 2 ^ 32 + (Z div 2 ^ 32 mod 256 ^ (len - 4)) * 2 ^ 32" by (rule mod_split [symmetric])
        finally have "os2ip ?e = Z mod 256 ^ len"
          unfolding e os2ip_append r(2) os2ip_enc32 zmod by simp
        moreover have "length ?e = len" unfolding e using r(1) True by simp
        ultimately show ?thesis unfolding Z_def by simp
      next
        case short: False
        have e: "?e = (if len = 3 then [ucast (drop_bit 16 z)] else []) @ (if 2 \<le> len then [ucast (drop_bit 8 z)] else []) @ [ucast z]"
          using len al short by (subst encode_loop.simps) (simp add: w_def Let_def z_def)
        have "unat z mod 256 ^ len = Z mod 256 ^ len"
        proof -
          have "(256 :: nat) ^ len dvd 2 ^ 32" unfolding pow256 using short by (intro le_imp_power_dvd) simp
          then show ?thesis unfolding zmod by (rule mod_mod_cancel)
        qed
        then show ?thesis using encode_short [of len z] len short unfolding e [symmetric] Z_def by simp
      qed
    qed
  qed
qed

lemma encode:
  assumes "modulus31 m L" "sized m x L"
  shows "length (br_i31_encode len x) = len" "os2ip (br_i31_encode len x) = nval x L mod 256 ^ len"
proof -
  have h: "words31 (x ! 0) = L" "0 < L" using modulus31D(1,3) [OF assms(1)] assms(2) by (simp_all add: sized_def)
  have e: "br_i31_encode len x = encode_loop x L 1 len 0 0" unfolding br_i31_encode_def Let_def h(1) using h(2) by simp
  have "words_ok x L" using assms(2) by (simp add: sized_def)
  from encode_loop_spec [OF this, of 0 0 1 len]
  show "length (br_i31_encode len x) = len" "os2ip (br_i31_encode len x) = nval x L mod 256 ^ len"
    unfolding e by simp_all
qed

end
