(* ===== verification/I31Priv.thy ===== *)
theory I31Priv
  imports I31Codec
begin

section \<open>Big integers: shift, product and reductions (i31_rshift.c, i31_mulacc.c, i31_reduce.c, i31_decred.c)\<close>

text \<open>The operations that only private keys need, and what they compute.\<close>

unbundle bit_operations_syntax

subsection \<open>The functions\<close>

text \<open>A row of the product: \<open>f\<close> times the words of \<open>a\<close>, added to the words of \<open>d\<close> from \<open>u\<close> on.\<close>

definition mulacc_word :: "u32 \<Rightarrow> u32 list \<Rightarrow> nat \<Rightarrow> nat \<Rightarrow> u64 \<times> u32 list \<Rightarrow> u64 \<times> u32 list" where
  "mulacc_word f a u v = (\<lambda>(cc, d).
     let z = ucast (d ! (1 + u + v)) + MUL31 f (a ! (1 + v)) + cc
     in (drop_bit 31 z, d[1 + u + v := ucast z AND 0x7FFFFFFF]))"

definition mulacc_row :: "nat \<Rightarrow> u32 list \<Rightarrow> u32 list \<Rightarrow> nat \<Rightarrow> u32 list \<Rightarrow> u32 list" where
  "mulacc_row alen a b u d =
     (let (cc, d) = fold (mulacc_word (b ! (1 + u)) a u) [0..<alen] (0, d)
      in d[1 + u + alen := ucast cc])"

definition br_i31_mulacc :: "u32 list \<Rightarrow> u32 list \<Rightarrow> u32 list \<Rightarrow> u32 list" where
  "br_i31_mulacc d a b =
     (let alen = words31 (a ! 0);
          blen = words31 (b ! 0);
          dl = (a ! 0 AND 31) + (b ! 0 AND 31);
          dh = drop_bit 5 (a ! 0) + drop_bit 5 (b ! 0);
          d = d[0 := push_bit 5 dh + dl + drop_bit 31 (NOT (dl - 31))]
      in fold (mulacc_row alen a b) [0..<blen] d)"

definition br_i31_reduce :: "u32 list \<Rightarrow> u32 list \<Rightarrow> u32 list \<Rightarrow> u32 list" where
  "br_i31_reduce x a m =
     (let m_bitlen = m ! 0;
          mlen = words31 m_bitlen
      in if m_bitlen = 0 then x[0 := m_bitlen]
         else
           let a_bitlen = a ! 0;
               alen = words31 a_bitlen
           in if a_bitlen < m_bitlen then
                m_bitlen # take alen (drop 1 a) @ replicate (mlen - alen) 0 @ drop (1 + mlen) x
              else
                fold (\<lambda>u x. br_i31_muladd_small x (a ! u) m) (rev [1..<2 + alen - mlen])
                  (m_bitlen # take (mlen - 1) (drop (2 + (alen - mlen)) a) @ [0] @ drop (1 + mlen) x))"

text \<open>A byte enters the accumulator; 31 bits that are complete enter the number.\<close>

definition reduce_byte :: "u32 list \<Rightarrow> u8 \<Rightarrow> u32 list \<times> u32 \<times> nat \<Rightarrow> u32 list \<times> u32 \<times> nat" where
  "reduce_byte m b = (\<lambda>(x, acc, acc_len).
     let v = ucast b
     in if 23 \<le> acc_len then
          let acc_len = acc_len - 23;
              acc = push_bit (8 - acc_len) acc;
              acc = acc OR drop_bit acc_len v;
              x = br_i31_muladd_small x acc m
          in (x, v AND drop_bit (8 - acc_len) 0xFF, acc_len)
        else (x, push_bit 8 acc OR v, acc_len + 8))"

definition br_i31_decode_reduce :: "u32 list \<Rightarrow> u8 list \<Rightarrow> u32 list \<Rightarrow> u32 list" where
  "br_i31_decode_reduce x src m =
     (let m_ebitlen = m ! 0
      in if m_ebitlen = 0 then x[0 := 0]
         else
           let x = br_i31_zero x m_ebitlen;
               m_rbitlen = drop_bit 5 m_ebitlen;
               m_rbitlen = (m_ebitlen AND 31) + push_bit 5 m_rbitlen - m_rbitlen;
               mblen = unat (drop_bit 3 (m_rbitlen + 7));
               k = mblen - 1
           in if length src \<le> k then (br_i31_decode x src)[0 := m_ebitlen]
              else
                let x = (br_i31_decode x (take k src))[0 := m_ebitlen];
                    (x, acc, acc_len) = fold (reduce_byte m) (drop k src) (x, 0, 0)
                in if acc_len \<noteq> 0 then
                     let acc = (acc OR push_bit acc_len (x ! 1)) AND 0x7FFFFFFF;
                         x = br_i31_rshift x (31 - acc_len)
                     in br_i31_muladd_small x acc m
                   else x)"

subsection \<open>The shift\<close>

lemma shift_word:
  fixes w r :: u32
  assumes "unat w < 2 ^ 31" "unat r < 2 ^ (31 - c)" "c \<le> 31"
  shows "unat ((push_bit (31 - c) w OR r) AND 0x7FFFFFFF) = (unat w mod 2 ^ c) * 2 ^ (31 - c) + unat r"
proof -
  have s: "unat (push_bit (31 - c) w OR r) = unat w * 2 ^ (31 - c) mod 2 ^ 32 + unat r"
    by (subst or_add [OF dvd_push assms(2)]) (simp_all add: unat_push)
  have e: "(2 :: nat) ^ 31 = 2 ^ c * 2 ^ (31 - c)" using assms(3) by (simp flip: power_add)
  have "unat ((push_bit (31 - c) w OR r) AND 0x7FFFFFFF) = (unat w * 2 ^ (31 - c) mod 2 ^ 32 + unat r) mod 2 ^ 31"
    unfolding unat_and31 s ..
  also have "\<dots> = (unat r + unat w * 2 ^ (31 - c)) mod (2 ^ c * 2 ^ (31 - c))"
  proof -
    have "unat w * 2 ^ (31 - c) mod 2 ^ 32 mod 2 ^ 31 = unat w * 2 ^ (31 - c) mod 2 ^ 31" by (rule mod_mod_cancel) simp
    then show ?thesis unfolding e [symmetric] by (metis add.commute mod_add_left_eq)
  qed
  also have "\<dots> = unat r + (unat w mod 2 ^ c) * 2 ^ (31 - c)" by (rule digit_step(1) [OF assms(2), symmetric])
  finally show ?thesis by simp
qed

lemma rshift:
  assumes x: "words_ok x L" "words31 (x ! 0) = L" "0 < L" and c: "0 < c" "c \<le> 31"
  defines "y \<equiv> br_i31_rshift x c"
  shows "length y = length x" "y ! 0 = x ! 0" "words_ok y L" "nval y L = nval x L div 2 ^ c"
proof -
  define F where "F = (\<lambda>u (r :: u32, y). let w = y ! u in (drop_bit c w, y[u - 1 := (push_bit (31 - c) w OR r) AND 0x7FFFFFFF]))"
  have run: "\<exists>r z. fold F [2..<Suc (Suc k)] (drop_bit c (x ! 1), x) = (r, z) \<and> length z = length x \<and> z ! 0 = x ! 0 \<and> words_ok z k
      \<and> (\<forall>j>k. z ! j = x ! j) \<and> r = drop_bit c (x ! Suc k) \<and> nval z k + unat r * 2 ^ (31 * k) = nval x (Suc k) div 2 ^ c"
    if "k < L" for k
    using that
  proof (induction k)
    case 0
    then show ?case using x by (auto simp: words_ok_def unat_shift)
  next
    case (Suc k)
    then obtain r z where f: "fold F [2..<Suc (Suc k)] (drop_bit c (x ! 1), x) = (r, z)" and lz: "length z = length x" "z ! 0 = x ! 0"
      and zk: "words_ok z k" and same: "\<forall>j>k. z ! j = x ! j" and r: "r = drop_bit c (x ! Suc k)"
      and v: "nval z k + unat r * 2 ^ (31 * k) = nval x (Suc k) div 2 ^ c" by auto
    define w where "w = x ! Suc (Suc k)"
    define z' where "z' = z[Suc k := (push_bit (31 - c) w OR r) AND 0x7FFFFFFF]"
    have w: "unat w < 2 ^ 31" using x(1) Suc.prems by (simp add: words_ok_def w_def)
    have xk: "unat (x ! Suc k) < 2 ^ 31" using x(1) Suc.prems by (simp add: words_ok_def)
    have rb: "unat r < 2 ^ (31 - c)"
      unfolding r unat_shift by (rule less_mult_imp_div_less) (use xk c in \<open>simp flip: power_add\<close>)
    note sw = shift_word [OF w rb c(2)]
    have l: "Suc k < length z" using x(1) Suc.prems lz by (simp add: words_ok_def)
    have step: "fold F [2..<Suc (Suc (Suc k))] (drop_bit c (x ! 1), x) = (drop_bit c w, z')"
      using f same by (simp add: F_def z'_def w_def Let_def)
    have ok: "words_ok z' (Suc k)" using zk l by (simp add: z'_def words_ok_Suc unat_and31)
    have e: "(2 :: nat) ^ 31 = 2 ^ (31 - c) * 2 ^ c" using c by (simp flip: power_add)
    have "nval z' (Suc k) + unat (drop_bit c w) * 2 ^ (31 * Suc k)
        = nval z k + ((unat w mod 2 ^ c) * 2 ^ (31 - c) + unat r) * 2 ^ (31 * k) + unat w div 2 ^ c * (2 ^ 31 * 2 ^ (31 * k))"
      using l by (simp add: z'_def sw unat_shift power_add)
    also have "\<dots> = (nval z k + unat r * 2 ^ (31 * k)) + (unat w mod 2 ^ c + unat w div 2 ^ c * 2 ^ c) * (2 ^ (31 - c) * 2 ^ (31 * k))"
      unfolding e by (simp only: distrib_right distrib_left ac_simps)
    also have "\<dots> = nval x (Suc k) div 2 ^ c + unat w * (2 ^ (31 - c) * 2 ^ (31 * k))" unfolding v by (simp only: mod_div_mult_eq)
    also have "\<dots> = (nval x (Suc k) + unat w * (2 ^ (31 - c) * 2 ^ (31 * k)) * 2 ^ c) div 2 ^ c" by simp
    also have "unat w * (2 ^ (31 - c) * 2 ^ (31 * k)) * 2 ^ c = unat w * 2 ^ (31 * Suc k)"
      using c by (simp add: power_add [symmetric] del: power_add)
    finally have "nval z' (Suc k) + unat (drop_bit c w) * 2 ^ (31 * Suc k) = nval x (Suc (Suc k)) div 2 ^ c" by (simp add: w_def)
    then show ?case using step ok lz same by (intro exI [of _ "drop_bit c w"] exI [of _ z']) (simp add: z'_def w_def del: nval.simps)
  qed
  obtain k where L: "L = Suc k" using x(3) by (cases L) simp_all
  obtain r z where f: "fold F [2..<L + 1] (drop_bit c (x ! 1), x) = (r, z)" and z: "length z = length x" "z ! 0 = x ! 0" "words_ok z k"
    and r: "r = drop_bit c (x ! L)" and v: "nval z k + unat r * 2 ^ (31 * k) = nval x L div 2 ^ c"
    using run [of k] unfolding L by auto
  have y: "y = z[L := r]" unfolding y_def br_i31_rshift_def Let_def x(2) F_def [unfolded Let_def, symmetric] f using x(3) by simp
  have lL: "L < length z" using x(1) z(1) by (simp add: words_ok_def)
  have rb: "unat r < 2 ^ 31"
    unfolding r unat_shift by (rule le_less_trans [OF div_le_dividend]) (use x(1,3) in \<open>simp add: words_ok_def\<close>)
  show "length y = length x" "y ! 0 = x ! 0" using z x(3) by (simp_all add: y)
  show "words_ok y L" using z lL rb by (simp add: y L words_ok_Suc)
  show "nval y L = nval x L div 2 ^ c" unfolding v [symmetric] using lL by (simp add: y L)
qed

subsection \<open>The product\<close>

lemma mulacc_row:
  assumes a: "words_ok a La" "words31 (a ! 0) = La" and f: "unat (b ! (1 + u)) < 2 ^ 31"
    and d: "words_ok d (La + u)" "Suc (La + u) < length d"
  defines "e \<equiv> mulacc_row La a b u d"
  shows "length e = length d \<and> e ! 0 = d ! 0 \<and> words_ok e (Suc (La + u))
    \<and> nval e (Suc (La + u)) = nval d (La + u) + unat (b ! (1 + u)) * nval a La * 2 ^ (31 * u)"
proof -
  let ?f = "b ! (1 + u)"
  have run: "\<exists>cc z. fold (mulacc_word ?f a u) [0..<k] (0, d) = (cc, z) \<and> unat cc < 2 ^ 31 \<and> length z = length d \<and> z ! 0 = d ! 0
      \<and> words_ok z (La + u) \<and> (\<forall>j>u + k. z ! j = d ! j)
      \<and> nval z (u + k) + unat cc * 2 ^ (31 * (u + k)) = nval d (u + k) + unat ?f * nval a k * 2 ^ (31 * u)"
    if "k \<le> La" for k
    using that
  proof (induction k)
    case 0
    then show ?case using d by simp
  next
    case (Suc k)
    then obtain cc z where run: "fold (mulacc_word ?f a u) [0..<k] (0, d) = (cc, z)" and cc: "unat cc < 2 ^ 31" and lz: "length z = length d" "z ! 0 = d ! 0"
      and ok: "words_ok z (La + u)" and same: "\<forall>j>u + k. z ! j = d ! j"
      and v: "nval z (u + k) + unat cc * 2 ^ (31 * (u + k)) = nval d (u + k) + unat ?f * nval a k * 2 ^ (31 * u)" by auto
    let ?R = "(2 :: nat) ^ (31 * (u + k))"
    define t where "t = ucast (d ! Suc (u + k)) + MUL31 ?f (a ! Suc k) + cc"
    have regroup: "A + (D + F * W + C) * R = (A + C * R) + (D + F * W) * R" for A C D F W R :: nat by (simp add: algebra_simps)
    define z' where "z' = z[Suc (u + k) := ucast t AND 0x7FFFFFFF]"
    have dw: "unat (d ! Suc (u + k)) < 2 ^ 31" using d(1) Suc.prems by (simp add: words_ok_def)
    have aw: "unat (a ! Suc k) < 2 ^ 31" using a(1) Suc.prems by (simp add: words_ok_def)
    note mb = mul31_bound [OF f aw]
    have t: "unat t = unat (d ! Suc (u + k)) + unat ?f * unat (a ! Suc k) + unat cc"
    proof -
      have "unat (ucast (d ! Suc (u + k)) + MUL31 ?f (a ! Suc k)) = unat (d ! Suc (u + k)) + unat ?f * unat (a ! Suc k)"
        by (subst unat_plus) (use dw mb in \<open>simp_all add: mul31 [OF f [unfolded plus_1_eq_Suc] aw]\<close>)
      then show ?thesis unfolding t_def by (subst unat_plus) (use dw mb cc in simp_all)
    qed
    have cc': "unat (drop_bit 31 t) < 2 ^ 31"
      unfolding unat_shift by (rule less_mult_imp_div_less) (use t dw mb cc in simp)
    have step: "fold (mulacc_word ?f a u) [0..<Suc k] (0, d) = (drop_bit 31 t, z')"
    proof -
      have "z ! (Suc (u + k)) = d ! (Suc (u + k))" using same by simp
      then show ?thesis using run by (simp add: mulacc_word_def t_def z'_def Let_def)
    qed
    have l: "Suc (u + k) < length z" using d lz Suc.prems by simp
    have ok': "words_ok z' (La + u)" using ok l by (auto simp: z'_def words_ok_def nth_list_update unat_lo31)
    have "nval z' (u + Suc k) + unat (drop_bit 31 t) * 2 ^ (31 * (u + Suc k))
        = nval z (u + k) + (unat t mod 2 ^ 31 + unat t div 2 ^ 31 * 2 ^ 31) * ?R"
    proof -
      have n: "nval z' (u + Suc k) = nval z (u + k) + (unat t mod 2 ^ 31) * ?R" using l by (simp add: z'_def unat_lo31)
      have "(2 :: nat) ^ (31 * (u + Suc k)) = 2 ^ 31 * ?R" by (simp add: power_add)
      then show ?thesis unfolding n unat_shift by (simp only: distrib_right mult.assoc add.assoc)
    qed
    also have "\<dots> = (nval z (u + k) + unat cc * ?R) + (unat (d ! Suc (u + k)) + unat ?f * unat (a ! Suc k)) * ?R"
      unfolding mod_div_mult_eq t by (rule regroup)
    also have "\<dots> = nval d (u + Suc k) + unat ?f * nval a (Suc k) * 2 ^ (31 * u)"
      unfolding v by (simp add: power_add algebra_simps)
    finally have "nval z' (u + Suc k) + unat (drop_bit 31 t) * 2 ^ (31 * (u + Suc k))
      = nval d (u + Suc k) + unat ?f * nval a (Suc k) * 2 ^ (31 * u)" .
    then show ?case using step cc' ok' lz same by (intro exI [of _ "drop_bit 31 t"] exI [of _ z']) (simp add: z'_def)
  qed
  obtain cc z where f: "fold (mulacc_word ?f a u) [0..<La] (0, d) = (cc, z)" and cc: "unat cc < 2 ^ 31" and lz: "length z = length d" "z ! 0 = d ! 0"
    and ok: "words_ok z (La + u)" and v: "nval z (u + La) + unat cc * 2 ^ (31 * (u + La)) = nval d (u + La) + unat ?f * nval a La * 2 ^ (31 * u)"
    using run [OF order_refl] by blast
  have e: "e = z[Suc (La + u) := ucast cc]" unfolding e_def mulacc_row_def Let_def f by (simp add: add.commute)
  have uc: "unat (ucast cc :: u32) = unat cc" using cc by (simp add: unat_ucast32)
  show ?thesis using lz ok d(2) cc v by (simp add: e words_ok_Suc uc add.commute)
qed

lemma mulacc:
  assumes a: "modulus31 a La" and b: "modulus31 b0 Lb" "sized b0 b Lb" and d: "words_ok d La" "La + Lb < length d" and lens: "La + Lb < 2 ^ 26"
    and small: "nval d La + nval a La * nval b Lb < 2 ^ (31 * (La + Lb - 2) + bit_len (unat (a ! La)) + bit_len (unat (b0 ! Lb)))"
  defines "e \<equiv> br_i31_mulacc d a b"
  shows "length e = length d" "words_ok e (words31 (e ! 0))" "0 < words31 (e ! 0)"
    and "nval e (words31 (e ! 0)) = nval d La + nval a La * nval b Lb"
proof -
  let ?ba = "bit_len (unat (a ! La))" and ?bb = "bit_len (unat (b0 ! Lb))"
  note A = modulus31D [OF a] and B = modulus31D [OF b(1)]
  have hb: "b ! 0 = b0 ! 0" "words_ok b Lb" using b(2) by (simp_all add: sized_def)
  define dl where "dl = (a ! 0 AND 31) + (b ! 0 AND 31)"
  define dh where "dh = drop_bit 5 (a ! 0) + drop_bit 5 (b ! 0)"
  define h where "h = push_bit 5 dh + dl + drop_bit 31 (NOT (dl - 31))"
  define d0 where "d0 = d[0 := h]"
  have e: "e = fold (mulacc_row La a b) [0..<Lb] d0"
    unfolding e_def br_i31_mulacc_def Let_def hb(1) A(3) B(3) d0_def h_def dl_def dh_def ..
  have run: "length (fold (mulacc_row La a b) [0..<u] d0) = length d \<and> fold (mulacc_row La a b) [0..<u] d0 ! 0 = h
      \<and> words_ok (fold (mulacc_row La a b) [0..<u] d0) (La + u)
      \<and> nval (fold (mulacc_row La a b) [0..<u] d0) (La + u) = nval d La + nval a La * nval b u" if "u \<le> Lb" for u
    using that
  proof (induction u)
    case 0
    have "d \<noteq> []" using d(2) by auto
    then show ?case using d by (simp add: d0_def)
  next
    case (Suc u)
    define y where "y = fold (mulacc_row La a b) [0..<u] d0"
    have y: "length y = length d" "y ! 0 = h" "words_ok y (La + u)" "nval y (La + u) = nval d La + nval a La * nval b u"
      using Suc by (simp_all add: y_def)
    have bu: "unat (b ! (1 + u)) < 2 ^ 31" using hb(2) Suc.prems by (simp add: words_ok_def)
    have ly: "Suc (La + u) < length y" using y(1) d(2) Suc.prems by simp
    have f: "fold (mulacc_row La a b) [0..<Suc u] d0 = mulacc_row La a b u y" by (simp add: y_def)
    show ?case using mulacc_row [OF A(2,3) bu y(3) ly] y unfolding f by (simp add: algebra_simps)
  qed
  have E: "length e = length d" "e ! 0 = h" "words_ok e (La + Lb)" "nval e (La + Lb) = nval d La + nval a La * nval b Lb"
    using run [of Lb] by (simp_all add: e)
  show "length e = length d" by (rule E(1))
  have head: "words31 h = (if ?ba + ?bb \<le> 31 then La + Lb - 1 else La + Lb)"
  proof -
    have ud: "unat (drop_bit 5 (a ! 0)) = La - 1" "unat (drop_bit 5 (b ! 0)) = Lb - 1"
      using a b(1) A(8,9) B(8,9) unfolding unat_shift hb(1) by (simp_all add: modulus31_def)
    have udl: "unat dl = ?ba + ?bb"
      unfolding dl_def hb(1) by (subst unat_plus) (use A(7,9) B(7,9) in simp_all)
    have udh: "unat dh = La - 1 + (Lb - 1)"
      unfolding dh_def by (subst unat_plus) (use ud lens in simp_all)
    have carry: "unat (drop_bit 31 (NOT (dl - 31))) = of_bool (31 \<le> ?ba + ?bb)"
    proof -
      have "NOT (dl - 31) = 30 - dl" by (simp add: not_eq_complement)
      then have u: "unat (NOT (dl - 31)) = (if ?ba + ?bb \<le> 30 then 30 - (?ba + ?bb) else 4294967326 - (?ba + ?bb))"
        using udl by (simp add: unat_sub_if')
      have big: "31 \<le> s \<Longrightarrow> s \<le> 62 \<Longrightarrow> (4294967326 - s) div 2 ^ 31 = (1 :: nat)" for s by simp
      show ?thesis
      proof (cases "31 \<le> ?ba + ?bb")
        case True
        then show ?thesis unfolding unat_shift u using big [OF True] A(9) B(9) by simp
      qed (simp add: unat_shift u)
    qed
    have "La + Lb < 67108864" using lens by simp
    then have lim: "32 * (La - 1 + (Lb - 1)) + (?ba + ?bb) + 64 < 4294967296" using A(9) B(9) by (cases La; cases Lb) simp_all
    have p5: "unat (push_bit 5 dh) = 32 * (La - 1 + (Lb - 1))" unfolding unat_push udh using lens by simp
    have uh: "unat h = 32 * (La - 1 + (Lb - 1)) + ?ba + ?bb + of_bool (31 \<le> ?ba + ?bb)"
    proof -
      have s: "unat (push_bit 5 dh + dl) = 32 * (La - 1 + (Lb - 1)) + (?ba + ?bb)"
        by (subst unat_plus) (use p5 udl lim in simp_all)
      show ?thesis unfolding h_def by (subst unat_plus) (use s carry lim in \<open>cases "31 \<le> ?ba + ?bb"; simp\<close>)+
    qed
    have "words31 h = (unat h + 31) div 32" by (rule words31_div) (use uh lim in \<open>cases "31 \<le> ?ba + ?bb"; simp\<close>)
    then show ?thesis using uh A(1,8,9) B(1,8,9) by (cases La; cases Lb) auto
  qed
  have pos: "0 < La" "0 < Lb" by (rule A(1), rule B(1))
  show "0 < words31 (e ! 0)" unfolding E(2) head using pos by auto
  show "words_ok e (words31 (e ! 0))" unfolding E(2) head using words_ok_mono [OF E(3), of "La + Lb - 1"] E(3) by simp
  show "nval e (words31 (e ! 0)) = nval d La + nval a La * nval b Lb"
  proof (cases "?ba + ?bb \<le> 31")
    case False
    then show ?thesis unfolding E(2) head using E(4) by simp
  next
    case True
    obtain k where k: "La + Lb = Suc k" using pos by (cases "La + Lb") simp_all
    have "2 ^ (31 * (La + Lb - 2) + ?ba + ?bb) \<le> (2 :: nat) ^ (31 * k)" using True k pos by (intro power_increasing) simp_all
    then have "nval d La + nval a La * nval b Lb < 2 ^ (31 * k)" by (rule less_le_trans [OF small])
    then have "nval e (Suc k) < 2 ^ (31 * k)" using E(4) unfolding k by simp
    then have "unat (e ! Suc k) * 2 ^ (31 * k) < 1 * 2 ^ (31 * k)" unfolding nval.simps by linarith
    then have "unat (e ! Suc k) < 1" by (rule mult_right_less_imp_less) simp
    then show ?thesis unfolding E(2) head using True E(4) k by simp
  qed
qed

subsection \<open>Reduction\<close>

lemma digit31_shift: "digit31 (N div 2 ^ (31 * k)) i = digit31 N (i + k)"
  unfolding digit31_def by (simp add: div_mult2_eq [symmetric] power_add [symmetric] add.commute)

lemma reduce_words:
  assumes m: "modulus31 m L" and a: "words_ok a La" and "u \<le> La" "below m x L" "nval x L = nval a La div 2 ^ (31 * u) mod nval m L"
  defines "y \<equiv> fold (\<lambda>u x. br_i31_muladd_small x (a ! u) m) (rev [1..<Suc u]) x"
  shows "length y = length x \<and> below m y L \<and> nval y L = nval a La mod nval m L"
  using assms(3-5) unfolding y_def
proof (induction u arbitrary: x)
  case (Suc u)
  let ?A = "nval a La" and ?M = "nval m L"
  define x1 where "x1 = br_i31_muladd_small x (a ! Suc u) m"
  have w: "unat (a ! Suc u) < 2 ^ 31" using a Suc.prems(1) by (simp add: words_ok_def)
  note s = muladd_small [OF m Suc.prems(2) w, folded x1_def]
  have "digit31 ?A u = unat (a ! Suc u)" using digits_nval [OF a, of u] Suc.prems(1) by simp
  then have d: "?A div 2 ^ (31 * u) = ?A div 2 ^ (31 * Suc u) * 2 ^ 31 + unat (a ! Suc u)"
    unfolding digit31_def by (metis add.commute div_mult_mod_eq div_mult2_eq power_add mult_Suc_right)
  have "nval x1 L = ?A div 2 ^ (31 * u) mod ?M"
    unfolding d using s Suc.prems(3) by (metis mod_add_left_eq mod_mult_left_eq)
  then show ?case using Suc.IH [of x1] Suc.prems(1) s by (simp add: x1_def)
qed simp

lemma header_order:
  assumes q: "modulus31 q La" and m: "modulus31 m L"
  shows "q ! 0 < m ! 0 \<Longrightarrow> La \<le> L \<and> 2 ^ (31 * (La - 1) + bit_len (unat (q ! La))) \<le> (nval m L :: nat)"
    and "\<not> q ! 0 < m ! 0 \<Longrightarrow> L \<le> La"
proof -
  have h: "unat (q ! 0) = 32 * (La - 1) + bit_len (unat (q ! La))" "unat (m ! 0) = 32 * (L - 1) + bit_len (unat (m ! L))"
    using q m by (simp_all add: modulus31_def)
  note Q = modulus31D(1,8,9) [OF q] and M = modulus31D(1,8,9) [OF m]
  show "La \<le> L \<and> 2 ^ (31 * (La - 1) + bit_len (unat (q ! La))) \<le> nval m L" if "q ! 0 < m ! 0"
  proof -
    have l: "32 * (La - 1) + bit_len (unat (q ! La)) < 32 * (L - 1) + bit_len (unat (m ! L))"
      using that h by (simp add: word_less_nat_alt)
    obtain a' l' where s: "La = Suc a'" "L = Suc l'" using Q(1) M(1) by (cases La; cases L) auto
    have le: "La \<le> L" by (rule ccontr) (use l Q M in \<open>simp add: s\<close>)
    have "31 * (La - 1) + bit_len (unat (q ! La)) \<le> 31 * (L - 1) + bit_len (unat (m ! L)) - 1"
      by (cases "La = L") (use l le Q M in \<open>simp_all add: s\<close>)
    then have "(2 :: nat) ^ (31 * (La - 1) + bit_len (unat (q ! La))) \<le> 2 ^ (31 * (L - 1) + bit_len (unat (m ! L)) - 1)"
      by (rule power_increasing) simp
    then show ?thesis using le modulus_bounds(1) [OF m] by linarith
  qed
  show "L \<le> La" if "\<not> q ! 0 < m ! 0"
  proof -
    have "32 * (L - 1) + bit_len (unat (m ! L)) \<le> 32 * (La - 1) + bit_len (unat (q ! La))"
      using that h by (simp add: word_less_nat_alt not_less)
    moreover obtain a' l' where "La = Suc a'" "L = Suc l'" using Q(1) M(1) by (cases La; cases L) auto
    ultimately show ?thesis using Q M by (intro leI notI) simp
  qed
qed

lemma reduce:
  assumes q: "modulus31 q La" "below q a La" and m: "modulus31 m L" and x: "L < length x"
  defines "y \<equiv> br_i31_reduce x a m"
  shows "length y = length x \<and> below m y L \<and> nval y L = nval a La mod nval m L"
proof -
  let ?A = "nval a La"
  have ha: "a ! 0 = q ! 0" and ok: "words_ok a La" and lt: "?A < nval q La" using q(2) by (simp_all add: below_def sized_def)
  have la: "La < length a" using ok by (simp add: words_ok_def)
  note Q = modulus31D(1,3,5) [OF q(1)] and M = modulus31D(1,3,5) [OF m]
  show ?thesis
  proof (cases "q ! 0 < m ! 0")
    case True
    note o = header_order(1) [OF q(1) m True]
    define z where "z = m ! 0 # take La (drop 1 a) @ replicate (L - La) 0 @ drop (1 + L) x"
    have y: "y = z" unfolding y_def br_i31_reduce_def Let_def ha Q(2) M(2) z_def using True M(3) by simp
    have lz: "length z = length x" using la x o by (simp add: z_def)
    have w: "z ! Suc i = (if i < La then a ! Suc i else 0)" if "i < L" for i
    proof (cases "i < La")
      case False
      then have "i - La < L - La" using that by simp
      then show ?thesis using False la by (simp add: z_def nth_append)
    qed (use la in \<open>simp add: z_def nth_append\<close>)
    have zw: "words_ok z L" unfolding words_ok_def
    proof (intro conjI ballI)
      show "L < length z" using lz x by simp
      fix i assume i: "i \<in> {1..L}"
      then obtain j where j: "i = Suc j" "j < L" by (cases i) auto
      show "unat (z ! i) < 2 ^ 31" unfolding j(1) w [OF j(2)] using ok by (simp add: words_ok_def)
    qed
    have "nval z L = nval z La"
    proof (rule nval_zeros)
      fix i assume "La < i" "i \<le> L"
      then show "z ! i = 0" using w [of "i - 1"] by (cases i) simp_all
    qed (use o in simp)
    also have "nval z La = ?A"
    proof (rule nval_cong)
      fix i assume "0 < i" "i \<le> La"
      then show "z ! i = a ! i" using w [of "i - 1"] o by (cases i) simp_all
    qed
    finally have v: "nval z L = ?A" .
    have "?A < nval m L" using lt o modulus_bounds(2) [OF q(1)] by linarith
    moreover have "z ! 0 = m ! 0" by (simp add: z_def)
    ultimately show ?thesis unfolding y using lz v zw by (simp add: below_def sized_def)
  next
    case False
    have LL: "L \<le> La" by (rule header_order(2) [OF q(1) m False])
    define k where "k = La - L + 1"
    define z where "z = m ! 0 # take (L - 1) (drop (2 + (La - L)) a) @ [0] @ drop (1 + L) x"
    have k: "2 + La - L = Suc k" "k \<le> La" using LL M(1) by (simp_all add: k_def)
    have y: "y = fold (\<lambda>u x. br_i31_muladd_small x (a ! u) m) (rev [1..<Suc k]) z"
      unfolding y_def br_i31_reduce_def Let_def ha Q(2) M(2) k(1) z_def [symmetric] using False M(3) by simp
    have lt': "length (take (L - 1) (drop (2 + (La - L)) a)) = L - 1" using la LL M(1) by simp
    have lz: "length z = length x" using x M(1) lt' by (simp add: z_def)
    let ?N = "?A div 2 ^ (31 * k)"
    have Ab: "?A < 2 ^ (31 * La)" by (rule nval_bound [OF ok])
    have "31 * La = 31 * (L - 1) + 31 * k" using LL M(1) by (simp add: k_def)
    then have "?A < 2 ^ (31 * (L - 1)) * 2 ^ (31 * k)" using Ab by (simp only: power_add)
    then have Nb: "?N < 2 ^ (31 * (L - 1))" by (rule less_mult_imp_div_less)
    have w: "unat (z ! Suc i) = digit31 ?N i" if i: "i < L" for i
    proof (cases "i < L - 1")
      case True
      then have "z ! Suc i = a ! Suc (i + k)" using la LL lt' by (simp add: z_def nth_append k_def add.commute)
      moreover have "i + k < La" using True LL by (simp add: k_def)
      ultimately show ?thesis using digits_nval [OF ok, of "i + k"] by (simp add: digit31_shift)
    next
      case False
      then have "z ! Suc i = 0" using i lt' by (simp add: z_def nth_append)
      moreover have "i + k \<ge> La" using False LL by (simp add: k_def)
      ultimately show ?thesis using digits_nval [OF ok, of "i + k"] by (simp add: digit31_shift)
    qed
    have "nval z L = ?N mod 2 ^ (31 * L)" by (rule nval_digits) (rule w)
    moreover have "(2 :: nat) ^ (31 * (L - 1)) \<le> 2 ^ (31 * L)" by (intro power_increasing) simp_all
    ultimately have v: "nval z L = ?N" using Nb by simp
    have "(2 :: nat) ^ (31 * (L - 1)) \<le> 2 ^ (31 * (L - 1) + bit_len (unat (m ! L)) - 1)"
      by (intro power_increasing) (use modulus31D(8) [OF m] in simp_all)
    then have NM: "?N < nval m L" using Nb modulus_bounds(1) [OF m] by linarith
    have zw: "words_ok z L" unfolding words_ok_def
    proof (intro conjI ballI)
      show "L < length z" using lz x by simp
      fix i assume i: "i \<in> {1..L}"
      then obtain j where j: "i = Suc j" "j < L" by (cases i) auto
      show "unat (z ! i) < 2 ^ 31" unfolding j(1) w [OF j(2)] by (simp add: digit31_def)
    qed
    have "z ! 0 = m ! 0" by (simp add: z_def)
    then have zb: "below m z L" using zw v NM by (simp add: below_def sized_def)
    show ?thesis unfolding y using reduce_words [OF m ok k(2) zb] v NM lz by simp
  qed
qed

subsection \<open>Decoding with reduction\<close>

lemma decode_untouched:
  "fold decode_byte bs (x, v, acc, al) = (y, v', acc', al') \<Longrightarrow> v \<le> v' \<and> (\<forall>i\<ge>v'. y ! i = x ! i)"
proof (induction bs arbitrary: x v acc al)
  case (Cons b bs)
  obtain x1 v1 acc1 al1 where s: "decode_byte b (x, v, acc, al) = (x1, v1, acc1, al1)" by (rule prod_cases4)
  have "v \<le> v1" "\<forall>i\<ge>v1. x1 ! i = x ! i"
    using s by (auto simp: decode_byte_def split: prod.splits option.splits)
  then show ?case using Cons.IH [of x1 v1 acc1 al1] Cons.prems by (auto simp: s)
qed simp

lemma decode_zeroed:
  assumes m: "modulus31 m L" and x: "L < length x" and zero: "\<forall>i. 0 < i \<longrightarrow> i \<le> L \<longrightarrow> x ! i = 0" and src: "8 * length src \<le> 31 * L"
  defines "y \<equiv> (br_i31_decode x src)[0 := m ! 0]"
  shows "length y = length x" "sized m y L" "nval y L = os2ip src"
proof -
  let ?N = "os2ip src" and ?n = "length src"
  have len: "8 * ?n \<le> 31 * (length x - 1)" 
  proof -
    have "31 * L \<le> 31 * (length x - 1)" using x by (intro mult_le_mono2) simp
    then show ?thesis using src by linarith
  qed
  obtain z v acc al where f: "fold decode_byte (rev src) (x, 1, 0, 0) = (z, v, acc, al)"
    and a: "acc_at ?N ?n v acc al" and lz: "length z = length x" and dg: "\<forall>i<v - 1. unat (z ! Suc i) = digit31 ?N i"
    using decode_bytes [OF len, of ?n] by auto
  have same: "\<forall>i\<ge>v. z ! i = x ! i" using decode_untouched [OF f] by simp
  have Nb: "?N < 2 ^ (8 * ?n)" using os2ip_bound [of src] by (simp add: pow256)
  have v: "0 < v" and u8: "8 * ?n = 31 * (v - 1) + al" and al: "al \<le> 30" and ua: "unat acc = ?N div 2 ^ (31 * (v - 1))"
    using a Nb by (simp_all add: acc_at_def)
  define s where "s = (if al = 0 then z else z[v := acc])"
  have y: "y = s[0 := m ! 0]"
    unfolding y_def br_i31_decode_def decode_byte_def [symmetric] f by (simp add: s_def)
  have ab: "unat acc < 2 ^ al" by (rule acc_bound [OF a])
  have d: "unat (s ! Suc i) = digit31 ?N i" if i: "i < L" for i
  proof -
    consider "i < v - 1" | "i = v - 1" | "v \<le> i" by linarith
    then show ?thesis
    proof cases
      case 1
      then show ?thesis using dg by (auto simp: s_def nth_list_update)
    next
      case 2
      have "(2 :: nat) ^ al \<le> 2 ^ 31" using al by (intro power_increasing) simp_all
      then have "digit31 ?N i = unat acc" using ua ab unfolding digit31_def 2 by simp
      moreover have "v < length z" using i 2 v x lz by simp
      moreover have "z ! v = 0" using same zero v i 2 by simp
      ultimately show ?thesis using 2 v ab by (cases "al = 0") (simp_all add: s_def)
    next
      case 3
      have "8 * ?n \<le> 31 * i" using u8 al v 3 by (cases v) simp_all
      then have "(2 :: nat) ^ (8 * ?n) \<le> 2 ^ (31 * i)" by (intro power_increasing) simp_all
      then have "?N < 2 ^ (31 * i)" using Nb by linarith
      then have "digit31 ?N i = 0" by (simp add: digit31_def)
      moreover have "s ! Suc i = 0" using same zero i 3 by (simp add: s_def)
      ultimately show ?thesis by simp
    qed
  qed
  show ly: "length y = length x" by (simp add: y s_def lz)
  have "words_ok y L" unfolding words_ok_def
  proof (intro conjI ballI)
    show "L < length y" using ly x by simp
    fix i assume i: "i \<in> {1..L}"
    then obtain j where j: "i = Suc j" "j < L" by (cases i) auto
    show "unat (y ! i) < 2 ^ 31" using d [OF j(2)] by (simp add: y j(1) digit31_def)
  qed
  moreover have "y \<noteq> []" using ly x by auto
  ultimately show "sized m y L" by (simp add: sized_def y)
  have "nval y L = ?N mod 2 ^ (31 * L)" by (rule nval_digits) (simp add: y d)
  moreover have "(2 :: nat) ^ (8 * ?n) \<le> 2 ^ (31 * L)" using src by (intro power_increasing) simp_all
  ultimately show "nval y L = ?N" using Nb by simp
qed

text \<open>The bytes read so far, modulo the modulus, are in the number and the accumulator.\<close>

definition taken :: "u32 list \<Rightarrow> nat \<Rightarrow> nat \<Rightarrow> u32 list \<Rightarrow> u32 \<Rightarrow> nat \<Rightarrow> bool" where
  "taken m L V x acc al \<longleftrightarrow> below m x L \<and> al \<le> 30 \<and> unat acc < 2 ^ al
     \<and> (nval x L * 2 ^ al + unat acc) mod nval m L = V mod nval m L"

lemma reduce_byte:
  assumes m: "modulus31 m L" and t: "taken m L V x acc al"
    and run: "reduce_byte m b (x, acc, al) = (x', acc', al')"
  shows "taken m L (V * 256 + unat b) x' acc' al' \<and> length x' = length x"
proof -
  let ?M = "nval m L" and ?X = "nval x L" and ?B = "unat b"
  have xb: "below m x L" and al: "al \<le> 30" and ab: "unat acc < 2 ^ al" and v: "(?X * 2 ^ al + unat acc) mod ?M = V mod ?M"
    using t by (simp_all add: taken_def)
  have uv [simp]: "unat (ucast b :: u32) = ?B"
    unfolding unsigned_ucast_eq take_bit_eq_mod by (rule mod_less) (rule less_trans [OF unat_u8], simp)
  have V: "((?X * 2 ^ al + unat acc) * 256 + ?B) mod ?M = (V * 256 + ?B) mod ?M"
    using v by (metis mod_add_left_eq mod_mult_left_eq)
  show ?thesis
  proof (cases "23 \<le> al")
    case False
    have r: "x' = x" "acc' = push_bit 8 acc OR ucast b" "al' = al + 8"
      using run False by (simp_all add: reduce_byte_def Let_def)
    have "(2 :: nat) ^ al * 256 \<le> 2 ^ 31"
      using False power_increasing [of "al + 8" 31 "2 :: nat"] by (simp add: power_add)
    then have a31: "unat acc * 256 < 2 ^ 31" using ab by linarith
    have u: "unat acc' = unat acc * 256 + ?B"
      unfolding r(2) by (subst or_add [OF dvd_push]) (use a31 in \<open>simp_all add: unat_push\<close>)
    have "unat acc * 256 + ?B < (unat acc + 1) * 256" by simp
    also have "\<dots> \<le> 2 ^ al * 256" using ab by (intro mult_right_mono) simp_all
    finally have "unat acc' < 2 ^ al'" unfolding u r(3) power_add by simp
    moreover have "?X * 2 ^ al' + unat acc' = (?X * 2 ^ al + unat acc) * 256 + ?B"
      unfolding u r(3) by (simp add: power_add)
    ultimately show ?thesis using xb False V by (simp add: taken_def r(1,3))
  next
    case True
    then obtain c where c: "al = 23 + c" using le_Suc_ex by blast
    have c7: "c \<le> 7" using al c by simp
    define acc1 where "acc1 = push_bit (8 - c) acc OR drop_bit c (ucast b)"
    have r: "x' = br_i31_muladd_small x acc1 m" "acc' = ucast b AND drop_bit (8 - c) 0xFF" "al' = c"
      using run True by (auto simp: reduce_byte_def Let_def acc1_def c)
    have s8: "(2 :: nat) ^ c * 2 ^ (8 - c) = 256" using c7 by (simp flip: power_add)
    have ac31: "unat acc * 2 ^ (8 - c) < 2 ^ 31"
    proof -
      have "unat acc * 2 ^ (8 - c) < 2 ^ al * 2 ^ (8 - c)" using ab by simp
      also have "\<dots> = 2 ^ 31" using c7 by (simp add: c flip: power_add)
      finally show ?thesis .
    qed
    have bd: "?B div 2 ^ c < 2 ^ (8 - c)"
      by (rule less_mult_imp_div_less) (use s8 in \<open>simp add: mult.commute\<close>)
    have u1: "unat acc1 = unat acc * 2 ^ (8 - c) + ?B div 2 ^ c"
      unfolding acc1_def by (subst or_add [OF dvd_push]) (use bd ac31 in \<open>simp_all add: unat_push unat_shift\<close>)
    have u31: "unat acc1 < 2 ^ 31"
    proof -
      have "unat acc * 2 ^ (8 - c) + ?B div 2 ^ c < (unat acc + 1) * 2 ^ (8 - c)" using bd by simp
      also have "\<dots> \<le> 2 ^ al * 2 ^ (8 - c)" using ab by (intro mult_right_mono) simp_all
      also have "\<dots> = 2 ^ 31" using c7 by (simp add: c flip: power_add)
      finally show ?thesis unfolding u1 .
    qed
    have mk: "drop_bit (8 - c) (0xFF :: u32) = mask c"
    proof -
      have "c = 0 \<or> c = 1 \<or> c = 2 \<or> c = 3 \<or> c = 4 \<or> c = 5 \<or> c = 6 \<or> c = 7" using c7 by linarith
      then show ?thesis by (elim disjE) (simp_all add: mask_eq_exp_minus_1)
    qed
    have u2: "unat acc' = ?B mod 2 ^ c"
      unfolding r(2) mk take_bit_eq_mask [symmetric] unsigned_take_bit_eq uv by (rule take_bit_eq_mod)
    note ms = muladd_small [OF m xb u31, folded r(1)]
    have "(nval x' L * 2 ^ c + unat acc') mod ?M = ((?X * 2 ^ 31 + unat acc1) * 2 ^ c + unat acc') mod ?M"
      using ms by (metis mod_add_left_eq mod_mult_left_eq)
    also have "(?X * 2 ^ 31 + unat acc1) * 2 ^ c + unat acc' = (?X * 2 ^ al + unat acc) * 256 + ?B"
    proof -
      have "(?X * 2 ^ 31 + unat acc1) * 2 ^ c + unat acc'
          = ?X * (2 ^ 31 * 2 ^ c) + unat acc * (2 ^ c * 2 ^ (8 - c)) + (?B div 2 ^ c * 2 ^ c + ?B mod 2 ^ c)"
        unfolding u1 u2 by (simp only: distrib_right distrib_left ac_simps)
      also have "(2 :: nat) ^ 31 * 2 ^ c = 2 ^ al * 256" by (simp add: c power_add)
      finally show ?thesis unfolding s8 by (simp add: algebra_simps)
    qed
    finally show ?thesis using ms V u2 c7 by (simp add: taken_def r(3))
  qed
qed

lemma reduce_bytes:
  assumes m: "modulus31 m L" and "taken m L V x acc al" and "fold (reduce_byte m) bs (x, acc, al) = (x', acc', al')"
  shows "taken m L (V * 256 ^ length bs + os2ip bs) x' acc' al' \<and> length x' = length x"
  using assms(2,3)
proof (induction bs arbitrary: V x acc al)
  case (Cons b bs)
  obtain x1 acc1 al1 where s: "reduce_byte m b (x, acc, al) = (x1, acc1, al1)" by (rule prod_cases3)
  note r = reduce_byte [OF m Cons.prems(1) s]
  have "(V * 256 + unat b) * 256 ^ length bs + os2ip bs = V * 256 ^ length (b # bs) + os2ip (b # bs)"
    by (simp add: algebra_simps)
  moreover have "taken m L ((V * 256 + unat b) * 256 ^ length bs + os2ip bs) x' acc' al' \<and> length x' = length x1"
    by (rule Cons.IH [of _ x1 acc1 al1]) (use Cons.prems(2) r in \<open>simp_all add: s\<close>)
  ultimately show ?case using r by (simp only:)
qed simp

text \<open>The bytes that are decoded at once are below the modulus.\<close>

lemma direct_bytes:
  assumes m: "modulus31 m L"
  defines "r \<equiv> (m ! 0 AND 31) + push_bit 5 (drop_bit 5 (m ! 0)) - drop_bit 5 (m ! 0)"
  defines "k \<equiv> unat (drop_bit 3 (r + 7)) - 1"
  shows "8 * k \<le> 31 * L" "256 ^ k \<le> nval m L"
proof -
  let ?b = "bit_len (unat (m ! L))"
  note M = modulus31D(1,4,7,8,9) [OF m]
  obtain l where L: "L = Suc l" using M(1) by (cases L) simp_all
  have h: "unat (m ! 0) = 32 * l + ?b" "l < 67108863" using m by (simp_all add: modulus31_def L)
  have d: "unat (drop_bit 5 (m ! 0)) = l" using h(1) M(5) unfolding unat_shift by simp
  have p: "unat (push_bit 5 (drop_bit 5 (m ! 0))) = 32 * l" unfolding unat_push d using h(2) by simp
  have s: "unat ((m ! 0 AND 31) + push_bit 5 (drop_bit 5 (m ! 0))) = ?b + 32 * l"
    by (subst unat_plus) (use p M(3,5) h(2) in simp_all)
  have r: "unat r = 31 * l + ?b"
    unfolding r_def by (subst unat_sub) (use s d in \<open>simp_all add: word_le_nat_alt\<close>)
  have r7: "unat (r + 7) = 31 * l + ?b + 7" by (subst unat_plus) (use r h(2) M(5) in simp_all)
  have k: "k = (31 * l + ?b + 7) div 8 - 1" unfolding k_def unat_shift r7 by simp
  have le: "8 * k \<le> 31 * l + ?b - 1" unfolding k using M(4) by linarith
  then show "8 * k \<le> 31 * L" using M(5) L by simp
  have "(256 :: nat) ^ k \<le> 2 ^ (31 * l + ?b - 1)" unfolding pow256 using le by (intro power_increasing) simp_all
  also have "\<dots> \<le> nval m L" using modulus_bounds(1) [OF m] by (simp add: L)
  finally show "256 ^ k \<le> nval m L" .
qed

lemma decode_reduce:
  fixes src :: "u8 list"
  assumes m: "modulus31 m L" and x: "L < length x"
  defines "y \<equiv> br_i31_decode_reduce x src m"
  shows "length y = length x \<and> below m y L \<and> nval y L = os2ip src mod nval m L"
proof -
  let ?M = "nval m L"
  define r where "r = (m ! 0 AND 31) + push_bit 5 (drop_bit 5 (m ! 0)) - drop_bit 5 (m ! 0)"
  define k where "k = unat (drop_bit 3 (r + 7)) - 1"
  note kb = direct_bytes [OF m, folded r_def, folded k_def]
  define z where "z = br_i31_zero x (m ! 0)"
  have w: "words31 (m ! 0) = L" and m0: "(m ! 0 = 0) = False" using modulus31D(3,5) [OF m] by simp_all
  have lz: "L < length z" "length z = length x" using zero_array(1) [OF m x] x by (simp_all add: z_def)
  have zz: "\<forall>i. 0 < i \<longrightarrow> i \<le> L \<longrightarrow> z ! i = 0"
  proof (intro allI impI)
    fix i assume "0 < i" "i \<le> L"
    then show "z ! i = 0" by (cases i) (simp_all add: z_def br_i31_zero_def w nth_append)
  qed
  show ?thesis
  proof (cases "length src \<le> k")
    case True
    have y: "y = (br_i31_decode z src)[0 := m ! 0]"
      unfolding y_def br_i31_decode_reduce_def Let_def m0 if_False r_def [symmetric] k_def [symmetric] z_def [symmetric] using True by simp
    have "8 * length src \<le> 31 * L" using True kb(1) by linarith
    note d = decode_zeroed [OF m lz(1) zz this]
    have "(256 :: nat) ^ length src \<le> 256 ^ k" using True by (intro power_increasing) simp_all
    then have "os2ip src < ?M" using os2ip_bound [of src] kb(2) by linarith
    then show ?thesis using d lz by (simp add: y below_def)
  next
    case False
    define s where "s = take k src"
    define x0 where "x0 = (br_i31_decode z s)[0 := m ! 0]"
    have ls: "length s = k" using False by (simp add: s_def)
    have "8 * length s \<le> 31 * L" using kb(1) ls by simp
    note d = decode_zeroed [OF m lz(1) zz this, folded x0_def]
    have "os2ip s < ?M" using os2ip_bound [of s] kb(2) ls by simp
    then have t0: "taken m L (os2ip s) x0 0 0" using d by (simp add: taken_def below_def)
    obtain x1 acc al where f: "fold (reduce_byte m) (drop k src) (x0, 0, 0) = (x1, acc, al)" by (rule prod_cases3)
    have src: "os2ip s * 256 ^ length (drop k src) + os2ip (drop k src) = os2ip src"
      unfolding s_def os2ip_append [symmetric] by simp
    note t = reduce_bytes [OF m t0 f, unfolded src]
    have xb: "below m x1 L" and al: "al \<le> 30" and ab: "unat acc < 2 ^ al" and lx: "length x1 = length x"
      and v: "(nval x1 L * 2 ^ al + unat acc) mod ?M = os2ip src mod ?M"
      using t d lz by (simp_all add: taken_def)
    define acc2 where "acc2 = (acc OR push_bit al (x1 ! 1)) AND 0x7FFFFFFF"
    define x2 where "x2 = br_i31_rshift x1 (31 - al)"
    have y: "y = (if al \<noteq> 0 then br_i31_muladd_small x2 acc2 m else x1)"
      unfolding y_def br_i31_decode_reduce_def Let_def m0 if_False r_def [symmetric] k_def [symmetric] z_def [symmetric] s_def [symmetric]
        x0_def [symmetric] f prod.case acc2_def x2_def
      using False by simp
    show ?thesis
    proof (cases "al = 0")
      case True
      then show ?thesis using xb lx v ab by (simp add: y below_def)
    next
      case False
      let ?X = "nval x1 L" and ?c = "31 - al"
      have xok: "words_ok x1 L" "words31 (x1 ! 0) = L" "x1 ! 0 = m ! 0" using xb w by (simp_all add: below_def sized_def)
      have c: "0 < ?c" "?c \<le> 31" "31 - ?c = al" using al False by simp_all
      note rs = rshift [OF xok(1,2) modulus31D(1) [OF m] c(1,2), folded x2_def]
      have x1w: "unat (x1 ! 1) < 2 ^ 31" using xok(1) modulus31D(1) [OF m] by (simp add: words_ok_def)
      have u2: "unat acc2 = (unat (x1 ! 1) mod 2 ^ ?c) * 2 ^ al + unat acc"
        using shift_word [OF x1w _ c(2), of acc] ab unfolding acc2_def c(3) by (simp add: or.commute)
      have low: "unat (x1 ! 1) mod 2 ^ ?c = ?X mod 2 ^ ?c"
      proof -
        have "(2 :: nat) ^ ?c dvd 2 ^ 31" by (rule le_imp_power_dvd) simp
        then have e: "v mod 2 ^ ?c = v mod 2 ^ 31 mod 2 ^ ?c" for v :: nat by (rule mod_mod_cancel [symmetric])
        have "unat (x1 ! 1) mod 2 ^ ?c = unat (x1 ! 1) mod 2 ^ 31 mod 2 ^ ?c" by (rule e)
        also have "\<dots> = ?X mod 2 ^ 31 mod 2 ^ ?c" unfolding nval_mod [OF modulus31D(1) [OF m], of x1] ..
        also have "\<dots> = ?X mod 2 ^ ?c" by (rule e [symmetric])
        finally show ?thesis .
      qed
      have "unat acc2 < 2 ^ 31" unfolding acc2_def unat_and31 by simp
      have x2b: "below m x2 L"
      proof -
        have "nval x2 L \<le> ?X" unfolding rs(4) by (rule div_le_dividend)
        then have "nval x2 L < ?M" using xb unfolding below_def by linarith
        then show ?thesis using rs(2,3) xok(3) by (simp only: below_def sized_def)
      qed
      note ms = muladd_small [OF m x2b \<open>unat acc2 < 2 ^ 31\<close>]
      have "nval x2 L * 2 ^ 31 + unat acc2 = (?X div 2 ^ ?c * 2 ^ ?c + ?X mod 2 ^ ?c) * 2 ^ al + unat acc"
      proof -
        have e: "(2 :: nat) ^ 31 = 2 ^ ?c * 2 ^ al" using al by (simp flip: power_add)
        show ?thesis unfolding rs(4) u2 low e by (simp only: distrib_right mult.assoc add.assoc)
      qed
      also have "\<dots> = ?X * 2 ^ al + unat acc" by (simp only: div_mult_mod_eq)
      finally have "nval y L = os2ip src mod ?M" using ms v False by (simp add: y)
      then show ?thesis using ms rs(1) lx False by (simp add: y)
    qed
  qed
qed

text \<open>Encoding under the header that the product computes.\<close>

lemma encode_words:
  assumes "words_ok x (words31 (x ! 0))" "0 < words31 (x ! 0)"
  shows "length (br_i31_encode len x) = len" "os2ip (br_i31_encode len x) = nval x (words31 (x ! 0)) mod 256 ^ len"
proof -
  define L where "L = words31 (x ! 0)"
  have e: "br_i31_encode len x = encode_loop x L 1 len 0 0"
    unfolding br_i31_encode_def Let_def L_def [symmetric] using assms(2) by (simp add: L_def)
  from encode_loop_spec [OF assms(1), of 0 0 1 len]
  show "length (br_i31_encode len x) = len" "os2ip (br_i31_encode len x) = nval x (words31 (x ! 0)) mod 256 ^ len"
    unfolding e L_def by simp_all
qed

end
