(* ===== verification/Rsa.thy ===== *)
theory Rsa
  imports I31Codec
begin

section \<open>RSA: public keys and PKCS\#1 v1.5 signatures (bearssl/src/rsa)\<close>

text \<open>
  The public operation of \<open>rsa_i31_pub.c\<close>, the padding of signatures with its inverse, and the verification built from
  them.  The arrays on the stack are not initialised: what they hold is an argument (\<open>stack\<close>, \<open>mem\<close>), and the results do
  not depend on it.
\<close>

unbundle bit_operations_syntax

record br_rsa_public_key =
  rsa_n :: "u8 list"
  rsa_e :: "u8 list"

definition BR_MAX_RSA_SIZE :: nat where "BR_MAX_RSA_SIZE = 4096"

subsection \<open>The public operation\<close>

definition RSA_TLEN :: nat where "RSA_TLEN = 4 * (2 + (BR_MAX_RSA_SIZE + 30) div 31)"

text \<open>The words for an integer of \<open>z\<close> bits and its header.\<close>

function word_count :: "int \<Rightarrow> nat \<Rightarrow> nat" where
  "word_count z fwlen = (if 0 < z then word_count (z - 31) (fwlen + 1) else fwlen)"
  by pat_completeness auto
termination by (relation "measure (\<lambda>(z, f). nat z)") auto

declare word_count.simps [simp del]

definition skip_zeros :: "u8 list \<Rightarrow> u8 list" where
  "skip_zeros n = dropWhile (\<lambda>b. b = 0) n"

text \<open>The return code and the contents of the buffer \<open>x\<close>.\<close>

definition br_rsa_i31_public :: "(nat \<Rightarrow> u32) \<Rightarrow> u8 list \<Rightarrow> br_rsa_public_key \<Rightarrow> u32 \<times> u8 list" where
  "br_rsa_i31_public stack x pk =
     (let n = skip_zeros (rsa_n pk);
          nlen = length n
      in if nlen = 0 \<or> BR_MAX_RSA_SIZE div 8 < nlen \<or> length x \<noteq> nlen then (0, x)
         else
           let tmp = map stack [0..<1 + RSA_TLEN];
               fwlen = word_count (8 * int nlen) 1;
               fwlen = fwlen + fwlen mod 2;
               m = take fwlen tmp;
               a = take fwlen (drop fwlen tmp);
               t = drop (2 * fwlen) tmp;
               m = br_i31_decode m n;
               m0i = br_i31_ninv31 (m ! 1);
               r = m0i AND 1;
               (ok, a) = br_i31_decode_mod a x m;
               r = r AND ok;
               a = (case br_i31_modpow_opt a (rsa_e pk) m m0i t (RSA_TLEN - 2 * fwlen) of Some a \<Rightarrow> a | None \<Rightarrow> a)
           in (r, br_i31_encode (length x) a))"

subsection \<open>The padding of signatures\<close>

text \<open>
  A hash function is named by the DER encoding of its identifier, a byte with the length followed by the value; no
  identifier stands for the raw pair of MD5 and SHA-1 digests.  The first \<open>hash_len\<close> bytes of \<open>hash\<close> are the digest.
\<close>

definition br_rsa_pkcs1_sig_pad :: "u8 list option \<Rightarrow> u8 list \<Rightarrow> nat \<Rightarrow> u32 \<Rightarrow> u8 list option" where
  "br_rsa_pkcs1_sig_pad hash_oid hash hash_len n_bitlen =
     (let xlen = unat (drop_bit 3 (n_bitlen + 7))
      in case hash_oid of
           None \<Rightarrow>
             if xlen < hash_len + 11 then None
             else
               let u = xlen - hash_len
               in Some ([0x00, 0x01] @ replicate (u - 3) 0xFF @ [0x00] @ take hash_len hash)
         | Some oid \<Rightarrow>
             let x3 = unat (oid ! 0)
             in if xlen < x3 + hash_len + 21 then None
                else
                  let u = xlen - x3 - hash_len - 11
                  in Some ([0x00, 0x01] @ replicate (u - 2) 0xFF @ [0x00, 0x30, of_nat (x3 + hash_len + 8), 0x30, of_nat (x3 + 4), 0x06]
                       @ take (x3 + 1) oid @ [0x05, 0x00, 0x04, of_nat hash_len] @ take hash_len hash))"

text \<open>
  The reverse.  \<open>mem\<close> is what the array \<open>pad2\<close> holds before; lengths are 64 bits wide, so the subtraction of the
  hash length may wrap around.
\<close>

definition pad1 :: "u8 list" where
  "pad1 = [0x00, 0x01] @ replicate 8 0xFF"

fun skip_ff :: "u8 list \<Rightarrow> nat \<Rightarrow> nat \<Rightarrow> nat" where
  "skip_ff sg u 0 = u"
| "skip_ff sg u (Suc left) = (if sg ! u \<noteq> 0xFF then u else skip_ff sg (u + 1) left)"

definition br_rsa_pkcs1_sig_unpad :: "(nat \<Rightarrow> u8) \<Rightarrow> u8 list \<Rightarrow> u8 list option \<Rightarrow> nat \<Rightarrow> u8 list option" where
  "br_rsa_pkcs1_sig_unpad mem sg hash_oid hash_len =
     (let sig_len = length sg
      in if sig_len < 11 then None
         else if take (length pad1) sg \<noteq> pad1 then None
         else
           let u = skip_ff sg (length pad1) (sig_len - length pad1);
               hash_out = Some (take hash_len (drop (sig_len - hash_len) sg))
           in case hash_oid of
                None \<Rightarrow> if sig_len - u \<noteq> hash_len + 1 \<or> sg ! u \<noteq> 0x00 then None else hash_out
              | Some oid \<Rightarrow>
                  let x3 = unat (oid ! 0);
                      pad_len = x3 + 9;
                      pad2 = replicate pad_len 0 @ drop pad_len (map mem [0..<43]);
                      zlen = of_nat sig_len - of_nat u - of_nat hash_len :: u64
                  in if zlen \<noteq> of_nat pad_len \<and> zlen \<noteq> of_nat (pad_len + 2) then None
                     else
                       let (x2, pad_len, pad2) =
                             (if zlen = of_nat pad_len then (x3 + 2, pad_len, pad2)
                              else (x3 + 4, unat zlen, pad2[unat zlen - 4 := 0x05]));
                           pad2 = pad2[1 := 0x30, 2 := of_nat (x2 + hash_len + 4), 3 := 0x30, 4 := of_nat x2, 5 := 0x06];
                           pad2 = take 6 pad2 @ take (x3 + 1) oid @ drop (x3 + 7) pad2;
                           pad2 = pad2[pad_len - 2 := 0x04, pad_len - 1 := of_nat hash_len]
                       in if take pad_len pad2 \<noteq> take pad_len (drop u sg) then None else hash_out)"

subsection \<open>Verification\<close>

definition br_rsa_i31_pkcs1_vrfy :: "(nat \<Rightarrow> u32) \<Rightarrow> (nat \<Rightarrow> u8) \<Rightarrow> u8 list \<Rightarrow> u8 list option \<Rightarrow> nat \<Rightarrow> br_rsa_public_key \<Rightarrow> u8 list option" where
  "br_rsa_i31_pkcs1_vrfy stack mem x hash_oid hash_len pk =
     (if BR_MAX_RSA_SIZE div 8 < length x then None
      else
        let (r, sg) = br_rsa_i31_public stack x pk
        in if r = 0 then None else br_rsa_pkcs1_sig_unpad mem sg hash_oid hash_len)"

subsection \<open>RFC 8017\<close>

text \<open>I2OSP, the public operation on byte strings, the encodings of a digest, and their place in a block of \<open>k\<close> bytes.\<close>

definition i2osp :: "nat \<Rightarrow> nat \<Rightarrow> u8 list" where
  "i2osp k N = map (\<lambda>i. of_nat (N div 256 ^ (k - 1 - i))) [0..<k]"

definition rsa_key_bytes :: "br_rsa_public_key \<Rightarrow> nat" where
  "rsa_key_bytes pk = length (skip_zeros (rsa_n pk))"

definition rsavp1 :: "br_rsa_public_key \<Rightarrow> u8 list \<Rightarrow> u8 list option" where
  "rsavp1 pk x =
     (let n = os2ip (rsa_n pk); k = rsa_key_bytes pk
      in if k \<le> BR_MAX_RSA_SIZE div 8 \<and> odd n \<and> length x = k \<and> os2ip x < n
         then Some (i2osp k (os2ip x ^ os2ip (rsa_e pk) mod n)) else None)"

definition digest_info :: "bool \<Rightarrow> u8 list \<Rightarrow> u8 list \<Rightarrow> u8 list" where
  "digest_info params oid h =
     (let alg = [0x06] @ oid @ (if params then [0x05, 0x00] else []);
          body = [0x30, of_nat (length alg)] @ alg @ [0x04, of_nat (length h)] @ h
      in [0x30, of_nat (length body)] @ body)"

definition emsa :: "nat \<Rightarrow> u8 list \<Rightarrow> u8 list" where
  "emsa k T = [0x00, 0x01] @ replicate (k - length T - 3) 0xFF @ [0x00] @ T"

definition encodings :: "u8 list option \<Rightarrow> u8 list \<Rightarrow> u8 list list" where
  "encodings hash_oid h =
     (case hash_oid of None \<Rightarrow> [h] | Some oid \<Rightarrow> [digest_info True oid h, digest_info False oid h])"

definition encodes :: "u8 list \<Rightarrow> u8 list option \<Rightarrow> u8 list \<Rightarrow> bool" where
  "encodes em hash_oid h \<longleftrightarrow> (\<exists>T\<in>set (encodings hash_oid h). length T + 11 \<le> length em \<and> em = emsa (length em) T)"

definition oid_ok :: "u8 list option \<Rightarrow> bool" where
  "oid_ok hash_oid = (case hash_oid of None \<Rightarrow> True | Some oid \<Rightarrow> length oid = unat (oid ! 0) + 1 \<and> unat (oid ! 0) \<le> 32)"

end
