(* ===== verification/RsaProps.thy ===== *)
theory RsaProps
  imports Rsa
begin

section \<open>RSA: the public operation and the verification of signatures are those of RFC 8017\<close>

unbundle bit_operations_syntax

subsection \<open>Bytes and numbers\<close>

lemma os2ip_skip_zeros: "os2ip (skip_zeros n) = os2ip n"
  by (induction n) (simp_all add: skip_zeros_def)

lemma skip_zeros_pos: "skip_zeros n \<noteq> [] \<Longrightarrow> 0 < os2ip n"
proof (induction n)
  case (Cons b n)
  show ?case
  proof (cases "b = 0")
    case False
    then have "unat b \<noteq> 0" by (simp add: unat_eq_0)
    then show ?thesis by simp
  qed (use Cons in \<open>simp add: skip_zeros_def\<close>)
qed (simp add: skip_zeros_def)

lemma length_i2osp [simp]: "length (i2osp k N) = k"
  by (simp add: i2osp_def)

lemma i2osp_os2ip: "i2osp (length bs) (os2ip bs) = bs"
proof (rule nth_equalityI)
  fix i assume "i < length (i2osp (length bs) (os2ip bs))"
  then have i: "i < length bs" by simp
  have "unat (of_nat (os2ip bs div 256 ^ (length bs - 1 - i)) :: u8) = os2ip bs div 256 ^ (length bs - 1 - i) mod 256"
    by (simp add: unat_of_nat)
  also have "\<dots> = unat (bs ! i)" 
  proof -
    have "length bs - 1 - i < length bs" "length bs - 1 - (length bs - 1 - i) = i" using i by simp_all
    then show ?thesis unfolding os2ip_byte by simp
  qed
  finally have "of_nat (os2ip bs div 256 ^ (length bs - 1 - i)) = bs ! i" by (simp only: word_unat_eq_iff)
  then show "i2osp (length bs) (os2ip bs) ! i = bs ! i" using i by (simp add: i2osp_def)
qed simp

subsection \<open>The public operation\<close>

lemma word_count: "0 \<le> z \<Longrightarrow> z \<le> 31 * (int (word_count z f) - int f) \<and> 31 * (int (word_count z f) - int f) < z + 31"
proof (induction z f rule: word_count.induct)
  case (1 z f)
  show ?case
  proof (cases "0 < z")
    case True
    then have w: "word_count z f = word_count (z - 31) (f + 1)" by (simp add: word_count.simps)
    show ?thesis
    proof (cases "0 \<le> z - 31")
      case True
      then show ?thesis using 1 \<open>0 < z\<close> unfolding w by simp
    next
      case False
      then have "word_count (z - 31) (f + 1) = f + 1" by (simp add: word_count.simps)
      then show ?thesis unfolding w using False \<open>0 < z\<close> by simp
    qed
  next
    case False
    then show ?thesis using 1 by (simp add: word_count.simps)
  qed
qed

lemma even_room: "a \<le> b \<Longrightarrow> even b \<Longrightarrow> a + a mod 2 \<le> (b :: nat)"
  by (cases "even a"; cases "a = b") (auto simp: mod_2_eq_odd)

lemma modulus_parity: "modulus31 m L \<Longrightarrow> odd (nval m L) \<longleftrightarrow> odd (unat (m ! 1))"
proof -
  assume m: "modulus31 m L"
  have "nval m L mod 2 ^ 31 mod 2 = unat (m ! 1) mod 2 ^ 31 mod 2"
    using nval_mod [OF modulus31D(1) [OF m], of m] by simp
  then have "nval m L mod 2 = unat (m ! 1) mod 2" by (simp add: mod_mod_cancel)
  then show ?thesis by (simp only: odd_iff_mod_2_eq_one)
qed

lemma odd_modulus_ninv:
  assumes m: "modulus31 m L" and odd: "odd (nval m L)"
  shows "odd_modulus m L (br_i31_ninv31 (m ! 1))" "odd (unat (br_i31_ninv31 (m ! 1)))"
proof -
  have o: "odd (unat (m ! 1))" using modulus_parity [OF m] odd by simp
  have "unat (br_i31_ninv31 (m ! 1)) < 2 ^ 31" unfolding br_i31_ninv31_def Let_def unat_and31 by simp
  then show "odd_modulus m L (br_i31_ninv31 (m ! 1))"
    using m odd ninv31_inverse [OF o] by (simp add: odd_modulus_def monty_inverse_def)
  have "2 dvd unat (m ! 1) * unat (br_i31_ninv31 (m ! 1)) + 1" by (rule dvd_trans [OF _ ninv31_inverse [OF o]]) simp
  then show "odd (unat (br_i31_ninv31 (m ! 1)))" using o by simp
qed

lemma public_spec:
  "fst (br_rsa_i31_public stack x pk) = of_bool (rsavp1 pk x \<noteq> None)
   \<and> (\<forall>y. rsavp1 pk x = Some y \<longrightarrow> snd (br_rsa_i31_public stack x pk) = y)"
proof -
  define n where "n = skip_zeros (rsa_n pk)"
  define N where "N = os2ip (rsa_n pk)"
  define k where "k = length n"
  have kk: "rsa_key_bytes pk = k" by (simp add: rsa_key_bytes_def k_def n_def)
  have Nn: "os2ip n = N" by (simp add: n_def N_def os2ip_skip_zeros)
  show ?thesis
  proof (cases "k = 0 \<or> BR_MAX_RSA_SIZE div 8 < k \<or> length x \<noteq> k")
    case True
    have "k = 0 \<Longrightarrow> N = 0" using Nn by (simp add: k_def)
    then have "rsavp1 pk x = None"
      using True unfolding rsavp1_def Let_def kk N_def [symmetric] by auto
    moreover have "br_rsa_i31_public stack x pk = (0, x)"
      using True unfolding br_rsa_i31_public_def Let_def n_def [symmetric] k_def [symmetric] by simp
    ultimately show ?thesis by simp
  next
    case False
    then have k: "0 < k" "k \<le> 512" "length x = k" by (auto simp: BR_MAX_RSA_SIZE_def)
    define tmp where "tmp = map stack [0..<1 + RSA_TLEN]"
    define W where "W = word_count (8 * int k) 1"
    define f where "f = W + W mod 2"
    define m where "m = br_i31_decode (take f tmp) n"
    define m0i where "m0i = br_i31_ninv31 (m ! 1)"
    have TL: "RSA_TLEN = 540" by (simp add: RSA_TLEN_def BR_MAX_RSA_SIZE_def)
    have lt: "length tmp = 541" by (simp add: tmp_def TL)
    have wc: "8 * int k \<le> 31 * (int W - 1)" "31 * (int W - 1) < 8 * int k + 31"
      using word_count [of "8 * int k" 1] by (simp_all add: W_def)
    have f1: "W \<le> f" by (simp add: f_def)
    have fe: "even f" unfolding f_def by presburger
    have "31 * (int W - 1) < 4127" using wc(2) k by linarith
    then have "W \<le> 134" by presburger
    then have f2: "f \<le> 134" unfolding f_def by (rule even_room) simp
    have flen: "8 * length n \<le> 31 * (length (take f tmp) - 1)"
    proof -
      have "8 * int k \<le> 31 * (int f - 1)"
      proof -
        have "31 * (int W - 1) \<le> 31 * (int f - 1)" using f1 by (intro mult_left_mono) simp_all
        with wc(1) show ?thesis by (rule order_trans)
      qed
      then show ?thesis using f2 lt by (simp add: k_def)
    qed
    have pos: "0 < os2ip n" using skip_zeros_pos [of "rsa_n pk"] k(1) unfolding Nn N_def by (simp add: k_def n_def)
    obtain L where m: "modulus31 m L" and mN: "nval m L = N" and lm: "length m = f"
      using decode [OF flen _ pos] k(2) f2 lt unfolding m_def [symmetric] Nn by (auto simp: k_def)
    have Lf: "Suc L \<le> f" using modulus31D(2) [OF m] lm by (simp add: words_ok_def)
    define a0 where "a0 = take f (drop f tmp)"
    have la: "L < length a0" using Lf f2 lt by (simp add: a0_def)
    obtain a where dm: "br_i31_decode_mod a0 x m = (of_bool (os2ip x < N), a)" and l2: "length a = length a0"
      and as: "sized m a L" and av: "nval a L = (if os2ip x < N then os2ip x else 0)"
      using decode_mod [OF m la, of x] unfolding mN by blast
    have m0: "m0i AND 1 = of_bool (odd N)"
    proof (cases "odd N")
      case True
      then have "odd (unat m0i)" unfolding m0i_def using odd_modulus_ninv(2) [OF m] mN by simp
      then show ?thesis using True odd_word [of m0i] by simp
    next
      case False
      then have "m0i = 0" unfolding m0i_def using modulus_parity [OF m] mN by (intro ninv31_even) simp
      then show ?thesis using False by simp
    qed
    define y where "y = br_i31_encode (length x) (case br_i31_modpow_opt a (rsa_e pk) m m0i (drop (2 * f) tmp) (RSA_TLEN - 2 * f) of Some a \<Rightarrow> a | None \<Rightarrow> a)"
    have c: "(k = 0 \<or> BR_MAX_RSA_SIZE div 8 < k \<or> length x \<noteq> k) = False" using False by simp
    have run: "br_rsa_i31_public stack x pk = ((m0i AND 1) AND of_bool (os2ip x < N), y)"
      unfolding br_rsa_i31_public_def Let_def n_def [symmetric] k_def [symmetric] c if_False
      unfolding tmp_def [symmetric] W_def [symmetric] f_def [symmetric] m_def [symmetric] unfolding m0i_def [symmetric] a0_def [symmetric] dm prod.case
      unfolding y_def ..
    have v: "rsavp1 pk x = (if odd N \<and> os2ip x < N then Some (i2osp k (os2ip x ^ os2ip (rsa_e pk) mod N)) else None)"
      unfolding rsavp1_def Let_def kk N_def [symmetric] using k by (simp add: BR_MAX_RSA_SIZE_def)
    have 1: "fst (br_rsa_i31_public stack x pk) = of_bool (rsavp1 pk x \<noteq> None)"
      unfolding run v m0 by (cases "odd N"; cases "os2ip x < N") simp_all
    have "y = i2osp k (os2ip x ^ os2ip (rsa_e pk) mod N)" if ok: "odd N" "os2ip x < N"
    proof -
      have om: "odd_modulus m L m0i" unfolding m0i_def using odd_modulus_ninv(1) [OF m] ok mN by simp
      have ab: "below m a L" using as av ok mN by (simp add: below_def)
      have room: "2 * (Suc L + Suc L mod 2) \<le> RSA_TLEN - 2 * f" "RSA_TLEN - 2 * f \<le> length (drop (2 * f) tmp)"
      proof -
        have "Suc L + Suc L mod 2 \<le> f" by (rule even_room [OF Lf fe])
        then show "2 * (Suc L + Suc L mod 2) \<le> RSA_TLEN - 2 * f" using f2 by (simp add: TL)
        show "RSA_TLEN - 2 * f \<le> length (drop (2 * f) tmp)" by (simp add: TL lt)
      qed
      obtain b where mp: "br_i31_modpow_opt a (rsa_e pk) m m0i (drop (2 * f) tmp) (RSA_TLEN - 2 * f) = Some b"
        and bb: "below m b L" and bv: "nval b L = os2ip x ^ os2ip (rsa_e pk) mod N"
        using modpow_opt [OF om ab refl room, of "rsa_e pk"] av ok mN by auto
      have yb: "y = br_i31_encode k b" unfolding y_def mp using k(3) by simp
      have "sized m b L" using bb by (simp add: below_def)
      from encode [OF m this, of k] have ly: "length y = k" and "os2ip y = nval b L mod 256 ^ k" unfolding yb by simp_all
      moreover have "nval b L < 256 ^ k"
      proof -
        have "nval b L < N" using bb mN by (simp add: below_def)
        also have "N < 256 ^ k" using os2ip_bound [of n] by (simp add: Nn k_def)
        finally show ?thesis .
      qed
      ultimately have "os2ip y = os2ip x ^ os2ip (rsa_e pk) mod N" using bv by simp
      then show ?thesis using i2osp_os2ip [of y] ly by simp
    qed
    then show ?thesis using 1 unfolding v run by simp
  qed
qed

text \<open>
  \<^bold>\<open>C39\<close> The public operation is RSAVP1 of RFC 8017, whatever the arrays on the stack hold before: it returns 1 exactly
  for an odd modulus of at most 4096 bits, not counting leading zero bytes, and a value of the same length that is below
  the modulus, and it returns 0 otherwise; after success the buffer holds, in the same length, the value raised to the
  public exponent modulo the modulus.
\<close>

theorem rsa_public_operation:
  "fst (br_rsa_i31_public stack x pk) = of_bool (rsavp1 pk x \<noteq> None)
   \<and> snd (br_rsa_i31_public stack x pk) = (case rsavp1 pk x of Some y \<Rightarrow> y | None \<Rightarrow> snd (br_rsa_i31_public stack x pk))"
  using public_spec [of stack x pk] by (simp split: option.split)

subsection \<open>The padding of signatures\<close>

lemma skip_ff: "u + left = n \<Longrightarrow>
  u \<le> skip_ff sg u left \<and> skip_ff sg u left \<le> n \<and> (\<forall>i. u \<le> i \<longrightarrow> i < skip_ff sg u left \<longrightarrow> sg ! i = 0xFF)
  \<and> (skip_ff sg u left < n \<longrightarrow> sg ! skip_ff sg u left \<noteq> 0xFF)"
proof (induction left arbitrary: u)
  case (Suc left)
  show ?case
  proof (cases "sg ! u = 0xFF")
    case True
    then show ?thesis using Suc.IH [of "u + 1"] Suc.prems by (auto simp: le_eq_less_or_eq [of u] Suc_le_eq)
  qed (use Suc.prems in simp)
qed simp

text \<open>What is left after the bytes \<open>FF\<close>, and where it begins.\<close>

lemma after_ff:
  assumes "11 \<le> length sg" "take 10 sg = pad1"
  defines "u \<equiv> skip_ff sg 10 (length sg - 10)"
  shows "10 \<le> u" "u \<le> length sg" "sg = [0x00, 0x01] @ replicate (u - 2) 0xFF @ drop u sg"
    and "u < length sg \<Longrightarrow> sg ! u \<noteq> 0xFF"
proof -
  have s: "10 \<le> u \<and> u \<le> length sg \<and> (\<forall>i. 10 \<le> i \<longrightarrow> i < u \<longrightarrow> sg ! i = 0xFF) \<and> (u < length sg \<longrightarrow> sg ! u \<noteq> 0xFF)"
    unfolding u_def by (rule skip_ff) (use assms(1) in simp)
  then show u: "10 \<le> u" "u \<le> length sg" "u < length sg \<Longrightarrow> sg ! u \<noteq> 0xFF" by simp_all
  have "take u sg = [0x00, 0x01] @ replicate (u - 2) 0xFF"
  proof (rule nth_equalityI)
    show "length (take u sg) = length ([0x00, 0x01] @ replicate (u - 2) (0xFF :: u8))" using u by simp
    fix i assume "i < length (take u sg)"
    then have i: "i < u" "i < length sg" by simp_all
    show "take u sg ! i = ([0x00, 0x01] @ replicate (u - 2) 0xFF) ! i"
    proof (cases "10 \<le> i")
      case True
      then show ?thesis using s i by (simp add: nth_append nth_Cons')
    next
      case False
      then have "sg ! i = pad1 ! i" using assms(2) by (metis not_le nth_take)
      moreover have "i = 0 \<or> i = 1 \<or> (2 \<le> i \<and> i - 2 < 8)" using False by linarith
      ultimately show ?thesis using i u(1) by (auto simp: pad1_def nth_append nth_Cons')
    qed
  qed
  then show "sg = [0x00, 0x01] @ replicate (u - 2) 0xFF @ drop u sg" by (metis append.assoc append_take_drop_id)
qed

lemma ff_position:
  assumes sg: "sg = [0x00, 0x01] @ replicate n 0xFF @ 0x00 # R" and n: "8 \<le> n"
  shows "11 \<le> length sg" "take 10 sg = pad1" "skip_ff sg 10 (length sg - 10) = n + 2" "drop (n + 2) sg = 0x00 # R"
proof -
  obtain k where k: "n = 8 + k" using n le_Suc_ex by blast
  have r: "replicate n (0xFF :: u8) = replicate 8 0xFF @ replicate k 0xFF" unfolding k by (rule replicate_add)
  show l: "11 \<le> length sg" using n by (simp add: sg)
  show t: "take 10 sg = pad1" by (simp add: sg r pad1_def)
  show "drop (n + 2) sg = 0x00 # R" by (simp add: sg)
  note a = after_ff [OF l t]
  define u where "u = skip_ff sg 10 (length sg - 10)"
  have u: "10 \<le> u" "u \<le> length sg" "sg = [0x00, 0x01] @ replicate (u - 2) 0xFF @ drop u sg" "u < length sg \<Longrightarrow> sg ! u \<noteq> 0xFF"
    using a unfolding u_def by blast+
  have at: "sg ! (n + 2) = 0x00" by (simp add: sg nth_append)
  have ff: "sg ! i = 0xFF" if "2 \<le> i" "i < n + 2" for i using that by (simp add: sg nth_append nth_Cons')
  have "\<not> u < n + 2" using u(1,4) ff [of u] n by (auto simp: sg)
  moreover have "\<not> n + 2 < u"
  proof
    assume "n + 2 < u"
    then have "n < u - 2" by simp
    then have "([0x00, 0x01] @ replicate (u - 2) 0xFF @ drop u sg) ! (n + 2) = (0xFF :: u8)" by (simp add: nth_append)
    then show False using at unfolding u(3) [symmetric] by simp
  qed
  ultimately show "skip_ff sg 10 (length sg - 10) = n + 2" unfolding u_def [symmetric] by simp
qed

text \<open>The bytes between the last \<open>FF\<close> and the digest.\<close>

definition info_head :: "bool \<Rightarrow> u8 list \<Rightarrow> nat \<Rightarrow> u8 list" where
  "info_head params oid hl =
     (let alg = [0x06] @ oid @ (if params then [0x05, 0x00] else [])
      in [0x00, 0x30, of_nat (length alg + 4 + hl), 0x30, of_nat (length alg)] @ alg @ [0x04, of_nat hl])"

lemma digest_info_head: "0x00 # digest_info params oid h = info_head params oid (length h) @ h"
  by (simp add: digest_info_def info_head_def Let_def add.commute)

lemma length_info_head: "length (info_head params oid hl) = length oid + (if params then 10 else 8)"
  by (simp add: info_head_def Let_def)

text \<open>The array \<open>pad2\<close> of the code holds them.\<close>

definition pad2_of :: "nat \<Rightarrow> u8 list \<Rightarrow> u8 list \<Rightarrow> bool \<Rightarrow> nat \<Rightarrow> u8 list" where
  "pad2_of x3 junk oid params hl =
     (let pad_len = x3 + 9;
          pad2 = replicate pad_len 0 @ drop pad_len junk;
          (x2, pad_len, pad2) = (if \<not> params then (x3 + 2, pad_len, pad2) else (x3 + 4, pad_len + 2, pad2[pad_len + 2 - 4 := 0x05]));
          pad2 = pad2[1 := 0x30, 2 := of_nat (x2 + hl + 4), 3 := 0x30, 4 := of_nat x2, 5 := 0x06];
          pad2 = take 6 pad2 @ take (x3 + 1) oid @ drop (x3 + 7) pad2
      in take pad_len (pad2[pad_len - 2 := 0x04, pad_len - 1 := of_nat hl]))"

lemma update_after: "length P = n \<Longrightarrow> (P @ R)[n + k := c] = P @ R[k := c]"
  by (simp add: list_update_append)

lemma pad2_of:
  assumes oid: "length oid = x3 + 1" "x3 \<le> 32" and junk: "length junk = 43"
  shows "pad2_of x3 junk oid params hl = info_head params oid hl"
proof -
  define J where "J = drop (x3 + 9) junk"
  have J: "2 \<le> length J" using oid junk by (simp add: J_def)
  have r: "replicate (x3 + 9) (0 :: u8) = replicate 6 0 @ replicate (x3 + 1) 0 @ [0, 0]"
  proof -
    have "replicate (6 + ((x3 + 1) + 2)) (0 :: u8) = replicate 6 0 @ replicate (x3 + 1) 0 @ replicate 2 0"
      by (simp only: replicate_add)
    moreover have "6 + ((x3 + 1) + 2) = x3 + 9" "replicate 2 (0 :: u8) = [0, 0]" by (simp_all add: numeral_2_eq_2)
    ultimately show ?thesis by (simp only:)
  qed
  obtain j0 j1 J' where Jc: "J = j0 # j1 # J'" using J by (cases J; cases "tl J") auto
  define Z where "Z = replicate (x3 + 1) (0 :: u8)"
  have lZ: "length Z = x3 + 1" by (simp add: Z_def)
  have base: "replicate (x3 + 9) 0 @ drop (x3 + 9) junk = [0, 0, 0, 0, 0, 0] @ Z @ [0, 0, j0, j1] @ J'"
    unfolding r J_def [symmetric] Jc Z_def by (simp add: numeral_eq_Suc)
  have upd: "([0, a1, a2, a3, a4, a5] @ Z @ [b0, b1, b2, b3] @ J')[x3 + 7 := c] = [0, a1, a2, a3, a4, a5] @ Z @ [c, b1, b2, b3] @ J'" for a1 a2 a3 a4 a5 b0 b1 b2 b3 c
    using update_after [of "[0, a1, a2, a3, a4, a5] @ Z" "x3 + 7" "[b0, b1, b2, b3] @ J'" 0 c] lZ by simp
  have six: "([0, 0, 0, 0, 0, 0] @ R)[1 := a1, 2 := a2, 3 := a3, 4 := a4, 5 := a5] = [0, a1, a2, a3, a4, a5] @ (R :: u8 list)" for a1 a2 a3 a4 a5 R
    by (simp add: numeral_eq_Suc)
  have cpy: "take 6 ([0, a1, a2, a3, a4, a5] @ Z @ R) @ take (x3 + 1) oid @ drop (x3 + 7) ([0, a1, a2, a3, a4, a5] @ Z @ R)
      = [0, a1, a2, a3, a4, a5] @ oid @ (R :: u8 list)" for a1 a2 a3 a4 a5 R
  proof -
    have "length ([0, a1, a2, a3, a4, a5] @ Z) = x3 + 7" using lZ by simp
    then have "drop (x3 + 7) (([0, a1, a2, a3, a4, a5] @ Z) @ R) = R" by (metis append_eq_conv_conj)
    then show ?thesis using oid by simp
  qed
  have fin: "take (x3 + 7 + (k + 2)) (([0, a1, a2, a3, a4, a5] @ oid @ R)[x3 + 7 + k := c, x3 + 7 + (k + 1) := d])
      = [0, a1, a2, a3, a4, a5] @ oid @ take (k + 2) (R[k := c, k + 1 := d])" for a1 a2 a3 a4 a5 R k c d
  proof -
    define P where "P = [0, a1, a2, a3, a4, a5] @ oid"
    have l: "length P = x3 + 7" using oid by (simp add: P_def)
    have "take (x3 + 7 + (k + 2)) ((P @ R)[x3 + 7 + k := c, x3 + 7 + (k + 1) := d]) = P @ take (k + 2) (R[k := c, k + 1 := d])"
      unfolding update_after [OF l] by (simp add: l)
    then show ?thesis by (simp only: P_def append_assoc)
  qed
  show ?thesis
  proof (cases params)
    case False
    have "x3 + 9 = x3 + 7 + (0 + 2)" "x3 + 9 - 2 = x3 + 7 + 0" "x3 + 9 - 1 = x3 + 7 + (0 + 1)" by simp_all
    then show ?thesis using False oid
      unfolding pad2_of_def Let_def base six
      by (simp only: if_True prod.case six cpy fin simp_thms) (simp add: info_head_def Let_def add.commute add.left_commute)
  next
    case True
    have "x3 + 9 + 2 = x3 + 7 + (2 + 2)" "x3 + 9 + 2 - 2 = x3 + 7 + 2" "x3 + 9 + 2 - 1 = x3 + 7 + (2 + 1)" "x3 + 9 + 2 - 4 = x3 + 7" by simp_all
    then show ?thesis using True oid
      unfolding pad2_of_def Let_def base
      by (simp only: if_False prod.case upd six cpy fin simp_thms) (simp add: info_head_def Let_def numeral_eq_Suc)
  qed
qed

lemma zlen_iff:
  assumes "k < 2 ^ 32" "u \<le> k" "hl < 2 ^ 32" "p < 2 ^ 32"
  shows "of_nat k - of_nat u - of_nat hl = (of_nat p :: u64) \<longleftrightarrow> k = u + hl + p"
proof
  assume "of_nat k - of_nat u - of_nat hl = (of_nat p :: u64)"
  then have "(of_nat k :: u64) = of_nat (u + hl + p)" by (simp add: algebra_simps)
  then have "unat (of_nat k :: u64) = unat (of_nat (u + hl + p) :: u64)" by (simp only:)
  moreover have "k < 18446744073709551616" "u + hl + p < 18446744073709551616" using assms by simp_all
  ultimately show "k = u + hl + p" by (simp add: unat_of_nat del: of_nat_add)
next
  assume "k = u + hl + p"
  then show "of_nat k - of_nat u - of_nat hl = (of_nat p :: u64)" by simp
qed

end
