(* ===== verification/RsaVerify.thy ===== *)
theory RsaVerify
  imports RsaProps
begin

section \<open>RSA: a signature is accepted exactly when its block is an encoding of the digest\<close>

unbundle bit_operations_syntax

lemma encodes_iff:
  "encodes em hash_oid h \<longleftrightarrow> (\<exists>n T. T \<in> set (encodings hash_oid h) \<and> 8 \<le> n \<and> em = [0x00, 0x01] @ replicate n 0xFF @ 0x00 # T)"
proof
  assume "encodes em hash_oid h"
  then obtain T where "T \<in> set (encodings hash_oid h)" "length T + 11 \<le> length em" "em = emsa (length em) T"
    by (auto simp: encodes_def)
  then show "\<exists>n T. T \<in> set (encodings hash_oid h) \<and> 8 \<le> n \<and> em = [0x00, 0x01] @ replicate n 0xFF @ 0x00 # T"
    by (intro exI [of _ "length em - length T - 3"] exI [of _ T]) (simp add: emsa_def)
next
  assume "\<exists>n T. T \<in> set (encodings hash_oid h) \<and> 8 \<le> n \<and> em = [0x00, 0x01] @ replicate n 0xFF @ 0x00 # T"
  then obtain n T where "T \<in> set (encodings hash_oid h)" "8 \<le> n" "em = [0x00, 0x01] @ replicate n 0xFF @ 0x00 # T" by blast
  then show "encodes em hash_oid h" unfolding encodes_def by (intro bexI [of _ T]) (simp_all add: emsa_def)
qed

lemma unpad_raw:
  "br_rsa_pkcs1_sig_unpad mem sg None hl = Some h \<longleftrightarrow> length h = hl \<and> encodes sg None h"
proof
  assume a: "br_rsa_pkcs1_sig_unpad mem sg None hl = Some h"
  define u where "u = skip_ff sg 10 (length sg - 10)"
  have p: "length pad1 = 10" by (simp add: pad1_def)
  have c: "11 \<le> length sg" "take 10 sg = pad1" "length sg - u = hl + 1" "sg ! u = 0x00" "h = take hl (drop (length sg - hl) sg)"
    using a unfolding br_rsa_pkcs1_sig_unpad_def Let_def p u_def [symmetric] by (auto split: if_splits)
  note f = after_ff [OF c(1,2), folded u_def]
  have u: "Suc u = length sg - hl" "u < length sg" using c(3) by simp_all
  have "drop u sg = 0x00 # h"
    using Cons_nth_drop_Suc [OF u(2)] c(4,5) u(1) by simp
  then have "sg = [0x00, 0x01] @ replicate (u - 2) 0xFF @ 0x00 # h" using f(3) by simp
  then show "length h = hl \<and> encodes sg None h"
    using c(3,5) f(1) unfolding encodes_iff by (auto simp: encodings_def intro!: exI [of _ "u - 2"])
next
  assume a: "length h = hl \<and> encodes sg None h"
  then obtain n where n: "8 \<le> n" and s: "sg = [0x00, 0x01] @ replicate n 0xFF @ 0x00 # h"
    unfolding encodes_iff by (auto simp: encodings_def)
  note f = ff_position [OF s n]
  have l: "length sg = n + 3 + hl" using s a by simp
  have "sg ! (n + 2) = 0x00" by (simp add: s nth_append)
  moreover have "drop (n + 3) sg = h" by (simp add: s numeral_3_eq_3)
  moreover have p: "length pad1 = 10" by (simp add: pad1_def)
  ultimately show "br_rsa_pkcs1_sig_unpad mem sg None hl = Some h"
    unfolding br_rsa_pkcs1_sig_unpad_def Let_def p f(3) using f(1,2) l a by simp
qed

lemma if_not_eq: "(if a \<noteq> b then x else y) = (if a = b then y else x)"
  by simp

lemma unpad_branches:
  assumes oid: "length oid = unat (oid ! 0) + 1" "unat (oid ! 0) \<le> 32" and l: "length sg < 2 ^ 32" "hl < 2 ^ 32"
    and s: "11 \<le> length sg" "take 10 sg = pad1"
  defines "u \<equiv> skip_ff sg 10 (length sg - 10)"
  shows "br_rsa_pkcs1_sig_unpad mem sg (Some oid) hl =
    (if \<exists>p. length sg = u + hl + length (info_head p oid hl) \<and> take (length (info_head p oid hl)) (drop u sg) = info_head p oid hl
     then Some (take hl (drop (length sg - hl) sg)) else None)"
proof -
  define x3 where "x3 = unat (oid ! 0)"
  define junk where "junk = map mem [0..<43]"
  have o: "length oid = x3 + 1" "x3 \<le> 32" using oid by (simp_all add: x3_def)
  have j: "length junk = 43" by (simp add: junk_def)
  have p: "length pad1 = 10" by (simp add: pad1_def)
  have ul: "u \<le> length sg" unfolding u_def by (rule after_ff(2) [OF s])
  have z: "of_nat (length sg) - of_nat u - of_nat hl = (of_nat q :: u64) \<longleftrightarrow> length sg = u + hl + q" if "q \<le> 43" for q
    by (rule zlen_iff [OF l(1) ul l(2)]) (use that in simp)
  have hd: "length (info_head True oid hl) = x3 + 9 + 2" "length (info_head False oid hl) = x3 + 9"
    using o by (simp_all add: length_info_head)
  have c: "(length sg < 11) = False" "(take 10 sg \<noteq> pad1) = False" using s by simp_all
  show ?thesis
  proof (cases "length sg = u + hl + (x3 + 9)")
    case True
    then have z1: "of_nat (length sg) - of_nat u - of_nat hl = (of_nat (x3 + 9) :: u64)" using z [of "x3 + 9"] o by simp
    have n: "\<not> length sg = u + hl + (x3 + 9 + 2)" using True by simp
    have ex: "(\<exists>p. length sg = u + hl + length (info_head p oid hl) \<and> take (length (info_head p oid hl)) (drop u sg) = info_head p oid hl)
        \<longleftrightarrow> info_head False oid hl = take (x3 + 9) (drop u sg)"
      unfolding ex_bool_eq hd using True n by auto
    show ?thesis
      unfolding ex unfolding pad2_of [OF o j, symmetric] unfolding pad2_of_def br_rsa_pkcs1_sig_unpad_def Let_def p u_def [symmetric] c if_False option.case
        x3_def [symmetric] z1 junk_def [symmetric]
      by (simp only: simp_thms if_True if_False prod.case if_not_eq)
  next
    case not_short: False
    have n1: "of_nat (length sg) - of_nat u - of_nat hl \<noteq> (of_nat (x3 + 9) :: u64)" using z [of "x3 + 9"] o not_short by simp
    show ?thesis
    proof (cases "length sg = u + hl + (x3 + 9 + 2)")
      case True
      then have z2: "of_nat (length sg) - of_nat u - of_nat hl = (of_nat (x3 + 9 + 2) :: u64)" using z [of "x3 + 9 + 2"] o by simp
      have uz: "unat (of_nat (x3 + 9 + 2) :: u64) = x3 + 9 + 2" using o by (simp add: unat_of_nat del: of_nat_add)
      have ne: "(of_nat (x3 + 9 + 2) :: u64) = of_nat (x3 + 9) \<longleftrightarrow> False" using n1 z2 by simp
      have ex: "(\<exists>p. length sg = u + hl + length (info_head p oid hl) \<and> take (length (info_head p oid hl)) (drop u sg) = info_head p oid hl)
          \<longleftrightarrow> info_head True oid hl = take (x3 + 9 + 2) (drop u sg)"
        unfolding ex_bool_eq hd using True by auto
      show ?thesis
        unfolding ex unfolding pad2_of [OF o j, symmetric] unfolding pad2_of_def br_rsa_pkcs1_sig_unpad_def Let_def p u_def [symmetric] c if_False option.case
          x3_def [symmetric] z2 ne uz junk_def [symmetric]
        by (simp only: simp_thms if_True if_False prod.case if_not_eq)
    next
      case False
      have n2: "of_nat (length sg) - of_nat u - of_nat hl \<noteq> (of_nat (x3 + 9 + 2) :: u64)" using z [of "x3 + 9 + 2"] o False by simp
      have ex: "(\<exists>p. length sg = u + hl + length (info_head p oid hl) \<and> take (length (info_head p oid hl)) (drop u sg) = info_head p oid hl)
          \<longleftrightarrow> False"
        unfolding ex_bool_eq hd using False not_short by simp
      show ?thesis
        unfolding ex br_rsa_pkcs1_sig_unpad_def Let_def p u_def [symmetric] c if_False option.case x3_def [symmetric]
        using n1 n2 by simp
    qed
  qed
qed

lemma unpad_spec:
  assumes "oid_ok hash_oid" "length sg < 2 ^ 32" "hl < 2 ^ 32"
  shows "br_rsa_pkcs1_sig_unpad mem sg hash_oid hl = Some h \<longleftrightarrow> length h = hl \<and> encodes sg hash_oid h"
proof (cases hash_oid)
  case None
  then show ?thesis by (simp only: unpad_raw)
next
  case (Some oid)
  have oid: "length oid = unat (oid ! 0) + 1" "unat (oid ! 0) \<le> 32" using assms(1) Some by (simp_all add: oid_ok_def)
  define u where "u = skip_ff sg 10 (length sg - 10)"
  have p: "length pad1 = 10" by (simp add: pad1_def)
  have enc: "encodes sg (Some oid) h \<longleftrightarrow> (\<exists>n p. 8 \<le> n \<and> sg = [0x00, 0x01] @ replicate n 0xFF @ 0x00 # digest_info p oid h)"
    unfolding encodes_iff by (simp add: encodings_def ex_bool_eq) blast
  show ?thesis unfolding Some
  proof
    assume a: "br_rsa_pkcs1_sig_unpad mem sg (Some oid) hl = Some h"
    have s: "11 \<le> length sg" "take 10 sg = pad1"
      using a unfolding br_rsa_pkcs1_sig_unpad_def Let_def p by (simp_all split: if_splits)
    obtain p where l: "length sg = u + hl + length (info_head p oid hl)"
      and t: "take (length (info_head p oid hl)) (drop u sg) = info_head p oid hl" and h: "h = take hl (drop (length sg - hl) sg)"
      using a unfolding unpad_branches [OF oid assms(2,3) s] u_def [symmetric] by (auto split: if_splits)
    define k where "k = length (info_head p oid hl)"
    have lk: "length sg = u + hl + k" using l by (simp add: k_def)
    have lh: "length h = hl" using h lk by simp
    have "drop k (drop u sg) = h" using h lk by (simp add: add.commute)
    with t have "drop u sg = info_head p oid hl @ h" unfolding k_def by (metis append_take_drop_id)
    also have "\<dots> = 0x00 # digest_info p oid h" unfolding lh [symmetric] digest_info_head ..
    finally have d: "drop u sg = 0x00 # digest_info p oid h" .
    note f = after_ff [OF s, folded u_def]
    show "length h = hl \<and> encodes sg (Some oid) h"
      unfolding enc using lh f(1,3) unfolding d by (intro conjI exI [of _ "u - 2"] exI [of _ p]) simp_all
  next
    assume a: "length h = hl \<and> encodes sg (Some oid) h"
    then obtain n p where n: "8 \<le> n" and sg: "sg = [0x00, 0x01] @ replicate n 0xFF @ 0x00 # digest_info p oid h"
      unfolding enc by blast
    note f = ff_position [OF sg n]
    have d: "drop (n + 2) sg = info_head p oid hl @ h" unfolding f(4) digest_info_head using a by simp
    then have l: "length sg - (n + 2) = length (info_head p oid hl) + hl" using a by (metis length_append length_drop)
    have l': "length sg = n + 2 + hl + length (info_head p oid hl)" using l f(1) by (cases p) (simp_all add: length_info_head)
    have "drop (length sg - hl) sg = drop (length (info_head p oid hl)) (drop (n + 2) sg)" unfolding l' by (simp add: add.commute)
    then have "drop (length sg - hl) sg = h" unfolding d by simp
    moreover have "\<exists>p. length sg = n + 2 + hl + length (info_head p oid hl)
        \<and> take (length (info_head p oid hl)) (drop (n + 2) sg) = info_head p oid hl"
      using l' d by (intro exI [of _ p]) simp
    ultimately show "br_rsa_pkcs1_sig_unpad mem sg (Some oid) hl = Some h"
      unfolding unpad_branches [OF oid assms(2,3) f(1,2)] f(3) using a by simp
  qed
qed

lemma length_i2osp_bytes: "rsavp1 pk x = Some y \<Longrightarrow> length y = rsa_key_bytes pk \<and> length x = rsa_key_bytes pk \<and> rsa_key_bytes pk \<le> 512"
  by (auto simp: rsavp1_def Let_def BR_MAX_RSA_SIZE_def split: if_splits)

lemma vrfy_spec:
  assumes "oid_ok hash_oid" "hl < 2 ^ 32"
  shows "br_rsa_i31_pkcs1_vrfy stack mem x hash_oid hl pk = Some h \<longleftrightarrow>
    length h = hl \<and> (\<exists>em. rsavp1 pk x = Some em \<and> encodes em hash_oid h)"
proof (cases "rsavp1 pk x")
  case None
  then have "fst (br_rsa_i31_public stack x pk) = 0" using public_spec [of stack x pk] by simp
  then obtain y where "br_rsa_i31_public stack x pk = (0, y)" by (cases "br_rsa_i31_public stack x pk") simp
  then show ?thesis using None by (simp add: br_rsa_i31_pkcs1_vrfy_def)
next
  case (Some em)
  then have p: "br_rsa_i31_public stack x pk = (1, em)" using public_spec [of stack x pk] by (simp add: prod_eq_iff)
  note l = length_i2osp_bytes [OF Some]
  have lt: "length em < 2 ^ 32" by (rule le_less_trans [of _ 512]) (use l in simp_all)
  have "br_rsa_i31_pkcs1_vrfy stack mem x hash_oid hl pk = br_rsa_pkcs1_sig_unpad mem em hash_oid hl"
    unfolding br_rsa_i31_pkcs1_vrfy_def p using l by (simp add: BR_MAX_RSA_SIZE_def)
  then show ?thesis using unpad_spec [OF assms(1) lt assms(2)] Some by simp
qed

subsection \<open>Verification\<close>

text \<open>
  \<^bold>\<open>C40\<close> The verification of PKCS\#1 v1.5 signatures accepts exactly the valid ones, for every key, signature and hash
  identifier of at most 32 bytes, and whatever the arrays on the stack hold before: it returns a digest of the length
  asked for if and only if the signature, raised to the public exponent, is the padded encoding of that digest, with or
  without the parameters of the algorithm identifier, and nothing else: at least eight bytes FF, no byte left over.
\<close>

theorem pkcs1_verify:
  assumes "oid_ok hash_oid" "hash_len < 2 ^ 32"
  shows "br_rsa_i31_pkcs1_vrfy stack mem x hash_oid hash_len pk = Some h \<longleftrightarrow>
    length h = hash_len \<and> (\<exists>em. rsavp1 pk x = Some em \<and> encodes em hash_oid h)"
  by (rule vrfy_spec [OF assms])

text \<open>A key of 184 bits and a signature of a digest of one byte.\<close>

definition key184 :: br_rsa_public_key where
  "key184 = \<lparr>rsa_n = [0x00, 0xC1, 0x92, 0xD3, 0x7C, 0x60, 0xEF, 0xB9, 0xDA, 0xE5, 0x02, 0x85, 0xD3, 0xF1, 0x7A, 0xC1, 0xA0, 0x96, 0x41, 0x89, 0x4F, 0x99, 0x0B, 0xE1],
     rsa_e = [0x03]\<rparr>"

definition signature184 :: "u8 list" where
  "signature184 = [0x9D, 0x8F, 0x5F, 0xE9, 0xB0, 0x77, 0xCF, 0x19, 0x25, 0xD3, 0x7E, 0x1F, 0xA6, 0xE2, 0x17, 0x57, 0xEC, 0xF8, 0x1E, 0x09, 0x85, 0x44, 0x28]"

definition block184 :: "u8 list" where
  "block184 = [0x00, 0x01] @ replicate 8 0xFF @ 0x00 # digest_info True [0x01, 0x2A] [0x07]"

lemma rsavp1_184: "rsavp1 key184 signature184 = Some block184"
proof -
  have n: "os2ip (rsa_n key184) = 18540661633813751202685485045343690510464289173241662433" by (simp add: key184_def)
  have x: "os2ip signature184 = 15091255323471708143247045430532607125999901745189569576" by (simp add: signature184_def)
  have r: "replicate 8 w = [w, w, w, w, w, w, w, w]" for w :: u8 by (simp add: numeral_eq_Suc)
  have bl: "block184 = [0x00, 0x01, 0xFF, 0xFF, 0xFF, 0xFF, 0xFF, 0xFF, 0xFF, 0xFF, 0x00, 0x30, 0x0A, 0x30, 0x05, 0x06, 0x01, 0x2A, 0x05, 0x00, 0x04, 0x01, 0x07]"
    unfolding block184_def r by (simp add: digest_info_def Let_def)
  have b: "os2ip block184 = 748288838313422294100019092343581113920832433029383" unfolding bl by simp
  have "os2ip signature184 ^ 3 mod os2ip (rsa_n key184) = os2ip block184" unfolding n x b by simp
  moreover have l: "length block184 = 23" by (simp add: block184_def digest_info_def Let_def)
  ultimately have i: "i2osp 23 (os2ip signature184 ^ 3 mod os2ip (rsa_n key184)) = block184"
    using i2osp_os2ip [of block184] by (simp only:)
  have "odd (os2ip (rsa_n key184))" "os2ip signature184 < os2ip (rsa_n key184)" by (simp_all add: n x)
  moreover have "rsa_key_bytes key184 = 23" "length signature184 = 23" "os2ip (rsa_e key184) = 3"
    by (simp_all add: rsa_key_bytes_def skip_zeros_def key184_def signature184_def)
  ultimately show ?thesis unfolding rsavp1_def Let_def by (simp only: i) (simp add: BR_MAX_RSA_SIZE_def)
qed

theorem pkcs1_verify_witness:
  "br_rsa_i31_pkcs1_vrfy (\<lambda>_. 0) (\<lambda>_. 0) signature184 (Some [0x01, 0x2A]) 1 key184 = Some [0x07]"
proof -
  have "encodes block184 (Some [0x01, 0x2A]) [0x07]"
    unfolding encodes_iff block184_def encodings_def by (intro exI conjI) simp_all
  then show ?thesis using pkcs1_verify [of "Some [0x01, 0x2A]" 1] rsavp1_184 by (simp add: oid_ok_def)
qed

end
