(* ===== verification/RsaPriv.thy ===== *)
theory RsaPriv
  imports I31Priv RsaVerify
begin

section \<open>RSA: private keys and signatures (rsa_i31_priv.c, rsa_i31_pkcs1_sign.c)\<close>

text \<open>
  The private operation works with the two factors and puts the result together with the Chinese remainder theorem.  Its
  temporaries are slots of one array on the stack, \<open>fwlen\<close> words each; a slot that is used again is a list of its own here,
  and what it holds before it is written is an argument: \<open>mem i\<close> for the \<open>i\<close>-th use.  Only the last product relies on two
  slots that follow each other: its destination begins at \<open>s2\<close> and goes on over \<open>mp\<close>.
\<close>

unbundle bit_operations_syntax

record br_rsa_private_key =
  n_bitlen :: u32
  rsa_p :: "u8 list"
  rsa_q :: "u8 list"
  rsa_dp :: "u8 list"
  rsa_dq :: "u8 list"
  rsa_iq :: "u8 list"

definition BR_MAX_RSA_FACTOR :: nat where "BR_MAX_RSA_FACTOR = (BR_MAX_RSA_SIZE + 64) div 2"

definition PRIV_TLEN :: nat where "PRIV_TLEN = 8 * (2 + (BR_MAX_RSA_FACTOR + 30) div 31)"

text \<open>The comparison of the value with the modulus: the borrow of a subtraction, byte by byte from the end.\<close>

definition borrow_byte :: "u8 list \<Rightarrow> u8 list \<Rightarrow> nat \<Rightarrow> u32 \<Rightarrow> u32" where
  "borrow_byte x n u r =
     (let wn = ucast (n ! u);
          wx = ucast (x ! u)
      in drop_bit 8 (wx - (wn + r)) AND 1)"

text \<open>One of the two exponentiations: whether it has run, and the number.\<close>

definition crt_power :: "u32 list \<Rightarrow> u8 list \<Rightarrow> u8 list \<Rightarrow> u32 list \<Rightarrow> u32 \<Rightarrow> u32 list \<Rightarrow> nat \<Rightarrow> u32 \<times> u32 list" where
  "crt_power s x d m m0i tmp twlen =
     (let s = br_i31_decode_reduce s x m
      in case br_i31_modpow_opt s d m m0i tmp twlen of Some s \<Rightarrow> (1, s) | None \<Rightarrow> (0, s))"

text \<open>The return code and the contents of the buffer \<open>x\<close>.\<close>

definition br_rsa_i31_private :: "(nat \<Rightarrow> nat \<Rightarrow> u32) \<Rightarrow> u8 list \<Rightarrow> br_rsa_private_key \<Rightarrow> u32 \<times> u8 list" where
  "br_rsa_i31_private mem x sk =
     (let fill = (\<lambda>i len. map (mem i) [0..<len]);
          p = skip_zeros (rsa_p sk);
          q = skip_zeros (rsa_q sk);
          fwlen = word_count (8 * int (if length q < length p then length p else length q)) 1;
          fwlen = fwlen + fwlen mod 2
      in if PRIV_TLEN < 6 * fwlen then (0, x)
         else
           let xlen = unat (drop_bit 3 (n_bitlen sk + 7));
               mq = br_i31_decode (fill 0 fwlen) q;
               t1 = br_i31_decode (fill 1 fwlen) p;
               t2 = br_i31_zero (fill 2 (2 * fwlen)) (mq ! 0);
               t2 = br_i31_mulacc t2 mq t1;
               t3 = br_i31_encode xlen t2;
               r = fold (borrow_byte x t3) (rev [0..<xlen]) 0;
               mp = t1;
               q0i = br_i31_ninv31 (mq ! 1);
               (ok, s2) = crt_power (fill 3 fwlen) (take xlen x) (rsa_dq sk) mq q0i (fill 4 (1 + PRIV_TLEN - 3 * fwlen)) (PRIV_TLEN - 3 * fwlen);
               r = r AND ok;
               p0i = br_i31_ninv31 (mp ! 1);
               (ok, s1) = crt_power (fill 5 fwlen) (take xlen x) (rsa_dp sk) mp p0i (fill 6 (1 + PRIV_TLEN - 4 * fwlen)) (PRIV_TLEN - 4 * fwlen);
               r = r AND ok;
               t2 = br_i31_reduce (fill 7 fwlen) s2 mp;
               (c, s1) = br_i31_sub s1 t2 1;
               s1 = snd (br_i31_add s1 mp c);
               s1 = br_i31_to_monty s1 mp;
               t1 = br_i31_decode_reduce (fill 8 fwlen) (rsa_iq sk) mp;
               t2 = br_i31_montymul t2 s1 t1 mp p0i;
               t3 = br_i31_mulacc (s2 @ mp) mq t2
           in (p0i AND q0i AND r, br_i31_encode xlen t3))"

definition br_rsa_i31_pkcs1_sign ::
  "(nat \<Rightarrow> nat \<Rightarrow> u32) \<Rightarrow> u8 list option \<Rightarrow> u8 list \<Rightarrow> nat \<Rightarrow> br_rsa_private_key \<Rightarrow> u8 list \<Rightarrow> u32 \<times> u8 list" where
  "br_rsa_i31_pkcs1_sign mem hash_oid hash hash_len sk x =
     (case br_rsa_pkcs1_sig_pad hash_oid hash hash_len (n_bitlen sk) of
        None \<Rightarrow> (0, x)
      | Some x \<Rightarrow> br_rsa_i31_private mem x sk)"

subsection \<open>Specification\<close>

text \<open>What the operation expects of a key, and the value it computes (RSADP of RFC 8017, second form).\<close>

definition rsa_private_ok :: "br_rsa_private_key \<Rightarrow> bool" where
  "rsa_private_ok sk \<longleftrightarrow>
     (let p = os2ip (rsa_p sk); q = os2ip (rsa_q sk)
      in odd p \<and> odd q \<and> 1 < p \<and> length (skip_zeros (rsa_p sk)) \<le> 352 \<and> length (skip_zeros (rsa_q sk)) \<le> 352
         \<and> unat (n_bitlen sk) = bit_len (p * q) \<and> os2ip (rsa_iq sk) * q mod p = 1)"

definition rsadp :: "br_rsa_private_key \<Rightarrow> nat \<Rightarrow> nat" where
  "rsadp sk c =
     (let p = os2ip (rsa_p sk); q = os2ip (rsa_q sk);
          s1 = c ^ os2ip (rsa_dp sk) mod p;
          s2 = c ^ os2ip (rsa_dq sk) mod q;
          h = nat ((int s1 - int s2) * int (os2ip (rsa_iq sk)) mod int p)
      in s2 + q * h)"

end
