(* ===== verification/RsaPrivProps.thy ===== *)
theory RsaPrivProps
  imports RsaPriv
begin

section \<open>RSA: the private operation is the one with the Chinese remainder theorem\<close>

unbundle bit_operations_syntax

subsection \<open>The pieces\<close>

lemma unat_byte32: "unat (ucast (b :: u8) :: u32) = unat b"
  unfolding unsigned_ucast_eq take_bit_eq_mod by (rule mod_less) (rule less_trans [OF unat_u8], simp)

lemma borrow_bit: "drop_bit 8 (ucast (a :: u8) - (ucast (b :: u8) + of_bool c)) AND 1 = (of_bool (unat a < unat b + of_bool c) :: u32)"
proof -
  define w where "w = (ucast b + of_bool c :: u32)"
  have ab: "unat a < 256" "unat b < 256" by simp_all
  have w: "unat w = unat b + of_bool c"
  proof -
    have "unat b < 4294967295" "unat b < 4294967296" by (rule less_trans [OF unat_u8], simp)+
    then show ?thesis unfolding w_def by (subst unat_plus) (simp_all add: unat_byte32)
  qed
  have d: "unat (drop_bit 8 (ucast a - w)) = (if unat a < unat b + of_bool c then 2 ^ 24 - 1 else 0)"
  proof (cases "unat a < unat b + of_bool c")
    case True
    then have "unat (ucast a - w) = unat a + 4294967296 - (unat b + of_bool c)" using w by (simp add: unat_sub_if' unat_byte32)
    moreover have "4294967040 \<le> i + 4294967296 - j" "i + 4294967296 - j < 4294967296" if "i < j" "j \<le> 256" for i j :: nat
      using that by simp_all
    moreover have "unat b \<le> 255" using unat_u8 [of b] by linarith
    then have "unat b + of_bool c \<le> 256" by (cases c) simp_all
    ultimately have v: "4294967040 \<le> unat (ucast a - w)" "unat (ucast a - w) < 4294967296" using True by (simp_all only:)
    have "unat (ucast a - w) div 2 ^ 8 = 2 ^ 24 - 1" by (rule div_nat_eqI) (use v in simp_all)
    then show ?thesis using True unfolding unat_shift by (simp only: if_True)
  next
    case False
    then have "unat (ucast a - w) = unat a - (unat b + of_bool c)" using w by (simp add: unat_sub_if' unat_byte32)
    then have "unat (ucast a - w) \<le> unat a" by linarith
    also have "unat a < 2 ^ 8" by simp
    finally have "unat (ucast a - w) < 2 ^ 8" .
    then show ?thesis using False unfolding unat_shift by simp
  qed
  show ?thesis unfolding w_def [symmetric] odd_word d by simp
qed

lemma digit_less:
  fixes X N a b R :: nat
  assumes "X < R" "N < R"
  shows "X + a * R < N + b * R \<longleftrightarrow> a < b + of_bool (X < N)"
proof -
  have "X + a * R < N + b * R" if "a < b"
  proof -
    have "(a + 1) * R \<le> b * R" using that by (intro mult_right_mono) simp_all
    then show ?thesis using assms by simp
  qed
  moreover have "\<not> X + a * R < N + b * R" if "b < a"
  proof -
    have "(b + 1) * R \<le> a * R" using that by (intro mult_right_mono) simp_all
    then show ?thesis using assms by simp
  qed
  ultimately show ?thesis by (cases a b rule: linorder_cases) auto
qed

lemma borrow_bytes:
  assumes "length x = length n"
  shows "fold (borrow_byte x n) (rev [0..<length n]) 0 = of_bool (os2ip x < os2ip n)"
  using assms
proof (induction x n rule: list_induct2)
  case (Cons a x b n)
  have shift: "fold (borrow_byte (a # x) (b # n)) (map Suc us) r = fold (borrow_byte x n) us r" for us r
    by (induction us arbitrary: r) (simp_all add: borrow_byte_def)
  have idx: "rev [0..<length (b # n)] = map Suc (rev [0..<length n]) @ [0]"
    using map_Suc_upt [of 0 "length n"] by (simp add: rev_map [symmetric] upt_conv_Cons del: upt_Suc)
  define c where "c \<longleftrightarrow> os2ip x < os2ip n"
  have "fold (borrow_byte (a # x) (b # n)) (rev [0..<length (b # n)]) 0 = borrow_byte (a # x) (b # n) 0 (of_bool c)"
    unfolding idx fold_append comp_apply shift Cons.IH c_def by simp
  also have "\<dots> = of_bool (unat a < unat b + of_bool c)" by (simp add: borrow_byte_def Let_def borrow_bit)
  also have "unat a < unat b + of_bool c \<longleftrightarrow> os2ip (a # x) < os2ip (b # n)"
    using digit_less [of "os2ip x" "256 ^ length n" "os2ip n" "unat a" "unat b"] os2ip_bound [of x] os2ip_bound [of n] Cons.hyps
    by (simp add: c_def add.commute)
  finally show ?case .
qed simp

lemma crt_power:
  assumes om: "odd_modulus m L m0i" and s: "L < length s" and room: "2 * (Suc L + Suc L mod 2) \<le> tw" "tw \<le> length tmp"
  shows "\<exists>y. crt_power s x d m m0i tmp tw = (1, y) \<and> length y = length s \<and> below m y L \<and> nval y L = os2ip x ^ os2ip d mod nval m L"
proof -
  note dr = decode_reduce [OF odd_modulusD(1) [OF om] s, of x]
  then have b: "below m (br_i31_decode_reduce s x m) L" by simp
  obtain y where "br_i31_modpow_opt (br_i31_decode_reduce s x m) d m m0i tmp tw = Some y" "below m y L"
    "length y = length s" "nval y L = (os2ip x mod nval m L) ^ os2ip d mod nval m L"
    using modpow_opt [OF om b refl room, of d] dr by auto
  then show ?thesis by (simp add: crt_power_def Let_def power_mod)
qed

text \<open>Subtraction modulo \<open>m\<close>.\<close>

lemma sub_add:
  assumes m: "modulus31 m L" and x: "below m x L" and y: "below m y L"
  defines "s \<equiv> snd (br_i31_add (snd (br_i31_sub x y 1)) m (fst (br_i31_sub x y 1)))"
  shows "length s = length x" "below m s L" "int (nval s L) = (int (nval x L) - int (nval y L)) mod int (nval m L)"
proof -
  let ?M = "nval m L" and ?X = "nval x L" and ?Y = "nval y L" and ?R = "(2 :: nat) ^ (31 * L)"
  have h: "words31 (x ! 0) = L" "unat (x ! 0) + 63 < 2 ^ 32" "words_ok x L" "words_ok y L" "x ! 0 = m ! 0"
    using modulus31D [OF m] x y by (simp_all add: below_def sized_def)
  have lt: "?X < ?M" "?Y < ?M" "?M < ?R" using x y nval_bound [OF modulus31D(2) [OF m]] by (simp_all add: below_def)
  have one: "(1 :: u32) = of_bool True" by simp
  obtain t where sub: "br_i31_sub x y 1 = (of_bool (?X < ?Y), t)" and on: "on_words L x t"
    and tv: "nval t L + ?Y = ?X + of_bool (?X < ?Y) * ?R"
    unfolding sub_is_walk [OF h(1,2)] one using sub_walk [OF h(3,4), of True] by auto
  have ts: "sized m t L" "length t = length x" using on h(5) by (simp_all add: on_words_def sized_def)
  obtain u where add: "br_i31_add t m (of_bool (?X < ?Y)) = (of_bool (?R \<le> nval t L + ?M), if ?X < ?Y then u else t)"
    and un: "on_words L t u" and uv: "nval u L = (nval t L + ?M) mod ?R"
    using sized_walks(1) [OF m ts(1), of "?X < ?Y"] by blast
  have s: "s = (if ?X < ?Y then u else t)" unfolding s_def sub fst_conv snd_conv add ..
  have us: "sized m u L" "length u = length x" using un ts by (simp_all add: on_words_def sized_def)
  show "length s = length x" using ts us by (simp add: s)
  have v: "nval s L = (if ?X < ?Y then ?X + ?M - ?Y else ?X - ?Y)"
  proof (cases "?X < ?Y")
    case True
    then have "nval t L + ?M = (?X + ?M - ?Y) + ?R" using tv lt by simp
    then have "nval u L = (?X + ?M - ?Y) mod ?R" unfolding uv by (simp only: mod_add_self2)
    then have "nval u L = ?X + ?M - ?Y" using True lt by simp
    then show ?thesis using True by (simp add: s)
  next
    case False
    then show ?thesis using tv by (simp add: s)
  qed
  then show "below m s L" using lt us ts by (auto simp: below_def s)
  show "int (nval s L) = (int ?X - int ?Y) mod int ?M"
  proof (cases "?X < ?Y")
    case True
    then have "(int ?X - int ?Y) mod int ?M = (int ?X - int ?Y + int ?M) mod int ?M" by simp
    also have "\<dots> = int ?X - int ?Y + int ?M" using True lt by (intro mod_pos_pos_trivial) simp_all
    finally show ?thesis using True lt unfolding v by simp
  next
    case False
    then have "(int ?X - int ?Y) mod int ?M = int ?X - int ?Y" using lt by (intro mod_pos_pos_trivial) simp_all
    then show ?thesis using False unfolding v by (simp add: of_nat_diff)
  qed
qed

subsection \<open>The private operation\<close>

lemma len_bits: "n < 2 ^ k \<Longrightarrow> bit_len n \<le> k"
proof (rule ccontr)
  assume n: "n < 2 ^ k" and "\<not> bit_len n \<le> k"
  then have l: "k \<le> bit_len n - 1" "n \<noteq> 0" by (auto simp: bit_len.simps [of 0] intro: ccontr)
  have "(2 :: nat) ^ k \<le> 2 ^ (bit_len n - 1)" using l(1) by (rule power_increasing) simp
  then show False using bit_len_bounds [of n] n l(2) by linarith
qed

lemma private_spec:
  assumes ok: "rsa_private_ok sk" and len: "length x = (unat (n_bitlen sk) + 7) div 8"
  defines "n \<equiv> os2ip (rsa_p sk) * os2ip (rsa_q sk)"
  shows "fst (br_rsa_i31_private mem x sk) = of_bool (os2ip x < n)"
    "length (snd (br_rsa_i31_private mem x sk)) = length x" "os2ip (snd (br_rsa_i31_private mem x sk)) = rsadp sk (os2ip x)"
    "rsadp sk (os2ip x) < n"
proof -
  define P Q where "P = os2ip (rsa_p sk)" and "Q = os2ip (rsa_q sk)"
  define p q where "p = skip_zeros (rsa_p sk)" and "q = skip_zeros (rsa_q sk)"
  have pq: "os2ip p = P" "os2ip q = Q" by (simp_all add: p_def q_def P_def Q_def os2ip_skip_zeros)
  have K: "odd P" "odd Q" "1 < P" "length p \<le> 352" "length q \<le> 352" "unat (n_bitlen sk) = bit_len (P * Q)" "os2ip (rsa_iq sk) * Q mod P = 1"
    using ok by (simp_all add: rsa_private_ok_def Let_def P_def Q_def p_def q_def)
  have pos: "0 < P" "0 < Q" using K by (simp_all add: odd_pos)
  define k where "k = (if length q < length p then length p else length q)"
  define W where "W = word_count (8 * int k) 1"
  define f where "f = W + W mod 2"
  have kl: "length p \<le> k" "length q \<le> k" "k \<le> 352" using K(4,5) by (simp_all add: k_def)
  have TL: "PRIV_TLEN = 560" by (simp add: PRIV_TLEN_def BR_MAX_RSA_FACTOR_def BR_MAX_RSA_SIZE_def)
  have wc: "8 * int k \<le> 31 * (int W - 1)" "31 * (int W - 1) < 8 * int k + 31"
    using word_count [of "8 * int k" 1] by (simp_all add: W_def)
  have "31 * (int W - 1) < 2847" using wc(2) kl(3) by linarith
  then have "W \<le> 92" by presburger
  then have f92: "f \<le> 92" unfolding f_def by (rule even_room) simp
  have fe: "even f" unfolding f_def by presburger
  have froom: "8 * k \<le> 31 * (f - 1)"
  proof -
    have "31 * (int W - 1) \<le> 31 * (int f - 1)" by (intro mult_left_mono) (simp_all add: f_def)
    then have "8 * int k \<le> 31 * (int f - 1)" using wc(1) by linarith
    then show ?thesis by (cases f) simp_all
  qed
  define fill where "fill = (\<lambda>i len. map (mem i) [0..<len])"
  have fl: "map (mem i) [0..<l] = fill i l" for i l by (simp add: fill_def)
  have lf [simp]: "length (fill i l) = l" for i l by (simp add: fill_def)
  have xlen: "unat (drop_bit 3 (n_bitlen sk + 7)) = length x"
  proof -
    have "P < 256 ^ k" "Q < 256 ^ k"
      using os2ip_bound [of p] os2ip_bound [of q] kl(1,2) unfolding pq
      by (metis less_le_trans one_le_numeral power_increasing)+
    then have "P * Q < 256 ^ k * 256 ^ k" by (rule mult_strict_mono) simp_all
    also have "\<dots> \<le> (2 :: nat) ^ 5632" unfolding pow256 power_add [symmetric] using kl(3) by (intro power_increasing) simp_all
    finally have "bit_len (P * Q) \<le> 5632" by (rule len_bits)
    then have "unat (n_bitlen sk + 7) = unat (n_bitlen sk) + 7" by (subst unat_plus) (simp_all add: K(6))
    then show ?thesis unfolding unat_shift by (simp add: len)
  qed
  define mq mp where "mq = br_i31_decode (fill 0 f) q" and "mp = br_i31_decode (fill 1 f) p"
  obtain Lq where q: "modulus31 mq Lq" "nval mq Lq = Q" "length mq = f"
    using decode [of q "fill 0 f"] froom kl pos unfolding mq_def pq by force
  obtain Lp where p: "modulus31 mp Lp" "nval mp Lp = P" "length mp = f"
    using decode [of p "fill 1 f"] froom kl pos unfolding mp_def pq by force
  have Lf: "Lq < f" "Lp < f" using modulus31D(2) [OF q(1)] modulus31D(2) [OF p(1)] q(3) p(3) by (simp_all add: words_ok_def)
  have lims: "Lq + Lp < 2 ^ 26" "Lq + Lp < 2 * f" using Lf f92 by simp_all
  let ?bits = "31 * (Lq + Lp - 2) + bit_len (unat (mq ! Lq)) + bit_len (unat (mp ! Lp))"
  have PQ: "Q * P < 2 ^ ?bits"
  proof -
    have "Q * P < 2 ^ (31 * (Lq - 1) + bit_len (unat (mq ! Lq))) * 2 ^ (31 * (Lp - 1) + bit_len (unat (mp ! Lp)))"
      using modulus_bounds(2) [OF q(1)] modulus_bounds(2) [OF p(1)] unfolding q(2) p(2) by (rule mult_strict_mono) simp_all
    moreover have "31 * (Lq - 1) + bit_len (unat (mq ! Lq)) + (31 * (Lp - 1) + bit_len (unat (mp ! Lp))) = ?bits"
      using modulus31D(1) [OF q(1)] modulus31D(1) [OF p(1)] by (cases Lq; cases Lp) simp_all
    ultimately show ?thesis by (simp only: power_add [symmetric])
  qed
  have n: "n = Q * P" by (simp add: n_def P_def Q_def)
  have nx: "n < 256 ^ length x"
  proof -
    have "bit_len n \<le> 8 * length x" unfolding len K(6) n by (simp add: mult.commute)
    then have "(2 :: nat) ^ bit_len n \<le> 256 ^ length x" unfolding pow256 by (intro power_increasing) simp_all
    then show ?thesis using bit_len_bounds [of n] by linarith
  qed
  text \<open>The comparison with the modulus.\<close>
  define t2 where "t2 = br_i31_mulacc (br_i31_zero (fill 2 (2 * f)) (mq ! 0)) mq mp"
  have lz: "Lq < length (fill 2 (2 * f))" using lims by simp
  note z = zero_array [OF q(1) lz]
  have psz: "sized mp mp Lp" using modulus31D(2) [OF p(1)] by (simp add: sized_def)
  have t2: "length t2 = 2 * f" "words_ok t2 (words31 (t2 ! 0))" "0 < words31 (t2 ! 0)" "nval t2 (words31 (t2 ! 0)) = n"
    using mulacc [OF q(1) p(1) psz, of "br_i31_zero (fill 2 (2 * f)) (mq ! 0)"] z lims PQ
    unfolding t2_def q(2) p(2) n by (simp_all add: sized_def)
  define t3 where "t3 = br_i31_encode (length x) t2"
  have t3: "length t3 = length x" "os2ip t3 = n"
    using encode_words [OF t2(2,3), of "length x"] nx unfolding t3_def t2(4) by simp_all
  have cmp: "fold (borrow_byte x t3) (rev [0..<length x]) 0 = of_bool (os2ip x < n)"
    using borrow_bytes [of x t3] t3 by simp
  text \<open>The two exponentiations.\<close>
  define q0i p0i where "q0i = br_i31_ninv31 (mq ! 1)" and "p0i = br_i31_ninv31 (mp ! 1)"
  have om: "odd_modulus mq Lq q0i" "odd_modulus mp Lp p0i" and odd: "odd (unat q0i)" "odd (unat p0i)"
    using odd_modulus_ninv [OF q(1)] odd_modulus_ninv [OF p(1)] K(1,2) unfolding q(2) p(2) q0i_def p0i_def by simp_all
  have ev: "Suc Lq + Suc Lq mod 2 \<le> f" "Suc Lp + Suc Lp mod 2 \<le> f" using Lf fe by (intro even_room; simp)+
  obtain s2 where s2: "crt_power (fill 3 f) x (rsa_dq sk) mq q0i (fill 4 (1 + PRIV_TLEN - 3 * f)) (PRIV_TLEN - 3 * f) = (1, s2)"
    "length s2 = f" "below mq s2 Lq" "nval s2 Lq = os2ip x ^ os2ip (rsa_dq sk) mod Q"
    using crt_power [OF om(1), of "fill 3 f" "PRIV_TLEN - 3 * f" "fill 4 (1 + PRIV_TLEN - 3 * f)" x "rsa_dq sk"] Lf ev f92 unfolding q(2) TL by force
  obtain s1 where s1: "crt_power (fill 5 f) x (rsa_dp sk) mp p0i (fill 6 (1 + PRIV_TLEN - 4 * f)) (PRIV_TLEN - 4 * f) = (1, s1)"
    "length s1 = f" "below mp s1 Lp" "nval s1 Lp = os2ip x ^ os2ip (rsa_dp sk) mod P"
    using crt_power [OF om(2), of "fill 5 f" "PRIV_TLEN - 4 * f" "fill 6 (1 + PRIV_TLEN - 4 * f)" x "rsa_dp sk"] Lf ev f92 unfolding p(2) TL by force
  text \<open>The recombination.\<close>
  define u2 where "u2 = br_i31_reduce (fill 7 f) s2 mp"
  define d where "d = br_i31_to_monty (snd (br_i31_add (snd (br_i31_sub s1 u2 1)) mp (fst (br_i31_sub s1 u2 1)))) mp"
  define iq where "iq = br_i31_decode_reduce (fill 8 f) (rsa_iq sk) mp"
  define h where "h = br_i31_montymul u2 d iq mp p0i"
  define y where "y = br_i31_mulacc (s2 @ mp) mq h"
  have u2: "length u2 = f" "below mp u2 Lp" "nval u2 Lp = nval s2 Lq mod P"
    using reduce [OF q(1) s2(3) p(1), of "fill 7 f"] Lf unfolding u2_def p(2) by simp_all
  note sa = sub_add [OF p(1) s1(3) u2(2)]
  note tm = to_monty [OF p(1) sa(2), folded d_def]
  have iq: "below mp iq Lp" "nval iq Lp = os2ip (rsa_iq sk) mod P"
    using decode_reduce [OF p(1), of "fill 8 f" "rsa_iq sk"] Lf unfolding iq_def p(2) by simp_all
  have dok: "words_ok d Lp" using tm by (simp add: below_def sized_def)
  note mm = montymul [OF p(1) odd_modulusD(2) [OF om(2)] iq(1) dok, of u2, folded h_def, unfolded p(2)]
  define v where "v = nval (snd (br_i31_add (snd (br_i31_sub s1 u2 1)) mp (fst (br_i31_sub s1 u2 1)))) Lp"
  have v: "int v = (int (nval s1 Lp) - int (nval s2 Lq)) mod int P"
    unfolding v_def sa(3) u2(3) p(2) by (simp add: zmod_int mod_diff_right_eq)
  have hb: "below mp h Lp" "nval h Lp < P" using mm u2(1) Lf by (simp_all add: below_def p(2))
  have hv: "nval h Lp = v * os2ip (rsa_iq sk) mod P"
  proof -
    have "(nval h Lp * 2 ^ (31 * Lp)) mod P = (nval d Lp * nval iq Lp) mod P" using mm u2(1) Lf by simp
    also have "\<dots> = (v * 2 ^ (31 * Lp) mod P * (os2ip (rsa_iq sk) mod P)) mod P" using tm iq(2) by (simp add: v_def p(2))
    also have "\<dots> = (v * os2ip (rsa_iq sk) * 2 ^ (31 * Lp)) mod P" by (simp only: mod_mult_eq ac_simps)
    finally have "nval h Lp mod P = v * os2ip (rsa_iq sk) mod P" by (rule cancel_R [OF K(1)])
    then show ?thesis using hb(2) by simp
  qed
  have hn: "nval h Lp = nat ((int (nval s1 Lp) - int (nval s2 Lq)) * int (os2ip (rsa_iq sk)) mod int P)"
  proof -
    have "int (nval h Lp) = (int v * int (os2ip (rsa_iq sk))) mod int P" unfolding hv by (simp add: zmod_int)
    also have "\<dots> = ((int (nval s1 Lp) - int (nval s2 Lq)) * int (os2ip (rsa_iq sk))) mod int P"
      unfolding v by (rule mod_mult_left_eq)
    finally show ?thesis by simp
  qed
  have val: "nval s2 Lq + Q * nval h Lp = rsadp sk (os2ip x)"
    unfolding rsadp_def Let_def hn s1(4) s2(4) P_def [symmetric] Q_def [symmetric] ..
  have s2b: "nval s2 Lq < Q" using s2(3) by (simp add: below_def q(2))
  have lt: "nval s2 Lq + Q * nval h Lp < Q * P"
  proof -
    have "nval s2 Lq + Q * nval h Lp < Q * (nval h Lp + 1)" using s2b by simp
    also have "\<dots> \<le> Q * P" using hb(2) by (intro mult_left_mono) simp_all
    finally show ?thesis .
  qed
  have s2m: "words_ok (s2 @ mp) Lq" "nval (s2 @ mp) Lq = nval s2 Lq"
  proof -
    have "words_ok s2 Lq" using s2(3) by (simp add: below_def sized_def)
    then show "words_ok (s2 @ mp) Lq" by (auto simp: words_ok_def nth_append)
    show "nval (s2 @ mp) Lq = nval s2 Lq" using Lf s2(2) by (intro nval_cong) (simp add: nth_append)
  qed
  have hs: "sized mp h Lp" using hb(1) by (simp add: below_def)
  have y: "words_ok y (words31 (y ! 0))" "0 < words31 (y ! 0)" "nval y (words31 (y ! 0)) = rsadp sk (os2ip x)"
    using mulacc [OF q(1) p(1) hs s2m(1)] less_trans [OF lt PQ] lims s2(2) p(3) unfolding y_def s2m(2) q(2) val by simp_all
  have sn: "rsadp sk (os2ip x) < n" using lt val by (simp add: n)
  note enc = encode_words [OF y(1,2), of "length x", unfolded y(3)]
  have "(PRIV_TLEN < 6 * f) = False" using f92 by (simp add: TL)
  then have run: "br_rsa_i31_private mem x sk
      = (p0i AND q0i AND (of_bool (os2ip x < n) AND 1 AND 1), br_i31_encode (length x) y)"
    unfolding br_rsa_i31_private_def Let_def fl p_def [symmetric] q_def [symmetric] k_def [symmetric]
    unfolding W_def [symmetric] unfolding f_def [symmetric] xlen mq_def [symmetric] mp_def [symmetric]
    unfolding q0i_def [symmetric] p0i_def [symmetric] t2_def [symmetric] take_all [OF order_refl]
    unfolding t3_def [symmetric] cmp s1(1) s2(1) prod.case u2_def [symmetric] iq_def [symmetric]
    unfolding case_prod_beta d_def [symmetric] h_def [symmetric] y_def [symmetric]
    by simp
  have "p0i AND q0i AND (of_bool b AND 1 AND 1) = of_bool b" for b
  proof -
    have "p0i AND q0i AND 1 = p0i AND 1" using odd_word [of q0i] odd(1) by simp
    then show ?thesis using odd_word [of p0i] odd(2) by (cases b) simp_all
  qed
  then show "fst (br_rsa_i31_private mem x sk) = of_bool (os2ip x < n)" by (simp add: run)
  show "length (snd (br_rsa_i31_private mem x sk)) = length x" "os2ip (snd (br_rsa_i31_private mem x sk)) = rsadp sk (os2ip x)"
    using enc sn nx by (simp_all add: run)
  show "rsadp sk (os2ip x) < n" by (rule sn)
qed

end
