(* ===== verification/RsaSign.thy ===== *)
theory RsaSign
  imports RsaPrivProps
begin

section \<open>RSA: signatures made with a private key are accepted with its public key\<close>

unbundle bit_operations_syntax

subsection \<open>Prime numbers\<close>

definition is_prime :: "nat \<Rightarrow> bool" where
  "is_prime p \<longleftrightarrow> 1 < p \<and> (\<forall>k\<in>{2..<p}. \<not> k dvd p)"

lemma prime_coprime:
  assumes "is_prime p" "\<not> p dvd j"
  shows "coprime p j"
proof -
  have g: "gcd p j dvd p" "gcd p j dvd j" by simp_all
  have p: "1 < p" "\<And>k. k \<in> {2..<p} \<Longrightarrow> \<not> k dvd p" using assms(1) by (auto simp: is_prime_def)
  have "gcd p j \<le> p" using g(1) p(1) by (intro dvd_imp_le) simp_all
  moreover have "gcd p j \<noteq> p"
  proof
    assume "gcd p j = p"
    then show False using g(2) assms(2) by (simp only:)
  qed
  moreover have "gcd p j \<noteq> 0" using p(1) by simp
  moreover have "gcd p j \<notin> {2..<p}" using p(2) g(1) by blast
  ultimately have "gcd p j = 1" unfolding atLeastLessThan_iff by linarith
  then show ?thesis by (simp add: coprime_iff_gcd_eq_1)
qed

lemma prime_choose:
  assumes p: "is_prime p" and k: "0 < k" "k < p"
  shows "p dvd (p choose k)"
proof -
  have "k * (p choose k) = p * ((p - 1) choose (k - 1))" using k by (intro times_binomial_minus1_eq) simp
  then have "p dvd k * (p choose k)" by simp
  moreover have "coprime p k" using k by (intro prime_coprime [OF p]) (auto dest: dvd_imp_le)
  ultimately show ?thesis by (simp add: coprime_dvd_mult_right_iff)
qed

lemma fermat:
  assumes p: "is_prime p"
  shows "a ^ p mod p = a mod p"
proof (induction a)
  case 0
  then show ?case using p by (simp add: is_prime_def zero_power)
next
  case (Suc a)
  have p1: "1 < p" using p by (simp add: is_prime_def)
  have set: "{..p} = insert 0 (insert p {0<..<p})" using p1 by auto
  have "(a + 1) ^ p = (\<Sum>k\<le>p. (p choose k) * a ^ k)" using binomial_ring [of a 1 p] by simp
  also have "\<dots> = 1 + (a ^ p + (\<Sum>k\<in>{0<..<p}. (p choose k) * a ^ k))" unfolding set using p1 by simp
  finally have e: "Suc a ^ p = 1 + (a ^ p + (\<Sum>k\<in>{0<..<p}. (p choose k) * a ^ k))" by simp
  have "p dvd (\<Sum>k\<in>{0<..<p}. (p choose k) * a ^ k)" by (intro dvd_sum dvd_mult2 prime_choose [OF p]) simp_all
  then obtain c where "(\<Sum>k\<in>{0<..<p}. (p choose k) * a ^ k) = p * c" by (elim dvdE)
  then have "Suc a ^ p mod p = (1 + a ^ p) mod p" unfolding e by (simp add: add.assoc [symmetric])
  also have "\<dots> = (1 + a) mod p" using Suc by (metis mod_add_right_eq)
  finally show ?case by simp
qed

text \<open>Exponents that are inverse modulo \<open>p - 1\<close>.\<close>

lemma exponent_cycle:
  assumes p: "is_prime p"
  shows "a ^ (1 + (p - 1) * t) mod p = a mod p"
proof (induction t)
  case (Suc t)
  have "p = 1 + (p - 1)" using p by (simp add: is_prime_def)
  then have e: "1 + (p - 1) * Suc t = (1 + (p - 1) * t) + (p - 1)" by simp
  have "a ^ (1 + (p - 1) * Suc t) mod p = (a ^ (1 + (p - 1) * t) mod p) * a ^ (p - 1) mod p"
    unfolding e power_add by (simp only: mod_mult_left_eq)
  also have "\<dots> = a * a ^ (p - 1) mod p" unfolding Suc by (simp only: mod_mult_left_eq)
  also have "a * a ^ (p - 1) = a ^ p" using \<open>p = 1 + (p - 1)\<close> by (metis power_add power_one_right)
  also have "a ^ p mod p = a mod p" by (rule fermat [OF p])
  finally show ?case .
qed simp

lemma inverse_exponents:
  assumes p: "is_prime p" and ed: "e * d mod (p - 1) = 1"
  shows "(a ^ d mod p) ^ e mod p = a mod p"
proof -
  have "e * d = 1 + (p - 1) * (e * d div (p - 1))" using ed by (metis add.commute mult_div_mod_eq)
  then have "a ^ (e * d) mod p = a mod p" using exponent_cycle [OF p] by metis
  then show ?thesis by (simp add: power_mod power_mult [symmetric] mult.commute)
qed

lemma coprime_residues:
  fixes a b p q :: nat
  assumes "coprime p q" "a mod p = b mod p" "a mod q = b mod q"
  shows "a mod (p * q) = b mod (p * q)"
  using assms(2,3)
proof (induction a b rule: linorder_wlog)
  case (le a b)
  have "p dvd b - a" "q dvd b - a" using le by (simp_all add: mod_eq_dvd_iff_nat [symmetric])
  then have "p * q dvd b - a" using assms(1) by (simp add: divides_mult)
  then show ?case using le.hyps by (simp add: mod_eq_dvd_iff_nat [symmetric])
qed simp

subsection \<open>Pairs of keys\<close>

definition rsa_key_pair :: "br_rsa_public_key \<Rightarrow> br_rsa_private_key \<Rightarrow> bool" where
  "rsa_key_pair pk sk \<longleftrightarrow>
     (let p = os2ip (rsa_p sk); q = os2ip (rsa_q sk); e = os2ip (rsa_e pk)
      in is_prime p \<and> is_prime q \<and> os2ip (rsa_n pk) = p * q \<and> rsa_key_bytes pk \<le> BR_MAX_RSA_SIZE div 8 \<and> rsa_private_ok sk
         \<and> e * os2ip (rsa_dp sk) mod (p - 1) = 1 \<and> e * os2ip (rsa_dq sk) mod (q - 1) = 1)"

lemma rsadp_inverse:
  assumes k: "rsa_key_pair pk sk" and c: "c < os2ip (rsa_n pk)"
  shows "rsadp sk c ^ os2ip (rsa_e pk) mod os2ip (rsa_n pk) = c"
proof -
  define p q e where "p = os2ip (rsa_p sk)" and "q = os2ip (rsa_q sk)" and "e = os2ip (rsa_e pk)"
  define iq where "iq = os2ip (rsa_iq sk)"
  define s1 s2 where "s1 = c ^ os2ip (rsa_dp sk) mod p" and "s2 = c ^ os2ip (rsa_dq sk) mod q"
  define h where "h = nat ((int s1 - int s2) * int iq mod int p)"
  have K: "is_prime p" "is_prime q" "os2ip (rsa_n pk) = p * q" "e * os2ip (rsa_dp sk) mod (p - 1) = 1" "e * os2ip (rsa_dq sk) mod (q - 1) = 1"
    "iq * q mod p = 1"
    using k by (simp_all add: rsa_key_pair_def rsa_private_ok_def Let_def p_def q_def e_def iq_def)
  have p: "0 < p" using K(1) by (simp add: is_prime_def)
  have y: "rsadp sk c = s2 + q * h" by (simp add: rsadp_def Let_def p_def q_def s1_def s2_def iq_def h_def)
  have yq: "rsadp sk c mod q = s2 mod q" by (simp add: y)
  have yp: "rsadp sk c mod p = s1 mod p"
  proof -
    have i: "int iq * int q mod int p = 1" using K(6) by (metis of_nat_1 of_nat_mult zmod_int)
    have "int h = (int s1 - int s2) * int iq mod int p" using p by (simp add: h_def)
    then have "int (rsadp sk c) mod int p = (int s2 + int q * ((int s1 - int s2) * int iq)) mod int p"
      unfolding y of_nat_add of_nat_mult by (metis mod_add_right_eq mod_mult_right_eq)
    also have "int q * ((int s1 - int s2) * int iq) = (int s1 - int s2) * (int iq * int q)" by simp
    also have "(int s2 + (int s1 - int s2) * (int iq * int q)) mod int p = (int s2 + (int s1 - int s2) * 1) mod int p"
      using i by (metis mod_add_right_eq mod_mult_right_eq)
    finally have "int (rsadp sk c) mod int p = int s1 mod int p" by simp
    then show ?thesis by (metis of_nat_eq_iff zmod_int)
  qed
  have cop: "coprime p q"
  proof (rule prime_coprime [OF K(1)])
    show "\<not> p dvd q"
    proof
      assume "p dvd q"
      then have "iq * q mod p = 0" by simp
      then show False using K(6) by simp
    qed
  qed
  have "rsadp sk c ^ e mod p = (s1 ^ e) mod p" using yp by (metis power_mod)
  also have "\<dots> = c mod p" unfolding s1_def by (rule inverse_exponents [OF K(1,4)])
  finally have 1: "rsadp sk c ^ e mod p = c mod p" .
  have "rsadp sk c ^ e mod q = (s2 ^ e) mod q" using yq by (metis power_mod)
  also have "\<dots> = c mod q" unfolding s2_def by (rule inverse_exponents [OF K(2,5)])
  finally have 2: "rsadp sk c ^ e mod q = c mod q" .
  have "rsadp sk c ^ e mod (p * q) = c mod (p * q)" by (rule coprime_residues [OF cop 1 2])
  then show ?thesis using c by (simp add: K(3) e_def)
qed

subsection \<open>Padding\<close>

lemma pad_spec:
  fixes nb :: u32
  assumes "oid_ok hash_oid" "length hash = hash_len"
  defines "T \<equiv> hd (encodings hash_oid hash)" and "k \<equiv> unat (drop_bit 3 (nb + 7))"
  shows "br_rsa_pkcs1_sig_pad hash_oid hash hash_len nb = (if length T + 11 \<le> k then Some (emsa k T) else None)"
proof (cases hash_oid)
  case None
  then show ?thesis using assms(2)
    by (auto simp: br_rsa_pkcs1_sig_pad_def Let_def T_def k_def encodings_def emsa_def)
next
  case (Some oid)
  define x3 where "x3 = unat (oid ! 0)"
  have o: "length oid = x3 + 1" using assms(1) Some by (simp add: oid_ok_def x3_def)
  have T: "T = digest_info True oid hash" by (simp add: T_def Some encodings_def)
  have lT: "length T = x3 + hash_len + 10" using o assms(2) by (simp add: T digest_info_def Let_def)
  show ?thesis
  proof (cases "length T + 11 \<le> k")
    case False
    then show ?thesis using lT by (simp add: br_rsa_pkcs1_sig_pad_def Let_def Some x3_def [symmetric] k_def [symmetric])
  next
    case True
    then have "k - x3 - hash_len - 11 - 2 = k - length T - 3" using lT by simp
    moreover have "\<not> k < x3 + hash_len + 21" using True lT by simp
    ultimately show ?thesis using o assms(2) True
      by (simp add: br_rsa_pkcs1_sig_pad_def Let_def Some x3_def [symmetric] k_def [symmetric] emsa_def T digest_info_def add.commute add.left_commute)
  qed
qed

text \<open>The length of the modulus in bytes, from the number of its bits.\<close>

lemma key_bytes:
  assumes "0 < os2ip n"
  shows "length (skip_zeros n) = (bit_len (os2ip n) + 7) div 8" "256 ^ (length (skip_zeros n) - 1) \<le> os2ip n"
proof -
  obtain b bs where s: "skip_zeros n = b # bs"
    using assms os2ip_skip_zeros [of n] by (cases "skip_zeros n") auto
  have "b \<noteq> 0" using hd_dropWhile [of "\<lambda>b. b = 0" n] s unfolding skip_zeros_def by (metis list.distinct(1) list.sel(1))
  then have "0 < unat b" by (simp add: unat_gt_0)
  then have "1 * 256 ^ length bs \<le> unat b * 256 ^ length bs" by (intro mult_right_mono) simp_all
  moreover have "os2ip n = unat b * 256 ^ length bs + os2ip bs" using os2ip_skip_zeros [of n] by (simp add: s)
  ultimately have lo: "256 ^ length bs \<le> os2ip n" by linarith
  then show "256 ^ (length (skip_zeros n) - 1) \<le> os2ip n" by (simp add: s)
  have "os2ip n < 256 ^ length (skip_zeros n)" using os2ip_bound [of "skip_zeros n"] by (simp add: os2ip_skip_zeros)
  then have up: "bit_len (os2ip n) \<le> 8 * length (skip_zeros n)" unfolding pow256 by (rule len_bits)
  have "8 * length bs < bit_len (os2ip n)"
  proof (rule ccontr)
    assume "\<not> 8 * length bs < bit_len (os2ip n)"
    then have "(2 :: nat) ^ bit_len (os2ip n) \<le> 256 ^ length bs" unfolding pow256 by (intro power_increasing) simp_all
    then show False using bit_len_bounds [of "os2ip n"] lo by linarith
  qed
  then show "length (skip_zeros n) = (bit_len (os2ip n) + 7) div 8" using up by (simp add: s)
qed

subsection \<open>Signing and verifying\<close>

definition signs :: "br_rsa_public_key \<Rightarrow> u8 list option \<Rightarrow> u8 list \<Rightarrow> bool" where
  "signs pk hash_oid hash \<longleftrightarrow> length (hd (encodings hash_oid hash)) + 11 \<le> rsa_key_bytes pk"

lemma key_pair_bytes:
  assumes "rsa_key_pair pk sk"
  shows "unat (drop_bit 3 (n_bitlen sk + 7)) = rsa_key_bytes pk" "rsa_key_bytes pk = (unat (n_bitlen sk) + 7) div 8"
    "256 ^ (rsa_key_bytes pk - 1) \<le> os2ip (rsa_n pk)" "rsa_key_bytes pk \<le> 512" "odd (os2ip (rsa_n pk))"
proof -
  define p q where "p = os2ip (rsa_p sk)" and "q = os2ip (rsa_q sk)"
  have K: "os2ip (rsa_n pk) = p * q" "odd p" "odd q" "unat (n_bitlen sk) = bit_len (p * q)" and le: "rsa_key_bytes pk \<le> 512"
    using assms by (simp_all add: rsa_key_pair_def rsa_private_ok_def Let_def p_def q_def BR_MAX_RSA_SIZE_def)
  show "rsa_key_bytes pk \<le> 512" by (rule le)
  show "odd (os2ip (rsa_n pk))" using K by simp
  have n: "0 < os2ip (rsa_n pk)" using K by (simp add: odd_pos)
  show b: "rsa_key_bytes pk = (unat (n_bitlen sk) + 7) div 8" "256 ^ (rsa_key_bytes pk - 1) \<le> os2ip (rsa_n pk)"
    using key_bytes [OF n] K by (simp_all add: rsa_key_bytes_def)
  have "unat (n_bitlen sk) < 8 * 513"
    using le b(1) by linarith
  then have "unat (n_bitlen sk + 7) = unat (n_bitlen sk) + 7" by (subst unat_plus) simp_all
  then show "unat (drop_bit 3 (n_bitlen sk + 7)) = rsa_key_bytes pk" unfolding unat_shift by (simp add: b(1))
qed

lemma sign_spec:
  assumes k: "rsa_key_pair pk sk" and o: "oid_ok hash_oid" and room: "signs pk hash_oid hash"
  shows "\<exists>s. br_rsa_i31_pkcs1_sign mem hash_oid hash (length hash) sk x = (1, s)
    \<and> rsavp1 pk s = Some (emsa (rsa_key_bytes pk) (hd (encodings hash_oid hash)))"
proof -
  define T where "T = hd (encodings hash_oid hash)"
  define n where "n = os2ip (rsa_n pk)"
  define em where "em = emsa (rsa_key_bytes pk) T"
  note B = key_pair_bytes [OF k, folded n_def]
  have lT: "length T + 11 \<le> rsa_key_bytes pk" using room by (simp add: signs_def T_def)
  have pad: "br_rsa_pkcs1_sig_pad hash_oid hash (length hash) (n_bitlen sk) = Some em"
    using pad_spec [OF o refl, of hash "n_bitlen sk"] lT unfolding B(1) T_def [symmetric] em_def by simp
  have le: "length em = rsa_key_bytes pk" using lT by (simp add: em_def emsa_def)
  have lt: "os2ip em < n"
  proof -
    obtain em' where e: "em = 0x00 # em'" by (simp add: em_def emsa_def)
    have "os2ip em < 256 ^ length em'" using os2ip_bound [of em'] by (simp add: e)
    also have "length em' = rsa_key_bytes pk - 1" using le by (simp add: e)
    also have "256 ^ (rsa_key_bytes pk - 1) \<le> n" by (rule B(3))
    finally show ?thesis .
  qed
  have ok: "rsa_private_ok sk" and n: "n = os2ip (rsa_p sk) * os2ip (rsa_q sk)"
    using k by (simp_all add: rsa_key_pair_def Let_def n_def)
  have lx: "length em = (unat (n_bitlen sk) + 7) div 8" using le B(2) by simp
  note P = private_spec [OF ok lx, folded n]
  define s where "s = snd (br_rsa_i31_private mem em sk)"
  have run: "br_rsa_i31_pkcs1_sign mem hash_oid hash (length hash) sk x = (1, s)"
    using P(1) [of mem] lt by (simp add: br_rsa_i31_pkcs1_sign_def pad s_def prod_eq_iff)
  have "os2ip s ^ os2ip (rsa_e pk) mod n = os2ip em"
    unfolding s_def P(3) n_def by (rule rsadp_inverse [OF k]) (use lt in \<open>simp only: n_def\<close>)
  then have v: "i2osp (rsa_key_bytes pk) (os2ip s ^ os2ip (rsa_e pk) mod n) = em" using i2osp_os2ip [of em] le by simp
  have c: "rsa_key_bytes pk \<le> BR_MAX_RSA_SIZE div 8 \<and> odd n \<and> length s = rsa_key_bytes pk \<and> os2ip s < n"
    using B(4,5) P(2-4) le by (simp add: s_def BR_MAX_RSA_SIZE_def)
  have "rsavp1 pk s = Some em" unfolding rsavp1_def Let_def n_def [symmetric] using c by (simp only: v if_True simp_thms)
  then show ?thesis using run by (simp add: em_def T_def)
qed

lemma sign_verify:
  assumes k: "rsa_key_pair pk sk" and o: "oid_ok hash_oid" and room: "signs pk hash_oid hash"
  shows "\<exists>s. br_rsa_i31_pkcs1_sign mem hash_oid hash (length hash) sk x = (1, s)
    \<and> br_rsa_i31_pkcs1_vrfy stack mem' s hash_oid (length hash) pk = Some hash"
proof -
  define T where "T = hd (encodings hash_oid hash)"
  obtain s where s: "br_rsa_i31_pkcs1_sign mem hash_oid hash (length hash) sk x = (1, s)"
    and v: "rsavp1 pk s = Some (emsa (rsa_key_bytes pk) T)"
    using sign_spec [OF assms] unfolding T_def by blast
  have lT: "length T + 11 \<le> rsa_key_bytes pk" and Tin: "T \<in> set (encodings hash_oid hash)"
    using room by (auto simp: signs_def T_def encodings_def split: option.splits)
  have "length (emsa (rsa_key_bytes pk) T) = rsa_key_bytes pk" using lT by (simp add: emsa_def)
  then have enc: "encodes (emsa (rsa_key_bytes pk) T) hash_oid hash" unfolding encodes_def using lT Tin by metis
  have "length hash \<le> length T"
    by (cases hash_oid) (simp_all add: T_def encodings_def digest_info_def Let_def)
  then have "length hash \<le> 512" using lT key_pair_bytes(4) [OF k] by linarith
  then have "length hash < 2 ^ 32" by (rule le_less_trans) simp
  then have "br_rsa_i31_pkcs1_vrfy stack mem' s hash_oid (length hash) pk = Some hash"
    unfolding vrfy_spec [OF o \<open>length hash < 2 ^ 32\<close>] using v enc by blast
  then show ?thesis using s by blast
qed

text \<open>
  \<^bold>\<open>C0\<close> A signature made with the private key is accepted with the public key, for every pair of RSA keys (prime factors,
  exponents that are inverse modulo each factor minus one, the inverse of the second factor modulo the first, exact bit length) with a modulus of at most 4096 bits, every
  digest and every hash identifier for which the padded digest fits the modulus, and whatever the arrays on the stack
  hold before: signing returns 1 and verifying the signature returns the digest.
\<close>

theorem sign_then_verify:
  assumes "rsa_key_pair pk sk" "oid_ok hash_oid" "signs pk hash_oid hash"
  shows "\<exists>s. br_rsa_i31_pkcs1_sign mem hash_oid hash (length hash) sk x = (1, s)
    \<and> br_rsa_i31_pkcs1_vrfy stack mem' s hash_oid (length hash) pk = Some hash"
  by (rule sign_verify [OF assms])

subsection \<open>A pair of keys\<close>

text \<open>Numbers \<open>c * 2 ^ m + 1\<close> with a small \<open>c\<close> are prime when a power is \<open>- 1\<close> (the criterion of Proth).\<close>

lemma odd_part: "0 < n \<Longrightarrow> \<exists>s t. n = 2 ^ s * t \<and> odd (t :: nat)"
proof (induction n rule: less_induct)
  case (less n)
  show ?case
  proof (cases "even n")
    case True
    then obtain k where k: "n = 2 * k" by (elim evenE)
    then obtain s t where "k = 2 ^ s * t" "odd t" using less.IH [of k] less.prems by auto
    then show ?thesis using k by (intro exI [of _ "Suc s"] exI [of _ t]) simp
  next
    case False
    then show ?thesis by (intro exI [of _ 0] exI [of _ n]) simp
  qed
qed

lemma odd_power_dvd: "odd t \<Longrightarrow> X + 1 dvd X ^ t + (1 :: nat)"
proof (induction t rule: less_induct)
  case (less t)
  show ?case
  proof (cases "t = 1")
    case False
    then have "t = (t - 2) + 2" "odd (t - 2)" using less.prems by presburger+
    then obtain u where t: "t = u + 2" "odd u" by blast
    have "X ^ t + 1 + (X + 1) * X ^ u = X ^ u * X * (X + 1) + (X ^ u + 1)" by (simp add: t power_add algebra_simps power2_eq_square)
    moreover have "X + 1 dvd X ^ u + 1" using less.IH [OF _ t(2)] t by simp
    then have "X + 1 dvd X ^ u * X * (X + 1) + (X ^ u + 1)" by (rule dvd_add [OF dvd_triv_right])
    ultimately have "X + 1 dvd (X ^ t + 1) + (X + 1) * X ^ u" by (simp only:)
    then show ?thesis by (simp only: dvd_add_left_iff dvd_triv_left)
  qed simp
qed

lemma least_divisor:
  assumes "2 \<le> d" "d dvd N"
  shows "\<exists>r. is_prime r \<and> r dvd N \<and> r \<le> d"
proof -
  define r where "r = (LEAST k. 2 \<le> k \<and> k dvd N)"
  have r: "2 \<le> r \<and> r dvd N" unfolding r_def by (rule LeastI [of _ d]) (use assms in simp)
  have least: "k dvd N \<Longrightarrow> 2 \<le> k \<Longrightarrow> r \<le> k" for k unfolding r_def by (rule Least_le) simp
  have "\<not> k dvd r" if "k \<in> {2..<r}" for k
  proof
    assume "k dvd r"
    then have "k dvd N" using r dvd_trans by blast
    then show False using least [of k] that by simp
  qed
  then show ?thesis using r least assms by (intro exI [of _ r]) (auto simp: is_prime_def)
qed

lemma proth_divisor:
  assumes r: "is_prime r" "odd r" and m: "0 < m" and X: "r dvd a ^ (c * 2 ^ (m - 1)) + 1"
  shows "2 ^ m dvd r - 1"
proof -
  have r1: "1 < r" using r(1) by (simp add: is_prime_def)
  obtain s t where st: "r - 1 = 2 ^ s * t" "odd t" using odd_part [of "r - 1"] r1 by auto
  have "m \<le> s"
  proof (rule ccontr)
    assume "\<not> m \<le> s"
    then have ms: "m - 1 = s + (m - 1 - s)" by simp
    define w where "w = (a ^ c) ^ 2 ^ (m - 1 - s)"
    have "(a ^ (c * 2 ^ (m - 1))) ^ t = w ^ (r - 1)"
    proof -
      have "c * 2 ^ (m - 1) * t = c * (2 ^ (m - 1 - s) * (2 ^ s * t))" by (subst ms) (simp add: power_add ac_simps)
      then show ?thesis unfolding w_def st(1) power_mult [symmetric] by (simp only: mult.assoc)
    qed
    moreover have "r dvd (a ^ (c * 2 ^ (m - 1))) ^ t + 1" by (rule dvd_trans [OF X odd_power_dvd [OF st(2)]])
    ultimately have d: "r dvd w ^ (r - 1) + 1" by simp
    have "\<not> r dvd w"
    proof
      assume "r dvd w"
      moreover have "0 < r - 1" using r1 by simp
      ultimately have "r dvd w ^ (r - 1)" by (simp add: dvd_power_le dvd_trans dvd_power)
      then have "r dvd 1" using d by (simp only: dvd_add_right_iff)
      then show False using r1 by simp
    qed
    then have cop: "coprime r w" by (rule prime_coprime [OF r(1)])
    have "w ^ r mod r = w mod r" by (rule fermat [OF r(1)])
    moreover have "w ^ r = w ^ (r - 1) * w" using r1 by (cases r) simp_all
    ultimately have "(w ^ (r - 1) * w) mod r = (1 * w) mod r" by simp
    moreover have w1: "1 \<le> w ^ (r - 1)" using \<open>\<not> r dvd w\<close> by (cases w) simp_all
    ultimately have "r dvd w ^ (r - 1) * w - 1 * w" by (subst mod_eq_dvd_iff_nat [symmetric]) simp_all
    then have "r dvd (w ^ (r - 1) - 1) * w" by (simp only: diff_mult_distrib)
    then have "r dvd w ^ (r - 1) - 1" using cop by (simp add: coprime_dvd_mult_left_iff)
    then have "r dvd (w ^ (r - 1) + 1) - (w ^ (r - 1) - 1)" using d by (rule dvd_diff_nat [rotated])
    then have "r dvd 2" using w1 by simp
    then have "r \<le> 2" by (rule dvd_imp_le) simp
    then have "r = 2" using r1 by simp
    then show False using r(2) by simp
  qed
  then show ?thesis unfolding st(1) by (simp add: le_imp_power_dvd dvd_mult2)
qed

lemma proth:
  assumes N: "N = c * 2 ^ m + 1" and c: "0 < c" "c < 2 ^ m" and m: "0 < m" and X: "a ^ (c * 2 ^ (m - 1)) mod N = N - 1"
  shows "is_prime N"
  unfolding is_prime_def
proof (intro conjI ballI notI)
  show N1: "1 < N" using c by (simp add: N)
  fix d assume "d \<in> {2..<N}" and dv: "d dvd N"
  then have d: "2 \<le> d" "d < N" by simp_all
  obtain e where e: "N = d * e" using dv by (elim dvdE)
  have e2: "2 \<le> e"
  proof (rule ccontr)
    assume "\<not> 2 \<le> e"
    then have "e = 0 \<or> e = 1" by linarith
    then show False using e d by auto
  qed
  have "N dvd a ^ (c * 2 ^ (m - 1)) + 1"
  proof -
    have "(a ^ (c * 2 ^ (m - 1)) + 1) mod N = (N - 1 + 1) mod N" unfolding X [symmetric] by (simp only: mod_add_left_eq)
    then show ?thesis using N1 by (simp add: dvd_eq_mod_eq_0)
  qed
  then have big: "2 ^ m < r" if "is_prime r" "r dvd N" for r
  proof -
    have "odd N" using m by (simp add: N)
    then have "odd r" using that(2) by (metis dvd_trans)
    have "2 ^ m dvd r - 1"
      by (rule proth_divisor [OF that(1) \<open>odd r\<close> m]) (rule dvd_trans [OF that(2) \<open>N dvd a ^ (c * 2 ^ (m - 1)) + 1\<close>])
    moreover have "0 < r - 1" using that(1) by (simp add: is_prime_def)
    ultimately have "2 ^ m \<le> r - 1" by (rule dvd_imp_le)
    then show ?thesis using \<open>0 < r - 1\<close> by linarith
  qed
  obtain r1 where r1: "is_prime r1" "r1 dvd N" "r1 \<le> d" using least_divisor [OF d(1) dv] by blast
  obtain r2 where r2: "is_prime r2" "r2 dvd N" "r2 \<le> e" using least_divisor [OF e2, of N] e by auto
  have "2 ^ m + 1 \<le> d" "2 ^ m + 1 \<le> e" using big [OF r1(1,2)] big [OF r2(1,2)] r1(3) r2(3) by linarith+
  then have "(2 ^ m + 1) * (2 ^ m + 1) \<le> N" unfolding e by (rule mult_le_mono)
  moreover have "N < (2 ^ m + 1) * (2 ^ m + 1)"
  proof -
    have "c * 2 ^ m \<le> 2 ^ m * 2 ^ m" using c by (intro mult_right_mono) simp_all
    moreover have "(2 ^ m + 1) * (2 ^ m + 1) = 2 ^ m * 2 ^ m + 2 * 2 ^ m + (1 :: nat)" by (simp add: algebra_simps)
    moreover have "0 < (2 :: nat) ^ m" by simp
    ultimately show ?thesis unfolding N by linarith
  qed
  ultimately show False by linarith
qed

text \<open>Repeated squaring, to evaluate the power.\<close>

primrec square_mod :: "int \<Rightarrow> nat \<Rightarrow> int \<Rightarrow> int" where
  "square_mod N 0 x = x mod N"
| "square_mod N (Suc k) x = square_mod N k (x * x mod N)"

lemma square_mod: "square_mod N k x = x ^ 2 ^ k mod N"
proof (induction k arbitrary: x)
  case (Suc k)
  have "(x * x mod N) ^ 2 ^ k mod N = (x * x) ^ 2 ^ k mod N" by (rule power_mod)
  also have "(x * x) ^ 2 ^ k = x ^ 2 ^ Suc k" by (simp add: power2_eq_square [symmetric] power_mult [symmetric])
  finally show ?case using Suc by simp
qed simp

lemma proth_prime:
  assumes "N = c * 2 ^ m + 1" "0 < c" "c < 2 ^ m" "0 < m" "square_mod (int N) (m - 1) (int (a ^ c)) = int (N - 1)"
  shows "is_prime N"
proof (rule proth [OF assms(1-4)])
  have "int (a ^ (c * 2 ^ (m - 1)) mod N) = int (N - 1)"
    using assms(5) by (simp add: square_mod zmod_int power_mult)
  then show "a ^ (c * 2 ^ (m - 1)) mod N = N - 1" by (simp only: of_nat_eq_iff)
qed

lemma prime_p: "is_prime 96757023244289"
proof (rule proth_prime [of _ 11 43 3])
  have "square_mod 96757023244289 42 177147 = 96757023244288" by code_simp
  then show "square_mod (int 96757023244289) (43 - 1) (int (3 ^ 11)) = int (96757023244289 - 1)" by simp
qed simp_all

lemma prime_q: "is_prime 50577534877697"
proof (rule proth_prime [of _ 23 41 3])
  have "square_mod 50577534877697 40 94143178827 = 50577534877696" by code_simp
  then show "square_mod (int 50577534877697) (41 - 1) (int (3 ^ 23)) = int (50577534877697 - 1)" by simp
qed simp_all

definition public92 :: br_rsa_public_key where
  "public92 = \<lparr>rsa_n = [0x0F, 0xD0, 0x00, 0x00, 0x00, 0x00, 0x86, 0x00, 0x00, 0x00, 0x00, 0x01], rsa_e = [0x03]\<rparr>"

definition private92 :: br_rsa_private_key where
  "private92 = \<lparr>n_bitlen = 92, rsa_p = [0x58, 0x00, 0x00, 0x00, 0x00, 0x01],
     rsa_q = [0x2E, 0x00, 0x00, 0x00, 0x00, 0x01], rsa_dp = [0x3A, 0xAA, 0xAA, 0xAA, 0xAA, 0xAB],
     rsa_dq = [0x1E, 0xAA, 0xAA, 0xAA, 0xAA, 0xAB], rsa_iq = [0x53, 0xCF, 0x3C, 0xF3, 0xCF, 0x40]\<rparr>"

lemma numbers92:
  "os2ip (rsa_n public92) = 4893731717800166233768722433" "os2ip (rsa_e public92) = 3" "os2ip (rsa_p private92) = 96757023244289" "os2ip (rsa_q private92) = 50577534877697"
  "os2ip (rsa_dp private92) = 64504682162859" "os2ip (rsa_dq private92) = 33718356585131" "os2ip (rsa_iq private92) = 92149545946944"
  by (simp_all add: public92_def private92_def)

lemma pair92: "rsa_key_pair public92 private92"
proof -
  have "bit_len 4893731717800166233768722433 = 92"
  proof (rule antisym)
    show "bit_len 4893731717800166233768722433 \<le> 92" by (rule len_bits) simp
    have "(2 :: nat) ^ 91 < 2 ^ bit_len 4893731717800166233768722433" by (rule le_less_trans [of _ 4893731717800166233768722433]) (use bit_len_bounds [of 4893731717800166233768722433] in simp_all)
    then have "91 < bit_len 4893731717800166233768722433" by (simp only: power_strict_increasing_iff one_less_numeral_iff semiring_norm)
    then show "92 \<le> bit_len 4893731717800166233768722433" by simp
  qed
  moreover have "(96757023244289 :: nat) * 50577534877697 = 4893731717800166233768722433" by simp
  ultimately have "rsa_private_ok private92"
    unfolding rsa_private_ok_def Let_def numbers92 by (simp add: private92_def skip_zeros_def)
  moreover have "rsa_key_bytes public92 \<le> BR_MAX_RSA_SIZE div 8"
    by (simp add: rsa_key_bytes_def public92_def skip_zeros_def BR_MAX_RSA_SIZE_def)
  ultimately show ?thesis unfolding rsa_key_pair_def Let_def numbers92 using prime_p prime_q by simp
qed

theorem sign_then_verify_witness:
  "\<exists>s. br_rsa_i31_pkcs1_sign (\<lambda>_ _. 0) None [0x2A] 1 private92 [] = (1, s)
    \<and> br_rsa_i31_pkcs1_vrfy (\<lambda>_. 0) (\<lambda>_. 0) s None 1 public92 = Some [0x2A]"
proof -
  have "signs public92 None [0x2A]"
    by (simp add: signs_def encodings_def rsa_key_bytes_def public92_def skip_zeros_def)
  then show ?thesis
    using sign_then_verify [OF pair92, of None "[0x2A]" "\<lambda>_ _. 0" "[]" "\<lambda>_. 0" "\<lambda>_. 0"] by (simp add: oid_ok_def)
qed

end
