(* ===== verification/Spec2Isabelle.thy ===== *)
theory Spec2Isabelle
  imports SaMain PolyProps SwitchProps SslIoProps RsaSign
begin

text \<open>
  A verification library for \<^verbatim>\<open>sa\<close>, an agent in C: it sends a conversation to a model over HTTPS,
  reads the answer as a stream of events, runs the tools the answer asks for and repeats.  The
  sources are \<^verbatim>\<open>main.c\<close> (the agent), \<^verbatim>\<open>tinyjson.h\<close> (JSON), \<^verbatim>\<open>config.def.h\<close> and a vendored copy
  of BearSSL.

  \<^bold>\<open>How the parts interact.\<close>  \<open>main\<close> reads flags, skills, rules and the session file, builds the
  system prompt and the tool schemas, and calls \<open>chat_turn\<close> for each prompt.  \<open>chat_turn\<close> prints the
  request with the JSON library, calls \<open>do_turn\<close>, appends the answer to the conversation and to the
  session file, runs the tools with \<open>dispatch\<close>, and goes on until no tool is asked for.  \<open>do_turn\<close>
  connects, posts the request and feeds the body, decoded from chunks, to \<open>on_chunk\<close>, which
  splits it into events and fills the block table that \<open>blocks_to_content\<close> turns into a message.
  Everything a function reads or changes outside its arguments is in the record \<open>world\<close> (theory World):
  files, descriptors, streams, flags, and scripts of what the operating system, the connection and the commands will
  answer; all theorems hold for arbitrary scripts.

  \<^bold>\<open>Theories of the agent.\<close>
  Prelude (C strings, decimal text, maps), Config (\<^verbatim>\<open>config.def.h\<close>), World;
  Buffers (\<open>buf_t\<close>, \<open>cj_buf\<close>, the doubling of capacities also on 64-bit words);
  CDouble, CJson, JParse, JPrint, JRound (\<^verbatim>\<open>tinyjson.h\<close>: numbers, trees, parser, printer, round trip);
  Url, Http, HttpSource, HttpBody, Net, NetProps (URL, sockets, response headers and body, one request);
  Sse, SseProps, SseWire, SseMessage (event stream and block table);
  FileTools, FileToolProps, Schemas (tools and their descriptions);
  Skills, Rules, Prompt (files that extend the system prompt);
  Session (the session file), Chat, ChatProps (the loop), SaMain (\<open>main\<close>).
  A function of the source keeps its name; a loop of a function has a name of its own and its lines
  in the manifest.

  \<^bold>\<open>Theories of BearSSL.\<close>
  CtWords and BrCodec (\<^verbatim>\<open>inner.h\<close>, \<^verbatim>\<open>codec\<close>: branch-free primitives, integer encoding);
  MdHash, HashClass, Md5Sha1, Sha2 (\<^verbatim>\<open>hash\<close>: rounds as unrolled, streaming contexts, tables);
  Hmac, Kdf, KdfProps (HMAC, the pseudo-random functions of TLS, HKDF, HMAC\_DRBG, MGF1 over any hash table);
  SslEngine, SslEngineProps (\<^verbatim>\<open>ssl_engine.c\<close>: buffers, records, client interface);
  ChaCha20, Poly1305, PolyProps (\<^verbatim>\<open>chacha20_ct.c\<close>, \<^verbatim>\<open>poly1305_ctmul.c\<close>, against RFC 8439);
  Aes, AesField, AesProps, AesModes (\<^verbatim>\<open>aes_common.c\<close>, \<^verbatim>\<open>aes_small_*.c\<close>, against FIPS 197 and SP 800-38A);
  Ghash, GhashField, GhashProps (\<^verbatim>\<open>ghash_ctmul.c\<close>, against SP 800-38D);
  RecAead, RecProps, GcmProps (\<^verbatim>\<open>ssl_rec_chapol.c\<close>, \<^verbatim>\<open>ssl_rec_gcm.c\<close>, against RFC 7905 and RFC 5288);
  SslKeys, SwitchProps (the end of \<^verbatim>\<open>ssl_engine.c\<close>: secrets, key block, switching to encryption);
  SslIo, SslIoProps (\<^verbatim>\<open>ssl_io.c\<close>: the blocking calls the agent makes);
  I31, I31Arith, I31Div, I31Muladd, I31Monty, I31Pow, I31Modpow, I31Codec (\<^verbatim>\<open>int/i31_*.c\<close>: integers of 31-bit words, the
  functions with their values, modular exponentiation with a window, decoding and encoding);
  Rsa, RsaProps, RsaVerify (\<^verbatim>\<open>rsa\<close>: public keys and the verification of signatures, against RFC 8017).

  \<^bold>\<open>What the lemmas show.\<close>  For the agent: every operation returns, whatever the network, the
  model, the tools and the disk answer; arrays and buffers stay in bounds; the message stored is the one
  sent; every tool call is answered; the session file can be read back and a damaged one is
  healed; printing and parsing are inverse.  For BearSSL: each hash function computes the digest of its standard for any split into updates,
  the constructions over it are those of their RFCs, and the record engine stays within its buffers
  for every sequence of client operations.  The ciphers are those of their standards, except for one case of Poly1305, where the code
  is shown to return a wrong tag; the records built on them have the bytes of their RFCs, and two engines that share secrets read each other's records.  The
  blocking calls keep the engine in order, but closing can wait for ever on a broken connection.  The word-wise
  big integers compute the integer operations they stand for, so that the public operation of RSA is that of its RFC for every key, and the arrays on the
  stack have no influence on it.  The locales state interfaces: a source of bytes, the codec of
  a range of integers, a streaming hash and the function it computes, the functions that records are encrypted with; each is interpreted on the
  definitions of the code.  Some theorems state what the code does where that is not what it means to do; they are the
  findings of the manifest.

  \<^bold>\<open>Bounds and fuel.\<close>  There is no fuel: recursions are structural or have a measure.  The
  loop of a chat turn counts \<open>MAX_TOOL_ITER\<close> = 60 passes as the source does.  Loops over the network
  end because each pass uses up the script of the world or the bytes to come.  The loop of \<open>jump_handshake\<close>, which need not end for an
  arbitrary handshake processor, is a partial function; it is shown to end within two passes for every
  processor that reports what it has read.  Lengths of type \<^verbatim>\<open>size_t\<close> are natural numbers except where wrap-around matters
  (capacities, bit counters, words of the hash functions); C strings end at their first NUL.

  \<^bold>\<open>Not modelled.\<close>  Failing allocations (the agent aborts or treats them like NULL results), the terminal, time and
  signals beyond their flag.  Of BearSSL: the handshake code (generated from T0), certificates, elliptic
  curves, private and generated RSA keys, the integers with words of other sizes, the other implementations of the ciphers and the records in CBC and CCM, multihash, the session cache, PEM and
  DER encoding, the platform's random source,
  and its tools, tests and samples.  \<^verbatim>\<open>ca.h\<close> holds
  only certificates.
\<close>

end
